(* ===== verification/Prelude.thy ===== *)
theory Prelude
  imports "HOL-Library.Word" "HOL-Library.Monad_Syntax"
begin

unbundle bit_operations_syntax

text \<open>
  The shared vocabulary of the development: machine integers, C assertions, bounds-checked
  memory and the result codes of \<^verbatim>\<open>lib/isc/include/isc/result.h\<close>.

  A C function that can fail an assertion or touch memory out of bounds is a function into
  \<open>option\<close>: \<open>None\<close> is the abort (a failed \<^verbatim>\<open>REQUIRE\<close>, \<^verbatim>\<open>ENSURE\<close> or \<^verbatim>\<open>INSIST\<close>,
  or an access outside the object), and \<open>Some\<close> carries what the call returns, an
  \<open>isc_result\<close> code included.  Proving \<open>Some\<close> is proving that the call neither
  asserts nor overruns.  Memory reachable from a pointer is the list of its octets.
\<close>

section \<open>Machine integers\<close>

type_synonym u8 = "8 word"
type_synonym u16 = "16 word"
type_synonym u32 = "32 word"
type_synonym u64 = "64 word"
type_synonym bytes = "u8 list"

section \<open>Proof collections\<close>

named_theorems run_simps \<open>equations that execute one checked step of a model\<close>
named_theorems wf_intros \<open>introduction rules for well-formedness invariants\<close>
named_theorems wf_dests \<open>what a well-formedness invariant gives\<close>

section \<open>Assertions\<close>

definition REQUIRE :: "bool \<Rightarrow> unit option" where
  "REQUIRE c = (if c then Some () else None)"

definition ENSURE :: "bool \<Rightarrow> unit option" where
  "ENSURE c = (if c then Some () else None)"

definition INSIST :: "bool \<Rightarrow> unit option" where
  "INSIST c = (if c then Some () else None)"

lemma REQUIRE_True [simp, run_simps]: "c \<Longrightarrow> REQUIRE c = Some ()"
  by (simp add: REQUIRE_def)

lemma ENSURE_True [simp, run_simps]: "c \<Longrightarrow> ENSURE c = Some ()"
  by (simp add: ENSURE_def)

lemma INSIST_True [simp, run_simps]: "c \<Longrightarrow> INSIST c = Some ()"
  by (simp add: INSIST_def)

lemma REQUIRE_False [simp, run_simps]: "\<not> c \<Longrightarrow> REQUIRE c = None"
  by (simp add: REQUIRE_def)

lemma ENSURE_False [simp, run_simps]: "\<not> c \<Longrightarrow> ENSURE c = None"
  by (simp add: ENSURE_def)

lemma INSIST_False [simp, run_simps]: "\<not> c \<Longrightarrow> INSIST c = None"
  by (simp add: INSIST_def)

lemma REQUIRE_eq_Some [simp]: "REQUIRE c = Some u \<longleftrightarrow> c"
  by (simp add: REQUIRE_def)

lemma ENSURE_eq_Some [simp]: "ENSURE c = Some u \<longleftrightarrow> c"
  by (simp add: ENSURE_def)

lemma INSIST_eq_Some [simp]: "INSIST c = Some u \<longleftrightarrow> c"
  by (simp add: INSIST_def)

lemmas bind_SomeD = Option.bind_eq_Some_conv [THEN iffD1]

section \<open>Bounds-checked memory\<close>

definition peek :: "'a list \<Rightarrow> nat \<Rightarrow> 'a option" where
  "peek m i = (if i < length m then Some (m ! i) else None)"

definition poke :: "'a list \<Rightarrow> nat \<Rightarrow> 'a \<Rightarrow> 'a list option" where
  "poke m i v = (if i < length m then Some (m[i := v]) else None)"

text \<open>\<open>fetch m i n\<close> reads \<open>n\<close> octets at \<open>i\<close>; \<open>blit m i s\<close> is a \<^verbatim>\<open>memmove\<close> of \<open>s\<close> to \<open>m + i\<close>.\<close>

definition fetch :: "'a list \<Rightarrow> nat \<Rightarrow> nat \<Rightarrow> 'a list option" where
  "fetch m i n = (if i + n \<le> length m then Some (take n (drop i m)) else None)"

definition blit :: "'a list \<Rightarrow> nat \<Rightarrow> 'a list \<Rightarrow> 'a list option" where
  "blit m i s =
     (if i + length s \<le> length m then Some (take i m @ s @ drop (i + length s) m) else None)"

lemma peek_Some [simp, run_simps]: "i < length m \<Longrightarrow> peek m i = Some (m ! i)"
  by (simp add: peek_def)

lemma peek_None [simp]: "length m \<le> i \<Longrightarrow> peek m i = None"
  by (simp add: peek_def)

lemma peek_eq_Some: "peek m i = Some v \<longleftrightarrow> i < length m \<and> v = m ! i"
  by (auto simp: peek_def)

lemma poke_Some [simp, run_simps]: "i < length m \<Longrightarrow> poke m i v = Some (m[i := v])"
  by (simp add: poke_def)

lemma poke_eq_Some: "poke m i v = Some m' \<longleftrightarrow> i < length m \<and> m' = m[i := v]"
  by (auto simp: poke_def)

lemma fetch_Some [simp, run_simps]:
  "i + n \<le> length m \<Longrightarrow> fetch m i n = Some (take n (drop i m))"
  by (simp add: fetch_def)

lemma fetch_eq_Some: "fetch m i n = Some v \<longleftrightarrow> i + n \<le> length m \<and> v = take n (drop i m)"
  by (auto simp: fetch_def)

lemma blit_Some [simp, run_simps]:
  "i + length s \<le> length m \<Longrightarrow> blit m i s = Some (take i m @ s @ drop (i + length s) m)"
  by (simp add: blit_def)

lemma blit_eq_Some:
  "blit m i s = Some m' \<longleftrightarrow>
     i + length s \<le> length m \<and> m' = take i m @ s @ drop (i + length s) m"
  by (auto simp: blit_def)

lemma length_blit: "blit m i s = Some m' \<Longrightarrow> length m' = length m"
  by (auto simp: blit_def split: if_splits)

lemma take_blit: "blit m i s = Some m' \<Longrightarrow> take i m' = take i m"
  by (auto simp: blit_def split: if_splits)

lemma take_blit_end:
  "blit m i s = Some m' \<Longrightarrow> take (i + length s) m' = take i m @ s"
  by (auto simp: blit_def split: if_splits)

section \<open>Result codes\<close>

text \<open>The codes of \<^verbatim>\<open>isc_result_t\<close> the modelled functions return.\<close>

datatype isc_result =
    ISC_R_SUCCESS | ISC_R_NOMEMORY | ISC_R_NOSPACE | ISC_R_NOTFOUND | ISC_R_FAILURE
  | ISC_R_NOMORE | ISC_R_UNEXPECTEDEND | ISC_R_RANGE | ISC_R_BADNUMBER
  | ISC_R_BADBASE64 | ISC_R_BADBASE32 | ISC_R_BADHEX | ISC_R_NOTIMPLEMENTED
  | DNS_R_LABELTOOLONG | DNS_R_BADESCAPE | DNS_R_EMPTYLABEL | DNS_R_BADLABELTYPE
  | DNS_R_BADPOINTER | DNS_R_DISALLOWED | DNS_R_NAMETOOLONG | DNS_R_SYNTAX | DNS_R_BADTTL
  | DNS_R_TOOMANYKEYS | DNS_R_NOKEYMATCH | DNS_R_KEYNOTACTIVE | DST_R_WRITEERROR | DST_R_UNSUPPORTEDALG
  | ISC_R_EOF | ISC_R_UNBALANCED | ISC_R_UNBALANCEDQUOTES | ISC_R_UNEXPECTEDTOKEN | ISC_R_IOERROR
  | DST_R_INVALIDPRIVATEKEY | DST_R_CRYPTOFAILURE | DST_R_SIGNFAILURE | DST_R_VERIFYFAILURE | DST_R_NULLKEY

section \<open>Octets\<close>

lemma unat_u8_less [simp]: "unat (b :: u8) < 256"
  using unsigned_less [of b] by simp

lemma unat_u8_le [simp]: "unat (b :: u8) \<le> 255"
  using unat_u8_less [of b] by linarith

lemma unat_of_nat_u8 [simp]: "n < 256 \<Longrightarrow> unat (of_nat n :: u8) = n"
  by (simp add: unat_of_nat take_bit_nat_eq_self)

lemma of_nat_u8_eq_iff:
  "m < 256 \<Longrightarrow> n < 256 \<Longrightarrow> (of_nat m :: u8) = of_nat n \<longleftrightarrow> m = n"
  by (metis unat_of_nat_u8)

end
