(* ===== verification/Ascii.thy ===== *)
theory Ascii
  imports Prelude
begin

text \<open>
  ASCII case folding: \<^verbatim>\<open>lib/isc/include/isc/ascii.h\<close> and the two tables of
  \<^verbatim>\<open>lib/isc/ascii.c\<close>.  DNS names compare case-insensitively, so these routines decide name
  equality and order.  The code folds eight octets at a time with word arithmetic
  (\<open>isc_ascii_tolower8\<close>); the lemmas show that it computes what the obvious octet-by-octet
  loop computes, on hosts of either byte order.
\<close>

section \<open>The tables of ascii.c\<close>

definition isc__ascii_tolower :: bytes where
  "isc__ascii_tolower =
    [0x00, 0x01, 0x02, 0x03, 0x04, 0x05, 0x06, 0x07, 0x08, 0x09, 0x0a, 0x0b,
     0x0c, 0x0d, 0x0e, 0x0f, 0x10, 0x11, 0x12, 0x13, 0x14, 0x15, 0x16, 0x17,
     0x18, 0x19, 0x1a, 0x1b, 0x1c, 0x1d, 0x1e, 0x1f, 0x20, 0x21, 0x22, 0x23,
     0x24, 0x25, 0x26, 0x27, 0x28, 0x29, 0x2a, 0x2b, 0x2c, 0x2d, 0x2e, 0x2f,
     0x30, 0x31, 0x32, 0x33, 0x34, 0x35, 0x36, 0x37, 0x38, 0x39, 0x3a, 0x3b,
     0x3c, 0x3d, 0x3e, 0x3f, 0x40, 0x61, 0x62, 0x63, 0x64, 0x65, 0x66, 0x67,
     0x68, 0x69, 0x6a, 0x6b, 0x6c, 0x6d, 0x6e, 0x6f, 0x70, 0x71, 0x72, 0x73,
     0x74, 0x75, 0x76, 0x77, 0x78, 0x79, 0x7a, 0x5b, 0x5c, 0x5d, 0x5e, 0x5f,
     0x60, 0x61, 0x62, 0x63, 0x64, 0x65, 0x66, 0x67, 0x68, 0x69, 0x6a, 0x6b,
     0x6c, 0x6d, 0x6e, 0x6f, 0x70, 0x71, 0x72, 0x73, 0x74, 0x75, 0x76, 0x77,
     0x78, 0x79, 0x7a, 0x7b, 0x7c, 0x7d, 0x7e, 0x7f, 0x80, 0x81, 0x82, 0x83,
     0x84, 0x85, 0x86, 0x87, 0x88, 0x89, 0x8a, 0x8b, 0x8c, 0x8d, 0x8e, 0x8f,
     0x90, 0x91, 0x92, 0x93, 0x94, 0x95, 0x96, 0x97, 0x98, 0x99, 0x9a, 0x9b,
     0x9c, 0x9d, 0x9e, 0x9f, 0xa0, 0xa1, 0xa2, 0xa3, 0xa4, 0xa5, 0xa6, 0xa7,
     0xa8, 0xa9, 0xaa, 0xab, 0xac, 0xad, 0xae, 0xaf, 0xb0, 0xb1, 0xb2, 0xb3,
     0xb4, 0xb5, 0xb6, 0xb7, 0xb8, 0xb9, 0xba, 0xbb, 0xbc, 0xbd, 0xbe, 0xbf,
     0xc0, 0xc1, 0xc2, 0xc3, 0xc4, 0xc5, 0xc6, 0xc7, 0xc8, 0xc9, 0xca, 0xcb,
     0xcc, 0xcd, 0xce, 0xcf, 0xd0, 0xd1, 0xd2, 0xd3, 0xd4, 0xd5, 0xd6, 0xd7,
     0xd8, 0xd9, 0xda, 0xdb, 0xdc, 0xdd, 0xde, 0xdf, 0xe0, 0xe1, 0xe2, 0xe3,
     0xe4, 0xe5, 0xe6, 0xe7, 0xe8, 0xe9, 0xea, 0xeb, 0xec, 0xed, 0xee, 0xef,
     0xf0, 0xf1, 0xf2, 0xf3, 0xf4, 0xf5, 0xf6, 0xf7, 0xf8, 0xf9, 0xfa, 0xfb,
     0xfc, 0xfd, 0xfe, 0xff]"

definition isc__ascii_toupper :: bytes where
  "isc__ascii_toupper =
    [0x00, 0x01, 0x02, 0x03, 0x04, 0x05, 0x06, 0x07, 0x08, 0x09, 0x0a, 0x0b,
     0x0c, 0x0d, 0x0e, 0x0f, 0x10, 0x11, 0x12, 0x13, 0x14, 0x15, 0x16, 0x17,
     0x18, 0x19, 0x1a, 0x1b, 0x1c, 0x1d, 0x1e, 0x1f, 0x20, 0x21, 0x22, 0x23,
     0x24, 0x25, 0x26, 0x27, 0x28, 0x29, 0x2a, 0x2b, 0x2c, 0x2d, 0x2e, 0x2f,
     0x30, 0x31, 0x32, 0x33, 0x34, 0x35, 0x36, 0x37, 0x38, 0x39, 0x3a, 0x3b,
     0x3c, 0x3d, 0x3e, 0x3f, 0x40, 0x41, 0x42, 0x43, 0x44, 0x45, 0x46, 0x47,
     0x48, 0x49, 0x4a, 0x4b, 0x4c, 0x4d, 0x4e, 0x4f, 0x50, 0x51, 0x52, 0x53,
     0x54, 0x55, 0x56, 0x57, 0x58, 0x59, 0x5a, 0x5b, 0x5c, 0x5d, 0x5e, 0x5f,
     0x60, 0x41, 0x42, 0x43, 0x44, 0x45, 0x46, 0x47, 0x48, 0x49, 0x4a, 0x4b,
     0x4c, 0x4d, 0x4e, 0x4f, 0x50, 0x51, 0x52, 0x53, 0x54, 0x55, 0x56, 0x57,
     0x58, 0x59, 0x5a, 0x7b, 0x7c, 0x7d, 0x7e, 0x7f, 0x80, 0x81, 0x82, 0x83,
     0x84, 0x85, 0x86, 0x87, 0x88, 0x89, 0x8a, 0x8b, 0x8c, 0x8d, 0x8e, 0x8f,
     0x90, 0x91, 0x92, 0x93, 0x94, 0x95, 0x96, 0x97, 0x98, 0x99, 0x9a, 0x9b,
     0x9c, 0x9d, 0x9e, 0x9f, 0xa0, 0xa1, 0xa2, 0xa3, 0xa4, 0xa5, 0xa6, 0xa7,
     0xa8, 0xa9, 0xaa, 0xab, 0xac, 0xad, 0xae, 0xaf, 0xb0, 0xb1, 0xb2, 0xb3,
     0xb4, 0xb5, 0xb6, 0xb7, 0xb8, 0xb9, 0xba, 0xbb, 0xbc, 0xbd, 0xbe, 0xbf,
     0xc0, 0xc1, 0xc2, 0xc3, 0xc4, 0xc5, 0xc6, 0xc7, 0xc8, 0xc9, 0xca, 0xcb,
     0xcc, 0xcd, 0xce, 0xcf, 0xd0, 0xd1, 0xd2, 0xd3, 0xd4, 0xd5, 0xd6, 0xd7,
     0xd8, 0xd9, 0xda, 0xdb, 0xdc, 0xdd, 0xde, 0xdf, 0xe0, 0xe1, 0xe2, 0xe3,
     0xe4, 0xe5, 0xe6, 0xe7, 0xe8, 0xe9, 0xea, 0xeb, 0xec, 0xed, 0xee, 0xef,
     0xf0, 0xf1, 0xf2, 0xf3, 0xf4, 0xf5, 0xf6, 0xf7, 0xf8, 0xf9, 0xfa, 0xfb,
     0xfc, 0xfd, 0xfe, 0xff]"

definition isc_ascii_tolower :: "u8 \<Rightarrow> u8" where
  "isc_ascii_tolower c = isc__ascii_tolower ! unat c"

definition isc_ascii_toupper :: "u8 \<Rightarrow> u8" where
  "isc_ascii_toupper c = isc__ascii_toupper ! unat c"

section \<open>Folding one octet and a region\<close>

definition isc__ascii_tolower1 :: "u8 \<Rightarrow> u8" where
  "isc__ascii_tolower1 c = c + (0x61 - 0x41) * of_bool (0x41 \<le> c \<and> c \<le> 0x5a)"

text \<open>The destination octets \<^verbatim>\<open>isc_ascii_lowercopy\<close> writes for \<open>len\<close> octets of \<open>src\<close>.\<close>

fun isc_ascii_lowercopy :: "bytes \<Rightarrow> nat \<Rightarrow> bytes option" where
  "isc_ascii_lowercopy src 0 = Some []"
| "isc_ascii_lowercopy src (Suc len) = do {
     c \<leftarrow> peek src 0;
     r \<leftarrow> isc_ascii_lowercopy (drop 1 src) len;
     Some (isc__ascii_tolower1 c # r)
   }"

section \<open>Folding a word of octets\<close>

definition isc_ascii_tolower8 :: "u64 \<Rightarrow> u64" where
  "isc_ascii_tolower8 octets =
     (let all_bytes = 0x0101010101010101;
          heptets = octets AND (0x7F * all_bytes);
          is_ascii = NOT octets AND (0x80 * all_bytes);
          is_gt_Z = heptets + (0x7F - 0x5A) * all_bytes;
          is_ge_A = heptets + (0x80 - 0x41) * all_bytes;
          is_upper = (is_ge_A XOR is_gt_Z) AND is_ascii
      in octets OR drop_bit 2 is_upper)"

text \<open>
  Octets in memory as the integer a load gives: \<open>le_word\<close> on a little-endian host, and the
  reverse on a big-endian one.  The flag \<open>le\<close> below is the host's byte order.
\<close>

fun le_int :: "int list \<Rightarrow> int" where
  "le_int [] = 0"
| "le_int (b # bs) = b + 256 * le_int bs"

definition le_word :: "bytes \<Rightarrow> 'a::len word" where
  "le_word bs = of_int (le_int (map uint bs))"

definition isc__ascii_load8 :: "bool \<Rightarrow> bytes \<Rightarrow> u64 option" where
  "isc__ascii_load8 le p = do {
     m \<leftarrow> fetch p 0 8;
     Some (le_word (if le then m else rev m))
   }"

definition htobe64 :: "bool \<Rightarrow> u64 \<Rightarrow> u64" where
  "htobe64 le w =
     (if le then le_word (rev (map (\<lambda>i. ucast (drop_bit (8 * i) w)) [0..<8])) else w)"

section \<open>Comparing regions\<close>

text \<open>The octet loops that finish \<^verbatim>\<open>isc_ascii_lowerequal\<close> and \<^verbatim>\<open>isc_ascii_lowercmp\<close>.\<close>

fun lowerequal_octets :: "bytes \<Rightarrow> bytes \<Rightarrow> nat \<Rightarrow> bool option" where
  "lowerequal_octets a b 0 = Some True"
| "lowerequal_octets a b (Suc len) = do {
     x \<leftarrow> peek a 0;
     y \<leftarrow> peek b 0;
     if isc_ascii_tolower x \<noteq> isc_ascii_tolower y then Some False
     else lowerequal_octets (drop 1 a) (drop 1 b) len
   }"

fun isc_ascii_lowerequal_on :: "bool \<Rightarrow> bytes \<Rightarrow> bytes \<Rightarrow> nat \<Rightarrow> bool option" where
  "isc_ascii_lowerequal_on le a b len =
     (if len \<ge> 8 then do {
        wa \<leftarrow> isc__ascii_load8 le a;
        wb \<leftarrow> isc__ascii_load8 le b;
        if isc_ascii_tolower8 wa \<noteq> isc_ascii_tolower8 wb then Some False
        else isc_ascii_lowerequal_on le (drop 8 a) (drop 8 b) (len - 8)
      } else lowerequal_octets a b len)"

definition cmp3 :: "'a::linorder \<Rightarrow> 'a \<Rightarrow> int" where
  "cmp3 x y = (if x < y then -1 else if x > y then 1 else 0)"

fun lowercmp_octets :: "bytes \<Rightarrow> bytes \<Rightarrow> nat \<Rightarrow> int option" where
  "lowercmp_octets a b 0 = Some 0"
| "lowercmp_octets a b (Suc len) = do {
     x \<leftarrow> peek a 0;
     y \<leftarrow> peek b 0;
     if isc_ascii_tolower x \<noteq> isc_ascii_tolower y
     then Some (cmp3 (isc_ascii_tolower x) (isc_ascii_tolower y))
     else lowercmp_octets (drop 1 a) (drop 1 b) len
   }"

fun isc_ascii_lowercmp_on :: "bool \<Rightarrow> bytes \<Rightarrow> bytes \<Rightarrow> nat \<Rightarrow> int option" where
  "isc_ascii_lowercmp_on le a b len =
     (if len \<ge> 8 then do {
        wa \<leftarrow> isc__ascii_load8 le a;
        wb \<leftarrow> isc__ascii_load8 le b;
        let a8 = isc_ascii_tolower8 (htobe64 le wa);
            b8 = isc_ascii_tolower8 (htobe64 le wb)
        in if a8 \<noteq> b8 then Some (cmp3 a8 b8)
           else isc_ascii_lowercmp_on le (drop 8 a) (drop 8 b) (len - 8)
      } else lowercmp_octets a b len)"

text \<open>The routines as the rest of the library calls them, on a little-endian host.\<close>

definition isc_ascii_lowerequal :: "bytes \<Rightarrow> bytes \<Rightarrow> nat \<Rightarrow> bool option" where
  "isc_ascii_lowerequal = isc_ascii_lowerequal_on True"

definition isc_ascii_lowercmp :: "bytes \<Rightarrow> bytes \<Rightarrow> nat \<Rightarrow> int option" where
  "isc_ascii_lowercmp = isc_ascii_lowercmp_on True"

declare isc_ascii_lowerequal_on.simps [simp del]
declare isc_ascii_lowercmp_on.simps [simp del]

section \<open>Reference definitions\<close>

text \<open>What one octet of \<open>isc_ascii_tolower8\<close> computes, as integer arithmetic on that octet alone.\<close>

definition lower_int :: "int \<Rightarrow> int" where
  "lower_int b = b OR ((((b AND 127) + 63) XOR ((b AND 127) + 37)) AND ((255 - b) AND 128)) div 4"

abbreviation octets :: "int list \<Rightarrow> bool" where
  "octets xs \<equiv> \<forall>x \<in> set xs. 0 \<le> x \<and> x < 256"

abbreviation lower_octets :: "bytes \<Rightarrow> bytes" where
  "lower_octets \<equiv> map isc__ascii_tolower1"

text \<open>Lexicographic comparison of two equally long octet strings: the sign of the first difference.\<close>

fun bytes_cmp :: "bytes \<Rightarrow> bytes \<Rightarrow> int" where
  "bytes_cmp (x # xs) (y # ys) = (if x = y then bytes_cmp xs ys else cmp3 x y)"
| "bytes_cmp _ _ = 0"

section \<open>The word-at-a-time fold works on each octet\<close>

lemma upt_256: "[0..<256] = 0 # 1 # [2..<256]"
  by (simp add: upt_conv_Cons)

lemma tolower_table_map:
  "isc__ascii_tolower = map (\<lambda>n. isc__ascii_tolower1 (of_nat n)) [0..<256]"
proof -
  have "\<not> (65 :: u8) \<le> 1" by (simp add: word_le_nat_alt)
  then show ?thesis
    by (simp add: isc__ascii_tolower_def isc__ascii_tolower1_def upt_256)
qed

lemma isc_ascii_tolower_eq: "isc_ascii_tolower c = isc__ascii_tolower1 c"
  by (simp add: isc_ascii_tolower_def tolower_table_map del: upt_rec_numeral)

lemma bit_octet_int:
  fixes a x :: int
  assumes "0 \<le> a" "a < 256"
  shows "bit (a + 256 * x) n = (if n < 8 then bit a n else bit x (n - 8))"
proof -
  have "a + 256 * x = concat_bit 8 a x"
    using assms by (simp add: concat_bit_eq push_bit_eq_mult take_bit_int_eq_self)
  then show ?thesis by (simp add: bit_concat_bit_iff)
qed

lemma octet_and:
  fixes a b x y :: int
  assumes "0 \<le> a" "a < 256" "0 \<le> b" "b < 256"
  shows "(a + 256 * x) AND (b + 256 * y) = (a AND b) + 256 * (x AND y)"
proof -
  have "0 \<le> a AND b" "a AND b < 256"
    using assms AND_upper1' [of a 256 b] by (auto simp: AND_lower)
  then show ?thesis
    using assms by (intro bit_eqI) (auto simp: bit_octet_int bit_and_iff)
qed

lemma octet_or:
  fixes a b x y :: int
  assumes "0 \<le> a" "a < 256" "0 \<le> b" "b < 256"
  shows "(a + 256 * x) OR (b + 256 * y) = (a OR b) + 256 * (x OR y)"
proof -
  have "0 \<le> a OR b" "a OR b < 256"
    using assms OR_upper [of a 8 b] by auto
  then show ?thesis
    using assms by (intro bit_eqI) (auto simp: bit_octet_int bit_or_iff)
qed

lemma octet_xor:
  fixes a b x y :: int
  assumes "0 \<le> a" "a < 256" "0 \<le> b" "b < 256"
  shows "(a + 256 * x) XOR (b + 256 * y) = (a XOR b) + 256 * (x XOR y)"
proof -
  have "0 \<le> a XOR b" "a XOR b < 256"
    using assms XOR_upper [of a 8 b] by auto
  then show ?thesis
    using assms by (intro bit_eqI) (auto simp: bit_octet_int bit_xor_iff)
qed

lemma le_int_map2:
  assumes "length xs = length ys" "octets xs" "octets ys"
  shows "le_int xs AND le_int ys = le_int (map2 (AND) xs ys)"
    and "le_int xs OR le_int ys = le_int (map2 (OR) xs ys)"
    and "le_int xs XOR le_int ys = le_int (map2 (XOR) xs ys)"
  using assms
  by (induction xs ys rule: list_induct2) (simp_all add: octet_and octet_or octet_xor)

lemma le_int_add: "length xs = length ys \<Longrightarrow> le_int xs + le_int ys = le_int (map2 (+) xs ys)"
  by (induction xs ys rule: list_induct2) simp_all

lemma le_int_bounds: "octets xs \<Longrightarrow> 0 \<le> le_int xs \<and> le_int xs < 256 ^ length xs"
  by (induction xs) auto

lemma le_int_not: "le_int (map (\<lambda>x. 255 - x) xs) = 256 ^ length xs - 1 - le_int xs"
  by (induction xs) auto


lemma le_int_times4:
  "\<forall>x \<in> set xs. x mod 4 = 0 \<Longrightarrow> le_int xs = 4 * le_int (map (\<lambda>x. x div 4) xs)"
  by (induction xs) auto

lemma lower_int_eq: "lower_int (uint b) = uint (isc__ascii_tolower1 b)"
proof -
  have *: "map (\<lambda>n. lower_int (uint (of_nat n :: u8))) [0..<256] =
           map (\<lambda>n. uint (isc__ascii_tolower ! n)) [0..<256]"
    by (simp add: upt_256 lower_int_def isc__ascii_tolower_def)
  have "unat b \<in> set [0..<256]" by (simp del: upt_rec_numeral)
  then have "lower_int (uint (of_nat (unat b) :: u8)) = uint (isc__ascii_tolower ! unat b)"
    using * unfolding map_eq_conv by blast
  then show ?thesis by (simp add: isc_ascii_tolower_eq flip: isc_ascii_tolower_def)
qed


lemma map2_replicate: "length xs = n \<Longrightarrow> map2 f xs (replicate n c) = map (\<lambda>x. f x c) xs"
  by (induction xs arbitrary: n) auto

lemma map2_map_map: "map2 f (map g xs) (map h xs) = map (\<lambda>x. f (g x) (h x)) xs"
  by (induction xs) auto

lemma map2_self: "map2 f xs (map h xs) = map (\<lambda>x. f x (h x)) xs"
  by (induction xs) auto

lemma and_127: "0 \<le> x AND 127" "x AND 127 \<le> 127" for x :: int
  by (simp_all add: AND_upper2)

lemma and_128: "x AND 128 = (if bit x 7 then 128 else 0)" for x :: int
proof -
  have "x AND 2 ^ 7 = (if bit x 7 then 2 ^ 7 else 0)"
    by (rule bit_eqI) (auto simp only: bit_and_iff bit_exp_iff bit_0_eq possible_bit_int split: if_splits; simp)
  then show ?thesis by simp
qed

lemma le_int_fold:
  fixes xs :: "int list" and k :: nat
  defines "M \<equiv> \<lambda>c. le_int (replicate k c)"
  defines "W \<equiv> le_int xs"
  assumes k: "length xs = k" and xs: "octets xs"
  shows "W OR ((((W AND M 127) + M 63) XOR ((W AND M 127) + M 37))
           AND ((256 ^ k - 1 - W) AND M 128)) div 4 = le_int (map lower_int xs)"
proof -
  have hept: "W AND M 127 = le_int (map (\<lambda>x. x AND 127) xs)"
    unfolding W_def M_def using k xs by (simp add: le_int_map2 map2_replicate)
  have hb: "0 \<le> (x AND 127) + c \<and> (x AND 127) + c < 256" if "0 \<le> c" "c \<le> 128" for x c :: int
    using and_127 [of x] that by linarith
  then have h: "octets (map (\<lambda>x. (x AND 127) + c) xs)" if "0 \<le> c" "c \<le> 128" for c
    using that by simp
  have sum: "(W AND M 127) + M c = le_int (map (\<lambda>x. (x AND 127) + c) xs)" for c
    unfolding hept unfolding M_def using k by (simp add: le_int_add map2_replicate comp_def)
  have asc: "(256 ^ k - 1 - W) AND M 128 = le_int (map (\<lambda>x. (255 - x) AND 128) xs)"
    unfolding W_def M_def le_int_not [of xs, unfolded k, symmetric] using k xs
    by (subst le_int_map2) (auto simp: map2_replicate comp_def)
  let ?up = "\<lambda>x :: int. ((((x AND 127) + 63) XOR ((x AND 127) + 37)) AND ((255 - x) AND 128))"
  have up01: "?up x = 0 \<or> ?up x = 128" for x
    by (simp add: and_128)
  have "le_int (map (\<lambda>x. (x AND 127) + 63) xs) XOR le_int (map (\<lambda>x. (x AND 127) + 37) xs)
      = le_int (map (\<lambda>x. ((x AND 127) + 63) XOR ((x AND 127) + 37)) xs)"
    using h by (simp add: le_int_map2 map2_map_map)
  moreover have "octets (map (\<lambda>x. ((x AND 127) + 63) XOR ((x AND 127) + 37)) xs)"
    using hb [of 63] hb [of 37] by (simp add: XOR_upper [of _ 8, simplified])
  moreover have "octets (map (\<lambda>x. (255 - x) AND 128) xs)"
    by (auto simp: and_128)
  ultimately have up: "(((W AND M 127) + M 63) XOR ((W AND M 127) + M 37)) AND
      ((256 ^ k - 1 - W) AND M 128) = le_int (map ?up xs)"
    unfolding sum asc by (simp add: le_int_map2 map2_map_map)
  have up4: "?up x mod 4 = 0" "0 \<le> ?up x div 4" "?up x div 4 < 256" for x
    using up01 [of x] by auto
  have "le_int (map ?up xs) div 4 = le_int (map (\<lambda>x. ?up x div 4) xs)"
    using up4(1) by (subst le_int_times4) (auto simp: comp_def)
  moreover have "octets (map (\<lambda>x. ?up x div 4) xs)"
    using up4(2,3) by auto
  ultimately have "W OR le_int (map ?up xs) div 4 = le_int (map (\<lambda>x. x OR ?up x div 4) xs)"
    unfolding W_def using xs by (simp only: le_int_map2(2) length_map map2_self)
  then show ?thesis unfolding up lower_int_def .
qed


lemma of_int_eq_iff_bounds:
  "0 \<le> x \<Longrightarrow> x < 2 ^ LENGTH('a) \<Longrightarrow> uint (of_int x :: 'a::len word) = x"
  by (simp add: unsigned_of_int take_bit_int_eq_self)


lemma octets_uint: "octets (map uint (bs :: bytes))"
  using unsigned_less [where ?'b = 8 and ?'a = int] by auto

lemma drop_bit_of_int:
  assumes "0 \<le> x" "x < 2 ^ LENGTH('a)"
  shows "drop_bit 2 (of_int x :: 'a::len word) = of_int (x div 4)"
proof -
  have "uint (drop_bit 2 (of_int x :: 'a word)) = x div 4"
    using assms unfolding unsigned_drop_bit_eq of_int_eq_iff_bounds [OF assms]
    by (simp add: take_bit_int_eq_self drop_bit_eq_div)
  then show ?thesis by (metis word_of_int_uint)
qed

lemma NOT_of_int: "NOT (of_int x :: 'a::len word) = of_int (2 ^ LENGTH('a) - 1 - x)"
  by (simp add: not_eq_complement)

lemma tolower8_le_word:
  assumes "length bs = 8"
  shows "isc_ascii_tolower8 (le_word bs) = le_word (map isc__ascii_tolower1 bs)"
proof -
  let ?W = "le_int (map uint bs)"
  let ?M = "\<lambda>c. le_int (replicate 8 c)"
  let ?w = "of_int ?W :: u64"
  let ?ones = "0x0101010101010101 :: u64"
  have M: "?M c = c * 0x0101010101010101" for c
    by (simp add: numeral_eq_Suc)
  let ?U = "(((?W AND ?M 127) + ?M 63) XOR ((?W AND ?M 127) + ?M 37)) AND ((256 ^ 8 - 1 - ?W) AND ?M 128)"
  have U: "0 \<le> ?U" "?U \<le> ?M 128"
    by (auto intro: order_trans [OF AND_upper2] simp: M)
  have isU: "(((?w AND (0x7F * ?ones)) + (0x80 - 0x41) * ?ones) XOR
      ((?w AND (0x7F * ?ones)) + (0x7F - 0x5A) * ?ones)) AND (NOT ?w AND (0x80 * ?ones)) = of_int ?U"
    by (simp add: NOT_of_int M of_int_and_eq of_int_xor_eq)
  have "isc_ascii_tolower8 ?w = ?w OR drop_bit 2 (of_int ?U)"
    unfolding isc_ascii_tolower8_def Let_def isU ..
  also have "\<dots> = of_int (?W OR ?U div 4)"
    using U by (simp add: drop_bit_of_int of_int_or_eq M)
  also have "?W OR ?U div 4 = le_int (map lower_int (map uint bs))"
    using le_int_fold [of "map uint bs" 8] octets_uint assms by simp
  also have "map lower_int (map uint bs) = map uint (map isc__ascii_tolower1 bs)"
    by (simp add: lower_int_eq)
  finally show ?thesis by (simp add: le_word_def)
qed

section \<open>The region loops against the octet-wise reference\<close>

lemma isc_ascii_lowercopy_eq:
  "len \<le> length src \<Longrightarrow> isc_ascii_lowercopy src len = Some (lower_octets (take len src))"
proof (induction len arbitrary: src)
  case (Suc len)
  then obtain x xs where "src = x # xs" by (cases src) auto
  with Suc show ?case by simp
qed simp

lemma lowerequal_octets_eq:
  "len \<le> length a \<Longrightarrow> len \<le> length b \<Longrightarrow>
   lowerequal_octets a b len = Some (lower_octets (take len a) = lower_octets (take len b))"
proof (induction len arbitrary: a b)
  case (Suc len)
  then obtain x xs y ys where "a = x # xs" "b = y # ys" by (cases a; cases b) auto
  with Suc show ?case by (simp add: isc_ascii_tolower_eq)
qed simp

lemma lowercmp_octets_eq:
  "len \<le> length a \<Longrightarrow> len \<le> length b \<Longrightarrow>
   lowercmp_octets a b len = Some (bytes_cmp (lower_octets (take len a)) (lower_octets (take len b)))"
proof (induction len arbitrary: a b)
  case (Suc len)
  then obtain x xs y ys where "a = x # xs" "b = y # ys" by (cases a; cases b) auto
  with Suc show ?case by (simp add: isc_ascii_tolower_eq)
qed simp

lemma le_int_append: "le_int (xs @ ys) = le_int xs + 256 ^ length xs * le_int ys"
  by (induction xs) (auto simp: algebra_simps)

lemma uint_le_word:
  "length bs = 8 \<Longrightarrow> uint (le_word bs :: u64) = le_int (map uint bs)"
  using le_int_bounds [OF octets_uint, of bs] by (simp add: le_word_def of_int_eq_iff_bounds)

lemma octet_pair_inj:
  fixes x y m n :: int
  assumes "0 \<le> x" "x < 256" "0 \<le> y" "y < 256"
  shows "x + 256 * m = y + 256 * n \<longleftrightarrow> x = y \<and> m = n"
proof
  assume *: "x + 256 * m = y + 256 * n"
  have "x = (x + 256 * m) mod 256" "y = (y + 256 * n) mod 256" using assms by simp_all
  with * show "x = y \<and> m = n" by simp
qed simp

lemma le_int_inj:
  "length xs = length ys \<Longrightarrow> octets xs \<Longrightarrow> octets ys \<Longrightarrow> le_int xs = le_int ys \<longleftrightarrow> xs = ys"
  by (induction xs ys rule: list_induct2) (simp_all add: octet_pair_inj)

lemma le_word_inj:
  assumes "length xs = 8" "length ys = 8"
  shows "(le_word xs :: u64) = le_word ys \<longleftrightarrow> xs = ys"
proof -
  have "(le_word xs :: u64) = le_word ys \<longleftrightarrow> le_int (map uint xs) = le_int (map uint ys)"
    using assms by (metis uint_le_word word_uint_eqI)
  also have "\<dots> \<longleftrightarrow> map uint xs = map uint ys"
    using assms by (intro le_int_inj octets_uint) simp
  also have "\<dots> \<longleftrightarrow> xs = ys"
    by (rule inj_map_eq_map) (simp add: inj_def word_uint_eq_iff)
  finally show ?thesis .
qed

lemma cmp3_le_int_rev:
  "length xs = length ys \<Longrightarrow>
   cmp3 (le_int (rev (map uint xs))) (le_int (rev (map uint ys))) = bytes_cmp xs ys"
proof (induction xs ys rule: list_induct2)
  case (Cons x xs y ys)
  let ?X = "le_int (rev (map uint xs))" and ?Y = "le_int (rev (map uint ys))"
  let ?B = "256 ^ length ys :: int"
  have b: "0 \<le> ?X" "?X < ?B" "0 \<le> ?Y" "?Y < ?B"
    using le_int_bounds [OF octets_uint, of "rev xs"] le_int_bounds [OF octets_uint, of "rev ys"] Cons.hyps
    by (simp_all flip: rev_map)
  show ?case
  proof (cases "x = y")
    case True
    with Cons show ?thesis by (auto simp: le_int_append cmp3_def split: if_splits)
  next
    case False
    have step: "V + ?B * m < V' + ?B * n" if "m < n" "0 \<le> V'" "V < ?B" for m n V V'
    proof -
      have "?B * (m + 1) \<le> ?B * n" using \<open>m < n\<close> by (intro mult_left_mono) auto
      then have "?B * m + ?B \<le> ?B * n" by (simp add: distrib_left)
      then show ?thesis using that by linarith
    qed
    from False have "uint x < uint y \<or> uint y < uint x"
      by (meson linorder_neqE word_uint_eqI)
    then show ?thesis
      using step [of "uint x" "uint y" ?Y ?X] step [of "uint y" "uint x" ?X ?Y] b False Cons.hyps
      by (auto simp: le_int_append cmp3_def word_less_def)
  qed
qed (simp add: cmp3_def)

lemma bytes_cmp_eq_0: "length xs = length ys \<Longrightarrow> bytes_cmp xs ys = 0 \<longleftrightarrow> xs = ys"
  by (induction xs ys rule: list_induct2) (auto simp: cmp3_def)

lemma bytes_cmp_append:
  "length xs = length ys \<Longrightarrow>
   bytes_cmp (xs @ xs') (ys @ ys') = (if xs = ys then bytes_cmp xs' ys' else bytes_cmp xs ys)"
  by (induction xs ys rule: list_induct2) auto

lemma cmp3_le_word_rev:
  assumes "length xs = 8" "length ys = 8"
  shows "cmp3 (le_word (rev xs) :: u64) (le_word (rev ys)) = bytes_cmp xs ys"
proof -
  have "cmp3 (le_word (rev xs) :: u64) (le_word (rev ys)) =
        cmp3 (le_int (rev (map uint xs))) (le_int (rev (map uint ys)))"
    using assms by (simp add: cmp3_def word_less_def uint_le_word rev_map)
  then show ?thesis using assms cmp3_le_int_rev by simp
qed

lemma le_int_nth:
  "octets xs \<Longrightarrow> i < length xs \<Longrightarrow> le_int xs div 256 ^ i mod 256 = xs ! i"
proof (induction xs arbitrary: i)
  case (Cons x xs)
  show ?case
  proof (cases i)
    case 0
    with Cons.prems show ?thesis by simp
  next
    case (Suc j)
    have "(x + 256 * le_int xs) div 256 ^ Suc j = (x + 256 * le_int xs) div 256 div 256 ^ j"
      by (simp add: zdiv_zmult2_eq)
    also have "\<dots> = le_int xs div 256 ^ j" using Cons.prems by simp
    finally show ?thesis using Cons Suc by simp
  qed
qed simp

lemma ucast_le_word_octet:
  assumes "length bs = 8" "i < 8"
  shows "ucast (drop_bit (8 * i) (le_word bs :: u64)) = bs ! i"
proof -
  have "uint (ucast (drop_bit (8 * i) (le_word bs :: u64)) :: u8) = take_bit 8 (drop_bit (8 * i) (le_int (map uint bs)))"
    using le_int_bounds [OF octets_uint, of bs] assms
    by (simp add: unsigned_ucast_eq unsigned_drop_bit_eq uint_le_word take_bit_int_eq_self)
  also have "\<dots> = le_int (map uint bs) div 256 ^ i mod 256"
    by (simp add: take_bit_eq_mod drop_bit_eq_div power_mult)
  also have "\<dots> = uint (bs ! i)"
    using le_int_nth [OF octets_uint, of i bs] assms by simp
  finally show ?thesis by (rule word_uint_eqI)
qed

lemma htobe64_load8: "length m = 8 \<Longrightarrow> htobe64 le (le_word (if le then m else rev m)) = le_word (rev m)"
proof (cases le)
  case True
  assume "length m = 8"
  then have "map (\<lambda>i. ucast (drop_bit (8 * i) (le_word m :: u64))) [0..<8] = m"
    by (intro nth_equalityI) (simp_all add: ucast_le_word_octet del: upt_rec_numeral)
  with True show ?thesis by (simp add: htobe64_def del: upt_rec_numeral)
qed (simp add: htobe64_def)


lemma load8_eq: "8 \<le> length p \<Longrightarrow> isc__ascii_load8 le p = Some (le_word (if le then take 8 p else rev (take 8 p)))"
  by (simp add: isc__ascii_load8_def)

lemma lower_octets_rev: "lower_octets (rev xs) = rev (lower_octets xs)"
  by (simp add: rev_map)

theorem isc_ascii_lowerequal_on_eq:
  "len \<le> length a \<Longrightarrow> len \<le> length b \<Longrightarrow>
   isc_ascii_lowerequal_on le a b len = Some (lower_octets (take len a) = lower_octets (take len b))"
proof (induction le a b len rule: isc_ascii_lowerequal_on.induct)
  case (1 le a b len)
  show ?case
  proof (cases "8 \<le> len")
    case False
    with 1 show ?thesis by (subst isc_ascii_lowerequal_on.simps) (simp add: lowerequal_octets_eq)
  next
    case True
    let ?a = "take 8 a" and ?b = "take 8 b"
    have la: "length ?a = 8" "length ?b = 8" using True 1 by auto
    have len: "len = 8 + (len - 8)" using True by simp
    have split: "lower_octets (take len a) = lower_octets (take len b) \<longleftrightarrow>
        lower_octets ?a = lower_octets ?b \<and>
        lower_octets (take (len - 8) (drop 8 a)) = lower_octets (take (len - 8) (drop 8 b))"
      using la by (subst (1 2) len) (simp add: take_add)
    have eq: "isc_ascii_tolower8 (le_word (if le then ?a else rev ?a)) =
              isc_ascii_tolower8 (le_word (if le then ?b else rev ?b)) \<longleftrightarrow>
              lower_octets ?a = lower_octets ?b"
      using la by (auto simp: tolower8_le_word le_word_inj lower_octets_rev)
    have IH: "isc_ascii_tolower8 (le_word (if le then ?a else rev ?a)) =
              isc_ascii_tolower8 (le_word (if le then ?b else rev ?b)) \<Longrightarrow>
      isc_ascii_lowerequal_on le (drop 8 a) (drop 8 b) (len - 8) =
        Some (lower_octets (take (len - 8) (drop 8 a)) = lower_octets (take (len - 8) (drop 8 b)))"
      using "1.IH" [OF True] 1 True by (simp add: load8_eq)
    show ?thesis
      unfolding split using IH True 1
      by (subst isc_ascii_lowerequal_on.simps) (auto simp: load8_eq eq)
  qed
qed

theorem isc_ascii_lowercmp_on_eq:
  "len \<le> length a \<Longrightarrow> len \<le> length b \<Longrightarrow>
   isc_ascii_lowercmp_on le a b len =
     Some (bytes_cmp (lower_octets (take len a)) (lower_octets (take len b)))"
proof (induction le a b len rule: isc_ascii_lowercmp_on.induct)
  case (1 le a b len)
  show ?case
  proof (cases "8 \<le> len")
    case False
    with 1 show ?thesis by (subst isc_ascii_lowercmp_on.simps) (simp add: lowercmp_octets_eq)
  next
    case True
    let ?a = "take 8 a" and ?b = "take 8 b"
    let ?fa = "isc_ascii_tolower8 (htobe64 le (le_word (if le then ?a else rev ?a)))"
    let ?fb = "isc_ascii_tolower8 (htobe64 le (le_word (if le then ?b else rev ?b)))"
    have la: "length ?a = 8" "length ?b = 8" using True 1 by auto
    have len: "len = 8 + (len - 8)" using True by simp
    have fab: "?fa = le_word (rev (lower_octets ?a))" "?fb = le_word (rev (lower_octets ?b))"
      unfolding htobe64_load8 [OF la(1)] htobe64_load8 [OF la(2)]
      using la by (simp_all add: tolower8_le_word lower_octets_rev)
    have eq: "?fa = ?fb \<longleftrightarrow> lower_octets ?a = lower_octets ?b"
      using la by (simp add: fab le_word_inj)
    have cmp: "cmp3 ?fa ?fb = bytes_cmp (lower_octets ?a) (lower_octets ?b)"
      unfolding fab using la by (intro cmp3_le_word_rev) simp_all
    have split: "bytes_cmp (lower_octets (take len a)) (lower_octets (take len b)) =
        (if lower_octets ?a = lower_octets ?b
         then bytes_cmp (lower_octets (take (len - 8) (drop 8 a))) (lower_octets (take (len - 8) (drop 8 b)))
         else bytes_cmp (lower_octets ?a) (lower_octets ?b))"
      using la by (subst (1 2) len) (simp add: take_add bytes_cmp_append)
    have IH: "?fa = ?fb \<Longrightarrow> isc_ascii_lowercmp_on le (drop 8 a) (drop 8 b) (len - 8) =
        Some (bytes_cmp (lower_octets (take (len - 8) (drop 8 a))) (lower_octets (take (len - 8) (drop 8 b))))"
      using "1.IH" [OF True] 1 True by (simp add: load8_eq)
    show ?thesis
      unfolding split using IH True 1
      by (subst isc_ascii_lowercmp_on.simps) (auto simp: load8_eq eq cmp)
  qed
qed


section \<open>Facts about folding one octet\<close>

lemma unat_tolower1:
  "unat (isc__ascii_tolower1 c) = (if 0x41 \<le> unat c \<and> unat c \<le> 0x5a then unat c + 32 else unat c)"
  by (auto simp: isc__ascii_tolower1_def word_le_nat_alt unat_word_ariths)

lemma tolower1_idem [simp]: "isc__ascii_tolower1 (isc__ascii_tolower1 c) = isc__ascii_tolower1 c"
  by (simp add: word_unat_eq_iff unat_tolower1)

lemma tolower1_small: "unat c \<le> 63 \<Longrightarrow> isc__ascii_tolower1 c = c"
  by (auto simp: isc__ascii_tolower1_def word_le_nat_alt)

lemma tolower1_small_iff: "unat (isc__ascii_tolower1 c) \<le> 63 \<longleftrightarrow> unat c \<le> 63"
  by (auto simp: unat_tolower1)

section \<open>Properties\<close>

text \<open>
  C35: comparing eight octets at a time agrees with the octet-by-octet definitions on a host of
  either byte order: within the bounds of both arrays \<^verbatim>\<open>isc_ascii_lowercmp\<close> returns the
  lexicographic order of the folded octets and \<^verbatim>\<open>isc_ascii_lowerequal\<close> whether they are equal.
\<close>

theorem wordwise_comparison_correct:
  assumes "len \<le> length a" "len \<le> length b"
  shows "isc_ascii_lowercmp_on le a b len =
           Some (bytes_cmp (lower_octets (take len a)) (lower_octets (take len b))) \<and>
         isc_ascii_lowerequal_on le a b len =
           Some (lower_octets (take len a) = lower_octets (take len b))"
  using assms by (simp add: isc_ascii_lowercmp_on_eq isc_ascii_lowerequal_on_eq)

theorem wordwise_comparison_correct_witness:
  "isc_ascii_lowercmp_on True [0x41, 0x62, 0x43, 0x64, 0x45, 0x66, 0x47, 0x68, 0x49]
     [0x61, 0x42, 0x63, 0x44, 0x65, 0x46, 0x67, 0x48, 0x4a] 9 = Some (-1) \<and>
   isc_ascii_lowerequal_on False [0x41, 0x62, 0x43, 0x64, 0x45, 0x66, 0x47, 0x68, 0x49]
     [0x61, 0x42, 0x63, 0x44, 0x65, 0x46, 0x67, 0x48, 0x4a] 9 = Some False"
  using wordwise_comparison_correct [of 9
      "[0x41, 0x62, 0x43, 0x64, 0x45, 0x66, 0x47, 0x68, 0x49]"
      "[0x61, 0x42, 0x63, 0x44, 0x65, 0x46, 0x67, 0x48, 0x4a]" True]
    wordwise_comparison_correct [of 9
      "[0x41, 0x62, 0x43, 0x64, 0x45, 0x66, 0x47, 0x68, 0x49]"
      "[0x61, 0x42, 0x63, 0x44, 0x65, 0x46, 0x67, 0x48, 0x4a]" False]
  by (simp add: isc__ascii_tolower1_def cmp3_def)

text \<open>
  the arithmetic folding of one octet and the table in \<^verbatim>\<open>ascii.c\<close> are the same function, and
  both leave every octet outside \<open>A\<close> to \<open>Z\<close> alone.
\<close>

theorem tolower_table_correct:
  "isc_ascii_tolower c = isc__ascii_tolower1 c \<and>
   isc_ascii_tolower c = (if 0x41 \<le> c \<and> c \<le> 0x5a then c + 0x20 else c)"
  by (simp add: isc_ascii_tolower_eq isc__ascii_tolower1_def)

end
