(* ===== verification/Buffer.thy ===== *)
theory Buffer
  imports Prelude
begin

text \<open>
  \<^verbatim>\<open>lib/isc/include/isc/buffer.h\<close>: the octet buffers every wire and text conversion reads
  from and writes to.  \<open>b_base\<close> is the memory the buffer points to; the four offsets are
  unsigned 32-bit integers, so the sums and differences the code forms are taken modulo
  \<open>2 ^ 32\<close> here (\<open>uadd\<close>, \<open>usub\<close>).  Memory obtained from the allocator is modelled as zero
  octets; its contents are indeterminate in C, and no operation reads an octet at or above
  \<open>b_used\<close> before writing it.

  The lemmas give the invariant \<open>buf_ok\<close>, that each operation keeps it, and the reading of a
  buffer as a queue of octets: \<open>put\<close> appends to \<open>buf_remaining\<close>, \<open>get\<close> takes from its front
  and \<^verbatim>\<open>isc_buffer_compact\<close> leaves it alone.
\<close>

section \<open>Unsigned arithmetic\<close>

definition uadd :: "nat \<Rightarrow> nat \<Rightarrow> nat" where
  "uadd a b = (a + b) mod 2 ^ 32"

definition usub :: "nat \<Rightarrow> nat \<Rightarrow> nat" where
  "usub a b = (a + (2 ^ 32 - b)) mod 2 ^ 32"

text \<open>The same difference at the width of \<^verbatim>\<open>size_t\<close>.\<close>

definition usub64 :: "nat \<Rightarrow> nat \<Rightarrow> nat" where
  "usub64 a b = (a + (2 ^ 64 - b)) mod 2 ^ 64"

section \<open>The buffer\<close>

definition ISC_BUFFER_MAGIC :: u32 where
  "ISC_BUFFER_MAGIC = 0x42756621"

definition ISC_BUFFER_INCR :: nat where
  "ISC_BUFFER_INCR = 512"

record isc_buffer =
  b_magic :: u32
  b_base :: bytes
  b_length :: nat
  b_used :: nat
  b_current :: nat
  b_active :: nat
  b_extra :: nat
  b_dynamic :: bool
  b_mctx :: bool

text \<open>\<open>b_mctx\<close> says whether the buffer has a memory context and so may grow.\<close>

definition ISC_BUFFER_VALID :: "isc_buffer \<Rightarrow> bool" where
  "ISC_BUFFER_VALID b \<longleftrightarrow> b_magic b = ISC_BUFFER_MAGIC"

record isc_region =
  r_base :: bytes
  r_length :: nat

definition isc_buffer_remaininglength :: "isc_buffer \<Rightarrow> nat" where
  "isc_buffer_remaininglength b = usub (b_used b) (b_current b)"

definition isc_buffer_activelength :: "isc_buffer \<Rightarrow> nat" where
  "isc_buffer_activelength b = usub (b_active b) (b_current b)"

definition isc_buffer_availablelength :: "isc_buffer \<Rightarrow> nat" where
  "isc_buffer_availablelength b = usub (b_length b) (b_used b)"

definition isc_buffer_init :: "bytes \<Rightarrow> nat \<Rightarrow> isc_buffer" where
  "isc_buffer_init base len =
     \<lparr>b_magic = ISC_BUFFER_MAGIC, b_base = base, b_length = len, b_used = 0, b_current = 0,
      b_active = 0, b_extra = 0, b_dynamic = False, b_mctx = False\<rparr>"

definition isc_buffer_initnull :: isc_buffer where
  "isc_buffer_initnull =
     \<lparr>b_magic = ISC_BUFFER_MAGIC, b_base = [], b_length = 0, b_used = 0, b_current = 0,
      b_active = 0, b_extra = 0, b_dynamic = False, b_mctx = False\<rparr>"

definition isc_buffer_invalidate :: "isc_buffer \<Rightarrow> isc_buffer option" where
  "isc_buffer_invalidate b = do {
     REQUIRE (ISC_BUFFER_VALID b);
     REQUIRE (\<not> b_mctx b);
     Some \<lparr>b_magic = 0, b_base = [], b_length = 0, b_used = 0, b_current = 0,
      b_active = 0, b_extra = 0, b_dynamic = False, b_mctx = False\<rparr>
   }"

section \<open>Regions of a buffer\<close>

definition isc_buffer_region :: "isc_buffer \<Rightarrow> isc_region option" where
  "isc_buffer_region b = do {
     REQUIRE (ISC_BUFFER_VALID b);
     Some \<lparr>r_base = b_base b, r_length = b_length b\<rparr>
   }"

definition isc_buffer_usedregion :: "isc_buffer \<Rightarrow> isc_region option" where
  "isc_buffer_usedregion b = do {
     REQUIRE (ISC_BUFFER_VALID b);
     Some \<lparr>r_base = b_base b, r_length = b_used b\<rparr>
   }"

definition isc_buffer_availableregion :: "isc_buffer \<Rightarrow> isc_region option" where
  "isc_buffer_availableregion b = do {
     REQUIRE (ISC_BUFFER_VALID b);
     Some \<lparr>r_base = drop (b_used b) (b_base b), r_length = isc_buffer_availablelength b\<rparr>
   }"

definition isc_buffer_consumedregion :: "isc_buffer \<Rightarrow> isc_region option" where
  "isc_buffer_consumedregion b = do {
     REQUIRE (ISC_BUFFER_VALID b);
     Some \<lparr>r_base = b_base b, r_length = b_current b\<rparr>
   }"

definition isc_buffer_remainingregion :: "isc_buffer \<Rightarrow> isc_region option" where
  "isc_buffer_remainingregion b = do {
     REQUIRE (ISC_BUFFER_VALID b);
     Some \<lparr>r_base = drop (b_current b) (b_base b), r_length = isc_buffer_remaininglength b\<rparr>
   }"

definition isc_buffer_activeregion :: "isc_buffer \<Rightarrow> isc_region option" where
  "isc_buffer_activeregion b = do {
     REQUIRE (ISC_BUFFER_VALID b);
     if b_current b < b_active b
     then Some \<lparr>r_base = drop (b_current b) (b_base b), r_length = isc_buffer_activelength b\<rparr>
     else Some \<lparr>r_base = [], r_length = 0\<rparr>
   }"

section \<open>Moving the offsets\<close>

definition isc_buffer_add :: "isc_buffer \<Rightarrow> nat \<Rightarrow> isc_buffer option" where
  "isc_buffer_add b n = do {
     REQUIRE (ISC_BUFFER_VALID b);
     REQUIRE (uadd (b_used b) n \<le> b_length b);
     Some (b\<lparr>b_used := uadd (b_used b) n\<rparr>)
   }"

definition isc_buffer_subtract :: "isc_buffer \<Rightarrow> nat \<Rightarrow> isc_buffer option" where
  "isc_buffer_subtract b n = do {
     REQUIRE (ISC_BUFFER_VALID b);
     REQUIRE (b_used b \<ge> n);
     let b = b\<lparr>b_used := b_used b - n\<rparr>;
         b = (if b_current b > b_used b then b\<lparr>b_current := b_used b\<rparr> else b);
         b = (if b_active b > b_used b then b\<lparr>b_active := b_used b\<rparr> else b)
     in Some b
   }"

definition isc_buffer_clear :: "isc_buffer \<Rightarrow> isc_buffer option" where
  "isc_buffer_clear b = do {
     REQUIRE (ISC_BUFFER_VALID b);
     Some (b\<lparr>b_used := 0, b_current := 0, b_active := 0\<rparr>)
   }"

definition isc_buffer_setactive :: "isc_buffer \<Rightarrow> nat \<Rightarrow> isc_buffer option" where
  "isc_buffer_setactive b n = do {
     REQUIRE (ISC_BUFFER_VALID b);
     REQUIRE (uadd (b_current b) n \<le> b_used b);
     Some (b\<lparr>b_active := uadd (b_current b) n\<rparr>)
   }"

definition isc_buffer_first :: "isc_buffer \<Rightarrow> isc_buffer option" where
  "isc_buffer_first b = do {
     REQUIRE (ISC_BUFFER_VALID b);
     Some (b\<lparr>b_current := 0\<rparr>)
   }"

definition isc_buffer_forward :: "isc_buffer \<Rightarrow> nat \<Rightarrow> isc_buffer option" where
  "isc_buffer_forward b n = do {
     REQUIRE (ISC_BUFFER_VALID b);
     REQUIRE (uadd (b_current b) n \<le> b_used b);
     Some (b\<lparr>b_current := uadd (b_current b) n\<rparr>)
   }"

definition isc_buffer_back :: "isc_buffer \<Rightarrow> nat \<Rightarrow> isc_buffer option" where
  "isc_buffer_back b n = do {
     REQUIRE (ISC_BUFFER_VALID b);
     REQUIRE (n \<le> b_current b);
     Some (b\<lparr>b_current := b_current b - n\<rparr>)
   }"

section \<open>Growing a buffer\<close>

definition ISC_ALIGN :: "nat \<Rightarrow> nat \<Rightarrow> nat" where
  "ISC_ALIGN x a = (x + (a - 1)) div a * a"

definition isc_buffer_setmctx :: "isc_buffer \<Rightarrow> isc_buffer option" where
  "isc_buffer_setmctx b = do {
     REQUIRE (ISC_BUFFER_VALID b);
     Some (b\<lparr>b_mctx := True\<rparr>)
   }"

definition isc_buffer_clearmctx :: "isc_buffer \<Rightarrow> isc_buffer option" where
  "isc_buffer_clearmctx b = do {
     REQUIRE (ISC_BUFFER_VALID b);
     Some (b\<lparr>b_dynamic := False, b_mctx := False\<rparr>)
   }"

definition isc_buffer_reserve :: "isc_buffer \<Rightarrow> nat \<Rightarrow> (isc_result \<times> isc_buffer) option" where
  "isc_buffer_reserve dbuf sz = do {
     REQUIRE (ISC_BUFFER_VALID dbuf);
     if usub64 (b_length dbuf) (b_used dbuf) \<ge> sz then Some (ISC_R_SUCCESS, dbuf)
     else if \<not> b_mctx dbuf then Some (ISC_R_NOSPACE, dbuf)
     else
       let len = ISC_ALIGN (sz + b_used dbuf) ISC_BUFFER_INCR;
           len = min len (2 ^ 32 - 1)
       in if usub64 len (b_used dbuf) < sz then Some (ISC_R_NOMEMORY, dbuf)
          else if \<not> b_dynamic dbuf
          then Some (ISC_R_SUCCESS,
                 dbuf\<lparr>b_base := take (b_used dbuf) (b_base dbuf) @ replicate (len - b_used dbuf) 0,
                      b_dynamic := True, b_length := len\<rparr>)
          else Some (ISC_R_SUCCESS,
                 dbuf\<lparr>b_base := b_base dbuf @ replicate (len - b_length dbuf) 0,
                      b_length := len\<rparr>)
   }"

definition isc_buffer_allocate :: "nat \<Rightarrow> isc_buffer option" where
  "isc_buffer_allocate len =
     isc_buffer_setmctx ((isc_buffer_init (replicate len 0) len)\<lparr>b_extra := len\<rparr>)"

section \<open>Reading\<close>

text \<open>Big-endian integers of \<^verbatim>\<open>lib/isc/include/isc/endian.h\<close>.\<close>

definition ISC_U8TO16_BE :: "bytes \<Rightarrow> u16" where
  "ISC_U8TO16_BE p = push_bit 8 (ucast (p ! 0)) OR ucast (p ! 1)"

definition ISC_U8TO32_BE :: "bytes \<Rightarrow> u32" where
  "ISC_U8TO32_BE p =
     push_bit 24 (ucast (p ! 0)) OR push_bit 16 (ucast (p ! 1)) OR
     push_bit 8 (ucast (p ! 2)) OR ucast (p ! 3)"

definition ISC_U8TO48_BE :: "bytes \<Rightarrow> u64" where
  "ISC_U8TO48_BE p =
     push_bit 40 (ucast (p ! 0)) OR push_bit 32 (ucast (p ! 1)) OR push_bit 24 (ucast (p ! 2)) OR
     push_bit 16 (ucast (p ! 3)) OR push_bit 8 (ucast (p ! 4)) OR ucast (p ! 5)"

definition ISC_U16TO8_BE :: "u16 \<Rightarrow> bytes" where
  "ISC_U16TO8_BE v = [ucast (drop_bit 8 v), ucast v]"

definition ISC_U32TO8_BE :: "u32 \<Rightarrow> bytes" where
  "ISC_U32TO8_BE v = [ucast (drop_bit 24 v), ucast (drop_bit 16 v), ucast (drop_bit 8 v), ucast v]"

definition ISC_U48TO8_BE :: "u64 \<Rightarrow> bytes" where
  "ISC_U48TO8_BE v =
     [ucast (drop_bit 40 v), ucast (drop_bit 32 v), ucast (drop_bit 24 v),
      ucast (drop_bit 16 v), ucast (drop_bit 8 v), ucast v]"

text \<open>
  \<^verbatim>\<open>ISC_BUFFER_PEEK_CHECK\<close> and the load that follows it: \<open>None\<close> inside is \<^verbatim>\<open>ISC_R_NOMORE\<close>.
\<close>

definition peek_octets :: "isc_buffer \<Rightarrow> nat \<Rightarrow> bytes option option" where
  "peek_octets b s = do {
     REQUIRE (ISC_BUFFER_VALID b);
     if usub (b_used b) (b_current b) < s then Some None
     else do { m \<leftarrow> fetch (b_base b) (b_current b) s; Some (Some m) }
   }"

definition isc_buffer_peekuint8 :: "isc_buffer \<Rightarrow> (isc_result \<times> u8) option" where
  "isc_buffer_peekuint8 b = do {
     m \<leftarrow> peek_octets b 1;
     case m of None \<Rightarrow> Some (ISC_R_NOMORE, 0) | Some cp \<Rightarrow> Some (ISC_R_SUCCESS, cp ! 0)
   }"

definition isc_buffer_peekuint16 :: "isc_buffer \<Rightarrow> (isc_result \<times> u16) option" where
  "isc_buffer_peekuint16 b = do {
     m \<leftarrow> peek_octets b 2;
     case m of None \<Rightarrow> Some (ISC_R_NOMORE, 0) | Some cp \<Rightarrow> Some (ISC_R_SUCCESS, ISC_U8TO16_BE cp)
   }"

definition isc_buffer_peekuint32 :: "isc_buffer \<Rightarrow> (isc_result \<times> u32) option" where
  "isc_buffer_peekuint32 b = do {
     m \<leftarrow> peek_octets b 4;
     case m of None \<Rightarrow> Some (ISC_R_NOMORE, 0) | Some cp \<Rightarrow> Some (ISC_R_SUCCESS, ISC_U8TO32_BE cp)
   }"

definition isc_buffer_peekuint48 :: "isc_buffer \<Rightarrow> (isc_result \<times> u64) option" where
  "isc_buffer_peekuint48 b = do {
     m \<leftarrow> peek_octets b 6;
     case m of None \<Rightarrow> Some (ISC_R_NOMORE, 0) | Some cp \<Rightarrow> Some (ISC_R_SUCCESS, ISC_U8TO48_BE cp)
   }"

definition isc_buffer_getuint8 :: "isc_buffer \<Rightarrow> (u8 \<times> isc_buffer) option" where
  "isc_buffer_getuint8 b = do {
     (result, val) \<leftarrow> isc_buffer_peekuint8 b;
     ENSURE (result = ISC_R_SUCCESS);
     Some (val, b\<lparr>b_current := b_current b + 1\<rparr>)
   }"

definition isc_buffer_getuint16 :: "isc_buffer \<Rightarrow> (u16 \<times> isc_buffer) option" where
  "isc_buffer_getuint16 b = do {
     (result, val) \<leftarrow> isc_buffer_peekuint16 b;
     ENSURE (result = ISC_R_SUCCESS);
     Some (val, b\<lparr>b_current := b_current b + 2\<rparr>)
   }"

definition isc_buffer_getuint32 :: "isc_buffer \<Rightarrow> (u32 \<times> isc_buffer) option" where
  "isc_buffer_getuint32 b = do {
     (result, val) \<leftarrow> isc_buffer_peekuint32 b;
     ENSURE (result = ISC_R_SUCCESS);
     Some (val, b\<lparr>b_current := b_current b + 4\<rparr>)
   }"

definition isc_buffer_getuint48 :: "isc_buffer \<Rightarrow> (u64 \<times> isc_buffer) option" where
  "isc_buffer_getuint48 b = do {
     (result, val) \<leftarrow> isc_buffer_peekuint48 b;
     ENSURE (result = ISC_R_SUCCESS);
     Some (val, b\<lparr>b_current := b_current b + 6\<rparr>)
   }"

section \<open>Writing\<close>

text \<open>
  \<^verbatim>\<open>ISC_BUFFER_PUT_RESERVE\<close>: grow when the buffer may, then insist on \<open>need\<close> free octets,
  where \<open>need\<close> is \<^verbatim>\<open>sizeof(val)\<close> of the value being put.
\<close>

definition put_reserve :: "isc_buffer \<Rightarrow> nat \<Rightarrow> isc_buffer option" where
  "put_reserve b need = do {
     REQUIRE (ISC_BUFFER_VALID b);
     b \<leftarrow> (if b_mctx b then do {
              (result, b) \<leftarrow> isc_buffer_reserve b need;
              ENSURE (result = ISC_R_SUCCESS);
              Some b
            } else Some b);
     REQUIRE (isc_buffer_availablelength b \<ge> need);
     Some b
   }"

definition store :: "isc_buffer \<Rightarrow> bytes \<Rightarrow> isc_buffer option" where
  "store b v = do {
     m \<leftarrow> blit (b_base b) (b_used b) v;
     Some (b\<lparr>b_base := m, b_used := b_used b + length v\<rparr>)
   }"

definition isc_buffer_putuint8 :: "isc_buffer \<Rightarrow> u8 \<Rightarrow> isc_buffer option" where
  "isc_buffer_putuint8 b val = do { b \<leftarrow> put_reserve b 1; store b [val] }"

definition isc_buffer_putuint16 :: "isc_buffer \<Rightarrow> u16 \<Rightarrow> isc_buffer option" where
  "isc_buffer_putuint16 b val = do { b \<leftarrow> put_reserve b 2; store b (ISC_U16TO8_BE val) }"

definition isc_buffer_putuint32 :: "isc_buffer \<Rightarrow> u32 \<Rightarrow> isc_buffer option" where
  "isc_buffer_putuint32 b val = do { b \<leftarrow> put_reserve b 4; store b (ISC_U32TO8_BE val) }"

text \<open>The value is a \<^verbatim>\<open>uint64_t\<close>, so \<^verbatim>\<open>sizeof(val)\<close> is 8 although six octets are written.\<close>

definition isc_buffer_putuint48 :: "isc_buffer \<Rightarrow> u64 \<Rightarrow> isc_buffer option" where
  "isc_buffer_putuint48 b val = do { b \<leftarrow> put_reserve b 8; store b (ISC_U48TO8_BE val) }"

definition isc_buffer_putmem :: "isc_buffer \<Rightarrow> bytes \<Rightarrow> nat \<Rightarrow> isc_buffer option" where
  "isc_buffer_putmem b base len = do {
     REQUIRE (ISC_BUFFER_VALID b);
     b \<leftarrow> (if b_mctx b then do {
              (result, b) \<leftarrow> isc_buffer_reserve b len;
              REQUIRE (result = ISC_R_SUCCESS);
              Some b
            } else Some b);
     REQUIRE (isc_buffer_availablelength b \<ge> len);
     if len > 0 then do { v \<leftarrow> fetch base 0 len; store b v } else Some b
   }"

text \<open>The source of \<^verbatim>\<open>isc_buffer_putstr\<close> is the octets of a C string, without the terminator.\<close>

definition isc_buffer_putstr :: "isc_buffer \<Rightarrow> bytes \<Rightarrow> isc_buffer option" where
  "isc_buffer_putstr b source = do {
     REQUIRE (ISC_BUFFER_VALID b);
     b \<leftarrow> (if b_mctx b then do {
              (result, b) \<leftarrow> isc_buffer_reserve b (length source);
              ENSURE (result = ISC_R_SUCCESS);
              Some b
            } else Some b);
     REQUIRE (isc_buffer_availablelength b \<ge> length source);
     store b source
   }"

definition isc_buffer_copyregion :: "isc_buffer \<Rightarrow> isc_region \<Rightarrow> (isc_result \<times> isc_buffer) option" where
  "isc_buffer_copyregion b r = do {
     REQUIRE (ISC_BUFFER_VALID b);
     (result, b) \<leftarrow> (if b_mctx b then isc_buffer_reserve b (r_length r)
                       else Some (ISC_R_SUCCESS, b));
     if result \<noteq> ISC_R_SUCCESS then Some (result, b)
     else if r_length r > isc_buffer_availablelength b then Some (ISC_R_NOSPACE, b)
     else if r_length r > 0 then do {
       v \<leftarrow> fetch (r_base r) 0 (r_length r);
       b \<leftarrow> store b v;
       Some (ISC_R_SUCCESS, b)
     }
     else Some (ISC_R_SUCCESS, b)
   }"

definition isc_buffer_dup :: "isc_buffer \<Rightarrow> isc_buffer option" where
  "isc_buffer_dup src = do {
     REQUIRE (ISC_BUFFER_VALID src);
     region \<leftarrow> isc_buffer_usedregion src;
     dst \<leftarrow> isc_buffer_allocate (r_length region);
     (result, dst) \<leftarrow> isc_buffer_copyregion dst region;
     INSIST (result = ISC_R_SUCCESS);
     Some dst
   }"

section \<open>Reusing the space of what was read\<close>

definition isc_buffer_reinit :: "isc_buffer \<Rightarrow> bytes \<Rightarrow> nat \<Rightarrow> isc_buffer option" where
  "isc_buffer_reinit b base len = do {
     REQUIRE (b_length b \<le> len);
     REQUIRE (\<not> b_mctx b);
     m \<leftarrow> (if b_length b > 0 then do { s \<leftarrow> fetch (b_base b) 0 (b_length b); blit base 0 s }
            else Some base);
     Some (b\<lparr>b_base := m, b_length := len\<rparr>)
   }"

definition isc_buffer_compact :: "isc_buffer \<Rightarrow> isc_buffer option" where
  "isc_buffer_compact b = do {
     REQUIRE (ISC_BUFFER_VALID b);
     let len = isc_buffer_remaininglength b;
     m \<leftarrow> (if len > 0 then do { src \<leftarrow> fetch (b_base b) (b_current b) len; blit (b_base b) 0 src }
            else Some (b_base b));
     Some (b\<lparr>b_base := m,
             b_active := (if b_active b > b_current b then b_active b - b_current b else 0),
             b_current := 0, b_used := len\<rparr>)
   }"

definition isc_buffer_trycompact :: "isc_buffer \<Rightarrow> isc_buffer option" where
  "isc_buffer_trycompact b =
     (if b_current b \<ge> isc_buffer_remaininglength b then isc_buffer_compact b else Some b)"

section \<open>The invariant\<close>

definition buf_ok :: "isc_buffer \<Rightarrow> bool" where
  "buf_ok b \<longleftrightarrow>
     ISC_BUFFER_VALID b \<and> length (b_base b) = b_length b \<and> b_length b < 2 ^ 32 \<and>
     b_used b \<le> b_length b \<and> b_current b \<le> b_used b \<and> b_active b \<le> b_used b"

definition buf_content :: "isc_buffer \<Rightarrow> bytes" where
  "buf_content b = take (b_used b) (b_base b)"

definition buf_remaining :: "isc_buffer \<Rightarrow> bytes" where
  "buf_remaining b = drop (b_current b) (buf_content b)"

definition buf_room :: "isc_buffer \<Rightarrow> nat" where
  "buf_room b = b_length b - b_used b"

lemma buf_okD [wf_dests]:
  assumes "buf_ok b"
  shows "ISC_BUFFER_VALID b" "length (b_base b) = b_length b" "b_length b < 2 ^ 32"
    "b_used b \<le> b_length b" "b_current b \<le> b_used b" "b_active b \<le> b_used b"
  using assms by (simp_all add: buf_ok_def)

lemma usub_eq: "b \<le> a \<Longrightarrow> a < 2 ^ 32 \<Longrightarrow> usub a b = a - b"
  by (simp add: usub_def mod_if)

lemma uadd_eq: "a + b < 2 ^ 32 \<Longrightarrow> uadd a b = a + b"
  by (simp add: uadd_def)

lemma usub64_eq: "b \<le> a \<Longrightarrow> a < 2 ^ 64 \<Longrightarrow> usub64 a b = a - b"
  by (simp add: usub64_def mod_if)

lemma length_buf_content [simp]: "buf_ok b \<Longrightarrow> length (buf_content b) = b_used b"
  by (simp add: buf_content_def buf_ok_def)

lemma availablelength_eq [simp]: "buf_ok b \<Longrightarrow> isc_buffer_availablelength b = buf_room b"
  by (simp add: isc_buffer_availablelength_def buf_room_def buf_ok_def usub_eq)

lemma remaininglength_eq [simp]:
  "buf_ok b \<Longrightarrow> isc_buffer_remaininglength b = length (buf_remaining b)"
  by (simp add: isc_buffer_remaininglength_def buf_remaining_def buf_ok_def usub_eq buf_content_def)

lemma buf_ok_init: "length base < 2 ^ 32 \<Longrightarrow> buf_ok (isc_buffer_init base (length base))"
  by (simp add: buf_ok_def isc_buffer_init_def ISC_BUFFER_VALID_def)

section \<open>Offset operations\<close>

lemma isc_buffer_add_ok:
  "buf_ok b \<Longrightarrow> n \<le> buf_room b \<Longrightarrow> isc_buffer_add b n = Some (b\<lparr>b_used := b_used b + n\<rparr>)"
  using uadd_eq [of "b_used b" n] by (auto simp: isc_buffer_add_def buf_ok_def buf_room_def)

lemma isc_buffer_forward_ok:
  "buf_ok b \<Longrightarrow> n \<le> length (buf_remaining b) \<Longrightarrow>
   isc_buffer_forward b n = Some (b\<lparr>b_current := b_current b + n\<rparr>)"
  using uadd_eq [of "b_current b" n]
  by (auto simp: isc_buffer_forward_def buf_ok_def buf_remaining_def buf_content_def)

lemma isc_buffer_clear_ok:
  "ISC_BUFFER_VALID b \<Longrightarrow> isc_buffer_clear b = Some (b\<lparr>b_used := 0, b_current := 0, b_active := 0\<rparr>)"
  by (simp add: isc_buffer_clear_def)

lemma buf_ok_clear: "buf_ok b \<Longrightarrow> isc_buffer_clear b = Some b' \<Longrightarrow> buf_ok b'"
  by (auto simp: isc_buffer_clear_def buf_ok_def ISC_BUFFER_VALID_def)

lemma buf_ok_subtract: "buf_ok b \<Longrightarrow> isc_buffer_subtract b n = Some b' \<Longrightarrow> buf_ok b'"
  by (auto simp: isc_buffer_subtract_def buf_ok_def ISC_BUFFER_VALID_def Let_def bind_eq_Some_conv)

lemma buf_ok_add: "buf_ok b \<Longrightarrow> n < 2 ^ 32 - b_used b \<Longrightarrow> isc_buffer_add b n = Some b' \<Longrightarrow> buf_ok b'"
  by (auto simp: isc_buffer_add_def buf_ok_def ISC_BUFFER_VALID_def uadd_eq bind_eq_Some_conv)

lemma buf_ok_forward: "buf_ok b \<Longrightarrow> isc_buffer_forward b n = Some b' \<Longrightarrow> buf_ok b'"
  by (auto simp: isc_buffer_forward_def buf_ok_def ISC_BUFFER_VALID_def bind_eq_Some_conv)

lemma buf_ok_back: "buf_ok b \<Longrightarrow> isc_buffer_back b n = Some b' \<Longrightarrow> buf_ok b'"
  by (auto simp: isc_buffer_back_def buf_ok_def ISC_BUFFER_VALID_def bind_eq_Some_conv)

lemma buf_ok_first: "buf_ok b \<Longrightarrow> isc_buffer_first b = Some b' \<Longrightarrow> buf_ok b'"
  by (auto simp: isc_buffer_first_def buf_ok_def ISC_BUFFER_VALID_def bind_eq_Some_conv)

lemma buf_ok_setactive: "buf_ok b \<Longrightarrow> isc_buffer_setactive b n = Some b' \<Longrightarrow> buf_ok b'"
  by (auto simp: isc_buffer_setactive_def buf_ok_def ISC_BUFFER_VALID_def bind_eq_Some_conv)

section \<open>Growth\<close>

lemma ISC_ALIGN_ge: "0 < a \<Longrightarrow> x \<le> ISC_ALIGN x a"
proof -
  assume "0 < a"
  then have "x + (a - 1) < a + (x + (a - 1)) div a * a"
    using dividend_less_div_times by simp
  with \<open>0 < a\<close> show ?thesis unfolding ISC_ALIGN_def by linarith
qed

lemma isc_buffer_reserve_success:
  assumes ok: "buf_ok b" and r: "isc_buffer_reserve b sz = Some (ISC_R_SUCCESS, b')"
  shows "buf_ok b' \<and> buf_content b' = buf_content b \<and> buf_remaining b' = buf_remaining b \<and>
         b_used b' = b_used b \<and> b_current b' = b_current b \<and> sz \<le> buf_room b'"
proof -
  note D = buf_okD [OF ok]
  have avail: "usub64 (b_length b) (b_used b) = buf_room b"
    using D by (simp add: usub64_eq buf_room_def)
  show ?thesis
  proof (cases "sz \<le> buf_room b")
    case True
    then show ?thesis using r ok D avail by (simp add: isc_buffer_reserve_def)
  next
    case False
    let ?len = "min (ISC_ALIGN (sz + b_used b) ISC_BUFFER_INCR) (2 ^ 32 - 1)"
    have len: "b_used b \<le> ?len" "?len < 2 ^ 64"
      using D ISC_ALIGN_ge [of ISC_BUFFER_INCR "sz + b_used b"] by (auto simp: ISC_BUFFER_INCR_def)
    from r False have mctx: "b_mctx b" and fits: "\<not> usub64 ?len (b_used b) < sz"
      using D avail by (auto simp: isc_buffer_reserve_def Let_def split: if_splits)
    have sz: "sz \<le> ?len - b_used b" using fits len usub64_eq by simp
    have grow: "b_length b < ?len" using False sz D unfolding buf_room_def by linarith
    show ?thesis
      using r False D mctx fits avail len sz grow
      by (auto simp: isc_buffer_reserve_def Let_def buf_ok_def buf_content_def buf_remaining_def
            ISC_BUFFER_VALID_def buf_room_def min_def split: if_splits)
  qed
qed

lemma put_reserve_ok:
  assumes ok: "buf_ok b" and r: "put_reserve b need = Some b'"
  shows "buf_ok b' \<and> buf_content b' = buf_content b \<and> buf_remaining b' = buf_remaining b \<and>
         b_used b' = b_used b \<and> b_current b' = b_current b \<and> need \<le> buf_room b'"
proof (cases "b_mctx b")
  case True
  then obtain b'' where b'': "isc_buffer_reserve b need = Some (ISC_R_SUCCESS, b'')"
      and "isc_buffer_availablelength b'' \<ge> need" "b' = b''"
    using r buf_okD(1) [OF ok] by (auto simp: put_reserve_def bind_eq_Some_conv split: prod.splits)
  then show ?thesis using isc_buffer_reserve_success [OF ok b''] by simp
next
  case False
  then show ?thesis using r ok by (auto simp: put_reserve_def bind_eq_Some_conv)
qed

lemma store_ok:
  assumes ok: "buf_ok b" and fits: "length v \<le> buf_room b"
  shows "\<exists>b'. store b v = Some b' \<and> buf_ok b' \<and> buf_content b' = buf_content b @ v \<and>
           buf_remaining b' = buf_remaining b @ v \<and> b_used b' = b_used b + length v \<and>
           b_current b' = b_current b \<and> b_length b' = b_length b \<and> b_mctx b' = b_mctx b"
proof -
  note D = buf_okD [OF ok]
  have le: "b_used b + length v \<le> length (b_base b)" using D fits by (simp add: buf_room_def)
  let ?b' = "b\<lparr>b_base := take (b_used b) (b_base b) @ v @ drop (b_used b + length v) (b_base b),
               b_used := b_used b + length v\<rparr>"
  have "store b v = Some ?b'" using le by (simp add: store_def)
  moreover have "buf_ok ?b'" using D le by (simp add: buf_ok_def ISC_BUFFER_VALID_def)
  moreover have "buf_content ?b' = buf_content b @ v" using D le by (simp add: buf_content_def)
  ultimately show ?thesis using D
    by (auto simp: buf_remaining_def buf_content_def)
qed


section \<open>A buffer is a queue of octets\<close>

text \<open>What a successful \<open>put\<close> of the octets \<open>v\<close> does, and what a \<open>get\<close> of \<open>v\<close> does.\<close>

definition appended :: "isc_buffer \<Rightarrow> bytes \<Rightarrow> isc_buffer \<Rightarrow> bool" where
  "appended b v b' \<longleftrightarrow>
     buf_ok b' \<and> buf_content b' = buf_content b @ v \<and> buf_remaining b' = buf_remaining b @ v"

definition consumed :: "isc_buffer \<Rightarrow> bytes \<Rightarrow> isc_buffer \<Rightarrow> bool" where
  "consumed b v b' \<longleftrightarrow>
     buf_ok b' \<and> buf_content b' = buf_content b \<and> buf_remaining b = v @ buf_remaining b'"

lemma put_then_store:
  assumes ok: "buf_ok b" and len: "length v \<le> need"
    and r: "do { b \<leftarrow> put_reserve b need; store b v } = Some b'"
  shows "appended b v b'"
proof -
  obtain b'' where b'': "put_reserve b need = Some b''" and st: "store b'' v = Some b'"
    using r by (auto simp: bind_eq_Some_conv)
  have *: "buf_ok b''" "buf_content b'' = buf_content b" "buf_remaining b'' = buf_remaining b"
      "length v \<le> buf_room b''"
    using put_reserve_ok [OF ok b''] len by auto
  then show ?thesis using store_ok [OF *(1,4)] st by (auto simp: appended_def)
qed

lemma isc_buffer_putuint8_appends:
  "buf_ok b \<Longrightarrow> isc_buffer_putuint8 b v = Some b' \<Longrightarrow> appended b [v] b'"
  unfolding isc_buffer_putuint8_def by (rule put_then_store) auto

lemma isc_buffer_putuint16_appends:
  "buf_ok b \<Longrightarrow> isc_buffer_putuint16 b v = Some b' \<Longrightarrow> appended b (ISC_U16TO8_BE v) b'"
  unfolding isc_buffer_putuint16_def by (rule put_then_store) (auto simp: ISC_U16TO8_BE_def)

lemma isc_buffer_putuint32_appends:
  "buf_ok b \<Longrightarrow> isc_buffer_putuint32 b v = Some b' \<Longrightarrow> appended b (ISC_U32TO8_BE v) b'"
  unfolding isc_buffer_putuint32_def by (rule put_then_store) (auto simp: ISC_U32TO8_BE_def)

lemma isc_buffer_putuint48_appends:
  "buf_ok b \<Longrightarrow> isc_buffer_putuint48 b v = Some b' \<Longrightarrow> appended b (ISC_U48TO8_BE v) b'"
  unfolding isc_buffer_putuint48_def by (rule put_then_store) (auto simp: ISC_U48TO8_BE_def)

lemma isc_buffer_putmem_fixed:
  assumes ok: "buf_ok b" "\<not> b_mctx b" and len: "len \<le> length src" and fits: "len \<le> buf_room b"
  shows "\<exists>b'. isc_buffer_putmem b src len = Some b' \<and> appended b (take len src) b' \<and>
           b_length b' = b_length b \<and> \<not> b_mctx b' \<and> b_used b' = b_used b + len \<and>
           b_current b' = b_current b"
proof (cases "len = 0")
  case True
  then show ?thesis using ok fits buf_okD [OF ok(1)] by (auto simp: isc_buffer_putmem_def appended_def)
next
  case False
  have "length (take len src) \<le> buf_room b" using len fits by simp
  from store_ok [OF ok(1) this] False ok len fits buf_okD [OF ok(1)] show ?thesis
    by (auto simp: isc_buffer_putmem_def appended_def min_def)
qed

lemma isc_buffer_putmem_overflow:
  "buf_ok b \<Longrightarrow> \<not> b_mctx b \<Longrightarrow> buf_room b < len \<Longrightarrow> isc_buffer_putmem b src len = None"
  using buf_okD(1) [of b] by (simp add: isc_buffer_putmem_def)

lemma peek_octets_eq:
  assumes "buf_ok b"
  shows "peek_octets b s =
    Some (if length (buf_remaining b) < s then None else Some (take s (buf_remaining b)))"
proof -
  note D = buf_okD [OF assms]
  have "usub (b_used b) (b_current b) = length (buf_remaining b)"
    using D by (simp add: usub_eq buf_remaining_def buf_content_def)
  moreover have "take s (drop (b_current b) (b_base b)) = take s (buf_remaining b)"
    if "s \<le> length (buf_remaining b)"
  proof -
    have "s + b_current b \<le> b_used b" using that D by (simp add: buf_remaining_def buf_content_def)
    then show ?thesis by (simp add: buf_remaining_def buf_content_def take_drop min_def)
  qed
  ultimately show ?thesis
    using D by (auto simp: peek_octets_def buf_remaining_def buf_content_def)
qed

lemma consumed_advance:
  assumes "buf_ok b" "n \<le> length (buf_remaining b)"
  shows "consumed b (take n (buf_remaining b)) (b\<lparr>b_current := b_current b + n\<rparr>)"
proof -
  have "b_current b + n \<le> b_used b"
    using assms by (auto simp: buf_ok_def buf_remaining_def buf_content_def)
  then show ?thesis
    using assms by (simp add: consumed_def buf_ok_def ISC_BUFFER_VALID_def buf_remaining_def
        buf_content_def append_take_drop_id [of n, symmetric] add.commute flip: drop_drop)
qed

lemma bit_octet_part:
  "bit (push_bit k (ucast (ucast (drop_bit k v) :: u8)) :: 'a::len word) n \<longleftrightarrow>
   k \<le> n \<and> n < k + 8 \<and> bit v n" for v :: "'a::len word"
proof -
  have "k + (n - k) = n" if "k \<le> n" using that by simp
  then show ?thesis by (auto simp: bit_simps dest: bit_imp_le_length)
qed

lemmas bit_octet_low = bit_octet_part [where k = 0, simplified]

lemma U16_roundtrip: "ISC_U8TO16_BE (ISC_U16TO8_BE v) = v"
proof (rule bit_word_eqI)
  fix n assume "n < LENGTH(16)"
  then show "bit (ISC_U8TO16_BE (ISC_U16TO8_BE v)) n = bit v n"
    by (simp add: ISC_U8TO16_BE_def ISC_U16TO8_BE_def bit_or_iff bit_octet_part bit_octet_low) linarith
qed

lemma U32_roundtrip: "ISC_U8TO32_BE (ISC_U32TO8_BE v) = v"
proof (rule bit_word_eqI)
  fix n assume "n < LENGTH(32)"
  then show "bit (ISC_U8TO32_BE (ISC_U32TO8_BE v)) n = bit v n"
    by (simp add: ISC_U8TO32_BE_def ISC_U32TO8_BE_def bit_or_iff bit_octet_part bit_octet_low) linarith
qed

lemma U48_roundtrip: "ISC_U8TO48_BE (ISC_U48TO8_BE v) = take_bit 48 v"
proof (rule bit_word_eqI)
  fix n assume "n < LENGTH(64)"
  then show "bit (ISC_U8TO48_BE (ISC_U48TO8_BE v)) n = bit (take_bit 48 v) n"
    by (simp add: ISC_U8TO48_BE_def ISC_U48TO8_BE_def bit_or_iff bit_octet_part bit_octet_low
        bit_take_bit_iff) linarith
qed


lemma isc_buffer_getuint8_consumes:
  assumes "buf_ok b" "1 \<le> length (buf_remaining b)"
  shows "\<exists>b'. isc_buffer_getuint8 b = Some (buf_remaining b ! 0, b') \<and>
           consumed b (take 1 (buf_remaining b)) b'"
  using consumed_advance [OF assms] assms
  by (auto simp: isc_buffer_getuint8_def isc_buffer_peekuint8_def peek_octets_eq)

lemma isc_buffer_getuint16_consumes:
  assumes "buf_ok b" "2 \<le> length (buf_remaining b)"
  shows "\<exists>b'. isc_buffer_getuint16 b = Some (ISC_U8TO16_BE (take 2 (buf_remaining b)), b') \<and>
           consumed b (take 2 (buf_remaining b)) b'"
  using consumed_advance [OF assms] assms
  by (auto simp: isc_buffer_getuint16_def isc_buffer_peekuint16_def peek_octets_eq)

lemma isc_buffer_getuint32_consumes:
  assumes "buf_ok b" "4 \<le> length (buf_remaining b)"
  shows "\<exists>b'. isc_buffer_getuint32 b = Some (ISC_U8TO32_BE (take 4 (buf_remaining b)), b') \<and>
           consumed b (take 4 (buf_remaining b)) b'"
  using consumed_advance [OF assms] assms
  by (auto simp: isc_buffer_getuint32_def isc_buffer_peekuint32_def peek_octets_eq)

lemma isc_buffer_getuint48_consumes:
  assumes "buf_ok b" "6 \<le> length (buf_remaining b)"
  shows "\<exists>b'. isc_buffer_getuint48 b = Some (ISC_U8TO48_BE (take 6 (buf_remaining b)), b') \<and>
           consumed b (take 6 (buf_remaining b)) b'"
  using consumed_advance [OF assms] assms
  by (auto simp: isc_buffer_getuint48_def isc_buffer_peekuint48_def peek_octets_eq)

lemma isc_buffer_getuint8_short:
  "buf_ok b \<Longrightarrow> buf_remaining b = [] \<Longrightarrow> isc_buffer_getuint8 b = None"
  by (simp add: isc_buffer_getuint8_def isc_buffer_peekuint8_def peek_octets_eq)

lemma isc_buffer_compact_ok:
  assumes "buf_ok b"
  shows "\<exists>b'. isc_buffer_compact b = Some b' \<and> buf_ok b' \<and> b_current b' = 0 \<and>
           buf_remaining b' = buf_remaining b \<and> buf_room b' = buf_room b + b_current b"
proof -
  note D = buf_okD [OF assms]
  let ?n = "length (buf_remaining b)"
  have n: "?n = b_used b - b_current b" using D by (simp add: buf_remaining_def buf_content_def)
  have src: "take ?n (drop (b_current b) (b_base b)) = buf_remaining b"
    unfolding n using D by (simp add: buf_remaining_def buf_content_def take_drop)
  show ?thesis
  proof (cases "?n = 0")
    case True
    then have "buf_remaining b = []" by simp
    with True n D assms show ?thesis
      by (auto simp: isc_buffer_compact_def buf_ok_def buf_room_def ISC_BUFFER_VALID_def
          buf_remaining_def buf_content_def)
  next
    case False
    with n D have "b_current b < b_used b" by simp
    with False n D assms src show ?thesis
      by (auto simp: isc_buffer_compact_def Let_def buf_ok_def buf_room_def ISC_BUFFER_VALID_def
          buf_remaining_def buf_content_def)
  qed
qed

section \<open>Octet sinks\<close>

text \<open>
  The interface the text and wire encoders rely on: something octets are appended to, with a
  known amount of room.
\<close>

locale octet_sink =
  fixes put :: "'s \<Rightarrow> bytes \<Rightarrow> 's option"
    and written :: "'s \<Rightarrow> bytes"
    and room :: "'s \<Rightarrow> nat"
    and ok :: "'s \<Rightarrow> bool"
  assumes put_fits: "ok s \<Longrightarrow> length v \<le> room s \<Longrightarrow>
      \<exists>s'. put s v = Some s' \<and> ok s' \<and> written s' = written s @ v \<and> room s' = room s - length v"
    and put_overflow: "ok s \<Longrightarrow> room s < length v \<Longrightarrow> put s v = None"
begin

fun put_list :: "'s \<Rightarrow> bytes list \<Rightarrow> 's option" where
  "put_list s [] = Some s"
| "put_list s (v # vs) = (case put s v of None \<Rightarrow> None | Some s' \<Rightarrow> put_list s' vs)"

lemma put_list_fits:
  "ok s \<Longrightarrow> length (concat vs) \<le> room s \<Longrightarrow>
   \<exists>s'. put_list s vs = Some s' \<and> ok s' \<and> written s' = written s @ concat vs \<and>
        room s' = room s - length (concat vs)"
proof (induction vs arbitrary: s)
  case (Cons v vs)
  then obtain s' where s': "put s v = Some s'" "ok s'" "written s' = written s @ v"
      "room s' = room s - length v"
    using put_fits [of s v] by auto
  with Cons.IH [of s'] Cons.prems show ?case by fastforce
qed simp

lemma put_Some:
  assumes "ok s" "put s v = Some s'"
  shows "ok s' \<and> written s' = written s @ v \<and> room s' = room s - length v \<and> length v \<le> room s"
  using assms put_fits [of s v] put_overflow [of s v] by (cases "length v \<le> room s") auto

end

abbreviation fixed_buf :: "isc_buffer \<Rightarrow> bool" where
  "fixed_buf b \<equiv> buf_ok b \<and> \<not> b_mctx b"

abbreviation put_octets :: "isc_buffer \<Rightarrow> bytes \<Rightarrow> isc_buffer option" where
  "put_octets b v \<equiv> isc_buffer_putmem b v (length v)"

interpretation fixed_sink: octet_sink put_octets buf_content buf_room fixed_buf
proof unfold_locales
  fix s :: isc_buffer and v :: bytes
  assume "fixed_buf s" "length v \<le> buf_room s"
  then show "\<exists>s'. put_octets s v = Some s' \<and> fixed_buf s' \<and>
      buf_content s' = buf_content s @ v \<and> buf_room s' = buf_room s - length v"
    using isc_buffer_putmem_fixed [of s "length v" v] by (auto simp: appended_def buf_room_def)
next
  fix s :: isc_buffer and v :: bytes
  assume "fixed_buf s" "buf_room s < length v"
  then show "put_octets s v = None" by (simp add: isc_buffer_putmem_overflow)
qed

section \<open>Properties\<close>

text \<open>All the operations that change a buffer, as one step relation.\<close>

inductive buf_step :: "isc_buffer \<Rightarrow> isc_buffer \<Rightarrow> bool" where
  bs_add: "n < 2 ^ 32 - b_used b \<Longrightarrow> isc_buffer_add b n = Some b' \<Longrightarrow> buf_step b b'"
| bs_subtract: "isc_buffer_subtract b n = Some b' \<Longrightarrow> buf_step b b'"
| bs_clear: "isc_buffer_clear b = Some b' \<Longrightarrow> buf_step b b'"
| bs_setactive: "isc_buffer_setactive b n = Some b' \<Longrightarrow> buf_step b b'"
| bs_first: "isc_buffer_first b = Some b' \<Longrightarrow> buf_step b b'"
| bs_forward: "isc_buffer_forward b n = Some b' \<Longrightarrow> buf_step b b'"
| bs_back: "isc_buffer_back b n = Some b' \<Longrightarrow> buf_step b b'"
| bs_get8: "isc_buffer_getuint8 b = Some (v8, b') \<Longrightarrow> buf_step b b'"
| bs_get16: "isc_buffer_getuint16 b = Some (v16, b') \<Longrightarrow> buf_step b b'"
| bs_get32: "isc_buffer_getuint32 b = Some (v32, b') \<Longrightarrow> buf_step b b'"
| bs_get48: "isc_buffer_getuint48 b = Some (v48, b') \<Longrightarrow> buf_step b b'"
| bs_put8: "isc_buffer_putuint8 b v8 = Some b' \<Longrightarrow> buf_step b b'"
| bs_put16: "isc_buffer_putuint16 b v16 = Some b' \<Longrightarrow> buf_step b b'"
| bs_put32: "isc_buffer_putuint32 b v32 = Some b' \<Longrightarrow> buf_step b b'"
| bs_put48: "isc_buffer_putuint48 b v48 = Some b' \<Longrightarrow> buf_step b b'"
| bs_putmem: "isc_buffer_putmem b src n = Some b' \<Longrightarrow> buf_step b b'"
| bs_putstr: "isc_buffer_putstr b src = Some b' \<Longrightarrow> buf_step b b'"
| bs_copyregion: "isc_buffer_copyregion b r = Some (result, b') \<Longrightarrow> buf_step b b'"
| bs_reserve: "isc_buffer_reserve b n = Some (result, b') \<Longrightarrow> buf_step b b'"
| bs_compact: "isc_buffer_compact b = Some b' \<Longrightarrow> buf_step b b'"
| bs_trycompact: "isc_buffer_trycompact b = Some b' \<Longrightarrow> buf_step b b'"


lemma advance_ok:
  "buf_ok b \<Longrightarrow> \<not> length (buf_remaining b) < n \<Longrightarrow> buf_ok (b\<lparr>b_current := b_current b + n\<rparr>)"
  using consumed_advance [of b n] by (simp add: consumed_def)

lemma get_ok:
  "isc_buffer_getuint8 b = Some (v8, b') \<Longrightarrow> buf_ok b \<Longrightarrow> buf_ok b'"
  "isc_buffer_getuint16 b = Some (v16, b') \<Longrightarrow> buf_ok b \<Longrightarrow> buf_ok b'"
  "isc_buffer_getuint32 b = Some (v32, b') \<Longrightarrow> buf_ok b \<Longrightarrow> buf_ok b'"
  "isc_buffer_getuint48 b = Some (v48, b') \<Longrightarrow> buf_ok b \<Longrightarrow> buf_ok b'"
  using advance_ok [of b 1] advance_ok [of b 2] advance_ok [of b 4] advance_ok [of b 6]
  by (auto simp: isc_buffer_getuint8_def isc_buffer_peekuint8_def isc_buffer_getuint16_def
      isc_buffer_peekuint16_def isc_buffer_getuint32_def isc_buffer_peekuint32_def
      isc_buffer_getuint48_def isc_buffer_peekuint48_def peek_octets_eq split: if_splits)

lemma reserve_ok:
  assumes "isc_buffer_reserve b n = Some (result, b')" "buf_ok b"
  shows "buf_ok b'"
proof (cases "result = ISC_R_SUCCESS")
  case True
  then show ?thesis using isc_buffer_reserve_success assms by blast
next
  case False
  then have "b' = b"
    using assms by (auto simp: isc_buffer_reserve_def bind_eq_Some_conv Let_def split: if_splits)
  with assms show ?thesis by simp
qed

lemma store_Some:
  assumes "store b v = Some b'" "buf_ok b"
  shows "appended b v b'"
proof -
  have "length v \<le> buf_room b"
    using assms buf_okD [OF assms(2)]
    by (auto simp: store_def bind_eq_Some_conv blit_eq_Some buf_room_def)
  from store_ok [OF assms(2) this] assms(1) show ?thesis by (auto simp: appended_def)
qed

lemma store_buf_ok: "store b v = Some b' \<Longrightarrow> buf_ok b \<Longrightarrow> buf_ok b'"
  using store_Some by (simp add: appended_def)

lemma putmem_ok: "isc_buffer_putmem b src n = Some b' \<Longrightarrow> buf_ok b \<Longrightarrow> buf_ok b'"
  by (auto simp: isc_buffer_putmem_def bind_eq_Some_conv intro: store_buf_ok reserve_ok
      split: if_splits)

lemma putstr_ok: "isc_buffer_putstr b src = Some b' \<Longrightarrow> buf_ok b \<Longrightarrow> buf_ok b'"
  by (auto simp: isc_buffer_putstr_def bind_eq_Some_conv intro: store_buf_ok reserve_ok
      split: if_splits)

lemma copyregion_ok: "isc_buffer_copyregion b r = Some (result, b') \<Longrightarrow> buf_ok b \<Longrightarrow> buf_ok b'"
  by (auto simp: isc_buffer_copyregion_def bind_eq_Some_conv intro: store_buf_ok reserve_ok
      split: if_splits)

lemma compact_Some_ok: "isc_buffer_compact b = Some b' \<Longrightarrow> buf_ok b \<Longrightarrow> buf_ok b'"
  using isc_buffer_compact_ok by fastforce

lemma trycompact_ok: "isc_buffer_trycompact b = Some b' \<Longrightarrow> buf_ok b \<Longrightarrow> buf_ok b'"
  by (auto simp: isc_buffer_trycompact_def dest: compact_Some_ok split: if_splits)

lemmas buf_ok_intros = buf_ok_add buf_ok_subtract buf_ok_clear buf_ok_setactive buf_ok_first
  buf_ok_forward buf_ok_back get_ok reserve_ok putmem_ok putstr_ok copyregion_ok compact_Some_ok
  trycompact_ok isc_buffer_putuint8_appends isc_buffer_putuint16_appends
  isc_buffer_putuint32_appends isc_buffer_putuint48_appends



text \<open>
  a 32-bit value put into an otherwise empty buffer is the value the next \<open>get\<close> returns,
  and the buffer is then empty again.
\<close>

theorem put_get_uint32:
  assumes "buf_ok b" "buf_remaining b = []" "isc_buffer_putuint32 b v = Some b'"
  shows "\<exists>b''. isc_buffer_getuint32 b' = Some (v, b'') \<and> buf_remaining b'' = [] \<and> buf_ok b''"
proof -
  have app: "appended b (ISC_U32TO8_BE v) b'"
    using assms isc_buffer_putuint32_appends by blast
  then have ok: "buf_ok b'" and rem: "buf_remaining b' = ISC_U32TO8_BE v"
    using assms(2) by (simp_all add: appended_def)
  have len: "length (ISC_U32TO8_BE v) = 4" by (simp add: ISC_U32TO8_BE_def)
  then show ?thesis
    using isc_buffer_getuint32_consumes [OF ok] rem U32_roundtrip [of v]
    by (auto simp: consumed_def)
qed

theorem put_get_uint32_witness:
  "\<exists>b' b''. isc_buffer_putuint32 (isc_buffer_init [0, 0, 0, 0] 4) 0x01020304 = Some b' \<and>
     isc_buffer_getuint32 b' = Some (0x01020304, b'')"
proof -
  let ?b = "isc_buffer_init [0, 0, 0, 0] 4"
  have ok: "buf_ok ?b" by (simp add: buf_ok_def isc_buffer_init_def ISC_BUFFER_VALID_def)
  have e: "buf_remaining ?b = []"
    by (simp add: buf_remaining_def buf_content_def isc_buffer_init_def)
  have "\<exists>b'. isc_buffer_putuint32 ?b 0x01020304 = Some b'"
    by (simp add: isc_buffer_putuint32_def put_reserve_def store_def isc_buffer_init_def
        ISC_BUFFER_VALID_def isc_buffer_availablelength_def usub_def ISC_U32TO8_BE_def)
  then obtain b' where b': "isc_buffer_putuint32 ?b 0x01020304 = Some b'" by blast
  show ?thesis using put_get_uint32 [OF ok e b'] b' by blast
qed

text \<open>
  \<^verbatim>\<open>isc_buffer_putuint48\<close> writes six octets but insists on eight: on a fixed buffer with six
  or seven octets free it fails its assertion although the value would fit.
\<close>

theorem putuint48_needs_eight_octets:
  assumes "buf_ok b" "\<not> b_mctx b" "6 \<le> buf_room b" "buf_room b < 8"
  shows "isc_buffer_putuint48 b v = None \<and> (\<exists>b'. store b (ISC_U48TO8_BE v) = Some b' \<and> buf_ok b')"
proof -
  have "length (ISC_U48TO8_BE v) \<le> buf_room b" using assms by (simp add: ISC_U48TO8_BE_def)
  from store_ok [OF assms(1) this] show ?thesis
    using assms buf_okD(1) [OF assms(1)]
    by (auto simp: isc_buffer_putuint48_def put_reserve_def)
qed

theorem putuint48_needs_eight_octets_witness:
  "isc_buffer_putuint48 (isc_buffer_init (replicate 6 0) 6) 1 = None"
proof -
  let ?b = "isc_buffer_init (replicate 6 0) 6"
  have "buf_ok ?b" "\<not> b_mctx ?b" "6 \<le> buf_room ?b" "buf_room ?b < 8"
    by (simp_all add: buf_ok_def isc_buffer_init_def ISC_BUFFER_VALID_def buf_room_def)
  from putuint48_needs_eight_octets [OF this] show ?thesis by blast
qed

text \<open>
  the check in \<^verbatim>\<open>isc_buffer_add\<close> is made on the wrapped sum: adding \<open>2 ^ 32 - k\<close> to a buffer
  with at least \<open>k\<close> octets used passes the assertion and moves \<open>used\<close> back by \<open>k\<close>.
\<close>

theorem isc_buffer_add_wraps:
  assumes "buf_ok b" "k \<le> b_used b" "0 < k"
  shows "isc_buffer_add b (2 ^ 32 - k) = Some (b\<lparr>b_used := b_used b - k\<rparr>)"
proof -
  note D = buf_okD [OF assms(1)]
  have "b_used b + (2 ^ 32 - k) = (b_used b - k) + 2 ^ 32" using assms D by simp
  then have "uadd (b_used b) (2 ^ 32 - k) = ((b_used b - k) + 2 ^ 32) mod 2 ^ 32"
    by (simp only: uadd_def)
  also have "\<dots> = b_used b - k" using D by simp
  finally have "uadd (b_used b) (2 ^ 32 - k) = b_used b - k" .
  then show ?thesis using D by (simp add: isc_buffer_add_def)
qed

theorem isc_buffer_add_wraps_witness:
  "isc_buffer_add ((isc_buffer_init [0] 1)\<lparr>b_used := 1\<rparr>) (2 ^ 32 - 1) = Some (isc_buffer_init [0] 1)"
  using isc_buffer_add_wraps [of "(isc_buffer_init [0] 1)\<lparr>b_used := 1\<rparr>" 1]
  by (simp add: buf_ok_def isc_buffer_init_def ISC_BUFFER_VALID_def)


end
