(* ===== verification/Name.thy ===== *)
theory Name
  imports Ascii Buffer
begin

text \<open>
  \<^verbatim>\<open>lib/dns/name.c\<close>, first part: the name structure of \<^verbatim>\<open>lib/dns/include/dns/name.h\<close>, its
  offset table, validity, comparison, label access, concatenation and copying.

  \<open>ndata\<close> is the memory the name points to, of which the first \<open>n_length\<close> octets are the name
  in uncompressed wire form; \<open>offsets\<close> is the optional table of label positions.  A name is
  a value here: where C lets two names share memory, the model copies, and the shortcuts the
  code takes on equal pointers (comparing a name with itself, making a name a prefix of
  itself) are the same computation.

  The abstract view of a name is its list of labels, and \<open>name_is n ls\<close> says that \<open>n\<close>
  represents the labels \<open>ls\<close>, the root label being the empty one at the end of an absolute
  name.  The lemmas give each operation on that view.
\<close>

section \<open>The name structure\<close>

definition DNS_NAME_MAGIC :: u32 where
  "DNS_NAME_MAGIC = 0x444e536e"

definition DNS_NAME_MAXWIRE :: nat where
  "DNS_NAME_MAXWIRE = 255"

definition DNS_NAME_MAXLABELS :: nat where
  "DNS_NAME_MAXLABELS = 128"

definition DNS_NAME_LABELLEN :: nat where
  "DNS_NAME_LABELLEN = 63"

lemmas name_consts [simp] =
  DNS_NAME_MAXWIRE_def DNS_NAME_MAXLABELS_def DNS_NAME_LABELLEN_def

record dns_name_attrs =
  absolute :: bool
  readonly :: bool
  dynamic :: bool
  dynoffsets :: bool
  nocompress :: bool
  cache :: bool
  answer :: bool
  ncache :: bool
  chaining :: bool
  chase :: bool
  wildcard :: bool
  prerequisite :: bool
  update :: bool
  hasupdaterec :: bool

record dns_name =
  n_magic :: u32
  ndata :: bytes
  n_length :: nat
  labels :: nat
  attributes :: dns_name_attrs
  offsets :: "bytes option"
  n_buffer :: "isc_buffer option"

definition no_attrs :: dns_name_attrs where
  "no_attrs = \<lparr>absolute = False, readonly = False, dynamic = False, dynoffsets = False,
     nocompress = False, cache = False, answer = False, ncache = False, chaining = False,
     chase = False, wildcard = False, prerequisite = False, update = False,
     hasupdaterec = False\<rparr>"

abbreviation is_absolute :: "dns_name \<Rightarrow> bool" where
  "is_absolute n \<equiv> absolute (attributes n)"

abbreviation set_absolute :: "bool \<Rightarrow> dns_name \<Rightarrow> dns_name" where
  "set_absolute a n \<equiv> n\<lparr>attributes := (attributes n)\<lparr>absolute := a\<rparr>\<rparr>"

definition VALID_NAME :: "dns_name \<Rightarrow> bool" where
  "VALID_NAME n \<longleftrightarrow> n_magic n = DNS_NAME_MAGIC"

definition BINDABLE :: "dns_name \<Rightarrow> bool" where
  "BINDABLE n \<longleftrightarrow> \<not> readonly (attributes n) \<and> \<not> dynamic (attributes n)"

definition MAKE_EMPTY :: "dns_name \<Rightarrow> dns_name" where
  "MAKE_EMPTY n = set_absolute False (n\<lparr>ndata := [], n_length := 0, labels := 0\<rparr>)"

definition DNS_NAME_INIT :: "bytes option \<Rightarrow> dns_name" where
  "DNS_NAME_INIT os =
     \<lparr>n_magic = DNS_NAME_MAGIC, ndata = [], n_length = 0, labels = 0, attributes = no_attrs,
      offsets = os, n_buffer = None\<rparr>"

definition DNS_NAME_INITNONABSOLUTE :: "bytes \<Rightarrow> bytes \<Rightarrow> dns_name" where
  "DNS_NAME_INITNONABSOLUTE a b =
     \<lparr>n_magic = DNS_NAME_MAGIC, ndata = a @ [0], n_length = length a, labels = length b,
      attributes = no_attrs\<lparr>readonly := True\<rparr>, offsets = Some b, n_buffer = None\<rparr>"

text \<open>\<open>a\<close> is the text of the C string literal: the array has its terminating zero octet too,
  which is the root label.\<close>

definition DNS_NAME_INITABSOLUTE :: "bytes \<Rightarrow> bytes \<Rightarrow> dns_name" where
  "DNS_NAME_INITABSOLUTE a b =
     \<lparr>n_magic = DNS_NAME_MAGIC, ndata = a @ [0], n_length = length a + 1, labels = length b,
      attributes = no_attrs\<lparr>readonly := True, absolute := True\<rparr>, offsets = Some b,
      n_buffer = None\<rparr>"

definition dns_rootname :: dns_name where
  "dns_rootname = DNS_NAME_INITABSOLUTE [] [0]"

definition dns_wildcardname :: dns_name where
  "dns_wildcardname = DNS_NAME_INITNONABSOLUTE [1, 0x2a] [0]"

definition dns_name_init :: "bytes option \<Rightarrow> dns_name" where
  "dns_name_init os = DNS_NAME_INIT os"

definition dns_name_reset :: "dns_name \<Rightarrow> dns_name option" where
  "dns_name_reset n = do {
     REQUIRE (VALID_NAME n);
     REQUIRE (BINDABLE n);
     let n = set_absolute False (n\<lparr>ndata := [], n_length := 0, labels := 0\<rparr>);
     case n_buffer n of
       None \<Rightarrow> Some n
     | Some b \<Rightarrow> do { b \<leftarrow> isc_buffer_clear b; Some (n\<lparr>n_buffer := Some b\<rparr>) }
   }"

definition dns_name_invalidate :: "dns_name \<Rightarrow> dns_name option" where
  "dns_name_invalidate n = do {
     REQUIRE (VALID_NAME n);
     Some \<lparr>n_magic = 0, ndata = [], n_length = 0, labels = 0, attributes = no_attrs,
           offsets = None, n_buffer = None\<rparr>
   }"

definition dns_name_setbuffer :: "dns_name \<Rightarrow> isc_buffer option \<Rightarrow> dns_name option" where
  "dns_name_setbuffer n buffer = do {
     REQUIRE (VALID_NAME n);
     REQUIRE ((buffer \<noteq> None \<and> n_buffer n = None) \<or> buffer = None);
     Some (n\<lparr>n_buffer := buffer\<rparr>)
   }"

definition dns_name_hasbuffer :: "dns_name \<Rightarrow> bool option" where
  "dns_name_hasbuffer n = do {
     REQUIRE (VALID_NAME n);
     Some (n_buffer n \<noteq> None)
   }"

definition dns_name_isabsolute :: "dns_name \<Rightarrow> bool option" where
  "dns_name_isabsolute n = do {
     REQUIRE (VALID_NAME n);
     Some (is_absolute n)
   }"

text \<open>A name that carries its own 255-octet buffer: \<^verbatim>\<open>lib/dns/fixedname.c\<close>.\<close>

definition dns_fixedname_initname :: dns_name where
  "dns_fixedname_initname =
     (dns_name_init (Some (replicate DNS_NAME_MAXLABELS 0)))
       \<lparr>n_buffer := Some (isc_buffer_init (replicate DNS_NAME_MAXWIRE 0) DNS_NAME_MAXWIRE)\<rparr>"

section \<open>The offset table\<close>

function set_offsets_loop ::
  "bytes \<Rightarrow> nat \<Rightarrow> nat \<Rightarrow> nat \<Rightarrow> bytes \<Rightarrow> (bytes \<times> nat \<times> nat \<times> bool) option" where
  "set_offsets_loop nd len offset nlabels os =
     (if offset = len then Some (os, offset, nlabels, False)
      else do {
        INSIST (nlabels < DNS_NAME_MAXLABELS);
        os \<leftarrow> poke os nlabels (of_nat offset);
        count \<leftarrow> peek nd offset;
        INSIST (unat count \<le> DNS_NAME_LABELLEN);
        INSIST (offset + unat count + 1 \<le> len);
        if unat count = 0 then Some (os, offset + unat count + 1, nlabels + 1, True)
        else set_offsets_loop nd len (offset + unat count + 1) (nlabels + 1) os
      })"
  by pat_completeness auto
termination
  by (relation "measure (\<lambda>(nd, len, offset, nlabels, os). len - offset)") auto

text \<open>\<open>set_name\<close> tells whether the caller passed the name itself to be updated.\<close>

definition set_offsets :: "dns_name \<Rightarrow> bytes \<Rightarrow> bool \<Rightarrow> (bytes \<times> dns_name) option" where
  "set_offsets name os set_name = do {
     (os, offset, nlabels, absol) \<leftarrow> set_offsets_loop (ndata name) (n_length name) 0 0 os;
     let name = (if set_name
                 then set_absolute absol (name\<lparr>labels := nlabels, n_length := offset\<rparr>)
                 else name);
     INSIST (nlabels = labels name);
     INSIST (offset = n_length name);
     Some (os, name)
   }"

text \<open>The local table \<^verbatim>\<open>dns_offsets_t\<close> a function uses when the name has none.\<close>

definition odata :: bytes where
  "odata = replicate DNS_NAME_MAXLABELS 0"

definition SETUP_OFFSETS :: "dns_name \<Rightarrow> bytes option" where
  "SETUP_OFFSETS name =
     (case offsets name of
        Some os \<Rightarrow> Some os
      | None \<Rightarrow> do { (os, _) \<leftarrow> set_offsets name odata False; Some os })"

text \<open>Filling in the name's own table, where it has one.\<close>

definition refresh_offsets :: "dns_name \<Rightarrow> dns_name option" where
  "refresh_offsets name =
     (case offsets name of
        Some os \<Rightarrow> do { (os, _) \<leftarrow> set_offsets name os False; Some (name\<lparr>offsets := Some os\<rparr>) }
      | None \<Rightarrow> Some name)"

function isvalid_loop :: "bytes \<Rightarrow> bytes option \<Rightarrow> nat \<Rightarrow> nat \<Rightarrow> nat \<Rightarrow> (nat \<times> nat) option option" where
  "isvalid_loop nd os len offset nlabels =
     (if offset = len then Some (Some (offset, nlabels))
      else do {
        count \<leftarrow> peek nd offset;
        if unat count > DNS_NAME_LABELLEN then Some None
        else do {
          mismatch \<leftarrow> (case os of
             None \<Rightarrow> Some False
           | Some os \<Rightarrow> do { o' \<leftarrow> peek os nlabels; Some (unat o' \<noteq> offset) });
          if mismatch then Some None
          else if offset + unat count + 1 > len then Some None
          else if unat count = 0 then Some (Some (offset + unat count + 1, nlabels + 1))
          else isvalid_loop nd os len (offset + unat count + 1) (nlabels + 1)
        }
      })"
  by pat_completeness auto
termination
  by (relation "measure (\<lambda>(nd, os, len, offset, nlabels). len - offset)") auto

definition dns_name_isvalid :: "dns_name \<Rightarrow> bool option" where
  "dns_name_isvalid name =
     (if \<not> VALID_NAME name then Some False
      else if n_length name > DNS_NAME_MAXWIRE \<or> labels name > DNS_NAME_MAXLABELS
      then Some False
      else do {
        r \<leftarrow> isvalid_loop (ndata name) (offsets name) (n_length name) 0 0;
        case r of
          None \<Rightarrow> Some False
        | Some (offset, nlabels) \<Rightarrow> Some (nlabels = labels name \<and> offset = n_length name)
      })"

declare set_offsets_loop.simps [simp del]
declare isvalid_loop.simps [simp del]

section \<open>Character classes and host names\<close>

definition hyphenchar :: "u8 \<Rightarrow> bool" where "hyphenchar c \<longleftrightarrow> c = 0x2d"
definition asterchar :: "u8 \<Rightarrow> bool" where "asterchar c \<longleftrightarrow> c = 0x2a"
definition alphachar :: "u8 \<Rightarrow> bool" where
  "alphachar c \<longleftrightarrow> (c \<ge> 0x41 \<and> c \<le> 0x5a) \<or> (c \<ge> 0x61 \<and> c \<le> 0x7a)"
definition digitchar :: "u8 \<Rightarrow> bool" where "digitchar c \<longleftrightarrow> c \<ge> 0x30 \<and> c \<le> 0x39"
definition borderchar :: "u8 \<Rightarrow> bool" where "borderchar c \<longleftrightarrow> alphachar c \<or> digitchar c"
definition middlechar :: "u8 \<Rightarrow> bool" where "middlechar c \<longleftrightarrow> borderchar c \<or> hyphenchar c"
definition domainchar :: "u8 \<Rightarrow> bool" where "domainchar c \<longleftrightarrow> c > 0x20 \<and> c < 0x7f"

text \<open>The loops over the octets of one label, from position \<open>p\<close>.\<close>

fun mailbox_label :: "bytes \<Rightarrow> nat \<Rightarrow> nat \<Rightarrow> bool option" where
  "mailbox_label nd p 0 = Some True"
| "mailbox_label nd p (Suc n) = do {
     ch \<leftarrow> peek nd p;
     if \<not> domainchar ch then Some False else mailbox_label nd (p + 1) n
   }"

fun hostname_label :: "bytes \<Rightarrow> nat \<Rightarrow> nat \<Rightarrow> bool \<Rightarrow> bool option" where
  "hostname_label nd p 0 first = Some True"
| "hostname_label nd p (Suc n) first = do {
     ch \<leftarrow> peek nd p;
     if first \<or> n = 0
     then if \<not> borderchar ch then Some False else hostname_label nd (p + 1) n False
     else if \<not> middlechar ch then Some False else hostname_label nd (p + 1) n False
   }"

function hostname_labels :: "bytes \<Rightarrow> nat \<Rightarrow> nat \<Rightarrow> bool option" where
  "hostname_labels nd stop p =
     (if p < stop then do {
        n \<leftarrow> peek nd p;
        INSIST (unat n \<le> DNS_NAME_LABELLEN);
        good \<leftarrow> hostname_label nd (p + 1) (unat n) True;
        if \<not> good then Some False else hostname_labels nd stop (p + 1 + unat n)
      } else Some True)"
  by pat_completeness auto
termination
  by (relation "measure (\<lambda>(nd, stop, p). stop - p)") auto

declare hostname_labels.simps [simp del]

definition dns_name_ismailbox :: "dns_name \<Rightarrow> bool option" where
  "dns_name_ismailbox name = do {
     REQUIRE (VALID_NAME name);
     REQUIRE (labels name > 0);
     REQUIRE (is_absolute name);
     if n_length name = 1 then Some True
     else do {
       n \<leftarrow> peek (ndata name) 0;
       INSIST (unat n \<le> DNS_NAME_LABELLEN);
       good \<leftarrow> mailbox_label (ndata name) 1 (unat n);
       if \<not> good then Some False
       else if 1 + unat n = n_length name then Some False
       else hostname_labels (ndata name) (n_length name) (1 + unat n)
     }
   }"

definition dns_name_ishostname :: "dns_name \<Rightarrow> bool \<Rightarrow> bool option" where
  "dns_name_ishostname name wild = do {
     REQUIRE (VALID_NAME name);
     REQUIRE (labels name > 0);
     REQUIRE (is_absolute name);
     if n_length name = 1 then Some True
     else do {
       skip \<leftarrow> (if wild then do {
                  c0 \<leftarrow> peek (ndata name) 0;
                  if c0 = 1 then do { c1 \<leftarrow> peek (ndata name) 1; Some (c1 = 0x2a) }
                  else Some False
                } else Some False);
       hostname_labels (ndata name) (n_length name) (if skip then 2 else 0)
     }
   }"

definition dns_name_iswildcard :: "dns_name \<Rightarrow> bool option" where
  "dns_name_iswildcard name = do {
     REQUIRE (VALID_NAME name);
     REQUIRE (labels name > 0);
     if n_length name \<ge> 2 then do {
       c0 \<leftarrow> peek (ndata name) 0;
       c1 \<leftarrow> peek (ndata name) 1;
       Some (c0 = 1 \<and> c1 = 0x2a)
     } else Some False
   }"

function internalwildcard_loop :: "bytes \<Rightarrow> nat \<Rightarrow> nat \<Rightarrow> nat \<Rightarrow> bool option" where
  "internalwildcard_loop nd nlabels p label =
     (if label + 1 < nlabels then do {
        count \<leftarrow> peek nd p;
        INSIST (unat count \<le> DNS_NAME_LABELLEN);
        star \<leftarrow> (if unat count = 1 then do { c \<leftarrow> peek nd (p + 1); Some (c = 0x2a) } else Some False);
        if star then Some True
        else internalwildcard_loop nd nlabels (p + 1 + unat count) (label + 1)
      } else Some False)"
  by pat_completeness auto
termination
  by (relation "measure (\<lambda>(nd, nlabels, p, label). nlabels - label)") auto

declare internalwildcard_loop.simps [simp del]

definition dns_name_internalwildcard :: "dns_name \<Rightarrow> bool option" where
  "dns_name_internalwildcard name = do {
     REQUIRE (VALID_NAME name);
     REQUIRE (labels name > 0);
     count \<leftarrow> peek (ndata name) 0;
     INSIST (unat count \<le> DNS_NAME_LABELLEN);
     internalwildcard_loop (ndata name) (labels name) (1 + unat count) 1
   }"

section \<open>Names as lists of labels\<close>

definition wire :: "bytes list \<Rightarrow> bytes" where
  "wire ls = concat (map (\<lambda>l. of_nat (length l) # l) ls)"

definition labels_ok :: "bytes list \<Rightarrow> bool" where
  "labels_ok ls \<longleftrightarrow>
     (\<forall>l\<in>set ls. length l \<le> DNS_NAME_LABELLEN) \<and> (\<forall>l\<in>set (butlast ls). l \<noteq> []) \<and>
     length (wire ls) \<le> DNS_NAME_MAXWIRE"

text \<open>The offset of label \<open>i\<close>.\<close>

definition label_off :: "bytes list \<Rightarrow> nat \<Rightarrow> nat" where
  "label_off ls i = length (wire (take i ls))"

definition table_is :: "bytes \<Rightarrow> bytes list \<Rightarrow> bool" where
  "table_is os ls \<longleftrightarrow> length ls \<le> length os \<and> (\<forall>i<length ls. unat (os ! i) = label_off ls i)"

definition rooted :: "bytes list \<Rightarrow> bool" where
  "rooted ls \<longleftrightarrow> ls \<noteq> [] \<and> last ls = []"

definition name_rep :: "dns_name \<Rightarrow> bytes list \<Rightarrow> bool" where
  "name_rep n ls \<longleftrightarrow>
     VALID_NAME n \<and> n_length n \<le> length (ndata n) \<and> take (n_length n) (ndata n) = wire ls \<and>
     labels n = length ls \<and> labels_ok ls \<and>
     (case offsets n of None \<Rightarrow> True | Some os \<Rightarrow> table_is os ls)"

definition name_is :: "dns_name \<Rightarrow> bytes list \<Rightarrow> bool" where
  "name_is n ls \<longleftrightarrow> name_rep n ls \<and> is_absolute n = rooted ls"

text \<open>Room in the name's own table for any name.\<close>

definition table_room :: "dns_name \<Rightarrow> bool" where
  "table_room n \<longleftrightarrow> (case offsets n of None \<Rightarrow> True | Some os \<Rightarrow> DNS_NAME_MAXLABELS \<le> length os)"

lemma wire_simps [simp]:
  "wire [] = []" "wire (l # ls) = of_nat (length l) # l @ wire ls" "wire (ls @ ls') = wire ls @ wire ls'"
  by (simp_all add: wire_def)

lemma length_wire: "length (wire ls) = sum_list (map (\<lambda>l. Suc (length l)) ls)"
  by (induction ls) auto

lemma length_wire_ge: "length ls \<le> length (wire ls)"
  by (induction ls) auto

lemma labels_ok_Nil [simp]: "labels_ok []"
  by (simp add: labels_ok_def)

lemma labels_ok_Cons:
  "labels_ok (l # ls) \<Longrightarrow> labels_ok ls"
  "labels_ok (l # ls) \<Longrightarrow> length l \<le> 63"
  "labels_ok (l # ls) \<Longrightarrow> ls \<noteq> [] \<Longrightarrow> l \<noteq> []"
  by (auto simp: labels_ok_def split: if_splits dest: in_set_butlastD)

lemma wire_two_per_label: "(\<And>l. l \<in> set ls \<Longrightarrow> l \<noteq> []) \<Longrightarrow> 2 * length ls \<le> length (wire ls)"
proof (induction ls)
  case (Cons l ls)
  then have "2 * length ls \<le> length (wire ls)" by auto
  moreover obtain c l' where "l = c # l'" using Cons.prems by (cases l) auto
  ultimately show ?case by simp
qed simp

lemma labels_ok_count:
  assumes "labels_ok ls"
  shows "length ls \<le> DNS_NAME_MAXLABELS"
proof (cases ls rule: rev_cases)
  case (snoc ls' l)
  then have "2 * length ls' \<le> length (wire ls')"
    using assms by (intro wire_two_per_label) (auto simp: labels_ok_def)
  with snoc assms show ?thesis by (simp add: labels_ok_def)
qed simp

lemma labels_ok_append:
  "labels_ok (ls @ ls') \<Longrightarrow> labels_ok ls" "labels_ok (ls @ ls') \<Longrightarrow> labels_ok ls'"
  by (auto simp: labels_ok_def butlast_append split: if_splits dest: in_set_butlastD)

lemma labels_ok_take: "labels_ok ls \<Longrightarrow> labels_ok (take n ls)"
  by (metis append_take_drop_id labels_ok_append(1))

lemma labels_ok_drop: "labels_ok ls \<Longrightarrow> labels_ok (drop n ls)"
  by (metis append_take_drop_id labels_ok_append(2))

lemma label_off_simps [simp]:
  "label_off ls 0 = 0" "label_off (l # ls) (Suc i) = Suc (length l + label_off ls i)"
  by (simp_all add: label_off_def)

lemma label_off_le: "label_off ls i \<le> length (wire ls)"
proof -
  have "length (wire ls) = length (wire (take i ls)) + length (wire (drop i ls))"
    by (metis append_take_drop_id length_append wire_simps(3))
  then show ?thesis by (simp add: label_off_def)
qed

section \<open>The offset table of a represented name\<close>

text \<open>What \<open>set_offsets\<close> writes.\<close>

fun write_offs :: "bytes \<Rightarrow> nat \<Rightarrow> nat \<Rightarrow> bytes list \<Rightarrow> bytes" where
  "write_offs os k o' [] = os"
| "write_offs os k o' (l # ls) = write_offs (os[k := of_nat o']) (k + 1) (o' + length l + 1) ls"

lemma length_write_offs [simp]: "length (write_offs os k o' ls) = length os"
  by (induction ls arbitrary: os k o') auto

lemma write_offs_below: "i < k \<Longrightarrow> write_offs os k o' ls ! i = os ! i"
  by (induction ls arbitrary: os k o') auto

lemma write_offs_nth:
  "i < length ls \<Longrightarrow> k + length ls \<le> length os \<Longrightarrow>
   write_offs os k o' ls ! (k + i) = of_nat (o' + label_off ls i)"
proof (induction ls arbitrary: os k o' i)
  case (Cons l ls)
  show ?case
  proof (cases i)
    case 0
    then show ?thesis using Cons.prems by (simp add: write_offs_below)
  next
    case (Suc j)
    then show ?thesis using Cons.IH [of j "k + 1"] Cons.prems by (simp add: add.commute add.left_commute)
  qed
qed simp

lemma write_offs_table:
  assumes "labels_ok ls" "length ls \<le> length os"
  shows "table_is (write_offs os 0 0 ls) ls"
proof -
  have "label_off ls i < 256" for i
    using label_off_le [of ls i] assms(1) by (simp add: labels_ok_def)
  then show ?thesis
    using write_offs_nth [of _ ls 0 os 0] assms by (simp add: table_is_def)
qed

lemma set_offsets_loop_wire:
  assumes "labels_ok ls" "nl + length ls \<le> 128" "nl + length ls \<le> length os"
  shows "set_offsets_loop (pre @ wire ls @ rest) (length pre + length (wire ls)) (length pre) nl os =
     Some (write_offs os nl (length pre) ls, length pre + length (wire ls), nl + length ls, rooted ls)"
  using assms
proof (induction ls arbitrary: pre nl os)
  case Nil
  then show ?case by (simp add: set_offsets_loop.simps rooted_def)
next
  case (Cons l ls)
  note ok = labels_ok_Cons [OF Cons.prems(1)]
  let ?pre = "pre @ of_nat (length l) # l"
  have IH: "set_offsets_loop (?pre @ wire ls @ rest) (length ?pre + length (wire ls)) (length ?pre)
      (nl + 1) (os[nl := of_nat (length pre)]) =
     Some (write_offs (os[nl := of_nat (length pre)]) (nl + 1) (length ?pre) ls,
       length ?pre + length (wire ls), nl + 1 + length ls, rooted ls)"
    using Cons.prems ok by (intro Cons.IH) auto
  show ?case
  proof (cases "l = []")
    case True
    with ok have "ls = []" by blast
    with True Cons.prems show ?thesis by (subst set_offsets_loop.simps) (simp add: rooted_def)
  next
    case False
    then have r: "rooted (l # ls) = rooted ls" by (simp add: rooted_def)
    show ?thesis
      using IH Cons.prems ok False unfolding r by (subst set_offsets_loop.simps) (simp add: add.commute add.left_commute)
  qed
qed

lemma name_repD [wf_dests]:
  assumes "name_rep n ls"
  shows "VALID_NAME n" "n_length n = length (wire ls)" "labels n = length ls" "labels_ok ls"
    "length (wire ls) \<le> length (ndata n)" "take (length (wire ls)) (ndata n) = wire ls"
    "n_length n \<le> 255" "length ls \<le> 128" "length (wire ls) \<le> 255"
    "offsets n = Some os \<Longrightarrow> table_is os ls"
proof -
  show "VALID_NAME n" "labels n = length ls" "labels_ok ls"
    using assms by (auto simp: name_rep_def)
  have "length (take (n_length n) (ndata n)) = length (wire ls)" "n_length n \<le> length (ndata n)"
    using assms by (auto simp: name_rep_def)
  then show e: "n_length n = length (wire ls)" by simp
  then show "length (wire ls) \<le> length (ndata n)" "take (length (wire ls)) (ndata n) = wire ls"
    using assms by (auto simp: name_rep_def)
  show "n_length n \<le> 255" "length ls \<le> 128" "length (wire ls) \<le> 255"
    using assms e labels_ok_count [of ls] by (auto simp: name_rep_def labels_ok_def)
  show "offsets n = Some os \<Longrightarrow> table_is os ls" using assms by (simp add: name_rep_def)
qed

lemma name_rep_split: "name_rep n ls \<Longrightarrow> ndata n = wire ls @ drop (length (wire ls)) (ndata n)"
  using name_repD(6) [of n ls] by (metis append_take_drop_id)

text \<open>\<open>name_core\<close> is \<open>name_rep\<close> without the table, as it stands before the table is computed.\<close>

abbreviation name_core :: "dns_name \<Rightarrow> bytes list \<Rightarrow> bool" where
  "name_core n ls \<equiv> name_rep (n\<lparr>offsets := None\<rparr>) ls"

lemma name_core_rep: "name_rep n ls \<Longrightarrow> name_core n ls"
  by (simp add: name_rep_def VALID_NAME_def)

lemma set_offsets_rep:
  assumes "name_core n ls" "length ls \<le> length os"
  shows "set_offsets n os False = Some (write_offs os 0 0 ls, n)"
proof -
  note D = name_repD [OF assms(1), simplified]
  have "ndata n = [] @ wire ls @ drop (length (wire ls)) (ndata n)"
    using name_rep_split [OF assms(1)] by simp
  with set_offsets_loop_wire [of ls 0 os "[]" "drop (length (wire ls)) (ndata n)"] D assms(2)
  show ?thesis by (simp add: set_offsets_def)
qed

lemma refresh_offsets_rep:
  assumes "name_core n ls" "table_room n"
  shows "\<exists>os. refresh_offsets n = Some (n\<lparr>offsets := os\<rparr>) \<and> name_rep (n\<lparr>offsets := os\<rparr>) ls \<and>
           (os = None) = (offsets n = None) \<and> table_room (n\<lparr>offsets := os\<rparr>)"
proof (cases "offsets n")
  case None
  have n: "n\<lparr>offsets := None\<rparr> = n" using None by (cases n) simp
  with None assms show ?thesis
    by (intro exI [of _ None]) (simp add: refresh_offsets_def n)
next
  case (Some os)
  note D = name_repD [OF assms(1), simplified]
  have len: "length ls \<le> length os" using Some assms(2) D by (simp add: table_room_def)
  show ?thesis
    using Some assms set_offsets_rep [OF assms(1) len] write_offs_table [OF D(4) len]
    by (intro exI [of _ "Some (write_offs os 0 0 ls)"])
       (auto simp: refresh_offsets_def name_rep_def VALID_NAME_def table_room_def)
qed

lemma SETUP_OFFSETS_rep:
  assumes "name_rep n ls"
  shows "\<exists>os. SETUP_OFFSETS n = Some os \<and> table_is os ls"
proof (cases "offsets n")
  case None
  note D = name_repD [OF assms]
  have len: "length ls \<le> length odata" using D by (simp add: odata_def)
  show ?thesis
    using None set_offsets_rep [OF name_core_rep [OF assms] len] write_offs_table [OF D(4) len]
    by (simp add: SETUP_OFFSETS_def)
next
  case (Some os)
  with assms show ?thesis by (simp add: SETUP_OFFSETS_def name_rep_def)
qed


section \<open>Validity\<close>

lemma isvalid_loop_wire:
  assumes "labels_ok ls" "nl + length ls \<le> 128"
    "\<And>os. os' = Some os \<Longrightarrow> nl + length ls \<le> length os \<and>
       (\<forall>i<length ls. unat (os ! (nl + i)) = length pre + label_off ls i)"
  shows "isvalid_loop (pre @ wire ls @ rest) os' (length pre + length (wire ls)) (length pre) nl =
     Some (Some (length pre + length (wire ls), nl + length ls))"
  using assms
proof (induction ls arbitrary: pre nl)
  case Nil
  then show ?case by (simp add: isvalid_loop.simps)
next
  case (Cons l ls)
  note ok = labels_ok_Cons [OF Cons.prems(1)]
  let ?pre = "pre @ of_nat (length l) # l"
  have t: "(case os' of None \<Rightarrow> Some False
      | Some os \<Rightarrow> do { o' \<leftarrow> peek os nl; Some (unat o' \<noteq> length pre) }) = Some False"
    using Cons.prems(3) by (force split: option.splits)
  have IH: "isvalid_loop (?pre @ wire ls @ rest) os' (length ?pre + length (wire ls)) (length ?pre)
      (nl + 1) = Some (Some (length ?pre + length (wire ls), nl + 1 + length ls))"
  proof (rule Cons.IH)
    fix os assume "os' = Some os"
    then have a: "nl + length (l # ls) \<le> length os"
        "\<And>i. i < length (l # ls) \<Longrightarrow> unat (os ! (nl + i)) = length pre + label_off (l # ls) i"
      using Cons.prems(3) by blast+
    show "nl + 1 + length ls \<le> length os \<and>
        (\<forall>i<length ls. unat (os ! (nl + 1 + i)) = length ?pre + label_off ls i)"
      using a(1) a(2) [of "Suc _"] by simp
  qed (use Cons.prems ok in auto)
  show ?case
  proof (cases "l = []")
    case True
    with ok have "ls = []" by blast
    with True Cons.prems t show ?thesis by (subst isvalid_loop.simps) simp
  next
    case False
    then show ?thesis
      using IH Cons.prems ok t by (subst isvalid_loop.simps) (simp add: add.commute add.left_commute)
  qed
qed

lemma isvalid_loop_step:
  assumes "isvalid_loop nd os' len off nl = Some (Some (off', nl'))" "off \<noteq> len"
  shows "off < length nd \<and> unat (nd ! off) \<le> 63 \<and> off + unat (nd ! off) + 1 \<le> len \<and>
    (\<forall>os. os' = Some os \<longrightarrow> nl < length os \<and> unat (os ! nl) = off) \<and>
    (if nd ! off = 0 then off' = off + 1 \<and> nl' = nl + 1
     else isvalid_loop nd os' len (off + unat (nd ! off) + 1) (nl + 1) = Some (Some (off', nl')))"
  using assms
  by (subst (asm) isvalid_loop.simps)
     (auto simp: bind_eq_Some_conv peek_eq_Some unat_eq_0 split: if_splits option.splits)

definition runs_from ::
  "bytes \<Rightarrow> bytes option \<Rightarrow> nat \<Rightarrow> nat \<Rightarrow> nat \<Rightarrow> nat \<Rightarrow> nat \<Rightarrow> bytes list \<Rightarrow> bool" where
  "runs_from nd os' len off nl off' nl' ls \<longleftrightarrow>
     nl' = nl + length ls \<and> off' = off + length (wire ls) \<and> off' \<le> len \<and>
     (\<forall>l\<in>set ls. length l \<le> 63) \<and> (\<forall>l\<in>set (butlast ls). l \<noteq> []) \<and>
     take (off' - off) (drop off nd) = wire ls \<and>
     (\<forall>os. os' = Some os \<longrightarrow> nl + length ls \<le> length os \<or> ls = []) \<and>
     (\<forall>os i. os' = Some os \<longrightarrow> i < length ls \<longrightarrow> unat (os ! (nl + i)) = off + label_off ls i)"

lemma runs_from_Cons:
  assumes "runs_from nd os' len (off + unat (nd ! off) + 1) (nl + 1) off' nl' ls"
    "off < length nd" "unat (nd ! off) \<le> 63" "nd ! off \<noteq> 0 \<or> ls = []" "len \<le> length nd"
    "\<And>os. os' = Some os \<Longrightarrow> nl < length os \<and> unat (os ! nl) = off"
  shows "runs_from nd os' len off nl off' nl' (take (unat (nd ! off)) (drop (off + 1) nd) # ls)"
proof -
  let ?c = "unat (nd ! off)" and ?l = "take (unat (nd ! off)) (drop (off + 1) nd)"
  have A: "nl' = nl + 1 + length ls" "off' = off + ?c + 1 + length (wire ls)" "off' \<le> len"
    "\<And>l. l \<in> set ls \<Longrightarrow> length l \<le> 63" "\<And>l. l \<in> set (butlast ls) \<Longrightarrow> l \<noteq> []"
    "take (off' - (off + ?c + 1)) (drop (off + ?c + 1) nd) = wire ls"
    "\<And>os. os' = Some os \<Longrightarrow> nl + 1 + length ls \<le> length os \<or> ls = []"
    "\<And>os i. os' = Some os \<Longrightarrow> i < length ls \<Longrightarrow>
       unat (os ! (nl + 1 + i)) = off + ?c + 1 + label_off ls i"
    using assms(1) by (auto simp: runs_from_def)
  have l: "length ?l = ?c" using A(2,3) assms(5) by simp
  have w: "of_nat (length ?l) = nd ! off" unfolding l by simp
  have "take (off' - off) (drop off nd) = take (1 + (?c + length (wire ls))) (nd ! off # drop (off + 1) nd)"
    using A(2) assms(2) by (simp add: Cons_nth_drop_Suc)
  also have "\<dots> = nd ! off # ?l @ take (length (wire ls)) (drop (off + ?c + 1) nd)"
    by (simp add: take_add add.commute [of "unat (nd ! off)" off])
  also have "take (length (wire ls)) (drop (off + ?c + 1) nd) = wire ls"
    using A(2,6) by simp
  finally have wire: "take (off' - off) (drop off nd) = wire (?l # ls)"
    unfolding wire_simps w .
  have off: "unat (os ! (nl + i)) = off + label_off (?l # ls) i" if "os' = Some os" "i < length (?l # ls)" for os i
    using that A(8) [of os "i - 1"] assms(6) [of os] l by (cases i) auto
  have nonempty: "\<forall>l\<in>set (butlast (?l # ls)). l \<noteq> []"
    using A(5) assms(4) l by (auto simp: unat_eq_0)
  show ?thesis
    unfolding runs_from_def
    using A(1,2,3,4,7) l assms(3,6) wire off nonempty by auto
qed

lemma isvalid_loop_labels:
  assumes "isvalid_loop nd os' len off nl = Some (Some (off', nl'))" "off \<le> len" "len \<le> length nd"
  shows "\<exists>ls. runs_from nd os' len off nl off' nl' ls"
  using assms
proof (induction nd os' len off nl rule: isvalid_loop.induct)
  case (1 nd os' len off nl)
  show ?case
  proof (cases "off = len")
    case True
    then have "runs_from nd os' len off nl off' nl' []"
      using "1.prems" by (simp add: isvalid_loop.simps runs_from_def)
    then show ?thesis by blast
  next
    case False
    note S = isvalid_loop_step [OF "1.prems"(1) False]
    have "\<exists>ls. runs_from nd os' len (off + unat (nd ! off) + 1) (nl + 1) off' nl' ls \<and>
        (nd ! off \<noteq> 0 \<or> ls = [])"
    proof (cases "nd ! off = 0")
      case True
      then have "runs_from nd os' len (off + unat (nd ! off) + 1) (nl + 1) off' nl' []"
        using S by (simp add: runs_from_def)
      then show ?thesis by blast
    next
      case nz: False
      then show ?thesis
        using S False "1.prems" "1.IH" [of "nd ! off" False]
        by (auto simp: unat_eq_0 split: option.splits)
    qed
    then show ?thesis using runs_from_Cons S "1.prems"(3) by blast
  qed
qed

lemma dns_name_isvalid_iff:
  assumes "n_length n \<le> length (ndata n)"
  shows "dns_name_isvalid n = Some True \<longleftrightarrow> (\<exists>ls. name_rep n ls)"
proof
  assume a: "dns_name_isvalid n = Some True"
  then obtain off nl where r: "isvalid_loop (ndata n) (offsets n) (n_length n) 0 0 = Some (Some (off, nl))"
    and e: "nl = labels n" "off = n_length n" "VALID_NAME n" "n_length n \<le> 255"
    by (auto simp: dns_name_isvalid_def bind_eq_Some_conv split: if_splits option.splits)
  from isvalid_loop_labels [OF r _ assms] obtain ls
    where ls: "runs_from (ndata n) (offsets n) (n_length n) 0 0 off nl ls" by blast
  then have "name_rep n ls"
    using e assms
    by (auto simp: runs_from_def name_rep_def labels_ok_def table_is_def split: option.splits)
  then show "\<exists>ls. name_rep n ls" ..
next
  assume "\<exists>ls. name_rep n ls"
  then obtain ls where ls: "name_rep n ls" ..
  note D = name_repD [OF ls]
  have "isvalid_loop (ndata n) (offsets n) (n_length n) 0 0 = Some (Some (n_length n, labels n))"
    using isvalid_loop_wire [of ls 0 "offsets n" "[]" "drop (length (wire ls)) (ndata n)"] D
      name_rep_split [OF ls]
    by (auto simp: table_is_def)
  then show "dns_name_isvalid n = Some True"
    using D by (simp add: dns_name_isvalid_def)
qed


lemma isvalid_loop_total:
  assumes "2 * nl \<le> off" "off \<le> len" "len \<le> 255" "len \<le> length nd"
    "\<And>os. os' = Some os \<Longrightarrow> 128 \<le> length os"
  shows "isvalid_loop nd os' len off nl \<noteq> None"
  using assms
proof (induction nd os' len off nl rule: isvalid_loop.induct)
  case (1 nd os' len off nl)
  show ?case
  proof (cases "off = len")
    case False
    then have nl: "nl < 128" and off: "off < length nd" using "1.prems" by auto
    let ?mm = "case os' of None \<Rightarrow> Some False | Some os \<Rightarrow> do { o' \<leftarrow> peek os nl; Some (unat o' \<noteq> off) }"
    obtain mm where mm: "?mm = Some mm"
      using nl "1.prems"(5) by (cases os') (auto simp: peek_def)
    have IH: "isvalid_loop nd os' len (off + unat (nd ! off) + 1) (nl + 1) \<noteq> None"
      if "\<not> unat (nd ! off) > 63" "\<not> mm" "\<not> off + unat (nd ! off) + 1 > len" "unat (nd ! off) \<noteq> 0"
      using that "1.prems" False mm
      by (intro "1.IH" [of "nd ! off" mm]) auto
    show ?thesis
      using IH mm off by (subst isvalid_loop.simps) auto
  qed (simp add: isvalid_loop.simps)
qed

section \<open>Properties\<close>

text \<open>
  C21: on any name structure whose memory is there, \<^verbatim>\<open>dns_name_isvalid\<close> returns without touching
  memory out of bounds, and it accepts exactly the structures that represent a list of labels:
  each label at most 63 octets, an empty label only at the end, at most 255 octets in all, the
  label count and the offset table in agreement with the octets.
\<close>

theorem dns_name_isvalid_decides:
  assumes "n_length n \<le> length (ndata n)" "table_room n"
  shows "dns_name_isvalid n = Some (\<exists>ls. name_rep n ls)"
proof -
  have "dns_name_isvalid n \<noteq> None"
  proof (cases "n_length n \<le> 255")
    case True
    then have "isvalid_loop (ndata n) (offsets n) (n_length n) 0 0 \<noteq> None"
      using assms by (intro isvalid_loop_total) (auto simp: table_room_def)
    then show ?thesis by (auto simp: dns_name_isvalid_def split: option.splits)
  qed (auto simp: dns_name_isvalid_def)
  then obtain v where v: "dns_name_isvalid n = Some v" by blast
  with dns_name_isvalid_iff [OF assms(1)] show ?thesis by (cases v) auto
qed

theorem dns_name_isvalid_decides_witness:
  "dns_name_isvalid ((dns_name_init None)\<lparr>ndata := [1, 0x61, 0], n_length := 3, labels := 2\<rparr>) = Some True"
proof -
  let ?n = "(dns_name_init None)\<lparr>ndata := [1, 0x61, 0], n_length := 3, labels := 2\<rparr>"
  have "name_rep ?n [[0x61], []]"
    by (simp add: name_rep_def dns_name_init_def DNS_NAME_INIT_def VALID_NAME_def labels_ok_def)
  moreover have "n_length ?n \<le> length (ndata ?n)" "table_room ?n"
    by (simp_all add: dns_name_init_def DNS_NAME_INIT_def table_room_def)
  ultimately show ?thesis using dns_name_isvalid_decides [of ?n] by metis
qed

end
