(* ===== verification/NameOps.thy ===== *)
theory NameOps
  imports Name "HOL-Library.Sublist"
begin

text \<open>
  \<^verbatim>\<open>lib/dns/name.c\<close>, second part: comparison of names, access to their labels, and the functions
  that make one name from others.

  A \<open>target\<close> argument is the buffer the caller passes, \<open>None\<close> standing for a null pointer, in which
  case the name's own buffer is used; the functions return the updated name and target.
  The code shortens a comparison of a name with itself and leaves the offset table of a name
  made a prefix of itself; the model runs the general code there, and
  \<open>dns_name_fullcompare_self\<close> shows the result is the same.
\<close>

section \<open>Comparison\<close>

datatype dns_namereln =
    dns_namereln_none | dns_namereln_contains | dns_namereln_subdomain
  | dns_namereln_equal | dns_namereln_commonancestor

text \<open>
  The loop from the last label to the first: \<open>i1\<close> and \<open>i2\<close> are the positions of the two
  pointers into the offset tables.  The first component of the result is the difference at
  which the comparison stopped, if it did.
\<close>

fun fullcompare_loop ::
  "bytes \<Rightarrow> bytes \<Rightarrow> bytes \<Rightarrow> bytes \<Rightarrow> nat \<Rightarrow> nat \<Rightarrow> nat \<Rightarrow> nat \<Rightarrow> (int option \<times> nat) option" where
  "fullcompare_loop nd1 os1 nd2 os2 i1 i2 0 nlabels = Some (None, nlabels)"
| "fullcompare_loop nd1 os1 nd2 os2 i1 i2 (Suc l) nlabels = do {
     o1 \<leftarrow> peek os1 (i1 - 1);
     o2 \<leftarrow> peek os2 (i2 - 1);
     count1 \<leftarrow> peek nd1 (unat o1);
     count2 \<leftarrow> peek nd2 (unat o2);
     let cdiff = int (unat count1) - int (unat count2);
     let count = (if cdiff < 0 then unat count1 else unat count2);
     diff \<leftarrow> isc_ascii_lowercmp (drop (unat o1 + 1) nd1) (drop (unat o2 + 1) nd2) count;
     if diff \<noteq> 0 then Some (Some diff, nlabels)
     else if cdiff \<noteq> 0 then Some (Some cdiff, nlabels)
     else fullcompare_loop nd1 os1 nd2 os2 (i1 - 1) (i2 - 1) l (nlabels + 1)
   }"

definition dns_name_fullcompare ::
  "dns_name \<Rightarrow> dns_name \<Rightarrow> (dns_namereln \<times> int \<times> nat) option" where
  "dns_name_fullcompare name1 name2 = do {
     REQUIRE (VALID_NAME name1);
     REQUIRE (VALID_NAME name2);
     REQUIRE (is_absolute name1 = is_absolute name2);
     os1 \<leftarrow> SETUP_OFFSETS name1;
     os2 \<leftarrow> SETUP_OFFSETS name2;
     let l1 = labels name1;
     let l2 = labels name2;
     let l = (if l2 > l1 then l1 else l2);
     let ldiff = (if l2 > l1 then 0 - (int l2 - int l1) else int l1 - int l2);
     (stop, nlabels) \<leftarrow> fullcompare_loop (ndata name1) os1 (ndata name2) os2 l1 l2 l 0;
     case stop of
       None \<Rightarrow>
         Some (if ldiff < 0 then dns_namereln_contains
               else if ldiff > 0 then dns_namereln_subdomain
               else dns_namereln_equal, ldiff, nlabels)
     | Some order \<Rightarrow>
         Some (if nlabels > 0 then dns_namereln_commonancestor else dns_namereln_none,
               order, nlabels)
   }"

definition dns_name_compare :: "dns_name \<Rightarrow> dns_name \<Rightarrow> int option" where
  "dns_name_compare name1 name2 = do {
     (_, order, _) \<leftarrow> dns_name_fullcompare name1 name2;
     Some order
   }"

definition dns_name_equal :: "dns_name \<Rightarrow> dns_name \<Rightarrow> bool option" where
  "dns_name_equal name1 name2 = do {
     REQUIRE (VALID_NAME name1);
     REQUIRE (VALID_NAME name2);
     REQUIRE (is_absolute name1 = is_absolute name2);
     if n_length name1 \<noteq> n_length name2 then Some False
     else isc_ascii_lowerequal (ndata name1) (ndata name2) (n_length name1)
   }"

definition dns_name_caseequal :: "dns_name \<Rightarrow> dns_name \<Rightarrow> bool option" where
  "dns_name_caseequal name1 name2 = do {
     REQUIRE (VALID_NAME name1);
     REQUIRE (VALID_NAME name2);
     REQUIRE (is_absolute name1 = is_absolute name2);
     if n_length name1 \<noteq> n_length name2 then Some False
     else do {
       d1 \<leftarrow> fetch (ndata name1) 0 (n_length name1);
       d2 \<leftarrow> fetch (ndata name2) 0 (n_length name1);
       Some (d1 = d2)
     }
   }"

definition dns_name_rdatacompare :: "dns_name \<Rightarrow> dns_name \<Rightarrow> int option" where
  "dns_name_rdatacompare name1 name2 = do {
     REQUIRE (VALID_NAME name1);
     REQUIRE (labels name1 > 0);
     REQUIRE (is_absolute name1);
     REQUIRE (VALID_NAME name2);
     REQUIRE (labels name2 > 0);
     REQUIRE (is_absolute name2);
     isc_ascii_lowercmp (ndata name1) (ndata name2) (min (n_length name1) (n_length name2))
   }"

definition dns_name_issubdomain :: "dns_name \<Rightarrow> dns_name \<Rightarrow> bool option" where
  "dns_name_issubdomain name1 name2 = do {
     (namereln, _, _) \<leftarrow> dns_name_fullcompare name1 name2;
     Some (namereln = dns_namereln_subdomain \<or> namereln = dns_namereln_equal)
   }"

section \<open>Labels\<close>

definition dns_name_countlabels :: "dns_name \<Rightarrow> nat option" where
  "dns_name_countlabels name = do {
     REQUIRE (VALID_NAME name);
     ENSURE (labels name \<le> DNS_NAME_MAXLABELS);
     Some (labels name)
   }"

definition dns_name_getlabel :: "dns_name \<Rightarrow> nat \<Rightarrow> isc_region option" where
  "dns_name_getlabel name n = do {
     REQUIRE (VALID_NAME name);
     REQUIRE (labels name > 0);
     REQUIRE (n < labels name);
     os \<leftarrow> SETUP_OFFSETS name;
     on \<leftarrow> peek os n;
     len \<leftarrow> (if n = labels name - 1 then Some (n_length name - unat on)
              else do { on1 \<leftarrow> peek os (n + 1); Some (unat on1 - unat on) });
     Some \<lparr>r_base = drop (unat on) (ndata name), r_length = len\<rparr>
   }"

text \<open>Moving \<open>p\<close> over \<open>n\<close> labels.\<close>

fun skip_labels :: "bytes \<Rightarrow> nat \<Rightarrow> nat \<Rightarrow> nat option" where
  "skip_labels nd p 0 = Some p"
| "skip_labels nd p (Suc n) = do { l \<leftarrow> peek nd p; skip_labels nd (p + unat l + 1) n }"

definition dns_name_getlabelsequence ::
  "dns_name \<Rightarrow> nat \<Rightarrow> nat \<Rightarrow> dns_name \<Rightarrow> dns_name option" where
  "dns_name_getlabelsequence source first n target = do {
     REQUIRE (VALID_NAME source);
     REQUIRE (VALID_NAME target);
     REQUIRE (first \<le> labels source);
     REQUIRE (n \<le> labels source - first);
     REQUIRE (BINDABLE target);
     (p, firstoffset) \<leftarrow>
       (if first = labels source then Some (0, n_length source)
        else do { p \<leftarrow> skip_labels (ndata source) 0 first; Some (p, p) });
     endoffset \<leftarrow>
       (if first + n = labels source then Some (n_length source)
        else skip_labels (ndata source) p n);
     let absol = (first + n = labels source \<and> n > 0 \<and> is_absolute source);
     let target = target\<lparr>ndata := drop firstoffset (ndata source),
                         n_length := endoffset - firstoffset\<rparr>;
     let target = (set_absolute absol target)\<lparr>labels := n\<rparr>;
     refresh_offsets target
   }"

definition dns_name_matcheswildcard :: "dns_name \<Rightarrow> dns_name \<Rightarrow> bool option" where
  "dns_name_matcheswildcard name wname = do {
     REQUIRE (VALID_NAME name);
     REQUIRE (labels name > 0);
     REQUIRE (VALID_NAME wname);
     REQUIRE (labels wname > 0);
     w \<leftarrow> dns_name_iswildcard wname;
     REQUIRE w;
     tname \<leftarrow> dns_name_getlabelsequence wname 1 (labels wname - 1) (DNS_NAME_INIT None);
     (namereln, _, _) \<leftarrow> dns_name_fullcompare name tname;
     Some (namereln = dns_namereln_subdomain)
   }"

definition dns_name_split ::
  "dns_name \<Rightarrow> nat \<Rightarrow> dns_name option \<Rightarrow> dns_name option \<Rightarrow>
   (dns_name option \<times> dns_name option) option" where
  "dns_name_split name suffixlabels prefix0 suffix0 = do {
     REQUIRE (VALID_NAME name);
     REQUIRE (suffixlabels > 0);
     REQUIRE (suffixlabels \<le> labels name);
     REQUIRE (prefix0 \<noteq> None \<or> suffix0 \<noteq> None);
     REQUIRE (case prefix0 of None \<Rightarrow> True | Some p \<Rightarrow> VALID_NAME p \<and> BINDABLE p);
     REQUIRE (case suffix0 of None \<Rightarrow> True | Some s \<Rightarrow> VALID_NAME s \<and> BINDABLE s);
     let splitlabel = labels name - suffixlabels;
     prefix0 \<leftarrow> (case prefix0 of
         None \<Rightarrow> Some None
       | Some p \<Rightarrow> do { p \<leftarrow> dns_name_getlabelsequence name 0 splitlabel p; Some (Some p) });
     suffix0 \<leftarrow> (case suffix0 of
         None \<Rightarrow> Some None
       | Some s \<Rightarrow> do { s \<leftarrow> dns_name_getlabelsequence name splitlabel suffixlabels s; Some (Some s) });
     Some (prefix0, suffix0)
   }"

section \<open>Names from names\<close>

text \<open>Copying the offset table of \<open>source\<close>, or computing it where \<open>source\<close> has none.\<close>

definition copy_offsets :: "dns_name \<Rightarrow> dns_name \<Rightarrow> dns_name option" where
  "copy_offsets source target =
     (case offsets target of
        None \<Rightarrow> Some target
      | Some os \<Rightarrow>
          (case offsets source of
             Some so \<Rightarrow> do {
               v \<leftarrow> fetch so 0 (labels source);
               os \<leftarrow> blit os 0 v;
               Some (target\<lparr>offsets := Some os\<rparr>)
             }
           | None \<Rightarrow> refresh_offsets target))"

definition dns_name_clone :: "dns_name \<Rightarrow> dns_name \<Rightarrow> dns_name option" where
  "dns_name_clone source target = do {
     REQUIRE (VALID_NAME source);
     REQUIRE (VALID_NAME target);
     REQUIRE (BINDABLE target);
     let target = target\<lparr>ndata := ndata source, n_length := n_length source,
       labels := labels source,
       attributes := (attributes source)\<lparr>readonly := False, dynamic := False,
                                         dynoffsets := False\<rparr>\<rparr>;
     if labels source > 0 then copy_offsets source target else Some target
   }"

definition dns_name_fromregion :: "dns_name \<Rightarrow> isc_region \<Rightarrow> dns_name option" where
  "dns_name_fromregion name r = do {
     REQUIRE (VALID_NAME name);
     REQUIRE (BINDABLE name);
     name \<leftarrow> (case n_buffer name of
         Some b \<Rightarrow> do {
           b \<leftarrow> isc_buffer_clear b;
           r2 \<leftarrow> isc_buffer_availableregion b;
           let len = min (min (r_length r) (r_length r2)) DNS_NAME_MAXWIRE;
           v \<leftarrow> fetch (r_base r) 0 len;
           m \<leftarrow> blit (b_base b) (b_used b) v;
           let b = b\<lparr>b_base := m\<rparr>;
           Some (name\<lparr>n_buffer := Some b, ndata := drop (b_used b) m, n_length := len\<rparr>)
         }
       | None \<Rightarrow>
           Some (name\<lparr>ndata := r_base r,
                      n_length := (if r_length r \<le> DNS_NAME_MAXWIRE then r_length r
                                   else DNS_NAME_MAXWIRE)\<rparr>));
     name \<leftarrow> (if r_length r > 0 then do {
           (os, name) \<leftarrow> set_offsets name (case offsets name of Some os \<Rightarrow> os | None \<Rightarrow> odata) True;
           Some (if offsets name = None then name else name\<lparr>offsets := Some os\<rparr>)
         } else Some (set_absolute False (name\<lparr>labels := 0\<rparr>)));
     case n_buffer name of
       Some b \<Rightarrow> do {
         b \<leftarrow> isc_buffer_add b (n_length name);
         Some (name\<lparr>n_buffer := Some b\<rparr>)
       }
     | None \<Rightarrow> Some name
   }"

definition dns_name_toregion :: "dns_name \<Rightarrow> isc_region option" where
  "dns_name_toregion name = do {
     REQUIRE (VALID_NAME name);
     Some \<lparr>r_base = ndata name, r_length = n_length name\<rparr>
   }"

text \<open>The buffer a function writes to, and handing it back when the function is done.\<close>

definition pick_target :: "dns_name \<Rightarrow> isc_buffer option \<Rightarrow> isc_buffer option" where
  "pick_target name target =
     (case target of
        Some t \<Rightarrow> do { REQUIRE (ISC_BUFFER_VALID t); Some t }
      | None \<Rightarrow> (case n_buffer name of
            None \<Rightarrow> None
          | Some b \<Rightarrow> do { REQUIRE (ISC_BUFFER_VALID b); isc_buffer_clear b }))"

definition put_target ::
  "dns_name \<Rightarrow> isc_buffer option \<Rightarrow> isc_buffer \<Rightarrow> dns_name \<times> isc_buffer option" where
  "put_target name target t =
     (case target of
        Some _ \<Rightarrow> (name, Some t)
      | None \<Rightarrow> (name\<lparr>n_buffer := Some t\<rparr>, None))"

definition dns_name_downcase ::
  "dns_name \<Rightarrow> dns_name \<Rightarrow> isc_buffer option \<Rightarrow>
   (isc_result \<times> dns_name \<times> isc_buffer option) option" where
  "dns_name_downcase source name target = do {
     REQUIRE (VALID_NAME source);
     REQUIRE (VALID_NAME name);
     REQUIRE (BINDABLE name);
     t \<leftarrow> pick_target name target;
     let name = name\<lparr>ndata := drop (b_used t) (b_base t)\<rparr>;
     if n_length source > usub (b_length t) (b_used t)
     then let (name, target) = put_target (MAKE_EMPTY name) target t
          in Some (ISC_R_NOSPACE, name, target)
     else do {
       v \<leftarrow> isc_ascii_lowercopy (ndata source) (n_length source);
       m \<leftarrow> blit (b_base t) (b_used t) v;
       let name = name\<lparr>ndata := drop (b_used t) m, n_length := n_length source,
         labels := labels source,
         attributes := no_attrs\<lparr>absolute := is_absolute source\<rparr>\<rparr>;
       name \<leftarrow> (if labels name > 0 then refresh_offsets name else Some name);
       t \<leftarrow> isc_buffer_add (t\<lparr>b_base := m\<rparr>) (n_length name);
       let (name, target) = put_target name target t
       in Some (ISC_R_SUCCESS, name, target)
     }
   }"

text \<open>The call with \<open>source = name\<close>, which folds the octets where they are.\<close>

definition dns_name_downcase_inplace :: "dns_name \<Rightarrow> (isc_result \<times> dns_name) option" where
  "dns_name_downcase_inplace name = do {
     REQUIRE (VALID_NAME name);
     REQUIRE (\<not> readonly (attributes name));
     let buffer = isc_buffer_init (ndata name) (n_length name);
     if n_length name > usub (b_length buffer) (b_used buffer)
     then Some (ISC_R_NOSPACE, MAKE_EMPTY name)
     else do {
       v \<leftarrow> isc_ascii_lowercopy (ndata name) (n_length name);
       m \<leftarrow> blit (ndata name) 0 v;
       _ \<leftarrow> isc_buffer_add buffer (n_length name);
       Some (ISC_R_SUCCESS, name\<lparr>ndata := m\<rparr>)
     }
   }"

definition dns_name_concatenate ::
  "dns_name option \<Rightarrow> dns_name option \<Rightarrow> dns_name option \<Rightarrow> isc_buffer option \<Rightarrow>
   (isc_result \<times> dns_name \<times> isc_buffer option) option" where
  "dns_name_concatenate prefix0 suffix0 name target = do {
     REQUIRE (case prefix0 of None \<Rightarrow> True | Some p \<Rightarrow> VALID_NAME p);
     REQUIRE (case suffix0 of None \<Rightarrow> True | Some s \<Rightarrow> VALID_NAME s);
     REQUIRE (case name of None \<Rightarrow> True | Some n \<Rightarrow> VALID_NAME n);
     let copy_prefix = (case prefix0 of None \<Rightarrow> False | Some p \<Rightarrow> labels p \<noteq> 0);
     let copy_suffix = (case suffix0 of None \<Rightarrow> False | Some s \<Rightarrow> labels s \<noteq> 0);
     let prefix_absolute = (case prefix0 of None \<Rightarrow> False | Some p \<Rightarrow> copy_prefix \<and> is_absolute p);
     REQUIRE (prefix_absolute \<longrightarrow> \<not> copy_suffix);
     let nm = (case name of None \<Rightarrow> DNS_NAME_INIT (Some odata) | Some n \<Rightarrow> n);
     t \<leftarrow> pick_target nm target;
     REQUIRE (BINDABLE nm);
     let nrem = min (usub (b_length t) (b_used t)) DNS_NAME_MAXWIRE;
     let plen = (case prefix0 of None \<Rightarrow> 0 | Some p \<Rightarrow> if copy_prefix then n_length p else 0);
     let plabels = (case prefix0 of None \<Rightarrow> 0 | Some p \<Rightarrow> if copy_prefix then labels p else 0);
     let slen = (case suffix0 of None \<Rightarrow> 0 | Some s \<Rightarrow> if copy_suffix then n_length s else 0);
     let slabels = (case suffix0 of None \<Rightarrow> 0 | Some s \<Rightarrow> if copy_suffix then labels s else 0);
     let suffix_absolute = (case suffix0 of None \<Rightarrow> False | Some s \<Rightarrow> copy_suffix \<and> is_absolute s);
     if plen + slen > DNS_NAME_MAXWIRE
     then let (nm, target) = put_target (MAKE_EMPTY nm) target t
          in Some (DNS_R_NAMETOOLONG, nm, target)
     else if plen + slen > nrem
     then let (nm, target) = put_target (MAKE_EMPTY nm) target t
          in Some (ISC_R_NOSPACE, nm, target)
     else do {
       sv \<leftarrow> (case suffix0 of None \<Rightarrow> Some [] | Some s \<Rightarrow> fetch (ndata s) 0 slen);
       m \<leftarrow> blit (b_base t) (b_used t + plen) sv;
       pv \<leftarrow> (case prefix0 of None \<Rightarrow> Some [] | Some p \<Rightarrow> fetch (ndata p) 0 plen);
       m \<leftarrow> blit m (b_used t) pv;
       let nm = set_absolute (prefix_absolute \<or> suffix_absolute)
          (nm\<lparr>ndata := drop (b_used t) m, n_length := plen + slen,
              labels := plabels + slabels\<rparr>);
       nm \<leftarrow> (if labels nm > 0 then refresh_offsets nm else Some nm);
       t \<leftarrow> isc_buffer_add (t\<lparr>b_base := m\<rparr>) (n_length nm);
       let (nm, target) = put_target nm target t
       in Some (ISC_R_SUCCESS, nm, target)
     }
   }"

definition dns_name_dup :: "dns_name \<Rightarrow> dns_name \<Rightarrow> dns_name option" where
  "dns_name_dup source target = do {
     REQUIRE (VALID_NAME source);
     REQUIRE (n_length source > 0);
     REQUIRE (VALID_NAME target);
     REQUIRE (BINDABLE target);
     let target = MAKE_EMPTY target;
     v \<leftarrow> fetch (ndata source) 0 (n_length source);
     let target = target\<lparr>ndata := v, n_length := n_length source, labels := labels source,
       attributes := no_attrs\<lparr>dynamic := True, absolute := is_absolute source\<rparr>\<rparr>;
     copy_offsets source target
   }"

text \<open>The memory obtained holds the name and, behind it, the table of \<open>labels\<close> octets.\<close>

definition dns_name_dupwithoffsets :: "dns_name \<Rightarrow> dns_name \<Rightarrow> (isc_result \<times> dns_name) option" where
  "dns_name_dupwithoffsets source target = do {
     REQUIRE (VALID_NAME source);
     REQUIRE (n_length source > 0);
     REQUIRE (VALID_NAME target);
     REQUIRE (BINDABLE target);
     REQUIRE (offsets target = None);
     let target = MAKE_EMPTY target;
     v \<leftarrow> fetch (ndata source) 0 (n_length source);
     let target = target\<lparr>ndata := v, n_length := n_length source, labels := labels source,
       attributes := no_attrs\<lparr>dynamic := True, dynoffsets := True, readonly := True,
         absolute := is_absolute source\<rparr>,
       offsets := Some (replicate (labels source) 0)\<rparr>;
     target \<leftarrow> copy_offsets source target;
     Some (ISC_R_SUCCESS, target)
   }"

definition dns_name_free :: "dns_name \<Rightarrow> dns_name option" where
  "dns_name_free name = do {
     REQUIRE (VALID_NAME name);
     REQUIRE (dynamic (attributes name));
     dns_name_invalidate name
   }"

text \<open>The digest is the caller's function, on its own state.\<close>

definition dns_name_digest ::
  "dns_name \<Rightarrow> ('d \<Rightarrow> bytes \<Rightarrow> isc_result \<times> 'd) \<Rightarrow> 'd \<Rightarrow> (isc_result \<times> 'd) option" where
  "dns_name_digest name digest arg = do {
     REQUIRE (VALID_NAME name);
     let buffer = isc_buffer_init (replicate 256 0) 256;
     (result, _, buffer) \<leftarrow> dns_name_downcase name (DNS_NAME_INIT None) (Some buffer);
     if result \<noteq> ISC_R_SUCCESS then Some (result, arg)
     else case buffer of
       None \<Rightarrow> None
     | Some buffer \<Rightarrow> do {
         r \<leftarrow> isc_buffer_usedregion buffer;
         v \<leftarrow> fetch (r_base r) 0 (r_length r);
         Some (digest arg v)
       }
   }"

definition dns_name_dynamic :: "dns_name \<Rightarrow> bool option" where
  "dns_name_dynamic name = do {
     REQUIRE (VALID_NAME name);
     Some (dynamic (attributes name))
   }"

definition dns_name_copy :: "dns_name \<Rightarrow> dns_name \<Rightarrow> dns_name option" where
  "dns_name_copy source dest = do {
     REQUIRE (VALID_NAME source);
     REQUIRE (VALID_NAME dest);
     REQUIRE (BINDABLE dest);
     target \<leftarrow> n_buffer dest;
     REQUIRE (b_length target \<ge> n_length source);
     target \<leftarrow> isc_buffer_clear target;
     v \<leftarrow> fetch (ndata source) 0 (n_length source);
     m \<leftarrow> blit (b_base target) 0 v;
     let dest = set_absolute (is_absolute source)
       (dest\<lparr>ndata := m, n_length := n_length source, labels := labels source\<rparr>);
     dest \<leftarrow> (if labels dest > 0 then copy_offsets source dest else Some dest);
     target \<leftarrow> isc_buffer_add (target\<lparr>b_base := m\<rparr>) (n_length dest);
     Some (dest\<lparr>n_buffer := Some target\<rparr>)
   }"

section \<open>Comparison on the labels\<close>

definition label_cmp :: "bytes \<Rightarrow> bytes \<Rightarrow> int" where
  "label_cmp a b =
     (let m = min (length a) (length b);
          d = bytes_cmp (lower_octets (take m a)) (lower_octets (take m b))
      in if d \<noteq> 0 then d else int (length a) - int (length b))"

text \<open>The comparison on the labels from the last to the first.\<close>

fun labels_cmp :: "bytes list \<Rightarrow> bytes list \<Rightarrow> nat \<Rightarrow> dns_namereln \<times> int \<times> nat" where
  "labels_cmp [] [] n = (dns_namereln_equal, 0, n)"
| "labels_cmp [] (y # ys) n = (dns_namereln_contains, - int (length (y # ys)), n)"
| "labels_cmp (x # xs) [] n = (dns_namereln_subdomain, int (length (x # xs)), n)"
| "labels_cmp (x # xs) (y # ys) n =
     (if label_cmp x y \<noteq> 0
      then (if n > 0 then dns_namereln_commonancestor else dns_namereln_none, label_cmp x y, n)
      else labels_cmp xs ys (n + 1))"

lemma label_at:
  assumes "name_rep n ls" "i < length ls"
  shows "label_off ls i < length (ndata n)" "ndata n ! label_off ls i = of_nat (length (ls ! i))"
    "length (ls ! i) \<le> length (drop (label_off ls i + 1) (ndata n))"
    "take (length (ls ! i)) (drop (label_off ls i + 1) (ndata n)) = ls ! i"
proof -
  have "ls = take i ls @ ls ! i # drop (Suc i) ls" using assms(2) by (simp add: id_take_nth_drop)
  then have "wire ls = wire (take i ls) @ of_nat (length (ls ! i)) # ls ! i @ wire (drop (Suc i) ls)"
    by (metis wire_simps(2,3))
  with name_rep_split [OF assms(1)]
  have e: "ndata n = wire (take i ls) @ of_nat (length (ls ! i)) # ls ! i @ wire (drop (Suc i) ls) @
      drop (length (wire ls)) (ndata n)" by simp
  show "label_off ls i < length (ndata n)" "ndata n ! label_off ls i = of_nat (length (ls ! i))"
    "length (ls ! i) \<le> length (drop (label_off ls i + 1) (ndata n))"
    "take (length (ls ! i)) (drop (label_off ls i + 1) (ndata n)) = ls ! i"
    by (subst e; simp add: label_off_def)+
qed

lemma label_length: "labels_ok ls \<Longrightarrow> i < length ls \<Longrightarrow> length (ls ! i) \<le> 63"
  by (auto simp: labels_ok_def)

lemma fullcompare_label:
  assumes n1: "name_rep n1 ls1" and n2: "name_rep n2 ls2"
    and t: "table_is os1 ls1" "table_is os2 ls2"
    and i: "i1 < length ls1" "i2 < length ls2"
  shows "fullcompare_loop (ndata n1) os1 (ndata n2) os2 (Suc i1) (Suc i2) (Suc l) nl =
     (if label_cmp (ls1 ! i1) (ls2 ! i2) \<noteq> 0 then Some (Some (label_cmp (ls1 ! i1) (ls2 ! i2)), nl)
      else fullcompare_loop (ndata n1) os1 (ndata n2) os2 i1 i2 l (nl + 1))"
proof -
  note L1 = label_at [OF n1 i(1)] and L2 = label_at [OF n2 i(2)]
  have o: "unat (os1 ! i1) = label_off ls1 i1" "unat (os2 ! i2) = label_off ls2 i2"
      "i1 < length os1" "i2 < length os2"
    using t i by (auto simp: table_is_def)
  have c: "unat (of_nat (length (ls1 ! i1)) :: u8) = length (ls1 ! i1)"
      "unat (of_nat (length (ls2 ! i2)) :: u8) = length (ls2 ! i2)"
    using label_length [OF name_repD(4) [OF n1] i(1)] label_length [OF name_repD(4) [OF n2] i(2)]
    by simp_all
  let ?m = "min (length (ls1 ! i1)) (length (ls2 ! i2))"
  have u: "uint (of_nat (length (ls1 ! i1)) :: u8) = int (length (ls1 ! i1))"
      "uint (of_nat (length (ls2 ! i2)) :: u8) = int (length (ls2 ! i2))"
    using label_length [OF name_repD(4) [OF n1] i(1)] label_length [OF name_repD(4) [OF n2] i(2)]
    by (simp_all add: unsigned_of_nat take_bit_nat_eq_self)
  have tk: "take ?m (drop (label_off ls1 i1 + 1) (ndata n1)) = take ?m (ls1 ! i1)"
      "take ?m (drop (label_off ls2 i2 + 1) (ndata n2)) = take ?m (ls2 ! i2)"
    by (subst L1(4) [symmetric], simp add: min.commute min.left_commute)
       (subst L2(4) [symmetric], simp add: min.commute min.left_commute)
  have cmp: "isc_ascii_lowercmp (drop (label_off ls1 i1 + 1) (ndata n1))
        (drop (label_off ls2 i2 + 1) (ndata n2)) ?m =
      Some (bytes_cmp (lower_octets (take ?m (ls1 ! i1))) (lower_octets (take ?m (ls2 ! i2))))"
    unfolding isc_ascii_lowercmp_def using L1(3) L2(3)
    by (subst isc_ascii_lowercmp_on_eq) (auto simp: tk [simplified])
  show ?thesis
    using o L1(1,2) L2(1,2) cmp c u
    by (cases rule: linorder_cases [of "length (ls1 ! i1)" "length (ls2 ! i2)"])
       (simp_all add: label_cmp_def Let_def)
qed


text \<open>The comparison with the relation left open, as the loop computes it.\<close>

fun stop_cmp :: "bytes list \<Rightarrow> bytes list \<Rightarrow> nat \<Rightarrow> int option \<times> nat" where
  "stop_cmp (x # xs) (y # ys) n =
     (if label_cmp x y \<noteq> 0 then (Some (label_cmp x y), n) else stop_cmp xs ys (n + 1))"
| "stop_cmp _ _ n = (None, n)"

lemma fullcompare_loop_eq:
  assumes n1: "name_rep n1 ls1" and n2: "name_rep n2 ls2"
    and t: "table_is os1 ls1" "table_is os2 ls2"
    and i: "i1 \<le> length ls1" "i2 \<le> length ls2"
  shows "fullcompare_loop (ndata n1) os1 (ndata n2) os2 i1 i2 (min i1 i2) nl =
     Some (stop_cmp (rev (take i1 ls1)) (rev (take i2 ls2)) nl)"
  using i
proof (induction i1 arbitrary: i2 nl)
  case (Suc j1)
  show ?case
  proof (cases i2)
    case (Suc j2)
    then have r: "rev (take (Suc j1) ls1) = ls1 ! j1 # rev (take j1 ls1)"
        "rev (take (Suc j2) ls2) = ls2 ! j2 # rev (take j2 ls2)"
      using Suc.prems by (simp_all add: take_Suc_conv_app_nth)
    show ?thesis
      unfolding Suc r min_Suc_Suc
      using fullcompare_label [OF n1 n2 t, of j1 j2 "min j1 j2" nl] Suc.IH [of j2 "nl + 1"] Suc.prems Suc
      by (simp add: r del: fullcompare_loop.simps(2))
  qed simp
qed simp

lemma labels_cmp_stop:
  "labels_cmp xs ys n =
     (case stop_cmp xs ys n of
        (None, k) \<Rightarrow>
          (if length xs < length ys then dns_namereln_contains
           else if length xs > length ys then dns_namereln_subdomain
           else dns_namereln_equal, int (length xs) - int (length ys), k)
      | (Some d, k) \<Rightarrow>
          (if k > 0 then dns_namereln_commonancestor else dns_namereln_none, d, k))"
  by (induction xs ys n rule: labels_cmp.induct) (auto split: prod.splits option.splits)

theorem dns_name_fullcompare_eq:
  assumes n1: "name_rep n1 ls1" and n2: "name_rep n2 ls2" and a: "is_absolute n1 = is_absolute n2"
  shows "dns_name_fullcompare n1 n2 = Some (labels_cmp (rev ls1) (rev ls2) 0)"
proof -
  obtain os1 os2 where os: "SETUP_OFFSETS n1 = Some os1" "table_is os1 ls1"
      "SETUP_OFFSETS n2 = Some os2" "table_is os2 ls2"
    using SETUP_OFFSETS_rep [OF n1] SETUP_OFFSETS_rep [OF n2] by blast
  have m: "(if length ls2 > length ls1 then length ls1 else length ls2) = min (length ls1) (length ls2)"
    by simp
  show ?thesis
    using name_repD(1,3) [OF n1] name_repD(1,3) [OF n2] a os
      fullcompare_loop_eq [OF n1 n2 os(2,4), of "length ls1" "length ls2" 0]
    by (auto simp: dns_name_fullcompare_def m labels_cmp_stop Let_def split: prod.splits option.splits)
qed


section \<open>What the comparison means\<close>

text \<open>Labels with case folded, and the canonical order of RFC 4034, section 6.1: label by label
  from the root, each label an octet string, an absent label or octet first.\<close>

abbreviation lower_labels :: "bytes list \<Rightarrow> bytes list" where
  "lower_labels \<equiv> map lower_octets"

definition octet_less :: "(u8 \<times> u8) set" where
  "octet_less = {(x, y). x < y}"

definition canonical_less :: "bytes list \<Rightarrow> bytes list \<Rightarrow> bool" where
  "canonical_less ls1 ls2 \<longleftrightarrow> (rev (lower_labels ls1), rev (lower_labels ls2)) \<in> lexord (lexord octet_less)"

definition octets_cmp :: "bytes \<Rightarrow> bytes \<Rightarrow> int" where
  "octets_cmp xs ys =
     (let m = min (length xs) (length ys); d = bytes_cmp (take m xs) (take m ys)
      in if d \<noteq> 0 then d else int (length xs) - int (length ys))"

lemma octets_cmp_simps [simp]:
  "octets_cmp [] ys = - int (length ys)" "octets_cmp xs [] = int (length xs)"
  "octets_cmp (x # xs) (y # ys) = (if x \<noteq> y then cmp3 x y else octets_cmp xs ys)"
  by (auto simp: octets_cmp_def cmp3_def Let_def)

lemma label_cmp_lower: "label_cmp a b = octets_cmp (lower_octets a) (lower_octets b)"
  by (simp add: label_cmp_def octets_cmp_def take_map Let_def)

lemma octets_cmp_eq_0: "octets_cmp xs ys = 0 \<longleftrightarrow> xs = ys"
  by (induction xs ys rule: list_induct2') (auto simp: cmp3_def)

lemma octets_cmp_less: "octets_cmp xs ys < 0 \<longleftrightarrow> (xs, ys) \<in> lexord octet_less"
  by (induction xs ys rule: list_induct2') (auto simp: cmp3_def octet_less_def)

lemma label_cmp_eq_0: "label_cmp a b = 0 \<longleftrightarrow> lower_octets a = lower_octets b"
  by (simp add: label_cmp_lower octets_cmp_eq_0)

lemma octet_order_irrefl: "(xs, xs) \<notin> lexord octet_less"
  by (rule lexord_irreflexive) (auto simp: octet_less_def)

lemma labels_cmp_order:
  assumes "labels_cmp xs ys n = (r, d, k)"
  shows "d < 0 \<longleftrightarrow> (lower_labels xs, lower_labels ys) \<in> lexord (lexord octet_less)"
    "d = 0 \<longleftrightarrow> lower_labels xs = lower_labels ys"
  using assms
  by (induction xs ys n rule: labels_cmp.induct)
     (auto simp: label_cmp_eq_0 label_cmp_lower octets_cmp_less octets_cmp_eq_0 octet_order_irrefl
       split: if_splits)

lemma labels_cmp_reln:
  assumes "labels_cmp xs ys n = (r, d, k)"
  shows "n \<le> k" "k - n = length (longest_common_prefix (lower_labels xs) (lower_labels ys))"
    "r = dns_namereln_equal \<longleftrightarrow> lower_labels xs = lower_labels ys"
    "r = dns_namereln_subdomain \<longleftrightarrow> strict_prefix (lower_labels ys) (lower_labels xs)"
    "r = dns_namereln_contains \<longleftrightarrow> strict_prefix (lower_labels xs) (lower_labels ys)"
    "r = dns_namereln_none \<longrightarrow> k = 0" "r = dns_namereln_commonancestor \<longrightarrow> k > 0"
  using assms
  by (induction xs ys n rule: labels_cmp.induct)
     (auto simp: label_cmp_eq_0 split: if_splits)

section \<open>Equality\<close>

lemma lower_wire: "(\<And>l. l \<in> set ls \<Longrightarrow> length l \<le> 63) \<Longrightarrow> lower_octets (wire ls) = wire (lower_labels ls)"
proof (induction ls)
  case (Cons l ls)
  then have "length l \<le> 63" by simp
  then have "isc__ascii_tolower1 (of_nat (length l)) = of_nat (length l)"
    by (simp add: tolower1_small)
  with Cons show ?case by simp
qed simp

lemma wire_length_lower: "length (wire (lower_labels ls)) = length (wire ls)"
  by (simp add: length_wire comp_def)

lemma wire_inj:
  "wire ls = wire ls' \<Longrightarrow> (\<And>l. l \<in> set ls \<Longrightarrow> length l \<le> 63) \<Longrightarrow>
   (\<And>l. l \<in> set ls' \<Longrightarrow> length l \<le> 63) \<Longrightarrow> ls = ls'"
proof (induction ls arbitrary: ls')
  case Nil
  then show ?case by (cases ls') auto
next
  case (Cons l ls)
  then obtain l' ms where ls': "ls' = l' # ms" by (cases ls') auto
  have "length l < 256" "length l' < 256" using Cons.prems(2) [of l] Cons.prems(3) [of l'] ls' by auto
  then have "length l = length l'"
    using Cons.prems(1) ls' of_nat_u8_eq_iff by auto
  with Cons ls' show ?case by auto
qed

lemma wire_prefix_free:
  "wire ls @ xs = wire ls' \<Longrightarrow> labels_ok ls \<Longrightarrow> labels_ok ls' \<Longrightarrow> rooted ls \<Longrightarrow> ls = ls'"
proof (induction ls arbitrary: ls')
  case (Cons l ls)
  then obtain l' ms where ls': "ls' = l' # ms" by (cases ls') auto
  note ok = labels_ok_Cons [OF Cons.prems(2)] and ok' = labels_ok_Cons [OF Cons.prems(3) [unfolded ls']]
  have "length l = length l'"
    using Cons.prems(1) ls' ok(2) ok'(2) of_nat_u8_eq_iff [of "length l" "length l'"] by auto
  then have e: "l = l'" "wire ls @ xs = wire ms" using Cons.prems(1) ls' by auto
  show ?case
  proof (cases "l = []")
    case True
    then show ?thesis using e ok(3) ok'(3) ls' by auto
  next
    case False
    then have "ls \<noteq> []" "rooted ls" using Cons.prems(4) by (auto simp: rooted_def split: if_splits)
    with Cons.IH [of ms] e ok ok' ls' show ?thesis by simp
  qed
qed (simp add: rooted_def)

lemma labels_ok_lower: "labels_ok ls \<Longrightarrow> labels_ok (lower_labels ls)"
  by (simp add: labels_ok_def wire_length_lower flip: map_butlast)

lemma rooted_lower [simp]: "rooted (lower_labels ls) = rooted ls"
  by (auto simp: rooted_def last_map)

lemma dns_name_equal_eq:
  assumes n1: "name_rep n1 ls1" and n2: "name_rep n2 ls2" and a: "is_absolute n1 = is_absolute n2"
  shows "dns_name_equal n1 n2 = Some (lower_labels ls1 = lower_labels ls2)"
proof -
  note D1 = name_repD [OF n1] and D2 = name_repD [OF n2]
  have s: "\<And>l. l \<in> set ls1 \<Longrightarrow> length l \<le> 63" "\<And>l. l \<in> set ls2 \<Longrightarrow> length l \<le> 63"
    using D1(4) D2(4) by (auto simp: labels_ok_def)
  have w: "wire (lower_labels ls1) = wire (lower_labels ls2) \<longleftrightarrow> lower_labels ls1 = lower_labels ls2"
    by (rule iffI, rule wire_inj) (use s in auto)
  show ?thesis
  proof (cases "length (wire ls1) = length (wire ls2)")
    case True
    then show ?thesis
      using D1 D2 a w lower_wire [OF s(1)] lower_wire [OF s(2)]
      by (simp add: dns_name_equal_def isc_ascii_lowerequal_def isc_ascii_lowerequal_on_eq)
  next
    case False
    then have "lower_labels ls1 \<noteq> lower_labels ls2" by (metis wire_length_lower)
    then show ?thesis using False D1 D2 a by (simp add: dns_name_equal_def)
  qed
qed

lemma dns_name_caseequal_eq:
  assumes n1: "name_rep n1 ls1" and n2: "name_rep n2 ls2" and a: "is_absolute n1 = is_absolute n2"
  shows "dns_name_caseequal n1 n2 = Some (ls1 = ls2)"
proof -
  note D1 = name_repD [OF n1] and D2 = name_repD [OF n2]
  have "wire ls1 = wire ls2 \<longleftrightarrow> ls1 = ls2"
    using wire_inj [of ls1 ls2] D1(4) D2(4) by (auto simp: labels_ok_def)
  then show ?thesis
    using D1 D2 a by (cases "length (wire ls1) = length (wire ls2)") (auto simp: dns_name_caseequal_def)
qed

lemma dns_name_rdatacompare_eq_0:
  assumes n1: "name_is n1 ls1" and n2: "name_is n2 ls2" and r: "rooted ls1" "rooted ls2"
  shows "\<exists>d. dns_name_rdatacompare n1 n2 = Some d \<and> (d = 0 \<longleftrightarrow> lower_labels ls1 = lower_labels ls2)"
proof -
  have R: "name_rep n1 ls1" "name_rep n2 ls2" "is_absolute n1" "is_absolute n2"
    using assms by (auto simp: name_is_def)
  note D1 = name_repD [OF R(1)] and D2 = name_repD [OF R(2)]
  let ?m = "min (length (wire ls1)) (length (wire ls2))"
  let ?w1 = "wire (lower_labels ls1)" and ?w2 = "wire (lower_labels ls2)"
  have s: "\<And>l. l \<in> set ls1 \<Longrightarrow> length l \<le> 63" "\<And>l. l \<in> set ls2 \<Longrightarrow> length l \<le> 63"
    using D1(4) D2(4) by (auto simp: labels_ok_def)
  have t: "take ?m (ndata n1) = take ?m (wire ls1)" "take ?m (ndata n2) = take ?m (wire ls2)"
    using arg_cong [OF D1(6), of "take ?m"] arg_cong [OF D2(6), of "take ?m"]
    by (simp_all add: min.commute min.left_commute)
  have ne: "length ls1 > 0" "length ls2 > 0" using r by (auto simp: rooted_def)
  have "dns_name_rdatacompare n1 n2 =
      Some (bytes_cmp (lower_octets (take ?m (wire ls1))) (lower_octets (take ?m (wire ls2))))"
    using D1 D2 R(3,4) ne
    by (simp add: dns_name_rdatacompare_def isc_ascii_lowercmp_def isc_ascii_lowercmp_on_eq t)
  moreover have "take ?m ?w1 = take ?m ?w2 \<longleftrightarrow> lower_labels ls1 = lower_labels ls2"
  proof
    assume e: "take ?m ?w1 = take ?m ?w2"
    have "?w1 @ drop (length ?w1) ?w2 = ?w2 \<or> ?w2 @ drop (length ?w2) ?w1 = ?w1"
      using e by (auto simp: min_def wire_length_lower split: if_splits) (metis append_take_drop_id)+
    then show "lower_labels ls1 = lower_labels ls2"
      using wire_prefix_free [of "lower_labels ls1" _ "lower_labels ls2"]
        wire_prefix_free [of "lower_labels ls2" _ "lower_labels ls1"] labels_ok_lower D1(4) D2(4) r
      by (metis rooted_lower)
  qed simp
  moreover have "bytes_cmp (take ?m ?w1) (take ?m ?w2) = 0 \<longleftrightarrow> take ?m ?w1 = take ?m ?w2"
    by (rule bytes_cmp_eq_0) (simp add: wire_length_lower)
  moreover have "lower_octets (wire ls1) = ?w1" "lower_octets (wire ls2) = ?w2"
    using lower_wire s by blast+
  ultimately show ?thesis by (simp add: take_map [symmetric])
qed

lemma dns_name_fullcompare_self:
  "name_rep n ls \<Longrightarrow> dns_name_fullcompare n n = Some (dns_namereln_equal, 0, labels n)"
proof -
  have "labels_cmp xs xs k = (dns_namereln_equal, 0, k + length xs)" for xs k
    by (induction xs arbitrary: k) (auto simp: label_cmp_eq_0)
  then show "name_rep n ls \<Longrightarrow> ?thesis"
    by (simp add: dns_name_fullcompare_eq [of n ls n ls] name_repD(3))
qed

section \<open>Label sequences\<close>

lemma label_off_Suc:
  "i < length ls \<Longrightarrow> label_off ls (Suc i) = label_off ls i + length (ls ! i) + 1"
  by (simp add: label_off_def take_Suc_conv_app_nth)

lemma label_off_end [simp]: "label_off ls (length ls) = length (wire ls)"
  by (simp add: label_off_def)

lemma label_off_mono: "i \<le> j \<Longrightarrow> label_off ls i \<le> label_off ls j"
proof -
  assume "i \<le> j"
  then have "take j ls = take i ls @ take (j - i) (drop i ls)"
    by (metis le_add_diff_inverse take_add)
  then show ?thesis by (simp add: label_off_def)
qed

lemma wire_between:
  "i + n \<le> length ls \<Longrightarrow>
   take (label_off ls (i + n) - label_off ls i) (drop (label_off ls i) (wire ls)) = wire (take n (drop i ls))"
proof -
  assume "i + n \<le> length ls"
  have "ls = take i ls @ take n (drop i ls) @ drop (i + n) ls"
    by (metis append.assoc append_take_drop_id take_add)
  then have "wire ls = wire (take i ls) @ wire (take n (drop i ls)) @ wire (drop (i + n) ls)"
    by (metis wire_simps(3))
  then show ?thesis by (simp add: label_off_def take_add)
qed

lemma skip_labels_rep:
  assumes "name_rep s ls" "i + n \<le> length ls"
  shows "skip_labels (ndata s) (label_off ls i) n = Some (label_off ls (i + n))"
  using assms(2)
proof (induction n arbitrary: i)
  case (Suc n)
  then have i: "i < length ls" by simp
  note L = label_at [OF assms(1) i]
  have "length (ls ! i) \<le> 63" using label_length [OF name_repD(4) [OF assms(1)] i] .
  then have "unat (ndata s ! label_off ls i) = length (ls ! i)" using L(2) by simp
  with Suc.IH [of "Suc i"] Suc.prems L(1) show ?case by (simp add: label_off_Suc)
qed simp

lemma rooted_part:
  assumes "labels_ok ls" "i + n \<le> length ls"
  shows "rooted (take n (drop i ls)) \<longleftrightarrow> i + n = length ls \<and> n > 0 \<and> rooted ls"
proof (cases "n = 0")
  case False
  then have l: "last (take n (drop i ls)) = ls ! (i + n - 1)"
    using assms(2) by (simp add: last_conv_nth)
  show ?thesis
  proof (cases "i + n = length ls")
    case True
    moreover from this have "ls \<noteq> []" using False by auto
    ultimately show ?thesis using False l assms by (auto simp: rooted_def last_conv_nth)
  next
    case lt: False
    then have "i + n - 1 < length (butlast ls)" using assms(2) False by simp
    then have "ls ! (i + n - 1) \<in> set (butlast ls)" by (metis nth_butlast nth_mem)
    then have "ls ! (i + n - 1) \<noteq> []" using assms(1) by (auto simp: labels_ok_def)
    with lt l False assms(2) show ?thesis by (auto simp: rooted_def)
  qed
qed (simp add: rooted_def)

text \<open>A structure a function may make into a name.\<close>

definition name_target :: "dns_name \<Rightarrow> bool" where
  "name_target n \<longleftrightarrow> VALID_NAME n \<and> BINDABLE n \<and> table_room n"

lemma name_target_init [simp]: "name_target (DNS_NAME_INIT None)"
  by (simp add: name_target_def VALID_NAME_def BINDABLE_def table_room_def DNS_NAME_INIT_def no_attrs_def)

lemma name_target_fixed [simp]: "name_target dns_fixedname_initname"
  by (simp add: name_target_def VALID_NAME_def BINDABLE_def table_room_def DNS_NAME_INIT_def no_attrs_def
      dns_fixedname_initname_def dns_name_init_def)

lemma dns_name_getlabelsequence_rep:
  assumes s: "name_is s ls" and n: "first + n \<le> length ls" and t: "name_target t"
  shows "\<exists>t'. dns_name_getlabelsequence s first n t = Some t' \<and> name_is t' (take n (drop first ls)) \<and>
     name_target t'"
proof -
  have sr: "name_rep s ls" and sa: "is_absolute s = rooted ls" using s by (auto simp: name_is_def)
  note D = name_repD [OF sr]
  let ?f = "label_off ls first" and ?e = "label_off ls (first + n)"
  let ?t = "(set_absolute (first + n = labels s \<and> 0 < n \<and> is_absolute s)
      (t\<lparr>ndata := drop ?f (ndata s), n_length := ?e - ?f\<rparr>))\<lparr>labels := n\<rparr>"
  have f: "(if first = labels s then Some (0, n_length s)
      else do { p \<leftarrow> skip_labels (ndata s) 0 first; Some (p, p) }) =
      Some (if first = labels s then 0 else ?f, ?f)"
    using skip_labels_rep [OF sr, of 0 first] n D by simp
  have e: "(if first + n = labels s then Some (n_length s)
      else skip_labels (ndata s) (if first = labels s then 0 else ?f) n) = Some ?e"
    using skip_labels_rep [OF sr n] n D by auto
  have le: "?f \<le> ?e" "?e \<le> length (wire ls)" by (simp_all add: label_off_mono label_off_le)
  have "take (?e - ?f) (drop ?f (ndata s)) = take (?e - ?f) (drop ?f (wire ls))"
    by (subst name_rep_split [OF sr]) (use le in simp)
  then have w: "take (?e - ?f) (drop ?f (ndata s)) = wire (take n (drop first ls))"
    using wire_between [OF n] by simp
  have core: "name_core ?t (take n (drop first ls))"
    using w le D t n labels_ok_take [OF labels_ok_drop [OF D(4)]]
    by (auto simp: name_rep_def VALID_NAME_def name_target_def)
  have room: "table_room ?t" using t by (simp add: name_target_def table_room_def)
  from refresh_offsets_rep [OF core room] obtain os
    where r: "refresh_offsets ?t = Some (?t\<lparr>offsets := os\<rparr>)"
      "name_rep (?t\<lparr>offsets := os\<rparr>) (take n (drop first ls))" "table_room (?t\<lparr>offsets := os\<rparr>)" by blast
  have "is_absolute (?t\<lparr>offsets := os\<rparr>) = rooted (take n (drop first ls))"
    using rooted_part [OF D(4) n] sa D by auto
  moreover have "dns_name_getlabelsequence s first n t = Some (?t\<lparr>offsets := os\<rparr>)"
  proof -
    have "first \<le> labels s" "n \<le> labels s - first" using D n by auto
    then show ?thesis
      unfolding dns_name_getlabelsequence_def Let_def using D(1) t
      by (simp add: name_target_def f e r(1) [simplified])
  qed
  moreover have "VALID_NAME (?t\<lparr>offsets := os\<rparr>)" "BINDABLE (?t\<lparr>offsets := os\<rparr>)"
    using t by (auto simp: name_target_def VALID_NAME_def BINDABLE_def)
  ultimately show ?thesis using r(2,3) by (auto simp: name_is_def name_target_def)
qed


lemma dns_name_getlabel_rep:
  assumes "name_rep n ls" "i < length ls"
  shows "\<exists>r. dns_name_getlabel n i = Some r \<and> r_length r \<le> length (r_base r) \<and>
     take (r_length r) (r_base r) = of_nat (length (ls ! i)) # ls ! i"
proof -
  note D = name_repD [OF assms(1)]
  obtain os where os: "SETUP_OFFSETS n = Some os" "table_is os ls"
    using SETUP_OFFSETS_rep [OF assms(1)] by blast
  then have o: "i < length os" "unat (os ! i) = label_off ls i"
      "i + 1 < length ls \<Longrightarrow> i + 1 < length os \<and> unat (os ! (i + 1)) = label_off ls (Suc i)"
    using assms(2) by (auto simp: table_is_def)
  have last: "i + 1 = length ls \<Longrightarrow> length (wire ls) = label_off ls (Suc i)" by simp
  have len: "(if i = labels n - 1 then Some (n_length n - unat (os ! i))
      else do { on1 \<leftarrow> peek os (i + 1); Some (unat on1 - unat (os ! i)) }) = Some (length (ls ! i) + 1)"
  proof (cases "i + 1 = length ls")
    case True
    then have "i = labels n - 1" "n_length n = label_off ls i + length (ls ! i) + 1"
      using last label_off_Suc [OF assms(2)] D by auto
    then show ?thesis using o by simp
  next
    case False
    then have "i \<noteq> labels n - 1" "i + 1 < length ls" using assms(2) D by auto
    then show ?thesis using o label_off_Suc [OF assms(2)] by simp
  qed
  have m: "label_off ls i + (length (ls ! i) + 1) \<le> length (ndata n)"
    using label_at(1,3) [OF assms] by auto
  have "take (length (ls ! i) + 1) (drop (label_off ls i) (ndata n)) = of_nat (length (ls ! i)) # ls ! i"
    using label_at [OF assms] by (simp add: Cons_nth_drop_Suc [symmetric])
  moreover have "ls \<noteq> []" using assms(2) by auto
  ultimately show ?thesis
    using D assms os o len m by (auto simp: dns_name_getlabel_def)
qed

section \<open>Writing a name into a buffer\<close>

lemma blit_at_used:
  assumes ok: "buf_ok t" and fits: "length v \<le> buf_room t"
  shows "\<exists>m t'. blit (b_base t) (b_used t) v = Some m \<and>
     isc_buffer_add (t\<lparr>b_base := m\<rparr>) (length v) = Some t' \<and> appended t v t' \<and>
     take (length v) (drop (b_used t) m) = v \<and> length v \<le> length (drop (b_used t) m) \<and>
     buf_room t' = buf_room t - length v \<and> b_mctx t' = b_mctx t"
proof -
  note D = buf_okD [OF ok]
  from store_ok [OF ok fits] obtain t' where t': "store t v = Some t'" "buf_ok t'"
      "buf_content t' = buf_content t @ v" "buf_remaining t' = buf_remaining t @ v"
      "b_used t' = b_used t + length v" "b_length t' = b_length t" "b_mctx t' = b_mctx t" by blast
  then obtain m where m: "blit (b_base t) (b_used t) v = Some m"
      and te: "t' = t\<lparr>b_base := m, b_used := b_used t + length v\<rparr>"
    by (auto simp: store_def bind_eq_Some_conv)
  have lm: "length m = b_length t" using length_blit [OF m] D by simp
  have "buf_ok (t\<lparr>b_base := m\<rparr>)"
    using D lm by (simp add: buf_ok_def ISC_BUFFER_VALID_def)
  then have "isc_buffer_add (t\<lparr>b_base := m\<rparr>) (length v) = Some t'"
    using fits te isc_buffer_add_ok [of "t\<lparr>b_base := m\<rparr>" "length v"] by (simp add: buf_room_def)
  moreover have "take (length v) (drop (b_used t) m) = v"
    using m D by (auto simp: blit_eq_Some)
  moreover have "length v \<le> length (drop (b_used t) m)"
    using lm fits by (simp add: buf_room_def)
  moreover have "buf_room t' = buf_room t - length v" using t' by (simp add: buf_room_def)
  ultimately show ?thesis using m t' by (auto simp: appended_def)
qed

lemma blit_blit:
  assumes "u + length a + length b \<le> length m"
  shows "\<exists>m1 m2. blit m (u + length a) b = Some m1 \<and> blit m1 u a = Some m2 \<and>
     blit m u (a @ b) = Some m2"
  using assms by (auto simp: blit_def min_def add.assoc)

text \<open>
  A valid buffer to write to: the one the caller passes, or the name's own.  \<open>pick_target\<close> then
  gives a buffer \<open>t\<close> and \<open>put_target\<close> returns it to where it came from.
\<close>

definition target_ok :: "dns_name \<Rightarrow> isc_buffer option \<Rightarrow> bool" where
  "target_ok n target \<longleftrightarrow>
     (case target of Some t \<Rightarrow> buf_ok t
      | None \<Rightarrow> (case n_buffer n of None \<Rightarrow> False | Some b \<Rightarrow> buf_ok b))"

lemma pick_target_ok:
  assumes "target_ok n target"
  shows "\<exists>t. pick_target n target = Some t \<and> buf_ok t"
  using assms buf_ok_clear buf_okD(1)
  by (cases target; cases "n_buffer n") (auto simp: target_ok_def pick_target_def isc_buffer_clear_def)

lemma put_target_simps [simp]:
  "labels (fst (put_target n target t)) = labels n" "ndata (fst (put_target n target t)) = ndata n"
  "n_length (fst (put_target n target t)) = n_length n"
  "attributes (fst (put_target n target t)) = attributes n"
  "offsets (fst (put_target n target t)) = offsets n"
  "n_magic (fst (put_target n target t)) = n_magic n"
  by (auto simp: put_target_def split: option.splits)

lemma name_is_put_target [simp]:
  "name_is (fst (put_target n target t)) ls = name_is n ls"
  by (simp add: name_is_def name_rep_def VALID_NAME_def)

text \<open>The end of every function that writes a name: fill the table, claim the space.\<close>

lemma write_name:
  assumes v: "v = wire ls" and ok: "labels_ok ls" and t: "buf_ok t" "length v \<le> buf_room t"
    and n: "name_target n" and a: "absolute a = rooted ls"
  shows "\<exists>m t' os. blit (b_base t) (b_used t) v = Some m \<and>
     isc_buffer_add (t\<lparr>b_base := m\<rparr>) (length v) = Some t' \<and> appended t v t' \<and>
     buf_room t' = buf_room t - length v \<and> b_mctx t' = b_mctx t \<and>
     (let n' = n\<lparr>ndata := drop (b_used t) m, n_length := length v, labels := length ls, attributes := a\<rparr>
      in (if length ls > 0 then refresh_offsets n' else Some n') = Some (n'\<lparr>offsets := os\<rparr>) \<and>
         name_is (n'\<lparr>offsets := os\<rparr>) ls)"
proof -
  from blit_at_used [OF t] obtain m t' where m: "blit (b_base t) (b_used t) v = Some m"
     "isc_buffer_add (t\<lparr>b_base := m\<rparr>) (length v) = Some t'" "appended t v t'"
     "take (length v) (drop (b_used t) m) = v" "length v \<le> length (drop (b_used t) m)"
     "buf_room t' = buf_room t - length v" "b_mctx t' = b_mctx t" by blast
  let ?n = "n\<lparr>ndata := drop (b_used t) m, n_length := length v, labels := length ls, attributes := a\<rparr>"
  have core: "name_core ?n ls"
    using m n v ok by (auto simp: name_rep_def VALID_NAME_def name_target_def)
  have room: "table_room ?n" using n by (simp add: name_target_def table_room_def)
  have "\<exists>os. (if length ls > 0 then refresh_offsets ?n else Some ?n) = Some (?n\<lparr>offsets := os\<rparr>) \<and>
      name_is (?n\<lparr>offsets := os\<rparr>) ls"
  proof (cases "length ls > 0")
    case True
    then show ?thesis using refresh_offsets_rep [OF core room] a by (auto simp: name_is_def)
  next
    case False
    then have "?n = ?n\<lparr>offsets := offsets n\<rparr>" "name_is ?n ls"
      using core a by (auto simp: name_is_def name_rep_def VALID_NAME_def table_is_def split: option.splits)
    then show ?thesis using False by (intro exI [of _ "offsets n"]) simp
  qed
  with m show ?thesis by (auto simp: Let_def)
qed

section \<open>Concatenation, folding and copying\<close>

lemma name_part_fetch: "name_rep n ls \<Longrightarrow> fetch (ndata n) 0 (n_length n) = Some (wire ls)"
  by (simp add: name_repD)

lemma labels_ok_join:
  assumes "labels_ok ls" "labels_ok ls'" "rooted ls \<Longrightarrow> ls' = []" "length (wire (ls @ ls')) \<le> 255"
  shows "labels_ok (ls @ ls')"
proof (cases "ls = [] \<or> ls' = []")
  case False
  then have l: "last ls \<noteq> []" using assms(3) by (auto simp: rooted_def)
  have s: "set ls = set (butlast ls @ [last ls])" using False by simp
  have "x \<noteq> []" if "x \<in> set ls" for x
    using that l assms(1) unfolding s by (auto simp: labels_ok_def)
  with False assms show ?thesis by (auto simp: labels_ok_def butlast_append)
qed (use assms in auto)

text \<open>A name argument that may be a null pointer; it is then copied as no labels.\<close>

definition part_is :: "dns_name option \<Rightarrow> bytes list \<Rightarrow> bool" where
  "part_is p ls \<longleftrightarrow> (case p of None \<Rightarrow> ls = [] | Some n \<Rightarrow> name_is n ls)"

lemma part_facts:
  assumes "part_is p ls"
  shows "(case p of None \<Rightarrow> True | Some n \<Rightarrow> VALID_NAME n)"
    "(case p of None \<Rightarrow> False | Some n \<Rightarrow> labels n \<noteq> 0) = (ls \<noteq> [])"
    "(case p of None \<Rightarrow> False | Some n \<Rightarrow> c \<and> is_absolute n) = (c \<and> rooted ls)"
    "(case p of None \<Rightarrow> 0 | Some n \<Rightarrow> if ls \<noteq> [] then n_length n else 0) = length (wire ls)"
    "(case p of None \<Rightarrow> 0 | Some n \<Rightarrow> if ls \<noteq> [] then labels n else 0) = length ls"
    "(case p of None \<Rightarrow> Some [] | Some n \<Rightarrow> fetch (ndata n) 0
       (case p of None \<Rightarrow> 0 | Some n \<Rightarrow> if ls \<noteq> [] then n_length n else 0)) = Some (wire ls)"
    "labels_ok ls"
  using assms name_repD(1,2,3,4,5,6)
  by (auto simp: part_is_def name_is_def rooted_def split: option.splits)

lemma dns_name_concatenate_ok:
  assumes p: "part_is p lsp" and s: "part_is s lss"
    and a: "rooted lsp \<Longrightarrow> lss = []" and n: "name_target n" and t: "target_ok n target"
    and len: "length (wire (lsp @ lss)) \<le> 255"
    and pick: "pick_target n target = Some t"
    and fits: "length (wire (lsp @ lss)) \<le> buf_room t"
  shows "\<exists>n' t'. dns_name_concatenate p s (Some n) target =
       Some (ISC_R_SUCCESS, fst (put_target n' target t'), snd (put_target n' target t')) \<and>
     name_is n' (lsp @ lss) \<and> appended t (wire (lsp @ lss)) t'"
proof -
  have tok: "buf_ok t" using pick_target_ok [OF t] pick by auto
  note P = part_facts [OF p] and S = part_facts [OF s]
  have ok: "labels_ok (lsp @ lss)" using labels_ok_join [OF P(7) S(7) a] len by simp
  define a' where "a' = (attributes n)\<lparr>absolute := rooted (lsp @ lss)\<rparr>"
  have r: "rooted (lsp @ lss) \<longleftrightarrow> (lsp \<noteq> [] \<and> rooted lsp) \<or> (lss \<noteq> [] \<and> rooted lss)"
    using a by (cases "lss = []") (auto simp: rooted_def)
  have room: "buf_room t = usub (b_length t) (b_used t)"
    using buf_okD [OF tok] by (simp add: buf_room_def usub_eq)
  from write_name [OF refl ok tok fits n, of a']
  obtain m t' os where w: "blit (b_base t) (b_used t) (wire (lsp @ lss)) = Some m"
    "isc_buffer_add (t\<lparr>b_base := m\<rparr>) (length (wire (lsp @ lss))) = Some t'" "appended t (wire (lsp @ lss)) t'"
    "(let n' = n\<lparr>ndata := drop (b_used t) m, n_length := length (wire (lsp @ lss)),
        labels := length (lsp @ lss), attributes := a'\<rparr>
      in (if length (lsp @ lss) > 0 then refresh_offsets n' else Some n') = Some (n'\<lparr>offsets := os\<rparr>) \<and>
         name_is (n'\<lparr>offsets := os\<rparr>) (lsp @ lss))"
    by (auto simp: a'_def)
  obtain m1 where b: "blit (b_base t) (b_used t + length (wire lsp)) (wire lss) = Some m1"
      "blit m1 (b_used t) (wire lsp) = Some m"
    using blit_blit [of "b_used t" "wire lsp" "wire lss" "b_base t"] w(1) fits buf_okD [OF tok]
    by (auto simp: buf_room_def)
  let ?n = "n\<lparr>ndata := drop (b_used t) m, n_length := length (wire (lsp @ lss)),
        labels := length (lsp @ lss), attributes := a', offsets := os\<rparr>"
  have lt: "\<not> min (buf_room t) 255 < length (wire lsp) + length (wire lss)" using len fits by simp
  have "dns_name_concatenate p s (Some n) target =
      Some (ISC_R_SUCCESS, fst (put_target ?n target t'), snd (put_target ?n target t'))"
    unfolding dns_name_concatenate_def
    using w(2,4) n len fits lt
    by (simp add: P S a pick b name_target_def room [symmetric] Let_def a'_def r case_prod_unfold)
  moreover have "name_is ?n (lsp @ lss)" using w(4) by (simp add: Let_def)
  ultimately show ?thesis using w(3) by blast
qed


lemma dns_name_concatenate_toolong:
  assumes p: "part_is p lsp" and s: "part_is s lss"
    and a: "rooted lsp \<Longrightarrow> lss = []" and n: "name_target n"
    and len: "255 < length (wire (lsp @ lss))"
    and pick: "pick_target n target = Some t"
  shows "dns_name_concatenate p s (Some n) target =
       Some (DNS_R_NAMETOOLONG, put_target (MAKE_EMPTY n) target t)"
proof -
  note P = part_facts [OF p] and S = part_facts [OF s]
  show ?thesis
    unfolding dns_name_concatenate_def
    using n len by (simp add: P S a pick name_target_def Let_def case_prod_unfold)
qed

lemma dns_name_concatenate_nospace:
  assumes p: "part_is p lsp" and s: "part_is s lss"
    and a: "rooted lsp \<Longrightarrow> lss = []" and n: "name_target n"
    and len: "length (wire (lsp @ lss)) \<le> 255"
    and pick: "pick_target n target = Some t" and t: "buf_ok t"
    and fits: "buf_room t < length (wire (lsp @ lss))"
  shows "dns_name_concatenate p s (Some n) target =
       Some (ISC_R_NOSPACE, put_target (MAKE_EMPTY n) target t)"
proof -
  note P = part_facts [OF p] and S = part_facts [OF s]
  have room: "buf_room t = usub (b_length t) (b_used t)"
    using buf_okD [OF t] by (simp add: buf_room_def usub_eq)
  have lt: "min (buf_room t) 255 < length (wire lsp) + length (wire lss)" using len fits by simp
  show ?thesis
    unfolding dns_name_concatenate_def
    using n len lt fits by (simp add: P S a pick name_target_def Let_def case_prod_unfold room [symmetric])
qed

lemma dns_name_downcase_ok:
  assumes s: "name_is s ls" and n: "name_target n" and t: "buf_ok t"
    and pick: "pick_target n target = Some t" and fits: "length (wire ls) \<le> buf_room t"
  shows "\<exists>n' t'. dns_name_downcase s n target =
       Some (ISC_R_SUCCESS, put_target n' target t') \<and>
     name_is n' (lower_labels ls) \<and> appended t (wire (lower_labels ls)) t'"
proof -
  have sr: "name_rep s ls" and sa: "is_absolute s = rooted ls" using s by (auto simp: name_is_def)
  note D = name_repD [OF sr]
  have w: "wire (lower_labels ls) = lower_octets (wire ls)"
    using lower_wire [of ls] D(4) by (auto simp: labels_ok_def)
  have room: "buf_room t = usub (b_length t) (b_used t)"
    using buf_okD [OF t] by (simp add: buf_room_def usub_eq)
  have lc: "isc_ascii_lowercopy (ndata s) (length (wire ls)) = Some (wire (lower_labels ls))"
    using D w by (simp add: isc_ascii_lowercopy_eq)
  have fits': "length (wire (lower_labels ls)) \<le> buf_room t" using fits by (simp add: wire_length_lower)
  let ?a = "no_attrs\<lparr>absolute := rooted ls\<rparr>"
  from write_name [OF refl labels_ok_lower [OF D(4)] t fits' n, of ?a]
  obtain m t' os where W: "blit (b_base t) (b_used t) (wire (lower_labels ls)) = Some m"
    "isc_buffer_add (t\<lparr>b_base := m\<rparr>) (length (wire ls)) = Some t'" "appended t (wire (lower_labels ls)) t'"
    "(if length ls > 0 then refresh_offsets (n\<lparr>ndata := drop (b_used t) m, n_length := length (wire ls),
        labels := length ls, attributes := ?a\<rparr>)
      else Some (n\<lparr>ndata := drop (b_used t) m, n_length := length (wire ls),
        labels := length ls, attributes := ?a\<rparr>)) =
      Some (n\<lparr>ndata := drop (b_used t) m, n_length := length (wire ls),
        labels := length ls, attributes := ?a, offsets := os\<rparr>)"
    "name_is (n\<lparr>ndata := drop (b_used t) m, n_length := length (wire ls),
        labels := length ls, attributes := ?a, offsets := os\<rparr>) (lower_labels ls)"
    by (auto simp: Let_def wire_length_lower)
  have "dns_name_downcase s n target = Some (ISC_R_SUCCESS,
      put_target (n\<lparr>ndata := drop (b_used t) m, n_length := length (wire ls),
        labels := length ls, attributes := ?a, offsets := os\<rparr>) target t')"
    unfolding dns_name_downcase_def
    using W(1,2,4) D n fits sa by (simp add: pick room [symmetric] lc name_target_def Let_def)
  with W(3,5) show ?thesis by blast
qed


lemma table_copy:
  assumes "table_is so ls" "length ls \<le> length os"
  shows "\<exists>os'. blit os 0 (take (length ls) so) = Some os' \<and> table_is os' ls \<and> length os' = length os"
  using assms by (auto simp: table_is_def blit_def nth_append)

lemma copy_offsets_rep:
  assumes s: "name_rep s ls" and core: "name_core t ls" and room: "table_room t"
  shows "\<exists>os. copy_offsets s t = Some (t\<lparr>offsets := os\<rparr>) \<and> name_rep (t\<lparr>offsets := os\<rparr>) ls \<and>
     (os = None) = (offsets t = None)"
proof (cases "offsets t")
  case None
  then have t: "t\<lparr>offsets := None\<rparr> = t" by (cases t) simp
  with None core show ?thesis by (intro exI [of _ None]) (simp add: copy_offsets_def t)
next
  case (Some os)
  note D = name_repD [OF s]
  show ?thesis
  proof (cases "offsets s")
    case None
    then show ?thesis using Some refresh_offsets_rep [OF core room] by (auto simp: copy_offsets_def)
  next
    case so: (Some so)
    then have T: "table_is so ls" "length ls \<le> length os"
      using D Some room by (auto simp: table_room_def)
    have "fetch so 0 (labels s) = Some (take (length ls) so)"
      using T(1) D by (simp add: table_is_def)
    then show ?thesis
      using table_copy [OF T] Some so core
      by (auto simp: copy_offsets_def name_rep_def VALID_NAME_def)
  qed
qed

lemma dns_name_copy_rep:
  assumes s: "name_is s ls" and d: "name_target d" and b: "n_buffer d = Some b" "buf_ok b"
    and fits: "length (wire ls) \<le> b_length b"
  shows "\<exists>d' b'. dns_name_copy s d = Some d' \<and> name_is d' ls \<and> n_buffer d' = Some b' \<and>
     buf_ok b' \<and> buf_content b' = wire ls"
proof -
  have sr: "name_rep s ls" and sa: "is_absolute s = rooted ls" using s by (auto simp: name_is_def)
  note D = name_repD [OF sr] and B = buf_okD [OF b(2)]
  let ?b = "b\<lparr>b_used := 0, b_current := 0, b_active := 0\<rparr>"
  have bok: "buf_ok ?b" "isc_buffer_clear b = Some ?b"
    using B by (auto simp: buf_ok_def ISC_BUFFER_VALID_def isc_buffer_clear_def)
  have fits': "length (wire ls) \<le> buf_room ?b" using fits by (simp add: buf_room_def)
  from blit_at_used [OF bok(1) fits'] obtain m t' where m: "blit (b_base b) 0 (wire ls) = Some m"
     "isc_buffer_add (?b\<lparr>b_base := m\<rparr>) (length (wire ls)) = Some t'" "appended ?b (wire ls) t'"
     "take (length (wire ls)) m = wire ls" "length (wire ls) \<le> length m" by auto
  let ?a = "(attributes d)\<lparr>absolute := rooted ls\<rparr>"
  let ?d = "d\<lparr>ndata := m, n_length := length (wire ls), labels := length ls, attributes := ?a\<rparr>"
  have core: "name_core ?d ls"
    using m d D(4) by (auto simp: name_rep_def VALID_NAME_def name_target_def)
  have room: "table_room ?d" using d by (simp add: name_target_def table_room_def)
  have "\<exists>os. (if length ls > 0 then copy_offsets s ?d else Some ?d) = Some (?d\<lparr>offsets := os\<rparr>) \<and>
      name_rep (?d\<lparr>offsets := os\<rparr>) ls"
  proof (cases "length ls > 0")
    case True
    then show ?thesis using copy_offsets_rep [OF sr core room] by auto
  next
    case False
    then have "?d = ?d\<lparr>offsets := offsets d\<rparr>" "name_rep ?d ls"
      using core by (auto simp: name_rep_def VALID_NAME_def table_is_def split: option.splits)
    then show ?thesis using False by (intro exI [of _ "offsets d"]) simp
  qed
  then obtain os where os: "(if length ls > 0 then copy_offsets s ?d else Some ?d) = Some (?d\<lparr>offsets := os\<rparr>)"
      "name_rep (?d\<lparr>offsets := os\<rparr>) ls" by blast
  have "dns_name_copy s d = Some (?d\<lparr>offsets := os, n_buffer := Some t'\<rparr>)"
    unfolding dns_name_copy_def
    using os(1) m(1,2) bok(2) b d D sa fits name_part_fetch [OF sr]
    by (simp add: name_target_def Let_def)
  moreover have "name_is (?d\<lparr>offsets := os, n_buffer := Some t'\<rparr>) ls"
    using os(2) by (simp add: name_is_def name_rep_def VALID_NAME_def)
  moreover have "buf_content t' = wire ls" "buf_ok t'"
    using m(3) by (simp_all add: appended_def buf_content_def)
  ultimately show ?thesis by auto
qed

lemma dns_name_dup_rep:
  assumes s: "name_is s ls" "ls \<noteq> []" and t: "name_target t"
  shows "\<exists>t'. dns_name_dup s t = Some t' \<and> name_is t' ls \<and> dynamic (attributes t')"
proof -
  have sr: "name_rep s ls" and sa: "is_absolute s = rooted ls" using s by (auto simp: name_is_def)
  note D = name_repD [OF sr]
  let ?a = "no_attrs\<lparr>dynamic := True, absolute := rooted ls\<rparr>"
  let ?t = "(MAKE_EMPTY t)\<lparr>ndata := wire ls, n_length := length (wire ls), labels := length ls, attributes := ?a\<rparr>"
  have core: "name_core ?t ls"
    using t D(4) by (auto simp: name_rep_def VALID_NAME_def name_target_def MAKE_EMPTY_def)
  have room: "table_room ?t" using t by (simp add: name_target_def table_room_def MAKE_EMPTY_def)
  from copy_offsets_rep [OF sr core room] obtain os
    where os: "copy_offsets s ?t = Some (?t\<lparr>offsets := os\<rparr>)" "name_rep (?t\<lparr>offsets := os\<rparr>) ls" by blast
  have "0 < length (wire ls)" using s(2) by (cases ls) auto
  then have "dns_name_dup s t = Some (?t\<lparr>offsets := os\<rparr>)"
    unfolding dns_name_dup_def
    using os(1) t D sa by (simp add: name_target_def Let_def)
  moreover have "name_is (?t\<lparr>offsets := os\<rparr>) ls" using os(2) by (simp add: name_is_def)
  ultimately show ?thesis by auto
qed

section \<open>Properties\<close>

text \<open>A name structure for the labels \<open>ls\<close>, used to evaluate the properties on concrete names.\<close>

definition mk_name :: "bytes list \<Rightarrow> dns_name" where
  "mk_name ls = (DNS_NAME_INIT None)\<lparr>ndata := wire ls, n_length := length (wire ls),
     labels := length ls, attributes := no_attrs\<lparr>absolute := rooted ls\<rparr>\<rparr>"

lemma mk_name_is: "labels_ok ls \<Longrightarrow> name_is (mk_name ls) ls"
  by (simp add: mk_name_def name_is_def name_rep_def DNS_NAME_INIT_def VALID_NAME_def)



text \<open>
  C23: \<^verbatim>\<open>dns_name_equal\<close>, \<^verbatim>\<open>dns_name_rdatacompare\<close> and \<^verbatim>\<open>dns_name_fullcompare\<close> agree on which absolute
  names are the same: comparing whole names as folded octets, up to the shorter length only in
  the case of rdata, decides the same relation as comparing them label by label.
\<close>

theorem equality_tests_agree:
  assumes n1: "name_is n1 ls1" and n2: "name_is n2 ls2" and r: "rooted ls1" "rooted ls2"
  shows "\<exists>e d c k. dns_name_equal n1 n2 = Some (c = dns_namereln_equal) \<and>
     dns_name_rdatacompare n1 n2 = Some d \<and> dns_name_fullcompare n1 n2 = Some (c, e, k) \<and>
     (d = 0 \<longleftrightarrow> c = dns_namereln_equal) \<and> (e = 0 \<longleftrightarrow> c = dns_namereln_equal)"
proof -
  obtain c e k where L: "labels_cmp (rev ls1) (rev ls2) 0 = (c, e, k)" by (metis prod_cases3)
  have "dns_name_fullcompare n1 n2 = Some (c, e, k)"
    using dns_name_fullcompare_eq [of n1 ls1 n2 ls2] n1 n2 r L by (simp add: name_is_def)
  then show ?thesis
    using labels_cmp_reln(3) [OF L] labels_cmp_order(2) [OF L] dns_name_rdatacompare_eq_0 [OF assms]
      dns_name_equal_eq [of n1 ls1 n2 ls2] n1 n2 r
    by (auto simp: name_is_def rev_map [symmetric])
qed

theorem equality_tests_agree_witness:
  "\<exists>e d c k. dns_name_equal (mk_name [[0x41], []]) (mk_name [[0x61], []]) = Some (c = dns_namereln_equal) \<and>
     dns_name_rdatacompare (mk_name [[0x41], []]) (mk_name [[0x61], []]) = Some d \<and>
     dns_name_fullcompare (mk_name [[0x41], []]) (mk_name [[0x61], []]) = Some (c, e, k)"
proof -
  have 1: "name_is (mk_name [[0x41], []]) [[0x41], []]" "name_is (mk_name [[0x61], []]) [[0x61], []]"
    by (rule mk_name_is, simp add: labels_ok_def)+
  show ?thesis using equality_tests_agree [OF 1] by (auto simp: rooted_def)
qed


text \<open>
  splitting a name and concatenating the two parts into a buffer with room gives the same
  labels back, and the split itself gives the first labels and the last \<open>k\<close>.
\<close>

theorem split_concatenate:
  assumes n: "name_is n ls" and k: "0 < k" "k \<le> length ls"
    and p: "name_target p" and s: "name_target s" and x: "name_target x"
    and t: "buf_ok t" "length (wire ls) \<le> buf_room t"
  shows "\<exists>p' s' x' t'. dns_name_split n k (Some p) (Some s) = Some (Some p', Some s') \<and>
     name_is p' (take (length ls - k) ls) \<and> name_is s' (drop (length ls - k) ls) \<and>
     dns_name_concatenate (Some p') (Some s') (Some x) (Some t) = Some (ISC_R_SUCCESS, x', Some t') \<and>
     name_is x' ls \<and> appended t (wire ls) t'"
proof -
  have nr: "name_rep n ls" using n by (simp add: name_is_def)
  note D = name_repD [OF nr]
  let ?i = "length ls - k"
  obtain p' where p': "dns_name_getlabelsequence n 0 ?i p = Some p'" "name_is p' (take ?i ls)"
    using dns_name_getlabelsequence_rep [OF n _ p, of 0 ?i] by auto
  obtain s' where s': "dns_name_getlabelsequence n ?i k s = Some s'" "name_is s' (drop ?i ls)"
    using dns_name_getlabelsequence_rep [OF n _ s, of ?i k] k by auto
  have split: "dns_name_split n k (Some p) (Some s) = Some (Some p', Some s')"
    using p' s' D k p s by (simp add: dns_name_split_def name_target_def Let_def)
  have nr: "\<not> rooted (take ?i ls)" using rooted_part [OF D(4), of 0 ?i] k by auto
  have "\<exists>n' t'. dns_name_concatenate (Some p') (Some s') (Some x) (Some t) =
       Some (ISC_R_SUCCESS, fst (put_target n' (Some t) t'), snd (put_target n' (Some t) t')) \<and>
     name_is n' (take ?i ls @ drop ?i ls) \<and> appended t (wire (take ?i ls @ drop ?i ls)) t'"
    using p'(2) s'(2) x t nr D
    by (intro dns_name_concatenate_ok)
       (auto simp: part_is_def target_ok_def pick_target_def buf_okD(1) simp flip: wire_simps(3))
  then show ?thesis using split p'(2) s'(2) by (auto simp: put_target_def)
qed

theorem split_concatenate_witness:
  "\<exists>p' s' x' t'. dns_name_split (mk_name [[0x61], [0x62], []]) 1 (Some (DNS_NAME_INIT None))
       (Some (DNS_NAME_INIT None)) = Some (Some p', Some s') \<and>
     dns_name_concatenate (Some p') (Some s') (Some (DNS_NAME_INIT None))
       (Some (isc_buffer_init (replicate 9 0) 9)) = Some (ISC_R_SUCCESS, x', Some t') \<and>
     name_is x' [[0x61], [0x62], []]"
proof -
  have n: "name_is (mk_name [[0x61], [0x62], []]) [[0x61], [0x62], []]"
    by (rule mk_name_is) (simp add: labels_ok_def)
  have b: "buf_ok (isc_buffer_init (replicate 9 0) 9)"
    using buf_ok_init [of "replicate 9 0"] by simp
  show ?thesis
    using split_concatenate [OF n, of 1, OF _ _ name_target_init name_target_init name_target_init b]
    by (auto simp: buf_room_def isc_buffer_init_def)
qed

text \<open>
  C22: concatenation of well-formed names, into the caller's buffer or the name's own, is never an
  assertion failure or an overrun: it is \<^verbatim>\<open>DNS_R_NAMETOOLONG\<close> exactly when the result would be
  over 255 octets, \<^verbatim>\<open>ISC_R_NOSPACE\<close> exactly when it is not but does not fit the buffer, the name
  being left empty in both cases, and otherwise the name is the labels of both.
\<close>

theorem concatenate_total:
  assumes p: "part_is p lsp" and s: "part_is s lss" and a: "rooted lsp \<Longrightarrow> lss = []"
    and n: "name_target n" and t: "target_ok n target"
  shows "\<exists>r n' tg t. pick_target n target = Some t \<and>
     dns_name_concatenate p s (Some n) target = Some (r, n', tg) \<and>
     (if length (wire (lsp @ lss)) > DNS_NAME_MAXWIRE then r = DNS_R_NAMETOOLONG \<and> labels n' = 0
      else if length (wire (lsp @ lss)) > buf_room t then r = ISC_R_NOSPACE \<and> labels n' = 0
      else r = ISC_R_SUCCESS \<and> name_is n' (lsp @ lss))"
proof -
  obtain t where t': "pick_target n target = Some t" "buf_ok t" using pick_target_ok [OF t] by blast
  let ?w = "wire (lsp @ lss)"
  consider "255 < length ?w" | "length ?w \<le> 255" "buf_room t < length ?w"
    | "length ?w \<le> 255" "length ?w \<le> buf_room t" by linarith
  then show ?thesis
  proof cases
    case 1
    with dns_name_concatenate_toolong [OF p s a n 1 t'(1)] t'(1) show ?thesis
      by (cases "put_target (MAKE_EMPTY n) target t")
         (auto simp: MAKE_EMPTY_def put_target_def split: option.splits)
  next
    case 2
    with dns_name_concatenate_nospace [OF p s a n 2(1) t' 2(2)] t'(1) show ?thesis
      by (cases "put_target (MAKE_EMPTY n) target t")
         (auto simp: MAKE_EMPTY_def put_target_def split: option.splits)
  next
    case 3
    from dns_name_concatenate_ok [OF p s a n t 3(1) t'(1) 3(2)] obtain n' t''
      where c: "dns_name_concatenate p s (Some n) target = Some (ISC_R_SUCCESS, put_target n' target t'')"
        "name_is n' (lsp @ lss)" by auto
    show ?thesis
      using 3 t'(1) c name_is_put_target [of n' target t'' "lsp @ lss"]
      by (cases "put_target n' target t''") auto
  qed
qed

theorem concatenate_total_witness:
  "\<exists>r n' tg. dns_name_concatenate (Some (mk_name [[0x61]])) None (Some (DNS_NAME_INIT None))
     (Some (isc_buffer_init [0] 1)) = Some (r, n', tg) \<and> r = ISC_R_NOSPACE"
proof -
  have p: "part_is (Some (mk_name [[0x61]])) [[0x61]]" "part_is None []"
    by (auto simp: part_is_def labels_ok_def intro!: mk_name_is)
  have t: "target_ok (DNS_NAME_INIT None) (Some (isc_buffer_init [0] 1))"
    using buf_ok_init [of "[0]"] by (simp add: target_ok_def)
  show ?thesis
    using concatenate_total [OF p _ name_target_init t]
    by (auto simp: pick_target_def buf_room_def isc_buffer_init_def ISC_BUFFER_VALID_def)
qed

text \<open>
  what \<^verbatim>\<open>dns_name_digest\<close> hands to the digest function is the name in canonical form, the
  wire form with case folded, so names that are equal have equal digests.
\<close>

theorem digest_canonical:
  assumes "name_is n ls"
  shows "dns_name_digest n digest arg = Some (digest arg (wire (lower_labels ls)))"
proof -
  let ?b = "isc_buffer_init (replicate 256 0) 256"
  have b: "buf_ok ?b" using buf_ok_init [of "replicate 256 0"] by simp
  have D: "VALID_NAME n" "length (wire ls) \<le> 255"
    using name_repD [of n ls] assms by (auto simp: name_is_def)
  then have fits: "length (wire ls) \<le> buf_room ?b" by (simp add: buf_room_def isc_buffer_init_def)
  have pick: "pick_target (DNS_NAME_INIT None) (Some ?b) = Some ?b"
    using buf_okD(1) [OF b] by (simp add: pick_target_def)
  from dns_name_downcase_ok [OF assms name_target_init b pick fits] obtain n' t'
    where d: "dns_name_downcase n (DNS_NAME_INIT None) (Some ?b) = Some (ISC_R_SUCCESS, n', Some t')"
      and a: "appended ?b (wire (lower_labels ls)) t'" by (auto simp: put_target_def)
  from a have "buf_ok t'" "buf_content t' = wire (lower_labels ls)"
    by (simp_all add: appended_def buf_content_def isc_buffer_init_def)
  then show ?thesis
    using d D(1) buf_okD [of t']
    by (simp add: dns_name_digest_def isc_buffer_usedregion_def buf_content_def)
qed

theorem digest_canonical_witness:
  "dns_name_digest (mk_name [[0x41], []]) (\<lambda>d v. (ISC_R_SUCCESS, d @ v)) [] =
     Some (ISC_R_SUCCESS, [1, 0x61, 0])"
  using digest_canonical [OF mk_name_is, of "[[0x41], []]" "\<lambda>d v. (ISC_R_SUCCESS, d @ v)" "[]"]
  by (simp add: labels_ok_def isc__ascii_tolower1_def)

text \<open>
  an absolute wildcard name \<^verbatim>\<open>*.X\<close> matches exactly the proper descendants of \<^verbatim>\<open>X\<close>, whatever
  their depth.
\<close>

theorem matcheswildcard_correct:
  assumes n: "name_is n ls" "rooted ls" and w: "name_is w ([0x2a] # ws)" "rooted ws"
  shows "dns_name_matcheswildcard n w = Some (strict_suffix (lower_labels ws) (lower_labels ls))"
proof -
  have wr: "name_rep w ([0x2a] # ws)" and nr: "name_rep n ls" using assms by (auto simp: name_is_def)
  note W = name_repD [OF wr] and N = name_repD [OF nr]
  obtain rest where d: "ndata w = 1 # 0x2a # rest" using name_rep_split [OF wr] by simp
  have wild: "dns_name_iswildcard w = Some True"
    using W d by (simp add: dns_name_iswildcard_def)
  obtain t where t: "dns_name_getlabelsequence w 1 (labels w - 1) (DNS_NAME_INIT None) = Some t"
      "name_is t ws"
    using dns_name_getlabelsequence_rep [OF w(1) _ name_target_init, of 1 "length ws"] W by auto
  obtain r d k where c: "labels_cmp (rev ls) (rev ws) 0 = (r, d, k)" by (metis prod_cases3)
  have "dns_name_fullcompare n t = Some (r, d, k)"
    using dns_name_fullcompare_eq [of n ls t ws] n t w(2) c by (simp add: name_is_def)
  then show ?thesis
    using labels_cmp_reln(4) [OF c] W N wild t(1) n(2)
    by (auto simp: dns_name_matcheswildcard_def strict_suffix_to_prefix rooted_def simp flip: rev_map)
qed

theorem matcheswildcard_correct_witness:
  "dns_name_matcheswildcard (mk_name [[0x61], [0x62], []]) (mk_name [[0x2a], []]) = Some True"
proof -
  have 1: "name_is (mk_name [[0x61], [0x62], []]) [[0x61], [0x62], []]"
      "name_is (mk_name [[0x2a], []]) [[0x2a], []]"
    by (rule mk_name_is, simp add: labels_ok_def)+
  show ?thesis
    using matcheswildcard_correct [OF 1(1) _ 1(2)] by (auto simp: rooted_def strict_suffix_def suffix_def)
qed

end
