(* ===== verification/NameWire.thy ===== *)
theory NameWire
  imports NameOps
begin

text \<open>
  \<^verbatim>\<open>dns_name_fromwire\<close> of \<^verbatim>\<open>lib/dns/name.c\<close>: reading a possibly compressed name from a message.
  The loop is modelled with its pointers as offsets into the source buffer, every read and
  write bounds-checked.  The specification is the relation \<open>dn\<close>: how the octets from a position
  of the message spell labels, pointers going strictly back from the start of the segment
  they are in.
\<close>

section \<open>Reading a name\<close>

datatype dns_decompress =
    DNS_DECOMPRESS_DEFAULT | DNS_DECOMPRESS_PERMITTED | DNS_DECOMPRESS_NEVER | DNS_DECOMPRESS_ALWAYS

definition dns_decompress_setpermitted :: "dns_decompress \<Rightarrow> bool \<Rightarrow> dns_decompress" where
  "dns_decompress_setpermitted dctx permitted =
     (if dctx = DNS_DECOMPRESS_NEVER \<or> dctx = DNS_DECOMPRESS_ALWAYS then dctx
      else if permitted then DNS_DECOMPRESS_PERMITTED else DNS_DECOMPRESS_DEFAULT)"

definition dns_decompress_getpermitted :: "dns_decompress \<Rightarrow> bool" where
  "dns_decompress_getpermitted dctx \<longleftrightarrow>
     dctx = DNS_DECOMPRESS_ALWAYS \<or> dctx = DNS_DECOMPRESS_PERMITTED"

text \<open>The variables of the loop; \<open>w_mem\<close> is the memory of the target buffer.\<close>

record fw_state =
  w_mem :: bytes
  w_offsets :: bytes
  w_labels :: nat
  w_len :: nat
  w_marker :: nat
  w_cursor :: nat
  w_consumed :: "nat option"

definition set_consumed :: "nat option \<Rightarrow> nat \<Rightarrow> nat option" where
  "set_consumed cd c = (case cd of None \<Rightarrow> Some c | Some k \<Rightarrow> Some k)"

text \<open>\<^verbatim>\<open>ISC_R_SUCCESS\<close> is the jump to \<^verbatim>\<open>root_label\<close>; every other result is returned as it is.\<close>

function fromwire_loop ::
  "bytes \<Rightarrow> nat \<Rightarrow> nat \<Rightarrow> bool \<Rightarrow> nat \<Rightarrow> fw_state \<Rightarrow> (isc_result \<times> fw_state) option" where
  "fromwire_loop src source_max name_max permitted name_buf st =
     (if w_cursor st < source_max then do {
        label_len \<leftarrow> peek src (w_cursor st);
        if unat label_len \<le> DNS_NAME_LABELLEN then do {
          os \<leftarrow> poke (w_offsets st) (w_labels st) (of_nat (w_len st));
          let st = st\<lparr>w_offsets := os, w_labels := w_labels st + 1,
                      w_len := w_len st + (unat label_len + 1),
                      w_cursor := w_cursor st + 1 + unat label_len\<rparr>;
          if w_len st > name_max
          then Some (if name_max = DNS_NAME_MAXWIRE then DNS_R_NAMETOOLONG else ISC_R_NOSPACE, st)
          else if label_len = 0 then Some (ISC_R_SUCCESS, st)
          else fromwire_loop src source_max name_max permitted name_buf st
        }
        else if unat label_len < 192 then Some (DNS_R_BADLABELTYPE, st)
        else if \<not> permitted then Some (DNS_R_DISALLOWED, st)
        else if w_cursor st + 1 < source_max then do {
          let hi = unat (label_len AND 0x3f);
          lo \<leftarrow> peek src (w_cursor st + 1);
          let pointer = 256 * hi + unat lo;
          if pointer \<ge> w_marker st then Some (DNS_R_BADPOINTER, st)
          else do {
            let copy_len = w_cursor st - w_marker st;
            v \<leftarrow> fetch src (w_marker st) copy_len;
            m \<leftarrow> blit (w_mem st) (name_buf + w_len st - copy_len) v;
            fromwire_loop src source_max name_max permitted name_buf
              (st\<lparr>w_mem := m, w_consumed := set_consumed (w_consumed st) (w_cursor st + 2),
                  w_cursor := pointer, w_marker := pointer\<rparr>)
          }
        }
        else fromwire_loop src source_max name_max permitted name_buf
               (st\<lparr>w_cursor := w_cursor st + 1\<rparr>)
      }
      else Some (ISC_R_UNEXPECTEDEND, st))"
  by pat_completeness auto
termination
  by (relation "measures [\<lambda>(src, smax, nmax, p, nbuf, st). w_marker st,
        \<lambda>(src, smax, nmax, p, nbuf, st). smax - w_cursor st]") auto

declare fromwire_loop.simps [simp del]

definition dns_name_fromwire ::
  "dns_name \<Rightarrow> isc_buffer \<Rightarrow> dns_decompress \<Rightarrow> isc_buffer option \<Rightarrow>
   (isc_result \<times> dns_name \<times> isc_buffer \<times> isc_buffer option) option" where
  "dns_name_fromwire name source dctx target = do {
     REQUIRE (VALID_NAME name);
     REQUIRE (BINDABLE name);
     t \<leftarrow> pick_target name target;
     let name_buf = b_used t;
     let name_max = min DNS_NAME_MAXWIRE (isc_buffer_availablelength t);
     let name = MAKE_EMPTY name;
     let os = (case offsets name of Some os \<Rightarrow> os | None \<Rightarrow> odata);
     let start = b_current source;
     (result, st) \<leftarrow> fromwire_loop (b_base source) (b_used source) name_max
        (dns_decompress_getpermitted dctx) name_buf
        \<lparr>w_mem = b_base t, w_offsets = os, w_labels = 0, w_len = 0, w_marker = start,
         w_cursor = start, w_consumed = None\<rparr>;
     let name = (if offsets name = None then name else name\<lparr>offsets := Some (w_offsets st)\<rparr>);
     if result \<noteq> ISC_R_SUCCESS
     then let (name, target) = put_target name target (t\<lparr>b_base := w_mem st\<rparr>)
          in Some (result, name, source, target)
     else do {
       let copy_len = w_cursor st - w_marker st;
       v \<leftarrow> fetch (b_base source) (w_marker st) copy_len;
       m \<leftarrow> blit (w_mem st) (name_buf + w_len st - copy_len) v;
       let cd = (case w_consumed st of Some c \<Rightarrow> c | None \<Rightarrow> w_cursor st);
       source \<leftarrow> isc_buffer_forward source (cd - start);
       let name = (set_absolute True name)\<lparr>ndata := drop name_buf m, n_length := w_len st,
                                           labels := w_labels st\<rparr>;
       t \<leftarrow> isc_buffer_add (t\<lparr>b_base := m\<rparr>) (w_len st);
       let (name, target) = put_target name target t
       in Some (ISC_R_SUCCESS, name, source, target)
     }
   }"

section \<open>What the octets of a message spell\<close>

text \<open>
  \<open>dn lo src smax marker p ls e\<close>: from position \<open>p\<close> of the message the labels \<open>ls\<close> are spelled,
  in a segment that started at \<open>marker\<close> and whose own octets end before \<open>e\<close>.  A pointer goes to a
  position below \<open>marker\<close> and not below \<open>lo\<close>.
\<close>

inductive dn :: "nat \<Rightarrow> bytes \<Rightarrow> nat \<Rightarrow> nat \<Rightarrow> nat \<Rightarrow> bytes list \<Rightarrow> nat \<Rightarrow> bool"
  for lo :: nat and src :: bytes and smax :: nat where
  dn_root: "p < smax \<Longrightarrow> src ! p = 0 \<Longrightarrow> dn lo src smax marker p [[]] (p + 1)"
| dn_label: "p < smax \<Longrightarrow> n = unat (src ! p) \<Longrightarrow> 0 < n \<Longrightarrow> n \<le> 63 \<Longrightarrow>
    dn lo src smax marker (p + 1 + n) ls e \<Longrightarrow>
    dn lo src smax marker p (take n (drop (p + 1) src) # ls) e"
| dn_pointer: "p + 1 < smax \<Longrightarrow> unat (src ! p) \<ge> 192 \<Longrightarrow>
    q = 256 * unat (src ! p AND 0x3f) + unat (src ! (p + 1)) \<Longrightarrow> q < marker \<Longrightarrow> lo \<le> q \<Longrightarrow>
    dn lo src smax q q ls e \<Longrightarrow> dn lo src smax marker p ls (p + 2)"

lemma dn_bounds: "dn lo src smax marker p ls e \<Longrightarrow> p < e \<and> e \<le> smax"
  by (induction rule: dn.induct) auto

lemma dn_nonempty: "dn lo src smax marker p ls e \<Longrightarrow> ls \<noteq> []"
  by (induction rule: dn.induct) auto

lemma dn_labels:
  assumes "dn lo src smax marker p ls e" "smax \<le> length src"
  shows "rooted ls" "\<forall>l\<in>set ls. length l \<le> 63" "\<forall>l\<in>set (butlast ls). l \<noteq> []"
proof -
  have "rooted ls \<and> (\<forall>l\<in>set ls. length l \<le> 63) \<and> (\<forall>l\<in>set (butlast ls). l \<noteq> [])"
    using assms
  proof (induction rule: dn.induct)
    case (dn_label p n marker ls e)
    from dn_bounds [OF dn_label.hyps(5)] dn_label.prems
    have "length (take n (drop (p + 1) src)) = n" by (auto simp: min_def)
    with dn_label show ?case by (auto simp: rooted_def)
  qed (auto simp: rooted_def)
  then show "rooted ls" "\<forall>l\<in>set ls. length l \<le> 63" "\<forall>l\<in>set (butlast ls). l \<noteq> []" by auto
qed

lemma dn_labels_ok:
  "dn lo src smax marker p ls e \<Longrightarrow> smax \<le> length src \<Longrightarrow> length (wire ls) \<le> 255 \<Longrightarrow> labels_ok ls"
  using dn_labels by (simp add: labels_ok_def)

inductive_cases dn_E: "dn lo src smax marker p ls e"

lemma dn_det:
  "dn lo src smax m p ls e \<Longrightarrow> dn lo' src smax m' p ls' e' \<Longrightarrow> ls = ls' \<and> e = e'"
proof (induction arbitrary: lo' m' ls' e' rule: dn.induct)
  case (dn_root p marker)
  from dn_root.prems dn_root.hyps show ?case by (cases rule: dn.cases) auto
next
  case (dn_label p n marker ls e)
  from dn_label.prems dn_label.hyps(2-4) dn_label.IH show ?case
    by (cases rule: dn.cases) auto
next
  case (dn_pointer p q marker ls e)
  from dn_pointer.prems dn_pointer.hyps(2,3) dn_pointer.IH show ?case
    by (cases rule: dn.cases) auto
qed

lemma segment_agree:
  assumes "take smax src' = take smax src" "k + n \<le> smax"
  shows "take n (drop k src') = take n (drop k src)"
proof -
  have "take n (drop k xs) = take n (drop k (take smax xs))" for xs :: "'a list"
    using assms(2) by (simp add: drop_take min_def)
  with assms(1) show ?thesis by metis
qed

lemma nth_agree: "take smax src' = take smax src \<Longrightarrow> i < smax \<Longrightarrow> src' ! i = src ! i"
  by (metis nth_take)

lemma dn_mono:
  assumes "dn lo src smax m p ls e" "smax \<le> smax'" "take smax src' = take smax src" "m \<le> m'" "lo' \<le> lo"
  shows "dn lo' src' smax' m' p ls e"
  using assms
proof (induction arbitrary: m' rule: dn.induct)
  case (dn_root p marker)
  then show ?case using nth_agree [of smax src' src p] by (intro dn.dn_root) auto
next
  case (dn_label p n marker ls e)
  have b: "p + 1 + n \<le> smax" using dn_bounds [OF dn_label.hyps(5)] by simp
  have "dn lo' src' smax' m' p (take n (drop (p + 1) src') # ls) e"
    using dn_label b nth_agree [of smax src' src p] by (intro dn.dn_label) auto
  then show ?case using segment_agree [OF dn_label.prems(2), of "p + 1" n] b by simp
next
  case (dn_pointer p q marker ls e)
  then show ?case
    using nth_agree [of smax src' src p] nth_agree [of smax src' src "p + 1"]
    by (intro dn.dn_pointer [of p smax' src' q m' lo' ls e]) auto
qed

section \<open>The loop\<close>

text \<open>
  The loop invariant: \<open>ds\<close> are the labels read so far, of which the last octets are still to be
  copied from \<open>w_marker\<close> onwards.
\<close>

definition fw_inv :: "bytes \<Rightarrow> nat \<Rightarrow> nat \<Rightarrow> nat \<Rightarrow> fw_state \<Rightarrow> bytes list \<Rightarrow> bool" where
  "fw_inv src smax nmax nbuf st ds \<longleftrightarrow>
     w_labels st = length ds \<and> w_len st = length (wire ds) \<and> w_len st \<le> nmax \<and> nmax \<le> 255 \<and>
     w_marker st \<le> w_cursor st \<and> w_cursor st \<le> smax \<and> smax \<le> length src \<and>
     w_cursor st - w_marker st \<le> w_len st \<and> nbuf + nmax \<le> length (w_mem st) \<and>
     take (w_len st - (w_cursor st - w_marker st)) (drop nbuf (w_mem st)) =
       take (w_len st - (w_cursor st - w_marker st)) (wire ds) \<and>
     take (w_cursor st - w_marker st) (drop (w_marker st) src) =
       drop (w_len st - (w_cursor st - w_marker st)) (wire ds) \<and>
     128 \<le> length (w_offsets st) \<and> (\<forall>i<length ds. unat (w_offsets st ! i) = label_off ds i)"

abbreviation nonroot :: "bytes list \<Rightarrow> bool" where
  "nonroot ds \<equiv> (\<forall>l\<in>set ds. l \<noteq> [])"

lemma label_off_append: "i < length ds \<Longrightarrow> label_off (ds @ ls) i = label_off ds i"
  by (simp add: label_off_def)

lemma take_inside: "k \<le> length xs \<Longrightarrow> take k (xs @ ys) = take k xs"
  by simp

text \<open>Reading one label that lies inside the source.\<close>

lemma fw_inv_label:
  assumes I: "fw_inv src smax nmax nbuf st ds" and nr: "nonroot ds"
    and p: "w_cursor st < smax" and n: "n = unat (src ! w_cursor st)" "n \<le> 63"
    and b: "w_cursor st + 1 + n \<le> smax" and len: "w_len st + (n + 1) \<le> nmax"
  shows "fw_inv src smax nmax nbuf
     (st\<lparr>w_offsets := (w_offsets st)[w_labels st := of_nat (w_len st)], w_labels := w_labels st + 1,
         w_len := w_len st + (n + 1), w_cursor := w_cursor st + 1 + n\<rparr>)
     (ds @ [take n (drop (w_cursor st + 1) src)])"
proof -
  let ?c = "w_cursor st" and ?mk = "w_marker st" and ?L = "w_len st"
  let ?l = "take n (drop (?c + 1) src)"
  note I' = I [unfolded fw_inv_def]
  have l: "length ?l = n" using b I' by (auto simp: min_def)
  have w: "wire (ds @ [?l]) = wire ds @ src ! ?c # ?l" using l n by simp
  have lw: "length (wire (ds @ [?l])) = ?L + (n + 1)" using w l I' by simp
  have cur: "?c + 1 + n - ?mk = (?c - ?mk) + (n + 1)" using I' by auto
  have keep: "?L + (n + 1) - (?c + 1 + n - ?mk) = ?L - (?c - ?mk)" using I' by simp
  have D: "?c + 1 + n - ?mk \<le> ?L + (n + 1)" using I' by auto
  have seg: "take (n + 1) (drop ?c src) = src ! ?c # ?l"
    using p I' by (simp add: Cons_nth_drop_Suc [symmetric])
  have "take (?c + 1 + n - ?mk) (drop ?mk src) = take (?c - ?mk) (drop ?mk src) @ take (n + 1) (drop ?c src)"
    unfolding cur take_add using I' by simp
  also have "\<dots> = drop (?L - (?c - ?mk)) (wire (ds @ [?l]))"
    unfolding w seg using I' by simp
  finally have T: "take (?c + 1 + n - ?mk) (drop ?mk src) = drop (?L - (?c - ?mk)) (wire (ds @ [?l]))" .
  have le: "?L - (?c - ?mk) \<le> length (wire ds)" using I' by auto
  have "take (?L - (?c - ?mk)) (drop nbuf (w_mem st)) = take (?L - (?c - ?mk)) (wire ds)"
    using I' by blast
  also have "\<dots> = take (?L - (?c - ?mk)) (wire ds @ src ! ?c # ?l)"
    by (rule take_inside [OF le, symmetric])
  finally have M: "take (?L - (?c - ?mk)) (drop nbuf (w_mem st)) = take (?L - (?c - ?mk)) (wire (ds @ [?l]))"
    unfolding w .
  have two: "2 * length ds \<le> length (wire ds)" using nr by (intro wire_two_per_label) auto
  then have room: "length ds < 128" using I' len by simp
  have O: "unat ((w_offsets st)[w_labels st := of_nat ?L] ! i) = label_off (ds @ [?l]) i"
    if "i < length (ds @ [?l])" for i
  proof (cases "i < length ds")
    case True
    then show ?thesis using I' by (simp add: label_off_append)
  next
    case False
    then have "i = length ds" using that by simp
    then show ?thesis using I' room len by (simp add: label_off_def)
  qed
  show ?thesis
    unfolding fw_inv_def using I' lw len b T M O keep D by simp
qed


text \<open>Copying what is pending, and following a pointer.\<close>

lemma fw_copy:
  assumes I: "fw_inv src smax nmax nbuf st ds"
  shows "\<exists>m. fetch src (w_marker st) (w_cursor st - w_marker st) =
       Some (take (w_cursor st - w_marker st) (drop (w_marker st) src)) \<and>
     blit (w_mem st) (nbuf + w_len st - (w_cursor st - w_marker st))
       (take (w_cursor st - w_marker st) (drop (w_marker st) src)) = Some m \<and>
     take nbuf m = take nbuf (w_mem st) \<and> length m = length (w_mem st) \<and>
     take (w_len st) (drop nbuf m) = wire ds"
proof -
  note I' = I [unfolded fw_inv_def]
  let ?k = "w_cursor st - w_marker st" and ?L = "w_len st"
  let ?v = "take ?k (drop (w_marker st) src)"
  have f: "fetch src (w_marker st) ?k = Some ?v" using I' by auto
  have v: "length ?v = ?k" "?v = drop (?L - ?k) (wire ds)" using I' by (auto simp: min_def)
  let ?at = "nbuf + ?L - ?k"
  have at: "?at = nbuf + (?L - ?k)" using I' by auto
  have fits: "?at + length ?v \<le> length (w_mem st)" using I' v by auto
  then obtain m where m: "blit (w_mem st) ?at ?v = Some m" by (simp add: blit_def)
  have tm: "take (nbuf + ?L) m = take ?at (w_mem st) @ ?v"
    using take_blit_end [OF m] v at I' by (simp add: add.assoc)
  have tn: "take nbuf m = take nbuf (w_mem st)"
    using arg_cong [OF take_blit [OF m], of "take nbuf"] at by (simp add: min_def)
  have "take ?L (drop nbuf m) = drop nbuf (take (nbuf + ?L) m)"
    by (simp add: drop_take)
  also have "\<dots> = take (?L - ?k) (drop nbuf (w_mem st)) @ ?v"
    unfolding tm using at I' fits by (simp add: drop_take)
  also have "\<dots> = take (?L - ?k) (wire ds) @ drop (?L - ?k) (wire ds)" using I' v(2) by metis
  also have "\<dots> = wire ds" by simp
  finally have w: "take ?L (drop nbuf m) = wire ds" .
  have lm: "length m = length (w_mem st)" by (rule length_blit [OF m])
  with f m tn w show ?thesis by blast
qed

lemma fw_inv_pointer:
  assumes I: "fw_inv src smax nmax nbuf st ds" and q: "q < w_marker st"
    and m: "length m = length (w_mem st)" "take (w_len st) (drop nbuf m) = wire ds"
  shows "fw_inv src smax nmax nbuf (st\<lparr>w_mem := m, w_consumed := cd, w_cursor := q, w_marker := q\<rparr>) ds"
  using I q m by (auto simp: fw_inv_def)

text \<open>
  The loop returns, writes only the room it was given, and succeeds only on octets that spell a
  name.
\<close>

definition fw_done :: "bytes \<Rightarrow> nat \<Rightarrow> nat \<Rightarrow> nat \<Rightarrow> fw_state \<Rightarrow> bytes list \<Rightarrow> fw_state \<Rightarrow> bytes list \<Rightarrow> nat \<Rightarrow> bool"
where
  "fw_done src smax nmax nbuf st ds st' ls e \<longleftrightarrow>
     dn 0 src smax (w_marker st) (w_cursor st) ls e \<and>
     fw_inv src smax nmax nbuf st' (ds @ ls) \<and>
     (case w_consumed st' of Some c \<Rightarrow> c | None \<Rightarrow> w_cursor st') =
     (case w_consumed st of Some c \<Rightarrow> c | None \<Rightarrow> e)"

lemma unat_0_iff: "unat (x :: u8) = 0 \<longleftrightarrow> x = 0"
  by (simp add: unat_eq_0)

abbreviation fw_read :: "bytes \<Rightarrow> fw_state \<Rightarrow> fw_state" where
  "fw_read src st \<equiv> st\<lparr>w_offsets := (w_offsets st)[w_labels st := of_nat (w_len st)],
     w_labels := w_labels st + 1, w_len := w_len st + (unat (src ! w_cursor st) + 1),
     w_cursor := w_cursor st + 1 + unat (src ! w_cursor st)\<rparr>"

abbreviation fw_ptr :: "bytes \<Rightarrow> fw_state \<Rightarrow> nat" where
  "fw_ptr src st \<equiv> 256 * unat (src ! w_cursor st AND 0x3f) + unat (src ! (w_cursor st + 1))"

abbreviation fw_jump :: "bytes \<Rightarrow> bytes \<Rightarrow> fw_state \<Rightarrow> fw_state" where
  "fw_jump src m st \<equiv> st\<lparr>w_mem := m, w_consumed := set_consumed (w_consumed st) (w_cursor st + 2),
     w_cursor := fw_ptr src st, w_marker := fw_ptr src st\<rparr>"

lemma fw_step_label:
  assumes I: "fw_inv src smax nmax nbuf st ds" and nr: "nonroot ds"
    and c: "w_cursor st < smax" and n: "unat (src ! w_cursor st) \<le> 63"
  shows "fromwire_loop src smax nmax perm nbuf st =
     (if w_len st + (unat (src ! w_cursor st) + 1) > nmax
      then Some (if nmax = 255 then DNS_R_NAMETOOLONG else ISC_R_NOSPACE, fw_read src st)
      else if src ! w_cursor st = 0 then Some (ISC_R_SUCCESS, fw_read src st)
      else fromwire_loop src smax nmax perm nbuf (fw_read src st))"
proof -
  note I' = I [unfolded fw_inv_def]
  have pk: "peek src (w_cursor st) = Some (src ! w_cursor st)" using c I' by auto
  have "2 * length ds \<le> length (wire ds)" using nr by (intro wire_two_per_label) auto
  then have pok: "poke (w_offsets st) (w_labels st) (of_nat (w_len st)) =
      Some ((w_offsets st)[w_labels st := of_nat (w_len st)])" using I' by simp
  show ?thesis using c n by (subst fromwire_loop.simps) (simp add: pk pok)
qed

lemma fw_step_pointer:
  assumes I: "fw_inv src smax nmax nbuf st ds"
    and c: "w_cursor st < smax" and n: "192 \<le> unat (src ! w_cursor st)"
  shows "\<exists>m. length m = length (w_mem st) \<and> take nbuf m = take nbuf (w_mem st) \<and>
     (fw_ptr src st < w_marker st \<longrightarrow> fw_inv src smax nmax nbuf (fw_jump src m st) ds) \<and>
     fromwire_loop src smax nmax perm nbuf st =
     (if \<not> perm then Some (DNS_R_DISALLOWED, st)
      else if \<not> w_cursor st + 1 < smax then Some (ISC_R_UNEXPECTEDEND, st\<lparr>w_cursor := w_cursor st + 1\<rparr>)
      else if fw_ptr src st \<ge> w_marker st then Some (DNS_R_BADPOINTER, st)
      else fromwire_loop src smax nmax perm nbuf (fw_jump src m st))"
proof -
  note I' = I [unfolded fw_inv_def]
  have pk: "peek src (w_cursor st) = Some (src ! w_cursor st)" using c I' by auto
  have pk2: "w_cursor st + 1 < smax \<Longrightarrow> peek src (w_cursor st + 1) = Some (src ! (w_cursor st + 1))"
    using I' by auto
  have nn: "\<not> unat (src ! w_cursor st) \<le> 63" "\<not> unat (src ! w_cursor st) < 192" using n by auto
  show ?thesis
  proof (cases "fw_ptr src st < w_marker st")
    case True
    from fw_copy [OF I] obtain m where m:
      "fetch src (w_marker st) (w_cursor st - w_marker st) =
         Some (take (w_cursor st - w_marker st) (drop (w_marker st) src))"
      "blit (w_mem st) (nbuf + w_len st - (w_cursor st - w_marker st))
         (take (w_cursor st - w_marker st) (drop (w_marker st) src)) = Some m"
      "take nbuf m = take nbuf (w_mem st)" "length m = length (w_mem st)"
      "take (w_len st) (drop nbuf m) = wire ds" by blast
    note J = fw_inv_pointer [OF I True m(4,5)]
    show ?thesis
    proof (cases "w_cursor st + 1 < smax")
      case ok: True
      show ?thesis
        using c nn ok True m J
        by (intro exI [of _ m], subst (1) fromwire_loop.simps) (simp add: pk pk2 [OF ok, simplified] Let_def)
    next
      case short: False
      have e: "fromwire_loop src smax nmax perm nbuf (st\<lparr>w_cursor := w_cursor st + 1\<rparr>) =
          Some (ISC_R_UNEXPECTEDEND, st\<lparr>w_cursor := w_cursor st + 1\<rparr>)" for perm
        using short by (subst fromwire_loop.simps) simp
      show ?thesis
        using c nn short m e J
        by (intro exI [of _ m], subst (1) fromwire_loop.simps) (simp add: pk)
    qed
  next
    case False
    have e: "fromwire_loop src smax nmax perm nbuf (st\<lparr>w_cursor := w_cursor st + 1\<rparr>) =
        Some (ISC_R_UNEXPECTEDEND, st\<lparr>w_cursor := w_cursor st + 1\<rparr>)" if "\<not> w_cursor st + 1 < smax" for perm
      using that by (subst fromwire_loop.simps) simp
    show ?thesis
      using c nn False e pk2
      by (intro exI [of _ "w_mem st"], subst (1) fromwire_loop.simps) (auto simp: pk Let_def)
  qed
qed


lemma fromwire_loop_sound:
  assumes "fw_inv src smax nmax nbuf st ds" "nonroot ds"
  shows "\<exists>r st'. fromwire_loop src smax nmax perm nbuf st = Some (r, st') \<and>
     length (w_mem st') = length (w_mem st) \<and> take nbuf (w_mem st') = take nbuf (w_mem st) \<and>
     length (w_offsets st') = length (w_offsets st) \<and>
     (r = ISC_R_SUCCESS \<longrightarrow> (\<exists>ls e. fw_done src smax nmax nbuf st ds st' ls e))"
  using assms
proof (induction "(w_marker st, smax - w_cursor st)" arbitrary: st ds
    rule: wf_induct_rule [OF wf_lex_prod [OF wf_less wf_less]])
  case (1 st ds)
  note I = "1.prems"(1) and I' = "1.prems"(1) [unfolded fw_inv_def]
  let ?c = "w_cursor st" and ?n = "unat (src ! w_cursor st)"
  let ?goal = "\<lambda>st''. \<exists>r st'. fromwire_loop src smax nmax perm nbuf st'' = Some (r, st') \<and>
     length (w_mem st') = length (w_mem st) \<and> take nbuf (w_mem st') = take nbuf (w_mem st) \<and>
     length (w_offsets st') = length (w_offsets st) \<and>
     (r = ISC_R_SUCCESS \<longrightarrow> (\<exists>ls e. fw_done src smax nmax nbuf st ds st' ls e))"
  consider (out) "\<not> ?c < smax" | (label) "?c < smax" "?n \<le> 63" | (bad) "?c < smax" "63 < ?n" "?n < 192"
    | (ptr) "?c < smax" "192 \<le> ?n" by linarith
  then show ?case
  proof cases
    case out
    then show ?thesis by (subst fromwire_loop.simps) simp
  next
    case bad
    then show ?thesis using I' by (subst fromwire_loop.simps) auto
  next
    case label
    note step = fw_step_label [OF I "1.prems"(2) label, of perm]
    show ?thesis
    proof (cases "w_len st + (?n + 1) > nmax")
      case True
      then show ?thesis unfolding step by simp
    next
      case len: False
      show ?thesis
      proof (cases "?c + 1 + ?n \<le> smax")
        case False
        then have "src ! ?c \<noteq> 0" using label by auto
        moreover have "fromwire_loop src smax nmax perm nbuf (fw_read src st) =
            Some (ISC_R_UNEXPECTEDEND, fw_read src st)"
          using False by (subst fromwire_loop.simps) simp
        ultimately show ?thesis unfolding step using len by simp
      next
        case b: True
        let ?l = "take ?n (drop (?c + 1) src)"
        have inv: "fw_inv src smax nmax nbuf (fw_read src st) (ds @ [?l])"
          using fw_inv_label [OF I "1.prems"(2) label(1) refl label(2) b] len by simp
        show ?thesis
        proof (cases "src ! ?c = 0")
          case True
          then have "fw_done src smax nmax nbuf st ds (fw_read src st) [[]] (?c + 1)"
            using inv label dn_root [of ?c smax src 0 "w_marker st"]
            by (auto simp: fw_done_def split: option.splits)
          then show ?thesis unfolding step using len True by auto
        next
          case False
          have "length ?l = ?n" "0 < ?n" using b I' False by (auto simp: min_def unat_gt_0)
          then have l: "?l \<noteq> []" by auto
          have "\<exists>r st'. fromwire_loop src smax nmax perm nbuf (fw_read src st) = Some (r, st') \<and>
              length (w_mem st') = length (w_mem st) \<and> take nbuf (w_mem st') = take nbuf (w_mem st) \<and>
              length (w_offsets st') = length (w_offsets st) \<and>
              (r = ISC_R_SUCCESS \<longrightarrow> (\<exists>ls e. fw_done src smax nmax nbuf (fw_read src st) (ds @ [?l]) st' ls e))"
            using "1.hyps" [of "fw_read src st" "ds @ [?l]"] inv "1.prems"(2) l label(1) by auto
          moreover have "fw_done src smax nmax nbuf st ds st' (?l # ls) e"
            if "fw_done src smax nmax nbuf (fw_read src st) (ds @ [?l]) st' ls e" for st' ls e
            using that False label dn_label [of ?c smax ?n src 0 "w_marker st" ls e]
            by (simp add: fw_done_def unat_gt_0)
          ultimately show ?thesis unfolding step using len False by (metis (no_types, lifting))
        qed
      qed
    qed
  next
    case ptr
    from fw_step_pointer [OF I ptr, of perm] obtain m where
      m: "length m = length (w_mem st)" "take nbuf m = take nbuf (w_mem st)"
        "fw_ptr src st < w_marker st \<Longrightarrow> fw_inv src smax nmax nbuf (fw_jump src m st) ds"
      and step: "fromwire_loop src smax nmax perm nbuf st =
     (if \<not> perm then Some (DNS_R_DISALLOWED, st)
      else if \<not> w_cursor st + 1 < smax then Some (ISC_R_UNEXPECTEDEND, st\<lparr>w_cursor := w_cursor st + 1\<rparr>)
      else if fw_ptr src st \<ge> w_marker st then Some (DNS_R_BADPOINTER, st)
      else fromwire_loop src smax nmax perm nbuf (fw_jump src m st))" by blast
    show ?thesis
    proof (cases "perm \<and> ?c + 1 < smax \<and> fw_ptr src st < w_marker st")
      case False
      then show ?thesis unfolding step by auto
    next
      case True
      have "\<exists>r st'. fromwire_loop src smax nmax perm nbuf (fw_jump src m st) = Some (r, st') \<and>
              length (w_mem st') = length (w_mem st) \<and> take nbuf (w_mem st') = take nbuf (w_mem st) \<and>
              length (w_offsets st') = length (w_offsets st) \<and>
              (r = ISC_R_SUCCESS \<longrightarrow> (\<exists>ls e. fw_done src smax nmax nbuf (fw_jump src m st) ds st' ls e))"
        using "1.hyps" [of "fw_jump src m st" ds] m True "1.prems"(2) by auto
      moreover have "fw_done src smax nmax nbuf st ds st' ls (?c + 2)"
        if "fw_done src smax nmax nbuf (fw_jump src m st) ds st' ls e" for st' ls e
        using that True ptr dn_pointer [of ?c smax src "fw_ptr src st" "w_marker st" 0 ls e]
        by (auto simp: fw_done_def set_consumed_def split: option.splits)
      ultimately show ?thesis unfolding step using True by (metis (no_types, lifting) not_le)
    qed
  qed
qed


lemma fromwire_loop_complete:
  assumes "dn 0 src smax (w_marker st) (w_cursor st) ls e" "fw_inv src smax nmax nbuf st ds" "nonroot ds"
  shows "\<exists>st'. fromwire_loop src smax nmax True nbuf st =
     Some (if length (wire (ds @ ls)) \<le> nmax then ISC_R_SUCCESS
           else if nmax = 255 then DNS_R_NAMETOOLONG else ISC_R_NOSPACE, st')"
  using assms
proof (induction "w_marker st" "w_cursor st" ls e arbitrary: st ds rule: dn.induct)
  case dn_root
  have "w_len st = length (wire ds)" using dn_root by (simp add: fw_inv_def)
  then show ?case
    using dn_root fw_step_label [OF dn_root(3,4,1), of True] by auto
next
  case (dn_label n ls e)
  let ?c = "w_cursor st"
  note I = \<open>fw_inv src smax nmax nbuf st ds\<close>
  note I' = I [unfolded fw_inv_def]
  have b: "?c + 1 + n \<le> smax" using dn_bounds [OF dn_label.hyps(5)] by simp
  let ?l = "take n (drop (?c + 1) src)"
  have l: "length ?l = n" using b I' by (auto simp: min_def)
  have nz: "src ! ?c \<noteq> 0" using dn_label.hyps(2,3) by auto
  note step = fw_step_label [OF I dn_label.prems(2) dn_label.hyps(1), of True]
  have tot: "length (wire (ds @ ?l # ls)) = w_len st + (n + 1) + length (wire ls)" using l I' by simp
  show ?case
  proof (cases "w_len st + (n + 1) > nmax")
    case True
    then show ?thesis using step tot dn_label.hyps(2,4) by auto
  next
    case False
    have inv: "fw_inv src smax nmax nbuf (fw_read src st) (ds @ [?l])"
      using fw_inv_label [OF I dn_label.prems(2) dn_label.hyps(1,2,4) b] False dn_label.hyps(2) by simp
    have "?l \<noteq> []" using l dn_label.hyps(3) by auto
    then have nr: "nonroot (ds @ [?l])" using dn_label.prems(2) by auto
    show ?thesis
      using dn_label.hyps(6) [of "fw_read src st", OF _ _ inv nr] step False nz dn_label.hyps(2,4) by auto
  qed
next
  case (dn_pointer q ls e)
  let ?c = "w_cursor st"
  note I = \<open>fw_inv src smax nmax nbuf st ds\<close>
  have c: "?c < smax" using dn_pointer.hyps(1) by simp
  from fw_step_pointer [OF I c dn_pointer.hyps(2), of True] obtain m where
      m: "fw_ptr src st < w_marker st \<Longrightarrow> fw_inv src smax nmax nbuf (fw_jump src m st) ds"
      and step: "fromwire_loop src smax nmax True nbuf st =
     (if \<not> True then Some (DNS_R_DISALLOWED, st)
      else if \<not> w_cursor st + 1 < smax then Some (ISC_R_UNEXPECTEDEND, st\<lparr>w_cursor := w_cursor st + 1\<rparr>)
      else if fw_ptr src st \<ge> w_marker st then Some (DNS_R_BADPOINTER, st)
      else fromwire_loop src smax nmax True nbuf (fw_jump src m st))" by blast
  show ?case
    using dn_pointer.hyps(7) [of "fw_jump src m st" ds] m dn_pointer.hyps(1,3,4) dn_pointer.prems(2) step
    by auto
qed

section \<open>The whole function\<close>

text \<open>A message being read: a well-formed source buffer.\<close>

definition fw_start :: "dns_name \<Rightarrow> isc_buffer \<Rightarrow> isc_buffer \<Rightarrow> fw_state" where
  "fw_start name source t =
     \<lparr>w_mem = b_base t, w_offsets = (case offsets name of Some os \<Rightarrow> os | None \<Rightarrow> odata),
      w_labels = 0, w_len = 0, w_marker = b_current source, w_cursor = b_current source,
      w_consumed = None\<rparr>"

lemma fw_start_inv:
  assumes "name_target n" "buf_ok source" "buf_ok t"
  shows "fw_inv (b_base source) (b_used source) (min 255 (buf_room t)) (b_used t) (fw_start n source t) []"
  using assms buf_okD [OF assms(2)] buf_okD [OF assms(3)]
  by (auto simp: fw_inv_def fw_start_def name_target_def table_room_def odata_def buf_room_def
      split: option.splits)

text \<open>The end of a successful run: the last copy, the source advanced, the name set.\<close>

lemma fromwire_finish:
  assumes n: "name_target n" and s: "buf_ok source" and t: "buf_ok t"
    and d: "fw_done (b_base source) (b_used source) (min 255 (buf_room t)) (b_used t)
              (fw_start n source t) [] st ls e"
    and mem: "length (w_mem st) = length (b_base t)" "take (b_used t) (w_mem st) = take (b_used t) (b_base t)"
    and off: "length (w_offsets st) = length (w_offsets (fw_start n source t))"
  shows "\<exists>v m t'. fetch (b_base source) (w_marker st) (w_cursor st - w_marker st) = Some v \<and>
     blit (w_mem st) (b_used t + w_len st - (w_cursor st - w_marker st)) v = Some m \<and>
     isc_buffer_forward source ((case w_consumed st of Some c \<Rightarrow> c | None \<Rightarrow> w_cursor st) - b_current source) =
       Some (source\<lparr>b_current := e\<rparr>) \<and>
     isc_buffer_add (t\<lparr>b_base := m\<rparr>) (w_len st) = Some t' \<and> appended t (wire ls) t' \<and>
     name_is ((set_absolute True (if offsets (MAKE_EMPTY n) = None then MAKE_EMPTY n
        else (MAKE_EMPTY n)\<lparr>offsets := Some (w_offsets st)\<rparr>))\<lparr>ndata := drop (b_used t) m,
          n_length := w_len st, labels := w_labels st\<rparr>) ls"
proof -
  let ?st0 = "fw_start n source t" and ?R = "min 255 (buf_room t)"
  note S = buf_okD [OF s] and T = buf_okD [OF t]
  have dn: "dn 0 (b_base source) (b_used source) (b_current source) (b_current source) ls e"
    and I: "fw_inv (b_base source) (b_used source) ?R (b_used t) st ls"
    and e: "(case w_consumed st of Some c \<Rightarrow> c | None \<Rightarrow> w_cursor st) = e"
    using d by (auto simp: fw_done_def fw_start_def)
  note I' = I [unfolded fw_inv_def]
  have eb: "b_current source < e" "e \<le> b_used source" using dn_bounds [OF dn] by auto
  have ok: "labels_ok ls" using dn_labels_ok [OF dn] S I' by auto
  have root: "rooted ls" using dn_labels(1) [OF dn] S by simp
  from fw_copy [OF I] obtain m where m:
    "fetch (b_base source) (w_marker st) (w_cursor st - w_marker st) =
       Some (take (w_cursor st - w_marker st) (drop (w_marker st) (b_base source)))"
    "blit (w_mem st) (b_used t + w_len st - (w_cursor st - w_marker st))
       (take (w_cursor st - w_marker st) (drop (w_marker st) (b_base source))) = Some m"
    "take (b_used t) m = take (b_used t) (w_mem st)" "length m = length (w_mem st)"
    "take (w_len st) (drop (b_used t) m) = wire ls" by blast
  have fwd: "isc_buffer_forward source (e - b_current source) = Some (source\<lparr>b_current := e\<rparr>)"
    using isc_buffer_forward_ok [OF s, of "e - b_current source"] eb S
    by (simp add: buf_remaining_def buf_content_def)
  let ?t = "t\<lparr>b_base := m, b_used := b_used t + w_len st\<rparr>"
  have L: "w_len st \<le> buf_room t" "w_len st = length (wire ls)" using I' by auto
  have lm: "length m = b_length t" using m(4) mem(1) T by simp
  have add: "isc_buffer_add (t\<lparr>b_base := m\<rparr>) (w_len st) = Some ?t"
    using isc_buffer_add_ok [of "t\<lparr>b_base := m\<rparr>" "w_len st"] L lm T
    by (simp add: buf_ok_def ISC_BUFFER_VALID_def buf_room_def)
  have cont: "take (b_used t + w_len st) m = take (b_used t) (b_base t) @ wire ls"
    using m(3,5) mem(2) by (simp add: take_add)
  have "buf_ok ?t" using T L lm by (simp add: buf_ok_def ISC_BUFFER_VALID_def buf_room_def)
  then have app: "appended t (wire ls) ?t"
    using cont T by (simp add: appended_def buf_content_def buf_remaining_def)
  let ?n = "(set_absolute True (if offsets (MAKE_EMPTY n) = None then MAKE_EMPTY n
        else (MAKE_EMPTY n)\<lparr>offsets := Some (w_offsets st)\<rparr>))\<lparr>ndata := drop (b_used t) m,
          n_length := w_len st, labels := w_labels st\<rparr>"
  have tab: "table_is (w_offsets st) ls"
    using I' labels_ok_count [OF ok] by (auto simp: table_is_def)
  have "name_is ?n ls"
    using n I' L lm T ok root m(5) tab
    by (auto simp: name_is_def name_rep_def VALID_NAME_def name_target_def MAKE_EMPTY_def buf_room_def)
  with m fwd add app e show ?thesis by auto
qed


lemma MAKE_EMPTY_offsets [simp]: "offsets (MAKE_EMPTY n) = offsets n"
  by (simp add: MAKE_EMPTY_def)

lemma fromwire_run:
  assumes n: "name_target n" and s: "buf_ok source" and t: "buf_ok t"
    and pick: "pick_target n target = Some t"
  shows "\<exists>r st. fromwire_loop (b_base source) (b_used source) (min 255 (buf_room t))
       (dns_decompress_getpermitted dctx) (b_used t) (fw_start n source t) = Some (r, st) \<and>
     (r \<noteq> ISC_R_SUCCESS \<longrightarrow>
        (\<exists>n' tg. dns_name_fromwire n source dctx target = Some (r, n', source, tg) \<and>
           labels n' = 0 \<and> n_length n' = 0)) \<and>
     (r = ISC_R_SUCCESS \<longrightarrow>
        (\<exists>n' t' ls e. dn 0 (b_base source) (b_used source) (b_current source) (b_current source) ls e \<and>
           dns_name_fromwire n source dctx target =
             Some (r, fst (put_target n' target t'), source\<lparr>b_current := e\<rparr>, snd (put_target n' target t')) \<and>
           name_is n' ls \<and> appended t (wire ls) t'))"
proof -
  let ?R = "min 255 (buf_room t)" and ?st0 = "fw_start n source t"
  let ?loop = "fromwire_loop (b_base source) (b_used source) ?R (dns_decompress_getpermitted dctx) (b_used t) ?st0"
  have st0: "\<lparr>w_mem = b_base t, w_offsets = (case offsets n of Some os \<Rightarrow> os | None \<Rightarrow> odata),
      w_labels = 0, w_len = 0, w_marker = b_current source, w_cursor = b_current source,
      w_consumed = None\<rparr> = ?st0" by (simp add: fw_start_def)
  from fromwire_loop_sound [OF fw_start_inv [OF n s t], of "dns_decompress_getpermitted dctx"]
  obtain r st where L: "?loop = Some (r, st)" "length (w_mem st) = length (b_base t)"
    "take (b_used t) (w_mem st) = take (b_used t) (b_base t)"
    "length (w_offsets st) = length (w_offsets ?st0)"
    and D: "r = ISC_R_SUCCESS \<Longrightarrow> \<exists>ls e. fw_done (b_base source) (b_used source) ?R (b_used t) ?st0 [] st ls e"
    by (auto simp: fw_start_def)
  show ?thesis
  proof (cases "r = ISC_R_SUCCESS")
    case False
    let ?n' = "if offsets n = None then MAKE_EMPTY n else (MAKE_EMPTY n)\<lparr>offsets := Some (w_offsets st)\<rparr>"
    have "dns_name_fromwire n source dctx target = Some (r, fst (put_target ?n' target (t\<lparr>b_base := w_mem st\<rparr>)),
        source, snd (put_target ?n' target (t\<lparr>b_base := w_mem st\<rparr>)))"
      unfolding dns_name_fromwire_def using n False L(1) t
      by (simp add: name_target_def pick Let_def st0 case_prod_unfold)
    then show ?thesis using L(1) False by (auto simp: MAKE_EMPTY_def)
  next
    case True
    from D [OF True] obtain ls e
      where d: "fw_done (b_base source) (b_used source) ?R (b_used t) ?st0 [] st ls e" by blast
    then have dn: "dn 0 (b_base source) (b_used source) (b_current source) (b_current source) ls e"
      by (simp add: fw_done_def fw_start_def)
    let ?n' = "(set_absolute True (if offsets (MAKE_EMPTY n) = None then MAKE_EMPTY n
        else (MAKE_EMPTY n)\<lparr>offsets := Some (w_offsets st)\<rparr>))"
    from fromwire_finish [OF n s t d L(2-4)] obtain v m t' where f:
      "fetch (b_base source) (w_marker st) (w_cursor st - w_marker st) = Some v"
      "blit (w_mem st) (b_used t + w_len st - (w_cursor st - w_marker st)) v = Some m"
      "isc_buffer_forward source ((case w_consumed st of Some c \<Rightarrow> c | None \<Rightarrow> w_cursor st) - b_current source) =
         Some (source\<lparr>b_current := e\<rparr>)"
      "isc_buffer_add (t\<lparr>b_base := m\<rparr>) (w_len st) = Some t'" "appended t (wire ls) t'"
      "name_is (?n'\<lparr>ndata := drop (b_used t) m, n_length := w_len st, labels := w_labels st\<rparr>) ls"
      by blast
    let ?n'' = "?n'\<lparr>ndata := drop (b_used t) m, n_length := w_len st, labels := w_labels st\<rparr>"
    have "dns_name_fromwire n source dctx target =
        Some (r, fst (put_target ?n'' target t'), source\<lparr>b_current := e\<rparr>, snd (put_target ?n'' target t'))"
      unfolding dns_name_fromwire_def using n True L(1) t f(1-4)
      by (cases "put_target ?n'' target t'") (simp add: name_target_def pick Let_def st0)
    then show ?thesis using L(1) True dn f(5,6) by blast
  qed
qed

lemma fromwire_spec:
  assumes n: "name_target n" and s: "buf_ok source" and t: "target_ok n target"
    and p: "dns_decompress_getpermitted dctx"
    and d: "dn 0 (b_base source) (b_used source) (b_current source) (b_current source) ls e"
  shows "\<exists>t r n' tg'. pick_target n target = Some t \<and>
     (if length (wire ls) \<le> min 255 (buf_room t)
      then dns_name_fromwire n source dctx target = Some (ISC_R_SUCCESS, n', source\<lparr>b_current := e\<rparr>, tg') \<and>
           name_is n' ls
      else dns_name_fromwire n source dctx target =
             Some (if buf_room t \<ge> 255 then DNS_R_NAMETOOLONG else ISC_R_NOSPACE, n', source, tg'))"
proof -
  obtain t where t: "pick_target n target = Some t" "buf_ok t" using pick_target_ok [OF t] by blast
  have st: "w_marker (fw_start n source t) = b_current source" "w_cursor (fw_start n source t) = b_current source"
    by (simp_all add: fw_start_def)
  have "\<exists>st'. fromwire_loop (b_base source) (b_used source) (min 255 (buf_room t)) True (b_used t)
      (fw_start n source t) = Some (if length (wire ([] @ ls)) \<le> min 255 (buf_room t) then ISC_R_SUCCESS
           else if min 255 (buf_room t) = 255 then DNS_R_NAMETOOLONG else ISC_R_NOSPACE, st')"
    using fromwire_loop_complete [OF _ fw_start_inv [OF n s t(2)]] d st by auto
  then have L: "\<exists>st'. fromwire_loop (b_base source) (b_used source) (min 255 (buf_room t))
      (dns_decompress_getpermitted dctx) (b_used t) (fw_start n source t) =
      Some (if length (wire ls) \<le> min 255 (buf_room t) then ISC_R_SUCCESS
           else if buf_room t \<ge> 255 then DNS_R_NAMETOOLONG else ISC_R_NOSPACE, st')"
    using p by (simp add: min_def split: if_splits)
  from fromwire_run [OF n s t(2,1), of dctx] L obtain r where
    r: "r = (if length (wire ls) \<le> min 255 (buf_room t) then ISC_R_SUCCESS
           else if buf_room t \<ge> 255 then DNS_R_NAMETOOLONG else ISC_R_NOSPACE)"
    "r \<noteq> ISC_R_SUCCESS \<Longrightarrow> \<exists>n' tg. dns_name_fromwire n source dctx target = Some (r, n', source, tg)"
    "r = ISC_R_SUCCESS \<Longrightarrow> \<exists>n' t' ls e.
        dn 0 (b_base source) (b_used source) (b_current source) (b_current source) ls e \<and>
        dns_name_fromwire n source dctx target =
          Some (r, fst (put_target n' target t'), source\<lparr>b_current := e\<rparr>, snd (put_target n' target t')) \<and>
        name_is n' ls" by fastforce
  show ?thesis
  proof (cases "length (wire ls) \<le> min 255 (buf_room t)")
    case True
    then obtain n' t' ls' e' where
      x: "dn 0 (b_base source) (b_used source) (b_current source) (b_current source) ls' e'"
        "dns_name_fromwire n source dctx target =
          Some (ISC_R_SUCCESS, fst (put_target n' target t'), source\<lparr>b_current := e'\<rparr>, snd (put_target n' target t'))"
        "name_is n' ls'" using r by auto
    with dn_det [OF d x(1)] True t(1) show ?thesis by auto
  next
    case False
    with r t(1) show ?thesis by auto
  qed
qed

section \<open>Properties\<close>

text \<open>
  C1: \<^verbatim>\<open>dns_name_fromwire\<close> on any octets whatever terminates without an assertion failure and
  without reading or writing out of bounds.  Either it fails, leaving the name empty and the
  source where it was, or the octets spell a well-formed name by the rules of RFC 1035 with
  every pointer strictly backwards, the name holds exactly those labels, the target has them
  appended in wire form, and the source has moved past the compressed name.
\<close>

theorem fromwire_safe:
  assumes "name_target n" "buf_ok source" "target_ok n target"
  shows "\<exists>t r n' s' tg'. pick_target n target = Some t \<and>
     dns_name_fromwire n source dctx target = Some (r, n', s', tg') \<and>
     (if r = ISC_R_SUCCESS
      then \<exists>ls t'. dn 0 (b_base source) (b_used source) (b_current source) (b_current source) ls (b_current s') \<and>
           s' = source\<lparr>b_current := b_current s'\<rparr> \<and> name_is n' ls \<and> appended t (wire ls) t' \<and>
           (if target = None then n_buffer n' = Some t' else tg' = Some t')
      else labels n' = 0 \<and> n_length n' = 0 \<and> s' = source)"
proof -
  obtain t where t: "pick_target n target = Some t" "buf_ok t" using pick_target_ok [OF assms(3)] by blast
  from fromwire_run [OF assms(1,2) t(2,1), of dctx] obtain r where
    r: "r \<noteq> ISC_R_SUCCESS \<Longrightarrow> \<exists>n' tg. dns_name_fromwire n source dctx target = Some (r, n', source, tg) \<and>
           labels n' = 0 \<and> n_length n' = 0"
    "r = ISC_R_SUCCESS \<Longrightarrow> \<exists>n' t' ls e.
        dn 0 (b_base source) (b_used source) (b_current source) (b_current source) ls e \<and>
        dns_name_fromwire n source dctx target =
          Some (r, fst (put_target n' target t'), source\<lparr>b_current := e\<rparr>, snd (put_target n' target t')) \<and>
        name_is n' ls \<and> appended t (wire ls) t'" by blast
  show ?thesis
  proof (cases "r = ISC_R_SUCCESS")
    case False
    then show ?thesis using r(1) t(1) by fastforce
  next
    case True
    from r(2) [OF True] obtain n' t' ls e where
      d: "dn 0 (b_base source) (b_used source) (b_current source) (b_current source) ls e"
      "dns_name_fromwire n source dctx target =
          Some (r, fst (put_target n' target t'), source\<lparr>b_current := e\<rparr>, snd (put_target n' target t'))"
      "name_is n' ls" "appended t (wire ls) t'" by blast
    moreover from d(3) have "name_is (fst (put_target n' target t')) ls" by simp
    moreover have "if target = None then n_buffer (fst (put_target n' target t')) = Some t'
       else snd (put_target n' target t') = Some t'"
      by (auto simp: put_target_def split: option.splits)
    ultimately show ?thesis using True t(1) by (auto intro!: exI [of _ ls])
  qed
qed

theorem fromwire_safe_witness:
  "\<exists>r n' s' tg'. dns_name_fromwire (DNS_NAME_INIT None) ((isc_buffer_init [0xc0, 0] 2)\<lparr>b_used := 2\<rparr>)
     DNS_DECOMPRESS_ALWAYS (Some (isc_buffer_init [0] 1)) = Some (r, n', s', tg') \<and>
     (r = ISC_R_SUCCESS \<or> labels n' = 0)"
proof -
  have s: "buf_ok ((isc_buffer_init [0xc0, 0] 2)\<lparr>b_used := 2\<rparr>)"
    by (simp add: buf_ok_def isc_buffer_init_def ISC_BUFFER_VALID_def)
  have t: "target_ok (DNS_NAME_INIT None) (Some (isc_buffer_init [0] 1))"
    using buf_ok_init [of "[0]"] by (simp add: target_ok_def)
  show ?thesis
    using fromwire_safe [OF name_target_init s t, of DNS_DECOMPRESS_ALWAYS]
    by (metis (no_types, lifting))
qed

text \<open>
  C6: where the octets at the read position spell a name and compression is permitted,
  \<^verbatim>\<open>dns_name_fromwire\<close> returns that name, unless it is longer than 255 octets or than the room in
  the target, and it then says which.
\<close>

theorem fromwire_complete:
  assumes n: "name_target n" and s: "buf_ok source" and t: "target_ok n target"
    and p: "dns_decompress_getpermitted dctx"
    and d: "dn 0 (b_base source) (b_used source) (b_current source) (b_current source) ls e"
  shows "\<exists>t r n' tg'. pick_target n target = Some t \<and>
     (if length (wire ls) \<le> min 255 (buf_room t)
      then dns_name_fromwire n source dctx target = Some (ISC_R_SUCCESS, n', source\<lparr>b_current := e\<rparr>, tg') \<and>
           name_is n' ls
      else dns_name_fromwire n source dctx target =
             Some (if buf_room t \<ge> 255 then DNS_R_NAMETOOLONG else ISC_R_NOSPACE, n', source, tg'))"
  using fromwire_spec [OF n s t p d] .

theorem fromwire_complete_witness:
  "\<exists>n' tg'. dns_name_fromwire (DNS_NAME_INIT None)
     ((isc_buffer_init [1, 0x61, 0, 1, 0x62, 0xc0, 0] 7)\<lparr>b_used := 7, b_current := 3\<rparr>)
     DNS_DECOMPRESS_ALWAYS (Some (isc_buffer_init (replicate 9 0) 9)) =
     Some (ISC_R_SUCCESS, n', (isc_buffer_init [1, 0x61, 0, 1, 0x62, 0xc0, 0] 7)\<lparr>b_used := 7, b_current := 7\<rparr>, tg') \<and>
     name_is n' [[0x62], [0x61], []]"
proof -
  let ?m = "[1, 0x61, 0, 1, 0x62, 0xc0, 0] :: bytes"
  let ?s = "(isc_buffer_init ?m 7)\<lparr>b_used := 7, b_current := 3\<rparr>"
  have s: "buf_ok ?s" by (simp add: buf_ok_def isc_buffer_init_def ISC_BUFFER_VALID_def)
  have t: "target_ok (DNS_NAME_INIT None) (Some (isc_buffer_init (replicate 9 0) 9))"
    using buf_ok_init [of "replicate 9 0"] by (simp add: target_ok_def)
  have r: "dn 0 ?m 7 0 2 [[]] 3" using dn_root [of 2 7 ?m 0 0] by simp
  have a: "dn 0 ?m 7 0 0 [[0x61], []] 3" using dn_label [of 0 7 1 ?m 0 0 "[[]]" 3] r by (simp add: numeral_2_eq_2)
  have p: "dn 0 ?m 7 3 5 [[0x61], []] 7" using dn_pointer [of 5 7 ?m 0 3 0 "[[0x61], []]" 3] a by simp
  have "dn 0 ?m 7 3 3 [[0x62], [0x61], []] 7"
    using dn_label [of 3 7 1 ?m 0 3 "[[0x61], []]" 7] p by simp
  then have d: "dn 0 (b_base ?s) (b_used ?s) (b_current ?s) (b_current ?s) [[0x62], [0x61], []] 7"
    by (simp add: isc_buffer_init_def)
  show ?thesis
    using fromwire_complete [OF name_target_init s t _ d, of DNS_DECOMPRESS_ALWAYS]
    by (auto simp: dns_decompress_getpermitted_def pick_target_def buf_room_def isc_buffer_init_def
        ISC_BUFFER_VALID_def)
qed

end
