(* ===== verification/Compress.thy ===== *)
theory Compress
  imports NameWire "HOL-Library.Multiset"
begin

text \<open>
  \<^verbatim>\<open>lib/dns/compress.c\<close>: the hash set of compression offsets, and \<^verbatim>\<open>dns_name_towire\<close> of
  \<^verbatim>\<open>lib/dns/name.c\<close>, which writes names with it.
\<close>

section \<open>The compression context\<close>

definition DNS_COMPRESS_SMALLBITS :: nat where "DNS_COMPRESS_SMALLBITS = 6"
definition DNS_COMPRESS_LARGEBITS :: nat where "DNS_COMPRESS_LARGEBITS = 10"

definition HASH_INIT_DJB2 :: u16 where "HASH_INIT_DJB2 = 5381"

definition CCTX_MAGIC :: u32 where "CCTX_MAGIC = 0x43435458"

record dns_compress_flags =
  c_disabled :: bool
  c_case :: bool
  c_large :: bool
  c_permitted :: bool

record dns_compress_slot =
  s_hash :: u16
  s_coff :: nat

record dns_compress =
  c_magic :: u32
  c_flags :: dns_compress_flags
  c_mask :: nat
  c_count :: nat
  c_set :: "dns_compress_slot list"

text \<open>\<open>s_coff\<close>, \<open>c_mask\<close> and \<open>c_count\<close> are \<^verbatim>\<open>uint16_t\<close>.\<close>

definition CCTX_VALID :: "dns_compress \<Rightarrow> bool" where
  "CCTX_VALID c \<longleftrightarrow> c_magic c = CCTX_MAGIC"

definition empty_slot :: dns_compress_slot where
  "empty_slot = \<lparr>s_hash = 0, s_coff = 0\<rparr>"

definition dns_compress_init :: "dns_compress_flags \<Rightarrow> dns_compress" where
  "dns_compress_init flags =
     (let count = (if c_large flags then 2 ^ DNS_COMPRESS_LARGEBITS else 2 ^ DNS_COMPRESS_SMALLBITS)
      in \<lparr>c_magic = CCTX_MAGIC, c_flags = flags\<lparr>c_permitted := True\<rparr>, c_mask = count - 1,
          c_count = 0, c_set = replicate count empty_slot\<rparr>)"

definition dns_compress_setpermitted :: "dns_compress \<Rightarrow> bool \<Rightarrow> dns_compress option" where
  "dns_compress_setpermitted cctx permitted = do {
     REQUIRE (CCTX_VALID cctx);
     Some (cctx\<lparr>c_flags := (c_flags cctx)\<lparr>c_permitted := permitted\<rparr>\<rparr>)
   }"

definition dns_compress_getpermitted :: "dns_compress \<Rightarrow> bool option" where
  "dns_compress_getpermitted cctx = do {
     REQUIRE (CCTX_VALID cctx);
     Some (c_permitted (c_flags cctx))
   }"

definition dns_compress_invalidate :: "dns_compress \<Rightarrow> dns_compress option" where
  "dns_compress_invalidate cctx = do {
     REQUIRE (CCTX_VALID cctx);
     Some \<lparr>c_magic = 0, c_flags = \<lparr>c_disabled = False, c_case = False, c_large = False,
           c_permitted = False\<rparr>, c_mask = 0, c_count = 0, c_set = []\<rparr>
   }"

section \<open>Hashing and matching\<close>

definition ISC_HASH_GOLDENRATIO_32 :: u32 where "ISC_HASH_GOLDENRATIO_32 = 0x61C88647"

definition isc_hash_bits32 :: "u32 \<Rightarrow> nat \<Rightarrow> u32" where
  "isc_hash_bits32 val bits = drop_bit (32 - bits) (val * ISC_HASH_GOLDENRATIO_32)"

fun hash_octets :: "bytes \<Rightarrow> nat \<Rightarrow> nat \<Rightarrow> bool \<Rightarrow> u32 \<Rightarrow> u32 option" where
  "hash_octets m p 0 sensitive hash = Some hash"
| "hash_octets m p (Suc len) sensitive hash = do {
     c \<leftarrow> peek m p;
     hash_octets m (p + 1) len sensitive
       (hash * 33 + ucast (if sensitive then c else isc__ascii_tolower1 c))
   }"

definition hash_label :: "u16 \<Rightarrow> bytes \<Rightarrow> nat \<Rightarrow> bool \<Rightarrow> u16 option" where
  "hash_label init m p sensitive = do {
     n \<leftarrow> peek m p;
     hash \<leftarrow> hash_octets m p (unat n + 1) sensitive (ucast init);
     Some (ucast (isc_hash_bits32 hash 16))
   }"

definition match_wirename :: "bytes \<Rightarrow> bytes \<Rightarrow> nat \<Rightarrow> bool \<Rightarrow> bool option" where
  "match_wirename a b len sensitive =
     (if sensitive then do {
        x \<leftarrow> fetch a 0 len;
        y \<leftarrow> fetch b 0 len;
        Some (x = y)
      } else isc_ascii_lowerequal a b len)"

text \<open>\<open>sp\<close> and \<open>slen\<close> are the suffix being looked for, the memory \<open>sp\<close> starting at it.\<close>

definition match_suffix :: "isc_buffer \<Rightarrow> nat \<Rightarrow> bytes \<Rightarrow> nat \<Rightarrow> nat \<Rightarrow> bool \<Rightarrow> bool option" where
  "match_suffix buffer new_coff sp slen old_coff sensitive = do {
     let pptr0 = (0xc0 OR of_nat (old_coff div 256) :: u8);
     let pptr1 = (of_nat old_coff :: u8);
     let blen = b_used buffer;
     n \<leftarrow> peek sp 0;
     let llen = unat n + 1;
     INSIST (llen \<le> 64 \<and> llen < slen);
     if blen < new_coff + llen then Some False
     else do {
       let blen = blen - new_coff;
       let bptr = drop new_coff (b_base buffer);
       m \<leftarrow> match_wirename bptr sp llen sensitive;
       if \<not> m then Some False
       else if old_coff = new_coff + llen then Some True
       else do {
         let blen = blen - llen;
         let bptr = drop llen bptr;
         let slen = slen - llen;
         let sp = drop llen sp;
         root \<leftarrow> (if blen \<ge> 1 \<and> slen = 1 then do {
                    b0 \<leftarrow> peek bptr 0;
                    s0 \<leftarrow> peek sp 0;
                    Some (b0 = 0 \<and> s0 = 0)
                  } else Some False);
         if root then Some True
         else do {
           ptr \<leftarrow> (if blen \<ge> 2 then do {
                     b0 \<leftarrow> peek bptr 0;
                     b1 \<leftarrow> peek bptr 1;
                     Some (b0 = pptr0 \<and> b1 = pptr1)
                   } else Some False);
           if ptr then Some True
           else if blen \<ge> slen then match_wirename bptr sp slen sensitive
           else Some False
         }
       }
     }
   }"

section \<open>The hash set\<close>

definition probe_distance :: "dns_compress \<Rightarrow> nat \<Rightarrow> nat option" where
  "probe_distance cctx slot = do {
     s \<leftarrow> peek (c_set cctx) slot;
     Some (usub slot (unat (s_hash s)) AND c_mask cctx)
   }"

definition slot_index :: "dns_compress \<Rightarrow> nat \<Rightarrow> nat \<Rightarrow> nat" where
  "slot_index cctx hash probe = uadd hash probe AND c_mask cctx"

lemma nat_and_le: "(x AND m) \<le> (m :: nat)"
proof -
  have "int (x AND m) \<le> int m" by (simp add: of_nat_and_eq AND_upper2)
  then show ?thesis by simp
qed

lemma probe_distance_le: "probe_distance cctx slot = Some d \<Longrightarrow> d \<le> c_mask cctx"
  by (auto simp: probe_distance_def bind_eq_Some_conv nat_and_le)

text \<open>
  The insertion loop.  The slot it looks at moves on by one each time, so \<open>fuel\<close> of one more
  than the size of the set is enough whenever some slot is empty; with none empty the C loop
  does not end, and \<open>None\<close> is the value here.
\<close>

fun insert_probe :: "nat \<Rightarrow> dns_compress \<Rightarrow> u16 \<Rightarrow> nat \<Rightarrow> nat \<Rightarrow> dns_compress option" where
  "insert_probe 0 cctx hash coff probe = None"
| "insert_probe (Suc fuel) cctx hash coff probe = do {
     let slot = slot_index cctx (unat hash) probe;
     s \<leftarrow> peek (c_set cctx) slot;
     if s_coff s = 0
     then Some (cctx\<lparr>c_set := (c_set cctx)[slot := \<lparr>s_hash = hash, s_coff = coff\<rparr>],
                     c_count := (c_count cctx + 1) mod 2 ^ 16\<rparr>)
     else do {
       d \<leftarrow> probe_distance cctx slot;
       if probe > d
       then insert_probe fuel (cctx\<lparr>c_set := (c_set cctx)[slot := \<lparr>s_hash = hash, s_coff = coff\<rparr>]\<rparr>)
              (s_hash s) (s_coff s) (d + 1)
       else insert_probe fuel cctx hash coff (probe + 1)
     }
   }"

definition insert_label ::
  "dns_compress \<Rightarrow> isc_buffer \<Rightarrow> dns_name \<Rightarrow> nat \<Rightarrow> u16 \<Rightarrow> nat \<Rightarrow> (bool \<times> dns_compress) option" where
  "insert_label cctx buffer name label hash probe = do {
     os \<leftarrow> offsets name;
     prefix_len \<leftarrow> peek os label;
     let coff = b_used buffer + unat prefix_len;
     if coff \<ge> 0x4000 \<or> c_count cctx > c_mask cctx * 3 div 4 then Some (False, cctx)
     else do {
       cctx \<leftarrow> insert_probe (c_mask cctx + 2) cctx hash coff probe;
       Some (True, cctx)
     }
   }"

text \<open>\<open>insert\<close> in the source: the remaining labels, from \<open>label\<close> down to the first.\<close>

fun insert_labels ::
  "dns_compress \<Rightarrow> isc_buffer \<Rightarrow> dns_name \<Rightarrow> nat \<Rightarrow> u16 \<Rightarrow> nat \<Rightarrow> dns_compress option" where
  "insert_labels cctx buffer name label hash probe = do {
     (inserted, cctx) \<leftarrow> insert_label cctx buffer name label hash probe;
     if \<not> inserted then Some cctx
     else case label of
       0 \<Rightarrow> Some cctx
     | Suc label \<Rightarrow> do {
         os \<leftarrow> offsets name;
         prefix_len \<leftarrow> peek os label;
         hash \<leftarrow> hash_label hash (ndata name) (unat prefix_len) (c_case (c_flags cctx));
         insert_labels cctx buffer name label hash 0
       }
   }"

text \<open>
  Looking for the current suffix: \<open>Inl probe\<close> is that it is not in the set and would be inserted
  at this probe, \<open>Inr coff\<close> that it is at \<open>coff\<close>.  No distance is above the mask, so the search
  ends.
\<close>

function search_probe ::
  "dns_compress \<Rightarrow> isc_buffer \<Rightarrow> bytes \<Rightarrow> nat \<Rightarrow> nat \<Rightarrow> u16 \<Rightarrow> nat \<Rightarrow> (nat + nat) option" where
  "search_probe cctx buffer sp slen return_coff hash probe = do {
     let slot = slot_index cctx (unat hash) probe;
     s \<leftarrow> peek (c_set cctx) slot;
     d \<leftarrow> probe_distance cctx slot;
     if s_coff s = 0 \<or> probe > d then Some (Inl probe)
     else do {
       m \<leftarrow> (if hash = s_hash s
              then match_suffix buffer (s_coff s) sp slen return_coff (c_case (c_flags cctx))
              else Some False);
       if m then Some (Inr (s_coff s))
       else search_probe cctx buffer sp slen return_coff hash (probe + 1)
     }
   }"
  by pat_completeness auto
termination
  by (relation "measure (\<lambda>(cctx, buffer, sp, slen, rc, hash, probe). Suc (c_mask cctx) - probe)")
     (auto dest: probe_distance_le)

declare search_probe.simps [simp del]
declare insert_labels.simps [simp del]

fun compress_loop ::
  "dns_compress \<Rightarrow> isc_buffer \<Rightarrow> dns_name \<Rightarrow> nat \<Rightarrow> u16 \<Rightarrow> nat \<Rightarrow> nat \<Rightarrow> (dns_compress \<times> nat \<times> nat) option" where
  "compress_loop cctx buffer name 0 hash return_prefix return_coff = Some (cctx, return_prefix, return_coff)"
| "compress_loop cctx buffer name (Suc label) hash return_prefix return_coff = do {
     os \<leftarrow> offsets name;
     o' \<leftarrow> peek os label;
     let prefix_len = unat o';
     let suffix_len = n_length name - prefix_len;
     hash \<leftarrow> hash_label hash (ndata name) prefix_len (c_case (c_flags cctx));
     r \<leftarrow> search_probe cctx buffer (drop prefix_len (ndata name)) suffix_len return_coff hash 0;
     case r of
       Inl probe \<Rightarrow> do {
         cctx \<leftarrow> insert_labels cctx buffer name label hash probe;
         Some (cctx, return_prefix, return_coff)
       }
     | Inr coff \<Rightarrow> compress_loop cctx buffer name label hash prefix_len coff
   }"

definition dns_compress_name ::
  "dns_compress \<Rightarrow> isc_buffer \<Rightarrow> dns_name \<Rightarrow> nat \<Rightarrow> nat \<Rightarrow> (dns_compress \<times> nat \<times> nat) option" where
  "dns_compress_name cctx buffer name return_prefix return_coff = do {
     REQUIRE (CCTX_VALID cctx);
     REQUIRE (ISC_BUFFER_VALID buffer);
     REQUIRE (is_absolute name);
     REQUIRE (labels name > 0);
     REQUIRE (offsets name \<noteq> None);
     REQUIRE (return_coff = 0);
     if c_disabled (c_flags cctx) then Some (cctx, return_prefix, return_coff)
     else compress_loop cctx buffer name (labels name - 1) HASH_INIT_DJB2 return_prefix return_coff
   }"


section \<open>Taking names out again\<close>

fun rollback_slide :: "nat \<Rightarrow> dns_compress \<Rightarrow> nat \<Rightarrow> dns_compress option" where
  "rollback_slide 0 cctx prev = None"
| "rollback_slide (Suc fuel) cctx prev = do {
     let nxt = slot_index cctx prev 1;
     s \<leftarrow> peek (c_set cctx) nxt;
     d \<leftarrow> probe_distance cctx nxt;
     if s_coff s \<noteq> 0 \<and> d \<noteq> 0
     then do {
       set' \<leftarrow> poke (c_set cctx) prev s;
       rollback_slide fuel (cctx\<lparr>c_set := set'\<rparr>) nxt
     }
     else do {
       set' \<leftarrow> poke (c_set cctx) prev empty_slot;
       Some (cctx\<lparr>c_set := set', c_count := (c_count cctx + (2 ^ 16 - 1)) mod 2 ^ 16\<rparr>)
     }
   }"

fun rollback_loop :: "dns_compress \<Rightarrow> nat \<Rightarrow> nat list \<Rightarrow> dns_compress option" where
  "rollback_loop cctx coff [] = Some cctx"
| "rollback_loop cctx coff (slot # slots) = do {
     s \<leftarrow> peek (c_set cctx) slot;
     if s_coff s < coff then rollback_loop cctx coff slots
     else do {
       cctx \<leftarrow> rollback_slide (c_mask cctx + 2) cctx slot;
       rollback_loop cctx coff slots
     }
   }"

definition dns_compress_rollback :: "dns_compress \<Rightarrow> nat \<Rightarrow> dns_compress option" where
  "dns_compress_rollback cctx coff = do {
     REQUIRE (CCTX_VALID cctx);
     rollback_loop cctx coff [0..<c_mask cctx + 1]
   }"

section \<open>Writing a name\<close>

text \<open>\<open>name_coff\<close> is the caller's saved offset, \<open>None\<close> for a null pointer.\<close>

definition towire_body ::
  "dns_name \<Rightarrow> dns_compress \<Rightarrow> isc_buffer \<Rightarrow> nat option \<Rightarrow> bool \<Rightarrow>
   (isc_result \<times> dns_compress \<times> isc_buffer \<times> nat option) option" where
  "towire_body name cctx target name_coff compress = do {
     name \<leftarrow> (if offsets name = None then dns_name_clone name (DNS_NAME_INIT (Some odata))
               else Some name);
     (cctx, prefix_length, suffix_coff) \<leftarrow> dns_compress_name cctx target name (n_length name) 0;
     let (prefix_length, suffix_coff) =
       (if compress then (prefix_length, suffix_coff) else (n_length name, 0));
     let here = b_used target;
     let name_coff = (case name_coff of
         None \<Rightarrow> None
       | Some c \<Rightarrow> Some (if here < 0x4000 \<and> prefix_length > 1 then here else c));
     if prefix_length > 0 \<and> isc_buffer_availablelength target < prefix_length
     then Some (ISC_R_NOSPACE, cctx, target, name_coff)
     else do {
       target \<leftarrow> (if prefix_length > 0 then do {
           v \<leftarrow> fetch (ndata name) 0 prefix_length;
           m \<leftarrow> blit (b_base target) (b_used target) v;
           isc_buffer_add (target\<lparr>b_base := m\<rparr>) prefix_length
         } else Some target);
       if suffix_coff > 0 then do {
         let name_coff = (case name_coff of
             None \<Rightarrow> None
           | Some c \<Rightarrow> Some (if prefix_length = 0 then suffix_coff else c));
         if isc_buffer_availablelength target < 2 then Some (ISC_R_NOSPACE, cctx, target, name_coff)
         else do {
           target \<leftarrow> isc_buffer_putuint16 target (of_nat suffix_coff OR 0xc000);
           Some (ISC_R_SUCCESS, cctx, target, name_coff)
         }
       }
       else Some (ISC_R_SUCCESS, cctx, target, name_coff)
     }
   }"

definition dns_name_towire ::
  "dns_name \<Rightarrow> dns_compress \<Rightarrow> isc_buffer \<Rightarrow> nat option \<Rightarrow>
   (isc_result \<times> dns_compress \<times> isc_buffer \<times> nat option) option" where
  "dns_name_towire name cctx target name_coff = do {
     REQUIRE (VALID_NAME name);
     REQUIRE (ISC_BUFFER_VALID target);
     permitted \<leftarrow> dns_compress_getpermitted cctx;
     let compress = (\<not> nocompress (attributes name) \<and> permitted);
     case (if compress then name_coff else None) of
       Some coff \<Rightarrow>
         if coff < 0x4000 then
           (if isc_buffer_availablelength target < 2 then Some (ISC_R_NOSPACE, cctx, target, name_coff)
            else do {
              target \<leftarrow> isc_buffer_putuint16 target (of_nat coff OR 0xc000);
              Some (ISC_R_SUCCESS, cctx, target, name_coff)
            })
         else towire_body name cctx target name_coff compress
     | None \<Rightarrow> towire_body name cctx target name_coff compress
   }"

section \<open>The hash set: slots and probes\<close>

text \<open>The two sizes a set can have.\<close>

definition set_size :: "dns_compress \<Rightarrow> nat \<Rightarrow> bool" where
  "set_size cctx N \<longleftrightarrow> (N = 64 \<or> N = 1024) \<and> c_mask cctx = N - 1 \<and> length (c_set cctx) = N"

definition occupied :: "dns_compress_slot list \<Rightarrow> nat" where
  "occupied ss = length (filter (\<lambda>s. s_coff s \<noteq> 0) ss)"

lemma and_mask_mod: "N = 64 \<or> N = 1024 \<Longrightarrow> (x AND (N - 1)) = x mod (N :: nat)"
  using take_bit_eq_mask [of 6 x] take_bit_eq_mask [of 10 x]
  by (auto simp: take_bit_eq_mod mask_eq_exp_minus_1)

lemma mod_mod_32: "N = 64 \<or> N = 1024 \<Longrightarrow> x mod 2 ^ 32 mod N = x mod (N :: nat)"
  by (auto intro: mod_mod_cancel)

lemma set_sizeD:
  "set_size cctx N \<Longrightarrow> N = 64 \<or> N = 1024" "set_size cctx N \<Longrightarrow> c_mask cctx = N - 1"
  "set_size cctx N \<Longrightarrow> length (c_set cctx) = N"
  by (auto simp: set_size_def)

lemma slot_index_eq:
  assumes "set_size cctx N"
  shows "slot_index cctx h p = (h + p) mod N"
  unfolding slot_index_def uadd_def set_sizeD(2) [OF assms] and_mask_mod [OF set_sizeD(1) [OF assms]]
  by (rule mod_mod_32 [OF set_sizeD(1) [OF assms]])

lemma probe_distance_eq:
  assumes "set_size cctx N" "slot < N"
  shows "probe_distance cctx slot = Some (usub slot (unat (s_hash (c_set cctx ! slot))) mod N)"
  unfolding probe_distance_def set_sizeD(2) [OF assms(1)] and_mask_mod [OF set_sizeD(1) [OF assms(1)]]
  using assms(2) set_sizeD(3) [OF assms(1)] by simp

text \<open>The slot an element sits in is where its hash and its distance lead.\<close>

lemma distance_leads_back:
  assumes "N = 64 \<or> N = (1024 :: nat)" "slot < N" "h < 2 ^ 16"
  shows "(h + usub slot h mod N) mod N = slot"
proof -
  have "(h + usub slot h mod N) mod N = (h + (slot + (2 ^ 32 - h)) mod N) mod N"
    unfolding usub_def mod_mod_32 [OF assms(1)] ..
  also have "\<dots> = (h + (slot + (2 ^ 32 - h))) mod N" by (rule mod_add_right_eq)
  also have "h + (slot + (2 ^ 32 - h)) = slot + 2 ^ 32" using assms(3) by simp
  also have "(slot + 2 ^ 32) mod N = slot"
    by (subst mod_add_right_eq [symmetric]) (use assms(1,2) in auto)
  finally show ?thesis .
qed

lemma next_slot:
  assumes "N = 64 \<or> N = (1024 :: nat)" "slot < N" "h < 2 ^ 16"
  shows "(h + (usub slot h mod N + 1)) mod N = (slot + 1) mod N"
  using distance_leads_back [OF assms] by (metis add.assoc mod_add_left_eq)

section \<open>Insertion\<close>

text \<open>What a table keeps: its size, an exact count, and every offset in \<open>A\<close>.\<close>

definition cinv :: "nat set \<Rightarrow> dns_compress \<Rightarrow> bool" where
  "cinv A cctx \<longleftrightarrow> CCTX_VALID cctx \<and> (\<exists>N. set_size cctx N) \<and>
     c_count cctx = occupied (c_set cctx) \<and>
     (\<forall>s\<in>set (c_set cctx). s_coff s \<noteq> 0 \<longrightarrow> s_coff s \<in> A)"

lemma occupied_update_empty:
  "i < length ss \<Longrightarrow> s_coff (ss ! i) = 0 \<Longrightarrow> s_coff s \<noteq> 0 \<Longrightarrow> occupied (ss[i := s]) = occupied ss + 1"
  by (induction ss arbitrary: i) (auto simp: occupied_def nth_Cons split: nat.splits)

lemma occupied_update_full:
  "i < length ss \<Longrightarrow> s_coff (ss ! i) \<noteq> 0 \<Longrightarrow> s_coff s \<noteq> 0 \<Longrightarrow> occupied (ss[i := s]) = occupied ss"
  by (induction ss arbitrary: i) (auto simp: occupied_def nth_Cons split: nat.splits)

lemma occupied_has_empty:
  "occupied ss < length ss \<Longrightarrow> \<exists>i<length ss. s_coff (ss ! i) = 0"
proof (rule ccontr)
  assume o: "occupied ss < length ss" and "\<not> (\<exists>i<length ss. s_coff (ss ! i) = 0)"
  then have "\<forall>s\<in>set ss. s_coff s \<noteq> 0" by (auto simp: in_set_conv_nth)
  then have "occupied ss = length ss" by (simp add: occupied_def)
  with o show False by simp
qed

lemma insert_probe_ok:
  assumes "set_size cctx N" "slot = (unat hash + probe) mod N" "k < fuel"
    "s_coff (c_set cctx ! ((slot + k) mod N)) = 0"
    "coff \<noteq> 0" "coff \<in> A" "\<forall>s\<in>set (c_set cctx). s_coff s \<noteq> 0 \<longrightarrow> s_coff s \<in> A"
  shows "\<exists>ss. insert_probe fuel cctx hash coff probe =
      Some (cctx\<lparr>c_set := ss, c_count := (c_count cctx + 1) mod 2 ^ 16\<rparr>) \<and>
     length ss = N \<and> occupied ss = occupied (c_set cctx) + 1 \<and>
     (\<forall>s\<in>set ss. s_coff s \<noteq> 0 \<longrightarrow> s_coff s \<in> A)"
  using assms
proof (induction fuel arbitrary: cctx slot hash probe coff k)
  case (Suc fuel)
  note sz = Suc.prems(1)
  have N: "N = 64 \<or> N = 1024" "length (c_set cctx) = N" using sz by (auto simp: set_size_def)
  have slot: "slot_index cctx (unat hash) probe = slot" "slot < N"
    using slot_index_eq [OF sz] Suc.prems(2) N by auto
  let ?s = "c_set cctx ! slot" and ?new = "\<lparr>s_hash = hash, s_coff = coff\<rparr>"
  have pk: "peek (c_set cctx) slot = Some ?s" using slot N by simp
  have mem: "\<forall>s\<in>set ((c_set cctx)[slot := ?new]). s_coff s \<noteq> 0 \<longrightarrow> s_coff s \<in> A"
    using Suc.prems(6,7) by (auto dest!: set_update_subset_insert [THEN subsetD])
  show ?case
  proof (cases "s_coff ?s = 0")
    case True
    then show ?thesis
      using slot N mem Suc.prems(5) occupied_update_empty [of slot "c_set cctx" ?new]
      by (intro exI [of _ "(c_set cctx)[slot := ?new]"]) (simp add: Let_def pk)
  next
    case False
    then have kp: "0 < k" using Suc.prems(4) slot(2) by (cases k) auto
    have step: "(Suc slot + (k - 1)) mod N = (slot + k) mod N" using kp by simp
    have sA: "s_coff ?s \<in> A" using Suc.prems(7) False slot N by auto
    let ?d = "usub slot (unat (s_hash ?s)) mod N"
    have d: "probe_distance cctx slot = Some ?d" using probe_distance_eq [OF sz slot(2)] .
    show ?thesis
    proof (cases "probe > ?d")
      case swap: True
      let ?cctx = "cctx\<lparr>c_set := (c_set cctx)[slot := ?new]\<rparr>"
      have h: "unat (s_hash ?s) < 2 ^ 16" using unsigned_less [of "s_hash ?s"] by simp
      have ne: "(slot + k) mod N \<noteq> slot \<or> s_coff ?s = 0" using Suc.prems(4) by auto
      have emp: "s_coff (c_set ?cctx ! ((Suc slot mod N + (k - 1)) mod N)) = 0"
        using Suc.prems(4) ne False step by (simp add: mod_add_left_eq)
      have "\<exists>ss. insert_probe fuel ?cctx (s_hash ?s) (s_coff ?s) (?d + 1) =
          Some (?cctx\<lparr>c_set := ss, c_count := (c_count ?cctx + 1) mod 2 ^ 16\<rparr>) \<and>
         length ss = N \<and> occupied ss = occupied (c_set ?cctx) + 1 \<and>
         (\<forall>s\<in>set ss. s_coff s \<noteq> 0 \<longrightarrow> s_coff s \<in> A)"
      proof (rule Suc.IH [of ?cctx "Suc slot mod N" "s_hash ?s" "?d + 1" "k - 1"])
        show "set_size ?cctx N" using sz by (simp add: set_size_def)
        show "Suc slot mod N = (unat (s_hash ?s) + (?d + 1)) mod N"
          using next_slot [OF N(1) slot(2) h] by simp
      qed (use Suc.prems(3) kp emp False sA mem in auto)
      then show ?thesis
        using swap False slot d pk occupied_update_full [of slot "c_set cctx" ?new] N Suc.prems(5)
        by (auto simp: Let_def)
    next
      case stay: False
      have emp: "s_coff (c_set cctx ! ((Suc slot mod N + (k - 1)) mod N)) = 0"
        using Suc.prems(4) step by (simp add: mod_add_left_eq)
      have "\<exists>ss. insert_probe fuel cctx hash coff (probe + 1) =
          Some (cctx\<lparr>c_set := ss, c_count := (c_count cctx + 1) mod 2 ^ 16\<rparr>) \<and>
         length ss = N \<and> occupied ss = occupied (c_set cctx) + 1 \<and>
         (\<forall>s\<in>set ss. s_coff s \<noteq> 0 \<longrightarrow> s_coff s \<in> A)"
      proof (rule Suc.IH [of cctx "Suc slot mod N" hash "probe + 1" "k - 1"])
        show "Suc slot mod N = (unat hash + (probe + 1)) mod N"
          using Suc.prems(2) by (simp add: mod_Suc_eq)
      qed (use Suc.prems kp emp in auto)
      then show ?thesis using stay False slot d pk by (auto simp: Let_def)
    qed
  qed
qed simp


declare insert_probe.simps(2) [simp del]

lemma cinv_mono: "cinv A cctx \<Longrightarrow> A \<subseteq> B \<Longrightarrow> cinv B cctx"
  by (auto simp: cinv_def)

lemma insert_label_ok:
  assumes I: "cinv A cctx" and n: "name_rep name ls" "offsets name \<noteq> None" "label < length ls"
    and b: "0 < b_used b"
  shows "\<exists>r cctx'. insert_label cctx b name label hash probe = Some (r, cctx') \<and>
     c_flags cctx' = c_flags cctx \<and> cinv (A \<union> {b_used b + label_off ls label} \<inter> {..<0x4000}) cctx'"
proof -
  obtain os where os: "offsets name = Some os" using n(2) by blast
  then have pk: "peek os label = Some (os ! label)" and u: "unat (os ! label) = label_off ls label"
    using name_repD(10) [OF n(1) os] n(3) by (auto simp: table_is_def)
  let ?coff = "b_used b + label_off ls label"
  obtain N where sz: "set_size cctx N" using I by (auto simp: cinv_def)
  note N = set_sizeD [OF sz]
  show ?thesis
  proof (cases "?coff \<ge> 0x4000 \<or> c_count cctx > c_mask cctx * 3 div 4")
    case True
    then have "insert_label cctx b name label hash probe = Some (False, cctx)"
      using os pk u by (simp add: insert_label_def Let_def)
    then show ?thesis using cinv_mono [OF I, of "A \<union> {?coff} \<inter> {..<0x4000}"]
      by (intro exI [of _ False]) simp
  next
    case False
    let ?A = "A \<union> {?coff} \<inter> {..<0x4000}"
    have "c_count cctx < N" using False N by auto
    then have "occupied (c_set cctx) < length (c_set cctx)" using I N by (simp add: cinv_def)
    from occupied_has_empty [OF this] obtain i where i: "i < N" "s_coff (c_set cctx ! i) = 0"
      using N by auto
    let ?slot = "(unat hash + probe) mod N"
    have sl: "?slot < N" using N(1) by auto
    define k where "k = (i + N - ?slot) mod N"
    have "(?slot + k) mod N = (?slot + (i + N - ?slot)) mod N"
      unfolding k_def by (rule mod_add_right_eq)
    also have "?slot + (i + N - ?slot) = i + N" using sl by (intro le_add_diff_inverse) linarith
    also have "(i + N) mod N = i" using i(1) by simp
    finally have ki: "(?slot + k) mod N = i" .
    have kl: "k < c_mask cctx + 2" unfolding k_def using N(1,2) by auto
    have mem: "\<forall>s\<in>set (c_set cctx). s_coff s \<noteq> 0 \<longrightarrow> s_coff s \<in> ?A" using I by (auto simp: cinv_def)
    have e0: "s_coff (c_set cctx ! ((?slot + k) mod N)) = 0" using ki i(2) by simp
    have c0: "?coff \<noteq> 0" and cA: "?coff \<in> ?A" using b False by auto
    from insert_probe_ok [OF sz refl kl e0 c0 cA mem]
    obtain ss where ss: "insert_probe (c_mask cctx + 2) cctx hash ?coff probe =
        Some (cctx\<lparr>c_set := ss, c_count := (c_count cctx + 1) mod 2 ^ 16\<rparr>)"
      "length ss = N" "occupied ss = occupied (c_set cctx) + 1"
      "\<forall>s\<in>set ss. s_coff s \<noteq> 0 \<longrightarrow> s_coff s \<in> ?A" by blast
    have cnt: "(c_count cctx + 1) mod 2 ^ 16 = c_count cctx + 1" using \<open>c_count cctx < N\<close> N(1) by auto
    have "set_size (cctx\<lparr>c_set := ss, c_count := (c_count cctx + 1) mod 2 ^ 16\<rparr>) N"
      using sz ss(2) by (simp add: set_size_def)
    then have "cinv ?A (cctx\<lparr>c_set := ss, c_count := (c_count cctx + 1) mod 2 ^ 16\<rparr>)"
      using I ss(3,4) cnt unfolding cinv_def by (auto simp: CCTX_VALID_def)
    moreover have "insert_label cctx b name label hash probe =
        Some (True, cctx\<lparr>c_set := ss, c_count := (c_count cctx + 1) mod 2 ^ 16\<rparr>)"
      using os pk u False ss(1) by (simp add: insert_label_def Let_def)
    ultimately show ?thesis by auto
  qed
qed

lemma hash_octets_total: "p + len \<le> length m \<Longrightarrow> \<exists>h. hash_octets m p len s hash = Some h"
  by (induction len arbitrary: p hash) auto

lemma hash_label_total:
  assumes "name_rep name ls" "i < length ls"
  shows "\<exists>h. hash_label init (ndata name) (label_off ls i) s = Some h"
proof -
  note L = label_at [OF assms]
  have "length (ls ! i) \<le> 63" using label_length [OF name_repD(4) [OF assms(1)] assms(2)] .
  then have "unat (ndata name ! label_off ls i) = length (ls ! i)" using L(2) by simp
  moreover have "label_off ls i + (length (ls ! i) + 1) \<le> length (ndata name)" using L(1,3) by auto
  ultimately show ?thesis
    using L(1) hash_octets_total [of "label_off ls i" "length (ls ! i) + 1" "ndata name" s "ucast init"]
    by (auto simp: hash_label_def simp del: hash_octets.simps)
qed

text \<open>The offsets of the labels up to \<open>label\<close>, once the name is written at the end of the message.\<close>

definition new_offs :: "isc_buffer \<Rightarrow> bytes list \<Rightarrow> nat \<Rightarrow> nat set" where
  "new_offs b ls label = (\<lambda>j. b_used b + label_off ls j) ` {..label} \<inter> {..<0x4000}"

lemma insert_labels_ok:
  assumes I: "cinv A cctx" and n: "name_rep name ls" "offsets name \<noteq> None"
    and b: "0 < b_used b" and l: "label < length ls"
  shows "\<exists>cctx'. insert_labels cctx b name label hash probe = Some cctx' \<and>
     c_flags cctx' = c_flags cctx \<and> cinv (A \<union> new_offs b ls label) cctx'"
  using I l
proof (induction label arbitrary: A cctx hash probe)
  case 0
  from insert_label_ok [OF 0(1) n 0(2) b, of hash probe] obtain r cctx'
    where r: "insert_label cctx b name 0 hash probe = Some (r, cctx')" "c_flags cctx' = c_flags cctx"
      "cinv (A \<union> {b_used b + label_off ls 0} \<inter> {..<0x4000}) cctx'" by blast
  moreover have "A \<union> {b_used b + label_off ls 0} \<inter> {..<0x4000} = A \<union> new_offs b ls 0"
    by (auto simp: new_offs_def)
  ultimately show ?case by (subst insert_labels.simps) simp
next
  case (Suc label)
  from insert_label_ok [OF Suc.prems(1) n Suc.prems(2) b, of hash probe] obtain r cctx'
    where r: "insert_label cctx b name (Suc label) hash probe = Some (r, cctx')" "c_flags cctx' = c_flags cctx"
      "cinv (A \<union> {b_used b + label_off ls (Suc label)} \<inter> {..<0x4000}) cctx'" by blast
  obtain os where os: "offsets name = Some os" using n(2) by blast
  then have pk: "peek os label = Some (os ! label)" "unat (os ! label) = label_off ls label"
    using name_repD(10) [OF n(1) os] Suc.prems(2) by (auto simp: table_is_def)
  obtain h where h: "hash_label hash (ndata name) (label_off ls label) (c_case (c_flags cctx')) = Some h"
    using hash_label_total [OF n(1), of label] Suc.prems(2) by auto
  have un: "A \<union> {b_used b + label_off ls (Suc label)} \<inter> {..<0x4000} \<union> new_offs b ls label =
      A \<union> new_offs b ls (Suc label)"
    by (auto simp: new_offs_def le_Suc_eq)
  show ?case
  proof (cases r)
    case False
    have "cinv (A \<union> new_offs b ls (Suc label)) cctx'"
      by (rule cinv_mono [OF r(3)]) (auto simp: new_offs_def)
    then show ?thesis using r False by (subst insert_labels.simps) simp
  next
    case True
    from Suc.IH [OF r(3), of h 0] Suc.prems(2) obtain cctx'' where
      "insert_labels cctx' b name label h 0 = Some cctx''" "c_flags cctx'' = c_flags cctx'"
      "cinv (A \<union> new_offs b ls (Suc label)) cctx''" unfolding un by auto
    then show ?thesis using r True os pk h by (subst insert_labels.simps) simp
  qed
qed

section \<open>Matching names in the message\<close>

text \<open>Octets and labels as they are compared: as they are, or with case folded.\<close>

definition fo :: "bool \<Rightarrow> u8 \<Rightarrow> u8" where
  "fo s = (if s then id else isc__ascii_tolower1)"

abbreviation fo_labels :: "bool \<Rightarrow> bytes list \<Rightarrow> bytes list" where
  "fo_labels s \<equiv> map (map (fo s))"

lemma fo_small: "unat c \<le> 63 \<Longrightarrow> fo s c = c"
  by (simp add: fo_def tolower1_small)

lemma fo_small_eq: "fo s x = fo s y \<Longrightarrow> unat y \<le> 63 \<Longrightarrow> x = y"
  by (metis fo_def fo_small id_apply tolower1_small_iff)

lemma lower_fo: "fo_labels s ls = fo_labels s ls' \<Longrightarrow> lower_labels ls = lower_labels ls'"
  by (cases s) (auto simp: fo_def id_def)

lemma match_wirename_eq:
  assumes "len \<le> length a" "len \<le> length b"
  shows "match_wirename a b len s = Some (map (fo s) (take len a) = map (fo s) (take len b))"
  using assms
  by (cases s) (auto simp: match_wirename_def fo_def isc_ascii_lowerequal_def isc_ascii_lowerequal_on_eq)

lemma wire_fo:
  "(\<And>l. l \<in> set ls \<Longrightarrow> length l \<le> 63) \<Longrightarrow> map (fo s) (wire ls) = wire (fo_labels s ls)"
proof (induction ls)
  case (Cons l ls)
  then have "length l \<le> 63" by simp
  then have "fo s (of_nat (length l)) = of_nat (length l)" by (simp add: fo_small)
  with Cons show ?case by simp
qed simp

text \<open>Octets that fold to the wire form of \<open>ls\<close> are the wire form of labels that fold to \<open>ls\<close>.\<close>

lemma fo_wire_labels:
  "map (fo s) x = map (fo s) (wire ls) \<Longrightarrow> (\<And>l. l \<in> set ls \<Longrightarrow> length l \<le> 63) \<Longrightarrow>
   \<exists>ls'. x = wire ls' \<and> fo_labels s ls' = fo_labels s ls"
proof (induction ls arbitrary: x)
  case (Cons l ls)
  then have l: "length l \<le> 63" by simp
  from Cons.prems(1) obtain c x1 x2 where x: "x = c # x1 @ x2"
      and c: "fo s c = fo s (of_nat (length l))" and x1: "map (fo s) x1 = map (fo s) l"
      and x2: "map (fo s) x2 = map (fo s) (wire ls)"
    by (auto simp: map_eq_Cons_conv map_eq_append_conv)
  have "c = of_nat (length l)" using fo_small_eq [OF c] l by simp
  moreover have "length x1 = length l" using x1 by (metis length_map)
  moreover obtain ls' where "x2 = wire ls'" "fo_labels s ls' = fo_labels s ls"
    using Cons.IH [OF x2] Cons.prems(2) by auto
  ultimately show ?case using x x1 by (intro exI [of _ "x1 # ls'"]) simp
qed simp

text \<open>An uncompressed name in the message spells itself, and so does a name whose prefix is
  written out and whose rest is spelled from where the prefix ends.\<close>

lemma dn_prefix:
  assumes "take (length (wire ps)) (drop p src) = wire ps" "p + length (wire ps) \<le> smax"
    "\<forall>l\<in>set ps. l \<noteq> [] \<and> length l \<le> 63" "dn lo src smax m (p + length (wire ps)) ls e" "smax \<le> length src"
  shows "dn lo src smax m p (ps @ ls) e"
  using assms
proof (induction ps arbitrary: p)
  case (Cons l ps)
  let ?n = "length l"
  have n: "0 < ?n" "?n \<le> 63" using Cons.prems(3) by auto
  have w: "take (Suc ?n + length (wire ps)) (drop p src) = (of_nat ?n # l) @ wire ps"
    using Cons.prems(1) by simp
  have p: "p < smax" using Cons.prems(2) by simp
  have d: "drop p src = src ! p # drop (p + 1) src" using p Cons.prems(5) by (simp add: Cons_nth_drop_Suc)
  have a: "src ! p = of_nat ?n" "take (?n + length (wire ps)) (drop (p + 1) src) = l @ wire ps"
    using w unfolding d by auto
  have l: "take ?n (drop (p + 1) src) = l"
    using arg_cong [OF a(2), of "take ?n"] by simp
  have r: "take (length (wire ps)) (drop (p + 1 + ?n) src) = wire ps"
    using arg_cong [OF a(2), of "drop ?n"] by (simp add: drop_take add.commute add.left_commute)
  have "dn lo src smax m (p + 1 + ?n) (ps @ ls) e"
    using Cons.prems r by (intro Cons.IH) (auto simp: add.assoc)
  from dn_label [OF p _ n this] a(1) n l show ?case by simp
qed simp

lemma dn_uncompressed:
  assumes "take (length (wire ls)) (drop p src) = wire ls" "p + length (wire ls) \<le> smax"
    "labels_ok ls" "rooted ls" "smax \<le> length src"
  shows "dn lo src smax m p ls (p + length (wire ls))"
proof -
  obtain ps where ps: "ls = ps @ [[]]" using assms(4) by (metis append_butlast_last_id rooted_def)
  let ?q = "p + length (wire ps)"
  have q: "?q < smax" using assms(2) ps by simp
  have t: "take (length (wire ps)) (drop p src) = wire ps"
    using arg_cong [OF assms(1), of "take (length (wire ps))"] ps by simp
  have "take (Suc (length (wire ps))) (drop p src) ! length (wire ps) = 0"
    using assms(1) ps by (simp add: nth_append)
  then have z: "src ! ?q = 0" using q assms(5) by simp
  have "dn lo src smax m p (ps @ [[]]) (?q + 1)"
    using assms(2,3,5) ps t dn_root [OF q z] by (intro dn_prefix) (auto simp: labels_ok_def)
  then show ?thesis using ps by simp
qed

lemma pointer_octets_all:
  "list_all (\<lambda>k. unat (0xc0 OR of_nat k :: u8) = 192 + k \<and>
     unat ((0xc0 OR of_nat k :: u8) AND 0x3f) = k) [0..<64]"
  by code_simp

lemma pointer_octets:
  "k < 64 \<Longrightarrow> unat (0xc0 OR of_nat k :: u8) = 192 + k"
  "k < 64 \<Longrightarrow> unat ((0xc0 OR of_nat k :: u8) AND 0x3f) = k"
  using pointer_octets_all by (auto simp: list_all_iff)

lemma pointer_value:
  assumes "c < 0x4000"
  shows "192 \<le> unat (0xc0 OR of_nat (c div 256) :: u8)"
    "256 * unat ((0xc0 OR of_nat (c div 256) :: u8) AND 0x3f) + unat (of_nat c :: u8) = c"
proof -
  have k: "c div 256 < 64" using assms by (simp add: less_mult_imp_div_less)
  show "192 \<le> unat (0xc0 OR of_nat (c div 256) :: u8)" using pointer_octets(1) [OF k] by simp
  have "unat (of_nat c :: u8) = c mod 256" by (simp add: unat_of_nat take_bit_eq_mod)
  then show "256 * unat ((0xc0 OR of_nat (c div 256) :: u8) AND 0x3f) + unat (of_nat c :: u8) = c"
    using pointer_octets(2) [OF k] by simp
qed

text \<open>
  The suffix matched so far: none, when only the root remains, or one spelled at \<open>c\<close>.
\<close>

definition matched :: "bool \<Rightarrow> isc_buffer \<Rightarrow> nat \<Rightarrow> bytes list \<Rightarrow> bool" where
  "matched s b c ls \<longleftrightarrow>
     (c = 0 \<and> ls = [[]]) \<or>
     (0 < c \<and> c < 0x4000 \<and>
      (\<exists>m os e. dn 1 (b_base b) (b_used b) m c os e \<and> m \<le> c \<and> fo_labels s os = fo_labels s ls))"

lemma dn_at_zero: "dn lo src smax m p ls e \<Longrightarrow> src ! p = 0 \<Longrightarrow> ls = [[]]"
  by (erule dn.cases) auto

lemma dn_at_label:
  assumes "dn lo src smax m p ls e" "0 < unat (src ! p)" "unat (src ! p) \<le> 63"
  shows "\<exists>ls'. ls = take (unat (src ! p)) (drop (p + 1) src) # ls' \<and>
     dn lo src smax m (p + 1 + unat (src ! p)) ls' e"
  using assms by (cases rule: dn.cases) auto

lemma dn_at_pointer:
  assumes "dn lo src smax m p ls e" "192 \<le> unat (src ! p)"
  shows "\<exists>e'. lo \<le> 256 * unat (src ! p AND 0x3f) + unat (src ! (p + 1)) \<and>
     dn lo src smax (256 * unat (src ! p AND 0x3f) + unat (src ! (p + 1)))
       (256 * unat (src ! p AND 0x3f) + unat (src ! (p + 1))) ls e'"
  using assms by (cases rule: dn.cases) auto

lemma rest_matches_root:
  "dn 1 src smax m p rest e \<Longrightarrow> src ! p = 0 \<Longrightarrow> length (wire ls) = 1 \<Longrightarrow> fo_labels s rest = fo_labels s ls"
proof -
  assume "dn 1 src smax m p rest e" "src ! p = 0" "length (wire ls) = 1"
  moreover from this(3) have "ls = [[]]"
  proof (cases ls)
    case (Cons l ls')
    with \<open>length (wire ls) = 1\<close> have "l = []" "wire ls' = []" by auto
    moreover from this(2) have "ls' = []" by (cases ls') auto
    ultimately show ?thesis using Cons by simp
  qed simp
  ultimately show ?thesis using dn_at_zero by simp
qed

lemma rest_matches_pointer:
  assumes "dn 1 (b_base b) (b_used b) m p rest e" "matched s b c ls"
    "b_base b ! p = 0xc0 OR of_nat (c div 256)" "b_base b ! (p + 1) = of_nat c"
  shows "fo_labels s rest = fo_labels s ls"
proof -
  have c: "c < 0x4000" using assms(2) by (auto simp: matched_def)
  note v = pointer_value [OF c]
  from dn_at_pointer [OF assms(1)] assms(3,4) v obtain e'
    where d: "1 \<le> c" "dn 1 (b_base b) (b_used b) c c rest e'" by (auto simp del: of_nat_div)
  from assms(2) d(1) obtain m' os e'' where "dn 1 (b_base b) (b_used b) m' c os e''"
      "fo_labels s os = fo_labels s ls" by (auto simp: matched_def)
  with dn_det [OF d(2)] show ?thesis by blast
qed

lemma labels_ok_lengths:
  "labels_ok ls \<longleftrightarrow> (\<forall>n\<in>set (map length ls). n \<le> 63) \<and> (\<forall>n\<in>set (butlast (map length ls)). 0 < n) \<and>
     sum_list (map Suc (map length ls)) \<le> 255"
  by (simp add: labels_ok_def length_wire comp_def flip: map_butlast)

lemma rooted_lengths: "rooted ls \<longleftrightarrow> map length ls \<noteq> [] \<and> last (map length ls) = 0"
  by (auto simp: rooted_def last_map)

lemma rest_matches_copy:
  assumes "dn 1 src smax m p rest e" "map (fo s) (take (length (wire ls)) (drop p src)) = map (fo s) (wire ls)"
    "p + length (wire ls) \<le> smax" "smax \<le> length src" "labels_ok ls" "rooted ls"
  shows "fo_labels s rest = fo_labels s ls"
proof -
  have sm: "\<And>l. l \<in> set ls \<Longrightarrow> length l \<le> 63" using assms(5) by (auto simp: labels_ok_def)
  from fo_wire_labels [OF assms(2) sm] obtain ls' where
    ls': "take (length (wire ls)) (drop p src) = wire ls'" "fo_labels s ls' = fo_labels s ls" by blast
  have len: "length (wire ls') = length (wire ls)"
    using arg_cong [OF ls'(1), of length] assms(3,4) by simp
  have e: "map length ls' = map length ls"
    using arg_cong [OF ls'(2), of "map length"] by (simp add: comp_def)
  have "labels_ok ls'" using assms(5) e by (simp add: labels_ok_lengths)
  moreover have "rooted ls'" using assms(6) e by (simp add: rooted_lengths)
  ultimately have "dn 1 src smax m p ls' (p + length (wire ls'))"
    using ls'(1) len assms(3,4) by (intro dn_uncompressed) auto
  with dn_det [OF assms(1)] ls'(2) show ?thesis by blast
qed

text \<open>The label compared first: the entry then spells a label that folds to it.\<close>

lemma match_label_sound:
  assumes d: "dn 1 src smax st p els e0" and l: "l \<noteq> []" "length l \<le> 63"
    and in_src: "p + (length l + 1) \<le> length src"
    and m: "map (fo s) (take (length l + 1) (drop p src)) = map (fo s) (of_nat (length l) # l)"
  shows "\<exists>l' rest. els = l' # rest \<and> map (fo s) l' = map (fo s) l \<and>
     dn 1 src smax st (p + (length l + 1)) rest e0"
proof -
  have c: "take (length l + 1) (drop p src) = src ! p # take (length l) (drop (p + 1) src)"
    using in_src by (simp add: Cons_nth_drop_Suc [symmetric])
  from m have h: "fo s (src ! p) = fo s (of_nat (length l))"
    and t: "map (fo s) (take (length l) (drop (p + 1) src)) = map (fo s) l"
    unfolding c by auto
  have "src ! p = of_nat (length l)" using fo_small_eq [OF h] l by simp
  then have u: "unat (src ! p) = length l" using l by simp
  from dn_at_label [OF d] u l obtain rest where
    "els = take (length l) (drop (p + 1) src) # rest" "dn 1 src smax st (p + 1 + length l) rest e0"
    by auto
  with t show ?thesis by auto
qed

lemma match_suffix_sound:
  assumes b: "buf_ok b" and d: "dn 1 (b_base b) (b_used b) st new_coff els e0"
    and sp: "take (length (wire (l # ls))) sp = wire (l # ls)"
    and ok: "labels_ok (l # ls)" "rooted (l # ls)" "ls \<noteq> []"
    and old: "matched s b old_coff ls"
  shows "\<exists>r. match_suffix b new_coff sp (length (wire (l # ls))) old_coff s = Some r \<and>
     (r \<longrightarrow> fo_labels s els = fo_labels s (l # ls))"
proof -
  let ?B = "b_base b" and ?U = "b_used b" and ?L = "length l + 1" and ?q = "new_coff + (length l + 1)"
  note B = buf_okD [OF b]
  have l: "l \<noteq> []" "length l \<le> 63" and lok: "labels_ok ls"
    using labels_ok_Cons [OF ok(1)] ok(3) by auto
  have rt: "rooted ls" using ok(2,3) by (simp add: rooted_def)
  have w: "0 < length (wire ls)" using ok(3) by (cases ls) auto
  have lsp: "?L + length (wire ls) \<le> length sp" using arg_cong [OF sp, of length] by simp
  obtain rest0 where sp': "sp = of_nat (length l) # l @ wire ls @ rest0"
    using sp by (metis append_take_drop_id append.assoc append_Cons wire_simps(2))
  have pk: "peek sp 0 = Some (of_nat (length l))" "unat (of_nat (length l) :: u8) + 1 = ?L"
    using sp' l by simp_all
  have tsp: "take ?L sp = of_nat (length l) # l" "drop ?L sp = wire ls @ rest0" using sp' by simp_all
  show ?thesis
  proof (cases "?U < ?q")
    case True
    then show ?thesis using pk l w by (auto simp: match_suffix_def Let_def)
  next
    case in_msg: False
    then have inB: "?q \<le> length ?B" using B by simp
    let ?m = "map (fo s) (take ?L (drop new_coff ?B)) = map (fo s) (take ?L sp)"
    have mw: "match_wirename (drop new_coff ?B) sp ?L s = Some ?m"
      using inB lsp by (intro match_wirename_eq) auto
    have dd: "drop ?L (drop new_coff ?B) = drop ?q ?B" by (simp add: add.commute)
    have bl: "?U - new_coff - ?L = ?U - ?q" by simp
    have sl: "length (wire (l # ls)) - ?L = length (wire ls)" by simp
    have c1: "\<not> ?U < new_coff + ?L" "?L \<le> 64 \<and> ?L < length (wire (l # ls))" using in_msg l w by auto
    let ?root = "if ?U - ?q \<ge> 1 \<and> length (wire ls) = 1 then do {
          b0 \<leftarrow> peek (drop ?q ?B) 0; s0 \<leftarrow> peek (wire ls @ rest0) 0; Some (b0 = 0 \<and> s0 = 0) } else Some False"
    let ?ptr = "if ?U - ?q \<ge> 2 then do {
          b0 \<leftarrow> peek (drop ?q ?B) 0; b1 \<leftarrow> peek (drop ?q ?B) 1;
          Some (b0 = 0xc0 OR of_nat (old_coff div 256) \<and> b1 = of_nat old_coff) } else Some False"
    let ?copy = "if ?U - ?q \<ge> length (wire ls) then match_wirename (drop ?q ?B) (wire ls @ rest0) (length (wire ls)) s
        else Some False"
    have ms: "match_suffix b new_coff sp (length (wire (l # ls))) old_coff s =
        (if \<not> ?m then Some False else if old_coff = ?q then Some True
         else do { r \<leftarrow> ?root; if r then Some True else do { p \<leftarrow> ?ptr; if p then Some True else ?copy } })"
      unfolding match_suffix_def Let_def pk bind.bind_lunit INSIST_True [OF c1(2)] mw dd bl sl tsp(2)
      by (simp only: c1(1) if_False)
    show ?thesis
    proof (cases ?m)
      case False
      then show ?thesis unfolding ms by auto
    next
      case m: True
      then have m': "map (fo s) (take ?L (drop new_coff ?B)) = map (fo s) (of_nat (length l) # l)"
        unfolding tsp(1) .
      from match_label_sound [OF d l inB m'] obtain l' rest where
        els: "els = l' # rest" "map (fo s) l' = map (fo s) l" and dr: "dn 1 ?B ?U st ?q rest e0" by blast
      have goal: "fo_labels s rest = fo_labels s ls \<Longrightarrow> fo_labels s els = fo_labels s (l # ls)"
        using els by simp
      have R: "?root = Some (?U - ?q \<ge> 1 \<and> length (wire ls) = 1 \<and> ?B ! ?q = 0 \<and> (wire ls @ rest0) ! 0 = 0)"
        using inB B w by auto
      have P: "?ptr = Some (?U - ?q \<ge> 2 \<and> ?B ! ?q = 0xc0 OR of_nat (old_coff div 256) \<and>
          ?B ! (?q + 1) = of_nat old_coff)"
        using inB B by auto
      have C: "?copy = Some (?U - ?q \<ge> length (wire ls) \<and>
          map (fo s) (take (length (wire ls)) (drop ?q ?B)) = map (fo s) (wire ls))"
        using inB B by (auto simp: match_wirename_eq)
      have old_case: "fo_labels s rest = fo_labels s ls" if "old_coff = ?q"
      proof -
        from old that obtain m os e where "dn 1 ?B ?U m ?q os e" "fo_labels s os = fo_labels s ls"
          by (auto simp: matched_def)
        with dn_det [OF dr] show ?thesis by blast
      qed
      have root_case: "fo_labels s rest = fo_labels s ls" if "length (wire ls) = 1" "?B ! ?q = 0"
        using rest_matches_root [OF dr that(2,1)] .
      have ptr_case: "fo_labels s rest = fo_labels s ls"
        if "?B ! ?q = 0xc0 OR of_nat (old_coff div 256)" "?B ! (?q + 1) = of_nat old_coff"
        using rest_matches_pointer [OF dr old that] .
      have copy_case: "fo_labels s rest = fo_labels s ls"
        if "?U - ?q \<ge> length (wire ls)"
          "map (fo s) (take (length (wire ls)) (drop ?q ?B)) = map (fo s) (wire ls)"
        using rest_matches_copy [OF dr that(2)] that(1) in_msg B lok rt by auto
      show ?thesis
        unfolding ms R P C
        using m goal old_case root_case ptr_case copy_case by auto
    qed
  qed
qed


section \<open>Searching\<close>

text \<open>Every offset of the set spells a name in the message.\<close>

definition spelled :: "isc_buffer \<Rightarrow> nat set" where
  "spelled b = {c. 0 < c \<and> c < 0x4000 \<and> (\<exists>st ls e. st \<le> c \<and> dn 1 (b_base b) (b_used b) st c ls e)}"

lemma search_probe_sound:
  assumes I: "cinv (spelled b) cctx" and b: "buf_ok b" and probe: "probe \<le> c_mask cctx + 1"
    and sp: "take (length (wire (l # ls))) sp = wire (l # ls)"
    and ok: "labels_ok (l # ls)" "rooted (l # ls)" "ls \<noteq> []"
    and old: "matched (c_case (c_flags cctx)) b old_coff ls"
  shows "\<exists>r. search_probe cctx b sp (length (wire (l # ls))) old_coff hash probe = Some r \<and>
     (\<forall>c. r = Inr c \<longrightarrow> matched (c_case (c_flags cctx)) b c (l # ls) \<and> 0 < c)"
  using probe
proof (induction "Suc (c_mask cctx) - probe" arbitrary: probe rule: less_induct)
  case less
  obtain N where sz: "set_size cctx N" using I by (auto simp: cinv_def)
  note N = set_sizeD [OF sz]
  let ?slot = "slot_index cctx (unat hash) probe"
  have sl: "?slot < N" using slot_index_eq [OF sz] N(1) by auto
  let ?s = "c_set cctx ! ?slot"
  have pk: "peek (c_set cctx) ?slot = Some ?s" using sl N by simp
  obtain dist where d: "probe_distance cctx ?slot = Some dist"
    using probe_distance_eq [OF sz sl] by blast
  have dle: "dist \<le> c_mask cctx" using probe_distance_le [OF d] .
  show ?case
  proof (cases "s_coff ?s = 0 \<or> probe > dist")
    case True
    then show ?thesis by (subst search_probe.simps) (simp add: Let_def pk d)
  next
    case False
    then have "s_coff ?s \<in> spelled b" using I sl N by (auto simp: cinv_def)
    then obtain st els e where en: "0 < s_coff ?s" "s_coff ?s < 0x4000" "st \<le> s_coff ?s"
        "dn 1 (b_base b) (b_used b) st (s_coff ?s) els e" by (auto simp: spelled_def)
    let ?c = "c_case (c_flags cctx)"
    let ?m = "if hash = s_hash ?s then match_suffix b (s_coff ?s) sp (length (wire (l # ls))) old_coff ?c
        else Some False"
    obtain r where r: "?m = Some r" "r \<Longrightarrow> fo_labels ?c els = fo_labels ?c (l # ls)"
    proof (cases "hash = s_hash ?s")
      case True
      then show ?thesis using that match_suffix_sound [OF b en(4) sp ok old] by auto
    next
      case False
      then show ?thesis using that [of False] by simp
    qed
    have step: "search_probe cctx b sp (length (wire (l # ls))) old_coff hash probe =
        (if r then Some (Inr (s_coff ?s))
         else search_probe cctx b sp (length (wire (l # ls))) old_coff hash (probe + 1))"
      by (subst search_probe.simps) (use False r(1) in \<open>simp add: Let_def pk d\<close>)
    show ?thesis
    proof (cases r)
      case True
      then have "matched ?c b (s_coff ?s) (l # ls)"
        unfolding matched_def using en r(2) by blast
      then show ?thesis using step True en(1) by auto
    next
      case nr: False
      have "\<exists>r. search_probe cctx b sp (length (wire (l # ls))) old_coff hash (probe + 1) = Some r \<and>
          (\<forall>c. r = Inr c \<longrightarrow> matched ?c b c (l # ls) \<and> 0 < c)"
        using less.hyps [of "probe + 1"] dle False by auto
      then show ?thesis using step nr by simp
    qed
  qed
qed

lemma suffix_at:
  assumes "name_rep name ls" "i \<le> length ls"
  shows "take (length (wire (drop i ls))) (drop (label_off ls i) (ndata name)) = wire (drop i ls)"
    "n_length name - label_off ls i = length (wire (drop i ls))"
proof -
  have w: "wire ls = wire (take i ls) @ wire (drop i ls)" by (metis append_take_drop_id wire_simps(3))
  with name_rep_split [OF assms(1)]
  have "drop (label_off ls i) (ndata name) = wire (drop i ls) @ drop (length (wire ls)) (ndata name)"
    by (metis append.assoc append_eq_conv_conj label_off_def)
  then show "take (length (wire (drop i ls))) (drop (label_off ls i) (ndata name)) = wire (drop i ls)"
    by simp
  show "n_length name - label_off ls i = length (wire (drop i ls))"
    using name_repD(2) [OF assms(1)] w by (simp add: label_off_def)
qed

text \<open>
  The search from the end of the name: what it returns is spelled in the message, and what it
  adds to the set are offsets of the part of the name that will be written.
\<close>

lemma compress_loop_sound:
  assumes I: "cinv (spelled b) cctx" and b: "buf_ok b" "0 < b_used b"
    and n: "name_rep name ls" "offsets name \<noteq> None" "rooted ls"
    and i: "i < length ls" and old: "matched (c_case (c_flags cctx)) b rc (drop i ls)"
    and rp: "rp = (if rc = 0 then n_length name else label_off ls i)"
  shows "\<exists>cctx' rc' j. compress_loop cctx b name i hash rp rc =
       Some (cctx', if rc' = 0 then n_length name else label_off ls j, rc') \<and>
     c_flags cctx' = c_flags cctx \<and> j \<le> i \<and> (rc' = 0 \<longrightarrow> j = length ls - 1) \<and>
     matched (c_case (c_flags cctx)) b rc' (drop j ls) \<and>
     (cinv (spelled b) cctx' \<or> (0 < j \<and> cinv (spelled b \<union> new_offs b ls (j - 1)) cctx'))"
  using i old rp
proof (induction i arbitrary: hash rp rc)
  case 0
  then show ?case
    using I by (intro exI [of _ cctx] exI [of _ rc] exI [of _ 0]) (auto simp: matched_def)
next
  case (Suc i)
  have il: "i < length ls" using Suc.prems(1) by simp
  let ?l = "ls ! i" and ?rest = "drop (Suc i) ls" and ?s = "c_case (c_flags cctx)"
  have dr: "drop i ls = ?l # ?rest" using il by (simp add: Cons_nth_drop_Suc)
  obtain os where os: "offsets name = Some os" using n(2) by blast
  then have pk: "peek os i = Some (os ! i)" "unat (os ! i) = label_off ls i"
    using name_repD(10) [OF n(1) os] il by (auto simp: table_is_def)
  obtain h where h: "hash_label hash (ndata name) (label_off ls i) ?s = Some h"
    using hash_label_total [OF n(1) il] by blast
  have sx: "take (length (wire (?l # ?rest))) (drop (label_off ls i) (ndata name)) = wire (?l # ?rest)"
      "n_length name - label_off ls i = length (wire (?l # ?rest))"
    using suffix_at [OF n(1), of i] il dr by auto
  have ok: "labels_ok (?l # ?rest)" "?rest \<noteq> []" "rooted (?l # ?rest)"
    using labels_ok_drop [OF name_repD(4) [OF n(1)], of i] dr Suc.prems(1) n(3)
    by (auto simp: rooted_def last_drop)
  from search_probe_sound [OF I b(1) _ sx(1) ok(1,3,2) Suc.prems(2), of 0 h]
  obtain r where r: "search_probe cctx b (drop (label_off ls i) (ndata name)) (length (wire (?l # ?rest))) rc h 0 = Some r"
      "\<And>c. r = Inr c \<Longrightarrow> matched ?s b c (drop i ls) \<and> 0 < c" using dr by auto
  show ?case
  proof (cases r)
    case (Inl probe)
    from insert_labels_ok [OF I n(1,2) b(2) il, of h probe] obtain cctx' where
      c: "insert_labels cctx b name i h probe = Some cctx'" "c_flags cctx' = c_flags cctx"
        "cinv (spelled b \<union> new_offs b ls i) cctx'" by blast
    have z: "rc = 0 \<longrightarrow> Suc i = length ls - 1"
    proof
      assume "rc = 0"
      then have e: "?rest = [[]]" using Suc.prems(2) by (simp add: matched_def)
      from arg_cong [OF e, of length] show "Suc i = length ls - 1" by simp
    qed
    have "compress_loop cctx b name (Suc i) hash rp rc = Some (cctx', rp, rc)"
      using os pk h sx(2) r(1) Inl c(1) by (simp add: Let_def)
    then show ?thesis
      using c Suc.prems(2,3) z
      by (intro exI [of _ cctx'] exI [of _ rc] exI [of _ "Suc i"]) auto
  next
    case (Inr c)
    note m = r(2) [OF Inr]
    have "compress_loop cctx b name (Suc i) hash rp rc = compress_loop cctx b name i h (label_off ls i) c"
      using os pk h sx(2) r(1) Inr by (simp add: Let_def)
    moreover from Suc.IH [OF il, of c "label_off ls i" h] m obtain cctx' rc' j where
      "compress_loop cctx b name i h (label_off ls i) c =
         Some (cctx', if rc' = 0 then n_length name else label_off ls j, rc')"
      "c_flags cctx' = c_flags cctx" "j \<le> i" "rc' = 0 \<longrightarrow> j = length ls - 1"
      "matched ?s b rc' (drop j ls)"
      "cinv (spelled b) cctx' \<or> 0 < j \<and> cinv (spelled b \<union> new_offs b ls (j - 1)) cctx'" by auto
    ultimately show ?thesis by (intro exI [of _ cctx'] exI [of _ rc'] exI [of _ j]) auto
  qed
qed

section \<open>Rolling back\<close>

lemma filter_mset_empty_slot [simp]: "filter_mset (\<lambda>s. 0 < s_coff s \<and> P s) {#empty_slot#} = {#}"
  by (simp add: empty_slot_def)

lemma empty_slot_coff [simp]: "s_coff empty_slot = 0"
  by (simp add: empty_slot_def)

lemma rollback_slide_ok:
  assumes "set_size cctx N" "prev < N" "s_coff (c_set cctx ! prev) \<noteq> 0" "k < fuel"
    "s_coff (c_set cctx ! ((prev + 1 + k) mod N)) = 0"
  shows "\<exists>ss. rollback_slide fuel cctx prev =
       Some (cctx\<lparr>c_set := ss, c_count := (c_count cctx + (2 ^ 16 - 1)) mod 2 ^ 16\<rparr>) \<and>
     length ss = N \<and> mset ss = add_mset empty_slot (mset (c_set cctx) - {#c_set cctx ! prev#})"
  using assms
proof (induction fuel arbitrary: cctx prev k)
  case (Suc fuel)
  note sz = Suc.prems(1)
  note N = set_sizeD [OF sz]
  let ?next = "(prev + 1) mod N" and ?ss = "c_set cctx"
  have nx: "slot_index cctx prev 1 = ?next" "?next < N" "?next \<noteq> prev"
    using slot_index_eq [OF sz] N(1) Suc.prems(2) by (auto simp: mod_Suc)
  have pk: "peek ?ss ?next = Some (?ss ! ?next)" using nx N(3) by simp
  let ?d = "usub ?next (unat (s_hash (?ss ! ?next))) mod N"
  have d: "probe_distance cctx ?next = Some ?d" by (rule probe_distance_eq [OF sz nx(2)])
  have pl: "prev < length ?ss" using Suc.prems(2) N(3) by simp
  show ?case
  proof (cases "s_coff (?ss ! ?next) \<noteq> 0 \<and> ?d \<noteq> 0")
    case True
    let ?cctx = "cctx\<lparr>c_set := ?ss[prev := ?ss ! ?next]\<rparr>"
    have kp: "0 < k" using True Suc.prems(5) by (cases k) auto
    have same: "(?next + 1 + (k - 1)) mod N = (prev + 1 + k) mod N"
      using kp by (simp add: mod_add_left_eq)
    have ne: "(prev + 1 + k) mod N \<noteq> prev" using Suc.prems(3,5) by auto
    have "\<exists>ss. rollback_slide fuel ?cctx ?next =
       Some (?cctx\<lparr>c_set := ss, c_count := (c_count ?cctx + (2 ^ 16 - 1)) mod 2 ^ 16\<rparr>) \<and>
      length ss = N \<and> mset ss = add_mset empty_slot (mset (c_set ?cctx) - {#c_set ?cctx ! ?next#})"
    proof (rule Suc.IH [of ?cctx ?next "k - 1"])
      show "set_size ?cctx N" using sz by (simp add: set_size_def)
      show "s_coff (c_set ?cctx ! ((?next + 1 + (k - 1)) mod N)) = 0"
        unfolding same using ne Suc.prems(5) by simp
    qed (use nx True Suc.prems(4) kp in auto)
    then show ?thesis using True nx d pk pl by (simp add: Let_def mset_update)
  next
    case False
    then show ?thesis using nx d pk pl N(3) by (auto simp: Let_def mset_update)
  qed
qed simp

declare rollback_slide.simps(2) [simp del]

lemma occupied_mset: "occupied ss = size (filter_mset (\<lambda>s. s_coff s \<noteq> 0) (mset ss))"
  by (simp add: occupied_def flip: mset_filter)

lemma slide_from:
  assumes sz: "set_size cctx N" and c: "occupied (c_set cctx) < N" and p: "prev < N"
    "s_coff (c_set cctx ! prev) \<noteq> 0"
  obtains ss where "rollback_slide (c_mask cctx + 2) cctx prev =
       Some (cctx\<lparr>c_set := ss, c_count := (c_count cctx + (2 ^ 16 - 1)) mod 2 ^ 16\<rparr>)"
    "length ss = N" "mset ss = add_mset empty_slot (mset (c_set cctx) - {#c_set cctx ! prev#})"
proof -
  note N = set_sizeD [OF sz]
  obtain i where i: "i < N" "s_coff (c_set cctx ! i) = 0"
    using occupied_has_empty [of "c_set cctx"] c N(3) by auto
  define k where "k = (i + N - (prev + 1)) mod N"
  have "(prev + 1 + k) mod N = (prev + 1 + (i + N - (prev + 1))) mod N"
    unfolding k_def by (rule mod_add_right_eq)
  also have "prev + 1 + (i + N - (prev + 1)) = i + N" using p(1) by simp
  finally have "(prev + 1 + k) mod N = i" using i(1) by simp
  then have e: "s_coff (c_set cctx ! ((prev + 1 + k) mod N)) = 0" using i(2) by simp
  have "k < c_mask cctx + 2" unfolding k_def using N(1,2) by auto
  from rollback_slide_ok [OF sz p this e] that show thesis by blast
qed

lemma rollback_loop_ok:
  assumes "cinv A cctx" "occupied (c_set cctx) < length (c_set cctx)" "0 < coff"
    "\<forall>i\<in>set slots. i < length (c_set cctx)"
  shows "\<exists>cctx'. rollback_loop cctx coff slots = Some cctx' \<and> cinv A cctx' \<and>
     c_flags cctx' = c_flags cctx \<and>
     filter_mset (\<lambda>s. 0 < s_coff s \<and> s_coff s < coff) (mset (c_set cctx')) =
     filter_mset (\<lambda>s. 0 < s_coff s \<and> s_coff s < coff) (mset (c_set cctx))"
  using assms
proof (induction slots arbitrary: cctx)
  case (Cons i slots)
  obtain N where sz: "set_size cctx N" using Cons.prems(1) by (auto simp: cinv_def)
  note N = set_sizeD [OF sz]
  have i: "i < N" "peek (c_set cctx) i = Some (c_set cctx ! i)" using Cons.prems(4) N(3) by auto
  let ?s = "c_set cctx ! i"
  show ?case
  proof (cases "s_coff ?s < coff")
    case True
    then show ?thesis using Cons i by simp
  next
    case False
    have nz: "s_coff ?s \<noteq> 0" using False Cons.prems(3) by simp
    have oc: "occupied (c_set cctx) < N" using Cons.prems(2) N(3) by simp
    obtain ss where ss: "rollback_slide (c_mask cctx + 2) cctx i =
        Some (cctx\<lparr>c_set := ss, c_count := (c_count cctx + (2 ^ 16 - 1)) mod 2 ^ 16\<rparr>)"
      "length ss = N" "mset ss = add_mset empty_slot (mset (c_set cctx) - {#?s#})"
      by (rule slide_from [OF sz oc i(1) nz])
    let ?c = "cctx\<lparr>c_set := ss, c_count := (c_count cctx + (2 ^ 16 - 1)) mod 2 ^ 16\<rparr>"
    have mem: "?s \<in># mset (c_set cctx)" using i(1) N(3) by simp
    have fm: "?s \<in># filter_mset (\<lambda>s. s_coff s \<noteq> 0) (mset (c_set cctx))" using mem nz by simp
    have o: "occupied ss = occupied (c_set cctx) - 1" "0 < occupied (c_set cctx)"
      using fm nz unfolding occupied_mset ss(3)
      by (simp_all add: empty_slot_def size_Diff_singleton nonempty_has_size [symmetric] del: mset_filter)
        (metis empty_iff set_mset_empty)
    have cnt: "c_count ?c = occupied ss"
    proof -
      have "c_count cctx = occupied (c_set cctx)" using Cons.prems(1) by (simp add: cinv_def)
      moreover have "occupied (c_set cctx) < 2 ^ 16" using oc N(1) by auto
      ultimately have "c_count cctx + (2 ^ 16 - 1) = occupied ss + 2 ^ 16" "occupied ss < 2 ^ 16"
        using o by auto
      then show ?thesis by simp
    qed
    have sub: "set ss \<subseteq> insert empty_slot (set (c_set cctx))"
      unfolding set_mset_mset [symmetric] ss(3) by (auto dest: in_diffD)
    have inv: "cinv A ?c"
      using Cons.prems(1) sz ss(2) cnt sub unfolding cinv_def set_size_def
      by (auto simp: CCTX_VALID_def empty_slot_def)
    have f: "filter_mset (\<lambda>s. 0 < s_coff s \<and> s_coff s < coff) (mset ss) =
       filter_mset (\<lambda>s. 0 < s_coff s \<and> s_coff s < coff) (mset (c_set cctx))"
      using False unfolding ss(3) by (simp add: empty_slot_def filter_diff_mset)
    have "\<exists>cctx'. rollback_loop ?c coff slots = Some cctx' \<and> cinv A cctx' \<and>
       c_flags cctx' = c_flags ?c \<and>
       filter_mset (\<lambda>s. 0 < s_coff s \<and> s_coff s < coff) (mset (c_set cctx')) =
       filter_mset (\<lambda>s. 0 < s_coff s \<and> s_coff s < coff) (mset (c_set ?c))"
      by (rule Cons.IH [OF inv]) (use o oc ss(2) N(3) Cons.prems in auto)
    then show ?thesis using False i(2) ss(1) f by simp
  qed
qed simp

lemma rollback_loop_skip:
  "\<forall>i\<in>set slots. i < length (c_set cctx) \<and> s_coff (c_set cctx ! i) < coff \<Longrightarrow>
   rollback_loop cctx coff slots = Some cctx"
  by (induction slots) auto

lemma rollback_loop_append:
  "rollback_loop cctx coff (a @ b) = do { cctx \<leftarrow> rollback_loop cctx coff a; rollback_loop cctx coff b }"
  by (induction a arbitrary: cctx) (auto simp: Option.bind_assoc split: bind_splits)

lemma mod_step: "((c + m) mod M + m * k) mod M = (c + m * Suc k) mod (M :: nat)"
  by (simp only: mod_add_left_eq mult_Suc_right add.assoc)

lemma rollback_loop_zero:
  assumes "set_size cctx N" "c_set cctx = replicate N empty_slot" "\<forall>i\<in>set slots. i < N" "c_count cctx < 2 ^ 16"
  shows "rollback_loop cctx 0 slots =
     Some (cctx\<lparr>c_count := (c_count cctx + (2 ^ 16 - 1) * length slots) mod 2 ^ 16\<rparr>)"
  using assms
proof (induction slots arbitrary: cctx)
  case (Cons i slots)
  note sz = Cons.prems(1) and N = set_sizeD [OF Cons.prems(1)]
  let ?c = "cctx\<lparr>c_count := (c_count cctx + (2 ^ 16 - 1)) mod 2 ^ 16\<rparr>"
  have i: "i < N" "(i + 1) mod N < N" using Cons.prems(3) N(1) by auto
  have nx: "slot_index cctx i 1 = (i + 1) mod N" using slot_index_eq [OF sz] by simp
  have f: "c_mask cctx + 2 = Suc (c_mask cctx + 1)" by simp
  have same: "(replicate N empty_slot)[i := empty_slot] = replicate N empty_slot"
    using i(1) list_update_id [of "replicate N empty_slot" i] by simp
  have "rollback_slide (c_mask cctx + 2) cctx i = Some ?c"
    unfolding f rollback_slide.simps(2) Let_def nx
    using i probe_distance_eq [OF sz i(2)] Cons.prems(2) same
    by (simp add: empty_slot_def)
  then have 1: "rollback_loop cctx 0 (i # slots) = rollback_loop ?c 0 slots"
    using i Cons.prems(2) by (simp del: power.simps add: empty_slot_def)
  have 2: "rollback_loop ?c 0 slots =
     Some (?c\<lparr>c_count := (c_count ?c + (2 ^ 16 - 1) * length slots) mod 2 ^ 16\<rparr>)"
    by (rule Cons.IH) (use Cons.prems in \<open>auto simp: set_size_def\<close>)
  have 3: "(c_count ?c + (2 ^ 16 - 1) * length slots) mod 2 ^ 16 =
      (c_count cctx + (2 ^ 16 - 1) * length (i # slots)) mod 2 ^ 16"
    using mod_step [of "c_count cctx" "2 ^ 16 - 1" "2 ^ 16" "length slots"] by simp
  show ?case unfolding 1 2 3 by simp
qed simp

section \<open>Properties\<close>


definition example_table :: dns_compress where
  "example_table = (dns_compress_init \<lparr>c_disabled = False, c_case = False, c_large = False, c_permitted = True\<rparr>)
     \<lparr>c_count := 2, c_set := (replicate 64 empty_slot)[5 := \<lparr>s_hash = 5, s_coff = 20\<rparr>, 6 := \<lparr>s_hash = 5, s_coff = 30\<rparr>]\<rparr>"

lemma example_table_size: "set_size example_table 64"
  by (simp add: example_table_def set_size_def dns_compress_init_def DNS_COMPRESS_SMALLBITS_def)

lemma occupied_replicate [simp]: "occupied (replicate n empty_slot) = 0"
  by (simp add: occupied_def empty_slot_def)

lemma example_table_set:
  "c_count example_table = 2" "c_mask example_table = 63"
  "c_set example_table = (replicate 64 empty_slot)[5 := \<lparr>s_hash = 5, s_coff = 20\<rparr>, 6 := \<lparr>s_hash = 5, s_coff = 30\<rparr>]"
  by (simp_all add: example_table_def dns_compress_init_def DNS_COMPRESS_SMALLBITS_def)

lemma example_table_valid: "CCTX_VALID example_table"
  by (simp add: example_table_def dns_compress_init_def CCTX_VALID_def Let_def)

lemma replicate_update_same [simp]: "(replicate n x)[i := x] = replicate n x"
  by (metis list_update_beyond list_update_id length_replicate linorder_not_le nth_replicate)

lemma example_table_cinv: "cinv {20, 30} example_table"
proof -
  let ?e = "replicate 64 empty_slot" and ?a = "\<lparr>s_hash = 5, s_coff = 20\<rparr>" and ?b = "\<lparr>s_hash = 5, s_coff = 30\<rparr>"
  have "occupied (?e[5 := ?a]) = 1"
    using occupied_update_empty [of 5 ?e ?a] by simp
  moreover have "occupied (?e[5 := ?a, 6 := ?b]) = occupied (?e[5 := ?a]) + 1"
    by (rule occupied_update_empty) simp_all
  moreover have "set (?e[5 := ?a, 6 := ?b]) \<subseteq> {?a, ?b, empty_slot}"
    by (auto dest!: set_update_subset_insert [THEN subsetD])
  ultimately show ?thesis
    using example_table_size example_table_valid unfolding cinv_def
    by (auto simp: example_table_set)
qed

lemma small_init:
  "dns_compress_init \<lparr>c_disabled = False, c_case = False, c_large = False, c_permitted = True\<rparr> =
     example_table\<lparr>c_count := 0, c_set := replicate 64 empty_slot\<rparr>"
  by (simp add: example_table_def dns_compress_init_def DNS_COMPRESS_SMALLBITS_def)

lemma example_table_inserted:
  "insert_probe 65 (dns_compress_init \<lparr>c_disabled = False, c_case = False, c_large = False, c_permitted = True\<rparr>) 5 20 0 \<bind>
     (\<lambda>c. insert_probe 65 c 5 30 0) = Some example_table"
proof -
  let ?c0 = "example_table\<lparr>c_count := 0, c_set := replicate 64 empty_slot\<rparr>"
  let ?c1 = "example_table\<lparr>c_count := 1, c_set := (replicate 64 empty_slot)[5 := \<lparr>s_hash = 5, s_coff = 20\<rparr>]\<rparr>"
  have z0: "set_size ?c0 64" and z1: "set_size ?c1 64" using example_table_size by (simp_all add: set_size_def)
  have 1: "insert_probe 65 ?c0 5 20 0 = Some ?c1"
    using insert_probe.simps(2) [of 64 ?c0 5 20 0] slot_index_eq [OF z0] by (simp add: Let_def)
  have d: "probe_distance ?c1 5 = Some 0" using probe_distance_eq [OF z1, of 5] by (simp add: usub_def)
  have 2: "insert_probe 64 ?c1 5 30 1 = Some example_table"
    using insert_probe.simps(2) [of 63 ?c1 5 30 1] slot_index_eq [OF z1] by (simp add: example_table_set Let_def)
  have "insert_probe 65 ?c1 5 30 0 = insert_probe 64 ?c1 5 30 1"
    using insert_probe.simps(2) [of 64 ?c1 5 30 0] slot_index_eq [OF z1] d by (simp add: Let_def)
  then show ?thesis unfolding small_init using 1 2 by simp
qed

lemma example_table_rolled_back:
  "map_option (\<lambda>c. c_set c ! 5) (dns_compress_rollback example_table 10) = Some \<lparr>s_hash = 5, s_coff = 30\<rparr>"
proof -
  let ?e = "replicate 64 empty_slot" and ?b = "\<lparr>s_hash = 5, s_coff = 30\<rparr>"
  note z = example_table_size and S = example_table_set
  let ?c1 = "example_table\<lparr>c_set := (c_set example_table)[5 := ?b]\<rparr>"
  let ?c2 = "example_table\<lparr>c_set := ?e[5 := ?b], c_count := 1\<rparr>"
  have z1: "set_size ?c1 64" using z by (simp add: set_size_def)
  have d6: "probe_distance example_table 6 = Some 1" and d7: "probe_distance ?c1 7 = Some 7"
    using probe_distance_eq [OF z, of 6] probe_distance_eq [OF z1, of 7]
    by (simp_all add: S usub_def empty_slot_def)
  have "rollback_slide 65 example_table 5 = rollback_slide 64 ?c1 6"
    using rollback_slide.simps(2) [of 64 example_table 5] slot_index_eq [OF z] d6 by (simp add: S Let_def)
  also have "\<dots> = Some ?c2"
    using rollback_slide.simps(2) [of 63 ?c1 6] slot_index_eq [OF z1] d7
    by (simp add: S Let_def list_update_swap)
  finally have 1: "rollback_slide 65 example_table 5 = Some ?c2" .
  have "[0..<64] = [0..<5] @ 5 # [6..<64]" by (simp add: upt_rec)
  moreover have "rollback_loop example_table 10 [0..<5] = Some example_table"
    by (rule rollback_loop_skip) (auto simp: S)
  moreover have "rollback_loop ?c2 10 [6..<64] = Some ?c2"
    by (rule rollback_loop_skip) (auto simp: S)
  ultimately have "rollback_loop example_table 10 [0..<64] = Some ?c2"
    using 1 by (simp add: rollback_loop_append S del: upt.simps)
  then show ?thesis
    by (simp add: dns_compress_rollback_def S example_table_valid del: upt.simps)
qed


text \<open>
  \<^verbatim>\<open>dns_compress_rollback\<close> does not remove every entry at or above the given offset: an entry that is slid
  down into the slot of a removed one is not looked at again.  Two labels of one hash, at offsets 20 and
  30, sit in slots 5 and 6; rolling back to offset 10 leaves the second in slot 5.
\<close>

theorem rollback_leaves_later:
  "insert_probe 65 (dns_compress_init \<lparr>c_disabled = False, c_case = False, c_large = False, c_permitted = True\<rparr>) 5 20 0 \<bind>
     (\<lambda>c. insert_probe 65 c 5 30 0) = Some example_table \<and>
   map_option (\<lambda>c. c_set c ! 5) (dns_compress_rollback example_table 10) = Some \<lparr>s_hash = 5, s_coff = 30\<rparr>"
  using example_table_inserted example_table_rolled_back by simp

text \<open>
  \<^verbatim>\<open>dns_compress_rollback\<close> to offset 0, which is how a truncated message is cleared, counts down once for every
  slot whether it is used or not: the 16-bit count of an empty table wraps to a number above every
  limit, and every later insertion is refused.
\<close>

theorem rollback_to_zero_disables:
  assumes "\<not> c_large flags" "name_rep name ls" "offsets name \<noteq> None" "label < length ls"
  shows "\<exists>cctx. dns_compress_rollback (dns_compress_init flags) 0 = Some cctx \<and> c_count cctx = 65472 \<and>
     insert_label cctx buffer name label hash probe = Some (False, cctx)"
proof -
  let ?c = "dns_compress_init flags"
  have S: "c_set ?c = replicate 64 empty_slot" "c_mask ?c = 63" "c_count ?c = 0" "CCTX_VALID ?c"
    using assms(1) by (simp_all add: dns_compress_init_def DNS_COMPRESS_SMALLBITS_def CCTX_VALID_def)
  have z: "set_size ?c 64" using S by (simp add: set_size_def)
  have "rollback_loop ?c 0 [0..<64] = Some (?c\<lparr>c_count := (c_count ?c + (2 ^ 16 - 1) * length [0..<64]) mod 2 ^ 16\<rparr>)"
    by (rule rollback_loop_zero [OF z S(1)]) (auto simp: S)
  then have "dns_compress_rollback ?c 0 = Some (?c\<lparr>c_count := 65472\<rparr>)"
    using S by (simp add: dns_compress_rollback_def del: upt.simps)
  moreover obtain os where "offsets name = Some os" using assms(3) by blast
  moreover from this have "label < length os"
    using name_repD(10) [OF assms(2)] assms(4) by (auto simp: table_is_def)
  ultimately show ?thesis using S by (simp add: insert_label_def)
qed

theorem rollback_to_zero_disables_witness:
  "\<exists>cctx. dns_compress_rollback
       (dns_compress_init \<lparr>c_disabled = False, c_case = False, c_large = False, c_permitted = True\<rparr>) 0 = Some cctx \<and>
     c_count cctx = 65472 \<and>
     insert_label cctx (isc_buffer_init [] 0) ((mk_name [[]])\<lparr>offsets := Some [0]\<rparr>) 0 5 0 = Some (False, cctx)"
proof -
  have n: "name_rep ((mk_name [[]])\<lparr>offsets := Some [0]\<rparr>) [[]]"
    using mk_name_is [of "[[]]"]
    by (simp add: name_is_def name_rep_def labels_ok_def table_is_def label_off_def VALID_NAME_def)
  show ?thesis
    using rollback_to_zero_disables [of "\<lparr>c_disabled = False, c_case = False, c_large = False, c_permitted = True\<rparr>", OF _ n]
    by simp
qed

end
