(* ===== verification/Render.thy ===== *)
theory Render
  imports Compress
begin

text \<open>
  What \<^verbatim>\<open>dns_name_towire\<close> of \<^verbatim>\<open>lib/dns/name.c\<close> writes: the names a renderer puts in a message, with
  the compression context they share, and the way \<^verbatim>\<open>dns_name_fromwire\<close> reads them back.
\<close>

section \<open>Writing a name\<close>

lemma pointer_bytes:
  assumes "c < 0x4000"
  shows "ISC_U16TO8_BE (of_nat c OR 0xc000) = [0xc0 OR of_nat (c div 256), of_nat c]"
proof -
  have hi: "ucast (drop_bit 8 (of_nat c OR 0xc000 :: u16)) = (0xc0 OR of_nat (c div 256) :: u8)"
  proof (rule bit_word_eqI)
    fix n assume n: "n < LENGTH(8)"
    then have "n \<in> {0, 1, 2, 3, 4, 5, 6, 7}" by auto
    moreover have "c div 256 = drop_bit 8 c" by (simp add: drop_bit_eq_div)
    ultimately show "bit (ucast (drop_bit 8 (of_nat c OR 0xc000 :: u16)) :: u8) n =
        bit (0xc0 OR of_nat (c div 256) :: u8) n"
      by (auto simp: bit_simps)
  qed
  have lo: "ucast (of_nat c OR 0xc000 :: u16) = (of_nat c :: u8)"
  proof (rule bit_word_eqI)
    fix n assume n: "n < LENGTH(8)"
    then have "n \<in> {0, 1, 2, 3, 4, 5, 6, 7}" by auto
    then show "bit (ucast (of_nat c OR 0xc000 :: u16) :: u8) n = bit (of_nat c :: u8) n"
      by (auto simp: bit_simps)
  qed
  show ?thesis unfolding ISC_U16TO8_BE_def hi lo ..
qed

lemma dns_name_clone_rep:
  assumes "name_is s ls" "name_target t"
  shows "\<exists>t'. dns_name_clone s t = Some t' \<and> name_is t' ls \<and> (offsets t = None \<longleftrightarrow> offsets t' = None) \<and>
     nocompress (attributes t') = nocompress (attributes s)"
proof -
  have sr: "name_rep s ls" and sa: "is_absolute s = rooted ls" using assms(1) by (auto simp: name_is_def)
  note D = name_repD [OF sr]
  let ?a = "(attributes s)\<lparr>readonly := False, dynamic := False, dynoffsets := False\<rparr>"
  let ?t = "t\<lparr>ndata := ndata s, n_length := n_length s, labels := labels s, attributes := ?a\<rparr>"
  have core: "name_core ?t ls"
    using sr assms(2) by (auto simp: name_rep_def VALID_NAME_def name_target_def)
  have room: "table_room ?t" using assms(2) by (simp add: name_target_def table_room_def)
  have e: "dns_name_clone s t = (if labels s > 0 then copy_offsets s ?t else Some ?t)"
    using D(1) assms(2) by (simp add: dns_name_clone_def name_target_def Let_def)
  show ?thesis
  proof (cases "labels s > 0")
    case True
    from copy_offsets_rep [OF sr core room] obtain os
      where os: "copy_offsets s ?t = Some (?t\<lparr>offsets := os\<rparr>)" "name_rep (?t\<lparr>offsets := os\<rparr>) ls"
        "(os = None) = (offsets t = None)" by auto
    then show ?thesis using e True os sa by (auto simp: name_is_def)
  next
    case False
    then have "ls = []" using D by simp
    then have "name_rep ?t ls"
      using core by (auto simp: name_rep_def VALID_NAME_def table_is_def split: option.splits)
    then show ?thesis using e False sa by (auto simp: name_is_def)
  qed
qed

lemma dns_compress_name_sound:
  assumes I: "cinv (spelled b) cctx" and b: "buf_ok b" "0 < b_used b"
    and n: "name_is name ls" "offsets name \<noteq> None" "rooted ls"
  shows "\<exists>cctx' rc j. dns_compress_name cctx b name (n_length name) 0 =
       Some (cctx', if rc = 0 then n_length name else label_off ls j, rc) \<and>
     c_flags cctx' = c_flags cctx \<and> j < length ls \<and> (rc = 0 \<longrightarrow> j = length ls - 1) \<and>
     matched (c_case (c_flags cctx)) b rc (drop j ls) \<and>
     (cinv (spelled b) cctx' \<or> (0 < j \<and> cinv (spelled b \<union> new_offs b ls (j - 1)) cctx'))"
proof -
  have nr: "name_rep name ls" and na: "is_absolute name" using n by (auto simp: name_is_def)
  note D = name_repD [OF nr]
  have ne: "ls \<noteq> []" using n(3) by (simp add: rooted_def)
  have last: "drop (length ls - 1) ls = [[]]"
    using n(3) by (metis append_butlast_last_id append_eq_conv_conj length_butlast rooted_def)
  have m: "matched (c_case (c_flags cctx)) b 0 (drop (length ls - 1) ls)"
    using last by (simp add: matched_def)
  have V: "CCTX_VALID cctx" using I by (simp add: cinv_def)
  have e: "dns_compress_name cctx b name (n_length name) 0 =
      (if c_disabled (c_flags cctx) then Some (cctx, n_length name, 0)
       else compress_loop cctx b name (length ls - 1) HASH_INIT_DJB2 (n_length name) 0)"
    using V buf_okD(1) [OF b(1)] na D(3) ne n(2) by (simp add: dns_compress_name_def)
  show ?thesis
  proof (cases "c_disabled (c_flags cctx)")
    case True
    then show ?thesis
      using e m ne I by (intro exI [of _ cctx] exI [of _ 0] exI [of _ "length ls - 1"]) auto
  next
    case False
    have l: "length ls - 1 < length ls" using ne by simp
    from compress_loop_sound [OF I b nr n(2,3) l m, of "n_length name" HASH_INIT_DJB2] obtain cctx' rc' j where
      "compress_loop cctx b name (length ls - 1) HASH_INIT_DJB2 (n_length name) 0 =
         Some (cctx', if rc' = 0 then n_length name else label_off ls j, rc')"
      "c_flags cctx' = c_flags cctx" "j \<le> length ls - 1" "rc' = 0 \<longrightarrow> j = length ls - 1"
      "matched (c_case (c_flags cctx)) b rc' (drop j ls)"
      "cinv (spelled b) cctx' \<or> 0 < j \<and> cinv (spelled b \<union> new_offs b ls (j - 1)) cctx'" by auto
    then show ?thesis
      using e False l by (intro exI [of _ cctx'] exI [of _ rc'] exI [of _ j]) auto
  qed
qed

lemma appended_facts:
  assumes "buf_ok t" "appended t v t'"
  shows "b_used t' = b_used t + length v" "take (b_used t) (b_base t') = take (b_used t) (b_base t)"
    "take (length v) (drop (b_used t) (b_base t')) = v" "b_used t' \<le> length (b_base t')"
proof -
  have ok: "buf_ok t'" and c: "buf_content t' = buf_content t @ v" using assms(2) by (auto simp: appended_def)
  note T = buf_okD [OF assms(1)] and T' = buf_okD [OF ok]
  have "length (buf_content t') = b_used t + length v" using c assms(1) by simp
  then show u: "b_used t' = b_used t + length v" using ok by simp
  have c': "take (b_used t + length v) (b_base t') = take (b_used t) (b_base t) @ v"
    using c unfolding buf_content_def u .
  from arg_cong [OF this, of "take (b_used t)"]
  show "take (b_used t) (b_base t') = take (b_used t) (b_base t)" using T by (simp add: min_def)
  from arg_cong [OF c', of "drop (b_used t)"]
  show "take (length v) (drop (b_used t) (b_base t')) = v" using T by (simp add: drop_take)
  show "b_used t' \<le> length (b_base t')" using T' by simp
qed

lemma dn_appended:
  assumes "buf_ok t" "appended t v t'" "dn lo (b_base t) (b_used t) m p ls e" "m \<le> m'"
  shows "dn lo (b_base t') (b_used t') m' p ls e"
  using dn_mono [OF assms(3) _ appended_facts(2) [OF assms(1,2)] assms(4)] appended_facts(1) [OF assms(1,2)]
  by simp

lemma spelled_appended: "buf_ok t \<Longrightarrow> appended t v t' \<Longrightarrow> spelled t \<subseteq> spelled t'"
  unfolding spelled_def using dn_appended [OF _ _ _ order_refl] by blast

text \<open>After a name is written, uncompressed or as a prefix and a pointer, each of its labels is
  spelled where it was written.\<close>

lemma written_whole:
  assumes t: "buf_ok t" "appended t (wire ls) t'" and ok: "labels_ok ls" "rooted ls" and k: "k < length ls"
  shows "dn 1 (b_base t') (b_used t') (b_used t) (b_used t + label_off ls k) (drop k ls) (b_used t')"
proof -
  note A = appended_facts [OF t]
  have w: "wire ls = wire (take k ls) @ wire (drop k ls)" by (metis append_take_drop_id wire_simps(3))
  let ?p = "b_used t + label_off ls k"
  have len: "length (wire ls) = label_off ls k + length (wire (drop k ls))" by (simp add: w label_off_def)
  have "take (length (wire (drop k ls))) (drop ?p (b_base t')) =
      drop (label_off ls k) (take (length (wire ls)) (drop (b_used t) (b_base t')))"
    unfolding len by (simp add: drop_take add.commute)
  also have "\<dots> = wire (drop k ls)" unfolding A(3) by (subst w) (simp add: label_off_def)
  finally have tk: "take (length (wire (drop k ls))) (drop ?p (b_base t')) = wire (drop k ls)" .
  have e: "?p + length (wire (drop k ls)) = b_used t'" using A(1) len by simp
  have "dn 1 (b_base t') (b_used t') (b_used t) ?p (drop k ls) (?p + length (wire (drop k ls)))"
    using tk e A(4) labels_ok_drop [OF ok(1)] rooted_part [OF ok(1), of k "length ls - k"] ok(2) k
    by (intro dn_uncompressed) auto
  then show ?thesis unfolding e .
qed

lemma written_prefix:
  assumes t: "buf_ok t" "appended t (wire (take j ls) @ [0xc0 OR of_nat (c div 256), of_nat c]) t'"
    and ok: "labels_ok ls" "j < length ls" and k: "k \<le> j"
    and c: "0 < c" "c < 0x4000" and d: "dn 1 (b_base t) (b_used t) m c os e" "m \<le> c"
  shows "dn 1 (b_base t') (b_used t') (b_used t) (b_used t + label_off ls k) (drop k (take j ls) @ os) (b_used t')"
proof -
  let ?ptr = "[0xc0 OR of_nat (c div 256), of_nat c] :: bytes"
  note A = appended_facts [OF t]
  let ?B = "b_base t'" and ?U = "b_used t'" and ?u = "b_used t"
  let ?q = "?u + length (wire (take j ls))"
  have U: "?U = ?q + 2" using A(1) by simp
  have sp: "drop ?u (take ?U ?B) = wire (take j ls) @ ?ptr"
    using A(3) U by (simp add: drop_take)
  then have "drop (length (wire (take j ls))) (drop ?u (take ?U ?B)) = ?ptr" by simp
  then have "drop ?q (take ?U ?B) = ?ptr" by (simp add: add.commute)
  then have "take 2 (drop ?q ?B) = ?ptr" using U by (simp add: drop_take)
  then have b: "?B ! ?q = 0xc0 OR of_nat (c div 256)" "?B ! (?q + 1) = of_nat c"
    using U A(4) by (simp_all add: Cons_nth_drop_Suc [symmetric] numeral_2_eq_2)
  note v = pointer_value [OF c(2)]
  have cu: "c < ?u" using dn_bounds [OF d(1)] by simp
  have dc: "dn 1 ?B ?U c c os e" using dn_appended [OF t d(1) d(2)] .
  have ptr: "dn 1 ?B ?U ?u ?q os (?q + 2)"
  proof (rule dn_pointer [of ?q ?U ?B c ?u])
    show "192 \<le> unat (?B ! ?q)" unfolding b(1) using v(1) .
    show "c = 256 * unat (?B ! ?q AND 0x3f) + unat (?B ! (?q + 1))" unfolding b using v(2) by simp
  qed (use U cu c dc in auto)
  let ?ps = "drop k (take j ls)" and ?p = "?u + label_off ls k"
  have tj: "take j ls = take k ls @ ?ps" using k by (metis append_take_drop_id min.absorb1 take_take)
  then have w: "wire (take j ls) = wire (take k ls) @ wire ?ps" by (metis wire_simps(3))
  have pq: "?p + length (wire ?ps) = ?q" using w by (simp add: label_off_def)
  have tk: "take (length (wire ?ps)) (drop ?p ?B) = wire ?ps"
  proof -
    have "take (length (wire ?ps)) (drop ?p ?B) =
        take (length (wire ?ps)) (drop (label_off ls k) (drop ?u (take ?U ?B)))"
      using pq U by (simp add: drop_take add.commute)
    also have "\<dots> = wire ?ps" unfolding sp w by (simp add: label_off_def)
    finally show ?thesis .
  qed
  have lab: "\<forall>l\<in>set ?ps. l \<noteq> [] \<and> length l \<le> 63"
  proof
    fix l assume "l \<in> set ?ps"
    then have "l \<in> set (take j ls)" by (meson in_set_dropD)
    moreover have "set (take j ls) \<subseteq> set (butlast ls)"
      unfolding take_butlast [OF ok(2), symmetric] by (rule set_take_subset)
    ultimately show "l \<noteq> [] \<and> length l \<le> 63"
      using ok(1) by (auto simp: labels_ok_def dest: in_set_butlastD)
  qed
  have ptr': "dn 1 ?B ?U ?u (?p + length (wire ?ps)) os (?q + 2)" unfolding pq by (rule ptr)
  have le: "?p + length (wire ?ps) \<le> ?U" unfolding pq using U by simp
  have "dn 1 ?B ?U ?u ?p (?ps @ os) (?q + 2)" by (rule dn_prefix [OF tk le lab ptr' A(4)])
  then show ?thesis using U by simp
qed


text \<open>
  What writing a name does: \<open>rendered\<close> says that the message has grown by octets that spell a
  name with the labels \<open>ls\<close> up to case, that those octets are all of the growth, and that the
  compression set is again about names in the message.
\<close>

definition rendered :: "isc_buffer \<Rightarrow> bytes list \<Rightarrow> dns_compress \<Rightarrow> isc_buffer \<Rightarrow> bool" where
  "rendered t ls cctx' t' \<longleftrightarrow>
     cinv (spelled t') cctx' \<and> buf_ok t' \<and> b_used t < b_used t' \<and>
     take (b_used t) (b_base t') = take (b_used t) (b_base t) \<and>
     (\<exists>os. dn 1 (b_base t') (b_used t') (b_used t) (b_used t) os (b_used t') \<and>
        lower_labels os = lower_labels ls)"

lemma new_offs_spelled:
  assumes "\<And>k. k \<le> i \<Longrightarrow> \<exists>os. dn 1 (b_base t') (b_used t') (b_used t) (b_used t + label_off ls k) os (b_used t')"
    "0 < b_used t"
  shows "new_offs t ls i \<subseteq> spelled t'"
proof
  fix c assume "c \<in> new_offs t ls i"
  then obtain k where k: "k \<le> i" "c = b_used t + label_off ls k" "c < 0x4000"
    by (auto simp: new_offs_def)
  moreover from this have "0 < c" "b_used t \<le> c" using assms(2) by auto
  ultimately show "c \<in> spelled t'" unfolding spelled_def using assms(1) [OF k(1)] by blast
qed

lemma rendered_whole:
  assumes t: "buf_ok t" "0 < b_used t" "appended t (wire ls) t'" and ok: "labels_ok ls" "rooted ls"
    and I: "cinv (spelled t) cctx' \<or> (0 < j \<and> j < length ls \<and> cinv (spelled t \<union> new_offs t ls (j - 1)) cctx')"
  shows "rendered t ls cctx' t'"
proof -
  note A = appended_facts [OF t(1,3)] and W = written_whole [OF t(1,3) ok]
  have ne: "0 < length ls" using ok(2) by (simp add: rooted_def)
  have sub: "spelled t \<subseteq> spelled t'" by (rule spelled_appended [OF t(1,3)])
  have "new_offs t ls (j - 1) \<subseteq> spelled t'" if "j < length ls"
  proof (rule new_offs_spelled [OF _ t(2)])
    fix k assume "k \<le> j - 1"
    then have "k < length ls" using that by linarith
    from W [OF this] show "\<exists>os. dn 1 (b_base t') (b_used t') (b_used t) (b_used t + label_off ls k) os (b_used t')"
      by blast
  qed
  then have "cinv (spelled t') cctx'"
    using I sub by (auto intro: cinv_mono)
  moreover have "dn 1 (b_base t') (b_used t') (b_used t) (b_used t) ls (b_used t')"
    using W [OF ne] by simp
  moreover have "0 < length (wire ls)" using ne length_wire_ge [of ls] by linarith
  ultimately show ?thesis using A t(3) by (auto simp: rendered_def appended_def)
qed

lemma rendered_prefix:
  assumes t: "buf_ok t" "0 < b_used t" "appended t (wire (take j ls) @ [0xc0 OR of_nat (c div 256), of_nat c]) t'"
    and ok: "labels_ok ls" "j < length ls" and c: "0 < c" "matched s t c (drop j ls)"
    and I: "cinv (spelled t) cctx' \<or> (0 < j \<and> cinv (spelled t \<union> new_offs t ls (j - 1)) cctx')"
  shows "rendered t ls cctx' t'"
proof -
  note A = appended_facts [OF t(1,3)]
  obtain m os e where c': "c < 0x4000" "dn 1 (b_base t) (b_used t) m c os e" "m \<le> c"
      "fo_labels s os = fo_labels s (drop j ls)" using c by (auto simp: matched_def)
  note W = written_prefix [OF t(1,3) ok _ c(1) c'(1-3)]
  have sub: "spelled t \<subseteq> spelled t'" by (rule spelled_appended [OF t(1,3)])
  have "new_offs t ls (j - 1) \<subseteq> spelled t'" if "0 < j"
  proof (rule new_offs_spelled [OF _ t(2)])
    fix k assume "k \<le> j - 1"
    then have "k \<le> j" by simp
    from W [OF this] show "\<exists>os. dn 1 (b_base t') (b_used t') (b_used t) (b_used t + label_off ls k) os (b_used t')"
      by blast
  qed
  then have "cinv (spelled t') cctx'"
    using I sub by (auto intro: cinv_mono)
  moreover have "dn 1 (b_base t') (b_used t') (b_used t) (b_used t) (take j ls @ os) (b_used t')"
    using W [of 0] by simp
  moreover have "lower_labels (take j ls @ os) = lower_labels ls"
    using lower_fo [OF c'(4)] by (metis append_take_drop_id map_append)
  ultimately show ?thesis using A t(3) by (auto simp: rendered_def appended_def)
qed

lemma putuint16_fixed:
  assumes "fixed_buf b" "2 \<le> buf_room b"
  shows "\<exists>b'. isc_buffer_putuint16 b v = Some b' \<and> appended b (ISC_U16TO8_BE v) b' \<and> \<not> b_mctx b'"
proof -
  have "length (ISC_U16TO8_BE v) \<le> buf_room b" using assms(2) by (simp add: ISC_U16TO8_BE_def)
  from store_ok [OF _ this] assms buf_okD(1) [of b] show ?thesis
    by (auto simp: isc_buffer_putuint16_def put_reserve_def appended_def)
qed

lemma appended_trans: "appended a v b \<Longrightarrow> appended b w c \<Longrightarrow> appended a (v @ w) c"
  by (simp add: appended_def)

lemma appended_Nil: "buf_ok b \<Longrightarrow> appended b [] b"
  by (simp add: appended_def)

text \<open>Writing the first \<open>j\<close> labels.\<close>

lemma write_prefix:
  assumes n: "name_rep n ls" and j: "j \<le> length ls" and t: "fixed_buf t"
    and fits: "label_off ls j \<le> buf_room t"
  shows "\<exists>t'. (if label_off ls j > 0 then do {
           v \<leftarrow> fetch (ndata n) 0 (label_off ls j);
           m \<leftarrow> blit (b_base t) (b_used t) v;
           isc_buffer_add (t\<lparr>b_base := m\<rparr>) (label_off ls j)
         } else Some t) = Some t' \<and> appended t (wire (take j ls)) t' \<and> fixed_buf t' \<and>
     buf_room t' = buf_room t - label_off ls j"
proof (cases "label_off ls j > 0")
  case True
  have w: "wire ls = wire (take j ls) @ wire (drop j ls)" by (metis append_take_drop_id wire_simps(3))
  have f: "fetch (ndata n) 0 (label_off ls j) = Some (wire (take j ls))"
  proof -
    have e: "ndata n = wire (take j ls) @ wire (drop j ls) @ drop (length (wire ls)) (ndata n)"
      using name_rep_split [OF n] w by simp
    show ?thesis by (subst e) (simp add: label_off_def)
  qed
  have fits': "length (wire (take j ls)) \<le> buf_room t" using fits by (simp add: label_off_def)
  from blit_at_used [of t, OF _ fits'] t obtain m t' where
    "blit (b_base t) (b_used t) (wire (take j ls)) = Some m"
    "isc_buffer_add (t\<lparr>b_base := m\<rparr>) (label_off ls j) = Some t'" "appended t (wire (take j ls)) t'"
    "buf_room t' = buf_room t - label_off ls j" "b_mctx t' = b_mctx t" unfolding label_off_def by blast
  with True f t show ?thesis by (auto simp: appended_def)
next
  case False
  then show ?thesis using t appended_Nil [of t] by (auto simp: label_off_def)
qed

text \<open>What a saved offset stands for: a place where the same name is spelled, or nothing yet.\<close>

definition saved_ok :: "isc_buffer \<Rightarrow> bytes list \<Rightarrow> nat option \<Rightarrow> bool" where
  "saved_ok t ls nc \<longleftrightarrow>
     (\<forall>c. nc = Some c \<and> c < 0x4000 \<longrightarrow>
        (\<exists>m os e. m \<le> c \<and> 0 < c \<and> dn 1 (b_base t) (b_used t) m c os e \<and> lower_labels os = lower_labels ls))"

lemma rendered_dn:
  "rendered t ls cctx' t' \<Longrightarrow> dn lo (b_base t) (b_used t) m p os e \<Longrightarrow> dn lo (b_base t') (b_used t') m p os e"
  by (erule dn_mono) (auto simp: rendered_def)

lemma saved_ok_rendered: "rendered t ls' cctx' t' \<Longrightarrow> saved_ok t ls nc \<Longrightarrow> saved_ok t' ls nc"
  unfolding saved_ok_def using rendered_dn by blast

lemma saved_ok_here:
  assumes "rendered t ls cctx' t'" "saved_ok t ls nc" "0 < b_used t"
  shows "saved_ok t' ls (case nc of None \<Rightarrow> None
    | Some c \<Rightarrow> Some (if b_used t < 0x4000 \<and> k then b_used t else c))"
  using saved_ok_rendered [OF assms(1,2)] assms(1,3)
  by (auto simp: saved_ok_def rendered_def split: option.splits if_splits)

lemma saved_ok_matched:
  assumes "rendered t ls cctx' t'" "matched s t c ls" "0 < c"
  shows "saved_ok t' ls (Some c)"
proof -
  obtain m os e where "dn 1 (b_base t) (b_used t) m c os e" "m \<le> c" "fo_labels s os = fo_labels s ls"
    using assms(2,3) by (auto simp: matched_def)
  with rendered_dn [OF assms(1)] lower_fo [of s os ls] assms(3) show ?thesis
    unfolding saved_ok_def by blast
qed

lemma towire_body_ok:
  assumes I: "cinv (spelled t) cctx" and t: "fixed_buf t" "0 < b_used t"
    and n: "name_is n ls" "rooted ls"
  shows "\<exists>r cctx' t' nc'. towire_body n cctx t nc compress = Some (r, cctx', t', nc') \<and>
     (r = ISC_R_SUCCESS \<or> r = ISC_R_NOSPACE) \<and>
     (r = ISC_R_SUCCESS \<longrightarrow> rendered t ls cctx' t' \<and> \<not> b_mctx t' \<and> (saved_ok t ls nc \<longrightarrow> saved_ok t' ls nc')) \<and>
     (length (wire ls) + 2 \<le> buf_room t \<longrightarrow> r = ISC_R_SUCCESS)"
proof -
  have "name_target (DNS_NAME_INIT (Some odata))"
    by (simp add: name_target_def VALID_NAME_def BINDABLE_def table_room_def DNS_NAME_INIT_def
        no_attrs_def odata_def)
  from dns_name_clone_rep [OF n(1) this] n(1) obtain n' where
    n': "(if offsets n = None then dns_name_clone n (DNS_NAME_INIT (Some odata)) else Some n) = Some n'"
      "name_is n' ls" "offsets n' \<noteq> None"
    by (cases "offsets n = None") (auto simp: DNS_NAME_INIT_def)
  have n'r: "name_rep n' ls" using n'(2) by (simp add: name_is_def)
  note D = name_repD [OF n'r]
  have ok: "buf_ok t" using t(1) by simp
  from dns_compress_name_sound [OF I ok t(2) n'(2,3) n(2)] obtain cctx' rc j where
    C: "dns_compress_name cctx t n' (n_length n') 0 =
         Some (cctx', if rc = 0 then n_length n' else label_off ls j, rc)"
      "j < length ls" "matched (c_case (c_flags cctx)) t rc (drop j ls)"
      "cinv (spelled t) cctx' \<or> (0 < j \<and> cinv (spelled t \<union> new_offs t ls (j - 1)) cctx')" by blast
  define i where "i = (if compress \<and> rc \<noteq> 0 then j else length ls)"
  define sc where "sc = (if compress then rc else 0)"
  have pl: "(if compress then (if rc = 0 then n_length n' else label_off ls j, rc) else (n_length n', 0)) =
      (label_off ls i, sc)"
    using D(2) by (simp add: i_def sc_def)
  have i: "i \<le> length ls" using C(2) by (simp add: i_def)
  have il: "label_off ls i \<le> length (wire ls)" by (rule label_off_le)
  define nc1 where "nc1 = (case nc of None \<Rightarrow> None
       | Some c \<Rightarrow> Some (if b_used t < 0x4000 \<and> label_off ls i > 1 then b_used t else c))"
  have body: "towire_body n cctx t nc compress =
    (if label_off ls i > 0 \<and> buf_room t < label_off ls i then Some (ISC_R_NOSPACE, cctx', t, nc1)
     else do {
       t \<leftarrow> (if label_off ls i > 0 then do {
           v \<leftarrow> fetch (ndata n') 0 (label_off ls i);
           m \<leftarrow> blit (b_base t) (b_used t) v;
           isc_buffer_add (t\<lparr>b_base := m\<rparr>) (label_off ls i)
         } else Some t);
       if sc > 0 then do {
         let name_coff = (case nc1 of None \<Rightarrow> None | Some c \<Rightarrow> Some (if label_off ls i = 0 then sc else c));
         if isc_buffer_availablelength t < 2 then Some (ISC_R_NOSPACE, cctx', t, name_coff)
         else do {
           t \<leftarrow> isc_buffer_putuint16 t (of_nat sc OR 0xc000);
           Some (ISC_R_SUCCESS, cctx', t, name_coff)
         }
       }
       else Some (ISC_R_SUCCESS, cctx', t, nc1)
     })"
    unfolding towire_body_def nc1_def n'(1) bind.bind_lunit C(1) prod.case Let_def pl availablelength_eq [OF ok]
    by (rule refl)
  show ?thesis
  proof (cases "buf_room t < label_off ls i")
    case True
    then show ?thesis using body il by auto
  next
    case False
    from write_prefix [OF n'r i t(1)] False obtain t1 where
      t1: "(if label_off ls i > 0 then do {
           v \<leftarrow> fetch (ndata n') 0 (label_off ls i);
           m \<leftarrow> blit (b_base t) (b_used t) v;
           isc_buffer_add (t\<lparr>b_base := m\<rparr>) (label_off ls i)
         } else Some t) = Some t1" "appended t (wire (take i ls)) t1" "fixed_buf t1"
       "buf_room t1 = buf_room t - label_off ls i" by auto
    show ?thesis
    proof (cases "sc > 0")
      case no: False
      then have "i = length ls" by (auto simp: sc_def i_def split: if_splits)
      then have "rendered t ls cctx' t1"
        using rendered_whole [OF ok t(2) _ D(4) n(2)] t1(2) C(2,4) by auto
      moreover from this have "saved_ok t ls nc \<longrightarrow> saved_ok t1 ls nc1"
        unfolding nc1_def using saved_ok_here t(2) by blast
      ultimately show ?thesis using body False t1(1,3) no by auto
    next
      case yes: True
      then have ij: "i = j" "sc = rc" "0 < rc" by (auto simp: sc_def i_def split: if_splits)
      have lt: "rc < 0x4000" using C(3) ij by (auto simp: matched_def)
      show ?thesis
      proof (cases "buf_room t1 < 2")
        case True
        then show ?thesis using body False t1 yes il by auto
      next
        case fits: False
        from putuint16_fixed [OF t1(3)] fits obtain t2 where
          t2: "isc_buffer_putuint16 t1 (of_nat sc OR 0xc000) = Some t2"
            "appended t1 (ISC_U16TO8_BE (of_nat sc OR 0xc000)) t2" "\<not> b_mctx t2" by auto
        have "appended t (wire (take j ls) @ [0xc0 OR of_nat (rc div 256), of_nat rc]) t2"
          using appended_trans [OF t1(2) t2(2)] pointer_bytes [OF lt] ij by simp
        then have "rendered t ls cctx' t2"
          using rendered_prefix [OF ok t(2) _ D(4) C(2) ij(3) C(3,4)] by blast
        moreover from this have "saved_ok t ls nc \<longrightarrow>
            saved_ok t2 ls (case nc1 of None \<Rightarrow> None | Some c \<Rightarrow> Some (if label_off ls i = 0 then sc else c))"
        proof (cases "label_off ls i = 0 \<and> nc1 \<noteq> None")
          case True
          then have "length (wire (take j ls)) = 0" using ij by (simp add: label_off_def)
          then have "length (take j ls) = 0" using length_wire_ge [of "take j ls"] by linarith
          then have "take j ls = []" by blast
          then have "drop j ls = ls" by (metis append_Nil append_take_drop_id)
          then have "saved_ok t2 ls (Some sc)"
            using saved_ok_matched [OF \<open>rendered t ls cctx' t2\<close>] C(3) ij by metis
          then show ?thesis using True by auto
        next
          case False
          then have "(case nc1 of None \<Rightarrow> None | Some c \<Rightarrow> Some (if label_off ls i = 0 then sc else c)) = nc1"
            by (auto split: option.splits)
          then show ?thesis unfolding nc1_def
            using saved_ok_here [OF \<open>rendered t ls cctx' t2\<close>] t(2) by metis
        qed
        ultimately show ?thesis using body False t1 t2 yes fits by auto
      qed
    qed
  qed
qed


lemma towire_ok:
  assumes I: "cinv (spelled t) cctx" and t: "fixed_buf t" "0 < b_used t"
    and n: "name_is n ls" "rooted ls" and nc: "saved_ok t ls nc"
  shows "\<exists>r cctx' t' nc'. dns_name_towire n cctx t nc = Some (r, cctx', t', nc') \<and>
     (r = ISC_R_SUCCESS \<or> r = ISC_R_NOSPACE) \<and>
     (r = ISC_R_SUCCESS \<longrightarrow> rendered t ls cctx' t' \<and> \<not> b_mctx t' \<and> saved_ok t' ls nc') \<and>
     (length (wire ls) + 2 \<le> buf_room t \<longrightarrow> r = ISC_R_SUCCESS)"
proof -
  have ok: "buf_ok t" and nr: "name_rep n ls" using t(1) n(1) by (auto simp: name_is_def)
  have V: "VALID_NAME n" "ISC_BUFFER_VALID t" "CCTX_VALID cctx"
    using name_repD(1) [OF nr] buf_okD(1) [OF ok] I by (auto simp: cinv_def)
  let ?c = "\<not> nocompress (attributes n) \<and> c_permitted (c_flags cctx)"
  show ?thesis
  proof (cases "\<exists>c. ?c \<and> nc = Some c \<and> c < 0x4000")
    case False
    then have "dns_name_towire n cctx t nc = towire_body n cctx t nc ?c"
      using V by (cases nc) (auto simp: dns_name_towire_def dns_compress_getpermitted_def Let_def)
    then show ?thesis using towire_body_ok [OF I t n, of nc ?c] nc by auto
  next
    case True
    then obtain c where c: "?c" "nc = Some c" "c < 0x4000" by blast
    then obtain m os e where d: "m \<le> c" "0 < c" "dn 1 (b_base t) (b_used t) m c os e"
        "lower_labels os = lower_labels ls" using nc by (auto simp: saved_ok_def)
    have e: "dns_name_towire n cctx t nc = (if buf_room t < 2 then Some (ISC_R_NOSPACE, cctx, t, nc)
        else do { t \<leftarrow> isc_buffer_putuint16 t (of_nat c OR 0xc000); Some (ISC_R_SUCCESS, cctx, t, nc) })"
      using V c ok by (simp add: dns_name_towire_def dns_compress_getpermitted_def)
    show ?thesis
    proof (cases "buf_room t < 2")
      case True
      then show ?thesis using e by simp
    next
      case False
      from putuint16_fixed [OF t(1)] False obtain t' where
        t': "isc_buffer_putuint16 t (of_nat c OR 0xc000) = Some t'"
          "appended t (ISC_U16TO8_BE (of_nat c OR 0xc000)) t'" "\<not> b_mctx t'" by auto
      then have app: "appended t (wire (take 0 ls) @ [0xc0 OR of_nat (c div 256), of_nat c]) t'"
        using pointer_bytes [OF c(3)] by simp
      have "0 < length ls" using n(2) by (simp add: rooted_def)
      moreover have "matched False t c (drop 0 ls)" using c(3) d by (auto simp: matched_def fo_def)
      ultimately have "rendered t ls cctx t'"
        using rendered_prefix [OF ok t(2) app name_repD(4) [OF nr]] d(2) I by blast
      then show ?thesis using e t' False saved_ok_rendered [OF _ nc] by auto
    qed
  qed
qed

section \<open>Writing many names\<close>

text \<open>The sequence of writes a renderer makes: the positions the names were written at.\<close>

fun write_seq :: "('n \<Rightarrow> 's \<Rightarrow> 's option) \<Rightarrow> ('s \<Rightarrow> nat) \<Rightarrow> 'n list \<Rightarrow> 's \<Rightarrow> ('s \<times> nat list) option" where
  "write_seq wr pos [] s = Some (s, [])"
| "write_seq wr pos (n # ns) s = do {
     s' \<leftarrow> wr n s;
     (s'', ps) \<leftarrow> write_seq wr pos ns s';
     Some (s'', pos s # ps)
   }"

text \<open>
  The interface between a message and what writes names into it: \<open>spells s p n\<close> says that the name
  \<open>n\<close> can be read at position \<open>p\<close>.  A write makes the new name readable where it was written and
  leaves every other name readable.
\<close>

locale name_writer =
  fixes wr :: "'n \<Rightarrow> 's \<Rightarrow> 's option"
    and pos :: "'s \<Rightarrow> nat"
    and inv :: "'s \<Rightarrow> bool"
    and good :: "'n \<Rightarrow> bool"
    and spells :: "'s \<Rightarrow> nat \<Rightarrow> 'n \<Rightarrow> bool"
  assumes wr_inv: "inv s \<Longrightarrow> good n \<Longrightarrow> wr n s = Some s' \<Longrightarrow> inv s'"
    and wr_spells: "inv s \<Longrightarrow> good n \<Longrightarrow> wr n s = Some s' \<Longrightarrow> spells s' (pos s) n"
    and wr_keeps: "inv s \<Longrightarrow> good n \<Longrightarrow> wr n s = Some s' \<Longrightarrow> spells s p m \<Longrightarrow> spells s' p m"
begin

lemma write_seq_keeps:
  "inv s \<Longrightarrow> (\<And>n. n \<in> set ns \<Longrightarrow> good n) \<Longrightarrow> write_seq wr pos ns s = Some (s', ps) \<Longrightarrow> spells s p m \<Longrightarrow>
   spells s' p m"
proof (induction ns arbitrary: s ps)
  case (Cons n ns)
  then obtain s1 ps1 where s1: "wr n s = Some s1" "write_seq wr pos ns s1 = Some (s', ps1)"
    by (auto simp: bind_eq_Some_conv)
  have g: "good n" using Cons.prems(2) by simp
  show ?case
    using Cons.IH [OF wr_inv [OF Cons.prems(1) g s1(1)] _ s1(2) wr_keeps [OF Cons.prems(1) g s1(1) Cons.prems(4)]]
      Cons.prems(2) by simp
qed simp

lemma write_seq_spells:
  "inv s \<Longrightarrow> (\<And>n. n \<in> set ns \<Longrightarrow> good n) \<Longrightarrow> write_seq wr pos ns s = Some (s', ps) \<Longrightarrow>
   inv s' \<and> list_all2 (spells s') ps ns"
proof (induction ns arbitrary: s ps)
  case (Cons n ns)
  then obtain s1 ps1 where s1: "wr n s = Some s1" "write_seq wr pos ns s1 = Some (s', ps1)" "ps = pos s # ps1"
    by (auto simp: bind_eq_Some_conv)
  have g: "good n" "inv s1" using Cons.prems s1(1) wr_inv by auto
  have "spells s' (pos s) n"
    using write_seq_keeps [OF g(2) _ s1(2)] wr_spells [OF Cons.prems(1) g(1) s1(1)] Cons.prems(2) by auto
  with Cons.IH [OF g(2) _ s1(2)] Cons.prems(2) s1(3) show ?case by auto
qed simp

end

text \<open>\<^verbatim>\<open>dns_name_towire\<close> as such a writer, on the compression context and the message together.\<close>

definition towire_step :: "dns_name \<Rightarrow> dns_compress \<times> isc_buffer \<Rightarrow> (dns_compress \<times> isc_buffer) option" where
  "towire_step n s = do {
     (r, cctx, t, _) \<leftarrow> dns_name_towire n (fst s) (snd s) None;
     if r = ISC_R_SUCCESS then Some (cctx, t) else None
   }"

definition message_ok :: "dns_compress \<times> isc_buffer \<Rightarrow> bool" where
  "message_ok s \<longleftrightarrow> cinv (spelled (snd s)) (fst s) \<and> fixed_buf (snd s) \<and> 0 < b_used (snd s)"

definition full_name :: "dns_name \<Rightarrow> bool" where
  "full_name n \<longleftrightarrow> (\<exists>ls. name_is n ls \<and> rooted ls)"

definition reads_as :: "dns_compress \<times> isc_buffer \<Rightarrow> nat \<Rightarrow> dns_name \<Rightarrow> bool" where
  "reads_as s p n \<longleftrightarrow> (\<exists>ls os e. name_is n ls \<and> lower_labels os = lower_labels ls \<and>
     dn 1 (b_base (snd s)) (b_used (snd s)) p p os e)"

lemma towire_step_rendered:
  assumes "message_ok s" "full_name n" "towire_step n s = Some s'"
  shows "\<exists>ls. name_is n ls \<and> rendered (snd s) ls (fst s') (snd s') \<and> \<not> b_mctx (snd s')"
proof -
  obtain ls where ls: "name_is n ls" "rooted ls" using assms(2) by (auto simp: full_name_def)
  have "saved_ok (snd s) ls None" by (simp add: saved_ok_def)
  with assms(1) ls obtain r cctx' t' nc' where
    "dns_name_towire n (fst s) (snd s) None = Some (r, cctx', t', nc')"
    "r = ISC_R_SUCCESS \<longrightarrow> rendered (snd s) ls cctx' t' \<and> \<not> b_mctx t'"
    using towire_ok [of "snd s" "fst s" n ls None] by (auto simp: message_ok_def)
  with assms(3) ls(1) show ?thesis by (auto simp: towire_step_def split: if_splits)
qed

interpretation towire_writer: name_writer towire_step "\<lambda>s. b_used (snd s)" message_ok full_name reads_as
proof unfold_locales
  fix s s' :: "dns_compress \<times> isc_buffer" and n m :: dns_name and p :: nat
  assume a: "message_ok s" "full_name n" "towire_step n s = Some s'"
  from towire_step_rendered [OF this] obtain ls where
    ls: "name_is n ls" "rendered (snd s) ls (fst s') (snd s')" "\<not> b_mctx (snd s')" by blast
  then show "message_ok s'" using a(1) by (auto simp: message_ok_def rendered_def)
  show "reads_as s' (b_used (snd s)) n" using ls by (auto simp: reads_as_def rendered_def)
  show "reads_as s' p m" if "reads_as s p m"
    using that rendered_dn [OF ls(2)] by (fastforce simp: reads_as_def)
qed

lemma dns_compress_init_cinv: "cinv A (dns_compress_init flags)"
proof -
  have "\<exists>N. set_size (dns_compress_init flags) N"
    by (simp add: set_size_def dns_compress_init_def Let_def DNS_COMPRESS_LARGEBITS_def DNS_COMPRESS_SMALLBITS_def)
  then show ?thesis
    by (auto simp: cinv_def dns_compress_init_def Let_def CCTX_VALID_def empty_slot_def occupied_def)
qed

text \<open>Reading back what is spelled: with room for any name, the name comes out equal.\<close>

lemma fromwire_reads:
  assumes s: "buf_ok b" "p \<le> b_used b" and d: "dn 1 (b_base b) (b_used b) p p os e"
    and same: "lower_labels os = lower_labels ls" and n: "name_is n ls" "rooted ls"
    and x: "name_target x" and t: "target_ok x target" "pick_target x target = Some t" "255 \<le> buf_room t"
    and dc: "dns_decompress_getpermitted dctx"
  shows "\<exists>x' tg'. dns_name_fromwire x (b\<lparr>b_current := p\<rparr>) dctx target =
       Some (ISC_R_SUCCESS, x', b\<lparr>b_current := e\<rparr>, tg') \<and> dns_name_equal x' n = Some True"
proof -
  note B = buf_okD [OF s(1)]
  have nr: "name_rep n ls" using n(1) by (simp add: name_is_def)
  have d0: "dn 0 (b_base b) (b_used b) p p os e" by (rule dn_mono [OF d]) auto
  have "length (wire os) = length (wire ls)" using same by (metis wire_length_lower)
  then have len: "length (wire os) \<le> min 255 (buf_room t)"
    using name_repD(9) [OF nr] t(3) by simp
  have ok: "buf_ok (b\<lparr>b_current := p\<rparr>)" using B s(2) by (simp add: buf_ok_def ISC_BUFFER_VALID_def)
  have "dn 0 (b_base (b\<lparr>b_current := p\<rparr>)) (b_used (b\<lparr>b_current := p\<rparr>)) (b_current (b\<lparr>b_current := p\<rparr>))
      (b_current (b\<lparr>b_current := p\<rparr>)) os e" using d0 by simp
  from fromwire_spec [OF x ok t(1) dc this] t(2) len obtain x' tg' where
    x': "dns_name_fromwire x (b\<lparr>b_current := p\<rparr>) dctx target = Some (ISC_R_SUCCESS, x', b\<lparr>b_current := e\<rparr>, tg')"
      "name_is x' os" by auto
  have "rooted os" using same n(2) by (metis rooted_lower)
  then have "dns_name_equal x' n = Some True"
    using dns_name_equal_eq [of x' os n ls] x'(2) n same by (simp add: name_is_def)
  with x'(1) show ?thesis by blast
qed

section \<open>Properties\<close>

text \<open>
  C2: writing an absolute name into a message with \<^verbatim>\<open>dns_name_towire\<close>, compressed or not, with or
  without a saved offset, always returns: \<^verbatim>\<open>ISC_R_SUCCESS\<close>, certainly when there is room for the
  whole name and a pointer, or \<^verbatim>\<open>ISC_R_NOSPACE\<close>.  On success the compression set again holds only
  offsets of names in the message, the message before is unchanged, and \<^verbatim>\<open>dns_name_fromwire\<close> at the
  place of writing returns an equal name and consumes exactly what was written.
\<close>

theorem towire_fromwire:
  assumes m: "message_ok (cctx, t)" and n: "name_is n ls" "rooted ls" and nc: "saved_ok t ls nc"
    and x: "name_target x" "target_ok x target" "pick_target x target = Some b" "255 \<le> buf_room b"
    and dc: "dns_decompress_getpermitted dctx"
  shows "\<exists>r cctx' t' nc'. dns_name_towire n cctx t nc = Some (r, cctx', t', nc') \<and>
     (r = ISC_R_SUCCESS \<or> r = ISC_R_NOSPACE \<and> buf_room t < length (wire ls) + 2) \<and>
     (r = ISC_R_SUCCESS \<longrightarrow>
        message_ok (cctx', t') \<and> take (b_used t) (b_base t') = take (b_used t) (b_base t) \<and>
        saved_ok t' ls nc' \<and>
        (\<exists>x' tg'. dns_name_fromwire x (t'\<lparr>b_current := b_used t\<rparr>) dctx target =
            Some (ISC_R_SUCCESS, x', t'\<lparr>b_current := b_used t'\<rparr>, tg') \<and> dns_name_equal x' n = Some True))"
proof -
  have I: "cinv (spelled t) cctx" "fixed_buf t" "0 < b_used t" using m by (auto simp: message_ok_def)
  from towire_ok [OF I n nc] obtain r cctx' t' nc' where
    w: "dns_name_towire n cctx t nc = Some (r, cctx', t', nc')" "r = ISC_R_SUCCESS \<or> r = ISC_R_NOSPACE"
      "r = ISC_R_SUCCESS \<Longrightarrow> rendered t ls cctx' t' \<and> \<not> b_mctx t' \<and> saved_ok t' ls nc'"
      "length (wire ls) + 2 \<le> buf_room t \<Longrightarrow> r = ISC_R_SUCCESS" by auto
  have "message_ok (cctx', t') \<and> take (b_used t) (b_base t') = take (b_used t) (b_base t) \<and>
      saved_ok t' ls nc' \<and>
      (\<exists>x' tg'. dns_name_fromwire x (t'\<lparr>b_current := b_used t\<rparr>) dctx target =
            Some (ISC_R_SUCCESS, x', t'\<lparr>b_current := b_used t'\<rparr>, tg') \<and> dns_name_equal x' n = Some True)"
    if "r = ISC_R_SUCCESS"
  proof -
    note R = w(3) [OF that]
    then obtain os where "dn 1 (b_base t') (b_used t') (b_used t) (b_used t) os (b_used t')"
        "lower_labels os = lower_labels ls" by (auto simp: rendered_def)
    then show ?thesis
      using fromwire_reads [of t' "b_used t" os "b_used t'" ls n x target b dctx] R n x dc I
      by (auto simp: rendered_def message_ok_def)
  qed
  then show ?thesis using w by (metis not_le)
qed


theorem towire_fromwire_witness:
  "\<exists>r cctx' t' nc'. dns_name_towire (mk_name [[0x61], []])
     (dns_compress_init \<lparr>c_disabled = False, c_case = False, c_large = False, c_permitted = False\<rparr>)
     ((isc_buffer_init (replicate 40 0) 40)\<lparr>b_used := 12\<rparr>) None = Some (r, cctx', t', nc') \<and>
   r = ISC_R_SUCCESS \<and>
   (\<exists>x' tg'. dns_name_fromwire dns_fixedname_initname (t'\<lparr>b_current := 12\<rparr>) DNS_DECOMPRESS_ALWAYS None =
      Some (ISC_R_SUCCESS, x', t'\<lparr>b_current := b_used t'\<rparr>, tg') \<and>
      dns_name_equal x' (mk_name [[0x61], []]) = Some True)"
proof -
  let ?c = "dns_compress_init \<lparr>c_disabled = False, c_case = False, c_large = False, c_permitted = False\<rparr>"
  let ?t = "(isc_buffer_init (replicate 40 0) 40)\<lparr>b_used := 12\<rparr>"
  let ?b = "isc_buffer_init (replicate 255 0) 255"
  have ok: "buf_ok ?t" "buf_ok ?b" by (simp_all add: buf_ok_def isc_buffer_init_def ISC_BUFFER_VALID_def)
  have m: "message_ok (?c, ?t)"
    using ok dns_compress_init_cinv by (simp add: message_ok_def isc_buffer_init_def)
  have n: "name_is (mk_name [[0x61], []]) [[0x61], []]" "rooted [[0x61], []]"
    by (auto simp: labels_ok_def rooted_def intro!: mk_name_is)
  have nc: "saved_ok ?t [[0x61], []] None" by (simp add: saved_ok_def)
  have x: "target_ok dns_fixedname_initname None"
      "pick_target dns_fixedname_initname None = Some ?b" "255 \<le> buf_room ?b"
    using ok(2) buf_okD(1) [OF ok(2)]
    by (auto simp: target_ok_def pick_target_def dns_fixedname_initname_def isc_buffer_clear_def
        isc_buffer_init_def buf_room_def ISC_BUFFER_VALID_def)
  have room: "\<not> buf_room ?t < length (wire [[0x61], []]) + 2"
    by (simp add: buf_room_def isc_buffer_init_def)
  show ?thesis
    using towire_fromwire [OF m n nc name_target_fixed x, of DNS_DECOMPRESS_ALWAYS] room
    by (auto simp: dns_decompress_getpermitted_def isc_buffer_init_def)
qed

text \<open>
  C3: a message rendered with one compression context, names written one after another, can be
  read: every name in it, wherever it was written, is spelled there up to case, in the final
  message.
\<close>

theorem message_names_readable:
  assumes "0 < b_used t" "fixed_buf t" "\<forall>n\<in>set ns. full_name n"
    "write_seq towire_step (\<lambda>s. b_used (snd s)) ns (dns_compress_init flags, t) = Some (s', ps)"
  shows "message_ok s' \<and> list_all2 (reads_as s') ps ns"
  using assms dns_compress_init_cinv
  by (intro towire_writer.write_seq_spells [of "(dns_compress_init flags, t)"]) (auto simp: message_ok_def)

theorem message_names_readable_witness:
  "\<exists>s' ps. write_seq towire_step (\<lambda>s. b_used (snd s)) [mk_name [[0x61], []]]
     (dns_compress_init \<lparr>c_disabled = False, c_case = False, c_large = False, c_permitted = True\<rparr>,
      (isc_buffer_init (replicate 40 0) 40)\<lparr>b_used := 12\<rparr>) = Some (s', ps) \<and>
     message_ok s' \<and> list_all2 (reads_as s') ps [mk_name [[0x61], []]]"
proof -
  let ?c = "dns_compress_init \<lparr>c_disabled = False, c_case = False, c_large = False, c_permitted = True\<rparr>"
  let ?t = "(isc_buffer_init (replicate 40 0) 40)\<lparr>b_used := 12\<rparr>" and ?n = "mk_name [[0x61], []]"
  have t: "fixed_buf ?t" "0 < b_used ?t"
    by (simp_all add: buf_ok_def isc_buffer_init_def ISC_BUFFER_VALID_def)
  have n: "name_is ?n [[0x61], []]" "rooted [[0x61 :: u8], []]"
    by (auto simp: labels_ok_def rooted_def intro!: mk_name_is)
  have r: "length (wire [[0x61], []]) + 2 \<le> buf_room ?t" by (simp add: buf_room_def isc_buffer_init_def)
  have "saved_ok ?t [[0x61], []] None" by (simp add: saved_ok_def)
  from towire_ok [OF dns_compress_init_cinv t n this] r obtain cctx' t' nc' where "dns_name_towire ?n ?c ?t None = Some (ISC_R_SUCCESS, cctx', t', nc')"
    by blast
  then have w: "write_seq towire_step (\<lambda>s. b_used (snd s)) [?n] (?c, ?t) = Some ((cctx', t'), [12])"
    by (simp add: towire_step_def isc_buffer_init_def)
  have "\<forall>n\<in>set [?n]. full_name n" using n by (auto simp: full_name_def)
  from message_names_readable [OF t(2,1) this w] w show ?thesis by blast
qed

end
