(* ===== verification/Dst.thy ===== *)
theory Dst
  imports Prelude
begin

text \<open>
  The metadata of a DNSSEC key: \<^verbatim>\<open>lib/dns/dst_api.c\<close> (booleans, numbers, times and states of a
  \<^verbatim>\<open>dst_key_t\<close>, and the tests made of them), the key tag of \<^verbatim>\<open>lib/dns/key.c\<close>, and the policy
  values of \<^verbatim>\<open>lib/dns/kasp.c\<close>.

  A value of type \<open>dst_key\<close> is a valid key and a value of type \<open>dns_kasp\<close> a valid frozen policy,
  so the magic numbers and the lock are not fields; the index types are enumerations, so an index
  out of range does not exist.
\<close>

section \<open>Key metadata\<close>

datatype dst_key_state = HIDDEN | RUMOURED | OMNIPRESENT | UNRETENTIVE | NA

datatype dst_time =
    DST_TIME_CREATED | DST_TIME_PUBLISH | DST_TIME_ACTIVATE | DST_TIME_REVOKE | DST_TIME_INACTIVE
  | DST_TIME_DELETE | DST_TIME_DSPUBLISH | DST_TIME_SYNCPUBLISH | DST_TIME_SYNCDELETE | DST_TIME_DNSKEY
  | DST_TIME_ZRRSIG | DST_TIME_KRRSIG | DST_TIME_DS | DST_TIME_DSDELETE

datatype dst_num =
    DST_NUM_PREDECESSOR | DST_NUM_SUCCESSOR | DST_NUM_MAXTTL | DST_NUM_ROLLPERIOD | DST_NUM_LIFETIME
  | DST_NUM_DSPUBCOUNT | DST_NUM_DSDELCOUNT

datatype dst_bool = DST_BOOL_KSK | DST_BOOL_ZSK

datatype dst_statetype = DST_KEY_DNSKEY | DST_KEY_ZRRSIG | DST_KEY_KRRSIG | DST_KEY_DS | DST_KEY_GOAL

definition dst_times :: "dst_time list" where
  "dst_times = [DST_TIME_CREATED, DST_TIME_PUBLISH, DST_TIME_ACTIVATE, DST_TIME_REVOKE, DST_TIME_INACTIVE,
     DST_TIME_DELETE, DST_TIME_DSPUBLISH, DST_TIME_SYNCPUBLISH, DST_TIME_SYNCDELETE, DST_TIME_DNSKEY,
     DST_TIME_ZRRSIG, DST_TIME_KRRSIG, DST_TIME_DS, DST_TIME_DSDELETE]"

definition dst_nums :: "dst_num list" where
  "dst_nums = [DST_NUM_PREDECESSOR, DST_NUM_SUCCESSOR, DST_NUM_MAXTTL, DST_NUM_ROLLPERIOD, DST_NUM_LIFETIME,
     DST_NUM_DSPUBCOUNT, DST_NUM_DSDELCOUNT]"

definition dst_bools :: "dst_bool list" where
  "dst_bools = [DST_BOOL_KSK, DST_BOOL_ZSK]"

definition dst_statetypes :: "dst_statetype list" where
  "dst_statetypes = [DST_KEY_DNSKEY, DST_KEY_ZRRSIG, DST_KEY_KRRSIG, DST_KEY_DS, DST_KEY_GOAL]"

text \<open>
  A metadata array and its array of \<^verbatim>\<open>set\<close> flags are one map.  \<open>k_data\<close> stands for the key material,
  which only the cryptographic library reads.
\<close>

record dst_key =
  k_size :: u32
  k_alg :: u32
  k_flags :: u32
  k_id :: u16
  k_rid :: u16
  k_ttl :: u32
  k_data :: nat
  k_times :: "dst_time \<Rightarrow> u32 option"
  k_nums :: "dst_num \<Rightarrow> u32 option"
  k_bools :: "dst_bool \<Rightarrow> bool option"
  k_states :: "dst_statetype \<Rightarrow> dst_key_state option"
  k_modified :: bool
  k_fmt_major :: int
  k_fmt_minor :: int

definition dst_key_getbool :: "dst_key \<Rightarrow> dst_bool \<Rightarrow> bool option" where
  "dst_key_getbool key type = k_bools key type"

definition dst_key_setbool :: "dst_bool \<Rightarrow> bool \<Rightarrow> dst_key \<Rightarrow> dst_key" where
  "dst_key_setbool type v key = key\<lparr>k_bools := (k_bools key)(type := Some v),
     k_modified := k_modified key \<or> k_bools key type \<noteq> Some v\<rparr>"

definition dst_key_unsetbool :: "dst_bool \<Rightarrow> dst_key \<Rightarrow> dst_key" where
  "dst_key_unsetbool type key = key\<lparr>k_bools := (k_bools key)(type := None),
     k_modified := k_modified key \<or> k_bools key type \<noteq> None\<rparr>"

definition dst_key_getnum :: "dst_key \<Rightarrow> dst_num \<Rightarrow> u32 option" where
  "dst_key_getnum key type = k_nums key type"

definition dst_key_setnum :: "dst_num \<Rightarrow> u32 \<Rightarrow> dst_key \<Rightarrow> dst_key" where
  "dst_key_setnum type v key = key\<lparr>k_nums := (k_nums key)(type := Some v),
     k_modified := k_modified key \<or> k_nums key type \<noteq> Some v\<rparr>"

definition dst_key_unsetnum :: "dst_num \<Rightarrow> dst_key \<Rightarrow> dst_key" where
  "dst_key_unsetnum type key = key\<lparr>k_nums := (k_nums key)(type := None),
     k_modified := k_modified key \<or> k_nums key type \<noteq> None\<rparr>"

definition dst_key_gettime :: "dst_key \<Rightarrow> dst_time \<Rightarrow> u32 option" where
  "dst_key_gettime key type = k_times key type"

definition dst_key_settime :: "dst_time \<Rightarrow> u32 \<Rightarrow> dst_key \<Rightarrow> dst_key" where
  "dst_key_settime type v key = key\<lparr>k_times := (k_times key)(type := Some v),
     k_modified := k_modified key \<or> k_times key type \<noteq> Some v\<rparr>"

definition dst_key_unsettime :: "dst_time \<Rightarrow> dst_key \<Rightarrow> dst_key" where
  "dst_key_unsettime type key = key\<lparr>k_times := (k_times key)(type := None),
     k_modified := k_modified key \<or> k_times key type \<noteq> None\<rparr>"

definition dst_key_getstate :: "dst_key \<Rightarrow> dst_statetype \<Rightarrow> dst_key_state option" where
  "dst_key_getstate key type = k_states key type"

definition dst_key_setstate :: "dst_statetype \<Rightarrow> dst_key_state \<Rightarrow> dst_key \<Rightarrow> dst_key" where
  "dst_key_setstate type v key = key\<lparr>k_states := (k_states key)(type := Some v),
     k_modified := k_modified key \<or> k_states key type \<noteq> Some v\<rparr>"

definition dst_key_unsetstate :: "dst_statetype \<Rightarrow> dst_key \<Rightarrow> dst_key" where
  "dst_key_unsetstate type key = key\<lparr>k_states := (k_states key)(type := None),
     k_modified := k_modified key \<or> k_states key type \<noteq> None\<rparr>"

definition dst_key_setmodified :: "bool \<Rightarrow> dst_key \<Rightarrow> dst_key" where
  "dst_key_setmodified v key = key\<lparr>k_modified := v\<rparr>"

definition dst_key_ismodified :: "dst_key \<Rightarrow> bool" where
  "dst_key_ismodified key = k_modified key"

definition dst_key_size :: "dst_key \<Rightarrow> u32" where "dst_key_size key = k_size key"
definition dst_key_alg :: "dst_key \<Rightarrow> u32" where "dst_key_alg key = k_alg key"
definition dst_key_flags :: "dst_key \<Rightarrow> u32" where "dst_key_flags key = k_flags key"
definition dst_key_id :: "dst_key \<Rightarrow> u16" where "dst_key_id key = k_id key"
definition dst_key_rid :: "dst_key \<Rightarrow> u16" where "dst_key_rid key = k_rid key"
definition dst_key_getttl :: "dst_key \<Rightarrow> u32" where "dst_key_getttl key = k_ttl key"

definition dst_key_setttl :: "u32 \<Rightarrow> dst_key \<Rightarrow> dst_key" where
  "dst_key_setttl ttl key = key\<lparr>k_ttl := ttl\<rparr>"

section \<open>Key tags\<close>

definition DNS_KEYFLAG_KSK :: u32 where "DNS_KEYFLAG_KSK = 0x0001"
definition DNS_KEYFLAG_REVOKE :: u32 where "DNS_KEYFLAG_REVOKE = 0x0080"

fun sum_octets :: "bytes \<Rightarrow> u32 \<Rightarrow> u32" where
  "sum_octets (a # b # p) ac = sum_octets p (ac + (push_bit 8 (ucast a) + ucast b))"
| "sum_octets [a] ac = ac + push_bit 8 (ucast a)"
| "sum_octets [] ac = ac"

definition fold_carry :: "u32 \<Rightarrow> u16" where
  "fold_carry ac = ucast ((ac + (drop_bit 16 ac AND 0xffff)) AND 0xffff)"

definition dst_region_computeid :: "bytes \<Rightarrow> u16 option" where
  "dst_region_computeid source = do {
     REQUIRE (length source \<ge> 4);
     Some (fold_carry (sum_octets source 0))
   }"

definition dst_region_computerid :: "bytes \<Rightarrow> u16 option" where
  "dst_region_computerid source = do {
     REQUIRE (length source \<ge> 4);
     let ac = (push_bit 8 (ucast (source ! 0)) + ucast (source ! 1)) OR DNS_KEYFLAG_REVOKE;
     Some (fold_carry (sum_octets (drop 2 source) ac))
   }"

text \<open>
  \<open>todns\<close> stands for \<^verbatim>\<open>dst_key_todns\<close>, which asks the cryptographic library for the public key: the wire
  form of the DNSKEY record data, or a failure.
\<close>

definition computeid :: "(dst_key \<Rightarrow> isc_result + bytes) \<Rightarrow> dst_key \<Rightarrow> (isc_result \<times> dst_key) option" where
  "computeid todns key =
     (case todns key of
        Inl ret \<Rightarrow> Some (ret, key)
      | Inr r \<Rightarrow> do {
          id \<leftarrow> dst_region_computeid r;
          rid \<leftarrow> dst_region_computerid r;
          Some (ISC_R_SUCCESS, key\<lparr>k_id := id, k_rid := rid\<rparr>)
        })"

definition dst_key_setflags ::
  "(dst_key \<Rightarrow> isc_result + bytes) \<Rightarrow> dst_key \<Rightarrow> u32 \<Rightarrow> (isc_result \<times> dst_key) option" where
  "dst_key_setflags todns key flags = computeid todns (key\<lparr>k_flags := flags\<rparr>)"

section \<open>Tests on the metadata\<close>

fun time_statetype :: "dst_time \<Rightarrow> dst_statetype option" where
  "time_statetype DST_TIME_DNSKEY = Some DST_KEY_DNSKEY"
| "time_statetype DST_TIME_ZRRSIG = Some DST_KEY_ZRRSIG"
| "time_statetype DST_TIME_KRRSIG = Some DST_KEY_KRRSIG"
| "time_statetype DST_TIME_DS = Some DST_KEY_DS"
| "time_statetype _ = None"

fun is_unused_loop :: "dst_key \<Rightarrow> dst_time list \<Rightarrow> bool" where
  "is_unused_loop key [] = True"
| "is_unused_loop key (i # is) =
     (if i = DST_TIME_CREATED then is_unused_loop key is
      else case dst_key_gettime key i of
        None \<Rightarrow> is_unused_loop key is
      | Some val \<Rightarrow>
          (case time_statetype i of
             None \<Rightarrow> False
           | Some state_type \<Rightarrow>
               let st = (case dst_key_getstate key state_type of None \<Rightarrow> NA | Some s \<Rightarrow> s)
               in if st \<noteq> HIDDEN then False else is_unused_loop key is))"

definition dst_key_is_unused :: "dst_key \<Rightarrow> bool" where
  "dst_key_is_unused key = is_unused_loop key dst_times"

definition dst_key_role :: "dst_key \<Rightarrow> isc_result \<times> bool \<times> bool" where
  "dst_key_role key =
     (let (r1, ksk) = (case dst_key_getbool key DST_BOOL_KSK of
            Some k \<Rightarrow> (ISC_R_SUCCESS, k)
          | None \<Rightarrow> (ISC_R_NOTFOUND, (dst_key_flags key AND DNS_KEYFLAG_KSK) \<noteq> 0));
          (r2, zsk) = (case dst_key_getbool key DST_BOOL_ZSK of
            Some z \<Rightarrow> (r1, z)
          | None \<Rightarrow> (ISC_R_NOTFOUND, (dst_key_flags key AND DNS_KEYFLAG_KSK) = 0))
      in (r2, ksk, zsk))"

text \<open>\<open>present\<close> is the test the C functions repeat on a record's state.\<close>

definition present :: "dst_key_state \<Rightarrow> bool" where
  "present state \<longleftrightarrow> state = RUMOURED \<or> state = OMNIPRESENT"

text \<open>The second result is what the caller's \<^verbatim>\<open>publish\<close> is left with.\<close>

definition dst_key_is_published :: "dst_key \<Rightarrow> u32 \<Rightarrow> u32 \<Rightarrow> bool \<times> u32" where
  "dst_key_is_published key now publish =
     (let (publish, time_ok) = (case dst_key_gettime key DST_TIME_PUBLISH of
            Some t \<Rightarrow> (t, t \<le> now)
          | None \<Rightarrow> (publish, False));
          (state_ok, time_ok) = (case dst_key_getstate key DST_KEY_DNSKEY of
            Some state \<Rightarrow> (present state, True)
          | None \<Rightarrow> (True, time_ok))
      in (state_ok \<and> time_ok, publish))"

definition dst_key_is_active :: "dst_key \<Rightarrow> u32 \<Rightarrow> bool" where
  "dst_key_is_active key now =
     (let inactive = (case dst_key_gettime key DST_TIME_INACTIVE of Some t \<Rightarrow> t \<le> now | None \<Rightarrow> False);
          time_ok = (case dst_key_gettime key DST_TIME_ACTIVATE of Some t \<Rightarrow> t \<le> now | None \<Rightarrow> False);
          (_, ksk, zsk) = dst_key_role key;
          (ds_ok, time_ok, inactive) = (case (ksk, dst_key_getstate key DST_KEY_DS) of
            (True, Some state) \<Rightarrow> (present state, True, False)
          | _ \<Rightarrow> (True, time_ok, inactive));
          (zrrsig_ok, time_ok, inactive) = (case (zsk, dst_key_getstate key DST_KEY_ZRRSIG) of
            (True, Some state) \<Rightarrow> (present state, True, False)
          | _ \<Rightarrow> (True, time_ok, inactive))
      in ds_ok \<and> zrrsig_ok \<and> time_ok \<and> \<not> inactive)"

definition dst_key_is_signing :: "dst_key \<Rightarrow> dst_bool \<Rightarrow> u32 \<Rightarrow> u32 \<Rightarrow> bool \<times> u32" where
  "dst_key_is_signing key role now active =
     (let inactive = (case dst_key_gettime key DST_TIME_INACTIVE of Some t \<Rightarrow> t \<le> now | None \<Rightarrow> False);
          (active, time_ok) = (case dst_key_gettime key DST_TIME_ACTIVATE of
            Some t \<Rightarrow> (t, t \<le> now)
          | None \<Rightarrow> (active, False));
          (_, ksk, zsk) = dst_key_role key;
          rrsig = (if ksk \<and> role = DST_BOOL_KSK then dst_key_getstate key DST_KEY_KRRSIG
                   else if zsk \<and> role = DST_BOOL_ZSK then dst_key_getstate key DST_KEY_ZRRSIG
                   else None);
          (rrsig_ok, time_ok, inactive) = (case rrsig of
            Some state \<Rightarrow> (present state, True, False)
          | None \<Rightarrow> (True, time_ok, inactive))
      in (rrsig_ok \<and> time_ok \<and> \<not> inactive, active))"

definition dst_key_is_revoked :: "dst_key \<Rightarrow> u32 \<Rightarrow> u32 \<Rightarrow> bool \<times> u32" where
  "dst_key_is_revoked key now revoke =
     (case dst_key_gettime key DST_TIME_REVOKE of
        Some t \<Rightarrow> (t \<le> now, t)
      | None \<Rightarrow> (False, revoke))"

definition dst_key_is_removed :: "dst_key \<Rightarrow> u32 \<Rightarrow> u32 \<Rightarrow> bool \<times> u32" where
  "dst_key_is_removed key now remove =
     (if dst_key_is_unused key then (False, remove)
      else
        let (remove, time_ok) = (case dst_key_gettime key DST_TIME_DELETE of
              Some t \<Rightarrow> (t, t \<le> now)
            | None \<Rightarrow> (remove, False));
            (state_ok, time_ok) = (case dst_key_getstate key DST_KEY_DNSKEY of
              Some state \<Rightarrow> (state = UNRETENTIVE \<or> state = HIDDEN, True)
            | None \<Rightarrow> (True, time_ok))
        in (state_ok \<and> time_ok, remove))"

definition dst_key_goal :: "dst_key \<Rightarrow> dst_key_state" where
  "dst_key_goal key = (case dst_key_getstate key DST_KEY_GOAL of Some state \<Rightarrow> state | None \<Rightarrow> HIDDEN)"

definition dst_key_copy_metadata :: "dst_key \<Rightarrow> dst_key \<Rightarrow> dst_key" where
  "dst_key_copy_metadata dst from =
     (let dst = fold (\<lambda>i. case dst_key_gettime from i of
             Some v \<Rightarrow> dst_key_settime i v | None \<Rightarrow> dst_key_unsettime i) dst_times dst;
          dst = fold (\<lambda>i. case dst_key_getnum from i of
             Some v \<Rightarrow> dst_key_setnum i v | None \<Rightarrow> dst_key_unsetnum i) dst_nums dst;
          dst = fold (\<lambda>i. case dst_key_getbool from i of
             Some v \<Rightarrow> dst_key_setbool i v | None \<Rightarrow> dst_key_unsetbool i) dst_bools dst;
          dst = fold (\<lambda>i. case dst_key_getstate from i of
             Some v \<Rightarrow> dst_key_setstate i v | None \<Rightarrow> dst_key_unsetstate i) dst_statetypes dst
      in dst_key_setmodified (dst_key_ismodified from) dst)"

end
