(* ===== verification/Kasp.thy ===== *)
theory Kasp
  imports Dst
begin

text \<open>
  The key and signing policy of a zone, \<^verbatim>\<open>lib/dns/kasp.c\<close>: the configured keys and the times that
  govern rollovers.  A value of type \<open>dns_kasp\<close> is a valid, frozen policy.
\<close>

record dns_kasp_key =
  kk_lifetime :: u32
  kk_algorithm :: u8
  kk_param :: int
  kk_role :: u8

record dns_kasp =
  kp_signatures_refresh :: u32
  kp_signatures_validity :: u32
  kp_keys :: "dns_kasp_key list"
  kp_dnskey_ttl :: u32
  kp_publish_safety :: u32
  kp_retire_safety :: u32
  kp_purge_keys :: u32
  kp_zone_max_ttl :: u32
  kp_zone_propagation_delay :: u32
  kp_parent_ds_ttl :: u32
  kp_parent_propagation_delay :: u32

definition DEFAULT_TTLSIG :: u32 where "DEFAULT_TTLSIG = 604800"

definition dns_kasp_signdelay :: "dns_kasp \<Rightarrow> u32" where
  "dns_kasp_signdelay kasp = kp_signatures_validity kasp - kp_signatures_refresh kasp"

definition dns_kasp_zonemaxttl :: "dns_kasp \<Rightarrow> bool \<Rightarrow> u32" where
  "dns_kasp_zonemaxttl kasp fallback =
     (if kp_zone_max_ttl kasp = 0 \<and> fallback then DEFAULT_TTLSIG else kp_zone_max_ttl kasp)"

definition dns_kasp_dnskeyttl :: "dns_kasp \<Rightarrow> u32" where
  "dns_kasp_dnskeyttl kasp = kp_dnskey_ttl kasp"

definition dns_kasp_purgekeys :: "dns_kasp \<Rightarrow> u32" where
  "dns_kasp_purgekeys kasp = kp_purge_keys kasp"

definition dns_kasp_publishsafety :: "dns_kasp \<Rightarrow> u32" where
  "dns_kasp_publishsafety kasp = kp_publish_safety kasp"

definition dns_kasp_retiresafety :: "dns_kasp \<Rightarrow> u32" where
  "dns_kasp_retiresafety kasp = kp_retire_safety kasp"

definition dns_kasp_zonepropagationdelay :: "dns_kasp \<Rightarrow> u32" where
  "dns_kasp_zonepropagationdelay kasp = kp_zone_propagation_delay kasp"

definition dns_kasp_dsttl :: "dns_kasp \<Rightarrow> u32" where
  "dns_kasp_dsttl kasp = kp_parent_ds_ttl kasp"

definition dns_kasp_parentpropagationdelay :: "dns_kasp \<Rightarrow> u32" where
  "dns_kasp_parentpropagationdelay kasp = kp_parent_propagation_delay kasp"

definition dns_kasp_keys :: "dns_kasp \<Rightarrow> dns_kasp_key list" where
  "dns_kasp_keys kasp = kp_keys kasp"

definition dns_kasp_keylist_empty :: "dns_kasp \<Rightarrow> bool" where
  "dns_kasp_keylist_empty kasp = (kp_keys kasp = [])"

definition dns_kasp_key_algorithm :: "dns_kasp_key \<Rightarrow> u32" where
  "dns_kasp_key_algorithm key = ucast (kk_algorithm key)"

definition dns_kasp_key_lifetime :: "dns_kasp_key \<Rightarrow> u32" where
  "dns_kasp_key_lifetime key = kk_lifetime key"

definition dns_kasp_key_ksk :: "dns_kasp_key \<Rightarrow> bool" where
  "dns_kasp_key_ksk key = (kk_role key AND 1 \<noteq> 0)"

definition dns_kasp_key_zsk :: "dns_kasp_key \<Rightarrow> bool" where
  "dns_kasp_key_zsk key = (kk_role key AND 2 \<noteq> 0)"

text \<open>
  The bits of a post-quantum stateful key come from liboqs: \<open>xmss_bits\<close> and \<open>xmssmt_bits\<close> give, for a
  parameter-set number known there, the value of \<^verbatim>\<open>xmss_name_to_bits\<close>.
\<close>

definition dns_kasp_key_size ::
  "(u32 \<Rightarrow> int option) \<Rightarrow> (u32 \<Rightarrow> int option) \<Rightarrow> dns_kasp_key \<Rightarrow> u32" where
  "dns_kasp_key_size xmss_bits xmssmt_bits key =
     (let a = kk_algorithm key; p = kk_param key in
      if a = 5 \<or> a = 7 \<or> a = 8 \<or> a = 10 then
        let mn = (if a = 10 then 1024 else 512) in
        if p > -1 then
          let size = (of_int p :: u32); size = (if size < mn then mn else size)
          in (if size > 4096 then 4096 else size)
        else 2048
      else if a = 13 then 256
      else if a = 14 then 384
      else if a = 15 then 256
      else if a = 16 then 456
      else if a = 17 then 7176
      else if a = 18 then 10496
      else if a = 19 then 256
      else if a = 20 then (case xmss_bits (of_int p) of Some n \<Rightarrow> of_int n | None \<Rightarrow> 0)
      else if a = 21 then (case xmssmt_bits (of_int p) of Some n \<Rightarrow> of_int n | None \<Rightarrow> 0)
      else 0)"

lemma signdelay_exact:
  "kp_signatures_refresh kasp \<le> kp_signatures_validity kasp \<Longrightarrow>
   unat (dns_kasp_signdelay kasp) = unat (kp_signatures_validity kasp) - unat (kp_signatures_refresh kasp)"
  unfolding dns_kasp_signdelay_def by (rule unat_sub)

lemma rsa_size_range:
  "kk_algorithm key = 8 \<Longrightarrow>
   512 \<le> dns_kasp_key_size x y key \<and> dns_kasp_key_size x y key \<le> 4096"
  by (auto simp: dns_kasp_key_size_def Let_def not_less)


text \<open>The values \<^verbatim>\<open>kasp.h\<close> gives as defaults.\<close>

definition default_kasp :: dns_kasp where
  "default_kasp = \<lparr>kp_signatures_refresh = 432000, kp_signatures_validity = 1209600, kp_keys = [],
     kp_dnskey_ttl = 3600, kp_publish_safety = 3600, kp_retire_safety = 3600, kp_purge_keys = 7776000,
     kp_zone_max_ttl = 86400, kp_zone_propagation_delay = 300, kp_parent_ds_ttl = 86400,
     kp_parent_propagation_delay = 3600\<rparr>"

end
