(* ===== verification/KeyRules.thy ===== *)
theory KeyRules
  imports Kasp
begin

text \<open>
  The rules of \<^verbatim>\<open>lib/dns/keymgr.c\<close> that say which change of a key's records keeps a zone valid: the successor
  relation between keys, the three DNSSEC rules, and the extra barrier of the rollover method.

  A key ring is the list of its keys; a pointer to a key of the ring is its position.  A table of
  expected states, \<^verbatim>\<open>dst_key_state_t states[NUM_KEYSTATES]\<close>, is a function of the record type.
\<close>

section \<open>Keys of a ring\<close>

datatype dns_keysource =
  dns_keysource_unknown | dns_keysource_repository | dns_keysource_zoneapex | dns_keysource_user

record dns_dnsseckey =
  dk_key :: dst_key
  hint_publish :: bool
  force_publish :: bool
  hint_sign :: bool
  force_sign :: bool
  hint_revoke :: bool
  hint_remove :: bool
  dk_is_active :: bool
  first_sign :: bool
  dk_purge :: bool
  prepublish :: u32
  dk_source :: dns_keysource
  dk_ksk :: bool
  dk_zsk :: bool
  dk_legacy :: bool
  dk_index :: u32

type_synonym keyring = "dns_dnsseckey list"
type_synonym states = "dst_statetype \<Rightarrow> dst_key_state"

definition keystate_types :: "dst_statetype list" where
  "keystate_types = [DST_KEY_DNSKEY, DST_KEY_ZRRSIG, DST_KEY_KRRSIG, DST_KEY_DS]"

text \<open>A table written \<^verbatim>\<open>{ dnskey, zrrsig, krrsig, ds }\<close> in the source.\<close>

definition st4 :: "dst_key_state \<Rightarrow> dst_key_state \<Rightarrow> dst_key_state \<Rightarrow> dst_key_state \<Rightarrow> states" where
  "st4 a b c d t = (case t of DST_KEY_DNSKEY \<Rightarrow> a | DST_KEY_ZRRSIG \<Rightarrow> b | DST_KEY_KRRSIG \<Rightarrow> c
     | DST_KEY_DS \<Rightarrow> d | DST_KEY_GOAL \<Rightarrow> NA)"

abbreviation na :: states where "na \<equiv> st4 NA NA NA NA"

section \<open>Matching states\<close>

fun match_state_loop ::
  "dst_key \<Rightarrow> dst_key \<Rightarrow> dst_statetype \<Rightarrow> dst_key_state \<Rightarrow> states \<Rightarrow> dst_statetype list \<Rightarrow> bool" where
  "match_state_loop key subject type next_state states [] = True"
| "match_state_loop key subject type next_state states (i # is) =
     (if states i = NA then match_state_loop key subject type next_state states is
      else if next_state \<noteq> NA \<and> i = type \<and> dst_key_id key = dst_key_id subject
      then (if next_state \<noteq> states i then False
            else match_state_loop key subject type next_state states is)
      else case dst_key_getstate key i of
        None \<Rightarrow> if states i \<noteq> HIDDEN then False
                else match_state_loop key subject type next_state states is
      | Some state \<Rightarrow> if state \<noteq> states i then False
                      else match_state_loop key subject type next_state states is)"

definition keymgr_key_match_state ::
  "dst_key \<Rightarrow> dst_key \<Rightarrow> dst_statetype \<Rightarrow> dst_key_state \<Rightarrow> states \<Rightarrow> bool" where
  "keymgr_key_match_state key subject type next_state states =
     match_state_loop key subject type next_state states keystate_types"

section \<open>The successor relation\<close>

definition keymgr_direct_dep :: "dst_key \<Rightarrow> dst_key \<Rightarrow> bool" where
  "keymgr_direct_dep d k =
     (case dst_key_getnum d DST_NUM_SUCCESSOR of
        None \<Rightarrow> False
      | Some s \<Rightarrow>
          (case dst_key_getnum k DST_NUM_PREDECESSOR of
             None \<Rightarrow> False
           | Some p \<Rightarrow> ucast (dst_key_id d) = p \<and> ucast (dst_key_id k) = s))"

text \<open>\<open>Some dep\<close> is the result true with the identifier written through the pointer.\<close>

fun keymgr_dep :: "dst_key \<Rightarrow> keyring \<Rightarrow> u32 option" where
  "keymgr_dep k [] = None"
| "keymgr_dep k (d # ds) =
     (if keymgr_direct_dep (dk_key d) k then Some (ucast (dst_key_id (dk_key d))) else keymgr_dep k ds)"

definition key_states :: "dst_key \<Rightarrow> states" where
  "key_states z t = (if t = DST_KEY_GOAL then NA
     else case dst_key_getstate z t of None \<Rightarrow> NA | Some state \<Rightarrow> state)"

text \<open>
  The recursion follows predecessors; nothing in the code bounds it, and on a ring whose keys name
  each other in a circle it does not return, which is the value \<open>None\<close>.
\<close>

partial_function (option) keymgr_key_is_successor ::
  "dst_key \<Rightarrow> dst_key \<Rightarrow> dst_key \<Rightarrow> dst_statetype \<Rightarrow> dst_key_state \<Rightarrow> keyring \<Rightarrow> bool option" where
  "keymgr_key_is_successor x z key type next_state keyring =
     (case keymgr_dep x keyring of
        Some dep_x \<Rightarrow> Some False
      | None \<Rightarrow>
          (case keymgr_dep z keyring of
             None \<Rightarrow> Some False
           | Some dep_z \<Rightarrow>
               if ucast (dst_key_id x) = dep_z then Some True
               else
                 (case find (\<lambda>y. dst_key_id (dk_key y) \<noteq> dst_key_id z \<and> ucast (dst_key_id (dk_key y)) = dep_z \<and>
                        keymgr_key_match_state (dk_key y) key type next_state (key_states z)) keyring of
                    None \<Rightarrow> Some False
                  | Some y \<Rightarrow> keymgr_key_is_successor x (dk_key y) key type next_state keyring)))"

declare keymgr_key_is_successor.simps [code]

section \<open>Looking for keys\<close>

fun successor_loop ::
  "keyring \<Rightarrow> dns_dnsseckey \<Rightarrow> dst_statetype \<Rightarrow> dst_key_state \<Rightarrow> states \<Rightarrow> nat \<Rightarrow> dns_dnsseckey \<Rightarrow>
   (nat \<times> dns_dnsseckey) list \<Rightarrow> bool option" where
  "successor_loop keyring key type next_state states2 di dkey [] = Some False"
| "successor_loop keyring key type next_state states2 di dkey ((si, skey) # ss) =
     (if si = di then successor_loop keyring key type next_state states2 di dkey ss
      else if \<not> keymgr_key_match_state (dk_key skey) (dk_key key) type next_state states2
      then successor_loop keyring key type next_state states2 di dkey ss
      else do {
        b \<leftarrow> keymgr_key_is_successor (dk_key dkey) (dk_key skey) (dk_key key) type next_state keyring;
        if b then Some True else successor_loop keyring key type next_state states2 di dkey ss
      })"

fun exists_loop ::
  "keyring \<Rightarrow> dns_dnsseckey \<Rightarrow> dst_statetype \<Rightarrow> dst_key_state \<Rightarrow> states \<Rightarrow> states \<Rightarrow> bool \<Rightarrow> bool \<Rightarrow>
   (nat \<times> dns_dnsseckey) list \<Rightarrow> bool option" where
  "exists_loop keyring key type next_state sts sts2 check_successor match_algorithms [] = Some False"
| "exists_loop keyring key type next_state sts sts2 check_successor match_algorithms ((di, dkey) # ds) =
     (if match_algorithms \<and> dst_key_alg (dk_key dkey) \<noteq> dst_key_alg (dk_key key)
      then exists_loop keyring key type next_state sts sts2 check_successor match_algorithms ds
      else if \<not> keymgr_key_match_state (dk_key dkey) (dk_key key) type next_state sts
      then exists_loop keyring key type next_state sts sts2 check_successor match_algorithms ds
      else if \<not> check_successor then Some True
      else do {
        b \<leftarrow> successor_loop keyring key type next_state sts2 di dkey (enumerate 0 keyring);
        if b then Some True
        else exists_loop keyring key type next_state sts sts2 check_successor match_algorithms ds
      })"

definition keymgr_key_exists_with_state ::
  "keyring \<Rightarrow> dns_dnsseckey \<Rightarrow> dst_statetype \<Rightarrow> dst_key_state \<Rightarrow> states \<Rightarrow> states \<Rightarrow> bool \<Rightarrow> bool \<Rightarrow> bool option" where
  "keymgr_key_exists_with_state keyring key type next_state sts sts2 check_successor match_algorithms =
     exists_loop keyring key type next_state sts sts2 check_successor match_algorithms (enumerate 0 keyring)"

fun keymgr_key_has_successor :: "dns_dnsseckey \<Rightarrow> keyring \<Rightarrow> bool" where
  "keymgr_key_has_successor predecessor [] = False"
| "keymgr_key_has_successor predecessor (s # ss) =
     (if keymgr_direct_dep (dk_key predecessor) (dk_key s) then True
      else keymgr_key_has_successor predecessor ss)"

text \<open>The table \<^verbatim>\<open>dnskey_chained\<close> is changed inside the loop and keeps its change for the keys that follow.\<close>

fun ds_chained_loop ::
  "keyring \<Rightarrow> dns_dnsseckey \<Rightarrow> dst_statetype \<Rightarrow> dst_key_state \<Rightarrow> bool \<Rightarrow> bool \<Rightarrow> states \<Rightarrow> keyring \<Rightarrow> bool option" where
  "ds_chained_loop keyring key type next_state match_algorithms must_be_hidden dnskey_chained [] = Some True"
| "ds_chained_loop keyring key type next_state match_algorithms must_be_hidden dnskey_chained (dkey # ds) =
     (if match_algorithms \<and> dst_key_alg (dk_key dkey) \<noteq> dst_key_alg (dk_key key)
      then ds_chained_loop keyring key type next_state match_algorithms must_be_hidden dnskey_chained ds
      else if keymgr_key_match_state (dk_key dkey) (dk_key key) type next_state (st4 NA NA NA HIDDEN)
      then ds_chained_loop keyring key type next_state match_algorithms must_be_hidden dnskey_chained ds
      else if must_be_hidden then Some False
      else if keymgr_key_match_state (dk_key dkey) (dk_key key) type next_state dnskey_chained
      then ds_chained_loop keyring key type next_state match_algorithms must_be_hidden dnskey_chained ds
      else do {
        let dnskey_chained = dnskey_chained(DST_KEY_DS := OMNIPRESENT);
        b \<leftarrow> keymgr_key_exists_with_state keyring key type next_state dnskey_chained na False match_algorithms;
        if \<not> b then Some False
        else ds_chained_loop keyring key type next_state match_algorithms must_be_hidden dnskey_chained ds
      })"

definition keymgr_ds_hidden_or_chained ::
  "keyring \<Rightarrow> dns_dnsseckey \<Rightarrow> dst_statetype \<Rightarrow> dst_key_state \<Rightarrow> bool \<Rightarrow> bool \<Rightarrow> bool option" where
  "keymgr_ds_hidden_or_chained keyring key type next_state match_algorithms must_be_hidden =
     ds_chained_loop keyring key type next_state match_algorithms must_be_hidden
       (st4 OMNIPRESENT NA OMNIPRESENT NA) keyring"

fun dnskey_chained_loop ::
  "keyring \<Rightarrow> dns_dnsseckey \<Rightarrow> dst_statetype \<Rightarrow> dst_key_state \<Rightarrow> bool \<Rightarrow> states \<Rightarrow> keyring \<Rightarrow> bool option" where
  "dnskey_chained_loop keyring key type next_state match_algorithms rrsig_chained [] = Some True"
| "dnskey_chained_loop keyring key type next_state match_algorithms rrsig_chained (dkey # ds) =
     (if match_algorithms \<and> dst_key_alg (dk_key dkey) \<noteq> dst_key_alg (dk_key key)
      then dnskey_chained_loop keyring key type next_state match_algorithms rrsig_chained ds
      else if keymgr_key_match_state (dk_key dkey) (dk_key key) type next_state (st4 HIDDEN NA NA NA)
      then dnskey_chained_loop keyring key type next_state match_algorithms rrsig_chained ds
      else do {
        let rrsig_chained = (case dst_key_getstate (dk_key dkey) DST_KEY_DNSKEY of
              Some s \<Rightarrow> rrsig_chained(DST_KEY_DNSKEY := s)
            | None \<Rightarrow> rrsig_chained);
        b \<leftarrow> keymgr_key_exists_with_state keyring key type next_state rrsig_chained na False match_algorithms;
        if \<not> b then Some False
        else dnskey_chained_loop keyring key type next_state match_algorithms rrsig_chained ds
      })"

definition keymgr_dnskey_hidden_or_chained ::
  "keyring \<Rightarrow> dns_dnsseckey \<Rightarrow> dst_statetype \<Rightarrow> dst_key_state \<Rightarrow> bool \<Rightarrow> bool option" where
  "keymgr_dnskey_hidden_or_chained keyring key type next_state match_algorithms =
     dnskey_chained_loop keyring key type next_state match_algorithms (st4 OMNIPRESENT OMNIPRESENT NA NA) keyring"

section \<open>The rules\<close>

text \<open>A chain of \<^verbatim>\<open>||\<close>: the first that is true ends it, and what follows is not evaluated.\<close>

fun any_of :: "bool option list \<Rightarrow> bool option" where
  "any_of [] = Some False"
| "any_of (c # cs) = do { b \<leftarrow> c; if b then Some True else any_of cs }"

definition keymgr_have_ds ::
  "keyring \<Rightarrow> dns_dnsseckey \<Rightarrow> dst_statetype \<Rightarrow> dst_key_state \<Rightarrow> bool \<Rightarrow> bool option" where
  "keymgr_have_ds keyring key type next_state secure_to_insecure =
     any_of [
       keymgr_key_exists_with_state keyring key type next_state (st4 NA NA NA OMNIPRESENT) na False False,
       keymgr_key_exists_with_state keyring key type next_state (st4 NA NA NA RUMOURED) na False False,
       if secure_to_insecure then keymgr_key_exists_with_state keyring key type next_state na na False False
       else Some False]"

definition keymgr_have_dnskey ::
  "keyring \<Rightarrow> dns_dnsseckey \<Rightarrow> dst_statetype \<Rightarrow> dst_key_state \<Rightarrow> bool option" where
  "keymgr_have_dnskey keyring key type next_state =
     (let ex = keymgr_key_exists_with_state keyring key type next_state;
          s1 = st4 OMNIPRESENT NA OMNIPRESENT UNRETENTIVE;
          s2 = st4 OMNIPRESENT NA OMNIPRESENT RUMOURED;
          s3 = st4 UNRETENTIVE NA UNRETENTIVE OMNIPRESENT;
          s4 = st4 OMNIPRESENT NA UNRETENTIVE OMNIPRESENT;
          s5 = st4 UNRETENTIVE NA OMNIPRESENT OMNIPRESENT;
          s6 = st4 RUMOURED NA RUMOURED OMNIPRESENT;
          s7 = st4 OMNIPRESENT NA RUMOURED OMNIPRESENT;
          s8 = st4 RUMOURED NA OMNIPRESENT OMNIPRESENT
      in any_of [
        ex (st4 OMNIPRESENT NA OMNIPRESENT OMNIPRESENT) na False True,
        ex s1 s2 True True,
        ex s3 s6 True True, ex s3 s7 True True, ex s3 s8 True True,
        ex s4 s6 True True, ex s4 s7 True True, ex s4 s8 True True,
        ex s5 s6 True True, ex s5 s7 True True, ex s5 s8 True True,
        keymgr_ds_hidden_or_chained keyring key type next_state True False])"

definition keymgr_have_rrsig ::
  "keyring \<Rightarrow> dns_dnsseckey \<Rightarrow> dst_statetype \<Rightarrow> dst_key_state \<Rightarrow> bool option" where
  "keymgr_have_rrsig keyring key type next_state =
     (let ex = keymgr_key_exists_with_state keyring key type next_state
      in any_of [
        keymgr_ds_hidden_or_chained keyring key type next_state True True,
        ex (st4 OMNIPRESENT OMNIPRESENT NA NA) na False True,
        ex (st4 UNRETENTIVE OMNIPRESENT NA NA) (st4 RUMOURED OMNIPRESENT NA NA) True True,
        ex (st4 OMNIPRESENT UNRETENTIVE NA NA) (st4 OMNIPRESENT RUMOURED NA NA) True True,
        keymgr_dnskey_hidden_or_chained keyring key type next_state True])"

definition keymgr_policy_approval ::
  "keyring \<Rightarrow> dns_dnsseckey \<Rightarrow> dst_statetype \<Rightarrow> dst_key_state \<Rightarrow> bool option" where
  "keymgr_policy_approval keyring key type next =
     (let ex = keymgr_key_exists_with_state keyring key type next;
          dnskeystate = (case dst_key_getstate (dk_key key) DST_KEY_DNSKEY of Some s \<Rightarrow> s | None \<Rightarrow> HIDDEN)
      in if next \<noteq> RUMOURED then Some True
      else case type of
        DST_KEY_DNSKEY \<Rightarrow> Some True
      | DST_KEY_ZRRSIG \<Rightarrow>
          if dnskeystate = OMNIPRESENT then Some True
          else map_option Not (any_of [
            ex (st4 OMNIPRESENT NA OMNIPRESENT OMNIPRESENT) na False True,
            ex (st4 OMNIPRESENT NA OMNIPRESENT UNRETENTIVE) (st4 OMNIPRESENT NA OMNIPRESENT RUMOURED) True True,
            ex (st4 UNRETENTIVE NA NA OMNIPRESENT) (st4 RUMOURED NA NA OMNIPRESENT) True True])
      | DST_KEY_KRRSIG \<Rightarrow> Some (dnskeystate \<noteq> HIDDEN)
      | DST_KEY_DS \<Rightarrow> Some (dnskeystate = OMNIPRESENT)
      | DST_KEY_GOAL \<Rightarrow> Some False)"

text \<open>\<^verbatim>\<open>!now || then\<close>, the second evaluated only when the first does not decide.\<close>

definition still_holds :: "bool option \<Rightarrow> bool option \<Rightarrow> bool option" where
  "still_holds current changed = do { b \<leftarrow> current; if \<not> b then Some True else changed }"

definition keymgr_transition_allowed ::
  "keyring \<Rightarrow> dns_dnsseckey \<Rightarrow> dst_statetype \<Rightarrow> dst_key_state \<Rightarrow> bool \<Rightarrow> bool option" where
  "keymgr_transition_allowed keyring key type next_state secure_to_insecure = do {
     r1 \<leftarrow> still_holds (keymgr_have_ds keyring key type NA secure_to_insecure)
             (keymgr_have_ds keyring key type next_state secure_to_insecure);
     if \<not> r1 then Some False
     else do {
       r2 \<leftarrow> still_holds (keymgr_have_dnskey keyring key type NA) (keymgr_have_dnskey keyring key type next_state);
       if \<not> r2 then Some False
       else still_holds (keymgr_have_rrsig keyring key type NA) (keymgr_have_rrsig keyring key type next_state)
     }
   }"

end
