(* ===== verification/KeyUpdate.thy ===== *)
theory KeyUpdate
  imports KeyRules
begin

text \<open>
  The state machine of \<^verbatim>\<open>lib/dns/keymgr.c\<close>: the state a record of a key wants to be in, when it may move
  there, and \<^verbatim>\<open>keymgr_update\<close>, which moves the records of all keys until nothing moves.
\<close>

section \<open>The machine\<close>

definition keymgr_desiredstate :: "dns_dnsseckey \<Rightarrow> dst_key_state \<Rightarrow> dst_key_state" where
  "keymgr_desiredstate key state =
     (case dst_key_getstate (dk_key key) DST_KEY_GOAL of
        None \<Rightarrow> state
      | Some goal \<Rightarrow>
          if goal = HIDDEN then
            (case state of
               RUMOURED \<Rightarrow> UNRETENTIVE | OMNIPRESENT \<Rightarrow> UNRETENTIVE
             | HIDDEN \<Rightarrow> HIDDEN | UNRETENTIVE \<Rightarrow> HIDDEN | NA \<Rightarrow> state)
          else if goal = OMNIPRESENT then
            (case state of
               RUMOURED \<Rightarrow> OMNIPRESENT | OMNIPRESENT \<Rightarrow> OMNIPRESENT
             | HIDDEN \<Rightarrow> RUMOURED | UNRETENTIVE \<Rightarrow> RUMOURED | NA \<Rightarrow> state)
          else state)"

fun keystatetimes :: "dst_statetype \<Rightarrow> dst_time" where
  "keystatetimes DST_KEY_DNSKEY = DST_TIME_DNSKEY"
| "keystatetimes DST_KEY_ZRRSIG = DST_TIME_ZRRSIG"
| "keystatetimes DST_KEY_KRRSIG = DST_TIME_KRRSIG"
| "keystatetimes DST_KEY_DS = DST_TIME_DS"
| "keystatetimes DST_KEY_GOAL = DST_TIME_CREATED"

text \<open>
  The key, whose last change may be set here, and the time of the transition.  The additions are those
  of \<^verbatim>\<open>uint32_t\<close> and wrap around.  The table \<^verbatim>\<open>keystatetimes\<close> has no entry for the goal, and no caller asks for one.
\<close>

definition keymgr_transition_time ::
  "dst_key \<Rightarrow> dst_statetype \<Rightarrow> dst_key_state \<Rightarrow> dns_kasp \<Rightarrow> u32 \<Rightarrow> dst_key \<times> u32" where
  "keymgr_transition_time key type next_state kasp now =
     (if next_state = RUMOURED \<or> next_state = UNRETENTIVE then (key, now)
      else
        let ttlsig = dns_kasp_zonemaxttl kasp True;
            (key, lastchange) = (case dst_key_gettime key (keystatetimes type) of
               Some t \<Rightarrow> (key, t)
             | None \<Rightarrow> (dst_key_settime (keystatetimes type) now key, now));
            key_interval =
              (if next_state = OMNIPRESENT then
                 lastchange + dst_key_getttl key + dns_kasp_zonepropagationdelay kasp + dns_kasp_publishsafety kasp
               else if next_state = HIDDEN then
                 lastchange + dst_key_getttl key + dns_kasp_zonepropagationdelay kasp
               else now);
            ds_interval = (\<lambda>what.
              (case dst_key_gettime key what of
                 Some dstime \<Rightarrow>
                   if dstime > now then now + 3600
                   else dstime + dns_kasp_dsttl kasp + dns_kasp_parentpropagationdelay kasp + dns_kasp_retiresafety kasp
               | None \<Rightarrow> now + 3600))
        in (key,
          (case type of
             DST_KEY_DNSKEY \<Rightarrow> key_interval
           | DST_KEY_KRRSIG \<Rightarrow> key_interval
           | DST_KEY_ZRRSIG \<Rightarrow>
               if next_state = OMNIPRESENT \<or> next_state = HIDDEN then
                 lastchange + ttlsig + dns_kasp_zonepropagationdelay kasp + dns_kasp_retiresafety kasp +
                 (if dst_key_getnum key DST_NUM_PREDECESSOR \<noteq> None \<or> dst_key_getnum key DST_NUM_SUCCESSOR \<noteq> None
                  then dns_kasp_signdelay kasp else 0)
               else now
           | DST_KEY_DS \<Rightarrow>
               if next_state = OMNIPRESENT then ds_interval DST_TIME_DSPUBLISH
               else if next_state = HIDDEN then ds_interval DST_TIME_DSDELETE
               else now
           | DST_KEY_GOAL \<Rightarrow> now)))"

text \<open>One record of the key at position \<open>k\<close>: the ring, whether a state changed, and the next time to look.\<close>

definition update_record ::
  "dns_kasp \<Rightarrow> u32 \<Rightarrow> bool \<Rightarrow> nat \<Rightarrow> dst_statetype \<Rightarrow> keyring \<times> bool \<times> u32 \<Rightarrow> (keyring \<times> bool \<times> u32) option" where
  "update_record kasp now secure_to_insecure k i = (\<lambda>(keyring, changed, nexttime).
     let dkey = keyring ! k in
     case dst_key_getstate (dk_key dkey) i of
       None \<Rightarrow> Some (keyring, changed, nexttime)
     | Some state \<Rightarrow>
         let next_state = keymgr_desiredstate dkey state in
         if state = next_state then Some (keyring, changed, nexttime)
         else do {
           approved \<leftarrow> keymgr_policy_approval keyring dkey i next_state;
           if \<not> approved then Some (keyring, changed, nexttime)
           else do {
             allowed \<leftarrow> keymgr_transition_allowed keyring dkey i next_state secure_to_insecure;
             if \<not> allowed then Some (keyring, changed, nexttime)
             else do {
               let (key, when) = keymgr_transition_time (dk_key dkey) i next_state kasp now;
               if when > now then
                 Some (keyring[k := dkey\<lparr>dk_key := key\<rparr>], changed,
                       if nexttime = 0 \<or> nexttime > when then when else nexttime)
               else do {
                 let key = dst_key_settime (keystatetimes i) now (dst_key_setstate i next_state key);
                 INSIST (dst_key_ismodified key);
                 Some (keyring[k := dkey\<lparr>dk_key := key\<rparr>], True, nexttime)
               }
             }
           }
         })"

fun update_records ::
  "dns_kasp \<Rightarrow> u32 \<Rightarrow> bool \<Rightarrow> nat \<Rightarrow> dst_statetype list \<Rightarrow> keyring \<times> bool \<times> u32 \<Rightarrow> (keyring \<times> bool \<times> u32) option" where
  "update_records kasp now secure_to_insecure k [] s = Some s"
| "update_records kasp now secure_to_insecure k (i # is) s = do {
     s \<leftarrow> update_record kasp now secure_to_insecure k i s;
     update_records kasp now secure_to_insecure k is s
   }"

fun update_keys ::
  "dns_kasp \<Rightarrow> u32 \<Rightarrow> bool \<Rightarrow> nat list \<Rightarrow> keyring \<times> bool \<times> u32 \<Rightarrow> (keyring \<times> bool \<times> u32) option" where
  "update_keys kasp now secure_to_insecure [] s = Some s"
| "update_keys kasp now secure_to_insecure (k # ks) s = do {
     s \<leftarrow> update_records kasp now secure_to_insecure k keystate_types s;
     update_keys kasp now secure_to_insecure ks s
   }"

section \<open>The machine stops\<close>

text \<open>How many moves a record is away from where the goal of its key wants it.\<close>

fun moves_left :: "dst_key_state option \<Rightarrow> dst_key_state option \<Rightarrow> nat" where
  "moves_left (Some HIDDEN) (Some RUMOURED) = 2"
| "moves_left (Some HIDDEN) (Some OMNIPRESENT) = 2"
| "moves_left (Some HIDDEN) (Some UNRETENTIVE) = 1"
| "moves_left (Some OMNIPRESENT) (Some HIDDEN) = 2"
| "moves_left (Some OMNIPRESENT) (Some UNRETENTIVE) = 2"
| "moves_left (Some OMNIPRESENT) (Some RUMOURED) = 1"
| "moves_left _ _ = 0"

definition key_moves :: "dst_key \<Rightarrow> nat" where
  "key_moves key = sum_list (map (\<lambda>t. moves_left (k_states key DST_KEY_GOAL) (k_states key t)) keystate_types)"

definition ring_moves :: "keyring \<Rightarrow> nat" where
  "ring_moves keyring = sum_list (map (key_moves \<circ> dk_key) keyring)"

lemma desiredstate_moves:
  "keymgr_desiredstate key s \<noteq> s \<Longrightarrow>
   moves_left (k_states (dk_key key) DST_KEY_GOAL) (Some (keymgr_desiredstate key s)) <
   moves_left (k_states (dk_key key) DST_KEY_GOAL) (Some s)"
  by (cases s; cases "k_states (dk_key key) DST_KEY_GOAL"; simp add: keymgr_desiredstate_def dst_key_getstate_def split: if_splits)

lemma ring_moves_update:
  "k < length r \<Longrightarrow> ring_moves (r[k := d]) + key_moves (dk_key (r ! k)) = ring_moves r + key_moves (dk_key d)"
  unfolding ring_moves_def
  by (induction r arbitrary: k) (auto simp: nth_Cons split: nat.splits)

lemma transition_time_states [simp]:
  "k_states (fst (keymgr_transition_time key i n kasp now)) = k_states key"
  by (simp add: keymgr_transition_time_def Let_def dst_key_settime_def split: option.splits)

lemma settime_states [simp]: "k_states (dst_key_settime t v key) = k_states key"
  by (simp add: dst_key_settime_def)

lemma setstate_states [simp]: "k_states (dst_key_setstate t v key) = (k_states key)(t := Some v)"
  by (simp add: dst_key_setstate_def)

lemma keystate_types_set: "i \<in> set keystate_types \<longleftrightarrow> i \<noteq> DST_KEY_GOAL"
  by (cases i) (auto simp: keystate_types_def)

lemma key_moves_setstate:
  assumes "i \<noteq> DST_KEY_GOAL" "k_states key i = Some s" "k_states key' = (k_states key)(i := Some s')"
    "moves_left (k_states key DST_KEY_GOAL) (Some s') < moves_left (k_states key DST_KEY_GOAL) (Some s)"
  shows "key_moves key' < key_moves key"
  using assms by (cases i) (auto simp: key_moves_def keystate_types_def)

lemma key_moves_cong: "k_states key' = k_states key \<Longrightarrow> key_moves key' = key_moves key"
  by (simp add: key_moves_def)

text \<open>What one record's step can do.\<close>

lemma update_record_cases:
  assumes "update_record kasp now sti k i (ring, changed, nt) = Some (ring', changed', nt')"
  obtains (stay) "ring' = ring" "changed' = changed"
  | (wait) key where "ring' = ring[k := (ring ! k)\<lparr>dk_key := key\<rparr>]" "k_states key = k_states (dk_key (ring ! k))"
      "changed' = changed"
  | (move) key s where "ring' = ring[k := (ring ! k)\<lparr>dk_key := key\<rparr>]" "changed'"
      "dst_key_getstate (dk_key (ring ! k)) i = Some s" "keymgr_desiredstate (ring ! k) s \<noteq> s"
      "k_states key = (k_states (dk_key (ring ! k)))(i := Some (keymgr_desiredstate (ring ! k) s))"
proof (cases "dst_key_getstate (dk_key (ring ! k)) i")
  case None
  then show ?thesis using assms stay by (simp add: update_record_def)
next
  case (Some s)
  let ?n = "keymgr_desiredstate (ring ! k) s"
  show ?thesis
  proof (cases "?n = s")
    case True
    then show ?thesis using assms Some stay by (simp add: update_record_def)
  next
    case False
    obtain key w where tt: "keymgr_transition_time (dk_key (ring ! k)) i ?n kasp now = (key, w)"
      by fastforce
    then have st: "k_states key = k_states (dk_key (ring ! k))"
      using transition_time_states [of "dk_key (ring ! k)" i ?n kasp now] by simp
    show ?thesis
      using assms Some False tt st
        wait [of key] stay move [of "dst_key_settime (keystatetimes i) now (dst_key_setstate i ?n key)" s]
      by (auto simp: update_record_def Let_def bind_eq_Some_conv split: if_splits)
  qed
qed

lemma update_record_moves:
  assumes "update_record kasp now sti k i (ring, changed, nt) = Some (ring', changed', nt')"
    "k < length ring" "i \<noteq> DST_KEY_GOAL"
  shows "length ring' = length ring \<and> ring_moves ring' \<le> ring_moves ring \<and>
    (changed' \<longrightarrow> changed \<or> ring_moves ring' < ring_moves ring)"
  using assms(1)
proof (cases rule: update_record_cases)
  case (wait key)
  then show ?thesis
    using ring_moves_update [OF assms(2), of "(ring ! k)\<lparr>dk_key := key\<rparr>"] key_moves_cong [of key "dk_key (ring ! k)"]
    by simp
next
  case (move key s)
  then have "key_moves key < key_moves (dk_key (ring ! k))"
    using desiredstate_moves [of "ring ! k" s]
    by (intro key_moves_setstate [OF assms(3)]) (auto simp: dst_key_getstate_def)
  then show ?thesis
    using move ring_moves_update [OF assms(2), of "(ring ! k)\<lparr>dk_key := key\<rparr>"] by simp
qed simp

lemma update_records_moves:
  "update_records kasp now sti k is (ring, changed, nt) = Some (ring', changed', nt') \<Longrightarrow>
   k < length ring \<Longrightarrow> DST_KEY_GOAL \<notin> set is \<Longrightarrow>
   length ring' = length ring \<and> ring_moves ring' \<le> ring_moves ring \<and>
    (changed' \<longrightarrow> changed \<or> ring_moves ring' < ring_moves ring)"
proof (induction "is" arbitrary: ring changed nt)
  case (Cons i "is")
  obtain r1 c1 n1 where 1: "update_record kasp now sti k i (ring, changed, nt) = Some (r1, c1, n1)"
    "update_records kasp now sti k is (r1, c1, n1) = Some (ring', changed', nt')"
    using Cons.prems(1) by (auto simp: bind_eq_Some_conv)
  note A = update_record_moves [OF 1(1)]
  note B = Cons.IH [OF 1(2)]
  show ?case using A B Cons.prems(2,3) by auto
qed simp

lemma update_keys_moves:
  "update_keys kasp now sti ks (ring, changed, nt) = Some (ring', changed', nt') \<Longrightarrow>
   \<forall>k\<in>set ks. k < length ring \<Longrightarrow>
   length ring' = length ring \<and> ring_moves ring' \<le> ring_moves ring \<and>
    (changed' \<longrightarrow> changed \<or> ring_moves ring' < ring_moves ring)"
proof (induction ks arbitrary: ring changed nt)
  case (Cons k ks)
  obtain r1 c1 n1 where 1: "update_records kasp now sti k keystate_types (ring, changed, nt) = Some (r1, c1, n1)"
    "update_keys kasp now sti ks (r1, c1, n1) = Some (ring', changed', nt')"
    using Cons.prems(1) by (auto simp: bind_eq_Some_conv)
  have G: "DST_KEY_GOAL \<notin> set keystate_types" by (simp add: keystate_types_set)
  note A = update_records_moves [OF 1(1) _ G]
  note B = Cons.IH [OF 1(2)]
  show ?case using A B Cons.prems(2) by auto
qed simp

text \<open>
  Passes over the ring until one changes nothing.  A pass that changes a state leaves fewer moves to
  make, so there are at most twice as many passes as records.
\<close>

function keymgr_update ::
  "keyring \<Rightarrow> dns_kasp \<Rightarrow> u32 \<Rightarrow> u32 \<Rightarrow> bool \<Rightarrow> (keyring \<times> u32) option" where
  "keymgr_update keyring kasp now nexttime secure_to_insecure =
     (case update_keys kasp now secure_to_insecure [0..<length keyring] (keyring, False, nexttime) of
        None \<Rightarrow> None
      | Some (keyring', changed, nexttime') \<Rightarrow>
          if changed then keymgr_update keyring' kasp now nexttime' secure_to_insecure
          else Some (keyring', nexttime'))"
  by pat_completeness auto
termination
proof (relation "measure (\<lambda>(keyring, kasp, now, nexttime, sti). ring_moves keyring)", goal_cases)
  case (2 keyring kasp now nexttime sti t keyring' t' changed nexttime')
  then have "update_keys kasp now sti [0..<length keyring] (keyring, False, nexttime) = Some (keyring', True, nexttime')"
    by simp
  from update_keys_moves [OF this] show ?case by simp
qed simp

declare keymgr_update.simps [simp del]

end
