(* ===== verification/KeyReadings.thy ===== *)
theory KeyReadings
  imports KeyUpdate
begin

text \<open>
  How the rules of \<^verbatim>\<open>lib/dns/keymgr.c\<close> read a key ring: the successor relation and the searches as statements
  about the ring, what they depend on, and that the rules asked while pretending that a record has
  moved are the rules after it has moved.
\<close>

section \<open>Rings whose rollovers do not overlap\<close>

abbreviation kid :: "dns_dnsseckey \<Rightarrow> u16" where "kid d \<equiv> dst_key_id (dk_key d)"
abbreviation kalg :: "dns_dnsseckey \<Rightarrow> u32" where "kalg d \<equiv> dst_key_alg (dk_key d)"

text \<open>
  Key identifiers are unique, a key is replaced by one of its own algorithm, and a key that is being
  replaced is not itself a replacement: no rollover starts before the one before it is over.
\<close>

definition ring_ok :: "keyring \<Rightarrow> bool" where
  "ring_ok ring \<longleftrightarrow> distinct (map kid ring) \<and>
     (\<forall>d\<in>set ring. \<forall>k\<in>set ring. keymgr_direct_dep (dk_key d) (dk_key k) \<longrightarrow>
        kalg d = kalg k \<and> keymgr_dep (dk_key d) ring = None)"

text \<open>Under it, the successors of a key are those that name it, whatever their states.\<close>

definition succ_of :: "keyring \<Rightarrow> dns_dnsseckey \<Rightarrow> dns_dnsseckey \<Rightarrow> bool" where
  "succ_of ring x z \<longleftrightarrow> keymgr_dep (dk_key x) ring = None \<and> keymgr_dep (dk_key z) ring = Some (ucast (kid x))"

lemma ucast_id_eq [simp]: "(ucast (a :: u16) :: u32) = ucast b \<longleftrightarrow> a = b"
proof
  assume "(ucast a :: u32) = ucast b"
  then have "unat (ucast a :: u32) = unat (ucast b :: u32)" by simp
  moreover have "unat a < 2 ^ LENGTH(16)" "unat b < 2 ^ LENGTH(16)" by (rule unsigned_less)+
  ultimately have "unat a = unat b" by (simp add: unsigned_ucast_eq take_bit_nat_eq_self)
  then show "a = b" by (rule unsigned_word_eqI)
qed simp

lemma bex_enumerate: "(\<exists>(i, x)\<in>set (enumerate 0 xs). P i x) \<longleftrightarrow> (\<exists>i<length xs. P i (xs ! i))"
proof
  assume "\<exists>i<length xs. P i (xs ! i)"
  then obtain i where "i < length xs" "P i (xs ! i)" by blast
  then have "(i, xs ! i) \<in> set (enumerate 0 xs)" by (simp add: in_set_enumerate_eq)
  then show "\<exists>(i, x)\<in>set (enumerate 0 xs). P i x" using \<open>P i (xs ! i)\<close> by blast
qed (auto simp: in_set_enumerate_eq)

lemma keymgr_dep_Some: "keymgr_dep k ring = Some v \<Longrightarrow> \<exists>d\<in>set ring. keymgr_direct_dep (dk_key d) k \<and> v = ucast (kid d)"
  by (induction ring) (auto split: if_splits)

lemma ring_ok_id_eq: "ring_ok ring \<Longrightarrow> x \<in> set ring \<Longrightarrow> y \<in> set ring \<Longrightarrow> kid x = kid y \<Longrightarrow> x = y"
  unfolding ring_ok_def distinct_map by (auto dest: inj_onD)

lemma is_successor_eq:
  assumes ok: "ring_ok ring" and x: "x \<in> set ring" "z \<in> set ring"
  shows "keymgr_key_is_successor (dk_key x) (dk_key z) key type n ring = Some (succ_of ring x z)"
proof (cases "keymgr_dep (dk_key x) ring")
  case (Some a)
  then show ?thesis by (subst keymgr_key_is_successor.simps) (simp add: succ_of_def)
next
  case None
  note dx = None
  show ?thesis
  proof (cases "keymgr_dep (dk_key z) ring")
    case None
    then show ?thesis using dx by (subst keymgr_key_is_successor.simps) (simp add: succ_of_def)
  next
    case (Some v)
    let ?P = "\<lambda>y. kid y \<noteq> kid z \<and> ucast (kid y) = v \<and> keymgr_key_match_state (dk_key y) key type n (key_states (dk_key z))"
    have rec: "keymgr_key_is_successor (dk_key x) (dk_key y) key type n ring = Some False" if "find ?P ring = Some y" for y
    proof -
      from that have y: "y \<in> set ring" "ucast (kid y) = v" by (auto simp: find_Some_iff)
      from keymgr_dep_Some [OF Some] obtain d where d: "d \<in> set ring" "keymgr_direct_dep (dk_key d) (dk_key z)" "v = ucast (kid d)"
        by blast
      then have "y = d" using y ring_ok_id_eq [OF ok] by simp
      then have "keymgr_dep (dk_key y) ring = None" using ok d(1,2) x(2) by (simp add: ring_ok_def)
      then show ?thesis using dx by (subst keymgr_key_is_successor.simps) simp
    qed
    show ?thesis
      using dx Some rec
      by (subst keymgr_key_is_successor.simps) (auto simp: succ_of_def split: option.splits)
  qed
qed

lemma succ_of_same_alg:
  assumes "ring_ok ring" "x \<in> set ring" "z \<in> set ring" "succ_of ring x z"
  shows "kalg x = kalg z"
proof -
  from assms(4) obtain d where "d \<in> set ring" "keymgr_direct_dep (dk_key d) (dk_key z)" "kid d = kid x"
    unfolding succ_of_def by (auto dest: keymgr_dep_Some)
  then show ?thesis using assms ring_ok_id_eq unfolding ring_ok_def by metis
qed

text \<open>The search for a key, with a successor or without, as a statement about the ring.\<close>

lemma successor_loop_eq:
  assumes "ring_ok ring" "dkey \<in> set ring" "\<forall>s\<in>set ss. snd s \<in> set ring"
  shows "successor_loop ring key type n sts2 di dkey ss =
    Some (\<exists>(si, skey)\<in>set ss. si \<noteq> di \<and> keymgr_key_match_state (dk_key skey) (dk_key key) type n sts2 \<and> succ_of ring dkey skey)"
  using assms(3)
proof (induction ss)
  case (Cons a ss)
  obtain si skey where a: "a = (si, skey)" by fastforce
  have s: "keymgr_key_is_successor (dk_key dkey) (dk_key skey) (dk_key key) type n ring = Some (succ_of ring dkey skey)"
    using is_successor_eq [OF assms(1,2)] Cons.prems a by simp
  show ?case using Cons s by (simp add: a) 
qed simp

lemma exists_loop_eq:
  assumes "ring_ok ring" "\<forall>s\<in>set ds. snd s \<in> set ring"
  shows "exists_loop ring key type n sts sts2 cs ma ds =
    Some (\<exists>(di, dkey)\<in>set ds. (ma \<longrightarrow> kalg dkey = kalg key) \<and> keymgr_key_match_state (dk_key dkey) (dk_key key) type n sts \<and>
      (cs \<longrightarrow> (\<exists>(si, skey)\<in>set (enumerate 0 ring). si \<noteq> di \<and>
         keymgr_key_match_state (dk_key skey) (dk_key key) type n sts2 \<and> succ_of ring dkey skey)))"
  using assms(2)
proof (induction ds)
  case (Cons a ds)
  obtain di dkey where a: "a = (di, dkey)" by fastforce
  have "\<forall>s\<in>set (enumerate 0 ring). snd s \<in> set ring" by (auto simp: in_set_enumerate_eq)
  from successor_loop_eq [OF assms(1) _ this] have s: "successor_loop ring key type n sts2 di dkey (enumerate 0 ring) =
    Some (\<exists>(si, skey)\<in>set (enumerate 0 ring). si \<noteq> di \<and> keymgr_key_match_state (dk_key skey) (dk_key key) type n sts2 \<and> succ_of ring dkey skey)"
    using Cons.prems a by simp
  show ?case using Cons s by (auto simp: a)
qed simp

lemma exists_with_state_eq:
  assumes "ring_ok ring"
  shows "keymgr_key_exists_with_state ring key type n sts sts2 cs ma =
    Some (\<exists>j<length ring. (ma \<longrightarrow> kalg (ring ! j) = kalg key) \<and>
      keymgr_key_match_state (dk_key (ring ! j)) (dk_key key) type n sts \<and>
      (cs \<longrightarrow> (\<exists>l<length ring. l \<noteq> j \<and>
         keymgr_key_match_state (dk_key (ring ! l)) (dk_key key) type n sts2 \<and> succ_of ring (ring ! j) (ring ! l))))"
  unfolding keymgr_key_exists_with_state_def
  by (subst exists_loop_eq [OF assms]) (auto simp: in_set_enumerate_eq bex_enumerate)

section \<open>What the rules look at\<close>

text \<open>
  Two readings of a ring: \<open>ring\<close> pretending that the record \<open>type\<close> of \<open>key\<close> is in state \<open>n\<close>, and
  \<open>ring'\<close> read in the same way for \<open>key'\<close>.  They agree when the keys are the same up to their
  states and match the same tables, the keys of the algorithm at hand at least.
\<close>

definition static_eq :: "dst_key \<Rightarrow> dst_key \<Rightarrow> bool" where
  "static_eq a b \<longleftrightarrow> k_id a = k_id b \<and> k_alg a = k_alg b \<and> k_nums a = k_nums b"

definition reads_same ::
  "bool \<Rightarrow> dst_key \<Rightarrow> dst_statetype \<Rightarrow> dst_key_state \<Rightarrow> dst_key \<Rightarrow> dst_statetype \<Rightarrow> dst_key_state \<Rightarrow>
   dns_dnsseckey \<Rightarrow> dns_dnsseckey \<Rightarrow> bool" where
  "reads_same ma key type n key' type' n' d d' \<longleftrightarrow> static_eq (dk_key d) (dk_key d') \<and>
     (ma \<longrightarrow> kalg d = k_alg key \<longrightarrow>
        (\<forall>s. keymgr_key_match_state (dk_key d) key type n s = keymgr_key_match_state (dk_key d') key' type' n' s)) \<and>
     (\<not> ma \<longrightarrow>
        (\<forall>s. keymgr_key_match_state (dk_key d) key type n s = keymgr_key_match_state (dk_key d') key' type' n' s))"

lemma static_direct_dep:
  "static_eq a a' \<Longrightarrow> static_eq b b' \<Longrightarrow> keymgr_direct_dep a b = keymgr_direct_dep a' b'"
  unfolding static_eq_def keymgr_direct_dep_def dst_key_getnum_def dst_key_id_def
  by (elim conjE) (simp cong: option.case_cong)

lemma static_dep:
  assumes "static_eq k k'" "list_all2 (\<lambda>d d'. static_eq (dk_key d) (dk_key d')) ring ring'"
  shows "keymgr_dep k ring = keymgr_dep k' ring'"
  using assms(2)
proof (induction rule: list_all2_induct)
  case (Cons d ds d' ds')
  then have "kid d = kid d'" by (simp add: static_eq_def dst_key_id_def)
  then show ?case using static_direct_dep [OF Cons.hyps(1) assms(1)] Cons.IH by simp
qed simp

lemma static_succ:
  assumes "list_all2 (\<lambda>d d'. static_eq (dk_key d) (dk_key d')) ring ring'" "static_eq (dk_key x) (dk_key x')"
    "static_eq (dk_key z) (dk_key z')"
  shows "succ_of ring x z = succ_of ring' x' z'"
  using static_dep [OF assms(2,1)] static_dep [OF assms(3,1)] assms(2)
  by (simp add: succ_of_def static_eq_def dst_key_id_def)

lemma ring_okD:
  "ring_ok ring \<Longrightarrow> d \<in> set ring \<Longrightarrow> k \<in> set ring \<Longrightarrow> keymgr_direct_dep (dk_key d) (dk_key k) \<Longrightarrow>
   kalg d = kalg k \<and> keymgr_dep (dk_key d) ring = None"
  unfolding ring_ok_def by blast

lemma static_ring_ok:
  assumes s: "list_all2 (\<lambda>d d'. static_eq (dk_key d) (dk_key d')) ring ring'" and ok: "ring_ok ring"
  shows "ring_ok ring'"
proof -
  have l: "length ring' = length ring" using s by (simp add: list_all2_lengthD)
  have nth: "static_eq (dk_key (ring ! i)) (dk_key (ring' ! i))" if "i < length ring" for i
    using list_all2_nthD [OF s that] .
  have "map kid ring' = map kid ring"
    using nth l by (auto simp: list_eq_iff_nth_eq static_eq_def dst_key_id_def)
  moreover have "kalg (ring' ! i) = kalg (ring' ! j) \<and> keymgr_dep (dk_key (ring' ! i)) ring' = None"
    if "i < length ring" "j < length ring" "keymgr_direct_dep (dk_key (ring' ! i)) (dk_key (ring' ! j))" for i j
  proof -
    have "keymgr_direct_dep (dk_key (ring ! i)) (dk_key (ring ! j))"
      using that(3) static_direct_dep [OF nth [OF that(1)] nth [OF that(2)]] by simp
    then have "kalg (ring ! i) = kalg (ring ! j) \<and> keymgr_dep (dk_key (ring ! i)) ring = None"
      using ring_okD [OF ok, of "ring ! i" "ring ! j"] that(1,2) by simp
    then show ?thesis
      using nth [OF that(1)] nth [OF that(2)] static_dep [OF nth [OF that(1)] s]
      by (simp add: static_eq_def dst_key_alg_def)
  qed
  ultimately show ?thesis using ok l unfolding ring_ok_def by (metis in_set_conv_nth)
qed

definition two_readings ::
  "keyring \<Rightarrow> keyring \<Rightarrow> bool \<Rightarrow> dns_dnsseckey \<Rightarrow> dns_dnsseckey \<Rightarrow> dst_statetype \<Rightarrow> dst_statetype \<Rightarrow>
   dst_key_state \<Rightarrow> dst_key_state \<Rightarrow> bool" where
  "two_readings ring ring' ma key key' type type' n n' \<longleftrightarrow> ring_ok ring \<and> kalg key' = kalg key \<and>
     list_all2 (reads_same ma (dk_key key) type n (dk_key key') type' n') ring ring'"

lemma readings_static:
  assumes "two_readings ring ring' ma key key' type type' n n'"
  shows "list_all2 (\<lambda>d d'. static_eq (dk_key d) (dk_key d')) ring ring'"
proof -
  have "list_all2 (reads_same ma (dk_key key) type n (dk_key key') type' n') ring ring'"
    using assms by (simp add: two_readings_def)
  then show ?thesis by (rule list_all2_mono) (simp add: reads_same_def)
qed

lemma readings_len: "two_readings ring ring' ma key key' type type' n n' \<Longrightarrow> length ring' = length ring"
  by (auto simp: two_readings_def dest: list_all2_lengthD)

lemma readings_nth_static:
  "two_readings ring ring' ma key key' type type' n n' \<Longrightarrow> i < length ring \<Longrightarrow> static_eq (dk_key (ring ! i)) (dk_key (ring' ! i))"
  by (rule list_all2_nthD [OF readings_static])

lemma readings_nth_match:
  "two_readings ring ring' ma key key' type type' n n' \<Longrightarrow> i < length ring \<Longrightarrow> ma \<longrightarrow> kalg (ring ! i) = kalg key \<Longrightarrow>
   keymgr_key_match_state (dk_key (ring ! i)) (dk_key key) type n s =
   keymgr_key_match_state (dk_key (ring' ! i)) (dk_key key') type' n' s"
  unfolding two_readings_def by (auto simp: reads_same_def dst_key_alg_def dest!: list_all2_nthD)

lemma readings_nth_alg: "two_readings ring ring' ma key key' type type' n n' \<Longrightarrow> i < length ring \<Longrightarrow> kalg (ring' ! i) = kalg (ring ! i)"
  using readings_nth_static [of ring ring' ma key key' type type' n n' i]
  by (simp add: static_eq_def dst_key_alg_def)

lemma exists_same:
  assumes R: "two_readings ring ring' ma key key' type type' n n'"
  shows "keymgr_key_exists_with_state ring key type n sts sts2 cs ma =
   keymgr_key_exists_with_state ring' key' type' n' sts sts2 cs ma"
proof -
  have ok: "ring_ok ring" and alg: "kalg key' = kalg key"
    and same: "list_all2 (reads_same ma (dk_key key) type n (dk_key key') type' n') ring ring'"
    using R by (simp_all add: two_readings_def)
  note static = readings_static [OF R] and len = readings_len [OF R] and nth_static = readings_nth_static [OF R]
    and nth_match = readings_nth_match [OF R] and nth_alg = readings_nth_alg [OF R]
  have succ: "succ_of ring (ring ! j) (ring ! l) = succ_of ring' (ring' ! j) (ring' ! l)"
    if "j < length ring" "l < length ring" for j l
    using static_succ [OF static nth_static [OF that(1)] nth_static [OF that(2)]] .
  have al: "kalg (ring ! l) = kalg (ring ! j)" if "j < length ring" "l < length ring" "succ_of ring (ring ! j) (ring ! l)" for j l
    using succ_of_same_alg [OF ok _ _ that(3)] that(1,2) by simp
  have inner: "(\<exists>l<length ring. l \<noteq> j \<and> keymgr_key_match_state (dk_key (ring ! l)) (dk_key key) type n sts2 \<and> succ_of ring (ring ! j) (ring ! l)) =
     (\<exists>l<length ring. l \<noteq> j \<and> keymgr_key_match_state (dk_key (ring' ! l)) (dk_key key') type' n' sts2 \<and> succ_of ring' (ring' ! j) (ring' ! l))"
    if j: "j < length ring" "ma \<longrightarrow> kalg (ring ! j) = kalg key" for j
  proof (rule ex_cong1, rule conj_cong [OF refl], rule conj_cong [OF refl])
    fix l assume l: "l < length ring"
    show "(keymgr_key_match_state (dk_key (ring ! l)) (dk_key key) type n sts2 \<and> succ_of ring (ring ! j) (ring ! l)) =
      (keymgr_key_match_state (dk_key (ring' ! l)) (dk_key key') type' n' sts2 \<and> succ_of ring' (ring' ! j) (ring' ! l))"
      using succ [OF j(1) l] al [OF j(1) l] nth_match [OF l] j(2) by auto
  qed
  have "(\<exists>j<length ring. (ma \<longrightarrow> kalg (ring ! j) = kalg key) \<and>
      keymgr_key_match_state (dk_key (ring ! j)) (dk_key key) type n sts \<and>
      (cs \<longrightarrow> (\<exists>l<length ring. l \<noteq> j \<and> keymgr_key_match_state (dk_key (ring ! l)) (dk_key key) type n sts2 \<and> succ_of ring (ring ! j) (ring ! l)))) =
    (\<exists>j<length ring. (ma \<longrightarrow> kalg (ring' ! j) = kalg key') \<and>
      keymgr_key_match_state (dk_key (ring' ! j)) (dk_key key') type' n' sts \<and>
      (cs \<longrightarrow> (\<exists>l<length ring. l \<noteq> j \<and> keymgr_key_match_state (dk_key (ring' ! l)) (dk_key key') type' n' sts2 \<and> succ_of ring' (ring' ! j) (ring' ! l))))"
  proof (rule ex_cong1, rule conj_cong [OF refl], rule conj_cong)
    fix j assume j: "j < length ring"
    show "(ma \<longrightarrow> kalg (ring ! j) = kalg key) = (ma \<longrightarrow> kalg (ring' ! j) = kalg key')"
      using nth_alg [OF j] alg by simp
    assume a: "ma \<longrightarrow> kalg (ring' ! j) = kalg key'"
    then have a': "ma \<longrightarrow> kalg (ring ! j) = kalg key" using nth_alg [OF j] alg by simp
    show "(keymgr_key_match_state (dk_key (ring ! j)) (dk_key key) type n sts \<and>
      (cs \<longrightarrow> (\<exists>l<length ring. l \<noteq> j \<and> keymgr_key_match_state (dk_key (ring ! l)) (dk_key key) type n sts2 \<and> succ_of ring (ring ! j) (ring ! l)))) =
      (keymgr_key_match_state (dk_key (ring' ! j)) (dk_key key') type' n' sts \<and>
      (cs \<longrightarrow> (\<exists>l<length ring. l \<noteq> j \<and> keymgr_key_match_state (dk_key (ring' ! l)) (dk_key key') type' n' sts2 \<and> succ_of ring' (ring' ! j) (ring' ! l))))"
      using nth_match [OF j a'] inner [OF j a'] by simp
  qed
  then show ?thesis
    unfolding exists_with_state_eq [OF ok] exists_with_state_eq [OF static_ring_ok [OF static ok]] len by simp
qed

lemma ds_loop_same:
  assumes R: "two_readings ring ring' ma key key' type type' n n'"
  shows "list_all2 (reads_same ma (dk_key key) type n (dk_key key') type' n') ds ds' \<Longrightarrow> ma \<Longrightarrow>
   ds_chained_loop ring key type n ma mbh chained ds = ds_chained_loop ring' key' type' n' ma mbh chained ds'"
proof (induction ds ds' arbitrary: chained rule: list_all2_induct)
  case (Cons d ds d' ds')
  have alg: "kalg key' = kalg key" using R by (simp add: two_readings_def)
  note exists_same = exists_same [OF R]
  have a: "kalg d' = kalg d" using Cons.hyps(1) by (simp add: reads_same_def static_eq_def dst_key_alg_def)
  show ?case
  proof (cases "kalg d = kalg key")
    case True
    then have m: "keymgr_key_match_state (dk_key d) (dk_key key) type n s =
       keymgr_key_match_state (dk_key d') (dk_key key') type' n' s" for s
      using Cons.hyps(1) Cons.prems by (simp add: reads_same_def dst_key_alg_def)
    show ?thesis using True a alg Cons.IH [OF Cons.prems] exists_same Cons.prems
      by (cases mbh) (simp_all add: m Let_def cong: if_cong)
  next
    case False
    then show ?thesis using a alg Cons.IH [OF Cons.prems] Cons.prems by simp
  qed
qed simp

lemma have_dnskey_same:
  assumes R: "two_readings ring ring' True key key' type type' n n'"
  shows "keymgr_have_dnskey ring key type n = keymgr_have_dnskey ring' key' type' n'"
proof -
  have same: "list_all2 (reads_same True (dk_key key) type n (dk_key key') type' n') ring ring'"
    using R by (simp add: two_readings_def)
  show ?thesis
    using exists_same [OF R] ds_loop_same [OF R same]
    by (simp add: keymgr_have_dnskey_def keymgr_ds_hidden_or_chained_def Let_def cong: if_cong)
qed

lemma have_ds_same:
  assumes R: "two_readings ring ring' False key key' type type' n n'"
  shows "keymgr_have_ds ring key type n sti = keymgr_have_ds ring' key' type' n' sti"
  using exists_same [OF R] by (simp add: keymgr_have_ds_def cong: if_cong)

lemma dnskey_loop_same:
  assumes R: "two_readings ring ring' ma key key' type type' n n'"
  shows "list_all2 (\<lambda>d d'. reads_same ma (dk_key key) type n (dk_key key') type' n' d d' \<and>
      (kalg d = kalg key \<longrightarrow> k_states (dk_key d) DST_KEY_DNSKEY = k_states (dk_key d') DST_KEY_DNSKEY)) ds ds' \<Longrightarrow> ma \<Longrightarrow>
   dnskey_chained_loop ring key type n ma chained ds = dnskey_chained_loop ring' key' type' n' ma chained ds'"
proof (induction ds ds' arbitrary: chained rule: list_all2_induct)
  case (Cons d ds d' ds')
  have alg: "kalg key' = kalg key" using R by (simp add: two_readings_def)
  note exists_same = exists_same [OF R]
  have a: "kalg d' = kalg d" using Cons.hyps(1) by (simp add: reads_same_def static_eq_def dst_key_alg_def)
  show ?case
  proof (cases "kalg d = kalg key")
    case True
    then have m: "keymgr_key_match_state (dk_key d) (dk_key key) type n s =
       keymgr_key_match_state (dk_key d') (dk_key key') type' n' s" for s
      using Cons.hyps(1) Cons.prems by (simp add: reads_same_def dst_key_alg_def)
    show ?thesis
      using True a alg Cons.IH [OF Cons.prems] exists_same Cons.prems Cons.hyps(1)
      by (simp add: m Let_def dst_key_getstate_def split: option.split cong: if_cong)
  next
    case False
    then show ?thesis using a alg Cons.IH [OF Cons.prems] Cons.prems by simp
  qed
qed simp

lemma have_rrsig_same:
  assumes R: "two_readings ring ring' True key key' type type' n n'"
    and d: "\<forall>i<length ring. kalg (ring ! i) = kalg key \<longrightarrow>
     k_states (dk_key (ring ! i)) DST_KEY_DNSKEY = k_states (dk_key (ring' ! i)) DST_KEY_DNSKEY"
  shows "keymgr_have_rrsig ring key type n = keymgr_have_rrsig ring' key' type' n'"
proof -
  have same: "list_all2 (reads_same True (dk_key key) type n (dk_key key') type' n') ring ring'"
    using R by (simp add: two_readings_def)
  have "list_all2 (\<lambda>d d'. reads_same True (dk_key key) type n (dk_key key') type' n' d d' \<and>
      (kalg d = kalg key \<longrightarrow> k_states (dk_key d) DST_KEY_DNSKEY = k_states (dk_key d') DST_KEY_DNSKEY)) ring ring'"
    using same d by (simp add: list_all2_conv_all_nth)
  from dnskey_loop_same [OF R this] ds_loop_same [OF R same] exists_same [OF R]
  show ?thesis
    by (simp add: keymgr_have_rrsig_def keymgr_ds_hidden_or_chained_def keymgr_dnskey_hidden_or_chained_def Let_def cong: if_cong)
qed

section \<open>Pretending and doing\<close>

definition matches :: "dst_key_state option \<Rightarrow> dst_key_state \<Rightarrow> bool" where
  "matches v s \<longleftrightarrow> s = NA \<or> (case v of None \<Rightarrow> s = HIDDEN | Some x \<Rightarrow> x = s)"

lemma match_state_loop_Cons:
  "match_state_loop key subject type n s (i # is) \<longleftrightarrow>
   matches (if n \<noteq> NA \<and> i = type \<and> k_id key = k_id subject then Some n else k_states key i) (s i) \<and>
   match_state_loop key subject type n s is"
  by (cases "i = type"; cases "n = NA"; cases "k_states key i") (auto simp: matches_def dst_key_id_def dst_key_getstate_def)

lemma match_state_loop_iff:
  "match_state_loop key subject type n s is \<longleftrightarrow>
   (\<forall>i\<in>set is. matches (if n \<noteq> NA \<and> i = type \<and> k_id key = k_id subject then Some n else k_states key i) (s i))"
  by (induction "is") (simp_all only: match_state_loop_Cons list.set ball_simps match_state_loop.simps(1))

lemma match_state_iff:
  "keymgr_key_match_state key subject type n s \<longleftrightarrow>
   (\<forall>i. i \<noteq> DST_KEY_GOAL \<longrightarrow>
      matches (if n \<noteq> NA \<and> i = type \<and> k_id key = k_id subject then Some n else k_states key i) (s i))"
  unfolding keymgr_key_match_state_def match_state_loop_iff Ball_def keystate_types_set ..

text \<open>A ring in which one record of the key at position \<open>k\<close> has moved.\<close>

definition moved :: "keyring \<Rightarrow> nat \<Rightarrow> dst_statetype \<Rightarrow> dst_key_state \<Rightarrow> keyring \<Rightarrow> bool" where
  "moved ring k i n ring' \<longleftrightarrow> (\<exists>key. ring' = ring[k := (ring ! k)\<lparr>dk_key := key\<rparr>] \<and>
     static_eq (dk_key (ring ! k)) key \<and> k_states key = (k_states (dk_key (ring ! k)))(i := Some n))"

lemma moved_nth:
  assumes "moved ring k i n ring'" "k < length ring" "j < length ring"
  shows "static_eq (dk_key (ring ! j)) (dk_key (ring' ! j)) \<and>
    k_states (dk_key (ring' ! j)) = (if j = k then (k_states (dk_key (ring ! j)))(i := Some n) else k_states (dk_key (ring ! j)))"
  using assms by (auto simp: moved_def nth_list_update static_eq_def)

lemma moved_length: "moved ring k i n ring' \<Longrightarrow> length ring' = length ring"
  by (auto simp: moved_def)

lemma moved_static:
  "moved ring k i n ring' \<Longrightarrow> k < length ring \<Longrightarrow> list_all2 (\<lambda>d d'. static_eq (dk_key d) (dk_key d')) ring ring'"
  using moved_nth moved_length by (auto simp: list_all2_conv_all_nth)

lemma ring_id_nth:
  assumes "ring_ok ring" "j < length ring" "k < length ring"
  shows "k_id (dk_key (ring ! j)) = k_id (dk_key (ring ! k)) \<longleftrightarrow> j = k"
  using assms distinct_conv_nth [of "map kid ring"] by (auto simp: ring_ok_def dst_key_id_def)

text \<open>The rules, pretending that a record has moved, are the rules after it has moved.\<close>

lemma pretend_reads:
  assumes "ring_ok ring" "k < length ring" "i \<noteq> DST_KEY_GOAL" "n \<noteq> NA" "moved ring k i n ring'" "kalg c = kalg (ring ! k)"
  shows "two_readings ring ring' ma (ring ! k) c i t n NA"
  using assms moved_nth [OF assms(5,2)] moved_length [OF assms(5)] ring_id_nth [OF assms(1) _ assms(2)]
  by (auto simp: two_readings_def list_all2_conv_all_nth reads_same_def match_state_iff)

text \<open>Without pretending, it does not matter for which key or record the rules are asked.\<close>

lemma same_reads:
  assumes "ring_ok ring" "list_all2 (\<lambda>d d'. static_eq (dk_key d) (dk_key d')) ring ring'" "kalg c' = kalg c"
    "\<forall>j<length ring. ma \<longrightarrow> kalg (ring ! j) = kalg c \<longrightarrow> k_states (dk_key (ring' ! j)) = k_states (dk_key (ring ! j))"
    "\<forall>j<length ring. \<not> ma \<longrightarrow> k_states (dk_key (ring' ! j)) = k_states (dk_key (ring ! j))"
  shows "two_readings ring ring' ma c c' t t' NA NA"
  using assms by (auto simp: two_readings_def list_all2_conv_all_nth reads_same_def match_state_iff dst_key_alg_def)

lemma static_refl [simp]: "static_eq a a" by (simp add: static_eq_def)

lemma ask_anywhere:
  assumes "ring_ok ring" "kalg c' = kalg c"
  shows "keymgr_have_ds ring c t NA sti = keymgr_have_ds ring c' t' NA sti"
    "keymgr_have_dnskey ring c t NA = keymgr_have_dnskey ring c' t' NA"
    "keymgr_have_rrsig ring c t NA = keymgr_have_rrsig ring c' t' NA"
proof -
  have "list_all2 (\<lambda>d d'. static_eq (dk_key d) (dk_key d')) ring ring" by (simp add: list_all2_refl)
  then have R: "two_readings ring ring ma c c' t t' NA NA" for ma by (rule same_reads [OF assms(1) _ assms(2)]) auto
  show "keymgr_have_ds ring c t NA sti = keymgr_have_ds ring c' t' NA sti" by (rule have_ds_same [OF R])
  show "keymgr_have_dnskey ring c t NA = keymgr_have_dnskey ring c' t' NA" by (rule have_dnskey_same [OF R])
  show "keymgr_have_rrsig ring c t NA = keymgr_have_rrsig ring c' t' NA" by (rule have_rrsig_same [OF R]) simp
qed

text \<open>Which key the DS rule is asked for does not matter at all.\<close>

lemma have_ds_ask:
  assumes "ring_ok ring"
  shows "keymgr_have_ds ring c t NA sti = keymgr_have_ds ring c' t' NA sti"
proof -
  have "keymgr_key_exists_with_state ring c t NA s s2 False False = keymgr_key_exists_with_state ring c' t' NA s s2 False False" for s s2
    by (simp add: exists_with_state_eq [OF assms] match_state_iff)
  then show ?thesis by (simp add: keymgr_have_ds_def cong: if_cong)
qed

text \<open>An algorithm is not concerned by what happens to a key of another.\<close>

lemma other_alg:
  assumes "ring_ok ring" "k < length ring" "moved ring k i n ring'" "kalg c \<noteq> kalg (ring ! k)" "kalg c' = kalg c"
  shows "keymgr_have_dnskey ring c t NA = keymgr_have_dnskey ring' c' t' NA"
    "keymgr_have_rrsig ring c t NA = keymgr_have_rrsig ring' c' t' NA"
proof -
  have st: "\<forall>j<length ring. True \<longrightarrow> kalg (ring ! j) = kalg c \<longrightarrow> k_states (dk_key (ring' ! j)) = k_states (dk_key (ring ! j))"
    using moved_nth [OF assms(3,2)] assms(4) by auto
  have R: "two_readings ring ring' True c c' t t' NA NA"
    by (rule same_reads [OF assms(1) moved_static [OF assms(3,2)] assms(5) st]) simp
  show "keymgr_have_dnskey ring c t NA = keymgr_have_dnskey ring' c' t' NA" by (rule have_dnskey_same [OF R])
  show "keymgr_have_rrsig ring c t NA = keymgr_have_rrsig ring' c' t' NA"
    by (rule have_rrsig_same [OF R]) (use st in auto)
qed

section \<open>The rules always answer\<close>

lemma exists_answers: "ring_ok ring \<Longrightarrow> keymgr_key_exists_with_state ring key type n s s2 cs ma \<noteq> None"
  by (simp add: exists_with_state_eq)

lemma any_of_answers: "\<forall>c\<in>set cs. c \<noteq> None \<Longrightarrow> any_of cs \<noteq> None"
  by (induction cs) auto

lemma ds_loop_answers:
  "ring_ok ring \<Longrightarrow> ds_chained_loop ring key type n ma mbh chained ds \<noteq> None"
proof (induction ds arbitrary: chained)
  case (Cons d ds)
  note IH = Cons.IH [OF Cons.prems]
  let ?c = "chained(DST_KEY_DS := OMNIPRESENT)"
  obtain b where b: "keymgr_key_exists_with_state ring key type n ?c na False ma = Some b"
    using exists_answers [OF Cons.prems] by blast
  show ?case using IH [of chained] IH [of ?c] by (auto simp: Let_def b simp del: fun_upd_apply not_None_eq)
qed simp

lemma dnskey_loop_answers:
  "ring_ok ring \<Longrightarrow> dnskey_chained_loop ring key type n ma chained ds \<noteq> None"
proof (induction ds arbitrary: chained)
  case (Cons d ds)
  note IH = Cons.IH [OF Cons.prems]
  define c where "c = (case dst_key_getstate (dk_key d) DST_KEY_DNSKEY of Some s \<Rightarrow> chained(DST_KEY_DNSKEY := s) | None \<Rightarrow> chained)"
  obtain b where b: "keymgr_key_exists_with_state ring key type n c na False ma = Some b"
    using exists_answers [OF Cons.prems] by blast
  show ?case using IH [of chained] IH [of c] by (auto simp: Let_def b simp flip: c_def simp del: not_None_eq)
qed simp

lemma rules_answer:
  assumes ok: "ring_ok ring"
  shows "keymgr_have_ds ring key type n sti \<noteq> None" "keymgr_have_dnskey ring key type n \<noteq> None"
    "keymgr_have_rrsig ring key type n \<noteq> None" "keymgr_policy_approval ring key type n \<noteq> None"
proof -
  note E = exists_answers [OF ok] ds_loop_answers [OF ok] dnskey_loop_answers [OF ok]
  show "keymgr_have_ds ring key type n sti \<noteq> None"
    unfolding keymgr_have_ds_def by (rule any_of_answers) (simp add: E del: not_None_eq)
  show "keymgr_have_dnskey ring key type n \<noteq> None"
    unfolding keymgr_have_dnskey_def keymgr_ds_hidden_or_chained_def Let_def
    by (rule any_of_answers) (simp add: E del: not_None_eq)
  show "keymgr_have_rrsig ring key type n \<noteq> None"
    unfolding keymgr_have_rrsig_def keymgr_ds_hidden_or_chained_def keymgr_dnskey_hidden_or_chained_def Let_def
    by (rule any_of_answers) (simp add: E del: not_None_eq)
  have "any_of [keymgr_key_exists_with_state ring key type n (st4 OMNIPRESENT NA OMNIPRESENT OMNIPRESENT) na False True,
      keymgr_key_exists_with_state ring key type n (st4 OMNIPRESENT NA OMNIPRESENT UNRETENTIVE) (st4 OMNIPRESENT NA OMNIPRESENT RUMOURED) True True,
      keymgr_key_exists_with_state ring key type n (st4 UNRETENTIVE NA NA OMNIPRESENT) (st4 RUMOURED NA NA OMNIPRESENT) True True] \<noteq> None"
    by (rule any_of_answers) (simp add: E del: not_None_eq)
  then show "keymgr_policy_approval ring key type n \<noteq> None"
    by (cases type; cases "n = RUMOURED") (auto simp: keymgr_policy_approval_def Let_def simp del: any_of.simps)
qed

lemma transition_allowed_answers:
  assumes "ring_ok ring"
  shows "keymgr_transition_allowed ring key type n sti \<noteq> None"
  using rules_answer(1) [OF assms, of key type NA sti] rules_answer(1) [OF assms, of key type n sti]
    rules_answer(2,3) [OF assms, of key type NA] rules_answer(2,3) [OF assms, of key type n]
  by (auto simp: keymgr_transition_allowed_def still_holds_def)

lemma transition_allowedD:
  assumes "keymgr_transition_allowed ring key type n sti = Some True"
  shows "keymgr_have_ds ring key type NA sti = Some True \<Longrightarrow> keymgr_have_ds ring key type n sti = Some True"
    "keymgr_have_dnskey ring key type NA = Some True \<Longrightarrow> keymgr_have_dnskey ring key type n = Some True"
    "keymgr_have_rrsig ring key type NA = Some True \<Longrightarrow> keymgr_have_rrsig ring key type n = Some True"
  using assms by (auto simp: keymgr_transition_allowed_def still_holds_def bind_eq_Some_conv split: if_splits)

end
