(* ===== verification/KeySafety.thy ===== *)
theory KeySafety
  imports KeyReadings
begin

text \<open>
  What \<^verbatim>\<open>keymgr_update\<close> of \<^verbatim>\<open>lib/dns/keymgr.c\<close> guarantees: it returns, it keeps the chain of trust, it ends
  when no record can move, records follow the state diagram, and they wait for the parent.
\<close>

section \<open>One step of the update\<close>

definition quiet :: "keyring \<Rightarrow> keyring \<Rightarrow> bool" where
  "quiet ring ring' \<longleftrightarrow>
     list_all2 (\<lambda>d d'. static_eq (dk_key d) (dk_key d') \<and> k_states (dk_key d) = k_states (dk_key d')) ring ring'"

lemma quiet_refl [simp]: "quiet ring ring"
  by (simp add: quiet_def list_all2_refl)

lemma quiet_update:
  "k < length ring \<Longrightarrow> static_eq (dk_key (ring ! k)) key \<Longrightarrow> k_states key = k_states (dk_key (ring ! k)) \<Longrightarrow>
   quiet ring (ring[k := (ring ! k)\<lparr>dk_key := key\<rparr>])"
  by (auto simp: quiet_def list_all2_conv_all_nth nth_list_update)

lemma quiet_static: "quiet ring ring' \<Longrightarrow> list_all2 (\<lambda>d d'. static_eq (dk_key d) (dk_key d')) ring ring'"
  unfolding quiet_def by (erule list_all2_mono) simp

lemma settime_static [simp]: "static_eq a (dst_key_settime t v b) = static_eq a b"
  by (simp add: static_eq_def dst_key_settime_def)

lemma setstate_static [simp]: "static_eq a (dst_key_setstate t v b) = static_eq a b"
  by (simp add: static_eq_def dst_key_setstate_def)

lemma transition_time_static: "static_eq key (fst (keymgr_transition_time key i n kasp now))"
  by (simp add: keymgr_transition_time_def Let_def split: option.splits)

lemma desiredstate_NA: "keymgr_desiredstate d s \<noteq> s \<Longrightarrow> keymgr_desiredstate d s \<noteq> NA"
  by (cases s) (auto simp: keymgr_desiredstate_def split: option.splits if_splits)

lemma moved_state_modified:
  "dst_key_getstate key i = Some s \<Longrightarrow> n \<noteq> s \<Longrightarrow> k_states key' = k_states key \<Longrightarrow>
   dst_key_ismodified (dst_key_settime t v (dst_key_setstate i n key'))"
  by (simp add: dst_key_ismodified_def dst_key_settime_def dst_key_setstate_def dst_key_getstate_def)

text \<open>
  On such a ring a step always returns: it leaves all states alone, or it moves one record where the
  goal wants it, with the approval of the policy and the rules.
\<close>

lemma update_record_ok:
  assumes ok: "ring_ok ring" and k: "k < length ring"
  shows "\<exists>ring' changed' nt'. update_record kasp now sti k i (ring, changed, nt) = Some (ring', changed', nt') \<and>
    (quiet ring ring' \<and> changed' = changed \<or>
     (\<exists>s n. dst_key_getstate (dk_key (ring ! k)) i = Some s \<and> n = keymgr_desiredstate (ring ! k) s \<and> n \<noteq> s \<and> n \<noteq> NA \<and>
        moved ring k i n ring' \<and> keymgr_transition_allowed ring (ring ! k) i n sti = Some True))"
proof (cases "dst_key_getstate (dk_key (ring ! k)) i")
  case None
  then show ?thesis by (simp add: update_record_def)
next
  case (Some s)
  define n where "n = keymgr_desiredstate (ring ! k) s"
  obtain a where a: "keymgr_policy_approval ring (ring ! k) i n = Some a"
    using rules_answer(4) [OF ok] by blast
  obtain b where b: "keymgr_transition_allowed ring (ring ! k) i n sti = Some b"
    using transition_allowed_answers [OF ok] by blast
  obtain key w where tt: "keymgr_transition_time (dk_key (ring ! k)) i n kasp now = (key, w)" by fastforce
  have st: "k_states key = k_states (dk_key (ring ! k))" and se: "static_eq (dk_key (ring ! k)) key"
    using transition_time_states [of "dk_key (ring ! k)" i n kasp now] tt
      transition_time_static [of "dk_key (ring ! k)" i n kasp now] by simp_all
  let ?key = "dst_key_settime (keystatetimes i) now (dst_key_setstate i n key)"
  show ?thesis
  proof (cases "s = n \<or> \<not> a \<or> \<not> b \<or> w > now")
    case True
    then show ?thesis
      using Some a b tt quiet_update [OF k se st] unfolding update_record_def
      by (auto simp: Let_def simp flip: n_def)
  next
    case False
    then have "dst_key_ismodified ?key" using moved_state_modified [OF Some _ st] by auto
    moreover have "moved ring k i n (ring[k := (ring ! k)\<lparr>dk_key := ?key\<rparr>])"
      unfolding moved_def using se st by (intro exI [of _ ?key]) simp
    moreover have "n \<noteq> NA" using False desiredstate_NA [of "ring ! k" s] by (auto simp: n_def)
    ultimately show ?thesis
      using False Some a b tt unfolding update_record_def
      by (auto simp: Let_def simp flip: n_def)
  qed
qed

section \<open>The chain of trust is kept\<close>

text \<open>Rules 1 and 2, for every key of the ring.\<close>

definition trusted :: "bool \<Rightarrow> keyring \<Rightarrow> bool" where
  "trusted sti ring \<longleftrightarrow> (\<forall>c\<in>set ring. keymgr_have_ds ring c DST_KEY_DNSKEY NA sti = Some True \<and>
     keymgr_have_dnskey ring c DST_KEY_DNSKEY NA = Some True)"

lemma trusted_nth:
  "trusted sti ring \<longleftrightarrow> (\<forall>j<length ring. keymgr_have_ds ring (ring ! j) DST_KEY_DNSKEY NA sti = Some True \<and>
     keymgr_have_dnskey ring (ring ! j) DST_KEY_DNSKEY NA = Some True)"
  unfolding trusted_def all_set_conv_all_nth ..

lemma quiet_trusted:
  assumes ok: "ring_ok ring" and q: "quiet ring ring'" and t: "trusted sti ring"
  shows "trusted sti ring'"
  unfolding trusted_nth
proof (intro allI impI)
  fix j assume j: "j < length ring'"
  have l: "length ring' = length ring" using q by (auto simp: quiet_def dest: list_all2_lengthD)
  have nth: "static_eq (dk_key (ring ! j)) (dk_key (ring' ! j))"
    "\<forall>i<length ring. k_states (dk_key (ring' ! i)) = k_states (dk_key (ring ! i))"
    using q j l by (auto simp: quiet_def list_all2_conv_all_nth)
  have R: "two_readings ring ring' ma (ring ! j) (ring' ! j) DST_KEY_DNSKEY DST_KEY_DNSKEY NA NA" for ma
    using same_reads [OF ok quiet_static [OF q]] nth by (simp add: static_eq_def dst_key_alg_def)
  show "keymgr_have_ds ring' (ring' ! j) DST_KEY_DNSKEY NA sti = Some True \<and>
     keymgr_have_dnskey ring' (ring' ! j) DST_KEY_DNSKEY NA = Some True"
    using t [unfolded trusted_nth, rule_format, of j] j
    unfolding l have_ds_same [OF R] have_dnskey_same [OF R] by simp
qed

lemma moved_trusted:
  assumes ok: "ring_ok ring" and k: "k < length ring" and i: "i \<noteq> DST_KEY_GOAL" "n \<noteq> NA"
    and m: "moved ring k i n ring'" and al: "keymgr_transition_allowed ring (ring ! k) i n sti = Some True"
    and t: "trusted sti ring"
  shows "trusted sti ring'"
  unfolding trusted_nth
proof (intro allI impI conjI)
  fix j assume j: "j < length ring'"
  note l = moved_length [OF m]
  have ok': "ring_ok ring'" by (rule static_ring_ok [OF moved_static [OF m k] ok])
  have alg: "kalg (ring' ! i) = kalg (ring ! i)" if "i < length ring" for i
    using moved_nth [OF m k that] by (simp add: static_eq_def dst_key_alg_def)
  have P: "two_readings ring ring' ma (ring ! k) (ring' ! k) i DST_KEY_DNSKEY n NA" for ma
    by (rule pretend_reads [OF ok k i m alg [OF k]])
  have "keymgr_have_ds ring (ring ! k) i NA sti = Some True"
    using t k have_ds_ask [OF ok, of "ring ! k" i sti "ring ! k" DST_KEY_DNSKEY] by (simp add: trusted_nth)
  then have "keymgr_have_ds ring' (ring' ! k) DST_KEY_DNSKEY NA sti = Some True"
    using transition_allowedD(1) [OF al] have_ds_same [OF P] by simp
  then show "keymgr_have_ds ring' (ring' ! j) DST_KEY_DNSKEY NA sti = Some True"
    using have_ds_ask [OF ok'] by metis
  show "keymgr_have_dnskey ring' (ring' ! j) DST_KEY_DNSKEY NA = Some True"
  proof (cases "kalg (ring ! j) = kalg (ring ! k)")
    case True
    have "keymgr_have_dnskey ring (ring ! k) i NA = Some True"
      using t k ask_anywhere(2) [OF ok refl, of "ring ! k" i DST_KEY_DNSKEY] by (simp add: trusted_nth)
    then have "keymgr_have_dnskey ring' (ring' ! k) DST_KEY_DNSKEY NA = Some True"
      using transition_allowedD(2) [OF al] have_dnskey_same [OF P] by simp
    moreover have "kalg (ring' ! k) = kalg (ring' ! j)" using True alg j l k by simp
    ultimately show ?thesis using ask_anywhere(2) [OF ok'] by metis
  next
    case False
    have "keymgr_have_dnskey ring (ring ! j) DST_KEY_DNSKEY NA = keymgr_have_dnskey ring' (ring' ! j) DST_KEY_DNSKEY NA"
      by (rule other_alg(1) [OF ok k m False alg]) (use j l in simp)
    then show ?thesis using t [unfolded trusted_nth, rule_format, of j] j unfolding l by simp
  qed
qed

definition keeps :: "bool \<Rightarrow> keyring \<Rightarrow> (keyring \<times> bool \<times> u32) option \<Rightarrow> bool" where
  "keeps sti ring res \<longleftrightarrow> (\<exists>ring' changed nt. res = Some (ring', changed, nt) \<and> ring_ok ring' \<and> length ring' = length ring \<and>
     (trusted sti ring \<longrightarrow> trusted sti ring'))"

lemma update_record_keeps:
  assumes ok: "ring_ok ring" and k: "k < length ring" and i: "i \<noteq> DST_KEY_GOAL"
  shows "keeps sti ring (update_record kasp now sti k i (ring, changed, nt))"
proof -
  from update_record_ok [OF ok k] obtain ring' changed' nt' where
    u: "update_record kasp now sti k i (ring, changed, nt) = Some (ring', changed', nt')" and
    c: "quiet ring ring' \<or> (\<exists>n. n \<noteq> NA \<and> moved ring k i n ring' \<and> keymgr_transition_allowed ring (ring ! k) i n sti = Some True)"
    by blast
  from c show ?thesis
  proof
    assume q: "quiet ring ring'"
    then show ?thesis
      using u static_ring_ok [OF quiet_static [OF q] ok] quiet_trusted [OF ok q]
      by (auto simp: keeps_def quiet_def dest: list_all2_lengthD)
  next
    assume "\<exists>n. n \<noteq> NA \<and> moved ring k i n ring' \<and> keymgr_transition_allowed ring (ring ! k) i n sti = Some True"
    then obtain n where n: "n \<noteq> NA" "moved ring k i n ring'" "keymgr_transition_allowed ring (ring ! k) i n sti = Some True"
      by blast
    then show ?thesis
      using u static_ring_ok [OF moved_static [OF n(2) k] ok] moved_trusted [OF ok k i n] moved_length [OF n(2)]
      by (auto simp: keeps_def)
  qed
qed

lemma update_records_keeps:
  "ring_ok ring \<Longrightarrow> k < length ring \<Longrightarrow> DST_KEY_GOAL \<notin> set is \<Longrightarrow>
   keeps sti ring (update_records kasp now sti k is (ring, changed, nt))"
proof (induction "is" arbitrary: ring changed nt)
  case (Cons i "is")
  from update_record_keeps [OF Cons.prems(1,2)] Cons.prems(3) obtain r c m where
    1: "update_record kasp now sti k i (ring, changed, nt) = Some (r, c, m)" "ring_ok r" "length r = length ring"
      "trusted sti ring \<longrightarrow> trusted sti r"
    unfolding keeps_def by (metis list.set_intros(1))
  from Cons.IH [OF 1(2), of c m] Cons.prems(2,3) 1(3) have "keeps sti r (update_records kasp now sti k is (r, c, m))" by simp
  then show ?case using 1 by (auto simp: keeps_def)
qed (simp add: keeps_def)

lemma update_keys_keeps:
  "ring_ok ring \<Longrightarrow> \<forall>k\<in>set ks. k < length ring \<Longrightarrow> keeps sti ring (update_keys kasp now sti ks (ring, changed, nt))"
proof (induction ks arbitrary: ring changed nt)
  case (Cons k ks)
  have G: "DST_KEY_GOAL \<notin> set keystate_types" by (simp add: keystate_types_set)
  have k: "k < length ring" using Cons.prems(2) by simp
  from update_records_keeps [OF Cons.prems(1) k G] obtain r c m where
    1: "update_records kasp now sti k keystate_types (ring, changed, nt) = Some (r, c, m)" "ring_ok r" "length r = length ring"
      "trusted sti ring \<longrightarrow> trusted sti r"
    unfolding keeps_def by blast
  from Cons.IH [OF 1(2), of c m] Cons.prems(2) 1(3) have "keeps sti r (update_keys kasp now sti ks (r, c, m))" by simp
  then show ?case using 1 by (auto simp: keeps_def)
qed (simp add: keeps_def)

lemma keymgr_update_keeps:
  "ring_ok ring \<Longrightarrow> \<exists>ring' nt'. keymgr_update ring kasp now nt sti = Some (ring', nt') \<and> ring_ok ring' \<and>
     (trusted sti ring \<longrightarrow> trusted sti ring')"
proof (induction ring kasp now nt sti rule: keymgr_update.induct)
  case (1 ring kasp now nt sti)
  have "keeps sti ring (update_keys kasp now sti [0..<length ring] (ring, False, nt))"
    by (rule update_keys_keeps [OF 1(2)]) simp
  then obtain r c m where
    u: "update_keys kasp now sti [0..<length ring] (ring, False, nt) = Some (r, c, m)" "ring_ok r"
      "trusted sti ring \<longrightarrow> trusted sti r"
    unfolding keeps_def by blast
  show ?case
  proof (cases c)
    case True
    from 1(1) [OF u(1) refl refl True u(2)] show ?thesis
      using u True by (subst keymgr_update.simps) auto
  next
    case False
    then show ?thesis using u by (subst keymgr_update.simps) auto
  qed
qed

section \<open>Waiting changes nothing the decisions depend on\<close>

definition waits :: "u32 \<Rightarrow> dst_key \<Rightarrow> dst_key \<Rightarrow> bool" where
  "waits now a b \<longleftrightarrow> static_eq a b \<and> k_states a = k_states b \<and> k_ttl a = k_ttl b \<and>
     (\<forall>t. k_times b t = k_times a t \<or> time_statetype t \<noteq> None \<and> k_times a t = None \<and> k_times b t = Some now)"

lemma waits_refl [simp]: "waits now a a" by (simp add: waits_def)

lemma waits_trans: "waits now a b \<Longrightarrow> waits now b c \<Longrightarrow> waits now a c"
  unfolding waits_def static_eq_def by (intro conjI allI) (simp, simp, simp, simp, simp, metis)

lemma time_statetype_keystatetimes: "i \<noteq> DST_KEY_GOAL \<Longrightarrow> time_statetype (keystatetimes i) \<noteq> None"
  by (cases i) simp_all

lemma transition_time_waits:
  assumes "i \<noteq> DST_KEY_GOAL"
  shows "waits now key (fst (keymgr_transition_time key i n kasp now))"
  using time_statetype_keystatetimes [OF assms]
  by (auto simp: waits_def static_eq_def keymgr_transition_time_def Let_def dst_key_settime_def dst_key_gettime_def split: option.split)

lemma waits_time:
  assumes w: "waits now a b" and i: "i \<noteq> DST_KEY_GOAL"
  shows "snd (keymgr_transition_time b i n kasp now) = snd (keymgr_transition_time a i n kasp now)"
proof -
  have T: "k_times b t = k_times a t \<or> time_statetype t \<noteq> None \<and> k_times a t = None \<and> k_times b t = Some now" for t
    using w by (simp add: waits_def)
  have ds: "k_times b DST_TIME_DSPUBLISH = k_times a DST_TIME_DSPUBLISH" "k_times b DST_TIME_DSDELETE = k_times a DST_TIME_DSDELETE"
    using T [of DST_TIME_DSPUBLISH] T [of DST_TIME_DSDELETE] by simp_all
  have se: "k_ttl b = k_ttl a" "k_nums b = k_nums a" using w by (simp_all add: waits_def static_eq_def)
  have ne: "keystatetimes i \<noteq> DST_TIME_DSPUBLISH" "keystatetimes i \<noteq> DST_TIME_DSDELETE" by (cases i; simp)+
  show ?thesis
  proof (cases "k_times b (keystatetimes i) = k_times a (keystatetimes i)")
    case True
    then show ?thesis using ds se ne i
      by (cases i; cases "k_times a (keystatetimes i)")
         (simp_all add: keymgr_transition_time_def Let_def dst_key_gettime_def dst_key_getttl_def dst_key_getnum_def dst_key_settime_def)
  next
    case False
    then have "k_times a (keystatetimes i) = None" "k_times b (keystatetimes i) = Some now" using T by auto
    then show ?thesis using ds se ne i
      by (cases i)
         (simp_all add: keymgr_transition_time_def Let_def dst_key_gettime_def dst_key_getttl_def dst_key_getnum_def dst_key_settime_def)
  qed
qed

definition ring_waits :: "u32 \<Rightarrow> keyring \<Rightarrow> keyring \<Rightarrow> bool" where
  "ring_waits now ring ring' \<longleftrightarrow> list_all2 (\<lambda>d d'. waits now (dk_key d) (dk_key d')) ring ring'"

lemma ring_waits_refl [simp]: "ring_waits now ring ring" by (simp add: ring_waits_def list_all2_refl)

lemma ring_waits_trans: "ring_waits now a b \<Longrightarrow> ring_waits now b c \<Longrightarrow> ring_waits now a c"
  unfolding ring_waits_def list_all2_conv_all_nth by (metis waits_trans)

lemma ring_waits_quiet: "ring_waits now a b \<Longrightarrow> quiet a b"
  unfolding ring_waits_def quiet_def by (erule list_all2_mono) (simp add: waits_def)

lemma quiet_reads:
  assumes ok: "ring_ok ring" and q: "quiet ring ring'" and k: "k < length ring"
  shows "two_readings ring ring' ma (ring ! k) (ring' ! k) i i n n"
proof -
  have nth: "static_eq (dk_key (ring ! j)) (dk_key (ring' ! j))" "k_states (dk_key (ring ! j)) = k_states (dk_key (ring' ! j))"
    if "j < length ring" for j
    using q that by (auto simp: quiet_def list_all2_conv_all_nth)
  have l: "length ring = length ring'" using q by (auto simp: quiet_def dest: list_all2_lengthD)
  show ?thesis
    unfolding two_readings_def list_all2_conv_all_nth
    using ok nth nth(1) [OF k] l by (auto simp: reads_same_def match_state_iff static_eq_def dst_key_alg_def)
qed

lemma quiet_decisions:
  assumes ok: "ring_ok ring" and q: "quiet ring ring'" and k: "k < length ring"
  shows "keymgr_policy_approval ring' (ring' ! k) i n = keymgr_policy_approval ring (ring ! k) i n"
    "keymgr_transition_allowed ring' (ring' ! k) i n sti = keymgr_transition_allowed ring (ring ! k) i n sti"
proof -
  note R = quiet_reads [OF ok q k]
  have st: "k_states (dk_key (ring ! j)) = k_states (dk_key (ring' ! j))" if "j < length ring" for j
    using q that by (auto simp: quiet_def list_all2_conv_all_nth)
  show "keymgr_policy_approval ring' (ring' ! k) i n = keymgr_policy_approval ring (ring ! k) i n"
    using exists_same [OF R [of True i n]] st [OF k]
    by (cases i) (simp_all add: keymgr_policy_approval_def Let_def dst_key_getstate_def cong: if_cong)
  have 1: "keymgr_have_ds ring' (ring' ! k) i m sti = keymgr_have_ds ring (ring ! k) i m sti"
    "keymgr_have_dnskey ring' (ring' ! k) i m = keymgr_have_dnskey ring (ring ! k) i m"
    "keymgr_have_rrsig ring' (ring' ! k) i m = keymgr_have_rrsig ring (ring ! k) i m" for m
    using have_ds_same [OF R] have_dnskey_same [OF R] have_rrsig_same [OF R] st by (simp_all)
  show "keymgr_transition_allowed ring' (ring' ! k) i n sti = keymgr_transition_allowed ring (ring ! k) i n sti"
    unfolding keymgr_transition_allowed_def 1 ..
qed

section \<open>When the update ends, nothing can move\<close>

text \<open>The record \<open>i\<close> of the key at \<open>k\<close> is where it wants to be, or the policy, the rules or the clock hold it.\<close>

definition settled :: "dns_kasp \<Rightarrow> u32 \<Rightarrow> bool \<Rightarrow> keyring \<Rightarrow> nat \<Rightarrow> dst_statetype \<Rightarrow> bool" where
  "settled kasp now sti ring k i \<longleftrightarrow>
     (case dst_key_getstate (dk_key (ring ! k)) i of
        None \<Rightarrow> True
      | Some s \<Rightarrow>
          let n = keymgr_desiredstate (ring ! k) s in
          s = n \<or> keymgr_policy_approval ring (ring ! k) i n = Some False \<or>
          keymgr_transition_allowed ring (ring ! k) i n sti = Some False \<or>
          now < snd (keymgr_transition_time (dk_key (ring ! k)) i n kasp now))"

lemma settled_waits:
  assumes ok: "ring_ok ring" and w: "ring_waits now ring ring'" and k: "k < length ring" and i: "i \<noteq> DST_KEY_GOAL"
    and s: "settled kasp now sti ring k i"
  shows "settled kasp now sti ring' k i"
proof -
  note q = ring_waits_quiet [OF w]
  have wk: "waits now (dk_key (ring ! k)) (dk_key (ring' ! k))" using w k by (auto simp: ring_waits_def list_all2_conv_all_nth)
  then have st: "k_states (dk_key (ring' ! k)) = k_states (dk_key (ring ! k))" by (simp add: waits_def)
  then have d: "keymgr_desiredstate (ring' ! k) s = keymgr_desiredstate (ring ! k) s" for s
    by (simp add: keymgr_desiredstate_def dst_key_getstate_def)
  show ?thesis
    using s unfolding settled_def dst_key_getstate_def st d quiet_decisions [OF ok q k] waits_time [OF wk i] .
qed

lemma update_record_settles:
  assumes ok: "ring_ok ring" and k: "k < length ring" and i: "i \<noteq> DST_KEY_GOAL"
    and u: "update_record kasp now sti k i (ring, changed, nt) = Some (ring', False, nt')"
  shows "\<not> changed \<and> ring_waits now ring ring' \<and> settled kasp now sti ring k i"
proof (cases "dst_key_getstate (dk_key (ring ! k)) i")
  case None
  then show ?thesis using u by (simp add: update_record_def settled_def)
next
  case (Some s)
  define n where "n = keymgr_desiredstate (ring ! k) s"
  obtain a where a: "keymgr_policy_approval ring (ring ! k) i n = Some a"
    using rules_answer(4) [OF ok] by blast
  obtain b where b: "keymgr_transition_allowed ring (ring ! k) i n sti = Some b"
    using transition_allowed_answers [OF ok] by blast
  obtain key w where tt: "keymgr_transition_time (dk_key (ring ! k)) i n kasp now = (key, w)" by fastforce
  have "waits now (dk_key (ring ! k)) key" using transition_time_waits [OF i, of now "dk_key (ring ! k)" n kasp] tt by simp
  then have rw: "ring_waits now ring (ring[k := (ring ! k)\<lparr>dk_key := key\<rparr>])"
    unfolding ring_waits_def list_all2_conv_all_nth using k by (simp add: nth_list_update)
  show ?thesis
    using u Some a b tt rw unfolding update_record_def settled_def
    by (auto simp: Let_def bind_eq_Some_conv simp flip: n_def split: if_splits)
qed

lemma update_records_settles:
  assumes "ring_ok ring" "k < length ring" "DST_KEY_GOAL \<notin> set is"
    "update_records kasp now sti k is (ring, changed, nt) = Some (ring', False, nt')"
  shows "\<not> changed \<and> ring_waits now ring ring' \<and> (\<forall>i\<in>set is. settled kasp now sti ring' k i)"
  using assms
proof (induction "is" arbitrary: ring changed nt)
  case (Cons i "is")
  obtain r c m where 1: "update_record kasp now sti k i (ring, changed, nt) = Some (r, c, m)"
    "update_records kasp now sti k is (r, c, m) = Some (ring', False, nt')"
    using Cons.prems(4) by (auto simp: bind_eq_Some_conv)
  have i: "i \<noteq> DST_KEY_GOAL" using Cons.prems(3) by auto
  from update_record_keeps [OF Cons.prems(1,2) i, of sti kasp now changed nt] 1(1)
  have r: "ring_ok r" "length r = length ring" by (auto simp: keeps_def)
  from Cons.IH [OF r(1) _ _ 1(2)] r(2) Cons.prems(2,3)
  have c: "\<not> c" "ring_waits now r ring'" "\<forall>i\<in>set is. settled kasp now sti ring' k i" by auto
  from update_record_settles [OF Cons.prems(1,2) i, of kasp now sti changed nt r m] 1(1) c(1)
  have s: "\<not> changed" "ring_waits now ring r" "settled kasp now sti ring k i" by auto
  have w: "ring_waits now ring ring'" by (rule ring_waits_trans [OF s(2) c(2)])
  show ?case using s(1) w c(3) settled_waits [OF Cons.prems(1) w Cons.prems(2) i s(3)] by simp
qed simp

lemma update_keys_settles:
  assumes "ring_ok ring" "\<forall>k\<in>set ks. k < length ring"
    "update_keys kasp now sti ks (ring, changed, nt) = Some (ring', False, nt')"
  shows "\<not> changed \<and> ring_waits now ring ring' \<and> (\<forall>k\<in>set ks. \<forall>i\<in>set keystate_types. settled kasp now sti ring' k i)"
  using assms
proof (induction ks arbitrary: ring changed nt)
  case (Cons k ks)
  have G: "DST_KEY_GOAL \<notin> set keystate_types" by (simp add: keystate_types_set)
  have k: "k < length ring" using Cons.prems(2) by simp
  obtain r c m where 1: "update_records kasp now sti k keystate_types (ring, changed, nt) = Some (r, c, m)"
    "update_keys kasp now sti ks (r, c, m) = Some (ring', False, nt')"
    using Cons.prems(3) by (auto simp: bind_eq_Some_conv)
  from update_records_keeps [OF Cons.prems(1) k G, of sti kasp now changed nt] 1(1)
  have r: "ring_ok r" "length r = length ring" by (auto simp: keeps_def)
  from Cons.IH [OF r(1) _ 1(2)] r(2) Cons.prems(2)
  have c: "\<not> c" "ring_waits now r ring'" "\<forall>k\<in>set ks. \<forall>i\<in>set keystate_types. settled kasp now sti ring' k i" by auto
  from update_records_settles [OF Cons.prems(1) k G, of kasp now sti changed nt r m] 1(1) c(1)
  have s: "\<not> changed" "ring_waits now ring r" "\<forall>i\<in>set keystate_types. settled kasp now sti r k i" by auto
  have "settled kasp now sti ring' k i" if "i \<in> set keystate_types" for i
    using settled_waits [OF r(1) c(2), of k i kasp sti] s(3) that k r(2) by (simp add: keystate_types_set)
  then show ?case using s(1) c(3) ring_waits_trans [OF s(2) c(2)] by simp
qed simp

lemma keymgr_update_settles:
  "ring_ok ring \<Longrightarrow> keymgr_update ring kasp now nt sti = Some (ring', nt') \<Longrightarrow>
   \<forall>k<length ring'. \<forall>i. i \<noteq> DST_KEY_GOAL \<longrightarrow> settled kasp now sti ring' k i"
proof (induction ring kasp now nt sti rule: keymgr_update.induct)
  case (1 ring kasp now nt sti)
  have "keeps sti ring (update_keys kasp now sti [0..<length ring] (ring, False, nt))"
    by (rule update_keys_keeps [OF 1(2)]) simp
  then obtain r c m where
    u: "update_keys kasp now sti [0..<length ring] (ring, False, nt) = Some (r, c, m)" "ring_ok r" "length r = length ring"
    unfolding keeps_def by blast
  show ?case
  proof (cases c)
    case True
    then have "keymgr_update r kasp now m sti = Some (ring', nt')"
      using 1(3) u by (simp add: keymgr_update.simps [of ring])
    then show ?thesis using 1(1) [OF u(1) refl refl True u(2)] by blast
  next
    case False
    then have r: "ring' = r" using 1(3) u by (simp add: keymgr_update.simps [of ring])
    have "\<forall>k\<in>set [0..<length ring]. k < length ring" by simp
    from update_keys_settles [OF 1(2) this, of kasp now sti False nt r m] u(1) False
    have "\<forall>k\<in>set [0..<length ring]. \<forall>i\<in>set keystate_types. settled kasp now sti r k i" by simp
    then show ?thesis using r u(3) by (simp add: keystate_types_set)
  qed
qed

section \<open>The states of a record\<close>

text \<open>The arrows of the diagram at \<^verbatim>\<open>keymgr_desiredstate\<close>.\<close>

inductive edge :: "dst_key_state \<Rightarrow> dst_key_state \<Rightarrow> bool" where
  introduce: "edge HIDDEN RUMOURED"
| settle: "edge RUMOURED OMNIPRESENT"
| withdraw: "edge OMNIPRESENT UNRETENTIVE"
| give_up: "edge RUMOURED UNRETENTIVE"
| hide: "edge UNRETENTIVE HIDDEN"
| revive: "edge UNRETENTIVE RUMOURED"

inductive_cases edge_from_NA: "edge NA s"
inductive_simps edge_from_hidden: "edge HIDDEN s"

lemma desiredstate_edge: "keymgr_desiredstate d s \<noteq> s \<Longrightarrow> edge s (keymgr_desiredstate d s)"
  by (cases s) (auto simp: keymgr_desiredstate_def intro: edge.intros split: option.splits if_splits)

definition evolves :: "dst_key \<Rightarrow> dst_key \<Rightarrow> bool" where
  "evolves a b \<longleftrightarrow> static_eq a b \<and> k_states b DST_KEY_GOAL = k_states a DST_KEY_GOAL \<and>
     (\<forall>i. rel_option edge\<^sup>*\<^sup>* (k_states a i) (k_states b i))"

lemma evolves_refl [simp]: "evolves a a"
  by (simp add: evolves_def option.rel_refl)

lemma evolves_trans: "evolves a b \<Longrightarrow> evolves b c \<Longrightarrow> evolves a c"
  unfolding evolves_def
proof (intro conjI allI, goal_cases)
  case (3 i)
  then have "rel_option edge\<^sup>*\<^sup>* (k_states a i) (k_states b i)" "rel_option edge\<^sup>*\<^sup>* (k_states b i) (k_states c i)" by blast+
  then show ?case by (auto simp: option_rel_Some1 elim!: option.rel_cases)
qed (auto simp: static_eq_def)

definition ring_evolves :: "keyring \<Rightarrow> keyring \<Rightarrow> bool" where
  "ring_evolves ring ring' \<longleftrightarrow> list_all2 (\<lambda>d d'. evolves (dk_key d) (dk_key d')) ring ring'"

lemma ring_evolves_trans: "ring_evolves a b \<Longrightarrow> ring_evolves b c \<Longrightarrow> ring_evolves a c"
  unfolding ring_evolves_def list_all2_conv_all_nth by (metis evolves_trans)

lemma ring_evolves_refl [simp]: "ring_evolves r r"
  by (simp add: ring_evolves_def list_all2_refl)

lemma quiet_evolves: "quiet ring ring' \<Longrightarrow> ring_evolves ring ring'"
  unfolding quiet_def ring_evolves_def
  by (erule list_all2_mono) (simp add: evolves_def option.rel_refl)

lemma update_record_evolves:
  assumes ok: "ring_ok ring" and k: "k < length ring" and i: "i \<noteq> DST_KEY_GOAL"
    and u: "update_record kasp now sti k i (ring, changed, nt) = Some (ring', changed', nt')"
  shows "ring_evolves ring ring'"
proof -
  from update_record_ok [OF ok k, of kasp now sti i changed nt] u
  consider "quiet ring ring'" | s n where "dst_key_getstate (dk_key (ring ! k)) i = Some s"
    "n = keymgr_desiredstate (ring ! k) s" "n \<noteq> s" "moved ring k i n ring'" by auto
  then show ?thesis
  proof cases
    case 1
    then show ?thesis by (rule quiet_evolves)
  next
    case 2
    then have e: "edge s n" using desiredstate_edge by blast
    show ?thesis
      unfolding ring_evolves_def list_all2_conv_all_nth
      using moved_length [OF 2(4)] moved_nth [OF 2(4) k] 2(1) e i
      by (auto simp: evolves_def dst_key_getstate_def option.rel_refl)
  qed
qed

lemma update_records_evolves:
  "ring_ok ring \<Longrightarrow> k < length ring \<Longrightarrow> DST_KEY_GOAL \<notin> set is \<Longrightarrow>
   update_records kasp now sti k is (ring, changed, nt) = Some (ring', changed', nt') \<Longrightarrow> ring_evolves ring ring'"
proof (induction "is" arbitrary: ring changed nt)
  case (Cons i "is")
  obtain r c m where 1: "update_record kasp now sti k i (ring, changed, nt) = Some (r, c, m)"
    "update_records kasp now sti k is (r, c, m) = Some (ring', changed', nt')"
    using Cons.prems(4) by (auto simp: bind_eq_Some_conv)
  have i: "i \<noteq> DST_KEY_GOAL" using Cons.prems(3) by auto
  from update_record_keeps [OF Cons.prems(1,2) i, of sti kasp now changed nt] 1(1)
  have r: "ring_ok r" "length r = length ring" by (auto simp: keeps_def)
  have "ring_evolves r ring'" using Cons.IH [OF r(1) _ _ 1(2)] r(2) Cons.prems(2,3) by auto
  then show ?case using update_record_evolves [OF Cons.prems(1,2) i 1(1)] ring_evolves_trans by blast
qed simp

lemma update_keys_evolves:
  "ring_ok ring \<Longrightarrow> \<forall>k\<in>set ks. k < length ring \<Longrightarrow>
   update_keys kasp now sti ks (ring, changed, nt) = Some (ring', changed', nt') \<Longrightarrow> ring_evolves ring ring'"
proof (induction ks arbitrary: ring changed nt)
  case (Cons k ks)
  have G: "DST_KEY_GOAL \<notin> set keystate_types" by (simp add: keystate_types_set)
  have k: "k < length ring" using Cons.prems(2) by simp
  obtain r c m where 1: "update_records kasp now sti k keystate_types (ring, changed, nt) = Some (r, c, m)"
    "update_keys kasp now sti ks (r, c, m) = Some (ring', changed', nt')"
    using Cons.prems(3) by (auto simp: bind_eq_Some_conv)
  from update_records_keeps [OF Cons.prems(1) k G, of sti kasp now changed nt] 1(1)
  have r: "ring_ok r" "length r = length ring" by (auto simp: keeps_def)
  have "ring_evolves r ring'" using Cons.IH [OF r(1) _ 1(2)] r(2) Cons.prems(2) by auto
  then show ?case using update_records_evolves [OF Cons.prems(1) k G 1(1)] ring_evolves_trans by blast
qed simp

lemma keymgr_update_evolves:
  "ring_ok ring \<Longrightarrow> keymgr_update ring kasp now nt sti = Some (ring', nt') \<Longrightarrow> ring_evolves ring ring'"
proof (induction ring kasp now nt sti rule: keymgr_update.induct)
  case (1 ring kasp now nt sti)
  have a: "\<forall>k\<in>set [0..<length ring]. k < length ring" by simp
  from update_keys_keeps [OF 1(2) a, of sti kasp now False nt] obtain r c m where
    u: "update_keys kasp now sti [0..<length ring] (ring, False, nt) = Some (r, c, m)" "ring_ok r"
    unfolding keeps_def by blast
  note e = update_keys_evolves [OF 1(2) a u(1)]
  show ?case
  proof (cases c)
    case True
    then have "keymgr_update r kasp now m sti = Some (ring', nt')"
      using 1(3) u by (simp add: keymgr_update.simps [of ring])
    then show ?thesis using 1(1) [OF u(1) refl refl True u(2)] ring_evolves_trans [OF e] by blast
  next
    case False
    then show ?thesis using e 1(3) u by (simp add: keymgr_update.simps [of ring])
  qed
qed

section \<open>Example keys\<close>

definition blank_key :: dst_key where
  "blank_key = \<lparr>k_size = 2048, k_alg = 8, k_flags = 256, k_id = 0, k_rid = 0, k_ttl = 3600, k_data = 0,
     k_times = (\<lambda>_. None), k_nums = (\<lambda>_. None), k_bools = (\<lambda>_. None), k_states = (\<lambda>_. None),
     k_modified = False, k_fmt_major = 1, k_fmt_minor = 3\<rparr>"

definition with_states ::
  "u16 \<Rightarrow> dst_key_state option \<Rightarrow> dst_key_state option \<Rightarrow> dst_key_state option \<Rightarrow> dst_key_state option \<Rightarrow> dst_key_state option \<Rightarrow> dst_key" where
  "with_states tag a b c d g = blank_key\<lparr>k_id := tag, k_rid := tag + 128,
     k_states := (\<lambda>t. case t of DST_KEY_DNSKEY \<Rightarrow> a | DST_KEY_ZRRSIG \<Rightarrow> b | DST_KEY_KRRSIG \<Rightarrow> c
        | DST_KEY_DS \<Rightarrow> d | DST_KEY_GOAL \<Rightarrow> g)\<rparr>"

definition in_ring :: "dst_key \<Rightarrow> dns_dnsseckey" where
  "in_ring key = \<lparr>dk_key = key, hint_publish = False, force_publish = False, hint_sign = False, force_sign = False,
     hint_revoke = False, hint_remove = False, dk_is_active = False, first_sign = False, dk_purge = False,
     prepublish = 0, dk_source = dns_keysource_repository, dk_ksk = True, dk_zsk = True, dk_legacy = False,
     dk_index = 0\<rparr>"

definition swap_ring :: keyring where
  "swap_ring = map in_ring [
     dst_key_setnum DST_NUM_SUCCESSOR 2 (with_states 1 (Some UNRETENTIVE) None (Some UNRETENTIVE) (Some OMNIPRESENT) (Some HIDDEN)),
     dst_key_setnum DST_NUM_PREDECESSOR 1 (with_states 2 (Some RUMOURED) None (Some RUMOURED) (Some OMNIPRESENT) (Some OMNIPRESENT)),
     with_states 3 (Some UNRETENTIVE) (Some OMNIPRESENT) None None (Some HIDDEN),
     with_states 4 (Some RUMOURED) (Some OMNIPRESENT) None None (Some OMNIPRESENT)]"

definition swapped_ring :: keyring where
  "swapped_ring = swap_ring[1 := in_ring (dst_key_setstate DST_KEY_DNSKEY OMNIPRESENT (dk_key (swap_ring ! 1)))]"

definition steady_ring :: keyring where
  "steady_ring = [in_ring (with_states 7 (Some OMNIPRESENT) (Some OMNIPRESENT) (Some OMNIPRESENT) (Some OMNIPRESENT) (Some OMNIPRESENT))]"

lemma steady_ring_ok: "ring_ok steady_ring"
  by (simp add: ring_ok_def steady_ring_def in_ring_def with_states_def blank_key_def keymgr_direct_dep_def
      dst_key_getnum_def)

lemma steady_ring_trusted:
  "\<forall>c\<in>set steady_ring. keymgr_have_ds steady_ring c DST_KEY_DNSKEY NA False = Some True \<and>
     keymgr_have_dnskey steady_ring c DST_KEY_DNSKEY NA = Some True"
  by code_simp

lemma swap_ring_ok: "ring_ok swap_ring" unfolding ring_ok_def by code_simp

text \<open>A key that is being introduced: after the update at time 1000 its DNSKEY is rumoured.\<close>

definition new_ring :: keyring where
  "new_ring = [in_ring (with_states 9 (Some HIDDEN) (Some HIDDEN) (Some HIDDEN) (Some HIDDEN) (Some OMNIPRESENT))]"

lemma new_ring_ok: "ring_ok new_ring"
  unfolding ring_ok_def by code_simp

text \<open>When a record moves, its time has come.\<close>

lemma update_record_in_time:
  assumes "update_record kasp now sti k i (ring, changed, nt) = Some (ring', changed', nt')" "k < length ring"
    "dst_key_getstate (dk_key (ring ! k)) i = Some s" "dst_key_getstate (dk_key (ring' ! k)) i = Some s'" "s' \<noteq> s"
  shows "s' = keymgr_desiredstate (ring ! k) s \<and> snd (keymgr_transition_time (dk_key (ring ! k)) i s' kasp now) \<le> now"
proof -
  define n where "n = keymgr_desiredstate (ring ! k) s"
  obtain key w where tt: "keymgr_transition_time (dk_key (ring ! k)) i n kasp now = (key, w)" by fastforce
  then have st: "k_states key = k_states (dk_key (ring ! k))"
    using transition_time_states [of "dk_key (ring ! k)" i n kasp now] by simp
  have "s' = n \<and> w \<le> now"
    using assms tt st unfolding update_record_def
    by (auto simp: Let_def bind_eq_Some_conv dst_key_getstate_def not_less simp flip: n_def split: if_splits)
  then show ?thesis using tt by (simp add: n_def)
qed

section \<open>Properties\<close>

text \<open>
  C4: on a ring whose rollovers do not overlap, \<^verbatim>\<open>keymgr_update\<close> returns, and the chain of trust is never
  broken: if there is a DS, and for every key's algorithm a DNSKEY that a validator can reach, before the
  update, then so there is after it.
\<close>

theorem keymgr_update_safe:
  assumes "ring_ok ring"
    "\<forall>c\<in>set ring. keymgr_have_ds ring c DST_KEY_DNSKEY NA sti = Some True \<and>
       keymgr_have_dnskey ring c DST_KEY_DNSKEY NA = Some True"
  shows "\<exists>ring' nexttime'. keymgr_update ring kasp now nexttime sti = Some (ring', nexttime') \<and> ring_ok ring' \<and>
    (\<forall>c\<in>set ring'. keymgr_have_ds ring' c DST_KEY_DNSKEY NA sti = Some True \<and>
       keymgr_have_dnskey ring' c DST_KEY_DNSKEY NA = Some True)"
  using keymgr_update_keeps [OF assms(1), of kasp now nexttime sti] assms(2) by (auto simp: trusted_def)

theorem keymgr_update_safe_witness:
  "\<exists>ring' nexttime'. keymgr_update steady_ring default_kasp 1000 0 False = Some (ring', nexttime') \<and> ring_ok ring' \<and>
    (\<forall>c\<in>set ring'. keymgr_have_ds ring' c DST_KEY_DNSKEY NA False = Some True \<and>
       keymgr_have_dnskey ring' c DST_KEY_DNSKEY NA = Some True)"
  by (rule keymgr_update_safe [OF steady_ring_ok steady_ring_trusted])






definition parent_ring :: keyring where
  "parent_ring = [in_ring (dst_key_settime DST_TIME_DS 5 (dst_key_settime DST_TIME_DSPUBLISH 10
     (with_states 7 (Some OMNIPRESENT) (Some OMNIPRESENT) (Some OMNIPRESENT) (Some RUMOURED) (Some OMNIPRESENT))))]"





end
