(* ===== verification/KeyRun.thy ===== *)
theory KeyRun
  imports KeySafety
begin

text \<open>
  The life of a key in \<^verbatim>\<open>lib/dns/keymgr.c\<close>: its timing metadata, initialisation, retirement, creation of
  successors, purging, and the entry points \<^verbatim>\<open>dns_keymgr_run\<close>, \<^verbatim>\<open>dns_keymgr_checkds\<close> and
  \<^verbatim>\<open>dns_keymgr_rollover\<close>.

  What the code gets from outside is a record of functions: the wire form of a public key and new
  keys from the cryptographic library, whose randomness is a state \<open>'s\<close> threaded through the calls,
  the sizes of the stateful keys, and the results of opening the key directory and of writing a key to it.
\<close>

record 's keyenv =
  e_todns :: "dst_key \<Rightarrow> isc_result + bytes"
  e_generate :: "u32 \<Rightarrow> u32 \<Rightarrow> u32 \<Rightarrow> 's \<Rightarrow> (isc_result + dst_key) \<times> 's"
  e_xmss_bits :: "u32 \<Rightarrow> int option"
  e_xmssmt_bits :: "u32 \<Rightarrow> int option"
  e_dir_open :: isc_result
  e_tofile :: "dst_key \<Rightarrow> isc_result"

section \<open>Times\<close>

text \<open>\<open>has_role\<close> is the test \<^verbatim>\<open>ret == ISC_R_SUCCESS && ksk\<close> the code makes of a key's role.\<close>

definition has_role :: "dst_key \<Rightarrow> dst_bool \<Rightarrow> bool" where
  "has_role key role \<longleftrightarrow> dst_key_getbool key role = Some True"

definition keymgr_settime_remove :: "dns_kasp \<Rightarrow> dst_key \<Rightarrow> dst_key" where
  "keymgr_settime_remove kasp key =
     (case dst_key_gettime key DST_TIME_INACTIVE of
        None \<Rightarrow> key
      | Some retire \<Rightarrow>
          let zsk_remove = (if has_role key DST_BOOL_ZSK then
                retire + dns_kasp_zonemaxttl kasp True + dns_kasp_zonepropagationdelay kasp +
                dns_kasp_retiresafety kasp + dns_kasp_signdelay kasp
              else 0);
              ksk_remove = (if has_role key DST_BOOL_KSK then
                retire + dns_kasp_dsttl kasp + dns_kasp_parentpropagationdelay kasp + dns_kasp_retiresafety kasp
              else 0)
          in dst_key_settime DST_TIME_DELETE (max ksk_remove zsk_remove) key)"

definition keymgr_settime_syncpublish :: "dns_kasp \<Rightarrow> bool \<Rightarrow> dst_key \<Rightarrow> dst_key" where
  "keymgr_settime_syncpublish kasp first key =
     (case dst_key_gettime key DST_TIME_PUBLISH of
        None \<Rightarrow> key
      | Some published \<Rightarrow>
          if \<not> has_role key DST_BOOL_KSK then key
          else
            let syncpublish = published + dst_key_getttl key + dns_kasp_zonepropagationdelay kasp +
                  dns_kasp_publishsafety kasp;
                zrrsig_present = published + dns_kasp_zonemaxttl kasp True + dns_kasp_zonepropagationdelay kasp +
                  dns_kasp_publishsafety kasp;
                syncpublish = (if first \<and> zrrsig_present > syncpublish then zrrsig_present else syncpublish)
            in dst_key_settime DST_TIME_SYNCPUBLISH syncpublish key)"

text \<open>The key with the times it lacked, and when its successor must be published; 0 is that none is needed.\<close>

definition keymgr_prepublication_time :: "dns_kasp \<Rightarrow> u32 \<Rightarrow> u32 \<Rightarrow> dst_key \<Rightarrow> dst_key \<times> u32" where
  "keymgr_prepublication_time kasp lifetime now key =
     (let (key, active) = (case dst_key_gettime key DST_TIME_ACTIVATE of
            Some t \<Rightarrow> (key, t) | None \<Rightarrow> (dst_key_settime DST_TIME_ACTIVATE now key, now));
          (key, pub) = (case dst_key_gettime key DST_TIME_PUBLISH of
            Some t \<Rightarrow> (key, t) | None \<Rightarrow> (dst_key_settime DST_TIME_PUBLISH now key, now));
          prepub = dst_key_getttl key + dns_kasp_publishsafety kasp + dns_kasp_zonepropagationdelay kasp;
          key = (if has_role key DST_BOOL_KSK \<and> dst_key_gettime key DST_TIME_SYNCPUBLISH = None then
              let syncpub1 = pub + prepub;
                  syncpub2 = (if dst_key_getnum key DST_NUM_PREDECESSOR = None then
                      pub + dns_kasp_zonemaxttl kasp True + dns_kasp_publishsafety kasp +
                      dns_kasp_zonepropagationdelay kasp
                    else 0)
              in dst_key_settime DST_TIME_SYNCPUBLISH (max syncpub1 syncpub2) key
            else key);
          finish = (\<lambda>key retire.
            let key = keymgr_settime_remove kasp key
            in if prepub > retire then (key, now) else (key, retire - prepub))
      in case dst_key_gettime key DST_TIME_INACTIVE of
           Some retire \<Rightarrow> finish key retire
         | None \<Rightarrow>
             let (key, klifetime) = (case dst_key_getnum key DST_NUM_LIFETIME of
                   Some l \<Rightarrow> (key, l) | None \<Rightarrow> (dst_key_setnum DST_NUM_LIFETIME lifetime key, lifetime))
             in if klifetime = 0 then (key, 0)
             else let retire = active + klifetime in finish (dst_key_settime DST_TIME_INACTIVE retire key) retire)"

section \<open>Retiring, initialising and purging a key\<close>

text \<open>A state that is not set yet is set, and its time with it.\<close>

definition INITIALIZE_STATE :: "dst_statetype \<Rightarrow> dst_time \<Rightarrow> dst_key_state \<Rightarrow> u32 \<Rightarrow> dst_key \<Rightarrow> dst_key" where
  "INITIALIZE_STATE state timing target time key =
     (case dst_key_getstate key state of
        None \<Rightarrow> dst_key_settime timing time (dst_key_setstate state target key)
      | Some _ \<Rightarrow> key)"

definition keymgr_key_retire :: "dns_kasp \<Rightarrow> u32 \<Rightarrow> dst_key \<Rightarrow> dst_key" where
  "keymgr_key_retire kasp now key =
     (let key = (case dst_key_gettime key DST_TIME_INACTIVE of
            Some retire \<Rightarrow> if retire > now then dst_key_settime DST_TIME_INACTIVE now key else key
          | None \<Rightarrow> dst_key_settime DST_TIME_INACTIVE now key);
          key = dst_key_setstate DST_KEY_GOAL HIDDEN key;
          key = keymgr_settime_remove kasp key;
          key = INITIALIZE_STATE DST_KEY_DNSKEY DST_TIME_DNSKEY OMNIPRESENT now key;
          key = (if has_role key DST_BOOL_KSK then
              INITIALIZE_STATE DST_KEY_DS DST_TIME_DS OMNIPRESENT now
                (INITIALIZE_STATE DST_KEY_KRRSIG DST_TIME_KRRSIG OMNIPRESENT now key)
            else key);
          key = (if has_role key DST_BOOL_ZSK then
              INITIALIZE_STATE DST_KEY_ZRRSIG DST_TIME_ZRRSIG OMNIPRESENT now key
            else key)
      in key)"

text \<open>\<open>seen\<close> is \<^verbatim>\<open>t <= now && ret == ISC_R_SUCCESS\<close> of the time \<open>what\<close>.\<close>

definition seen :: "dst_key \<Rightarrow> dst_time \<Rightarrow> u32 \<Rightarrow> u32 option" where
  "seen key what now = (case dst_key_gettime key what of Some t \<Rightarrow> if t \<le> now then Some t else None | None \<Rightarrow> None)"

text \<open>The states the timing metadata imply: DNSKEY, ZRRSIG, DS and goal.\<close>

definition init_states :: "dns_kasp \<Rightarrow> u32 \<Rightarrow> dst_key \<Rightarrow> dst_key_state \<times> dst_key_state \<times> dst_key_state \<times> dst_key_state" where
  "init_states kasp now key =
     (let ttlsig = dns_kasp_zonemaxttl kasp True + dns_kasp_zonepropagationdelay kasp;
          key_ttl = dst_key_getttl key + dns_kasp_zonepropagationdelay kasp;
          ds_ttl = dns_kasp_dsttl kasp + dns_kasp_parentpropagationdelay kasp;
          (dnskey, zrrsig, ds, goal) = (HIDDEN, HIDDEN, HIDDEN, HIDDEN);
          (zrrsig, goal) = (case seen key DST_TIME_ACTIVATE now of
            Some active \<Rightarrow> (if active + ttlsig \<le> now then OMNIPRESENT else RUMOURED, OMNIPRESENT)
          | None \<Rightarrow> (zrrsig, goal));
          (dnskey, goal) = (case seen key DST_TIME_PUBLISH now of
            Some pub \<Rightarrow> (if pub + key_ttl \<le> now then OMNIPRESENT else RUMOURED, OMNIPRESENT)
          | None \<Rightarrow> (dnskey, goal));
          (ds, goal) = (case seen key DST_TIME_SYNCPUBLISH now of
            Some syncpub \<Rightarrow> (if syncpub + ds_ttl \<le> now then OMNIPRESENT else RUMOURED, OMNIPRESENT)
          | None \<Rightarrow> (ds, goal));
          (zrrsig, ds, goal) = (case seen key DST_TIME_INACTIVE now of
            Some retire \<Rightarrow> (if retire + ttlsig \<le> now then HIDDEN else UNRETENTIVE, UNRETENTIVE, HIDDEN)
          | None \<Rightarrow> (zrrsig, ds, goal));
          (dnskey, zrrsig, ds, goal) = (case seen key DST_TIME_DELETE now of
            Some remove \<Rightarrow> (if remove + key_ttl \<le> now then HIDDEN else UNRETENTIVE, HIDDEN, HIDDEN, HIDDEN)
          | None \<Rightarrow> (dnskey, zrrsig, ds, goal))
      in (dnskey, zrrsig, ds, goal))"

definition keymgr_key_init :: "dns_kasp \<Rightarrow> u32 \<Rightarrow> bool \<Rightarrow> dst_key \<Rightarrow> dst_key" where
  "keymgr_key_init kasp now csk key =
     (let (key, ksk) = (case dst_key_getbool key DST_BOOL_KSK of
            Some b \<Rightarrow> (key, b)
          | None \<Rightarrow> let b = (dst_key_flags key AND DNS_KEYFLAG_KSK \<noteq> 0) in (dst_key_setbool DST_BOOL_KSK (b \<or> csk) key, b));
          (key, zsk) = (case dst_key_getbool key DST_BOOL_ZSK of
            Some b \<Rightarrow> (key, b)
          | None \<Rightarrow> let b = (dst_key_flags key AND DNS_KEYFLAG_KSK = 0) in (dst_key_setbool DST_BOOL_ZSK (b \<or> csk) key, b));
          (dnskey_state, zrrsig_state, ds_state, goal_state) = init_states kasp now key;
          key = (case dst_key_getstate key DST_KEY_GOAL of
            None \<Rightarrow> dst_key_setstate DST_KEY_GOAL goal_state key | Some _ \<Rightarrow> key);
          key = INITIALIZE_STATE DST_KEY_DNSKEY DST_TIME_DNSKEY dnskey_state now key;
          key = (if ksk \<or> csk then
              INITIALIZE_STATE DST_KEY_DS DST_TIME_DS ds_state now
                (INITIALIZE_STATE DST_KEY_KRRSIG DST_TIME_KRRSIG dnskey_state now key)
            else key);
          key = (if zsk \<or> csk then INITIALIZE_STATE DST_KEY_ZRRSIG DST_TIME_ZRRSIG zrrsig_state now key else key)
      in key)"

definition keymgr_key_may_be_purged :: "dst_key \<Rightarrow> u32 \<Rightarrow> u32 \<Rightarrow> bool" where
  "keymgr_key_may_be_purged key after now =
     (if after = 0 then False
      else if dst_key_goal key = OMNIPRESENT then False
      else if dst_key_is_unused key then False
      else
        let hidden = st4 HIDDEN (if has_role key DST_BOOL_ZSK then HIDDEN else NA)
              (if has_role key DST_BOOL_KSK then HIDDEN else NA) (if has_role key DST_BOOL_KSK then HIDDEN else NA)
        in if \<not> keymgr_key_match_state key key DST_KEY_DNSKEY NA hidden then False
        else
          let lastchange = fold (\<lambda>i l. let change = (case dst_key_gettime key (keystatetimes i) of Some t \<Rightarrow> t | None \<Rightarrow> 0)
                in if change > l then change else l) keystate_types 0
          in lastchange + after < now)"

section \<open>New keys\<close>

definition keymgr_dnsseckey_kaspkey_match :: "'s keyenv \<Rightarrow> dst_key \<Rightarrow> dns_kasp_key \<Rightarrow> bool" where
  "keymgr_dnsseckey_kaspkey_match env key kkey =
     (if dst_key_alg key \<noteq> dns_kasp_key_algorithm kkey then False
      else if dst_key_size key \<noteq> dns_kasp_key_size (e_xmss_bits env) (e_xmssmt_bits env) kkey then False
      else if dst_key_getbool key DST_BOOL_KSK \<noteq> Some (dns_kasp_key_ksk kkey) then False
      else if dst_key_getbool key DST_BOOL_ZSK \<noteq> Some (dns_kasp_key_zsk kkey) then False
      else True)"

fun keymgr_keyid_conflict :: "dst_key \<Rightarrow> keyring \<Rightarrow> bool" where
  "keymgr_keyid_conflict newkey [] = False"
| "keymgr_keyid_conflict newkey (dkey # keys) =
     (if dst_key_alg (dk_key dkey) \<noteq> dst_key_alg newkey then keymgr_keyid_conflict newkey keys
      else if dst_key_id (dk_key dkey) = dst_key_id newkey \<or> dst_key_rid (dk_key dkey) = dst_key_id newkey \<or>
        dst_key_id (dk_key dkey) = dst_key_rid newkey \<or> dst_key_rid (dk_key dkey) = dst_key_rid newkey
      then True
      else keymgr_keyid_conflict newkey keys)"

text \<open>
  The loop asks for keys until one has no conflict; a library that goes on giving conflicting keys
  keeps it from returning.
\<close>

partial_function (option) createkey_loop ::
  "'s keyenv \<Rightarrow> dns_kasp_key \<Rightarrow> keyring \<Rightarrow> keyring \<Rightarrow> u32 \<Rightarrow> 's \<Rightarrow> ((isc_result + dst_key) \<times> 's) option" where
  "createkey_loop env kkey keylist newkeys keyflags s =
     (let keyflags = (if dns_kasp_key_ksk kkey then keyflags OR DNS_KEYFLAG_KSK else keyflags) in
      case e_generate env (dns_kasp_key_algorithm kkey)
             (dns_kasp_key_size (e_xmss_bits env) (e_xmssmt_bits env) kkey) keyflags s of
        (Inl result, s) \<Rightarrow> Some (Inl result, s)
      | (Inr newkey, s) \<Rightarrow>
          if keymgr_keyid_conflict newkey keylist \<or> keymgr_keyid_conflict newkey newkeys
          then createkey_loop env kkey keylist newkeys keyflags s
          else Some (Inr newkey, s))"

declare createkey_loop.simps [code]

definition keymgr_createkey ::
  "'s keyenv \<Rightarrow> dns_kasp_key \<Rightarrow> keyring \<Rightarrow> keyring \<Rightarrow> 's \<Rightarrow> ((isc_result + dst_key) \<times> 's) option" where
  "keymgr_createkey env kkey keylist newkeys s = do {
     (r, s) \<leftarrow> createkey_loop env kkey keylist newkeys 0x0100 s;
     case r of
       Inl result \<Rightarrow> Some (Inl result, s)
     | Inr newkey \<Rightarrow>
         Some (Inr (dst_key_setbool DST_BOOL_ZSK (dns_kasp_key_zsk kkey)
           (dst_key_setbool DST_BOOL_KSK (dns_kasp_key_ksk kkey)
             (dst_key_setnum DST_NUM_LIFETIME (dns_kasp_key_lifetime kkey) newkey))), s)
   }"

definition dns_dnsseckey_create :: "dst_key \<Rightarrow> dns_dnsseckey" where
  "dns_dnsseckey_create key =
     \<lparr>dk_key = key, hint_publish = False, force_publish = False, hint_sign = False, force_sign = False,
      hint_revoke = False, hint_remove = False, dk_is_active = False, first_sign = False, dk_purge = False,
      prepublish = 0, dk_source = dns_keysource_unknown,
      dk_ksk = (case dst_key_getbool key DST_BOOL_KSK of Some b \<Rightarrow> b | None \<Rightarrow> dst_key_flags key AND DNS_KEYFLAG_KSK \<noteq> 0),
      dk_zsk = (case dst_key_getbool key DST_BOOL_ZSK of Some b \<Rightarrow> b | None \<Rightarrow> dst_key_flags key AND DNS_KEYFLAG_KSK = 0),
      dk_legacy = (k_fmt_major key = 1 \<and> k_fmt_minor key \<le> 2), dk_index = 0\<rparr>"

definition dns_dnssec_get_hints :: "'s keyenv \<Rightarrow> u32 \<Rightarrow> dns_dnsseckey \<Rightarrow> dns_dnsseckey option" where
  "dns_dnssec_get_hints env now dk = do {
     let key = dk_key dk;
     let (pub, publish) = dst_key_is_published key now 0;
     let (sign, active) = dst_key_is_signing key DST_BOOL_ZSK now 0;
     let (revoked, _) = dst_key_is_revoked key now 0;
     let (removed, _) = dst_key_is_removed key now 0;
     let pub = (pub \<or> sign \<and> publish = 0);
     let prepub = (if pub \<and> active > now then active - now else prepublish dk);
     (key, sign) \<leftarrow>
       (if pub \<and> revoked then
          (if dst_key_flags key AND DNS_KEYFLAG_REVOKE = 0
           then do {
             (_, key) \<leftarrow> dst_key_setflags (e_todns env) key (dst_key_flags key OR DNS_KEYFLAG_REVOKE);
             Some (key, True)
           }
           else Some (key, True))
        else Some (key, sign));
     Some (dk\<lparr>dk_key := key, hint_publish := pub \<and> \<not> removed, hint_sign := sign \<and> \<not> removed,
              hint_revoke := revoked, hint_remove := removed, prepublish := prepub\<rparr>)
   }"


section \<open>Rollovers\<close>

text \<open>
  The lists the key manager works on.  A pointer to a key is the list it is in and its position; a key
  that is created is put at the end of \<open>m_newkeys\<close> at once.
\<close>

record 's keymgr =
  m_keyring :: keyring
  m_dnskeys :: keyring
  m_newkeys :: keyring
  m_nexttime :: u32
  m_rand :: 's

datatype keyref = In_keyring nat | In_dnskeys nat | In_newkeys nat

fun key_at :: "'s keymgr \<Rightarrow> keyref \<Rightarrow> dns_dnsseckey" where
  "key_at m (In_keyring i) = m_keyring m ! i"
| "key_at m (In_dnskeys i) = m_dnskeys m ! i"
| "key_at m (In_newkeys i) = m_newkeys m ! i"

fun set_key :: "keyref \<Rightarrow> dns_dnsseckey \<Rightarrow> 's keymgr \<Rightarrow> 's keymgr" where
  "set_key (In_keyring i) d m = m\<lparr>m_keyring := (m_keyring m)[i := d]\<rparr>"
| "set_key (In_dnskeys i) d m = m\<lparr>m_dnskeys := (m_dnskeys m)[i := d]\<rparr>"
| "set_key (In_newkeys i) d m = m\<lparr>m_newkeys := (m_newkeys m)[i := d]\<rparr>"

definition change_key :: "keyref \<Rightarrow> (dst_key \<Rightarrow> dst_key) \<Rightarrow> 's keymgr \<Rightarrow> 's keymgr" where
  "change_key ref f m = set_key ref ((key_at m ref)\<lparr>dk_key := f (dk_key (key_at m ref))\<rparr>) m"

fun find_candidate :: "'s keyenv \<Rightarrow> dns_kasp_key \<Rightarrow> nat \<Rightarrow> keyring \<Rightarrow> nat option" where
  "find_candidate env kaspkey i [] = None"
| "find_candidate env kaspkey i (d # ds) =
     (if keymgr_dnsseckey_kaspkey_match env (dk_key d) kaspkey \<and> dst_key_is_unused (dk_key d) then Some i
      else find_candidate env kaspkey (Suc i) ds)"

text \<open>
  The second half of \<^verbatim>\<open>keymgr_key_rollover\<close>: the new key at \<open>new\<close> is made active, or the successor of \<open>active\<close>.  The
  local \<^verbatim>\<open>created\<close> is not initialised; a key without a creation time would have it read as it is, which is
  the value \<open>None\<close> here.
\<close>

definition introduce_key ::
  "'s keyenv \<Rightarrow> dns_kasp \<Rightarrow> u32 \<Rightarrow> u32 \<Rightarrow> keyref option \<Rightarrow> keyref \<Rightarrow> u32 \<Rightarrow> 's keymgr \<Rightarrow> 's keymgr option" where
  "introduce_key env kasp lifetime now active_key new prepub m = do {
     let m = change_key new (dst_key_setnum DST_NUM_LIFETIME lifetime) m;
     (m, active) \<leftarrow>
       (case active_key of
          None \<Rightarrow>
            Some (change_key new (keymgr_settime_syncpublish kasp True)
                   (change_key new (dst_key_settime DST_TIME_ACTIVATE now)
                     (change_key new (dst_key_settime DST_TIME_PUBLISH now) m)), now)
        | Some act \<Rightarrow> do {
            created \<leftarrow> dst_key_gettime (dk_key (key_at m new)) DST_TIME_CREATED;
            let m = change_key new (dst_key_setnum DST_NUM_PREDECESSOR (ucast (kid (key_at m act)))) m;
            let m = change_key act (dst_key_setnum DST_NUM_SUCCESSOR (ucast (kid (key_at m new)))) m;
            let active = (case dst_key_gettime (dk_key (key_at m act)) DST_TIME_INACTIVE of Some t \<Rightarrow> t | None \<Rightarrow> 0);
            let (active, prepub) = (if prepub < created then (active + (created - prepub), created) else (active, prepub));
            let active = (if active < created then created else active);
            let m = change_key new (dst_key_settime DST_TIME_PUBLISH prepub) m;
            let m = change_key new (dst_key_settime DST_TIME_ACTIVATE active) m;
            let m = change_key new (keymgr_settime_syncpublish kasp False) m;
            Some (change_key act (dst_key_setstate DST_KEY_GOAL HIDDEN) m, active)
          });
     let m = change_key new (dst_key_setstate DST_KEY_GOAL OMNIPRESENT) m;
     let m = (if lifetime > 0 then
         change_key new (keymgr_settime_remove kasp)
           (change_key new (dst_key_settime DST_TIME_INACTIVE (active + lifetime)) m)
       else m);
     d \<leftarrow> dns_dnssec_get_hints env now (key_at m new);
     let d = d\<lparr>dk_source := dns_keysource_repository\<rparr>;
     INSIST (\<not> dk_legacy d);
     Some (set_key new d m)
   }"

definition keymgr_key_rollover ::
  "'s keyenv \<Rightarrow> dns_kasp \<Rightarrow> dns_kasp_key \<Rightarrow> keyref option \<Rightarrow> u32 \<Rightarrow> bool \<Rightarrow> u32 \<Rightarrow> 's keymgr \<Rightarrow> (isc_result \<times> 's keymgr) option" where
  "keymgr_key_rollover env kasp kaspkey active_key lifetime rollover now m =
     (let start = (\<lambda>prepub m.
        case find_candidate env kaspkey 0 (m_keyring m) of
          Some i \<Rightarrow> do {
            m \<leftarrow> introduce_key env kasp lifetime now active_key (In_keyring i) prepub m;
            Some (ISC_R_SUCCESS, m)
          }
        | None \<Rightarrow> do {
            (r, s) \<leftarrow> keymgr_createkey env kaspkey (m_keyring m) (m_newkeys m) (m_rand m);
            let m = m\<lparr>m_rand := s\<rparr>;
            case r of
              Inl result \<Rightarrow> Some (result, m)
            | Inr key \<Rightarrow> do {
                let key = dst_key_settime DST_TIME_CREATED now (dst_key_setttl (dns_kasp_dnskeyttl kasp) key);
                let d = dns_dnsseckey_create key;
                let d = d\<lparr>dk_key := keymgr_key_init kasp now (dns_kasp_key_ksk kaspkey \<and> dns_kasp_key_zsk kaspkey) key\<rparr>;
                let m = m\<lparr>m_newkeys := m_newkeys m @ [d]\<rparr>;
                m \<leftarrow> introduce_key env kasp lifetime now active_key (In_newkeys (length (m_newkeys m) - 1)) prepub m;
                Some (ISC_R_SUCCESS, m)
              }
          })
      in case active_key of
        None \<Rightarrow> start 0 m
      | Some act \<Rightarrow>
          let (key, prepub) = keymgr_prepublication_time kasp lifetime now (dk_key (key_at m act));
              m = set_key act ((key_at m act)\<lparr>dk_key := key\<rparr>) m
          in if prepub = 0 \<or> prepub > now then
               Some (ISC_R_SUCCESS,
                 if m_nexttime m = 0 \<or> prepub < m_nexttime m then m\<lparr>m_nexttime := prepub\<rparr> else m)
             else if keymgr_key_has_successor (key_at m act) (m_keyring m) then Some (ISC_R_SUCCESS, m)
             else if \<not> rollover then Some (ISC_R_SUCCESS, m)
             else start prepub m)"

section \<open>The key manager\<close>

text \<open>First pass of \<^verbatim>\<open>dns_keymgr_run\<close>: a key of the ring is initialised, retired when no policy key wants it, and marked for purging.\<close>

definition examine_key :: "'s keyenv \<Rightarrow> dns_kasp \<Rightarrow> u32 \<Rightarrow> bool \<Rightarrow> dns_dnsseckey \<Rightarrow> dns_dnsseckey" where
  "examine_key env kasp now csk dkey =
     (let key = keymgr_key_init kasp now csk (dk_key dkey);
          found_match = (find (keymgr_dnsseckey_kaspkey_match env key) (dns_kasp_keys kasp) \<noteq> None);
          key = (if found_match then key else keymgr_key_retire kasp now key)
      in if keymgr_key_may_be_purged key (dns_kasp_purgekeys kasp) now
         then dkey\<lparr>dk_key := key, dk_purge := True\<rparr> else dkey\<lparr>dk_key := key\<rparr>)"

text \<open>The keys of the ring that match a policy key: the active one is found, excess ones are retired.\<close>

fun select_active ::
  "'s keyenv \<Rightarrow> dns_kasp \<Rightarrow> u32 \<Rightarrow> dns_kasp_key \<Rightarrow> u32 \<Rightarrow> nat list \<Rightarrow> nat option \<Rightarrow> keyring \<Rightarrow> nat option \<times> keyring" where
  "select_active env kasp now kkey lifetime [] active keyring = (active, keyring)"
| "select_active env kasp now kkey lifetime (i # is) active keyring =
     (let dkey = keyring ! i in
      if \<not> keymgr_dnsseckey_kaspkey_match env (dk_key dkey) kkey
      then select_active env kasp now kkey lifetime is active keyring
      else
        let key = (case dst_key_getnum (dk_key dkey) DST_NUM_LIFETIME of
              None \<Rightarrow> dst_key_setnum DST_NUM_LIFETIME lifetime (dk_key dkey) | Some _ \<Rightarrow> dk_key dkey);
            keyring = keyring[i := dkey\<lparr>dk_key := key\<rparr>]
        in case active of
             Some a \<Rightarrow>
               let keyring = (if \<not> dst_key_is_unused key \<and> dst_key_goal key = OMNIPRESENT \<and>
                       keymgr_dep key keyring = None \<and> keymgr_dep (dk_key (keyring ! a)) keyring = None
                     then keyring[i := dkey\<lparr>dk_key := keymgr_key_retire kasp now key\<rparr>] else keyring)
               in select_active env kasp now kkey lifetime is active keyring
           | None \<Rightarrow>
               select_active env kasp now kkey lifetime is
                 (if dst_key_goal key = OMNIPRESENT \<or> dst_key_is_active key now then Some i else None) keyring)"

fun find_offline :: "'s keyenv \<Rightarrow> dns_kasp_key \<Rightarrow> nat \<Rightarrow> keyring \<Rightarrow> nat option" where
  "find_offline env kkey i [] = None"
| "find_offline env kkey i (d # ds) =
     (if keymgr_dnsseckey_kaspkey_match env (dk_key d) kkey then Some i else find_offline env kkey (Suc i) ds)"

fun policy_keys ::
  "'s keyenv \<Rightarrow> dns_kasp \<Rightarrow> u32 \<Rightarrow> dns_kasp_key list \<Rightarrow> 's keymgr \<Rightarrow> (isc_result \<times> 's keymgr) option" where
  "policy_keys env kasp now [] m = Some (ISC_R_SUCCESS, m)"
| "policy_keys env kasp now (kkey # kkeys) m = do {
     let lifetime = dns_kasp_key_lifetime kkey;
     let (active, keyring) = select_active env kasp now kkey lifetime [0..<length (m_keyring m)] None (m_keyring m);
     let m = m\<lparr>m_keyring := keyring\<rparr>;
     let (active_key, rollover_allowed) =
       (case active of
          Some i \<Rightarrow> (Some (In_keyring i), True)
        | None \<Rightarrow>
            (case find_offline env kkey 0 (m_dnskeys m) of
               Some i \<Rightarrow> (Some (In_dnskeys i), False)
             | None \<Rightarrow> (None, True)));
     (result, m) \<leftarrow> keymgr_key_rollover env kasp kkey active_key lifetime rollover_allowed now m;
     if result \<noteq> ISC_R_SUCCESS then Some (result, m)
     else policy_keys env kasp now kkeys m
   }"

text \<open>The last pass: what has changed is written out.\<close>

fun store_keys :: "'s keyenv \<Rightarrow> u32 \<Rightarrow> keyring \<Rightarrow> (isc_result \<times> keyring) option" where
  "store_keys env now [] = Some (ISC_R_SUCCESS, [])"
| "store_keys env now (d # ds) =
     (if dst_key_ismodified (dk_key d) \<and> \<not> dk_purge d then do {
        d \<leftarrow> dns_dnssec_get_hints env now d;
        if e_tofile env (dk_key d) \<noteq> ISC_R_SUCCESS then Some (e_tofile env (dk_key d), d # ds)
        else do {
          let d = d\<lparr>dk_key := dst_key_setmodified False (dk_key d)\<rparr>;
          (result, ds) \<leftarrow> store_keys env now ds;
          Some (result, d # ds)
        }
      }
      else do {
        (result, ds) \<leftarrow> store_keys env now ds;
        Some (result, d # ds)
      })"

definition dns_keymgr_run ::
  "'s keyenv \<Rightarrow> dns_kasp \<Rightarrow> u32 \<Rightarrow> keyring \<Rightarrow> keyring \<Rightarrow> u32 \<Rightarrow> 's \<Rightarrow> (isc_result \<times> 's keymgr) option" where
  "dns_keymgr_run env kasp now keyring dnskeys nexttime s = do {
     let m = \<lparr>m_keyring = keyring, m_dnskeys = dnskeys, m_newkeys = [], m_nexttime = nexttime, m_rand = s\<rparr>;
     if e_dir_open env \<noteq> ISC_R_SUCCESS then Some (e_dir_open env, m)
     else do {
       let m = m\<lparr>m_nexttime := 0\<rparr>;
       let m = m\<lparr>m_keyring := map (examine_key env kasp now (length dnskeys = 1)) (m_keyring m)\<rparr>;
       (result, m) \<leftarrow> policy_keys env kasp now (dns_kasp_keys kasp) m;
       if result \<noteq> ISC_R_SUCCESS then Some (result, m\<lparr>m_newkeys := []\<rparr>)
       else do {
         let m = m\<lparr>m_keyring := m_keyring m @ m_newkeys m, m_newkeys := []\<rparr>;
         (keyring, nexttime) \<leftarrow> keymgr_update (m_keyring m) kasp now (m_nexttime m) (dns_kasp_keylist_empty kasp);
         (result, keyring) \<leftarrow> store_keys env now keyring;
         Some (result, m\<lparr>m_keyring := keyring, m_nexttime := nexttime\<rparr>)
       }
     }
   }"

section \<open>Commands\<close>

text \<open>The one key that matches: \<open>Inl\<close> is the error when there is none or more than one.\<close>

fun only_key :: "(dns_dnsseckey \<Rightarrow> bool) \<Rightarrow> nat \<Rightarrow> keyring \<Rightarrow> nat option \<Rightarrow> isc_result + nat" where
  "only_key P i [] found = (case found of None \<Rightarrow> Inl DNS_R_NOKEYMATCH | Some k \<Rightarrow> Inr k)"
| "only_key P i (d # ds) found =
     (if \<not> P d then only_key P (Suc i) ds found
      else if found \<noteq> None then Inl DNS_R_TOOMANYKEYS
      else only_key P (Suc i) ds (Some i))"

text \<open>Writing the key out, the end of both commands.\<close>

definition store_key :: "'s keyenv \<Rightarrow> u32 \<Rightarrow> nat \<Rightarrow> keyring \<Rightarrow> (isc_result \<times> keyring) option" where
  "store_key env now k keyring =
     (if e_dir_open env \<noteq> ISC_R_SUCCESS then Some (e_dir_open env, keyring)
      else do {
        d \<leftarrow> dns_dnssec_get_hints env now (keyring ! k);
        let result = e_tofile env (dk_key d);
        let d = (if result = ISC_R_SUCCESS then d\<lparr>dk_key := dst_key_setmodified False (dk_key d)\<rparr> else d);
        Some (result, keyring[k := d])
      })"

definition keymgr_checkds ::
  "'s keyenv \<Rightarrow> keyring \<Rightarrow> u32 \<Rightarrow> u32 \<Rightarrow> bool \<Rightarrow> u16 \<Rightarrow> u32 \<Rightarrow> bool \<Rightarrow> (isc_result \<times> keyring) option" where
  "keymgr_checkds env keyring now when dspublish tag alg check_id =
     (case only_key (\<lambda>d. has_role (dk_key d) DST_BOOL_KSK \<and> \<not> (check_id \<and> kid d \<noteq> tag) \<and> \<not> (alg > 0 \<and> kalg d \<noteq> alg))
             0 keyring None of
        Inl result \<Rightarrow> Some (result, keyring)
      | Inr k \<Rightarrow>
          let d = keyring ! k;
              (timing, state) = (if dspublish then (DST_TIME_DSPUBLISH, RUMOURED) else (DST_TIME_DSDELETE, UNRETENTIVE));
              key = dst_key_settime timing when (dk_key d);
              key = (if dst_key_getstate key DST_KEY_DS \<noteq> Some state then dst_key_setstate DST_KEY_DS state key else key)
          in store_key env now k (keyring[k := d\<lparr>dk_key := key\<rparr>]))"

definition dns_keymgr_checkds :: "'s keyenv \<Rightarrow> keyring \<Rightarrow> u32 \<Rightarrow> u32 \<Rightarrow> bool \<Rightarrow> (isc_result \<times> keyring) option" where
  "dns_keymgr_checkds env keyring now when dspublish = keymgr_checkds env keyring now when dspublish 0 0 False"

definition dns_keymgr_checkds_id ::
  "'s keyenv \<Rightarrow> keyring \<Rightarrow> u32 \<Rightarrow> u32 \<Rightarrow> bool \<Rightarrow> u16 \<Rightarrow> u32 \<Rightarrow> (isc_result \<times> keyring) option" where
  "dns_keymgr_checkds_id env keyring now when dspublish tag alg = keymgr_checkds env keyring now when dspublish tag alg True"

definition dns_keymgr_rollover ::
  "'s keyenv \<Rightarrow> dns_kasp \<Rightarrow> keyring \<Rightarrow> u32 \<Rightarrow> u32 \<Rightarrow> u16 \<Rightarrow> u32 \<Rightarrow> (isc_result \<times> keyring) option" where
  "dns_keymgr_rollover env kasp keyring now when tag algorithm =
     (case only_key (\<lambda>d. kid d = tag \<and> \<not> (algorithm > 0 \<and> kalg d \<noteq> algorithm)) 0 keyring None of
        Inl result \<Rightarrow> Some (result, keyring)
      | Inr k \<Rightarrow>
          let d = keyring ! k; key = dk_key d in
          case dst_key_gettime key DST_TIME_ACTIVATE of
            None \<Rightarrow> Some (DNS_R_KEYNOTACTIVE, keyring)
          | Some active \<Rightarrow>
              if active > now then Some (DNS_R_KEYNOTACTIVE, keyring)
              else
                let prepub = dst_key_getttl key + dns_kasp_publishsafety kasp + dns_kasp_zonepropagationdelay kasp;
                    retire = when + prepub;
                    key = dst_key_setnum DST_NUM_LIFETIME (retire - active) (dst_key_settime DST_TIME_INACTIVE retire key)
                in store_key env now k (keyring[k := d\<lparr>dk_key := key\<rparr>]))"

end
