(* ===== verification/KeyLife.thy ===== *)
theory KeyLife
  imports KeyRun
begin

text \<open>
  What holds of a key over its life in the key manager: new keys do not clash with those of the ring, every key
  the manager has looked at has the states its role needs, a key is purged only when nothing of it is left, the
  times \<^verbatim>\<open>rndc dnssec -rollover\<close> sets are the ones the manager later reads, and a successor is linked to its predecessor.
\<close>

section \<open>Metadata\<close>

lemmas meta_defs = dst_key_getbool_def dst_key_setbool_def dst_key_getnum_def dst_key_setnum_def dst_key_gettime_def
  dst_key_settime_def dst_key_getstate_def dst_key_setstate_def dst_key_id_def dst_key_alg_def dst_key_rid_def
  dst_key_flags_def dst_key_size_def dst_key_getttl_def dst_key_setttl_def

section \<open>New keys do not clash\<close>

lemma keyid_conflict_iff:
  "keymgr_keyid_conflict key ring \<longleftrightarrow> (\<exists>d\<in>set ring. kalg d = dst_key_alg key \<and>
     {kid d, dst_key_rid (dk_key d)} \<inter> {dst_key_id key, dst_key_rid key} \<noteq> {})"
  by (induction ring) auto

lemma createkey_loop_result:
  assumes "createkey_loop env kkey ring newkeys flags s = Some r"
  shows "\<forall>key s'. r = (Inr key, s') \<longrightarrow> \<not> keymgr_keyid_conflict key ring \<and> \<not> keymgr_keyid_conflict key newkeys"
  by (rule createkey_loop.raw_induct [OF _ assms])
     (auto simp: Let_def split: prod.splits sum.splits if_splits)

text \<open>The keys a library gives one after another, from state \<open>s\<close>.\<close>

fun nth_generated :: "'s keyenv \<Rightarrow> dns_kasp_key \<Rightarrow> nat \<Rightarrow> 's \<Rightarrow> (isc_result + dst_key) \<times> 's" where
  "nth_generated env kkey n s =
     (let r = e_generate env (dns_kasp_key_algorithm kkey) (dns_kasp_key_size (e_xmss_bits env) (e_xmssmt_bits env) kkey)
        (if dns_kasp_key_ksk kkey then 0x0101 else 0x0100) s
      in case n of 0 \<Rightarrow> r | Suc n \<Rightarrow> nth_generated env kkey n (snd r))"

declare nth_generated.simps [simp del]

definition usable :: "keyring \<Rightarrow> keyring \<Rightarrow> isc_result + dst_key \<Rightarrow> bool" where
  "usable ring newkeys r = (case r of Inl _ \<Rightarrow> True | Inr key \<Rightarrow> \<not> keymgr_keyid_conflict key ring \<and> \<not> keymgr_keyid_conflict key newkeys)"

lemma createkey_loop_returns:
  assumes "flags = 0x0100 \<or> (dns_kasp_key_ksk kkey \<and> flags = 0x0101)" "usable ring newkeys (fst (nth_generated env kkey n s))"
  shows "\<exists>r s'. createkey_loop env kkey ring newkeys flags s = Some (r, s')"
  using assms
proof (induction n arbitrary: s flags)
  case 0
  obtain r s' where g: "e_generate env (dns_kasp_key_algorithm kkey) (dns_kasp_key_size (e_xmss_bits env) (e_xmssmt_bits env) kkey)
     (if dns_kasp_key_ksk kkey then 0x0101 else 0x0100) s = (r, s')" by fastforce
  have f: "(if dns_kasp_key_ksk kkey then flags OR DNS_KEYFLAG_KSK else flags) = (if dns_kasp_key_ksk kkey then 0x0101 else 0x0100)"
    using 0(1) by (auto simp: DNS_KEYFLAG_KSK_def)
  have "usable ring newkeys r" using 0(2) g by (simp add: nth_generated.simps Let_def)
  then show ?case
    by (subst createkey_loop.simps) (auto simp: f g Let_def usable_def split: sum.splits)
next
  case (Suc n)
  obtain r s' where g: "e_generate env (dns_kasp_key_algorithm kkey) (dns_kasp_key_size (e_xmss_bits env) (e_xmssmt_bits env) kkey)
     (if dns_kasp_key_ksk kkey then 0x0101 else 0x0100) s = (r, s')" by fastforce
  have f: "(if dns_kasp_key_ksk kkey then flags OR DNS_KEYFLAG_KSK else flags) = (if dns_kasp_key_ksk kkey then 0x0101 else 0x0100)"
    using Suc.prems(1) by (auto simp: DNS_KEYFLAG_KSK_def)
  have "usable ring newkeys (fst (nth_generated env kkey n s'))"
    using Suc.prems(2) g by (simp add: nth_generated.simps [of env kkey "Suc n"] Let_def)
  then have "\<exists>r2 s2. createkey_loop env kkey ring newkeys (if dns_kasp_key_ksk kkey then 0x0101 else 0x0100) s' = Some (r2, s2)"
    by (intro Suc.IH) auto
  then show ?case
    by (subst createkey_loop.simps) (auto simp: f g Let_def split: sum.splits)
qed

section \<open>Initialisation\<close>

lemma INITIALIZE_STATE_states:
  "k_states (INITIALIZE_STATE st tm target time key) =
     (if k_states key st = None then (k_states key)(st := Some target) else k_states key)"
  "k_bools (INITIALIZE_STATE st tm target time key) = k_bools key"
  by (auto simp: INITIALIZE_STATE_def meta_defs split: option.split)

lemma INITIALIZE_STATE_keeps: "k_states key t = Some s \<Longrightarrow> k_states (INITIALIZE_STATE st tm target time key) t = Some s"
  by (auto simp: INITIALIZE_STATE_states)

lemma INITIALIZE_STATE_sets: "k_states (INITIALIZE_STATE st tm target time key) st \<noteq> None"
  "k_states key t \<noteq> None \<Longrightarrow> k_states (INITIALIZE_STATE st tm target time key) t \<noteq> None"
  by (auto simp: INITIALIZE_STATE_states)

text \<open>The roles \<^verbatim>\<open>keymgr_key_init\<close> finds or sets; the states follow.\<close>

lemma key_init_shape:
  obtains key1 ksk zsk dnskey zrrsig ds goal where
    "k_states key1 = k_states key" "k_times key1 = k_times key" "k_ttl key1 = k_ttl key"
    "has_role key1 DST_BOOL_KSK \<longrightarrow> ksk \<or> csk" "has_role key1 DST_BOOL_ZSK \<longrightarrow> zsk \<or> csk"
    "keymgr_key_init kasp now csk key =
      (let k = (case k_states key1 DST_KEY_GOAL of None \<Rightarrow> dst_key_setstate DST_KEY_GOAL goal key1 | Some _ \<Rightarrow> key1);
           k = INITIALIZE_STATE DST_KEY_DNSKEY DST_TIME_DNSKEY dnskey now k;
           k = (if ksk \<or> csk then INITIALIZE_STATE DST_KEY_DS DST_TIME_DS ds now
                  (INITIALIZE_STATE DST_KEY_KRRSIG DST_TIME_KRRSIG dnskey now k) else k)
       in if zsk \<or> csk then INITIALIZE_STATE DST_KEY_ZRRSIG DST_TIME_ZRRSIG zrrsig now k else k)"
proof -
  obtain a ksk where a: "(case dst_key_getbool key DST_BOOL_KSK of
            Some b \<Rightarrow> (key, b)
          | None \<Rightarrow> let b = (dst_key_flags key AND DNS_KEYFLAG_KSK \<noteq> 0) in (dst_key_setbool DST_BOOL_KSK (b \<or> csk) key, b)) = (a, ksk)"
    by fastforce
  obtain b zsk where b: "(case dst_key_getbool a DST_BOOL_ZSK of
            Some b \<Rightarrow> (a, b)
          | None \<Rightarrow> let b = (dst_key_flags a AND DNS_KEYFLAG_KSK = 0) in (dst_key_setbool DST_BOOL_ZSK (b \<or> csk) a, b)) = (b, zsk)"
    by fastforce
  obtain dnskey zrrsig ds goal where s: "init_states kasp now b = (dnskey, zrrsig, ds, goal)" by (metis prod_cases4)
  have 1: "k_states a = k_states key \<and> k_times a = k_times key \<and> k_ttl a = k_ttl key \<and> (has_role a DST_BOOL_KSK \<longrightarrow> ksk \<or> csk)"
    using a by (auto simp: meta_defs has_role_def Let_def split: option.splits)
  have 2: "k_states b = k_states a \<and> k_times b = k_times a \<and> k_ttl b = k_ttl a \<and> k_bools b DST_BOOL_KSK = k_bools a DST_BOOL_KSK \<and>
      (has_role b DST_BOOL_ZSK \<longrightarrow> zsk \<or> csk)"
    using b by (auto simp: meta_defs has_role_def Let_def split: option.splits)
  show thesis
  proof (rule that [of b ksk zsk goal dnskey ds zrrsig])
    show "has_role b DST_BOOL_KSK \<longrightarrow> ksk \<or> csk" using 1 2 by (simp add: has_role_def dst_key_getbool_def)
    show "keymgr_key_init kasp now csk key =
      (let k = (case k_states b DST_KEY_GOAL of None \<Rightarrow> dst_key_setstate DST_KEY_GOAL goal b | Some _ \<Rightarrow> b);
           k = INITIALIZE_STATE DST_KEY_DNSKEY DST_TIME_DNSKEY dnskey now k;
           k = (if ksk \<or> csk then INITIALIZE_STATE DST_KEY_DS DST_TIME_DS ds now
                  (INITIALIZE_STATE DST_KEY_KRRSIG DST_TIME_KRRSIG dnskey now k) else k)
       in if zsk \<or> csk then INITIALIZE_STATE DST_KEY_ZRRSIG DST_TIME_ZRRSIG zrrsig now k else k)"
      unfolding keymgr_key_init_def a Let_def [of "(a, ksk)"] prod.case b Let_def [of "(b, zsk)"] s
        Let_def [of "(dnskey, zrrsig, ds, goal)"] dst_key_getstate_def
      by (simp add: Let_def)
  qed (use 1 2 in auto)
qed

lemma key_init_ok:
  "k_states key t = Some s \<Longrightarrow> k_states (keymgr_key_init kasp now csk key) t = Some s"
  "k_states (keymgr_key_init kasp now csk key) DST_KEY_DNSKEY \<noteq> None"
  "k_states (keymgr_key_init kasp now csk key) DST_KEY_GOAL \<noteq> None"
  "has_role (keymgr_key_init kasp now csk key) DST_BOOL_KSK \<Longrightarrow>
     k_states (keymgr_key_init kasp now csk key) DST_KEY_KRRSIG \<noteq> None \<and> k_states (keymgr_key_init kasp now csk key) DST_KEY_DS \<noteq> None"
  "has_role (keymgr_key_init kasp now csk key) DST_BOOL_ZSK \<Longrightarrow>
     k_states (keymgr_key_init kasp now csk key) DST_KEY_ZRRSIG \<noteq> None"
proof -
  obtain key1 ksk zsk dnskey zrrsig ds goal where
    st: "k_states key1 = k_states key" and
    role: "has_role key1 DST_BOOL_KSK \<longrightarrow> ksk \<or> csk" "has_role key1 DST_BOOL_ZSK \<longrightarrow> zsk \<or> csk" and
    eq: "keymgr_key_init kasp now csk key =
      (let k = (case k_states key1 DST_KEY_GOAL of None \<Rightarrow> dst_key_setstate DST_KEY_GOAL goal key1 | Some _ \<Rightarrow> key1);
           k = INITIALIZE_STATE DST_KEY_DNSKEY DST_TIME_DNSKEY dnskey now k;
           k = (if ksk \<or> csk then INITIALIZE_STATE DST_KEY_DS DST_TIME_DS ds now
                  (INITIALIZE_STATE DST_KEY_KRRSIG DST_TIME_KRRSIG dnskey now k) else k)
       in if zsk \<or> csk then INITIALIZE_STATE DST_KEY_ZRRSIG DST_TIME_ZRRSIG zrrsig now k else k)"
    by (rule key_init_shape)
  define k0 where "k0 = (case k_states key1 DST_KEY_GOAL of None \<Rightarrow> dst_key_setstate DST_KEY_GOAL goal key1 | Some _ \<Rightarrow> key1)"
  define k1 where "k1 = INITIALIZE_STATE DST_KEY_DNSKEY DST_TIME_DNSKEY dnskey now k0"
  define k2 where "k2 = (if ksk \<or> csk then INITIALIZE_STATE DST_KEY_DS DST_TIME_DS ds now
                  (INITIALIZE_STATE DST_KEY_KRRSIG DST_TIME_KRRSIG dnskey now k1) else k1)"
  have e: "keymgr_key_init kasp now csk key =
     (if zsk \<or> csk then INITIALIZE_STATE DST_KEY_ZRRSIG DST_TIME_ZRRSIG zrrsig now k2 else k2)"
    unfolding eq Let_def k0_def k1_def k2_def ..
  have b: "k_bools (keymgr_key_init kasp now csk key) = k_bools key1"
    unfolding e k2_def k1_def k0_def by (auto simp: INITIALIZE_STATE_states meta_defs split: option.splits)
  have 0: "k_states key t = Some s \<Longrightarrow> k_states k0 t = Some s" "k_states k0 DST_KEY_GOAL \<noteq> None" for t s
    using st by (auto simp: k0_def meta_defs split: option.splits)
  have 1: "k_states k1 DST_KEY_DNSKEY \<noteq> None" "k_states k0 t = Some s \<Longrightarrow> k_states k1 t = Some s" for t s
    unfolding k1_def using INITIALIZE_STATE_sets(1) INITIALIZE_STATE_keeps by blast+
  have 2: "k_states k1 t = Some s \<Longrightarrow> k_states k2 t = Some s" for t s
    unfolding k2_def by (simp add: INITIALIZE_STATE_keeps)
  have 22: "ksk \<or> csk \<Longrightarrow> k_states k2 DST_KEY_KRRSIG \<noteq> None \<and> k_states k2 DST_KEY_DS \<noteq> None"
    unfolding k2_def using INITIALIZE_STATE_sets by (simp del: not_None_eq)
  have 3: "k_states k2 t = Some s \<Longrightarrow> k_states (keymgr_key_init kasp now csk key) t = Some s" for t s
    unfolding e by (simp add: INITIALIZE_STATE_keeps)
  show "k_states key t = Some s \<Longrightarrow> k_states (keymgr_key_init kasp now csk key) t = Some s" by (blast intro: 0 1 2 3)
  show "k_states (keymgr_key_init kasp now csk key) DST_KEY_DNSKEY \<noteq> None" using 1(1) 2 3 by blast
  show "k_states (keymgr_key_init kasp now csk key) DST_KEY_GOAL \<noteq> None" using 0(2) 1(2) 2 3 by blast
  show "k_states (keymgr_key_init kasp now csk key) DST_KEY_KRRSIG \<noteq> None \<and> k_states (keymgr_key_init kasp now csk key) DST_KEY_DS \<noteq> None"
    if "has_role (keymgr_key_init kasp now csk key) DST_BOOL_KSK"
    using that b role(1) 22 3 unfolding has_role_def dst_key_getbool_def by (metis not_None_eq)
  show "k_states (keymgr_key_init kasp now csk key) DST_KEY_ZRRSIG \<noteq> None"
    if "has_role (keymgr_key_init kasp now csk key) DST_BOOL_ZSK"
    using that b role(2) unfolding has_role_def dst_key_getbool_def e by (simp add: INITIALIZE_STATE_sets del: not_None_eq)
qed

section \<open>Properties\<close>

text \<open>A library whose keys have the numbers of a counter, for the examples.\<close>

definition counter_env :: "u16 keyenv" where
  "counter_env = \<lparr>e_todns = (\<lambda>key. Inl ISC_R_NOTIMPLEMENTED),
     e_generate = (\<lambda>alg bits flags n. (Inr (blank_key\<lparr>k_size := bits, k_alg := alg, k_flags := flags, k_id := n, k_rid := n + 128\<rparr>), n + 1)),
     e_xmss_bits = (\<lambda>_. None), e_xmssmt_bits = (\<lambda>_. None), e_dir_open = ISC_R_SUCCESS, e_tofile = (\<lambda>_. ISC_R_SUCCESS)\<rparr>"

definition rsa_csk :: dns_kasp_key where
  "rsa_csk = \<lparr>kk_lifetime = 86400, kk_algorithm = 8, kk_param = 2048, kk_role = 3\<rparr>"

text \<open>
  C28: \<^verbatim>\<open>keymgr_createkey\<close> returns as soon as the cryptographic library has given a key that clashes with none of the
  ring and none of the new keys; and a key it returns has the roles and the lifetime of the policy key, and neither its
  key tag nor its tag when revoked is the tag, plain or revoked, of a key of the same algorithm in either list.
\<close>

theorem createkey_fresh:
  assumes "usable ring newkeys (fst (nth_generated env kkey n s))"
  shows "\<exists>r s'. keymgr_createkey env kkey ring newkeys s = Some (r, s') \<and>
    (\<forall>key. r = Inr key \<longrightarrow>
      dst_key_getbool key DST_BOOL_KSK = Some (dns_kasp_key_ksk kkey) \<and>
      dst_key_getbool key DST_BOOL_ZSK = Some (dns_kasp_key_zsk kkey) \<and>
      dst_key_getnum key DST_NUM_LIFETIME = Some (dns_kasp_key_lifetime kkey) \<and>
      (\<forall>d\<in>set (ring @ newkeys). kalg d = dst_key_alg key \<longrightarrow>
        {kid d, dst_key_rid (dk_key d)} \<inter> {dst_key_id key, dst_key_rid key} = {}))"
proof -
  obtain r s' where l: "createkey_loop env kkey ring newkeys 0x0100 s = Some (r, s')"
    using createkey_loop_returns [OF _ assms] by blast
  show ?thesis
  proof (cases r)
    case (Inl e)
    then show ?thesis using l by (simp add: keymgr_createkey_def)
  next
    case (Inr key)
    have "\<not> keymgr_keyid_conflict key ring \<and> \<not> keymgr_keyid_conflict key newkeys"
      using createkey_loop_result [OF l] Inr by blast
    then have "\<forall>d\<in>set (ring @ newkeys). kalg d = dst_key_alg key \<longrightarrow>
        {kid d, dst_key_rid (dk_key d)} \<inter> {dst_key_id key, dst_key_rid key} = {}"
      unfolding keyid_conflict_iff by simp blast
    moreover have "keymgr_createkey env kkey ring newkeys s = Some (Inr (dst_key_setbool DST_BOOL_ZSK (dns_kasp_key_zsk kkey)
           (dst_key_setbool DST_BOOL_KSK (dns_kasp_key_ksk kkey)
             (dst_key_setnum DST_NUM_LIFETIME (dns_kasp_key_lifetime kkey) key))), s')"
      using l Inr by (simp add: keymgr_createkey_def)
    ultimately show ?thesis by (simp add: meta_defs)
  qed
qed

theorem createkey_fresh_witness:
  "\<exists>r s'. keymgr_createkey counter_env rsa_csk steady_ring [] 7 = Some (r, s') \<and>
    (\<forall>key. r = Inr key \<longrightarrow>
      dst_key_getbool key DST_BOOL_KSK = Some (dns_kasp_key_ksk rsa_csk) \<and>
      dst_key_getbool key DST_BOOL_ZSK = Some (dns_kasp_key_zsk rsa_csk) \<and>
      dst_key_getnum key DST_NUM_LIFETIME = Some (dns_kasp_key_lifetime rsa_csk) \<and>
      (\<forall>d\<in>set (steady_ring @ []). kalg d = dst_key_alg key \<longrightarrow>
        {kid d, dst_key_rid (dk_key d)} \<inter> {dst_key_id key, dst_key_rid key} = {}))"
proof (rule createkey_fresh [where n = 1])
  show "usable steady_ring [] (fst (nth_generated counter_env rsa_csk 1 7))" by code_simp
qed

text \<open>The states the update rules read of a key with its roles.\<close>

definition has_states :: "dst_key \<Rightarrow> bool" where
  "has_states key \<longleftrightarrow> k_states key DST_KEY_DNSKEY \<noteq> None \<and> k_states key DST_KEY_GOAL \<noteq> None \<and>
    (has_role key DST_BOOL_KSK \<longrightarrow> k_states key DST_KEY_KRRSIG \<noteq> None \<and> k_states key DST_KEY_DS \<noteq> None) \<and>
    (has_role key DST_BOOL_ZSK \<longrightarrow> k_states key DST_KEY_ZRRSIG \<noteq> None)"

text \<open>
  C29: after \<^verbatim>\<open>keymgr_key_init\<close> a key has a goal and a state for its DNSKEY, a key with the KSK role has states for its
  DNSKEY signature and its DS, a key with the ZSK role has one for its zone signatures; what was set before is unchanged.
\<close>

theorem key_init_complete:
  "has_states (keymgr_key_init kasp now csk key) \<and>
   (\<forall>t. k_states key t = None \<or> k_states (keymgr_key_init kasp now csk key) t = k_states key t)"
  unfolding has_states_def
proof (intro conjI impI allI key_init_ok(2-))
  fix t
  show "k_states key t = None \<or> k_states (keymgr_key_init kasp now csk key) t = k_states key t"
    using key_init_ok(1) [of key t] by (cases "k_states key t") auto
qed (use key_init_ok(4) in blast)+

section \<open>Purging\<close>

lemma match_hidden:
  assumes "match_state_loop key key DST_KEY_DNSKEY NA states is" "i \<in> set is" "states i = HIDDEN"
  shows "k_states key i = None \<or> k_states key i = Some HIDDEN"
  using assms by (induction "is") (auto simp: meta_defs split: option.splits if_splits)

text \<open>The last time a state of the key changed, as \<^verbatim>\<open>keymgr_key_may_be_purged\<close> computes it.\<close>

lemma fold_max_ge:
  fixes f :: "'a \<Rightarrow> u32"
  shows "l \<le> fold (\<lambda>i l. if f i > l then f i else l) is l"
    "i \<in> set is \<Longrightarrow> f i \<le> fold (\<lambda>i l. if f i > l then f i else l) is l"
proof -
  show mono: "l \<le> fold (\<lambda>i l. if f i > l then f i else l) is l" for l "is"
  proof (induction "is" arbitrary: l)
    case (Cons a js)
    have "l \<le> (if f a > l then f a else l)" by (simp add: less_imp_le)
    also have "\<dots> \<le> fold (\<lambda>i l. if f i > l then f i else l) (a # js) l" using Cons by simp
    finally show ?case .
  qed simp
  show "f i \<le> fold (\<lambda>i l. if f i > l then f i else l) is l" if "i \<in> set is"
    using that
  proof (induction "is" arbitrary: l)
    case (Cons a js)
    show ?case
    proof (cases "i = a")
      case True
      have "f i \<le> (if f a > l then f a else l)" using True by (simp add: not_less)
      also have "\<dots> \<le> fold (\<lambda>i l. if f i > l then f i else l) (a # js) l" using mono by simp
      finally show ?thesis .
    qed (use Cons in simp)
  qed simp
qed


definition old_key :: dst_key where
  "old_key = dst_key_setbool DST_BOOL_KSK True (dst_key_settime DST_TIME_DELETE 5 (dst_key_settime DST_TIME_DNSKEY 90
     (with_states 7 (Some HIDDEN) (Some HIDDEN) (Some HIDDEN) (Some HIDDEN) (Some HIDDEN))))"


section \<open>The times of a rollover\<close>

lemma settime_remove_result:
  "k_times (keymgr_settime_remove kasp key) t = (if t = DST_TIME_DELETE \<and> k_times key DST_TIME_INACTIVE \<noteq> None
     then k_times (keymgr_settime_remove kasp key) t else k_times key t)"
  "k_states (keymgr_settime_remove kasp key) = k_states key" "k_nums (keymgr_settime_remove kasp key) = k_nums key"
  "k_bools (keymgr_settime_remove kasp key) = k_bools key" "k_id (keymgr_settime_remove kasp key) = k_id key"
  "k_alg (keymgr_settime_remove kasp key) = k_alg key" "k_flags (keymgr_settime_remove kasp key) = k_flags key"
  by (auto simp: keymgr_settime_remove_def meta_defs Let_def split: option.split)

text \<open>A key that is active and published and knows when it retires: the successor is due that much before.\<close>

lemma prepublication_of_retire:
  assumes "k_times key DST_TIME_ACTIVATE = Some a" "k_times key DST_TIME_INACTIVE = Some retire"
    "prepub = dst_key_getttl key + dns_kasp_publishsafety kasp + dns_kasp_zonepropagationdelay kasp" "prepub \<le> retire"
  shows "snd (keymgr_prepublication_time kasp lifetime now key) = retire - prepub"
proof -
  have "\<not> retire < prepub" using assms(4) by simp
  then show ?thesis
    using assms(1-3)
    by (simp add: keymgr_prepublication_time_def meta_defs Let_def split: option.split prod.split)
qed

lemma get_hints_keeps:
  assumes "dns_dnssec_get_hints env now d = Some d'"
  shows "k_times (dk_key d') = k_times (dk_key d)" "k_nums (dk_key d') = k_nums (dk_key d)"
    "k_states (dk_key d') = k_states (dk_key d)" "k_bools (dk_key d') = k_bools (dk_key d)"
    "k_ttl (dk_key d') = k_ttl (dk_key d)" "k_alg (dk_key d') = k_alg (dk_key d)"
    "k_modified (dk_key d') = k_modified (dk_key d)" "dk_legacy d' = dk_legacy d" "dk_purge d' = dk_purge d"
  using assms
  by (auto simp: dns_dnssec_get_hints_def dst_key_setflags_def computeid_def Let_def
      split: prod.splits if_splits sum.splits bind_splits)

lemma get_hints_unrevoked:
  assumes "k_times (dk_key d) DST_TIME_REVOKE = None"
  shows "\<exists>d'. dns_dnssec_get_hints env now d = Some d' \<and> dk_key d' = dk_key d \<and> dk_legacy d' = dk_legacy d"
  using assms
  by (auto simp: dns_dnssec_get_hints_def dst_key_is_revoked_def dst_key_gettime_def Let_def split: prod.split)

lemma only_key_found:
  assumes "only_key P i ds found = Inr k"
  shows "(found = Some k \<and> (\<forall>d\<in>set ds. \<not> P d)) \<or>
    (found = None \<and> i \<le> k \<and> k < i + length ds \<and> (\<forall>j<length ds. P (ds ! j) \<longleftrightarrow> i + j = k))"
  using assms
proof (induction ds arbitrary: i found)
  case Nil
  then show ?case by (auto split: option.splits)
next
  case (Cons d ds)
  show ?case
  proof (cases "P d")
    case False
    then have IH: "(found = Some k \<and> (\<forall>d\<in>set ds. \<not> P d)) \<or>
      (found = None \<and> Suc i \<le> k \<and> k < Suc i + length ds \<and> (\<forall>j<length ds. P (ds ! j) \<longleftrightarrow> Suc i + j = k))"
      using Cons.IH [of "Suc i" found] Cons.prems by simp
    show ?thesis using IH False by (auto simp: nth_Cons split: nat.split)
  next
    case True
    then have "found = None" "only_key P (Suc i) ds (Some i) = Inr k"
      using Cons.prems by (auto split: if_splits)
    then have "k = i \<and> (\<forall>d\<in>set ds. \<not> P d)" using Cons.IH by blast
    then show ?thesis using True \<open>found = None\<close> by (auto simp: nth_Cons split: nat.split)
  qed
qed

lemma only_key_error: "only_key P i ds found = Inl e \<Longrightarrow> e = DNS_R_NOKEYMATCH \<or> e = DNS_R_TOOMANYKEYS"
  by (induction ds arbitrary: i found) (auto split: option.splits if_splits)

lemma store_key_result:
  assumes "store_key env now k ring = Some (ISC_R_SUCCESS, ring')" "k < length ring"
  obtains d where "dns_dnssec_get_hints env now (ring ! k) = Some d" "e_dir_open env = ISC_R_SUCCESS"
    "e_tofile env (dk_key d) = ISC_R_SUCCESS" "ring' = ring[k := d\<lparr>dk_key := dst_key_setmodified False (dk_key d)\<rparr>]"
  using assms by (auto simp: store_key_def Let_def split: if_splits bind_splits)

lemma keymgr_rollover_result:
  assumes "dns_keymgr_rollover env kasp ring now t tag alg = Some (ISC_R_SUCCESS, ring')"
  obtains k active where "k < length ring" "\<forall>j<length ring. (kid (ring ! j) = tag \<and> (alg = 0 \<or> kalg (ring ! j) = alg)) \<longleftrightarrow> j = k"
    "k_times (dk_key (ring ! k)) DST_TIME_ACTIVATE = Some active" "active \<le> now"
    "k_times (dk_key (ring' ! k)) = (k_times (dk_key (ring ! k)))
       (DST_TIME_INACTIVE := Some (t + (k_ttl (dk_key (ring ! k)) + dns_kasp_publishsafety kasp + dns_kasp_zonepropagationdelay kasp)))"
    "k_ttl (dk_key (ring' ! k)) = k_ttl (dk_key (ring ! k))" "\<not> k_modified (dk_key (ring' ! k))"
    "length ring' = length ring" "\<forall>j<length ring. j \<noteq> k \<longrightarrow> ring' ! j = ring ! j"
proof -
  obtain k where k: "only_key (\<lambda>d. kid d = tag \<and> \<not> (alg > 0 \<and> kalg d \<noteq> alg)) 0 ring None = Inr k"
    using assms unfolding dns_keymgr_rollover_def
    by (cases "only_key (\<lambda>d. kid d = tag \<and> \<not> (alg > 0 \<and> kalg d \<noteq> alg)) 0 ring None") (auto dest: only_key_error)
  then have u: "k < length ring" "\<forall>j<length ring. (kid (ring ! j) = tag \<and> (alg = 0 \<or> kalg (ring ! j) = alg)) \<longleftrightarrow> j = k"
    using only_key_found [OF k] by (auto simp: word_neq_0_conv [symmetric])
  define key where "key = dk_key (ring ! k)"
  define prepub where "prepub = k_ttl key + dns_kasp_publishsafety kasp + dns_kasp_zonepropagationdelay kasp"
  obtain active where a: "k_times key DST_TIME_ACTIVATE = Some active" "active \<le> now"
    and s: "store_key env now k (ring[k := (ring ! k)\<lparr>dk_key := dst_key_setnum DST_NUM_LIFETIME (t + prepub - active)
        (dst_key_settime DST_TIME_INACTIVE (t + prepub) key)\<rparr>]) = Some (ISC_R_SUCCESS, ring')"
    using assms unfolding dns_keymgr_rollover_def k Let_def prepub_def key_def dst_key_getttl_def dst_key_gettime_def
    by (auto split: option.splits if_splits)
  from store_key_result [OF s] u(1) obtain d where
    d: "dns_dnssec_get_hints env now ((ring ! k)\<lparr>dk_key := dst_key_setnum DST_NUM_LIFETIME (t + prepub - active)
        (dst_key_settime DST_TIME_INACTIVE (t + prepub) key)\<rparr>) = Some d"
      "ring' = ring[k := d\<lparr>dk_key := dst_key_setmodified False (dk_key d)\<rparr>]"
    by auto
  show thesis
  proof (rule that [OF u])
    show "k_times (dk_key (ring' ! k)) = (k_times (dk_key (ring ! k)))
       (DST_TIME_INACTIVE := Some (t + (k_ttl (dk_key (ring ! k)) + dns_kasp_publishsafety kasp + dns_kasp_zonepropagationdelay kasp)))"
      using u(1) get_hints_keeps(1) [OF d(1)]
      by (simp add: d(2) dst_key_setmodified_def dst_key_setnum_def dst_key_settime_def key_def prepub_def)
    show "k_ttl (dk_key (ring' ! k)) = k_ttl (dk_key (ring ! k))"
      using u(1) get_hints_keeps(5) [OF d(1)]
      by (simp add: d(2) dst_key_setmodified_def dst_key_setnum_def dst_key_settime_def key_def)
  qed (use a u(1) in \<open>auto simp: key_def d(2) dst_key_setmodified_def\<close>)
qed

text \<open>
  C30: the time given to \<^verbatim>\<open>rndc dnssec -rollover\<close> is the time the key manager acts on: when \<^verbatim>\<open>dns_keymgr_rollover\<close> succeeds, exactly one
  key of the ring had the tag (and the algorithm, when one was given), and \<^verbatim>\<open>keymgr_prepublication_time\<close> of that key,
  whenever it is asked, is the time given, provided that time plus the prepublication period fits in 32 bits.
\<close>


theorem rollover_command_kept:
  assumes "dns_keymgr_rollover env kasp ring now t tag alg = Some (ISC_R_SUCCESS, ring')"
    "\<forall>d\<in>set ring. unat t + unat (dst_key_getttl (dk_key d) + dns_kasp_publishsafety kasp + dns_kasp_zonepropagationdelay kasp) < 2 ^ 32"
  shows "\<exists>k<length ring'. (\<forall>j<length ring. (kid (ring ! j) = tag \<and> (alg = 0 \<or> kalg (ring ! j) = alg)) \<longleftrightarrow> j = k) \<and>
    (\<forall>lifetime now'. snd (keymgr_prepublication_time kasp lifetime now' (dk_key (ring' ! k))) = t) \<and>
    (\<forall>j<length ring. j \<noteq> k \<longrightarrow> ring' ! j = ring ! j)"
proof -
  obtain k active where
    k: "k < length ring" "\<forall>j<length ring. (kid (ring ! j) = tag \<and> (alg = 0 \<or> kalg (ring ! j) = alg)) \<longleftrightarrow> j = k"
    and a: "k_times (dk_key (ring ! k)) DST_TIME_ACTIVATE = Some active" "active \<le> now"
    and t: "k_times (dk_key (ring' ! k)) = (k_times (dk_key (ring ! k)))
       (DST_TIME_INACTIVE := Some (t + (k_ttl (dk_key (ring ! k)) + dns_kasp_publishsafety kasp + dns_kasp_zonepropagationdelay kasp)))"
      "k_ttl (dk_key (ring' ! k)) = k_ttl (dk_key (ring ! k))"
    and l: "length ring' = length ring" "\<forall>j<length ring. j \<noteq> k \<longrightarrow> ring' ! j = ring ! j"
    by (rule keymgr_rollover_result [OF assms(1)])
  define prepub where "prepub = k_ttl (dk_key (ring ! k)) + dns_kasp_publishsafety kasp + dns_kasp_zonepropagationdelay kasp"
  have "unat t + unat prepub < 2 ^ 32"
    using assms(2) k(1) by (simp add: prepub_def dst_key_getttl_def)
  then have "unat (t + prepub) = unat t + unat prepub" by (simp add: unat_word_ariths)
  then have le: "prepub \<le> t + prepub" by (simp add: word_le_nat_alt)
  have "snd (keymgr_prepublication_time kasp lifetime now' (dk_key (ring' ! k))) = t" for lifetime now'
    using prepublication_of_retire [of "dk_key (ring' ! k)" active "t + prepub" prepub kasp lifetime now'] le a t
    by (simp add: prepub_def dst_key_getttl_def)
  then show ?thesis using k l by auto
qed

definition rolled_ring :: keyring where
  "rolled_ring = [in_ring (dst_key_settime DST_TIME_ACTIVATE 100 (dst_key_settime DST_TIME_PUBLISH 100
     (with_states 7 (Some OMNIPRESENT) (Some OMNIPRESENT) (Some OMNIPRESENT) (Some OMNIPRESENT) (Some OMNIPRESENT))))]"

theorem rollover_command_kept_witness:
  "\<exists>env :: unit keyenv. \<exists>ring'. dns_keymgr_rollover env default_kasp rolled_ring 1000 5000 7 0 = Some (ISC_R_SUCCESS, ring') \<and>
   (\<exists>k<length ring'. (\<forall>j<length rolled_ring. (kid (rolled_ring ! j) = 7 \<and> ((0::u32) = 0 \<or> kalg (rolled_ring ! j) = 0)) \<longleftrightarrow> j = k) \<and>
    (\<forall>lifetime now'. snd (keymgr_prepublication_time default_kasp lifetime now' (dk_key (ring' ! k))) = 5000) \<and>
    (\<forall>j<length rolled_ring. j \<noteq> k \<longrightarrow> ring' ! j = rolled_ring ! j))"
proof -
  define env :: "unit keyenv" where "env = \<lparr>e_todns = (\<lambda>key. Inl ISC_R_NOTIMPLEMENTED),
     e_generate = (\<lambda>alg bits flags n. (Inl ISC_R_NOTIMPLEMENTED, n)),
     e_xmss_bits = (\<lambda>_. None), e_xmssmt_bits = (\<lambda>_. None), e_dir_open = ISC_R_SUCCESS, e_tofile = (\<lambda>_. ISC_R_SUCCESS)\<rparr>"
  have "map_option fst (dns_keymgr_rollover env default_kasp rolled_ring 1000 5000 7 0) = Some ISC_R_SUCCESS"
    unfolding env_def by code_simp
  then obtain ring' where r: "dns_keymgr_rollover env default_kasp rolled_ring 1000 5000 7 0 = Some (ISC_R_SUCCESS, ring')" by auto
  have fits: "\<forall>d\<in>set rolled_ring. unat (5000 :: u32) + unat (dst_key_getttl (dk_key d) + dns_kasp_publishsafety default_kasp +
      dns_kasp_zonepropagationdelay default_kasp) < 2 ^ 32"
    by (simp add: rolled_ring_def in_ring_def with_states_def blank_key_def meta_defs default_kasp_def
        dns_kasp_publishsafety_def dns_kasp_zonepropagationdelay_def)
  show ?thesis using r rollover_command_kept [OF r fits] by blast
qed

definition quiet_env :: "unit keyenv" where
  "quiet_env = \<lparr>e_todns = (\<lambda>key. Inl ISC_R_NOTIMPLEMENTED),
     e_generate = (\<lambda>alg bits flags n. (Inl ISC_R_NOTIMPLEMENTED, n)),
     e_xmss_bits = (\<lambda>_. None), e_xmssmt_bits = (\<lambda>_. None), e_dir_open = ISC_R_SUCCESS, e_tofile = (\<lambda>_. ISC_R_SUCCESS)\<rparr>"

definition ksk_forever :: dns_kasp_key where
  "ksk_forever = \<lparr>kk_lifetime = 0, kk_algorithm = 8, kk_param = 2048, kk_role = 1\<rparr>"

definition zsk_month :: dns_kasp_key where
  "zsk_month = \<lparr>kk_lifetime = 2592000, kk_algorithm = 8, kk_param = 2048, kk_role = 2\<rparr>"

definition pair_ring :: keyring where
  "pair_ring = map (\<lambda>(ksk, zsk, key). in_ring (dst_key_setbool DST_BOOL_KSK ksk (dst_key_setbool DST_BOOL_ZSK zsk
       (dst_key_settime DST_TIME_ACTIVATE 100 (dst_key_settime DST_TIME_PUBLISH 100 key)))))
     [(True, False, with_states 7 (Some OMNIPRESENT) None (Some OMNIPRESENT) (Some OMNIPRESENT) (Some OMNIPRESENT)),
      (False, True, with_states 8 (Some OMNIPRESENT) (Some OMNIPRESENT) None None (Some OMNIPRESENT))]"




section \<open>What a run writes\<close>

lemma store_keys_result:
  "store_keys env now ds = Some (ISC_R_SUCCESS, ds') \<Longrightarrow>
   length ds' = length ds \<and> (\<forall>d\<in>set ds'. k_modified (dk_key d) \<longrightarrow> dk_purge d)"
proof (induction env now ds arbitrary: ds' rule: store_keys.induct)
  case (2 env now d ds)
  show ?case
  proof (cases "dst_key_ismodified (dk_key d) \<and> \<not> dk_purge d")
    case True
    then obtain d1 ds1 where "ds' = d1\<lparr>dk_key := dst_key_setmodified False (dk_key d1)\<rparr> # ds1"
      "dns_dnssec_get_hints env now d = Some d1" "e_tofile env (dk_key d1) = ISC_R_SUCCESS"
      "store_keys env now ds = Some (ISC_R_SUCCESS, ds1)"
      using 2(3) by (auto simp: Let_def split: if_splits bind_splits)
    then show ?thesis using 2(1) [of d1] True by (simp add: dst_key_setmodified_def)
  next
    case False
    then obtain ds1 where "ds' = d # ds1" "store_keys env now ds = Some (ISC_R_SUCCESS, ds1)"
      using 2(3) by (auto split: bind_splits)
    then show ?thesis using 2(2) False by (simp add: dst_key_ismodified_def)
  qed
qed simp

lemma run_success:
  assumes "dns_keymgr_run env kasp now ring dnskeys nexttime s = Some (ISC_R_SUCCESS, m)"
  shows "m_newkeys m = []" "\<exists>ring2. store_keys env now ring2 = Some (ISC_R_SUCCESS, m_keyring m)"
  using assms by (auto simp: dns_keymgr_run_def Let_def split: if_splits bind_splits) blast



section \<open>Successors\<close>

text \<open>A reference that points at a key of the lists.\<close>

fun valid_ref :: "'s keymgr \<Rightarrow> keyref \<Rightarrow> bool" where
  "valid_ref m (In_keyring i) = (i < length (m_keyring m))"
| "valid_ref m (In_dnskeys i) = (i < length (m_dnskeys m))"
| "valid_ref m (In_newkeys i) = (i < length (m_newkeys m))"

lemma key_at_set_key [simp]: "valid_ref m r \<Longrightarrow> key_at (set_key r d m) r' = (if r' = r then d else key_at m r')"
  by (cases r; cases r') (auto simp: nth_list_update)

lemma valid_ref_set_key [simp]: "valid_ref (set_key r d m) r' = valid_ref m r'"
  by (cases r; cases r') auto

lemma key_at_change_key [simp]:
  "valid_ref m r \<Longrightarrow> dk_key (key_at (change_key r f m) r') = (if r' = r then f (dk_key (key_at m r)) else dk_key (key_at m r'))"
  "valid_ref m r \<Longrightarrow> dk_legacy (key_at (change_key r f m) r') = dk_legacy (key_at m r')"
  by (auto simp: change_key_def)

lemma valid_ref_change_key [simp]: "valid_ref (change_key r f m) r' = valid_ref m r'"
  by (simp add: change_key_def)

lemma settime_syncpublish_keeps [simp]:
  "k_states (keymgr_settime_syncpublish kasp first key) = k_states key" "k_nums (keymgr_settime_syncpublish kasp first key) = k_nums key"
  "k_id (keymgr_settime_syncpublish kasp first key) = k_id key"
  "k_times (keymgr_settime_syncpublish kasp first key) DST_TIME_REVOKE = k_times key DST_TIME_REVOKE"
  by (auto simp: keymgr_settime_syncpublish_def meta_defs Let_def split: option.split)

text \<open>
  when a rollover introduces a key as the successor of another, the two are linked both ways, which is the relation
  \<^verbatim>\<open>keymgr_direct_dep\<close> the transition rules look for, the old key's goal becomes HIDDEN and the new key's OMNIPRESENT.
\<close>

theorem successor_linked:
  assumes "valid_ref m act" "valid_ref m new" "act \<noteq> new"
    "k_times (dk_key (key_at m new)) DST_TIME_CREATED \<noteq> None" "k_times (dk_key (key_at m new)) DST_TIME_REVOKE = None"
    "\<not> dk_legacy (key_at m new)"
  shows "\<exists>m'. introduce_key env kasp lifetime now (Some act) new prepub m = Some m' \<and>
    keymgr_direct_dep (dk_key (key_at m' act)) (dk_key (key_at m' new)) \<and>
    dst_key_goal (dk_key (key_at m' act)) = HIDDEN \<and> dst_key_goal (dk_key (key_at m' new)) = OMNIPRESENT"
proof -
  obtain created where c: "k_times (dk_key (key_at m new)) DST_TIME_CREATED = Some created" using assms(4) by auto
  define m1 where "m1 = change_key new (dst_key_setnum DST_NUM_LIFETIME lifetime) m"
  define m2 where "m2 = change_key act (dst_key_setnum DST_NUM_SUCCESSOR (ucast (kid (key_at
       (change_key new (dst_key_setnum DST_NUM_PREDECESSOR (ucast (kid (key_at m1 act)))) m1) new))))
     (change_key new (dst_key_setnum DST_NUM_PREDECESSOR (ucast (kid (key_at m1 act)))) m1)"
  define active0 where "active0 = (case k_times (dk_key (key_at m2 act)) DST_TIME_INACTIVE of Some t \<Rightarrow> t | None \<Rightarrow> 0)"
  obtain active1 prepub1 where ap: "(if prepub < created then (active0 + (created - prepub), created) else (active0, prepub)) = (active1, prepub1)"
    by fastforce
  define active2 where "active2 = (if active1 < created then created else active1)"
  define m3 where "m3 = change_key act (dst_key_setstate DST_KEY_GOAL HIDDEN)
     (change_key new (keymgr_settime_syncpublish kasp False)
       (change_key new (dst_key_settime DST_TIME_ACTIVATE active2) (change_key new (dst_key_settime DST_TIME_PUBLISH prepub1) m2)))"
  define m4 where "m4 = change_key new (dst_key_setstate DST_KEY_GOAL OMNIPRESENT) m3"
  define m5 where "m5 = (if lifetime > 0 then change_key new (keymgr_settime_remove kasp)
       (change_key new (dst_key_settime DST_TIME_INACTIVE (active2 + lifetime)) m4) else m4)"
  have v: "valid_ref m5 new" "valid_ref m5 act" using assms(1,2) by (simp_all add: m5_def m4_def m3_def m2_def m1_def)
  have k: "k_times (dk_key (key_at m5 new)) DST_TIME_REVOKE = None" "\<not> dk_legacy (key_at m5 new)"
    using assms by (simp_all add: m5_def m4_def m3_def m2_def m1_def meta_defs settime_remove_result(1))
  have links: "k_nums (dk_key (key_at m5 act)) DST_NUM_SUCCESSOR = Some (ucast (kid (key_at m5 new)))"
    "k_nums (dk_key (key_at m5 new)) DST_NUM_PREDECESSOR = Some (ucast (kid (key_at m5 act)))"
    "k_states (dk_key (key_at m5 act)) DST_KEY_GOAL = Some HIDDEN" "k_states (dk_key (key_at m5 new)) DST_KEY_GOAL = Some OMNIPRESENT"
    using assms(1-3) by (simp_all add: m5_def m4_def m3_def m2_def m1_def meta_defs settime_remove_result(2-))
  obtain d where d: "dns_dnssec_get_hints env now (key_at m5 new) = Some d" "dk_key d = dk_key (key_at m5 new)" "\<not> dk_legacy d"
    using get_hints_unrevoked [OF k(1)] k(2) by blast
  have cr: "dst_key_gettime (dk_key (key_at m1 new)) DST_TIME_CREATED = Some created" using c assms(2) by (simp add: m1_def meta_defs)
  have "introduce_key env kasp lifetime now (Some act) new prepub m =
      Some (set_key new (d\<lparr>dk_source := dns_keysource_repository\<rparr>) m5)"
    unfolding introduce_key_def Let_def m1_def [symmetric] option.case(2) cr bind.bind_lunit m2_def [symmetric]
      dst_key_gettime_def [of "dk_key (key_at m2 act)"] active0_def [symmetric] ap prod.case active2_def [symmetric]
      m3_def [symmetric] m4_def [symmetric] m5_def [symmetric]
    by (simp add: d)
  then show ?thesis using links v assms(3) d(2) by (simp add: keymgr_direct_dep_def dst_key_goal_def meta_defs)
qed

definition roll_start :: "unit keymgr" where
  "roll_start = \<lparr>m_keyring = rolled_ring, m_dnskeys = [], m_newkeys = [in_ring (dst_key_settime DST_TIME_CREATED 1000
     (with_states 8 (Some HIDDEN) (Some HIDDEN) (Some HIDDEN) (Some HIDDEN) None))], m_nexttime = 0, m_rand = ()\<rparr>"

theorem successor_linked_witness:
  "\<exists>m'. introduce_key quiet_env default_kasp 86400 1000 (Some (In_keyring 0)) (In_newkeys 0) 900 roll_start = Some m' \<and>
    keymgr_direct_dep (dk_key (key_at m' (In_keyring 0))) (dk_key (key_at m' (In_newkeys 0))) \<and>
    dst_key_goal (dk_key (key_at m' (In_keyring 0))) = HIDDEN \<and> dst_key_goal (dk_key (key_at m' (In_newkeys 0))) = OMNIPRESENT"
  by (rule successor_linked) (simp_all add: roll_start_def rolled_ring_def in_ring_def with_states_def blank_key_def meta_defs)

end
