(* ===== verification/NameText.thy ===== *)
theory NameText
  imports NameOps
begin

text \<open>
  Reading names from text, \<^verbatim>\<open>dns_name_fromtext\<close> of \<^verbatim>\<open>lib/dns/name.c\<close>.  The cases of the state machine that fall through to the next are functions that
  call it.  Characters are octets.
\<close>

section \<open>Reading\<close>

datatype ft_state = ft_init | ft_start | ft_ordinary | ft_initialescape | ft_escape | ft_escdecimal | ft_at

definition DNS_NAME_DOWNCASE :: u32 where "DNS_NAME_DOWNCASE = 0x0001"

text \<open>
  The variables of \<^verbatim>\<open>dns_name_fromtext\<close>; \<open>f_mem\<close> is the memory of the target buffer, in which \<open>f_ndata\<close> and
  \<open>f_label\<close> are positions.
\<close>

record ft =
  f_mem :: bytes
  f_offsets :: bytes
  f_state :: ft_state
  f_label :: "nat option"
  f_ndata :: nat
  f_nrem :: nat
  f_nused :: nat
  f_labels :: nat
  f_count :: nat
  f_value :: nat
  f_digits :: nat
  f_done :: bool

text \<open>\<^verbatim>\<open>*ndata++ = c; nrem--; nused++\<close>\<close>

definition ft_put :: "u8 \<Rightarrow> ft \<Rightarrow> ft option" where
  "ft_put c st = do {
     m \<leftarrow> poke (f_mem st) (f_ndata st) c;
     Some (st\<lparr>f_mem := m, f_ndata := f_ndata st + 1, f_nrem := usub (f_nrem st) 1, f_nused := f_nused st + 1\<rparr>)
   }"

text \<open>A result other than \<^verbatim>\<open>ISC_R_SUCCESS\<close> is returned at once.\<close>

definition ft_char :: "bool \<Rightarrow> u8 \<Rightarrow> ft \<Rightarrow> (isc_result \<times> ft) option" where
  "ft_char downcase c st =
     (if f_count st \<ge> DNS_NAME_LABELLEN then Some (DNS_R_LABELTOOLONG, st)
      else do {
        let st = st\<lparr>f_count := f_count st + 1\<rparr>;
        st \<leftarrow> ft_put (if downcase then isc_ascii_tolower c else c) st;
        Some (ISC_R_SUCCESS, st\<lparr>f_state := ft_ordinary\<rparr>)
      })"

definition ft_escdecimal_case :: "bool \<Rightarrow> u8 \<Rightarrow> ft \<Rightarrow> (isc_result \<times> ft) option" where
  "ft_escdecimal_case downcase c st =
     (if \<not> digitchar c then Some (DNS_R_BADESCAPE, st)
      else
        let st = st\<lparr>f_value := 10 * f_value st + unat (c - 0x30), f_digits := f_digits st + 1\<rparr>
        in if f_digits st = 3
           then (if f_value st > 255 then Some (DNS_R_BADESCAPE, st)
                 else ft_char downcase (of_nat (f_value st)) st)
           else Some (ISC_R_SUCCESS, st))"

definition ft_escape_case :: "bool \<Rightarrow> u8 \<Rightarrow> ft \<Rightarrow> (isc_result \<times> ft) option" where
  "ft_escape_case downcase c st =
     (if \<not> digitchar c then ft_char downcase c st
      else ft_escdecimal_case downcase c (st\<lparr>f_digits := 0, f_value := 0, f_state := ft_escdecimal\<rparr>))"

definition ft_initialescape_case :: "bool \<Rightarrow> u8 \<Rightarrow> ft \<Rightarrow> (isc_result \<times> ft) option" where
  "ft_initialescape_case downcase c st =
     (if c = 0x5b then Some (DNS_R_BADLABELTYPE, st)
      else ft_escape_case downcase c (st\<lparr>f_state := ft_escape\<rparr>))"

text \<open>\<open>tlen\<close> is what is left of the text after \<open>c\<close>.\<close>

definition ft_ordinary_case :: "bool \<Rightarrow> u8 \<Rightarrow> nat \<Rightarrow> ft \<Rightarrow> (isc_result \<times> ft) option" where
  "ft_ordinary_case downcase c tlen st =
     (if c = 0x2e then
        (if f_count st = 0 then Some (DNS_R_EMPTYLABEL, st)
         else do {
           label \<leftarrow> f_label st;
           m \<leftarrow> poke (f_mem st) label (of_nat (f_count st));
           let st = st\<lparr>f_mem := m, f_labels := f_labels st + 1\<rparr>;
           INSIST (f_labels st < DNS_NAME_MAXLABELS);
           os \<leftarrow> poke (f_offsets st) (f_labels st) (of_nat (f_nused st));
           let st = st\<lparr>f_offsets := os\<rparr>;
           st \<leftarrow> (if tlen = 0 then do {
                     st \<leftarrow> ft_put 0 (st\<lparr>f_labels := f_labels st + 1\<rparr>);
                     Some (st\<lparr>f_done := True\<rparr>)
                   }
                   else Some st);
           Some (ISC_R_SUCCESS, st\<lparr>f_state := ft_start\<rparr>)
         })
      else if c = 0x5c then Some (ISC_R_SUCCESS, st\<lparr>f_state := ft_escape\<rparr>)
      else ft_char downcase c st)"

definition ft_start_case :: "bool \<Rightarrow> u8 \<Rightarrow> nat \<Rightarrow> ft \<Rightarrow> (isc_result \<times> ft) option" where
  "ft_start_case downcase c tlen st =
     (let st = st\<lparr>f_label := Some (f_ndata st), f_ndata := f_ndata st + 1, f_nrem := usub (f_nrem st) 1,
                  f_nused := f_nused st + 1, f_count := 0\<rparr>
      in if c = 0x5c then Some (ISC_R_SUCCESS, st\<lparr>f_state := ft_initialescape\<rparr>)
      else
        let st = st\<lparr>f_state := ft_ordinary\<rparr>
        in if f_nrem st = 0 then Some (ISC_R_NOSPACE, st) else ft_ordinary_case downcase c tlen st)"

definition ft_init_case :: "bool \<Rightarrow> u8 \<Rightarrow> nat \<Rightarrow> ft \<Rightarrow> (isc_result \<times> ft) option" where
  "ft_init_case downcase c tlen st =
     (if c = 0x2e then
        (if tlen \<noteq> 0 then Some (DNS_R_EMPTYLABEL, st)
         else do {
           st \<leftarrow> ft_put 0 (st\<lparr>f_labels := f_labels st + 1\<rparr>);
           Some (ISC_R_SUCCESS, st\<lparr>f_done := True\<rparr>)
         })
      else if c = 0x40 \<and> tlen = 0 then Some (ISC_R_SUCCESS, st\<lparr>f_state := ft_at\<rparr>)
      else ft_start_case downcase c tlen st)"

definition ft_step :: "bool \<Rightarrow> u8 \<Rightarrow> nat \<Rightarrow> ft \<Rightarrow> (isc_result \<times> ft) option" where
  "ft_step downcase c tlen st =
     (case f_state st of
        ft_init \<Rightarrow> ft_init_case downcase c tlen st
      | ft_start \<Rightarrow> ft_start_case downcase c tlen st
      | ft_ordinary \<Rightarrow> ft_ordinary_case downcase c tlen st
      | ft_initialescape \<Rightarrow> ft_initialescape_case downcase c st
      | ft_escape \<Rightarrow> ft_escape_case downcase c st
      | ft_escdecimal \<Rightarrow> ft_escdecimal_case downcase c st
      | ft_at \<Rightarrow> None)"

text \<open>The loop over the text; the last component is the text that is left.\<close>

fun fromtext_loop :: "bool \<Rightarrow> bytes \<Rightarrow> ft \<Rightarrow> (isc_result \<times> ft \<times> bytes) option" where
  "fromtext_loop downcase [] st = Some (ISC_R_SUCCESS, st, [])"
| "fromtext_loop downcase (c # tdata) st =
     (if f_nrem st > 0 \<and> \<not> f_done st then do {
        (result, st) \<leftarrow> ft_step downcase c (length tdata) st;
        if result \<noteq> ISC_R_SUCCESS then Some (result, st, tdata)
        else fromtext_loop downcase tdata st
      }
      else Some (ISC_R_SUCCESS, st, c # tdata))"

text \<open>Appending the labels of the origin, \<open>n1\<close> octets from \<open>pos\<close> of its data.\<close>

function origin_loop :: "bool \<Rightarrow> bytes \<Rightarrow> nat \<Rightarrow> nat \<Rightarrow> ft \<Rightarrow> ft option" where
  "origin_loop downcase nd pos n1 st =
     (if n1 = 0 then Some st
      else do {
        n \<leftarrow> peek nd pos;
        let n2 = unat n;
        INSIST (n2 \<le> DNS_NAME_LABELLEN);
        m \<leftarrow> poke (f_mem st) (f_ndata st) n;
        let n1 = usub n1 (n2 + 1);
        v \<leftarrow> fetch nd (pos + 1) n2;
        m \<leftarrow> blit m (f_ndata st + 1) (if downcase then map isc_ascii_tolower v else v);
        let st = st\<lparr>f_mem := m, f_ndata := f_ndata st + 1 + n2, f_nused := f_nused st + (n2 + 1),
                    f_labels := f_labels st + 1\<rparr>;
        st \<leftarrow> (if n1 > 0 then do {
                  INSIST (f_labels st < DNS_NAME_MAXLABELS);
                  os \<leftarrow> poke (f_offsets st) (f_labels st) (of_nat (f_nused st));
                  Some (st\<lparr>f_offsets := os\<rparr>)
                }
                else Some st);
        origin_loop downcase nd (pos + 1 + n2) n1 st
      })"
  by pat_completeness auto
termination
  by (relation "measure (\<lambda>(downcase, nd, pos, n1, st). length nd - pos)") (auto simp: peek_eq_Some)

declare origin_loop.simps [simp del]

text \<open>After the loop, when it has not met the final dot.\<close>

definition fromtext_finish :: "bool \<Rightarrow> dns_name option \<Rightarrow> bytes \<Rightarrow> ft \<Rightarrow> (isc_result \<times> ft) option" where
  "fromtext_finish downcase origin tdata st =
     (if f_nrem st = 0 then Some (ISC_R_NOSPACE, st)
      else do {
        INSIST (tdata = []);
        if f_state st \<noteq> ft_ordinary \<and> f_state st \<noteq> ft_at then Some (ISC_R_UNEXPECTEDEND, st)
        else do {
          st \<leftarrow> (if f_state st = ft_ordinary then do {
                    INSIST (f_count st \<noteq> 0);
                    INSIST (f_label st \<noteq> None);
                    label \<leftarrow> f_label st;
                    m \<leftarrow> poke (f_mem st) label (of_nat (f_count st));
                    let st = st\<lparr>f_mem := m, f_labels := f_labels st + 1\<rparr>;
                    INSIST (f_labels st < DNS_NAME_MAXLABELS);
                    os \<leftarrow> poke (f_offsets st) (f_labels st) (of_nat (f_nused st));
                    Some (st\<lparr>f_offsets := os\<rparr>)
                  }
                  else Some st);
          case origin of
            None \<Rightarrow> Some (ISC_R_SUCCESS, st)
          | Some origin \<Rightarrow>
              if f_nrem st < n_length origin then Some (ISC_R_NOSPACE, st)
              else do {
                st \<leftarrow> origin_loop downcase (ndata origin) 0 (n_length origin) st;
                Some (ISC_R_SUCCESS, st)
              }
        }
      })"

definition dns_name_fromtext ::
  "dns_name \<Rightarrow> isc_buffer \<Rightarrow> dns_name option \<Rightarrow> u32 \<Rightarrow> isc_buffer option \<Rightarrow>
   (isc_result \<times> dns_name \<times> isc_buffer \<times> isc_buffer option) option" where
  "dns_name_fromtext name source origin options target = do {
     REQUIRE (VALID_NAME name);
     REQUIRE (ISC_BUFFER_VALID source);
     t \<leftarrow> pick_target name target;
     let downcase = (options AND DNS_NAME_DOWNCASE \<noteq> 0);
     REQUIRE (BINDABLE name);
     os \<leftarrow> poke (case offsets name of Some os \<Rightarrow> os | None \<Rightarrow> odata) 0 0;
     let name = MAKE_EMPTY name;
     tdata \<leftarrow> fetch (b_base source) (b_current source) (isc_buffer_remaininglength source);
     let nrem = min DNS_NAME_MAXWIRE (isc_buffer_availablelength t);
     (result, st, rest) \<leftarrow> fromtext_loop downcase tdata
        \<lparr>f_mem = b_base t, f_offsets = os, f_state = ft_init, f_label = None, f_ndata = b_used t, f_nrem = nrem,
         f_nused = 0, f_labels = 0, f_count = 0, f_value = 0, f_digits = 0, f_done = False\<rparr>;
     (result, st) \<leftarrow>
       (if result \<noteq> ISC_R_SUCCESS \<or> f_done st then Some (result, st)
        else fromtext_finish downcase origin rest st);
     let name = (if offsets name = None then name else name\<lparr>offsets := Some (f_offsets st)\<rparr>);
     if result \<noteq> ISC_R_SUCCESS
     then let (name, target) = put_target name target (t\<lparr>b_base := f_mem st\<rparr>)
          in Some (result, name, source, target)
     else do {
       let absolute = (f_done st \<or> (case origin of None \<Rightarrow> False | Some origin \<Rightarrow> is_absolute origin));
       let name = (if absolute then set_absolute True name else name)
          \<lparr>ndata := drop (b_used t) (f_mem st), n_length := f_nused st, labels := f_labels st\<rparr>;
       source \<leftarrow> isc_buffer_forward source (length tdata - length rest);
       t \<leftarrow> isc_buffer_add (t\<lparr>b_base := f_mem st\<rparr>) (n_length name);
       let (name, target) = put_target name target t
       in Some (ISC_R_SUCCESS, name, source, target)
     }
   }"

section \<open>The machine without its memory\<close>

text \<open>
  The state of the machine is the labels that are complete and, in \<open>phase\<close>, what of the next has been read.  The functions
  are those of the code with pointers and counters left out; \<open>room\<close> is the space the target had.
\<close>

datatype phase = P_init | P_start | P_in bytes | P_iesc | P_esc bytes | P_dec bytes nat nat | P_at | P_done

definition fo :: "bool \<Rightarrow> u8 \<Rightarrow> u8" where
  "fo downcase c = (if downcase then isc_ascii_tolower c else c)"

definition a_char :: "bool \<Rightarrow> u8 \<Rightarrow> bytes list \<Rightarrow> bytes \<Rightarrow> isc_result + bytes list \<times> phase" where
  "a_char dc c ls l = (if length l \<ge> 63 then Inl DNS_R_LABELTOOLONG else Inr (ls, P_in (l @ [fo dc c])))"

definition a_dec :: "bool \<Rightarrow> u8 \<Rightarrow> bytes list \<Rightarrow> bytes \<Rightarrow> nat \<Rightarrow> nat \<Rightarrow> isc_result + bytes list \<times> phase" where
  "a_dec dc c ls l v d =
     (if \<not> digitchar c then Inl DNS_R_BADESCAPE
      else let v = 10 * v + unat (c - 0x30)
           in if d + 1 = 3 then (if v > 255 then Inl DNS_R_BADESCAPE else a_char dc (of_nat v) ls l)
              else Inr (ls, P_dec l v (d + 1)))"

definition a_esc :: "bool \<Rightarrow> u8 \<Rightarrow> bytes list \<Rightarrow> bytes \<Rightarrow> isc_result + bytes list \<times> phase" where
  "a_esc dc c ls l = (if \<not> digitchar c then a_char dc c ls l else a_dec dc c ls l 0 0)"

definition a_ord :: "bool \<Rightarrow> u8 \<Rightarrow> nat \<Rightarrow> bytes list \<Rightarrow> bytes \<Rightarrow> isc_result + bytes list \<times> phase" where
  "a_ord dc c tlen ls l =
     (if c = 0x2e then
        (if l = [] then Inl DNS_R_EMPTYLABEL
         else if tlen = 0 then Inr (ls @ [l, []], P_done) else Inr (ls @ [l], P_start))
      else if c = 0x5c then Inr (ls, P_esc l)
      else a_char dc c ls l)"

definition a_start :: "bool \<Rightarrow> nat \<Rightarrow> u8 \<Rightarrow> nat \<Rightarrow> bytes list \<Rightarrow> isc_result + bytes list \<times> phase" where
  "a_start dc room c tlen ls =
     (if c = 0x5c then Inr (ls, P_iesc)
      else if room = length (wire ls) + 1 then Inl ISC_R_NOSPACE
      else a_ord dc c tlen ls [])"

fun a_step :: "bool \<Rightarrow> nat \<Rightarrow> u8 \<Rightarrow> nat \<Rightarrow> bytes list \<times> phase \<Rightarrow> isc_result + bytes list \<times> phase" where
  "a_step dc room c tlen (ls, P_init) =
     (if c = 0x2e then (if tlen \<noteq> 0 then Inl DNS_R_EMPTYLABEL else Inr (ls @ [[]], P_done))
      else if c = 0x40 \<and> tlen = 0 then Inr (ls, P_at)
      else a_start dc room c tlen ls)"
| "a_step dc room c tlen (ls, P_start) = a_start dc room c tlen ls"
| "a_step dc room c tlen (ls, P_in l) = a_ord dc c tlen ls l"
| "a_step dc room c tlen (ls, P_iesc) = (if c = 0x5b then Inl DNS_R_BADLABELTYPE else a_esc dc c ls [])"
| "a_step dc room c tlen (ls, P_esc l) = a_esc dc c ls l"
| "a_step dc room c tlen (ls, P_dec l v d) = a_dec dc c ls l v d"
| "a_step dc room c tlen (ls, P_at) = Inr (ls, P_at)"
| "a_step dc room c tlen (ls, P_done) = Inr (ls, P_done)"

text \<open>The label that is open, and the octets the machine has used.\<close>

fun open_label :: "phase \<Rightarrow> bytes option" where
  "open_label (P_in l) = Some l"
| "open_label P_iesc = Some []"
| "open_label (P_esc l) = Some l"
| "open_label (P_dec l v d) = Some l"
| "open_label _ = None"

definition opened :: "phase \<Rightarrow> nat" where
  "opened ph = (case open_label ph of None \<Rightarrow> 0 | Some l \<Rightarrow> Suc (length l))"

definition used_octets :: "bytes list \<times> phase \<Rightarrow> nat" where
  "used_octets s = length (wire (fst s)) + opened (snd s)"

fun phase_state :: "phase \<Rightarrow> ft_state" where
  "phase_state P_init = ft_init" | "phase_state P_start = ft_start" | "phase_state (P_in l) = ft_ordinary"
| "phase_state P_iesc = ft_initialescape" | "phase_state (P_esc l) = ft_escape"
| "phase_state (P_dec l v d) = ft_escdecimal" | "phase_state P_at = ft_at" | "phase_state P_done = ft_start"

text \<open>The machine of the code, in memory that begins with \<open>pre\<close>, is in the state \<open>(ls, ph)\<close>.\<close>

definition mem_is :: "bytes \<Rightarrow> nat \<Rightarrow> bytes list \<Rightarrow> phase \<Rightarrow> ft \<Rightarrow> bool" where
  "mem_is pre tot ls ph st \<longleftrightarrow> length (f_mem st) = tot \<and>
     (case open_label ph of
        None \<Rightarrow> \<exists>tail. f_mem st = pre @ wire ls @ tail
      | Some l \<Rightarrow> (\<exists>x tail. f_mem st = pre @ wire ls @ x # l @ tail) \<and> f_label st = Some (length pre + length (wire ls)) \<and>
          f_count st = length l)"

definition table_upto :: "bytes \<Rightarrow> bytes list \<Rightarrow> nat \<Rightarrow> bool" where
  "table_upto os ls n \<longleftrightarrow> 128 \<le> length os \<and> (\<forall>i<n. unat (os ! i) = label_off ls i)"

definition ft_rel :: "bytes \<Rightarrow> nat \<Rightarrow> nat \<Rightarrow> bytes list \<times> phase \<Rightarrow> ft \<Rightarrow> bool" where
  "ft_rel pre room tot s st \<longleftrightarrow> (case s of (ls, ph) \<Rightarrow>
     room \<le> 255 \<and> length pre + room \<le> tot \<and> mem_is pre tot ls ph st \<and>
     used_octets s \<le> room \<and> f_nused st = used_octets s \<and> f_ndata st = length pre + used_octets s \<and> f_nrem st = room - used_octets s \<and>
     f_labels st = length ls \<and> f_done st = (ph = P_done) \<and>
     table_upto (f_offsets st) ls (if ph = P_done then length ls else Suc (length ls)) \<and>
     (ph \<noteq> P_done \<longrightarrow> f_state st = phase_state ph \<and> (\<forall>l\<in>set ls. l \<noteq> [] \<and> length l \<le> 63)) \<and>
     (ph = P_done \<longrightarrow> rooted ls \<and> (\<forall>l\<in>set (butlast ls). l \<noteq> [] \<and> length l \<le> 63)) \<and>
     (\<forall>l. open_label ph = Some l \<longrightarrow> length l \<le> 63) \<and>
     (\<forall>l v d. ph = P_dec l v d \<longrightarrow> f_value st = v \<and> f_digits st = d))"

text \<open>\<open>goes\<close>: a step of the code gives what the step of the machine says.\<close>

definition goes :: "bytes \<Rightarrow> nat \<Rightarrow> nat \<Rightarrow> (isc_result \<times> ft) option \<Rightarrow> isc_result + bytes list \<times> phase \<Rightarrow> bool" where
  "goes pre room tot r a \<longleftrightarrow> (\<exists>res st'. r = Some (res, st') \<and> length (f_mem st') = tot \<and> take (length pre) (f_mem st') = pre \<and>
     128 \<le> length (f_offsets st') \<and>
     (case a of Inl e \<Rightarrow> res = e \<and> e \<noteq> ISC_R_SUCCESS | Inr s' \<Rightarrow> res = ISC_R_SUCCESS \<and> ft_rel pre room tot s' st'))"

lemma ft_rel_mem:
  assumes "ft_rel pre room tot s st"
  shows "length (f_mem st) = tot" "take (length pre) (f_mem st) = pre" "128 \<le> length (f_offsets st)"
  using assms by (auto simp: ft_rel_def mem_is_def table_upto_def split: prod.splits option.splits)

lemma goes_error:
  assumes "ft_rel pre room tot s st" "f_mem st' = f_mem st" "f_offsets st' = f_offsets st" "e \<noteq> ISC_R_SUCCESS"
  shows "goes pre room tot (Some (e, st')) (Inl e)"
  using ft_rel_mem [OF assms(1)] assms by (simp add: goes_def)

lemma goes_ok:
  assumes "ft_rel pre room tot s st"
  shows "goes pre room tot (Some (ISC_R_SUCCESS, st)) (Inr s)"
  using ft_rel_mem [OF assms(1)] assms by (simp add: goes_def)

text \<open>A state with an open label: what the cases that add a character rely on.\<close>

lemma ft_char_goes:
  assumes r: "ft_rel pre room tot (ls, ph) st" and l: "open_label ph = Some l" and n: "used_octets (ls, ph) < room"
    and st: "f_mem st' = f_mem st" "f_offsets st' = f_offsets st" "f_label st' = f_label st" "f_ndata st' = f_ndata st"
      "f_nrem st' = f_nrem st" "f_nused st' = f_nused st" "f_labels st' = f_labels st" "f_count st' = f_count st" "f_done st' = f_done st"
  shows "goes pre room tot (ft_char dc c st') (a_char dc c ls l)"
proof (cases "length l \<ge> 63")
  case True
  have "f_count st' = length l" using r l st by (simp add: ft_rel_def mem_is_def)
  then show ?thesis using True goes_error [OF r st(1,2)] by (simp add: ft_char_def a_char_def)
next
  case False
  have nd: "ph \<noteq> P_done" using l by auto
  obtain x tail where m: "f_mem st = pre @ wire ls @ x # l @ tail" "length (f_mem st) = tot" "f_count st = length l"
    "f_label st = Some (length pre + length (wire ls))"
    using r l by (auto simp: ft_rel_def mem_is_def)
  have R: "length pre + room \<le> tot" "f_ndata st = length pre + length (wire ls) + Suc (length l)" "f_nused st = length (wire ls) + Suc (length l)"
    "f_nrem st = room - (length (wire ls) + Suc (length l))" "room \<le> 255"
    using r l by (simp_all add: ft_rel_def used_octets_def opened_def)
  have n': "length (wire ls) + Suc (length l) < room" using n l by (simp add: used_octets_def opened_def)
  then obtain y tail' where t: "tail = y # tail'" using m R by (cases tail) auto
  define m' where "m' = pre @ wire ls @ x # (l @ [fo dc c]) @ tail'"
  have p: "poke (f_mem st) (f_ndata st) (fo dc c) = Some m'"
    unfolding m(1) t R(2) m'_def by (simp add: poke_eq_Some list_update_append)
  define st'' where "st'' = st'\<lparr>f_count := Suc (length l), f_mem := m', f_ndata := Suc (f_ndata st), f_nrem := f_nrem st - 1,
     f_nused := Suc (f_nused st), f_state := ft_ordinary\<rparr>"
  have u: "usub (f_nrem st) (Suc 0) = f_nrem st - 1" using usub_eq [of 1 "f_nrem st"] R n' by simp
  have "ft_char dc c st' = Some (ISC_R_SUCCESS, st'')"
    using False by (simp add: ft_char_def ft_put_def st m(3) fo_def [symmetric] p u st''_def)
  moreover have "ft_rel pre room tot (ls, P_in (l @ [fo dc c])) st''"
    using r m(2,4) R n' nd False l t unfolding m(1)
    by (auto simp: ft_rel_def mem_is_def st''_def st m(1,4) m'_def used_octets_def opened_def)
  ultimately show ?thesis using False goes_ok by (simp add: a_char_def)
qed


lemmas ft_case_defs = ft_escdecimal_case_def ft_escape_case_def ft_initialescape_case_def ft_ordinary_case_def
  ft_start_case_def ft_init_case_def
lemmas a_defs = a_dec_def a_esc_def a_ord_def a_start_def

lemma ft_dec_goes:
  assumes r: "ft_rel pre room tot (ls, ph) st" and l: "open_label ph = Some l" and n: "used_octets (ls, ph) < room"
    and st: "f_mem st' = f_mem st" "f_offsets st' = f_offsets st" "f_label st' = f_label st" "f_ndata st' = f_ndata st"
      "f_nrem st' = f_nrem st" "f_nused st' = f_nused st" "f_labels st' = f_labels st" "f_count st' = f_count st" "f_done st' = f_done st"
    and v: "f_state st' = ft_escdecimal" "f_value st' = v" "f_digits st' = d"
  shows "goes pre room tot (ft_escdecimal_case dc c st') (a_dec dc c ls l v d)"
proof -
  define w where "w = 10 * v + unat (c - 0x30)"
  define st2 where "st2 = st'\<lparr>f_value := w, f_digits := d + 1\<rparr>"
  have e: "ft_escdecimal_case dc c st' = (if \<not> digitchar c then Some (DNS_R_BADESCAPE, st')
     else if d + 1 = 3 then (if w > 255 then Some (DNS_R_BADESCAPE, st2) else ft_char dc (of_nat w) st2)
     else Some (ISC_R_SUCCESS, st2))"
    by (simp add: ft_escdecimal_case_def Let_def v st2_def w_def)
  have "goes pre room tot (ft_char dc x st2) (a_char dc x ls l)" for x
    by (rule ft_char_goes [OF r l n]) (simp_all add: st st2_def)
  moreover have "ft_rel pre room tot (ls, P_dec l w (d + 1)) st2"
    using r l v st by (auto simp: ft_rel_def mem_is_def used_octets_def opened_def st2_def)
  moreover have "goes pre room tot (Some (e, st2)) (Inl e)" if "e \<noteq> ISC_R_SUCCESS" for e
    using that by (intro goes_error [OF r]) (simp_all add: st st2_def)
  moreover have "goes pre room tot (Some (e, st')) (Inl e)" if "e \<noteq> ISC_R_SUCCESS" for e
    using that by (intro goes_error [OF r]) (simp_all add: st)
  ultimately show ?thesis unfolding e a_dec_def Let_def w_def [symmetric] by (auto intro: goes_ok)
qed

lemma ft_esc_goes:
  assumes r: "ft_rel pre room tot (ls, ph) st" and l: "open_label ph = Some l" and n: "used_octets (ls, ph) < room"
    and st: "f_mem st' = f_mem st" "f_offsets st' = f_offsets st" "f_label st' = f_label st" "f_ndata st' = f_ndata st"
      "f_nrem st' = f_nrem st" "f_nused st' = f_nused st" "f_labels st' = f_labels st" "f_count st' = f_count st" "f_done st' = f_done st"
  shows "goes pre room tot (ft_escape_case dc c st') (a_esc dc c ls l)"
  using ft_char_goes [OF r l n st] ft_dec_goes [OF r l n, of "st'\<lparr>f_digits := 0, f_value := 0, f_state := ft_escdecimal\<rparr>" 0 0] st
  by (simp add: ft_escape_case_def a_esc_def)

text \<open>A dot ends the open label.\<close>

lemma label_count:
  assumes "\<forall>l\<in>set ls. l \<noteq> []" "length (wire ls) \<le> 255"
  shows "length ls < 128"
  using wire_two_per_label [of ls] assms by auto

lemma table_upto_snoc:
  assumes "table_upto os ls (Suc (length ls))" "length (wire (ls @ [l])) \<le> 255" "length ls < 127"
  shows "table_upto (os[Suc (length ls) := of_nat (length (wire (ls @ [l])))]) (ls @ [l]) (Suc (Suc (length ls)))"
  unfolding table_upto_def
proof (intro conjI allI impI)
  fix i assume i: "i < Suc (Suc (length ls))"
  show "unat (os[Suc (length ls) := of_nat (length (wire (ls @ [l])))] ! i) = label_off (ls @ [l]) i"
  proof (cases "i = Suc (length ls)")
    case True
    have "Suc (length ls) < length os" using assms(1,3) by (simp add: table_upto_def)
    moreover have "unat (of_nat (length (wire (ls @ [l]))) :: u8) = length (wire (ls @ [l]))"
      using assms(2) by (intro unat_of_nat_u8) simp
    ultimately show ?thesis unfolding True label_off_def by (simp only: nth_list_update_eq length_append) simp
  next
    case False
    then show ?thesis using i assms(1) by (auto simp: table_upto_def label_off_def less_Suc_eq)
  qed
qed (use assms(1) in \<open>simp add: table_upto_def\<close>)

lemma ft_dot_goes:
  assumes r: "ft_rel pre room tot (ls, ph) st" and l: "open_label ph = Some l" and n: "used_octets (ls, ph) < room" and st: "f_state st = ft_ordinary"
  shows "goes pre room tot (ft_ordinary_case dc 0x2e tlen st) (a_ord dc 0x2e tlen ls l)"
proof (cases "l = []")
  case True
  have "f_count st = 0" using r l True by (simp add: ft_rel_def mem_is_def)
  then show ?thesis using True goes_error [OF r refl refl] by (simp add: ft_ordinary_case_def a_ord_def)
next
  case False
  have nd: "ph \<noteq> P_done" using l by auto
  obtain x tail where m: "f_mem st = pre @ wire ls @ x # l @ tail" "length (f_mem st) = tot" "f_count st = length l"
    "f_label st = Some (length pre + length (wire ls))"
    using r l by (auto simp: ft_rel_def mem_is_def)
  have R: "length pre + room \<le> tot" "f_ndata st = length pre + length (wire (ls @ [l]))" "f_nused st = length (wire (ls @ [l]))"
    "f_nrem st = room - length (wire (ls @ [l]))" "room \<le> 255" "f_labels st = length ls" "\<not> f_done st"
    "\<forall>l\<in>set ls. l \<noteq> [] \<and> length l \<le> 63" "length l \<le> 63" "table_upto (f_offsets st) ls (Suc (length ls))"
    using r l nd by (simp_all add: ft_rel_def used_octets_def opened_def)
  have n': "length (wire (ls @ [l])) < room" using n l by (simp add: used_octets_def opened_def)
  then obtain y tail' where t: "tail = y # tail'" using m R by (cases tail) auto
  have c: "length ls + 1 < 128" using label_count [of "ls @ [l]"] R(5,8) n' False by simp
  have len: "Suc (length ls) < length (f_offsets st)" using R(10) c by (simp add: table_upto_def)
  define m' where "m' = pre @ wire (ls @ [l]) @ tail"
  have p: "poke (f_mem st) (length pre + length (wire ls)) (of_nat (length l)) = Some m'"
    unfolding m(1) m'_def by (simp add: poke_eq_Some list_update_append)
  define os where "os = (f_offsets st)[Suc (length ls) := of_nat (length (wire (ls @ [l])))]"
  have tb: "table_upto os (ls @ [l]) (Suc (Suc (length ls)))"
    unfolding os_def using n' R(5,10) c by (intro table_upto_snoc) auto
  define m'' where "m'' = pre @ wire (ls @ [l, []]) @ tail'"
  have p2: "poke m' (length pre + length (wire (ls @ [l]))) 0 = Some m''"
    unfolding m'_def m''_def t by (simp add: poke_eq_Some list_update_append)
  have u: "usub (f_nrem st) (Suc 0) = f_nrem st - 1" using usub_eq [of 1 "f_nrem st"] R n' by simp
  have lm: "length m' = tot" "length m'' = tot" using m(2) unfolding m(1) m'_def m''_def t by auto
  have po: "poke (f_offsets st) (Suc (length ls)) (of_nat (f_nused st)) = Some os"
    using len by (simp add: os_def R(3))
  show ?thesis
  proof (cases "tlen = 0")
    case True
    define st2 where "st2 = st\<lparr>f_offsets := os, f_labels := Suc (Suc (length ls)), f_mem := m'', f_ndata := Suc (f_ndata st),
      f_nrem := f_nrem st - 1, f_nused := Suc (f_nused st), f_done := True, f_state := ft_start\<rparr>"
    have "ft_ordinary_case dc 0x2e tlen st = Some (ISC_R_SUCCESS, st2)"
      using False True c
      by (simp add: ft_ordinary_case_def m(3,4) p R(6) po Let_def ft_put_def R(2) p2 [simplified] u st2_def)
    moreover have "ft_rel pre room tot (ls @ [l, []], P_done) st2"
      using R n' lm tb False
      by (auto simp: ft_rel_def mem_is_def st2_def m''_def used_octets_def opened_def rooted_def table_upto_def label_off_def butlast_append less_Suc_eq)
    ultimately show ?thesis using False True goes_ok by (simp add: a_ord_def)
  next
    case tl: False
    define st2 where "st2 = st\<lparr>f_mem := m', f_labels := Suc (length ls), f_offsets := os, f_state := ft_start\<rparr>"
    have "ft_ordinary_case dc 0x2e tlen st = Some (ISC_R_SUCCESS, st2)"
      using False tl c by (simp add: ft_ordinary_case_def m(3,4) p R(6) po Let_def st2_def)
    moreover have "ft_rel pre room tot (ls @ [l], P_start) st2"
      using R n' lm tb False by (auto simp: ft_rel_def mem_is_def st2_def m'_def used_octets_def opened_def)
    ultimately show ?thesis using False tl goes_ok by (simp add: a_ord_def)
  qed
qed


lemma ft_ord_goes:
  assumes r: "ft_rel pre room tot (ls, ph) st" and l: "open_label ph = Some l" and n: "used_octets (ls, ph) < room" and st: "f_state st = ft_ordinary"
  shows "goes pre room tot (ft_ordinary_case dc c tlen st) (a_ord dc c tlen ls l)"
proof -
  consider "c = 0x2e" | "c = 0x5c" | "c \<noteq> 0x2e" "c \<noteq> 0x5c" by blast
  then show ?thesis
  proof cases
    case 2
    have "ft_rel pre room tot (ls, P_esc l) (st\<lparr>f_state := ft_escape\<rparr>)"
      using r l by (auto simp: ft_rel_def mem_is_def used_octets_def opened_def)
    then show ?thesis using 2 goes_ok by (simp add: ft_ordinary_case_def a_ord_def)
  next
    case 3
    have "goes pre room tot (ft_char dc c st) (a_char dc c ls l)" by (rule ft_char_goes [OF r l n]) simp_all
    then show ?thesis using 3 by (simp add: ft_ordinary_case_def a_ord_def)
  qed (use ft_dot_goes [OF r l n st] in simp)
qed

lemma ft_start_goes:
  assumes r: "ft_rel pre room tot (ls, ph) st" and ph: "open_label ph = None" "ph \<noteq> P_done" and n: "used_octets (ls, ph) < room"
  shows "goes pre room tot (ft_start_case dc c tlen st) (a_start dc room c tlen ls)"
proof -
  define st1 where "st1 s = st\<lparr>f_label := Some (f_ndata st), f_ndata := Suc (f_ndata st), f_nrem := f_nrem st - 1,
                  f_nused := Suc (f_nused st), f_count := 0, f_state := s\<rparr>" for s
  obtain tail where m: "f_mem st = pre @ wire ls @ tail" "length (f_mem st) = tot"
    using r ph by (auto simp: ft_rel_def mem_is_def)
  have R: "length pre + room \<le> tot" "f_ndata st = length pre + length (wire ls)" "f_nused st = length (wire ls)"
    "f_nrem st = room - length (wire ls)" "room \<le> 255"
    using r ph by (simp_all add: ft_rel_def used_octets_def opened_def)
  have n': "length (wire ls) < room" using n ph by (simp add: used_octets_def opened_def)
  then obtain x tail' where t: "tail = x # tail'" using m R by (cases tail) auto
  have u: "usub (f_nrem st) (Suc 0) = f_nrem st - 1" using usub_eq [of 1 "f_nrem st"] R n' by simp
  have z: "f_nrem st - 1 = 0 \<longleftrightarrow> room = length (wire ls) + 1" using R n' by auto
  have e: "ft_start_case dc c tlen st = (if c = 0x5c then Some (ISC_R_SUCCESS, st1 ft_initialescape)
     else if room = length (wire ls) + 1 then Some (ISC_R_NOSPACE, st1 ft_ordinary) else ft_ordinary_case dc c tlen (st1 ft_ordinary))"
    using z by (simp add: ft_start_case_def st1_def u Let_def)
  have rel: "ft_rel pre room tot (ls, P_iesc) (st1 ft_initialescape)" "ft_rel pre room tot (ls, P_in []) (st1 ft_ordinary)"
    using r ph n' m by (auto simp: ft_rel_def mem_is_def st1_def used_octets_def opened_def t)
  have "goes pre room tot (ft_ordinary_case dc c tlen (st1 ft_ordinary)) (a_ord dc c tlen ls [])"
    if "room \<noteq> length (wire ls) + 1"
    using that n' by (intro ft_ord_goes [OF rel(2)]) (simp_all add: used_octets_def opened_def st1_def)
  moreover have "goes pre room tot (Some (ISC_R_NOSPACE, st1 ft_ordinary)) (Inl ISC_R_NOSPACE)"
    by (rule goes_error [OF rel(2)]) simp_all
  ultimately show ?thesis unfolding e a_start_def using goes_ok [OF rel(1)] by auto
qed

lemma ft_root_goes:
  assumes r: "ft_rel pre room tot (ls, P_init) st" and e: "ls = []" and n: "used_octets (ls, P_init) < room"
  shows "\<exists>st'. ft_put 0 (st\<lparr>f_labels := Suc (f_labels st)\<rparr>) = Some st' \<and> ft_rel pre room tot ([[]], P_done) (st'\<lparr>f_done := True\<rparr>)"
proof -
  obtain tail where m: "f_mem st = pre @ tail" "length (f_mem st) = tot"
    using r e by (auto simp: ft_rel_def mem_is_def)
  have R: "length pre + room \<le> tot" "f_ndata st = length pre" "f_nused st = 0"
    "f_nrem st = room" "room \<le> 255" "0 < room"
    using r n e by (simp_all add: ft_rel_def used_octets_def opened_def)
  then obtain x tail' where t: "tail = x # tail'" using m by (cases tail) auto
  have p: "poke (f_mem st) (f_ndata st) 0 = Some (pre @ 0 # tail')"
    unfolding m t R(2) by (simp add: poke_eq_Some list_update_append)
  have u: "usub (f_nrem st) (Suc 0) = f_nrem st - 1" using usub_eq [of 1 "f_nrem st"] R by simp
  define st2 where "st2 = st\<lparr>f_labels := Suc (f_labels st), f_mem := pre @ 0 # tail', f_ndata := Suc (f_ndata st),
    f_nrem := f_nrem st - 1, f_nused := Suc (f_nused st)\<rparr>"
  have "ft_put 0 (st\<lparr>f_labels := Suc (f_labels st)\<rparr>) = Some st2"
    by (simp add: ft_put_def p u st2_def)
  moreover have "ft_rel pre room tot ([[]], P_done) (st2\<lparr>f_done := True\<rparr>)"
    using r e R m(2) by (auto simp: m(1) t st2_def ft_rel_def mem_is_def used_octets_def opened_def rooted_def table_upto_def)
  ultimately show ?thesis by blast
qed

text \<open>One step: the code does what the machine does.\<close>

lemma ft_step_goes:
  assumes r: "ft_rel pre room tot (ls, ph) st" and n: "used_octets (ls, ph) < room" and ph: "ph \<noteq> P_at" "ph \<noteq> P_done" "ph = P_init \<Longrightarrow> ls = []"
  shows "goes pre room tot (ft_step dc c tlen st) (a_step dc room c tlen (ls, ph))"
proof -
  have st: "f_state st = phase_state ph" using r ph by (simp add: ft_rel_def)
  show ?thesis
  proof (cases ph)
    case P_init
    have at: "ft_rel pre room tot (ls, P_at) (st\<lparr>f_state := ft_at\<rparr>)"
      using r P_init by (auto simp: ft_rel_def mem_is_def used_octets_def opened_def)
    obtain st' where root: "ft_put 0 (st\<lparr>f_labels := Suc (f_labels st)\<rparr>) = Some st'" "ft_rel pre room tot ([[]], P_done) (st'\<lparr>f_done := True\<rparr>)"
      using ft_root_goes [of pre room tot ls st] r n P_init ph by auto
    have "goes pre room tot (ft_start_case dc c tlen st) (a_start dc room c tlen ls)"
      using n P_init by (intro ft_start_goes [OF r]) auto
    then show ?thesis
      using st P_init ph goes_ok [OF at] goes_ok [OF root(2)] goes_error [OF r refl refl]
      by (simp add: ft_step_def ft_init_case_def root(1))
  next
    case P_start
    then show ?thesis using st ft_start_goes [OF r _ _ n] by (simp add: ft_step_def)
  next
    case (P_in l)
    then show ?thesis using st ft_ord_goes [OF r _ n, of l] by (simp add: ft_step_def)
  next
    case P_iesc
    have "goes pre room tot (ft_escape_case dc c (st\<lparr>f_state := ft_escape\<rparr>)) (a_esc dc c ls [])"
      using P_iesc by (intro ft_esc_goes [OF r _ n]) simp_all
    then show ?thesis
      using st P_iesc goes_error [OF r refl refl] by (simp add: ft_step_def ft_initialescape_case_def)
  next
    case (P_esc l)
    have "goes pre room tot (ft_escape_case dc c st) (a_esc dc c ls l)"
      using P_esc by (intro ft_esc_goes [OF r _ n]) simp_all
    then show ?thesis using st P_esc by (simp add: ft_step_def)
  next
    case (P_dec l v d)
    have "goes pre room tot (ft_escdecimal_case dc c st) (a_dec dc c ls l v d)"
      using P_dec st r by (intro ft_dec_goes [OF r _ n]) (simp_all add: ft_rel_def)
    then show ?thesis using st P_dec by (simp add: ft_step_def)
  qed (use ph in auto)
qed


fun a_loop :: "bool \<Rightarrow> nat \<Rightarrow> bytes \<Rightarrow> bytes list \<times> phase \<Rightarrow> isc_result + (bytes list \<times> phase) \<times> bytes" where
  "a_loop dc room [] s = Inr (s, [])"
| "a_loop dc room (c # cs) s =
     (if used_octets s < room \<and> snd s \<noteq> P_done then
        (case a_step dc room c (length cs) s of Inl e \<Rightarrow> Inl e | Inr s' \<Rightarrow> a_loop dc room cs s')
      else Inr (s, c # cs))"

lemma a_step_shape:
  assumes "a_step dc room c n s = Inr s'"
  shows "snd s' \<noteq> P_init" "snd s \<noteq> P_at \<Longrightarrow> snd s' = P_at \<Longrightarrow> n = 0" "snd s \<noteq> P_done \<Longrightarrow> snd s' = P_done \<Longrightarrow> n = 0"
proof -
  obtain ls ph where s: "s = (ls, ph)" by fastforce
  have "snd s' \<noteq> P_init \<and> (snd s \<noteq> P_at \<longrightarrow> snd s' = P_at \<longrightarrow> n = 0) \<and> (snd s \<noteq> P_done \<longrightarrow> snd s' = P_done \<longrightarrow> n = 0)"
    using assms unfolding s
    by (cases ph) (auto simp: a_defs a_char_def Let_def split: if_splits)
  then show "snd s' \<noteq> P_init" "snd s \<noteq> P_at \<Longrightarrow> snd s' = P_at \<Longrightarrow> n = 0" "snd s \<noteq> P_done \<Longrightarrow> snd s' = P_done \<Longrightarrow> n = 0" by auto
qed

lemma fromtext_loop_runs:
  assumes "ft_rel pre room tot s st" "snd s = P_at \<Longrightarrow> tx = []" "snd s = P_init \<Longrightarrow> fst s = []"
  shows "\<exists>res st' rest. fromtext_loop dc tx st = Some (res, st', rest) \<and> length (f_mem st') = tot \<and>
     take (length pre) (f_mem st') = pre \<and> 128 \<le> length (f_offsets st') \<and>
     (case a_loop dc room tx s of
        Inl e \<Rightarrow> res = e \<and> e \<noteq> ISC_R_SUCCESS
      | Inr (s', rest') \<Rightarrow> res = ISC_R_SUCCESS \<and> rest = rest' \<and> ft_rel pre room tot s' st')"
  using assms
proof (induction tx arbitrary: s st)
  case Nil
  then show ?case using ft_rel_mem [OF Nil.prems(1)] by simp
next
  case (Cons c cs)
  obtain ls ph where s: "s = (ls, ph)" by fastforce
  have go: "f_nrem st > 0 \<and> \<not> f_done st \<longleftrightarrow> used_octets s < room \<and> ph \<noteq> P_done"
    using Cons.prems(1) s by (auto simp: ft_rel_def)
  show ?case
  proof (cases "used_octets s < room \<and> ph \<noteq> P_done")
    case False
    then have "fromtext_loop dc (c # cs) st = Some (ISC_R_SUCCESS, st, c # cs)" "a_loop dc room (c # cs) s = Inr (s, c # cs)"
      using go s by auto
    then show ?thesis using Cons.prems(1) ft_rel_mem [OF Cons.prems(1)] by simp
  next
    case True
    have "goes pre room tot (ft_step dc c (length cs) st) (a_step dc room c (length cs) (ls, ph))"
      using True Cons.prems s by (intro ft_step_goes) auto
    then obtain res st' where g: "ft_step dc c (length cs) st = Some (res, st')" "length (f_mem st') = tot"
      "take (length pre) (f_mem st') = pre" "128 \<le> length (f_offsets st')"
      "case a_step dc room c (length cs) s of Inl e \<Rightarrow> res = e \<and> e \<noteq> ISC_R_SUCCESS | Inr s' \<Rightarrow> res = ISC_R_SUCCESS \<and> ft_rel pre room tot s' st'"
      by (auto simp: goes_def s)
    show ?thesis
    proof (cases "a_step dc room c (length cs) s")
      case (Inl e)
      then show ?thesis using g True go s by simp
    next
      case (Inr s')
      have r: "res = ISC_R_SUCCESS" "ft_rel pre room tot s' st'" using g(5) Inr by auto
      have at: "snd s \<noteq> P_at" using Cons.prems(2) by auto
      from Cons.IH [OF r(2)] a_step_shape(1) [OF Inr] a_step_shape(2) [OF Inr at] obtain res2 st2 rest where
        "fromtext_loop dc cs st' = Some (res2, st2, rest) \<and> length (f_mem st2) = tot \<and>
         take (length pre) (f_mem st2) = pre \<and> 128 \<le> length (f_offsets st2) \<and>
         (case a_loop dc room cs s' of
            Inl e \<Rightarrow> res2 = e \<and> e \<noteq> ISC_R_SUCCESS
          | Inr (s', rest') \<Rightarrow> res2 = ISC_R_SUCCESS \<and> rest = rest' \<and> ft_rel pre room tot s' st2)" by auto
      then show ?thesis using g(1) r(1) True go Inr s by simp
    qed
  qed
qed

section \<open>The end of the text, and the origin\<close>

definition closed_rel :: "bytes \<Rightarrow> nat \<Rightarrow> bytes list \<Rightarrow> ft \<Rightarrow> bool" where
  "closed_rel pre tot ls st \<longleftrightarrow> length (f_mem st) = tot \<and> (\<exists>tail. f_mem st = pre @ wire ls @ tail) \<and>
     f_nused st = length (wire ls) \<and> f_ndata st = length pre + length (wire ls) \<and> f_labels st = length ls \<and>
     table_upto (f_offsets st) ls (length ls)"

lemma table_upto_less: "table_upto os ls n \<Longrightarrow> m \<le> n \<Longrightarrow> table_upto os ls m"
  by (simp add: table_upto_def)

lemma table_upto_more:
  "table_upto os ls (Suc (length ls)) \<Longrightarrow> table_upto os (ls @ [l]) (length (ls @ [l]))"
  by (auto simp: table_upto_def label_off_def less_Suc_eq)

lemma wire_fold: "length (wire (map (map f) ls)) = length (wire ls)"
  by (induction ls) auto

lemma origin_loop_runs:
  assumes "closed_rel pre tot ls st" "lo \<noteq> [] \<Longrightarrow> table_upto (f_offsets st) ls (Suc (length ls))"
    "drop pos nd = wire lo @ rest" "\<forall>l\<in>set ls. l \<noteq> []" "labels_ok lo"
    "length (wire (ls @ lo)) \<le> 255" "length pre + length (wire (ls @ lo)) \<le> tot"
  shows "\<exists>st'. origin_loop dc nd pos (length (wire lo)) st = Some st' \<and> closed_rel pre tot (ls @ map (map (fo dc)) lo) st' \<and> f_done st' = f_done st"
  using assms
proof (induction lo arbitrary: ls st pos)
  case Nil
  then show ?case by (subst origin_loop.simps) simp
next
  case (Cons l lo)
  have l: "length l \<le> 63" "lo \<noteq> [] \<Longrightarrow> l \<noteq> []" "labels_ok lo" using labels_ok_Cons [OF Cons.prems(5)] by auto
  have pos: "pos < length nd" "nd ! pos = of_nat (length l)" "drop (Suc pos) nd = l @ wire lo @ rest"
  proof -
    show p: "pos < length nd" using Cons.prems(3) by (cases "pos < length nd") auto
    have "drop pos nd = nd ! pos # drop (Suc pos) nd" using p by (rule Cons_nth_drop_Suc [symmetric])
    then show "nd ! pos = of_nat (length l)" "drop (Suc pos) nd = l @ wire lo @ rest" using Cons.prems(3) by auto
  qed
  have n2: "unat (nd ! pos) = length l" using pos(2) l(1) by simp
  have f: "fetch nd (Suc pos) (length l) = Some l"
  proof -
    have "length (drop (Suc pos) nd) \<ge> length l" unfolding pos(3) by simp
    then have "Suc pos + length l \<le> length nd" using pos(1) unfolding length_drop by linarith
    then show ?thesis using pos(3) by (simp add: fetch_eq_Some)
  qed
  obtain tail where m: "f_mem st = pre @ wire ls @ tail" "length (f_mem st) = tot" "f_nused st = length (wire ls)"
     "f_ndata st = length pre + length (wire ls)" "f_labels st = length ls"
    using Cons.prems(1) by (auto simp: closed_rel_def)
  have "length (wire (l # lo)) \<le> length tail" using Cons.prems(7) m(1,2) by simp
  then obtain x tail' where t: "tail = x # tail'" "length l \<le> length tail'" by (cases tail) auto
  let ?l = "map (fo dc) l"
  define m1 where "m1 = pre @ wire ls @ of_nat (length l) # tail'"
  define m2 where "m2 = pre @ wire (ls @ [?l]) @ drop (length l) tail'"
  have p: "poke (f_mem st) (f_ndata st) (nd ! pos) = Some m1"
    unfolding m t(1) m1_def pos(2) by (simp add: poke_eq_Some list_update_append)
  have b: "blit m1 (Suc (f_ndata st)) (if dc then map isc_ascii_tolower l else l) = Some m2"
  proof -
    have "(if dc then map isc_ascii_tolower l else l) = ?l" by (cases dc) (simp_all add: fo_def [abs_def])
    then show ?thesis unfolding m m1_def m2_def using t(2) by (simp add: blit_eq_Some)
  qed
  have u: "usub (length (wire (l # lo))) (Suc (length l)) = length (wire lo)"
    using usub_eq [of "Suc (length l)" "length (wire (l # lo))"] Cons.prems(6) by simp
  define st1 where "st1 = st\<lparr>f_mem := m2, f_ndata := Suc (f_ndata st + length l), f_nused := Suc (f_nused st + length l),
      f_labels := Suc (f_labels st)\<rparr>"
  have lm: "length m2 = tot" using m(1,2) t by (simp add: m2_def)
  have tb: "table_upto (f_offsets st) ls (Suc (length ls))" using Cons.prems(2) by simp
  have c1: "closed_rel pre tot (ls @ [?l]) st1"
    using m lm table_upto_more [OF tb] by (auto simp: closed_rel_def st1_def m2_def)
  show ?case
  proof (cases "lo = []")
    case True
    have "origin_loop dc nd pos (length (wire (l # lo))) st = Some st1"
      using True l(1) u
      by (subst origin_loop.simps) (simp add: pos(1) n2 p f b Let_def st1_def, subst origin_loop.simps, simp)
    then show ?thesis using c1 True by (simp add: st1_def)
  next
    case False
    define st2 where "st2 = st1\<lparr>f_offsets := (f_offsets st)[Suc (length ls) := of_nat (length (wire (ls @ [?l])))]\<rparr>"
    have len: "length (wire (ls @ [?l])) < 255" using Cons.prems(6) False by (cases lo) auto
    have "length (ls @ [?l]) < 128" using Cons.prems(4) l(2) False len by (intro label_count) auto
    then have cnt: "length ls < 127" by simp
    have tb2: "table_upto (f_offsets st2) (ls @ [?l]) (Suc (Suc (length ls)))"
      unfolding st2_def using table_upto_snoc [OF tb, of ?l] len cnt by simp
    have c2: "closed_rel pre tot (ls @ [?l]) st2"
      using c1 tb2 by (auto simp: closed_rel_def st2_def intro: table_upto_less)
    have "origin_loop dc nd pos (length (wire (l # lo))) st = origin_loop dc nd (Suc (pos + length l)) (length (wire lo)) st2"
    proof -
      have "Suc (length ls) < length (f_offsets st)" using tb cnt by (simp add: table_upto_def)
      moreover have "wire lo \<noteq> []" using False by (cases lo) auto
      ultimately show ?thesis using l(1) u cnt m(3,5)
        by (subst origin_loop.simps) (simp add: pos(1) n2 p f b Let_def st2_def st1_def)
    qed
    moreover have "\<exists>st'. origin_loop dc nd (Suc (pos + length l)) (length (wire lo)) st2 = Some st' \<and>
        closed_rel pre tot ((ls @ [?l]) @ map (map (fo dc)) lo) st' \<and> f_done st' = f_done st2"
    proof (rule Cons.IH [OF c2])
      show "drop (Suc (pos + length l)) nd = wire lo @ rest"
        using pos(3) by (metis add_Suc append_eq_conv_conj drop_drop add.commute)
    qed (use Cons.prems l False tb2 in auto)
    ultimately show ?thesis by (simp add: st2_def st1_def)
  qed
qed

section \<open>What a text spells\<close>

definition decval :: "bytes \<Rightarrow> nat" where
  "decval ds = foldl (\<lambda>v c. 10 * v + unat (c - 0x30)) 0 ds"

text \<open>
  \<open>chars dc t l\<close>: the text \<open>t\<close> spells the octets \<open>l\<close> of a label: a character for itself, a character after a backslash, or an
  octet as three decimal digits after a backslash.  A label does not begin with \<^verbatim>\<open>\[\<close>.
\<close>

inductive chars :: "bool \<Rightarrow> bytes \<Rightarrow> bytes \<Rightarrow> bool" for dc :: bool where
  chars_Nil: "chars dc [] []"
| chars_plain: "chars dc t l \<Longrightarrow> c \<noteq> 0x2e \<Longrightarrow> c \<noteq> 0x5c \<Longrightarrow> chars dc (t @ [c]) (l @ [fo dc c])"
| chars_escaped: "chars dc t l \<Longrightarrow> \<not> digitchar c \<Longrightarrow> t \<noteq> [] \<or> c \<noteq> 0x5b \<Longrightarrow> chars dc (t @ [0x5c, c]) (l @ [fo dc c])"
| chars_decimal: "chars dc t l \<Longrightarrow> length ds = 3 \<Longrightarrow> \<forall>c\<in>set ds. digitchar c \<Longrightarrow> decval ds \<le> 255 \<Longrightarrow>
    chars dc (t @ 0x5c # ds) (l @ [fo dc (of_nat (decval ds))])"

definition label_text :: "bool \<Rightarrow> bytes \<times> bytes \<Rightarrow> bool" where
  "label_text dc x \<longleftrightarrow> chars dc (fst x) (snd x) \<and> snd x \<noteq> [] \<and> length (snd x) \<le> 63"

definition dotted :: "(bytes \<times> bytes) list \<Rightarrow> bytes" where
  "dotted xs = concat (map (\<lambda>x. fst x @ [0x2e]) xs)"

text \<open>
  \<open>spells dc tx ls dot\<close>: the text spells the labels, and \<open>dot\<close> says that it ends with a dot; \<^verbatim>\<open>@\<close> alone spells no labels.
\<close>

inductive spells :: "bool \<Rightarrow> bytes \<Rightarrow> bytes list \<Rightarrow> bool \<Rightarrow> bool" for dc :: bool where
  spells_root: "spells dc [0x2e] [[]] True"
| spells_at: "spells dc [0x40] [] False"
| spells_absolute: "xs \<noteq> [] \<Longrightarrow> \<forall>x\<in>set xs. label_text dc x \<Longrightarrow> spells dc (dotted xs) (map snd xs @ [[]]) True"
| spells_relative: "\<forall>x\<in>set xs. label_text dc x \<Longrightarrow> label_text dc (t, l) \<Longrightarrow> dotted xs @ t \<noteq> [0x40] \<Longrightarrow>
    spells dc (dotted xs @ t) (map snd xs @ [l]) False"

text \<open>What the machine has read when it is in a state.\<close>

fun reads :: "bool \<Rightarrow> bytes \<Rightarrow> bytes list \<times> phase \<Rightarrow> bool" where
  "reads dc u (ls, P_init) = (u = [] \<and> ls = [])"
| "reads dc u (ls, P_start) = (\<exists>xs. xs \<noteq> [] \<and> (\<forall>x\<in>set xs. label_text dc x) \<and> u = dotted xs \<and> ls = map snd xs)"
| "reads dc u (ls, P_in l) = (\<exists>xs t. (\<forall>x\<in>set xs. label_text dc x) \<and> label_text dc (t, l) \<and> u = dotted xs @ t \<and> ls = map snd xs)"
| "reads dc u (ls, P_iesc) = (\<exists>xs. (\<forall>x\<in>set xs. label_text dc x) \<and> u = dotted xs @ [0x5c] \<and> ls = map snd xs)"
| "reads dc u (ls, P_esc l) = (\<exists>xs t. (\<forall>x\<in>set xs. label_text dc x) \<and> label_text dc (t, l) \<and> u = dotted xs @ t @ [0x5c] \<and> ls = map snd xs)"
| "reads dc u (ls, P_dec l v d) = (\<exists>xs t ds. (\<forall>x\<in>set xs. label_text dc x) \<and> chars dc t l \<and> length ds = d \<and> 0 < d \<and> d < 3 \<and>
     (\<forall>c\<in>set ds. digitchar c) \<and> v = decval ds \<and> u = dotted xs @ t @ 0x5c # ds \<and> ls = map snd xs)"
| "reads dc u (ls, P_at) = (u = [0x40] \<and> ls = [])"
| "reads dc u (ls, P_done) = spells dc u ls True"

lemma dotted_simps [simp]: "dotted [] = []" "dotted (x # xs) = fst x @ 0x2e # dotted xs" "dotted (xs @ ys) = dotted xs @ dotted ys"
  by (simp_all add: dotted_def)

lemma reads_char:
  assumes "a_char dc c ls l = Inr s'" "\<forall>x\<in>set xs. label_text dc x" "chars dc t' (l @ [fo dc c])" "ls = map snd xs"
  shows "reads dc (dotted xs @ t') s'"
  using assms by (auto simp: a_char_def label_text_def split: if_splits intro!: exI [of _ xs] exI [of _ t'])

lemma reads_dec:
  assumes "a_dec dc c ls l v d = Inr s'" "\<forall>x\<in>set xs. label_text dc x" "chars dc t l" "length ds = d" "d < 3" "\<forall>c\<in>set ds. digitchar c"
    "v = decval ds" "ls = map snd xs"
  shows "reads dc (dotted xs @ t @ 0x5c # ds @ [c]) s'"
proof -
  have c: "digitchar c" using assms(1) by (auto simp: a_dec_def split: if_splits)
  have v: "10 * v + unat (c - 0x30) = decval (ds @ [c])" using assms(7) by (simp add: decval_def)
  show ?thesis
  proof (cases "d + 1 = 3")
    case True
    then have "decval (ds @ [c]) \<le> 255" "a_char dc (of_nat (decval (ds @ [c]))) ls l = Inr s'"
      using assms(1) c unfolding a_dec_def Let_def v by (auto split: if_splits)
    moreover from this have "chars dc (t @ 0x5c # (ds @ [c])) (l @ [fo dc (of_nat (decval (ds @ [c])))])"
      using assms(3,4,6) c True by (intro chars_decimal) auto
    ultimately show ?thesis using reads_char [OF _ assms(2) _ assms(8)] by simp
  next
    case False
    then have s: "s' = (ls, P_dec l (decval (ds @ [c])) (Suc d))"
      using assms(1) c unfolding a_dec_def Let_def v by auto
    show ?thesis
      unfolding s reads.simps
      by (rule exI [of _ xs], rule exI [of _ t], rule exI [of _ "ds @ [c]"]) (use assms False c in auto)
  qed
qed

lemma reads_esc:
  assumes "a_esc dc c ls l = Inr s'" "\<forall>x\<in>set xs. label_text dc x" "chars dc t l" "t \<noteq> [] \<or> c \<noteq> 0x5b" "ls = map snd xs"
  shows "reads dc (dotted xs @ t @ [0x5c, c]) s'"
proof (cases "digitchar c")
  case True
  then show ?thesis using reads_dec [of dc c ls l 0 0 s' xs t "[]"] assms by (simp add: a_esc_def decval_def)
next
  case False
  then show ?thesis using assms reads_char [OF _ assms(2) chars_escaped assms(5)] by (simp add: a_esc_def)
qed

lemma reads_ord:
  assumes "a_ord dc c n ls l = Inr s'" "\<forall>x\<in>set xs. label_text dc x" "label_text dc (t, l) \<or> (t = [] \<and> l = [] \<and> c \<noteq> 0x5c)" "ls = map snd xs"
  shows "reads dc (dotted xs @ t @ [c]) s'"
proof -
  have ch: "chars dc t l" using assms(3) by (auto simp: label_text_def intro: chars_Nil)
  consider "c = 0x2e" | "c = 0x5c" | "c \<noteq> 0x2e" "c \<noteq> 0x5c" by blast
  then show ?thesis
  proof cases
    case 1
    then have l: "l \<noteq> []" "s' = (if n = 0 then (ls @ [l, []], P_done) else (ls @ [l], P_start))"
      using assms(1) by (auto simp: a_ord_def split: if_splits)
    then have t: "label_text dc (t, l)" using assms(3) by auto
    have "spells dc (dotted (xs @ [(t, l)])) (map snd (xs @ [(t, l)]) @ [[]]) True"
      using assms(2) t by (intro spells_absolute) auto
    then show ?thesis using l(2) t 1 assms(2,4) by (auto intro!: exI [of _ "xs @ [(t, l)]"])
  next
    case 2
    then have "s' = (ls, P_esc l)" "label_text dc (t, l)" using assms(1,3) by (auto simp: a_ord_def)
    then show ?thesis using 2 assms(2,4) by (auto intro!: exI [of _ xs] exI [of _ t])
  next
    case 3
    then show ?thesis using assms(1) reads_char [OF _ assms(2) chars_plain [OF ch 3] assms(4)] by (simp add: a_ord_def)
  qed
qed

lemma reads_start:
  assumes "a_start dc room c n ls = Inr s'" "\<forall>x\<in>set xs. label_text dc x" "ls = map snd xs"
  shows "reads dc (dotted xs @ [c]) s'"
proof (cases "c = 0x5c")
  case True
  then show ?thesis using assms by (auto simp: a_start_def intro!: exI [of _ xs])
next
  case False
  then show ?thesis
    using assms(1) reads_ord [OF _ assms(2) _ assms(3), of c n "[]" s' "[]"] by (simp add: a_start_def split: if_splits)
qed

lemma reads_step:
  assumes "reads dc u s" "a_step dc room c n s = Inr s'" "snd s \<noteq> P_at" "snd s \<noteq> P_done"
  shows "reads dc (u @ [c]) s'"
proof -
  obtain ls ph where s: "s = (ls, ph)" by fastforce
  show ?thesis
  proof (cases ph)
    case P_init
    show ?thesis
    proof (cases "c = 0x2e \<or> (c = 0x40 \<and> n = 0)")
      case True
      then show ?thesis using assms(1,2) spells_root by (auto simp: s P_init split: if_splits)
    next
      case False
      then show ?thesis using assms(1,2) reads_start [of dc room c n ls s' "[]"] by (auto simp: s P_init split: if_splits)
    qed
  next
    case P_start
    then obtain xs where "\<forall>x\<in>set xs. label_text dc x" "u = dotted xs" "ls = map snd xs" using assms(1) s by auto
    then show ?thesis using assms(2) reads_start [of dc room c n ls s' xs] by (simp add: s P_start)
  next
    case (P_in l)
    then obtain xs t where "\<forall>x\<in>set xs. label_text dc x" "label_text dc (t, l)" "u = dotted xs @ t" "ls = map snd xs"
      using assms(1) s by auto
    then show ?thesis using assms(2) reads_ord [of dc c n ls l s' xs t] by (simp add: s P_in)
  next
    case P_iesc
    then obtain xs where "\<forall>x\<in>set xs. label_text dc x" "u = dotted xs @ [0x5c]" "ls = map snd xs" using assms(1) s by auto
    then show ?thesis using assms(2) reads_esc [of dc c ls "[]" s' xs "[]"] by (auto simp: s P_iesc chars_Nil split: if_splits)
  next
    case (P_esc l)
    then obtain xs t where "\<forall>x\<in>set xs. label_text dc x" "label_text dc (t, l)" "u = dotted xs @ t @ [0x5c]" "ls = map snd xs"
      using assms(1) s by auto
    moreover from this have "t \<noteq> []" by (auto simp: label_text_def elim: chars.cases)
    ultimately show ?thesis using assms(2) reads_esc [of dc c ls l s' xs t] by (simp add: s P_esc label_text_def)
  next
    case (P_dec l v d)
    then obtain xs t ds where "\<forall>x\<in>set xs. label_text dc x" "chars dc t l" "length ds = d" "d < 3"
     "\<forall>c\<in>set ds. digitchar c" "v = decval ds" "u = dotted xs @ t @ 0x5c # ds" "ls = map snd xs" using assms(1) s by auto
    then show ?thesis using assms(2) reads_dec [of dc c ls l v d s' xs t ds] by (simp add: s P_dec)
  qed (use assms(3,4) s in auto)
qed


lemma reads_loop:
  assumes "reads dc u s" "a_loop dc room tx s = Inr (s', rest)" "snd s = P_at \<Longrightarrow> tx = []" "snd s = P_done \<Longrightarrow> tx = []"
  shows "\<exists>v. tx = v @ rest \<and> reads dc (u @ v) s' \<and> (rest = [] \<or> used_octets s' \<ge> room \<and> snd s' \<noteq> P_done)"
  using assms
proof (induction tx arbitrary: u s)
  case (Cons c cs)
  show ?case
  proof (cases "used_octets s < room \<and> snd s \<noteq> P_done")
    case True
    then obtain s1 where s1: "a_step dc room c (length cs) s = Inr s1" "a_loop dc room cs s1 = Inr (s', rest)"
      using Cons.prems(2) by (auto split: sum.splits)
    have at: "snd s \<noteq> P_at" using Cons.prems(3) by auto
    have "reads dc (u @ [c]) s1" using reads_step [OF Cons.prems(1) s1(1) at] True by blast
    from Cons.IH [OF this s1(2)] a_step_shape(2) [OF s1(1) at] a_step_shape(3) [OF s1(1)] True
    obtain v where "cs = v @ rest" "reads dc ((u @ [c]) @ v) s'" "rest = [] \<or> used_octets s' \<ge> room \<and> snd s' \<noteq> P_done" by auto
    then show ?thesis by (intro exI [of _ "c # v"]) simp
  next
    case False
    then have "s' = s" "rest = c # cs" using Cons.prems(2) by (auto split: if_splits)
    moreover have "used_octets s \<ge> room" "snd s \<noteq> P_done" using False Cons.prems(4) by auto
    ultimately show ?thesis using Cons.prems(1) by simp
  qed
qed simp

section \<open>Every text that spells a name is read\<close>

lemma wire_snoc: "length (wire (ls @ [l])) = length (wire ls) + Suc (length l)" by simp

lemma chars_nonempty: "chars dc t l \<Longrightarrow> t = [] \<longleftrightarrow> l = []"
  by (induction rule: chars.induct) auto

lemma first_step:
  assumes "ph = P_start \<or> (ph = P_init \<and> (c # cs) \<noteq> [0x40])" "c \<noteq> 0x2e" "length (wire ls) + 1 < room"
  shows "a_loop dc room (c # cs) (ls, ph) = (case a_start dc room c (length cs) ls of Inl e \<Rightarrow> Inl e | Inr s' \<Rightarrow> a_loop dc room cs s')"
  using assms by (auto simp: used_octets_def opened_def)

lemma a_loop_escape:
  assumes "s = (ls, P_esc l) \<or> (s = (ls, P_iesc) \<and> l = [] \<and> c \<noteq> 0x5b)" "\<not> digitchar c" "length (wire ls) + 1 + length l < room" "length l < 63"
  shows "a_loop dc room (c # rest) s = a_loop dc room rest (ls, P_in (l @ [fo dc c]))"
  using assms by (auto simp: used_octets_def opened_def a_esc_def a_char_def)

lemma a_loop_dec_step:
  assumes "digitchar c" "d + 1 < 3" "length (wire ls) + 1 + length l < room"
  shows "a_loop dc room (c # rest) (ls, P_dec l v d) = a_loop dc room rest (ls, P_dec l (10 * v + unat (c - 0x30)) (d + 1))"
  using assms by (simp add: used_octets_def opened_def a_dec_def Let_def)

lemma a_loop_dec_last:
  assumes "digitchar c" "10 * v + unat (c - 0x30) = w" "w \<le> 255" "length (wire ls) + 1 + length l < room" "length l < 63"
  shows "a_loop dc room (c # rest) (ls, P_dec l v 2) = a_loop dc room rest (ls, P_in (l @ [fo dc (of_nat w)]))"
  using assms by (simp add: used_octets_def opened_def a_dec_def Let_def a_char_def)

lemma a_loop_decimal:
  assumes "s = (ls, P_esc l) \<or> (s = (ls, P_iesc) \<and> l = [])" "length ds = 3" "\<forall>c\<in>set ds. digitchar c" "decval ds \<le> 255"
    "length (wire ls) + 1 + length l < room" "length l < 63"
  shows "a_loop dc room (ds @ rest) s = a_loop dc room rest (ls, P_in (l @ [fo dc (of_nat (decval ds))]))"
proof -
  obtain x y z where ds: "ds = [x, y, z]" using assms(2) by (auto simp: numeral_3_eq_3 length_Suc_conv)
  have d: "digitchar x" "digitchar y" "digitchar z" "x \<noteq> 0x5b" using assms(3) ds by (auto simp: digitchar_def)
  have "a_loop dc room (x # y # z # rest) s = a_loop dc room (y # z # rest) (ls, P_dec l (unat (x - 0x30)) 1)"
    using assms(1,5) d by (auto simp: used_octets_def opened_def a_esc_def a_dec_def)
  also have "\<dots> = a_loop dc room (z # rest) (ls, P_dec l (10 * unat (x - 0x30) + unat (y - 0x30)) 2)"
    using a_loop_dec_step [of y 1 ls l room dc "z # rest"] d assms(5) by (simp del: a_loop.simps add: numeral_2_eq_2)
  also have "\<dots> = a_loop dc room rest (ls, P_in (l @ [fo dc (of_nat (decval ds))]))"
    using assms(4-6) d by (intro a_loop_dec_last) (simp_all add: ds decval_def)
  finally show ?thesis by (simp add: ds)
qed

lemma a_loop_chars:
  assumes "chars dc t l" "t \<noteq> []" "length (wire ls) + 1 + length l \<le> room" "length l \<le> 63"
    "ph = P_start \<or> (ph = P_init \<and> t @ rest \<noteq> [0x40])"
  shows "a_loop dc room (t @ rest) (ls, ph) = a_loop dc room rest (ls, P_in l)"
  using assms
proof (induction arbitrary: rest rule: chars.induct)
  case (chars_plain t l c)
  show ?case
  proof (cases "t = []")
    case True
    then have "l = []" using chars_nonempty [OF chars_plain.hyps(1)] by simp
    then show ?thesis
      using True chars_plain first_step [of ph c rest ls room dc] by (simp add: a_start_def a_ord_def a_char_def)
  next
    case False
    then have "a_loop dc room (t @ c # rest) (ls, ph) = a_loop dc room (c # rest) (ls, P_in l)"
      using chars_plain by (intro chars_plain.IH) auto
    then show ?thesis using chars_plain by (simp add: used_octets_def opened_def a_ord_def a_char_def)
  qed
next
  case (chars_escaped t l c)
  show ?case
  proof (cases "t = []")
    case True
    then have l: "l = []" using chars_nonempty [OF chars_escaped.hyps(1)] by simp
    have "a_loop dc room (0x5c # c # rest) (ls, ph) = a_loop dc room (c # rest) (ls, P_iesc)"
      using True l chars_escaped first_step [of ph "0x5c" "c # rest" ls room dc] by (simp add: a_start_def)
    then show ?thesis
      using True l chars_escaped a_loop_escape [of "(ls, P_iesc)" ls "[]" c room dc rest] by simp
  next
    case False
    then have "a_loop dc room (t @ 0x5c # c # rest) (ls, ph) = a_loop dc room (0x5c # c # rest) (ls, P_in l)"
      using chars_escaped by (intro chars_escaped.IH) auto
    also have "\<dots> = a_loop dc room (c # rest) (ls, P_esc l)"
      using chars_escaped by (simp add: used_octets_def opened_def a_ord_def)
    finally show ?thesis using chars_escaped a_loop_escape [of "(ls, P_esc l)" ls l c room dc rest] by simp
  qed
next
  case (chars_decimal t l ds)
  show ?case
  proof (cases "t = []")
    case True
    then have l: "l = []" using chars_nonempty [OF chars_decimal.hyps(1)] by simp
    have "a_loop dc room (0x5c # ds @ rest) (ls, ph) = a_loop dc room (ds @ rest) (ls, P_iesc)"
      using True l chars_decimal first_step [of ph "0x5c" "ds @ rest" ls room dc] by (simp add: a_start_def)
    then show ?thesis
      using True l chars_decimal a_loop_decimal [of "(ls, P_iesc)" ls "[]" ds room dc rest] by simp
  next
    case False
    then have "a_loop dc room (t @ 0x5c # ds @ rest) (ls, ph) = a_loop dc room (0x5c # ds @ rest) (ls, P_in l)"
      using chars_decimal by (intro chars_decimal.IH) auto
    also have "\<dots> = a_loop dc room (ds @ rest) (ls, P_esc l)"
      using chars_decimal by (simp add: used_octets_def opened_def a_ord_def)
    finally show ?thesis using chars_decimal a_loop_decimal [of "(ls, P_esc l)" ls l ds room dc rest] by simp
  qed
qed simp


lemma a_loop_dotted:
  assumes "\<forall>x\<in>set xs. label_text dc x" "length (wire (ls @ map snd xs)) < room" "rest \<noteq> []" "xs \<noteq> []"
    "ph = P_start \<or> (ph = P_init \<and> ls = [])"
  shows "a_loop dc room (dotted xs @ rest) (ls, ph) = a_loop dc room rest (ls @ map snd xs, P_start)"
  using assms
proof (induction xs arbitrary: ls ph)
  case (Cons x xs)
  obtain t l where x: "x = (t, l)" by fastforce
  have lt: "chars dc t l" "l \<noteq> []" "length l \<le> 63" "t \<noteq> []"
    using Cons.prems(1) chars_nonempty by (auto simp: x label_text_def)
  have room: "length (wire ls) + 1 + length l < room" using Cons.prems(2) x by simp
  have ne: "dotted xs @ rest \<noteq> []" using Cons.prems(3) by simp
  have "a_loop dc room (t @ 0x2e # dotted xs @ rest) (ls, ph) = a_loop dc room (0x2e # dotted xs @ rest) (ls, P_in l)"
    using lt room Cons.prems(5) by (intro a_loop_chars) (auto simp: Cons_eq_append_conv append_eq_Cons_conv)
  also have "\<dots> = a_loop dc room (dotted xs @ rest) (ls @ [l], P_start)"
    using room lt ne by (simp add: used_octets_def opened_def a_ord_def)
  also have "\<dots> = a_loop dc room rest (ls @ map snd (x # xs), P_start)"
  proof (cases "xs = []")
    case False
    then show ?thesis using Cons.IH [of "ls @ [l]" P_start] Cons.prems x by simp
  qed (simp add: x)
  finally show ?case by (simp add: x)
qed simp

text \<open>The room a name needs: a relative text needs an octet more than it spells.\<close>

lemma a_loop_spells:
  assumes "spells dc tx ls dot" "length (wire ls) \<le> room" "\<not> dot \<Longrightarrow> length (wire ls) < room"
  shows "a_loop dc room tx ([], P_init) =
    Inr (if dot then (ls, P_done) else if ls = [] then ([], P_at) else (butlast ls, P_in (last ls)), [])"
  using assms
proof (induction rule: spells.induct)
  case (spells_absolute xs)
  obtain ys x where xs: "xs = ys @ [x]" using spells_absolute(1) by (cases xs rule: rev_cases) auto
  obtain t l where x: "x = (t, l)" by fastforce
  have lt: "chars dc t l" "l \<noteq> []" "length l \<le> 63" "t \<noteq> []"
    using spells_absolute(2) chars_nonempty by (auto simp: xs x label_text_def)
  have room: "length (wire (map snd ys)) + 1 + length l < room" using spells_absolute xs x by simp
  define ph where "ph = (if ys = [] then P_init else P_start)"
  have "a_loop dc room (dotted ys @ t @ [0x2e]) ([], P_init) = a_loop dc room (t @ [0x2e]) (map snd ys, ph)"
    using a_loop_dotted [of ys dc "[]" room "t @ [0x2e]" P_init] spells_absolute(2) room xs by (simp add: ph_def)
  also have "\<dots> = a_loop dc room [0x2e] (map snd ys, P_in l)"
    using lt room by (intro a_loop_chars) (auto simp: ph_def Cons_eq_append_conv append_eq_Cons_conv)
  also have "\<dots> = Inr ((map snd ys @ [l, []], P_done), [])"
    using room lt by (simp add: used_octets_def opened_def a_ord_def)
  finally show ?case by (simp add: xs x)
next
  case (spells_relative xs t l)
  have lt: "chars dc t l" "l \<noteq> []" "length l \<le> 63" "t \<noteq> []"
    using spells_relative(2) chars_nonempty by (auto simp: label_text_def)
  have room: "length (wire (map snd xs)) + 1 + length l < room" using spells_relative by simp
  define ph where "ph = (if xs = [] then P_init else P_start)"
  have "a_loop dc room (dotted xs @ t) ([], P_init) = a_loop dc room (t @ []) (map snd xs, ph)"
    using a_loop_dotted [of xs dc "[]" room t P_init] spells_relative(1) room lt(4) by (simp add: ph_def)
  also have "\<dots> = a_loop dc room [] (map snd xs, P_in l)"
    using lt room spells_relative(3) by (intro a_loop_chars) (auto simp: ph_def)
  finally show ?case by simp
qed (auto simp: used_octets_def opened_def)

definition full :: "bytes list \<Rightarrow> phase \<Rightarrow> bytes list" where
  "full ls ph = (case ph of P_in l \<Rightarrow> ls @ [l] | _ \<Rightarrow> ls)"

definition ended :: "phase \<Rightarrow> bool" where
  "ended ph \<longleftrightarrow> ph = P_at \<or> (\<exists>l. ph = P_in l)"

definition origin_is :: "dns_name option \<Rightarrow> bytes list \<Rightarrow> bool" where
  "origin_is origin lo \<longleftrightarrow> (case origin of None \<Rightarrow> lo = [] | Some name \<Rightarrow> name_is name lo)"

text \<open>Ending the open label.\<close>

lemma close_label:
  assumes r: "ft_rel pre room tot (ls, P_in l) st" and l: "l \<noteq> []"
  shows "\<exists>m os. poke (f_mem st) (length pre + length (wire ls)) (of_nat (length l)) = Some m \<and> Suc (length ls) < 128 \<and>
    poke (f_offsets st) (Suc (length ls)) (of_nat (f_nused st)) = Some os \<and>
    closed_rel pre tot (ls @ [l]) (st\<lparr>f_mem := m, f_labels := Suc (length ls), f_offsets := os\<rparr>) \<and>
    table_upto os (ls @ [l]) (Suc (length (ls @ [l])))"
proof -
  obtain x tail where m: "f_mem st = pre @ wire ls @ x # l @ tail" "length (f_mem st) = tot"
    using r by (auto simp: ft_rel_def mem_is_def)
  have R: "f_ndata st = length pre + length (wire (ls @ [l]))" "f_nused st = length (wire (ls @ [l]))" "room \<le> 255"
    "length (wire (ls @ [l])) \<le> room" "\<forall>l\<in>set ls. l \<noteq> []" "table_upto (f_offsets st) ls (Suc (length ls))"
    using r by (simp_all add: ft_rel_def used_octets_def opened_def)
  have c: "Suc (length ls) < 128" using label_count [of "ls @ [l]"] R l by simp
  have tb: "table_upto ((f_offsets st)[Suc (length ls) := of_nat (length (wire (ls @ [l])))]) (ls @ [l]) (Suc (Suc (length ls)))"
    using R c by (intro table_upto_snoc) auto
  have "poke (f_mem st) (length pre + length (wire ls)) (of_nat (length l)) = Some (pre @ wire (ls @ [l]) @ tail)"
    unfolding m(1) by (simp add: poke_eq_Some list_update_append)
  moreover have "poke (f_offsets st) (Suc (length ls)) (of_nat (f_nused st)) =
      Some ((f_offsets st)[Suc (length ls) := of_nat (length (wire (ls @ [l])))])"
    using R(6) c by (simp add: table_upto_def R(2))
  ultimately show ?thesis
    using c tb m R(1,2) by (auto simp: closed_rel_def intro: table_upto_less)
qed

lemma finish_label:
  assumes r: "ft_rel pre room tot (ls, ph) st" and e: "ended ph" and l: "\<And>l. ph = P_in l \<Longrightarrow> l \<noteq> []"
  shows "\<exists>st1. (if f_state st = ft_ordinary then do {
                    INSIST (f_count st \<noteq> 0);
                    INSIST (f_label st \<noteq> None);
                    label \<leftarrow> f_label st;
                    m \<leftarrow> poke (f_mem st) label (of_nat (f_count st));
                    let st = st\<lparr>f_mem := m, f_labels := f_labels st + 1\<rparr>;
                    INSIST (f_labels st < DNS_NAME_MAXLABELS);
                    os \<leftarrow> poke (f_offsets st) (f_labels st) (of_nat (f_nused st));
                    Some (st\<lparr>f_offsets := os\<rparr>)
                  }
                  else Some st) = Some st1 \<and> closed_rel pre tot (full ls ph) st1 \<and> f_nrem st1 = f_nrem st \<and> f_done st1 = f_done st \<and>
      table_upto (f_offsets st1) (full ls ph) (Suc (length (full ls ph)))"
proof (cases ph)
  case (P_in l)
  from close_label [of pre room tot ls l st] r assms(3) [OF P_in] P_in obtain m os where
    c: "poke (f_mem st) (length pre + length (wire ls)) (of_nat (length l)) = Some m" "Suc (length ls) < 128"
    "poke (f_offsets st) (Suc (length ls)) (of_nat (f_nused st)) = Some os"
    "closed_rel pre tot (ls @ [l]) (st\<lparr>f_mem := m, f_labels := Suc (length ls), f_offsets := os\<rparr>)"
    "table_upto os (ls @ [l]) (Suc (length (ls @ [l])))" by blast
  have "f_state st = ft_ordinary" "f_count st = length l" "f_label st = Some (length pre + length (wire ls))" "f_labels st = length ls"
    using r P_in by (simp_all add: ft_rel_def mem_is_def)
  then show ?thesis using c assms(3) [OF P_in] P_in by (simp add: full_def Let_def)
next
  case P_at
  then show ?thesis
    using r by (auto simp: ft_rel_def full_def closed_rel_def mem_is_def used_octets_def opened_def intro: table_upto_less)
qed (use e in \<open>auto simp: ended_def\<close>)

lemma finish_runs:
  assumes r: "ft_rel pre room tot (ls, ph) st" and nd: "ph \<noteq> P_done" and rest: "rest = [] \<or> room \<le> used_octets (ls, ph)"
    and l: "\<And>l. ph = P_in l \<Longrightarrow> l \<noteq> []" and o': "origin_is origin lo"
  shows "\<exists>res st'. fromtext_finish dc origin rest st = Some (res, st') \<and> length (f_mem st') = tot \<and> 128 \<le> length (f_offsets st') \<and>
     (res = ISC_R_SUCCESS \<longleftrightarrow> used_octets (ls, ph) < room \<and> ended ph \<and> used_octets (ls, ph) + length (wire lo) \<le> room) \<and>
     (res = ISC_R_SUCCESS \<longrightarrow> closed_rel pre tot (full ls ph @ map (map (fo dc)) lo) st' \<and> f_done st' = f_done st)"
proof -
  have R: "f_nrem st = room - used_octets (ls, ph)" "used_octets (ls, ph) \<le> room" "room \<le> 255" "length pre + room \<le> tot"
    "f_state st = phase_state ph" "\<forall>l\<in>set ls. l \<noteq> []"
    using r nd by (auto simp: ft_rel_def)
  note mem = ft_rel_mem [OF r]
  consider "room = used_octets (ls, ph)" | "used_octets (ls, ph) < room" "\<not> ended ph" | "used_octets (ls, ph) < room" "ended ph"
    using R(2) by linarith
  then show ?thesis
  proof cases
    case 1
    then show ?thesis using R mem by (auto simp: fromtext_finish_def)
  next
    case 2
    then have "f_state st \<noteq> ft_ordinary \<and> f_state st \<noteq> ft_at" using R(5) nd by (cases ph) (auto simp: ended_def)
    then show ?thesis using 2 rest R mem by (auto simp: fromtext_finish_def)
  next
    case 3
    obtain st1 where s1: "(if f_state st = ft_ordinary then do {
                    INSIST (f_count st \<noteq> 0);
                    INSIST (f_label st \<noteq> None);
                    label \<leftarrow> f_label st;
                    m \<leftarrow> poke (f_mem st) label (of_nat (f_count st));
                    let st = st\<lparr>f_mem := m, f_labels := f_labels st + 1\<rparr>;
                    INSIST (f_labels st < DNS_NAME_MAXLABELS);
                    os \<leftarrow> poke (f_offsets st) (f_labels st) (of_nat (f_nused st));
                    Some (st\<lparr>f_offsets := os\<rparr>)
                  }
                  else Some st) = Some st1" "closed_rel pre tot (full ls ph) st1" "f_nrem st1 = f_nrem st" "f_done st1 = f_done st"
      "table_upto (f_offsets st1) (full ls ph) (Suc (length (full ls ph)))"
      using finish_label [OF r 3(2) l] by blast
    have used: "used_octets (ls, ph) = length (wire (full ls ph))" using 3(2)
      by (auto simp: ended_def used_octets_def opened_def full_def)
    have st: "f_state st = ft_ordinary \<or> f_state st = ft_at" using R(5) 3(2) by (auto simp: ended_def)
    have fin: "fromtext_finish dc origin rest st = (case origin of
            None \<Rightarrow> Some (ISC_R_SUCCESS, st1)
          | Some origin \<Rightarrow>
              if f_nrem st1 < n_length origin then Some (ISC_R_NOSPACE, st1)
              else do {
                st \<leftarrow> origin_loop dc (ndata origin) 0 (n_length origin) st1;
                Some (ISC_R_SUCCESS, st)
              })"
      unfolding fromtext_finish_def s1(1) using 3 rest R st by auto
    have m1: "length (f_mem st1) = tot" "128 \<le> length (f_offsets st1)" using s1(2) by (auto simp: closed_rel_def table_upto_def)
    show ?thesis
    proof (cases origin)
      case None
      then show ?thesis using o' fin s1 m1 3 used R by (auto simp: origin_is_def)
    next
      case (Some ori)
      have o2: "take (n_length ori) (ndata ori) = wire lo" "labels_ok lo" "n_length ori \<le> length (ndata ori)"
        using o' Some by (auto simp: origin_is_def name_is_def name_rep_def)
      have n: "n_length ori = length (wire lo)" using o2(1,3) by (metis length_take min.absorb2)
      show ?thesis
      proof (cases "f_nrem st1 < n_length ori")
        case True
        then show ?thesis using fin Some m1 R s1(3) n 3 by (auto simp: used)
      next
        case False
        have d: "drop 0 (ndata ori) = wire lo @ drop (length (wire lo)) (ndata ori)"
          using o2(1) n by (metis append_take_drop_id drop0)
        have "\<forall>l\<in>set (full ls ph). l \<noteq> []" using R(6) l 3(2) by (auto simp: ended_def full_def)
        moreover have "length (wire (full ls ph @ lo)) \<le> room" using False n R s1(3) used by simp
        ultimately obtain st' where o3: "origin_loop dc (ndata ori) 0 (length (wire lo)) st1 = Some st'"
          "closed_rel pre tot (full ls ph @ map (map (fo dc)) lo) st'" "f_done st' = f_done st1"
          using origin_loop_runs [OF s1(2) s1(5) d _ o2(2), of dc] R(3,4) by auto
        show ?thesis using fin Some m1 R s1(3,4) n 3 False o3 used
          by (auto simp: closed_rel_def table_upto_def)
      qed
    qed
  qed
qed


section \<open>The whole function\<close>

definition ft_begin :: "dns_name \<Rightarrow> isc_buffer \<Rightarrow> ft" where
  "ft_begin n t = \<lparr>f_mem = b_base t, f_offsets = (case offsets n of Some os \<Rightarrow> os | None \<Rightarrow> odata)[0 := 0], f_state = ft_init,
     f_label = None, f_ndata = b_used t, f_nrem = min 255 (buf_room t),
     f_nused = 0, f_labels = 0, f_count = 0, f_value = 0, f_digits = 0, f_done = False\<rparr>"

lemma ft_begin_rel:
  assumes n: "name_target n" and t: "buf_ok t"
  shows "ft_rel (take (b_used t) (b_base t)) (min 255 (buf_room t)) (length (b_base t)) ([], P_init) (ft_begin n t)"
    "poke (case offsets n of Some os \<Rightarrow> os | None \<Rightarrow> odata) 0 0 = Some (f_offsets (ft_begin n t))"
proof -
  have os: "128 \<le> length (case offsets n of Some os \<Rightarrow> os | None \<Rightarrow> odata)"
    using n by (auto simp: name_target_def table_room_def odata_def split: option.splits)
  show "poke (case offsets n of Some os \<Rightarrow> os | None \<Rightarrow> odata) 0 0 = Some (f_offsets (ft_begin n t))"
    using os unfolding ft_begin_def by (intro trans [OF poke_Some]) auto
  have tail: "\<exists>tail. b_base t = take (b_used t) (b_base t) @ tail" by (metis append_take_drop_id)
  have u: "length (b_base t) = b_length t" "b_used t \<le> b_length t" using t by (auto simp: buf_ok_def)
  have "unat ((case offsets n of Some os \<Rightarrow> os | None \<Rightarrow> odata)[0 := 0] ! 0) = 0" using os by (subst nth_list_update_eq) auto
  then show "ft_rel (take (b_used t) (b_base t)) (min 255 (buf_room t)) (length (b_base t)) ([], P_init) (ft_begin n t)"
    using os tail u by (auto simp: ft_rel_def mem_is_def ft_begin_def used_octets_def opened_def table_upto_def buf_room_def)
qed

text \<open>The labels the machine ends with, where it ends well; \<open>lo\<close> are the labels of the origin.\<close>

definition a_result :: "bool \<Rightarrow> nat \<Rightarrow> bytes \<Rightarrow> bytes list \<Rightarrow> bytes list option" where
  "a_result dc room tx lo =
     (case a_loop dc room tx ([], P_init) of
        Inl e \<Rightarrow> None
      | Inr ((ls, ph), rest) \<Rightarrow>
          if ph = P_done then Some ls
          else if used_octets (ls, ph) < room \<and> ended ph \<and> used_octets (ls, ph) + length (wire lo) \<le> room
          then Some (full ls ph @ map (map (fo dc)) lo) else None)"


lemma reads_open: "reads dc u (ls, P_in l) \<Longrightarrow> l \<noteq> []"
  by (auto simp: label_text_def)

lemma ended_spells:
  assumes "reads dc tx (ls, ph)" "a_loop dc room tx ([], P_init) = Inr ((ls, ph), [])" "ended ph" "0 < room"
  shows "spells dc tx (full ls ph) False"
proof (cases ph)
  case P_at
  then show ?thesis using assms(1) spells_at by (simp add: full_def)
next
  case (P_in l)
  then obtain xs t where x: "\<forall>x\<in>set xs. label_text dc x" "label_text dc (t, l)" "tx = dotted xs @ t" "ls = map snd xs"
    using assms(1) by auto
  have "tx \<noteq> [0x40]" using assms(2,4) P_in by (auto simp: used_octets_def opened_def)
  then show ?thesis using spells_relative [OF x(1,2)] x P_in by (simp add: full_def)
qed (use assms(3) in \<open>auto simp: ended_def\<close>)

lemma done_closed:
  assumes "ft_rel pre room tot (ls, P_done) st"
  shows "closed_rel pre tot ls st"
  using assms by (auto simp: ft_rel_def closed_rel_def mem_is_def used_octets_def opened_def)

text \<open>The room a name needs: a text without the final dot needs an octet more than its own labels.\<close>

definition text_fits :: "nat \<Rightarrow> bytes list \<Rightarrow> bytes list \<Rightarrow> bool \<Rightarrow> bool" where
  "text_fits room ls lo dot \<longleftrightarrow>
     (if dot then length (wire ls) \<le> room else length (wire ls) < room \<and> length (wire (ls @ lo)) \<le> room)"

text \<open>The computation of \<^verbatim>\<open>dns_name_fromtext\<close>, up to what it leaves in the name.\<close>

lemma fromtext_computes:
  assumes n: "name_target n" and t: "buf_ok t" and o': "origin_is origin lo"
  shows "\<exists>res st rest res' st'. fromtext_loop dc tx (ft_begin n t) = Some (res, st, rest) \<and>
     (if res \<noteq> ISC_R_SUCCESS \<or> f_done st then Some (res, st) else fromtext_finish dc origin rest st) = Some (res', st') \<and>
     length (f_mem st') = length (b_base t) \<and> 128 \<le> length (f_offsets st') \<and>
     (case a_result dc (min 255 (buf_room t)) tx lo of
        None \<Rightarrow> res' \<noteq> ISC_R_SUCCESS
      | Some ls \<Rightarrow> res' = ISC_R_SUCCESS \<and> rest = [] \<and> closed_rel (take (b_used t) (b_base t)) (length (b_base t)) ls st' \<and> length (wire ls) \<le> min 255 (buf_room t) \<and>
          (\<exists>ls1. spells dc tx ls1 (f_done st') \<and> text_fits (min 255 (buf_room t)) ls1 lo (f_done st') \<and>
            ls = ls1 @ (if f_done st' then [] else map (map (fo dc)) lo)))"
proof -
  let ?room = "min 255 (buf_room t)" and ?pre = "take (b_used t) (b_base t)" and ?tot = "length (b_base t)"
  have b: "ft_rel ?pre ?room ?tot ([], P_init) (ft_begin n t)" by (rule ft_begin_rel [OF n t])
  from fromtext_loop_runs [OF b, of tx dc] obtain res st rest where
    L: "fromtext_loop dc tx (ft_begin n t) = Some (res, st, rest)" "length (f_mem st) = ?tot" "128 \<le> length (f_offsets st)"
      "case a_loop dc ?room tx ([], P_init) of
        Inl e \<Rightarrow> res = e \<and> e \<noteq> ISC_R_SUCCESS
      | Inr (s', rest') \<Rightarrow> res = ISC_R_SUCCESS \<and> rest = rest' \<and> ft_rel ?pre ?room ?tot s' st" by auto
  show ?thesis
  proof (cases "a_loop dc ?room tx ([], P_init)")
    case (Inl e)
    then show ?thesis using L by (auto simp: a_result_def)
  next
    case (Inr p)
    obtain ls ph where p: "p = ((ls, ph), rest)" using L(4) Inr by (cases p) auto
    have r: "res = ISC_R_SUCCESS" "ft_rel ?pre ?room ?tot (ls, ph) st" using L(4) Inr p by auto
    have fd: "f_done st = (ph = P_done)" "used_octets (ls, ph) \<le> ?room" using r(2) by (auto simp: ft_rel_def)
    obtain v where v: "tx = v @ rest" "reads dc v (ls, ph)" "rest = [] \<or> used_octets (ls, ph) \<ge> ?room \<and> ph \<noteq> P_done"
      using reads_loop [of dc "[]" "([], P_init)" ?room tx "(ls, ph)" rest] Inr p by auto
    show ?thesis
    proof (cases "ph = P_done")
      case True
      have "rest = []" using v(3) True by blast
      then show ?thesis using True r fd L Inr p v done_closed by (auto simp: a_result_def used_octets_def opened_def text_fits_def)
    next
      case False
      have l: "\<And>l. ph = P_in l \<Longrightarrow> l \<noteq> []" using v(2) reads_open by blast
      have re: "rest = [] \<or> used_octets (ls, ph) \<ge> ?room" using v(3) by blast
      obtain res' st' where
        f: "fromtext_finish dc origin rest st = Some (res', st')" "length (f_mem st') = ?tot" "128 \<le> length (f_offsets st')"
          "res' = ISC_R_SUCCESS \<longleftrightarrow> used_octets (ls, ph) < ?room \<and> ended ph \<and> used_octets (ls, ph) + length (wire lo) \<le> ?room"
          "res' = ISC_R_SUCCESS \<longrightarrow> closed_rel ?pre ?tot (full ls ph @ map (map (fo dc)) lo) st' \<and> f_done st' = f_done st"
        using finish_runs [OF r(2) False re l o', of dc] by blast
      show ?thesis
      proof (cases "res' = ISC_R_SUCCESS")
        case ok: True
        have e: "ended ph" "rest = []" "used_octets (ls, ph) = length (wire (full ls ph))"
          using f(4) ok v(3) by (auto simp: ended_def used_octets_def opened_def full_def)
        have "spells dc tx (full ls ph) False"
          by (rule ended_spells [OF _ Inr [unfolded p e(2)] e(1)]) (use v e f(4) ok in auto)
        then show ?thesis using L(1) r(1) fd False f ok Inr p e by (auto simp: a_result_def wire_fold text_fits_def)
      next
        case bad: False
        then show ?thesis using L(1) r(1) fd False f Inr p by (auto simp: a_result_def)
      qed
    qed
  qed
qed


lemma spells_labels:
  assumes "spells dc tx ls dot"
  shows "\<forall>l\<in>set ls. length l \<le> 63" "dot \<longrightarrow> rooted ls \<and> (\<forall>l\<in>set (butlast ls). l \<noteq> [])" "\<not> dot \<longrightarrow> (\<forall>l\<in>set ls. l \<noteq> [])"
  using assms by (induction rule: spells.induct) (auto simp: label_text_def rooted_def butlast_append)

lemma closed_name:
  assumes c: "closed_rel (take (b_used t) (b_base t)) (length (b_base t)) ls st" and t: "buf_ok t" and n: "name_target n"
    and ok: "labels_ok ls" and a: "ab = rooted ls"
    and n1: "n1 = (if offsets n = None then MAKE_EMPTY n else (MAKE_EMPTY n)\<lparr>offsets := Some (f_offsets st)\<rparr>)"
  shows "name_is ((if ab then set_absolute True n1 else n1)
      \<lparr>ndata := drop (b_used t) (f_mem st), n_length := f_nused st, labels := f_labels st\<rparr>) ls"
    "length (wire ls) \<le> buf_room t \<Longrightarrow> \<exists>t'. isc_buffer_add (t\<lparr>b_base := f_mem st\<rparr>) (f_nused st) = Some t' \<and> appended t (wire ls) t'"
proof -
  obtain tail where m: "f_mem st = take (b_used t) (b_base t) @ wire ls @ tail" "length (f_mem st) = length (b_base t)"
    and R: "f_nused st = length (wire ls)" "f_labels st = length ls" "table_upto (f_offsets st) ls (length ls)"
    using c by (auto simp: closed_rel_def)
  have u: "length (take (b_used t) (b_base t)) = b_used t" using t by (auto simp: buf_ok_def)
  have d: "drop (b_used t) (f_mem st) = wire ls @ tail" unfolding m(1) using u by simp
  have "length ls \<le> 128" using labels_ok_count [OF ok] by simp
  then have tb: "table_is (f_offsets st) ls" using R(3) by (auto simp: table_is_def table_upto_def)
  show "name_is ((if ab then set_absolute True n1 else n1)
      \<lparr>ndata := drop (b_used t) (f_mem st), n_length := f_nused st, labels := f_labels st\<rparr>) ls"
    using n ok a tb d R(1,2)
    by (auto simp: n1 name_is_def name_rep_def name_target_def VALID_NAME_def MAKE_EMPTY_def split: option.splits)
  show "\<exists>t'. isc_buffer_add (t\<lparr>b_base := f_mem st\<rparr>) (f_nused st) = Some t' \<and> appended t (wire ls) t'"
    if "length (wire ls) \<le> buf_room t"
  proof -
    have room: "b_used t + length (wire ls) \<le> b_length t" using that t by (auto simp: buf_room_def buf_ok_def)
    have "buf_ok (t\<lparr>b_base := f_mem st\<rparr>)" using t m(2) by (simp add: buf_ok_def ISC_BUFFER_VALID_def)
    from isc_buffer_add_ok [OF this, of "length (wire ls)"] room
    have "isc_buffer_add (t\<lparr>b_base := f_mem st\<rparr>) (length (wire ls)) = Some (t\<lparr>b_base := f_mem st, b_used := b_used t + length (wire ls)\<rparr>)"
      by (simp add: buf_room_def)
    moreover have "appended t (wire ls) (t\<lparr>b_base := f_mem st, b_used := b_used t + length (wire ls)\<rparr>)"
      using t m room u by (auto simp: appended_def buf_ok_def buf_content_def buf_remaining_def ISC_BUFFER_VALID_def)
    ultimately show ?thesis using R(1) by auto
  qed
qed


lemma fetch_remaining:
  assumes "buf_ok source"
  shows "fetch (b_base source) (b_current source) (isc_buffer_remaininglength source) = Some (buf_remaining source)"
  using assms by (auto simp: fetch_eq_Some buf_ok_def buf_remaining_def buf_content_def take_drop)

lemma rooted_append: "rooted (ls @ lo) = (if lo = [] then rooted ls else rooted lo)"
  by (simp add: rooted_def)

lemma rooted_fold: "rooted (map (map f) lo) = rooted lo"
  by (auto simp: rooted_def last_map)

lemma labels_ok_fold: "labels_ok lo \<Longrightarrow> labels_ok (map (map f) lo)"
  by (auto simp: labels_ok_def wire_fold map_butlast [symmetric])

lemma labels_ok_origin:
  assumes "\<forall>l\<in>set ls. l \<noteq> [] \<and> length l \<le> 63" "labels_ok lo" "length (wire (ls @ lo)) \<le> 255"
  shows "labels_ok (ls @ lo)"
  using assms by (auto simp: labels_ok_def butlast_append dest: in_set_butlastD)

text \<open>Either the machine ends badly, and the function fails, or the name holds the labels it ends with.\<close>

lemma fromtext_run:
  assumes n: "name_target n" and s: "buf_ok source" and t: "buf_ok t" and o': "origin_is origin lo"
    and pick: "pick_target n target = Some t" and dc: "dc = (options AND DNS_NAME_DOWNCASE \<noteq> 0)"
  shows "\<exists>res n' s' tg'. dns_name_fromtext n source origin options target = Some (res, n', s', tg') \<and>
    (case a_result dc (min 255 (buf_room t)) (buf_remaining source) lo of
       None \<Rightarrow> res \<noteq> ISC_R_SUCCESS \<and> labels n' = 0 \<and> n_length n' = 0 \<and> s' = source
     | Some ls \<Rightarrow> res = ISC_R_SUCCESS \<and> name_is n' ls \<and> s' = source\<lparr>b_current := b_used source\<rparr> \<and>
         (\<exists>t'. appended t (wire ls) t' \<and> (if target = None then n_buffer n' = Some t' else tg' = Some t')) \<and>
         (\<exists>ls1 dot. spells dc (buf_remaining source) ls1 dot \<and> text_fits (min 255 (buf_room t)) ls1 lo dot \<and>
           ls = ls1 @ (if dot then [] else map (map (fo dc)) lo)))"
proof -
  let ?tx = "buf_remaining source" and ?a = "a_result dc (min 255 (buf_room t)) (buf_remaining source) lo"
  from fromtext_computes [OF n t o', of dc ?tx] obtain res st rest res' st' where
    L: "fromtext_loop dc ?tx (ft_begin n t) = Some (res, st, rest)"
     "(if res \<noteq> ISC_R_SUCCESS \<or> f_done st then Some (res, st) else fromtext_finish dc origin rest st) = Some (res', st')" and
    A: "case ?a of
        None \<Rightarrow> res' \<noteq> ISC_R_SUCCESS
      | Some ls \<Rightarrow> res' = ISC_R_SUCCESS \<and> rest = [] \<and> closed_rel (take (b_used t) (b_base t)) (length (b_base t)) ls st' \<and> length (wire ls) \<le> min 255 (buf_room t) \<and>
          (\<exists>ls1. spells dc ?tx ls1 (f_done st') \<and> text_fits (min 255 (buf_room t)) ls1 lo (f_done st') \<and>
            ls = ls1 @ (if f_done st' then [] else map (map (fo dc)) lo))" by blast
  define n1 where "n1 = (if offsets n = None then MAKE_EMPTY n else (MAKE_EMPTY n)\<lparr>offsets := Some (f_offsets st')\<rparr>)"
  define ab where "ab = (f_done st' \<or> (case origin of None \<Rightarrow> False | Some origin \<Rightarrow> is_absolute origin))"
  define n2 where "n2 = (if ab then set_absolute True n1 else n1)
          \<lparr>ndata := drop (b_used t) (f_mem st'), n_length := f_nused st', labels := f_labels st'\<rparr>"
  have run: "dns_name_fromtext n source origin options target =
    (if res' \<noteq> ISC_R_SUCCESS
     then let (name, target) = put_target n1 target (t\<lparr>b_base := f_mem st'\<rparr>)
          in Some (res', name, source, target)
     else do {
       source \<leftarrow> isc_buffer_forward source (length ?tx - length rest);
       t \<leftarrow> isc_buffer_add (t\<lparr>b_base := f_mem st'\<rparr>) (n_length n2);
       let (name, target) = put_target n2 target t
       in Some (ISC_R_SUCCESS, name, source, target)
     })"
  proof -
    have e: "offsets (MAKE_EMPTY n) = offsets n" by (simp add: MAKE_EMPTY_def)
    have f: "fetch (b_base source) (b_current source) (length ?tx) = Some ?tx" using fetch_remaining [OF s] s by simp
    have st0: "\<lparr>f_mem = b_base t, f_offsets = f_offsets (ft_begin n t), f_state = ft_init, f_label = None, f_ndata = b_used t,
       f_nrem = min 255 (buf_room t), f_nused = 0, f_labels = 0, f_count = 0, f_value = 0, f_digits = 0, f_done = False\<rparr> = ft_begin n t"
      by (simp add: ft_begin_def)
    have "VALID_NAME n" "BINDABLE n" "ISC_BUFFER_VALID source" using n s by (auto simp: name_target_def buf_ok_def)
    then show ?thesis
      unfolding dns_name_fromtext_def using s t L
      by (simp add: pick Let_def f st0 ft_begin_rel(2) [OF n t] dc [symmetric] e n1_def n2_def ab_def cong: if_cong)
  qed
  show ?thesis
  proof (cases ?a)
    case None
    then have r: "res' \<noteq> ISC_R_SUCCESS" using A by simp
    have "labels n1 = 0" "n_length n1 = 0" by (simp_all add: n1_def MAKE_EMPTY_def)
    then show ?thesis using None r run by (auto simp: put_target_def split: option.splits)
  next
    case (Some ls)
    have r: "res' = ISC_R_SUCCESS" "rest = []" and c: "closed_rel (take (b_used t) (b_base t)) (length (b_base t)) ls st'"
      and w: "length (wire ls) \<le> 255" "length (wire ls) \<le> buf_room t"
      and ex: "\<exists>ls1. spells dc ?tx ls1 (f_done st') \<and> text_fits (min 255 (buf_room t)) ls1 lo (f_done st') \<and>
            ls = ls1 @ (if f_done st' then [] else map (map (fo dc)) lo)"
      using A Some by auto
    from ex obtain ls1 where l1: "spells dc ?tx ls1 (f_done st')" "text_fits (min 255 (buf_room t)) ls1 lo (f_done st')"
      "ls = ls1 @ (if f_done st' then [] else map (map (fo dc)) lo)" by blast
    have ok: "labels_ok ls \<and> ab = rooted ls"
    proof (cases "f_done st'")
      case True
      then show ?thesis using spells_labels [OF l1(1)] l1(3) w by (auto simp: labels_ok_def ab_def)
    next
      case False
      have lo: "labels_ok lo" "(case origin of None \<Rightarrow> False | Some origin \<Rightarrow> is_absolute origin) = rooted lo"
        using o' by (auto simp: origin_is_def name_is_def name_rep_def rooted_def split: option.splits)
      have "\<forall>l\<in>set ls1. l \<noteq> [] \<and> length l \<le> 63" using spells_labels [OF l1(1)] False by auto
      then have "labels_ok ls" "rooted ls = rooted lo"
        using labels_ok_origin [OF _ labels_ok_fold [OF lo(1)]] w(1) l1(3) False rooted_fold [of "fo dc" lo]
        by (auto simp: rooted_append) (auto simp: rooted_def)
      then show ?thesis using False lo(2) by (simp add: ab_def)
    qed
    have nm: "name_is n2 ls" unfolding n2_def using closed_name(1) [OF c t n _ _ n1_def] ok by blast
    obtain t' where t': "isc_buffer_add (t\<lparr>b_base := f_mem st'\<rparr>) (f_nused st') = Some t'" "appended t (wire ls) t'"
      using closed_name(2) [OF c t n _ _ n1_def] ok w(2) by blast
    have fw: "isc_buffer_forward source (length ?tx) = Some (source\<lparr>b_current := b_used source\<rparr>)"
      using isc_buffer_forward_ok [OF s, of "length ?tx"] s by (auto simp: buf_remaining_def buf_ok_def)
    have "dns_name_fromtext n source origin options target = Some (ISC_R_SUCCESS, fst (put_target n2 target t'),
        source\<lparr>b_current := b_used source\<rparr>, snd (put_target n2 target t'))"
    proof -
      have "n_length n2 = f_nused st'" by (simp add: n2_def)
      then show ?thesis unfolding run using r fw t'(1) by (simp add: case_prod_unfold Let_def)
    qed
    moreover have "name_is (fst (put_target n2 target t')) ls" using nm by simp
    moreover have "if target = None then n_buffer (fst (put_target n2 target t')) = Some t' else snd (put_target n2 target t') = Some t'"
      by (auto simp: put_target_def split: option.splits)
    ultimately show ?thesis using l1 t'(2) unfolding Some option.case by (intro exI conjI) (rule refl | assumption)+
  qed
qed


lemma a_result_spells:
  assumes "spells dc tx ls dot" "text_fits room ls lo dot"
  shows "a_result dc room tx lo \<noteq> None"
proof -
  let ?s = "if dot then (ls, P_done) else if ls = [] then ([], P_at) else (butlast ls, P_in (last ls))"
  have l: "a_loop dc room tx ([], P_init) = Inr (?s, [])"
    using a_loop_spells [OF assms(1)] assms(2) by (auto simp: text_fits_def split: if_splits)
  show ?thesis
  proof (cases "dot \<or> ls = []")
    case True
    then show ?thesis using l assms(2)
      by (cases dot) (simp_all add: a_result_def text_fits_def ended_def used_octets_def opened_def)
  next
    case False
    then have u: "length (wire (butlast ls)) + Suc (length (last ls)) = length (wire ls)"
      using wire_snoc [of "butlast ls" "last ls"] by simp
    then show ?thesis using False l assms(2) by (auto simp: a_result_def text_fits_def ended_def used_octets_def opened_def)
  qed
qed

section \<open>Properties\<close>

text \<open>
  C7: \<^verbatim>\<open>dns_name_fromtext\<close> on any text never fails an assertion or leaves its memory.  It succeeds exactly when the text spells labels
  by the rules of a master file (plain characters, \<^verbatim>\<open>\c\<close>, \<^verbatim>\<open>\ddd\<close>, dots between labels, the root as \<^verbatim>\<open>.\<close>, the origin as \<^verbatim>\<open>@\<close>) and they
  fit the room; then the name holds those labels, followed by the origin's when the text has no final dot, and the text is consumed.
  Otherwise the name is empty and the source is where it was.
\<close>

theorem fromtext_correct:
  assumes n: "name_target n" and s: "buf_ok source" and t: "target_ok n target" and o': "origin_is origin lo"
    and dc: "dc = (options AND DNS_NAME_DOWNCASE \<noteq> 0)"
  shows "\<exists>t res n' s' tg'. pick_target n target = Some t \<and> dns_name_fromtext n source origin options target = Some (res, n', s', tg') \<and>
    (res = ISC_R_SUCCESS \<longleftrightarrow> (\<exists>ls dot. spells dc (buf_remaining source) ls dot \<and> text_fits (min 255 (buf_room t)) ls lo dot)) \<and>
    (if res = ISC_R_SUCCESS
     then \<exists>ls dot t'. spells dc (buf_remaining source) ls dot \<and> name_is n' (ls @ (if dot then [] else map (map (fo dc)) lo)) \<and>
       s' = source\<lparr>b_current := b_used source\<rparr> \<and> appended t (wire (ls @ (if dot then [] else map (map (fo dc)) lo))) t' \<and>
       (if target = None then n_buffer n' = Some t' else tg' = Some t')
     else labels n' = 0 \<and> n_length n' = 0 \<and> s' = source)"
proof -
  obtain t where pick: "pick_target n target = Some t" "buf_ok t" using pick_target_ok [OF t] by blast
  let ?a = "a_result dc (min 255 (buf_room t)) (buf_remaining source) lo"
  from fromtext_run [OF n s pick(2) o' pick(1) dc] obtain res n' s' tg' where
    r: "dns_name_fromtext n source origin options target = Some (res, n', s', tg')"
     "case ?a of
       None \<Rightarrow> res \<noteq> ISC_R_SUCCESS \<and> labels n' = 0 \<and> n_length n' = 0 \<and> s' = source
     | Some ls \<Rightarrow> res = ISC_R_SUCCESS \<and> name_is n' ls \<and> s' = source\<lparr>b_current := b_used source\<rparr> \<and>
         (\<exists>t'. appended t (wire ls) t' \<and> (if target = None then n_buffer n' = Some t' else tg' = Some t')) \<and>
         (\<exists>ls1 dot. spells dc (buf_remaining source) ls1 dot \<and> text_fits (min 255 (buf_room t)) ls1 lo dot \<and>
           ls = ls1 @ (if dot then [] else map (map (fo dc)) lo))" by blast
  show ?thesis
  proof (cases ?a)
    case None
    then have "\<not> (\<exists>ls dot. spells dc (buf_remaining source) ls dot \<and> text_fits (min 255 (buf_room t)) ls lo dot)"
      using a_result_spells by blast
    moreover have "res \<noteq> ISC_R_SUCCESS" "labels n' = 0" "n_length n' = 0" "s' = source" using r(2) None by auto
    ultimately show ?thesis using r(1) pick(1) by auto
  next
    case (Some ls)
    then obtain ls1 dot t' where "res = ISC_R_SUCCESS" "name_is n' ls" "s' = source\<lparr>b_current := b_used source\<rparr>"
      "appended t (wire ls) t'" "if target = None then n_buffer n' = Some t' else tg' = Some t'"
      "spells dc (buf_remaining source) ls1 dot" "text_fits (min 255 (buf_room t)) ls1 lo dot"
      "ls = ls1 @ (if dot then [] else map (map (fo dc)) lo)" using r(2) by auto
    then show ?thesis using r(1) pick(1) by (auto intro!: exI [of _ ls1] exI [of _ dot])
  qed
qed


theorem fromtext_correct_witness:
  "\<exists>n' s' tg'. dns_name_fromtext (DNS_NAME_INIT None) ((isc_buffer_init [0x61, 0x2e] 2)\<lparr>b_used := 2\<rparr>) None 0
     (Some (isc_buffer_init (replicate 9 0) 9)) = Some (ISC_R_SUCCESS, n', s', tg')"
proof -
  let ?s = "(isc_buffer_init [0x61, 0x2e] 2)\<lparr>b_used := 2\<rparr>" and ?t = "isc_buffer_init (replicate 9 0) 9"
  have s: "buf_ok ?s" by (simp add: buf_ok_def isc_buffer_init_def ISC_BUFFER_VALID_def)
  have b: "buf_ok ?t" using buf_ok_init [of "replicate 9 0"] by simp
  then have t: "target_ok (DNS_NAME_INIT None) (Some ?t)" by (simp add: target_ok_def)
  have p: "pick_target (DNS_NAME_INIT None) (Some ?t) = Some ?t" using b by (simp add: pick_target_def buf_ok_def)
  have "chars False ([] @ [0x61]) ([] @ [fo False 0x61])" by (rule chars_plain [OF chars_Nil]) simp_all
  then have "label_text False ([0x61], [0x61])" by (simp add: label_text_def fo_def)
  from spells_absolute [of "[([0x61], [0x61])]" False] this
  have sp: "spells False (buf_remaining ?s) [[0x61], []] True" by (simp add: buf_remaining_def buf_content_def isc_buffer_init_def)
  have "text_fits (min 255 (buf_room ?t)) [[0x61], []] [] True" by (simp add: text_fits_def buf_room_def isc_buffer_init_def)
  then show ?thesis
    using fromtext_correct [OF name_target_init s t, of None "[]" False 0] sp p by (auto simp: origin_is_def)
qed

end
