(* ===== verification/NamePrint.thy ===== *)
theory NamePrint
  imports NameText
begin

text \<open>
  Printing names, \<^verbatim>\<open>dns_name_totext\<close>, \<^verbatim>\<open>dns_name_tofilenametext\<close>, \<^verbatim>\<open>dns_name_format\<close>, \<^verbatim>\<open>dns_name_tostring\<close> and
  \<^verbatim>\<open>dns_name_fromstring\<close> of \<^verbatim>\<open>lib/dns/name.c\<close>, and that what is printed is read back.
\<close>

section \<open>Printing\<close>

definition DNS_NAME_OMITFINALDOT :: u32 where "DNS_NAME_OMITFINALDOT = 0x01"
definition DNS_NAME_PRINCIPAL :: u32 where "DNS_NAME_PRINCIPAL = 0x02"

text \<open>The memory of the target, the position \<^verbatim>\<open>tdata\<close> in it and the room left.\<close>

record tt =
  x_mem :: bytes
  x_tdata :: nat
  x_trem :: nat

definition emit :: "bytes \<Rightarrow> tt \<Rightarrow> tt option" where
  "emit v st = do {
     m \<leftarrow> blit (x_mem st) (x_tdata st) v;
     Some (st\<lparr>x_mem := m, x_tdata := x_tdata st + length v, x_trem := usub (x_trem st) (length v)\<rparr>)
   }"

text \<open>The check that there is room for \<open>v\<close>, and the characters written.\<close>

definition emit_checked :: "bytes \<Rightarrow> tt \<Rightarrow> (isc_result \<times> tt) option" where
  "emit_checked v st =
     (if x_trem st < length v then Some (ISC_R_NOSPACE, st)
      else do { st \<leftarrow> emit v st; Some (ISC_R_SUCCESS, st) })"

definition totext_octet :: "bool \<Rightarrow> u8 \<Rightarrow> tt \<Rightarrow> (isc_result \<times> tt) option" where
  "totext_octet noesc c st =
     (if ((c = 0x40 \<or> c = 0x24) \<and> \<not> noesc) \<or>
         c = 0x22 \<or> c = 0x28 \<or> c = 0x29 \<or> c = 0x2e \<or> c = 0x3b \<or> c = 0x5c
      then emit_checked [0x5c, c] st
      else if c > 0x20 \<and> c < 0x7f then emit_checked [c] st
      else emit_checked [0x5c, 0x30 + (c div 100) mod 10, 0x30 + (c div 10) mod 10, 0x30 + c mod 10] st)"

fun totext_label :: "bool \<Rightarrow> bytes \<Rightarrow> nat \<Rightarrow> nat \<Rightarrow> tt \<Rightarrow> (isc_result \<times> tt) option" where
  "totext_label noesc nd pos 0 st = Some (ISC_R_SUCCESS, st)"
| "totext_label noesc nd pos (Suc count) st = do {
     c \<leftarrow> peek nd pos;
     (result, st) \<leftarrow> totext_octet noesc c st;
     if result \<noteq> ISC_R_SUCCESS then Some (result, st)
     else totext_label noesc nd (pos + 1) count st
   }"

text \<open>The loop over the labels; the results are \<^verbatim>\<open>saw_root\<close> and what is left of \<^verbatim>\<open>nlen\<close>.\<close>

fun totext_loop :: "bool \<Rightarrow> bytes \<Rightarrow> nat \<Rightarrow> nat \<Rightarrow> nat \<Rightarrow> tt \<Rightarrow> (isc_result \<times> bool \<times> nat \<times> tt) option" where
  "totext_loop noesc nd 0 pos nlen st = Some (ISC_R_SUCCESS, False, nlen, st)"
| "totext_loop noesc nd (Suc nlabels) pos nlen st =
     (if nlen > 0 \<and> x_trem st > 0 then do {
        c \<leftarrow> peek nd pos;
        let count = unat c;
        let nlen = nlen - 1;
        if count = 0 then Some (ISC_R_SUCCESS, True, nlen, st)
        else do {
          INSIST (count \<le> DNS_NAME_LABELLEN);
          INSIST (nlen \<ge> count);
          (result, st) \<leftarrow> totext_label noesc nd (pos + 1) count st;
          if result \<noteq> ISC_R_SUCCESS then Some (result, False, nlen, st)
          else do {
            (result, st) \<leftarrow> emit_checked [0x2e] st;
            if result \<noteq> ISC_R_SUCCESS then Some (result, False, nlen, st)
            else totext_loop noesc nd nlabels (pos + 1 + count) (nlen - count) st
          }
        }
      }
      else Some (ISC_R_SUCCESS, False, nlen, st))"

text \<open>
  \<open>filt\<close> is the thread's \<^verbatim>\<open>totext_filter_proc\<close>, which is given the buffer and the value \<^verbatim>\<open>used\<close> had.
\<close>

definition dns_name_totext ::
  "(isc_buffer \<Rightarrow> nat \<Rightarrow> (isc_result \<times> isc_buffer) option) option \<Rightarrow> dns_name \<Rightarrow> u32 \<Rightarrow> isc_buffer \<Rightarrow> (isc_result \<times> isc_buffer) option" where
  "dns_name_totext filt name options target = do {
     REQUIRE (VALID_NAME name);
     REQUIRE (ISC_BUFFER_VALID target);
     let omit_final_dot = (options AND DNS_NAME_OMITFINALDOT \<noteq> 0);
     let oused = b_used target;
     let tlen = isc_buffer_availablelength target;
     let st = \<lparr>x_mem = b_base target, x_tdata = b_used target, x_trem = tlen\<rparr>;
     is_root \<leftarrow> (if n_length name = 1 \<and> labels name = 1 then do { c \<leftarrow> peek (ndata name) 0; Some (c = 0) } else Some False);
     (result, saw_root, omit_final_dot, nlen, st) \<leftarrow>
       (if labels name = 0 \<and> n_length name = 0 then do {
          (result, st) \<leftarrow> emit_checked [0x40] st;
          Some (result, True, False, 0, st)
        }
        else if is_root then do {
          (result, st) \<leftarrow> emit_checked [0x2e] st;
          Some (result, True, False, 0, st)
        }
        else do {
          (result, saw_root, nlen, st) \<leftarrow>
            totext_loop (options AND DNS_NAME_PRINCIPAL \<noteq> 0) (ndata name) (labels name) 0 (n_length name) st;
          Some (result, saw_root, omit_final_dot, nlen, st)
        });
     let target = target\<lparr>b_base := x_mem st\<rparr>;
     if result \<noteq> ISC_R_SUCCESS then Some (result, target)
     else if nlen \<noteq> 0 \<and> x_trem st = 0 then Some (ISC_R_NOSPACE, target)
     else do {
       let (tdata, trem) = (if \<not> saw_root \<or> omit_final_dot then (x_tdata st - 1, uadd (x_trem st) 1) else (x_tdata st, x_trem st));
       m \<leftarrow> (if trem > 0 then poke (x_mem st) tdata 0 else Some (x_mem st));
       target \<leftarrow> isc_buffer_add (target\<lparr>b_base := m\<rparr>) (usub tlen trem);
       case filt of
         Some proc \<Rightarrow> proc target oused
       | None \<Rightarrow> Some (ISC_R_SUCCESS, target)
     }
   }"

section \<open>Strings\<close>

definition DNS_NAME_MAXTEXT :: nat where "DNS_NAME_MAXTEXT = 1023"
definition DNS_NAME_FORMATSIZE :: nat where "DNS_NAME_FORMATSIZE = DNS_NAME_MAXTEXT + 1"

text \<open>
  \<open>cp\<close> is the caller's array of \<open>sz\<close> octets; the result is what it holds afterwards.  \<^verbatim>\<open>snprintf\<close> writes as much of \<^verbatim>\<open><unknown>\<close>
  as fits, and a null octet.
\<close>

definition unknown_text :: bytes where "unknown_text = [0x3c, 0x75, 0x6e, 0x6b, 0x6e, 0x6f, 0x77, 0x6e, 0x3e]"

definition dns_name_format ::
  "(isc_buffer \<Rightarrow> nat \<Rightarrow> (isc_result \<times> isc_buffer) option) option \<Rightarrow> dns_name \<Rightarrow> bytes \<Rightarrow> nat \<Rightarrow> bytes option" where
  "dns_name_format filt name cp sz = do {
     REQUIRE (sz > 0);
     let buf = isc_buffer_init (take (sz - 1) cp) (sz - 1);
     (result, buf) \<leftarrow> dns_name_totext filt name DNS_NAME_OMITFINALDOT buf;
     if result = ISC_R_SUCCESS
     then do {
       buf \<leftarrow> isc_buffer_putuint8 buf 0;
       Some (b_base buf @ drop (sz - 1) cp)
     }
     else blit (b_base buf @ drop (sz - 1) cp) 0 (take (sz - 1) unknown_text @ [0])
   }"

text \<open>The string that is allocated, without the null octet that ends it.\<close>

definition dns_name_tostring ::
  "(isc_buffer \<Rightarrow> nat \<Rightarrow> (isc_result \<times> isc_buffer) option) option \<Rightarrow> dns_name \<Rightarrow> (isc_result \<times> bytes) option" where
  "dns_name_tostring filt name = do {
     REQUIRE (VALID_NAME name);
     (result, buf) \<leftarrow> dns_name_totext filt name 0 (isc_buffer_init (replicate DNS_NAME_FORMATSIZE 0) DNS_NAME_FORMATSIZE);
     if result \<noteq> ISC_R_SUCCESS then Some (result, [])
     else do {
       reg \<leftarrow> isc_buffer_usedregion buf;
       v \<leftarrow> fetch (r_base reg) 0 (r_length reg);
       Some (ISC_R_SUCCESS, v)
     }
   }"


definition dns_name_fromstring ::
  "dns_name \<Rightarrow> bytes \<Rightarrow> dns_name option \<Rightarrow> u32 \<Rightarrow> (isc_result \<times> dns_name) option" where
  "dns_name_fromstring target src origin options = do {
     let buf = isc_buffer_init src (length src);
     buf \<leftarrow> isc_buffer_add buf (length src);
     let own = (BINDABLE target \<and> n_buffer target \<noteq> None);
     let name = (if own then target else dns_fixedname_initname);
     (result, name, buf, tg) \<leftarrow> dns_name_fromtext name buf origin options None;
     if result \<noteq> ISC_R_SUCCESS then Some (result, if own then name else target)
     else if own then Some (result, name)
     else dns_name_dupwithoffsets name target
   }"

section \<open>File names\<close>

definition hexdigit :: "u8 \<Rightarrow> u8" where
  "hexdigit d = (if d < 10 then 0x30 + d else 0x41 + (d - 10))"

text \<open>\<^verbatim>\<open>snprintf(tdata, trem, "%%%02X", c)\<close> writes three characters and a null octet; \<^verbatim>\<open>tdata\<close> moves by three.\<close>

definition filename_octet :: "u8 \<Rightarrow> tt \<Rightarrow> (isc_result \<times> tt) option" where
  "filename_octet c st =
     (if (c \<ge> 0x30 \<and> c \<le> 0x39) \<or> (c \<ge> 0x41 \<and> c \<le> 0x5a) \<or> (c \<ge> 0x61 \<and> c \<le> 0x7a) \<or> c = 0x2d \<or> c = 0x5f
      then emit_checked [if c \<ge> 0x41 \<and> c \<le> 0x5a then c + 0x20 else c] st
      else if x_trem st < 4 then Some (ISC_R_NOSPACE, st)
      else do {
        st \<leftarrow> emit [0x25, hexdigit (c div 16), hexdigit (c mod 16)] st;
        m \<leftarrow> poke (x_mem st) (x_tdata st) 0;
        Some (ISC_R_SUCCESS, st\<lparr>x_mem := m\<rparr>)
      })"

fun filename_label :: "bytes \<Rightarrow> nat \<Rightarrow> nat \<Rightarrow> tt \<Rightarrow> (isc_result \<times> tt) option" where
  "filename_label nd pos 0 st = Some (ISC_R_SUCCESS, st)"
| "filename_label nd pos (Suc count) st = do {
     c \<leftarrow> peek nd pos;
     (result, st) \<leftarrow> filename_octet c st;
     if result \<noteq> ISC_R_SUCCESS then Some (result, st)
     else filename_label nd (pos + 1) count st
   }"

fun filename_loop :: "bytes \<Rightarrow> nat \<Rightarrow> nat \<Rightarrow> nat \<Rightarrow> tt \<Rightarrow> (isc_result \<times> nat \<times> tt) option" where
  "filename_loop nd 0 pos nlen st = Some (ISC_R_SUCCESS, nlen, st)"
| "filename_loop nd (Suc nlabels) pos nlen st =
     (if nlen > 0 \<and> x_trem st > 0 then do {
        c \<leftarrow> peek nd pos;
        let count = unat c;
        let nlen = nlen - 1;
        if count = 0 then Some (ISC_R_SUCCESS, nlen, st)
        else do {
          INSIST (count \<le> DNS_NAME_LABELLEN);
          INSIST (nlen \<ge> count);
          (result, st) \<leftarrow> filename_label nd (pos + 1) count st;
          if result \<noteq> ISC_R_SUCCESS then Some (result, nlen, st)
          else do {
            (result, st) \<leftarrow> emit_checked [0x2e] st;
            if result \<noteq> ISC_R_SUCCESS then Some (result, nlen, st)
            else filename_loop nd nlabels (pos + 1 + count) (nlen - count) st
          }
        }
      }
      else Some (ISC_R_SUCCESS, nlen, st))"

definition dns_name_tofilenametext :: "dns_name \<Rightarrow> bool \<Rightarrow> isc_buffer \<Rightarrow> (isc_result \<times> isc_buffer) option" where
  "dns_name_tofilenametext name omit_final_dot target = do {
     REQUIRE (VALID_NAME name);
     REQUIRE (is_absolute name);
     REQUIRE (ISC_BUFFER_VALID target);
     let tlen = isc_buffer_availablelength target;
     let st = \<lparr>x_mem = b_base target, x_tdata = b_used target, x_trem = tlen\<rparr>;
     is_root \<leftarrow> (if n_length name = 1 \<and> labels name = 1 then do { c \<leftarrow> peek (ndata name) 0; Some (c = 0) } else Some False);
     (result, omit_final_dot, nlen, st) \<leftarrow>
       (if is_root then do {
          (result, st) \<leftarrow> emit_checked [0x2e] st;
          Some (result, False, 0, st)
        }
        else do {
          (result, nlen, st) \<leftarrow> filename_loop (ndata name) (labels name) 0 (n_length name) st;
          Some (result, omit_final_dot, nlen, st)
        });
     let target = target\<lparr>b_base := x_mem st\<rparr>;
     if result \<noteq> ISC_R_SUCCESS then Some (result, target)
     else if nlen \<noteq> 0 \<and> x_trem st = 0 then Some (ISC_R_NOSPACE, target)
     else do {
       target \<leftarrow> isc_buffer_add target (usub tlen (if omit_final_dot then uadd (x_trem st) 1 else x_trem st));
       Some (ISC_R_SUCCESS, target)
     }
   }"


section \<open>What is printed\<close>

definition esc_octet :: "bool \<Rightarrow> u8 \<Rightarrow> bytes" where
  "esc_octet noesc c =
     (if ((c = 0x40 \<or> c = 0x24) \<and> \<not> noesc) \<or>
         c = 0x22 \<or> c = 0x28 \<or> c = 0x29 \<or> c = 0x2e \<or> c = 0x3b \<or> c = 0x5c
      then [0x5c, c]
      else if c > 0x20 \<and> c < 0x7f then [c]
      else [0x5c, 0x30 + (c div 100) mod 10, 0x30 + (c div 10) mod 10, 0x30 + c mod 10])"

definition esc_label :: "bool \<Rightarrow> bytes \<Rightarrow> bytes" where
  "esc_label noesc l = concat (map (esc_octet noesc) l)"

definition label_texts :: "bool \<Rightarrow> bytes list \<Rightarrow> (bytes \<times> bytes) list" where
  "label_texts noesc ls = map (\<lambda>l. (esc_label noesc l, l)) ls"

abbreviation dots :: "bool \<Rightarrow> bytes list \<Rightarrow> bytes" where
  "dots noesc ls \<equiv> dotted (label_texts noesc ls)"

text \<open>The text of a name, and the room \<^verbatim>\<open>dns_name_totext\<close> wants for it.\<close>

definition name_text :: "bool \<Rightarrow> bool \<Rightarrow> bytes list \<Rightarrow> bytes" where
  "name_text noesc omit ls =
     (if ls = [] then [0x40] else if ls = [[]] then [0x2e]
      else if rooted ls then (if omit then butlast (dots noesc (butlast ls)) else dots noesc (butlast ls))
      else butlast (dots noesc ls))"

definition text_need :: "bool \<Rightarrow> bytes list \<Rightarrow> nat" where
  "text_need noesc ls =
     (if ls = [] \<or> ls = [[]] then 1
      else if rooted ls then length (dots noesc (butlast ls)) + 1 else length (dots noesc ls))"

text \<open>\<open>tt_at pre m st\<close>: the text so far ends memory \<open>pre\<close>, the whole is \<open>tot\<close> long and \<open>room\<close> octets are left.\<close>

definition tt_at :: "bytes \<Rightarrow> nat \<Rightarrow> nat \<Rightarrow> tt \<Rightarrow> bool" where
  "tt_at pre room tot st \<longleftrightarrow> length (x_mem st) = tot \<and> take (length pre) (x_mem st) = pre \<and> x_tdata st = length pre \<and>
     x_trem st = room \<and> length pre + room = tot \<and> tot < 2 ^ 32"

lemma emit_checked_at:
  assumes "tt_at pre room tot st"
  shows "if length v \<le> room then \<exists>st'. emit_checked v st = Some (ISC_R_SUCCESS, st') \<and> tt_at (pre @ v) (room - length v) tot st'
    else emit_checked v st = Some (ISC_R_NOSPACE, st)"
proof (cases "length v \<le> room")
  case True
  define tail where "tail = drop (length pre) (x_mem st)"
  have m: "x_mem st = pre @ tail" "length tail = room"
    using assms append_take_drop_id [of "length pre" "x_mem st"] by (auto simp: tt_at_def tail_def)
  have "blit (x_mem st) (x_tdata st) v = Some (pre @ v @ drop (length v) tail)"
    using assms True by (simp add: m blit_eq_Some tt_at_def)
  moreover have "usub (x_trem st) (length v) = room - length v"
    using usub_eq [of "length v" room] assms True by (simp add: tt_at_def)
  ultimately show ?thesis using True assms m
    by (auto simp: emit_checked_def emit_def tt_at_def)
qed (use assms in \<open>auto simp: emit_checked_def tt_at_def\<close>)

lemma totext_octet_eq: "totext_octet noesc c st = emit_checked (esc_octet noesc c) st"
  unfolding totext_octet_def esc_octet_def if_distrib [of "\<lambda>v. emit_checked v st"] by (rule refl)

lemma totext_label_at:
  assumes "tt_at pre room tot st" "take (length l) (drop pos nd) = l"
  shows "\<exists>r st'. totext_label noesc nd pos (length l) st = Some (r, st') \<and> (\<exists>p q. tt_at (pre @ p) q tot st') \<and>
    (if length (esc_label noesc l) \<le> room
     then r = ISC_R_SUCCESS \<and> tt_at (pre @ esc_label noesc l) (room - length (esc_label noesc l)) tot st'
     else r = ISC_R_NOSPACE)"
  using assms
proof (induction l arbitrary: pre room st pos)
  case Nil
  then show ?case by (auto simp: esc_label_def intro!: exI [of _ "[]"])
next
  case (Cons c l)
  have p: "pos < length nd" "nd ! pos = c" "take (length l) (drop (Suc pos) nd) = l"
  proof -
    show l: "pos < length nd" using Cons.prems(2) by (cases "pos < length nd") auto
    show "nd ! pos = c" "take (length l) (drop (Suc pos) nd) = l"
      using Cons.prems(2) Cons_nth_drop_Suc [OF l] by (metis length_Cons list.inject take_Suc_Cons)+
  qed
  show ?case
  proof (cases "length (esc_octet noesc c) \<le> room")
    case True
    then obtain st1 where s1: "emit_checked (esc_octet noesc c) st = Some (ISC_R_SUCCESS, st1)"
      "tt_at (pre @ esc_octet noesc c) (room - length (esc_octet noesc c)) tot st1"
      using emit_checked_at [OF Cons.prems(1), of "esc_octet noesc c"] by auto
    from Cons.IH [OF s1(2) p(3)] obtain r st' p' q where
      "totext_label noesc nd (Suc pos) (length l) st1 = Some (r, st')" "tt_at ((pre @ esc_octet noesc c) @ p') q tot st'"
      "if length (esc_label noesc l) \<le> room - length (esc_octet noesc c)
       then r = ISC_R_SUCCESS \<and> tt_at ((pre @ esc_octet noesc c) @ esc_label noesc l)
         (room - length (esc_octet noesc c) - length (esc_label noesc l)) tot st'
       else r = ISC_R_NOSPACE" by blast
    then show ?thesis using p s1 True
      by (auto simp: totext_octet_eq esc_label_def split: if_splits intro!: exI [of _ "esc_octet noesc c @ p'"])
  next
    case False
    then have "emit_checked (esc_octet noesc c) st = Some (ISC_R_NOSPACE, st)"
      using emit_checked_at [OF Cons.prems(1), of "esc_octet noesc c"] by simp
    then show ?thesis using p False Cons.prems(1) by (auto simp: totext_octet_eq esc_label_def intro!: exI [of _ "[]"])
  qed
qed


definition nonroot :: "bytes list \<Rightarrow> bytes list" where
  "nonroot ls = (if rooted ls then butlast ls else ls)"

lemma nonroot_Cons: "l \<noteq> [] \<Longrightarrow> nonroot (l # ls) = l # nonroot ls"
  by (auto simp: nonroot_def rooted_def)

definition loop_need :: "bool \<Rightarrow> bytes list \<Rightarrow> nat" where
  "loop_need noesc ls = length (dots noesc (nonroot ls)) + (if rooted ls then 1 else 0)"

lemma dots_Cons: "dots noesc (l # ls) = esc_label noesc l @ 0x2e # dots noesc ls"
  by (simp add: label_texts_def)

lemma loop_need_Cons: "l \<noteq> [] \<Longrightarrow> loop_need noesc (l # ls) = length (esc_label noesc l) + 1 + loop_need noesc ls"
  by (auto simp: loop_need_def nonroot_Cons dots_Cons rooted_def split: if_splits)

text \<open>The loop prints all labels, or runs out of room.\<close>

definition loop_done :: "bytes \<Rightarrow> nat \<Rightarrow> nat \<Rightarrow> bool \<Rightarrow> bytes list \<Rightarrow> isc_result \<times> bool \<times> nat \<times> tt \<Rightarrow> bool" where
  "loop_done pre room tot noesc ls = (\<lambda>(r, saw_root, n, st).
     (\<exists>p q. tt_at (pre @ p) q tot st) \<and>
     (if loop_need noesc ls \<le> room
      then r = ISC_R_SUCCESS \<and> saw_root = rooted ls \<and> n = 0 \<and>
        tt_at (pre @ dots noesc (nonroot ls)) (room - length (dots noesc (nonroot ls))) tot st
      else r = ISC_R_NOSPACE \<or> (r = ISC_R_SUCCESS \<and> n \<noteq> 0 \<and> x_trem st = 0)))"

lemma tt_at_same: "tt_at pre room tot st \<Longrightarrow> \<exists>p q. tt_at (pre @ p) q tot st"
  by (auto intro!: exI [of _ "[]"])

lemma totext_loop_runs:
  assumes "tt_at pre room tot st" "labels_ok ls" "drop pos nd = wire ls @ rest"
  shows "\<exists>res. totext_loop noesc nd (length ls) pos (length (wire ls)) st = Some res \<and> loop_done pre room tot noesc ls res"
  using assms
proof (induction ls arbitrary: pre room st pos)
  case Nil
  then show ?case using tt_at_same [OF Nil.prems(1)]
    by (auto simp: loop_done_def loop_need_def nonroot_def rooted_def label_texts_def)
next
  case (Cons l ls)
  have l: "length l \<le> 63" "ls \<noteq> [] \<Longrightarrow> l \<noteq> []" "labels_ok ls" using labels_ok_Cons [OF Cons.prems(2)] by auto
  have pos: "pos < length nd" "nd ! pos = of_nat (length l)" "drop (Suc pos) nd = l @ wire ls @ rest"
  proof -
    show p: "pos < length nd" using Cons.prems(3) by (cases "pos < length nd") auto
    have "drop pos nd = nd ! pos # drop (Suc pos) nd" using p by (rule Cons_nth_drop_Suc [symmetric])
    then show "nd ! pos = of_nat (length l)" "drop (Suc pos) nd = l @ wire ls @ rest" using Cons.prems(3) by auto
  qed
  have n: "unat (nd ! pos) = length l" using pos(2) l(1) by simp
  have tr: "x_trem st = room" using Cons.prems(1) by (simp add: tt_at_def)
  note same = tt_at_same [OF Cons.prems(1)]
  consider "room = 0" | "room > 0" "l = []" | "room > 0" "l \<noteq> []" by blast
  then show ?case
  proof cases
    case 1
    have "loop_need noesc (l # ls) > 0"
    proof (cases "l = []")
      case True
      then show ?thesis using l(2) by (auto simp: loop_need_def rooted_def)
    qed (simp add: loop_need_Cons)
    then show ?thesis using 1 tr same by (auto simp: loop_done_def)
  next
    case 2
    then have ls: "ls = []" using l(2) by auto
    then show ?thesis using 2 tr same pos(1) n Cons.prems(1)
      by (auto simp: loop_done_def loop_need_def nonroot_def rooted_def label_texts_def)
  next
    case 3
    from totext_label_at [OF Cons.prems(1), of l "Suc pos" nd noesc] pos(3) obtain r st1 where
      s1: "totext_label noesc nd (Suc pos) (length l) st = Some (r, st1)" "\<exists>p q. tt_at (pre @ p) q tot st1"
        "if length (esc_label noesc l) \<le> room
         then r = ISC_R_SUCCESS \<and> tt_at (pre @ esc_label noesc l) (room - length (esc_label noesc l)) tot st1
         else r = ISC_R_NOSPACE" by auto
    show ?thesis
    proof (cases "length (esc_label noesc l) \<le> room")
      case False
      then have "r = ISC_R_NOSPACE" using s1(3) by simp
      then show ?thesis using False 3 tr pos(1) n s1(1,2) l(1) by (auto simp: loop_done_def loop_need_Cons)
    next
      case True
      then have r: "r = ISC_R_SUCCESS" "tt_at (pre @ esc_label noesc l) (room - length (esc_label noesc l)) tot st1" using s1(3) by auto
      show ?thesis
      proof (cases "length (esc_label noesc l) + 1 \<le> room")
        case False
        then have "emit_checked [0x2e] st1 = Some (ISC_R_NOSPACE, st1)" using emit_checked_at [OF r(2), of "[0x2e]"] by simp
        then show ?thesis using False 3 tr pos(1) n s1(1,2) r l(1) by (auto simp: loop_done_def loop_need_Cons)
      next
        case fits: True
        then obtain st2 where s2: "emit_checked [0x2e] st1 = Some (ISC_R_SUCCESS, st2)"
          "tt_at ((pre @ esc_label noesc l) @ [0x2e]) (room - length (esc_label noesc l) - 1) tot st2"
        proof -
          have "length [0x2e :: u8] \<le> room - length (esc_label noesc l)" using fits by simp
          then show thesis using emit_checked_at [OF r(2), of "[0x2e]"] that by (simp only: if_True) auto
        qed
        have "drop (Suc (pos + length l)) nd = wire ls @ rest"
          using pos(3) by (metis add_Suc append_eq_conv_conj drop_drop add.commute)
        from Cons.IH [OF s2(2) l(3) this] obtain res where
          i: "totext_loop noesc nd (length ls) (Suc (pos + length l)) (length (wire ls)) st2 = Some res"
            "loop_done ((pre @ esc_label noesc l) @ [0x2e]) (room - length (esc_label noesc l) - 1) tot noesc ls res" by blast
        have "totext_loop noesc nd (length (l # ls)) pos (length (wire (l # ls))) st = Some res"
          using 3 tr pos(1) n s1(1) r(1) s2(1) i(1) l(1) by simp
        moreover have "loop_done pre room tot noesc (l # ls) res"
        proof -
          have e: "(pre @ esc_label noesc l) @ [0x2e] @ q = pre @ (esc_label noesc l @ 0x2e # q)" for q by simp
          have ro: "rooted (l # ls) = rooted ls" using 3(2) by (auto simp: rooted_def)
          show ?thesis using i(2) fits 3(2)
            unfolding loop_done_def loop_need_Cons [OF 3(2)] nonroot_Cons [OF 3(2)] dots_Cons ro
            by (auto simp: e split: if_splits)
        qed
        ultimately show ?thesis by blast
      qed
    qed
  qed
qed


lemma text_need_eq: "ls \<noteq> [] \<Longrightarrow> ls \<noteq> [[]] \<Longrightarrow> text_need noesc ls = loop_need noesc ls"
  by (simp add: text_need_def loop_need_def nonroot_def)

lemma dots_nonempty: "ls \<noteq> [] \<Longrightarrow> dots noesc ls \<noteq> []"
  by (cases ls) (auto simp: dots_Cons)

text \<open>Ending the text: the buffer has \<open>v\<close> appended.\<close>

lemma text_ends:
  assumes b: "buf_ok b" and a: "tt_at (buf_content b @ v @ w) q (length (b_base b)) st"
  shows "\<exists>b' m. (if q + length w > 0 then poke (x_mem st) (x_tdata st - length w) 0 else Some (x_mem st)) = Some m \<and>
     isc_buffer_add (b\<lparr>b_base := m\<rparr>) (usub (buf_room b) (q + length w)) = Some b' \<and> appended b v b'"
proof -
  let ?c = "buf_content b"
  have lb: "length ?c = b_used b" "length (b_base b) = b_length b" "b_length b < 2 ^ 32" "b_used b \<le> b_length b"
    using b by (auto simp: buf_ok_def buf_content_def)
  have A: "length (x_mem st) = b_length b" "take (length (?c @ v @ w)) (x_mem st) = ?c @ v @ w" "x_tdata st = length (?c @ v @ w)"
    "b_used b + length v + length w + q = b_length b" using a lb by (auto simp: tt_at_def)
  define m where "m = (if q + length w > 0 then (x_mem st)[b_used b + length v := 0] else x_mem st)"
  have p: "(if q + length w > 0 then poke (x_mem st) (x_tdata st - length w) 0 else Some (x_mem st)) = Some m"
  proof (cases "q + length w > 0")
    case True
    then have "b_used b + length v < length (x_mem st)" using A(1,4) by linarith
    then show ?thesis using True A(3) lb(1) by (simp add: m_def)
  qed (simp add: m_def)
  have "take (length (?c @ v)) (x_mem st) = ?c @ v"
  proof -
    have "take (length (?c @ v)) (x_mem st) = take (length (?c @ v)) (take (length (?c @ v @ w)) (x_mem st))"
      by (simp add: min_absorb1)
    also have "\<dots> = ?c @ v" unfolding A(2) by simp
    finally show ?thesis .
  qed
  then have t: "take (b_used b + length v) m = ?c @ v" using lb(1) by (auto simp: m_def)
  have u: "usub (buf_room b) (q + length w) = length v"
    using usub_eq [of "q + length w" "buf_room b"] A(4) lb by (auto simp: buf_room_def)
  have lm: "length m = b_length b" using A by (auto simp: m_def)
  have ok: "buf_ok (b\<lparr>b_base := m\<rparr>)" using b lm by (simp add: buf_ok_def ISC_BUFFER_VALID_def)
  have add: "isc_buffer_add (b\<lparr>b_base := m\<rparr>) (length v) = Some (b\<lparr>b_base := m, b_used := b_used b + length v\<rparr>)"
    using isc_buffer_add_ok [OF ok, of "length v"] A(4) by (simp add: buf_room_def)
  have "buf_content (b\<lparr>b_base := m, b_used := b_used b + length v\<rparr>) = ?c @ v" using t by (simp add: buf_content_def)
  moreover have "buf_ok (b\<lparr>b_base := m, b_used := b_used b + length v\<rparr>)"
    using ok A(4) by (auto simp: buf_ok_def ISC_BUFFER_VALID_def)
  ultimately have "appended b v (b\<lparr>b_base := m, b_used := b_used b + length v\<rparr>)"
    using b lb(1) by (auto simp: appended_def buf_remaining_def buf_ok_def)
  then show ?thesis using p add u by auto
qed


lemma name_lengths:
  assumes "name_is n ls"
  shows "n_length n = length (wire ls)" "labels n = length ls" "drop 0 (ndata n) = wire ls @ drop (length (wire ls)) (ndata n)" "labels_ok ls"
    "VALID_NAME n" "n_length n \<le> length (ndata n)"
proof -
  have r: "take (n_length n) (ndata n) = wire ls" "n_length n \<le> length (ndata n)" "labels n = length ls" "labels_ok ls" "VALID_NAME n"
    using assms by (auto simp: name_is_def name_rep_def)
  then show n: "n_length n = length (wire ls)" by (metis length_take min.absorb2)
  show "drop 0 (ndata n) = wire ls @ drop (length (wire ls)) (ndata n)" using r(1) n by (metis append_take_drop_id drop0)
qed (use assms in \<open>auto simp: name_is_def name_rep_def\<close>)

lemma is_root_test:
  assumes "name_is n ls"
  shows "(if n_length n = 1 \<and> labels n = 1 then do { c \<leftarrow> peek (ndata n) 0; Some (c = 0) } else Some False) = Some (ls = [[]])"
proof (cases "n_length n = 1 \<and> labels n = 1")
  case True
  then obtain l where "ls = [l]" "l = []" using name_lengths(1,2) [OF assms] by (auto simp: length_Suc_conv)
  moreover from this have "ndata n = 0 # drop 1 (ndata n)" using name_lengths(3) [OF assms] by simp
  then have "ndata n \<noteq> []" "ndata n ! 0 = 0" by (metis list.distinct(1), metis nth_Cons_0)
  ultimately show ?thesis using True by simp
next
  case False
  then show ?thesis using name_lengths(1,2) [OF assms] by auto
qed

lemma tt_start:
  assumes "buf_ok b"
  shows "tt_at (buf_content b) (buf_room b) (length (b_base b)) \<lparr>x_mem = b_base b, x_tdata = b_used b, x_trem = buf_room b\<rparr>"
  using assms by (auto simp: tt_at_def buf_ok_def buf_content_def buf_room_def)

text \<open>The end of \<^verbatim>\<open>dns_name_totext\<close>.\<close>

definition totext_end :: "isc_buffer \<Rightarrow> isc_result \<times> bool \<times> bool \<times> nat \<times> tt \<Rightarrow> (isc_result \<times> isc_buffer) option" where
  "totext_end target = (\<lambda>(result, saw_root, omit_final_dot, nlen, st).
     if result \<noteq> ISC_R_SUCCESS then Some (result, target\<lparr>b_base := x_mem st\<rparr>)
     else if nlen \<noteq> 0 \<and> x_trem st = 0 then Some (ISC_R_NOSPACE, target\<lparr>b_base := x_mem st\<rparr>)
     else do {
       let (tdata, trem) = (if \<not> saw_root \<or> omit_final_dot then (x_tdata st - 1, uadd (x_trem st) 1) else (x_tdata st, x_trem st));
       m \<leftarrow> (if trem > 0 then poke (x_mem st) tdata 0 else Some (x_mem st));
       target \<leftarrow> isc_buffer_add (target\<lparr>b_base := m\<rparr>) (usub (buf_room target) trem);
       Some (ISC_R_SUCCESS, target)
     })"

lemma totext_end_ok:
  assumes b: "buf_ok b" and a: "tt_at (buf_content b @ v) q (length (b_base b)) st" and v: "v \<noteq> []"
  shows "\<exists>b'. totext_end b (ISC_R_SUCCESS, saw_root, omit, 0, st) = Some (ISC_R_SUCCESS, b') \<and>
    appended b (if \<not> saw_root \<or> omit then butlast v else v) b'"
proof (cases "\<not> saw_root \<or> omit")
  case True
  have a2: "tt_at (buf_content b @ butlast v @ [last v]) q (length (b_base b)) st" using a v by simp
  have lt: "x_trem st = q" "q < 2 ^ 32 - 1" using a v by (auto simp: tt_at_def neq_Nil_conv)
  then have u: "uadd (x_trem st) 1 = q + 1" using uadd_eq [of q 1] by simp
  obtain b' m where "(if q + 1 > 0 then poke (x_mem st) (x_tdata st - 1) 0 else Some (x_mem st)) = Some m"
    "isc_buffer_add (b\<lparr>b_base := m\<rparr>) (usub (buf_room b) (q + 1)) = Some b'" "appended b (butlast v) b'"
    using text_ends [OF b a2] by auto
  then show ?thesis using True u by (auto simp: totext_end_def)
next
  case False
  have a2: "tt_at (buf_content b @ v @ []) q (length (b_base b)) st" using a by simp
  have "x_trem st = q" using a by (simp add: tt_at_def)
  then show ?thesis using False text_ends [OF b a2] by (auto simp: totext_end_def)
qed


lemma totext_eq:
  assumes "name_is n ls" "buf_ok b"
  shows "dns_name_totext None n options b = do {
    let st = \<lparr>x_mem = b_base b, x_tdata = b_used b, x_trem = buf_room b\<rparr>;
    r \<leftarrow> (if ls = [] \<or> ls = [[]] then do {
          (result, st) \<leftarrow> emit_checked [if ls = [] then 0x40 else 0x2e] st;
          Some (result, True, False, 0, st)
        }
        else do {
          (result, saw_root, nlen, st) \<leftarrow>
            totext_loop (options AND DNS_NAME_PRINCIPAL \<noteq> 0) (ndata n) (length ls) 0 (length (wire ls)) st;
          Some (result, saw_root, options AND DNS_NAME_OMITFINALDOT \<noteq> 0, nlen, st)
        });
    totext_end b r
  }"
proof -
  note nl = name_lengths [OF assms(1)]
  have v: "ISC_BUFFER_VALID b" using assms(2) by (simp add: buf_ok_def)
  have e: "labels n = 0 \<and> n_length n = 0 \<longleftrightarrow> ls = []" using nl(1,2) by auto
  show ?thesis
    unfolding dns_name_totext_def is_root_test [OF assms(1)] e totext_end_def Let_def
    using nl v assms(2) by (auto simp: case_prod_unfold Let_def cong: if_cong)
qed

lemma totext_runs:
  assumes n: "name_is n ls" and b: "buf_ok b" and o': "noesc = (options AND DNS_NAME_PRINCIPAL \<noteq> 0)" "omit = (options AND DNS_NAME_OMITFINALDOT \<noteq> 0)"
  shows "\<exists>r b'. dns_name_totext None n options b = Some (r, b') \<and>
    (if text_need noesc ls \<le> buf_room b then r = ISC_R_SUCCESS \<and> appended b (name_text noesc omit ls) b' else r = ISC_R_NOSPACE)"
proof -
  note nl = name_lengths [OF n]
  let ?st = "\<lparr>x_mem = b_base b, x_tdata = b_used b, x_trem = buf_room b\<rparr>"
  show ?thesis
  proof (cases "ls = [] \<or> ls = [[]]")
    case True
    let ?v = "[if ls = [] then 0x40 else 0x2e] :: bytes"
    show ?thesis
    proof (cases "1 \<le> buf_room b")
      case fits: True
      then obtain st1 where s1: "emit_checked ?v ?st = Some (ISC_R_SUCCESS, st1)" "tt_at (buf_content b @ ?v) (buf_room b - 1) (length (b_base b)) st1"
        using emit_checked_at [OF tt_start [OF b], of ?v] by auto
      obtain b' where "totext_end b (ISC_R_SUCCESS, True, False, 0, st1) = Some (ISC_R_SUCCESS, b')" "appended b ?v b'"
        using totext_end_ok [OF b s1(2), of True False] by auto
      then show ?thesis
        using True fits s1(1) by (auto simp: totext_eq [OF n b] text_need_def name_text_def)
    next
      case False
      then have "emit_checked ?v ?st = Some (ISC_R_NOSPACE, ?st)" using emit_checked_at [OF tt_start [OF b], of ?v] by simp
      then show ?thesis using True False by (auto simp: totext_eq [OF n b] text_need_def totext_end_def)
    qed
  next
    case False
    from totext_loop_runs [OF tt_start [OF b] nl(4,3), of noesc] obtain r saw nlen st1 where
      l: "totext_loop noesc (ndata n) (length ls) 0 (length (wire ls)) ?st = Some (r, saw, nlen, st1)"
        "loop_done (buf_content b) (buf_room b) (length (b_base b)) noesc ls (r, saw, nlen, st1)" by (metis prod_cases4)
    have run: "dns_name_totext None n options b = totext_end b (r, saw, omit, nlen, st1)"
      using False l(1) o' by (simp add: totext_eq [OF n b])
    show ?thesis
    proof (cases "text_need noesc ls \<le> buf_room b")
      case True
      then have d: "r = ISC_R_SUCCESS" "saw = rooted ls" "nlen = 0"
        "tt_at (buf_content b @ dots noesc (nonroot ls)) (buf_room b - length (dots noesc (nonroot ls))) (length (b_base b)) st1"
        using l(2) False text_need_eq [of ls noesc] by (auto simp: loop_done_def)
      have "nonroot ls \<noteq> []" using False by (auto simp: nonroot_def rooted_def) (metis append_butlast_last_id append_Nil)
      then obtain b' where "totext_end b (ISC_R_SUCCESS, rooted ls, omit, 0, st1) = Some (ISC_R_SUCCESS, b')"
        "appended b (if \<not> rooted ls \<or> omit then butlast (dots noesc (nonroot ls)) else dots noesc (nonroot ls)) b'"
        using totext_end_ok [OF b d(4) dots_nonempty] by blast
      then show ?thesis using True False d run by (auto simp: name_text_def nonroot_def split: if_splits)
    next
      case big: False
      then have "r = ISC_R_NOSPACE \<or> (r = ISC_R_SUCCESS \<and> nlen \<noteq> 0 \<and> x_trem st1 = 0)"
        using l(2) False text_need_eq [of ls noesc] by (simp add: loop_done_def)
      then show ?thesis using big run by (auto simp: totext_end_def)
    qed
  qed
qed

section \<open>What is printed is read back\<close>

lemma digit_octet:
  assumes "d < 10"
  shows "digitchar (0x30 + d)" "unat ((0x30 + d) - 0x30) = unat (d :: u8)"
proof -
  have d: "unat d < 10" using assms by (simp add: word_less_nat_alt)
  then have "unat (0x30 + d) = 48 + unat d" by (simp add: unat_word_ariths)
  then show "digitchar (0x30 + d)" using d by (simp add: digitchar_def word_le_nat_alt)
qed simp

lemma decimal_digits:
  assumes "(n :: nat) < 1000"
  shows "100 * (n div 100 mod 10) + 10 * (n div 10 mod 10) + n mod 10 = n"
proof -
  have "n div 100 = n div 10 div 10" by (simp add: div_mult2_eq [of n 10 10, simplified])
  moreover have "n div 10 div 10 < 10" using assms by (simp add: div_mult2_eq [symmetric])
  moreover have "10 * (n div 10 div 10) + n div 10 mod 10 = n div 10" "10 * (n div 10) + n mod 10 = n" by (simp_all only: mult_div_mod_eq)
  ultimately show ?thesis by (simp only: mod_less)
qed

lemma decimal_octet:
  fixes c :: u8
  defines "ds \<equiv> [0x30 + (c div 100) mod 10, 0x30 + (c div 10) mod 10, 0x30 + c mod 10]"
  shows "\<forall>x\<in>set ds. digitchar x" "decval ds = unat c"
proof -
  have m: "x mod 10 < 10" for x :: u8 by (simp add: word_less_nat_alt unat_mod)
  show "\<forall>x\<in>set ds. digitchar x" unfolding ds_def using digit_octet(1) [OF m] by simp
  have "decval ds = 100 * (unat c div 100 mod 10) + 10 * (unat c div 10 mod 10) + unat c mod 10"
    unfolding ds_def decval_def by (simp add: unat_mod unat_div)
  also have "\<dots> = unat c" using unat_u8_less [of c] by (intro decimal_digits) linarith
  finally show "decval ds = unat c" .
qed

lemma chars_esc_octet:
  assumes "chars False t l"
  shows "chars False (t @ esc_octet noesc c) (l @ [c])"
proof -
  let ?ds = "[0x30 + (c div 100) mod 10, 0x30 + (c div 10) mod 10, 0x30 + c mod 10]"
  consider "esc_octet noesc c = [0x5c, c]" "\<not> digitchar c" "c \<noteq> 0x5b" | "esc_octet noesc c = [c]" "c \<noteq> 0x2e" "c \<noteq> 0x5c"
    | "esc_octet noesc c = 0x5c # ?ds"
  proof (cases "((c = 0x40 \<or> c = 0x24) \<and> \<not> noesc) \<or> c = 0x22 \<or> c = 0x28 \<or> c = 0x29 \<or> c = 0x2e \<or> c = 0x3b \<or> c = 0x5c")
    case True
    moreover from this have "\<not> digitchar c" "c \<noteq> 0x5b" by (auto simp: digitchar_def)
    ultimately show thesis using that(1) by (simp add: esc_octet_def)
  next
    case False
    then show thesis using that(2,3) by (cases "c > 0x20 \<and> c < 0x7f") (auto simp: esc_octet_def)
  qed
  then show ?thesis
  proof cases
    case 1
    then show ?thesis using chars_escaped [OF assms 1(2)] by (simp add: fo_def)
  next
    case 2
    then show ?thesis using chars_plain [OF assms 2(2,3)] by (simp add: fo_def)
  next
    case 3
    have "decval ?ds \<le> 255" using decimal_octet(2) [of c] unat_u8_le [of c] by simp
    then show ?thesis using chars_decimal [OF assms _ decimal_octet(1) [of c]] 3 decimal_octet(2) [of c] by (simp add: fo_def)
  qed
qed

lemma chars_esc_label: "chars False (esc_label noesc l) l"
proof (induction l rule: rev_induct)
  case Nil
  then show ?case by (simp add: esc_label_def chars_Nil)
next
  case (snoc c l)
  then show ?case using chars_esc_octet [OF snoc] by (simp add: esc_label_def)
qed

lemma label_texts_ok: "\<forall>l\<in>set ls. l \<noteq> [] \<and> length l \<le> 63 \<Longrightarrow> \<forall>x\<in>set (label_texts noesc ls). label_text False x"
  by (auto simp: label_texts_def label_text_def chars_esc_label)

lemma map_snd_label_texts [simp]: "map snd (label_texts noesc ls) = ls"
  by (simp add: label_texts_def comp_def)

lemma esc_label_at: "esc_label False l \<noteq> [0x40]"
proof (cases l)
  case (Cons c l')
  have "esc_octet False c \<noteq> [0x40]" "esc_octet False c \<noteq> []" by (auto simp: esc_octet_def)
  then show ?thesis using Cons by (auto simp: esc_label_def append_eq_Cons_conv)
qed (simp add: esc_label_def)

lemma butlast_dots: "butlast (dots noesc (ls @ [l])) = dots noesc ls @ esc_label noesc l"
  by (simp add: label_texts_def butlast_append)

lemma name_text_spells:
  assumes "labels_ok ls"
  shows "spells False (name_text False False ls) ls (rooted ls)"
proof -
  consider "ls = []" | "ls = [[]]" | ms where "ls = ms @ [[]]" "ms \<noteq> []" | ms l where "ls = ms @ [l]" "l \<noteq> []"
    by (cases ls rule: rev_cases) auto
  then show ?thesis
  proof cases
    case 1
    then show ?thesis using spells_at by (simp add: name_text_def rooted_def)
  next
    case 2
    then show ?thesis using spells_root by (simp add: name_text_def rooted_def)
  next
    case 3
    have "\<forall>l\<in>set ms. l \<noteq> [] \<and> length l \<le> 63" using assms 3(1) by (auto simp: labels_ok_def)
    from spells_absolute [OF _ label_texts_ok [OF this]] show ?thesis
      using 3 by (simp add: name_text_def rooted_def label_texts_def comp_def)
  next
    case 4
    have l: "\<forall>l\<in>set ms. l \<noteq> [] \<and> length l \<le> 63" "length l \<le> 63" using assms 4(1) by (auto simp: labels_ok_def)
    have ne: "dots False ms @ esc_label False l \<noteq> [0x40]"
      using esc_label_at [of l] by (cases ms) (auto simp: label_texts_def dots_Cons append_eq_Cons_conv)
    have "label_text False (esc_label False l, l)" using l(2) 4(2) by (simp add: label_text_def chars_esc_label)
    from spells_relative [OF label_texts_ok [OF l(1)] this] ne show ?thesis
      using 4 butlast_dots [of False ms l] by (simp add: name_text_def rooted_def)
  qed
qed

section \<open>How long a text is\<close>

lemma esc_label_length: "length (esc_label noesc l) \<le> 4 * length l"
proof (induction l)
  case (Cons c l)
  have "length (esc_octet noesc c) \<le> 4" by (auto simp: esc_octet_def)
  then show ?case using Cons by (simp add: esc_label_def)
qed (simp add: esc_label_def)

lemma dots_length: "length (dots noesc ls) + 3 * length ls \<le> 4 * length (wire ls)"
proof (induction ls)
  case (Cons l ls)
  then show ?case using esc_label_length [of noesc l] by (simp add: dots_Cons)
qed (simp add: label_texts_def)

lemma text_need_bound:
  assumes "labels_ok ls"
  shows "text_need noesc ls \<le> 1023"
proof -
  consider "ls = [] \<or> ls = [[]]" | ms where "ls = ms @ [[]]" "ms \<noteq> []" | "\<not> rooted ls" "ls \<noteq> []"
    by (cases ls rule: rev_cases) (auto simp: rooted_def)
  then show ?thesis
  proof cases
    case (2 ms)
    have "length (wire ms) \<le> 254" using assms 2(1) by (simp add: labels_ok_def)
    then show ?thesis using 2 dots_length [of noesc ms] by (simp add: text_need_def rooted_def neq_Nil_conv)
  next
    case 3
    have "length (wire ls) \<le> 255" "length ls \<ge> 1" using assms 3 by (auto simp: labels_ok_def Suc_le_eq)
    then show ?thesis using 3 dots_length [of noesc ls] by (auto simp: text_need_def)
  qed (auto simp: text_need_def)
qed

section \<open>Printing into an array\<close>

lemma emit_checked_length: "emit_checked v st = Some (r, st') \<Longrightarrow> length (x_mem st') = length (x_mem st)"
  by (auto simp: emit_checked_def emit_def bind_eq_Some_conv blit_eq_Some split: if_splits)

lemma totext_octet_length: "totext_octet noesc c st = Some (r, st') \<Longrightarrow> length (x_mem st') = length (x_mem st)"
  by (auto simp: totext_octet_def emit_checked_length split: if_splits)

lemma totext_label_length: "totext_label noesc nd pos count st = Some (r, st') \<Longrightarrow> length (x_mem st') = length (x_mem st)"
proof (induction noesc nd pos count st rule: totext_label.induct)
  case (2 noesc nd pos count st)
  then show ?case by (force simp: bind_eq_Some_conv dest: totext_octet_length split: if_splits)
qed simp

lemma totext_loop_length: "totext_loop noesc nd k pos nlen st = Some (r, saw, n, st') \<Longrightarrow> length (x_mem st') = length (x_mem st)"
proof (induction k arbitrary: pos nlen st)
  case (Suc k)
  from Suc.prems show ?case
    by (auto simp: bind_eq_Some_conv Let_def dest!: Suc.IH totext_label_length emit_checked_length split: if_splits)
qed simp

definition same_memory :: "isc_buffer \<Rightarrow> isc_buffer \<Rightarrow> bool" where
  "same_memory b b' \<longleftrightarrow> b_length b' = b_length b \<and> length (b_base b') = length (b_base b) \<and> b_mctx b' = b_mctx b"

lemma totext_end_memory:
  assumes "totext_end b (res, saw, omit, n, st) = Some (r, b')" "length (x_mem st) = length (b_base b)"
  shows "same_memory b b'"
  using assms unfolding totext_end_def same_memory_def
  by (auto simp: bind_eq_Some_conv poke_eq_Some isc_buffer_add_def split: if_splits)

lemma totext_memory:
  assumes "name_is n ls" "buf_ok b" "dns_name_totext None n options b = Some (r, b')"
  shows "same_memory b b'"
proof -
  obtain res saw omit k st where e: "totext_end b (res, saw, omit, k, st) = Some (r, b')" "length (x_mem st) = length (b_base b)"
    using assms(3) unfolding totext_eq [OF assms(1,2)] Let_def
    by (auto simp: bind_eq_Some_conv dest!: emit_checked_length totext_loop_length split: if_splits)
  then show ?thesis by (rule totext_end_memory)
qed

lemma format_base_length:
  assumes "length cp = sz" "0 < sz" "sz < 2 ^ 32"
  shows "buf_ok (isc_buffer_init (take (sz - 1) cp) (sz - 1))" "buf_room (isc_buffer_init (take (sz - 1) cp) (sz - 1)) = sz - 1"
    "buf_content (isc_buffer_init (take (sz - 1) cp) (sz - 1)) = []" "buf_remaining (isc_buffer_init (take (sz - 1) cp) (sz - 1)) = []"
  using assms by (simp_all add: buf_ok_def isc_buffer_init_def ISC_BUFFER_VALID_def buf_room_def buf_content_def buf_remaining_def)

text \<open>The null octet has room unless the name prints as one character and that fills the buffer.\<close>

lemma name_text_length:
  assumes "ls \<noteq> []" "ls \<noteq> [[]]"
  shows "length (name_text noesc True ls) < text_need noesc ls"
proof -
  have "nonroot ls \<noteq> []" using assms by (auto simp: nonroot_def rooted_def) (metis append_butlast_last_id append_Nil)
  then have "dots noesc (nonroot ls) \<noteq> []" by (rule dots_nonempty)
  then show ?thesis using assms by (cases "rooted ls") (auto simp: name_text_def text_need_def nonroot_def)
qed

lemma put_null:
  assumes b: "buf_ok b" "b_mctx b = False" "buf_content b = v"
  shows "if length v < b_length b then \<exists>b'. isc_buffer_putuint8 b 0 = Some b' \<and> length (b_base b') = b_length b \<and> take (length v + 1) (b_base b') = v @ [0]
    else isc_buffer_putuint8 b 0 = None"
proof -
  have l: "length (b_base b) = b_length b" "b_used b \<le> b_length b" "ISC_BUFFER_VALID b" "b_length b < 2 ^ 32" using b(1) by (auto simp: buf_ok_def)
  then have v: "length v = b_used b" "v = take (b_used b) (b_base b)" using b(3) by (auto simp: buf_content_def)
  show ?thesis
  proof (cases "b_used b < b_length b")
    case True
    then have a: "1 \<le> isc_buffer_availablelength b" using b(1) l by (simp add: buf_room_def)
    obtain m where m: "blit (b_base b) (b_used b) [0] = Some m" using True l by simp
    then have "isc_buffer_putuint8 b 0 = Some (b\<lparr>b_base := m, b_used := b_used b + 1\<rparr>)"
      using a l b(2) by (simp add: isc_buffer_putuint8_def put_reserve_def store_def)
    moreover have "length m = b_length b" "take (length v + 1) m = v @ [0]" using length_blit [OF m] take_blit_end [OF m] l v by simp_all
    ultimately show ?thesis using True v by auto
  next
    case False
    then have "\<not> 1 \<le> isc_buffer_availablelength b" using b(1) l by (simp add: buf_room_def)
    then show ?thesis using False l b(2) v by (simp add: isc_buffer_putuint8_def put_reserve_def)
  qed
qed

lemma format_runs:
  assumes n: "name_is n ls" and cp: "length cp = sz" "0 < sz" "sz < 2 ^ 32"
  shows "if text_need False ls < sz
    then if (ls = [] \<or> ls = [[]]) \<and> sz = 2 then dns_name_format None n cp sz = None
      else \<exists>out. dns_name_format None n cp sz = Some out \<and> length out = sz \<and>
        take (length (name_text False True ls) + 1) out = name_text False True ls @ [0]
    else \<exists>out. dns_name_format None n cp sz = Some out \<and> length out = sz \<and>
      take (min sz 10) out = take (sz - 1) unknown_text @ [0]"
proof -
  let ?b = "isc_buffer_init (take (sz - 1) cp) (sz - 1)" and ?v = "name_text False True ls"
  note b = format_base_length [OF cp]
  obtain r b' where t: "dns_name_totext None n DNS_NAME_OMITFINALDOT ?b = Some (r, b')"
    "if text_need False ls \<le> sz - 1 then r = ISC_R_SUCCESS \<and> appended ?b ?v b' else r = ISC_R_NOSPACE"
    using totext_runs [OF n b(1), of False DNS_NAME_OMITFINALDOT True] b(2) by (auto simp: DNS_NAME_OMITFINALDOT_def DNS_NAME_PRINCIPAL_def)
  have m: "b_length b' = sz - 1" "length (b_base b') = sz - 1" "b_mctx b' = False"
    using totext_memory [OF n b(1) t(1)] cp by (auto simp: same_memory_def isc_buffer_init_def)
  have run: "dns_name_format None n cp sz =
    (if r = ISC_R_SUCCESS then do { buf \<leftarrow> isc_buffer_putuint8 b' 0; Some (b_base buf @ drop (sz - 1) cp) }
     else blit (b_base b' @ drop (sz - 1) cp) 0 (take (sz - 1) unknown_text @ [0]))"
    using cp(2) t(1) by (simp add: dns_name_format_def)
  show ?thesis
  proof (cases "text_need False ls < sz")
    case True
    then have a: "r = ISC_R_SUCCESS" "appended ?b ?v b'" using t(2) by (auto split: if_splits)
    then have c: "buf_content b' = ?v" "buf_ok b'" using b(3) by (auto simp: appended_def)
    have fits: "length ?v < sz - 1 \<longleftrightarrow> \<not> ((ls = [] \<or> ls = [[]]) \<and> sz = 2)"
    proof (cases "ls = [] \<or> ls = [[]]")
      case one: True
      then show ?thesis using True by (auto simp: name_text_def text_need_def)
    next
      case False
      then show ?thesis using True name_text_length [of ls False] by auto
    qed
    show ?thesis
    proof (cases "length ?v < sz - 1")
      case room: True
      then obtain b2 where "isc_buffer_putuint8 b' 0 = Some b2" "length (b_base b2) = sz - 1" "take (length ?v + 1) (b_base b2) = ?v @ [0]"
        using put_null [OF c(2) m(3) c(1)] m(1) by auto
      then show ?thesis using True fits room run a(1) cp by auto
    next
      case False
      then have "isc_buffer_putuint8 b' 0 = None" using put_null [OF c(2) m(3) c(1)] m(1) by simp
      then show ?thesis using True fits False run a(1) by auto
    qed
  next
    case False
    then have "\<not> text_need False ls \<le> sz - 1" using cp(2) by linarith
    then have "r \<noteq> ISC_R_SUCCESS" using t(2) by simp
    moreover define w where "w = take (sz - 1) unknown_text @ [0]"
    have w: "length w = min sz 10" using cp(2) by (simp add: w_def unknown_text_def)
    moreover obtain out where o': "blit (b_base b' @ drop (sz - 1) cp) 0 w = Some out" using w m cp by (simp add: blit_def)
    moreover have "length out = sz" "take (min sz 10) out = w"
      using length_blit [OF o'] take_blit_end [OF o'] m cp w by simp_all
    ultimately show ?thesis using False run by (simp add: w_def)
  qed
qed

lemma spells_unique:
  assumes "spells dc tx ls dot" "spells dc tx ls' dot'"
  shows "ls' = ls \<and> dot' = dot"
proof -
  let ?room = "Suc (length (wire ls) + length (wire ls'))"
  have "a_loop dc ?room tx ([], P_init) = Inr (if dot then (ls, P_done) else if ls = [] then ([], P_at) else (butlast ls, P_in (last ls)), [])"
    by (rule a_loop_spells [OF assms(1)]) auto
  moreover have "a_loop dc ?room tx ([], P_init) = Inr (if dot' then (ls', P_done) else if ls' = [] then ([], P_at) else (butlast ls', P_in (last ls')), [])"
    by (rule a_loop_spells [OF assms(2)]) auto
  ultimately show ?thesis by (cases ls rule: rev_cases; cases ls' rule: rev_cases) (auto split: if_splits)
qed

lemma fromtext_spelled:
  assumes n: "name_target n" and s: "buf_ok source" and t: "target_ok n target" "pick_target n target = Some t"
    and sp: "spells False (buf_remaining source) ls dot" "text_fits (min 255 (buf_room t)) ls [] dot"
  shows "\<exists>n' s' tg'. dns_name_fromtext n source None 0 target = Some (ISC_R_SUCCESS, n', s', tg') \<and> name_is n' ls"
proof -
  have ok: "buf_ok t" using pick_target_ok [OF t(1)] t(2) by auto
  obtain res n' s' tg' where r: "dns_name_fromtext n source None 0 target = Some (res, n', s', tg')"
    "case a_result False (min 255 (buf_room t)) (buf_remaining source) [] of
       None \<Rightarrow> res \<noteq> ISC_R_SUCCESS \<and> labels n' = 0 \<and> n_length n' = 0 \<and> s' = source
     | Some ls \<Rightarrow> res = ISC_R_SUCCESS \<and> name_is n' ls \<and> s' = source\<lparr>b_current := b_used source\<rparr> \<and>
         (\<exists>t'. appended t (wire ls) t' \<and> (if target = None then n_buffer n' = Some t' else tg' = Some t')) \<and>
         (\<exists>ls1 dot. spells False (buf_remaining source) ls1 dot \<and> text_fits (min 255 (buf_room t)) ls1 [] dot \<and>
           ls = ls1 @ (if dot then [] else map (map (fo False)) []))"
    using fromtext_run [OF n s ok _ t(2), of None "[]" False 0] by (auto simp: origin_is_def)
  obtain ls' where a: "a_result False (min 255 (buf_room t)) (buf_remaining source) [] = Some ls'" using a_result_spells [OF sp] by auto
  obtain ls1 dot1 where o': "res = ISC_R_SUCCESS" "name_is n' ls'" "spells False (buf_remaining source) ls1 dot1" "ls' = ls1 @ (if dot1 then [] else map (map (fo False)) [])"
    using r(2) unfolding a option.case by blast
  then have "ls' = ls" using spells_unique [OF sp(1) o'(3)] by simp
  then show ?thesis using r(1) o' by blast
qed

section \<open>Properties\<close>

text \<open>
  C8: What \<^verbatim>\<open>dns_name_totext\<close> prints, \<^verbatim>\<open>dns_name_fromtext\<close> reads back: printing into a buffer with 1023 free octets succeeds, and reading
  the text without an origin gives a name with the same labels, octet for octet.  A relative name of 255 octets is left out: its text
  leaves no room for the length octet the reader sets aside for a next label.
\<close>

theorem totext_fromtext:
  assumes "name_is n ls" "rooted ls \<or> length (wire ls) < 255"
    and "buf_ok b" "buf_remaining b = []" "1023 \<le> buf_room b"
    and "name_target m" "target_ok m target" "pick_target m target = Some t" "255 \<le> buf_room t"
  shows "\<exists>b' m' s' tg'. dns_name_totext None n 0 b = Some (ISC_R_SUCCESS, b') \<and>
    dns_name_fromtext m b' None 0 target = Some (ISC_R_SUCCESS, m', s', tg') \<and> name_is m' ls"
proof -
  have ok: "labels_ok ls" using assms(1) by (auto simp: name_is_def name_rep_def)
  have "text_need False ls \<le> buf_room b" using text_need_bound [OF ok, of False] assms(5) by simp
  then obtain b' where b': "dns_name_totext None n 0 b = Some (ISC_R_SUCCESS, b')" "appended b (name_text False False ls) b'"
    using totext_runs [OF assms(1,3), of False 0 False] by auto
  then have s: "buf_ok b'" "buf_remaining b' = name_text False False ls" using assms(4) by (auto simp: appended_def)
  have "spells False (buf_remaining b') ls (rooted ls)" using name_text_spells [OF ok] s(2) by simp
  moreover have "text_fits (min 255 (buf_room t)) ls [] (rooted ls)" using assms(2,9) ok by (auto simp: text_fits_def labels_ok_def)
  ultimately show ?thesis using fromtext_spelled [OF assms(6) s(1) assms(7,8)] b'(1) by blast
qed

theorem totext_fromtext_witness:
  "\<exists>b' m' s' tg'. dns_name_totext None (mk_name [[0x2e, 0], []]) 0 (isc_buffer_init (replicate 1023 0) 1023) = Some (ISC_R_SUCCESS, b') \<and>
    dns_name_fromtext (DNS_NAME_INIT None) b' None 0 (Some (isc_buffer_init (replicate 255 0) 255)) = Some (ISC_R_SUCCESS, m', s', tg') \<and>
    name_is m' [[0x2e, 0], []]"
proof -
  let ?b = "isc_buffer_init (replicate 1023 0) 1023" and ?t = "isc_buffer_init (replicate 255 0) 255"
  have b: "buf_ok ?b" "buf_ok ?t" using buf_ok_init [of "replicate 1023 0"] buf_ok_init [of "replicate 255 0"] by simp_all
  have r: "buf_remaining ?b = []" "1023 \<le> buf_room ?b" "255 \<le> buf_room ?t"
    by (simp_all add: buf_remaining_def buf_content_def buf_room_def isc_buffer_init_def)
  have n: "name_is (mk_name [[0x2e, 0], []]) [[0x2e, 0], []]" by (rule mk_name_is) (simp add: labels_ok_def)
  have t: "target_ok (DNS_NAME_INIT None) (Some ?t)" "pick_target (DNS_NAME_INIT None) (Some ?t) = Some ?t"
    using b by (simp_all add: target_ok_def pick_target_def buf_ok_def)
  show ?thesis by (rule totext_fromtext [OF n _ b(1) r(1,2) name_target_init t r(3)]) (simp add: rooted_def)
qed

text \<open>
  C34: \<^verbatim>\<open>dns_name_format\<close> on an array of \<open>sz\<close> octets: where the text has room the array holds it, ended by a null octet; where it has not,
  the array holds as much of \<^verbatim>\<open><unknown>\<close> as fits.  For the root and for the empty name in an array of two octets
  the null octet has no room, and an assertion fails.
\<close>

theorem format_correct:
  assumes "name_is n ls" "length cp = sz" "0 < sz" "sz < 2 ^ 32"
  shows "if (ls = [] \<or> ls = [[]]) \<and> sz = 2 then dns_name_format None n cp sz = None
    else \<exists>out. dns_name_format None n cp sz = Some out \<and> length out = sz \<and>
      (if text_need False ls < sz then take (length (name_text False True ls) + 1) out = name_text False True ls @ [0]
       else take (min sz 10) out = take (sz - 1) unknown_text @ [0])"
proof (cases "text_need False ls < sz")
  case False
  then have "\<not> ((ls = [] \<or> ls = [[]]) \<and> sz = 2)" by (auto simp: text_need_def)
  then show ?thesis using format_runs [OF assms] False by auto
qed (use format_runs [OF assms] in auto)

theorem format_correct_witness:
  "dns_name_format None (mk_name [[]]) [7, 7] 2 = None"
proof -
  have n: "name_is (mk_name [[]]) [[]]" by (rule mk_name_is) (simp add: labels_ok_def)
  show ?thesis using format_correct [OF n, of "[7, 7]" 2] by simp
qed

text \<open>
  An array of \<^verbatim>\<open>DNS_NAME_FORMATSIZE\<close> octets is enough for every name: \<^verbatim>\<open>dns_name_format\<close> never writes \<^verbatim>\<open><unknown>\<close> there, and
  \<^verbatim>\<open>dns_name_tostring\<close> always succeeds.
\<close>

theorem formatsize_enough:
  assumes "name_is n ls" "length cp = DNS_NAME_FORMATSIZE"
  shows "(\<exists>out. dns_name_format None n cp DNS_NAME_FORMATSIZE = Some out \<and>
      take (length (name_text False True ls) + 1) out = name_text False True ls @ [0]) \<and>
    dns_name_tostring None n = Some (ISC_R_SUCCESS, name_text False False ls)"
proof (rule conjI)
  have ok: "labels_ok ls" "VALID_NAME n" using assms(1) by (auto simp: name_is_def name_rep_def)
  have need: "text_need False ls \<le> 1023" by (rule text_need_bound [OF ok(1)])
  show "\<exists>out. dns_name_format None n cp DNS_NAME_FORMATSIZE = Some out \<and>
      take (length (name_text False True ls) + 1) out = name_text False True ls @ [0]"
    using format_runs [OF assms(1) assms(2)] need by (auto simp: DNS_NAME_FORMATSIZE_def DNS_NAME_MAXTEXT_def)
  let ?b = "isc_buffer_init (replicate DNS_NAME_FORMATSIZE 0) DNS_NAME_FORMATSIZE"
  have b: "buf_ok ?b" "buf_room ?b = 1024" "buf_content ?b = []"
    using buf_ok_init [of "replicate 1024 0"] by (simp_all add: DNS_NAME_FORMATSIZE_def DNS_NAME_MAXTEXT_def buf_room_def buf_content_def isc_buffer_init_def)
  obtain b' where t: "dns_name_totext None n 0 ?b = Some (ISC_R_SUCCESS, b')" "appended ?b (name_text False False ls) b'"
    using totext_runs [OF assms(1) b(1), of False 0 False] need b(2) by auto
  then have "buf_ok b'" "buf_content b' = name_text False False ls" using b(3) by (auto simp: appended_def)
  then show "dns_name_tostring None n = Some (ISC_R_SUCCESS, name_text False False ls)"
    using ok(2) t(1) by (auto simp: dns_name_tostring_def isc_buffer_usedregion_def buf_ok_def buf_content_def fetch_def)
qed

theorem formatsize_enough_witness:
  "dns_name_tostring None (mk_name [[0x61], []]) = Some (ISC_R_SUCCESS, [0x61, 0x2e])"
proof -
  have n: "name_is (mk_name [[0x61], []]) [[0x61], []]" by (rule mk_name_is) (simp add: labels_ok_def)
  show ?thesis using formatsize_enough [OF n, of "replicate 1024 0"]
    by (simp add: DNS_NAME_FORMATSIZE_def DNS_NAME_MAXTEXT_def name_text_def rooted_def label_texts_def esc_label_def esc_octet_def)
qed

end
