(* ===== verification/Heap.thy ===== *)
theory Heap
  imports Prelude "HOL-Library.Multiset"
begin

text \<open>
  The priority queues of \<^verbatim>\<open>lib/isc/heap.c\<close>.  The elements are pointers \<open>'a\<close> into a memory \<open>'s\<close> of the caller's: the caller's
  \<^verbatim>\<open>compare\<close> reads it, and the caller's \<^verbatim>\<open>index\<close> stores in it where an element is.
\<close>

section \<open>The structure\<close>

definition HEAP_MAGIC :: u32 where "HEAP_MAGIC = 0x48454150"
definition SIZE_INCREMENT :: nat where "SIZE_INCREMENT = 1024"

record ('a, 's) isc_heap =
  h_magic :: u32
  h_size :: nat
  h_size_increment :: nat
  h_last :: nat
  h_array :: "'a option list"
  h_compare :: "'s \<Rightarrow> 'a \<Rightarrow> 'a \<Rightarrow> bool"
  h_index :: "('a \<Rightarrow> nat \<Rightarrow> 's \<Rightarrow> 's) option"

definition VALID_HEAP :: "('a, 's) isc_heap \<Rightarrow> bool" where
  "VALID_HEAP heap \<longleftrightarrow> h_magic heap = HEAP_MAGIC"

definition heap_parent :: "nat \<Rightarrow> nat" where "heap_parent i = i div 2"
definition heap_left :: "nat \<Rightarrow> nat" where "heap_left i = 2 * i mod 2 ^ 32"

text \<open>Reading an element: a null pointer given to \<^verbatim>\<open>compare\<close> is as wrong as an index out of bounds.\<close>

definition element_at :: "('a, 's) isc_heap \<Rightarrow> nat \<Rightarrow> 'a option" where
  "element_at heap i = do { e \<leftarrow> peek (h_array heap) i; e }"

text \<open>\<^verbatim>\<open>heap->array[i] = e\<close> followed by the call of \<^verbatim>\<open>index\<close>.\<close>

definition place :: "('a, 's) isc_heap \<Rightarrow> 's \<Rightarrow> nat \<Rightarrow> 'a \<Rightarrow> (('a, 's) isc_heap \<times> 's) option" where
  "place heap s i e = do {
     m \<leftarrow> poke (h_array heap) i (Some e);
     Some (heap\<lparr>h_array := m\<rparr>, case h_index heap of None \<Rightarrow> s | Some f \<Rightarrow> f e i s)
   }"

definition HEAPCONDITION :: "('a, 's) isc_heap \<Rightarrow> 's \<Rightarrow> nat \<Rightarrow> bool option" where
  "HEAPCONDITION heap s i =
     (if i = 1 then Some True
      else do {
        e \<leftarrow> element_at heap i;
        p \<leftarrow> element_at heap (heap_parent i);
        Some (\<not> h_compare heap s e p)
      })"

section \<open>Operations\<close>

definition isc_heap_create ::
  "('s \<Rightarrow> 'a \<Rightarrow> 'a \<Rightarrow> bool) \<Rightarrow> ('a \<Rightarrow> nat \<Rightarrow> 's \<Rightarrow> 's) option \<Rightarrow> nat \<Rightarrow> ('a, 's) isc_heap" where
  "isc_heap_create compare idx size_increment =
     \<lparr>h_magic = HEAP_MAGIC, h_size = 0,
      h_size_increment = (if size_increment = 0 then SIZE_INCREMENT else size_increment),
      h_last = 0, h_array = [], h_compare = compare, h_index = idx\<rparr>"

text \<open>\<^verbatim>\<open>ISC_CHECKED_ADD\<close> and \<^verbatim>\<open>ISC_CHECKED_MUL\<close> insist that an \<^verbatim>\<open>unsigned int\<close> holds the result; \<^verbatim>\<open>sizeof(void *)\<close> is 8.\<close>

text \<open>The array and the structure go back to the allocator; what remains of the heap is the cleared magic number.\<close>

definition isc_heap_destroy :: "('a, 's) isc_heap \<Rightarrow> ('a, 's) isc_heap option" where
  "isc_heap_destroy heap = do {
     REQUIRE (VALID_HEAP heap);
     Some (heap\<lparr>h_magic := 0\<rparr>)
   }"

definition resize :: "('a, 's) isc_heap \<Rightarrow> ('a, 's) isc_heap option" where
  "resize heap = do {
     REQUIRE (VALID_HEAP heap);
     let new_size = h_size heap + h_size_increment heap;
     INSIST (new_size < 2 ^ 32);
     INSIST (new_size * 8 < 2 ^ 32);
     INSIST (h_size heap * 8 < 2 ^ 32);
     Some (heap\<lparr>h_size := new_size, h_array := h_array heap @ replicate (h_size_increment heap) None\<rparr>)
   }"

function float_up_loop :: "('a, 's) isc_heap \<Rightarrow> 's \<Rightarrow> nat \<Rightarrow> 'a \<Rightarrow> (('a, 's) isc_heap \<times> 's \<times> nat) option" where
  "float_up_loop heap s i elt =
     (if i > 1 then do {
        p \<leftarrow> element_at heap (heap_parent i);
        if h_compare heap s elt p then do {
          (heap, s) \<leftarrow> place heap s i p;
          float_up_loop heap s (heap_parent i) elt
        }
        else Some (heap, s, i)
      }
      else Some (heap, s, i))"
  by pat_completeness auto
termination by (relation "measure (\<lambda>(heap, s, i, elt). i)") (auto simp: heap_parent_def)

definition float_up :: "('a, 's) isc_heap \<Rightarrow> 's \<Rightarrow> nat \<Rightarrow> 'a \<Rightarrow> (('a, 's) isc_heap \<times> 's) option" where
  "float_up heap s i elt = do {
     (heap, s, i) \<leftarrow> float_up_loop heap s i elt;
     (heap, s) \<leftarrow> place heap s i elt;
     ok \<leftarrow> HEAPCONDITION heap s i;
     INSIST ok;
     Some (heap, s)
   }"

text \<open>The left child is at most \<^verbatim>\<open>size\<close>, so that the loop ends: \<open>i\<close> grows.\<close>

function sink_down_loop :: "('a, 's) isc_heap \<Rightarrow> 's \<Rightarrow> nat \<Rightarrow> 'a \<Rightarrow> (('a, 's) isc_heap \<times> 's \<times> nat) option" where
  "sink_down_loop heap s i elt =
     (if 0 < i \<and> h_last heap < 2 ^ 32 then
        (if i \<le> h_last heap div 2 then do {
           l \<leftarrow> element_at heap (heap_left i);
           (j, e) \<leftarrow> (if heap_left i < h_last heap then do {
                         r \<leftarrow> element_at heap (heap_left i + 1);
                         Some (if h_compare heap s r l then (heap_left i + 1, r) else (heap_left i, l))
                       }
                       else Some (heap_left i, l));
           if h_compare heap s elt e then Some (heap, s, i)
           else do {
             (heap, s) \<leftarrow> place heap s i e;
             sink_down_loop heap s j elt
           }
         }
         else Some (heap, s, i))
      else None)"
  by pat_completeness auto
termination
proof (relation "measure (\<lambda>(heap, s, i, elt). h_last heap - i)", simp, goal_cases)
  case (1 heap s i elt l x j e y heap' s')
  then have "2 * i < 2 ^ 32" "2 * i \<le> h_last heap" by linarith+
  then have "heap_left i = 2 * i" by (simp add: heap_left_def)
  moreover have "h_last heap' = h_last heap" using 1 by (auto simp: place_def bind_eq_Some_conv)
  ultimately show ?case using 1 by (auto simp: bind_eq_Some_conv split: if_splits)
qed

declare float_up_loop.simps [simp del] sink_down_loop.simps [simp del]

definition sink_down :: "('a, 's) isc_heap \<Rightarrow> 's \<Rightarrow> nat \<Rightarrow> 'a \<Rightarrow> (('a, 's) isc_heap \<times> 's) option" where
  "sink_down heap s i elt = do {
     (heap, s, i) \<leftarrow> sink_down_loop heap s i elt;
     (heap, s) \<leftarrow> place heap s i elt;
     ok \<leftarrow> HEAPCONDITION heap s i;
     INSIST ok;
     Some (heap, s)
   }"

definition isc_heap_insert :: "('a, 's) isc_heap \<Rightarrow> 's \<Rightarrow> 'a \<Rightarrow> (('a, 's) isc_heap \<times> 's) option" where
  "isc_heap_insert heap s elt = do {
     REQUIRE (VALID_HEAP heap);
     let new_last = (h_last heap + 1) mod 2 ^ 32;
     INSIST (new_last > 0);
     heap \<leftarrow> (if new_last \<ge> h_size heap then resize heap else Some heap);
     float_up (heap\<lparr>h_last := new_last\<rparr>) s new_last elt
   }"

definition isc_heap_delete :: "('a, 's) isc_heap \<Rightarrow> 's \<Rightarrow> nat \<Rightarrow> (('a, 's) isc_heap \<times> 's) option" where
  "isc_heap_delete heap s idx = do {
     REQUIRE (VALID_HEAP heap);
     REQUIRE (idx \<ge> 1 \<and> idx \<le> h_last heap);
     e \<leftarrow> element_at heap idx;
     let s = (case h_index heap of None \<Rightarrow> s | Some f \<Rightarrow> f e 0 s);
     if idx = h_last heap
     then do {
       m \<leftarrow> poke (h_array heap) (h_last heap) None;
       Some (heap\<lparr>h_array := m, h_last := h_last heap - 1\<rparr>, s)
     }
     else do {
       elt \<leftarrow> element_at heap (h_last heap);
       m \<leftarrow> poke (h_array heap) (h_last heap) None;
       let heap = heap\<lparr>h_array := m, h_last := h_last heap - 1\<rparr>;
       e \<leftarrow> element_at heap idx;
       let less = h_compare heap s elt e;
       m \<leftarrow> poke (h_array heap) idx (Some elt);
       let heap = heap\<lparr>h_array := m\<rparr>;
       if less then float_up heap s idx elt else sink_down heap s idx elt
     }
   }"

definition isc_heap_increased :: "('a, 's) isc_heap \<Rightarrow> 's \<Rightarrow> nat \<Rightarrow> (('a, 's) isc_heap \<times> 's) option" where
  "isc_heap_increased heap s idx = do {
     REQUIRE (VALID_HEAP heap);
     REQUIRE (idx \<ge> 1 \<and> idx \<le> h_last heap);
     e \<leftarrow> element_at heap idx;
     float_up heap s idx e
   }"

definition isc_heap_decreased :: "('a, 's) isc_heap \<Rightarrow> 's \<Rightarrow> nat \<Rightarrow> (('a, 's) isc_heap \<times> 's) option" where
  "isc_heap_decreased heap s idx = do {
     REQUIRE (VALID_HEAP heap);
     REQUIRE (idx \<ge> 1 \<and> idx \<le> h_last heap);
     e \<leftarrow> element_at heap idx;
     sink_down heap s idx e
   }"

text \<open>The result is \<^verbatim>\<open>NULL\<close> past the last element; the outer option is the failed assertion.\<close>

definition isc_heap_element :: "('a, 's) isc_heap \<Rightarrow> nat \<Rightarrow> 'a option option" where
  "isc_heap_element heap idx = do {
     REQUIRE (VALID_HEAP heap);
     REQUIRE (idx \<ge> 1);
     if idx \<le> h_last heap then peek (h_array heap) idx else Some None
   }"

definition isc_heap_foreach :: "('a, 's) isc_heap \<Rightarrow> ('a option \<Rightarrow> 'u \<Rightarrow> 'u) \<Rightarrow> 'u \<Rightarrow> 'u option" where
  "isc_heap_foreach heap action uap = do {
     REQUIRE (VALID_HEAP heap);
     REQUIRE (h_last heap < length (h_array heap) \<or> h_last heap = 0);
     Some (fold action (take (h_last heap) (drop 1 (h_array heap))) uap)
   }"

section \<open>The order of the elements\<close>

text \<open>The elements of a heap; \<open>shape\<close> says that the array is where it should be and the first \<open>h_last\<close> places are filled.\<close>

definition nth_elt :: "('a, 's) isc_heap \<Rightarrow> nat \<Rightarrow> 'a" where "nth_elt h i = the (h_array h ! i)"

definition shape :: "('a, 's) isc_heap \<Rightarrow> bool" where
  "shape h \<longleftrightarrow> VALID_HEAP h \<and> length (h_array h) = h_size h \<and> h_size h < 2 ^ 32 \<and> (h_last h < h_size h \<or> h_last h = 0) \<and>
     (\<forall>i. 1 \<le> i \<and> i \<le> h_last h \<longrightarrow> h_array h ! i \<noteq> None)"

definition elements :: "('a, 's) isc_heap \<Rightarrow> 'a list" where
  "elements h = map (nth_elt h) [1..<h_last h + 1]"

definition filled :: "('a, 's) isc_heap \<Rightarrow> nat \<Rightarrow> 'a \<Rightarrow> ('a, 's) isc_heap" where
  "filled h i x = h\<lparr>h_array := (h_array h)[i := Some x]\<rparr>"

lemma filled_simps [simp]:
  "h_last (filled h i x) = h_last h" "h_size (filled h i x) = h_size h" "h_compare (filled h i x) = h_compare h"
  "h_index (filled h i x) = h_index h" "h_size_increment (filled h i x) = h_size_increment h" "VALID_HEAP (filled h i x) = VALID_HEAP h"
  by (simp_all add: filled_def VALID_HEAP_def)

lemma nth_filled: "i < length (h_array h) \<Longrightarrow> nth_elt (filled h i x) j = (if j = i then x else nth_elt h j)"
  by (simp add: nth_elt_def filled_def)

lemma filled_twice [simp]: "filled (filled h i x) i y = filled h i y"
  by (simp add: filled_def)

lemma shape_filled: "shape h \<Longrightarrow> shape (filled h i x)"
proof -
  assume s: "shape h"
  then have "(h_array h)[i := Some x] ! j \<noteq> None" if "1 \<le> j \<and> j \<le> h_last h" for j
    using that by (cases "j = i") (auto simp: shape_def)
  then show ?thesis using s by (simp add: shape_def filled_def VALID_HEAP_def)
qed

lemma length_elements [simp]: "length (elements h) = h_last h"
  by (simp add: elements_def)

lemma elements_nth: "1 \<le> j \<Longrightarrow> j \<le> h_last h \<Longrightarrow> elements h ! (j - 1) = nth_elt h j"
  by (simp add: elements_def nth_append le_less_Suc_eq del: upt_Suc)

lemma elements_distinct:
  assumes "distinct (elements h)" "1 \<le> j" "j \<le> h_last h" "1 \<le> k" "k \<le> h_last h" "j \<noteq> k"
  shows "nth_elt h j \<noteq> nth_elt h k"
proof -
  have "elements h ! (j - 1) \<noteq> elements h ! (k - 1)" using assms by (subst nth_eq_iff_index_eq) auto
  then show ?thesis using elements_nth [OF assms(2,3)] elements_nth [OF assms(4,5)] by simp
qed

lemma shapeD:
  assumes "shape h" "1 \<le> i" "i \<le> h_last h"
  shows "i < length (h_array h)" "h_array h ! i = Some (nth_elt h i)" "element_at h i = Some (nth_elt h i)"
proof -
  show "i < length (h_array h)" using assms by (auto simp: shape_def)
  then show "element_at h i = Some (nth_elt h i)" "h_array h ! i = Some (nth_elt h i)"
    using assms by (auto simp: shape_def nth_elt_def element_at_def)
qed

lemma place_filled:
  assumes "i < length (h_array h)"
  shows "place h s i x = Some (filled h i x, case h_index h of None \<Rightarrow> s | Some f \<Rightarrow> f x i s)"
  using assms by (simp add: place_def filled_def)

lemma elements_filled:
  assumes "shape h" "1 \<le> i" "i \<le> h_last h"
  shows "elements (filled h i x) = (elements h)[i - 1 := x]"
  using shapeD(1) [OF assms] assms
  by (intro nth_equalityI) (auto simp: elements_def nth_filled nth_list_update nth_append)

lemma mset_swap_hole:
  assumes "shape h" "1 \<le> i" "i \<le> h_last h" "1 \<le> j" "j \<le> h_last h" "i \<noteq> j"
  shows "mset (elements (filled (filled h i (nth_elt h j)) j x)) = mset (elements (filled h i x))"
proof -
  define xs where "xs = elements h"
  have l: "length xs = h_last h" by (simp add: xs_def elements_def)
  have n: "xs ! (j - 1) = nth_elt h j" using assms(4,5) by (simp only: xs_def elements_nth)
  have "elements (filled (filled h i (nth_elt h j)) j x) = xs[i - 1 := xs ! (j - 1), j - 1 := x]"
    using assms n by (simp add: elements_filled shape_filled flip: xs_def)
  moreover have "elements (filled h i x) = xs[i - 1 := x]" using assms by (simp add: elements_filled xs_def)
  moreover have "mset (xs[i - 1 := xs ! (j - 1), j - 1 := x]) = mset (xs[i - 1 := x])"
    using assms l by (simp add: mset_update nth_list_update)
  ultimately show ?thesis by simp
qed

text \<open>The contract of \<^verbatim>\<open>compare\<close> and \<^verbatim>\<open>index\<close>; \<open>le\<close> is the order the queue keeps, \<open>get\<close> reads the stored
  position, and \<open>view\<close> is what the memory holds apart from the positions.\<close>

locale heap_order =
  fixes compare :: "'s \<Rightarrow> 'a \<Rightarrow> 'a \<Rightarrow> bool" and le :: "'s \<Rightarrow> 'a \<Rightarrow> 'a \<Rightarrow> bool"
    and index :: "('a \<Rightarrow> nat \<Rightarrow> 's \<Rightarrow> 's) option" and get :: "'s \<Rightarrow> 'a \<Rightarrow> nat"
    and view :: "'s \<Rightarrow> 'v"
  assumes le_trans: "le s x y \<Longrightarrow> le s y z \<Longrightarrow> le s x z"
    and compare_le: "compare s x y \<Longrightarrow> le s x y"
    and not_compare_le: "\<not> compare s x y \<Longrightarrow> le s y x"
    and compare_above: "compare s x y \<Longrightarrow> le s y z \<Longrightarrow> compare s x z"
    and index_compare: "index = Some f \<Longrightarrow> compare (f x i s) = compare s"
    and index_le: "index = Some f \<Longrightarrow> le (f x i s) = le s"
    and index_get: "index = Some f \<Longrightarrow> get (f x i s) y = (if y = x then i else get s y)"
    and index_view: "index = Some f \<Longrightarrow> view (f x i s) = view s"
begin

definition above :: "'s \<Rightarrow> ('a, 's) isc_heap \<Rightarrow> nat \<Rightarrow> bool" where
  "above s h j \<longleftrightarrow> le s (nth_elt h (j div 2)) (nth_elt h j)"

definition ordered :: "'s \<Rightarrow> ('a, 's) isc_heap \<Rightarrow> bool" where
  "ordered s h \<longleftrightarrow> (\<forall>j. 2 \<le> j \<and> j \<le> h_last h \<longrightarrow> above s h j)"

definition mine :: "('a, 's) isc_heap \<Rightarrow> bool" where
  "mine h \<longleftrightarrow> shape h \<and> h_compare h = compare \<and> h_index h = index"

text \<open>\<open>hole\<close>: what a loop may assume of the other elements around the place \<open>i\<close>, where \<open>x\<close> will go.\<close>

definition hole :: "'s \<Rightarrow> ('a, 's) isc_heap \<Rightarrow> nat \<Rightarrow> bool" where
  "hole s h i \<longleftrightarrow> 1 \<le> i \<and> i \<le> h_last h \<and>
     (\<forall>j. 2 \<le> j \<and> j \<le> h_last h \<and> j \<noteq> i \<and> j div 2 \<noteq> i \<longrightarrow> above s h j) \<and>
     (\<forall>j. j \<le> h_last h \<and> j div 2 = i \<and> 1 < i \<longrightarrow> le s (nth_elt h (i div 2)) (nth_elt h j))"

definition tracked :: "'s \<Rightarrow> ('a, 's) isc_heap \<Rightarrow> nat set \<Rightarrow> bool" where
  "tracked s h X \<longleftrightarrow> (index \<noteq> None \<longrightarrow> (\<forall>j. 1 \<le> j \<and> j \<le> h_last h \<and> j \<notin> X \<longrightarrow> get s (nth_elt h j) = j))"

text \<open>What \<open>index\<close> does to the memory, and what remains the same.\<close>

definition stored :: "'s \<Rightarrow> 'a \<Rightarrow> nat \<Rightarrow> 's" where
  "stored s x i = (case index of None \<Rightarrow> s | Some f \<Rightarrow> f x i s)"

lemma stored_simps [simp]: "le (stored s x i) = le s" "compare (stored s x i) = compare s" "view (stored s x i) = view s"
  using index_le index_compare index_view by (auto simp: stored_def split: option.splits)

lemma get_stored: "index \<noteq> None \<Longrightarrow> get (stored s x i) y = (if y = x then i else get s y)"
  using index_get by (auto simp: stored_def)

lemma mine_filled: "mine h \<Longrightarrow> mine (filled h i x)"
  by (simp add: mine_def shape_filled)

lemma mine_place: "mine h \<Longrightarrow> 1 \<le> i \<Longrightarrow> i \<le> h_last h \<Longrightarrow> place h s i x = Some (filled h i x, stored s x i)"
  using place_filled [of i h s x] shapeD(1) [of h i] by (auto simp: mine_def stored_def)

lemma mine_at: "mine h \<Longrightarrow> 1 \<le> i \<Longrightarrow> i \<le> h_last h \<Longrightarrow> nth_elt (filled h i x) j = (if j = i then x else nth_elt h j)"
  using nth_filled [of i h] shapeD(1) [of h i] by (auto simp: mine_def)

lemma above_stored [simp]: "above (stored s x i) = above s" by (auto simp: above_def fun_eq_iff)

lemma hole_stored [simp]: "hole (stored s x i) = hole s" by (auto simp: hole_def fun_eq_iff)

lemma ordered_stored [simp]: "ordered (stored s x i) = ordered s" by (auto simp: ordered_def fun_eq_iff)

text \<open>Moving an element into the hole.\<close>

lemma tracked_move:
  assumes "mine h" "1 \<le> i" "i \<le> h_last h" "1 \<le> p" "p \<le> h_last h" "i \<noteq> p" "tracked s h {i}" "distinct (elements (filled h i x))"
  shows "tracked (stored s (nth_elt h p) i) (filled h i (nth_elt h p)) {p}"
proof -
  have "nth_elt h j \<noteq> nth_elt h p" if "1 \<le> j" "j \<le> h_last h" "j \<noteq> i" "j \<noteq> p" for j
    using elements_distinct [OF assms(8), of j p] that assms by (simp add: mine_at)
  then show ?thesis using assms by (auto simp: tracked_def get_stored mine_at)
qed

lemma tracked_end:
  assumes "mine h" "1 \<le> i" "i \<le> h_last h" "tracked s h {i}" "distinct (elements (filled h i x))"
  shows "tracked (stored s x i) (filled h i x) {}"
proof -
  have "nth_elt h j \<noteq> x" if "1 \<le> j" "j \<le> h_last h" "j \<noteq> i" for j
    using elements_distinct [OF assms(5), of j i] that assms by (simp add: mine_at)
  then show ?thesis using assms by (auto simp: tracked_def get_stored mine_at)
qed

end

context heap_order
begin

lemma le_refl: "le s x x"
  using compare_le not_compare_le by blast

text \<open>Both loops move an element into the hole; the hole is then where the element was.\<close>

definition moves :: "'s \<Rightarrow> ('a, 's) isc_heap \<Rightarrow> nat \<Rightarrow> 'a \<Rightarrow> 's \<Rightarrow> ('a, 's) isc_heap \<Rightarrow> nat \<Rightarrow> bool" where
  "moves s h i x s' h' i' \<longleftrightarrow> mine h' \<and> h_last h' = h_last h \<and> h_size h' = h_size h \<and> h_size_increment h' = h_size_increment h \<and>
     1 \<le> i' \<and> i' \<le> h_last h \<and> le s' = le s \<and> compare s' = compare s \<and> view s' = view s \<and> mset (elements (filled h' i' x)) = mset (elements (filled h i x)) \<and>
     (distinct (elements (filled h i x)) \<longrightarrow> tracked s h {i} \<longrightarrow> tracked s' h' {i'}) \<and>
     (index \<noteq> None \<longrightarrow> (\<forall>y. y \<notin> set (elements (filled h i x)) \<longrightarrow> get s' y = get s y))"

lemma moves_refl: "mine h \<Longrightarrow> 1 \<le> i \<Longrightarrow> i \<le> h_last h \<Longrightarrow> moves s h i x s h i"
  by (simp add: moves_def)

lemma moves_step:
  assumes "mine h" "1 \<le> i" "i \<le> h_last h" "1 \<le> p" "p \<le> h_last h" "i \<noteq> p"
    and "moves (stored s (nth_elt h p) i) (filled h i (nth_elt h p)) p x s' h' i'"
  shows "moves s h i x s' h' i'"
proof -
  have m: "mset (elements (filled (filled h i (nth_elt h p)) p x)) = mset (elements (filled h i x))"
    using mset_swap_hole [of h i p x] assms(1-6) by (simp add: mine_def)
  then have d: "distinct (elements (filled (filled h i (nth_elt h p)) p x)) = distinct (elements (filled h i x))"
    "set (elements (filled (filled h i (nth_elt h p)) p x)) = set (elements (filled h i x))"
    by (metis mset_eq_imp_distinct_iff) (metis m set_mset_mset)
  have "nth_elt h p \<in> set (elements (filled h i x))"
    using elements_nth [of p "filled h i x"] assms nth_mem [of "p - 1" "elements (filled h i x)"] by (auto simp: mine_at)
  then show ?thesis using assms(7) m d tracked_move [OF assms(1-6)] by (auto simp: moves_def get_stored)
qed

lemma float_up_loop_moves:
  assumes "mine h" "hole s h i" "\<forall>j. j \<le> h_last h \<and> j div 2 = i \<longrightarrow> le s x (nth_elt h j)"
  shows "\<exists>h' s' i'. float_up_loop h s i x = Some (h', s', i') \<and> moves s h i x s' h' i' \<and> ordered s' (filled h' i' x) \<and>
    (i' = 1 \<or> \<not> compare s' x (nth_elt h' (i' div 2)))"
  using assms
proof (induction i arbitrary: h s rule: less_induct)
  case (less i)
  have i: "1 \<le> i" "i \<le> h_last h" using less.prems(2) by (auto simp: hole_def)
  have cmp: "h_compare h = compare" using less.prems(1) by (simp add: mine_def)
  have fin: "ordered s (filled h i x)" if "i = 1 \<or> le s (nth_elt h (i div 2)) x"
  proof -
    have "above s (filled h i x) j" if j: "2 \<le> j" "j \<le> h_last h" for j
    proof -
      have "j div 2 \<noteq> j" using j by auto
      then show ?thesis using less.prems(2,3) j \<open>i = 1 \<or> le s (nth_elt h (i div 2)) x\<close> i
        by (cases "j = i"; cases "j div 2 = i") (auto simp: above_def mine_at [OF less.prems(1) i] hole_def)
    qed
    then show ?thesis by (simp add: ordered_def)
  qed
  show ?case
  proof (cases "i > 1 \<and> compare s x (nth_elt h (i div 2))")
    case False
    then have "float_up_loop h s i x = Some (h, s, i)"
      using i cmp shapeD(3) [of h "i div 2"] less.prems(1)
      by (subst float_up_loop.simps) (auto simp: heap_parent_def mine_def)
    moreover have "i = 1 \<or> le s (nth_elt h (i div 2)) x" using False i not_compare_le by auto
    ultimately show ?thesis using fin moves_refl [OF less.prems(1) i] False i by auto
  next
    case True
    let ?p = "i div 2"
    let ?e = "nth_elt h ?p"
    have p: "1 \<le> ?p" "?p \<le> h_last h" "i \<noteq> ?p" "?p < i" using True i by auto
    let ?h = "filled h i ?e" and ?s = "stored s ?e i"
    have at: "nth_elt ?h j = (if j = i then ?e else nth_elt h j)" for j by (rule mine_at [OF less.prems(1) i])
    have run: "float_up_loop h s i x = float_up_loop ?h ?s ?p x"
      using True i p cmp shapeD(3) [of h ?p] less.prems(1) mine_place [OF less.prems(1) i, of s ?e]
      by (subst float_up_loop.simps) (auto simp: heap_parent_def mine_def)
    have xp: "le s x ?e" using True compare_le by blast
    have pair: "above s h j" if "2 \<le> j" "j \<le> h_last h" "j \<noteq> i" "j div 2 \<noteq> i" for j
      using less.prems(2) that by (auto simp: hole_def)
    have "hole ?s ?h ?p"
    proof -
      have "above s ?h j" if "2 \<le> j" "j \<le> h_last h" "j \<noteq> ?p" "j div 2 \<noteq> ?p" for j
      proof (cases "j div 2 = i")
        case child: True
        then have "j \<noteq> i" using i by auto
        then show ?thesis using child less.prems(2) that True by (auto simp: above_def at hole_def)
      next
        case False
        then show ?thesis using pair [of j] that by (cases "j = i") (auto simp: above_def at)
      qed
      moreover have "le s (nth_elt ?h (?p div 2)) (nth_elt ?h j)" if j: "j \<le> h_last h" "j div 2 = ?p" "1 < ?p" for j
      proof -
        have a: "le s (nth_elt h (?p div 2)) ?e" using pair [of ?p] p j by (auto simp: above_def)
        have "?p div 2 \<noteq> i" "2 \<le> j" using p j by auto
        show ?thesis
        proof (cases "j = i")
          case False
          then have "le s ?e (nth_elt h j)" using pair [of j] j p \<open>2 \<le> j\<close> by (auto simp: above_def)
          then show ?thesis using False a le_trans \<open>?p div 2 \<noteq> i\<close> by (auto simp: at)
        qed (use a \<open>?p div 2 \<noteq> i\<close> in \<open>simp add: at\<close>)
      qed
      ultimately show ?thesis using p by (simp add: hole_def)
    qed
    moreover have "\<forall>j. j \<le> h_last ?h \<and> j div 2 = ?p \<longrightarrow> le ?s x (nth_elt ?h j)"
    proof (intro allI impI)
      fix j assume j: "j \<le> h_last ?h \<and> j div 2 = ?p"
      show "le ?s x (nth_elt ?h j)"
      proof (cases "j = i")
        case False
        then have "above s h j" using pair [of j] j p by auto
        then show ?thesis using False j xp le_trans by (auto simp: above_def at)
      qed (use xp in \<open>simp add: at\<close>)
    qed
    ultimately obtain h' s' i' where r: "float_up_loop ?h ?s ?p x = Some (h', s', i')" "moves ?s ?h ?p x s' h' i'"
      "ordered s' (filled h' i' x)" "i' = 1 \<or> \<not> compare s' x (nth_elt h' (i' div 2))"
      using less.IH [OF p(4) mine_filled [OF less.prems(1)]] by blast
    then show ?thesis using run moves_step [OF less.prems(1) i p(1-3) r(2)] by auto
  qed
qed

end

context heap_order
begin

lemma sink_down_loop_moves:
  assumes "mine h" "hole s h i" "i = 1 \<or> \<not> compare s x (nth_elt h (i div 2))"
  shows "\<exists>h' s' i'. sink_down_loop h s i x = Some (h', s', i') \<and> moves s h i x s' h' i' \<and> ordered s' (filled h' i' x) \<and>
    (i' = 1 \<or> \<not> compare s' x (nth_elt h' (i' div 2)))"
  using assms
proof (induction "h_last h - i" arbitrary: h s i rule: less_induct)
  case less
  have i: "1 \<le> i" "i \<le> h_last h" using less.prems(2) by (auto simp: hole_def)
  have cmp: "h_compare h = compare" and sh: "shape h" using less.prems(1) by (simp_all add: mine_def)
  have last: "h_last h < 2 ^ 32" using sh by (auto simp: shape_def)
  have pair: "above s h j" if "2 \<le> j" "j \<le> h_last h" "j \<noteq> i" "j div 2 \<noteq> i" for j
    using less.prems(2) that by (auto simp: hole_def)
  have up: "i = 1 \<or> le s (nth_elt h (i div 2)) x" using less.prems(3) not_compare_le by blast
  have fin: "ordered s (filled h i x)" if kids: "\<forall>j. j \<le> h_last h \<and> j div 2 = i \<longrightarrow> le s x (nth_elt h j)"
  proof -
    have "above s (filled h i x) j" if j: "2 \<le> j" "j \<le> h_last h" for j
    proof -
      have "j div 2 \<noteq> j" using j by auto
      then show ?thesis using pair [of j] kids j up i
        by (cases "j = i"; cases "j div 2 = i") (auto simp: above_def mine_at [OF less.prems(1) i])
    qed
    then show ?thesis by (simp add: ordered_def)
  qed
  show ?case
  proof (cases "i \<le> h_last h div 2")
    case False
    then have "sink_down_loop h s i x = Some (h, s, i)" using i last by (subst sink_down_loop.simps) auto
    moreover have "\<forall>j. j \<le> h_last h \<and> j div 2 = i \<longrightarrow> le s x (nth_elt h j)" using False by auto
    ultimately show ?thesis using fin moves_refl [OF less.prems(1) i] less.prems(3) by auto
  next
    case True
    then have l: "heap_left i = 2 * i" "2 * i \<le> h_last h" using last by (auto simp: heap_left_def)
    define j where "j = (if 2 * i < h_last h \<and> compare s (nth_elt h (2 * i + 1)) (nth_elt h (2 * i)) then 2 * i + 1 else 2 * i)"
    have j: "1 \<le> j" "j \<le> h_last h" "j div 2 = i" "i \<noteq> j" "i < j" using l(2) i by (auto simp: j_def)
    let ?e = "nth_elt h j"
    have least: "le s ?e (nth_elt h k)" if "k \<le> h_last h" "k div 2 = i" for k
    proof -
      have "k = 2 * i \<or> k = 2 * i + 1" using that(2) by auto
      then show ?thesis using that(1) compare_le not_compare_le le_refl by (auto simp: j_def)
    qed
    have e: "element_at h (2 * i) = Some (nth_elt h (2 * i))" "2 * i < h_last h \<Longrightarrow> element_at h (Suc (2 * i)) = Some (nth_elt h (Suc (2 * i)))"
      using shapeD(3) [OF sh] l(2) i by auto
    have step: "sink_down_loop h s i x = (if compare s x ?e then Some (h, s, i) else sink_down_loop (filled h i ?e) (stored s ?e i) j x)"
      using True i last e mine_place [OF less.prems(1) i, of s] by (subst sink_down_loop.simps) (auto simp: l(1) cmp j_def)
    show ?thesis
    proof (cases "compare s x ?e")
      case stop: True
      then have "\<forall>j. j \<le> h_last h \<and> j div 2 = i \<longrightarrow> le s x (nth_elt h j)" using compare_le le_trans least by blast
      then show ?thesis using step stop fin moves_refl [OF less.prems(1) i] less.prems(3) by auto
    next
      case False
      let ?h = "filled h i ?e" and ?s = "stored s ?e i"
      have at: "nth_elt ?h k = (if k = i then ?e else nth_elt h k)" for k by (rule mine_at [OF less.prems(1) i])
      have "above s ?h k" if k: "2 \<le> k" "k \<le> h_last h" "k \<noteq> j" "k div 2 \<noteq> j" for k
      proof -
        have "k div 2 \<noteq> k" using k by auto
        consider "k = i" | "k \<noteq> i" "k div 2 = i" | "k \<noteq> i" "k div 2 \<noteq> i" by blast
        then show ?thesis
        proof cases
          case 1
          then show ?thesis using less.prems(2) j k \<open>k div 2 \<noteq> k\<close> by (auto simp: above_def at hole_def)
        next
          case 2
          then show ?thesis using least [of k] k by (auto simp: above_def at)
        next
          case 3
          then show ?thesis using pair [of k] k by (auto simp: above_def at)
        qed
      qed
      moreover have "le s (nth_elt ?h (j div 2)) (nth_elt ?h k)" if k: "k \<le> h_last h" "k div 2 = j" "1 < j" for k
      proof -
        have "k \<noteq> i" "2 \<le> k" "k div 2 \<noteq> i" using k j by auto
        then show ?thesis using pair [of k] k j by (auto simp: above_def at)
      qed
      ultimately have "hole ?s ?h j" using j by (simp add: hole_def)
      moreover have "j = 1 \<or> \<not> compare ?s x (nth_elt ?h (j div 2))" using False j by (simp add: at)
      moreover have "h_last ?h - j < h_last h - i" using j by simp
      ultimately obtain h' s' i' where r: "sink_down_loop ?h ?s j x = Some (h', s', i')" "moves ?s ?h j x s' h' i'"
        "ordered s' (filled h' i' x)" "i' = 1 \<or> \<not> compare s' x (nth_elt h' (i' div 2))"
        using less.hyps mine_filled [OF less.prems(1)] by blast
      then show ?thesis using step False moves_step [OF less.prems(1) i j(1,2,4) r(2)] by auto
    qed
  qed
qed

text \<open>\<open>settles\<close>: the result of \<^verbatim>\<open>float_up\<close> and \<^verbatim>\<open>sink_down\<close> for the heap \<open>h\<close> with \<open>x\<close> at place \<open>i\<close>.\<close>

definition settles :: "'s \<Rightarrow> ('a, 's) isc_heap \<Rightarrow> 's \<Rightarrow> ('a, 's) isc_heap \<Rightarrow> bool" where
  "settles s h s' h' \<longleftrightarrow> mine h' \<and> ordered s' h' \<and> le s' = le s \<and> compare s' = compare s \<and> view s' = view s \<and> mset (elements h') = mset (elements h) \<and>
     h_last h' = h_last h \<and> h_size h' = h_size h \<and> h_size_increment h' = h_size_increment h \<and>
     (index \<noteq> None \<longrightarrow> (\<forall>y. y \<notin> set (elements h) \<longrightarrow> get s' y = get s y))"

lemma settle:
  assumes h: "mine h" and m: "moves s h i x s' h' i'" "ordered s' (filled h' i' x)" "i' = 1 \<or> \<not> compare s' x (nth_elt h' (i' div 2))"
    and t: "distinct (elements (filled h i x)) \<longrightarrow> tracked s h {i}"
  shows "\<exists>h2 s2. do { (heap, s) \<leftarrow> place h' s' i' x; ok \<leftarrow> HEAPCONDITION heap s i'; INSIST ok; Some (heap, s) } = Some (h2, s2) \<and>
    settles s (filled h i x) s2 h2 \<and> (distinct (elements (filled h i x)) \<longrightarrow> tracked s2 h2 {})"
proof -
  have M: "mine h'" "1 \<le> i'" "i' \<le> h_last h'" "le s' = le s" "compare s' = compare s" "h_last h' = h_last h"
    "mset (elements (filled h' i' x)) = mset (elements (filled h i x))"
    using m(1) by (auto simp: moves_def)
  let ?h = "filled h' i' x" and ?s = "stored s' x i'"
  have at: "nth_elt ?h j = (if j = i' then x else nth_elt h' j)" for j by (rule mine_at [OF M(1-3)])
  have p: "place h' s' i' x = Some (?h, ?s)" by (rule mine_place [OF M(1-3)])
  have "HEAPCONDITION ?h ?s i' = Some True"
  proof (cases "i' = 1")
    case False
    then have "1 \<le> i' div 2" "i' div 2 \<le> h_last ?h" "i' div 2 \<noteq> i'" using M by auto
    then show ?thesis using False M m(3) shapeD(3) [of ?h] mine_filled [OF M(1)]
      by (auto simp: HEAPCONDITION_def heap_parent_def at mine_def)
  qed (simp add: HEAPCONDITION_def)
  moreover have "settles s (filled h i x) ?s ?h"
  proof -
    have "x \<in> set (elements (filled h' i' x))"
      using elements_nth [of i' ?h] M nth_mem [of "i' - 1" "elements ?h"] by (auto simp: at)
    then have "x \<in> set (elements (filled h i x))" using M(7) by (metis set_mset_mset)
    then show ?thesis using M m mine_filled [OF M(1)] by (auto simp: settles_def moves_def get_stored)
  qed
  moreover have "tracked ?s ?h {}" if d: "distinct (elements (filled h i x))"
  proof -
    have "distinct (elements ?h)" using d M(7) by (metis mset_eq_imp_distinct_iff)
    moreover have "tracked s' h' {i'}" using m(1) d t by (auto simp: moves_def)
    ultimately show ?thesis by (intro tracked_end [OF M(1-3)])
  qed
  ultimately show ?thesis using p by auto
qed

lemma float_up_settles:
  assumes "mine h" "hole s h i" "\<forall>j. j \<le> h_last h \<and> j div 2 = i \<longrightarrow> le s x (nth_elt h j)"
    and "distinct (elements (filled h i x)) \<longrightarrow> tracked s h {i}"
  shows "\<exists>h2 s2. float_up h s i x = Some (h2, s2) \<and> settles s (filled h i x) s2 h2 \<and>
    (distinct (elements (filled h i x)) \<longrightarrow> tracked s2 h2 {})"
proof -
  obtain h' s' i' where r: "float_up_loop h s i x = Some (h', s', i')" "moves s h i x s' h' i'" "ordered s' (filled h' i' x)"
    "i' = 1 \<or> \<not> compare s' x (nth_elt h' (i' div 2))" using float_up_loop_moves [OF assms(1-3)] by blast
  show ?thesis using settle [OF assms(1) r(2-4) assms(4)] r(1) by (simp add: float_up_def)
qed

lemma sink_down_settles:
  assumes "mine h" "hole s h i" "i = 1 \<or> \<not> compare s x (nth_elt h (i div 2))"
    and "distinct (elements (filled h i x)) \<longrightarrow> tracked s h {i}"
  shows "\<exists>h2 s2. sink_down h s i x = Some (h2, s2) \<and> settles s (filled h i x) s2 h2 \<and>
    (distinct (elements (filled h i x)) \<longrightarrow> tracked s2 h2 {})"
proof -
  obtain h' s' i' where r: "sink_down_loop h s i x = Some (h', s', i')" "moves s h i x s' h' i'" "ordered s' (filled h' i' x)"
    "i' = 1 \<or> \<not> compare s' x (nth_elt h' (i' div 2))" using sink_down_loop_moves [OF assms(1-3)] by blast
  show ?thesis using settle [OF assms(1) r(2-4) assms(4)] r(1) by (simp add: sink_down_def)
qed

end

context heap_order
begin

definition heap_inv :: "'s \<Rightarrow> ('a, 's) isc_heap \<Rightarrow> bool" where
  "heap_inv s h \<longleftrightarrow> mine h \<and> ordered s h \<and> (index \<noteq> None \<longrightarrow> distinct (elements h)) \<and> tracked s h {}"

lemma create_inv: "n < 2 ^ 32 \<Longrightarrow> heap_inv s (isc_heap_create compare index n)"
  by (simp add: heap_inv_def mine_def shape_def isc_heap_create_def VALID_HEAP_def ordered_def tracked_def elements_def)

lemma root_least:
  assumes "ordered s h" "1 \<le> j" "j \<le> h_last h"
  shows "le s (nth_elt h 1) (nth_elt h j)"
  using assms(2,3)
proof (induction j rule: less_induct)
  case (less j)
  show ?case
  proof (cases "j = 1")
    case False
    then have "le s (nth_elt h 1) (nth_elt h (j div 2))" using less by auto
    moreover have "le s (nth_elt h (j div 2)) (nth_elt h j)" using assms(1) less.prems False by (auto simp: ordered_def above_def)
    ultimately show ?thesis by (rule le_trans)
  qed (simp add: le_refl)
qed

lemma set_elements: "set (elements h) = nth_elt h ` {1..h_last h}"
  by (simp add: elements_def atLeastLessThanSuc_atLeastAtMost del: upt_Suc)

lemma heap_first:
  assumes "heap_inv s h"
  shows "\<exists>e. isc_heap_element h 1 = Some e \<and> (case e of None \<Rightarrow> elements h = [] | Some x \<Rightarrow> x = nth_elt h 1 \<and> 0 < h_last h \<and> x \<in> set (elements h) \<and>
    (\<forall>y\<in>set (elements h). le s x y))"
proof (cases "h_last h = 0")
  case True
  then show ?thesis using assms by (simp add: isc_heap_element_def heap_inv_def mine_def shape_def elements_def)
next
  case False
  then have "peek (h_array h) 1 = Some (Some (nth_elt h 1))"
    using shapeD(1,2) [of h 1] assms by (auto simp: heap_inv_def mine_def)
  then have "isc_heap_element h 1 = Some (Some (nth_elt h 1))"
    using False assms by (simp add: isc_heap_element_def heap_inv_def mine_def shape_def)
  moreover have "\<forall>y\<in>set (elements h). le s (nth_elt h 1) y"
    using root_least assms by (auto simp: set_elements heap_inv_def)
  moreover have "nth_elt h 1 \<in> set (elements h)" using False by (simp add: set_elements)
  ultimately show ?thesis using False by auto
qed

lemma settles_inv:
  assumes "settles s h s' h'" "distinct (elements h) \<longrightarrow> tracked s' h' {}" "index \<noteq> None \<longrightarrow> distinct (elements h)"
  shows "heap_inv s' h'"
proof -
  have "distinct (elements h') = distinct (elements h)" using assms(1) by (auto simp: settles_def dest: mset_eq_imp_distinct_iff)
  then show ?thesis using assms by (auto simp: settles_def heap_inv_def tracked_def)
qed

text \<open>What an operation leaves alone.\<close>

definition keeps :: "'s \<Rightarrow> 's \<Rightarrow> 'a set \<Rightarrow> bool" where
  "keeps s s' X \<longleftrightarrow> le s' = le s \<and> compare s' = compare s \<and> view s' = view s \<and> (index \<noteq> None \<longrightarrow> (\<forall>y. y \<notin> X \<longrightarrow> get s' y = get s y))"

lemma insert_ok:
  assumes inv: "heap_inv s h" and room: "h_last h + 1 < h_size h \<or> 1 < h_size_increment h \<and> h_size h + h_size_increment h < 2 ^ 29"
    and new: "index \<noteq> None \<Longrightarrow> x \<notin> set (elements h)"
  shows "\<exists>h' s'. isc_heap_insert h s x = Some (h', s') \<and> heap_inv s' h' \<and> mset (elements h') = add_mset x (mset (elements h)) \<and>
    keeps s s' (insert x (set (elements h))) \<and> h_size_increment h' = h_size_increment h \<and>
    h_size h' = (if h_last h + 1 < h_size h then h_size h else h_size h + h_size_increment h)"
proof -
  have sh: "shape h" and mi: "mine h" and ord: "ordered s h" using inv by (auto simp: heap_inv_def mine_def)
  let ?n = "h_last h + 1"
  have n: "(h_last h + 1) mod 2 ^ 32 = ?n" using sh room by (auto simp: shape_def)
  define g where "g = (if ?n < h_size h then h else h\<lparr>h_size := h_size h + h_size_increment h, h_array := h_array h @ replicate (h_size_increment h) None\<rparr>)"
  have g: "(if ?n \<ge> h_size h then resize h else Some h) = Some g"
    using room sh by (auto simp: g_def resize_def shape_def)
  let ?g = "g\<lparr>h_last := ?n\<rparr>"
  have run: "isc_heap_insert h s x = float_up ?g s ?n x"
    using sh n g by (simp add: isc_heap_insert_def shape_def)
  have ats: "nth_elt ?g j = nth_elt h j" if "1 \<le> j" "j \<le> h_last h" for j
    using shapeD(1) [OF sh that] by (auto simp: nth_elt_def g_def nth_append)
  have arr: "length (h_array ?g) = h_size ?g" "?n < h_size ?g" "h_size ?g < 2 ^ 32" "VALID_HEAP ?g" "h_compare ?g = compare" "h_index ?g = index"
    using sh mi room by (auto simp: g_def shape_def VALID_HEAP_def mine_def)
  let ?f = "filled ?g ?n x"
  have fshape: "shape ?f"
  proof -
    have "h_array ?f ! j \<noteq> None" if "1 \<le> j" "j \<le> ?n" for j
    proof (cases "j = ?n")
      case False
      then have "j < length (h_array h)" "h_array h ! j \<noteq> None" using shapeD [OF sh that(1)] that(2) by auto
      then show ?thesis using False by (auto simp: filled_def g_def nth_append)
    qed (use arr in \<open>simp add: filled_def\<close>)
    then show ?thesis using arr by (simp add: shape_def filled_def VALID_HEAP_def)
  qed
  have mf: "mine ?f" using fshape arr by (simp add: mine_def)
  have at: "nth_elt ?f j = (if j = ?n then x else nth_elt h j)" if "1 \<le> j" "j \<le> ?n" for j
    using arr ats that by (auto simp: nth_filled)
  have els: "elements ?f = elements h @ [x]"
  proof -
    have "nth_elt ?f j = nth_elt h j" if "j \<in> set [1..<?n]" for j using that at [of j] by auto
    then have "map (nth_elt ?f) [1..<?n] = map (nth_elt h) [1..<?n]" by (intro map_cong) simp_all
    then show ?thesis using at [of ?n] by (simp add: elements_def)
  qed
  have ho: "hole s ?f ?n"
  proof -
    have "above s ?f j" if "2 \<le> j" "j \<le> ?n" "j \<noteq> ?n" "j div 2 \<noteq> ?n" for j
      using ord that at [of j] at [of "j div 2"] by (auto simp: ordered_def above_def)
    then show ?thesis by (auto simp: hole_def)
  qed
  have tr: "distinct (elements ?f) \<longrightarrow> tracked s ?f {?n}"
    using inv at els by (auto simp: heap_inv_def tracked_def)
  have eqf: "float_up ?g s ?n x = float_up ?f s ?n x"
  proof (cases "h_last h = 0")
    case True
    then show ?thesis by (simp add: float_up_def float_up_loop.simps place_def filled_def poke_def)
  next
    case False
    then have p: "1 \<le> ?n div 2" "?n div 2 \<le> h_last h" "?n div 2 \<noteq> ?n" by auto
    have e: "element_at ?g (?n div 2) = Some (nth_elt h (?n div 2))" "element_at ?f (?n div 2) = Some (nth_elt h (?n div 2))"
    proof -
      show "element_at ?f (?n div 2) = Some (nth_elt h (?n div 2))" using shapeD(3) [OF fshape, of "?n div 2"] p at [of "?n div 2"] by simp
      then show "element_at ?g (?n div 2) = Some (nth_elt h (?n div 2))" using p by (auto simp: element_at_def filled_def peek_def split: if_splits)
    qed
    have pl: "place ?g s' ?n y = place ?f s' ?n y" for s' y by (simp add: place_def filled_def poke_def)
    have "float_up_loop ?g s ?n x = (if compare s x (nth_elt h (?n div 2)) then float_up_loop ?f s ?n x else Some (?g, s, ?n))"
      using False e arr pl by (subst (1 2) float_up_loop.simps) (auto simp: heap_parent_def)
    moreover have "float_up_loop ?f s ?n x = Some (?f, s, ?n)" if "\<not> compare s x (nth_elt h (?n div 2))"
      using False e arr that by (subst float_up_loop.simps) (auto simp: heap_parent_def)
    ultimately show ?thesis using pl by (auto simp: float_up_def)
  qed
  have kids: "\<forall>j. j \<le> h_last ?f \<and> j div 2 = ?n \<longrightarrow> le s x (nth_elt ?f j)" by auto
  have "filled ?f ?n x = ?f" by simp
  then obtain h2 s2 where r: "float_up ?f s ?n x = Some (h2, s2)" "settles s ?f s2 h2" "distinct (elements ?f) \<longrightarrow> tracked s2 h2 {}"
    using float_up_settles [OF mf ho kids] tr by auto
  have "keeps s s2 (insert x (set (elements h)))" using r(2) els by (auto simp: settles_def keeps_def)
  moreover have "h_size h2 = (if ?n < h_size h then h_size h else h_size h + h_size_increment h)" "h_size_increment h2 = h_size_increment h"
    using r(2) by (auto simp: settles_def g_def)
  ultimately show ?thesis using run eqf r settles_inv [OF r(2,3)] els new inv by (auto simp: settles_def heap_inv_def)
qed

lemma delete_ok:
  assumes inv: "heap_inv s h" and i: "1 \<le> i" "i \<le> h_last h"
  shows "\<exists>h' s'. isc_heap_delete h s i = Some (h', s') \<and> heap_inv s' h' \<and> mset (elements h) = add_mset (nth_elt h i) (mset (elements h')) \<and>
    keeps s s' (set (elements h)) \<and> (index \<noteq> None \<longrightarrow> distinct (elements h) \<longrightarrow> get s' (nth_elt h i) = 0) \<and>
    h_size h' = h_size h \<and> h_size_increment h' = h_size_increment h"
proof -
  have sh: "shape h" and mi: "mine h" and ord: "ordered s h" using inv by (auto simp: heap_inv_def mine_def)
  let ?n = "h_last h" and ?e = "nth_elt h i" and ?x = "nth_elt h (h_last h)"
  have n: "1 \<le> ?n" using i by simp
  let ?s = "stored s ?e 0"
  define g where "g = h\<lparr>h_array := (h_array h)[?n := None], h_last := ?n - 1\<rparr>"
  have gs: "shape g" using sh by (auto simp: g_def shape_def VALID_HEAP_def)
  have mg: "mine g" using gs mi by (simp add: mine_def g_def)
  have gl: "h_last g = ?n - 1" by (simp add: g_def)
  have at: "nth_elt g j = nth_elt h j" if "j < ?n" for j using that by (simp add: nth_elt_def g_def)
  have E: "element_at h i = Some ?e" "element_at h ?n = Some ?x" using shapeD(3) [OF sh] i n by auto
  have lt: "?n < length (h_array h)" using shapeD(1) [OF sh n] by simp
  have hx: "(case h_index h of None \<Rightarrow> s | Some f \<Rightarrow> f ?e 0 s) = ?s" using mi by (simp add: mine_def stored_def)
  have els: "elements h = elements g @ [?x]"
  proof -
    have "nth_elt g j = nth_elt h j" if "j \<in> set [1..<?n]" for j using that at [of j] by simp
    then have "map (nth_elt g) [1..<?n] = map (nth_elt h) [1..<?n]" by (intro map_cong) simp_all
    then show ?thesis using n by (simp add: elements_def gl)
  qed
  have dg: "distinct (elements h) \<Longrightarrow> j \<noteq> i \<Longrightarrow> 1 \<le> j \<Longrightarrow> j \<le> ?n \<Longrightarrow> nth_elt h j \<noteq> ?e" for j
    using elements_distinct i by blast
  have gd: "index \<noteq> None \<Longrightarrow> distinct (elements h)" using inv by (simp add: heap_inv_def)
  have trk: "get ?s (nth_elt h j) = j" if "index \<noteq> None" "j \<noteq> i" "1 \<le> j" "j \<le> ?n" for j
    using inv that dg [OF gd, of j] by (simp add: heap_inv_def tracked_def get_stored)
  have eh: "?e \<in> set (elements h)" using i by (auto simp: set_elements)
  have kp: "keeps s ?s (set (elements h))" using eh by (auto simp: keeps_def get_stored)
  show ?thesis
  proof (cases "i = ?n")
    case True
    have run: "isc_heap_delete h s i = Some (g, ?s)"
      using True sh i lt E hx [unfolded True] by (simp add: isc_heap_delete_def shape_def g_def)
    have "ordered ?s g" using ord at by (auto simp: ordered_def above_def gl)
    moreover have "tracked ?s g {}" using trk at by (auto simp: tracked_def gl True)
    ultimately have "heap_inv ?s g" using mg gd els by (auto simp: heap_inv_def)
    then show ?thesis using run els True kp by (auto simp: get_stored g_def)
  next
    case False
    then have i': "i < ?n" "i \<le> h_last g" using i by (auto simp: gl)
    let ?g = "filled g i ?x"
    have ig: "i < length (h_array g)" using shapeD(1) [OF gs i(1) i'(2)] .
    have atg: "nth_elt ?g j = (if j = i then ?x else nth_elt h j)" if "j < ?n" for j
      using that at ig by (simp add: nth_filled)
    have eg: "element_at g i = Some ?e" using shapeD(3) [OF gs i(1) i'(2)] at i' by simp
    have ec: "h_compare g = compare" using mg by (simp add: mine_def)
    have run: "isc_heap_delete h s i = (if compare ?s ?x ?e then float_up ?g ?s i ?x else sink_down ?g ?s i ?x)"
      using False sh i lt E hx eg ig ec unfolding isc_heap_delete_def g_def filled_def by (simp add: shape_def)
    have mg2: "mine ?g" by (rule mine_filled [OF mg])
    have chain: "le s ?e (nth_elt h j)" if "j \<le> ?n" "j div 2 = i" for j
      using ord that i by (auto simp: ordered_def above_def)
    have par: "le s (nth_elt h (i div 2)) ?e" if "1 < i" using ord that i by (auto simp: ordered_def above_def)
    have ho: "hole ?s ?g i"
    proof -
      have "above s ?g j" if "2 \<le> j" "j \<le> ?n - 1" "j \<noteq> i" "j div 2 \<noteq> i" for j
        using that ord atg [of j] atg [of "j div 2"] by (auto simp: ordered_def above_def)
      moreover have "le s (nth_elt ?g (i div 2)) (nth_elt ?g j)" if j: "j \<le> ?n - 1" "j div 2 = i" "1 < i" for j
      proof -
        have "j \<noteq> i" "i div 2 \<noteq> i" "j < ?n" "i div 2 < ?n" using j i' by auto
        then show ?thesis using atg chain [of j] par j le_trans by auto
      qed
      ultimately show ?thesis using i i' by (simp add: hole_def gl)
    qed
    have els2: "mset (elements h) = add_mset ?e (mset (elements ?g))"
    proof -
      have "mset (elements ?g) = add_mset ?x (mset (elements g) - {#?e#})"
        using elements_filled [OF gs i(1) i'(2), of ?x] elements_nth [OF i(1) i'(2)] i i' at
        by (simp add: mset_update)
      moreover have "i - 1 < length (elements g)" using i i' by simp
      then have "elements g ! (i - 1) \<in> set (elements g)" by (rule nth_mem)
      then have "?e \<in># mset (elements g)" unfolding elements_nth [OF i(1) i'(2)] at [OF i'(1)] by simp
      ultimately show ?thesis by (simp add: els)
    qed
    have nin: "index \<noteq> None \<Longrightarrow> ?e \<notin> set (elements ?g)" and dd: "index \<noteq> None \<Longrightarrow> distinct (elements ?g)"
    proof -
      assume "index \<noteq> None"
      moreover have "distinct (elements h) = distinct (?e # elements ?g)" using els2 by (intro mset_eq_imp_distinct_iff) simp
      ultimately show "?e \<notin> set (elements ?g)" "distinct (elements ?g)" using gd by auto
    qed
    have tr: "distinct (elements ?g) \<longrightarrow> tracked ?s ?g {i}"
      using trk atg by (auto simp: tracked_def gl)
    have "\<exists>h2 s2. isc_heap_delete h s i = Some (h2, s2) \<and> settles ?s ?g s2 h2 \<and> (distinct (elements ?g) \<longrightarrow> tracked s2 h2 {})"
    proof (cases "compare ?s ?x ?e")
      case True
      then have "le s ?x ?e" using compare_le by simp
      have "\<forall>j. j \<le> h_last ?g \<and> j div 2 = i \<longrightarrow> le ?s ?x (nth_elt ?g j)"
      proof (intro allI impI)
        fix j assume j: "j \<le> h_last ?g \<and> j div 2 = i"
        then have "j \<noteq> i" "j < ?n" using i n by (auto simp: gl)
        then show "le ?s ?x (nth_elt ?g j)" using chain [of j] j \<open>le s ?x ?e\<close> le_trans atg by auto
      qed
      then show ?thesis using float_up_settles [OF mg2 ho, of ?x] tr run True by simp
    next
      case False
      have "i = 1 \<or> \<not> compare ?s ?x (nth_elt ?g (i div 2))"
      proof (cases "i = 1")
        case b: False
        then have "i div 2 < ?n" "i div 2 \<noteq> i" "1 < i" using i i' by auto
        then show ?thesis using False par compare_above atg by auto
      qed simp
      then show ?thesis using sink_down_settles [OF mg2 ho, of ?x] tr run False by simp
    qed
    then obtain h2 s2 where r: "isc_heap_delete h s i = Some (h2, s2)" "settles ?s ?g s2 h2" "distinct (elements ?g) \<longrightarrow> tracked s2 h2 {}" by blast
    have sub: "set (elements ?g) \<subseteq> set (elements h)" using els2 by (metis set_mset_add_mset_insert set_mset_mset subset_insertI)
    have "keeps s s2 (set (elements h))" using r(2) kp sub by (auto simp: settles_def keeps_def)
    moreover have "index \<noteq> None \<Longrightarrow> get s2 ?e = 0" using r(2) nin by (simp add: settles_def get_stored)
    moreover have "mset (elements h) = add_mset ?e (mset (elements h2))" using els2 r(2) by (simp add: settles_def)
    moreover have "h_size h2 = h_size h" "h_size_increment h2 = h_size_increment h" using r(2) by (simp_all add: settles_def g_def)
    ultimately show ?thesis using r settles_inv [OF r(2,3)] dd by auto
  qed
qed

end

context heap_order
begin

text \<open>
  \<open>changed s0 s x\<close>: the memory went from \<open>s0\<close> to \<open>s\<close>, and only what \<open>x\<close> points to has changed, apart from its position.
\<close>

definition changed :: "'s \<Rightarrow> 's \<Rightarrow> 'a \<Rightarrow> bool" where
  "changed s0 s x \<longleftrightarrow> (\<forall>y z. y \<noteq> x \<longrightarrow> z \<noteq> x \<longrightarrow> le s y z = le s0 y z) \<and> get s = get s0"

lemma changed_hole:
  assumes inv: "heap_inv s0 h" and d: "distinct (elements h)" and i: "1 \<le> i" "i \<le> h_last h" and c: "changed s0 s (nth_elt h i)"
  shows "hole s h i" "tracked s h {i}"
proof -
  have o': "ordered s0 h" using inv by (simp add: heap_inv_def)
  have same: "le s (nth_elt h j) (nth_elt h k) = le s0 (nth_elt h j) (nth_elt h k)"
    if "1 \<le> j" "j \<le> h_last h" "1 \<le> k" "k \<le> h_last h" "j \<noteq> i" "k \<noteq> i" for j k
    using elements_distinct [OF d, of j i] elements_distinct [OF d, of k i] that i c by (auto simp: changed_def)
  have "above s h j" if "2 \<le> j" "j \<le> h_last h" "j \<noteq> i" "j div 2 \<noteq> i" for j
    using same [of "j div 2" j] that o' by (auto simp: ordered_def above_def)
  moreover have "le s (nth_elt h (i div 2)) (nth_elt h j)" if j: "j \<le> h_last h" "j div 2 = i" "1 < i" for j
  proof -
    have k: "1 \<le> i div 2" "i div 2 \<le> h_last h" "1 \<le> j" "i div 2 \<noteq> i" "j \<noteq> i" using i j by auto
    have "le s0 (nth_elt h (i div 2)) (nth_elt h i)" "le s0 (nth_elt h i) (nth_elt h j)"
      using o' i j by (auto simp: ordered_def above_def)
    then show ?thesis using same [OF k(1,2,3) j(1) k(4,5)] le_trans by blast
  qed
  ultimately show "hole s h i" using i by (auto simp: hole_def)
  show "tracked s h {i}" using inv c by (auto simp: heap_inv_def tracked_def changed_def)
qed

lemma filled_same: "shape h \<Longrightarrow> 1 \<le> i \<Longrightarrow> i \<le> h_last h \<Longrightarrow> filled h i (nth_elt h i) = h"
  using shapeD(2) [of h i] by (simp add: filled_def list_update_same_conv shapeD(1) flip: shapeD(2))

lemma settles_keeps: "settles s h s' h' \<Longrightarrow> keeps s s' (set (elements h))"
  by (auto simp: settles_def keeps_def)

lemma increased_ok:
  assumes inv: "heap_inv s0 h" and d: "distinct (elements h)" and i: "1 \<le> i" "i \<le> h_last h" and c: "changed s0 s (nth_elt h i)"
    and sooner: "\<And>y. y \<noteq> nth_elt h i \<Longrightarrow> le s0 (nth_elt h i) y \<Longrightarrow> le s (nth_elt h i) y"
  shows "\<exists>h' s'. isc_heap_increased h s i = Some (h', s') \<and> heap_inv s' h' \<and> mset (elements h') = mset (elements h) \<and>
    keeps s s' (set (elements h)) \<and> h_size_increment h' = h_size_increment h \<and> h_size h' = h_size h"
proof -
  have sh: "shape h" and mi: "mine h" and ord: "ordered s0 h" using inv by (auto simp: heap_inv_def mine_def)
  note same = filled_same [OF sh i]
  have "\<forall>j. j \<le> h_last h \<and> j div 2 = i \<longrightarrow> le s (nth_elt h i) (nth_elt h j)"
  proof (intro allI impI)
    fix j assume j: "j \<le> h_last h \<and> j div 2 = i"
    then have "le s0 (nth_elt h i) (nth_elt h j)" "1 \<le> j" "j \<noteq> i" using ord i by (auto simp: ordered_def above_def)
    then show "le s (nth_elt h i) (nth_elt h j)" using sooner elements_distinct [OF d _ _ i] j by blast
  qed
  from float_up_settles [OF mi changed_hole(1) [OF inv d i c] this] changed_hole(2) [OF inv d i c] obtain h2 s2 where
    r: "float_up h s i (nth_elt h i) = Some (h2, s2)" "settles s h s2 h2" "distinct (elements h) \<longrightarrow> tracked s2 h2 {}"
    unfolding same by blast
  have "isc_heap_increased h s i = Some (h2, s2)" using sh i r(1) shapeD(3) [OF sh i] by (simp add: isc_heap_increased_def shape_def)
  then show ?thesis using settles_inv [OF r(2,3)] settles_keeps [OF r(2)] d r(2) by (auto simp: settles_def)
qed

lemma decreased_ok:
  assumes inv: "heap_inv s0 h" and d: "distinct (elements h)" and i: "1 \<le> i" "i \<le> h_last h" and c: "changed s0 s (nth_elt h i)"
    and later: "\<And>y. y \<noteq> nth_elt h i \<Longrightarrow> le s0 y (nth_elt h i) \<Longrightarrow> \<not> compare s (nth_elt h i) y"
  shows "\<exists>h' s'. isc_heap_decreased h s i = Some (h', s') \<and> heap_inv s' h' \<and> mset (elements h') = mset (elements h) \<and>
    keeps s s' (set (elements h)) \<and> h_size_increment h' = h_size_increment h \<and> h_size h' = h_size h"
proof -
  have sh: "shape h" and mi: "mine h" and ord: "ordered s0 h" using inv by (auto simp: heap_inv_def mine_def)
  note same = filled_same [OF sh i]
  have "i = 1 \<or> \<not> compare s (nth_elt h i) (nth_elt h (i div 2))"
  proof (cases "i = 1")
    case False
    then have "le s0 (nth_elt h (i div 2)) (nth_elt h i)" "1 \<le> i div 2" "i div 2 \<noteq> i" "i div 2 \<le> h_last h"
      using ord i by (auto simp: ordered_def above_def)
    then show ?thesis using later elements_distinct [OF d _ _ i] by blast
  qed simp
  from sink_down_settles [OF mi changed_hole(1) [OF inv d i c] this] changed_hole(2) [OF inv d i c] obtain h2 s2 where
    r: "sink_down h s i (nth_elt h i) = Some (h2, s2)" "settles s h s2 h2" "distinct (elements h) \<longrightarrow> tracked s2 h2 {}"
    unfolding same by blast
  have "isc_heap_decreased h s i = Some (h2, s2)" using sh i r(1) shapeD(3) [OF sh i] by (simp add: isc_heap_decreased_def shape_def)
  then show ?thesis using settles_inv [OF r(2,3)] settles_keeps [OF r(2)] d r(2) by (auto simp: settles_def)
qed

end

section \<open>Properties\<close>

text \<open>
  A heap made with a size increment of one overruns its array at the first insertion: the array then has one place, which is
  never used, and the element goes to the place behind it.
\<close>

theorem increment_one_overruns:
  "isc_heap_insert (isc_heap_create compare index 1) s x = None"
  by (simp add: isc_heap_insert_def isc_heap_create_def resize_def float_up_def float_up_loop.simps place_def VALID_HEAP_def poke_def)

end
