(* ===== verification/DnsTime.thy ===== *)
theory DnsTime
  imports Prelude
begin

text \<open>
  Serial numbers (\<^verbatim>\<open>lib/isc/serial.c\<close>) and DNS times (\<^verbatim>\<open>lib/dns/time.c\<close>).
\<close>

section \<open>Serial numbers\<close>

definition isc_serial_lt :: "u32 \<Rightarrow> u32 \<Rightarrow> bool" where
  "isc_serial_lt a b \<longleftrightarrow> (if a = (b XOR 0x80000000) then False else sint (a - b) < 0)"

definition isc_serial_gt :: "u32 \<Rightarrow> u32 \<Rightarrow> bool" where
  "isc_serial_gt a b \<longleftrightarrow> sint (a - b) > 0"

definition isc_serial_le :: "u32 \<Rightarrow> u32 \<Rightarrow> bool" where
  "isc_serial_le a b \<longleftrightarrow> (if a = b then True else isc_serial_lt a b)"

definition isc_serial_ge :: "u32 \<Rightarrow> u32 \<Rightarrow> bool" where
  "isc_serial_ge a b \<longleftrightarrow> (if a = b then True else isc_serial_gt a b)"

definition isc_serial_eq :: "u32 \<Rightarrow> u32 \<Rightarrow> bool" where
  "isc_serial_eq a b \<longleftrightarrow> a = b"

definition isc_serial_ne :: "u32 \<Rightarrow> u32 \<Rightarrow> bool" where
  "isc_serial_ne a b \<longleftrightarrow> a \<noteq> b"

section \<open>Times\<close>

text \<open>\<open>now\<close> is \<^verbatim>\<open>isc_stdtime_now()\<close>.  The sums and differences are far from the ends of \<^verbatim>\<open>int64_t\<close>.\<close>

definition dns_time64_from32 :: "u32 \<Rightarrow> u32 \<Rightarrow> int" where
  "dns_time64_from32 now val =
     (if isc_serial_gt val now then uint now + uint (val - now) else uint now - uint (now - val))"

section \<open>Lemmas\<close>

lemma top_bit:
  assumes "0 \<le> (d :: int)" "d < 2 ^ 32"
  shows "odd (d div 2 ^ 31) \<longleftrightarrow> 2 ^ 31 \<le> d"
proof (cases "2 ^ 31 \<le> d")
  case True
  then have "d div 2 ^ 31 = 1" using assms by (intro int_div_pos_eq [of _ _ _ "d - 2 ^ 31"]) auto
  then show ?thesis using True by simp
next
  case False
  then have "d div 2 ^ 31 = 0" using assms by (intro div_pos_pos_trivial) auto
  then show ?thesis using False by simp
qed

text \<open>The difference of two 32-bit numbers, read as a signed number.\<close>

definition serial_diff :: "u32 \<Rightarrow> u32 \<Rightarrow> int" where
  "serial_diff a b = (let d = (uint a - uint b) mod 2 ^ 32 in if d < 2 ^ 31 then d else d - 2 ^ 32)"

lemma sint_diff: "sint (a - b :: u32) = serial_diff a b"
proof -
  have "sint (a - b) = signed_take_bit 31 (uint (a - b))" by (simp add: sint_uint)
  also have "uint (a - b) = (uint a - uint b) mod 2 ^ 32" by (simp add: uint_word_ariths)
  finally show ?thesis using top_bit [of "(uint a - uint b) mod 2 ^ 32"]
    by (auto simp: signed_take_bit_eq_take_bit_minus take_bit_eq_mod bit_iff_odd serial_diff_def Let_def)
qed

lemma serial_diff_bounds: "- (2 ^ 31) \<le> serial_diff a b" "serial_diff a b < 2 ^ 31"
  using pos_mod_bound [of "2 ^ 32" "uint a - uint b"] pos_mod_sign [of "2 ^ 32" "uint a - uint b"] by (auto simp: serial_diff_def Let_def)

lemma serial_diff_mod: "(uint b + serial_diff a b) mod 2 ^ 32 = uint a"
proof -
  have "(uint b + serial_diff a b) mod 2 ^ 32 = (uint b + (uint a - uint b) mod 2 ^ 32) mod 2 ^ 32"
    by (auto simp: serial_diff_def Let_def) (metis add_diff_eq minus_mod_self2)
  also have "\<dots> = uint a" using uint_lt2p [of a] by (simp add: mod_simps mod_pos_pos_trivial)
  finally show ?thesis .
qed

text \<open>The 64-bit time is the one congruent to the 32-bit time that is nearest to now.\<close>

lemma time64_eq: "dns_time64_from32 now val = uint now + serial_diff val now"
proof (cases "isc_serial_gt val now")
  case True
  then have "serial_diff val now = uint (val - now)"
    by (auto simp: isc_serial_gt_def sint_diff serial_diff_def Let_def uint_word_ariths split: if_splits)
  then show ?thesis using True by (simp add: dns_time64_from32_def)
next
  case False
  define d where "d = (uint val - uint now) mod 2 ^ 32"
  have d: "0 \<le> d" "d < 2 ^ 32" by (simp_all add: d_def)
  have n: "uint (now - val) = (- d) mod 2 ^ 32" by (simp add: d_def uint_word_ariths mod_simps)
  have "serial_diff val now \<le> 0" using False by (simp add: isc_serial_gt_def sint_diff)
  then have "d = 0 \<or> 2 ^ 31 \<le> d" using d by (auto simp: serial_diff_def d_def Let_def split: if_splits)
  then have "serial_diff val now = - uint (now - val)"
  proof
    assume "d = 0"
    then show ?thesis using n by (simp add: serial_diff_def d_def)
  next
    assume b: "2 ^ 31 \<le> d"
    then have "(- d) mod 2 ^ 32 = 2 ^ 32 - d" using d zmod_zminus1_eq_if [of d "2 ^ 32"] by (auto simp: mod_pos_pos_trivial)
    then show ?thesis using n b by (simp add: serial_diff_def d_def)
  qed
  then show ?thesis using False by (simp add: dns_time64_from32_def)
qed

end
