(* ===== verification/SlabHeap.thy ===== *)
theory SlabHeap
  imports Heap DnsTime
begin

text \<open>
  The heaps of the red-black tree database, \<^verbatim>\<open>lib/dns/rbtdb.c\<close> and \<^verbatim>\<open>lib/dns/rbt-zonedb.c\<close>: a cache keeps the headers of its
  records in the order their TTLs end, a zone in the order their signatures are to be made anew.  There is one heap per
  bucket of nodes.  The headers are in a memory, at addresses; a header knows its node's bucket and its place in the heap.
\<close>

section \<open>Headers\<close>

type_synonym addr = nat

text \<open>The fields of \<^verbatim>\<open>struct dns_slabheader\<close> that concern the heaps; \<open>sh_iscache\<close> is \<^verbatim>\<open>header->db != NULL && dns_db_iscache(header->db)\<close>.\<close>

record dns_slabheader =
  sh_ttl :: u32
  sh_type :: u32
  sh_attributes :: u16
  sh_heap_index :: nat
  sh_resign :: u32
  sh_resign_lsb :: nat
  sh_iscache :: bool
  sh_locknum :: nat
  sh_linked :: bool
  sh_heap :: "nat option"

type_synonym header_memory = "addr \<Rightarrow> dns_slabheader"

definition dns_rdatatype_soa :: u32 where "dns_rdatatype_soa = 6"
definition dns_rdatatype_rrsig :: u32 where "dns_rdatatype_rrsig = 46"

definition DNS_TYPEPAIR_VALUE :: "u32 \<Rightarrow> u32 \<Rightarrow> u32" where
  "DNS_TYPEPAIR_VALUE base ext = (push_bit 16 ext OR (base AND 0xffff))"

definition RBTDB_RDATATYPE_SIGSOA :: u32 where
  "RBTDB_RDATATYPE_SIGSOA = DNS_TYPEPAIR_VALUE dns_rdatatype_rrsig dns_rdatatype_soa"

definition DNS_SLABHEADERATTR_RESIGN :: u16 where "DNS_SLABHEADERATTR_RESIGN = push_bit 4 1"

definition RESIGN :: "dns_slabheader \<Rightarrow> bool" where
  "RESIGN header \<longleftrightarrow> sh_attributes header AND DNS_SLABHEADERATTR_RESIGN \<noteq> 0"

definition ttl_sooner :: "dns_slabheader \<Rightarrow> dns_slabheader \<Rightarrow> bool" where
  "ttl_sooner h1 h2 \<longleftrightarrow> sh_ttl h1 < sh_ttl h2"

definition resign_sooner :: "dns_slabheader \<Rightarrow> dns_slabheader \<Rightarrow> bool" where
  "resign_sooner h1 h2 \<longleftrightarrow>
     sh_resign h1 < sh_resign h2 \<or>
     (sh_resign h1 = sh_resign h2 \<and> sh_resign_lsb h1 < sh_resign_lsb h2) \<or>
     (sh_resign h1 = sh_resign h2 \<and> sh_resign_lsb h1 = sh_resign_lsb h2 \<and> sh_type h2 = RBTDB_RDATATYPE_SIGSOA)"

definition set_index :: "addr \<Rightarrow> nat \<Rightarrow> header_memory \<Rightarrow> header_memory" where
  "set_index what idx s = s(what := (s what)\<lparr>sh_heap_index := idx\<rparr>)"

section \<open>The database\<close>

record rbtdb =
  rb_cache :: bool
  rb_heaps :: "(addr, header_memory) isc_heap list"
  rb_mem :: header_memory

text \<open>\<^verbatim>\<open>rbtdb->sooner\<close>.\<close>

definition sooner :: "bool \<Rightarrow> dns_slabheader \<Rightarrow> dns_slabheader \<Rightarrow> bool" where
  "sooner cache = (if cache then ttl_sooner else resign_sooner)"

definition create_heap :: "bool \<Rightarrow> (addr, header_memory) isc_heap" where
  "create_heap cache = isc_heap_create (\<lambda>s v1 v2. sooner cache (s v1) (s v2)) (Some set_index) 0"

definition create_heaps :: "bool \<Rightarrow> nat \<Rightarrow> header_memory \<Rightarrow> rbtdb" where
  "create_heaps cache node_lock_count s = \<lparr>rb_cache = cache, rb_heaps = replicate node_lock_count (create_heap cache), rb_mem = s\<rparr>"

text \<open>An operation of the heap of bucket \<open>k\<close>.\<close>

definition on_heap ::
  "rbtdb \<Rightarrow> nat \<Rightarrow> ((addr, header_memory) isc_heap \<Rightarrow> header_memory \<Rightarrow> ((addr, header_memory) isc_heap \<times> header_memory) option) \<Rightarrow> rbtdb option" where
  "on_heap rb k f = do {
     h \<leftarrow> peek (rb_heaps rb) k;
     (h, s) \<leftarrow> f h (rb_mem rb);
     Some (rb\<lparr>rb_heaps := (rb_heaps rb)[k := h], rb_mem := s\<rparr>)
   }"

definition update_header :: "rbtdb \<Rightarrow> addr \<Rightarrow> (dns_slabheader \<Rightarrow> dns_slabheader) \<Rightarrow> rbtdb" where
  "update_header rb x f = rb\<lparr>rb_mem := (rb_mem rb)(x := f (rb_mem rb x))\<rparr>"

definition dns__rbtdb_setttl :: "rbtdb \<Rightarrow> addr \<Rightarrow> u32 \<Rightarrow> rbtdb option" where
  "dns__rbtdb_setttl rb header newttl = do {
     let oldttl = sh_ttl (rb_mem rb header);
     let rb = update_header rb header (\<lambda>h. h\<lparr>sh_ttl := newttl\<rparr>);
     let h = rb_mem rb header;
     if \<not> sh_iscache h then Some rb
     else case sh_heap h of
       None \<Rightarrow> Some rb
     | Some k \<Rightarrow>
         if sh_heap_index h = 0 \<or> newttl = oldttl then Some rb
         else if newttl < oldttl then on_heap rb k (\<lambda>heap s. isc_heap_increased heap s (sh_heap_index h))
         else on_heap rb k (\<lambda>heap s. isc_heap_decreased heap s (sh_heap_index h))
   }"

text \<open>A new header of a cache is put into the heap of its bucket.\<close>

definition cache_insert :: "rbtdb \<Rightarrow> addr \<Rightarrow> rbtdb option" where
  "cache_insert rb newheader = do {
     let k = sh_locknum (rb_mem rb newheader);
     rb \<leftarrow> on_heap rb k (\<lambda>heap s. isc_heap_insert heap s newheader);
     Some (update_header rb newheader (\<lambda>h. h\<lparr>sh_heap := Some k\<rparr>))
   }"

definition dns__zonedb_resigninsert :: "rbtdb \<Rightarrow> nat \<Rightarrow> addr \<Rightarrow> rbtdb option" where
  "dns__zonedb_resigninsert rb idx newheader = do {
     INSIST (\<not> rb_cache rb);
     INSIST (sh_heap_index (rb_mem rb newheader) = 0);
     INSIST (\<not> sh_linked (rb_mem rb newheader));
     rb \<leftarrow> on_heap rb idx (\<lambda>heap s. isc_heap_insert heap s newheader);
     Some (update_header rb newheader (\<lambda>h. h\<lparr>sh_heap := Some idx\<rparr>))
   }"

definition setsigningtime :: "u32 \<Rightarrow> rbtdb \<Rightarrow> addr \<Rightarrow> u32 \<Rightarrow> rbtdb option" where
  "setsigningtime now rb header resign = do {
     REQUIRE (\<not> rb_cache rb);
     let oldheader = rb_mem rb header;
     let k = sh_locknum oldheader;
     let rb = (if resign \<noteq> 0
               then update_header rb header (\<lambda>h. h\<lparr>sh_resign := word_of_int (dns_time64_from32 now resign div 2),
                                                   sh_resign_lsb := unat (resign AND 1)\<rparr>)
               else rb);
     let h = rb_mem rb header;
     if sh_heap_index h \<noteq> 0 then do {
       INSIST (RESIGN h);
       if resign = 0 then do {
         rb \<leftarrow> on_heap rb k (\<lambda>heap s. isc_heap_delete heap s (sh_heap_index h));
         Some (update_header rb header (\<lambda>h. h\<lparr>sh_heap_index := 0, sh_heap := None\<rparr>))
       }
       else if sooner (rb_cache rb) h oldheader then on_heap rb k (\<lambda>heap s. isc_heap_increased heap s (sh_heap_index h))
       else if sooner (rb_cache rb) oldheader h then on_heap rb k (\<lambda>heap s. isc_heap_decreased heap s (sh_heap_index h))
       else Some rb
     }
     else if resign \<noteq> 0 then
       dns__zonedb_resigninsert (update_header rb header (\<lambda>h. h\<lparr>sh_attributes := sh_attributes h OR DNS_SLABHEADERATTR_RESIGN\<rparr>)) k header
     else Some rb
   }"

text \<open>The search of \<^verbatim>\<open>getsigningtime\<close> over the buckets; the header that is found is what the record set is bound to.\<close>

fun signing_loop :: "bool \<Rightarrow> header_memory \<Rightarrow> (addr, header_memory) isc_heap list \<Rightarrow> addr option \<Rightarrow> addr option option" where
  "signing_loop cache s [] header = Some header"
| "signing_loop cache s (heap # heaps) header = do {
     this \<leftarrow> isc_heap_element heap 1;
     case this of
       None \<Rightarrow> signing_loop cache s heaps header
     | Some x \<Rightarrow> (case header of
           None \<Rightarrow> signing_loop cache s heaps (Some x)
         | Some y \<Rightarrow> if sooner cache (s x) (s y) then signing_loop cache s heaps (Some x)
                      else signing_loop cache s heaps (Some y))
   }"

definition getsigningtime :: "rbtdb \<Rightarrow> (isc_result \<times> addr option) option" where
  "getsigningtime rb = do {
     header \<leftarrow> signing_loop (rb_cache rb) (rb_mem rb) (rb_heaps rb) None;
     Some (if header = None then ISC_R_NOTFOUND else ISC_R_SUCCESS, header)
   }"

text \<open>The part of \<^verbatim>\<open>dns__zonedb_resigndelete\<close> and of \<^verbatim>\<open>dns__rbtdb_deletedata\<close> that concerns the heaps.\<close>

definition resigndelete :: "rbtdb \<Rightarrow> addr \<Rightarrow> rbtdb option" where
  "resigndelete rb header =
     (if sh_heap_index (rb_mem rb header) \<noteq> 0 then do {
        rb \<leftarrow> on_heap rb (sh_locknum (rb_mem rb header)) (\<lambda>heap s. isc_heap_delete heap s (sh_heap_index (rb_mem rb header)));
        Some (update_header rb header (\<lambda>h. h\<lparr>sh_heap_index := 0\<rparr>))
      }
      else Some rb)"

definition deletedata :: "rbtdb \<Rightarrow> addr \<Rightarrow> rbtdb option" where
  "deletedata rb header = do {
     rb \<leftarrow> (case sh_heap (rb_mem rb header) of
        None \<Rightarrow> Some rb
      | Some k \<Rightarrow>
          if sh_heap_index (rb_mem rb header) \<noteq> 0
          then on_heap rb k (\<lambda>heap s. isc_heap_delete heap s (sh_heap_index (rb_mem rb header)))
          else Some rb);
     Some (update_header rb header (\<lambda>h. h\<lparr>sh_heap_index := 0\<rparr>))
   }"

section \<open>The orders\<close>

definition ttl_le :: "dns_slabheader \<Rightarrow> dns_slabheader \<Rightarrow> bool" where
  "ttl_le h1 h2 \<longleftrightarrow> sh_ttl h1 \<le> sh_ttl h2"

definition resign_le :: "dns_slabheader \<Rightarrow> dns_slabheader \<Rightarrow> bool" where
  "resign_le h1 h2 \<longleftrightarrow> sh_resign h1 < sh_resign h2 \<or> sh_resign h1 = sh_resign h2 \<and>
     (sh_resign_lsb h1 < sh_resign_lsb h2 \<or> sh_resign_lsb h1 = sh_resign_lsb h2 \<and>
       (sh_type h1 = RBTDB_RDATATYPE_SIGSOA \<longrightarrow> sh_type h2 = RBTDB_RDATATYPE_SIGSOA))"

definition due_le :: "bool \<Rightarrow> dns_slabheader \<Rightarrow> dns_slabheader \<Rightarrow> bool" where
  "due_le cache = (if cache then ttl_le else resign_le)"

lemmas due_defs = due_le_def sooner_def ttl_le_def resign_le_def ttl_sooner_def resign_sooner_def

lemma set_index_fields [simp]:
  "sh_ttl (set_index x i s y) = sh_ttl (s y)" "sh_type (set_index x i s y) = sh_type (s y)"
  "sh_resign (set_index x i s y) = sh_resign (s y)" "sh_resign_lsb (set_index x i s y) = sh_resign_lsb (s y)"
  "sh_heap_index (set_index x i s y) = (if y = x then i else sh_heap_index (s y))"
  by (simp_all add: set_index_def)

lemma set_index_heap [simp]: "(set_index x i s y)\<lparr>sh_heap_index := 0\<rparr> = (s y)\<lparr>sh_heap_index := 0\<rparr>"
  by (simp add: set_index_def)

lemma due_le_trans: "due_le cache x y \<Longrightarrow> due_le cache y z \<Longrightarrow> due_le cache x z"
  by (cases cache) (auto simp: due_defs)

lemma sooner_above: "sooner cache x y \<Longrightarrow> due_le cache y z \<Longrightarrow> sooner cache x z"
  by (cases cache) (auto simp: due_defs)

lemma sooner_le: "sooner cache x y \<Longrightarrow> due_le cache x y" "\<not> sooner cache x y \<Longrightarrow> due_le cache y x"
  by (cases cache; auto simp: due_defs)+

lemma set_index_order [simp]:
  "sooner cache (set_index x i s y) (set_index x i s z) = sooner cache (s y) (s z)"
  "due_le cache (set_index x i s y) (set_index x i s z) = due_le cache (s y) (s z)"
  by (cases cache; simp add: due_defs)+

abbreviation due :: "bool \<Rightarrow> header_memory \<Rightarrow> addr \<Rightarrow> addr \<Rightarrow> bool" where
  "due cache s v1 v2 \<equiv> due_le cache (s v1) (s v2)"

interpretation slab: heap_order "\<lambda>s v1 v2. sooner cache (s v1) (s v2)" "due cache" "Some set_index" "\<lambda>s v. sh_heap_index (s v)"
  "\<lambda>s v. (s v)\<lparr>sh_heap_index := 0\<rparr>" for cache
  by unfold_locales (auto intro: due_le_trans sooner_above sooner_le)

section \<open>The invariant\<close>

definition in_heap :: "rbtdb \<Rightarrow> nat \<Rightarrow> addr set" where
  "in_heap rb k = set (elements (rb_heaps rb ! k))"

text \<open>Every heap is in order and its headers know their places; a header with a place is in the heap of its bucket.\<close>

definition heap_good :: "rbtdb \<Rightarrow> nat \<Rightarrow> bool" where
  "heap_good rb k \<longleftrightarrow> slab.heap_inv (rb_cache rb) (rb_mem rb) (rb_heaps rb ! k) \<and> h_size_increment (rb_heaps rb ! k) = SIZE_INCREMENT"

definition header_good :: "rbtdb \<Rightarrow> nat \<Rightarrow> dns_slabheader \<Rightarrow> bool" where
  "header_good rb k h \<longleftrightarrow> sh_locknum h = k \<and> sh_heap h = Some k \<and> sh_iscache h = rb_cache rb \<and> (\<not> rb_cache rb \<longrightarrow> RESIGN h)"

definition rb_inv :: "rbtdb \<Rightarrow> bool" where
  "rb_inv rb \<longleftrightarrow> (\<forall>k < length (rb_heaps rb). heap_good rb k \<and> (\<forall>x\<in>in_heap rb k. header_good rb k (rb_mem rb x))) \<and>
     (\<forall>x. sh_heap_index (rb_mem rb x) \<noteq> 0 \<longrightarrow>
        sh_locknum (rb_mem rb x) < length (rb_heaps rb) \<and> x \<in> in_heap rb (sh_locknum (rb_mem rb x)))"

lemma heap_inv_cong:
  assumes "slab.heap_inv c s h" "\<forall>x\<in>set (elements h). s' x = s x"
  shows "slab.heap_inv c s' h"
proof -
  have "s' (nth_elt h j) = s (nth_elt h j)" if "1 \<le> j" "j \<le> h_last h" for j
    using assms(2) that by (auto simp: slab.set_elements)
  then show ?thesis using assms(1)
    unfolding slab.heap_inv_def slab.ordered_def slab.above_def slab.tracked_def by auto
qed

text \<open>What a heap operation does to the memory.\<close>

lemma keeps_fields:
  assumes "slab.keeps c s s' X"
  shows "s' y = (s y)\<lparr>sh_heap_index := sh_heap_index (s' y)\<rparr>" "y \<notin> X \<Longrightarrow> s' y = s y"
proof -
  have v: "(s' y)\<lparr>sh_heap_index := 0\<rparr> = (s y)\<lparr>sh_heap_index := 0\<rparr>" using assms by (auto simp: slab.keeps_def fun_eq_iff)
  show 1: "s' y = (s y)\<lparr>sh_heap_index := sh_heap_index (s' y)\<rparr>"
    using v by (cases "s' y"; cases "s y") simp
  show "y \<notin> X \<Longrightarrow> s' y = s y"
  proof -
    assume "y \<notin> X"
    then have "sh_heap_index (s' y) = sh_heap_index (s y)" using assms by (auto simp: slab.keeps_def)
    then show "s' y = s y" using v by (cases "s' y"; cases "s y") simp
  qed
qed

lemma keeps_same:
  assumes "slab.keeps c s s' X"
  shows "sh_locknum (s' y) = sh_locknum (s y)" "sh_heap (s' y) = sh_heap (s y)" "sh_iscache (s' y) = sh_iscache (s y)"
    "RESIGN (s' y) = RESIGN (s y)" "sh_resign (s' y) = sh_resign (s y)" "sh_ttl (s' y) = sh_ttl (s y)" "sh_linked (s' y) = sh_linked (s y)"
  by (subst keeps_fields(1) [OF assms], simp add: RESIGN_def)+

text \<open>A header in a heap has a place.\<close>

lemma in_heap_index:
  assumes "slab.heap_inv c s h" "x \<in> set (elements h)"
  shows "1 \<le> sh_heap_index (s x)" "sh_heap_index (s x) \<le> h_last h" "nth_elt h (sh_heap_index (s x)) = x"
proof -
  obtain j where j: "1 \<le> j" "j \<le> h_last h" "x = nth_elt h j" using assms(2) by (auto simp: slab.set_elements)
  then have "sh_heap_index (s x) = j" using assms(1) by (auto simp: slab.heap_inv_def slab.tracked_def)
  then show "1 \<le> sh_heap_index (s x)" "sh_heap_index (s x) \<le> h_last h" "nth_elt h (sh_heap_index (s x)) = x" using j by auto
qed

lemma rb_invD:
  assumes "rb_inv rb" "sh_heap_index (rb_mem rb x) \<noteq> 0"
  defines "k \<equiv> sh_locknum (rb_mem rb x)"
  shows "k < length (rb_heaps rb)" "x \<in> in_heap rb k" "header_good rb k (rb_mem rb x)" "heap_good rb k"
  using assms unfolding rb_inv_def by blast+

lemma heap_good_at: "rb_inv rb \<Longrightarrow> j < length (rb_heaps rb) \<Longrightarrow> heap_good rb j"
  unfolding rb_inv_def by blast

lemma in_heap_good: "rb_inv rb \<Longrightarrow> j < length (rb_heaps rb) \<Longrightarrow> y \<in> in_heap rb j \<Longrightarrow> header_good rb j (rb_mem rb y)"
  unfolding rb_inv_def by blast

lemma in_heap_lock: "rb_inv rb \<Longrightarrow> j < length (rb_heaps rb) \<Longrightarrow> y \<in> in_heap rb j \<Longrightarrow> sh_locknum (rb_mem rb y) = j"
  using in_heap_good by (auto simp: header_good_def)

text \<open>Replacing the heap of one bucket.\<close>

lemma rb_step:
  assumes inv: "rb_inv rb" and k: "k < length (rb_heaps rb)" "sh_locknum (rb_mem rb x) = k"
    and frame: "\<And>y. y \<notin> in_heap rb k \<Longrightarrow> y \<noteq> x \<Longrightarrow> s y = rb_mem rb y" and lock: "\<And>y. sh_locknum (s y) = sh_locknum (rb_mem rb y)"
    and heap: "slab.heap_inv (rb_cache rb) s h" "h_size_increment h = SIZE_INCREMENT"
    and good: "\<And>y. y \<in> set (elements h) \<Longrightarrow> header_good rb k (s y)"
    and out: "\<And>y. y \<in> in_heap rb k \<or> y = x \<Longrightarrow> sh_heap_index (s y) \<noteq> 0 \<Longrightarrow> y \<in> set (elements h)"
  shows "rb_inv (rb\<lparr>rb_heaps := (rb_heaps rb)[k := h], rb_mem := s\<rparr>)" (is "rb_inv ?rb")
proof -
  have ih: "in_heap ?rb j = (if j = k then set (elements h) else in_heap rb j)" for j
    using k(1) by (simp add: in_heap_def)
  have others: "s y = rb_mem rb y" if "j < length (rb_heaps rb)" "j \<noteq> k" "y \<in> in_heap rb j" for j y
  proof (rule frame)
    have "sh_locknum (rb_mem rb y) = j" using in_heap_lock [OF inv that(1,3)] .
    then show "y \<notin> in_heap rb k" "y \<noteq> x" using that(2) in_heap_lock [OF inv k(1)] k(2) by auto
  qed
  have "heap_good ?rb j \<and> (\<forall>y\<in>in_heap ?rb j. header_good ?rb j (rb_mem ?rb y))" if j: "j < length (rb_heaps ?rb)" for j
  proof (cases "j = k")
    case True
    then show ?thesis using heap good k by (auto simp: heap_good_def header_good_def ih)
  next
    case False
    have j': "j < length (rb_heaps rb)" using j by simp
    have g: "slab.heap_inv (rb_cache rb) (rb_mem rb) (rb_heaps rb ! j)" "h_size_increment (rb_heaps rb ! j) = SIZE_INCREMENT"
      using heap_good_at [OF inv j'] by (auto simp: heap_good_def)
    have "\<forall>y\<in>set (elements (rb_heaps rb ! j)). s y = rb_mem rb y" using others [OF j' False] by (simp add: in_heap_def)
    then have "slab.heap_inv (rb_cache rb) s (rb_heaps rb ! j)" by (rule heap_inv_cong [OF g(1)])
    then have "heap_good ?rb j" using g(2) False by (simp add: heap_good_def)
    moreover have "header_good ?rb j (s y)" if "y \<in> in_heap rb j" for y
      using in_heap_good [OF inv j' that] others [OF j' False that] by (simp add: header_good_def)
    ultimately show ?thesis using False by (simp add: ih)
  qed
  moreover have "sh_locknum (s y) < length (rb_heaps ?rb) \<and> y \<in> in_heap ?rb (sh_locknum (s y))" if y: "sh_heap_index (s y) \<noteq> 0" for y
  proof (cases "y \<in> in_heap rb k \<or> y = x")
    case True
    then have "sh_locknum (rb_mem rb y) = k" using in_heap_lock [OF inv k(1)] k(2) by auto
    then show ?thesis using out [OF True y] k(1) lock by (simp add: ih)
  next
    case False
    then have e: "s y = rb_mem rb y" using frame by auto
    have m: "sh_locknum (rb_mem rb y) < length (rb_heaps rb)" "y \<in> in_heap rb (sh_locknum (rb_mem rb y))"
      using rb_invD(1,2) [OF inv, of y] y e by auto
    then show ?thesis using False e by (auto simp: ih)
  qed
  ultimately show ?thesis by (simp add: rb_inv_def)
qed

lemma heaps_inv: "(\<And>x. sh_heap_index (s x) = 0) \<Longrightarrow> rb_inv (create_heaps cache n s)"
  using slab.create_inv [of 0 cache s]
  by (simp add: rb_inv_def create_heaps_def heap_good_def create_heap_def in_heap_def isc_heap_create_def elements_def)

section \<open>What the operations do\<close>

text \<open>The abstract state: which headers are waiting, and for which time.\<close>

definition when_due :: "bool \<Rightarrow> dns_slabheader \<Rightarrow> u32 \<times> nat" where
  "when_due cache h = (if cache then (sh_ttl h, 0) else (sh_resign h, sh_resign_lsb h))"

definition schedule :: "rbtdb \<Rightarrow> addr \<rightharpoonup> u32 \<times> nat" where
  "schedule rb x = (if sh_heap_index (rb_mem rb x) \<noteq> 0 then Some (when_due (rb_cache rb) (rb_mem rb x)) else None)"

lemma member_iff:
  assumes "rb_inv rb"
  shows "sh_heap_index (rb_mem rb x) \<noteq> 0 \<longleftrightarrow> (\<exists>k < length (rb_heaps rb). x \<in> in_heap rb k)"
proof
  assume "sh_heap_index (rb_mem rb x) \<noteq> 0"
  then show "\<exists>k < length (rb_heaps rb). x \<in> in_heap rb k" using rb_invD(1,2) [OF assms] by blast
next
  assume "\<exists>k < length (rb_heaps rb). x \<in> in_heap rb k"
  then obtain k where k: "k < length (rb_heaps rb)" "x \<in> in_heap rb k" by blast
  then show "sh_heap_index (rb_mem rb x) \<noteq> 0"
    using in_heap_index(1) [of "rb_cache rb" "rb_mem rb" "rb_heaps rb ! k" x] heap_good_at [OF assms k(1)] by (auto simp: heap_good_def in_heap_def)
qed

text \<open>What no operation changes, and how far a heap can grow at once.\<close>

definition grows :: "rbtdb \<Rightarrow> rbtdb \<Rightarrow> bool" where
  "grows rb rb' \<longleftrightarrow> length (rb_heaps rb') = length (rb_heaps rb) \<and> rb_cache rb' = rb_cache rb \<and>
     (\<forall>x. sh_locknum (rb_mem rb' x) = sh_locknum (rb_mem rb x) \<and> sh_iscache (rb_mem rb' x) = sh_iscache (rb_mem rb x) \<and>
       sh_linked (rb_mem rb' x) = sh_linked (rb_mem rb x)) \<and>
     (\<forall>k. h_size (rb_heaps rb' ! k) \<le> max (h_size (rb_heaps rb ! k)) (h_last (rb_heaps rb ! k) + 1 + SIZE_INCREMENT))"

lemma rb_step_schedule:
  assumes inv: "rb_inv rb" and k: "k < length (rb_heaps rb)" "sh_locknum (rb_mem rb x) = k"
    and frame: "\<And>y. y \<notin> in_heap rb k \<Longrightarrow> y \<noteq> x \<Longrightarrow> s y = rb_mem rb y"
    and same: "\<And>y. y \<noteq> x \<Longrightarrow> s y = (rb_mem rb y)\<lparr>sh_heap_index := sh_heap_index (s y)\<rparr>"
    and lock: "sh_locknum (s x) = k" "sh_iscache (s x) = sh_iscache (rb_mem rb x)" "sh_linked (s x) = sh_linked (rb_mem rb x)"
    and sz: "h_size h \<le> max (h_size (rb_heaps rb ! k)) (h_last (rb_heaps rb ! k) + 1 + SIZE_INCREMENT)"
    and heap: "slab.heap_inv (rb_cache rb) s h" "h_size_increment h = SIZE_INCREMENT"
    and good: "x \<in> set (elements h) \<Longrightarrow> header_good rb k (s x)" and out: "x \<notin> set (elements h) \<Longrightarrow> sh_heap_index (s x) = 0"
    and els: "set (elements h) - {x} = in_heap rb k - {x}"
  defines "rb' \<equiv> rb\<lparr>rb_heaps := (rb_heaps rb)[k := h], rb_mem := s\<rparr>"
  shows "rb_inv rb' \<and> grows rb rb' \<and> schedule rb' = (schedule rb)(x := if x \<in> set (elements h) then Some (when_due (rb_cache rb) (s x)) else None)"
proof -
  have fields: "sh_locknum (s y) = sh_locknum (rb_mem rb y)" "when_due c (s y) = when_due c (rb_mem rb y)"
    "header_good rb k (s y) = header_good rb k (rb_mem rb y)" if "y \<noteq> x" for y c
    using arg_cong [OF same [OF that], of sh_locknum] arg_cong [OF same [OF that], of "when_due c"]
      arg_cong [OF same [OF that], of "header_good rb k"] by (auto simp: when_due_def header_good_def RESIGN_def)
  have idx: "sh_heap_index (s y) \<noteq> 0 \<longleftrightarrow> sh_heap_index (rb_mem rb y) \<noteq> 0" if y: "y \<noteq> x" for y
  proof (cases "y \<in> in_heap rb k")
    case True
    then have "y \<in> set (elements h)" using els y by blast
    moreover have "sh_heap_index (rb_mem rb y) \<noteq> 0" using member_iff [OF inv] True k by blast
    ultimately show ?thesis using in_heap_index(1) [OF heap(1)] by fastforce
  qed (use frame y in simp)
  have "rb_inv rb'" unfolding rb'_def
  proof (rule rb_step [OF inv k frame _ heap])
    show "sh_locknum (s y) = sh_locknum (rb_mem rb y)" for y using fields(1) lock k by (cases "y = x") auto
    show "header_good rb k (s y)" if "y \<in> set (elements h)" for y
      using that good els fields(3) in_heap_good [OF inv k(1)] by (cases "y = x") auto
    show "y \<in> set (elements h)" if "y \<in> in_heap rb k \<or> y = x" "sh_heap_index (s y) \<noteq> 0" for y
      using that out els by (cases "y = x") auto
  qed
  moreover have "schedule rb' y = ((schedule rb)(x := if x \<in> set (elements h) then Some (when_due (rb_cache rb) (s x)) else None)) y" for y
  proof (cases "y = x")
    case True
    then show ?thesis using in_heap_index(1) [OF heap(1)] out by (fastforce simp: schedule_def rb'_def)
  qed (use idx fields in \<open>simp add: schedule_def rb'_def\<close>)
  moreover have "grows rb rb'"
  proof -
    have "sh_locknum (s y) = sh_locknum (rb_mem rb y) \<and> sh_iscache (s y) = sh_iscache (rb_mem rb y) \<and> sh_linked (s y) = sh_linked (rb_mem rb y)" for y
      using lock k(2) arg_cong [OF same [of y], of sh_locknum] arg_cong [OF same [of y], of sh_iscache] arg_cong [OF same [of y], of sh_linked]
      by (cases "y = x") auto
    moreover have "h_size ((rb_heaps rb)[k := h] ! j) \<le> max (h_size (rb_heaps rb ! j)) (h_last (rb_heaps rb ! j) + 1 + SIZE_INCREMENT)" for j
      using sz k(1) by (cases "j = k") auto
    ultimately show ?thesis by (simp add: grows_def rb'_def)
  qed
  ultimately show ?thesis by blast
qed

lemma heap_good_D: "heap_good rb k \<Longrightarrow> slab.heap_inv (rb_cache rb) (rb_mem rb) (rb_heaps rb ! k)"
  "heap_good rb k \<Longrightarrow> h_size_increment (rb_heaps rb ! k) = SIZE_INCREMENT"
  by (auto simp: heap_good_def)

lemma heap_inv_distinct: "slab.heap_inv c s h \<Longrightarrow> distinct (elements h)"
  by (simp add: slab.heap_inv_def)

text \<open>Taking a header out of its heap.\<close>

lemma delete_step:
  assumes inv: "rb_inv rb" and x: "sh_heap_index (rb_mem rb x) \<noteq> 0"
    and g: "\<And>h. sh_locknum (g h) = sh_locknum h" "\<And>h. sh_heap_index (g h) = 0" "\<And>h. sh_iscache (g h) = sh_iscache h" "\<And>h. sh_linked (g h) = sh_linked h"
  shows "\<exists>rb1. on_heap rb (sh_locknum (rb_mem rb x)) (\<lambda>heap s. isc_heap_delete heap s (sh_heap_index (rb_mem rb x))) = Some rb1 \<and>
    rb_inv (update_header rb1 x g) \<and> grows rb (update_header rb1 x g) \<and> schedule (update_header rb1 x g) = (schedule rb)(x := None)"
proof -
  let ?k = "sh_locknum (rb_mem rb x)" and ?i = "sh_heap_index (rb_mem rb x)"
  let ?h = "rb_heaps rb ! ?k"
  note k = rb_invD [OF inv x]
  note hi = heap_good_D [OF k(4)]
  note p = in_heap_index [OF hi(1) k(2) [unfolded in_heap_def]]
  obtain h' s' where d: "isc_heap_delete ?h (rb_mem rb) ?i = Some (h', s')" "slab.heap_inv (rb_cache rb) s' h'"
    "mset (elements ?h) = add_mset x (mset (elements h'))" "slab.keeps (rb_cache rb) (rb_mem rb) s' (set (elements ?h))"
    "h_size_increment h' = SIZE_INCREMENT" "h_size h' = h_size ?h"
    using slab.delete_ok [OF hi(1) p(1,2)] p(3) hi(2) by auto
  have "distinct (x # elements h')" using heap_inv_distinct [OF hi(1)] d(3) by (metis mset.simps(2) mset_eq_imp_distinct_iff)
  then have nx: "x \<notin> set (elements h')" by simp
  have "set (elements ?h) = insert x (set (elements h'))" using d(3) by (metis set_mset_add_mset_insert set_mset_mset)
  then have els: "set (elements h') = in_heap rb ?k - {x}" using nx by (auto simp: in_heap_def)
  let ?s = "s'(x := g (s' x))"
  have run: "on_heap rb ?k (\<lambda>heap s. isc_heap_delete heap s ?i) = Some (rb\<lparr>rb_heaps := (rb_heaps rb)[?k := h'], rb_mem := s'\<rparr>)"
    using k(1) d(1) by (simp add: on_heap_def)
  have up: "update_header (rb\<lparr>rb_heaps := (rb_heaps rb)[?k := h'], rb_mem := s'\<rparr>) x g = rb\<lparr>rb_heaps := (rb_heaps rb)[?k := h'], rb_mem := ?s\<rparr>"
    by (simp add: update_header_def)
  have hs: "slab.heap_inv (rb_cache rb) ?s h'" using nx by (intro heap_inv_cong [OF d(2)]) auto
  have "rb_inv (rb\<lparr>rb_heaps := (rb_heaps rb)[?k := h'], rb_mem := ?s\<rparr>) \<and> grows rb (rb\<lparr>rb_heaps := (rb_heaps rb)[?k := h'], rb_mem := ?s\<rparr>) \<and>
    schedule (rb\<lparr>rb_heaps := (rb_heaps rb)[?k := h'], rb_mem := ?s\<rparr>) = (schedule rb)(x := if x \<in> set (elements h') then Some (when_due (rb_cache rb) (?s x)) else None)"
  proof (rule rb_step_schedule [OF inv k(1) refl _ _ _ _ _ _ hs d(5)])
    show "?s y = rb_mem rb y" if "y \<notin> in_heap rb ?k" "y \<noteq> x" for y using keeps_fields(2) [OF d(4)] that by (simp add: in_heap_def)
    show "?s y = (rb_mem rb y)\<lparr>sh_heap_index := sh_heap_index (?s y)\<rparr>" if "y \<noteq> x" for y using keeps_fields(1) [OF d(4), of y] that by simp
    show "sh_locknum (?s x) = ?k" "sh_iscache (?s x) = sh_iscache (rb_mem rb x)" "sh_linked (?s x) = sh_linked (rb_mem rb x)"
      using keeps_same [OF d(4)] g by simp_all
  qed (use nx els g d(6) in auto)
  then show ?thesis using run up nx by auto
qed

lemma heap_inv_same:
  assumes "slab.heap_inv c s h" "\<And>y z. due_le c (s' y) (s' z) = due_le c (s y) (s z)" "\<And>y. sh_heap_index (s' y) = sh_heap_index (s y)"
  shows "slab.heap_inv c s' h"
  using assms(1) by (simp add: slab.heap_inv_def slab.ordered_def slab.above_def slab.tracked_def assms(2,3))

lemma due_le_heap [simp]: "due_le c (h\<lparr>sh_heap := v\<rparr>) h' = due_le c h h'" "due_le c h (h'\<lparr>sh_heap := v\<rparr>) = due_le c h h'"
  by (cases c; simp add: due_defs)+

text \<open>Putting a header with a new time into the heap of its bucket; \<open>f\<close> is what was done to the header before.\<close>

lemma insert_step:
  assumes inv: "rb_inv rb" and x: "sh_heap_index (rb_mem rb x) = 0" "sh_locknum (rb_mem rb x) = k" "k < length (rb_heaps rb)"
    and f: "sh_locknum (f (rb_mem rb x)) = k" "sh_heap_index (f (rb_mem rb x)) = 0" "sh_iscache (f (rb_mem rb x)) = sh_iscache (rb_mem rb x)"
      "sh_linked (f (rb_mem rb x)) = sh_linked (rb_mem rb x)" "header_good rb k ((f (rb_mem rb x))\<lparr>sh_heap := Some k\<rparr>)"
    and room: "h_size (rb_heaps rb ! k) + SIZE_INCREMENT < 2 ^ 29"
  shows "\<exists>rb1. on_heap (update_header rb x f) k (\<lambda>heap s. isc_heap_insert heap s x) = Some rb1 \<and>
    rb_inv (update_header rb1 x (\<lambda>h. h\<lparr>sh_heap := Some k\<rparr>)) \<and> grows rb (update_header rb1 x (\<lambda>h. h\<lparr>sh_heap := Some k\<rparr>)) \<and>
    schedule (update_header rb1 x (\<lambda>h. h\<lparr>sh_heap := Some k\<rparr>)) = (schedule rb)(x \<mapsto> when_due (rb_cache rb) (f (rb_mem rb x)))"
proof -
  let ?h = "rb_heaps rb ! k"
  let ?s0 = "(rb_mem rb)(x := f (rb_mem rb x))"
  note hi = heap_good_D [OF heap_good_at [OF inv x(3)]]
  have nx: "x \<notin> set (elements ?h)" using member_iff [OF inv, of x] x by (auto simp: in_heap_def)
  have h0: "slab.heap_inv (rb_cache rb) ?s0 ?h" using nx by (intro heap_inv_cong [OF hi(1)]) auto
  have "h_last ?h + 1 < h_size ?h \<or> 1 < h_size_increment ?h \<and> h_size ?h + h_size_increment ?h < 2 ^ 29"
    using room hi(2) by (simp add: SIZE_INCREMENT_def)
  from slab.insert_ok [OF h0 this, of x] nx obtain h' s' where d: "isc_heap_insert ?h ?s0 x = Some (h', s')" "slab.heap_inv (rb_cache rb) s' h'"
    "mset (elements h') = add_mset x (mset (elements ?h))" "slab.keeps (rb_cache rb) ?s0 s' (insert x (set (elements ?h)))"
    "h_size_increment h' = SIZE_INCREMENT" "h_size h' \<le> max (h_size ?h) (h_last ?h + 1 + SIZE_INCREMENT)" using hi(2) by (auto split: if_splits)
  have els: "set (elements h') = insert x (in_heap rb k)" using d(3) by (metis set_mset_add_mset_insert set_mset_mset in_heap_def)
  let ?g = "\<lambda>h. h\<lparr>sh_heap := Some k\<rparr>"
  let ?s = "s'(x := ?g (s' x))"
  have run: "on_heap (update_header rb x f) k (\<lambda>heap s. isc_heap_insert heap s x) = Some (rb\<lparr>rb_heaps := (rb_heaps rb)[k := h'], rb_mem := s'\<rparr>)"
    using x(3) d(1) by (simp add: on_heap_def update_header_def)
  have up: "update_header (rb\<lparr>rb_heaps := (rb_heaps rb)[k := h'], rb_mem := s'\<rparr>) x ?g = rb\<lparr>rb_heaps := (rb_heaps rb)[k := h'], rb_mem := ?s\<rparr>"
    by (simp add: update_header_def)
  have hs: "slab.heap_inv (rb_cache rb) ?s h'" by (rule heap_inv_same [OF d(2)]) auto
  have sx: "s' x = (f (rb_mem rb x))\<lparr>sh_heap_index := sh_heap_index (s' x)\<rparr>" using keeps_fields(1) [OF d(4), of x] by simp
  have "rb_inv (rb\<lparr>rb_heaps := (rb_heaps rb)[k := h'], rb_mem := ?s\<rparr>) \<and> grows rb (rb\<lparr>rb_heaps := (rb_heaps rb)[k := h'], rb_mem := ?s\<rparr>) \<and>
    schedule (rb\<lparr>rb_heaps := (rb_heaps rb)[k := h'], rb_mem := ?s\<rparr>) = (schedule rb)(x := if x \<in> set (elements h') then Some (when_due (rb_cache rb) (?s x)) else None)"
  proof (rule rb_step_schedule [OF inv x(3,2) _ _ _ _ _ _ hs d(5)])
    show "?s y = rb_mem rb y" if "y \<notin> in_heap rb k" "y \<noteq> x" for y using keeps_fields(2) [OF d(4)] that by (simp add: in_heap_def)
    show "?s y = (rb_mem rb y)\<lparr>sh_heap_index := sh_heap_index (?s y)\<rparr>" if "y \<noteq> x" for y using keeps_fields(1) [OF d(4), of y] that by simp
    show "sh_locknum (?s x) = k" "sh_iscache (?s x) = sh_iscache (rb_mem rb x)" "sh_linked (?s x) = sh_linked (rb_mem rb x)"
      using keeps_same [OF d(4)] f by simp_all
    show "header_good rb k (?s x)" using f(5) arg_cong [OF sx, of "\<lambda>h. header_good rb k (?g h)"] by (simp add: header_good_def RESIGN_def)
  qed (use els d(6) in auto)
  moreover have "when_due (rb_cache rb) (?s x) = when_due (rb_cache rb) (f (rb_mem rb x))"
    using arg_cong [OF sx, of sh_ttl] arg_cong [OF sx, of sh_resign] arg_cong [OF sx, of sh_resign_lsb] by (simp add: when_due_def)
  ultimately show ?thesis using run up els by auto
qed

text \<open>A header in a heap whose time has changed: moved towards the root or away from it.\<close>

lemma move_step:
  assumes inv: "rb_inv rb" and x: "sh_heap_index (rb_mem rb x) \<noteq> 0" "sh_locknum (rb_mem rb x) = k"
    and f: "header_good rb k (f (rb_mem rb x))" "sh_linked (f (rb_mem rb x)) = sh_linked (rb_mem rb x)"
    and op: "op (rb_heaps rb ! k) ((rb_mem rb)(x := f (rb_mem rb x))) = Some (h', s')" "slab.heap_inv (rb_cache rb) s' h'"
      "mset (elements h') = mset (elements (rb_heaps rb ! k))" "h_size_increment h' = SIZE_INCREMENT"
      "slab.keeps (rb_cache rb) ((rb_mem rb)(x := f (rb_mem rb x))) s' (set (elements (rb_heaps rb ! k)))"
      "h_size h' = h_size (rb_heaps rb ! k)"
  shows "\<exists>rb1. on_heap (update_header rb x f) k op = Some rb1 \<and> rb_inv rb1 \<and> grows rb rb1 \<and>
    schedule rb1 = (schedule rb)(x \<mapsto> when_due (rb_cache rb) (f (rb_mem rb x)))"
proof -
  note k = rb_invD [OF inv x(1), unfolded x(2)]
  have els: "set (elements h') = in_heap rb k" using op(3) by (metis mset_eq_setD in_heap_def)
  have run: "on_heap (update_header rb x f) k op = Some (rb\<lparr>rb_heaps := (rb_heaps rb)[k := h'], rb_mem := s'\<rparr>)"
    using k(1) op(1) by (simp add: on_heap_def update_header_def)
  have sx: "s' x = (f (rb_mem rb x))\<lparr>sh_heap_index := sh_heap_index (s' x)\<rparr>" using keeps_fields(1) [OF op(5), of x] by simp
  have gx: "header_good rb k (s' x)" using f(1) arg_cong [OF sx, of "header_good rb k"] by (simp add: header_good_def RESIGN_def)
  have "rb_inv (rb\<lparr>rb_heaps := (rb_heaps rb)[k := h'], rb_mem := s'\<rparr>) \<and> grows rb (rb\<lparr>rb_heaps := (rb_heaps rb)[k := h'], rb_mem := s'\<rparr>) \<and>
    schedule (rb\<lparr>rb_heaps := (rb_heaps rb)[k := h'], rb_mem := s'\<rparr>) = (schedule rb)(x := if x \<in> set (elements h') then Some (when_due (rb_cache rb) (s' x)) else None)"
  proof (rule rb_step_schedule [OF inv k(1) x(2) _ _ _ _ _ _ op(2,4)])
    show "s' y = rb_mem rb y" if "y \<notin> in_heap rb k" "y \<noteq> x" for y using keeps_fields(2) [OF op(5)] that by (simp add: in_heap_def)
    show "s' y = (rb_mem rb y)\<lparr>sh_heap_index := sh_heap_index (s' y)\<rparr>" if "y \<noteq> x" for y using keeps_fields(1) [OF op(5), of y] that by simp
    show "sh_locknum (s' x) = k" "sh_iscache (s' x) = sh_iscache (rb_mem rb x)" using gx k(3) by (simp_all add: header_good_def)
    show "sh_linked (s' x) = sh_linked (rb_mem rb x)" using keeps_same(7) [OF op(5)] f by simp
  qed (use els gx k op(6) in auto)
  moreover have "when_due (rb_cache rb) (s' x) = when_due (rb_cache rb) (f (rb_mem rb x))"
    using arg_cong [OF sx, of "when_due (rb_cache rb)"] by (simp add: when_due_def)
  ultimately show ?thesis using run els k(2) by auto
qed

text \<open>A header whose place in the order is as before.\<close>

lemma still_step:
  assumes inv: "rb_inv rb" and x: "sh_heap_index (rb_mem rb x) \<noteq> 0" "sh_locknum (rb_mem rb x) = k"
    and f: "header_good rb k (f (rb_mem rb x))" "sh_heap_index (f (rb_mem rb x)) = sh_heap_index (rb_mem rb x)"
      "sh_linked (f (rb_mem rb x)) = sh_linked (rb_mem rb x)"
    and same: "\<And>h. due_le (rb_cache rb) (f (rb_mem rb x)) h = due_le (rb_cache rb) (rb_mem rb x) h"
      "\<And>h. due_le (rb_cache rb) h (f (rb_mem rb x)) = due_le (rb_cache rb) h (rb_mem rb x)"
  shows "rb_inv (update_header rb x f) \<and> grows rb (update_header rb x f) \<and> schedule (update_header rb x f) = (schedule rb)(x \<mapsto> when_due (rb_cache rb) (f (rb_mem rb x)))"
proof -
  note k = rb_invD [OF inv x(1), unfolded x(2)]
  let ?s = "(rb_mem rb)(x := f (rb_mem rb x))"
  note hi = heap_good_D [OF k(4)]
  have hs: "slab.heap_inv (rb_cache rb) ?s (rb_heaps rb ! k)" by (rule heap_inv_same [OF hi(1)]) (use same f(2) in auto)
  have e: "update_header rb x f = rb\<lparr>rb_heaps := (rb_heaps rb)[k := rb_heaps rb ! k], rb_mem := ?s\<rparr>" by (simp add: update_header_def)
  have "rb_inv (rb\<lparr>rb_heaps := (rb_heaps rb)[k := rb_heaps rb ! k], rb_mem := ?s\<rparr>) \<and> grows rb (rb\<lparr>rb_heaps := (rb_heaps rb)[k := rb_heaps rb ! k], rb_mem := ?s\<rparr>) \<and>
    schedule (rb\<lparr>rb_heaps := (rb_heaps rb)[k := rb_heaps rb ! k], rb_mem := ?s\<rparr>) =
      (schedule rb)(x := if x \<in> set (elements (rb_heaps rb ! k)) then Some (when_due (rb_cache rb) (?s x)) else None)"
  proof (rule rb_step_schedule [OF inv k(1) x(2) _ _ _ _ _ _ hs hi(2)])
    show "sh_locknum (?s x) = k" "sh_iscache (?s x) = sh_iscache (rb_mem rb x)" "sh_linked (?s x) = sh_linked (rb_mem rb x)"
      using f k(3) by (simp_all add: header_good_def)
  qed (use f k in \<open>auto simp: in_heap_def\<close>)
  then show ?thesis using k(2) unfolding e by (simp add: in_heap_def)
qed

lemma slab_changed:
  assumes "sh_heap_index h = sh_heap_index (s x)"
  shows "slab.changed c s (s(x := h)) x"
  using assms by (auto simp: slab.changed_def)

lemma increased_step:
  assumes inv: "rb_inv rb" and x: "sh_heap_index (rb_mem rb x) \<noteq> 0" "sh_locknum (rb_mem rb x) = k"
    and f: "header_good rb k (f (rb_mem rb x))" "sh_heap_index (f (rb_mem rb x)) = sh_heap_index (rb_mem rb x)"
      "sh_linked (f (rb_mem rb x)) = sh_linked (rb_mem rb x)"
    and le: "due_le (rb_cache rb) (f (rb_mem rb x)) (rb_mem rb x)"
  shows "\<exists>rb1. on_heap (update_header rb x f) k (\<lambda>heap s. isc_heap_increased heap s (sh_heap_index (f (rb_mem rb x)))) = Some rb1 \<and> rb_inv rb1 \<and> grows rb rb1 \<and>
    schedule rb1 = (schedule rb)(x \<mapsto> when_due (rb_cache rb) (f (rb_mem rb x)))"
proof -
  note k = rb_invD [OF inv x(1), unfolded x(2)]
  note hi = heap_good_D [OF k(4)]
  note p = in_heap_index [OF hi(1) k(2) [unfolded in_heap_def]]
  let ?s = "(rb_mem rb)(x := f (rb_mem rb x))" and ?h = "rb_heaps rb ! k" and ?i = "sh_heap_index (rb_mem rb x)"
  have c: "slab.changed (rb_cache rb) (rb_mem rb) ?s (nth_elt ?h ?i)" unfolding p(3) by (rule slab_changed) (rule f(2))
  have "due (rb_cache rb) ?s (nth_elt ?h ?i) y" if "y \<noteq> nth_elt ?h ?i" "due (rb_cache rb) (rb_mem rb) (nth_elt ?h ?i) y" for y
    using that due_le_trans [OF le] by (simp add: p(3))
  from slab.increased_ok [OF hi(1) heap_inv_distinct [OF hi(1)] p(1,2) c this] obtain h' s' where
    "isc_heap_increased ?h ?s ?i = Some (h', s')" "slab.heap_inv (rb_cache rb) s' h'" "mset (elements h') = mset (elements ?h)"
    "h_size_increment h' = SIZE_INCREMENT" "slab.keeps (rb_cache rb) ?s s' (set (elements ?h))" "h_size h' = h_size ?h" unfolding hi(2) by blast
  then show ?thesis unfolding f(2) by (intro move_step [where f = f, OF inv x f(1,3)])
qed

lemma decreased_step:
  assumes inv: "rb_inv rb" and x: "sh_heap_index (rb_mem rb x) \<noteq> 0" "sh_locknum (rb_mem rb x) = k"
    and f: "header_good rb k (f (rb_mem rb x))" "sh_heap_index (f (rb_mem rb x)) = sh_heap_index (rb_mem rb x)"
      "sh_linked (f (rb_mem rb x)) = sh_linked (rb_mem rb x)"
    and later: "\<And>h. due_le (rb_cache rb) h (rb_mem rb x) \<Longrightarrow> \<not> sooner (rb_cache rb) (f (rb_mem rb x)) h"
  shows "\<exists>rb1. on_heap (update_header rb x f) k (\<lambda>heap s. isc_heap_decreased heap s (sh_heap_index (f (rb_mem rb x)))) = Some rb1 \<and> rb_inv rb1 \<and> grows rb rb1 \<and>
    schedule rb1 = (schedule rb)(x \<mapsto> when_due (rb_cache rb) (f (rb_mem rb x)))"
proof -
  note k = rb_invD [OF inv x(1), unfolded x(2)]
  note hi = heap_good_D [OF k(4)]
  note p = in_heap_index [OF hi(1) k(2) [unfolded in_heap_def]]
  let ?s = "(rb_mem rb)(x := f (rb_mem rb x))" and ?h = "rb_heaps rb ! k" and ?i = "sh_heap_index (rb_mem rb x)"
  have c: "slab.changed (rb_cache rb) (rb_mem rb) ?s (nth_elt ?h ?i)" unfolding p(3) by (rule slab_changed) (rule f(2))
  have "\<not> sooner (rb_cache rb) (?s (nth_elt ?h ?i)) (?s y)" if "y \<noteq> nth_elt ?h ?i" "due (rb_cache rb) (rb_mem rb) y (nth_elt ?h ?i)" for y
    using that later by (simp add: p(3))
  from slab.decreased_ok [OF hi(1) heap_inv_distinct [OF hi(1)] p(1,2) c this] obtain h' s' where
    "isc_heap_decreased ?h ?s ?i = Some (h', s')" "slab.heap_inv (rb_cache rb) s' h'" "mset (elements h') = mset (elements ?h)"
    "h_size_increment h' = SIZE_INCREMENT" "slab.keeps (rb_cache rb) ?s s' (set (elements ?h))" "h_size h' = h_size ?h" unfolding hi(2) by blast
  then show ?thesis unfolding f(2) by (intro move_step [where f = f, OF inv x f(1,3)])
qed

text \<open>A header in no heap can change freely.\<close>

lemma outside_step:
  assumes inv: "rb_inv rb" and x: "sh_heap_index (rb_mem rb x) = 0" and f: "sh_heap_index (f (rb_mem rb x)) = 0"
      "sh_locknum (f (rb_mem rb x)) = sh_locknum (rb_mem rb x)" "sh_iscache (f (rb_mem rb x)) = sh_iscache (rb_mem rb x)"
      "sh_linked (f (rb_mem rb x)) = sh_linked (rb_mem rb x)"
  shows "rb_inv (update_header rb x f) \<and> grows rb (update_header rb x f) \<and> schedule (update_header rb x f) = schedule rb"
proof -
  let ?rb = "update_header rb x f"
  have nx: "x \<notin> in_heap rb k" if "k < length (rb_heaps rb)" for k using member_iff [OF inv, of x] x that by blast
  have ih: "in_heap ?rb k = in_heap rb k" for k by (simp add: in_heap_def update_header_def)
  have "heap_good ?rb k \<and> (\<forall>y\<in>in_heap rb k. header_good ?rb k (rb_mem ?rb y))" if k: "k < length (rb_heaps rb)" for k
  proof
    have "slab.heap_inv (rb_cache rb) (rb_mem ?rb) (rb_heaps rb ! k)"
      using nx [OF k] by (intro heap_inv_cong [OF heap_good_D(1) [OF heap_good_at [OF inv k]]]) (auto simp: update_header_def in_heap_def)
    then show "heap_good ?rb k" using heap_good_D(2) [OF heap_good_at [OF inv k]] by (simp add: heap_good_def update_header_def)
    show "\<forall>y\<in>in_heap rb k. header_good ?rb k (rb_mem ?rb y)"
      using in_heap_good [OF inv k] nx [OF k] by (auto simp: header_good_def update_header_def)
  qed
  moreover have "sh_locknum (rb_mem ?rb y) < length (rb_heaps rb) \<and> y \<in> in_heap rb (sh_locknum (rb_mem ?rb y))"
    if "sh_heap_index (rb_mem ?rb y) \<noteq> 0" for y
    using that f rb_invD(1,2) [OF inv, of y] by (cases "y = x") (auto simp: update_header_def)
  ultimately have "rb_inv ?rb" unfolding rb_inv_def ih by (simp add: update_header_def)
  moreover have "grows rb ?rb" using f by (simp add: grows_def update_header_def)
  moreover have "schedule ?rb = schedule rb" using x f by (auto simp: schedule_def update_header_def fun_eq_iff)
  ultimately show ?thesis by blast
qed

lemma resign_word: "RESIGN (h\<lparr>sh_attributes := sh_attributes h OR DNS_SLABHEADERATTR_RESIGN\<rparr>)"
proof -
  have "bit ((sh_attributes h OR DNS_SLABHEADERATTR_RESIGN) AND DNS_SLABHEADERATTR_RESIGN) 4"
    by (simp add: DNS_SLABHEADERATTR_RESIGN_def bit_simps)
  then show ?thesis by (auto simp: RESIGN_def)
qed

text \<open>The fields that \<^verbatim>\<open>setsigningtime\<close> writes.\<close>

definition timed :: "u32 \<Rightarrow> u32 \<Rightarrow> dns_slabheader \<Rightarrow> dns_slabheader" where
  "timed now resign h = h\<lparr>sh_resign := word_of_int (dns_time64_from32 now resign div 2), sh_resign_lsb := unat (resign AND 1)\<rparr>"

lemma later_resign:
  assumes "\<not> resign_sooner n h0" "resign_sooner h0 n" "sh_type n = sh_type h0" "resign_le h h0"
  shows "\<not> resign_sooner n h"
proof -
  have "sh_resign h0 < sh_resign n \<or> sh_resign h0 = sh_resign n \<and> sh_resign_lsb h0 < sh_resign_lsb n"
    using assms(1-3) unfolding resign_sooner_def by (metis linorder_cases)
  moreover have "sh_resign h < sh_resign h0 \<or> sh_resign h = sh_resign h0 \<and> sh_resign_lsb h \<le> sh_resign_lsb h0"
    using assms(4) unfolding resign_le_def by (metis less_imp_le order_refl)
  ultimately have "sh_resign h < sh_resign n \<or> sh_resign h = sh_resign n \<and> sh_resign_lsb h < sh_resign_lsb n"
    by (metis less_trans le_less_trans)
  then show ?thesis unfolding resign_sooner_def by (metis less_asym less_irrefl)
qed

lemma due_le_fields:
  assumes "sh_resign n = sh_resign h0" "sh_resign_lsb n = sh_resign_lsb h0" "sh_type n = sh_type h0"
  shows "due_le False n h = due_le False h0 h" "due_le False h n = due_le False h h0"
  by (simp_all add: due_le_def resign_le_def assms)

lemma setsigningtime_step:
  assumes inv: "rb_inv rb" and z: "\<not> rb_cache rb" and x: "sh_locknum (rb_mem rb x) < length (rb_heaps rb)" "\<not> sh_iscache (rb_mem rb x)"
    and link: "\<not> sh_linked (rb_mem rb x)"
    and room: "h_size (rb_heaps rb ! sh_locknum (rb_mem rb x)) + SIZE_INCREMENT < 2 ^ 29"
  shows "\<exists>rb'. setsigningtime now rb x resign = Some rb' \<and> rb_inv rb' \<and> grows rb rb' \<and>
    schedule rb' = (schedule rb)(x := if resign = 0 then None else Some (when_due False (timed now resign (rb_mem rb x))))"
proof -
  let ?h = "rb_mem rb x" and ?k = "sh_locknum (rb_mem rb x)"
  let ?n = "timed now resign ?h"
  have tf: "sh_heap_index ?n = sh_heap_index ?h" "sh_locknum ?n = ?k" "sh_linked ?n = sh_linked ?h" "sh_iscache ?n = sh_iscache ?h"
    "header_good rb k ?n = header_good rb k ?h" "RESIGN ?n = RESIGN ?h" "sh_type ?n = sh_type ?h" for k
    by (auto simp: timed_def header_good_def RESIGN_def)
  have up: "rb_mem (update_header rb x (timed now resign)) x = ?n" "rb_cache (update_header rb x f) = rb_cache rb" for f
    by (simp_all add: update_header_def)
  have eq: "update_header rb x (\<lambda>h. h\<lparr>sh_resign := word_of_int (dns_time64_from32 now resign div 2), sh_resign_lsb := unat (resign AND 1)\<rparr>) =
    update_header rb x (timed now resign)" by (simp add: update_header_def timed_def)
  show ?thesis
  proof (cases "sh_heap_index ?h = 0")
    case out: True
    show ?thesis
    proof (cases "resign = 0")
      case True
      then have "setsigningtime now rb x resign = Some rb" using out z by (simp add: setsigningtime_def)
      moreover have "schedule rb = (schedule rb)(x := None)" using out by (auto simp: schedule_def fun_eq_iff)
      moreover have "grows rb rb" by (simp add: grows_def)
      ultimately show ?thesis using True inv by auto
    next
      case False
      let ?f = "\<lambda>h. (timed now resign h)\<lparr>sh_attributes := sh_attributes (timed now resign h) OR DNS_SLABHEADERATTR_RESIGN\<rparr>"
      have two: "update_header (update_header rb x (timed now resign)) x (\<lambda>h. h\<lparr>sh_attributes := sh_attributes h OR DNS_SLABHEADERATTR_RESIGN\<rparr>) =
        update_header rb x ?f" by (simp add: update_header_def)
      have g: "header_good rb ?k ((?f ?h)\<lparr>sh_heap := Some ?k\<rparr>)"
        using z x(2) tf resign_word [of "?n\<lparr>sh_heap := Some ?k\<rparr>"] by (simp add: header_good_def RESIGN_def)
      have "sh_locknum (?f ?h) = ?k" "sh_heap_index (?f ?h) = 0" "sh_iscache (?f ?h) = sh_iscache ?h" "sh_linked (?f ?h) = sh_linked ?h"
        using tf out by simp_all
      from insert_step [where f = ?f, OF inv out refl x(1) this g room] obtain rb1 where
        r: "on_heap (update_header rb x ?f) ?k (\<lambda>heap s. isc_heap_insert heap s x) = Some rb1"
        "rb_inv (update_header rb1 x (\<lambda>h. h\<lparr>sh_heap := Some ?k\<rparr>))" "grows rb (update_header rb1 x (\<lambda>h. h\<lparr>sh_heap := Some ?k\<rparr>))"
        "schedule (update_header rb1 x (\<lambda>h. h\<lparr>sh_heap := Some ?k\<rparr>)) = (schedule rb)(x \<mapsto> when_due (rb_cache rb) (?f ?h))" by blast
      have "setsigningtime now rb x resign = dns__zonedb_resigninsert (update_header rb x ?f) ?k x"
        using False out z tf(1) by (simp add: setsigningtime_def eq up two)
      also have "\<dots> = Some (update_header rb1 x (\<lambda>h. h\<lparr>sh_heap := Some ?k\<rparr>))"
        using r(1) z out tf(1,3) link by (simp add: dns__zonedb_resigninsert_def update_header_def)
      finally show ?thesis using r(2-4) False z by (simp add: when_due_def)
    qed
  next
    case inside: False
    note k = rb_invD [OF inv inside]
    have rs: "RESIGN ?h" using k(3) z by (simp add: header_good_def)
    show ?thesis
    proof (cases "resign = 0")
      case True
      let ?g = "\<lambda>h. h\<lparr>sh_heap_index := 0, sh_heap := None\<rparr>"
      obtain rb1 where r: "on_heap rb ?k (\<lambda>heap s. isc_heap_delete heap s (sh_heap_index ?h)) = Some rb1"
        "rb_inv (update_header rb1 x ?g)" "grows rb (update_header rb1 x ?g)" "schedule (update_header rb1 x ?g) = (schedule rb)(x := None)"
        using delete_step [OF inv inside, of ?g] by auto
      then show ?thesis using True inside rs z by (simp add: setsigningtime_def)
    next
      case False
      note step = setsigningtime_def [of now rb x resign, unfolded Let_def]
      have gn: "header_good rb ?k ?n" using k(3) tf by simp
      have run: "setsigningtime now rb x resign =
        (if sooner False ?n ?h then on_heap (update_header rb x (timed now resign)) ?k (\<lambda>heap s. isc_heap_increased heap s (sh_heap_index ?n))
         else if sooner False ?h ?n then on_heap (update_header rb x (timed now resign)) ?k (\<lambda>heap s. isc_heap_decreased heap s (sh_heap_index ?n))
         else Some (update_header rb x (timed now resign)))"
        using False inside z rs tf by (simp add: setsigningtime_def eq up Let_def)
      consider (sooner) "sooner False ?n ?h" | (later) "\<not> sooner False ?n ?h" "sooner False ?h ?n" | (same) "\<not> sooner False ?n ?h" "\<not> sooner False ?h ?n" by blast
      then show ?thesis
      proof cases
        case sooner
        then show ?thesis using increased_step [where f = "timed now resign", OF inv inside refl gn tf(1,3)] sooner_le(1) run False z by auto
      next
        case later
        have "\<not> sooner (rb_cache rb) ?n h" if "due_le (rb_cache rb) h ?h" for h
          using later_resign [of ?n ?h h] that later z tf(7) by (simp add: sooner_def due_le_def)
        from decreased_step [where f = "timed now resign", OF inv inside refl gn tf(1,3) this] show ?thesis using later run False z by auto
      next
        case same
        have "sh_resign ?n = sh_resign ?h" "sh_resign_lsb ?n = sh_resign_lsb ?h"
          using same unfolding sooner_def resign_sooner_def if_False by (metis linorder_cases)+
        note d = due_le_fields [OF this tf(7)]
        have "rb_inv (update_header rb x (timed now resign)) \<and> grows rb (update_header rb x (timed now resign)) \<and>
          schedule (update_header rb x (timed now resign)) = (schedule rb)(x \<mapsto> when_due (rb_cache rb) ?n)"
          by (rule still_step [where f = "timed now resign", OF inv inside refl gn tf(1,3)]) (use d z in auto)
        then show ?thesis using same run False z by simp
      qed
    qed
  qed
qed

lemma setttl_step:
  assumes inv: "rb_inv rb"
  shows "\<exists>rb'. dns__rbtdb_setttl rb x newttl = Some rb' \<and> rb_inv rb' \<and> grows rb rb' \<and>
    schedule rb' = (if rb_cache rb \<and> schedule rb x \<noteq> None then (schedule rb)(x \<mapsto> (newttl, 0)) else schedule rb)"
proof -
  let ?h = "rb_mem rb x" and ?f = "\<lambda>h. h\<lparr>sh_ttl := newttl\<rparr>"
  have up: "rb_mem (update_header rb x ?f) x = ?f ?h" by (simp add: update_header_def)
  show ?thesis
  proof (cases "sh_heap_index ?h = 0")
    case True
    then have "dns__rbtdb_setttl rb x newttl = Some (update_header rb x ?f)"
      by (auto simp: dns__rbtdb_setttl_def Let_def up split: option.splits)
    then show ?thesis using outside_step [where f = ?f, OF inv True] True by (auto simp: schedule_def)
  next
    case inside: False
    note k = rb_invD [OF inv inside]
    have c: "sh_iscache ?h = rb_cache rb" "sh_heap ?h = Some (sh_locknum ?h)" using k(3) by (auto simp: header_good_def)
    have g: "header_good rb (sh_locknum ?h) (?f ?h)" "sh_heap_index (?f ?h) = sh_heap_index ?h" "sh_linked (?f ?h) = sh_linked ?h"
      using k(3) by (simp_all add: header_good_def RESIGN_def)
    show ?thesis
    proof (cases "rb_cache rb")
      case False
      then have run: "dns__rbtdb_setttl rb x newttl = Some (update_header rb x ?f)"
        using c by (simp add: dns__rbtdb_setttl_def Let_def up)
      have d: "due_le (rb_cache rb) (?f ?h) h = due_le (rb_cache rb) ?h h" "due_le (rb_cache rb) h (?f ?h) = due_le (rb_cache rb) h ?h" for h
        using False due_le_fields [of "?f ?h" ?h h] by simp_all
      have "rb_inv (update_header rb x ?f) \<and> grows rb (update_header rb x ?f) \<and>
        schedule (update_header rb x ?f) = (schedule rb)(x \<mapsto> when_due (rb_cache rb) (?f ?h))"
        by (rule still_step [where f = ?f, OF inv inside refl g d])
      moreover have "(schedule rb)(x \<mapsto> when_due (rb_cache rb) (?f ?h)) = schedule rb"
        using False inside by (auto simp: schedule_def when_due_def fun_eq_iff)
      ultimately show ?thesis using run False by auto
    next
      case cache: True
      have run: "dns__rbtdb_setttl rb x newttl =
        (if newttl = sh_ttl ?h then Some (update_header rb x ?f)
         else if newttl < sh_ttl ?h then on_heap (update_header rb x ?f) (sh_locknum ?h) (\<lambda>heap s. isc_heap_increased heap s (sh_heap_index (?f ?h)))
         else on_heap (update_header rb x ?f) (sh_locknum ?h) (\<lambda>heap s. isc_heap_decreased heap s (sh_heap_index (?f ?h))))"
        using c cache inside by (simp add: dns__rbtdb_setttl_def Let_def up)
      have w: "when_due (rb_cache rb) (?f ?h) = (newttl, 0)" "schedule rb x \<noteq> None" using cache inside by (simp_all add: when_due_def schedule_def)
      consider (same) "newttl = sh_ttl ?h" | (sooner) "newttl < sh_ttl ?h" | (later) "sh_ttl ?h < newttl" by (rule linorder_cases)
      then show ?thesis
      proof cases
        case same
        then have "update_header rb x ?f = rb" by (simp add: update_header_def)
        moreover have "(schedule rb)(x \<mapsto> (newttl, 0)) = schedule rb" using same cache inside by (auto simp: schedule_def when_due_def fun_eq_iff)
        ultimately show ?thesis using run same inv w(2) cache by (auto simp: grows_def)
      next
        case sooner
        then have "due_le (rb_cache rb) (?f ?h) ?h" using cache by (simp add: due_defs)
        from increased_step [where f = ?f, OF inv inside refl g this] show ?thesis using run sooner w cache by auto
      next
        case later
        then have "\<not> sooner (rb_cache rb) (?f ?h) h" if "due_le (rb_cache rb) h ?h" for h
          using that cache by (auto simp: due_defs)
        from decreased_step [where f = ?f, OF inv inside refl g this] show ?thesis using run later w cache by (auto simp: less_imp_neq)
      qed
    qed
  qed
qed

lemma resigndelete_step:
  assumes inv: "rb_inv rb"
  shows "\<exists>rb'. resigndelete rb x = Some rb' \<and> rb_inv rb' \<and> grows rb rb' \<and> schedule rb' = (schedule rb)(x := None)"
proof (cases "sh_heap_index (rb_mem rb x) = 0")
  case True
  then have "(schedule rb)(x := None) = schedule rb" by (auto simp: schedule_def fun_eq_iff)
  then show ?thesis using True inv by (simp add: resigndelete_def grows_def)
next
  case False
  then show ?thesis using delete_step [OF inv False, of "\<lambda>h. h\<lparr>sh_heap_index := 0\<rparr>"] by (auto simp: resigndelete_def)
qed

lemma deletedata_step:
  assumes inv: "rb_inv rb"
  shows "\<exists>rb'. deletedata rb x = Some rb' \<and> rb_inv rb' \<and> grows rb rb' \<and> schedule rb' = (schedule rb)(x := None)"
proof (cases "sh_heap_index (rb_mem rb x) = 0")
  case True
  then have "(schedule rb)(x := None) = schedule rb" by (auto simp: schedule_def fun_eq_iff)
  moreover have "deletedata rb x = Some (update_header rb x (\<lambda>h. h\<lparr>sh_heap_index := 0\<rparr>))"
    using True by (auto simp: deletedata_def split: option.splits)
  ultimately show ?thesis using outside_step [OF inv True, of "\<lambda>h. h\<lparr>sh_heap_index := 0\<rparr>"] by simp
next
  case False
  then have "sh_heap (rb_mem rb x) = Some (sh_locknum (rb_mem rb x))" using rb_invD(3) [OF inv False] by (simp add: header_good_def)
  then show ?thesis using False delete_step [OF inv False, of "\<lambda>h. h\<lparr>sh_heap_index := 0\<rparr>"] by (auto simp: deletedata_def)
qed

lemma cache_insert_step:
  assumes inv: "rb_inv rb" and z: "rb_cache rb" "sh_iscache (rb_mem rb x)" and x: "sh_heap_index (rb_mem rb x) = 0"
    "sh_locknum (rb_mem rb x) < length (rb_heaps rb)" and room: "h_size (rb_heaps rb ! sh_locknum (rb_mem rb x)) + SIZE_INCREMENT < 2 ^ 29"
  shows "\<exists>rb'. cache_insert rb x = Some rb' \<and> rb_inv rb' \<and> grows rb rb' \<and> schedule rb' = (schedule rb)(x \<mapsto> (sh_ttl (rb_mem rb x), 0))"
proof -
  have "update_header rb x (\<lambda>h. h) = rb" by (simp add: update_header_def)
  then show ?thesis using insert_step [OF inv x(1) refl x(2), of "\<lambda>h. h"] z room x
    by (auto simp: cache_insert_def header_good_def when_due_def)
qed

section \<open>Finding the earliest\<close>

lemma signing_loop_least:
  assumes "\<forall>h\<in>set heaps. slab.heap_inv c s h"
  shows "\<exists>r. signing_loop c s heaps acc = Some r \<and> (case r of None \<Rightarrow> acc = None \<and> (\<forall>h\<in>set heaps. elements h = [])
    | Some x \<Rightarrow> (acc = Some x \<or> (\<exists>h\<in>set heaps. x \<in> set (elements h))) \<and> (\<forall>y. acc = Some y \<longrightarrow> due c s x y) \<and>
        (\<forall>h\<in>set heaps. \<forall>y\<in>set (elements h). due c s x y))"
  using assms
proof (induction heaps arbitrary: acc)
  case Nil
  then show ?case using slab.le_refl [of c s] by (cases acc) auto
next
  case (Cons h heaps)
  obtain e where e: "isc_heap_element h 1 = Some e" "case e of None \<Rightarrow> elements h = [] | Some x \<Rightarrow> x \<in> set (elements h) \<and> (\<forall>y\<in>set (elements h). due c s x y)"
    using slab.heap_first [of c s h] Cons.prems by (auto split: option.splits)
  show ?case
  proof (cases e)
    case None
    then show ?thesis using Cons.IH [of acc] Cons.prems e by (auto split: option.splits)
  next
    case (Some x)
    define b where "b = (case acc of None \<Rightarrow> x | Some y \<Rightarrow> if sooner c (s x) (s y) then x else y)"
    have run: "signing_loop c s (h # heaps) acc = signing_loop c s heaps (Some b)" using e(1) Some by (auto simp: b_def split: option.splits)
    have b: "due c s b x" "\<forall>y. acc = Some y \<longrightarrow> due c s b y" "b = x \<or> acc = Some b"
      using sooner_le slab.le_refl [of c s] by (auto simp: b_def split: option.splits)
    have "\<forall>h\<in>set heaps. slab.heap_inv c s h" using Cons.prems by simp
    from Cons.IH [OF this, of "Some b"] obtain r where r: "signing_loop c s heaps (Some b) = Some r"
      "case r of None \<Rightarrow> Some b = None \<and> (\<forall>h\<in>set heaps. elements h = [])
       | Some x \<Rightarrow> (Some b = Some x \<or> (\<exists>h\<in>set heaps. x \<in> set (elements h))) \<and> (\<forall>y. Some b = Some y \<longrightarrow> due c s x y) \<and>
           (\<forall>h\<in>set heaps. \<forall>y\<in>set (elements h). due c s x y)" by blast
    then obtain z where z: "r = Some z" "z = b \<or> (\<exists>h\<in>set heaps. z \<in> set (elements h))" "due c s z b"
      "\<forall>h\<in>set heaps. \<forall>y\<in>set (elements h). due c s z y" by (cases r) auto
    have x: "x \<in> set (elements h)" "\<forall>y\<in>set (elements h). due c s x y" using e(2) Some by auto
    have "due c s z y" if "y \<in> set (elements h)" for y using x(2) that z(3) b(1) due_le_trans by blast
    moreover have "due c s z y" if "acc = Some y" for y using b(2) that z(3) due_le_trans by blast
    moreover have "acc = Some z \<or> (\<exists>h\<in>set (h # heaps). z \<in> set (elements h))" using z(2) b(3) x(1) by auto
    ultimately show ?thesis using run r(1) z by auto
  qed
qed

lemma getsigningtime_least:
  assumes "rb_inv rb"
  shows "\<exists>r h. getsigningtime rb = Some (r, h) \<and> (case h of None \<Rightarrow> r = ISC_R_NOTFOUND \<and> schedule rb = Map.empty
    | Some x \<Rightarrow> r = ISC_R_SUCCESS \<and> schedule rb x \<noteq> None \<and> (\<forall>y. schedule rb y \<noteq> None \<longrightarrow> due (rb_cache rb) (rb_mem rb) x y))"
proof -
  have all: "\<forall>h\<in>set (rb_heaps rb). slab.heap_inv (rb_cache rb) (rb_mem rb) h"
    using heap_good_D(1) [OF heap_good_at [OF assms]] unfolding set_conv_nth by blast
  have mem: "schedule rb y \<noteq> None \<longleftrightarrow> (\<exists>h\<in>set (rb_heaps rb). y \<in> set (elements h))" for y
  proof -
    have "schedule rb y \<noteq> None \<longleftrightarrow> sh_heap_index (rb_mem rb y) \<noteq> 0" by (simp add: schedule_def)
    also have "\<dots> \<longleftrightarrow> (\<exists>k<length (rb_heaps rb). y \<in> set (elements (rb_heaps rb ! k)))" unfolding member_iff [OF assms] in_heap_def ..
    also have "\<dots> \<longleftrightarrow> (\<exists>h\<in>set (rb_heaps rb). y \<in> set (elements h))" unfolding set_conv_nth by blast
    finally show ?thesis .
  qed
  obtain r where r: "signing_loop (rb_cache rb) (rb_mem rb) (rb_heaps rb) None = Some r" "case r of None \<Rightarrow> \<forall>h\<in>set (rb_heaps rb). elements h = []
    | Some x \<Rightarrow> (\<exists>h\<in>set (rb_heaps rb). x \<in> set (elements h)) \<and> (\<forall>h\<in>set (rb_heaps rb). \<forall>y\<in>set (elements h). due (rb_cache rb) (rb_mem rb) x y)"
    using signing_loop_least [OF all, of None] by (fastforce split: option.splits)
  show ?thesis
  proof (cases r)
    case None
    then have "schedule rb y = None" for y using r(2) mem [of y] by (cases "schedule rb y") auto
    then show ?thesis using None r(1) by (auto simp: getsigningtime_def fun_eq_iff)
  next
    case (Some x)
    then show ?thesis using r mem by (auto simp: getsigningtime_def)
  qed
qed

section \<open>A zone's signing schedule\<close>

text \<open>The calls that change the schedule, and what they mean: a map from headers to times.\<close>

datatype zone_call = Set_signing_time u32 addr u32 | Resign_delete addr | Delete_data addr

fun call_header :: "zone_call \<Rightarrow> addr" where
  "call_header (Set_signing_time now x resign) = x"
| "call_header (Resign_delete x) = x"
| "call_header (Delete_data x) = x"

fun make_call :: "zone_call \<Rightarrow> rbtdb \<Rightarrow> rbtdb option" where
  "make_call (Set_signing_time now x resign) rb = setsigningtime now rb x resign"
| "make_call (Resign_delete x) rb = resigndelete rb x"
| "make_call (Delete_data x) rb = deletedata rb x"

fun make_calls :: "zone_call list \<Rightarrow> rbtdb \<Rightarrow> rbtdb option" where
  "make_calls [] rb = Some rb"
| "make_calls (c # cs) rb = do { rb \<leftarrow> make_call c rb; make_calls cs rb }"

text \<open>The 33-bit time, as its upper 32 bits and the last one.\<close>

definition signing_key :: "u32 \<Rightarrow> u32 \<Rightarrow> u32 \<times> nat" where
  "signing_key now resign = (word_of_int (dns_time64_from32 now resign div 2), unat (resign AND 1))"

fun call_means :: "zone_call \<Rightarrow> (addr \<rightharpoonup> u32 \<times> nat) \<Rightarrow> addr \<rightharpoonup> u32 \<times> nat" where
  "call_means (Set_signing_time now x resign) m = m(x := if resign = 0 then None else Some (signing_key now resign))"
| "call_means (Resign_delete x) m = m(x := None)"
| "call_means (Delete_data x) m = m(x := None)"

text \<open>\<open>housed A rb\<close>: the headers \<open>A\<close> are a zone's, and the heaps have not outgrown them.\<close>

definition housed :: "addr set \<Rightarrow> rbtdb \<Rightarrow> bool" where
  "housed A rb \<longleftrightarrow> rb_inv rb \<and> \<not> rb_cache rb \<and> dom (schedule rb) \<subseteq> A \<and>
     (\<forall>x\<in>A. sh_locknum (rb_mem rb x) < length (rb_heaps rb) \<and> \<not> sh_iscache (rb_mem rb x) \<and> \<not> sh_linked (rb_mem rb x)) \<and>
     (\<forall>k < length (rb_heaps rb). h_size (rb_heaps rb ! k) \<le> card A + 1 + SIZE_INCREMENT)"

lemma last_le_card:
  assumes "rb_inv rb" "dom (schedule rb) \<subseteq> A" "finite A" "k < length (rb_heaps rb)"
  shows "h_last (rb_heaps rb ! k) \<le> card A"
proof -
  have "in_heap rb k \<subseteq> A"
  proof
    fix y assume "y \<in> in_heap rb k"
    then have "sh_heap_index (rb_mem rb y) \<noteq> 0" using member_iff [OF assms(1)] assms(4) by blast
    then show "y \<in> A" using assms(2) by (auto simp: schedule_def dom_def split: if_splits)
  qed
  moreover have "distinct (elements (rb_heaps rb ! k))" by (rule heap_inv_distinct [OF heap_good_D(1) [OF heap_good_at [OF assms(1,4)]]])
  then have "h_last (rb_heaps rb ! k) = card (in_heap rb k)" by (simp add: in_heap_def distinct_card)
  ultimately show ?thesis using card_mono [OF assms(3)] by simp
qed

lemma housed_step:
  assumes h: "housed A rb" "finite A" and r: "rb_inv rb'" "grows rb rb'" "dom (schedule rb') \<subseteq> A"
  shows "housed A rb'"
proof -
  have "h_size (rb_heaps rb' ! k) \<le> card A + 1 + SIZE_INCREMENT" if "k < length (rb_heaps rb)" for k
  proof -
    have "h_last (rb_heaps rb ! k) \<le> card A" "h_size (rb_heaps rb ! k) \<le> card A + 1 + SIZE_INCREMENT"
      using last_le_card [of rb A k] h that by (auto simp: housed_def)
    moreover have "h_size (rb_heaps rb' ! k) \<le> max (h_size (rb_heaps rb ! k)) (h_last (rb_heaps rb ! k) + 1 + SIZE_INCREMENT)"
      using r(2) by (simp add: grows_def)
    ultimately show ?thesis by linarith
  qed
  then show ?thesis using h(1) r by (simp add: housed_def grows_def)
qed

lemma call_step:
  assumes h: "housed A rb" "finite A" "card A < 2 ^ 28" and c: "call_header c \<in> A"
  shows "\<exists>rb'. make_call c rb = Some rb' \<and> housed A rb' \<and> schedule rb' = call_means c (schedule rb)"
proof -
  have inv: "rb_inv rb" "\<not> rb_cache rb" "dom (schedule rb) \<subseteq> A" using h(1) by (auto simp: housed_def)
  have "\<exists>rb'. make_call c rb = Some rb' \<and> rb_inv rb' \<and> grows rb rb' \<and> schedule rb' = call_means c (schedule rb)"
  proof (cases c)
    case (Set_signing_time now x resign)
    then have x: "sh_locknum (rb_mem rb x) < length (rb_heaps rb)" "\<not> sh_iscache (rb_mem rb x)" "\<not> sh_linked (rb_mem rb x)"
      using h(1) c by (auto simp: housed_def)
    then have "h_size (rb_heaps rb ! sh_locknum (rb_mem rb x)) \<le> card A + 1 + SIZE_INCREMENT" using h(1) by (auto simp: housed_def)
    then have "h_size (rb_heaps rb ! sh_locknum (rb_mem rb x)) + SIZE_INCREMENT < 2 ^ 29" using h(3) by (simp add: SIZE_INCREMENT_def)
    moreover have "when_due False (timed now resign (rb_mem rb x)) = signing_key now resign" by (simp add: when_due_def timed_def signing_key_def)
    ultimately show ?thesis using setsigningtime_step [OF inv(1,2) x, of now resign] Set_signing_time by (cases "resign = 0") auto
  next
    case (Resign_delete x)
    then show ?thesis using resigndelete_step [OF inv(1)] by simp
  next
    case (Delete_data x)
    then show ?thesis using deletedata_step [OF inv(1)] by simp
  qed
  then obtain rb' where r: "make_call c rb = Some rb'" "rb_inv rb'" "grows rb rb'" "schedule rb' = call_means c (schedule rb)" by blast
  moreover have "dom (schedule rb') \<subseteq> A" unfolding r(4) using inv(3) c by (cases c) (auto split: if_splits)
  ultimately show ?thesis using housed_step [OF h(1,2)] by blast
qed

lemma calls_run:
  assumes "housed A rb" "finite A" "card A < 2 ^ 28" "\<forall>c\<in>set cs. call_header c \<in> A"
  shows "\<exists>rb'. make_calls cs rb = Some rb' \<and> housed A rb' \<and> schedule rb' = fold call_means cs (schedule rb)"
  using assms
proof (induction cs arbitrary: rb)
  case (Cons c cs)
  obtain rb1 where r: "make_call c rb = Some rb1" "housed A rb1" "schedule rb1 = call_means c (schedule rb)"
    using call_step [OF Cons.prems(1-3), of c] Cons.prems(4) by auto
  then show ?case using Cons.IH [OF r(2) Cons.prems(2,3)] Cons.prems(4) by auto
qed simp

section \<open>Properties\<close>





end
