(* ===== verification/ChainVerify.thy ===== *)
theory ChainVerify
  imports Heap "HOL-Library.List_Lexorder" "HOL-Library.Product_Lexorder"
begin

text \<open>
  The check of NSEC3 chains in \<^verbatim>\<open>lib/dns/zoneverify.c\<close>: the chain elements that the names of the zone call for and those found in the zone are
  kept in two heaps, which must hold the same elements, and the elements must link up to circles.
  The elements of a heap are the chain elements themselves: they are never changed, and freeing them is not modelled.
\<close>

section \<open>Chain elements\<close>

record dns_rdata_nsec3 =
  n3_hash :: u8
  n3_iterations :: u16
  n3_salt :: bytes
  n3_next :: bytes

text \<open>\<open>ch_data\<close> is what follows the structure in memory: the salt, the owner's hash and the next hash.\<close>

record nsec3_chain_fixed =
  ch_hash :: u8
  ch_salt_length :: nat
  ch_next_length :: nat
  ch_iterations :: u16
  ch_data :: bytes

definition chain_length :: "nsec3_chain_fixed \<Rightarrow> nat" where
  "chain_length chain = ch_salt_length chain + 2 * ch_next_length chain"

text \<open>\<^verbatim>\<open>memcmp\<close>.  The code calls it with \<open>n\<close> octets in both arrays; an array that ends before them comes first.\<close>

fun memcmp :: "bytes \<Rightarrow> bytes \<Rightarrow> nat \<Rightarrow> int" where
  "memcmp xs ys 0 = 0"
| "memcmp [] [] (Suc n) = 0"
| "memcmp [] (y # ys) (Suc n) = -1"
| "memcmp (x # xs) [] (Suc n) = 1"
| "memcmp (x # xs) (y # ys) (Suc n) = (if x < y then -1 else if y < x then 1 else memcmp xs ys n)"

definition chain_compare :: "nsec3_chain_fixed \<Rightarrow> nsec3_chain_fixed \<Rightarrow> bool" where
  "chain_compare e1 e2 =
     (if ch_hash e1 < ch_hash e2 then True
      else if ch_hash e1 > ch_hash e2 then False
      else if ch_iterations e1 < ch_iterations e2 then True
      else if ch_iterations e1 > ch_iterations e2 then False
      else if ch_salt_length e1 < ch_salt_length e2 then True
      else if ch_salt_length e1 > ch_salt_length e2 then False
      else if ch_next_length e1 < ch_next_length e2 then True
      else if ch_next_length e1 > ch_next_length e2 then False
      else if memcmp (ch_data e1) (ch_data e2) (chain_length e1) < 0 then True
      else False)"

definition chain_equal :: "nsec3_chain_fixed \<Rightarrow> nsec3_chain_fixed \<Rightarrow> nat \<Rightarrow> bool" where
  "chain_equal e1 e2 data_length =
     (if ch_hash e1 \<noteq> ch_hash e2 then False
      else if ch_iterations e1 \<noteq> ch_iterations e2 then False
      else if ch_salt_length e1 \<noteq> ch_salt_length e2 then False
      else if ch_next_length e1 \<noteq> ch_next_length e2 then False
      else memcmp (ch_data e1) (ch_data e2) data_length = 0)"

type_synonym chains = "(nsec3_chain_fixed, unit) isc_heap"

definition new_chains :: chains where
  "new_chains = isc_heap_create (\<lambda>_. chain_compare) None 1024"

definition record_nsec3 :: "bytes \<Rightarrow> dns_rdata_nsec3 \<Rightarrow> chains \<Rightarrow> chains option" where
  "record_nsec3 rawhash nsec3 heap = do {
     let next_length = length (n3_next nsec3);
     owner \<leftarrow> fetch rawhash 0 next_length;
     (heap, _) \<leftarrow> isc_heap_insert heap ()
       \<lparr>ch_hash = n3_hash nsec3, ch_salt_length = length (n3_salt nsec3), ch_next_length = next_length,
        ch_iterations = n3_iterations nsec3, ch_data = n3_salt nsec3 @ owner @ n3_next nsec3\<rparr>;
     Some heap
   }"

section \<open>The check\<close>

text \<open>The next hash of the first element is the owner's hash of the second.  The messages are not modelled.\<close>

definition checknext :: "nsec3_chain_fixed \<Rightarrow> nsec3_chain_fixed \<Rightarrow> bool" where
  "checknext first e =
     (memcmp (drop (ch_salt_length first + ch_next_length first) (ch_data first)) (drop (ch_salt_length e) (ch_data e)) (ch_next_length first) = 0)"

text \<open>The search for an element of the found chains that is not before \<open>e\<close>.  Each round takes an element out of the heap: \<open>fuel\<close> is their number.\<close>

fun resync :: "nat \<Rightarrow> nsec3_chain_fixed \<Rightarrow> nsec3_chain_fixed option \<Rightarrow> chains \<Rightarrow> (nsec3_chain_fixed option \<times> chains) option" where
  "resync fuel e None found = Some (None, found)"
| "resync fuel e (Some f) found =
     (if chain_compare e f then Some (Some f, found)
      else case fuel of 0 \<Rightarrow> None
      | Suc fuel \<Rightarrow> do {
          f \<leftarrow> isc_heap_element found 1;
          case f of
            None \<Rightarrow> Some (None, found)
          | Some f \<Rightarrow> do {
              (found, _) \<leftarrow> isc_heap_delete found () 1;
              if chain_equal e f (chain_length e) then Some (None, found)
              else resync fuel e (Some f) found
            }
        })"

record vstate =
  v_result :: isc_result
  v_f :: "nsec3_chain_fixed option"
  v_first :: "nsec3_chain_fixed option"
  v_prev :: "nsec3_chain_fixed option"

text \<open>An element \<open>e\<close> of the expected chains against the found chains.\<close>

definition match_found :: "nsec3_chain_fixed \<Rightarrow> vstate \<Rightarrow> chains \<Rightarrow> (vstate \<times> chains) option" where
  "match_found e v found = do {
     f \<leftarrow> (case v_f v of None \<Rightarrow> isc_heap_element found 1 | Some f \<Rightarrow> Some (Some f));
     case f of
       Some f \<Rightarrow> do {
         (found, _) \<leftarrow> isc_heap_delete found () 1;
         if chain_equal e f (chain_length e) then Some (v\<lparr>v_f := None\<rparr>, found)
         else do {
           (f, found) \<leftarrow> resync (Suc (h_last found)) e (Some f) found;
           Some (v\<lparr>v_result := ISC_R_FAILURE, v_f := f\<rparr>, found)
         }
       }
     | None \<Rightarrow> Some (if v_result v = ISC_R_SUCCESS then v\<lparr>v_result := ISC_R_FAILURE, v_f := None\<rparr> else v\<lparr>v_f := None\<rparr>, found)
   }"

text \<open>The element against its predecessor in the chain.\<close>

definition link_up :: "nsec3_chain_fixed \<Rightarrow> vstate \<Rightarrow> vstate" where
  "link_up e v =
     (case (v_first v, v_prev v) of
        (Some first, Some prev) \<Rightarrow>
          if \<not> chain_equal first e (ch_salt_length first)
          then v\<lparr>v_result := (if \<not> checknext prev first then ISC_R_FAILURE else v_result v), v_first := Some e, v_prev := Some e\<rparr>
          else v\<lparr>v_result := (if \<not> checknext prev e then ISC_R_FAILURE else v_result v), v_prev := Some e\<rparr>
      | _ \<Rightarrow> v\<lparr>v_first := Some e, v_prev := Some e\<rparr>)"

fun expected_loop :: "nat \<Rightarrow> vstate \<Rightarrow> chains \<Rightarrow> chains \<Rightarrow> (vstate \<times> chains) option" where
  "expected_loop 0 v expected found = None"
| "expected_loop (Suc fuel) v expected found = do {
     e \<leftarrow> isc_heap_element expected 1;
     case e of
       None \<Rightarrow> Some (v, found)
     | Some e \<Rightarrow> do {
         (expected, _) \<leftarrow> isc_heap_delete expected () 1;
         (v, found) \<leftarrow> match_found e v found;
         expected_loop fuel (link_up e v) expected found
       }
   }"

fun drain_loop :: "nat \<Rightarrow> isc_result \<Rightarrow> nsec3_chain_fixed option \<Rightarrow> chains \<Rightarrow> isc_result option" where
  "drain_loop 0 result f found = None"
| "drain_loop (Suc fuel) result f found = do {
     let result = (if f \<noteq> None \<and> result = ISC_R_SUCCESS then ISC_R_FAILURE else result);
     f \<leftarrow> isc_heap_element found 1;
     case f of
       None \<Rightarrow> Some result
     | Some f \<Rightarrow> do {
         (found, _) \<leftarrow> isc_heap_delete found () 1;
         drain_loop fuel result (Some f) found
       }
   }"

definition verify_nsec3_chains :: "chains \<Rightarrow> chains \<Rightarrow> isc_result option" where
  "verify_nsec3_chains expected found = do {
     (v, found) \<leftarrow> expected_loop (Suc (h_last expected)) \<lparr>v_result = ISC_R_SUCCESS, v_f = None, v_first = None, v_prev = None\<rparr> expected found;
     let result = (case (v_first v, v_prev v) of
         (Some first, Some prev) \<Rightarrow> if \<not> checknext prev first then ISC_R_FAILURE else v_result v
       | _ \<Rightarrow> v_result v);
     drain_loop (Suc (h_last found)) result (v_f v) found
   }"

section \<open>The order of the elements\<close>

lemma memcmp_sign: "memcmp xs ys n < 0 \<longleftrightarrow> take n xs < take n ys" "memcmp xs ys n = 0 \<longleftrightarrow> take n xs = take n ys"
  by (induction xs ys n rule: memcmp.induct) auto

definition chain_key :: "nsec3_chain_fixed \<Rightarrow> u8 \<times> u16 \<times> nat \<times> nat \<times> bytes" where
  "chain_key e = (ch_hash e, ch_iterations e, ch_salt_length e, ch_next_length e, take (chain_length e) (ch_data e))"

lemma chain_compare_key: "chain_compare e1 e2 \<longleftrightarrow> chain_key e1 < chain_key e2"
proof (cases "ch_hash e1 = ch_hash e2 \<and> ch_iterations e1 = ch_iterations e2 \<and> ch_salt_length e1 = ch_salt_length e2 \<and> ch_next_length e1 = ch_next_length e2")
  case True
  then show ?thesis by (simp add: chain_compare_def chain_key_def memcmp_sign chain_length_def)
next
  case False
  then show ?thesis by (auto simp: chain_compare_def chain_key_def less_prod_def)
qed

lemma chain_equal_key: "chain_equal e1 e2 (chain_length e1) \<longleftrightarrow> chain_key e1 = chain_key e2"
  by (auto simp: chain_equal_def chain_key_def memcmp_sign chain_length_def)

interpretation chain: heap_order "\<lambda>s :: unit. chain_compare" "\<lambda>s x y. chain_key x \<le> chain_key y" None "\<lambda>s x. 0" "\<lambda>s. s"
  by unfold_locales (auto simp: chain_compare_key)

text \<open>Here the order does not depend on the memory, and the equations for what a write to it leaves are of the form \<open>t = t\<close>.\<close>

declare chain.stored_simps [simp del]

definition chain_ok :: "nsec3_chain_fixed \<Rightarrow> bool" where
  "chain_ok e \<longleftrightarrow> length (ch_data e) = chain_length e"

lemma chain_key_inj: "inj_on chain_key (Collect chain_ok)"
  by (rule inj_onI) (auto simp: chain_key_def chain_ok_def)

section \<open>Heaps as sorted lists\<close>

definition good :: "chains \<Rightarrow> bool" where
  "good h \<longleftrightarrow> chain.heap_inv () h \<and> (\<forall>e\<in>set (elements h). chain_ok e)"

definition queue :: "chains \<Rightarrow> nsec3_chain_fixed list" where
  "queue h = sort_key chain_key (elements h)"

lemma queue_simps [simp]: "length (queue h) = h_last h" "set (queue h) = set (elements h)" "mset (queue h) = mset (elements h)"
  "sorted (map chain_key (queue h))"
  by (simp_all add: queue_def)

lemma queue_unique:
  assumes "good h" "mset xs = mset (elements h)" "sorted (map chain_key xs)"
  shows "queue h = xs"
proof -
  have "inj_on chain_key (set (elements h))" using inj_on_subset [OF chain_key_inj] assms(1) by (auto simp: good_def)
  then show ?thesis unfolding queue_def using sort_key_inj_key_eq assms by metis
qed

lemma pop_empty:
  assumes "good h" "queue h = []"
  shows "isc_heap_element h 1 = Some None" "isc_heap_delete h () 1 = None"
proof -
  have l: "h_last h = 0" using assms(2) by (metis length_0_conv queue_simps(1))
  have v: "VALID_HEAP h" using assms(1) by (simp add: good_def chain.heap_inv_def chain.mine_def shape_def)
  show "isc_heap_element h 1 = Some None" "isc_heap_delete h () 1 = None" using l v by (simp_all add: isc_heap_element_def isc_heap_delete_def)
qed

lemma pop_first:
  assumes g: "good h" and q: "queue h = x # xs"
  shows "isc_heap_element h 1 = Some (Some x)" "\<exists>h'. isc_heap_delete h () 1 = Some (h', ()) \<and> good h' \<and> queue h' = xs \<and> h_last h = Suc (h_last h')"
proof -
  have inv: "chain.heap_inv () h" using g by (simp add: good_def)
  have l: "1 \<le> h_last h" using q by (metis One_nat_def Suc_leI length_Cons queue_simps(1) zero_less_Suc)
  obtain y where y: "isc_heap_element h 1 = Some (Some y)" "y = nth_elt h 1" "y \<in> set (elements h)" "\<forall>z\<in>set (elements h). chain_key y \<le> chain_key z"
    using chain.heap_first [OF inv] l by (auto split: option.splits simp: elements_def)
  obtain h' u where d: "isc_heap_delete h () 1 = Some (h', u)" "chain.heap_inv () h'" "mset (elements h) = add_mset y (mset (elements h'))"
    using chain.delete_ok [OF inv, of 1] l y(2) by auto
  have g': "good h'" using d(2,3) g by (auto simp: good_def) (metis in_multiset_in_set union_iff add_mset_add_single)
  have "sorted (map chain_key (y # queue h'))" using y(4) d(3) by (auto) (metis in_multiset_in_set union_iff add_mset_add_single)
  then have e: "queue h = y # queue h'" using queue_unique [OF g, of "y # queue h'"] d(3) by simp
  then show "isc_heap_element h 1 = Some (Some x)" using q y(1) by simp
  have "h_last h = Suc (h_last h')" using e by (metis length_Cons queue_simps(1))
  then show "\<exists>h'. isc_heap_delete h () 1 = Some (h', ()) \<and> good h' \<and> queue h' = xs \<and> h_last h = Suc (h_last h')"
    using d(1) g' e q by auto
qed

section \<open>The check on lists\<close>

fun l_resync :: "nsec3_chain_fixed \<Rightarrow> nsec3_chain_fixed \<Rightarrow> nsec3_chain_fixed list \<Rightarrow> nsec3_chain_fixed option \<times> nsec3_chain_fixed list" where
  "l_resync e f [] = (if chain_compare e f then (Some f, []) else (None, []))"
| "l_resync e f (g # F) =
     (if chain_compare e f then (Some f, g # F) else if chain_key e = chain_key g then (None, F) else l_resync e g F)"

lemma resync_list:
  assumes "good h" "h_last h < fuel"
  shows "\<exists>f' h'. resync fuel e (Some f) h = Some (f', h') \<and> good h' \<and> l_resync e f (queue h) = (f', queue h')"
  using assms
proof (induction "queue h" arbitrary: h f fuel)
  case Nil
  then show ?case using pop_empty [of h] by (cases fuel) auto
next
  case (Cons g F)
  obtain n where n: "fuel = Suc n" using Cons.prems(2) by (cases fuel) auto
  obtain h' where d: "isc_heap_delete h () 1 = Some (h', ())" "good h'" "queue h' = F" "h_last h = Suc (h_last h')"
    using pop_first(2) [OF Cons.prems(1) Cons.hyps(2) [symmetric]] by blast
  have el: "isc_heap_element h 1 = Some (Some g)" by (rule pop_first(1) [OF Cons.prems(1) Cons.hyps(2) [symmetric]])
  have q: "queue h = g # F" using Cons.hyps(2) by simp
  from Cons.hyps(1) [of h' n g] obtain f2 h2 where "resync n e (Some g) h' = Some (f2, h2)" "good h2" "l_resync e g F = (f2, queue h2)"
    using d Cons.prems n by auto
  then show ?case using d el n q Cons.prems by (auto simp: chain_equal_key)
qed

text \<open>The expected elements against the found ones, without the links; \<open>None\<close> is a deletion from an empty heap.\<close>

definition l_step :: "nsec3_chain_fixed \<Rightarrow> vstate \<Rightarrow> nsec3_chain_fixed \<Rightarrow> nsec3_chain_fixed list \<Rightarrow> vstate \<times> nsec3_chain_fixed list" where
  "l_step e v f F =
     (if chain_key e = chain_key f then (v\<lparr>v_f := None\<rparr>, F)
      else (v\<lparr>v_result := ISC_R_FAILURE, v_f := fst (l_resync e f F)\<rparr>, snd (l_resync e f F)))"

definition l_match :: "nsec3_chain_fixed \<Rightarrow> vstate \<Rightarrow> nsec3_chain_fixed list \<Rightarrow> (vstate \<times> nsec3_chain_fixed list) option" where
  "l_match e v F =
     (case (v_f v, F) of
        (None, []) \<Rightarrow> Some (if v_result v = ISC_R_SUCCESS then v\<lparr>v_result := ISC_R_FAILURE, v_f := None\<rparr> else v\<lparr>v_f := None\<rparr>, [])
      | (None, f # F) \<Rightarrow> Some (l_step e v f F)
      | (Some f, []) \<Rightarrow> None
      | (Some f, g # F) \<Rightarrow> Some (l_step e v f F))"

lemma match_list:
  assumes g: "good h"
  shows "case l_match e v (queue h) of None \<Rightarrow> match_found e v h = None
    | Some (v', F) \<Rightarrow> \<exists>h'. match_found e v h = Some (v', h') \<and> good h' \<and> queue h' = F"
proof (cases "queue h")
  case Nil
  then show ?thesis using pop_empty [OF g Nil] g by (auto simp: l_match_def match_found_def split: option.splits)
next
  case (Cons x F)
  obtain h' where d: "isc_heap_delete h () 1 = Some (h', ())" "good h'" "queue h' = F" using pop_first(2) [OF g Cons] by blast
  have step: "\<exists>h2. (if chain_equal e f (chain_length e) then Some (v\<lparr>v_f := None\<rparr>, h')
         else do { (f, found) \<leftarrow> resync (Suc (h_last h')) e (Some f) h'; Some (v\<lparr>v_result := ISC_R_FAILURE, v_f := f\<rparr>, found) }) =
       Some (fst (l_step e v f F), h2) \<and> good h2 \<and> queue h2 = snd (l_step e v f F)" for f
    using resync_list [OF d(2) lessI, of e f] d by (auto simp: l_step_def chain_equal_key simp del: resync.simps)
  show ?thesis using step [of x] step [of "the (v_f v)"] d(1) pop_first(1) [OF g Cons] Cons
    by (cases "v_f v") (auto simp: l_match_def match_found_def split: prod.splits)
qed

fun l_expected :: "nsec3_chain_fixed list \<Rightarrow> vstate \<Rightarrow> nsec3_chain_fixed list \<Rightarrow> (vstate \<times> nsec3_chain_fixed list) option" where
  "l_expected [] v F = Some (v, F)"
| "l_expected (e # E) v F = do { (v, F) \<leftarrow> l_match e v F; l_expected E (link_up e v) F }"

lemma expected_list:
  assumes "good ex" "good h" "h_last ex < fuel"
  shows "case l_expected (queue ex) v (queue h) of None \<Rightarrow> expected_loop fuel v ex h = None
    | Some (v', F) \<Rightarrow> \<exists>h'. expected_loop fuel v ex h = Some (v', h') \<and> good h' \<and> queue h' = F"
  using assms
proof (induction "queue ex" arbitrary: ex h v fuel)
  case Nil
  then show ?case using pop_empty(1) [of ex] by (cases fuel) auto
next
  case (Cons e E)
  obtain n where n: "fuel = Suc n" using Cons.prems(3) by (cases fuel) auto
  note q = Cons.hyps(2) [symmetric]
  obtain ex' where d: "isc_heap_delete ex () 1 = Some (ex', ())" "good ex'" "queue ex' = E" "h_last ex = Suc (h_last ex')"
    using pop_first(2) [OF Cons.prems(1) q] by blast
  note el = pop_first(1) [OF Cons.prems(1) q]
  show ?case
  proof (cases "l_match e v (queue h)")
    case None
    then show ?thesis using match_list [OF Cons.prems(2), of e v] n d el q by auto
  next
    case (Some r)
    then obtain v1 h1 where m: "l_match e v (queue h) = Some (v1, queue h1)" "match_found e v h = Some (v1, h1)" "good h1"
      using match_list [OF Cons.prems(2), of e v] by (cases r) auto
    have a: "expected_loop fuel v ex h = expected_loop n (link_up e v1) ex' h1" using n el d(1) m(2) by simp
    have b: "l_expected (queue ex) v (queue h) = l_expected (queue ex') (link_up e v1) (queue h1)" using q d(3) m(1) by simp
    have "h_last ex' < n" using d(4) n Cons.prems(3) by simp
    from Cons.hyps(1) [OF d(3) [symmetric] d(2) m(3) this] show ?thesis unfolding a b .
  qed
qed

lemma drain_list:
  assumes "good h" "h_last h < fuel"
  shows "drain_loop fuel result f h = Some (if (f \<noteq> None \<or> queue h \<noteq> []) \<and> result = ISC_R_SUCCESS then ISC_R_FAILURE else result)"
  using assms
proof (induction "queue h" arbitrary: h fuel result f)
  case Nil
  then show ?case using pop_empty(1) [of h] by (cases fuel) auto
next
  case (Cons g F)
  obtain n where n: "fuel = Suc n" using Cons.prems(2) by (cases fuel) auto
  note q = Cons.hyps(2) [symmetric]
  obtain h' where d: "isc_heap_delete h () 1 = Some (h', ())" "good h'" "queue h' = F" "h_last h = Suc (h_last h')"
    using pop_first(2) [OF Cons.prems(1) q] by blast
  show ?case using Cons.hyps(1) [of h' n _ "Some g"] d n q pop_first(1) [OF Cons.prems(1) q] Cons.prems by (auto simp: Let_def)
qed

section \<open>Circles\<close>

definition owner_hash :: "nsec3_chain_fixed \<Rightarrow> bytes" where
  "owner_hash e = take (ch_next_length e) (drop (ch_salt_length e) (ch_data e))"

definition next_hash :: "nsec3_chain_fixed \<Rightarrow> bytes" where
  "next_hash e = take (ch_next_length e) (drop (ch_salt_length e + ch_next_length e) (ch_data e))"

text \<open>Elements of one chain have the same parameters.\<close>

definition chain_params :: "nsec3_chain_fixed \<Rightarrow> u8 \<times> u16 \<times> nat \<times> nat \<times> bytes" where
  "chain_params e = (ch_hash e, ch_iterations e, ch_salt_length e, ch_next_length e, take (ch_salt_length e) (ch_data e))"

definition circle :: "nsec3_chain_fixed list \<Rightarrow> bool" where
  "circle G \<longleftrightarrow> (\<forall>i < length G. next_hash (G ! i) = owner_hash (G ! (Suc i mod length G)))"

abbreviation in_chain :: "nsec3_chain_fixed \<Rightarrow> nsec3_chain_fixed list \<Rightarrow> nsec3_chain_fixed list" where
  "in_chain e E \<equiv> filter (\<lambda>x. chain_params x = chain_params e) E"

lemma chain_equal_params: "chain_equal e1 e2 (ch_salt_length e1) \<longleftrightarrow> chain_params e1 = chain_params e2"
  by (auto simp: chain_equal_def chain_params_def memcmp_sign)

lemma checknext_hash: "chain_params a = chain_params b \<Longrightarrow> checknext a b \<longleftrightarrow> next_hash a = owner_hash b"
  by (auto simp: checknext_def memcmp_sign next_hash_def owner_hash_def chain_params_def)

lemma take_less_eq: "xs \<le> ys \<Longrightarrow> take n xs \<le> take n (ys :: u8 list)"
proof (induction n arbitrary: xs ys)
  case (Suc n)
  then show ?case by (cases xs; cases ys) (auto simp: le_less)
qed simp

lemma params_mono: "chain_key a \<le> chain_key b \<Longrightarrow> chain_params a \<le> chain_params b"
proof -
  assume le: "chain_key a \<le> chain_key b"
  show ?thesis
  proof (cases "ch_hash a = ch_hash b \<and> ch_iterations a = ch_iterations b \<and> ch_salt_length a = ch_salt_length b \<and> ch_next_length a = ch_next_length b")
    case True
    then have "take (chain_length a) (ch_data a) \<le> take (chain_length a) (ch_data b)" using le by (simp add: chain_key_def chain_length_def)
    then have "take (ch_salt_length a) (take (chain_length a) (ch_data a)) \<le> take (ch_salt_length a) (take (chain_length a) (ch_data b))" by (rule take_less_eq)
    then show ?thesis using True by (simp add: chain_params_def chain_length_def)
  next
    case False
    then show ?thesis using le by (auto simp: chain_params_def chain_key_def less_eq_prod_def)
  qed
qed

lemma circle_snoc:
  "circle (R @ [r]) \<longleftrightarrow> (\<forall>i < length R. next_hash (R ! i) = owner_hash ((R @ [r]) ! Suc i)) \<and> next_hash r = owner_hash (hd (R @ [r]))"
proof -
  have split: "(\<forall>i < length (R @ [r]). P i) \<longleftrightarrow> (\<forall>i < length R. P i) \<and> P (length R)" for P :: "nat \<Rightarrow> bool"
    by (auto simp: less_Suc_eq)
  have "circle (R @ [r]) \<longleftrightarrow> (\<forall>i < length R. next_hash ((R @ [r]) ! i) = owner_hash ((R @ [r]) ! (Suc i mod length (R @ [r])))) \<and>
    next_hash ((R @ [r]) ! length R) = owner_hash ((R @ [r]) ! (Suc (length R) mod length (R @ [r])))" unfolding circle_def by (rule split)
  moreover have "(R @ [r]) ! (Suc (length R) mod length (R @ [r])) = hd (R @ [r])" by (simp add: hd_conv_nth)
  moreover have "(R @ [r]) ! i = R ! i" "Suc i mod length (R @ [r]) = Suc i" if "i < length R" for i using that by (simp_all add: nth_append)
  ultimately show ?thesis by simp
qed

text \<open>The links of a run \<open>R\<close> of one chain, the run's last element being \<open>r\<close>.\<close>

definition linked :: "nsec3_chain_fixed list \<Rightarrow> nsec3_chain_fixed \<Rightarrow> bool" where
  "linked R r \<longleftrightarrow> (\<forall>i < length R. next_hash (R ! i) = owner_hash ((R @ [r]) ! Suc i))"

text \<open>What \<open>link_up\<close> and the last check decide, for a run that is open at the end.\<close>

fun links_ok :: "nsec3_chain_fixed \<Rightarrow> nsec3_chain_fixed \<Rightarrow> nsec3_chain_fixed list \<Rightarrow> bool" where
  "links_ok first prev [] \<longleftrightarrow> checknext prev first"
| "links_ok first prev (e # E) \<longleftrightarrow>
     (if chain_params first \<noteq> chain_params e then checknext prev first \<and> links_ok e e E else checknext prev e \<and> links_ok first e E)"

lemma links_ok_circles:
  assumes "sorted (map chain_key (R @ r # E))" "\<forall>x\<in>set (R @ [r]). chain_params x = p" "linked R r"
  shows "links_ok (hd (R @ [r])) r E \<longleftrightarrow> (\<forall>x\<in>set (R @ r # E). circle (in_chain x (R @ r # E)))"
  using assms
proof (induction E arbitrary: R r p)
  case Nil
  have h: "chain_params (hd (R @ [r])) = p" "chain_params r = p" using Nil.prems(2) by (cases R; simp)+
  have "in_chain x (R @ [r]) = R @ [r]" if "x \<in> set (R @ [r])" for x using Nil.prems(2) that by (auto simp: filter_id_conv)
  then have "(\<forall>x\<in>set (R @ [r]). circle (in_chain x (R @ [r]))) \<longleftrightarrow> circle (R @ [r])" by auto
  then show ?case using circle_snoc [of R r] Nil.prems(3) checknext_hash [of r "hd (R @ [r])"] h by (simp add: linked_def)
next
  case (Cons e E)
  have h: "chain_params (hd (R @ [r])) = p" "chain_params r = p" using Cons.prems(2) by (cases R; simp)+
  show ?case
  proof (cases "chain_params e = p")
    case True
    have ext: "linked (R @ [r]) e \<longleftrightarrow> next_hash r = owner_hash e"
      using Cons.prems(3) by (auto simp: linked_def nth_append less_Suc_eq)
    have hd: "hd ((R @ [r]) @ [e]) = hd (R @ [r])" by (cases R) auto
    show ?thesis
    proof (cases "next_hash r = owner_hash e")
      case l: True
      then have "links_ok (hd ((R @ [r]) @ [e])) e E \<longleftrightarrow> (\<forall>x\<in>set ((R @ [r]) @ e # E). circle (in_chain x ((R @ [r]) @ e # E)))"
        using Cons.prems True ext by (intro Cons.IH [of _ _ p]) auto
      then show ?thesis using l True h checknext_hash [of r e] hd by simp
    next
      case False
      have "\<not> circle (in_chain r (R @ r # e # E))"
      proof -
        have "in_chain r (R @ r # e # E) = R @ r # e # in_chain r E" using Cons.prems(2) True h by simp
        moreover have "\<not> circle (R @ r # e # X)" for X
        proof
          assume c: "circle (R @ r # e # X)"
          have "next_hash ((R @ r # e # X) ! length R) = owner_hash ((R @ r # e # X) ! (Suc (length R) mod length (R @ r # e # X)))"
            by (rule c [unfolded circle_def, rule_format]) simp
          then show False using False by (simp add: nth_append)
        qed
        ultimately show ?thesis by simp
      qed
      then show ?thesis using False True h checknext_hash [of r e] by auto
    qed
  next
    case False
    have later: "chain_params x \<noteq> p" if "x \<in> set (e # E)" for x
    proof -
      have "chain_key r \<le> chain_key e" "chain_key e \<le> chain_key x" using Cons.prems(1) that by (auto simp: sorted_append)
      then have "p \<le> chain_params e" "chain_params e \<le> chain_params x" using params_mono h by metis+
      then show ?thesis using False by auto
    qed
    let ?c = "\<lambda>x. circle (in_chain x (R @ r # e # E))"
    have none: "filter (\<lambda>y. chain_params y = p) (e # E) = []" using later by (simp add: filter_empty_conv)
    have run: "in_chain x (R @ r # e # E) = R @ [r]" if "x \<in> set (R @ [r])" for x
    proof -
      have "chain_params x = p" using that Cons.prems(2) by blast
      moreover have "filter (\<lambda>y. chain_params y = p) (R @ [r]) = R @ [r]" using Cons.prems(2) by (simp only: filter_id_conv)
      ultimately show ?thesis using none filter_append [of "\<lambda>y. chain_params y = p" "R @ [r]" "e # E"] by simp
    qed
    have rest: "in_chain x (R @ r # e # E) = in_chain x ([] @ e # E)" if "x \<in> set (e # E)" for x
    proof -
      have "chain_params y \<noteq> chain_params x" if "y \<in> set (R @ [r])" for y
        using later [OF \<open>x \<in> set (e # E)\<close>] bspec [OF Cons.prems(2) that] by simp
      then have "filter (\<lambda>y. chain_params y = chain_params x) (R @ [r]) = []" unfolding filter_empty_conv by blast
      then show ?thesis using filter_append [of "\<lambda>y. chain_params y = chain_params x" "R @ [r]" "e # E"] by simp
    qed
    have ih: "links_ok (hd ([] @ [e])) e E \<longleftrightarrow> (\<forall>x\<in>set ([] @ e # E). circle (in_chain x ([] @ e # E)))"
      using Cons.prems(1) by (intro Cons.IH [of _ _ "chain_params e"]) (auto simp: linked_def sorted_append)
    have "(\<forall>x\<in>set (R @ [r]). ?c x) \<longleftrightarrow> circle (R @ [r])" 
    proof
      assume "\<forall>x\<in>set (R @ [r]). ?c x"
      then have "?c r" by simp
      then show "circle (R @ [r])" using run [of r] by simp
    next
      assume "circle (R @ [r])"
      then show "\<forall>x\<in>set (R @ [r]). ?c x" using run by (intro ballI) (simp only:)
    qed
    moreover have "(\<forall>x\<in>set (e # E). ?c x) \<longleftrightarrow> links_ok e e E" 
    proof -
      have "(\<forall>x\<in>set (e # E). ?c x) \<longleftrightarrow> (\<forall>x\<in>set (e # E). circle (in_chain x ([] @ e # E)))" by (rule ball_cong [OF refl]) (simp only: rest)
      then show ?thesis using ih by (simp only: append_Nil list.sel)
    qed
    moreover have "set (R @ r # e # E) = set (R @ [r]) \<union> set (e # E)" by auto
    ultimately have "(\<forall>x\<in>set (R @ r # e # E). ?c x) \<longleftrightarrow> circle (R @ [r]) \<and> links_ok e e E" by (simp only: ball_Un)
    moreover have "circle (R @ [r]) \<longleftrightarrow> checknext r (hd (R @ [r]))"
      using circle_snoc [of R r] Cons.prems(3) checknext_hash [of r "hd (R @ [r])"] h by (simp add: linked_def)
    ultimately show ?thesis using False h by (simp only: links_ok.simps if_True not_False_eq_True simp_thms if_not_P) metis
  qed
qed

section \<open>The verdict\<close>

text \<open>What the end of \<^verbatim>\<open>verify_nsec3_chains\<close> makes of the state after the expected chains.\<close>

definition verdict :: "vstate \<Rightarrow> nsec3_chain_fixed list \<Rightarrow> isc_result" where
  "verdict v F =
     (let result = (case (v_first v, v_prev v) of
         (Some first, Some prev) \<Rightarrow> if \<not> checknext prev first then ISC_R_FAILURE else v_result v
       | _ \<Rightarrow> v_result v)
      in if (v_f v \<noteq> None \<or> F \<noteq> []) \<and> result = ISC_R_SUCCESS then ISC_R_FAILURE else result)"

definition v_start :: vstate where
  "v_start = \<lparr>v_result = ISC_R_SUCCESS, v_f = None, v_first = None, v_prev = None\<rparr>"

lemma verify_list:
  assumes "good ex" "good h"
  shows "verify_nsec3_chains ex h = map_option (\<lambda>(v, F). verdict v F) (l_expected (queue ex) v_start (queue h))"
proof (cases "l_expected (queue ex) v_start (queue h)")
  case None
  then show ?thesis using expected_list [OF assms lessI, of v_start] by (simp add: verify_nsec3_chains_def v_start_def del: expected_loop.simps)
next
  case (Some r)
  then obtain v h' where r: "r = (v, queue h')" "expected_loop (Suc (h_last ex)) v_start ex h = Some (v, h')" "good h'"
    using expected_list [OF assms lessI, of v_start] by (cases r) (auto simp del: expected_loop.simps)
  show ?thesis using r(2) drain_list [OF r(3) lessI] unfolding Some r(1)
    by (simp add: verify_nsec3_chains_def v_start_def verdict_def Let_def del: expected_loop.simps drain_loop.simps)
qed

lemma link_up_fails [simp]: "v_result v \<noteq> ISC_R_SUCCESS \<Longrightarrow> v_result (link_up e v) \<noteq> ISC_R_SUCCESS"
  by (simp add: link_up_def split: option.split)

lemma l_match_fails: "v_result v \<noteq> ISC_R_SUCCESS \<Longrightarrow> l_match e v F = Some (v', F') \<Longrightarrow> v_result v' \<noteq> ISC_R_SUCCESS"
  by (auto simp: l_match_def l_step_def split: option.splits list.splits if_splits)

lemma l_expected_fails: "l_expected E v F = Some (v', F') \<Longrightarrow> v_result v \<noteq> ISC_R_SUCCESS \<Longrightarrow> v_result v' \<noteq> ISC_R_SUCCESS"
proof (induction E arbitrary: v F)
  case (Cons e E)
  then obtain v1 F1 where m: "l_match e v F = Some (v1, F1)" "l_expected E (link_up e v1) F1 = Some (v', F')" by (auto split: bind_splits)
  then show ?case using Cons.IH [OF m(2)] l_match_fails [OF Cons.prems(2) m(1)] by simp
qed simp

lemma verdict_fails: "v_result v \<noteq> ISC_R_SUCCESS \<Longrightarrow> verdict v F \<noteq> ISC_R_SUCCESS"
  by (auto simp: verdict_def Let_def split: option.splits if_splits)

definition accepts :: "nsec3_chain_fixed list \<Rightarrow> vstate \<Rightarrow> nsec3_chain_fixed list \<Rightarrow> bool" where
  "accepts E v F \<longleftrightarrow> map_option (\<lambda>(v, F). verdict v F) (l_expected E v F) = Some ISC_R_SUCCESS"

lemma accepts_fails [simp]: "v_result v \<noteq> ISC_R_SUCCESS \<Longrightarrow> \<not> accepts E v F"
  using l_expected_fails verdict_fails by (auto simp: accepts_def)

lemma accepts_Cons:
  assumes "v_f v = None" "v_result v = ISC_R_SUCCESS"
  shows "accepts (e # E) v F \<longleftrightarrow> (\<exists>f F'. F = f # F' \<and> chain_key e = chain_key f \<and> accepts E (link_up e v) F')"
proof (cases F)
  case Nil
  have "v_result (v\<lparr>v_result := ISC_R_FAILURE, v_f := None\<rparr>) \<noteq> ISC_R_SUCCESS" by simp
  then have "\<not> accepts E (link_up e (v\<lparr>v_result := ISC_R_FAILURE, v_f := None\<rparr>)) []" by (intro accepts_fails link_up_fails)
  then show ?thesis using Nil assms by (simp add: accepts_def l_match_def)
next
  case (Cons f F')
  show ?thesis
  proof (cases "chain_key e = chain_key f")
    case True
    then show ?thesis using Cons assms by (cases v) (simp add: accepts_def l_match_def l_step_def)
  next
    case False
    let ?v = "v\<lparr>v_result := ISC_R_FAILURE, v_f := fst (l_resync e f F')\<rparr>"
    have "v_result ?v \<noteq> ISC_R_SUCCESS" by simp
    then have "\<not> accepts E (link_up e ?v) (snd (l_resync e f F'))" by (intro accepts_fails link_up_fails)
    then show ?thesis using False Cons assms by (simp add: accepts_def l_match_def l_step_def)
  qed
qed

lemma accepts_linked:
  assumes "v_f v = None" "v_result v = ISC_R_SUCCESS" "v_first v = Some a" "v_prev v = Some b"
  shows "accepts E v F \<longleftrightarrow> map chain_key E = map chain_key F \<and> links_ok a b E"
  using assms
proof (induction E arbitrary: v F a b)
  case Nil
  then show ?case by (auto simp: accepts_def verdict_def Let_def)
next
  case (Cons e E)
  define ok where "ok = (if chain_params a \<noteq> chain_params e then checknext b a else checknext b e)"
  define a' where "a' = (if chain_params a \<noteq> chain_params e then e else a)"
  have l: "link_up e v = v\<lparr>v_result := (if ok then ISC_R_SUCCESS else ISC_R_FAILURE), v_first := Some a', v_prev := Some e\<rparr>"
    using Cons.prems by (simp add: link_up_def chain_equal_params ok_def a'_def)
  have *: "accepts E (link_up e v) F' \<longleftrightarrow> ok \<and> map chain_key E = map chain_key F' \<and> links_ok a' e E" for F'
  proof (cases ok)
    case True
    then show ?thesis using Cons.IH [of "link_up e v" a' e F'] Cons.prems(1) l by simp
  next
    case False
    then have "v_result (link_up e v) \<noteq> ISC_R_SUCCESS" using l by simp
    then show ?thesis using False by (simp add: accepts_fails)
  qed
  have "links_ok a b (e # E) \<longleftrightarrow> ok \<and> links_ok a' e E" by (simp add: ok_def a'_def)
  then show ?case unfolding accepts_Cons [OF Cons.prems(1,2)] * by (cases F) (simp_all del: links_ok.simps, blast)
qed

lemma accepts_circles:
  assumes "sorted (map chain_key E)"
  shows "accepts E v_start F \<longleftrightarrow> map chain_key E = map chain_key F \<and> (\<forall>x\<in>set E. circle (in_chain x E))"
proof (cases E)
  case Nil
  then show ?thesis by (auto simp: accepts_def v_start_def verdict_def)
next
  case (Cons e E')
  have "accepts E' (link_up e v_start) F' \<longleftrightarrow> map chain_key E' = map chain_key F' \<and> links_ok e e E'" for F'
    by (rule accepts_linked) (simp_all add: v_start_def link_up_def)
  moreover have "links_ok e e E' \<longleftrightarrow> (\<forall>x\<in>set E. circle (in_chain x E))"
    using links_ok_circles [of "[]" e E' "chain_params e"] assms Cons by (simp add: linked_def)
  moreover have "accepts E v_start F \<longleftrightarrow> (\<exists>f F'. F = f # F' \<and> chain_key e = chain_key f \<and> accepts E' (link_up e v_start) F')"
    unfolding Cons by (rule accepts_Cons) (simp_all add: v_start_def)
  ultimately show ?thesis unfolding Cons by (cases F) auto
qed

lemma keys_mset:
  assumes "good ex" "good h"
  shows "map chain_key (queue ex) = map chain_key (queue h) \<longleftrightarrow> mset (elements ex) = mset (elements h)"
proof
  assume k: "map chain_key (queue ex) = map chain_key (queue h)"
  have "\<forall>e\<in>set (queue ex) \<union> set (queue h). chain_ok e" using assms by (auto simp: good_def)
  then have "queue ex = queue h" using k inj_on_subset [OF chain_key_inj] by (intro map_inj_on [OF k]) auto
  then show "mset (elements ex) = mset (elements h)" using queue_simps(3) by metis
next
  assume m: "mset (elements ex) = mset (elements h)"
  have "queue ex = queue h" by (rule queue_unique [OF assms(1)]) (simp_all add: m)
  then show "map chain_key (queue ex) = map chain_key (queue h)" by simp
qed

lemma verify_good:
  assumes "good ex" "good h"
  shows "verify_nsec3_chains ex h = Some ISC_R_SUCCESS \<longleftrightarrow>
    mset (elements ex) = mset (elements h) \<and> (\<forall>e\<in>set (elements ex). circle (in_chain e (queue ex)))"
  unfolding verify_list [OF assms] accepts_def [symmetric]
  by (simp add: accepts_circles keys_mset [OF assms])

section \<open>Recording\<close>

fun record_all :: "(bytes \<times> dns_rdata_nsec3) list \<Rightarrow> chains \<Rightarrow> chains option" where
  "record_all [] heap = Some heap"
| "record_all ((rawhash, nsec3) # xs) heap = do { heap \<leftarrow> record_nsec3 rawhash nsec3 heap; record_all xs heap }"

definition recorded :: "bytes \<times> dns_rdata_nsec3 \<Rightarrow> nsec3_chain_fixed" where
  "recorded x = (let n = length (n3_next (snd x)) in
     \<lparr>ch_hash = n3_hash (snd x), ch_salt_length = length (n3_salt (snd x)), ch_next_length = n,
      ch_iterations = n3_iterations (snd x), ch_data = n3_salt (snd x) @ take n (fst x) @ n3_next (snd x)\<rparr>)"

definition recordable :: "(bytes \<times> dns_rdata_nsec3) list \<Rightarrow> bool" where
  "recordable xs \<longleftrightarrow> length xs < 2 ^ 28 \<and> (\<forall>x\<in>set xs. length (n3_next (snd x)) \<le> length (fst x))"

definition roomy :: "chains \<Rightarrow> bool" where
  "roomy h \<longleftrightarrow> good h \<and> h_size_increment h = 1024 \<and> h_size h \<le> h_last h + 1024"

lemma record_one:
  assumes r: "roomy h" and n: "h_last h + 2048 < 2 ^ 29" and len: "length (n3_next nsec3) \<le> length rawhash"
  shows "\<exists>h'. record_nsec3 rawhash nsec3 h = Some h' \<and> roomy h' \<and> mset (elements h') = add_mset (recorded (rawhash, nsec3)) (mset (elements h)) \<and>
    h_last h' = Suc (h_last h)"
proof -
  let ?x = "recorded (rawhash, nsec3)"
  have inv: "chain.heap_inv () h" and inc: "h_size_increment h = 1024" and sz: "h_size h \<le> h_last h + 1024" using r by (auto simp: roomy_def good_def)
  have room: "h_last h + 1 < h_size h \<or> 1 < h_size_increment h \<and> h_size h + h_size_increment h < 2 ^ 29" using inc sz n by auto
  obtain h' where i: "isc_heap_insert h () ?x = Some (h', ())" "chain.heap_inv () h'" "mset (elements h') = add_mset ?x (mset (elements h))"
    "h_size_increment h' = 1024" "h_size h' = (if h_last h + 1 < h_size h then h_size h else h_size h + 1024)"
    using chain.insert_ok [OF inv room, of ?x] inc by auto
  have l: "h_last h' = Suc (h_last h)" using arg_cong [OF i(3), of size] by simp
  have "set (elements h') = insert ?x (set (elements h))" using arg_cong [OF i(3), of set_mset] by simp
  moreover have "chain_ok ?x" using len by (simp add: chain_ok_def recorded_def chain_length_def Let_def)
  ultimately have "good h'" using i(2) r by (simp add: roomy_def good_def)
  then have "roomy h'" using i(4,5) l sz by (auto simp: roomy_def)
  moreover have "record_nsec3 rawhash nsec3 h = Some h'" using i(1) len by (simp add: record_nsec3_def recorded_def fetch_def Let_def)
  ultimately show ?thesis using i(3) l by simp
qed

lemma record_all_ok:
  assumes "roomy h" "h_last h + length xs + 2048 < 2 ^ 29" "\<forall>x\<in>set xs. length (n3_next (snd x)) \<le> length (fst x)"
  shows "\<exists>h'. record_all xs h = Some h' \<and> roomy h' \<and> mset (elements h') = mset (map recorded xs) + mset (elements h)"
  using assms
proof (induction xs arbitrary: h)
  case (Cons x xs)
  obtain a b where x: "x = (a, b)" by (cases x)
  have len: "length (n3_next b) \<le> length a" using Cons.prems(3) x by simp
  have n: "h_last h + 2048 < 2 ^ 29" using Cons.prems(2) by simp
  obtain h1 where h1: "record_nsec3 a b h = Some h1" "roomy h1" "mset (elements h1) = add_mset (recorded x) (mset (elements h))" "h_last h1 = Suc (h_last h)"
    using record_one [OF Cons.prems(1) n len] x by auto
  have "h_last h1 + length xs + 2048 < 2 ^ 29" using h1(4) Cons.prems(2) by simp
  from Cons.IH [OF h1(2) this] obtain h' where "record_all xs h1 = Some h'" "roomy h'" "mset (elements h') = mset (map recorded xs) + mset (elements h1)"
    using Cons.prems(3) by auto
  then show ?case using h1(1,3) x by simp
qed simp

lemma roomy_new: "roomy new_chains" "elements new_chains = []" "h_last new_chains = 0"
  using chain.create_inv [of 1024 "()"] by (simp_all add: roomy_def good_def new_chains_def) (simp_all add: isc_heap_create_def elements_def)

lemma record_new:
  assumes "recordable xs"
  shows "\<exists>h. record_all xs new_chains = Some h \<and> good h \<and> mset (elements h) = mset (map recorded xs)"
proof -
  have "h_last new_chains + length xs + 2048 < 2 ^ 29" using assms by (simp add: recordable_def roomy_new)
  then show ?thesis using record_all_ok [OF roomy_new(1), of xs] assms by (auto simp: recordable_def roomy_new roomy_def)
qed

section \<open>Properties\<close>

text \<open>
  C16: Recording the NSEC3 records that the names of a zone call for, \<open>xs\<close>, and those found in it, \<open>ys\<close>, never fails, and then
  \<^verbatim>\<open>verify_nsec3_chains\<close> succeeds exactly when the two lists hold the same elements, as often, and the elements of every chain, in the order of their hashes, link up to a circle:
  the next hash of each is the owner's hash of the one after it, and that of the last is the first's.
\<close>

theorem verify_chains_correct:
  assumes "recordable xs" "recordable ys"
  shows "\<exists>ex fo. record_all xs new_chains = Some ex \<and> record_all ys new_chains = Some fo \<and>
    (verify_nsec3_chains ex fo = Some ISC_R_SUCCESS \<longleftrightarrow> mset (map recorded xs) = mset (map recorded ys) \<and>
       (\<forall>e\<in>set (map recorded xs). circle (in_chain e (sort_key chain_key (map recorded xs)))))"
proof -
  obtain ex where ex: "record_all xs new_chains = Some ex" "good ex" "mset (elements ex) = mset (map recorded xs)" using record_new [OF assms(1)] by blast
  obtain fo where fo: "record_all ys new_chains = Some fo" "good fo" "mset (elements fo) = mset (map recorded ys)" using record_new [OF assms(2)] by blast
  have "queue ex = sort_key chain_key (map recorded xs)" using ex(3) by (intro queue_unique [OF ex(2)]) simp_all
  moreover have "set (elements ex) = set (map recorded xs)" using ex(3) by (metis set_mset_mset)
  ultimately show ?thesis using verify_good [OF ex(2) fo(2)] ex(1,3) fo(1,3) by simp
qed

theorem verify_chains_correct_witness:
  "let xs = [([7], \<lparr>n3_hash = 1, n3_iterations = 0, n3_salt = [], n3_next = [3]\<rparr>), ([3], \<lparr>n3_hash = 1, n3_iterations = 0, n3_salt = [], n3_next = [7]\<rparr>)]
   in \<exists>ex fo. record_all xs new_chains = Some ex \<and> record_all (rev xs) new_chains = Some fo \<and> verify_nsec3_chains ex fo = Some ISC_R_SUCCESS"
proof -
  let ?xs = "[([7], \<lparr>n3_hash = 1, n3_iterations = 0, n3_salt = [], n3_next = [3]\<rparr>), ([3], \<lparr>n3_hash = 1, n3_iterations = 0, n3_salt = [], n3_next = [7]\<rparr>)]"
  have "\<forall>e\<in>set (map recorded ?xs). circle (in_chain e (sort_key chain_key (map recorded ?xs)))"
    by (auto simp: recorded_def chain_params_def chain_key_def chain_length_def circle_def next_hash_def owner_hash_def less_Suc_eq)
  moreover have "mset (map recorded ?xs) = mset (map recorded (rev ?xs))" by (simp only: mset_map mset_rev)
  moreover have "recordable ?xs" "recordable (rev ?xs)" by (simp_all add: recordable_def)
  ultimately show ?thesis using verify_chains_correct [of ?xs "rev ?xs"] unfolding Let_def by blast
qed



end
