(* ===== verification/TextCodec.thy ===== *)
theory TextCodec
  imports Buffer
begin

text \<open>
  Binary data as text: \<^verbatim>\<open>lib/isc/base64.c\<close>, \<^verbatim>\<open>lib/isc/hex.c\<close> and \<^verbatim>\<open>lib/isc/base32.c\<close>.  Each file has its own copies of
  \<^verbatim>\<open>str_totext\<close> and \<^verbatim>\<open>mem_tobuffer\<close> and of the loop that reads a string; here they are shared.  The functions that read from a lexer are in \<open>LexText\<close>.

  The digits a decoder has collected are at most 65, so that they are octets here, and the shifts, whose results the code cuts to octets, are those of octets.
  The lemmas show that the three encoders and decoders are inverse to each other, and which texts the decoders take.
\<close>

section \<open>Text and memory\<close>

definition isc_region_consume :: "isc_region \<Rightarrow> nat \<Rightarrow> isc_region option" where
  "isc_region_consume r l = do {
     INSIST (r_length r \<ge> l);
     Some \<lparr>r_base = drop l (r_base r), r_length = r_length r - l\<rparr>
   }"

definition mem_tobuffer :: "isc_buffer \<Rightarrow> bytes \<Rightarrow> (isc_result \<times> isc_buffer) option" where
  "mem_tobuffer target base = do {
     tr \<leftarrow> isc_buffer_availableregion target;
     if length base > r_length tr then Some (ISC_R_NOSPACE, target)
     else do {
       m \<leftarrow> blit (b_base target) (b_used target) base;
       target \<leftarrow> isc_buffer_add (target\<lparr>b_base := m\<rparr>) (length base);
       Some (ISC_R_SUCCESS, target)
     }
   }"

text \<open>The string ends before the first null octet.\<close>

definition str_totext :: "bytes \<Rightarrow> isc_buffer \<Rightarrow> (isc_result \<times> isc_buffer) option" where
  "str_totext source target = mem_tobuffer target (takeWhile (\<lambda>c. c \<noteq> 0) source)"

text \<open>\<^verbatim>\<open>(int)n\<close> of an \<^verbatim>\<open>unsigned int\<close>, and \<^verbatim>\<open>strchr\<close>, which finds the null octet at the end of the string too.\<close>

definition as_int :: "nat \<Rightarrow> int" where "as_int n = sint (of_nat n :: u32)"

fun strchr :: "bytes \<Rightarrow> u8 \<Rightarrow> nat option" where
  "strchr [] c = (if c = 0 then Some 0 else None)"
| "strchr (d # ds) c = (if c = d then Some 0 else map_option Suc (strchr ds c))"

definition is_blank :: "u8 \<Rightarrow> bool" where
  "is_blank c \<longleftrightarrow> c = 0x20 \<or> c = 0x09 \<or> c = 0x0a \<or> c = 0x0d"

text \<open>\<open>feed\<close> hands octets to a decoder, \<open>feed_string\<close> a string without its blanks, up to the null octet.  A string without one is read past its end.\<close>

fun feed :: "('c \<Rightarrow> u8 \<Rightarrow> (isc_result \<times> 'c) option) \<Rightarrow> 'c \<Rightarrow> bytes \<Rightarrow> (isc_result \<times> 'c) option" where
  "feed step ctx [] = Some (ISC_R_SUCCESS, ctx)"
| "feed step ctx (c # cs) = do {
     (result, ctx) \<leftarrow> step ctx c;
     if result \<noteq> ISC_R_SUCCESS then Some (result, ctx) else feed step ctx cs
   }"

fun feed_string :: "('c \<Rightarrow> u8 \<Rightarrow> (isc_result \<times> 'c) option) \<Rightarrow> 'c \<Rightarrow> bytes \<Rightarrow> (isc_result \<times> 'c) option" where
  "feed_string step ctx [] = None"
| "feed_string step ctx (c # cs) =
     (if c = 0 then Some (ISC_R_SUCCESS, ctx)
      else if is_blank c then feed_string step ctx cs
      else do {
        (result, ctx) \<leftarrow> step ctx c;
        if result \<noteq> ISC_R_SUCCESS then Some (result, ctx) else feed_string step ctx cs
      })"

section \<open>Base 64\<close>

definition base64 :: bytes where
  "base64 = map of_char ''ABCDEFGHIJKLMNOPQRSTUVWXYZabcdefghijklmnopqrstuvwxyz0123456789+/=''"

text \<open>The digits of one, two or three octets.\<close>

definition b64_digit :: "u8 \<Rightarrow> u8" where "b64_digit i = base64 ! unat i"

definition b64_digits3 :: "u8 \<Rightarrow> u8 \<Rightarrow> u8 \<Rightarrow> bytes" where
  "b64_digits3 b0 b1 b2 =
     [b64_digit (drop_bit 2 b0 AND 0x3f), b64_digit ((push_bit 4 b0 AND 0x30) OR (drop_bit 4 b1 AND 0x0f)),
      b64_digit ((push_bit 2 b1 AND 0x3c) OR (drop_bit 6 b2 AND 0x03)), b64_digit (b2 AND 0x3f)]"

definition b64_digits2 :: "u8 \<Rightarrow> u8 \<Rightarrow> bytes" where
  "b64_digits2 b0 b1 =
     [b64_digit (drop_bit 2 b0 AND 0x3f), b64_digit ((push_bit 4 b0 AND 0x30) OR (drop_bit 4 b1 AND 0x0f)),
      b64_digit (push_bit 2 b1 AND 0x3c), 0x3d]"

definition b64_digits1 :: "u8 \<Rightarrow> bytes" where
  "b64_digits1 b0 = [b64_digit (drop_bit 2 b0 AND 0x3f), b64_digit (push_bit 4 b0 AND 0x30), 0x3d, 0x3d]"

function base64_totext_loop ::
  "int \<Rightarrow> bytes \<Rightarrow> isc_region \<Rightarrow> nat \<Rightarrow> isc_buffer \<Rightarrow> (isc_result \<times> isc_region \<times> isc_buffer) option" where
  "base64_totext_loop wordlength wordbreak source loops target =
     (if r_length source > 2 then do {
        b0 \<leftarrow> peek (r_base source) 0;
        b1 \<leftarrow> peek (r_base source) 1;
        b2 \<leftarrow> peek (r_base source) 2;
        (result, target) \<leftarrow> str_totext (b64_digits3 b0 b1 b2) target;
        if result \<noteq> ISC_R_SUCCESS then Some (result, source, target)
        else do {
          source' \<leftarrow> isc_region_consume source 3;
          let loops = loops + 1;
          if r_length source' \<noteq> 0 \<and> as_int ((loops + 1) * 4) \<ge> wordlength then do {
            (result, target) \<leftarrow> str_totext wordbreak target;
            if result \<noteq> ISC_R_SUCCESS then Some (result, source', target)
            else base64_totext_loop wordlength wordbreak source' 0 target
          }
          else base64_totext_loop wordlength wordbreak source' loops target
        }
      }
      else Some (ISC_R_SUCCESS, source, target))"
  by pat_completeness auto
termination by (relation "measure (\<lambda>(wl, wb, source, loops, target). r_length source)") (auto simp: isc_region_consume_def split: if_splits)

text \<open>The last two octets or one.\<close>

definition base64_totext_rest :: "isc_region \<Rightarrow> isc_buffer \<Rightarrow> (isc_result \<times> isc_region \<times> isc_buffer) option" where
  "base64_totext_rest source target =
     (if r_length source = 2 then do {
        b0 \<leftarrow> peek (r_base source) 0;
        b1 \<leftarrow> peek (r_base source) 1;
        (result, target) \<leftarrow> str_totext (b64_digits2 b0 b1) target;
        if result \<noteq> ISC_R_SUCCESS then Some (result, source, target)
        else do { source \<leftarrow> isc_region_consume source 2; Some (ISC_R_SUCCESS, source, target) }
      }
      else if r_length source = 1 then do {
        b0 \<leftarrow> peek (r_base source) 0;
        (result, target) \<leftarrow> str_totext (b64_digits1 b0) target;
        if result \<noteq> ISC_R_SUCCESS then Some (result, source, target)
        else do { source \<leftarrow> isc_region_consume source 1; Some (ISC_R_SUCCESS, source, target) }
      }
      else Some (ISC_R_SUCCESS, source, target))"

definition isc_base64_totext :: "isc_region \<Rightarrow> int \<Rightarrow> bytes \<Rightarrow> isc_buffer \<Rightarrow> (isc_result \<times> isc_region \<times> isc_buffer) option" where
  "isc_base64_totext source wordlength wordbreak target = do {
     (result, source, target) \<leftarrow> base64_totext_loop (if wordlength < 4 then 4 else wordlength) wordbreak source 0 target;
     if result \<noteq> ISC_R_SUCCESS then Some (result, source, target)
     else base64_totext_rest source target
   }"

text \<open>\<open>d64_val\<close> holds the digits read so far, of which the first \<open>digits\<close> of the array count.\<close>

record base64_decode_ctx =
  d64_length :: int
  d64_target :: isc_buffer
  d64_seen_end :: bool
  d64_val :: bytes

definition base64_decode_init :: "int \<Rightarrow> isc_buffer \<Rightarrow> base64_decode_ctx" where
  "base64_decode_init len target = \<lparr>d64_length = len, d64_target = target, d64_seen_end = False, d64_val = []\<rparr>"

text \<open>The group of four digits.\<close>

definition b64_group :: "base64_decode_ctx \<Rightarrow> u8 \<Rightarrow> u8 \<Rightarrow> u8 \<Rightarrow> u8 \<Rightarrow> (isc_result \<times> base64_decode_ctx) option" where
  "b64_group ctx v0 v1 v2 v3 =
     (if v0 = 64 \<or> v1 = 64 then Some (ISC_R_BADBASE64, ctx)
      else if v2 = 64 \<and> v3 \<noteq> 64 then Some (ISC_R_BADBASE64, ctx)
      else if v2 = 64 \<and> v1 AND 0xf \<noteq> 0 then Some (ISC_R_BADBASE64, ctx)
      else if v3 = 64 \<and> v2 AND 0x3 \<noteq> 0 then Some (ISC_R_BADBASE64, ctx)
      else do {
        let n = (if v2 = 64 then 1 else if v3 = 64 then 2 else 3);
        let ctx = (if n \<noteq> 3 then ctx\<lparr>d64_seen_end := True\<rparr> else ctx);
        let v2 = (if v2 = 64 then 0 else v2);
        let v3 = (if v3 = 64 then 0 else v3);
        let buf = [push_bit 2 v0 OR drop_bit 4 v1, push_bit 4 v1 OR drop_bit 2 v2, push_bit 6 v2 OR v3];
        (result, target) \<leftarrow> mem_tobuffer (d64_target ctx) (take n buf);
        let ctx = ctx\<lparr>d64_target := target\<rparr>;
        if result \<noteq> ISC_R_SUCCESS then Some (result, ctx)
        else if d64_length ctx \<ge> 0 \<and> int n > d64_length ctx then Some (ISC_R_BADBASE64, ctx)
        else Some (ISC_R_SUCCESS, ctx\<lparr>d64_length := (if d64_length ctx \<ge> 0 then d64_length ctx - int n else d64_length ctx), d64_val := []\<rparr>)
      })"

definition base64_decode_char :: "base64_decode_ctx \<Rightarrow> u8 \<Rightarrow> (isc_result \<times> base64_decode_ctx) option" where
  "base64_decode_char ctx c =
     (if d64_seen_end ctx then Some (ISC_R_BADBASE64, ctx)
      else case strchr base64 c of
        None \<Rightarrow> Some (ISC_R_BADBASE64, ctx)
      | Some s \<Rightarrow> do {
          REQUIRE (length (d64_val ctx) < 4);
          let ctx = ctx\<lparr>d64_val := d64_val ctx @ [of_nat s]\<rparr>;
          case d64_val ctx of
            [v0, v1, v2, v3] \<Rightarrow> b64_group ctx v0 v1 v2 v3
          | _ \<Rightarrow> Some (ISC_R_SUCCESS, ctx)
        })"

definition base64_decode_finish :: "base64_decode_ctx \<Rightarrow> isc_result" where
  "base64_decode_finish ctx =
     (if d64_length ctx > 0 then ISC_R_UNEXPECTEDEND else if d64_val ctx \<noteq> [] then ISC_R_BADBASE64 else ISC_R_SUCCESS)"

definition isc_base64_decodestring :: "bytes \<Rightarrow> isc_buffer \<Rightarrow> (isc_result \<times> isc_buffer) option" where
  "isc_base64_decodestring cstr target = do {
     (result, ctx) \<leftarrow> feed_string base64_decode_char (base64_decode_init (-1) target) cstr;
     if result \<noteq> ISC_R_SUCCESS then Some (result, d64_target ctx)
     else Some (base64_decode_finish ctx, d64_target ctx)
   }"

section \<open>Hexadecimal\<close>

text \<open>\<^verbatim>\<open>isc__hex_char\<close>: what is to be subtracted from a digit to get its value; 0 for the other octets.\<close>

definition isc_hex_char :: "u8 \<Rightarrow> u8" where
  "isc_hex_char c = (if 0x30 \<le> c \<and> c \<le> 0x39 then 0x30 else if 0x41 \<le> c \<and> c \<le> 0x46 then 0x41 - 0xA else if 0x61 \<le> c \<and> c \<le> 0x66 then 0x61 - 0xa else 0)"

definition hex_digits :: bytes where
  "hex_digits = map of_char ''0123456789ABCDEF''"

definition hex_octet :: "u8 \<Rightarrow> bytes" where
  "hex_octet b = [hex_digits ! unat (drop_bit 4 b AND 0xf), hex_digits ! unat (b AND 0xf)]"

function hex_totext_loop :: "int \<Rightarrow> bytes \<Rightarrow> isc_region \<Rightarrow> nat \<Rightarrow> isc_buffer \<Rightarrow> (isc_result \<times> isc_region \<times> isc_buffer) option" where
  "hex_totext_loop wordlength wordbreak source loops target =
     (if r_length source > 0 then do {
        b0 \<leftarrow> peek (r_base source) 0;
        (result, target) \<leftarrow> str_totext (hex_octet b0) target;
        if result \<noteq> ISC_R_SUCCESS then Some (result, source, target)
        else do {
          source' \<leftarrow> isc_region_consume source 1;
          let loops = loops + 1;
          if r_length source' \<noteq> 0 \<and> as_int ((loops + 1) * 2) \<ge> wordlength then do {
            (result, target) \<leftarrow> str_totext wordbreak target;
            if result \<noteq> ISC_R_SUCCESS then Some (result, source', target)
            else hex_totext_loop wordlength wordbreak source' 0 target
          }
          else hex_totext_loop wordlength wordbreak source' loops target
        }
      }
      else Some (ISC_R_SUCCESS, source, target))"
  by pat_completeness auto
termination by (relation "measure (\<lambda>(wl, wb, source, loops, target). r_length source)") (auto simp: isc_region_consume_def split: if_splits)

definition isc_hex_totext :: "isc_region \<Rightarrow> int \<Rightarrow> bytes \<Rightarrow> isc_buffer \<Rightarrow> (isc_result \<times> isc_region \<times> isc_buffer) option" where
  "isc_hex_totext source wordlength wordbreak target =
     hex_totext_loop (if wordlength < 2 then 2 else wordlength) wordbreak source 0 target"

record hex_decode_ctx =
  dh_length :: int
  dh_target :: isc_buffer
  dh_val :: bytes

definition hex_decode_init :: "int \<Rightarrow> isc_buffer \<Rightarrow> hex_decode_ctx" where
  "hex_decode_init len target = \<lparr>dh_length = len, dh_target = target, dh_val = []\<rparr>"

definition hex_decode_char :: "hex_decode_ctx \<Rightarrow> u8 \<Rightarrow> (isc_result \<times> hex_decode_ctx) option" where
  "hex_decode_char ctx c = do {
     let hexval = isc_hex_char c;
     if hexval = 0 then Some (ISC_R_BADHEX, ctx)
     else do {
       REQUIRE (length (dh_val ctx) < 2);
       let ctx = ctx\<lparr>dh_val := dh_val ctx @ [c - hexval]\<rparr>;
       case dh_val ctx of
         [v0, v1] \<Rightarrow> do {
           (result, target) \<leftarrow> mem_tobuffer (dh_target ctx) [push_bit 4 v0 + v1];
           let ctx = ctx\<lparr>dh_target := target\<rparr>;
           if result \<noteq> ISC_R_SUCCESS then Some (result, ctx)
           else if dh_length ctx = 0 then Some (ISC_R_BADHEX, ctx)
           else Some (ISC_R_SUCCESS, ctx\<lparr>dh_length := (if dh_length ctx \<ge> 0 then dh_length ctx - 1 else dh_length ctx), dh_val := []\<rparr>)
         }
       | _ \<Rightarrow> Some (ISC_R_SUCCESS, ctx)
     }
   }"

definition hex_decode_finish :: "hex_decode_ctx \<Rightarrow> isc_result" where
  "hex_decode_finish ctx =
     (if dh_length ctx > 0 then ISC_R_UNEXPECTEDEND else if dh_val ctx \<noteq> [] then ISC_R_BADHEX else ISC_R_SUCCESS)"

definition isc_hex_decodestring :: "bytes \<Rightarrow> isc_buffer \<Rightarrow> (isc_result \<times> isc_buffer) option" where
  "isc_hex_decodestring cstr target = do {
     (result, ctx) \<leftarrow> feed_string hex_decode_char (hex_decode_init (-1) target) cstr;
     if result \<noteq> ISC_R_SUCCESS then Some (result, dh_target ctx)
     else Some (hex_decode_finish ctx, dh_target ctx)
   }"

section \<open>Base 32\<close>

definition base32 :: bytes where
  "base32 = map of_char ''ABCDEFGHIJKLMNOPQRSTUVWXYZ234567=abcdefghijklmnopqrstuvwxyz234567''"

definition base32hex :: bytes where
  "base32hex = map of_char ''0123456789ABCDEFGHIJKLMNOPQRSTUV=0123456789abcdefghijklmnopqrstuv''"

text \<open>The eight digits of the first one to five octets of the source; \<open>pad\<close> is a null octet where the text is not to be padded.\<close>

definition b32_digit :: "bytes \<Rightarrow> u8 \<Rightarrow> u8" where "b32_digit base i = base ! unat i"

fun b32_digits :: "bytes \<Rightarrow> u8 \<Rightarrow> bytes \<Rightarrow> bytes" where
  "b32_digits base pad [b0] =
     [b32_digit base (drop_bit 3 b0 AND 0x1f), b32_digit base (push_bit 2 b0 AND 0x1c), pad, pad, pad, pad, pad, pad]"
| "b32_digits base pad [b0, b1] =
     [b32_digit base (drop_bit 3 b0 AND 0x1f), b32_digit base ((push_bit 2 b0 AND 0x1c) OR (drop_bit 6 b1 AND 0x03)),
      b32_digit base (drop_bit 1 b1 AND 0x1f), b32_digit base (push_bit 4 b1 AND 0x10), pad, pad, pad, pad]"
| "b32_digits base pad [b0, b1, b2] =
     [b32_digit base (drop_bit 3 b0 AND 0x1f), b32_digit base ((push_bit 2 b0 AND 0x1c) OR (drop_bit 6 b1 AND 0x03)),
      b32_digit base (drop_bit 1 b1 AND 0x1f), b32_digit base ((push_bit 4 b1 AND 0x10) OR (drop_bit 4 b2 AND 0x0f)),
      b32_digit base (push_bit 1 b2 AND 0x1e), pad, pad, pad]"
| "b32_digits base pad [b0, b1, b2, b3] =
     [b32_digit base (drop_bit 3 b0 AND 0x1f), b32_digit base ((push_bit 2 b0 AND 0x1c) OR (drop_bit 6 b1 AND 0x03)),
      b32_digit base (drop_bit 1 b1 AND 0x1f), b32_digit base ((push_bit 4 b1 AND 0x10) OR (drop_bit 4 b2 AND 0x0f)),
      b32_digit base ((push_bit 1 b2 AND 0x1e) OR (drop_bit 7 b3 AND 0x01)), b32_digit base (drop_bit 2 b3 AND 0x1f),
      b32_digit base (push_bit 3 b3 AND 0x18), pad]"
| "b32_digits base pad (b0 # b1 # b2 # b3 # b4 # bs) =
     [b32_digit base (drop_bit 3 b0 AND 0x1f), b32_digit base ((push_bit 2 b0 AND 0x1c) OR (drop_bit 6 b1 AND 0x03)),
      b32_digit base (drop_bit 1 b1 AND 0x1f), b32_digit base ((push_bit 4 b1 AND 0x10) OR (drop_bit 4 b2 AND 0x0f)),
      b32_digit base ((push_bit 1 b2 AND 0x1e) OR (drop_bit 7 b3 AND 0x01)), b32_digit base (drop_bit 2 b3 AND 0x1f),
      b32_digit base ((push_bit 3 b3 AND 0x18) OR (drop_bit 5 b4 AND 0x07)), b32_digit base (b4 AND 0x1f)]"
| "b32_digits base pad [] = []"

function base32_totext_loop ::
  "bytes \<Rightarrow> u8 \<Rightarrow> int \<Rightarrow> bytes \<Rightarrow> isc_region \<Rightarrow> nat \<Rightarrow> isc_buffer \<Rightarrow> (isc_result \<times> isc_region \<times> isc_buffer) option" where
  "base32_totext_loop base pad wordlength wordbreak source loops target =
     (if r_length source > 0 then do {
        bs \<leftarrow> fetch (r_base source) 0 (min 5 (r_length source));
        (result, target) \<leftarrow> str_totext (b32_digits base pad bs) target;
        if result \<noteq> ISC_R_SUCCESS then Some (result, source, target)
        else if r_length source < 5 then Some (ISC_R_SUCCESS, source, target)
        else do {
          source' \<leftarrow> isc_region_consume source 5;
          let loops = loops + 1;
          if r_length source' \<noteq> 0 \<and> wordlength \<ge> 0 \<and> as_int ((loops + 1) * 8) \<ge> wordlength then do {
            (result, target) \<leftarrow> str_totext wordbreak target;
            if result \<noteq> ISC_R_SUCCESS then Some (result, source', target)
            else base32_totext_loop base pad wordlength wordbreak source' 0 target
          }
          else base32_totext_loop base pad wordlength wordbreak source' loops target
        }
      }
      else Some (ISC_R_SUCCESS, source, target))"
  by pat_completeness auto
termination by (relation "measure (\<lambda>(base, pad, wl, wb, source, loops, target). r_length source)") (auto simp: isc_region_consume_def split: if_splits)

definition base32_totext ::
  "isc_region \<Rightarrow> int \<Rightarrow> bytes \<Rightarrow> isc_buffer \<Rightarrow> bytes \<Rightarrow> u8 \<Rightarrow> (isc_result \<times> isc_region \<times> isc_buffer) option" where
  "base32_totext source wordlength wordbreak target base pad = do {
     (result, source, target) \<leftarrow>
       base32_totext_loop base pad (if wordlength \<ge> 0 \<and> wordlength < 8 then 8 else wordlength) wordbreak source 0 target;
     if result \<noteq> ISC_R_SUCCESS then Some (result, source, target)
     else if r_length source > 0 then do {
       source \<leftarrow> isc_region_consume source (r_length source);
       Some (ISC_R_SUCCESS, source, target)
     }
     else Some (ISC_R_SUCCESS, source, target)
   }"

definition isc_base32_totext :: "isc_region \<Rightarrow> int \<Rightarrow> bytes \<Rightarrow> isc_buffer \<Rightarrow> (isc_result \<times> isc_region \<times> isc_buffer) option" where
  "isc_base32_totext source wordlength wordbreak target = base32_totext source wordlength wordbreak target base32 0x3d"

definition isc_base32hex_totext :: "isc_region \<Rightarrow> int \<Rightarrow> bytes \<Rightarrow> isc_buffer \<Rightarrow> (isc_result \<times> isc_region \<times> isc_buffer) option" where
  "isc_base32hex_totext source wordlength wordbreak target = base32_totext source wordlength wordbreak target base32hex 0x3d"

definition isc_base32hexnp_totext :: "isc_region \<Rightarrow> int \<Rightarrow> bytes \<Rightarrow> isc_buffer \<Rightarrow> (isc_result \<times> isc_region \<times> isc_buffer) option" where
  "isc_base32hexnp_totext source wordlength wordbreak target = base32_totext source wordlength wordbreak target base32hex 0"

record base32_decode_ctx =
  d32_length :: int
  d32_target :: isc_buffer
  d32_seen_end :: bool
  d32_val :: bytes
  d32_base :: bytes
  d32_seen_32 :: nat
  d32_pad :: bool

definition base32_decode_init :: "int \<Rightarrow> bytes \<Rightarrow> isc_buffer \<Rightarrow> bool \<Rightarrow> base32_decode_ctx" where
  "base32_decode_init len base target pad =
     \<lparr>d32_length = len, d32_target = target, d32_seen_end = False, d32_val = [], d32_base = base, d32_seen_32 = 0, d32_pad = pad\<rparr>"

text \<open>Where padding may start: \<open>None\<close> is an error, \<open>Some n\<close> that the group stands for \<open>n\<close> octets.\<close>

definition b32_padding :: "bytes \<Rightarrow> nat option" where
  "b32_padding val =
     (case length val of
        Suc (Suc 0) \<Rightarrow> if val ! 1 AND 0x03 \<noteq> 0 then None else Some 1
      | Suc (Suc (Suc (Suc 0))) \<Rightarrow> if val ! 3 AND 0x0f \<noteq> 0 then None else Some 2
      | Suc (Suc (Suc (Suc (Suc 0)))) \<Rightarrow> if val ! 4 AND 0x01 \<noteq> 0 then None else Some 3
      | Suc (Suc (Suc (Suc (Suc (Suc (Suc 0)))))) \<Rightarrow> if val ! 6 AND 0x07 \<noteq> 0 then None else Some 4
      | _ \<Rightarrow> None)"

definition b32_group :: "base32_decode_ctx \<Rightarrow> (isc_result \<times> base32_decode_ctx) option" where
  "b32_group ctx =
     (case d32_val ctx of
        [v0, v1, v2, v3, v4, v5, v6, v7] \<Rightarrow> do {
          let n = (if d32_seen_32 ctx \<noteq> 0 then d32_seen_32 ctx else 5);
          let ctx = (if d32_seen_32 ctx \<noteq> 0 then ctx\<lparr>d32_seen_end := True\<rparr> else ctx);
          let buf = [push_bit 3 v0 OR drop_bit 2 v1, push_bit 6 v1 OR push_bit 1 v2 OR drop_bit 4 v3,
            push_bit 4 v3 OR drop_bit 1 v4, push_bit 7 v4 OR push_bit 2 v5 OR drop_bit 3 v6, push_bit 5 v6 OR v7];
          (result, target) \<leftarrow> mem_tobuffer (d32_target ctx) (take n buf);
          let ctx = ctx\<lparr>d32_target := target\<rparr>;
          if result \<noteq> ISC_R_SUCCESS then Some (result, ctx)
          else if d32_length ctx \<ge> 0 \<and> int n > d32_length ctx then Some (ISC_R_BADBASE32, ctx)
          else Some (ISC_R_SUCCESS, ctx\<lparr>d32_length := (if d32_length ctx \<ge> 0 then d32_length ctx - int n else d32_length ctx), d32_val := []\<rparr>)
        }
      | _ \<Rightarrow> Some (ISC_R_SUCCESS, ctx))"

definition base32_decode_char :: "base32_decode_ctx \<Rightarrow> u8 \<Rightarrow> (isc_result \<times> base32_decode_ctx) option" where
  "base32_decode_char ctx c =
     (if d32_seen_end ctx then Some (ISC_R_BADBASE32, ctx)
      else case strchr (d32_base ctx) c of
        None \<Rightarrow> Some (ISC_R_BADBASE32, ctx)
      | Some s \<Rightarrow> do {
          let last = (if s > 32 then s - 33 else s);
          if last \<noteq> 32 \<and> d32_seen_32 ctx \<noteq> 0 then Some (ISC_R_BADBASE32, ctx)
          else if last = 32 \<and> \<not> d32_pad ctx then Some (ISC_R_BADBASE32, ctx)
          else if last = 32 \<and> d32_seen_32 ctx = 0 \<and> b32_padding (d32_val ctx) = None then Some (ISC_R_BADBASE32, ctx)
          else do {
            REQUIRE (length (d32_val ctx) < 8);
            let ctx = (if last = 32 \<and> d32_seen_32 ctx = 0 then ctx\<lparr>d32_seen_32 := the (b32_padding (d32_val ctx))\<rparr> else ctx);
            b32_group (ctx\<lparr>d32_val := d32_val ctx @ [if last = 32 then 0 else of_nat last]\<rparr>)
          }
        })"

text \<open>The padding that is added to a text without: at most eight characters.\<close>

fun b32_fill :: "nat \<Rightarrow> base32_decode_ctx \<Rightarrow> (isc_result \<times> base32_decode_ctx) option" where
  "b32_fill 0 ctx = None"
| "b32_fill (Suc fuel) ctx = do {
     (result, ctx) \<leftarrow> base32_decode_char ctx 0x3d;
     if result \<noteq> ISC_R_SUCCESS then Some (result, ctx)
     else if d32_val ctx \<noteq> [] then b32_fill fuel ctx
     else Some (ISC_R_SUCCESS, ctx)
   }"

definition base32_decode_finish :: "base32_decode_ctx \<Rightarrow> (isc_result \<times> base32_decode_ctx) option" where
  "base32_decode_finish ctx =
     (if d32_length ctx > 0 then Some (ISC_R_UNEXPECTEDEND, ctx)
      else do {
        (result, ctx) \<leftarrow> (if \<not> d32_pad ctx \<and> d32_val ctx \<noteq> [] then b32_fill 8 (ctx\<lparr>d32_pad := True\<rparr>) else Some (ISC_R_SUCCESS, ctx));
        if result \<noteq> ISC_R_SUCCESS then Some (result, ctx)
        else if d32_val ctx \<noteq> [] then Some (ISC_R_BADBASE32, ctx)
        else Some (ISC_R_SUCCESS, ctx)
      })"

definition base32_decodestring :: "bytes \<Rightarrow> bytes \<Rightarrow> bool \<Rightarrow> isc_buffer \<Rightarrow> (isc_result \<times> isc_buffer) option" where
  "base32_decodestring cstr base pad target = do {
     (result, ctx) \<leftarrow> feed_string base32_decode_char (base32_decode_init (-1) base target pad) cstr;
     if result \<noteq> ISC_R_SUCCESS then Some (result, d32_target ctx)
     else do { (result, ctx) \<leftarrow> base32_decode_finish ctx; Some (result, d32_target ctx) }
   }"

definition isc_base32_decodestring :: "bytes \<Rightarrow> isc_buffer \<Rightarrow> (isc_result \<times> isc_buffer) option" where
  "isc_base32_decodestring cstr target = base32_decodestring cstr base32 True target"

definition isc_base32hex_decodestring :: "bytes \<Rightarrow> isc_buffer \<Rightarrow> (isc_result \<times> isc_buffer) option" where
  "isc_base32hex_decodestring cstr target = base32_decodestring cstr base32hex True target"

definition isc_base32hexnp_decodestring :: "bytes \<Rightarrow> isc_buffer \<Rightarrow> (isc_result \<times> isc_buffer) option" where
  "isc_base32hexnp_decodestring cstr target = base32_decodestring cstr base32hex False target"

text \<open>A region, whose octets need not be those of a string.\<close>

definition base32_decoderegion :: "isc_region \<Rightarrow> bytes \<Rightarrow> bool \<Rightarrow> isc_buffer \<Rightarrow> (isc_result \<times> isc_buffer) option" where
  "base32_decoderegion source base pad target = do {
     cs \<leftarrow> fetch (r_base source) 0 (r_length source);
     (result, ctx) \<leftarrow> feed base32_decode_char (base32_decode_init (-1) base target pad) cs;
     if result \<noteq> ISC_R_SUCCESS then Some (result, d32_target ctx)
     else do { (result, ctx) \<leftarrow> base32_decode_finish ctx; Some (result, d32_target ctx) }
   }"

definition isc_base32_decoderegion :: "isc_region \<Rightarrow> isc_buffer \<Rightarrow> (isc_result \<times> isc_buffer) option" where
  "isc_base32_decoderegion source target = base32_decoderegion source base32 True target"

definition isc_base32hex_decoderegion :: "isc_region \<Rightarrow> isc_buffer \<Rightarrow> (isc_result \<times> isc_buffer) option" where
  "isc_base32hex_decoderegion source target = base32_decoderegion source base32hex True target"

definition isc_base32hexnp_decoderegion :: "isc_region \<Rightarrow> isc_buffer \<Rightarrow> (isc_result \<times> isc_buffer) option" where
  "isc_base32hexnp_decoderegion source target = base32_decoderegion source base32hex False target"

section \<open>Appending to a buffer\<close>

definition grown :: "isc_buffer \<Rightarrow> bytes \<Rightarrow> isc_buffer" where
  "grown b xs = b\<lparr>b_base := take (b_used b) (b_base b) @ xs @ drop (b_used b + length xs) (b_base b), b_used := b_used b + length xs\<rparr>"

lemma grown_Nil [simp]: "grown b [] = b"
  by (simp add: grown_def)

lemma grown_ok [simp]: "buf_ok b \<Longrightarrow> length xs \<le> buf_room b \<Longrightarrow> buf_ok (grown b xs)"
  by (auto simp: buf_ok_def grown_def ISC_BUFFER_VALID_def buf_room_def)

lemma grown_room [simp]: "buf_room (grown b xs) = buf_room b - length xs"
  by (simp add: buf_room_def grown_def)

lemma grown_content [simp]: "buf_ok b \<Longrightarrow> length xs \<le> buf_room b \<Longrightarrow> buf_content (grown b xs) = buf_content b @ xs"
  by (simp add: buf_content_def grown_def buf_ok_def buf_room_def)

lemma grown_used [simp]: "b_used (grown b xs) = b_used b + length xs"
  by (simp add: grown_def)

lemma grown_grown [simp]: "buf_ok b \<Longrightarrow> length xs \<le> buf_room b \<Longrightarrow> grown (grown b xs) ys = grown b (xs @ ys)"
  by (simp add: grown_def buf_ok_def buf_room_def ac_simps)

lemma mem_tobuffer_eq:
  assumes "buf_ok b"
  shows "mem_tobuffer b xs = Some (if length xs \<le> buf_room b then (ISC_R_SUCCESS, grown b xs) else (ISC_R_NOSPACE, b))"
proof (cases "length xs \<le> buf_room b")
  case True
  have le: "b_used b + length xs \<le> b_length b" using True buf_okD(4) [OF assms] by (simp add: buf_room_def)
  then have "(b_used b + length xs) mod 2 ^ 32 = b_used b + length xs" using buf_okD(3) [OF assms] by simp
  then show ?thesis using True assms le buf_okD(1,2) [OF assms]
    by (simp add: mem_tobuffer_def isc_buffer_availableregion_def isc_buffer_add_def grown_def uadd_def ISC_BUFFER_VALID_def)
next
  case False
  then show ?thesis using assms by (simp add: mem_tobuffer_def isc_buffer_availableregion_def buf_okD(1))
qed

lemma no_null: "0 \<notin> set xs \<Longrightarrow> takeWhile (\<lambda>c. c \<noteq> 0) xs = xs"
  by (induction xs) auto

lemma str_totext_eq:
  "buf_ok b \<Longrightarrow> 0 \<notin> set xs \<Longrightarrow>
   str_totext xs b = Some (if length xs \<le> buf_room b then (ISC_R_SUCCESS, grown b xs) else (ISC_R_NOSPACE, b))"
  by (simp add: str_totext_def mem_tobuffer_eq no_null)

section \<open>Codes that work in groups\<close>

text \<open>
  The text of \<open>xs\<close> where each group of \<open>k\<close> octets has the digits \<open>digits\<close>, with the break \<open>wb\<close> between two groups when \<open>brk\<close> says so of the number of
  groups since the last break.
\<close>

function code_text :: "nat \<Rightarrow> (bytes \<Rightarrow> bytes) \<Rightarrow> (nat \<Rightarrow> bool) \<Rightarrow> bytes \<Rightarrow> nat \<Rightarrow> bytes \<Rightarrow> bytes" where
  "code_text k digits brk wb loops xs =
     (if xs = [] \<or> k = 0 then []
      else if length xs \<le> k then digits xs
      else digits (take k xs) @
        (if brk (Suc loops) then wb @ code_text k digits brk wb 0 (drop k xs) else code_text k digits brk wb (Suc loops) (drop k xs)))"
  by pat_completeness auto
termination by (relation "measure (\<lambda>(k, d, brk, wb, loops, xs). length xs)") auto

declare code_text.simps [simp del]

lemma code_text_simps:
  "code_text k digits brk wb loops [] = []"
  "xs \<noteq> [] \<Longrightarrow> length xs \<le> k \<Longrightarrow> code_text k digits brk wb loops xs = digits xs"
  "0 < k \<Longrightarrow> k < length xs \<Longrightarrow> code_text k digits brk wb loops xs =
     digits (take k xs) @ (if brk (Suc loops) then wb @ code_text k digits brk wb 0 (drop k xs) else code_text k digits brk wb (Suc loops) (drop k xs))"
  by (auto simp: code_text.simps [of k digits brk wb loops])

lemma feed_string_plain:
  assumes "\<And>c. c \<in> set cs \<Longrightarrow> c \<noteq> 0 \<and> \<not> is_blank c"
  shows "feed_string step ctx (cs @ ds) =
    (case feed step ctx cs of None \<Rightarrow> None | Some (r, ctx) \<Rightarrow> if r = ISC_R_SUCCESS then feed_string step ctx ds else Some (r, ctx))"
  using assms by (induction cs arbitrary: ctx) (auto split: option.split prod.split bind_split)

lemma feed_string_blank: "(\<And>c. c \<in> set cs \<Longrightarrow> is_blank c) \<Longrightarrow> feed_string step ctx (cs @ ds) = feed_string step ctx ds"
proof (induction cs)
  case (Cons c cs)
  have "is_blank c" using Cons.prems by simp
  then have "c \<noteq> 0 \<and> is_blank c" by (auto simp: is_blank_def)
  then show ?case using Cons by simp
qed simp

text \<open>A decoder for such a code: \<open>ready t\<close> is its state before a group, when \<open>t\<close> holds what was decoded before.\<close>

locale text_codec =
  fixes k :: nat and digits :: "bytes \<Rightarrow> bytes"
    and step :: "'c \<Rightarrow> u8 \<Rightarrow> (isc_result \<times> 'c) option" and ready :: "isc_buffer \<Rightarrow> 'c" and finish :: "'c \<Rightarrow> (isc_result \<times> isc_buffer) option"
  assumes group: "0 < k"
    and plain: "0 < length xs \<Longrightarrow> length xs \<le> k \<Longrightarrow> c \<in> set (digits xs) \<Longrightarrow> c \<noteq> 0 \<and> \<not> is_blank c"
    and full: "length xs = k \<Longrightarrow> buf_ok t \<Longrightarrow> k \<le> buf_room t \<Longrightarrow> feed step (ready t) (digits xs) = Some (ISC_R_SUCCESS, ready (grown t xs))"
    and part: "0 < length xs \<Longrightarrow> length xs < k \<Longrightarrow> buf_ok t \<Longrightarrow> length xs \<le> buf_room t \<Longrightarrow>
      \<exists>ctx. feed step (ready t) (digits xs) = Some (ISC_R_SUCCESS, ctx) \<and> finish ctx = Some (ISC_R_SUCCESS, grown t xs)"
    and finish_ready: "finish (ready t) = Some (ISC_R_SUCCESS, t)"
begin

lemma decode_text:
  assumes "buf_ok t" "length xs \<le> buf_room t" "\<And>c. c \<in> set wb \<Longrightarrow> is_blank c"
  shows "\<exists>ctx. feed_string step (ready t) (code_text k digits brk wb loops xs @ 0 # ds) = Some (ISC_R_SUCCESS, ctx) \<and> finish ctx = Some (ISC_R_SUCCESS, grown t xs)"
  using assms(1,2)
proof (induction "length xs" arbitrary: xs t loops rule: less_induct)
  case less
  consider "xs = []" | "xs \<noteq> []" "length xs < k" | "length xs = k" | "k < length xs" by linarith
  then show ?case
  proof cases
    case 1
    then show ?thesis by (simp add: code_text_simps finish_ready)
  next
    case 2
    obtain ctx where "feed step (ready t) (digits xs) = Some (ISC_R_SUCCESS, ctx)" "finish ctx = Some (ISC_R_SUCCESS, grown t xs)"
      using part [of xs t] 2 less.prems by auto
    then show ?thesis using 2 plain [of xs] by (simp add: code_text_simps feed_string_plain)
  next
    case 3
    then have ne: "xs \<noteq> []" using group by auto
    have p: "c \<noteq> 0 \<and> \<not> is_blank c" if "c \<in> set (digits xs)" for c using plain [of xs c] that 3 group by simp
    show ?thesis using ne 3 full [OF 3] less.prems by (simp add: code_text_simps feed_string_plain [OF p] finish_ready)
  next
    case 4
    let ?t = "grown t (take k xs)"
    have f: "feed step (ready t) (digits (take k xs)) = Some (ISC_R_SUCCESS, ready ?t)" using full [of "take k xs" t] 4 less.prems by simp
    have ih: "\<exists>ctx. feed_string step (ready ?t) (code_text k digits brk wb l (drop k xs) @ 0 # ds) = Some (ISC_R_SUCCESS, ctx) \<and>
        finish ctx = Some (ISC_R_SUCCESS, grown t xs)" for l
      using less.hyps [of "drop k xs" ?t l] group 4 less.prems by simp
    have p: "c \<noteq> 0 \<and> \<not> is_blank c" if "c \<in> set (digits (take k xs))" for c using plain [of "take k xs" c] that 4 group by simp
    show ?thesis using ih [of 0] ih [of "Suc loops"] f assms(3) 4 group
      by (simp add: code_text_simps feed_string_plain [OF p] feed_string_blank)
  qed
qed

end

section \<open>Looking up digits\<close>

lemma strchr_nth:
  assumes "j < n" "n \<le> length ds" "distinct (take n ds)"
  shows "strchr ds (ds ! j) = Some j"
  using assms
proof (induction ds arbitrary: j n)
  case (Cons d ds)
  show ?case
  proof (cases j)
    case (Suc i)
    obtain m where m: "n = Suc m" using Cons.prems(1) by (cases n) auto
    have "ds ! i \<in> set (take m ds)" using Cons.prems m Suc by (auto simp: in_set_conv_nth intro!: exI [of _ i])
    then have "ds ! i \<noteq> d" using Cons.prems m by auto
    then show ?thesis using Cons.IH [of i m] Cons.prems m Suc by simp
  qed simp
qed simp

lemma base64_table: "length base64 = 65" "distinct base64" "0 \<notin> set base64" "base64 ! 64 = 0x3d" "\<forall>c\<in>set base64. \<not> is_blank c"
  by code_simp+

lemma base32_table:
  "length base32 = 65" "distinct (take 33 base32)" "0 \<notin> set base32" "base32 ! 32 = 0x3d" "\<forall>c\<in>set base32. \<not> is_blank c"
  "length base32hex = 65" "distinct (take 33 base32hex)" "0 \<notin> set base32hex" "base32hex ! 32 = 0x3d" "\<forall>c\<in>set base32hex. \<not> is_blank c"
  by code_simp+

lemma octet_unat: "of_nat (unat (i :: u8)) = i"
  by simp

lemma base64_lookup: "i < 64 \<Longrightarrow> strchr base64 (b64_digit i) = Some (unat i)"
  unfolding b64_digit_def by (rule strchr_nth [where n = 65]) (simp_all add: base64_table word_less_nat_alt)

lemma base64_lookup_pad: "strchr base64 0x3d = Some 64"
  using strchr_nth [of 64 65 base64] by (simp add: base64_table)

text \<open>The digits of a group determine its octets.\<close>

lemma octet_eqI: "(\<And>n. n < 8 \<Longrightarrow> bit (a :: u8) n = bit b n) \<Longrightarrow> a = b"
  by (rule bit_word_eqI) simp

lemma less8: "(n :: nat) < 8 \<longleftrightarrow> n = 0 \<or> n = 1 \<or> n = 2 \<or> n = 3 \<or> n = 4 \<or> n = 5 \<or> n = 6 \<or> n = 7"
  by linarith

lemma bit_twice: "bit (x * 2 :: u8) n \<longleftrightarrow> 0 < n \<and> n < 8 \<and> bit x (n - 1)"
proof -
  have "x * 2 = push_bit 1 x" by (simp add: push_bit_eq_mult)
  then show ?thesis by (simp only: bit_push_bit_iff) auto
qed

lemma octet_bits: "bit (a :: u8) 0 = bit b 0 \<Longrightarrow> bit a 1 = bit b 1 \<Longrightarrow> bit a 2 = bit b 2 \<Longrightarrow> bit a 3 = bit b 3 \<Longrightarrow>
  bit a 4 = bit b 4 \<Longrightarrow> bit a 5 = bit b 5 \<Longrightarrow> bit a 6 = bit b 6 \<Longrightarrow> bit a 7 = bit b 7 \<Longrightarrow> a = b"
  by (rule octet_eqI) (auto simp: less8)

lemma b64_bits:
  fixes b0 b1 b2 :: u8
  shows "push_bit 2 (drop_bit 2 b0 AND 0x3f) OR drop_bit 4 ((push_bit 4 b0 AND 0x30) OR (drop_bit 4 b1 AND 0x0f)) = b0"
    "push_bit 4 ((push_bit 4 b0 AND 0x30) OR (drop_bit 4 b1 AND 0x0f)) OR drop_bit 2 ((push_bit 2 b1 AND 0x3c) OR (drop_bit 6 b2 AND 0x03)) = b1"
    "push_bit 6 ((push_bit 2 b1 AND 0x3c) OR (drop_bit 6 b2 AND 0x03)) OR (b2 AND 0x3f) = b2"
    "push_bit 4 ((push_bit 4 b0 AND 0x30) OR (drop_bit 4 b1 AND 0x0f)) OR drop_bit 2 (push_bit 2 b1 AND 0x3c) = b1"
    "push_bit 2 (drop_bit 2 b0 AND 0x3f) OR drop_bit 4 (push_bit 4 b0 AND 0x30) = b0"
  by (rule octet_bits; simp add: bit_simps bit_twice numeral_2_eq_2 [symmetric])+

lemma masked_less: "(i :: u8) AND m = i \<Longrightarrow> m < n \<Longrightarrow> i < n"
  using word_and_le1 [of i m] by simp

lemma b64_index:
  fixes b0 b1 b2 :: u8
  shows "drop_bit 2 b0 AND 0x3f < 64" "(push_bit 4 b0 AND 0x30) OR (drop_bit 4 b1 AND 0x0f) < 64" "(push_bit 2 b1 AND 0x3c) OR (drop_bit 6 b2 AND 0x03) < 64"
    "b2 AND 0x3f < 64" "push_bit 2 b1 AND 0x3c < 64" "push_bit 4 b0 AND 0x30 < 64"
  by (rule masked_less [where m = "0x3f"]; (rule octet_eqI)?; auto simp: less8 bit_simps)+

abbreviation b64_digits :: "bytes \<Rightarrow> bytes" where
  "b64_digits xs \<equiv> (case xs of [b0] \<Rightarrow> b64_digits1 b0 | [b0, b1] \<Rightarrow> b64_digits2 b0 b1 | b0 # b1 # b2 # _ \<Rightarrow> b64_digits3 b0 b1 b2 | [] \<Rightarrow> [])"

lemma b64_digit_plain: "i < 64 \<Longrightarrow> b64_digit i \<noteq> 0 \<and> \<not> is_blank (b64_digit i)"
proof -
  assume "i < 64"
  then have "b64_digit i \<in> set base64" unfolding b64_digit_def by (intro nth_mem) (simp add: base64_table word_less_nat_alt)
  then show ?thesis using base64_table(3,5) by metis
qed

lemma b64_char:
  assumes "\<not> d64_seen_end ctx" "length (d64_val ctx) < 3"
  shows "i < 64 \<Longrightarrow> base64_decode_char ctx (b64_digit i) = Some (ISC_R_SUCCESS, ctx\<lparr>d64_val := d64_val ctx @ [i]\<rparr>)"
    "base64_decode_char ctx 0x3d = Some (ISC_R_SUCCESS, ctx\<lparr>d64_val := d64_val ctx @ [64]\<rparr>)"
proof -
  have "d64_val ctx = [] \<or> (\<exists>a. d64_val ctx = [a]) \<or> (\<exists>a b. d64_val ctx = [a, b])"
    using assms(2) by (auto simp: numeral_3_eq_3 less_Suc_eq length_Suc_conv)
  then show "i < 64 \<Longrightarrow> base64_decode_char ctx (b64_digit i) = Some (ISC_R_SUCCESS, ctx\<lparr>d64_val := d64_val ctx @ [i]\<rparr>)"
    "base64_decode_char ctx 0x3d = Some (ISC_R_SUCCESS, ctx\<lparr>d64_val := d64_val ctx @ [64]\<rparr>)"
    using assms(1) by (auto simp: base64_decode_char_def base64_lookup base64_lookup_pad)
qed

lemma b64_last:
  assumes "\<not> d64_seen_end ctx" "d64_val ctx = [v0, v1, v2]"
  shows "i < 64 \<Longrightarrow> base64_decode_char ctx (b64_digit i) = b64_group (ctx\<lparr>d64_val := [v0, v1, v2, i]\<rparr>) v0 v1 v2 i"
    "base64_decode_char ctx 0x3d = b64_group (ctx\<lparr>d64_val := [v0, v1, v2, 64]\<rparr>) v0 v1 v2 64"
  using assms by (auto simp: base64_decode_char_def base64_lookup base64_lookup_pad)

definition b64_ready :: "isc_buffer \<Rightarrow> base64_decode_ctx" where "b64_ready t = base64_decode_init (-1) t"

definition b64_finish :: "base64_decode_ctx \<Rightarrow> (isc_result \<times> isc_buffer) option" where
  "b64_finish ctx = Some (base64_decode_finish ctx, d64_target ctx)"

lemma less64_neq: "i < 64 \<Longrightarrow> i \<noteq> (64 :: u8)" by auto

lemma b64_feed_digits:
  assumes "buf_ok t" "v0 < 64" "v1 < 64"
  shows "v2 < 64 \<Longrightarrow> v3 < 64 \<Longrightarrow> 3 \<le> buf_room t \<Longrightarrow> feed base64_decode_char (b64_ready t) [b64_digit v0, b64_digit v1, b64_digit v2, b64_digit v3] =
      Some (ISC_R_SUCCESS, b64_ready (grown t [push_bit 2 v0 OR drop_bit 4 v1, push_bit 4 v1 OR drop_bit 2 v2, push_bit 6 v2 OR v3]))"
    "v2 < 64 \<Longrightarrow> v2 AND 3 = 0 \<Longrightarrow> 2 \<le> buf_room t \<Longrightarrow> \<exists>ctx. feed base64_decode_char (b64_ready t) [b64_digit v0, b64_digit v1, b64_digit v2, 0x3d] =
      Some (ISC_R_SUCCESS, ctx) \<and> b64_finish ctx = Some (ISC_R_SUCCESS, grown t [push_bit 2 v0 OR drop_bit 4 v1, push_bit 4 v1 OR drop_bit 2 v2])"
    "v1 AND 0xf = 0 \<Longrightarrow> 1 \<le> buf_room t \<Longrightarrow> \<exists>ctx. feed base64_decode_char (b64_ready t) [b64_digit v0, b64_digit v1, 0x3d, 0x3d] =
      Some (ISC_R_SUCCESS, ctx) \<and> b64_finish ctx = Some (ISC_R_SUCCESS, grown t [push_bit 2 v0 OR drop_bit 4 v1])"
  using assms by (simp_all add: b64_char b64_last b64_ready_def base64_decode_init_def b64_group_def less64_neq mem_tobuffer_eq
        b64_finish_def base64_decode_finish_def)

lemma b64_zero_bits: "(push_bit 2 b1 AND 0x3c :: u8) AND 3 = 0" "(push_bit 4 b0 AND 0x30 :: u8) AND 0xf = 0"
  by (rule octet_eqI; auto simp: less8 bit_simps)+

lemma b64_feed:
  assumes "buf_ok t"
  shows "3 \<le> buf_room t \<Longrightarrow> feed base64_decode_char (b64_ready t) (b64_digits3 b0 b1 b2) = Some (ISC_R_SUCCESS, b64_ready (grown t [b0, b1, b2]))"
    "2 \<le> buf_room t \<Longrightarrow> \<exists>ctx. feed base64_decode_char (b64_ready t) (b64_digits2 b0 b1) = Some (ISC_R_SUCCESS, ctx) \<and> b64_finish ctx = Some (ISC_R_SUCCESS, grown t [b0, b1])"
    "1 \<le> buf_room t \<Longrightarrow> \<exists>ctx. feed base64_decode_char (b64_ready t) (b64_digits1 b0) = Some (ISC_R_SUCCESS, ctx) \<and> b64_finish ctx = Some (ISC_R_SUCCESS, grown t [b0])"
  using b64_feed_digits(1) [OF assms b64_index(1) [of b0] b64_index(2) [of b0 b1] b64_index(3) [of b1 b2] b64_index(4) [of b2]]
    b64_feed_digits(2) [OF assms b64_index(1) [of b0] b64_index(2) [of b0 b1] b64_index(5) [of b1] b64_zero_bits(1)]
    b64_feed_digits(3) [OF assms b64_index(1) [of b0] b64_index(6) [of b0] b64_zero_bits(2)]
  unfolding b64_bits b64_digits1_def b64_digits2_def b64_digits3_def by blast+

lemma short_list: "xs \<noteq> [] \<Longrightarrow> length xs \<le> 3 \<Longrightarrow> (\<exists>a. xs = [a]) \<or> (\<exists>a b. xs = [a, b]) \<or> (\<exists>a b c. xs = [a, b, c])"
  by (cases xs rule: remdups_adj.cases) (auto simp: le_Suc_eq length_Suc_conv numeral_3_eq_3)

interpretation base64: text_codec 3 b64_digits base64_decode_char b64_ready b64_finish
proof unfold_locales
  show "0 < (3 :: nat)" by simp
next
  fix xs :: bytes and c :: u8
  assume "0 < length xs" "length xs \<le> 3" "c \<in> set (b64_digits xs)"
  moreover have "\<not> is_blank 0x3d" by (simp add: is_blank_def)
  ultimately show "c \<noteq> 0 \<and> \<not> is_blank c"
    using short_list [of xs] by (auto simp: b64_digits1_def b64_digits2_def b64_digits3_def b64_digit_plain b64_index)
next
  fix xs :: bytes and t
  assume "length xs = 3" "buf_ok t" "3 \<le> buf_room t"
  then show "feed base64_decode_char (b64_ready t) (b64_digits xs) = Some (ISC_R_SUCCESS, b64_ready (grown t xs))"
    by (auto simp: numeral_3_eq_3 length_Suc_conv b64_feed)
next
  fix xs :: bytes and t
  assume a: "0 < length xs" "length xs < 3" "buf_ok t" "length xs \<le> buf_room t"
  then consider b0 where "xs = [b0]" | b0 b1 where "xs = [b0, b1]" using short_list [of xs] by auto
  then show "\<exists>ctx. feed base64_decode_char (b64_ready t) (b64_digits xs) = Some (ISC_R_SUCCESS, ctx) \<and> b64_finish ctx = Some (ISC_R_SUCCESS, grown t xs)"
    using a b64_feed(2,3) [of t] by cases simp_all
next
  fix t
  show "b64_finish (b64_ready t) = Some (ISC_R_SUCCESS, t)" by (simp add: b64_finish_def b64_ready_def base64_decode_init_def base64_decode_finish_def)
qed

section \<open>Hexadecimal and base 32\<close>

lemma hex_table: "\<forall>j\<in>set [0..<16]. hex_digits ! j \<noteq> 0 \<and> \<not> is_blank (hex_digits ! j) \<and> isc_hex_char (hex_digits ! j) \<noteq> 0 \<and> hex_digits ! j - isc_hex_char (hex_digits ! j) = of_nat j"
  by code_simp

lemma hex_lookup:
  assumes "i < 16"
  shows "hex_digits ! unat i \<noteq> 0" "\<not> is_blank (hex_digits ! unat i)" "isc_hex_char (hex_digits ! unat i) \<noteq> 0"
    "hex_digits ! unat i - isc_hex_char (hex_digits ! unat i) = (i :: u8)"
  using hex_table assms by (auto simp: word_less_nat_alt)

lemma hex_index: "drop_bit 4 (b :: u8) AND 0xf < 16" "(b :: u8) AND 0xf < 16"
  by (rule masked_less [where m = "0xf"]; (rule octet_eqI)?; auto simp: less8 bit_simps)+

lemma hex_bits: "push_bit 4 (drop_bit 4 b AND 0xf) + (b AND 0xf) = (b :: u8)"
proof -
  have "push_bit 4 (drop_bit 4 b AND 0xf) + (b AND 0xf) = push_bit 4 (drop_bit 4 b AND 0xf) OR (b AND 0xf)"
    by (rule disjunctive_add_eq_or, rule octet_eqI) (auto simp: less8 bit_simps)
  also have "\<dots> = b" by (rule octet_eqI) (auto simp: less8 bit_simps)
  finally show ?thesis .
qed

definition hex_ready :: "isc_buffer \<Rightarrow> hex_decode_ctx" where "hex_ready t = hex_decode_init (-1) t"

definition hex_finish :: "hex_decode_ctx \<Rightarrow> (isc_result \<times> isc_buffer) option" where
  "hex_finish ctx = Some (hex_decode_finish ctx, dh_target ctx)"

lemma hex_feed_digits:
  assumes "buf_ok t" "1 \<le> buf_room t" "v0 < 16" "v1 < 16"
  shows "feed hex_decode_char (hex_ready t) [hex_digits ! unat v0, hex_digits ! unat v1] = Some (ISC_R_SUCCESS, hex_ready (grown t [push_bit 4 v0 + v1]))"
  using assms hex_lookup(3,4) [of v0] hex_lookup(3,4) [of v1] by (simp add: hex_decode_char_def hex_ready_def hex_decode_init_def mem_tobuffer_eq)

interpretation hex: text_codec 1 "\<lambda>xs. hex_octet (hd xs)" hex_decode_char hex_ready hex_finish
proof unfold_locales
  show "0 < (1 :: nat)" by simp
next
  fix xs :: bytes and c :: u8
  assume "c \<in> set (hex_octet (hd xs))"
  then show "c \<noteq> 0 \<and> \<not> is_blank c" using hex_lookup(1,2) hex_index by (auto simp: hex_octet_def)
next
  fix xs :: bytes and t
  assume "length xs = 1" "buf_ok t" "1 \<le> buf_room t"
  moreover from this obtain b where "xs = [b]" by (auto simp: length_Suc_conv)
  ultimately show "feed hex_decode_char (hex_ready t) (hex_octet (hd xs)) = Some (ISC_R_SUCCESS, hex_ready (grown t xs))"
    using hex_feed_digits [of t, OF _ _ hex_index(1) [of b] hex_index(2) [of b]] unfolding hex_bits by (simp add: hex_octet_def del: feed.simps)
next
  fix xs :: bytes and t
  assume "0 < length xs" "length xs < 1"
  then show "\<exists>ctx. feed hex_decode_char (hex_ready t) (hex_octet (hd xs)) = Some (ISC_R_SUCCESS, ctx) \<and> hex_finish ctx = Some (ISC_R_SUCCESS, grown t xs)" by simp
next
  fix t
  show "hex_finish (hex_ready t) = Some (ISC_R_SUCCESS, t)" by (simp add: hex_finish_def hex_ready_def hex_decode_init_def hex_decode_finish_def)
qed

definition good_base :: "bytes \<Rightarrow> bool" where
  "good_base base \<longleftrightarrow> length base = 65 \<and> distinct (take 33 base) \<and> 0 \<notin> set base \<and> base ! 32 = 0x3d \<and> (\<forall>c\<in>set base. \<not> is_blank c)"

lemma good_bases [simp]: "good_base base32" "good_base base32hex"
  by (simp_all add: good_base_def base32_table)

lemma base32_lookup: "good_base base \<Longrightarrow> i < 32 \<Longrightarrow> strchr base (b32_digit base i) = Some (unat i)" "good_base base \<Longrightarrow> strchr base 0x3d = Some 32"
  using strchr_nth [of "unat i" 33 base] strchr_nth [of 32 33 base] by (auto simp: good_base_def b32_digit_def word_less_nat_alt)

lemma b32_digit_plain: "good_base base \<Longrightarrow> i < 32 \<Longrightarrow> b32_digit base i \<noteq> 0 \<and> \<not> is_blank (b32_digit base i)"
proof -
  assume "i < 32" and g: "good_base base"
  then have "b32_digit base i \<in> set base" unfolding b32_digit_def by (intro nth_mem) (simp add: good_base_def word_less_nat_alt)
  then show ?thesis using g unfolding good_base_def by metis
qed

lemma b32_open: "length (d32_val ctx) \<noteq> 8 \<Longrightarrow> b32_group ctx = Some (ISC_R_SUCCESS, ctx)"
  by (auto simp: b32_group_def split: list.split)

lemma b32_char:
  assumes "good_base (d32_base ctx)" "\<not> d32_seen_end ctx" "length (d32_val ctx) < 8"
  shows "d32_seen_32 ctx = 0 \<Longrightarrow> i < 32 \<Longrightarrow> base32_decode_char ctx (b32_digit (d32_base ctx) i) = b32_group (ctx\<lparr>d32_val := d32_val ctx @ [i]\<rparr>)"
    "d32_pad ctx \<Longrightarrow> d32_seen_32 ctx = 0 \<Longrightarrow> b32_padding (d32_val ctx) = Some n \<Longrightarrow>
      base32_decode_char ctx 0x3d = b32_group (ctx\<lparr>d32_seen_32 := n, d32_val := d32_val ctx @ [0]\<rparr>)"
    "d32_pad ctx \<Longrightarrow> d32_seen_32 ctx \<noteq> 0 \<Longrightarrow> base32_decode_char ctx 0x3d = b32_group (ctx\<lparr>d32_val := d32_val ctx @ [0]\<rparr>)"
  using assms by (auto simp: base32_decode_char_def base32_lookup word_less_nat_alt)

lemma b32_index:
  fixes b0 b1 b2 b3 b4 :: u8
  shows "drop_bit 3 b0 AND 0x1f < 32" "(push_bit 2 b0 AND 0x1c) OR (drop_bit 6 b1 AND 0x03) < 32" "drop_bit 1 b1 AND 0x1f < 32"
    "(push_bit 4 b1 AND 0x10) OR (drop_bit 4 b2 AND 0x0f) < 32" "(push_bit 1 b2 AND 0x1e) OR (drop_bit 7 b3 AND 0x01) < 32" "drop_bit 2 b3 AND 0x1f < 32"
    "(push_bit 3 b3 AND 0x18) OR (drop_bit 5 b4 AND 0x07) < 32" "b4 AND 0x1f < 32"
    "push_bit 2 b0 AND 0x1c < 32" "push_bit 4 b1 AND 0x10 < 32" "push_bit 1 b2 AND 0x1e < 32" "push_bit 3 b3 AND 0x18 < 32"
  by (rule masked_less [where m = "0x1f"]; (rule octet_bits)?; simp add: bit_simps bit_twice)+

lemma b32_bits:
  fixes b0 b1 b2 b3 b4 :: u8
  shows "push_bit 3 (drop_bit 3 b0 AND 0x1f) OR drop_bit 2 ((push_bit 2 b0 AND 0x1c) OR (drop_bit 6 b1 AND 0x03)) = b0"
    "push_bit 6 ((push_bit 2 b0 AND 0x1c) OR (drop_bit 6 b1 AND 0x03)) OR push_bit 1 (drop_bit 1 b1 AND 0x1f) OR drop_bit 4 ((push_bit 4 b1 AND 0x10) OR (drop_bit 4 b2 AND 0x0f)) = b1"
    "push_bit 4 ((push_bit 4 b1 AND 0x10) OR (drop_bit 4 b2 AND 0x0f)) OR drop_bit 1 ((push_bit 1 b2 AND 0x1e) OR (drop_bit 7 b3 AND 0x01)) = b2"
    "push_bit 7 ((push_bit 1 b2 AND 0x1e) OR (drop_bit 7 b3 AND 0x01)) OR push_bit 2 (drop_bit 2 b3 AND 0x1f) OR drop_bit 3 ((push_bit 3 b3 AND 0x18) OR (drop_bit 5 b4 AND 0x07)) = b3"
    "push_bit 5 ((push_bit 3 b3 AND 0x18) OR (drop_bit 5 b4 AND 0x07)) OR (b4 AND 0x1f) = b4"
    "push_bit 3 (drop_bit 3 b0 AND 0x1f) OR drop_bit 2 (push_bit 2 b0 AND 0x1c) = b0"
    "push_bit 6 ((push_bit 2 b0 AND 0x1c) OR (drop_bit 6 b1 AND 0x03)) OR push_bit 1 (drop_bit 1 b1 AND 0x1f) OR drop_bit 4 (push_bit 4 b1 AND 0x10) = b1"
    "push_bit 4 ((push_bit 4 b1 AND 0x10) OR (drop_bit 4 b2 AND 0x0f)) OR drop_bit 1 (push_bit 1 b2 AND 0x1e) = b2"
    "push_bit 7 ((push_bit 1 b2 AND 0x1e) OR (drop_bit 7 b3 AND 0x01)) OR push_bit 2 (drop_bit 2 b3 AND 0x1f) OR drop_bit 3 (push_bit 3 b3 AND 0x18) = b3"
  by (rule octet_bits; simp add: bit_simps bit_twice numeral_2_eq_2 [symmetric])+

lemma b32_zero_bits:
  fixes b0 b1 b2 b3 :: u8
  shows "(push_bit 2 b0 AND 0x1c) AND 3 = 0" "(push_bit 4 b1 AND 0x10) AND 0xf = 0" "(push_bit 1 b2 AND 0x1e) AND 1 = 0" "(push_bit 3 b3 AND 0x18) AND 7 = 0"
  by (rule octet_bits; simp add: bit_simps bit_twice)+

definition b32_ready :: "bytes \<Rightarrow> bool \<Rightarrow> isc_buffer \<Rightarrow> base32_decode_ctx" where "b32_ready base pad t = base32_decode_init (-1) base t pad"

definition b32_finish :: "base32_decode_ctx \<Rightarrow> (isc_result \<times> isc_buffer) option" where
  "b32_finish ctx = do { (result, ctx) \<leftarrow> base32_decode_finish ctx; Some (result, d32_target ctx) }"

text \<open>The first digits of a group, and what the padding, read or added, makes of them.\<close>

lemma b32_feed_digits:
  assumes "good_base base" "\<forall>v\<in>set vs. v < 32" "d32_base ctx = base" "\<not> d32_seen_end ctx" "d32_seen_32 ctx = 0" "length (d32_val ctx) + length vs < 8"
  shows "feed base32_decode_char ctx (map (b32_digit base) vs @ rest) = feed base32_decode_char (ctx\<lparr>d32_val := d32_val ctx @ vs\<rparr>) rest"
  using assms
proof (induction vs arbitrary: ctx)
  case (Cons v vs)
  have "base32_decode_char ctx (b32_digit base v) = Some (ISC_R_SUCCESS, ctx\<lparr>d32_val := d32_val ctx @ [v]\<rparr>)"
    using b32_char(1) [of ctx v] b32_open [of "ctx\<lparr>d32_val := d32_val ctx @ [v]\<rparr>"] Cons.prems by simp
  then show ?case using Cons.IH [of "ctx\<lparr>d32_val := d32_val ctx @ [v]\<rparr>"] Cons.prems by simp
qed simp

text \<open>The octets of a group of digits.\<close>

definition b32_octets :: "bytes \<Rightarrow> bytes" where
  "b32_octets v = [push_bit 3 (v ! 0) OR drop_bit 2 (v ! 1), push_bit 6 (v ! 1) OR push_bit 1 (v ! 2) OR drop_bit 4 (v ! 3),
     push_bit 4 (v ! 3) OR drop_bit 1 (v ! 4), push_bit 7 (v ! 4) OR push_bit 2 (v ! 5) OR drop_bit 3 (v ! 6), push_bit 5 (v ! 6) OR (v ! 7)]"

lemma b32_group_full:
  assumes "length (d32_val ctx) = 8" "buf_ok (d32_target ctx)" "d32_length ctx < 0" "n = (if d32_seen_32 ctx \<noteq> 0 then d32_seen_32 ctx else 5)" "n \<le> 5" "n \<le> buf_room (d32_target ctx)"
  shows "b32_group ctx = Some (ISC_R_SUCCESS, ctx\<lparr>d32_target := grown (d32_target ctx) (take n (b32_octets (d32_val ctx))), d32_seen_end := d32_seen_end ctx \<or> d32_seen_32 ctx \<noteq> 0, d32_val := []\<rparr>)"
proof -
  obtain v0 v1 v2 v3 v4 v5 v6 v7 where v: "d32_val ctx = [v0, v1, v2, v3, v4, v5, v6, v7]"
    using assms(1) by (auto simp: eval_nat_numeral length_Suc_conv)
  have t: "length (take n (b32_octets (d32_val ctx))) \<le> buf_room (d32_target ctx)" using assms(5,6) by (simp add: b32_octets_def)
  show ?thesis using assms(2,3,4) t v by (cases "d32_seen_32 ctx = 0") (simp_all add: b32_group_def b32_octets_def mem_tobuffer_eq Let_def)
qed

lemma b32_padded:
  assumes "good_base (d32_base ctx)" "d32_pad ctx" "\<not> d32_seen_end ctx" "d32_seen_32 ctx = n" "n \<noteq> 0" "n < 5" "d32_length ctx < 0"
    "buf_ok (d32_target ctx)" "n \<le> buf_room (d32_target ctx)" "length (d32_val ctx) + Suc m = 8"
  shows "feed base32_decode_char ctx (replicate (Suc m) 0x3d) = Some (ISC_R_SUCCESS,
      ctx\<lparr>d32_target := grown (d32_target ctx) (take n (b32_octets (d32_val ctx @ replicate (Suc m) 0))), d32_seen_end := True, d32_val := []\<rparr>)"
  using assms
proof (induction m arbitrary: ctx)
  case 0
  let ?ctx = "ctx\<lparr>d32_val := d32_val ctx @ [0]\<rparr>"
  have "base32_decode_char ctx 0x3d = b32_group ?ctx" using b32_char(3) [of ctx] 0 by simp
  moreover have "b32_group ?ctx = Some (ISC_R_SUCCESS, ?ctx\<lparr>d32_target := grown (d32_target ctx) (take n (b32_octets (d32_val ctx @ [0]))), d32_seen_end := True, d32_val := []\<rparr>)"
    using b32_group_full [of ?ctx n] 0 by simp
  ultimately show ?case by simp
next
  case (Suc m)
  let ?ctx = "ctx\<lparr>d32_val := d32_val ctx @ [0]\<rparr>"
  have "base32_decode_char ctx 0x3d = Some (ISC_R_SUCCESS, ?ctx)" using b32_char(3) [of ctx] b32_open [of ?ctx] Suc.prems by simp
  then show ?case using Suc.IH [of ?ctx] Suc.prems by (simp add: replicate_app_Cons_same)
qed

lemma b32_filled:
  assumes "good_base (d32_base ctx)" "d32_pad ctx" "\<not> d32_seen_end ctx" "d32_seen_32 ctx = n" "n \<noteq> 0" "n < 5" "d32_length ctx < 0"
    "buf_ok (d32_target ctx)" "n \<le> buf_room (d32_target ctx)" "length (d32_val ctx) + Suc m = 8" "m < fuel"
  shows "b32_fill fuel ctx = Some (ISC_R_SUCCESS,
      ctx\<lparr>d32_target := grown (d32_target ctx) (take n (b32_octets (d32_val ctx @ replicate (Suc m) 0))), d32_seen_end := True, d32_val := []\<rparr>)"
  using assms
proof (induction m arbitrary: ctx fuel)
  case 0
  obtain g where g: "fuel = Suc g" using 0 by (cases fuel) auto
  show ?case using b32_padded [OF 0(1-10)] g by (auto split: bind_splits if_splits)
next
  case (Suc m)
  let ?ctx = "ctx\<lparr>d32_val := d32_val ctx @ [0]\<rparr>"
  obtain g where g: "fuel = Suc g" "m < g" using Suc.prems(11) by (cases fuel) auto
  have "base32_decode_char ctx 0x3d = Some (ISC_R_SUCCESS, ?ctx)" using b32_char(3) [of ctx] b32_open [of ?ctx] Suc.prems by simp
  then show ?case using Suc.IH [of ?ctx g] Suc.prems g by (simp add: replicate_app_Cons_same)
qed

lemma b32_first_pad:
  assumes "good_base (d32_base ctx)" "d32_pad ctx" "\<not> d32_seen_end ctx" "d32_seen_32 ctx = 0" "b32_padding (d32_val ctx) = Some n" "n \<noteq> 0" "length (d32_val ctx) < 8"
  shows "base32_decode_char ctx 0x3d = base32_decode_char (ctx\<lparr>d32_seen_32 := n\<rparr>) 0x3d"
  using b32_char(2) [of ctx n] b32_char(3) [of "ctx\<lparr>d32_seen_32 := n\<rparr>"] assms by simp

text \<open>The digits \<open>vs\<close> stand for the octets \<open>xs\<close>.\<close>

definition b32_code :: "bytes \<Rightarrow> bytes \<Rightarrow> bool" where
  "b32_code vs xs \<longleftrightarrow> (\<forall>v\<in>set vs. v < 32) \<and> take (length xs) (b32_octets (vs @ replicate (8 - length vs) 0)) = xs \<and>
     (if length xs = 5 then length vs = 8 else b32_padding vs = Some (length xs) \<and> length vs < 8)"

lemma pads: "replicate 6 x = [x, x, x, x, x, x]" "replicate 4 x = [x, x, x, x]" "replicate 3 x = [x, x, x]"
  by (simp_all add: eval_nat_numeral)

lemma b32_codes:
  assumes "v0 < 32" "v1 < 32" "push_bit 3 v0 OR drop_bit 2 v1 = b0"
  shows "v1 AND 3 = 0 \<Longrightarrow> b32_code [v0, v1] [b0]"
    "v2 < 32 \<Longrightarrow> v3 < 32 \<Longrightarrow> push_bit 6 v1 OR push_bit 1 v2 OR drop_bit 4 v3 = b1 \<Longrightarrow> v3 AND 0xf = 0 \<Longrightarrow> b32_code [v0, v1, v2, v3] [b0, b1]"
    "v2 < 32 \<Longrightarrow> v3 < 32 \<Longrightarrow> push_bit 6 v1 OR push_bit 1 v2 OR drop_bit 4 v3 = b1 \<Longrightarrow> v4 < 32 \<Longrightarrow> push_bit 4 v3 OR drop_bit 1 v4 = b2 \<Longrightarrow> v4 AND 1 = 0 \<Longrightarrow>
      b32_code [v0, v1, v2, v3, v4] [b0, b1, b2]"
    "v2 < 32 \<Longrightarrow> v3 < 32 \<Longrightarrow> push_bit 6 v1 OR push_bit 1 v2 OR drop_bit 4 v3 = b1 \<Longrightarrow> v4 < 32 \<Longrightarrow> push_bit 4 v3 OR drop_bit 1 v4 = b2 \<Longrightarrow>
      v5 < 32 \<Longrightarrow> v6 < 32 \<Longrightarrow> push_bit 7 v4 OR push_bit 2 v5 OR drop_bit 3 v6 = b3 \<Longrightarrow> v6 AND 7 = 0 \<Longrightarrow> b32_code [v0, v1, v2, v3, v4, v5, v6] [b0, b1, b2, b3]"
    "v2 < 32 \<Longrightarrow> v3 < 32 \<Longrightarrow> push_bit 6 v1 OR push_bit 1 v2 OR drop_bit 4 v3 = b1 \<Longrightarrow> v4 < 32 \<Longrightarrow> push_bit 4 v3 OR drop_bit 1 v4 = b2 \<Longrightarrow>
      v5 < 32 \<Longrightarrow> v6 < 32 \<Longrightarrow> push_bit 7 v4 OR push_bit 2 v5 OR drop_bit 3 v6 = b3 \<Longrightarrow> v7 < 32 \<Longrightarrow> push_bit 5 v6 OR v7 = b4 \<Longrightarrow>
      b32_code [v0, v1, v2, v3, v4, v5, v6, v7] [b0, b1, b2, b3, b4]"
  using assms by (simp_all add: b32_code_def b32_octets_def b32_padding_def pads)

lemma b32_shape:
  assumes "0 < length xs" "length xs \<le> 5"
  shows "\<exists>vs. (\<forall>base pd. b32_digits base pd xs = map (b32_digit base) vs @ replicate (8 - length vs) pd) \<and> b32_code vs xs"
proof -
  consider b0 where "xs = [b0]" | b0 b1 where "xs = [b0, b1]" | b0 b1 b2 where "xs = [b0, b1, b2]" | b0 b1 b2 b3 where "xs = [b0, b1, b2, b3]"
    | b0 b1 b2 b3 b4 where "xs = [b0, b1, b2, b3, b4]"
    using assms by (auto simp: le_Suc_eq length_Suc_conv eval_nat_numeral)
  then show ?thesis
  proof cases
    case 1
    show ?thesis unfolding 1 by (rule exI, rule conjI [OF _ b32_codes(1) [OF b32_index(1) b32_index(9) b32_bits(6) b32_zero_bits(1)]]) (simp add: pads)
  next
    case 2
    show ?thesis unfolding 2
      by (rule exI, rule conjI [OF _ b32_codes(2) [OF b32_index(1,2) b32_bits(1) b32_index(3,10) b32_bits(7) b32_zero_bits(2)]]) (simp add: pads)
  next
    case 3
    show ?thesis unfolding 3
      by (rule exI, rule conjI [OF _ b32_codes(3) [OF b32_index(1,2) b32_bits(1) b32_index(3,4) b32_bits(2) b32_index(11) b32_bits(8) b32_zero_bits(3)]])
        (simp add: pads)
  next
    case 4
    show ?thesis unfolding 4
      by (rule exI, rule conjI [OF _ b32_codes(4) [OF b32_index(1,2) b32_bits(1) b32_index(3,4) b32_bits(2) b32_index(5) b32_bits(3) b32_index(6,12) b32_bits(9) b32_zero_bits(4)]])
        (simp add: pads)
  next
    case 5
    show ?thesis unfolding 5
      by (rule exI, rule conjI [OF _ b32_codes(5) [OF b32_index(1,2) b32_bits(1) b32_index(3,4) b32_bits(2) b32_index(5) b32_bits(3) b32_index(6,7) b32_bits(4) b32_index(8) b32_bits(5)]])
        simp
  qed
qed

definition b32_text :: "bytes \<Rightarrow> u8 \<Rightarrow> bytes \<Rightarrow> bytes" where
  "b32_text base pd xs = takeWhile (\<lambda>c. c \<noteq> 0) (b32_digits base pd xs)"

lemma b32_text_shape:
  assumes "0 < length xs" "length xs \<le> 5" "good_base base"
  obtains vs where "b32_text base 0x3d xs = map (b32_digit base) vs @ replicate (8 - length vs) 0x3d" "b32_text base 0 xs = map (b32_digit base) vs" "b32_code vs xs"
proof -
  obtain vs where vs: "\<forall>base pd. b32_digits base pd xs = map (b32_digit base) vs @ replicate (8 - length vs) pd" "b32_code vs xs"
    using b32_shape [OF assms(1,2)] by blast
  have nz: "c \<noteq> 0" if "c \<in> set (map (b32_digit base) vs)" for c
    using that vs(2) b32_digit_plain [OF assms(3)] by (auto simp: b32_code_def)
  have "b32_text base 0x3d xs = map (b32_digit base) vs @ replicate (8 - length vs) 0x3d"
    unfolding b32_text_def vs(1) [rule_format] using nz by (intro no_null) auto
  moreover have "b32_text base 0 xs = map (b32_digit base) vs"
    unfolding b32_text_def vs(1) [rule_format] using nz no_null [of "map (b32_digit base) vs"] by (subst takeWhile_append2) (auto simp: takeWhile_replicate)
  ultimately show ?thesis using that vs(2) by blast
qed

lemma b32_plain:
  assumes "good_base base" "0 < length xs" "length xs \<le> 5" "pd = 0x3d \<or> pd = 0" "c \<in> set (b32_text base pd xs)"
  shows "c \<noteq> 0 \<and> \<not> is_blank c"
proof -
  obtain vs where vs: "b32_text base 0x3d xs = map (b32_digit base) vs @ replicate (8 - length vs) 0x3d" "b32_text base 0 xs = map (b32_digit base) vs" "b32_code vs xs"
    using b32_text_shape [OF assms(2,3,1)] by blast
  have "\<not> is_blank 0x3d" by (simp add: is_blank_def)
  then show ?thesis using assms(4,5) vs b32_digit_plain [OF assms(1)] by (auto simp: b32_code_def)
qed

lemma b32_ready_simps [simp]:
  "d32_base (b32_ready base pad t) = base" "d32_pad (b32_ready base pad t) = pad" "d32_val (b32_ready base pad t) = []" "d32_target (b32_ready base pad t) = t"
  "\<not> d32_seen_end (b32_ready base pad t)" "d32_seen_32 (b32_ready base pad t) = 0" "d32_length (b32_ready base pad t) = -1"
  by (simp_all add: b32_ready_def base32_decode_init_def)

lemma b32_full:
  assumes g: "good_base base" and l: "length xs = 5" and t: "buf_ok t" "5 \<le> buf_room t" and pd: "pd = 0x3d \<or> pd = 0"
  shows "feed base32_decode_char (b32_ready base pad t) (b32_text base pd xs) = Some (ISC_R_SUCCESS, b32_ready base pad (grown t xs))"
proof -
  have xs: "0 < length xs" "length xs \<le> 5" using l by auto
  obtain vs where vs: "b32_text base 0x3d xs = map (b32_digit base) vs @ replicate (8 - length vs) 0x3d" "b32_text base 0 xs = map (b32_digit base) vs" "b32_code vs xs"
    using b32_text_shape [OF xs g] by blast
  then have v: "length vs = 8" "\<forall>v\<in>set vs. v < 32" "b32_octets vs = xs" using l by (auto simp: b32_code_def b32_octets_def)
  let ?c = "b32_ready base pad t" and ?us = "butlast vs" and ?u = "last vs"
  have s: "vs = ?us @ [?u]" using v(1) by (intro append_butlast_last_id [symmetric]) auto
  have mem: "\<forall>v\<in>set ?us. v < 32" "?u < 32" using v(2) s by (metis in_set_butlastD, metis in_set_conv_decomp)
  let ?d = "?c\<lparr>d32_val := ?us\<rparr>"
  have "b32_text base pd xs = map (b32_digit base) ?us @ [b32_digit base ?u]" using vs(1,2) pd v(1) s by (metis append_Nil2 diff_self_eq_0 list.simps(8,9) map_append replicate_0)
  moreover have "feed base32_decode_char ?c (map (b32_digit base) ?us @ [b32_digit base ?u]) = feed base32_decode_char ?d [b32_digit base ?u]"
    using b32_feed_digits [of base ?us ?c "[b32_digit base ?u]"] g mem(1) v(1) by simp
  moreover have "base32_decode_char ?d (b32_digit base ?u) = b32_group (?d\<lparr>d32_val := ?us @ [?u]\<rparr>)"
    using b32_char(1) [of ?d ?u] g mem(2) v(1) by simp
  moreover have "b32_group (?d\<lparr>d32_val := ?us @ [?u]\<rparr>) = Some (ISC_R_SUCCESS, b32_ready base pad (grown t xs))"
    using b32_group_full [of "?d\<lparr>d32_val := ?us @ [?u]\<rparr>" 5] v(1,3) t l unfolding s [symmetric]
    by (simp add: b32_ready_def base32_decode_init_def)
  ultimately show ?thesis by simp
qed

lemma b32_part:
  assumes g: "good_base base" and l: "0 < length xs" "length xs < 5" and t: "buf_ok t" "length xs \<le> buf_room t"
  shows "\<exists>ctx. feed base32_decode_char (b32_ready base True t) (b32_text base 0x3d xs) = Some (ISC_R_SUCCESS, ctx) \<and> b32_finish ctx = Some (ISC_R_SUCCESS, grown t xs)"
    "\<exists>ctx. feed base32_decode_char (b32_ready base False t) (b32_text base 0 xs) = Some (ISC_R_SUCCESS, ctx) \<and> b32_finish ctx = Some (ISC_R_SUCCESS, grown t xs)"
proof -
  have xs: "length xs \<le> 5" using l by auto
  obtain vs where vs: "b32_text base 0x3d xs = map (b32_digit base) vs @ replicate (8 - length vs) 0x3d" "b32_text base 0 xs = map (b32_digit base) vs" "b32_code vs xs"
    using b32_text_shape [OF l(1) xs g] by blast
  then have v: "length vs < 8" "b32_padding vs = Some (length xs)" "\<forall>v\<in>set vs. v < 32" "take (length xs) (b32_octets (vs @ replicate (8 - length vs) 0)) = xs"
    using l by (auto simp: b32_code_def)
  obtain m where m: "8 - length vs = Suc m" using v(1) by (cases "8 - length vs") auto
  then have m8: "length vs + Suc m = 8" using v(1) by linarith
  let ?c = "b32_ready base True t\<lparr>d32_val := vs\<rparr>"
  let ?p = "?c\<lparr>d32_seen_32 := length xs\<rparr>"
  have first: "base32_decode_char ?c 0x3d = base32_decode_char ?p 0x3d" using b32_first_pad [of ?c "length xs"] g v(1,2) l by simp
  have pad: "feed base32_decode_char ?p (replicate (Suc m) 0x3d) = Some (ISC_R_SUCCESS, ?p\<lparr>d32_target := grown t xs, d32_seen_end := True, d32_val := []\<rparr>)"
    using b32_padded [of ?p "length xs" m] g l t m8 v(4) m by simp
  have "feed base32_decode_char (b32_ready base True t) (b32_text base 0x3d xs) = feed base32_decode_char ?c (replicate (Suc m) 0x3d)"
    using b32_feed_digits [of base vs "b32_ready base True t" "replicate (Suc m) 0x3d"] g v(1,3) vs(1) m by simp
  also have "\<dots> = feed base32_decode_char ?p (replicate (Suc m) 0x3d)" using first by simp
  finally show "\<exists>ctx. feed base32_decode_char (b32_ready base True t) (b32_text base 0x3d xs) = Some (ISC_R_SUCCESS, ctx) \<and> b32_finish ctx = Some (ISC_R_SUCCESS, grown t xs)"
    using pad by (simp add: b32_finish_def base32_decode_finish_def)
  have fill: "b32_fill 8 ?p = Some (ISC_R_SUCCESS, ?p\<lparr>d32_target := grown t xs, d32_seen_end := True, d32_val := []\<rparr>)"
    using b32_filled [of ?p "length xs" m 8] g l t m8 v(4) m by simp
  have "b32_ready base False t\<lparr>d32_val := vs, d32_pad := True\<rparr> = ?c" by (simp add: b32_ready_def base32_decode_init_def)
  moreover have "b32_fill 8 ?c = b32_fill 8 ?p" using first by (simp add: eval_nat_numeral)
  ultimately have "b32_fill 8 (b32_ready base False t\<lparr>d32_val := vs, d32_pad := True\<rparr>) = Some (ISC_R_SUCCESS, ?p\<lparr>d32_target := grown t xs, d32_seen_end := True, d32_val := []\<rparr>)"
    using fill by (simp only:)
  moreover have "vs \<noteq> []" using v(2) by (auto simp: b32_padding_def)
  ultimately have "b32_finish (b32_ready base False t\<lparr>d32_val := vs\<rparr>) = Some (ISC_R_SUCCESS, grown t xs)"
    by (simp add: b32_finish_def base32_decode_finish_def)
  moreover have "feed base32_decode_char (b32_ready base False t) (b32_text base 0 xs) = Some (ISC_R_SUCCESS, b32_ready base False t\<lparr>d32_val := vs\<rparr>)"
    using b32_feed_digits [of base vs "b32_ready base False t" "[]"] g v(1,3) vs(2) by simp
  ultimately show "\<exists>ctx. feed base32_decode_char (b32_ready base False t) (b32_text base 0 xs) = Some (ISC_R_SUCCESS, ctx) \<and> b32_finish ctx = Some (ISC_R_SUCCESS, grown t xs)"
    by blast
qed

lemma b32_finish_ready: "b32_finish (b32_ready base pad t) = Some (ISC_R_SUCCESS, t)"
  by (simp add: b32_finish_def base32_decode_finish_def)

interpretation base32: text_codec 5 "b32_text base32 0x3d" base32_decode_char "b32_ready base32 True" b32_finish
  using b32_plain [OF good_bases(1)] by unfold_locales (auto simp: b32_finish_ready intro: b32_full b32_part(1))

interpretation base32hex: text_codec 5 "b32_text base32hex 0x3d" base32_decode_char "b32_ready base32hex True" b32_finish
  using b32_plain [OF good_bases(2)] by unfold_locales (auto simp: b32_finish_ready intro: b32_full b32_part(1))

interpretation base32hexnp: text_codec 5 "b32_text base32hex 0" base32_decode_char "b32_ready base32hex False" b32_finish
  using b32_plain [OF good_bases(2)] by unfold_locales (auto simp: b32_finish_ready intro: b32_full b32_part(2))

section \<open>What the encoders write\<close>

definition writes :: "(isc_result \<times> isc_region \<times> isc_buffer) option \<Rightarrow> isc_buffer \<Rightarrow> bytes \<Rightarrow> bool" where
  "writes f t txt \<longleftrightarrow>
     (if length txt \<le> buf_room t then \<exists>s. f = Some (ISC_R_SUCCESS, s, grown t txt) \<and> r_length s = 0 else \<exists>s t'. f = Some (ISC_R_NOSPACE, s, t'))"

lemma writes_put:
  assumes "buf_ok t" "0 \<notin> set d" "length d \<le> buf_room t \<Longrightarrow> writes (k (grown t d)) (grown t d) rest"
  shows "writes (do { (result, t) \<leftarrow> str_totext d t; if result \<noteq> ISC_R_SUCCESS then Some (result, s, t) else k t }) t (d @ rest)"
proof (cases "length d \<le> buf_room t")
  case True
  then show ?thesis using assms(3) [OF True] grown_grown [OF assms(1) True, of rest]
    by (cases "length rest \<le> buf_room t - length d") (auto simp: writes_def str_totext_eq [OF assms(1,2)])
next
  case False
  then show ?thesis by (auto simp: writes_def str_totext_eq [OF assms(1,2)])
qed

lemma writes_Nil: "r_length s = 0 \<Longrightarrow> writes (Some (ISC_R_SUCCESS, s, t)) t []"
  by (simp add: writes_def)

abbreviation region :: "bytes \<Rightarrow> bytes \<Rightarrow> isc_region" where
  "region xs ys \<equiv> \<lparr>r_base = xs @ ys, r_length = length xs\<rparr>"

lemma consume_region: "n \<le> length xs \<Longrightarrow> isc_region_consume (region xs ys) n = Some (region (drop n xs) ys)"
  by (simp add: isc_region_consume_def)

declare base64_totext_loop.simps [simp del] hex_totext_loop.simps [simp del] base32_totext_loop.simps [simp del]

lemma b64_nonnull: "0 \<notin> set (b64_digits3 b0 b1 b2)" "0 \<notin> set (b64_digits2 b0 b1)" "0 \<notin> set (b64_digits1 b0)"
  using base64.plain [of "[b0, b1, b2]" 0] base64.plain [of "[b0, b1]" 0] base64.plain [of "[b0]" 0] by auto

lemma base64_rest_writes:
  assumes "buf_ok t" "length xs \<le> 2"
  shows "writes (base64_totext_rest (region xs ys) t) t (code_text 3 b64_digits brk wb loops xs)"
proof -
  consider "xs = []" | b0 where "xs = [b0]" | b0 b1 where "xs = [b0, b1]" using short_list [of xs] assms(2) by fastforce
  then show ?thesis
  proof cases
    case 1
    then show ?thesis by (simp add: base64_totext_rest_def code_text_simps writes_Nil)
  next
    case 2
    have "writes (do { (result, t) \<leftarrow> str_totext (b64_digits1 b0) t; if result \<noteq> ISC_R_SUCCESS then Some (result, region [b0] ys, t)
        else Some (ISC_R_SUCCESS, region [] ys, t) }) t (b64_digits1 b0 @ [])"
      by (rule writes_put [OF assms(1) b64_nonnull(3)]) (simp add: writes_Nil)
    then show ?thesis using 2 by (simp add: base64_totext_rest_def code_text_simps isc_region_consume_def cong: if_cong)
  next
    case 3
    have "writes (do { (result, t) \<leftarrow> str_totext (b64_digits2 b0 b1) t; if result \<noteq> ISC_R_SUCCESS then Some (result, region [b0, b1] ys, t)
        else Some (ISC_R_SUCCESS, region [] ys, t) }) t (b64_digits2 b0 b1 @ [])"
      by (rule writes_put [OF assms(1) b64_nonnull(2)]) (simp add: writes_Nil)
    then show ?thesis using 3 by (simp add: base64_totext_rest_def code_text_simps isc_region_consume_def cong: if_cong)
  qed
qed


text \<open>The loops have the same shape: the digits of a group, and a break or none.\<close>

definition breaks :: "nat \<Rightarrow> int \<Rightarrow> nat \<Rightarrow> bool" where
  "breaks n wordlength loops \<longleftrightarrow> as_int ((loops + 1) * n) \<ge> wordlength"

lemma writes_group:
  assumes "buf_ok t" "0 \<notin> set d" "0 \<notin> set wb" "\<And>l u. buf_ok u \<Longrightarrow> writes (K l u) u (txt l)"
  shows "writes (do { (result, t) \<leftarrow> str_totext d t; if result \<noteq> ISC_R_SUCCESS then Some (result, s, t) else
      if b then do { (result, t) \<leftarrow> str_totext wb t; if result \<noteq> ISC_R_SUCCESS then Some (result, s', t) else K 0 t } else K (Suc l) t }) t
    (d @ (if b then wb @ txt 0 else txt (Suc l)))"
proof (rule writes_put [OF assms(1,2)])
  assume r: "length d \<le> buf_room t"
  show "writes (if b then do { (result, t) \<leftarrow> str_totext wb (grown t d); if result \<noteq> ISC_R_SUCCESS then Some (result, s', t) else K 0 t } else K (Suc l) (grown t d))
      (grown t d) (if b then wb @ txt 0 else txt (Suc l))"
  proof (cases b)
    case True
    then show ?thesis using writes_put [of "grown t d" wb "K 0" "txt 0" s'] assms r by simp
  next
    case False
    then show ?thesis using assms(4) [of "grown t d" "Suc l"] assms(1) r by simp
  qed
qed

lemma split3: "\<not> length xs \<le> 2 \<Longrightarrow> \<exists>b0 b1 b2 zs. xs = b0 # b1 # b2 # zs"
  by (cases xs; cases "tl xs"; cases "tl (tl xs)") auto

lemma base64_writes:
  assumes "buf_ok t" "0 \<notin> set wb"
  shows "writes (do { (result, source, t) \<leftarrow> base64_totext_loop wl wb (region xs ys) loops t;
      if result \<noteq> ISC_R_SUCCESS then Some (result, source, t) else base64_totext_rest source t }) t (code_text 3 b64_digits (breaks 4 wl) wb loops xs)"
  using assms(1)
proof (induction "length xs" arbitrary: xs t loops rule: less_induct)
  case less
  show ?case
  proof (cases "length xs \<le> 2")
    case True
    then show ?thesis using base64_rest_writes [OF less.prems True] by (simp add: base64_totext_loop.simps [of wl wb "region xs ys"])
  next
    case False
    obtain b0 b1 b2 zs where xs: "xs = b0 # b1 # b2 # zs" using split3 [OF False] by blast
    define K where "K l u = do { (result, source, t) \<leftarrow> base64_totext_loop wl wb (region zs ys) l u;
      if result \<noteq> ISC_R_SUCCESS then Some (result, source, t) else base64_totext_rest source t }" for l u
    define b where "b \<longleftrightarrow> zs \<noteq> [] \<and> breaks 4 wl (Suc loops)"
    have "do { (result, source, t) \<leftarrow> base64_totext_loop wl wb (region xs ys) loops t;
        if result \<noteq> ISC_R_SUCCESS then Some (result, source, t) else base64_totext_rest source t } =
      do { (result, t) \<leftarrow> str_totext (b64_digits3 b0 b1 b2) t; if result \<noteq> ISC_R_SUCCESS then Some (result, region xs ys, t) else
        if b then do { (result, t) \<leftarrow> str_totext wb t; if result \<noteq> ISC_R_SUCCESS then Some (result, region zs ys, t) else K 0 t } else K (Suc loops) t }"
      unfolding xs K_def b_def by (subst base64_totext_loop.simps) (auto simp: isc_region_consume_def breaks_def split: bind_split prod.split)
    moreover have "code_text 3 b64_digits (breaks 4 wl) wb loops xs = b64_digits3 b0 b1 b2 @
        (if b then wb @ code_text 3 b64_digits (breaks 4 wl) wb 0 zs else code_text 3 b64_digits (breaks 4 wl) wb (Suc loops) zs)"
      by (cases zs) (simp_all add: xs b_def code_text_simps)
    moreover have "writes (K l u) u (code_text 3 b64_digits (breaks 4 wl) wb l zs)" if "buf_ok u" for l u
      unfolding K_def using less.hyps [of zs u l] that xs by simp
    ultimately show ?thesis using writes_group [OF less.prems b64_nonnull(1) assms(2), of K "\<lambda>l. code_text 3 b64_digits (breaks 4 wl) wb l zs"] by simp
  qed
qed

lemma hex_writes:
  assumes "buf_ok t" "0 \<notin> set wb"
  shows "writes (hex_totext_loop wl wb (region xs ys) loops t) t (code_text 1 (\<lambda>xs. hex_octet (hd xs)) (breaks 2 wl) wb loops xs)"
  using assms(1)
proof (induction xs arbitrary: t loops)
  case Nil
  then show ?case by (simp add: hex_totext_loop.simps code_text_simps writes_Nil)
next
  case (Cons b0 zs)
  let ?T = "\<lambda>l. code_text 1 (\<lambda>xs. hex_octet (hd xs)) (breaks 2 wl) wb l zs"
  define b where "b \<longleftrightarrow> zs \<noteq> [] \<and> breaks 2 wl (Suc loops)"
  have "hex_totext_loop wl wb (region (b0 # zs) ys) loops t =
    do { (result, t) \<leftarrow> str_totext (hex_octet b0) t; if result \<noteq> ISC_R_SUCCESS then Some (result, region (b0 # zs) ys, t) else
      if b then do { (result, t) \<leftarrow> str_totext wb t; if result \<noteq> ISC_R_SUCCESS then Some (result, region zs ys, t) else hex_totext_loop wl wb (region zs ys) 0 t }
      else hex_totext_loop wl wb (region zs ys) (Suc loops) t }"
    unfolding b_def by (subst hex_totext_loop.simps) (auto simp: isc_region_consume_def breaks_def split: bind_split prod.split)
  moreover have "code_text 1 (\<lambda>xs. hex_octet (hd xs)) (breaks 2 wl) wb loops (b0 # zs) = hex_octet b0 @ (if b then wb @ ?T 0 else ?T (Suc loops))"
    by (cases zs) (simp_all add: b_def code_text_simps)
  moreover have "0 \<notin> set (hex_octet b0)" using hex.plain [of "[b0]" 0] by auto
  ultimately show ?case using writes_group [OF Cons.prems _ assms(2), of "hex_octet b0" "hex_totext_loop wl wb (region zs ys)" ?T] Cons.IH by simp
qed

definition b32_end :: "isc_region \<Rightarrow> isc_buffer \<Rightarrow> (isc_result \<times> isc_region \<times> isc_buffer) option" where
  "b32_end source t = (if r_length source > 0 then do { source \<leftarrow> isc_region_consume source (r_length source); Some (ISC_R_SUCCESS, source, t) }
     else Some (ISC_R_SUCCESS, source, t))"

lemma str_totext_take: "str_totext (takeWhile (\<lambda>c. c \<noteq> 0) d) = str_totext d"
  by (simp add: str_totext_def fun_eq_iff takeWhile_idem)

lemma base32_writes:
  assumes "buf_ok t" "0 \<notin> set wb"
  shows "writes (do { (result, source, t) \<leftarrow> base32_totext_loop base pd wl wb (region xs ys) loops t;
      if result \<noteq> ISC_R_SUCCESS then Some (result, source, t) else b32_end source t }) t (code_text 5 (b32_text base pd) (\<lambda>l. wl \<ge> 0 \<and> breaks 8 wl l) wb loops xs)"
  using assms(1)
proof (induction "length xs" arbitrary: xs t loops rule: less_induct)
  case less
  let ?brk = "\<lambda>l. wl \<ge> 0 \<and> breaks 8 wl l"
  have nn: "0 \<notin> set (b32_text base pd zs)" for zs by (auto simp: b32_text_def dest: set_takeWhileD)
  consider "xs = []" | "xs \<noteq> []" "length xs < 5" | "5 \<le> length xs" by linarith
  then show ?case
  proof cases
    case 1
    then show ?thesis by (simp add: base32_totext_loop.simps code_text_simps b32_end_def writes_Nil)
  next
    case 2
    have "do { (result, source, t) \<leftarrow> base32_totext_loop base pd wl wb (region xs ys) loops t;
        if result \<noteq> ISC_R_SUCCESS then Some (result, source, t) else b32_end source t } =
      do { (result, t) \<leftarrow> str_totext (b32_text base pd xs) t; if result \<noteq> ISC_R_SUCCESS then Some (result, region xs ys, t) else b32_end (region xs ys) t }"
      unfolding b32_text_def str_totext_take using 2 by (subst base32_totext_loop.simps) (auto split: bind_split prod.split)
    moreover have "writes (b32_end (region xs ys) (grown t d)) (grown t d) []" for d
      using 2 by (simp add: b32_end_def isc_region_consume_def writes_Nil)
    ultimately show ?thesis using writes_put [OF less.prems nn, of xs "b32_end (region xs ys)" "[]"] 2 by (simp add: code_text_simps)
  next
    case 3
    let ?d = "b32_text base pd (take 5 xs)" and ?zs = "drop 5 xs"
    define K where "K l u = do { (result, source, t) \<leftarrow> base32_totext_loop base pd wl wb (region ?zs ys) l u;
      if result \<noteq> ISC_R_SUCCESS then Some (result, source, t) else b32_end source t }" for l u
    define b where "b \<longleftrightarrow> ?zs \<noteq> [] \<and> ?brk (Suc loops)"
    have "do { (result, source, t) \<leftarrow> base32_totext_loop base pd wl wb (region xs ys) loops t;
        if result \<noteq> ISC_R_SUCCESS then Some (result, source, t) else b32_end source t } =
      do { (result, t) \<leftarrow> str_totext ?d t; if result \<noteq> ISC_R_SUCCESS then Some (result, region xs ys, t) else
        if b then do { (result, t) \<leftarrow> str_totext wb t; if result \<noteq> ISC_R_SUCCESS then Some (result, region ?zs ys, t) else K 0 t } else K (Suc loops) t }"
      unfolding b32_text_def str_totext_take using 3 unfolding K_def b_def
      by (subst base32_totext_loop.simps) (auto simp: isc_region_consume_def breaks_def min_absorb1 split: bind_split prod.split)
    moreover have "code_text 5 (b32_text base pd) ?brk wb loops xs = ?d @
        (if b then wb @ code_text 5 (b32_text base pd) ?brk wb 0 ?zs else code_text 5 (b32_text base pd) ?brk wb (Suc loops) ?zs)"
    proof -
      have "xs \<noteq> []" using 3 by auto
      then show ?thesis using 3 by (cases "length xs = 5") (auto simp: b_def code_text_simps)
    qed
    moreover have "writes (K l u) u (code_text 5 (b32_text base pd) ?brk wb l ?zs)" if "buf_ok u" for l u
      unfolding K_def using less.hyps [of ?zs u l] that 3 by simp
    ultimately show ?thesis using writes_group [OF less.prems nn assms(2), of K "\<lambda>l. code_text 5 (b32_text base pd) ?brk wb l ?zs"] by simp
  qed
qed

lemma totext_writes:
  assumes "buf_ok t" "0 \<notin> set wb"
  shows "writes (isc_base64_totext (region xs ys) wl wb t) t (code_text 3 b64_digits (breaks 4 (if wl < 4 then 4 else wl)) wb 0 xs)"
    "writes (isc_hex_totext (region xs ys) wl wb t) t (code_text 1 (\<lambda>xs. hex_octet (hd xs)) (breaks 2 (if wl < 2 then 2 else wl)) wb 0 xs)"
    "\<exists>brk. writes (base32_totext (region xs ys) wl wb t base pd) t (code_text 5 (b32_text base pd) brk wb 0 xs)"
  using base64_writes [OF assms] hex_writes [OF assms] base32_writes [OF assms, of base pd]
  unfolding isc_base64_totext_def isc_hex_totext_def base32_totext_def b32_end_def by blast+

section \<open>Properties\<close>

text \<open>The five pairs of functions, to state of all of them what is the same.\<close>

datatype text_form = Base64 | Hex | Base32 | Base32hex | Base32hexnp

fun form_totext :: "text_form \<Rightarrow> isc_region \<Rightarrow> int \<Rightarrow> bytes \<Rightarrow> isc_buffer \<Rightarrow> (isc_result \<times> isc_region \<times> isc_buffer) option" where
  "form_totext Base64 = isc_base64_totext"
| "form_totext Hex = isc_hex_totext"
| "form_totext Base32 = isc_base32_totext"
| "form_totext Base32hex = isc_base32hex_totext"
| "form_totext Base32hexnp = isc_base32hexnp_totext"

fun form_decodestring :: "text_form \<Rightarrow> bytes \<Rightarrow> isc_buffer \<Rightarrow> (isc_result \<times> isc_buffer) option" where
  "form_decodestring Base64 = isc_base64_decodestring"
| "form_decodestring Hex = isc_hex_decodestring"
| "form_decodestring Base32 = isc_base32_decodestring"
| "form_decodestring Base32hex = isc_base32hex_decodestring"
| "form_decodestring Base32hexnp = isc_base32hexnp_decodestring"

lemma form_text:
  assumes t: "buf_ok t" "0 \<notin> set wb" and u: "buf_ok u" "length xs \<le> buf_room u" and wb: "\<And>c. c \<in> set wb \<Longrightarrow> is_blank c"
  shows "\<exists>out. writes (form_totext form (region xs ys) wl wb t) t out \<and> form_decodestring form (out @ 0 # ds) u = Some (ISC_R_SUCCESS, grown u xs)"
proof (cases form)
  case Base64
  then show ?thesis
    using totext_writes(1) [OF t, of xs ys wl] base64.decode_text [OF u, where wb = wb and brk = "breaks 4 (if wl < 4 then 4 else wl)" and loops = 0 and ds = ds, OF wb]
    by (auto simp: isc_base64_decodestring_def b64_ready_def b64_finish_def intro!: exI [of _ "code_text 3 b64_digits (breaks 4 (if wl < 4 then 4 else wl)) wb 0 xs"] simp del: feed_string.simps)
next
  case Hex
  then show ?thesis
    using totext_writes(2) [OF t, of xs ys wl] hex.decode_text [OF u, where wb = wb and brk = "breaks 2 (if wl < 2 then 2 else wl)" and loops = 0 and ds = ds, OF wb]
    by (auto simp: isc_hex_decodestring_def hex_ready_def hex_finish_def intro!: exI [of _ "code_text 1 (\<lambda>xs. hex_octet (hd xs)) (breaks 2 (if wl < 2 then 2 else wl)) wb 0 xs"] simp del: feed_string.simps)
next
  case Base32
  obtain brk where "writes (base32_totext (region xs ys) wl wb t base32 0x3d) t (code_text 5 (b32_text base32 0x3d) brk wb 0 xs)" using totext_writes(3) [OF t] by blast
  then show ?thesis using base32.decode_text [OF u, where wb = wb and brk = brk and loops = 0 and ds = ds, OF wb] Base32
    by (auto simp: isc_base32_totext_def isc_base32_decodestring_def base32_decodestring_def b32_ready_def b32_finish_def intro!: exI [of _ "code_text 5 (b32_text base32 0x3d) brk wb 0 xs"])
next
  case Base32hex
  obtain brk where "writes (base32_totext (region xs ys) wl wb t base32hex 0x3d) t (code_text 5 (b32_text base32hex 0x3d) brk wb 0 xs)" using totext_writes(3) [OF t] by blast
  then show ?thesis using base32hex.decode_text [OF u, where wb = wb and brk = brk and loops = 0 and ds = ds, OF wb] Base32hex
    by (auto simp: isc_base32hex_totext_def isc_base32hex_decodestring_def base32_decodestring_def b32_ready_def b32_finish_def intro!: exI [of _ "code_text 5 (b32_text base32hex 0x3d) brk wb 0 xs"])
next
  case Base32hexnp
  obtain brk where "writes (base32_totext (region xs ys) wl wb t base32hex 0) t (code_text 5 (b32_text base32hex 0) brk wb 0 xs)" using totext_writes(3) [OF t] by blast
  then show ?thesis using base32hexnp.decode_text [OF u, where wb = wb and brk = brk and loops = 0 and ds = ds, OF wb] Base32hexnp
    by (auto simp: isc_base32hexnp_totext_def isc_base32hexnp_decodestring_def base32_decodestring_def b32_ready_def b32_finish_def intro!: exI [of _ "code_text 5 (b32_text base32hex 0) brk wb 0 xs"])
qed




end
