(* ===== verification/Lex.thy ===== *)
theory Lex
  imports TextCodec
begin

text \<open>
  The lexer, \<^verbatim>\<open>lib/isc/lex.c\<close>, with \<^verbatim>\<open>lib/isc/parseint.c\<close>.  The character \<^verbatim>\<open>EOF\<close> is \<open>None\<close>.  A token's text is a copy of
  \<^verbatim>\<open>lex->data\<close> at the time, where C has a pointer to it.  Memory just allocated holds zeros, and a buffer read from is the lexer's own copy.
  A stream is the octets still to be read and how the reading ends, \<open>None\<close> for the end of the file.
  The \<^verbatim>\<open>switch\<close> in \<^verbatim>\<open>isc_lex_gettoken\<close> is one definition per state, \<^verbatim>\<open>goto no_read\<close> a call, and an unsigned long has 64 bits.
\<close>

section \<open>Options, tokens and states\<close>

definition ISC_LEXOPT_EOL :: u32 where "ISC_LEXOPT_EOL = 0x0001"
definition ISC_LEXOPT_EOF :: u32 where "ISC_LEXOPT_EOF = 0x0002"
definition ISC_LEXOPT_INITIALWS :: u32 where "ISC_LEXOPT_INITIALWS = 0x0004"
definition ISC_LEXOPT_NUMBER :: u32 where "ISC_LEXOPT_NUMBER = 0x0008"
definition ISC_LEXOPT_QSTRING :: u32 where "ISC_LEXOPT_QSTRING = 0x0010"
definition ISC_LEXOPT_DNSMULTILINE :: u32 where "ISC_LEXOPT_DNSMULTILINE = 0x0020"
definition ISC_LEXOPT_NOMORE :: u32 where "ISC_LEXOPT_NOMORE = 0x0040"
definition ISC_LEXOPT_CNUMBER :: u32 where "ISC_LEXOPT_CNUMBER = 0x0080"
definition ISC_LEXOPT_ESCAPE :: u32 where "ISC_LEXOPT_ESCAPE = 0x0100"
definition ISC_LEXOPT_QSTRINGMULTILINE :: u32 where "ISC_LEXOPT_QSTRINGMULTILINE = 0x0200"
definition ISC_LEXOPT_OCTAL :: u32 where "ISC_LEXOPT_OCTAL = 0x0400"
definition ISC_LEXOPT_BTEXT :: u32 where "ISC_LEXOPT_BTEXT = 0x0800"
definition ISC_LEXOPT_VPAIR :: u32 where "ISC_LEXOPT_VPAIR = 0x1000"
definition ISC_LEXOPT_QVPAIR :: u32 where "ISC_LEXOPT_QVPAIR = 0x2000"

definition ISC_LEXCOMMENT_C :: u32 where "ISC_LEXCOMMENT_C = 0x01"
definition ISC_LEXCOMMENT_CPLUSPLUS :: u32 where "ISC_LEXCOMMENT_CPLUSPLUS = 0x02"
definition ISC_LEXCOMMENT_SHELL :: u32 where "ISC_LEXCOMMENT_SHELL = 0x04"
definition ISC_LEXCOMMENT_DNSMASTERFILE :: u32 where "ISC_LEXCOMMENT_DNSMASTERFILE = 0x08"

definition IWSEOL :: u32 where "IWSEOL = ISC_LEXOPT_INITIALWS OR ISC_LEXOPT_EOL"

definition wants :: "u32 \<Rightarrow> u32 \<Rightarrow> bool" where "wants options opt \<longleftrightarrow> options AND opt \<noteq> 0"

datatype isc_tokentype =
    isc_tokentype_unknown | isc_tokentype_string | isc_tokentype_number | isc_tokentype_qstring | isc_tokentype_eol | isc_tokentype_eof
  | isc_tokentype_initialws | isc_tokentype_special | isc_tokentype_nomore | isc_tokentype_btext | isc_tokentype_vpair | isc_tokentype_qvpair

datatype isc_tokenvalue = As_none | As_char u8 | As_ulong u32 | As_textregion bytes

record isc_token =
  tk_type :: isc_tokentype
  tk_value :: isc_tokenvalue

datatype lexstate =
    lexstate_start | lexstate_crlf | lexstate_string | lexstate_number | lexstate_maybecomment | lexstate_ccomment | lexstate_ccommentend
  | lexstate_eatline | lexstate_qstring | lexstate_btext | lexstate_vpair | lexstate_vpairstart | lexstate_qvpair

datatype lex_input = Stream bytes "isc_result option" | From_buffer isc_buffer

record inputsource =
  src_result :: isc_result
  src_at_eof :: bool
  src_last_was_eol :: bool
  src_pushback :: isc_buffer
  src_ignored :: nat
  src_input :: lex_input
  src_name :: bytes
  src_line :: u64
  src_saved_line :: u64

definition LEX_MAGIC :: u32 where "LEX_MAGIC = 0x4c657821"

record isc_lex =
  lx_magic :: u32
  lx_max_token :: nat
  lx_data :: bytes
  lx_comments :: u32
  lx_comment_ok :: bool
  lx_last_was_eol :: bool
  lx_brace_count :: u32
  lx_paren_count :: u32
  lx_saved_paren_count :: u32
  lx_specials :: "u8 \<Rightarrow> bool"
  lx_sources :: "inputsource list"

definition VALID_LEX :: "isc_lex \<Rightarrow> bool" where "VALID_LEX lx \<longleftrightarrow> lx_magic lx = LEX_MAGIC"

section \<open>Creation and sources\<close>

definition isc_lex_create :: "nat \<Rightarrow> isc_lex" where
  "isc_lex_create max_token = (let max_token = (if max_token = 0 then 1 else max_token) in
     \<lparr>lx_magic = LEX_MAGIC, lx_max_token = max_token, lx_data = replicate (max_token + 1) 0, lx_comments = 0, lx_comment_ok = True,
      lx_last_was_eol = True, lx_brace_count = 0, lx_paren_count = 0, lx_saved_paren_count = 0, lx_specials = (\<lambda>c. False), lx_sources = []\<rparr>)"

definition isc_lex_setcomments :: "isc_lex \<Rightarrow> u32 \<Rightarrow> isc_lex option" where
  "isc_lex_setcomments lx comments = do { REQUIRE (VALID_LEX lx); Some (lx\<lparr>lx_comments := comments\<rparr>) }"

definition isc_lex_getcomments :: "isc_lex \<Rightarrow> u32 option" where
  "isc_lex_getcomments lx = do { REQUIRE (VALID_LEX lx); Some (lx_comments lx) }"

definition isc_lex_getspecials :: "isc_lex \<Rightarrow> (u8 \<Rightarrow> bool) option" where
  "isc_lex_getspecials lx = do { REQUIRE (VALID_LEX lx); Some (lx_specials lx) }"

definition isc_lex_setspecials :: "isc_lex \<Rightarrow> (u8 \<Rightarrow> bool) \<Rightarrow> isc_lex option" where
  "isc_lex_setspecials lx specials = do { REQUIRE (VALID_LEX lx); Some (lx\<lparr>lx_specials := specials\<rparr>) }"

definition new_source :: "isc_lex \<Rightarrow> lex_input \<Rightarrow> bytes \<Rightarrow> isc_lex option" where
  "new_source lx input name = do {
     pushback \<leftarrow> isc_buffer_allocate (lx_max_token lx mod 2 ^ 32);
     Some (lx\<lparr>lx_sources := \<lparr>src_result = ISC_R_SUCCESS, src_at_eof = False, src_last_was_eol = lx_last_was_eol lx, src_pushback = pushback,
       src_ignored = 0, src_input = input, src_name = name, src_line = 1, src_saved_line = 0\<rparr> # lx_sources lx\<rparr>)
   }"

text \<open>\<open>stream\<close> is what opening the file gives.\<close>

definition isc_lex_openfile :: "isc_lex \<Rightarrow> bytes \<Rightarrow> isc_result + lex_input \<Rightarrow> (isc_result \<times> isc_lex) option" where
  "isc_lex_openfile lx filename stream = do {
     REQUIRE (VALID_LEX lx);
     case stream of Inl result \<Rightarrow> Some (result, lx)
     | Inr input \<Rightarrow> do { lx \<leftarrow> new_source lx input filename; Some (ISC_R_SUCCESS, lx) }
   }"

definition isc_lex_openstream :: "isc_lex \<Rightarrow> lex_input \<Rightarrow> bytes \<Rightarrow> (isc_result \<times> isc_lex) option" where
  "isc_lex_openstream lx stream name = do {
     REQUIRE (VALID_LEX lx);
     lx \<leftarrow> new_source lx stream name;
     Some (ISC_R_SUCCESS, lx)
   }"

definition isc_lex_openbuffer :: "isc_lex \<Rightarrow> isc_buffer \<Rightarrow> bytes \<Rightarrow> (isc_result \<times> isc_lex) option" where
  "isc_lex_openbuffer lx buffer name = do {
     REQUIRE (VALID_LEX lx);
     lx \<leftarrow> new_source lx (From_buffer buffer) name;
     Some (ISC_R_SUCCESS, lx)
   }"

definition isc_lex_close :: "isc_lex \<Rightarrow> (isc_result \<times> isc_lex) option" where
  "isc_lex_close lx = do {
     REQUIRE (VALID_LEX lx);
     case lx_sources lx of
       [] \<Rightarrow> Some (ISC_R_NOMORE, lx)
     | source # sources \<Rightarrow> Some (ISC_R_SUCCESS, lx\<lparr>lx_sources := sources, lx_last_was_eol := src_last_was_eol source\<rparr>)
   }"

text \<open>All sources closed, as many as there are; the lexer is then freed.\<close>

fun close_all :: "nat \<Rightarrow> isc_lex \<Rightarrow> isc_lex option" where
  "close_all 0 lx = (if lx_sources lx = [] then Some lx else None)"
| "close_all (Suc fuel) lx =
     (if lx_sources lx = [] then Some lx
      else do {
        (result, lx) \<leftarrow> isc_lex_close lx;
        INSIST (result = ISC_R_SUCCESS);
        close_all fuel lx
      })"

definition isc_lex_destroy :: "isc_lex \<Rightarrow> isc_lex option" where
  "isc_lex_destroy lx = do {
     REQUIRE (VALID_LEX lx);
     lx \<leftarrow> close_all (length (lx_sources lx)) lx;
     Some (lx\<lparr>lx_magic := 0, lx_data := []\<rparr>)
   }"

text \<open>The name and the line of the source in front.\<close>

definition isc_lex_getsourcename :: "isc_lex \<Rightarrow> bytes option option" where
  "isc_lex_getsourcename lx = do { REQUIRE (VALID_LEX lx); Some (case lx_sources lx of [] \<Rightarrow> None | source # _ \<Rightarrow> Some (src_name source)) }"

definition isc_lex_getsourceline :: "isc_lex \<Rightarrow> u64 option" where
  "isc_lex_getsourceline lx = do { REQUIRE (VALID_LEX lx); Some (case lx_sources lx of [] \<Rightarrow> 0 | source # _ \<Rightarrow> src_line source) }"

definition isc_lex_setsourcename :: "isc_lex \<Rightarrow> bytes \<Rightarrow> (isc_result \<times> isc_lex) option" where
  "isc_lex_setsourcename lx name = do {
     REQUIRE (VALID_LEX lx);
     case lx_sources lx of [] \<Rightarrow> Some (ISC_R_NOTFOUND, lx)
     | source # sources \<Rightarrow> Some (ISC_R_SUCCESS, lx\<lparr>lx_sources := source\<lparr>src_name := name\<rparr> # sources\<rparr>)
   }"

definition isc_lex_setsourceline :: "isc_lex \<Rightarrow> u64 \<Rightarrow> (isc_result \<times> isc_lex) option" where
  "isc_lex_setsourceline lx line = do {
     REQUIRE (VALID_LEX lx);
     case lx_sources lx of [] \<Rightarrow> Some (ISC_R_NOTFOUND, lx)
     | source # sources \<Rightarrow> Some (ISC_R_SUCCESS, lx\<lparr>lx_sources := source\<lparr>src_line := line\<rparr> # sources\<rparr>)
   }"

definition isc_lex_isfile :: "isc_lex \<Rightarrow> bool option" where
  "isc_lex_isfile lx = do {
     REQUIRE (VALID_LEX lx);
     Some (case lx_sources lx of [] \<Rightarrow> False | source # _ \<Rightarrow> (case src_input source of Stream cs e \<Rightarrow> True | From_buffer b \<Rightarrow> False))
   }"

section \<open>Numbers\<close>

definition isdigit :: "u8 \<Rightarrow> bool" where "isdigit c \<longleftrightarrow> 0x30 \<le> c \<and> c \<le> 0x39"

definition digit_value :: "u8 \<Rightarrow> nat option" where
  "digit_value c = (if isdigit c then Some (unat c - 0x30) else if 0x41 \<le> c \<and> c \<le> 0x5a then Some (unat c - 0x41 + 10)
     else if 0x61 \<le> c \<and> c \<le> 0x7a then Some (unat c - 0x61 + 10) else None)"

text \<open>\<^verbatim>\<open>strtoul\<close> of a string that begins with a letter or a digit: the number and what follows its digits.\<close>

fun take_digits :: "nat \<Rightarrow> nat \<Rightarrow> bytes \<Rightarrow> nat \<times> bytes" where
  "take_digits base n [] = (n, [])"
| "take_digits base n (c # cs) =
     (case digit_value c of
        Some d \<Rightarrow> if d < base then take_digits base (n * base + d) cs else (n, c # cs)
      | None \<Rightarrow> (n, c # cs))"

definition strtoul :: "bytes \<Rightarrow> nat \<Rightarrow> nat \<times> bytes" where
  "strtoul s base =
     (let hex = (case s of z # x # d # _ \<Rightarrow> z = 0x30 \<and> (x = 0x78 \<or> x = 0x58) \<and> (case digit_value d of Some v \<Rightarrow> v < 16 | None \<Rightarrow> False) | _ \<Rightarrow> False)
      in if (base = 0 \<or> base = 16) \<and> hex then take_digits 16 0 (drop 2 s)
         else if base = 0 then (if s \<noteq> [] \<and> hd s = 0x30 then take_digits 8 0 s else take_digits 10 0 s)
         else take_digits base 0 s)"

definition isc_parse_uint32 :: "bytes \<Rightarrow> nat \<Rightarrow> isc_result + u32" where
  "isc_parse_uint32 s base =
     (if s = [] \<or> digit_value (hd s) = None then Inl ISC_R_BADNUMBER
      else let (n, rest) = strtoul s base
           in if rest \<noteq> [] then Inl ISC_R_BADNUMBER else if n \<ge> 2 ^ 32 then Inl ISC_R_RANGE else Inr (of_nat n))"

definition isc_parse_uint16 :: "bytes \<Rightarrow> nat \<Rightarrow> isc_result + u16" where
  "isc_parse_uint16 s base =
     (case isc_parse_uint32 s base of Inl result \<Rightarrow> Inl result | Inr val \<Rightarrow> if val > 0xffff then Inl ISC_R_RANGE else Inr (ucast val))"

definition isc_parse_uint8 :: "bytes \<Rightarrow> nat \<Rightarrow> isc_result + u8" where
  "isc_parse_uint8 s base =
     (case isc_parse_uint32 s base of Inl result \<Rightarrow> Inl result | Inr val \<Rightarrow> if val > 0xff then Inl ISC_R_RANGE else Inr (ucast val))"

section \<open>The token being read\<close>

record lstate =
  ls_lex :: isc_lex
  ls_source :: inputsource
  ls_options :: u32
  ls_saved_options :: u32
  ls_state :: lexstate
  ls_saved_state :: lexstate
  ls_no_comments :: bool
  ls_escaped :: bool
  ls_curr :: nat
  ls_prev :: "nat option"
  ls_remaining :: nat

datatype outcome = Next lstate | Finished lstate isc_token | Failed lstate isc_result

definition grow_data :: "lstate \<Rightarrow> lstate" where
  "grow_data st = (let lx = ls_lex st in
     st\<lparr>ls_lex := lx\<lparr>lx_data := take (lx_max_token lx + 1) (lx_data lx) @ replicate (lx_max_token lx) 0, lx_max_token := lx_max_token lx * 2\<rparr>,
        ls_remaining := ls_remaining st + lx_max_token lx\<rparr>)"

text \<open>An octet more in \<^verbatim>\<open>lex->data\<close>, with room made for it.\<close>

definition put_char :: "u8 \<Rightarrow> lstate \<Rightarrow> lstate option" where
  "put_char c st = do {
     let st = (if ls_remaining st = 0 then grow_data st else st);
     INSIST (ls_remaining st > 0);
     data \<leftarrow> poke (lx_data (ls_lex st)) (ls_curr st) c;
     data \<leftarrow> poke data (ls_curr st + 1) 0;
     Some (st\<lparr>ls_lex := (ls_lex st)\<lparr>lx_data := data\<rparr>, ls_curr := ls_curr st + 1, ls_remaining := ls_remaining st - 1\<rparr>)
   }"

definition text_token :: "isc_tokentype \<Rightarrow> lstate \<Rightarrow> isc_token option" where
  "text_token type st = do {
     t \<leftarrow> fetch (lx_data (ls_lex st)) 0 (lx_max_token (ls_lex st) - ls_remaining st);
     Some \<lparr>tk_type = type, tk_value = As_textregion t\<rparr>
   }"

definition pushback :: "u8 option \<Rightarrow> lstate \<Rightarrow> lstate option" where
  "pushback c st = do {
     let source = ls_source st;
     REQUIRE (b_current (src_pushback source) > 0);
     case c of
       None \<Rightarrow> Some (st\<lparr>ls_source := source\<lparr>src_at_eof := False\<rparr>\<rparr>)
     | Some ch \<Rightarrow> Some (st\<lparr>ls_source := source\<lparr>src_pushback := (src_pushback source)\<lparr>b_current := b_current (src_pushback source) - 1\<rparr>,
         src_line := (if ch = 0x0a then src_line source - 1 else src_line source)\<rparr>\<rparr>)
   }"

definition pushandgrow :: "inputsource \<Rightarrow> u8 \<Rightarrow> inputsource option" where
  "pushandgrow source c = do {
     pb \<leftarrow> (if isc_buffer_availablelength (src_pushback source) = 0 then do {
         tbuf \<leftarrow> isc_buffer_allocate (b_length (src_pushback source) * 2 mod 2 ^ 32);
         used \<leftarrow> isc_buffer_usedregion (src_pushback source);
         (result, tbuf) \<leftarrow> isc_buffer_copyregion tbuf used;
         INSIST (result = ISC_R_SUCCESS);
         Some (tbuf\<lparr>b_current := b_current (src_pushback source)\<rparr>)
       }
       else Some (src_pushback source));
     pb \<leftarrow> isc_buffer_putuint8 pb c;
     Some (source\<lparr>src_pushback := pb\<rparr>)
   }"

section \<open>The states\<close>

text \<open>Strings and value pairs.\<close>

definition special :: "lstate \<Rightarrow> u8 \<Rightarrow> bool" where "special st c = lx_specials (ls_lex st) c"

definition lex_vpair :: "lstate \<Rightarrow> u8 option \<Rightarrow> outcome option" where
  "lex_vpair st c =
     (if c = Some 0x0d \<or> c = Some 0x0a \<or> c = None \<or> (\<not> ls_escaped st \<and> (c = Some 0x20 \<or> c = Some 0x09 \<or> special st (the c))) then do {
        st \<leftarrow> pushback c st;
        if src_result (ls_source st) \<noteq> ISC_R_SUCCESS then Some (Failed st (src_result (ls_source st)))
        else if ls_escaped st \<and> c = None then Some (Failed st ISC_R_UNEXPECTEDEND)
        else do {
          tk \<leftarrow> text_token (if ls_state st = lexstate_string then isc_tokentype_string else isc_tokentype_vpair) st;
          Some (Finished st tk)
        }
      }
      else do {
        st \<leftarrow> put_char (the c)
          (if wants (ls_options st) ISC_LEXOPT_ESCAPE then st\<lparr>ls_escaped := \<not> ls_escaped st \<and> c = Some 0x5c\<rparr> else st);
        Some (Next st)
      })"

definition lex_vpairstart :: "lstate \<Rightarrow> u8 option \<Rightarrow> outcome option" where
  "lex_vpairstart st c =
     (if ls_state st = lexstate_vpairstart then
        (if c = Some 0x22 \<and> wants (ls_options st) ISC_LEXOPT_QVPAIR then Some (Next (st\<lparr>ls_state := lexstate_qvpair, ls_no_comments := True\<rparr>))
         else lex_vpair (st\<lparr>ls_state := lexstate_vpair\<rparr>) c)
      else lex_vpair st c)"

definition lex_string :: "lstate \<Rightarrow> u8 option \<Rightarrow> outcome option" where
  "lex_string st c =
     (if \<not> ls_escaped st \<and> c = Some 0x3d \<and> wants (ls_options st) ISC_LEXOPT_VPAIR then do {
        st \<leftarrow> put_char (the c) st;
        Some (Next (st\<lparr>ls_state := lexstate_vpairstart\<rparr>))
      }
      else lex_vpairstart st c)"

definition number_base :: "u32 \<Rightarrow> nat" where
  "number_base options = (if wants options ISC_LEXOPT_OCTAL then 8 else if wants options ISC_LEXOPT_CNUMBER then 0 else 10)"

definition lex_number :: "lstate \<Rightarrow> u8 option \<Rightarrow> outcome option" where
  "lex_number st c =
     (if c = None \<or> \<not> isdigit (the c) then
        (if c = Some 0x20 \<or> c = Some 0x09 \<or> c = Some 0x0d \<or> c = Some 0x0a \<or> c = None \<or> special st (the c) then do {
           st \<leftarrow> pushback c st;
           case isc_parse_uint32 (takeWhile (\<lambda>d. d \<noteq> 0) (lx_data (ls_lex st))) (number_base (ls_options st)) of
             Inr as_ulong \<Rightarrow> Some (Finished st \<lparr>tk_type = isc_tokentype_number, tk_value = As_ulong as_ulong\<rparr>)
           | Inl result \<Rightarrow>
               if result = ISC_R_BADNUMBER then do { tk \<leftarrow> text_token isc_tokentype_string st; Some (Finished st tk) }
               else Some (Failed st result)
         }
         else do {
           let st' = (if \<not> wants (ls_options st) ISC_LEXOPT_CNUMBER \<or> (c \<noteq> Some 0x78 \<and> c \<noteq> Some 0x58) \<or> ls_curr st \<noteq> 1 \<or> hd (lx_data (ls_lex st)) \<noteq> 0x30
             then st\<lparr>ls_state := lexstate_string\<rparr> else st);
           st \<leftarrow> put_char (the c) st';
           Some (Next st)
         })
      else do {
        st \<leftarrow> put_char (the c) (if wants (ls_options st) ISC_LEXOPT_OCTAL \<and> (c = Some 0x38 \<or> c = Some 0x39) then st\<lparr>ls_state := lexstate_string\<rparr> else st);
        Some (Next st)
      })"

definition set_last_eol :: "bool \<Rightarrow> lstate \<Rightarrow> lstate" where
  "set_last_eol b st = st\<lparr>ls_lex := (ls_lex st)\<lparr>lx_last_was_eol := b\<rparr>\<rparr>"

definition plain_token :: "isc_tokentype \<Rightarrow> isc_token" where
  "plain_token type = \<lparr>tk_type = type, tk_value = As_none\<rparr>"

text \<open>Before a token; \<open>unbalanced\<close> is what the end of the input finds open, also at the top of \<^verbatim>\<open>isc_lex_gettoken\<close>.\<close>

definition unbalanced :: "u32 \<Rightarrow> isc_lex \<Rightarrow> isc_lex option" where
  "unbalanced options lx =
     (if wants options ISC_LEXOPT_DNSMULTILINE \<and> lx_paren_count lx \<noteq> 0 then Some (lx\<lparr>lx_paren_count := 0\<rparr>)
      else if wants options ISC_LEXOPT_BTEXT \<and> lx_brace_count lx \<noteq> 0 then Some (lx\<lparr>lx_brace_count := 0\<rparr>)
      else None)"

definition lex_eof :: "lstate \<Rightarrow> outcome" where
  "lex_eof st =
     (case unbalanced (ls_options st) (ls_lex st) of
        Some lx \<Rightarrow> Failed (st\<lparr>ls_lex := lx\<rparr>) ISC_R_UNBALANCED
      | None \<Rightarrow> if \<not> wants (ls_options st) ISC_LEXOPT_EOF then Failed st ISC_R_EOF else Finished st (plain_token isc_tokentype_eof))"

definition lex_special :: "lstate \<Rightarrow> u8 \<Rightarrow> outcome" where
  "lex_special st c =
     (let lx = ls_lex st in
      if (c = 0x28 \<or> c = 0x29) \<and> wants (ls_options st) ISC_LEXOPT_DNSMULTILINE then
        (if c = 0x28 then
           Next (st\<lparr>ls_options := (if lx_paren_count lx = 0 then ls_options st AND NOT IWSEOL else ls_options st), ls_lex := lx\<lparr>lx_paren_count := lx_paren_count lx + 1\<rparr>\<rparr>)
         else if lx_paren_count lx = 0 then Failed st ISC_R_UNBALANCED
         else Next (st\<lparr>ls_options := (if lx_paren_count lx - 1 = 0 then ls_saved_options st else ls_options st), ls_lex := lx\<lparr>lx_paren_count := lx_paren_count lx - 1\<rparr>\<rparr>))
      else if c = 0x7b \<and> wants (ls_options st) ISC_LEXOPT_BTEXT then
        (if lx_brace_count lx \<noteq> 0 then Failed st ISC_R_UNBALANCED
         else Next (st\<lparr>ls_lex := lx\<lparr>lx_brace_count := lx_brace_count lx + 1\<rparr>, ls_options := ls_options st AND NOT IWSEOL, ls_state := lexstate_btext, ls_no_comments := True\<rparr>))
      else Finished st \<lparr>tk_type = isc_tokentype_special, tk_value = As_char c\<rparr>)"

definition lex_start :: "lstate \<Rightarrow> u8 option \<Rightarrow> outcome option" where
  "lex_start st ch =
     (case ch of
        None \<Rightarrow> Some (lex_eof (set_last_eol False st))
      | Some c \<Rightarrow>
          if c = 0x20 \<or> c = 0x09 then
            (if lx_last_was_eol (ls_lex st) \<and> wants (ls_options st) ISC_LEXOPT_INITIALWS
             then Some (Finished (set_last_eol False st) \<lparr>tk_type = isc_tokentype_initialws, tk_value = As_char c\<rparr>) else Some (Next st))
          else if c = 0x0a then
            (if wants (ls_options st) ISC_LEXOPT_EOL then Some (Finished (set_last_eol True st) (plain_token isc_tokentype_eol))
             else Some (Next (set_last_eol True st)))
          else if c = 0x0d then
            (if wants (ls_options st) ISC_LEXOPT_EOL then Some (Next (st\<lparr>ls_state := lexstate_crlf\<rparr>)) else Some (Next st))
          else if c = 0x22 \<and> wants (ls_options st) ISC_LEXOPT_QSTRING then
            Some (Next ((set_last_eol False st)\<lparr>ls_state := lexstate_qstring, ls_no_comments := True\<rparr>))
          else if special st c then Some (lex_special (set_last_eol False st) c)
          else if isdigit c \<and> wants (ls_options st) ISC_LEXOPT_NUMBER then
            (if wants (ls_options st) ISC_LEXOPT_OCTAL \<and> (c = 0x38 \<or> c = 0x39)
             then lex_string ((set_last_eol False st)\<lparr>ls_state := lexstate_string\<rparr>) ch
             else lex_number ((set_last_eol False st)\<lparr>ls_state := lexstate_number\<rparr>) ch)
          else lex_string ((set_last_eol False st)\<lparr>ls_state := lexstate_string\<rparr>) ch)"

definition lex_crlf :: "lstate \<Rightarrow> u8 option \<Rightarrow> outcome option" where
  "lex_crlf st c = do {
     st \<leftarrow> (if c \<noteq> Some 0x0a then pushback c st else Some st);
     Some (Finished (set_last_eol True st) (plain_token isc_tokentype_eol))
   }"

definition lex_qstring :: "lstate \<Rightarrow> u8 option \<Rightarrow> outcome option" where
  "lex_qstring st ch =
     (case ch of
        None \<Rightarrow> Some (Failed st ISC_R_UNEXPECTEDEND)
      | Some c \<Rightarrow>
          if c = 0x22 then
            (if ls_escaped st then do {
               INSIST (ls_prev st \<noteq> None);
               data \<leftarrow> poke (lx_data (ls_lex st)) (the (ls_prev st)) 0x22;
               Some (Next (st\<lparr>ls_lex := (ls_lex st)\<lparr>lx_data := data\<rparr>, ls_escaped := False\<rparr>))
             }
             else do {
               tk \<leftarrow> text_token (if ls_state st = lexstate_qstring then isc_tokentype_qstring else isc_tokentype_qvpair) st;
               Some (Finished (st\<lparr>ls_no_comments := False\<rparr>) tk)
             })
          else if c = 0x0a \<and> \<not> ls_escaped st \<and> \<not> wants (ls_options st) ISC_LEXOPT_QSTRINGMULTILINE then do {
            st \<leftarrow> pushback ch st;
            Some (Failed st ISC_R_UNBALANCEDQUOTES)
          }
          else do {
            st \<leftarrow> put_char c (st\<lparr>ls_escaped := (c = 0x5c \<and> \<not> ls_escaped st)\<rparr>);
            Some (Next (st\<lparr>ls_prev := Some (ls_curr st - 1)\<rparr>))
          })"

text \<open>The braces counted.\<close>

definition brace_step :: "lstate \<Rightarrow> u8 \<Rightarrow> lstate option" where
  "brace_step st c =
     (if c = 0x7b then
        Some (if ls_escaped st then st\<lparr>ls_escaped := False\<rparr> else st\<lparr>ls_lex := (ls_lex st)\<lparr>lx_brace_count := lx_brace_count (ls_lex st) + 1\<rparr>\<rparr>)
      else if c = 0x7d then
        (if ls_escaped st then Some (st\<lparr>ls_escaped := False\<rparr>)
         else do {
           INSIST (lx_brace_count (ls_lex st) > 0);
           Some (st\<lparr>ls_lex := (ls_lex st)\<lparr>lx_brace_count := lx_brace_count (ls_lex st) - 1\<rparr>\<rparr>)
         })
      else Some st)"

definition lex_btext :: "lstate \<Rightarrow> u8 option \<Rightarrow> outcome option" where
  "lex_btext st ch =
     (case ch of
        None \<Rightarrow> Some (Failed st ISC_R_UNEXPECTEDEND)
      | Some c \<Rightarrow> do {
          st \<leftarrow> brace_step st c;
          if c = 0x7d \<and> lx_brace_count (ls_lex st) = 0 then do {
            tk \<leftarrow> text_token isc_tokentype_btext st;
            Some (Finished (st\<lparr>ls_no_comments := False\<rparr>) tk)
          }
          else do {
            st \<leftarrow> put_char c (st\<lparr>ls_escaped := (c = 0x5c \<and> \<not> ls_escaped st)\<rparr>);
            Some (Next (st\<lparr>ls_prev := Some (ls_curr st - 1)\<rparr>))
          }
        })"

text \<open>After a comment, in the state before it, which is never that of a comment.\<close>

definition lex_resume :: "lstate \<Rightarrow> u8 option \<Rightarrow> outcome option" where
  "lex_resume st c = do {
     let st = st\<lparr>ls_state := ls_saved_state st, ls_no_comments := False\<rparr>;
     case ls_state st of
       lexstate_start \<Rightarrow> lex_start st c
     | lexstate_crlf \<Rightarrow> lex_crlf st c
     | lexstate_number \<Rightarrow> lex_number st c
     | lexstate_string \<Rightarrow> lex_string st c
     | lexstate_vpairstart \<Rightarrow> lex_vpairstart st c
     | lexstate_vpair \<Rightarrow> lex_vpair st c
     | _ \<Rightarrow> None
   }"

definition lex_switch :: "lstate \<Rightarrow> u8 option \<Rightarrow> outcome option" where
  "lex_switch st c =
     (case ls_state st of
        lexstate_start \<Rightarrow> lex_start st c
      | lexstate_crlf \<Rightarrow> lex_crlf st c
      | lexstate_number \<Rightarrow> lex_number st c
      | lexstate_string \<Rightarrow> lex_string st c
      | lexstate_vpairstart \<Rightarrow> lex_vpairstart st c
      | lexstate_vpair \<Rightarrow> lex_vpair st c
      | lexstate_maybecomment \<Rightarrow>
          if c = Some 0x2a \<and> wants (lx_comments (ls_lex st)) ISC_LEXCOMMENT_C then Some (Next (st\<lparr>ls_state := lexstate_ccomment\<rparr>))
          else if c = Some 0x2f \<and> wants (lx_comments (ls_lex st)) ISC_LEXCOMMENT_CPLUSPLUS then Some (Next (st\<lparr>ls_state := lexstate_eatline\<rparr>))
          else do { st \<leftarrow> pushback c st; lex_resume st (Some 0x2f) }
      | lexstate_ccomment \<Rightarrow>
          if c = None then Some (Failed st ISC_R_UNEXPECTEDEND)
          else Some (Next (if c = Some 0x2a then st\<lparr>ls_state := lexstate_ccommentend\<rparr> else st))
      | lexstate_ccommentend \<Rightarrow>
          if c = None then Some (Failed st ISC_R_UNEXPECTEDEND)
          else if c = Some 0x2f then lex_resume st (Some 0x20)
          else Some (Next (if c \<noteq> Some 0x2a then st\<lparr>ls_state := lexstate_ccomment\<rparr> else st))
      | lexstate_eatline \<Rightarrow> if c = Some 0x0a \<or> c = None then lex_resume st c else Some (Next st)
      | lexstate_qstring \<Rightarrow> lex_qstring st c
      | lexstate_qvpair \<Rightarrow> lex_qstring st c
      | lexstate_btext \<Rightarrow> lex_btext st c)"

section \<open>Reading a character\<close>

text \<open>From the pushback buffer, which is filled from the input first when it is empty.\<close>

definition refill :: "inputsource \<Rightarrow> (isc_result \<times> inputsource) option" where
  "refill source =
     (if isc_buffer_remaininglength (src_pushback source) = 0 then
        (case src_input source of
           Stream [] None \<Rightarrow> Some (ISC_R_SUCCESS, source\<lparr>src_at_eof := True\<rparr>)
         | Stream [] (Some result) \<Rightarrow> Some (result, source\<lparr>src_result := result\<rparr>)
         | Stream (c # cs) e \<Rightarrow> do { source \<leftarrow> pushandgrow (source\<lparr>src_input := Stream cs e\<rparr>) c; Some (ISC_R_SUCCESS, source) }
         | From_buffer buffer \<Rightarrow>
             if b_current buffer = b_used buffer then Some (ISC_R_SUCCESS, source\<lparr>src_at_eof := True\<rparr>)
             else do {
               c \<leftarrow> peek (b_base buffer) (b_current buffer);
               source \<leftarrow> pushandgrow (source\<lparr>src_input := From_buffer (buffer\<lparr>b_current := b_current buffer + 1\<rparr>)\<rparr>) c;
               Some (ISC_R_SUCCESS, source)
             })
      else Some (ISC_R_SUCCESS, source))"

definition read_char :: "bool \<Rightarrow> inputsource \<Rightarrow> (u8 option \<times> inputsource) option" where
  "read_char before source =
     (if \<not> src_at_eof source then do {
        let source = (if before then source\<lparr>src_ignored := b_current (src_pushback source)\<rparr> else source);
        (c, pb) \<leftarrow> isc_buffer_getuint8 (src_pushback source);
        Some (Some c, source\<lparr>src_pushback := pb, src_line := (if c = 0x0a then src_line source + 1 else src_line source)\<rparr>)
      }
      else Some (None, source))"

text \<open>The start of a comment.\<close>

definition comment_start :: "lstate \<Rightarrow> u8 option \<Rightarrow> lexstate option" where
  "comment_start st c =
     (let comments = lx_comments (ls_lex st) in
      if lx_comment_ok (ls_lex st) \<and> \<not> ls_no_comments st then
        (if \<not> ls_escaped st \<and> c = Some 0x3b \<and> wants comments ISC_LEXCOMMENT_DNSMASTERFILE then Some lexstate_eatline
         else if c = Some 0x2f \<and> wants comments (ISC_LEXCOMMENT_C OR ISC_LEXCOMMENT_CPLUSPLUS) then Some lexstate_maybecomment
         else if c = Some 0x23 \<and> wants comments ISC_LEXCOMMENT_SHELL then Some lexstate_eatline
         else None)
      else None)"

definition lex_round :: "lstate \<Rightarrow> outcome option" where
  "lex_round st = do {
     (result, source) \<leftarrow> refill (ls_source st);
     if result \<noteq> ISC_R_SUCCESS then Some (Failed (st\<lparr>ls_source := source\<rparr>) result)
     else do {
       (c, source) \<leftarrow> read_char (ls_state st = lexstate_start) source;
       let st = st\<lparr>ls_source := source\<rparr>;
       case comment_start st c of
         Some s \<Rightarrow> Some (Next (st\<lparr>ls_saved_state := ls_state st, ls_state := s, ls_no_comments := True\<rparr>))
       | None \<Rightarrow> lex_switch st c
     }
   }"

text \<open>Every round takes an octet of the input, but for the one after a slash that begins no comment; \<open>fuel\<close> is more than twice the input.\<close>

fun gettoken_loop :: "nat \<Rightarrow> lstate \<Rightarrow> (isc_result \<times> isc_token option \<times> lstate) option" where
  "gettoken_loop 0 st = None"
| "gettoken_loop (Suc fuel) st = do {
     r \<leftarrow> lex_round st;
     case r of
       Next st \<Rightarrow> gettoken_loop fuel st
     | Finished st tk \<Rightarrow> Some (ISC_R_SUCCESS, Some tk, st)
     | Failed st result \<Rightarrow> Some (result, None, st)
   }"

fun input_length :: "lex_input \<Rightarrow> nat" where
  "input_length (Stream cs e) = length cs"
| "input_length (From_buffer b) = b_used b - b_current b"

definition tries :: "isc_buffer \<Rightarrow> lex_input \<Rightarrow> nat" where
  "tries pb input = 2 * (length (buf_remaining pb) + input_length input) + 4"

text \<open>The variables when the loop begins; \<open>pb\<close> is the pushback buffer compacted.\<close>

definition first_state :: "isc_lex \<Rightarrow> inputsource \<Rightarrow> isc_buffer \<Rightarrow> u32 \<Rightarrow> lstate" where
  "first_state lx source pb options =
     \<lparr>ls_lex = lx\<lparr>lx_saved_paren_count := lx_paren_count lx, lx_data := (lx_data lx)[0 := 0]\<rparr>, ls_source = source\<lparr>src_saved_line := src_line source, src_pushback := pb\<rparr>,
      ls_options = (if wants options ISC_LEXOPT_DNSMULTILINE \<and> lx_paren_count lx > 0 then options AND NOT IWSEOL else options),
      ls_saved_options = options, ls_state = lexstate_start, ls_saved_state = lexstate_start, ls_no_comments = False, ls_escaped = False,
      ls_curr = 0, ls_prev = None, ls_remaining = lx_max_token lx\<rparr>"

text \<open>The result is the code, the token where there is one, and the lexer.\<close>

definition isc_lex_gettoken :: "isc_lex \<Rightarrow> u32 \<Rightarrow> (isc_result \<times> isc_token option \<times> isc_lex) option" where
  "isc_lex_gettoken lx options = do {
     REQUIRE (VALID_LEX lx);
     case lx_sources lx of
       [] \<Rightarrow> Some (if wants options ISC_LEXOPT_NOMORE then (ISC_R_SUCCESS, Some (plain_token isc_tokentype_nomore), lx) else (ISC_R_NOMORE, None, lx))
     | source # sources \<Rightarrow>
         if src_result source \<noteq> ISC_R_SUCCESS then Some (src_result source, None, lx)
         else if isc_buffer_remaininglength (src_pushback source) = 0 \<and> src_at_eof source then do {
           let lx = lx\<lparr>lx_saved_paren_count := lx_paren_count lx, lx_sources := source\<lparr>src_saved_line := src_line source\<rparr> # sources\<rparr>;
           Some (case unbalanced options lx of
                Some lx \<Rightarrow> (ISC_R_UNBALANCED, None, lx)
              | None \<Rightarrow> if wants options ISC_LEXOPT_EOF then (ISC_R_SUCCESS, Some (plain_token isc_tokentype_eof), lx) else (ISC_R_EOF, None, lx))
         }
         else do {
           pb \<leftarrow> isc_buffer_compact (src_pushback source);
           INSIST (lx_data lx \<noteq> []);
           (result, tk, st) \<leftarrow> gettoken_loop (tries pb (src_input source)) (first_state lx source pb options);
           Some (result, tk, (ls_lex st)\<lparr>lx_sources := ls_source st # sources\<rparr>)
         }
   }"

definition isc_lex_ungettoken :: "isc_lex \<Rightarrow> isc_token \<Rightarrow> isc_lex option" where
  "isc_lex_ungettoken lx tk = do {
     REQUIRE (VALID_LEX lx);
     case lx_sources lx of
       [] \<Rightarrow> None
     | source # sources \<Rightarrow> do {
         REQUIRE (b_current (src_pushback source) \<noteq> 0 \<or> tk_type tk = isc_tokentype_eof);
         pb \<leftarrow> isc_buffer_first (src_pushback source);
         Some (lx\<lparr>lx_paren_count := lx_saved_paren_count lx,
           lx_sources := source\<lparr>src_pushback := pb, src_line := src_saved_line source, src_at_eof := False\<rparr> # sources\<rparr>)
       }
   }"

text \<open>The text of the token just read, without what was skipped before it.\<close>

definition isc_lex_getlasttokentext :: "isc_lex \<Rightarrow> isc_token \<Rightarrow> bytes option" where
  "isc_lex_getlasttokentext lx tk = do {
     REQUIRE (VALID_LEX lx);
     case lx_sources lx of
       [] \<Rightarrow> None
     | source # sources \<Rightarrow> do {
         REQUIRE (b_current (src_pushback source) \<noteq> 0 \<or> tk_type tk = isc_tokentype_eof);
         INSIST (src_ignored source \<le> b_current (src_pushback source));
         fetch (b_base (src_pushback source)) (src_ignored source) (b_current (src_pushback source) - src_ignored source)
       }
   }"

definition isc_lex_getmastertoken :: "isc_lex \<Rightarrow> isc_token \<Rightarrow> isc_tokentype \<Rightarrow> bool \<Rightarrow> (isc_result \<times> isc_token \<times> isc_lex) option" where
  "isc_lex_getmastertoken lx tk0 expect eol = do {
     let options = ISC_LEXOPT_EOL OR ISC_LEXOPT_EOF OR ISC_LEXOPT_DNSMULTILINE OR ISC_LEXOPT_ESCAPE;
     let options =
       (if expect = isc_tokentype_vpair then options OR ISC_LEXOPT_VPAIR
        else if expect = isc_tokentype_qvpair then options OR ISC_LEXOPT_VPAIR OR ISC_LEXOPT_QVPAIR
        else if expect = isc_tokentype_qstring then options OR ISC_LEXOPT_QSTRING
        else if expect = isc_tokentype_number then options OR ISC_LEXOPT_NUMBER
        else options);
     (result, tk, lx) \<leftarrow> isc_lex_gettoken lx options;
     let tk = (case tk of Some tk \<Rightarrow> tk | None \<Rightarrow> tk0);
     lx \<leftarrow> (if result = ISC_R_RANGE then isc_lex_ungettoken lx tk else Some lx);
     if result \<noteq> ISC_R_SUCCESS then Some (result, tk, lx)
     else if eol \<and> (tk_type tk = isc_tokentype_eol \<or> tk_type tk = isc_tokentype_eof) then Some (ISC_R_SUCCESS, tk, lx)
     else if tk_type tk = isc_tokentype_string \<and> (expect = isc_tokentype_qstring \<or> expect = isc_tokentype_qvpair) then Some (ISC_R_SUCCESS, tk, lx)
     else if tk_type tk = isc_tokentype_vpair \<and> expect = isc_tokentype_qvpair then Some (ISC_R_SUCCESS, tk, lx)
     else if tk_type tk \<noteq> expect then do {
       lx \<leftarrow> isc_lex_ungettoken lx tk;
       Some (if tk_type tk = isc_tokentype_eol \<or> tk_type tk = isc_tokentype_eof then (ISC_R_UNEXPECTEDEND, tk, lx)
             else if expect = isc_tokentype_number then (ISC_R_BADNUMBER, tk, lx) else (ISC_R_UNEXPECTEDTOKEN, tk, lx))
     }
     else Some (ISC_R_SUCCESS, tk, lx)
   }"

definition isc_lex_getoctaltoken :: "isc_lex \<Rightarrow> isc_token \<Rightarrow> bool \<Rightarrow> (isc_result \<times> isc_token \<times> isc_lex) option" where
  "isc_lex_getoctaltoken lx tk0 eol = do {
     (result, tk, lx) \<leftarrow> isc_lex_gettoken lx
       (ISC_LEXOPT_EOL OR ISC_LEXOPT_EOF OR ISC_LEXOPT_DNSMULTILINE OR ISC_LEXOPT_ESCAPE OR ISC_LEXOPT_NUMBER OR ISC_LEXOPT_OCTAL);
     let tk = (case tk of Some tk \<Rightarrow> tk | None \<Rightarrow> tk0);
     lx \<leftarrow> (if result = ISC_R_RANGE then isc_lex_ungettoken lx tk else Some lx);
     if result \<noteq> ISC_R_SUCCESS then Some (result, tk, lx)
     else if eol \<and> (tk_type tk = isc_tokentype_eol \<or> tk_type tk = isc_tokentype_eof) then Some (ISC_R_SUCCESS, tk, lx)
     else if tk_type tk \<noteq> isc_tokentype_number then do {
       lx \<leftarrow> isc_lex_ungettoken lx tk;
       Some (if tk_type tk = isc_tokentype_eol \<or> tk_type tk = isc_tokentype_eof then (ISC_R_UNEXPECTEDEND, tk, lx) else (ISC_R_BADNUMBER, tk, lx))
     }
     else Some (ISC_R_SUCCESS, tk, lx)
   }"

section \<open>The source as a list\<close>

fun input_octets :: "lex_input \<Rightarrow> bytes" where
  "input_octets (Stream cs e) = cs"
| "input_octets (From_buffer b) = buf_remaining b"

fun input_ok :: "lex_input \<Rightarrow> bool" where
  "input_ok (Stream cs e) \<longleftrightarrow> e \<noteq> Some ISC_R_SUCCESS"
| "input_ok (From_buffer b) \<longleftrightarrow> buf_ok b"

text \<open>How the reading of it ends.\<close>

fun input_end :: "lex_input \<Rightarrow> isc_result option" where
  "input_end (Stream cs e) = e"
| "input_end (From_buffer b) = None"

definition pending :: "inputsource \<Rightarrow> bytes" where
  "pending s = buf_remaining (src_pushback s) @ input_octets (src_input s)"

definition src_ok :: "inputsource \<Rightarrow> bool" where
  "src_ok s \<longleftrightarrow> buf_ok (src_pushback s) \<and> 0 < b_length (src_pushback s) \<and> input_ok (src_input s) \<and>
     b_used (src_pushback s) + length (input_octets (src_input s)) < 2 ^ 31 \<and> (src_at_eof s \<longrightarrow> pending s = [])"

text \<open>The octet that a pushback puts back.\<close>

definition last_read :: "inputsource \<Rightarrow> u8" where
  "last_read s = b_base (src_pushback s) ! (b_current (src_pushback s) - 1)"

lemma putuint8_room: "buf_ok b \<Longrightarrow> 0 < buf_room b \<Longrightarrow> isc_buffer_putuint8 b c = Some (grown b [c])"
proof -
  assume b: "buf_ok b" and r: "0 < buf_room b"
  have "usub64 (b_length b) (b_used b) = buf_room b" using buf_okD [OF b] by (simp add: usub64_eq buf_room_def)
  then have "put_reserve b 1 = Some b" using b r buf_okD(1) [OF b] by (simp add: put_reserve_def isc_buffer_reserve_def)
  moreover have "b_used b + 1 \<le> length (b_base b)" using buf_okD [OF b] r by (simp add: buf_room_def)
  ultimately show ?thesis by (simp add: isc_buffer_putuint8_def store_def grown_def)
qed

lemma grown_remaining: "buf_ok b \<Longrightarrow> length xs \<le> buf_room b \<Longrightarrow> buf_remaining (grown b xs) = buf_remaining b @ xs"
  using buf_okD(5) [of b] by (simp add: buf_remaining_def) (simp add: grown_def)

lemma allocate_copy:
  assumes b: "buf_ok b" and n: "b_used b \<le> n" "n < 2 ^ 32"
  shows "\<exists>t. do { tbuf \<leftarrow> isc_buffer_allocate n; used \<leftarrow> isc_buffer_usedregion b; (result, tbuf) \<leftarrow> isc_buffer_copyregion tbuf used;
      INSIST (result = ISC_R_SUCCESS); Some (tbuf\<lparr>b_current := b_current b\<rparr>) } = Some t \<and>
    buf_ok t \<and> b_length t = n \<and> b_used t = b_used b \<and> b_current t = b_current b \<and> buf_content t = buf_content b"
proof -
  let ?a = "(isc_buffer_init (replicate n 0) n)\<lparr>b_extra := n, b_mctx := True\<rparr>"
  have al: "isc_buffer_allocate n = Some ?a"
    by (simp add: isc_buffer_allocate_def isc_buffer_setmctx_def isc_buffer_init_def ISC_BUFFER_VALID_def)
  have ok: "buf_ok ?a" using n(2) by (simp add: buf_ok_def isc_buffer_init_def ISC_BUFFER_VALID_def)
  have rm: "buf_room ?a = n" "b_used ?a = 0" "buf_content ?a = []" by (simp_all add: buf_room_def isc_buffer_init_def buf_content_def)
  have us: "usub64 n 0 = n" using n(2) by (simp add: usub64_def)
  have rs: "isc_buffer_reserve ?a (b_used b) = Some (ISC_R_SUCCESS, ?a)"
    using n us by (simp add: isc_buffer_reserve_def isc_buffer_init_def ISC_BUFFER_VALID_def)
  have fe: "fetch (b_base b) 0 (b_used b) = Some (buf_content b)" using buf_okD [OF b] by (simp add: buf_content_def)
  let ?t = "grown ?a (buf_content b)"
  have len: "length (buf_content b) = b_used b" using b by simp
  have "isc_buffer_copyregion ?a \<lparr>r_base = b_base b, r_length = b_used b\<rparr> = Some (ISC_R_SUCCESS, ?t)"
  proof (cases "b_used b = 0")
    case True
    then have "buf_content b = []" by (simp add: buf_content_def)
    then show ?thesis using rs True ok by (simp add: isc_buffer_copyregion_def isc_buffer_init_def ISC_BUFFER_VALID_def)
  next
    case False
    have "store ?a (buf_content b) = Some ?t" using rm(1) n len by (simp add: store_def grown_def isc_buffer_init_def)
    then show ?thesis using rs False ok rm fe n unfolding isc_buffer_copyregion_def
      by (simp add: availablelength_eq buf_okD(1) isc_buffer_init_def) 
  qed
  moreover have "isc_buffer_usedregion b = Some \<lparr>r_base = b_base b, r_length = b_used b\<rparr>" using b by (simp add: isc_buffer_usedregion_def buf_okD(1))
  ultimately have "do { tbuf \<leftarrow> isc_buffer_allocate n; used \<leftarrow> isc_buffer_usedregion b; (result, tbuf) \<leftarrow> isc_buffer_copyregion tbuf used;
      INSIST (result = ISC_R_SUCCESS); Some (tbuf\<lparr>b_current := b_current b\<rparr>) } = Some (?t\<lparr>b_current := b_current b\<rparr>)" using al by simp
  moreover have t: "buf_ok ?t" "b_used ?t = b_used b" "buf_content ?t = buf_content b" "b_length ?t = n"
    using ok rm len n by (simp_all) (simp add: grown_def isc_buffer_init_def)
  moreover have "buf_ok (?t\<lparr>b_current := b_current b\<rparr>)" using t(1,2) buf_okD(5) [OF b] by (simp add: buf_ok_def ISC_BUFFER_VALID_def)
  ultimately show ?thesis by (simp add: buf_content_def)
qed

text \<open>What the source began with, and where, as long as the token is read.\<close>

definition same_text :: "inputsource \<Rightarrow> inputsource \<Rightarrow> bool" where
  "same_text s s' \<longleftrightarrow> buf_content (src_pushback s') @ input_octets (src_input s') = buf_content (src_pushback s) @ input_octets (src_input s) \<and>
     src_saved_line s' = src_saved_line s \<and> input_end (src_input s') = input_end (src_input s)"

lemma same_text_refl [simp]: "same_text s s"
  by (simp add: same_text_def)

lemma same_text_trans: "same_text s s' \<Longrightarrow> same_text s' s'' \<Longrightarrow> same_text s s''"
  by (simp add: same_text_def)

lemma pushandgrow_ok:
  assumes "buf_ok (src_pushback s)" "0 < b_length (src_pushback s)" "b_used (src_pushback s) < 2 ^ 31"
  shows "\<exists>pb. pushandgrow s c = Some (s\<lparr>src_pushback := pb\<rparr>) \<and> buf_ok pb \<and> 0 < b_length pb \<and> b_used pb = Suc (b_used (src_pushback s)) \<and>
    b_current pb = b_current (src_pushback s) \<and> buf_remaining pb = buf_remaining (src_pushback s) @ [c] \<and> buf_content pb = buf_content (src_pushback s) @ [c]"
proof -
  let ?b = "src_pushback s"
  have "\<exists>t. (if isc_buffer_availablelength ?b = 0 then do {
         tbuf \<leftarrow> isc_buffer_allocate (b_length ?b * 2 mod 2 ^ 32);
         used \<leftarrow> isc_buffer_usedregion ?b;
         (result, tbuf) \<leftarrow> isc_buffer_copyregion tbuf used;
         INSIST (result = ISC_R_SUCCESS);
         Some (tbuf\<lparr>b_current := b_current ?b\<rparr>)
       }
       else Some ?b) = Some t \<and> buf_ok t \<and> 0 < b_length t \<and> b_used t = b_used ?b \<and> b_current t = b_current ?b \<and> buf_content t = buf_content ?b \<and> 0 < buf_room t"
  proof (cases "buf_room ?b = 0")
    case True
    then have l: "b_length ?b = b_used ?b" using buf_okD(4) [OF assms(1)] by (simp add: buf_room_def)
    then have n: "b_length ?b * 2 mod 2 ^ 32 = b_length ?b * 2" "b_length ?b * 2 < 2 ^ 32" using assms(3) by auto
    then show ?thesis using allocate_copy [OF assms(1), of "b_length ?b * 2"] True l assms(1,2) unfolding n(1) by (auto simp: buf_room_def)
  next
    case False
    then show ?thesis using assms by simp
  qed
  then obtain t where t: "(if isc_buffer_availablelength ?b = 0 then do {
         tbuf \<leftarrow> isc_buffer_allocate (b_length ?b * 2 mod 2 ^ 32);
         used \<leftarrow> isc_buffer_usedregion ?b;
         (result, tbuf) \<leftarrow> isc_buffer_copyregion tbuf used;
         INSIST (result = ISC_R_SUCCESS);
         Some (tbuf\<lparr>b_current := b_current ?b\<rparr>)
       }
       else Some ?b) = Some t" "buf_ok t" "0 < b_length t" "b_used t = b_used ?b" "b_current t = b_current ?b" "buf_content t = buf_content ?b" "0 < buf_room t"
    by blast
  have "pushandgrow s c = Some (s\<lparr>src_pushback := grown t [c]\<rparr>)"
    unfolding pushandgrow_def t(1) using putuint8_room [OF t(2,7)] by simp
  moreover have "buf_remaining (grown t [c]) = buf_remaining ?b @ [c]" using grown_remaining [of t "[c]"] t by (simp add: buf_remaining_def)
  moreover have "b_length (grown t [c]) = b_length t" "b_current (grown t [c]) = b_current t" by (simp_all add: grown_def)
  ultimately show ?thesis using t by (intro exI [of _ "grown t [c]"]) simp
qed

lemma remaining_Cons:
  assumes "buf_ok b" "buf_remaining b = x # xs"
  shows "isc_buffer_getuint8 b = Some (x, b\<lparr>b_current := b_current b + 1\<rparr>)" "buf_ok (b\<lparr>b_current := b_current b + 1\<rparr>)"
    "buf_remaining (b\<lparr>b_current := b_current b + 1\<rparr>) = xs" "b_base b ! b_current b = x" "b_current b < b_used b"
proof -
  have "\<not> b_used b \<le> b_current b"
  proof
    assume "b_used b \<le> b_current b"
    then have "buf_remaining b = []" by (simp add: buf_remaining_def buf_content_def)
    then show False using assms(2) by simp
  qed
  then have lt: "b_current b < b_used b" "b_used b \<le> length (b_base b)" using buf_okD(2,4) [OF assms(1)] by auto
  show "isc_buffer_getuint8 b = Some (x, b\<lparr>b_current := b_current b + 1\<rparr>)"
    using assms by (simp add: isc_buffer_getuint8_def isc_buffer_peekuint8_def peek_octets_eq)
  show "buf_ok (b\<lparr>b_current := b_current b + 1\<rparr>)" using assms(1) lt by (simp add: buf_ok_def ISC_BUFFER_VALID_def)
  have d: "drop (b_current b) (take (b_used b) (b_base b)) = x # xs" using assms(2) by (simp add: buf_remaining_def buf_content_def)
  then show "buf_remaining (b\<lparr>b_current := b_current b + 1\<rparr>) = xs" by (simp add: buf_remaining_def buf_content_def drop_Suc) (metis drop_tl list.sel(3) tl_drop)
  show "b_base b ! b_current b = x" using d lt by (metis Cons_nth_drop_Suc length_take list.inject min.absorb2 nth_take)
  show "b_current b < b_used b" by (rule lt(1))
qed

text \<open>A character is read.\<close>

lemma read_next:
  assumes "src_ok s" "pending s = x # xs"
  shows "\<exists>s1 s2. refill s = Some (ISC_R_SUCCESS, s1) \<and> read_char before s1 = Some (Some x, s2) \<and> src_ok s2 \<and> pending s2 = xs \<and> \<not> src_at_eof s2 \<and>
    last_read s2 = x \<and> b_current (src_pushback s2) = b_current (src_pushback s) + 1 \<and> src_result s2 = src_result s \<and> src_last_was_eol s2 = src_last_was_eol s \<and>
    same_text s s2"
proof -
  have ok: "buf_ok (src_pushback s)" "0 < b_length (src_pushback s)" "input_ok (src_input s)" "\<not> src_at_eof s"
    "b_used (src_pushback s) + length (input_octets (src_input s)) < 2 ^ 31" using assms by (auto simp: src_ok_def)
  have "\<exists>s1. refill s = Some (ISC_R_SUCCESS, s1) \<and> src_ok s1 \<and> \<not> src_at_eof s1 \<and> (\<exists>ys. buf_remaining (src_pushback s1) = x # ys \<and> xs = ys @ input_octets (src_input s1)) \<and>
    b_current (src_pushback s1) = b_current (src_pushback s) \<and> src_result s1 = src_result s \<and> src_last_was_eol s1 = src_last_was_eol s \<and> same_text s s1"
  proof (cases "buf_remaining (src_pushback s) = []")
    case False
    then obtain ys where ys: "buf_remaining (src_pushback s) = x # ys" "xs = ys @ input_octets (src_input s)" using assms(2) by (cases "buf_remaining (src_pushback s)") (auto simp: pending_def)
    then have "refill s = Some (ISC_R_SUCCESS, s)" using ok(1) by (simp add: refill_def)
    then show ?thesis using ys assms(1) ok(4) same_text_refl by blast
  next
    case True
    then have in_xs: "input_octets (src_input s) = x # xs" using assms(2) by (simp add: pending_def)
    let ?i = "case src_input s of Stream cs e \<Rightarrow> Stream (tl cs) e | From_buffer b \<Rightarrow> From_buffer (b\<lparr>b_current := b_current b + 1\<rparr>)"
    let ?s = "s\<lparr>src_input := ?i\<rparr>"
    obtain pb where pb: "pushandgrow ?s x = Some (?s\<lparr>src_pushback := pb\<rparr>)" "buf_ok pb" "0 < b_length pb" "b_used pb = Suc (b_used (src_pushback s))"
      "b_current pb = b_current (src_pushback s)" "buf_remaining pb = buf_remaining (src_pushback s) @ [x]" "buf_content pb = buf_content (src_pushback s) @ [x]"
      using pushandgrow_ok [of ?s x] ok by auto
    have i: "input_octets ?i = xs" "input_ok ?i" "input_end ?i = input_end (src_input s)"
      using in_xs ok(3) remaining_Cons(2,3) by (auto split: lex_input.split)
    have "refill s = Some (ISC_R_SUCCESS, ?s\<lparr>src_pushback := pb\<rparr>)"
    proof (cases "src_input s")
      case (Stream cs e)
      then show ?thesis using True in_xs ok(1) pb(1) by (cases cs) (auto simp: refill_def)
    next
      case (From_buffer b)
      have "buf_ok b" using ok(3) From_buffer by simp
      from remaining_Cons(4,5) [OF this, of x xs] have r: "b_current b < b_used b" "b_base b ! b_current b = x" using in_xs From_buffer by simp_all
      moreover have "b_current b < length (b_base b)" using r(1) buf_okD(2,4) [OF \<open>buf_ok b\<close>] by simp
      ultimately show ?thesis using True ok(1) pb(1) From_buffer by (simp add: refill_def)
    qed
    moreover have "src_ok (?s\<lparr>src_pushback := pb\<rparr>)" using pb i ok in_xs by (simp add: src_ok_def)
    moreover have "same_text s (?s\<lparr>src_pushback := pb\<rparr>)" using pb(7) i(1,3) in_xs by (simp add: same_text_def)
    ultimately show ?thesis using pb(5,6) i(1) True ok(4) by auto
  qed
  then obtain s1 ys where s1: "refill s = Some (ISC_R_SUCCESS, s1)" "src_ok s1" "\<not> src_at_eof s1" "buf_remaining (src_pushback s1) = x # ys" "xs = ys @ input_octets (src_input s1)"
    "src_result s1 = src_result s" "src_last_was_eol s1 = src_last_was_eol s" "b_current (src_pushback s1) = b_current (src_pushback s)" "same_text s s1" by blast
  have b1: "buf_ok (src_pushback s1)" using s1(2) by (simp add: src_ok_def)
  note r = remaining_Cons [OF b1 s1(4)]
  let ?s2 = "s1\<lparr>src_pushback := (src_pushback s1)\<lparr>b_current := b_current (src_pushback s1) + 1\<rparr>, src_ignored := (if before then b_current (src_pushback s1) else src_ignored s1),
    src_line := (if x = 0x0a then src_line s1 + 1 else src_line s1)\<rparr>"
  have "read_char before s1 = Some (Some x, ?s2)" using s1(3) r(1) by (simp add: read_char_def)
  moreover have "src_ok ?s2" using s1(2,3) r(2) by (simp add: src_ok_def)
  moreover have "pending ?s2 = xs" using r(3) s1(5) by (simp add: pending_def)
  moreover have "last_read ?s2 = x" using r(4) by (simp add: last_read_def)
  moreover have "same_text s ?s2" using s1(9) by (simp add: same_text_def buf_content_def)
  ultimately show ?thesis using s1(1,3,6,7,8) by (intro exI [of _ s1] exI [of _ ?s2]) simp
qed

lemma read_end:
  assumes "src_ok s" "pending s = []"
  shows "(\<exists>r s1. refill s = Some (r, s1) \<and> r \<noteq> ISC_R_SUCCESS \<and> src_ok s1 \<and> same_text s s1) \<or>
    refill s = Some (ISC_R_SUCCESS, s\<lparr>src_at_eof := True\<rparr>) \<and> read_char before (s\<lparr>src_at_eof := True\<rparr>) = Some (None, s\<lparr>src_at_eof := True\<rparr>) \<and> src_ok (s\<lparr>src_at_eof := True\<rparr>)"
proof -
  have ok: "buf_ok (src_pushback s)" "input_ok (src_input s)" using assms(1) by (auto simp: src_ok_def)
  have e: "buf_remaining (src_pushback s) = []" "input_octets (src_input s) = []" using assms(2) by (auto simp: pending_def)
  show ?thesis
  proof (cases "src_input s")
    case (Stream cs er)
    then show ?thesis using e ok assms by (cases er) (auto simp: refill_def read_char_def src_ok_def pending_def same_text_def)
  next
    case (From_buffer b)
    have "buf_ok b" using ok(2) From_buffer by simp
    then have "b_current b = b_used b" using e(2) From_buffer buf_okD(2,4,5) [of b] by (auto simp: buf_remaining_def buf_content_def)
    then show ?thesis using e ok assms From_buffer by (auto simp: refill_def read_char_def src_ok_def pending_def)
  qed
qed

text \<open>A character is pushed back.\<close>

lemma pushback_some:
  assumes "src_ok (ls_source st)" "0 < b_current (src_pushback (ls_source st))" "\<not> src_at_eof (ls_source st)"
  shows "\<exists>s. pushback (Some c) st = Some (st\<lparr>ls_source := s\<rparr>) \<and> src_ok s \<and> pending s = last_read (ls_source st) # pending (ls_source st) \<and>
    src_result s = src_result (ls_source st) \<and> \<not> src_at_eof s \<and> b_current (src_pushback s) = b_current (src_pushback (ls_source st)) - 1"
proof -
  let ?s = "ls_source st" and ?b = "src_pushback (ls_source st)"
  let ?b' = "?b\<lparr>b_current := b_current ?b - 1\<rparr>"
  have b: "buf_ok ?b" using assms(1) by (simp add: src_ok_def)
  have lt: "b_current ?b - 1 < b_used ?b" "b_used ?b \<le> length (b_base ?b)" using buf_okD [OF b] assms(2) by auto
  have "buf_ok ?b'" using b by (auto simp: buf_ok_def ISC_BUFFER_VALID_def)
  moreover have "buf_remaining ?b' = last_read ?s # buf_remaining ?b"
    using lt assms(2) Cons_nth_drop_Suc [of "b_current ?b - 1" "take (b_used ?b) (b_base ?b)"] by (simp add: buf_remaining_def buf_content_def last_read_def)
  ultimately show ?thesis using assms
    by (intro exI [of _ "?s\<lparr>src_pushback := ?b', src_line := (if c = 0x0a then src_line ?s - 1 else src_line ?s)\<rparr>"]) (simp add: pushback_def Let_def src_ok_def pending_def)
qed

lemma pushback_none:
  assumes "src_ok (ls_source st)" "0 < b_current (src_pushback (ls_source st))"
  shows "\<exists>s. pushback None st = Some (st\<lparr>ls_source := s\<rparr>) \<and> src_ok s \<and> pending s = pending (ls_source st) \<and> src_result s = src_result (ls_source st) \<and>
    b_current (src_pushback s) = b_current (src_pushback (ls_source st)) \<and> \<not> src_at_eof s"
  using assms by (intro exI [of _ "(ls_source st)\<lparr>src_at_eof := False\<rparr>"]) (simp add: pushback_def Let_def src_ok_def pending_def)

section \<open>What holds between the rounds\<close>

abbreviation comment_states :: "lexstate set" where
  "comment_states \<equiv> {lexstate_maybecomment, lexstate_ccomment, lexstate_ccommentend, lexstate_eatline}"

abbreviation resumable :: "lexstate set" where
  "resumable \<equiv> {lexstate_start, lexstate_crlf, lexstate_number, lexstate_string, lexstate_vpairstart, lexstate_vpair}"

text \<open>
  \<open>lex_fit\<close>: the array has room for a token of the size that is noted.  \<open>mode_ok\<close>: comments are read only before, after and inside plain words,
  and a backslash is remembered only where one may be.
\<close>

definition lex_fit :: "isc_lex \<Rightarrow> bool" where
  "lex_fit lx \<longleftrightarrow> VALID_LEX lx \<and> 0 < lx_max_token lx \<and> length (lx_data lx) = lx_max_token lx + 1"

definition place_ok :: "isc_lex \<Rightarrow> nat \<Rightarrow> nat \<Rightarrow> nat option \<Rightarrow> bool" where
  "place_ok lx i remaining prev \<longleftrightarrow> lex_fit lx \<and> i + remaining = lx_max_token lx \<and> (case prev of None \<Rightarrow> True | Some p \<Rightarrow> p < i)"

definition mode_ok :: "lexstate \<Rightarrow> lexstate \<Rightarrow> bool \<Rightarrow> bool \<Rightarrow> bool \<Rightarrow> bool" where
  "mode_ok state saved no_comments escaped has_prev \<longleftrightarrow>
     (if state \<in> comment_states then no_comments \<and> saved \<in> resumable \<and> (escaped \<longrightarrow> saved \<in> {lexstate_string, lexstate_vpair})
      else if state \<in> {lexstate_qstring, lexstate_qvpair} then no_comments \<and> (escaped \<longrightarrow> has_prev)
      else if state = lexstate_btext then no_comments
      else escaped \<longrightarrow> state \<in> {lexstate_string, lexstate_vpair})"

definition reading_ok :: "lexstate \<Rightarrow> inputsource \<Rightarrow> bool" where
  "reading_ok state s \<longleftrightarrow> src_ok s \<and> src_result s = ISC_R_SUCCESS \<and> (state \<noteq> lexstate_start \<longrightarrow> 0 < b_current (src_pushback s))"

definition braces_ok :: "lexstate \<Rightarrow> u32 \<Rightarrow> nat \<Rightarrow> bool" where
  "braces_ok state count n \<longleftrightarrow> (state = lexstate_btext \<longrightarrow> 0 < count \<and> unat count + n < 2 ^ 32)"

definition st_end :: "lstate \<Rightarrow> bool" where
  "st_end st \<longleftrightarrow> src_ok (ls_source st) \<and> lex_fit (ls_lex st)"

definition st_ok :: "lstate \<Rightarrow> bool" where
  "st_ok st \<longleftrightarrow> place_ok (ls_lex st) (ls_curr st) (ls_remaining st) (ls_prev st) \<and>
     mode_ok (ls_state st) (ls_saved_state st) (ls_no_comments st) (ls_escaped st) (ls_prev st \<noteq> None) \<and> reading_ok (ls_state st) (ls_source st) \<and>
     braces_ok (ls_state st) (lx_brace_count (ls_lex st)) (length (pending (ls_source st)))"

lemma st_ok_end: "st_ok st \<Longrightarrow> st_end st"
  by (simp add: st_ok_def st_end_def place_ok_def reading_ok_def)

definition steps_left :: "lstate \<Rightarrow> nat" where
  "steps_left st = 2 * length (pending (ls_source st)) + (if ls_state st = lexstate_maybecomment then 1 else 0)"

fun fine :: "nat \<Rightarrow> outcome \<Rightarrow> bool" where
  "fine n (Next st) \<longleftrightarrow> st_ok st \<and> steps_left st < n"
| "fine n (Finished st tk) \<longleftrightarrow> st_end st"
| "fine n (Failed st r) \<longleftrightarrow> st_end st"

text \<open>The state when a character was read, or is to be looked at again after a comment.\<close>

definition got :: "nat \<Rightarrow> lstate \<Rightarrow> u8 option \<Rightarrow> bool" where
  "got n st c \<longleftrightarrow> st_ok st \<and> (c \<noteq> None \<longrightarrow> \<not> src_at_eof (ls_source st) \<and> 0 < b_current (src_pushback (ls_source st)) \<and> 2 * length (pending (ls_source st)) < n \<and>
     braces_ok (ls_state st) (lx_brace_count (ls_lex st)) (length (pending (ls_source st)) + 1))"

lemma put_char_ok:
  assumes "lex_fit (ls_lex st)" "ls_curr st + ls_remaining st = lx_max_token (ls_lex st)"
  shows "\<exists>lx r. put_char c st = Some (st\<lparr>ls_lex := lx, ls_curr := ls_curr st + 1, ls_remaining := r\<rparr>) \<and> lex_fit lx \<and> ls_curr st + 1 + r = lx_max_token lx \<and>
    lx_brace_count lx = lx_brace_count (ls_lex st) \<and> take (ls_curr st + 1) (lx_data lx) = take (ls_curr st) (lx_data (ls_lex st)) @ [c] \<and>
    lx_data lx ! (ls_curr st + 1) = 0 \<and> lx_specials lx = lx_specials (ls_lex st) \<and> lx_comments lx = lx_comments (ls_lex st) \<and>
    lx_paren_count lx = lx_paren_count (ls_lex st) \<and> lx_last_was_eol lx = lx_last_was_eol (ls_lex st) \<and> lx_sources lx = lx_sources (ls_lex st) \<and>
    lx_comment_ok lx = lx_comment_ok (ls_lex st) \<and> lx_saved_paren_count lx = lx_saved_paren_count (ls_lex st)"
proof -
  let ?st = "if ls_remaining st = 0 then grow_data st else st"
  let ?d = "lx_data (ls_lex ?st)"
  have f: "length ?d = lx_max_token (ls_lex ?st) + 1" "0 < ls_remaining ?st" "ls_curr ?st + ls_remaining ?st = lx_max_token (ls_lex ?st)" "ls_curr ?st = ls_curr st"
    "take (ls_curr st) ?d = take (ls_curr st) (lx_data (ls_lex st))"
    using assms by (auto simp: grow_data_def Let_def lex_fit_def)
  let ?i = "ls_curr st"
  have i: "?i < length ?d" "?i + 1 < length ?d" using f by auto
  let ?lx = "(ls_lex ?st)\<lparr>lx_data := ?d[?i := c, ?i + 1 := 0]\<rparr>"
  have "put_char c st = Some (?st\<lparr>ls_lex := ?lx, ls_curr := ls_curr st + 1, ls_remaining := ls_remaining ?st - 1\<rparr>)"
    using f i by (simp add: put_char_def Let_def del: poke_eq_Some)
  moreover have "?st\<lparr>ls_lex := ?lx, ls_curr := ls_curr st + 1, ls_remaining := ls_remaining ?st - 1\<rparr> = st\<lparr>ls_lex := ?lx, ls_curr := ls_curr st + 1, ls_remaining := ls_remaining ?st - 1\<rparr>"
    by (simp add: grow_data_def Let_def)
  moreover have "take (?i + 1) (?d[?i := c, ?i + 1 := 0]) = take ?i (lx_data (ls_lex st)) @ [c]"
    using i f(5) by (simp add: take_Suc_conv_app_nth)
  moreover have "lex_fit ?lx" using assms(1) f by (auto simp: lex_fit_def VALID_LEX_def grow_data_def Let_def)
  ultimately show ?thesis using f i by (intro exI [of _ ?lx] exI [of _ "ls_remaining ?st - 1"]) (auto simp: grow_data_def Let_def)
qed

lemma text_token_ok: "lex_fit (ls_lex st) \<Longrightarrow> \<exists>tk. text_token type st = Some tk"
  by (simp add: text_token_def lex_fit_def)


lemma put_char_keeps:
  assumes "st_ok st"
  shows "\<exists>lx r. put_char c st = Some (st\<lparr>ls_lex := lx, ls_curr := ls_curr st + 1, ls_remaining := r\<rparr>) \<and>
    st_ok (st\<lparr>ls_lex := lx, ls_curr := ls_curr st + 1, ls_remaining := r\<rparr>) \<and> place_ok lx (ls_curr st + 1) r (Some (ls_curr st)) \<and> lx_brace_count lx = lx_brace_count (ls_lex st)"
proof -
  have f: "lex_fit (ls_lex st)" "ls_curr st + ls_remaining st = lx_max_token (ls_lex st)" using assms by (simp_all add: st_ok_def place_ok_def)
  obtain lx r where p: "put_char c st = Some (st\<lparr>ls_lex := lx, ls_curr := ls_curr st + 1, ls_remaining := r\<rparr>)" "lex_fit lx" "ls_curr st + 1 + r = lx_max_token lx"
    "lx_brace_count lx = lx_brace_count (ls_lex st)" using put_char_ok [OF f, of c] by blast
  have "place_ok lx (ls_curr st + 1) r (ls_prev st)" using assms p by (auto simp: place_ok_def st_ok_def split: option.splits)
  then have "st_ok (st\<lparr>ls_lex := lx, ls_curr := ls_curr st + 1, ls_remaining := r\<rparr>)" using assms p(4) by (simp add: st_ok_def)
  then show ?thesis using p by (auto simp: place_ok_def)
qed

lemma put_char_next:
  assumes "st_ok st" "ls_state st \<noteq> lexstate_maybecomment" "2 * length (pending (ls_source st)) < n"
  shows "\<exists>st'. put_char c st = Some st' \<and> fine n (Next st')"
proof -
  obtain lx r where p: "put_char c st = Some (st\<lparr>ls_lex := lx, ls_curr := ls_curr st + 1, ls_remaining := r\<rparr>)"
    "st_ok (st\<lparr>ls_lex := lx, ls_curr := ls_curr st + 1, ls_remaining := r\<rparr>)" using put_char_keeps [OF assms(1), of c] by blast
  moreover have "steps_left (st\<lparr>ls_lex := lx, ls_curr := ls_curr st + 1, ls_remaining := r\<rparr>) < n" using assms(2,3) by (simp add: steps_left_def)
  ultimately show ?thesis by (metis fine.simps(1))
qed

text \<open>Pushing back ends a token.\<close>

lemma got_pushback:
  assumes g: "got n st c" and "ls_state st \<noteq> lexstate_start"
  shows "\<exists>s. pushback c st = Some (st\<lparr>ls_source := s\<rparr>) \<and> src_result s = ISC_R_SUCCESS \<and> st_end (st\<lparr>ls_source := s\<rparr>)"
proof -
  have k: "src_ok (ls_source st)" "src_result (ls_source st) = ISC_R_SUCCESS" "lex_fit (ls_lex st)" "0 < b_current (src_pushback (ls_source st))"
    using assms by (simp_all add: got_def st_ok_def reading_ok_def place_ok_def)
  show ?thesis
  proof (cases c)
    case None
    obtain s where "pushback None st = Some (st\<lparr>ls_source := s\<rparr>)" "src_ok s" "src_result s = src_result (ls_source st)"
      using pushback_none [OF k(1,4)] by blast
    moreover have "st_end (st\<lparr>ls_source := s\<rparr>)" using calculation(2) k by (simp add: st_end_def)
    ultimately show ?thesis using None k by metis
  next
    case (Some ch)
    then have "\<not> src_at_eof (ls_source st)" using g by (simp add: got_def)
    then obtain s where "pushback (Some ch) st = Some (st\<lparr>ls_source := s\<rparr>)" "src_ok s" "src_result s = src_result (ls_source st)"
      using pushback_some [OF k(1,4)] by blast
    moreover have "st_end (st\<lparr>ls_source := s\<rparr>)" using calculation(2) k by (simp add: st_end_def)
    ultimately show ?thesis using Some k by metis
  qed
qed

text \<open>How the state may change before the next step.\<close>

lemma got_mode:
  assumes "got n st c" "mode_ok s (ls_saved_state st) nc e (ls_prev st \<noteq> None)" "s \<noteq> lexstate_btext" "ls_state st \<noteq> lexstate_start \<or> c \<noteq> None"
  shows "got n (st\<lparr>ls_state := s, ls_no_comments := nc, ls_escaped := e\<rparr>) c"
  using assms by (auto simp: got_def st_ok_def reading_ok_def braces_ok_def)

lemma got_next: "got n st c \<Longrightarrow> c \<noteq> None \<Longrightarrow> ls_state st \<noteq> lexstate_maybecomment \<Longrightarrow> fine n (Next st)"
  by (simp add: got_def steps_left_def)

lemma lex_vpair_fine:
  assumes g: "got n st c" and s: "ls_state st \<in> {lexstate_string, lexstate_vpair}"
  shows "\<exists>out. lex_vpair st c = Some out \<and> fine n out"
proof (cases "c = Some 0x0d \<or> c = Some 0x0a \<or> c = None \<or> (\<not> ls_escaped st \<and> (c = Some 0x20 \<or> c = Some 0x09 \<or> special st (the c)))")
  case True
  have "ls_state st \<noteq> lexstate_start" using s by auto
  then obtain s' where p: "pushback c st = Some (st\<lparr>ls_source := s'\<rparr>)" "src_result s' = ISC_R_SUCCESS" "st_end (st\<lparr>ls_source := s'\<rparr>)"
    using got_pushback [OF g] by blast
  then obtain tk where "text_token (if ls_state st = lexstate_string then isc_tokentype_string else isc_tokentype_vpair) (st\<lparr>ls_source := s'\<rparr>) = Some tk"
    using text_token_ok [of "st\<lparr>ls_source := s'\<rparr>"] unfolding st_end_def by blast
  then show ?thesis using p True by (simp add: lex_vpair_def)
next
  case False
  then obtain ch where c: "c = Some ch" by (cases c) auto
  let ?e = "if wants (ls_options st) ISC_LEXOPT_ESCAPE then \<not> ls_escaped st \<and> c = Some 0x5c else ls_escaped st"
  let ?st = "st\<lparr>ls_escaped := ?e\<rparr>"
  have "got n (st\<lparr>ls_state := ls_state st, ls_no_comments := ls_no_comments st, ls_escaped := ?e\<rparr>) c"
    using s by (intro got_mode [OF g]) (auto simp: mode_ok_def c)
  then have "got n ?st c" by simp
  then obtain st' where p: "put_char ch ?st = Some st'" "fine n (Next st')" using put_char_next [of ?st n ch] s c by (auto simp: got_def)
  have "(if wants (ls_options st) ISC_LEXOPT_ESCAPE then st\<lparr>ls_escaped := \<not> ls_escaped st \<and> c = Some 0x5c\<rparr> else st) = ?st" by simp
  then have "lex_vpair st c = Some (Next st')" using False c p(1) unfolding lex_vpair_def by (simp only: if_False option.sel Option.bind.bind_lunit)
  then show ?thesis using p(2) by blast
qed

lemma lex_vpairstart_fine:
  assumes g: "got n st c" and s: "ls_state st \<in> {lexstate_string, lexstate_vpair, lexstate_vpairstart}"
  shows "\<exists>out. lex_vpairstart st c = Some out \<and> fine n out"
proof (cases "ls_state st = lexstate_vpairstart")
  case True
  have e: "\<not> ls_escaped st" using g True by (simp add: got_def st_ok_def mode_ok_def)
  have "got n (st\<lparr>ls_state := lexstate_vpair, ls_no_comments := ls_no_comments st, ls_escaped := ls_escaped st\<rparr>) c"
    using e True by (intro got_mode [OF g]) (simp_all add: mode_ok_def)
  then have a: "\<exists>out. lex_vpair (st\<lparr>ls_state := lexstate_vpair\<rparr>) c = Some out \<and> fine n out" by (intro lex_vpair_fine) simp_all
  have "fine n (Next (st\<lparr>ls_state := lexstate_qvpair, ls_no_comments := True\<rparr>))" if "c \<noteq> None"
  proof -
    have "got n (st\<lparr>ls_state := lexstate_qvpair, ls_no_comments := True, ls_escaped := ls_escaped st\<rparr>) c"
      using e True by (intro got_mode [OF g]) (simp_all add: mode_ok_def)
    then show ?thesis using got_next that by fastforce
  qed
  then show ?thesis using True a by (simp add: lex_vpairstart_def)
next
  case False
  then show ?thesis using lex_vpair_fine [OF g] s by (simp add: lex_vpairstart_def)
qed

lemma lex_string_fine:
  assumes g: "got n st c" and s: "ls_state st = lexstate_string"
  shows "\<exists>out. lex_string st c = Some out \<and> fine n out"
proof (cases "\<not> ls_escaped st \<and> c = Some 0x3d \<and> wants (ls_options st) ISC_LEXOPT_VPAIR")
  case True
  have k: "st_ok st" "2 * length (pending (ls_source st)) < n" using g True by (auto simp: got_def)
  obtain lx r where p: "put_char 0x3d st = Some (st\<lparr>ls_lex := lx, ls_curr := ls_curr st + 1, ls_remaining := r\<rparr>)"
    "st_ok (st\<lparr>ls_lex := lx, ls_curr := ls_curr st + 1, ls_remaining := r\<rparr>)" using put_char_keeps [OF k(1), of "0x3d"] by blast
  have "st_ok (st\<lparr>ls_lex := lx, ls_curr := ls_curr st + 1, ls_remaining := r, ls_state := lexstate_vpairstart\<rparr>)"
    using p(2) True s by (simp add: st_ok_def mode_ok_def reading_ok_def braces_ok_def)
  then show ?thesis using True p(1) k(2) by (simp add: lex_string_def steps_left_def)
next
  case False
  have "\<exists>out. lex_vpairstart st c = Some out \<and> fine n out" using lex_vpairstart_fine [OF g] s by simp
  then show ?thesis using False unfolding lex_string_def by (simp only: if_False)
qed

lemma got_eol [simp]: "got n (set_last_eol b st) c = got n st c" "st_end (set_last_eol b st) = st_end st" "ls_state (set_last_eol b st) = ls_state st"
  "ls_options (set_last_eol b st) = ls_options st"
  by (simp_all add: got_def st_ok_def st_end_def set_last_eol_def place_ok_def lex_fit_def VALID_LEX_def braces_ok_def cong: option.case_cong)

lemma got_state:
  assumes "got n st c" "mode_ok s (ls_saved_state st) (ls_no_comments st) (ls_escaped st) (ls_prev st \<noteq> None)" "s \<noteq> lexstate_btext" "ls_state st \<noteq> lexstate_start \<or> c \<noteq> None"
  shows "got n (st\<lparr>ls_state := s\<rparr>) c"
proof -
  have "got n (st\<lparr>ls_state := s, ls_no_comments := ls_no_comments st, ls_escaped := ls_escaped st\<rparr>) c" by (rule got_mode [OF assms])
  then show ?thesis by simp
qed

lemma got_put:
  assumes "got n st c" "c \<noteq> None" "ls_state st \<noteq> lexstate_maybecomment"
  shows "\<exists>st'. put_char ch st = Some st' \<and> fine n (Next st')"
  using put_char_next [of st n ch] assms by (simp add: got_def del: fine.simps)

lemma lex_number_fine:
  assumes g: "got n st c" and s: "ls_state st = lexstate_number"
  shows "\<exists>out. lex_number st c = Some out \<and> fine n out"
proof -
  have e: "\<not> ls_escaped st" using g s by (simp add: got_def st_ok_def mode_ok_def)
  have str: "c \<noteq> None \<Longrightarrow> got n (st\<lparr>ls_state := lexstate_string\<rparr>) c" using e s by (intro got_state [OF g]) (simp_all add: mode_ok_def)
  have two: "\<exists>st'. put_char ch (if b then st\<lparr>ls_state := lexstate_string\<rparr> else st) = Some st' \<and> fine n (Next st')" if "c \<noteq> None" for b ch
    using got_put [OF str that] got_put [OF g that] s that by (cases b) simp_all
  show ?thesis
  proof (cases "c = None \<or> \<not> isdigit (the c)")
    case nd: True
    show ?thesis
    proof (cases "c = Some 0x20 \<or> c = Some 0x09 \<or> c = Some 0x0d \<or> c = Some 0x0a \<or> c = None \<or> special st (the c)")
      case True
      obtain s' where p: "pushback c st = Some (st\<lparr>ls_source := s'\<rparr>)" "st_end (st\<lparr>ls_source := s'\<rparr>)" using got_pushback [OF g] s by auto
      obtain tk where t: "text_token isc_tokentype_string (st\<lparr>ls_source := s'\<rparr>) = Some tk"
        using p(2) text_token_ok [of "st\<lparr>ls_source := s'\<rparr>"] unfolding st_end_def by blast
      show ?thesis unfolding lex_number_def if_P [OF nd] if_P [OF True] p(1) using t p(2) by (simp split: sum.split)
    next
      case False
      then have c: "c \<noteq> None" by auto
      show ?thesis unfolding lex_number_def if_P [OF nd] if_not_P [OF False] Let_def using two [OF c, where ch = "the c"] by (metis (no_types, lifting) bind.bind_lunit)
    qed
  next
    case False
    then have c: "c \<noteq> None" by auto
    show ?thesis unfolding lex_number_def if_not_P [OF False] using two [OF c, where ch = "the c"] by (metis (no_types, lifting) bind.bind_lunit)
  qed
qed

lemma lex_eof_fine: "st_end st \<Longrightarrow> fine n (lex_eof st)"
  by (auto simp: lex_eof_def unbalanced_def st_end_def lex_fit_def VALID_LEX_def split: option.split if_splits)

lemma lex_special_fine:
  assumes g: "got n st (Some c)" and s: "ls_state st = lexstate_start"
  shows "fine n (lex_special st c)"
proof -
  have e: "\<not> ls_escaped st" using g s by (simp add: got_def st_ok_def mode_ok_def)
  have ok: "st_ok st" "2 * length (pending (ls_source st)) < n" "0 < b_current (src_pushback (ls_source st))" using g by (simp_all add: got_def)
  have "length (pending (ls_source st)) < 2 ^ 31"
  proof -
    have "src_ok (ls_source st)" using ok(1) by (simp add: st_ok_def reading_ok_def)
    then have "length (buf_remaining (src_pushback (ls_source st))) \<le> b_used (src_pushback (ls_source st))"
      "b_used (src_pushback (ls_source st)) + length (input_octets (src_input (ls_source st))) < 2 ^ 31"
      by (auto simp: src_ok_def buf_remaining_def)
    then show ?thesis by (simp add: pending_def)
  qed
  then have br: "fine n (Next (st\<lparr>ls_lex := (ls_lex st)\<lparr>lx_brace_count := 0 + 1\<rparr>, ls_options := opts, ls_state := lexstate_btext, ls_no_comments := True\<rparr>))" for opts
    using ok e by (simp add: st_ok_def mode_ok_def reading_ok_def braces_ok_def place_ok_def lex_fit_def VALID_LEX_def steps_left_def)
  have pa: "fine n (Next (st\<lparr>ls_options := opts, ls_lex := (ls_lex st)\<lparr>lx_paren_count := k\<rparr>\<rparr>))" for opts k
    using ok s by (simp add: st_ok_def place_ok_def lex_fit_def VALID_LEX_def steps_left_def)
  have en: "st_end st" using ok(1) by (rule st_ok_end)
  show ?thesis using br pa en unfolding lex_special_def Let_def by (simp del: fine.simps(1))
qed

lemma lex_start_fine:
  assumes g: "got n st c" and s: "ls_state st = lexstate_start"
  shows "\<exists>out. lex_start st c = Some out \<and> fine n out"
proof (cases c)
  case None
  have "st_end (set_last_eol False st)" using g st_ok_end by (simp add: got_def)
  then show ?thesis using None lex_eof_fine by (simp add: lex_start_def)
next
  case (Some ch)
  have e: "\<not> ls_escaped st" using g s by (simp add: got_def st_ok_def mode_ok_def)
  have en: "st_end st" using g st_ok_end by (simp add: got_def)
  let ?f = "set_last_eol False st"
  have gf: "got n ?f (Some ch)" "ls_state ?f = lexstate_start" using g Some s by simp_all
  have fe: "\<not> ls_escaped ?f" using e by (simp add: set_last_eol_def)
  have nx: "fine n (Next st)" "fine n (Next (set_last_eol b st))" for b using got_next [of n st c] got_next [of n "set_last_eol b st" c] g s Some by simp_all
  have st: "got n (st'\<lparr>ls_state := x\<rparr>) (Some ch)" if "got n st' (Some ch)" "\<not> ls_escaped st'" "x \<in> {lexstate_crlf, lexstate_string, lexstate_number}" for x st'
    using that(2,3) by (intro got_state [OF that(1)]) (auto simp: mode_ok_def)
  have cr: "fine n (Next (st\<lparr>ls_state := lexstate_crlf\<rparr>))" using got_next [OF st [of st lexstate_crlf]] g Some e by simp
  have qs: "fine n (Next (?f\<lparr>ls_state := lexstate_qstring, ls_no_comments := True\<rparr>))"
  proof -
    have "got n (?f\<lparr>ls_state := lexstate_qstring, ls_no_comments := True, ls_escaped := ls_escaped ?f\<rparr>) (Some ch)"
      using gf fe by (intro got_mode [OF gf(1)]) (simp_all add: mode_ok_def)
    from got_next [OF this] show ?thesis by simp
  qed
  have str: "\<exists>out. lex_string (?f\<lparr>ls_state := lexstate_string\<rparr>) (Some ch) = Some out \<and> fine n out"
    by (rule lex_string_fine [OF st]) (use g Some gf fe in simp_all)
  have num: "\<exists>out. lex_number (?f\<lparr>ls_state := lexstate_number\<rparr>) (Some ch) = Some out \<and> fine n out"
    by (rule lex_number_fine [OF st]) (use g Some gf fe in simp_all)
  show ?thesis unfolding lex_start_def Some option.case
    using nx cr qs str num lex_special_fine [OF gf(1,2)] en by (simp del: fine.simps(1) cong: if_cong)
qed

lemma lex_crlf_fine:
  assumes g: "got n st c" and s: "ls_state st = lexstate_crlf"
  shows "\<exists>out. lex_crlf st c = Some out \<and> fine n out"
proof -
  obtain s' where p: "pushback c st = Some (st\<lparr>ls_source := s'\<rparr>)" "st_end (st\<lparr>ls_source := s'\<rparr>)" using got_pushback [OF g] s by auto
  have "st_end st" using g st_ok_end by (simp add: got_def)
  then show ?thesis using p by (simp add: lex_crlf_def)
qed

lemma put_prev:
  assumes k: "st_ok st" "2 * length (pending (ls_source st)) < n" and s: "ls_state st \<in> {lexstate_qstring, lexstate_qvpair, lexstate_btext}"
  shows "\<exists>st'. put_char c (st\<lparr>ls_escaped := e\<rparr>) = Some st' \<and> fine n (Next (st'\<lparr>ls_prev := Some (ls_curr st' - 1)\<rparr>))"
proof -
  let ?i = "ls_curr st"
  have f: "lex_fit (ls_lex st)" "?i + ls_remaining st = lx_max_token (ls_lex st)" using k(1) by (simp_all add: st_ok_def place_ok_def)
  then obtain lx r where p: "put_char c (st\<lparr>ls_escaped := e\<rparr>) = Some (st\<lparr>ls_escaped := e, ls_lex := lx, ls_curr := ?i + 1, ls_remaining := r\<rparr>)" "lex_fit lx" "?i + 1 + r = lx_max_token lx"
    "lx_brace_count lx = lx_brace_count (ls_lex st)" using put_char_ok [of "st\<lparr>ls_escaped := e\<rparr>" c] by auto
  have "place_ok lx (?i + 1) r (Some ?i)" using p by (simp add: place_ok_def)
  moreover have "mode_ok (ls_state st) (ls_saved_state st) (ls_no_comments st) e True" using k(1) s by (auto simp: st_ok_def mode_ok_def)
  ultimately have "st_ok (st\<lparr>ls_escaped := e, ls_lex := lx, ls_curr := ?i + 1, ls_remaining := r, ls_prev := Some ?i\<rparr>)" using k(1) p(4) by (simp add: st_ok_def)
  moreover have "steps_left (st\<lparr>ls_escaped := e, ls_lex := lx, ls_curr := ?i + 1, ls_remaining := r, ls_prev := Some ?i\<rparr>) < n" using s k(2) by (auto simp: steps_left_def)
  ultimately show ?thesis using p(1) by simp
qed

lemma lex_qstring_fine:
  assumes g: "got n st c" and s: "ls_state st \<in> {lexstate_qstring, lexstate_qvpair}"
  shows "\<exists>out. lex_qstring st c = Some out \<and> fine n out"
proof (cases c)
  case None
  have "st_end st" using g st_ok_end by (simp add: got_def)
  then show ?thesis using None by (simp add: lex_qstring_def)
next
  case (Some ch)
  have k: "st_ok st" "st_end st" "2 * length (pending (ls_source st)) < n" using g Some st_ok_end by (simp_all add: got_def)
  obtain tk where tk: "text_token (if ls_state st = lexstate_qstring then isc_tokentype_qstring else isc_tokentype_qvpair) st = Some tk"
    using k(2) text_token_ok [of st] unfolding st_end_def by blast
  have nc: "st_end (st\<lparr>ls_no_comments := False\<rparr>)" using k(2) by (simp add: st_end_def)
  consider (escaped) "ch = 0x22" "ls_escaped st" | (close) "ch = 0x22" "\<not> ls_escaped st"
    | (line) "ch \<noteq> 0x22" "ch = 0x0a \<and> \<not> ls_escaped st \<and> \<not> wants (ls_options st) ISC_LEXOPT_QSTRINGMULTILINE"
    | (put) "ch \<noteq> 0x22" "\<not> (ch = 0x0a \<and> \<not> ls_escaped st \<and> \<not> wants (ls_options st) ISC_LEXOPT_QSTRINGMULTILINE)" by blast
  then show ?thesis
  proof cases
    case escaped
    have "ls_prev st \<noteq> None" using k(1) s escaped(2) by (auto simp: st_ok_def mode_ok_def)
    then obtain p where p: "ls_prev st = Some p" by blast
    then have "p < ls_curr st" "lex_fit (ls_lex st)" "ls_curr st + ls_remaining st = lx_max_token (ls_lex st)" using k(1) by (simp_all add: st_ok_def place_ok_def)
    then have lt: "p < length (lx_data (ls_lex st))" by (simp add: lex_fit_def)
    have "fine n (Next (st\<lparr>ls_lex := (ls_lex st)\<lparr>lx_data := (lx_data (ls_lex st))[p := 0x22]\<rparr>, ls_escaped := False\<rparr>))"
      using k(1,3) s by (auto simp: st_ok_def mode_ok_def place_ok_def lex_fit_def VALID_LEX_def steps_left_def)
    then show ?thesis using Some escaped p lt by (simp add: lex_qstring_def del: fine.simps)
  next
    case close
    then show ?thesis using Some tk nc by (simp add: lex_qstring_def)
  next
    case line
    obtain s' where "pushback c st = Some (st\<lparr>ls_source := s'\<rparr>)" "st_end (st\<lparr>ls_source := s'\<rparr>)" using got_pushback [OF g] s by auto
    then show ?thesis using Some line by (simp add: lex_qstring_def)
  next
    case put
    from put_prev [OF k(1,3), of ch "ch = 0x5c \<and> \<not> ls_escaped st"] s
    obtain st' where "put_char ch (st\<lparr>ls_escaped := (ch = 0x5c \<and> \<not> ls_escaped st)\<rparr>) = Some st'" "fine n (Next (st'\<lparr>ls_prev := Some (ls_curr st' - 1)\<rparr>))" by auto
    then show ?thesis unfolding lex_qstring_def Some option.case if_not_P [OF put(1)] if_not_P [OF put(2)] by (simp del: fine.simps)
  qed
qed

lemma brace_step_ok:
  assumes g: "got n st (Some ch)" and s: "ls_state st = lexstate_btext"
  shows "\<exists>st'. brace_step st ch = Some st' \<and> st_end st' \<and> ls_state st' = lexstate_btext \<and> 2 * length (pending (ls_source st')) < n \<and>
    (ch = 0x7d \<and> lx_brace_count (ls_lex st') = 0 \<or> st_ok st')"
proof -
  let ?k = "lx_brace_count (ls_lex st)" and ?n = "length (pending (ls_source st))"
  have ok: "st_ok st" "2 * ?n < n" "0 < ?k" "unat ?k + ?n + 1 < 2 ^ 32" using g s by (simp_all add: got_def braces_ok_def)
  have en: "st_end st" using ok(1) by (rule st_ok_end)
  have up: "0 < ?k + 1" "unat (?k + 1) = unat ?k + 1" using ok(4) by (simp_all add: unat_word_ariths word_less_nat_alt)
  have dn: "?k - 1 \<noteq> 0 \<Longrightarrow> 0 < ?k - 1" "unat (?k - 1) \<le> unat ?k" using ok(3) by (simp_all add: word_gt_0 unat_minus_one)
  have cnt: "st_ok (st\<lparr>ls_lex := (ls_lex st)\<lparr>lx_brace_count := k\<rparr>\<rparr>)" if "0 < k" "unat k \<le> unat ?k + 1" for k
    using ok(1,4) that s by (simp add: st_ok_def place_ok_def lex_fit_def VALID_LEX_def braces_ok_def cong: option.case_cong)
  have esc: "st_ok (st\<lparr>ls_escaped := False\<rparr>)" using ok(1) s by (simp add: st_ok_def mode_ok_def)
  have ends: "st_end (st\<lparr>ls_escaped := False\<rparr>)" "st_end (st\<lparr>ls_lex := (ls_lex st)\<lparr>lx_brace_count := k\<rparr>\<rparr>)" for k
    using en by (simp_all add: st_end_def lex_fit_def VALID_LEX_def)
  show ?thesis using ok s en up dn cnt esc ends unfolding brace_step_def by (cases "?k - 1 = 0") simp_all
qed

lemma lex_btext_fine:
  assumes g: "got n st c" and s: "ls_state st = lexstate_btext"
  shows "\<exists>out. lex_btext st c = Some out \<and> fine n out"
proof (cases c)
  case None
  have "st_end st" using g st_ok_end by (simp add: got_def)
  then show ?thesis using None by (simp add: lex_btext_def)
next
  case (Some ch)
  obtain st1 where b: "brace_step st ch = Some st1" "st_end st1" "ls_state st1 = lexstate_btext" "2 * length (pending (ls_source st1)) < n"
    "ch = 0x7d \<and> lx_brace_count (ls_lex st1) = 0 \<or> st_ok st1" using brace_step_ok [of n st ch] g s Some by blast
  show ?thesis
  proof (cases "ch = 0x7d \<and> lx_brace_count (ls_lex st1) = 0")
    case True
    obtain tk where "text_token isc_tokentype_btext st1 = Some tk" using b(2) text_token_ok [of st1] unfolding st_end_def by blast
    moreover have "st_end (st1\<lparr>ls_no_comments := False\<rparr>)" using b(2) by (simp add: st_end_def)
    ultimately show ?thesis using b(1) True unfolding lex_btext_def Some by simp
  next
    case False
    then have "st_ok st1" using b(5) by blast
    from put_prev [OF this b(4), of ch "ch = 0x5c \<and> \<not> ls_escaped st1"] b(3)
    obtain st' where "put_char ch (st1\<lparr>ls_escaped := (ch = 0x5c \<and> \<not> ls_escaped st1)\<rparr>) = Some st'" "fine n (Next (st'\<lparr>ls_prev := Some (ls_curr st' - 1)\<rparr>))" by auto
    then show ?thesis using b(1) unfolding lex_btext_def Some by (simp add: if_not_P [OF False] del: fine.simps)
  qed
qed

lemma lex_resume_fine:
  assumes g: "got n (st\<lparr>ls_state := ls_saved_state st, ls_no_comments := False\<rparr>) c" and s: "ls_saved_state st \<in> resumable"
  shows "\<exists>out. lex_resume st c = Some out \<and> fine n out"
proof -
  note f = lex_start_fine [OF g] lex_crlf_fine [OF g] lex_number_fine [OF g] lex_string_fine [OF g] lex_vpairstart_fine [OF g] lex_vpair_fine [OF g]
  show ?thesis using s f unfolding lex_resume_def Let_def by (cases "ls_saved_state st") simp_all
qed

lemma resumed:
  assumes "got n st c" "ls_state st \<in> comment_states"
  shows "got n (st\<lparr>ls_state := ls_saved_state st, ls_no_comments := False\<rparr>) c" "ls_saved_state st \<in> resumable"
proof -
  have m: "ls_saved_state st \<in> resumable" "ls_escaped st \<Longrightarrow> ls_saved_state st \<in> {lexstate_string, lexstate_vpair}"
    using assms by (auto simp: got_def st_ok_def mode_ok_def)
  show "ls_saved_state st \<in> resumable" by (rule m(1))
  have "mode_ok (ls_saved_state st) (ls_saved_state st) False (ls_escaped st) (ls_prev st \<noteq> None)"
    using m by (auto simp: mode_ok_def)
  moreover have "ls_state st \<noteq> lexstate_start" "ls_saved_state st \<noteq> lexstate_btext" using assms(2) m(1) by auto
  ultimately have "got n (st\<lparr>ls_state := ls_saved_state st, ls_no_comments := False, ls_escaped := ls_escaped st\<rparr>) c"
    using got_mode [OF assms(1)] by blast
  then show "got n (st\<lparr>ls_state := ls_saved_state st, ls_no_comments := False\<rparr>) c" by simp
qed

text \<open>A slash that begins no comment: what follows it is pushed back, and the slash looked at again.\<close>

lemma slash_resumed:
  assumes g: "got n st c" and s: "ls_state st = lexstate_maybecomment"
    and n: "2 * (length (pending (ls_source st)) + (if c = None then 0 else 1)) < n" and cur: "c \<noteq> None \<Longrightarrow> 2 \<le> b_current (src_pushback (ls_source st))"
  shows "\<exists>st' out. pushback c st = Some st' \<and> lex_resume st' (Some d) = Some out \<and> fine n out"
proof -
  have k: "st_ok st" "src_ok (ls_source st)" "0 < b_current (src_pushback (ls_source st))" using g s by (simp_all add: got_def st_ok_def reading_ok_def)
  have "\<exists>s'. pushback c st = Some (st\<lparr>ls_source := s'\<rparr>) \<and> src_ok s' \<and> src_result s' = src_result (ls_source st) \<and> \<not> src_at_eof s' \<and> 0 < b_current (src_pushback s') \<and>
    2 * length (pending s') < n"
  proof (cases c)
    case None
    then show ?thesis using pushback_none [OF k(2,3)] k(3) n by auto
  next
    case (Some ch)
    then have "\<not> src_at_eof (ls_source st)" using g by (simp add: got_def)
    from pushback_some [OF k(2,3) this, of ch] show ?thesis using Some n cur by auto
  qed
  then obtain s' where p: "pushback c st = Some (st\<lparr>ls_source := s'\<rparr>)" "src_ok s'" "src_result s' = src_result (ls_source st)" "\<not> src_at_eof s'" "0 < b_current (src_pushback s')"
    "2 * length (pending s') < n" by blast
  let ?st = "st\<lparr>ls_source := s'\<rparr>"
  have "got n ?st (Some d)" using k(1) p s by (simp add: got_def st_ok_def reading_ok_def braces_ok_def)
  from lex_resume_fine [OF resumed [OF this]] have "\<exists>out. lex_resume ?st (Some d) = Some out \<and> fine n out" using s by simp
  then show ?thesis using p(1) by blast
qed

lemma comment_state:
  assumes "got n st (Some ch)" "ls_state st \<in> comment_states" "s \<in> {lexstate_ccomment, lexstate_ccommentend, lexstate_eatline}"
  shows "fine n (Next (st\<lparr>ls_state := s\<rparr>))"
proof -
  have "got n (st\<lparr>ls_state := s\<rparr>) (Some ch)" using assms by (intro got_state [OF assms(1)]) (auto simp: got_def st_ok_def mode_ok_def)
  then show ?thesis using assms(3) by (intro got_next) auto
qed

lemma lex_switch_fine:
  assumes g: "got n st c"
    and m: "ls_state st = lexstate_maybecomment \<Longrightarrow> 2 * (length (pending (ls_source st)) + (if c = None then 0 else 1)) < n \<and> (c \<noteq> None \<longrightarrow> 2 \<le> b_current (src_pushback (ls_source st)))"
  shows "\<exists>out. lex_switch st c = Some out \<and> fine n out"
proof (cases "ls_state st \<in> comment_states")
  case True
  have en: "st_end st" using g st_ok_end by (simp add: got_def)
  have res: "\<exists>out. lex_resume st c' = Some out \<and> fine n out" if "got n st c'" for c'
    by (rule lex_resume_fine [OF resumed [OF that True]])
  have nx: "fine n (Next (st\<lparr>ls_state := s\<rparr>))" if "c \<noteq> None" "s \<in> {lexstate_ccomment, lexstate_ccommentend, lexstate_eatline}" for s
    using comment_state [of n st "the c" s] g True that by simp
  have same: "fine n (Next st)" if "c \<noteq> None" "ls_state st \<noteq> lexstate_maybecomment" using got_next [OF g that] .
  have sp: "got n st (Some d)" if "c \<noteq> None" for d using g that by (simp add: got_def)
  consider "ls_state st = lexstate_maybecomment" | "ls_state st = lexstate_ccomment" | "ls_state st = lexstate_ccommentend" | "ls_state st = lexstate_eatline" using True by blast
  then show ?thesis
  proof cases
    case 1
    from slash_resumed [OF g 1] m [OF 1] obtain st' out where "pushback c st = Some st'" "lex_resume st' (Some 0x2f) = Some out" "fine n out" by blast
    then show ?thesis using 1 nx by (simp add: lex_switch_def del: fine.simps)
  next
    case 2
    then show ?thesis using nx same en by (cases "c = None") (simp_all add: lex_switch_def del: fine.simps(1))
  next
    case 3
    then show ?thesis using nx same en res [OF sp, of "0x20"] by (cases "c = None") (simp_all add: lex_switch_def del: fine.simps(1))
  next
    case 4
    then show ?thesis using same res [OF g] by (cases "c = None") (simp_all add: lex_switch_def del: fine.simps(1))
  qed
next
  case False
  note f = lex_start_fine [OF g] lex_crlf_fine [OF g] lex_number_fine [OF g] lex_string_fine [OF g] lex_vpairstart_fine [OF g] lex_vpair_fine [OF g]
    lex_qstring_fine [OF g] lex_btext_fine [OF g]
  show ?thesis using False f unfolding lex_switch_def by (cases "ls_state st") simp_all
qed

text \<open>A round, and all of them.\<close>

lemma st_ok_source:
  assumes "st_ok st" "src_ok s" "src_result s = src_result (ls_source st)" "b_current (src_pushback (ls_source st)) \<le> b_current (src_pushback s)"
    "length (pending s) \<le> length (pending (ls_source st))"
  shows "st_ok (st\<lparr>ls_source := s\<rparr>)"
  using assms by (auto simp: st_ok_def reading_ok_def braces_ok_def)

lemma comment_start_fine:
  assumes ok: "st_ok st" and c: "comment_start st (Some x) = Some s" and cur: "0 < b_current (src_pushback (ls_source st))"
  shows "fine (2 * (length (pending (ls_source st)) + 1)) (Next (st\<lparr>ls_saved_state := ls_state st, ls_state := s, ls_no_comments := True\<rparr>))"
proof -
  have s: "s = lexstate_eatline \<or> s = lexstate_maybecomment" "\<not> ls_no_comments st" using c by (auto simp: comment_start_def Let_def split: if_splits)
  have m: "mode_ok (ls_state st) (ls_saved_state st) (ls_no_comments st) (ls_escaped st) (ls_prev st \<noteq> None)" using ok by (simp add: st_ok_def)
  then have "ls_state st \<in> resumable \<and> (ls_escaped st \<longrightarrow> ls_state st \<in> {lexstate_string, lexstate_vpair})"
    using s(2) by (cases "ls_state st") (simp_all add: mode_ok_def)
  then show ?thesis using s(1) ok cur by (auto simp: st_ok_def mode_ok_def reading_ok_def braces_ok_def steps_left_def)
qed

lemma lex_round_fine:
  assumes ok: "st_ok st"
  shows "\<exists>out. lex_round st = Some out \<and> fine (steps_left st) out"
proof (cases "pending (ls_source st)")
  case Nil
  let ?e = "(ls_source st)\<lparr>src_at_eof := True\<rparr>"
  have so: "src_ok (ls_source st)" "lex_fit (ls_lex st)" using ok by (simp_all add: st_ok_def reading_ok_def place_ok_def)
  consider (fail) r s1 where "refill (ls_source st) = Some (r, s1)" "r \<noteq> ISC_R_SUCCESS" "src_ok s1"
    | (eof) "refill (ls_source st) = Some (ISC_R_SUCCESS, ?e)" "read_char (ls_state st = lexstate_start) ?e = Some (None, ?e)" "src_ok ?e"
    using read_end [OF so(1) Nil, of "ls_state st = lexstate_start"] by blast
  then show ?thesis
  proof cases
    case fail
    then show ?thesis using so(2) by (simp add: lex_round_def st_end_def)
  next
    case eof
    have "st_ok (st\<lparr>ls_source := ?e\<rparr>)" by (rule st_ok_source [OF ok eof(3)]) (simp_all add: pending_def)
    then have g: "got (steps_left st) (st\<lparr>ls_source := ?e\<rparr>) None" by (simp add: got_def)
    have "comment_start (st\<lparr>ls_source := ?e\<rparr>) None = None" by (simp add: comment_start_def Let_def)
    moreover have "\<exists>out. lex_switch (st\<lparr>ls_source := ?e\<rparr>) None = Some out \<and> fine (steps_left st) out"
      using Nil by (intro lex_switch_fine [OF g]) (simp add: steps_left_def pending_def)
    ultimately show ?thesis using eof(1,2) by (simp add: lex_round_def)
  qed
next
  case (Cons x xs)
  have so: "src_ok (ls_source st)" using ok by (simp add: st_ok_def reading_ok_def)
  obtain s1 s2 where r: "refill (ls_source st) = Some (ISC_R_SUCCESS, s1)" "read_char (ls_state st = lexstate_start) s1 = Some (Some x, s2)" "src_ok s2" "pending s2 = xs"
    "\<not> src_at_eof s2" "b_current (src_pushback s2) = b_current (src_pushback (ls_source st)) + 1" "src_result s2 = src_result (ls_source st)"
    using read_next [OF so Cons, of "ls_state st = lexstate_start"] by blast
  let ?st = "st\<lparr>ls_source := s2\<rparr>"
  have ok2: "st_ok ?st" using r Cons by (intro st_ok_source [OF ok r(3,7)]) simp_all
  have "braces_ok (ls_state st) (lx_brace_count (ls_lex st)) (length xs + 1)" using ok Cons by (simp add: st_ok_def)
  then have g: "got (steps_left st) ?st (Some x)" using ok2 r Cons by (simp add: got_def steps_left_def)
  show ?thesis
  proof (cases "comment_start ?st (Some x)")
    case None
    have "2 \<le> b_current (src_pushback s2)" if "ls_state st \<noteq> lexstate_start" using ok that r(6) by (simp add: st_ok_def reading_ok_def)
    then have "\<exists>out. lex_switch ?st (Some x) = Some out \<and> fine (steps_left st) out"
      using r(4) Cons by (intro lex_switch_fine [OF g]) (simp add: steps_left_def)
    then show ?thesis using r(1,2) None by (simp add: lex_round_def)
  next
    case (Some s)
    have "fine (2 * (length xs + 1)) (Next (?st\<lparr>ls_saved_state := ls_state st, ls_state := s, ls_no_comments := True\<rparr>))"
      using comment_start_fine [OF ok2 Some] r(4,6) by (simp del: fine.simps)
    then show ?thesis using r(1,2) Some Cons by (auto simp: lex_round_def steps_left_def)
  qed
qed

lemma gettoken_loop_total:
  assumes "st_ok st" "steps_left st < fuel"
  shows "\<exists>r tk st'. gettoken_loop fuel st = Some (r, tk, st') \<and> st_end st'"
  using assms
proof (induction fuel arbitrary: st)
  case (Suc fuel)
  obtain out where o: "lex_round st = Some out" "fine (steps_left st) out" using lex_round_fine [OF Suc.prems(1)] by blast
  show ?case
  proof (cases out)
    case (Next st1)
    then have "st_ok st1" "steps_left st1 < fuel" using o(2) Suc.prems(2) by auto
    then show ?thesis using Suc.IH o(1) Next by simp
  qed (use o in auto)
qed simp

section \<open>A token read\<close>

text \<open>What reading leaves as it was.\<close>

definition kept :: "lstate \<Rightarrow> lstate \<Rightarrow> bool" where
  "kept st st' \<longleftrightarrow> same_text (ls_source st) (ls_source st') \<and> lx_saved_paren_count (ls_lex st') = lx_saved_paren_count (ls_lex st)"

lemma kept_refl [simp]: "kept st st"
  by (simp add: kept_def)

lemma kept_trans: "kept st st' \<Longrightarrow> kept st' st'' \<Longrightarrow> kept st st''"
  by (auto simp: kept_def intro: same_text_trans)

fun out_state :: "outcome \<Rightarrow> lstate" where
  "out_state (Next st) = st"
| "out_state (Finished st tk) = st"
| "out_state (Failed st r) = st"

lemma pushback_kept: "pushback c st = Some st' \<Longrightarrow> kept st st'"
  by (auto simp: pushback_def Let_def kept_def same_text_def buf_content_def split: option.splits if_splits bind_splits)

lemma put_char_kept: "put_char c st = Some st' \<Longrightarrow> kept st st'"
  by (auto simp: put_char_def grow_data_def Let_def kept_def split: if_splits bind_splits)

lemma kept_mode [simp]:
  "kept (st\<lparr>ls_state := s\<rparr>) st' = kept st st'" "kept (st\<lparr>ls_escaped := e\<rparr>) st' = kept st st'" "kept (st\<lparr>ls_no_comments := n\<rparr>) st' = kept st st'"
  "kept (set_last_eol b st) st' = kept st st'"
  "kept st (st'\<lparr>ls_state := s\<rparr>) = kept st st'" "kept st (st'\<lparr>ls_escaped := e\<rparr>) = kept st st'" "kept st (st'\<lparr>ls_no_comments := n\<rparr>) = kept st st'"
  "kept st (set_last_eol b st') = kept st st'" "kept st (st'\<lparr>ls_prev := p\<rparr>) = kept st st'" "kept st (st'\<lparr>ls_options := o'\<rparr>) = kept st st'"
  "kept st (st'\<lparr>ls_saved_state := s\<rparr>) = kept st st'"
  by (simp_all add: kept_def set_last_eol_def)

lemma kept_lex [simp]:
  "kept st (st'\<lparr>ls_lex := lx\<rparr>) \<longleftrightarrow> same_text (ls_source st) (ls_source st') \<and> lx_saved_paren_count lx = lx_saved_paren_count (ls_lex st)"
  by (simp add: kept_def)

lemma lex_vpair_kept: "lex_vpair st c = Some out \<Longrightarrow> kept st (out_state out)"
  unfolding lex_vpair_def by (auto dest!: pushback_kept put_char_kept split: if_splits bind_splits)

lemma lex_vpairstart_kept: "lex_vpairstart st c = Some out \<Longrightarrow> kept st (out_state out)"
  unfolding lex_vpairstart_def by (auto dest!: lex_vpair_kept split: if_splits)

lemma lex_string_kept: "lex_string st c = Some out \<Longrightarrow> kept st (out_state out)"
  unfolding lex_string_def by (auto dest!: lex_vpairstart_kept put_char_kept split: if_splits bind_splits)

lemma lex_number_kept: "lex_number st c = Some out \<Longrightarrow> kept st (out_state out)"
  unfolding lex_number_def Let_def by (auto dest!: pushback_kept put_char_kept split: if_splits bind_splits sum.splits)

lemma lex_eof_kept: "kept st (out_state (lex_eof st))"
  by (auto simp: lex_eof_def unbalanced_def split: option.splits if_splits)

lemma lex_special_kept: "kept st (out_state (lex_special st c))"
  by (simp add: lex_special_def Let_def)

lemma lex_start_kept: "lex_start st c = Some out \<Longrightarrow> kept st (out_state out)"
  using lex_eof_kept [of "set_last_eol False st"] lex_special_kept [of "set_last_eol False st"]
  unfolding lex_start_def by (auto dest!: lex_string_kept lex_number_kept split: if_splits option.splits)

lemma lex_crlf_kept: "lex_crlf st c = Some out \<Longrightarrow> kept st (out_state out)"
  unfolding lex_crlf_def by (auto dest!: pushback_kept split: if_splits bind_splits)

lemma lex_qstring_kept: "lex_qstring st c = Some out \<Longrightarrow> kept st (out_state out)"
  unfolding lex_qstring_def by (auto dest!: pushback_kept put_char_kept split: if_splits bind_splits option.splits)

lemma brace_step_kept: "brace_step st c = Some st' \<Longrightarrow> kept st st'"
  unfolding brace_step_def by (auto split: if_splits bind_splits)

lemma lex_btext_kept: "lex_btext st c = Some out \<Longrightarrow> kept st (out_state out)"
  unfolding lex_btext_def by (auto dest!: brace_step_kept put_char_kept split: if_splits bind_splits option.splits intro: kept_trans)

lemmas state_kept = lex_start_kept lex_crlf_kept lex_number_kept lex_string_kept lex_vpairstart_kept lex_vpair_kept lex_qstring_kept lex_btext_kept

lemma lex_resume_kept: "lex_resume st c = Some out \<Longrightarrow> kept st (out_state out)"
  unfolding lex_resume_def Let_def by (auto dest!: state_kept split: lexstate.splits)

lemma lex_switch_kept: "lex_switch st c = Some out \<Longrightarrow> kept st (out_state out)"
  unfolding lex_switch_def by (auto dest!: state_kept lex_resume_kept pushback_kept split: lexstate.splits if_splits bind_splits intro: kept_trans)

lemma lex_round_kept:
  assumes ok: "st_ok st" and r: "lex_round st = Some out"
  shows "kept st (out_state out)"
proof (cases "pending (ls_source st)")
  case Nil
  let ?e = "(ls_source st)\<lparr>src_at_eof := True\<rparr>"
  have so: "src_ok (ls_source st)" using ok by (simp add: st_ok_def reading_ok_def)
  have e: "same_text (ls_source st) ?e" by (simp add: same_text_def)
  consider (fail) r1 s1 where "refill (ls_source st) = Some (r1, s1)" "r1 \<noteq> ISC_R_SUCCESS" "same_text (ls_source st) s1"
    | (eof) "refill (ls_source st) = Some (ISC_R_SUCCESS, ?e)" "read_char (ls_state st = lexstate_start) ?e = Some (None, ?e)"
    using read_end [OF so Nil, of "ls_state st = lexstate_start"] by blast
  then show ?thesis
  proof cases
    case fail
    then show ?thesis using r by (auto simp: lex_round_def kept_def)
  next
    case eof
    have "comment_start (st\<lparr>ls_source := ?e\<rparr>) None = None" by (simp add: comment_start_def Let_def)
    then have "lex_switch (st\<lparr>ls_source := ?e\<rparr>) None = Some out" using r eof by (simp add: lex_round_def)
    from lex_switch_kept [OF this] show ?thesis using e by (simp add: kept_def same_text_def)
  qed
next
  case (Cons x xs)
  have so: "src_ok (ls_source st)" using ok by (simp add: st_ok_def reading_ok_def)
  obtain s1 s2 where q: "refill (ls_source st) = Some (ISC_R_SUCCESS, s1)" "read_char (ls_state st = lexstate_start) s1 = Some (Some x, s2)" "same_text (ls_source st) s2"
    using read_next [OF so Cons, of "ls_state st = lexstate_start"] by blast
  let ?st = "st\<lparr>ls_source := s2\<rparr>"
  have k: "kept st ?st" using q(3) by (simp add: kept_def)
  show ?thesis
  proof (cases "comment_start ?st (Some x)")
    case None
    then have "lex_switch ?st (Some x) = Some out" using r q(1,2) by (simp add: lex_round_def)
    then show ?thesis using lex_switch_kept k kept_trans by blast
  next
    case (Some s)
    then show ?thesis using r q(1,2) k by (auto simp: lex_round_def)
  qed
qed

lemma gettoken_loop_kept: "st_ok st \<Longrightarrow> gettoken_loop fuel st = Some (r, tk, st') \<Longrightarrow> kept st st'"
proof (induction fuel arbitrary: st)
  case (Suc fuel)
  obtain out where o: "lex_round st = Some out" "fine (steps_left st) out" using lex_round_fine [OF Suc.prems(1)] by blast
  have k: "kept st (out_state out)" by (rule lex_round_kept [OF Suc.prems(1) o(1)])
  show ?case
  proof (cases out)
    case (Next st1)
    then have "kept st1 st'" using Suc o by simp
    then show ?thesis using k Next kept_trans by fastforce
  qed (use o k Suc.prems in auto)
qed simp

lemma length_buf_remaining: "buf_ok b \<Longrightarrow> length (buf_remaining b) = b_used b - b_current b"
  using buf_okD(2,4) [of b] by (simp add: buf_remaining_def buf_content_def)

lemma src_ok_compact:
  assumes "src_ok s" "\<not> src_at_eof s"
  shows "\<exists>pb. isc_buffer_compact (src_pushback s) = Some pb \<and> src_ok (s\<lparr>src_saved_line := l, src_pushback := pb\<rparr>) \<and>
    pending (s\<lparr>src_saved_line := l, src_pushback := pb\<rparr>) = pending s \<and> buf_content pb @ input_octets (src_input s) = pending s \<and> buf_ok pb"
proof -
  have b: "buf_ok (src_pushback s)" using assms(1) by (simp add: src_ok_def)
  obtain pb where pb: "isc_buffer_compact (src_pushback s) = Some pb" "buf_ok pb" "b_current pb = 0" "buf_remaining pb = buf_remaining (src_pushback s)"
    "buf_room pb = buf_room (src_pushback s) + b_current (src_pushback s)" using isc_buffer_compact_ok [OF b] by blast
  have u: "b_used pb = b_used (src_pushback s) - b_current (src_pushback s)" using length_buf_remaining [OF b] length_buf_remaining [OF pb(2)] pb(3,4) by simp
  then have "b_length pb = b_length (src_pushback s)" using pb(5) buf_okD [OF b] buf_okD [OF pb(2)] by (simp add: buf_room_def)
  then have "src_ok (s\<lparr>src_saved_line := l, src_pushback := pb\<rparr>)" using assms pb(2) u by (auto simp: src_ok_def)
  moreover have "buf_remaining pb = buf_content pb" using pb(3) by (simp add: buf_remaining_def)
  ultimately show ?thesis using pb by (simp add: pending_def)
qed

lemma gettoken_run:
  assumes lx: "lex_fit lx" "lx_sources lx = s # ss" and s: "src_ok s" "src_result s = ISC_R_SUCCESS" "\<not> src_at_eof s"
  shows "\<exists>pb r tk st. isc_buffer_compact (src_pushback s) = Some pb \<and> st_ok (first_state lx s pb options) \<and>
    isc_lex_gettoken lx options = Some (r, tk, (ls_lex st)\<lparr>lx_sources := ls_source st # ss\<rparr>) \<and>
    gettoken_loop (2 * length (pending s) + 4) (first_state lx s pb options) = Some (r, tk, st) \<and> st_end st \<and> kept (first_state lx s pb options) st \<and>
    buf_content pb @ input_octets (src_input s) = pending s \<and> pending (ls_source (first_state lx s pb options)) = pending s"
proof -
  obtain pb where pb: "isc_buffer_compact (src_pushback s) = Some pb" "src_ok (s\<lparr>src_saved_line := src_line s, src_pushback := pb\<rparr>)"
    "pending (s\<lparr>src_saved_line := src_line s, src_pushback := pb\<rparr>) = pending s" "buf_content pb @ input_octets (src_input s) = pending s" "buf_ok pb"
    using src_ok_compact [OF s(1,3), of "src_line s"] by blast
  let ?st = "first_state lx s pb options"
  have len: "lx_data lx \<noteq> []" using lx(1) by (auto simp: lex_fit_def)
  have ok: "st_ok ?st" using lx(1) pb(2) s(2) len
    by (simp add: st_ok_def first_state_def place_ok_def lex_fit_def VALID_LEX_def mode_ok_def reading_ok_def braces_ok_def)
  have il: "length (buf_remaining pb) + input_length (src_input s) = length (pending s)"
  proof -
    have "input_length (src_input s) = length (input_octets (src_input s))"
      using s(1) by (cases "src_input s") (auto simp: src_ok_def length_buf_remaining)
    then show ?thesis using pb(3) by (simp add: pending_def flip: pb(3))
  qed
  have tr: "tries pb (src_input s) = 2 * length (pending s) + 4" unfolding tries_def il by simp
  have "steps_left ?st < 2 * length (pending s) + 4" using pb(3) by (simp add: steps_left_def first_state_def)
  then obtain r tk st where l: "gettoken_loop (2 * length (pending s) + 4) ?st = Some (r, tk, st)" "st_end st"
    using gettoken_loop_total [OF ok] by blast
  have "isc_lex_gettoken lx options = Some (r, tk, (ls_lex st)\<lparr>lx_sources := ls_source st # ss\<rparr>)"
    using lx s pb(1) l(1) tr len by (simp add: isc_lex_gettoken_def lex_fit_def)
  then show ?thesis using pb ok l gettoken_loop_kept [OF ok l(1)] by (auto simp: first_state_def simp del: kept_lex)
qed

text \<open>The source in front.\<close>

definition lexer_ok :: "isc_lex \<Rightarrow> bool" where
  "lexer_ok lx \<longleftrightarrow> lex_fit lx \<and> (case lx_sources lx of [] \<Rightarrow> True | s # ss \<Rightarrow> src_ok s)"

text \<open>
  C9: \<^verbatim>\<open>isc_lex_gettoken\<close> ends on every input and under every combination of options, with no failed assertion, no read or write outside its arrays and
  more steps left than it needs, and leaves the lexer ready for the next call: whatever the text, the array of the token and the pushback buffer grow as they have to.
\<close>

theorem gettoken_total:
  assumes "lexer_ok lx"
  shows "\<exists>r tk lx'. isc_lex_gettoken lx options = Some (r, tk, lx') \<and> lexer_ok lx'"
proof (cases "lx_sources lx")
  case Nil
  then show ?thesis using assms by (auto simp: isc_lex_gettoken_def lexer_ok_def lex_fit_def)
next
  case (Cons s ss)
  have k: "lex_fit lx" "src_ok s" "VALID_LEX lx" using assms Cons by (simp_all add: lexer_ok_def lex_fit_def)
  consider (over) "src_result s \<noteq> ISC_R_SUCCESS" | (eof) "src_result s = ISC_R_SUCCESS" "src_at_eof s" | (run) "src_result s = ISC_R_SUCCESS" "\<not> src_at_eof s" by blast
  then show ?thesis
  proof cases
    case over
    then show ?thesis using assms Cons k(3) by (simp add: isc_lex_gettoken_def)
  next
    case eof
    have r: "isc_buffer_remaininglength (src_pushback s) = 0" "src_ok (s\<lparr>src_saved_line := l\<rparr>)" for l
      using k(2) eof(2) by (auto simp: src_ok_def pending_def)
    show ?thesis using Cons k eof r
      by (auto simp: isc_lex_gettoken_def unbalanced_def lexer_ok_def lex_fit_def VALID_LEX_def Let_def split: option.split)
  next
    case run
    from gettoken_run [OF k(1) Cons k(2) run] obtain r tk st
      where "isc_lex_gettoken lx options = Some (r, tk, (ls_lex st)\<lparr>lx_sources := ls_source st # ss\<rparr>)" "st_end st" by blast
    moreover have "lexer_ok ((ls_lex st)\<lparr>lx_sources := ls_source st # ss\<rparr>)" using calculation(2) by (simp add: lexer_ok_def st_end_def lex_fit_def VALID_LEX_def)
    ultimately show ?thesis by blast
  qed
qed

text \<open>A token put back.\<close>

lemma ungot_source:
  assumes "lex_fit lx" "lx_sources lx = s # ss" "src_ok s" "src_result s = ISC_R_SUCCESS" "\<not> src_at_eof s"
    "isc_lex_gettoken lx options = Some (r, tk, lx1)" "isc_lex_ungettoken lx1 tk' = Some lx2"
  shows "\<exists>s2. lx_sources lx2 = s2 # ss \<and> pending s2 = pending s \<and> src_line s2 = src_line s \<and> src_ok s2 \<and> \<not> src_at_eof s2 \<and> lx_paren_count lx2 = lx_paren_count lx \<and>
    src_result s2 = src_result (hd (lx_sources lx1)) \<and> lex_fit lx2"
proof -
  obtain pb st where g: "lx1 = (ls_lex st)\<lparr>lx_sources := ls_source st # ss\<rparr>" "st_end st" "kept (first_state lx s pb options) st"
    "buf_content pb @ input_octets (src_input s) = pending s" using gettoken_run [OF assms(1-5), of options] assms(6) by auto
  let ?s = "ls_source st"
  have t: "buf_content (src_pushback ?s) @ input_octets (src_input ?s) = pending s" "src_saved_line ?s = src_line s" "lx_saved_paren_count (ls_lex st) = lx_paren_count lx"
    using g(3,4) by (simp_all add: kept_def same_text_def first_state_def)
  have so: "src_ok ?s" using g(2) by (simp add: st_end_def)
  let ?pb = "(src_pushback ?s)\<lparr>b_current := 0\<rparr>"
  have b: "buf_ok ?pb" using so by (auto simp: src_ok_def buf_ok_def ISC_BUFFER_VALID_def)
  let ?s2 = "?s\<lparr>src_pushback := ?pb, src_line := src_saved_line ?s, src_at_eof := False\<rparr>"
  have "lx_sources lx2 = ?s2 # ss" "lx_paren_count lx2 = lx_saved_paren_count (ls_lex st)" "src_result ?s2 = src_result (hd (lx_sources lx1))" "lex_fit lx2"
    using assms(7) g(1,2) by (auto simp: isc_lex_ungettoken_def isc_buffer_first_def st_end_def lex_fit_def VALID_LEX_def split: bind_splits)
  moreover have "pending ?s2 = pending s" using t(1) by (simp add: pending_def buf_remaining_def buf_content_def)
  moreover have "src_ok ?s2" using so b by (simp add: src_ok_def)
  ultimately show ?thesis using t by simp
qed

text \<open>
  C12: A token read can be put back: after \<^verbatim>\<open>isc_lex_ungettoken\<close> the text that is to be read, the line number and the count of open parentheses are
  what they were before \<^verbatim>\<open>isc_lex_gettoken\<close>, however the reading ended and whatever it skipped.
\<close>

theorem ungettoken_restores:
  assumes "lex_fit lx" "lx_sources lx = s # ss" "src_ok s" "src_result s = ISC_R_SUCCESS" "\<not> src_at_eof s"
    "isc_lex_gettoken lx options = Some (r, tk, lx1)" "isc_lex_ungettoken lx1 tk' = Some lx2"
  shows "\<exists>s2. lx_sources lx2 = s2 # ss \<and> pending s2 = pending s \<and> src_line s2 = src_line s \<and> src_ok s2 \<and> \<not> src_at_eof s2 \<and> lx_paren_count lx2 = lx_paren_count lx"
  using ungot_source [OF assms] by blast

section \<open>Words\<close>

text \<open>One round on a text that is not at its end.\<close>

lemma round_char:
  assumes ok: "st_ok st" and p: "pending (ls_source st) = x # xs"
  shows "\<exists>s. st_ok (st\<lparr>ls_source := s\<rparr>) \<and> pending s = xs \<and> \<not> src_at_eof s \<and> last_read s = x \<and> 0 < b_current (src_pushback s) \<and>
    lex_round st = (case comment_start (st\<lparr>ls_source := s\<rparr>) (Some x) of
      Some s' \<Rightarrow> Some (Next (st\<lparr>ls_source := s, ls_saved_state := ls_state st, ls_state := s', ls_no_comments := True\<rparr>))
    | None \<Rightarrow> lex_switch (st\<lparr>ls_source := s\<rparr>) (Some x))"
proof -
  have so: "src_ok (ls_source st)" using ok by (simp add: st_ok_def reading_ok_def)
  obtain s1 s2 where r: "refill (ls_source st) = Some (ISC_R_SUCCESS, s1)" "read_char (ls_state st = lexstate_start) s1 = Some (Some x, s2)" "src_ok s2" "pending s2 = xs"
    "\<not> src_at_eof s2" "b_current (src_pushback s2) = b_current (src_pushback (ls_source st)) + 1" "src_result s2 = src_result (ls_source st)" "last_read s2 = x"
    using read_next [OF so p, of "ls_state st = lexstate_start"] by blast
  have "st_ok (st\<lparr>ls_source := s2\<rparr>)" using r p by (intro st_ok_source [OF ok r(3,7)]) simp_all
  moreover have "lex_round st = (case comment_start (st\<lparr>ls_source := s2\<rparr>) (Some x) of
      Some s' \<Rightarrow> Some (Next (st\<lparr>ls_source := s2, ls_saved_state := ls_state st, ls_state := s', ls_no_comments := True\<rparr>))
    | None \<Rightarrow> lex_switch (st\<lparr>ls_source := s2\<rparr>) (Some x))" using r(1,2) by (simp add: lex_round_def Let_def cong: option.case_cong)
  ultimately show ?thesis using r by (intro exI [of _ s2]) simp
qed

text \<open>The octets of a plain word: no white space, no special, and none that begins a comment, an escape or a value pair.\<close>

definition comment_char :: "u32 \<Rightarrow> u8 \<Rightarrow> bool" where
  "comment_char comments c \<longleftrightarrow> c = 0x3b \<and> wants comments ISC_LEXCOMMENT_DNSMASTERFILE \<or> c = 0x2f \<and> wants comments (ISC_LEXCOMMENT_C OR ISC_LEXCOMMENT_CPLUSPLUS) \<or>
     c = 0x23 \<and> wants comments ISC_LEXCOMMENT_SHELL"

definition plain_char :: "isc_lex \<Rightarrow> u32 \<Rightarrow> u8 \<Rightarrow> bool" where
  "plain_char lx options c \<longleftrightarrow> c \<notin> {0x20, 0x09, 0x0d, 0x0a} \<and> \<not> comment_char (lx_comments lx) c \<and> \<not> lx_specials lx c \<and>
     \<not> (c = 0x5c \<and> wants options ISC_LEXOPT_ESCAPE) \<and> \<not> (c = 0x3d \<and> wants options ISC_LEXOPT_VPAIR)"

definition delimiter :: "isc_lex \<Rightarrow> u8 \<Rightarrow> bool" where
  "delimiter lx c \<longleftrightarrow> (c \<in> {0x20, 0x09, 0x0d, 0x0a} \<or> lx_specials lx c) \<and> \<not> comment_char (lx_comments lx) c \<and> c \<noteq> 0x3d"

text \<open>The parts of the lexer that a word does not change.\<close>

definition same_conf :: "isc_lex \<Rightarrow> isc_lex \<Rightarrow> bool" where
  "same_conf lx lx' \<longleftrightarrow> lx_specials lx' = lx_specials lx \<and> lx_comments lx' = lx_comments lx \<and> lx_comment_ok lx' = lx_comment_ok lx \<and> lx_paren_count lx' = lx_paren_count lx"

lemma same_conf_refl [simp]: "same_conf lx lx"
  by (simp add: same_conf_def)

lemma same_conf_trans: "same_conf lx lx' \<Longrightarrow> same_conf lx' lx'' \<Longrightarrow> same_conf lx lx''"
  by (simp add: same_conf_def)

lemma same_conf_plain: "same_conf lx lx' \<Longrightarrow> plain_char lx' = plain_char lx" "same_conf lx lx' \<Longrightarrow> delimiter lx' = delimiter lx"
  by (auto simp: same_conf_def plain_char_def delimiter_def fun_eq_iff)

definition inword :: "lstate \<Rightarrow> bytes \<Rightarrow> bool" where
  "inword st w \<longleftrightarrow> st_ok st \<and> ls_state st = lexstate_string \<and> \<not> ls_escaped st \<and> ls_curr st = length w \<and> take (length w) (lx_data (ls_lex st)) = w \<and>
     \<not> lx_last_was_eol (ls_lex st) \<and> \<not> ls_no_comments st"

lemma no_comment [simp]: "\<not> comment_char (lx_comments (ls_lex st)) c \<Longrightarrow> comment_start st (Some c) = None"
  by (auto simp: comment_start_def comment_char_def Let_def)

lemma lex_string_plain:
  assumes ok: "st_ok st" and st: "ls_state st = lexstate_string" "\<not> ls_escaped st" "ls_curr st = length w" "take (length w) (lx_data (ls_lex st)) = w"
    "\<not> lx_last_was_eol (ls_lex st)" "\<not> ls_no_comments st"
    and x: "plain_char (ls_lex st) (ls_options st) x"
  shows "\<exists>st'. lex_string st (Some x) = Some (Next st') \<and> inword st' (w @ [x]) \<and> ls_source st' = ls_source st \<and> same_conf (ls_lex st) (ls_lex st') \<and> ls_options st' = ls_options st"
proof -
  have f: "lex_fit (ls_lex st)" "ls_curr st + ls_remaining st = lx_max_token (ls_lex st)" using ok by (simp_all add: st_ok_def place_ok_def)
  obtain lx r where p: "put_char x st = Some (st\<lparr>ls_lex := lx, ls_curr := ls_curr st + 1, ls_remaining := r\<rparr>)" "lex_fit lx" "ls_curr st + 1 + r = lx_max_token lx"
    "lx_brace_count lx = lx_brace_count (ls_lex st)" "take (ls_curr st + 1) (lx_data lx) = take (ls_curr st) (lx_data (ls_lex st)) @ [x]"
    "same_conf (ls_lex st) lx" "lx_last_was_eol lx = lx_last_was_eol (ls_lex st)"
    using put_char_ok [OF f, of x] unfolding same_conf_def by blast
  let ?st = "st\<lparr>ls_lex := lx, ls_curr := ls_curr st + 1, ls_remaining := r\<rparr>"
  have "place_ok lx (ls_curr st + 1) r (ls_prev st)" using ok p by (auto simp: place_ok_def st_ok_def split: option.splits)
  then have "st_ok ?st" using ok p(4) by (simp add: st_ok_def)
  then have "inword ?st (w @ [x])" using st p(5,7) by (simp add: inword_def)
  moreover have same: "st\<lparr>ls_escaped := False\<rparr> = st" using st(2) by simp
  have "put_char x (st\<lparr>ls_escaped := False\<rparr>) = Some ?st" unfolding same by (rule p(1))
  then have "lex_string st (Some x) = Some (Next ?st)" using x st p(1) by (auto simp: lex_string_def lex_vpairstart_def lex_vpair_def plain_char_def special_def)
  ultimately show ?thesis using p by auto
qed

lemma word_round:
  assumes w: "inword st w" and p: "pending (ls_source st) = x # xs" and x: "plain_char (ls_lex st) (ls_options st) x"
  shows "\<exists>st'. lex_round st = Some (Next st') \<and> inword st' (w @ [x]) \<and> pending (ls_source st') = xs \<and> same_conf (ls_lex st) (ls_lex st') \<and> ls_options st' = ls_options st"
proof -
  have ok: "st_ok st" using w by (simp add: inword_def)
  obtain s where s: "st_ok (st\<lparr>ls_source := s\<rparr>)" "pending s = xs" "lex_round st = (case comment_start (st\<lparr>ls_source := s\<rparr>) (Some x) of
      Some s' \<Rightarrow> Some (Next (st\<lparr>ls_source := s, ls_saved_state := ls_state st, ls_state := s', ls_no_comments := True\<rparr>))
    | None \<Rightarrow> lex_switch (st\<lparr>ls_source := s\<rparr>) (Some x))" using round_char [OF ok p] by blast
  have "lex_round st = lex_string (st\<lparr>ls_source := s\<rparr>) (Some x)" using s(3) x w by (simp add: plain_char_def lex_switch_def inword_def)
  moreover from w have c: "ls_state (st\<lparr>ls_source := s\<rparr>) = lexstate_string" "\<not> ls_escaped (st\<lparr>ls_source := s\<rparr>)" "ls_curr (st\<lparr>ls_source := s\<rparr>) = length w"
    "take (length w) (lx_data (ls_lex (st\<lparr>ls_source := s\<rparr>))) = w"
    "\<not> lx_last_was_eol (ls_lex (st\<lparr>ls_source := s\<rparr>))" "\<not> ls_no_comments (st\<lparr>ls_source := s\<rparr>)" by (simp_all add: inword_def)
  ultimately show ?thesis using lex_string_plain [OF s(1) c, of x] x s(2) by auto
qed

text \<open>The word ends at a delimiter, which is pushed back as it was read, or at the space a comment is replaced by.\<close>

lemma word_ends:
  assumes w: "inword st w" and d: "d \<in> {0x20, 0x09, 0x0d, 0x0a} \<or> lx_specials (ls_lex st) d" and s: "\<not> src_at_eof (ls_source st)" "d \<noteq> 0x3d"
  shows "\<exists>s. lex_string st (Some d) = Some (Finished (st\<lparr>ls_source := s\<rparr>) \<lparr>tk_type = isc_tokentype_string, tk_value = As_textregion w\<rparr>) \<and>
    pending s = last_read (ls_source st) # pending (ls_source st) \<and> src_result s = ISC_R_SUCCESS \<and> \<not> src_at_eof s"
proof -
  have k: "src_ok (ls_source st)" "0 < b_current (src_pushback (ls_source st))" "src_result (ls_source st) = ISC_R_SUCCESS" using w by (simp_all add: inword_def st_ok_def reading_ok_def)
  obtain s' where p: "pushback (Some d) st = Some (st\<lparr>ls_source := s'\<rparr>)" "pending s' = last_read (ls_source st) # pending (ls_source st)" "src_result s' = src_result (ls_source st)" "\<not> src_at_eof s'"
    using pushback_some [OF k(1,2) s(1)] by blast
  have c: "ls_curr st + ls_remaining st = lx_max_token (ls_lex st)" "length (lx_data (ls_lex st)) = lx_max_token (ls_lex st) + 1"
    using w by (simp_all add: inword_def st_ok_def place_ok_def lex_fit_def)
  have "lx_max_token (ls_lex st) - ls_remaining st = length w" using w c(1) by (simp add: inword_def)
  then have "text_token isc_tokentype_string (st\<lparr>ls_source := s'\<rparr>) = Some \<lparr>tk_type = isc_tokentype_string, tk_value = As_textregion w\<rparr>"
    using w c by (simp add: text_token_def inword_def fetch_def)
  moreover have "ls_state st = lexstate_string" "\<not> ls_escaped st" using w by (simp_all add: inword_def)
  ultimately show ?thesis using p d s(2) k(3) by (auto simp: lex_string_def lex_vpairstart_def lex_vpair_def special_def)
qed

text \<open>The rounds of a word, from wherever it has been read to.\<close>

lemma loop_next: "gettoken_loop fuel st = Some res \<Longrightarrow> lex_round st = Some (Next st') \<Longrightarrow> \<exists>fuel'. gettoken_loop fuel' st' = Some res"
  by (cases fuel) auto

lemma loop_end: "gettoken_loop fuel st = Some res \<Longrightarrow> lex_round st = Some (Finished st' tk) \<Longrightarrow> res = (ISC_R_SUCCESS, Some tk, st')"
  by (cases fuel) auto

lemma loop_word:
  assumes "gettoken_loop fuel st = Some res" "inword st v" "pending (ls_source st) = w @ rest" "\<forall>x\<in>set w. plain_char (ls_lex st) (ls_options st) x"
  shows "\<exists>fuel' st'. gettoken_loop fuel' st' = Some res \<and> inword st' (v @ w) \<and> pending (ls_source st') = rest \<and> same_conf (ls_lex st) (ls_lex st') \<and> ls_options st' = ls_options st"
  using assms
proof (induction w arbitrary: fuel st v)
  case Nil
  then show ?case by (intro exI [of _ fuel] exI [of _ st]) simp
next
  case (Cons x w)
  obtain st1 where r: "lex_round st = Some (Next st1)" "inword st1 (v @ [x])" "pending (ls_source st1) = w @ rest" "same_conf (ls_lex st) (ls_lex st1)" "ls_options st1 = ls_options st"
    using word_round [OF Cons.prems(2), of x "w @ rest"] Cons.prems(3,4) by auto
  obtain fuel1 where "gettoken_loop fuel1 st1 = Some res" using loop_next [OF Cons.prems(1) r(1)] by blast
  from Cons.IH [OF this r(2,3)] Cons.prems(4) r(4) obtain fuel2 st2 where "gettoken_loop fuel2 st2 = Some res" "inword st2 ((v @ [x]) @ w)" "pending (ls_source st2) = rest"
    "same_conf (ls_lex st1) (ls_lex st2)" "ls_options st2 = ls_options st1" by (auto simp: same_conf_plain r(5))
  then show ?case using same_conf_trans [OF r(4)] r(5) by auto
qed

lemma loop_delimiter:
  assumes l: "gettoken_loop fuel st = Some res" and w: "inword st w" and p: "pending (ls_source st) = d # rest" and d: "delimiter (ls_lex st) d"
  shows "\<exists>st'. res = (ISC_R_SUCCESS, Some \<lparr>tk_type = isc_tokentype_string, tk_value = As_textregion w\<rparr>, st') \<and> pending (ls_source st') = d # rest \<and>
    src_result (ls_source st') = ISC_R_SUCCESS \<and> \<not> src_at_eof (ls_source st') \<and> ls_lex st' = ls_lex st"
proof -
  have ok: "st_ok st" using w by (simp add: inword_def)
  obtain s where s: "st_ok (st\<lparr>ls_source := s\<rparr>)" "pending s = rest" "\<not> src_at_eof s" "last_read s = d" "lex_round st = (case comment_start (st\<lparr>ls_source := s\<rparr>) (Some d) of
      Some s' \<Rightarrow> Some (Next (st\<lparr>ls_source := s, ls_saved_state := ls_state st, ls_state := s', ls_no_comments := True\<rparr>))
    | None \<Rightarrow> lex_switch (st\<lparr>ls_source := s\<rparr>) (Some d))" using round_char [OF ok p] by blast
  have "inword (st\<lparr>ls_source := s\<rparr>) w" using w s(1) by (simp add: inword_def)
  from word_ends [OF this, of d] d s(2-4) obtain s' where
    e: "lex_string (st\<lparr>ls_source := s\<rparr>) (Some d) = Some (Finished (st\<lparr>ls_source := s'\<rparr>) \<lparr>tk_type = isc_tokentype_string, tk_value = As_textregion w\<rparr>)" "pending s' = d # rest"
      "src_result s' = ISC_R_SUCCESS" "\<not> src_at_eof s'"
    by (auto simp: delimiter_def)
  have "lex_round st = Some (Finished (st\<lparr>ls_source := s'\<rparr>) \<lparr>tk_type = isc_tokentype_string, tk_value = As_textregion w\<rparr>)"
    using s(5) d w e(1) by (simp add: delimiter_def lex_switch_def inword_def)
  from loop_end [OF l this] show ?thesis using e(2-4) by simp
qed

text \<open>Before the word: white space, and the first octet.\<close>

definition before :: "lstate \<Rightarrow> bool" where
  "before st \<longleftrightarrow> st_ok st \<and> ls_state st = lexstate_start \<and> ls_curr st = 0 \<and> \<not> ls_no_comments st \<and> \<not> (lx_last_was_eol (ls_lex st) \<and> wants (ls_options st) ISC_LEXOPT_INITIALWS)"

lemma loop_blanks:
  assumes "gettoken_loop fuel st = Some res" "before st" "pending (ls_source st) = ws @ rest" "\<forall>x\<in>set ws. x \<in> {0x20, 0x09}"
  shows "\<exists>fuel' st'. gettoken_loop fuel' st' = Some res \<and> before st' \<and> pending (ls_source st') = rest \<and> ls_lex st' = ls_lex st \<and> ls_options st' = ls_options st"
  using assms
proof (induction ws arbitrary: fuel st)
  case Nil
  then show ?case by auto
next
  case (Cons x ws)
  have x: "x = 0x20 \<or> x = 0x09" "\<not> comment_char (lx_comments (ls_lex st)) x" using Cons.prems(4) by (auto simp: comment_char_def)
  have ok: "st_ok st" using Cons.prems(2) by (simp add: before_def)
  obtain s where s: "st_ok (st\<lparr>ls_source := s\<rparr>)" "pending s = ws @ rest" "lex_round st = (case comment_start (st\<lparr>ls_source := s\<rparr>) (Some x) of
      Some s' \<Rightarrow> Some (Next (st\<lparr>ls_source := s, ls_saved_state := ls_state st, ls_state := s', ls_no_comments := True\<rparr>))
    | None \<Rightarrow> lex_switch (st\<lparr>ls_source := s\<rparr>) (Some x))" using round_char [OF ok, of x "ws @ rest"] Cons.prems(3) by auto
  have b: "before (st\<lparr>ls_source := s\<rparr>)" using Cons.prems(2) s(1) by (simp add: before_def)
  have "lex_round st = Some (Next (st\<lparr>ls_source := s\<rparr>))" using s(3) x Cons.prems(2) by (auto simp: before_def lex_switch_def lex_start_def)
  then obtain fuel1 where "gettoken_loop fuel1 (st\<lparr>ls_source := s\<rparr>) = Some res" using loop_next [OF Cons.prems(1)] by blast
  from Cons.IH [OF this b] s(2) Cons.prems(4) show ?case by simp
qed

lemma loop_first:
  assumes l: "gettoken_loop fuel st = Some res" and b: "before st" and p: "pending (ls_source st) = x # rest" and x: "plain_char (ls_lex st) (ls_options st) x"
    and n: "\<not> (x = 0x22 \<and> wants (ls_options st) ISC_LEXOPT_QSTRING)" "\<not> (isdigit x \<and> wants (ls_options st) ISC_LEXOPT_NUMBER)"
  shows "\<exists>fuel' st'. gettoken_loop fuel' st' = Some res \<and> inword st' [x] \<and> pending (ls_source st') = rest \<and> same_conf (ls_lex st) (ls_lex st') \<and> ls_options st' = ls_options st"
proof -
  have ok: "st_ok st" using b by (simp add: before_def)
  obtain s where s: "st_ok (st\<lparr>ls_source := s\<rparr>)" "pending s = rest" "0 < b_current (src_pushback s)" "lex_round st = (case comment_start (st\<lparr>ls_source := s\<rparr>) (Some x) of
      Some s' \<Rightarrow> Some (Next (st\<lparr>ls_source := s, ls_saved_state := ls_state st, ls_state := s', ls_no_comments := True\<rparr>))
    | None \<Rightarrow> lex_switch (st\<lparr>ls_source := s\<rparr>) (Some x))" using round_char [OF ok p] by blast
  let ?st = "(set_last_eol False (st\<lparr>ls_source := s\<rparr>))\<lparr>ls_state := lexstate_string\<rparr>"
  have e: "\<not> ls_escaped st" using ok b by (simp add: st_ok_def mode_ok_def before_def)
  have sok: "st_ok ?st" using s(1,3) e
    by (simp add: st_ok_def set_last_eol_def place_ok_def lex_fit_def VALID_LEX_def mode_ok_def reading_ok_def braces_ok_def cong: option.case_cong)
  have c: "ls_state ?st = lexstate_string" "\<not> ls_escaped ?st" "ls_curr ?st = length []" "take (length []) (lx_data (ls_lex ?st)) = []"
    "\<not> lx_last_was_eol (ls_lex ?st)" "\<not> ls_no_comments ?st" "plain_char (ls_lex ?st) (ls_options ?st) x" using b e x by (simp_all add: set_last_eol_def before_def plain_char_def)
  obtain st' where w: "lex_string ?st (Some x) = Some (Next st')" "inword st' ([] @ [x])" "ls_source st' = s" "same_conf (ls_lex st) (ls_lex st')" "ls_options st' = ls_options st"
    using lex_string_plain [OF sok c] by (auto simp: set_last_eol_def same_conf_def)
  have "lex_round st = Some (Next st')"
    using s(4) x n b w(1) by (auto simp: plain_char_def lex_switch_def lex_start_def before_def special_def)
  from loop_next [OF l this] w b s(2) show ?thesis by (auto simp: before_def)
qed

section \<open>Tokens of a line\<close>

text \<open>A source in front with the text \<open>t\<close> still to be read, and not at the beginning of a line.\<close>

definition ready :: "isc_lex \<Rightarrow> inputsource list \<Rightarrow> bytes \<Rightarrow> bool" where
  "ready lx ss t \<longleftrightarrow> lex_fit lx \<and> (case lx_sources lx of [] \<Rightarrow> False
     | s # ss' \<Rightarrow> ss' = ss \<and> src_ok s \<and> src_result s = ISC_R_SUCCESS \<and> \<not> src_at_eof s \<and> pending s = t)"

lemma ready_source:
  assumes "ready lx ss t"
  obtains s where "lex_fit lx" "lx_sources lx = s # ss" "src_ok s" "src_result s = ISC_R_SUCCESS" "\<not> src_at_eof s" "pending s = t"
  using assms by (auto simp: ready_def split: list.splits)

lemma wants_masked: "wants (options AND m) o' \<Longrightarrow> wants options o'"
  unfolding wants_def by (metis and.assoc and.left_commute and.right_neutral and_zero_eq)

lemma wants_iwseol [simp]: "\<not> wants (options AND NOT IWSEOL) ISC_LEXOPT_INITIALWS"
  unfolding wants_def IWSEOL_def ISC_LEXOPT_INITIALWS_def ISC_LEXOPT_EOL_def
  by (simp add: and.assoc)

lemma first_before:
  assumes "st_ok (first_state lx s pb options)" "\<not> (lx_last_was_eol lx \<and> wants options ISC_LEXOPT_INITIALWS)"
  shows "before (first_state lx s pb options)"
  using assms by (auto simp: before_def first_state_def)

text \<open>As far as the end of the word.\<close>

lemma loop_to_word:
  assumes lx: "ready lx ss (ws @ w @ rest)" and ws: "\<forall>x\<in>set ws. x \<in> {0x20, 0x09}" and w: "w \<noteq> []" "\<forall>x\<in>set w. plain_char lx options x"
    and o: "\<not> (lx_last_was_eol lx \<and> wants options ISC_LEXOPT_INITIALWS)" "\<not> (hd w = 0x22 \<and> wants options ISC_LEXOPT_QSTRING)"
      "\<not> (isdigit (hd w) \<and> wants options ISC_LEXOPT_NUMBER)"
  obtains r tk st n st' where "isc_lex_gettoken lx options = Some (r, tk, (ls_lex st)\<lparr>lx_sources := ls_source st # ss\<rparr>)" "st_end st"
    "gettoken_loop n st' = Some (r, tk, st)" "inword st' w" "pending (ls_source st') = rest" "same_conf lx (ls_lex st')"
proof -
  obtain s where s: "lex_fit lx" "lx_sources lx = s # ss" "src_ok s" "src_result s = ISC_R_SUCCESS" "\<not> src_at_eof s" "pending s = ws @ w @ rest"
    using ready_source [OF lx] .
  obtain pb r tk st where g: "st_ok (first_state lx s pb options)" "isc_lex_gettoken lx options = Some (r, tk, (ls_lex st)\<lparr>lx_sources := ls_source st # ss\<rparr>)"
    "gettoken_loop (2 * length (pending s) + 4) (first_state lx s pb options) = Some (r, tk, st)" "st_end st" "pending (ls_source (first_state lx s pb options)) = pending s"
    using gettoken_run [OF s(1-5), of options] by blast
  let ?f = "first_state lx s pb options"
  have f: "same_conf lx (ls_lex ?f)" "\<And>o'. wants (ls_options ?f) o' \<Longrightarrow> wants options o'"
    by (auto simp: first_state_def same_conf_def dest: wants_masked split: if_splits)
  have pl: "plain_char (ls_lex ?f) (ls_options ?f) x" if "plain_char lx options x" for x
    using that f by (auto simp: same_conf_plain plain_char_def)
  obtain x v where xv: "w = x # v" using w(1) by (cases w) auto
  obtain n1 st1 where 1: "gettoken_loop n1 st1 = Some (r, tk, st)" "before st1" "pending (ls_source st1) = x # v @ rest" "ls_lex st1 = ls_lex ?f" "ls_options st1 = ls_options ?f"
    using loop_blanks [OF g(3) first_before [OF g(1) o(1)], of ws "w @ rest"] ws g(5) s(6) xv by auto
  obtain n2 st2 where 2: "gettoken_loop n2 st2 = Some (r, tk, st)" "inword st2 [x]" "pending (ls_source st2) = v @ rest" "same_conf (ls_lex ?f) (ls_lex st2)" "ls_options st2 = ls_options ?f"
    using loop_first [OF 1(1-3)] w(2) o f(2) pl 1(4,5) xv by auto
  have pv: "\<forall>x\<in>set v. plain_char (ls_lex st2) (ls_options st2) x" using w(2) xv pl by (simp add: same_conf_plain [OF 2(4)] 2(5))
  obtain n3 st3 where 3: "gettoken_loop n3 st3 = Some (r, tk, st)" "inword st3 w" "pending (ls_source st3) = rest" "same_conf (ls_lex st2) (ls_lex st3)"
    using loop_word [OF 2(1,2,3) pv] xv by auto
  show ?thesis by (rule that [OF g(2,4) 3(1-3) same_conf_trans [OF same_conf_trans [OF f(1) 2(4)] 3(4)]])
qed

lemma gettoken_word_ready:
  assumes lx: "ready lx ss (ws @ w @ d # rest)" and ws: "\<forall>x\<in>set ws. x \<in> {0x20, 0x09}"
    and w: "w \<noteq> []" "\<forall>x\<in>set w. plain_char lx options x" and d: "delimiter lx d"
    and o: "\<not> (lx_last_was_eol lx \<and> wants options ISC_LEXOPT_INITIALWS)" "\<not> (hd w = 0x22 \<and> wants options ISC_LEXOPT_QSTRING)"
      "\<not> (isdigit (hd w) \<and> wants options ISC_LEXOPT_NUMBER)"
  shows "\<exists>lx'. isc_lex_gettoken lx options = Some (ISC_R_SUCCESS, Some \<lparr>tk_type = isc_tokentype_string, tk_value = As_textregion w\<rparr>, lx') \<and>
    ready lx' ss (d # rest) \<and> same_conf lx lx' \<and> \<not> lx_last_was_eol lx'"
proof -
  from loop_to_word [OF lx ws w o] obtain r tk st n st' where g: "isc_lex_gettoken lx options = Some (r, tk, (ls_lex st)\<lparr>lx_sources := ls_source st # ss\<rparr>)" "st_end st"
    "gettoken_loop n st' = Some (r, tk, st)" "inword st' w" "pending (ls_source st') = d # rest" "same_conf lx (ls_lex st')" by metis
  have "delimiter (ls_lex st') d" using d same_conf_plain(2) [OF g(6)] by simp
  from loop_delimiter [OF g(3-5) this] have e: "r = ISC_R_SUCCESS" "tk = Some \<lparr>tk_type = isc_tokentype_string, tk_value = As_textregion w\<rparr>"
    "pending (ls_source st) = d # rest" "src_result (ls_source st) = ISC_R_SUCCESS" "\<not> src_at_eof (ls_source st)" "ls_lex st = ls_lex st'" by auto
  let ?lx = "(ls_lex st)\<lparr>lx_sources := ls_source st # ss\<rparr>"
  have "same_conf lx ?lx" using g(6) e(6) by (simp add: same_conf_def)
  moreover have "ready ?lx ss (d # rest)" using e g(2) by (simp add: ready_def st_end_def lex_fit_def VALID_LEX_def)
  moreover have "\<not> lx_last_was_eol ?lx" using g(4) e(6) by (simp add: inword_def)
  ultimately show ?thesis using g(1) e(1,2) by blast
qed

text \<open>The end of the line, outside parentheses.\<close>

lemma gettoken_eol_ready:
  assumes lx: "ready lx ss (ws @ 0x0a # rest)" and ws: "\<forall>x\<in>set ws. x \<in> {0x20, 0x09}"
    and o: "\<not> (lx_last_was_eol lx \<and> wants options ISC_LEXOPT_INITIALWS)" "wants options ISC_LEXOPT_EOL" "lx_paren_count lx = 0"
  shows "\<exists>lx'. isc_lex_gettoken lx options = Some (ISC_R_SUCCESS, Some (plain_token isc_tokentype_eol), lx') \<and> ready lx' ss rest \<and> same_conf lx lx'"
proof -
  obtain s where s: "lex_fit lx" "lx_sources lx = s # ss" "src_ok s" "src_result s = ISC_R_SUCCESS" "\<not> src_at_eof s" "pending s = ws @ 0x0a # rest"
    using ready_source [OF lx] .
  obtain pb r tk st where g: "st_ok (first_state lx s pb options)" "isc_lex_gettoken lx options = Some (r, tk, (ls_lex st)\<lparr>lx_sources := ls_source st # ss\<rparr>)"
    "gettoken_loop (2 * length (pending s) + 4) (first_state lx s pb options) = Some (r, tk, st)" "st_end st" "pending (ls_source (first_state lx s pb options)) = pending s"
    using gettoken_run [OF s(1-5), of options] by blast
  let ?f = "first_state lx s pb options"
  obtain n1 st1 where 1: "gettoken_loop n1 st1 = Some (r, tk, st)" "before st1" "pending (ls_source st1) = 0x0a # rest" "ls_lex st1 = ls_lex ?f" "ls_options st1 = ls_options ?f"
    using loop_blanks [OF g(3) first_before [OF g(1) o(1)], of ws "0x0a # rest"] ws g(5) s(6) by auto
  have ok: "st_ok st1" using 1(2) by (simp add: before_def)
  obtain s1 where s1: "st_ok (st1\<lparr>ls_source := s1\<rparr>)" "pending s1 = rest" "\<not> src_at_eof s1" "lex_round st1 = (case comment_start (st1\<lparr>ls_source := s1\<rparr>) (Some 0x0a) of
      Some s' \<Rightarrow> Some (Next (st1\<lparr>ls_source := s1, ls_saved_state := ls_state st1, ls_state := s', ls_no_comments := True\<rparr>))
    | None \<Rightarrow> lex_switch (st1\<lparr>ls_source := s1\<rparr>) (Some 0x0a))" using round_char [OF ok 1(3)] by blast
  have "wants (ls_options st1) ISC_LEXOPT_EOL" using o(2,3) 1(5) by (simp add: first_state_def)
  then have "lex_round st1 = Some (Finished (set_last_eol True (st1\<lparr>ls_source := s1\<rparr>)) (plain_token isc_tokentype_eol))"
    using s1(4) 1(2) by (simp add: comment_char_def before_def lex_switch_def lex_start_def)
  from loop_end [OF 1(1) this] have e: "r = ISC_R_SUCCESS" "tk = Some (plain_token isc_tokentype_eol)" "st = set_last_eol True (st1\<lparr>ls_source := s1\<rparr>)" by auto
  have "ready ((ls_lex st)\<lparr>lx_sources := ls_source st # ss\<rparr>) ss rest"
    using s1 g(4) by (simp add: ready_def e(3) st_end_def set_last_eol_def lex_fit_def VALID_LEX_def st_ok_def reading_ok_def)
  moreover have "same_conf lx ((ls_lex st)\<lparr>lx_sources := ls_source st # ss\<rparr>)" by (simp add: e(3) set_last_eol_def 1(4) first_state_def same_conf_def)
  ultimately show ?thesis using g(2) e(1,2) by blast
qed

section \<open>A comment after a word\<close>

definition incomment :: "lstate \<Rightarrow> lexstate \<Rightarrow> bytes \<Rightarrow> bool" where
  "incomment st q w \<longleftrightarrow> ls_state st = q \<and> ls_saved_state st = lexstate_string \<and> ls_no_comments st \<and> inword (st\<lparr>ls_state := lexstate_string, ls_no_comments := False\<rparr>) w"

lemma incomment_ok: "incomment st q w \<Longrightarrow> q \<in> comment_states \<Longrightarrow> st_ok st"
  by (auto simp: incomment_def inword_def st_ok_def mode_ok_def reading_ok_def braces_ok_def)

lemma comment_round:
  assumes c: "incomment st q w" "q \<in> comment_states" and p: "pending (ls_source st) = x # xs"
  shows "\<exists>s. lex_round st = lex_switch (st\<lparr>ls_source := s\<rparr>) (Some x) \<and> incomment (st\<lparr>ls_source := s\<rparr>) q w \<and> pending s = xs \<and> last_read s = x \<and> \<not> src_at_eof s"
proof -
  have n: "ls_no_comments st" using c(1) by (simp add: incomment_def)
  obtain s where s: "st_ok (st\<lparr>ls_source := s\<rparr>)" "pending s = xs" "last_read s = x" "\<not> src_at_eof s" "0 < b_current (src_pushback s)"
    "lex_round st = (case comment_start (st\<lparr>ls_source := s\<rparr>) (Some x) of
      Some s' \<Rightarrow> Some (Next (st\<lparr>ls_source := s, ls_saved_state := ls_state st, ls_state := s', ls_no_comments := True\<rparr>))
    | None \<Rightarrow> lex_switch (st\<lparr>ls_source := s\<rparr>) (Some x))" using round_char [OF incomment_ok [OF c] p] by blast
  have "comment_start (st\<lparr>ls_source := s\<rparr>) (Some x) = None" using n by (simp add: comment_start_def Let_def)
  moreover have "incomment (st\<lparr>ls_source := s\<rparr>) q w"
    using c s(1,5) by (auto simp: incomment_def inword_def st_ok_def mode_ok_def reading_ok_def braces_ok_def)
  ultimately show ?thesis using s by auto
qed

lemma comment_begins:
  assumes w: "inword st w" and p: "pending (ls_source st) = 0x2f # xs" and c: "lx_comment_ok (ls_lex st)" "wants (lx_comments (ls_lex st)) ISC_LEXCOMMENT_C"
  shows "\<exists>st'. lex_round st = Some (Next st') \<and> incomment st' lexstate_maybecomment w \<and> pending (ls_source st') = xs \<and> ls_lex st' = ls_lex st"
proof -
  have ok: "st_ok st" "ls_state st = lexstate_string" "\<not> ls_no_comments st" using w by (simp_all add: inword_def)
  obtain s where s: "st_ok (st\<lparr>ls_source := s\<rparr>)" "pending s = xs" "lex_round st = (case comment_start (st\<lparr>ls_source := s\<rparr>) (Some 0x2f) of
      Some s' \<Rightarrow> Some (Next (st\<lparr>ls_source := s, ls_saved_state := ls_state st, ls_state := s', ls_no_comments := True\<rparr>))
    | None \<Rightarrow> lex_switch (st\<lparr>ls_source := s\<rparr>) (Some 0x2f))" using round_char [OF ok(1) p] by blast
  have "wants (lx_comments (ls_lex st)) (ISC_LEXCOMMENT_C OR ISC_LEXCOMMENT_CPLUSPLUS)" using c(2) by (auto simp: wants_def bit_eq_iff bit_simps)
  then have "comment_start (st\<lparr>ls_source := s\<rparr>) (Some 0x2f) = Some lexstate_maybecomment" using c(1) ok(3) by (simp add: comment_start_def Let_def)
  moreover have "incomment (st\<lparr>ls_source := s, ls_saved_state := ls_state st, ls_state := lexstate_maybecomment, ls_no_comments := True\<rparr>) lexstate_maybecomment w"
    using w s(1) ok by (auto simp: incomment_def inword_def st_ok_def mode_ok_def)
  ultimately show ?thesis using s by simp
qed

lemma comment_moves:
  assumes l: "gettoken_loop fuel st = Some res" and c: "incomment st q w" "q \<in> comment_states" and p: "pending (ls_source st) = x # xs"
    and m: "q = lexstate_maybecomment \<and> x = 0x2a \<and> q' = lexstate_ccomment \<or> q = lexstate_ccomment \<and> q' = (if x = 0x2a then lexstate_ccommentend else lexstate_ccomment)"
      "wants (lx_comments (ls_lex st)) ISC_LEXCOMMENT_C"
  shows "\<exists>fuel' st'. gettoken_loop fuel' st' = Some res \<and> incomment st' q' w \<and> pending (ls_source st') = xs \<and> ls_lex st' = ls_lex st"
proof -
  obtain s where s: "lex_round st = lex_switch (st\<lparr>ls_source := s\<rparr>) (Some x)" "incomment (st\<lparr>ls_source := s\<rparr>) q w" "pending s = xs"
    using comment_round [OF c p] by blast
  let ?st = "st\<lparr>ls_source := s, ls_state := q'\<rparr>"
  have "lex_round st = Some (Next ?st)" using s(1) m c(1) by (auto simp: lex_switch_def incomment_def)
  moreover have "incomment ?st q' w" using s(2) by (simp add: incomment_def)
  ultimately show ?thesis using loop_next [OF l] s(3) by fastforce
qed

lemma comment_skips:
  assumes "gettoken_loop fuel st = Some res" "incomment st lexstate_ccomment w" "pending (ls_source st) = cs @ rest" "0x2a \<notin> set cs" "wants (lx_comments (ls_lex st)) ISC_LEXCOMMENT_C"
  shows "\<exists>fuel' st'. gettoken_loop fuel' st' = Some res \<and> incomment st' lexstate_ccomment w \<and> pending (ls_source st') = rest \<and> ls_lex st' = ls_lex st"
  using assms
proof (induction cs arbitrary: fuel st)
  case Nil
  then show ?case by (intro exI [of _ fuel] exI [of _ st]) simp
next
  case (Cons x cs)
  obtain fuel1 st1 where "gettoken_loop fuel1 st1 = Some res" "incomment st1 lexstate_ccomment w" "pending (ls_source st1) = cs @ rest" "ls_lex st1 = ls_lex st"
    using comment_moves [OF Cons.prems(1,2), of x "cs @ rest" lexstate_ccomment] Cons.prems(3-5) by auto
  then show ?case using Cons.IH [of fuel1 st1] Cons.prems(4,5) by auto
qed

lemma comment_ends:
  assumes l: "gettoken_loop fuel st = Some (r, tk, st')" and c: "incomment st lexstate_ccommentend w" and p: "pending (ls_source st) = 0x2f # rest"
  shows "r = ISC_R_SUCCESS \<and> tk = Some \<lparr>tk_type = isc_tokentype_string, tk_value = As_textregion w\<rparr> \<and> pending (ls_source st') = 0x2f # rest \<and>
    src_result (ls_source st') = ISC_R_SUCCESS \<and> \<not> src_at_eof (ls_source st')"
proof -
  obtain s where s: "lex_round st = lex_switch (st\<lparr>ls_source := s\<rparr>) (Some 0x2f)" "incomment (st\<lparr>ls_source := s\<rparr>) lexstate_ccommentend w" "pending s = rest" "last_read s = 0x2f"
    "\<not> src_at_eof s" using comment_round [OF c _ p] by blast
  let ?st = "st\<lparr>ls_source := s, ls_state := lexstate_string, ls_no_comments := False\<rparr>"
  have iw: "inword ?st w" using s(2) by (simp add: incomment_def)
  obtain s' where e: "lex_string ?st (Some 0x20) = Some (Finished (?st\<lparr>ls_source := s'\<rparr>) \<lparr>tk_type = isc_tokentype_string, tk_value = As_textregion w\<rparr>)"
    "pending s' = 0x2f # rest" "src_result s' = ISC_R_SUCCESS" "\<not> src_at_eof s'" using word_ends [OF iw, of "0x20"] s(3-5) by auto
  have "lex_round st = lex_string ?st (Some 0x20)" using s(1) c by (simp add: lex_switch_def incomment_def lex_resume_def)
  then show ?thesis using loop_end [OF l] e by auto
qed

lemma gettoken_comment_ready:
  assumes lx: "ready lx ss (w @ [0x2f, 0x2a] @ cs @ [0x2a, 0x2f] @ rest)"
    and w: "w \<noteq> []" "\<forall>x\<in>set w. plain_char lx options x" and cs: "0x2a \<notin> set cs" and c: "lx_comment_ok lx" "wants (lx_comments lx) ISC_LEXCOMMENT_C"
    and o: "\<not> (lx_last_was_eol lx \<and> wants options ISC_LEXOPT_INITIALWS)" "\<not> (hd w = 0x22 \<and> wants options ISC_LEXOPT_QSTRING)"
      "\<not> (isdigit (hd w) \<and> wants options ISC_LEXOPT_NUMBER)"
  shows "\<exists>lx'. isc_lex_gettoken lx options = Some (ISC_R_SUCCESS, Some \<lparr>tk_type = isc_tokentype_string, tk_value = As_textregion w\<rparr>, lx') \<and> ready lx' ss (0x2f # rest)"
proof -
  from lx have lx': "ready lx ss ([] @ w @ 0x2f # 0x2a # cs @ 0x2a # 0x2f # rest)" by simp
  from loop_to_word [OF lx' _ w o] obtain r tk st n3 st3 where g: "isc_lex_gettoken lx options = Some (r, tk, (ls_lex st)\<lparr>lx_sources := ls_source st # ss\<rparr>)" "st_end st"
    and 3: "gettoken_loop n3 st3 = Some (r, tk, st)" "inword st3 w" "pending (ls_source st3) = 0x2f # 0x2a # cs @ 0x2a # 0x2f # rest" "same_conf lx (ls_lex st3)"
    by (metis empty_iff empty_set)
  have c3: "lx_comment_ok (ls_lex st3)" "wants (lx_comments (ls_lex st3)) ISC_LEXCOMMENT_C" using c 3(4) by (simp_all add: same_conf_def)
  from comment_begins [OF 3(2,3) c3] obtain st4 where 4: "lex_round st3 = Some (Next st4)" "incomment st4 lexstate_maybecomment w" "pending (ls_source st4) = 0x2a # cs @ 0x2a # 0x2f # rest"
    "ls_lex st4 = ls_lex st3" by blast
  obtain n4 where l4: "gettoken_loop n4 st4 = Some (r, tk, st)" using loop_next [OF 3(1) 4(1)] by blast
  from comment_moves [OF l4 4(2) _ 4(3), of lexstate_ccomment] 4(4) c3(2)
  obtain n5 st5 where 5: "gettoken_loop n5 st5 = Some (r, tk, st)" "incomment st5 lexstate_ccomment w" "pending (ls_source st5) = cs @ 0x2a # 0x2f # rest" "ls_lex st5 = ls_lex st3" by auto
  from comment_skips [OF 5(1-3) cs] 5(4) c3(2)
  obtain n6 st6 where 6: "gettoken_loop n6 st6 = Some (r, tk, st)" "incomment st6 lexstate_ccomment w" "pending (ls_source st6) = 0x2a # 0x2f # rest" "ls_lex st6 = ls_lex st3" by auto
  from comment_moves [OF 6(1,2) _ 6(3), of lexstate_ccommentend] 6(4) c3(2)
  obtain n7 st7 where 7: "gettoken_loop n7 st7 = Some (r, tk, st)" "incomment st7 lexstate_ccommentend w" "pending (ls_source st7) = 0x2f # rest" by auto
  have e: "r = ISC_R_SUCCESS" "tk = Some \<lparr>tk_type = isc_tokentype_string, tk_value = As_textregion w\<rparr>" "pending (ls_source st) = 0x2f # rest"
    "src_result (ls_source st) = ISC_R_SUCCESS" "\<not> src_at_eof (ls_source st)" using comment_ends [OF 7] by simp_all
  have "ready ((ls_lex st)\<lparr>lx_sources := ls_source st # ss\<rparr>) ss (0x2f # rest)" using e g(2) by (simp add: ready_def st_end_def lex_fit_def VALID_LEX_def)
  then show ?thesis using g(1) e(1,2) by blast
qed

section \<open>Properties of words\<close>

text \<open>The sources are all closed when a lexer is destroyed.\<close>

lemma isc_lex_destroy_total:
  assumes "VALID_LEX lx"
  shows "\<exists>lx'. isc_lex_destroy lx = Some lx' \<and> lx_sources lx' = [] \<and> \<not> VALID_LEX lx'"
proof -
  have "VALID_LEX lx \<Longrightarrow> length (lx_sources lx) = n \<Longrightarrow> \<exists>lx'. close_all n lx = Some lx' \<and> lx_sources lx' = []" for n
  proof (induction n arbitrary: lx)
    case (Suc n)
    obtain s ss where s: "lx_sources lx = s # ss" using Suc.prems(2) by (cases "lx_sources lx") auto
    let ?lx = "lx\<lparr>lx_sources := ss, lx_last_was_eol := src_last_was_eol s\<rparr>"
    have "VALID_LEX ?lx" "length (lx_sources ?lx) = n" using Suc.prems s by (simp_all add: VALID_LEX_def)
    then show ?case using Suc.IH [of ?lx] Suc.prems s by (simp add: isc_lex_close_def)
  qed simp
  then show ?thesis using assms by (fastforce simp: isc_lex_destroy_def VALID_LEX_def LEX_MAGIC_def)
qed

text \<open>A lexer on a file.\<close>

definition file_lexer :: "nat \<Rightarrow> u32 \<Rightarrow> bytes \<Rightarrow> isc_lex" where
  "file_lexer n comments cs = (isc_lex_create n)\<lparr>lx_comments := comments, lx_sources := [\<lparr>src_result = ISC_R_SUCCESS, src_at_eof = False, src_last_was_eol = True,
     src_pushback = (isc_buffer_init (replicate n 0) n)\<lparr>b_extra := n, b_mctx := True\<rparr>, src_ignored = 0, src_input = Stream cs None, src_name = [], src_line = 1, src_saved_line = 0\<rparr>]\<rparr>"

lemma file_lexer_opened:
  assumes "0 < n" "n < 2 ^ 32"
  shows "isc_lex_openfile (isc_lex_create n) [] (Inr (Stream cs None)) = Some (ISC_R_SUCCESS, file_lexer n 0 cs)"
    "isc_lex_setcomments (file_lexer n 0 cs) comments = Some (file_lexer n comments cs)"
  using assms by (simp_all add: isc_lex_openfile_def new_source_def isc_lex_create_def isc_buffer_allocate_def isc_buffer_setmctx_def VALID_LEX_def file_lexer_def
      isc_lex_setcomments_def isc_buffer_init_def ISC_BUFFER_VALID_def)

lemma file_lexer_ready:
  assumes "0 < n" "n < 2 ^ 32" "length cs < 2 ^ 31"
  shows "ready (file_lexer n comments cs) [] cs"
proof -
  have "buf_ok ((isc_buffer_init (replicate n 0) n)\<lparr>b_extra := n, b_mctx := True\<rparr>)" using assms by (simp add: buf_ok_def isc_buffer_init_def ISC_BUFFER_VALID_def)
  then show ?thesis using assms
    by (simp add: ready_def file_lexer_def isc_lex_create_def lex_fit_def VALID_LEX_def src_ok_def pending_def) (simp add: isc_buffer_init_def buf_remaining_def buf_content_def)
qed

lemma file_lexer_simps [simp]:
  "0 < n \<Longrightarrow> lx_specials (file_lexer n comments cs) = (\<lambda>c. False)" "lx_comments (file_lexer n comments cs) = comments"
  "lx_comment_ok (file_lexer n comments cs)" "lx_last_was_eol (file_lexer n comments cs)" "lx_paren_count (file_lexer n comments cs) = 0"
  by (simp_all add: file_lexer_def isc_lex_create_def Let_def)

text \<open>
  C39: Where a comment of the C kind follows a word at once, the slash that ends the comment is read again: the word is the token, and the text that is left begins with the slash.
  It is not as if the comment were a space.
\<close>

theorem comment_slash_again:
  assumes "ready lx ss (w @ [0x2f, 0x2a] @ cs @ [0x2a, 0x2f] @ rest)" "w \<noteq> []" "\<forall>x\<in>set w. plain_char lx options x" "0x2a \<notin> set cs"
    "lx_comment_ok lx" "wants (lx_comments lx) ISC_LEXCOMMENT_C" "\<not> (lx_last_was_eol lx \<and> wants options ISC_LEXOPT_INITIALWS)"
    "\<not> (hd w = 0x22 \<and> wants options ISC_LEXOPT_QSTRING)" "\<not> (isdigit (hd w) \<and> wants options ISC_LEXOPT_NUMBER)"
  shows "\<exists>lx'. isc_lex_gettoken lx options = Some (ISC_R_SUCCESS, Some \<lparr>tk_type = isc_tokentype_string, tk_value = As_textregion w\<rparr>, lx') \<and> ready lx' ss (0x2f # rest)"
  using gettoken_comment_ready [OF assms] .

theorem comment_slash_again_witness:
  "\<exists>lx'. isc_lex_gettoken (file_lexer 1 ISC_LEXCOMMENT_C [0x61, 0x2f, 0x2a, 0x63, 0x2a, 0x2f, 0x62, 0x0a]) 0 =
      Some (ISC_R_SUCCESS, Some \<lparr>tk_type = isc_tokentype_string, tk_value = As_textregion [0x61]\<rparr>, lx') \<and> ready lx' [] (0x2f # [0x62, 0x0a])"
proof -
  have "ready (file_lexer 1 ISC_LEXCOMMENT_C [0x61, 0x2f, 0x2a, 0x63, 0x2a, 0x2f, 0x62, 0x0a]) [] ([0x61] @ [0x2f, 0x2a] @ [0x63] @ [0x2a, 0x2f] @ [0x62, 0x0a])"
    using file_lexer_ready [of 1] by simp
  then show ?thesis by (rule comment_slash_again) (simp_all add: plain_char_def comment_char_def wants_def ISC_LEXCOMMENT_C_def)
qed

text \<open>What was read can be put back.\<close>

lemma ungettoken_possible:
  assumes "lex_fit lx" "lx_sources lx = s # ss" "src_ok s" "src_result s = ISC_R_SUCCESS" "\<not> src_at_eof s"
    "isc_lex_gettoken lx options = Some (r, tk, lx1)" "ready lx1 ss t" "t \<noteq> pending s"
  shows "\<exists>lx2. isc_lex_ungettoken lx1 tk' = Some lx2"
proof -
  obtain pb st where g: "lx1 = (ls_lex st)\<lparr>lx_sources := ls_source st # ss\<rparr>" "st_end st" "kept (first_state lx s pb options) st"
    "buf_content pb @ input_octets (src_input s) = pending s" using gettoken_run [OF assms(1-5), of options] assms(6) by auto
  let ?s = "ls_source st"
  have c: "buf_content (src_pushback ?s) @ input_octets (src_input ?s) = pending s" using g(3,4) by (simp add: kept_def same_text_def first_state_def)
  have "pending ?s = t" using assms(7) g(1) by (simp add: ready_def)
  moreover have "b_current (src_pushback ?s) = 0 \<Longrightarrow> pending ?s = pending s" unfolding c [symmetric] by (simp add: pending_def buf_remaining_def)
  ultimately have "b_current (src_pushback ?s) \<noteq> 0" using assms(8) by blast
  moreover have "ISC_BUFFER_VALID (src_pushback ?s)" "VALID_LEX lx1" using g(1,2) by (auto simp: st_end_def src_ok_def buf_okD(1) lex_fit_def VALID_LEX_def)
  ultimately show ?thesis using g(1) by (simp add: isc_lex_ungettoken_def isc_buffer_first_def)
qed

lemma ungettoken_ready:
  assumes "ready lx ss t" "isc_lex_gettoken lx options = Some (r, tk, lx1)" "ready lx1 ss t1" "t1 \<noteq> t"
  shows "\<exists>lx2. isc_lex_ungettoken lx1 tk' = Some lx2 \<and> ready lx2 ss t"
proof -
  obtain s where s: "lex_fit lx" "lx_sources lx = s # ss" "src_ok s" "src_result s = ISC_R_SUCCESS" "\<not> src_at_eof s" "pending s = t"
    using ready_source [OF assms(1)] .
  obtain s1 where s1: "lx_sources lx1 = s1 # ss" "src_result s1 = ISC_R_SUCCESS" using ready_source [OF assms(3)] by blast
  obtain lx2 where u: "isc_lex_ungettoken lx1 tk' = Some lx2" using ungettoken_possible [OF s(1-5) assms(2,3)] assms(4) s(6) by blast
  from ungot_source [OF s(1-5) assms(2) u] obtain s2 where "lx_sources lx2 = s2 # ss" "pending s2 = t" "src_ok s2" "\<not> src_at_eof s2" "src_result s2 = ISC_R_SUCCESS" "lex_fit lx2"
    using s(6) s1 by auto
  then have "ready lx2 ss t" by (simp add: ready_def)
  then show ?thesis using u by blast
qed

theorem gettoken_total_witness:
  "\<exists>r tk lx'. isc_lex_gettoken (file_lexer 1 15 [0x28, 0x22, 0x5c, 0x2f, 0x2a]) 0x3fff = Some (r, tk, lx') \<and> lexer_ok lx'"
proof -
  have "ready (file_lexer 1 15 [0x28, 0x22, 0x5c, 0x2f, 0x2a]) [] [0x28, 0x22, 0x5c, 0x2f, 0x2a]" using file_lexer_ready [of 1] by simp
  then have "lexer_ok (file_lexer 1 15 [0x28, 0x22, 0x5c, 0x2f, 0x2a])" by (auto simp: ready_def lexer_ok_def split: list.splits)
  then show ?thesis by (rule gettoken_total)
qed

theorem ungettoken_restores_witness:
  "\<exists>s tk lx1 lx2 s2. lx_sources (file_lexer 1 0 [0x61, 0x0a]) = [s] \<and> isc_lex_gettoken (file_lexer 1 0 [0x61, 0x0a]) 0 = Some (ISC_R_SUCCESS, Some tk, lx1) \<and>
    isc_lex_ungettoken lx1 tk = Some lx2 \<and> lx_sources lx2 = s2 # [] \<and> pending s2 = pending s \<and> src_line s2 = src_line s"
proof -
  let ?lx = "file_lexer 1 0 [0x61, 0x0a]"
  have r: "ready ?lx [] [0x61, 0x0a]" using file_lexer_ready [of 1] by simp
  then obtain s where s: "lex_fit ?lx" "lx_sources ?lx = s # []" "src_ok s" "src_result s = ISC_R_SUCCESS" "\<not> src_at_eof s" "pending s = [0x61, 0x0a]" by (rule ready_source)
  obtain lx1 where g: "isc_lex_gettoken ?lx 0 = Some (ISC_R_SUCCESS, Some \<lparr>tk_type = isc_tokentype_string, tk_value = As_textregion [0x61]\<rparr>, lx1)" "ready lx1 [] [0x0a]"
    using gettoken_word_ready [of ?lx "[]" "[]" "[0x61]" "0x0a" "[]" 0] r by (auto simp: plain_char_def delimiter_def comment_char_def wants_def)
  obtain lx2 where u: "isc_lex_ungettoken lx1 \<lparr>tk_type = isc_tokentype_string, tk_value = As_textregion [0x61]\<rparr> = Some lx2"
    using ungettoken_possible [OF s(1-5) g] s(6) by auto
  show ?thesis using ungettoken_restores [OF s(1-5) g(1) u] s(2) g(1) u by blast
qed

section \<open>Numbers and the end of the input\<close>

text \<open>How the sources end is not changed.\<close>

definition ends :: "isc_lex \<Rightarrow> isc_result option list" where
  "ends lx = map (\<lambda>s. input_end (src_input s)) (lx_sources lx)"

lemma ready_ok: "ready lx ss t \<Longrightarrow> lexer_ok lx"
  by (auto simp: ready_def lexer_ok_def split: list.splits)

lemma gettoken_ends:
  assumes "lexer_ok lx" "isc_lex_gettoken lx options = Some (r, tk, lx')"
  shows "ends lx' = ends lx \<and> lexer_ok lx'"
proof -
  show ?thesis
  proof (cases "lx_sources lx")
    case Nil
    then show ?thesis using assms by (auto simp: isc_lex_gettoken_def ends_def split: bind_splits if_splits)
  next
    case (Cons s ss)
    have k: "lex_fit lx" "src_ok s" "VALID_LEX lx" using assms(1) Cons by (simp_all add: lexer_ok_def lex_fit_def)
    consider (over) "src_result s \<noteq> ISC_R_SUCCESS" | (eof) "src_result s = ISC_R_SUCCESS" "src_at_eof s" | (run) "src_result s = ISC_R_SUCCESS" "\<not> src_at_eof s" by blast
    then show ?thesis
    proof cases
      case over
      then show ?thesis using assms Cons k(3) by (simp add: isc_lex_gettoken_def)
    next
      case eof
      have r: "isc_buffer_remaininglength (src_pushback s) = 0" "src_ok (s\<lparr>src_saved_line := l\<rparr>)" for l
        using k(2) eof(2) by (auto simp: src_ok_def pending_def)
      show ?thesis using Cons k eof r assms(2)
        by (auto simp: isc_lex_gettoken_def unbalanced_def lexer_ok_def lex_fit_def VALID_LEX_def Let_def ends_def split: option.splits if_splits)
    next
      case run
      from gettoken_run [OF k(1) Cons k(2) run, of options] assms(2) obtain pb st
        where g: "lx' = (ls_lex st)\<lparr>lx_sources := ls_source st # ss\<rparr>" "st_end st" "kept (first_state lx s pb options) st" by auto
      have "input_end (src_input (ls_source st)) = input_end (src_input s)" using g(3) by (simp add: kept_def same_text_def first_state_def)
      then show ?thesis using g(1,2) Cons by (simp add: ends_def lexer_ok_def st_end_def lex_fit_def VALID_LEX_def)
    qed
  qed
qed

lemma ungettoken_ends: "isc_lex_ungettoken lx tk = Some lx' \<Longrightarrow> ends lx' = ends lx"
  by (auto simp: isc_lex_ungettoken_def ends_def split: bind_splits list.splits)

text \<open>The end of a file.\<close>

lemma gettoken_eof_ready:
  assumes lx: "ready lx ss []" and e: "ends lx = None # es" and o: "\<not> wants options ISC_LEXOPT_EOF" "\<not> wants options ISC_LEXOPT_DNSMULTILINE" "\<not> wants options ISC_LEXOPT_BTEXT"
  shows "\<exists>lx'. isc_lex_gettoken lx options = Some (ISC_R_EOF, None, lx')"
proof -
  obtain s where s: "lex_fit lx" "lx_sources lx = s # ss" "src_ok s" "src_result s = ISC_R_SUCCESS" "\<not> src_at_eof s" "pending s = []" using ready_source [OF lx] .
  obtain pb r tk st where g: "st_ok (first_state lx s pb options)" "isc_lex_gettoken lx options = Some (r, tk, (ls_lex st)\<lparr>lx_sources := ls_source st # ss\<rparr>)"
    "gettoken_loop (2 * length (pending s) + 4) (first_state lx s pb options) = Some (r, tk, st)" "pending (ls_source (first_state lx s pb options)) = pending s"
    using gettoken_run [OF s(1-5), of options] by blast
  let ?f = "first_state lx s pb options"
  have f: "ls_state ?f = lexstate_start" "ls_options ?f = options" "input_end (src_input (ls_source ?f)) = None" "ls_no_comments ?f = False"
    using e o(2) s(2) by (simp_all add: first_state_def ends_def)
  have so: "src_ok (ls_source ?f)" using g(1) by (simp add: st_ok_def reading_ok_def)
  let ?e = "(ls_source ?f)\<lparr>src_at_eof := True\<rparr>"
  have "refill (ls_source ?f) = Some (ISC_R_SUCCESS, ?e) \<and> read_char True ?e = Some (None, ?e)"
  proof -
    have "refill (ls_source ?f) = Some (ISC_R_SUCCESS, s1) \<or> \<not> (\<exists>r s1. refill (ls_source ?f) = Some (r, s1) \<and> r \<noteq> ISC_R_SUCCESS)" for s1
    proof (cases "src_input (ls_source ?f)")
      case (Stream cs er)
      moreover have "er = None" using f(3) Stream by simp
      ultimately show ?thesis by (auto simp: refill_def split: list.split bind_splits)
    next
      case (From_buffer b)
      then show ?thesis by (auto simp: refill_def split: bind_splits)
    qed
    then show ?thesis using read_end [OF so, of True] g(4) s(6) by auto
  qed
  then have "lex_round ?f = Some (lex_eof (set_last_eol False (?f\<lparr>ls_source := ?e\<rparr>)))"
    using f(1) by (simp add: lex_round_def comment_start_def Let_def lex_switch_def lex_start_def)
  moreover have "lex_eof (set_last_eol False (?f\<lparr>ls_source := ?e\<rparr>)) = Failed (set_last_eol False (?f\<lparr>ls_source := ?e\<rparr>)) ISC_R_EOF"
    using o f(2) by (simp add: lex_eof_def unbalanced_def set_last_eol_def)
  ultimately have "gettoken_loop (Suc n) ?f = Some (ISC_R_EOF, None, set_last_eol False (?f\<lparr>ls_source := ?e\<rparr>))" for n by simp
  then have "r = ISC_R_EOF" "tk = None" using g(3) by (simp_all add: numeral_eq_Suc)
  then show ?thesis using g(2) by blast
qed

text \<open>A number.\<close>

definition innumber :: "lstate \<Rightarrow> bytes \<Rightarrow> bool" where
  "innumber st w \<longleftrightarrow> st_ok st \<and> ls_state st = lexstate_number \<and> ls_curr st = length w \<and> take (length w) (lx_data (ls_lex st)) = w \<and> lx_data (ls_lex st) ! length w = 0 \<and>
     \<not> lx_last_was_eol (ls_lex st) \<and> \<not> ls_no_comments st"

lemma digit_plain: "isdigit x \<Longrightarrow> \<not> comment_char comments x \<and> x \<notin> {0x20, 0x09, 0x0d, 0x0a, 0x22} \<and> x \<noteq> 0"
  by (auto simp: isdigit_def comment_char_def)

lemma lex_number_digit:
  assumes ok: "st_ok st" and st: "ls_state st = lexstate_number" "ls_curr st = length w" "take (length w) (lx_data (ls_lex st)) = w"
    "\<not> lx_last_was_eol (ls_lex st)" "\<not> ls_no_comments st" and x: "isdigit x" and o: "\<not> wants (ls_options st) ISC_LEXOPT_OCTAL"
  shows "\<exists>st'. lex_number st (Some x) = Some (Next st') \<and> innumber st' (w @ [x]) \<and> ls_source st' = ls_source st \<and> same_conf (ls_lex st) (ls_lex st') \<and> ls_options st' = ls_options st"
proof -
  have f: "lex_fit (ls_lex st)" "ls_curr st + ls_remaining st = lx_max_token (ls_lex st)" using ok by (simp_all add: st_ok_def place_ok_def)
  obtain lx r where p: "put_char x st = Some (st\<lparr>ls_lex := lx, ls_curr := ls_curr st + 1, ls_remaining := r\<rparr>)" "lex_fit lx" "ls_curr st + 1 + r = lx_max_token lx"
    "lx_brace_count lx = lx_brace_count (ls_lex st)" "take (ls_curr st + 1) (lx_data lx) = take (ls_curr st) (lx_data (ls_lex st)) @ [x]" "lx_data lx ! (ls_curr st + 1) = 0"
    "same_conf (ls_lex st) lx" "lx_last_was_eol lx = lx_last_was_eol (ls_lex st)"
    using put_char_ok [OF f, of x] unfolding same_conf_def by blast
  let ?st = "st\<lparr>ls_lex := lx, ls_curr := ls_curr st + 1, ls_remaining := r\<rparr>"
  have "place_ok lx (ls_curr st + 1) r (ls_prev st)" using ok p by (auto simp: place_ok_def st_ok_def split: option.splits)
  then have "st_ok ?st" using ok p(4) by (simp add: st_ok_def)
  then have "innumber ?st (w @ [x])" using st p(5,6,8) by (simp add: innumber_def)
  moreover have "lex_number st (Some x) = Some (Next ?st)" using x o p(1) by (simp add: lex_number_def)
  ultimately show ?thesis using p by auto
qed

lemma number_round:
  assumes w: "innumber st w" and p: "pending (ls_source st) = x # xs" and x: "isdigit x" and o: "\<not> wants (ls_options st) ISC_LEXOPT_OCTAL"
  shows "\<exists>st'. lex_round st = Some (Next st') \<and> innumber st' (w @ [x]) \<and> pending (ls_source st') = xs \<and> same_conf (ls_lex st) (ls_lex st') \<and> ls_options st' = ls_options st"
proof -
  have ok: "st_ok st" using w by (simp add: innumber_def)
  obtain s where s: "st_ok (st\<lparr>ls_source := s\<rparr>)" "pending s = xs" "lex_round st = (case comment_start (st\<lparr>ls_source := s\<rparr>) (Some x) of
      Some s' \<Rightarrow> Some (Next (st\<lparr>ls_source := s, ls_saved_state := ls_state st, ls_state := s', ls_no_comments := True\<rparr>))
    | None \<Rightarrow> lex_switch (st\<lparr>ls_source := s\<rparr>) (Some x))" using round_char [OF ok p] by blast
  have "lex_round st = lex_number (st\<lparr>ls_source := s\<rparr>) (Some x)" using s(3) digit_plain [OF x] w by (simp add: lex_switch_def innumber_def)
  moreover from w have c: "ls_state (st\<lparr>ls_source := s\<rparr>) = lexstate_number" "ls_curr (st\<lparr>ls_source := s\<rparr>) = length w" "take (length w) (lx_data (ls_lex (st\<lparr>ls_source := s\<rparr>))) = w"
    "\<not> lx_last_was_eol (ls_lex (st\<lparr>ls_source := s\<rparr>))" "\<not> ls_no_comments (st\<lparr>ls_source := s\<rparr>)" by (simp_all add: innumber_def)
  ultimately show ?thesis using lex_number_digit [OF s(1) c x] o s(2) by auto
qed

lemma loop_number:
  assumes "gettoken_loop fuel st = Some res" "innumber st v" "pending (ls_source st) = w @ rest" "list_all isdigit w" "\<not> wants (ls_options st) ISC_LEXOPT_OCTAL"
  shows "\<exists>fuel' st'. gettoken_loop fuel' st' = Some res \<and> innumber st' (v @ w) \<and> pending (ls_source st') = rest \<and> same_conf (ls_lex st) (ls_lex st') \<and> ls_options st' = ls_options st"
  using assms
proof (induction w arbitrary: fuel st v)
  case Nil
  then show ?case by (intro exI [of _ fuel] exI [of _ st]) simp
next
  case (Cons x w)
  obtain st1 where r: "lex_round st = Some (Next st1)" "innumber st1 (v @ [x])" "pending (ls_source st1) = w @ rest" "same_conf (ls_lex st) (ls_lex st1)" "ls_options st1 = ls_options st"
    using number_round [OF Cons.prems(2), of x "w @ rest"] Cons.prems(3,4,5) by auto
  obtain fuel1 where "gettoken_loop fuel1 st1 = Some res" using loop_next [OF Cons.prems(1) r(1)] by blast
  from Cons.IH [OF this r(2,3)] Cons.prems(4,5) r(5) obtain fuel2 st2 where "gettoken_loop fuel2 st2 = Some res" "innumber st2 ((v @ [x]) @ w)" "pending (ls_source st2) = rest"
    "same_conf (ls_lex st1) (ls_lex st2)" "ls_options st2 = ls_options st1" by auto
  then show ?case using same_conf_trans [OF r(4)] r(5) by auto
qed

lemma takeWhile_null: "0 \<notin> set (w :: bytes) \<Longrightarrow> takeWhile (\<lambda>d. d \<noteq> 0) (w @ 0 # r) = w"
  by (induction w) auto

lemma loop_number_end:
  assumes l: "gettoken_loop fuel st = Some res" and w: "innumber st w" "0 \<notin> set w" and p: "pending (ls_source st) = d # rest" and d: "delimiter (ls_lex st) d" "\<not> isdigit d"
    and n: "isc_parse_uint32 w (number_base (ls_options st)) = Inr v"
  shows "\<exists>st'. res = (ISC_R_SUCCESS, Some \<lparr>tk_type = isc_tokentype_number, tk_value = As_ulong v\<rparr>, st') \<and> pending (ls_source st') = d # rest \<and>
    src_result (ls_source st') = ISC_R_SUCCESS \<and> \<not> src_at_eof (ls_source st') \<and> ls_lex st' = ls_lex st"
proof -
  have ok: "st_ok st" using w by (simp add: innumber_def)
  obtain s where s: "st_ok (st\<lparr>ls_source := s\<rparr>)" "pending s = rest" "\<not> src_at_eof s" "last_read s = d" "lex_round st = (case comment_start (st\<lparr>ls_source := s\<rparr>) (Some d) of
      Some s' \<Rightarrow> Some (Next (st\<lparr>ls_source := s, ls_saved_state := ls_state st, ls_state := s', ls_no_comments := True\<rparr>))
    | None \<Rightarrow> lex_switch (st\<lparr>ls_source := s\<rparr>) (Some d))" using round_char [OF ok p] by blast
  let ?st = "st\<lparr>ls_source := s\<rparr>"
  have k: "src_ok s" "0 < b_current (src_pushback s)" "src_result s = ISC_R_SUCCESS" using s(1) w by (simp_all add: innumber_def st_ok_def reading_ok_def)
  obtain s' where p': "pushback (Some d) ?st = Some (?st\<lparr>ls_source := s'\<rparr>)" "pending s' = d # rest" "src_result s' = ISC_R_SUCCESS" "\<not> src_at_eof s'"
    using pushback_some [of ?st d] k s(2-4) by auto
  let ?d = "lx_data (ls_lex st)"
  have len: "length w < length ?d" using ok w by (simp add: innumber_def st_ok_def place_ok_def lex_fit_def)
  have sp: "w @ 0 # drop (Suc (length w)) ?d = ?d" using w(1) len Cons_nth_drop_Suc [OF len] append_take_drop_id [of "length w" ?d] unfolding innumber_def by simp
  have tw: "takeWhile (\<lambda>d. d \<noteq> 0) ?d = w" using takeWhile_null [OF w(2), of "drop (Suc (length w)) ?d"] unfolding sp .
  have "lex_number ?st (Some d) = Some (Finished (?st\<lparr>ls_source := s'\<rparr>) \<lparr>tk_type = isc_tokentype_number, tk_value = As_ulong v\<rparr>)"
    using d n p'(1) tw by (auto simp: lex_number_def delimiter_def special_def)
  then have "lex_round st = Some (Finished (st\<lparr>ls_source := s'\<rparr>) \<lparr>tk_type = isc_tokentype_number, tk_value = As_ulong v\<rparr>)"
    using s(5) d w by (simp add: delimiter_def lex_switch_def innumber_def)
  from loop_end [OF l this] show ?thesis using p' by simp
qed

lemma gettoken_number_ready:
  assumes lx: "ready lx ss (ws @ w @ d # rest)" and ws: "\<forall>x\<in>set ws. x \<in> {0x20, 0x09}" and w: "w \<noteq> []" "list_all isdigit w" "\<not> lx_specials lx (hd w)"
    and d: "delimiter lx d" "\<not> isdigit d" and n: "isc_parse_uint32 w 10 = Inr v"
    and o: "\<not> (lx_last_was_eol lx \<and> wants options ISC_LEXOPT_INITIALWS)" "wants options ISC_LEXOPT_NUMBER" "\<not> wants options ISC_LEXOPT_OCTAL" "\<not> wants options ISC_LEXOPT_CNUMBER"
      "\<not> wants options ISC_LEXOPT_DNSMULTILINE"
  shows "\<exists>lx'. isc_lex_gettoken lx options = Some (ISC_R_SUCCESS, Some \<lparr>tk_type = isc_tokentype_number, tk_value = As_ulong v\<rparr>, lx') \<and>
    ready lx' ss (d # rest) \<and> same_conf lx lx'"
proof -
  obtain s where s: "lex_fit lx" "lx_sources lx = s # ss" "src_ok s" "src_result s = ISC_R_SUCCESS" "\<not> src_at_eof s" "pending s = ws @ w @ d # rest"
    using ready_source [OF lx] .
  obtain pb r tk st where g: "st_ok (first_state lx s pb options)" "isc_lex_gettoken lx options = Some (r, tk, (ls_lex st)\<lparr>lx_sources := ls_source st # ss\<rparr>)"
    "gettoken_loop (2 * length (pending s) + 4) (first_state lx s pb options) = Some (r, tk, st)" "st_end st" "pending (ls_source (first_state lx s pb options)) = pending s"
    using gettoken_run [OF s(1-5), of options] by blast
  let ?f = "first_state lx s pb options"
  have f: "same_conf lx (ls_lex ?f)" "ls_options ?f = options" using o(5) by (simp_all add: first_state_def same_conf_def)
  obtain x v' where xv: "w = x # v'" using w(1) by (cases w) auto
  have x: "isdigit x" "\<not> lx_specials lx x" "list_all isdigit v'" using w xv by simp_all
  obtain n1 st1 where 1: "gettoken_loop n1 st1 = Some (r, tk, st)" "before st1" "pending (ls_source st1) = x # v' @ d # rest" "ls_lex st1 = ls_lex ?f" "ls_options st1 = options"
    using loop_blanks [OF g(3) first_before [OF g(1) o(1)], of ws "w @ d # rest"] ws g(5) s(6) xv f(2) by auto
  have ok: "st_ok st1" using 1(2) by (simp add: before_def)
  obtain s1 where s1: "st_ok (st1\<lparr>ls_source := s1\<rparr>)" "pending s1 = v' @ d # rest" "0 < b_current (src_pushback s1)" "lex_round st1 = (case comment_start (st1\<lparr>ls_source := s1\<rparr>) (Some x) of
      Some s' \<Rightarrow> Some (Next (st1\<lparr>ls_source := s1, ls_saved_state := ls_state st1, ls_state := s', ls_no_comments := True\<rparr>))
    | None \<Rightarrow> lex_switch (st1\<lparr>ls_source := s1\<rparr>) (Some x))" using round_char [OF ok 1(3)] by blast
  let ?st = "(set_last_eol False (st1\<lparr>ls_source := s1\<rparr>))\<lparr>ls_state := lexstate_number\<rparr>"
  have e: "\<not> ls_escaped st1" using ok 1(2) by (simp add: st_ok_def mode_ok_def before_def)
  have sok: "st_ok ?st" using s1(1,3) e
    by (simp add: st_ok_def set_last_eol_def place_ok_def lex_fit_def VALID_LEX_def mode_ok_def reading_ok_def braces_ok_def cong: option.case_cong)
  have c: "ls_state ?st = lexstate_number" "ls_curr ?st = length []" "take (length []) (lx_data (ls_lex ?st)) = []"
    "\<not> lx_last_was_eol (ls_lex ?st)" "\<not> ls_no_comments ?st" "\<not> wants (ls_options ?st) ISC_LEXOPT_OCTAL" using 1(2,5) o(3) by (simp_all add: set_last_eol_def before_def)
  obtain st2 where t: "lex_number ?st (Some x) = Some (Next st2)" "innumber st2 ([] @ [x])" "ls_source st2 = s1" "same_conf (ls_lex st1) (ls_lex st2)" "ls_options st2 = options"
    using lex_number_digit [OF sok c(1-5) x(1) c(6)] 1(5) by (auto simp: set_last_eol_def same_conf_def)
  have "lx_specials (ls_lex st1) = lx_specials lx" using f(1) 1(4) by (simp add: same_conf_def)
  then have "lex_round st1 = Some (Next st2)"
    using s1(4) x digit_plain [OF x(1)] 1(2,5) o t(1) by (auto simp: lex_switch_def lex_start_def before_def special_def)
  from loop_next [OF 1(1) this] obtain n2 where l2: "gettoken_loop n2 st2 = Some (r, tk, st)" by blast
  have p2: "pending (ls_source st2) = v' @ d # rest" using t(3) s1(2) by simp
  obtain n3 st3 where 3: "gettoken_loop n3 st3 = Some (r, tk, st)" "innumber st3 w" "pending (ls_source st3) = d # rest" "same_conf (ls_lex st2) (ls_lex st3)" "ls_options st3 = options"
    using loop_number [OF l2 t(2) p2 x(3)] t(5) o(3) xv by auto
  have sc: "same_conf lx (ls_lex st3)" using same_conf_trans [OF same_conf_trans [OF f(1) t(4) [unfolded 1(4)]] 3(4)] .
  have "number_base (ls_options st3) = 10" using o 3(5) by (simp add: number_base_def)
  moreover have "0 \<notin> set w" using w(2) digit_plain by (auto simp: list_all_iff)
  ultimately obtain st' where q: "(r, tk, st) = (ISC_R_SUCCESS, Some \<lparr>tk_type = isc_tokentype_number, tk_value = As_ulong v\<rparr>, st')" "pending (ls_source st') = d # rest"
    "src_result (ls_source st') = ISC_R_SUCCESS" "\<not> src_at_eof (ls_source st')" "ls_lex st' = ls_lex st3"
    using loop_number_end [OF 3(1,2) _ 3(3)] d same_conf_plain(2) [OF sc] n by auto
  have "ready ((ls_lex st)\<lparr>lx_sources := ls_source st # ss\<rparr>) ss (d # rest)" using q g(4) by (simp add: ready_def st_end_def lex_fit_def VALID_LEX_def)
  moreover have "same_conf lx ((ls_lex st)\<lparr>lx_sources := ls_source st # ss\<rparr>)" using sc q by (simp add: same_conf_def)
  ultimately show ?thesis using g(2) q(1) by blast
qed

end
