(* ===== verification/TimeText.thy ===== *)
theory TimeText
  imports Lex DnsTime
begin

text \<open>
  The text of times, the rest of \<^verbatim>\<open>lib/dns/time.c\<close>: \<^verbatim>\<open>dns_time64_totext\<close>, \<^verbatim>\<open>dns_time64_fromtext\<close> and their 32-bit forms.
  The loops are recursive functions; a month past the table of their lengths is \<open>None\<close>.
  \<^verbatim>\<open>snprintf\<close> and \<^verbatim>\<open>sscanf\<close> are modelled as far as the formats here use them.
\<close>

section \<open>Decimal numbers\<close>

function decimal :: "nat \<Rightarrow> bytes" where
  "decimal n = (if n < 10 then [0x30 + of_nat n] else decimal (n div 10) @ [0x30 + of_nat (n mod 10)])"
  by pat_completeness auto
termination by (relation "measure (\<lambda>n. n)") auto

declare decimal.simps [simp del]

text \<open>The formats \<^verbatim>\<open>%0wd\<close>, and \<^verbatim>\<open>%d\<close> over digits.\<close>

definition zero_padded :: "nat \<Rightarrow> nat \<Rightarrow> bytes" where
  "zero_padded w n = replicate (w - length (decimal n)) 0x30 @ decimal n"

definition number :: "bytes \<Rightarrow> nat" where
  "number ds = foldl (\<lambda>n d. n * 10 + (unat d - 0x30)) 0 ds"

section \<open>The calendar\<close>

definition days :: "int list" where "days = [31, 28, 31, 30, 31, 30, 31, 31, 30, 31, 30, 31]"

definition is_leap :: "int \<Rightarrow> bool" where "is_leap y \<longleftrightarrow> y mod 4 = 0 \<and> y mod 100 \<noteq> 0 \<or> y mod 400 = 0"

definition year_secs :: "int \<Rightarrow> int" where "year_secs y = (if is_leap y then 366 else 365) * 86400"

definition month_secs :: "nat \<Rightarrow> int \<Rightarrow> int" where "month_secs m y = (days ! m + (if m = 1 \<and> is_leap y then 1 else 0)) * 86400"

lemma year_secs_pos [simp]: "0 < year_secs y"
  by (simp add: year_secs_def)

text \<open>The years back to the one of a negative time, and on from 1970.\<close>

function back_years :: "int \<Rightarrow> int \<Rightarrow> (int \<times> int) option" where
  "back_years t tm_year =
     (if t < 0 then if tm_year = 0 then None else back_years (t + year_secs (tm_year - 1 + 1900)) (tm_year - 1)
      else Some (t, tm_year))"
  by pat_completeness auto
termination by (relation "measure (\<lambda>(t, y). nat (- t))") (auto simp: year_secs_def)

function forward_years :: "int \<Rightarrow> int \<Rightarrow> (int \<times> int) option" where
  "forward_years t tm_year =
     (if year_secs (tm_year + 1900) \<le> t then
        if tm_year + 1 + 1900 > 9999 then None else forward_years (t - year_secs (tm_year + 1900)) (tm_year + 1)
      else Some (t, tm_year))"
  by pat_completeness auto
termination by (relation "measure (\<lambda>(t, y). nat t)") (auto simp: year_secs_def split: if_splits)

function forward_months :: "int \<Rightarrow> nat \<Rightarrow> int \<Rightarrow> (int \<times> nat) option" where
  "forward_months t tm_mon year =
     (if tm_mon \<ge> length days then None
      else if month_secs tm_mon year \<le> t then forward_months (t - month_secs tm_mon year) (tm_mon + 1) year
      else Some (t, tm_mon))"
  by pat_completeness auto
termination by (relation "measure (\<lambda>(t, m, y). length days - m)") auto

text \<open>The loops over days, hours and minutes.\<close>

function count :: "int \<Rightarrow> int \<Rightarrow> nat \<Rightarrow> int \<times> nat" where
  "count k t n = (if 0 < k \<and> k \<le> t then count k (t - k) (n + 1) else (t, n))"
  by pat_completeness auto
termination by (relation "measure (\<lambda>(k, t, n). nat t)") auto

declare back_years.simps [simp del] forward_years.simps [simp del] forward_months.simps [simp del] count.simps [simp del]

definition dns_time64_totext :: "int \<Rightarrow> isc_buffer \<Rightarrow> (isc_result \<times> isc_buffer) option" where
  "dns_time64_totext t target =
     (case back_years t 70 of
        None \<Rightarrow> Some (ISC_R_RANGE, target)
      | Some (t, tm_year) \<Rightarrow>
          case forward_years t tm_year of
            None \<Rightarrow> Some (ISC_R_RANGE, target)
          | Some (t, tm_year) \<Rightarrow> do {
              (t, tm_mon) \<leftarrow> forward_months t 0 (tm_year + 1900);
              let (t, tm_mday) = count 86400 t 1;
              let (t, tm_hour) = count 3600 t 0;
              let (t, tm_min) = count 60 t 0;
              let buf = zero_padded 4 (nat (tm_year + 1900)) @ zero_padded 2 (tm_mon + 1) @ zero_padded 2 tm_mday @ zero_padded 2 tm_hour @
                zero_padded 2 tm_min @ zero_padded 2 (nat t);
              mem_tobuffer target buf
            })"

definition dns_time32_totext :: "u32 \<Rightarrow> u32 \<Rightarrow> isc_buffer \<Rightarrow> (isc_result \<times> isc_buffer) option" where
  "dns_time32_totext now val target = dns_time64_totext (dns_time64_from32 now val) target"

definition dns_time64_fromtext :: "bytes \<Rightarrow> isc_result + int" where
  "dns_time64_fromtext source =
     (let source = takeWhile (\<lambda>c. c \<noteq> 0) source in
      if length source \<noteq> 14 then Inl DNS_R_SYNTAX
      else if \<not> list_all isdigit source then Inl DNS_R_SYNTAX
      else let year = int (number (take 4 source)); month = number (take 2 (drop 4 source)); day = int (number (take 2 (drop 6 source)));
           hour = int (number (take 2 (drop 8 source))); minute = int (number (take 2 (drop 10 source))); second = int (number (take 2 (drop 12 source)))
        in if year > 9999 then Inl ISC_R_RANGE
           else if month < 1 \<or> month > 12 then Inl ISC_R_RANGE
           else if day < 1 \<or> day > days ! (month - 1) + (if month = 2 \<and> is_leap year then 1 else 0) then Inl ISC_R_RANGE
           else if hour > 23 then Inl ISC_R_RANGE
           else if minute > 59 then Inl ISC_R_RANGE
           else if second > 60 then Inl ISC_R_RANGE
           else let val = second + 60 * minute + 3600 * hour + (day - 1) * 86400;
                val = val + sum_list (map (\<lambda>i. days ! i * 86400) [0..<month - 1]);
                val = (if is_leap year \<and> month > 2 then val + 86400 else val)
             in Inr (if year < 1970 then val - sum_list (map year_secs [year..1969]) else val + sum_list (map year_secs [1970..year - 1])))"

definition dns_time32_fromtext :: "bytes \<Rightarrow> isc_result + u32" where
  "dns_time32_fromtext source = (case dns_time64_fromtext source of Inl result \<Rightarrow> Inl result | Inr value64 \<Rightarrow> Inr (of_int value64))"

section \<open>Digits\<close>

lemma number_snoc [simp]: "number (ds @ [d]) = number ds * 10 + (unat d - 0x30)" "number [] = 0" "number [d] = unat d - 0x30"
  by (simp_all add: number_def)

fun digits :: "nat \<Rightarrow> nat \<Rightarrow> bytes" where
  "digits 0 n = []"
| "digits (Suc w) n = digits w (n div 10) @ [0x30 + of_nat (n mod 10)]"

lemma digit_octet_value: "unat (0x30 + of_nat (n mod 10) :: u8) = 0x30 + n mod 10"
  by (simp add: unat_word_ariths unat_of_nat)

lemma digits_props: "length (digits w n) = w" "list_all isdigit (digits w n)" "number (digits w n) = n mod 10 ^ w"
proof -
  show "length (digits w n) = w" by (induction w arbitrary: n) auto
  show "list_all isdigit (digits w n)" by (induction w arbitrary: n) (auto simp: isdigit_def word_le_nat_alt digit_octet_value)
  show "number (digits w n) = n mod 10 ^ w"
  proof (induction w arbitrary: n)
    case (Suc w)
    have "n mod 10 ^ Suc w = 10 * (n div 10 mod 10 ^ w) + n mod 10" by (simp add: mod_mult2_eq)
    then show ?case using Suc by (simp add: digit_octet_value)
  qed simp
qed

lemma digits_zero: "digits w 0 = replicate w 0x30"
  by (induction w) (auto simp: replicate_append_same)

lemma decimal_length: "n < 10 ^ Suc w \<Longrightarrow> length (decimal n) \<le> Suc w"
proof (induction w arbitrary: n)
  case 0
  then show ?case by (simp add: decimal.simps [of n])
next
  case (Suc w)
  have "n div 10 < 10 ^ Suc w" using Suc.prems by (simp add: div_less_iff_less_mult mult.commute)
  then show ?case using Suc.IH [of "n div 10"] by (simp add: decimal.simps [of n])
qed

lemma zero_padded_digits: "0 < w \<Longrightarrow> n < 10 ^ w \<Longrightarrow> zero_padded w n = digits w n"
proof (induction w arbitrary: n)
  case (Suc w)
  show ?case
  proof (cases "n < 10")
    case True
    then have "n div 10 = 0" "n mod 10 = n" by auto
    then show ?thesis using True by (simp add: zero_padded_def decimal.simps [of n] digits_zero)
  next
    case False
    then have w: "0 < w" using Suc.prems by (cases w) auto
    have "n div 10 < 10 ^ w" using Suc.prems by (simp add: div_less_iff_less_mult mult.commute)
    then have "zero_padded w (n div 10) = digits w (n div 10)" using Suc.IH w by blast
    then show ?thesis using False by (simp add: zero_padded_def decimal.simps [of n])
  qed
qed simp

section \<open>Years and months\<close>

definition year_start :: "int \<Rightarrow> int" where
  "year_start y = (if y < 1970 then - sum_list (map year_secs [y..1969]) else sum_list (map year_secs [1970..y - 1]))"

lemma year_start_next: "year_start (y + 1) = year_start y + year_secs y"
proof -
  consider "y < 1969" | "y = 1969" | "1970 \<le> y" by linarith
  then show ?thesis
  proof cases
    case 1
    then have "[y..1969] = y # [y + 1..1969]" by (simp add: upto.simps)
    then show ?thesis using 1 by (simp add: year_start_def)
  next
    case 2
    then show ?thesis by (simp add: year_start_def)
  next
    case 3
    then have "[1970..y] = [1970..y - 1] @ [y]" by (simp add: upto_rec2)
    then show ?thesis using 3 by (simp add: year_start_def)
  qed
qed

lemma year_start_mono: "y \<le> z \<Longrightarrow> year_start y \<le> year_start z"
proof (induction z rule: int_ge_induct)
  case (step i)
  then show ?case using year_start_next [of i] year_secs_pos [of i] by linarith
qed simp

lemma back_years_spec:
  assumes "0 \<le> ty"
  shows "case back_years t ty of None \<Rightarrow> t + year_start (ty + 1900) < year_start 1900
    | Some (t', ty') \<Rightarrow> 0 \<le> t' \<and> 0 \<le> ty' \<and> ty' \<le> ty \<and> t' + year_start (ty' + 1900) = t + year_start (ty + 1900)"
  using assms
proof (induction t ty rule: back_years.induct)
  case (1 t ty)
  show ?case
  proof (cases "t < 0 \<and> ty \<noteq> 0")
    case True
    have e: "t + year_secs (ty - 1 + 1900) + year_start (ty - 1 + 1900) = t + year_start (ty + 1900)"
      using year_start_next [of "ty - 1 + 1900"] by (simp add: algebra_simps)
    have "0 \<le> ty - 1" using True 1(2) by simp
    from "1.IH" [OF _ _ this] True have "case back_years (t + year_secs (ty - 1 + 1900)) (ty - 1) of None \<Rightarrow> t + year_start (ty + 1900) < year_start 1900
      | Some (t', ty') \<Rightarrow> 0 \<le> t' \<and> 0 \<le> ty' \<and> ty' \<le> ty - 1 \<and> t' + year_start (ty' + 1900) = t + year_start (ty + 1900)" unfolding e by simp
    moreover have "back_years t ty = back_years (t + year_secs (ty - 1 + 1900)) (ty - 1)" using True by (subst back_years.simps) simp
    ultimately show ?thesis by (auto split: option.splits)
  next
    case False
    then show ?thesis using 1(2) by (subst back_years.simps) auto
  qed
qed

lemma forward_years_spec:
  assumes "0 \<le> t" "ty + 1900 \<le> 9999"
  shows "case forward_years t ty of None \<Rightarrow> year_start 10000 \<le> t + year_start (ty + 1900)
    | Some (t', ty') \<Rightarrow> 0 \<le> t' \<and> t' < year_secs (ty' + 1900) \<and> ty \<le> ty' \<and> ty' + 1900 \<le> 9999 \<and> t' + year_start (ty' + 1900) = t + year_start (ty + 1900)"
  using assms
proof (induction t ty rule: forward_years.induct)
  case (1 t ty)
  have e: "t - year_secs (ty + 1900) + year_start (ty + 1 + 1900) = t + year_start (ty + 1900)"
    using year_start_next [of "ty + 1900"] by (simp add: algebra_simps)
  consider (last) "year_secs (ty + 1900) \<le> t" "ty + 1 + 1900 > 9999" | (more) "year_secs (ty + 1900) \<le> t" "\<not> ty + 1 + 1900 > 9999" | (stop) "\<not> year_secs (ty + 1900) \<le> t" by blast
  then show ?case
  proof cases
    case last
    then have "ty + 1 + 1900 = 10000" using 1(3) by simp
    then have "year_start 10000 \<le> t + year_start (ty + 1900)" using e last(1) by (simp add: algebra_simps)
    then show ?thesis using last by (subst forward_years.simps) simp
  next
    case more
    have "0 \<le> t - year_secs (ty + 1900)" "ty + 1 + 1900 \<le> 9999" using more by simp_all
    from "1.IH" [OF more this] have "case forward_years (t - year_secs (ty + 1900)) (ty + 1) of None \<Rightarrow> year_start 10000 \<le> t + year_start (ty + 1900)
      | Some (t', ty') \<Rightarrow> 0 \<le> t' \<and> t' < year_secs (ty' + 1900) \<and> ty + 1 \<le> ty' \<and> ty' + 1900 \<le> 9999 \<and> t' + year_start (ty' + 1900) = t + year_start (ty + 1900)" unfolding e .
    moreover have "forward_years t ty = forward_years (t - year_secs (ty + 1900)) (ty + 1)" using more by (subst forward_years.simps) simp
    ultimately show ?thesis by (auto split: option.splits)
  next
    case stop
    then show ?thesis using 1(2,3) by (subst forward_years.simps) simp
  qed
qed

definition month_start :: "nat \<Rightarrow> int \<Rightarrow> int" where
  "month_start m y = sum_list (map (\<lambda>i. days ! i * 86400) [0..<m]) + (if is_leap y \<and> 2 \<le> m then 86400 else 0)"

lemma month_start_next: "month_start (m + 1) y = month_start m y + month_secs m y"
  by (auto simp: month_start_def month_secs_def)

lemma month_start_ends: "month_start 0 y = 0" "month_start 12 y = year_secs y"
proof -
  have "[0..<12] = [0, 1, 2, 3, 4, 5, 6, 7, 8, 9, 10, 11 :: nat]" by code_simp
  then show "month_start 12 y = year_secs y" by (simp add: month_start_def days_def year_secs_def)
qed (simp add: month_start_def)

lemma length_days [simp]: "length days = 12"
  by (simp add: days_def)

lemma forward_months_spec:
  assumes "0 \<le> t" "m < 12" "t + month_start m y < year_secs y"
  shows "\<exists>t' m'. forward_months t m y = Some (t', m') \<and> 0 \<le> t' \<and> t' < month_secs m' y \<and> m' < 12 \<and> t' + month_start m' y = t + month_start m y"
  using assms
proof (induction t m y rule: forward_months.induct)
  case (1 t m y)
  show ?case
  proof (cases "month_secs m y \<le> t")
    case True
    have e: "t - month_secs m y + month_start (m + 1) y = t + month_start m y" using month_start_next [of m y] by simp
    have "m + 1 < 12"
    proof (rule ccontr)
      assume "\<not> m + 1 < 12"
      then have "m + 1 = 12" using 1(3) by simp
      then have "year_secs y = month_start m y + month_secs m y" using month_start_next [of m y] month_start_ends(2) [of y] by simp
      then show False using True 1(4) by simp
    qed
    then have "\<exists>t' m'. forward_months (t - month_secs m y) (m + 1) y = Some (t', m') \<and> 0 \<le> t' \<and> t' < month_secs m' y \<and> m' < 12 \<and> t' + month_start m' y = t + month_start m y"
      using "1.IH" True 1(3,4) unfolding e by simp
    moreover have "forward_months t m y = forward_months (t - month_secs m y) (m + 1) y" using True 1(3) by (subst forward_months.simps) simp
    ultimately show ?thesis by simp
  next
    case False
    then show ?thesis using 1(2,3) by (subst forward_months.simps) simp
  qed
qed

lemma month_secs_bounds: "m < 12 \<Longrightarrow> 28 * 86400 \<le> month_secs m y \<and> month_secs m y \<le> 31 * 86400"
proof -
  assume "m < 12"
  then have "m = 0 \<or> m = 1 \<or> m = 2 \<or> m = 3 \<or> m = 4 \<or> m = 5 \<or> m = 6 \<or> m = 7 \<or> m = 8 \<or> m = 9 \<or> m = 10 \<or> m = 11" by presburger
  then show ?thesis by (auto simp: month_secs_def days_def)
qed

lemma count_spec: "0 < k \<Longrightarrow> 0 \<le> t \<Longrightarrow> count k t n = (t mod k, n + nat (t div k))"
proof (induction k t n rule: count.induct)
  case (1 k t n)
  show ?case
  proof (cases "k \<le> t")
    case True
    then have "count k (t - k) (n + 1) = ((t - k) mod k, n + 1 + nat ((t - k) div k))" using 1 by simp
    moreover have "(t - k) mod k = t mod k" by simp
    moreover have "t div k = (t - k) div k + 1" using 1(2) by (metis div_add_self2 diff_add_cancel less_irrefl)
    moreover have "0 \<le> (t - k) div k" using True 1(2) by (simp add: pos_imp_zdiv_nonneg_iff)
    ultimately show ?thesis using True 1(2) by (subst count.simps) simp
  next
    case False
    then show ?thesis using 1(2,3) by (subst count.simps) (simp add: div_pos_pos_trivial)
  qed
qed

section \<open>The text of a time\<close>

definition time_fields :: "nat \<Rightarrow> nat \<Rightarrow> nat \<Rightarrow> nat \<Rightarrow> nat \<Rightarrow> nat \<Rightarrow> bytes" where
  "time_fields y mo d h mi s = digits 4 y @ digits 2 mo @ digits 2 d @ digits 2 h @ digits 2 mi @ digits 2 s"

lemma isdigit_nonnull: "list_all isdigit ds \<Longrightarrow> 0 \<notin> set ds"
  by (induction ds) (auto simp: isdigit_def)

lemma time_fields_digits: "length (time_fields y mo d h mi s) = 14" "list_all isdigit (time_fields y mo d h mi s)"
  by (simp_all add: time_fields_def digits_props)

lemma time_fields_read:
  assumes "y \<le> 9999" "1 \<le> mo" "mo \<le> 12" "1 \<le> d" "int d \<le> days ! (mo - 1) + (if mo = 2 \<and> is_leap (int y) then 1 else 0)" "h \<le> 23" "mi \<le> 59" "s \<le> 60"
  shows "dns_time64_fromtext (time_fields y mo d h mi s @ 0 # zs) =
    Inr (int s + 60 * int mi + 3600 * int h + (int d - 1) * 86400 + month_start (mo - 1) (int y) + year_start (int y))"
proof -
  let ?t = "time_fields y mo d h mi s"
  have tw: "takeWhile (\<lambda>c. c \<noteq> 0) (?t @ 0 # zs) = ?t"
    using isdigit_nonnull [OF time_fields_digits(2)] by (subst takeWhile_append2) auto
  have dl: "d < 100"
  proof -
    have "mo - 1 < 12" using assms(3) by simp
    from month_secs_bounds [OF this, of "int y"] have "days ! (mo - 1) + (if mo - 1 = 1 \<and> is_leap (int y) then 1 else 0) \<le> 31" by (simp add: month_secs_def)
    moreover have "(if mo = 2 \<and> is_leap (int y) then 1 else 0) \<le> (if mo - 1 = 1 \<and> is_leap (int y) then 1 else 0 :: int)" by simp
    ultimately show ?thesis using assms(5) by linarith
  qed
  have f: "number (take 4 ?t) = y" "number (take 2 (drop 4 ?t)) = mo" "number (take 2 (drop 6 ?t)) = d" "number (take 2 (drop 8 ?t)) = h"
    "number (take 2 (drop 10 ?t)) = mi" "number (take 2 (drop 12 ?t)) = s"
    using assms dl by (simp_all add: time_fields_def digits_props)
  have r: "\<not> int y > 9999" "\<not> (mo < 1 \<or> mo > 12)" "\<not> (int d < 1 \<or> int d > days ! (mo - 1) + (if mo = 2 \<and> is_leap (int y) then 1 else 0))" "\<not> int h > 23" "\<not> int mi > 59" "\<not> int s > 60"
    using assms by auto
  have ms: "month_start (mo - 1) (int y) = sum_list (map (\<lambda>i. days ! i * 86400) [0..<mo - 1]) + (if is_leap (int y) \<and> mo > 2 then 86400 else 0)"
    by (auto simp: month_start_def)
  have g: "length ?t \<noteq> 14 \<longleftrightarrow> False" "\<not> list_all isdigit ?t \<longleftrightarrow> False" using time_fields_digits by simp_all
  show ?thesis unfolding dns_time64_fromtext_def tw Let_def f g if_False if_not_P [OF r(1)] if_not_P [OF r(2)] if_not_P [OF r(3)] if_not_P [OF r(4)] if_not_P [OF r(5)] if_not_P [OF r(6)] ms
    by (simp add: year_start_def)
qed

lemma time64_text:
  assumes "year_start 1900 \<le> t" "t < year_start 10000"
  shows "\<exists>y mo d h mi s. dns_time64_totext t b = mem_tobuffer b (time_fields y mo d h mi s) \<and>
    (\<forall>zs. dns_time64_fromtext (time_fields y mo d h mi s @ 0 # zs) = Inr t)"
proof -
  have ys: "year_start 1970 = 0" by (simp add: year_start_def)
  have "back_years t 70 \<noteq> None" using back_years_spec [of 70 t] assms(1) ys by (auto split: option.splits)
  then obtain t1 y1 where b: "back_years t 70 = Some (t1, y1)" "0 \<le> t1" "0 \<le> y1" "y1 \<le> 70" "t1 + year_start (y1 + 1900) = t"
    using back_years_spec [of 70 t] ys by (auto split: option.splits)
  have "forward_years t1 y1 \<noteq> None" using forward_years_spec [of t1 y1] b assms(2) by (auto split: option.splits)
  then obtain t2 y2 where f: "forward_years t1 y1 = Some (t2, y2)" "0 \<le> t2" "t2 < year_secs (y2 + 1900)" "y1 \<le> y2" "y2 + 1900 \<le> 9999" "t2 + year_start (y2 + 1900) = t"
    using forward_years_spec [of t1 y1] b by (auto split: option.splits)
  let ?y = "y2 + 1900"
  have y: "0 \<le> ?y" "int (nat ?y) = ?y" using b(3) f(4) by simp_all
  obtain t3 m where m: "forward_months t2 0 ?y = Some (t3, m)" "0 \<le> t3" "t3 < month_secs m ?y" "m < 12" "t3 + month_start m ?y = t2"
    using forward_months_spec [of t2 0 ?y] f(2,3) month_start_ends(1) [of ?y] by auto
  define d where "d = nat (t3 div 86400)"
  define r where "r = t3 mod 86400"
  define h where "h = nat (r div 3600)"
  define q where "q = r mod 3600"
  define mi where "mi = nat (q div 60)"
  define s where "s = nat (q mod 60)"
  have r: "0 \<le> r" "r < 86400" and q: "0 \<le> q" "q < 3600" by (simp_all add: r_def q_def)
  have i: "int d = t3 div 86400" "int h = r div 3600" "int mi = q div 60" "int s = q mod 60"
    using m(2) r(1) q(1) by (simp_all add: d_def h_def mi_def s_def pos_imp_zdiv_nonneg_iff)
  have hb: "h \<le> 23" "mi \<le> 59" "s \<le> 59" using i r q by auto
  have db: "int (1 + d) \<le> days ! m + (if m + 1 = 2 \<and> is_leap ?y then 1 else 0)"
  proof -
    have "t3 div 86400 < x" if "t3 < x * 86400" for x using that by presburger
    from this [OF m(3) [unfolded month_secs_def]] have "t3 div 86400 < days ! m + (if m = 1 \<and> is_leap ?y then 1 else 0)" .
    then show ?thesis using i(1) by (simp add: eval_nat_numeral)
  qed
  have d31: "1 + d < 100" using month_secs_bounds [OF m(4), of ?y] m(3) i(1) by linarith
  let ?tx = "time_fields (nat ?y) (m + 1) (1 + d) h mi s"
  have z: "zero_padded 4 (nat ?y) @ zero_padded 2 (m + 1) @ zero_padded 2 (1 + d) @ zero_padded 2 h @ zero_padded 2 mi @ zero_padded 2 s = ?tx"
    using f(5) m(4) d31 hb by (simp add: time_fields_def zero_padded_digits)
  have c: "count 86400 t3 1 = (r, 1 + d)" "count 3600 r 0 = (q, h)" "count 60 q 0 = (q mod 60, mi)"
    using count_spec [of 86400 t3 1] count_spec [of 3600 r 0] count_spec [of 60 q 0] m(2) r(1) q(1) by (simp_all add: r_def q_def d_def h_def mi_def)
  have "dns_time64_totext t b = mem_tobuffer b ?tx"
    unfolding dns_time64_totext_def b(1) f(1) option.case prod.case m(1) Option.bind.bind_lunit Let_def c s_def [symmetric] z ..
  moreover have "dns_time64_fromtext (?tx @ 0 # zs) = Inr t" for zs
  proof -
    have "dns_time64_fromtext (?tx @ 0 # zs) =
      Inr (int s + 60 * int mi + 3600 * int h + (int (1 + d) - 1) * 86400 + month_start (m + 1 - 1) (int (nat ?y)) + year_start (int (nat ?y)))"
      using f(5) m(4) hb db y by (intro time_fields_read) simp_all
    also have "\<dots> = Inr (int s + 60 * int mi + 3600 * int h + int d * 86400 + month_start m ?y + year_start ?y)" using y(2) by simp
    also have "int s + 60 * int mi + 3600 * int h + int d * 86400 = t3" unfolding i r_def q_def by presburger
    finally show ?thesis using m(5) f(6) by (simp add: add.commute)
  qed
  ultimately show ?thesis by blast
qed

lemma time64_range:
  assumes "t < year_start 1900 \<or> year_start 10000 \<le> t"
  shows "dns_time64_totext t b = Some (ISC_R_RANGE, b)"
proof -
  have ys: "year_start 1970 = 0" by (simp add: year_start_def)
  show ?thesis
  proof (cases "back_years t 70")
    case None
    then show ?thesis by (simp add: dns_time64_totext_def)
  next
    case (Some a)
    then obtain t1 y1 where b: "back_years t 70 = Some (t1, y1)" "0 \<le> t1" "0 \<le> y1" "y1 \<le> 70" "t1 + year_start (y1 + 1900) = t"
      using back_years_spec [of 70 t] ys by (cases a) auto
    have "year_start 1900 \<le> t" using b year_start_mono [of 1900 "y1 + 1900"] by simp
    then have t: "year_start 10000 \<le> t" using assms by simp
    have "forward_years t1 y1 = None"
    proof (rule ccontr)
      assume "forward_years t1 y1 \<noteq> None"
      then obtain t2 y2 where "t2 < year_secs (y2 + 1900)" "y2 + 1900 \<le> 9999" "t2 + year_start (y2 + 1900) = t"
        using forward_years_spec [of t1 y1] b by (auto split: option.splits)
      then show False using year_start_next [of "y2 + 1900"] year_start_mono [of "y2 + 1900 + 1" 10000] t by simp
    qed
    then show ?thesis using b(1) by (simp add: dns_time64_totext_def)
  qed
qed

text \<open>A 32-bit time is within 68 years of now, and so in the range.\<close>

lemma year_start_bounds: "year_start 1900 \<le> - (2 ^ 31)" "2 ^ 32 + 2 ^ 31 \<le> year_start 10000"
proof -
  have "year_start 1900 = -2208988800" by code_simp
  then show "year_start 1900 \<le> - (2 ^ 31)" by simp
  have "year_start 2300 = 10413792000" by code_simp
  then show "2 ^ 32 + 2 ^ 31 \<le> year_start 10000" using year_start_mono [of 2300 10000] by simp
qed

lemma time32_range: "year_start 1900 \<le> dns_time64_from32 now val" "dns_time64_from32 now val < year_start 10000"
proof -
  have u: "0 \<le> uint now" "uint now < 2 ^ 32" using uint_lt2p [of now] by simp_all
  show "year_start 1900 \<le> dns_time64_from32 now val" unfolding time64_eq using u(1) year_start_bounds(1) serial_diff_bounds(1) [of val now] by linarith
  show "dns_time64_from32 now val < year_start 10000" unfolding time64_eq using u(2) year_start_bounds(2) serial_diff_bounds(2) [of val now] by linarith
qed

section \<open>Properties\<close>

text \<open>
  C14: \<^verbatim>\<open>dns_time64_totext\<close> says \<^verbatim>\<open>ISC_R_RANGE\<close> of exactly the times before the year 1900 and after 9999.  It never reads past the table of the months, and any other time
  it writes as fourteen digits, where they fit, which \<^verbatim>\<open>dns_time64_fromtext\<close> reads as the same time.
\<close>

theorem time64_totext_fromtext:
  assumes "buf_ok b"
  shows "\<exists>result b'. dns_time64_totext t b = Some (result, b') \<and> (result = ISC_R_RANGE \<longleftrightarrow> t < year_start 1900 \<or> year_start 10000 \<le> t) \<and>
    (result \<noteq> ISC_R_RANGE \<longrightarrow> (if 14 \<le> buf_room b then result = ISC_R_SUCCESS \<and> (\<exists>cs. length cs = 14 \<and> buf_content b' = buf_content b @ cs \<and> dns_time64_fromtext (cs @ [0]) = Inr t)
      else result = ISC_R_NOSPACE))"
proof (cases "t < year_start 1900 \<or> year_start 10000 \<le> t")
  case True
  then show ?thesis using time64_range by auto
next
  case False
  then obtain y mo d h mi s where "dns_time64_totext t b = mem_tobuffer b (time_fields y mo d h mi s)" "dns_time64_fromtext (time_fields y mo d h mi s @ [0]) = Inr t"
    using time64_text [of t b] by auto
  then show ?thesis using False assms mem_tobuffer_eq [OF assms] time_fields_digits(1) [of y mo d h mi s] by auto
qed

theorem time64_totext_fromtext_witness:
  "\<exists>b'. dns_time64_totext 951782400 (isc_buffer_init (replicate 20 0) 20) = Some (ISC_R_SUCCESS, b') \<and>
    (\<exists>cs. buf_content b' = cs \<and> length cs = 14 \<and> dns_time64_fromtext (cs @ [0]) = Inr 951782400)"
proof -
  let ?b = "isc_buffer_init (replicate 20 0) 20"
  have b: "buf_ok ?b" "buf_room ?b = 20" "buf_content ?b = []"
    using buf_ok_init [of "replicate 20 0"] by (simp_all add: buf_room_def isc_buffer_init_def buf_content_def)
  have "\<not> 951782400 < year_start 1900" "\<not> year_start 10000 \<le> 951782400" using year_start_bounds by simp_all
  then show ?thesis using time64_totext_fromtext [OF b(1), of 951782400] b(2,3) by auto
qed

text \<open>A time of 32 bits, whatever the clock says.\<close>

lemma time32_text:
  assumes "buf_ok b" "14 \<le> buf_room b"
  shows "\<exists>cs. dns_time32_totext now val b = Some (ISC_R_SUCCESS, grown b cs) \<and> length cs = 14 \<and> list_all isdigit cs \<and> (\<forall>zs. dns_time32_fromtext (cs @ 0 # zs) = Inr val)"
proof -
  obtain y mo d h mi s where t: "dns_time64_totext (dns_time64_from32 now val) b = mem_tobuffer b (time_fields y mo d h mi s)"
    "\<forall>zs. dns_time64_fromtext (time_fields y mo d h mi s @ 0 # zs) = Inr (dns_time64_from32 now val)" using time64_text [OF time32_range] by blast
  have "of_int (dns_time64_from32 now val) = val"
  proof -
    have "dns_time64_from32 now val mod 2 ^ 32 = uint val" unfolding time64_eq by (rule serial_diff_mod)
    then have "uint (of_int (dns_time64_from32 now val) :: u32) = uint val" by (simp add: unsigned_of_int take_bit_eq_mod)
    then show ?thesis by (rule word_uint_eqI)
  qed
  then show ?thesis using t assms mem_tobuffer_eq [OF assms(1)] time_fields_digits
    by (intro exI [of _ "time_fields y mo d h mi s"]) (simp add: dns_time32_totext_def dns_time32_fromtext_def)
qed

end
