(* ===== verification/LexText.thy ===== *)
theory LexText
  imports Lex
begin

text \<open>
  Base 64, base 32 and hexadecimal text read from the tokens of a line of a master file: \<^verbatim>\<open>isc_base64_tobuffer\<close>, \<^verbatim>\<open>isc_hex_tobuffer\<close> and
  \<^verbatim>\<open>isc_base32_tobuffer\<close> with its variants.  The three have the same loop over the tokens, which is \<open>word_loop\<close>; it has as much fuel as the source has octets and more,
  as every token but the last takes one.
\<close>

section \<open>The loop\<close>

fun token_text :: "isc_token \<Rightarrow> bytes" where
  "token_text tk = (case tk_value tk of As_textregion t \<Rightarrow> t | _ \<Rightarrow> [])"

fun word_loop :: "nat \<Rightarrow> ('c \<Rightarrow> u8 \<Rightarrow> (isc_result \<times> 'c) option) \<Rightarrow> ('c \<Rightarrow> bool) \<Rightarrow> bool \<Rightarrow> isc_lex \<Rightarrow> isc_token \<Rightarrow> 'c \<Rightarrow> (isc_result \<times> 'c \<times> isc_token \<times> isc_lex) option" where
  "word_loop 0 step going eol lexer tk ctx = None"
| "word_loop (Suc fuel) step going eol lexer tk ctx =
     (if \<not> going ctx then Some (ISC_R_SUCCESS, ctx, tk, lexer)
      else do {
        (result, tk, lexer) \<leftarrow> isc_lex_getmastertoken lexer tk isc_tokentype_string eol;
        if result \<noteq> ISC_R_SUCCESS then Some (result, ctx, tk, lexer)
        else if tk_type tk \<noteq> isc_tokentype_string then Some (ISC_R_SUCCESS, ctx, tk, lexer)
        else do {
          (result, ctx) \<leftarrow> feed step ctx (token_text tk);
          if result \<noteq> ISC_R_SUCCESS then Some (result, ctx, tk, lexer) else word_loop fuel step going eol lexer tk ctx
        }
      })"

definition word_fuel :: "isc_lex \<Rightarrow> nat" where
  "word_fuel lexer = (case lx_sources lexer of [] \<Rightarrow> 2 | s # ss \<Rightarrow> length (pending s) + 2)"

section \<open>The readers\<close>

definition isc_base64_tobuffer :: "isc_lex \<Rightarrow> isc_buffer \<Rightarrow> int \<Rightarrow> (isc_result \<times> isc_buffer \<times> isc_lex) option" where
  "isc_base64_tobuffer lexer target len = do {
     REQUIRE (len \<ge> -2);
     (result, ctx, tk, lexer) \<leftarrow> word_loop (word_fuel lexer) base64_decode_char (\<lambda>ctx. \<not> d64_seen_end ctx \<and> d64_length ctx \<noteq> 0) (\<not> len > 0) lexer
       (plain_token isc_tokentype_unknown) (base64_decode_init len target);
     if result \<noteq> ISC_R_SUCCESS then Some (result, d64_target ctx, lexer)
     else do {
       lexer \<leftarrow> (if d64_length ctx < 0 \<and> \<not> d64_seen_end ctx then isc_lex_ungettoken lexer tk else Some lexer);
       let result = base64_decode_finish ctx;
       if result \<noteq> ISC_R_SUCCESS then Some (result, d64_target ctx, lexer)
       else if len = -2 \<and> b_used target = b_used (d64_target ctx) then Some (ISC_R_UNEXPECTEDEND, d64_target ctx, lexer)
       else Some (ISC_R_SUCCESS, d64_target ctx, lexer)
     }
   }"

definition isc_hex_tobuffer :: "isc_lex \<Rightarrow> isc_buffer \<Rightarrow> int \<Rightarrow> (isc_result \<times> isc_buffer \<times> isc_lex) option" where
  "isc_hex_tobuffer lexer target len = do {
     REQUIRE (len \<ge> -2);
     (result, ctx, tk, lexer) \<leftarrow> word_loop (word_fuel lexer) hex_decode_char (\<lambda>ctx. dh_length ctx \<noteq> 0) (\<not> len > 0) lexer
       (plain_token isc_tokentype_unknown) (hex_decode_init len target);
     if result \<noteq> ISC_R_SUCCESS then Some (result, dh_target ctx, lexer)
     else do {
       lexer \<leftarrow> (if dh_length ctx < 0 then isc_lex_ungettoken lexer tk else Some lexer);
       let result = hex_decode_finish ctx;
       if result \<noteq> ISC_R_SUCCESS then Some (result, dh_target ctx, lexer)
       else if len = -2 \<and> b_used target = b_used (dh_target ctx) then Some (ISC_R_UNEXPECTEDEND, dh_target ctx, lexer)
       else Some (ISC_R_SUCCESS, dh_target ctx, lexer)
     }
   }"

text \<open>\<^verbatim>\<open>after\<close> is taken before the padding is added, so that octets from it do not count.\<close>

definition base32_tobuffer :: "isc_lex \<Rightarrow> bytes \<Rightarrow> bool \<Rightarrow> isc_buffer \<Rightarrow> int \<Rightarrow> (isc_result \<times> isc_buffer \<times> isc_lex) option" where
  "base32_tobuffer lexer base pad target len = do {
     REQUIRE (len \<ge> -2);
     (result, ctx, tk, lexer) \<leftarrow> word_loop (word_fuel lexer) base32_decode_char (\<lambda>ctx. \<not> d32_seen_end ctx \<and> d32_length ctx \<noteq> 0) (\<not> len > 0) lexer
       (plain_token isc_tokentype_unknown) (base32_decode_init len base target pad);
     if result \<noteq> ISC_R_SUCCESS then Some (result, d32_target ctx, lexer)
     else do {
       let after = b_used (d32_target ctx);
       lexer \<leftarrow> (if d32_length ctx < 0 \<and> \<not> d32_seen_end ctx then isc_lex_ungettoken lexer tk else Some lexer);
       (result, ctx) \<leftarrow> base32_decode_finish ctx;
       if result \<noteq> ISC_R_SUCCESS then Some (result, d32_target ctx, lexer)
       else if len = -2 \<and> b_used target = after then Some (ISC_R_UNEXPECTEDEND, d32_target ctx, lexer)
       else Some (ISC_R_SUCCESS, d32_target ctx, lexer)
     }
   }"

definition isc_base32_tobuffer :: "isc_lex \<Rightarrow> isc_buffer \<Rightarrow> int \<Rightarrow> (isc_result \<times> isc_buffer \<times> isc_lex) option" where
  "isc_base32_tobuffer lexer target len = base32_tobuffer lexer base32 True target len"

definition isc_base32hex_tobuffer :: "isc_lex \<Rightarrow> isc_buffer \<Rightarrow> int \<Rightarrow> (isc_result \<times> isc_buffer \<times> isc_lex) option" where
  "isc_base32hex_tobuffer lexer target len = base32_tobuffer lexer base32hex True target len"

definition isc_base32hexnp_tobuffer :: "isc_lex \<Rightarrow> isc_buffer \<Rightarrow> int \<Rightarrow> (isc_result \<times> isc_buffer \<times> isc_lex) option" where
  "isc_base32hexnp_tobuffer lexer target len = base32_tobuffer lexer base32hex False target len"

section \<open>Master file tokens\<close>

definition MASTER_OPTIONS :: u32 where "MASTER_OPTIONS = ISC_LEXOPT_EOL OR ISC_LEXOPT_EOF OR ISC_LEXOPT_DNSMULTILINE OR ISC_LEXOPT_ESCAPE"

lemma master_options [simp]:
  "wants MASTER_OPTIONS ISC_LEXOPT_EOL" "\<not> wants MASTER_OPTIONS ISC_LEXOPT_INITIALWS" "\<not> wants MASTER_OPTIONS ISC_LEXOPT_QSTRING"
  "\<not> wants MASTER_OPTIONS ISC_LEXOPT_NUMBER" "\<not> wants MASTER_OPTIONS ISC_LEXOPT_VPAIR"
  by (simp_all add: wants_def MASTER_OPTIONS_def ISC_LEXOPT_EOL_def ISC_LEXOPT_EOF_def ISC_LEXOPT_DNSMULTILINE_def ISC_LEXOPT_ESCAPE_def ISC_LEXOPT_INITIALWS_def
      ISC_LEXOPT_QSTRING_def ISC_LEXOPT_NUMBER_def ISC_LEXOPT_VPAIR_def)

definition gap :: "u8 \<Rightarrow> bool" where "gap c \<longleftrightarrow> c = 0x20 \<or> c = 0x09"

text \<open>What reading a line leaves as it was: the settings of the lexer, its open parentheses and how its sources end.\<close>

definition follows :: "isc_lex \<Rightarrow> isc_lex \<Rightarrow> bool" where
  "follows lx lx' \<longleftrightarrow> same_conf lx lx' \<and> ends lx' = ends lx"

lemma follows_refl [simp]: "follows lx lx"
  by (simp add: follows_def)

lemma follows_trans: "follows lx lx' \<Longrightarrow> follows lx' lx'' \<Longrightarrow> follows lx lx''"
  using same_conf_trans by (auto simp: follows_def)

lemma gettoken_follows:
  "ready lx ss t \<Longrightarrow> isc_lex_gettoken lx options = Some (r, tk, lx') \<Longrightarrow> same_conf lx lx' \<Longrightarrow> follows lx lx'"
  using gettoken_ends [OF ready_ok] by (simp add: follows_def)

lemma ungettoken_follows:
  assumes "ready lx ss t" "isc_lex_gettoken lx options = Some (r, tk, lx1)" "same_conf lx lx1" "isc_lex_ungettoken lx1 tk' = Some lx2"
  shows "follows lx lx2"
proof -
  obtain s where s: "lex_fit lx" "lx_sources lx = s # ss" "src_ok s" "src_result s = ISC_R_SUCCESS" "\<not> src_at_eof s" using ready_source [OF assms(1)] .
  have "lx_paren_count lx2 = lx_paren_count lx" using ungot_source [OF s assms(2,4)] by blast
  moreover have "lx_specials lx2 = lx_specials lx1" "lx_comments lx2 = lx_comments lx1" "lx_comment_ok lx2 = lx_comment_ok lx1"
    using assms(4) by (auto simp: isc_lex_ungettoken_def split: bind_splits list.splits)
  moreover have "ends lx2 = ends lx" using ungettoken_ends [OF assms(4)] gettoken_ends [OF ready_ok [OF assms(1)] assms(2)] by simp
  ultimately show ?thesis using assms(3) by (simp add: follows_def same_conf_def)
qed

lemma master_word:
  assumes "ready lx ss (ws @ w @ d # rest)" "\<forall>x\<in>set ws. gap x" "w \<noteq> []" "\<forall>x\<in>set w. plain_char lx MASTER_OPTIONS x" "gap d \<or> d = 0x0a"
  shows "\<exists>lx' tk. isc_lex_getmastertoken lx tk0 isc_tokentype_string eol = Some (ISC_R_SUCCESS, tk, lx') \<and> tk_type tk = isc_tokentype_string \<and> token_text tk = w \<and>
    ready lx' ss (d # rest) \<and> follows lx lx'"
proof -
  have "delimiter lx d" using assms(5) by (auto simp: delimiter_def comment_char_def gap_def)
  then obtain lx' where "isc_lex_gettoken lx MASTER_OPTIONS = Some (ISC_R_SUCCESS, Some \<lparr>tk_type = isc_tokentype_string, tk_value = As_textregion w\<rparr>, lx')"
    "ready lx' ss (d # rest)" "same_conf lx lx'" using gettoken_word_ready [OF assms(1) _ assms(3,4)] assms(2) by (auto simp: gap_def)
  then show ?thesis using gettoken_follows [OF assms(1)] by (simp add: isc_lex_getmastertoken_def MASTER_OPTIONS_def)
qed

lemma master_eol:
  assumes "ready lx ss (ws @ 0x0a # rest)" "\<forall>x\<in>set ws. gap x" "lx_paren_count lx = 0"
  shows "\<exists>lx' tk lx2. isc_lex_getmastertoken lx tk0 isc_tokentype_string True = Some (ISC_R_SUCCESS, tk, lx') \<and> tk_type tk = isc_tokentype_eol \<and>
    isc_lex_ungettoken lx' tk = Some lx2 \<and> ready lx2 ss (ws @ 0x0a # rest) \<and> follows lx lx2"
proof -
  obtain lx' where g: "isc_lex_gettoken lx MASTER_OPTIONS = Some (ISC_R_SUCCESS, Some (plain_token isc_tokentype_eol), lx')" "ready lx' ss rest"
    "same_conf lx lx'" using gettoken_eol_ready [OF assms(1), of MASTER_OPTIONS] assms(2,3) by (auto simp: gap_def)
  have "length rest \<noteq> length (ws @ 0x0a # rest)" by simp
  then have "rest \<noteq> ws @ 0x0a # rest" by metis
  then obtain lx2 where "isc_lex_ungettoken lx' (plain_token isc_tokentype_eol) = Some lx2" "ready lx2 ss (ws @ 0x0a # rest)"
    using ungettoken_ready [OF assms(1) g(1,2)] by blast
  moreover have "follows lx lx2" using ungettoken_follows [OF assms(1) g(1,3)] calculation(1) .
  ultimately show ?thesis using g(1) by (simp add: isc_lex_getmastertoken_def MASTER_OPTIONS_def plain_token_def)
qed

section \<open>A line of words\<close>

lemma feed_string_blanks: "(\<And>c. c \<in> set cs \<Longrightarrow> gap c) \<Longrightarrow> feed_string step ctx (cs @ ds) = feed_string step ctx ds"
  by (rule feed_string_blank) (auto simp: is_blank_def gap_def)

lemma feed_string_word:
  assumes "feed_string step ctx (w @ ds) = Some (ISC_R_SUCCESS, ctx')" "\<And>c. c \<in> set w \<Longrightarrow> c \<noteq> 0 \<and> \<not> is_blank c"
  shows "\<exists>ctx1. feed step ctx w = Some (ISC_R_SUCCESS, ctx1) \<and> feed_string step ctx1 ds = Some (ISC_R_SUCCESS, ctx')"
  using assms(1) feed_string_plain [OF assms(2), of w step ctx ds] by (auto split: option.splits if_splits)

lemma split_line: "\<exists>ws w v. line = ws @ w @ v \<and> (\<forall>x\<in>set ws. gap x) \<and> (\<forall>x\<in>set w. \<not> gap x) \<and> (w = [] \<longrightarrow> v = []) \<and> (v = [] \<or> gap (hd v))"
proof (induction line)
  case (Cons x xs)
  obtain ws w v where IH: "xs = ws @ w @ v" "\<forall>x\<in>set ws. gap x" "\<forall>x\<in>set w. \<not> gap x" "w = [] \<longrightarrow> v = []" "v = [] \<or> gap (hd v)" using Cons.IH by blast
  show ?case
  proof (cases "gap x")
    case True
    then show ?thesis using IH by (intro exI [of _ "x # ws"] exI [of _ w] exI [of _ v]) auto
  next
    case False
    show ?thesis
    proof (cases "ws = []")
      case True
      then show ?thesis using IH False by (intro exI [of _ "[]"] exI [of _ "x # w"] exI [of _ v]) auto
    next
      case ne: False
      then show ?thesis using IH False by (intro exI [of _ "[]"] exI [of _ "[x]"] exI [of _ xs]) auto
    qed
  qed
qed simp

text \<open>No more than blanks are left of the line.\<close>

definition line_left :: "isc_lex \<Rightarrow> isc_lex \<Rightarrow> inputsource list \<Rightarrow> bytes \<Rightarrow> bool" where
  "line_left lx0 lx ss rest \<longleftrightarrow> follows lx0 lx \<and> (\<exists>ws. (\<forall>x\<in>set ws. gap x) \<and> ready lx ss (ws @ 0x0a # rest))"

text \<open>A decoder that is fed words: while \<open>going\<close> it takes more, and what it takes keeps \<open>inv\<close>.\<close>

locale word_decoder =
  fixes step :: "'c \<Rightarrow> u8 \<Rightarrow> (isc_result \<times> 'c) option" and going :: "'c \<Rightarrow> bool" and inv :: "'c \<Rightarrow> bool"
  assumes inv_step: "inv ctx \<Longrightarrow> step ctx c = Some (ISC_R_SUCCESS, ctx') \<Longrightarrow> inv ctx'"
    and stopped: "inv ctx \<Longrightarrow> \<not> going ctx \<Longrightarrow> step ctx c \<noteq> Some (ISC_R_SUCCESS, ctx')"
begin

lemma feed_inv: "inv ctx \<Longrightarrow> feed step ctx cs = Some (ISC_R_SUCCESS, ctx') \<Longrightarrow> inv ctx'"
proof (induction cs arbitrary: ctx)
  case (Cons c cs)
  then show ?case by (auto split: bind_splits if_splits dest: inv_step)
qed simp

lemma stopped_blank:
  assumes "inv ctx" "\<not> going ctx" "feed_string step ctx (line @ ds) = Some (ISC_R_SUCCESS, ctx')" "0 \<notin> set line"
  shows "(\<forall>c\<in>set line. is_blank c) \<and> feed_string step ctx ds = Some (ISC_R_SUCCESS, ctx')"
  using assms(3,4)
proof (induction line)
  case (Cons c line)
  have "is_blank c"
  proof (rule ccontr)
    assume "\<not> is_blank c"
    then obtain ctx1 where "step ctx c = Some (ISC_R_SUCCESS, ctx1)" using Cons.prems by (auto split: bind_splits if_splits)
    then show False using stopped [OF assms(1,2)] by blast
  qed
  then show ?case using Cons by auto
qed simp

definition at_line_end :: "isc_lex \<Rightarrow> inputsource list \<Rightarrow> bytes \<Rightarrow> 'c \<Rightarrow> isc_token \<Rightarrow> isc_lex \<Rightarrow> bool" where
  "at_line_end lx0 ss rest ctx tk lx \<longleftrightarrow> (if going ctx then \<exists>lx2. isc_lex_ungettoken lx tk = Some lx2 \<and> line_left lx0 lx2 ss rest else line_left lx0 lx ss rest)"

lemma loop_reads:
  assumes "ready lx ss (line @ 0x0a # rest)" "\<forall>x\<in>set line. gap x \<or> plain_char lx MASTER_OPTIONS x" "0 \<notin> set line" "lx_paren_count lx = 0" "inv ctx"
    "feed_string step ctx (line @ [0]) = Some (ISC_R_SUCCESS, ctx')" "length line + 2 \<le> fuel"
  shows "\<exists>tk lx'. word_loop fuel step going True lx tk0 ctx = Some (ISC_R_SUCCESS, ctx', tk, lx') \<and> inv ctx' \<and> at_line_end lx ss rest ctx' tk lx'"
  using assms
proof (induction "length line" arbitrary: line lx ctx fuel tk0 rule: less_induct)
  case less
  have nb: "\<not> is_blank x" if "plain_char lx MASTER_OPTIONS x" for x using that by (auto simp: plain_char_def is_blank_def)
  obtain f where f: "fuel = Suc f" using less.prems(7) by (cases fuel) auto
  show ?case
  proof (cases "going ctx")
    case False
    have "\<forall>c\<in>set line. is_blank c" "ctx' = ctx" using stopped_blank [OF less.prems(5) False less.prems(6,3)] by auto
    then have "\<forall>x\<in>set line. gap x" using less.prems(2) nb by blast
    then show ?thesis using f False less.prems(1,5) \<open>ctx' = ctx\<close> by (auto simp: at_line_end_def line_left_def)
  next
    case True
    obtain ws w v where sp: "line = ws @ w @ v" "\<forall>x\<in>set ws. gap x" "\<forall>x\<in>set w. \<not> gap x" "w = [] \<longrightarrow> v = []" "v = [] \<or> gap (hd v)" using split_line by blast
    have fs: "feed_string step ctx (w @ v @ [0]) = Some (ISC_R_SUCCESS, ctx')"
      using less.prems(6) feed_string_blanks [of ws step ctx "w @ v @ [0]"] sp(1,2) by simp
    show ?thesis
    proof (cases "w = []")
      case True
      then have ln: "line = ws" "v = []" using sp by simp_all
      then have "ctx' = ctx" using fs True by simp
      obtain lx1 tk lx2 where "isc_lex_getmastertoken lx tk0 isc_tokentype_string True = Some (ISC_R_SUCCESS, tk, lx1)" "tk_type tk = isc_tokentype_eol"
        "isc_lex_ungettoken lx1 tk = Some lx2" "ready lx2 ss (ws @ 0x0a # rest)" "follows lx lx2" using master_eol [of lx ss ws rest tk0] less.prems(1,4) sp(2) ln by metis
      then show ?thesis using f \<open>going ctx\<close> \<open>ctx' = ctx\<close> less.prems(5) sp(2) by (auto simp: at_line_end_def line_left_def)
    next
      case w: False
      have pw: "\<forall>x\<in>set w. plain_char lx MASTER_OPTIONS x" using less.prems(2) sp(1,3) by auto
      define d where "d = hd (v @ [0x0a])"
      have d: "gap d \<or> d = 0x0a" using sp(5) unfolding d_def by (cases v) auto
      have dr: "v @ 0x0a # rest = d # tl (v @ 0x0a # rest)" unfolding d_def by (cases v) auto
      have "ready lx ss (ws @ w @ d # tl (v @ 0x0a # rest))" unfolding dr [symmetric] using less.prems(1) sp(1) by simp
      from master_word [OF this sp(2) w pw d]
      obtain lx1 tk where m: "isc_lex_getmastertoken lx tk0 isc_tokentype_string True = Some (ISC_R_SUCCESS, tk, lx1)" "tk_type tk = isc_tokentype_string" "token_text tk = w"
        "ready lx1 ss (v @ 0x0a # rest)" "follows lx lx1" unfolding dr [symmetric] by blast
      have "c \<noteq> 0 \<and> \<not> is_blank c" if "c \<in> set w" for c using that pw nb less.prems(3) sp(1) by auto
      then obtain ctx1 where c1: "feed step ctx w = Some (ISC_R_SUCCESS, ctx1)" "feed_string step ctx1 (v @ [0]) = Some (ISC_R_SUCCESS, ctx')"
        using feed_string_word [OF fs] by blast
      have len: "length v < length line" using w sp(1) by simp
      have pv: "\<forall>x\<in>set v. gap x \<or> plain_char lx1 MASTER_OPTIONS x" using less.prems(2) sp(1) same_conf_plain(1) [of lx lx1] m(5) by (auto simp: follows_def)
      have z: "0 \<notin> set v" "lx_paren_count lx1 = 0" using less.prems(3,4) sp(1) m(5) by (simp_all add: same_conf_def follows_def)
      have fl: "length v + 2 \<le> f" using less.prems(7) len f by linarith
      from less.hyps [OF len m(4) pv z(1,2) feed_inv [OF less.prems(5) c1(1)] c1(2) fl, of tk]
      obtain tk' lx' where "word_loop f step going True lx1 tk ctx1 = Some (ISC_R_SUCCESS, ctx', tk', lx')" "inv ctx'" "at_line_end lx1 ss rest ctx' tk' lx'" by blast
      moreover from this(3) have "at_line_end lx ss rest ctx' tk' lx'" using follows_trans [OF m(5)] by (auto simp: at_line_end_def line_left_def split: if_splits)
      ultimately show ?thesis using f \<open>going ctx\<close> m(1-3) c1(1) by simp
    qed
  qed
qed

end

interpretation w64: word_decoder base64_decode_char "\<lambda>ctx. \<not> d64_seen_end ctx \<and> d64_length ctx \<noteq> 0" "\<lambda>ctx. d64_length ctx = -1"
proof
  fix ctx :: base64_decode_ctx and c ctx'
  assume l: "d64_length ctx = -1"
  show "d64_length ctx' = -1" if "base64_decode_char ctx c = Some (ISC_R_SUCCESS, ctx')"
    using that l by (auto simp: base64_decode_char_def b64_group_def Let_def split: if_splits option.splits bind_splits list.splits)
  show "base64_decode_char ctx c \<noteq> Some (ISC_R_SUCCESS, ctx')" if "\<not> (\<not> d64_seen_end ctx \<and> d64_length ctx \<noteq> 0)"
    using that l by (simp add: base64_decode_char_def)
qed

interpretation whex: word_decoder hex_decode_char "\<lambda>ctx. dh_length ctx \<noteq> 0" "\<lambda>ctx. dh_length ctx = -1"
proof
  fix ctx :: hex_decode_ctx and c ctx'
  assume l: "dh_length ctx = -1"
  show "dh_length ctx' = -1" if "hex_decode_char ctx c = Some (ISC_R_SUCCESS, ctx')"
    using that l by (auto simp: hex_decode_char_def Let_def split: if_splits bind_splits list.splits)
  show "hex_decode_char ctx c \<noteq> Some (ISC_R_SUCCESS, ctx')" if "\<not> dh_length ctx \<noteq> 0" using that l by simp
qed

interpretation w32: word_decoder base32_decode_char "\<lambda>ctx. \<not> d32_seen_end ctx \<and> d32_length ctx \<noteq> 0" "\<lambda>ctx. d32_length ctx = -1"
proof
  fix ctx :: base32_decode_ctx and c ctx'
  assume l: "d32_length ctx = -1"
  show "d32_length ctx' = -1" if "base32_decode_char ctx c = Some (ISC_R_SUCCESS, ctx')"
    using that l by (auto simp: base32_decode_char_def b32_group_def Let_def split: if_splits option.splits bind_splits list.splits)
  show "base32_decode_char ctx c \<noteq> Some (ISC_R_SUCCESS, ctx')" if "\<not> (\<not> d32_seen_end ctx \<and> d32_length ctx \<noteq> 0)"
    using that l by (simp add: base32_decode_char_def)
qed

section \<open>Properties\<close>

fun form_tobuffer :: "text_form \<Rightarrow> isc_lex \<Rightarrow> isc_buffer \<Rightarrow> int \<Rightarrow> (isc_result \<times> isc_buffer \<times> isc_lex) option" where
  "form_tobuffer Base64 = isc_base64_tobuffer"
| "form_tobuffer Hex = isc_hex_tobuffer"
| "form_tobuffer Base32 = isc_base32_tobuffer"
| "form_tobuffer Base32hex = isc_base32hex_tobuffer"
| "form_tobuffer Base32hexnp = isc_base32hexnp_tobuffer"

lemma word_fuel_ready: "ready lx ss (line @ 0x0a # rest) \<Longrightarrow> length line + 2 \<le> word_fuel lx"
  by (auto simp: ready_def word_fuel_def split: list.splits)

lemma base64_tobuffer_line:
  assumes "ready lx ss (line @ 0x0a # rest)" "\<forall>x\<in>set line. gap x \<or> plain_char lx MASTER_OPTIONS x" "0 \<notin> set line" "lx_paren_count lx = 0"
    "isc_base64_decodestring (line @ [0]) u = Some (ISC_R_SUCCESS, u')"
  shows "\<exists>lx'. isc_base64_tobuffer lx u (-1) = Some (ISC_R_SUCCESS, u', lx') \<and> line_left lx lx' ss rest"
proof -
  obtain ctx where c: "feed_string base64_decode_char (base64_decode_init (-1) u) (line @ [0]) = Some (ISC_R_SUCCESS, ctx)" "base64_decode_finish ctx = ISC_R_SUCCESS" "d64_target ctx = u'"
    using assms(5) by (auto simp: isc_base64_decodestring_def split: bind_splits if_splits)
  have i: "d64_length (base64_decode_init (-1) u) = -1" by (simp add: base64_decode_init_def)
  from w64.loop_reads [OF assms(1-4) i c(1) word_fuel_ready [OF assms(1)], of "plain_token isc_tokentype_unknown"] c(2,3)
  show ?thesis by (auto simp: isc_base64_tobuffer_def w64.at_line_end_def)
qed

lemma hex_tobuffer_line:
  assumes "ready lx ss (line @ 0x0a # rest)" "\<forall>x\<in>set line. gap x \<or> plain_char lx MASTER_OPTIONS x" "0 \<notin> set line" "lx_paren_count lx = 0"
    "isc_hex_decodestring (line @ [0]) u = Some (ISC_R_SUCCESS, u')"
  shows "\<exists>lx'. isc_hex_tobuffer lx u (-1) = Some (ISC_R_SUCCESS, u', lx') \<and> line_left lx lx' ss rest"
proof -
  obtain ctx where c: "feed_string hex_decode_char (hex_decode_init (-1) u) (line @ [0]) = Some (ISC_R_SUCCESS, ctx)" "hex_decode_finish ctx = ISC_R_SUCCESS" "dh_target ctx = u'"
    using assms(5) by (auto simp: isc_hex_decodestring_def split: bind_splits if_splits)
  have i: "dh_length (hex_decode_init (-1) u) = -1" by (simp add: hex_decode_init_def)
  from whex.loop_reads [OF assms(1-4) i c(1) word_fuel_ready [OF assms(1)], of "plain_token isc_tokentype_unknown"] c(2,3)
  show ?thesis by (auto simp: isc_hex_tobuffer_def whex.at_line_end_def)
qed

lemma base32_tobuffer_line:
  assumes "ready lx ss (line @ 0x0a # rest)" "\<forall>x\<in>set line. gap x \<or> plain_char lx MASTER_OPTIONS x" "0 \<notin> set line" "lx_paren_count lx = 0"
    "base32_decodestring (line @ [0]) base pad u = Some (ISC_R_SUCCESS, u')"
  shows "\<exists>lx'. base32_tobuffer lx base pad u (-1) = Some (ISC_R_SUCCESS, u', lx') \<and> line_left lx lx' ss rest"
proof -
  obtain ctx ctx' where c: "feed_string base32_decode_char (base32_decode_init (-1) base u pad) (line @ [0]) = Some (ISC_R_SUCCESS, ctx)"
    "base32_decode_finish ctx = Some (ISC_R_SUCCESS, ctx')" "d32_target ctx' = u'"
    using assms(5) by (auto simp: base32_decodestring_def split: bind_splits if_splits)
  have i: "d32_length (base32_decode_init (-1) base u pad) = -1" by (simp add: base32_decode_init_def)
  from w32.loop_reads [OF assms(1-4) i c(1) word_fuel_ready [OF assms(1)], of "plain_token isc_tokentype_unknown"] c(2,3)
  show ?thesis by (auto simp: base32_tobuffer_def w32.at_line_end_def)
qed

text \<open>
  C10: Reading the tokens of a line and reading a string are the same: what \<^verbatim>\<open>decodestring\<close> accepts as the text of some octets in one of the five forms, the reader of the lexer's tokens
  accepts in a line of a master file, cut into words in any way, with the same octets, and it leaves the lexer at the end of the line.
\<close>

theorem tobuffer_line:
  assumes "ready lx ss (line @ 0x0a # rest)" "\<forall>x\<in>set line. gap x \<or> plain_char lx MASTER_OPTIONS x" "0 \<notin> set line" "lx_paren_count lx = 0"
    "form_decodestring form (line @ [0]) u = Some (ISC_R_SUCCESS, u')"
  shows "\<exists>lx'. form_tobuffer form lx u (-1) = Some (ISC_R_SUCCESS, u', lx') \<and> line_left lx lx' ss rest"
  using assms base64_tobuffer_line [OF assms(1-4)] hex_tobuffer_line [OF assms(1-4)] base32_tobuffer_line [OF assms(1-4)]
  by (cases form) (simp_all add: isc_base32_tobuffer_def isc_base32hex_tobuffer_def isc_base32hexnp_tobuffer_def isc_base32_decodestring_def isc_base32hex_decodestring_def
      isc_base32hexnp_decodestring_def)

theorem tobuffer_line_witness:
  "\<exists>lx' u'. form_tobuffer Hex (file_lexer 1 ISC_LEXCOMMENT_DNSMASTERFILE [0x34, 0x20, 0x66, 0x0a]) (isc_buffer_init [0] 1) (-1) = Some (ISC_R_SUCCESS, u', lx') \<and>
    buf_content u' = [0x4f] \<and> (\<exists>ws. set ws \<subseteq> {0x20, 0x09} \<and> ready lx' [] (ws @ [0x0a]))"
proof -
  let ?lx = "file_lexer 1 ISC_LEXCOMMENT_DNSMASTERFILE [0x34, 0x20, 0x66, 0x0a]" and ?u = "isc_buffer_init [0] 1"
  have b: "buf_ok ?u" by (simp add: buf_ok_def isc_buffer_init_def ISC_BUFFER_VALID_def)
  have "isc_hex_char 0x34 = 0x30" "isc_hex_char 0x66 = 0x57" by code_simp+
  then have d: "form_decodestring Hex ([0x34, 0x20, 0x66] @ [0]) ?u = Some (ISC_R_SUCCESS, grown ?u [0x4f])" using b
    by (simp add: isc_hex_decodestring_def hex_decode_init_def hex_decode_char_def is_blank_def mem_tobuffer_eq hex_decode_finish_def buf_room_def isc_buffer_init_def)
  have "ready ?lx [] ([0x34, 0x20, 0x66] @ 0x0a # [])" using file_lexer_ready [of 1] by simp
  then have "\<exists>lx'. form_tobuffer Hex ?lx ?u (-1) = Some (ISC_R_SUCCESS, grown ?u [0x4f], lx') \<and> line_left ?lx lx' [] []"
    by (rule tobuffer_line [OF _ _ _ _ d]) (simp_all add: gap_def plain_char_def comment_char_def wants_def ISC_LEXCOMMENT_DNSMASTERFILE_def ISC_LEXCOMMENT_SHELL_def
      ISC_LEXCOMMENT_C_def ISC_LEXCOMMENT_CPLUSPLUS_def)
  moreover have "buf_content (grown ?u [0x4f]) = [0x4f]" by (simp add: grown_def isc_buffer_init_def buf_content_def)
  ultimately show ?thesis by (fastforce simp: line_left_def gap_def)
qed

end
