(* ===== verification/PrivFile.thy ===== *)
theory PrivFile
  imports TimeText LexText Dst
begin

text \<open>
  Private key files, \<^verbatim>\<open>lib/dns/dst_parse.c\<close>: \<^verbatim>\<open>dst__privstruct_writefile\<close> writes one, and \<^verbatim>\<open>dst__privstruct_parse\<close> reads it with the lexer.
  An algorithm and a tag are numbers; the arrays of tags are lists, and what is past their end is no tag.  A pointer to the data of an element is the number of a block of memory
  and the octets in it, which do not change once the block is filled; the memory context is the set of blocks that are allocated, and freeing another block fails.
  The flag \<^verbatim>\<open>external\<close> of a key stands beside the key.  The file system and the clock are arguments of the writer.
\<close>

section \<open>Algorithms and tags\<close>

definition DST_ALG_RSA :: int where "DST_ALG_RSA = 1"
definition DST_ALG_RSASHA1 :: int where "DST_ALG_RSASHA1 = 5"
definition DST_ALG_NSEC3RSASHA1 :: int where "DST_ALG_NSEC3RSASHA1 = 7"
definition DST_ALG_RSASHA256 :: int where "DST_ALG_RSASHA256 = 8"
definition DST_ALG_RSASHA512 :: int where "DST_ALG_RSASHA512 = 10"
definition DST_ALG_ECDSA256 :: int where "DST_ALG_ECDSA256 = 13"
definition DST_ALG_ECDSA384 :: int where "DST_ALG_ECDSA384 = 14"
definition DST_ALG_ED25519 :: int where "DST_ALG_ED25519 = 15"
definition DST_ALG_ED448 :: int where "DST_ALG_ED448 = 16"
definition DST_ALG_FALCON512 :: int where "DST_ALG_FALCON512 = 17"
definition DST_ALG_DILITHIUM2 :: int where "DST_ALG_DILITHIUM2 = 18"
definition DST_ALG_SPHINCSSHA256128S :: int where "DST_ALG_SPHINCSSHA256128S = 19"
definition DST_ALG_XMSS :: int where "DST_ALG_XMSS = 20"
definition DST_ALG_XMSSMT :: int where "DST_ALG_XMSSMT = 21"
definition DST_ALG_HMACMD5 :: int where "DST_ALG_HMACMD5 = 157"
definition DST_ALG_HMACSHA1 :: int where "DST_ALG_HMACSHA1 = 161"
definition DST_ALG_HMACSHA224 :: int where "DST_ALG_HMACSHA224 = 162"
definition DST_ALG_HMACSHA256 :: int where "DST_ALG_HMACSHA256 = 163"
definition DST_ALG_HMACSHA384 :: int where "DST_ALG_HMACSHA384 = 164"
definition DST_ALG_HMACSHA512 :: int where "DST_ALG_HMACSHA512 = 165"

lemmas alg_defs = DST_ALG_RSA_def DST_ALG_RSASHA1_def DST_ALG_NSEC3RSASHA1_def DST_ALG_RSASHA256_def DST_ALG_RSASHA512_def DST_ALG_ECDSA256_def DST_ALG_ECDSA384_def
  DST_ALG_ED25519_def DST_ALG_ED448_def DST_ALG_FALCON512_def DST_ALG_DILITHIUM2_def DST_ALG_SPHINCSSHA256128S_def DST_ALG_XMSS_def DST_ALG_XMSSMT_def DST_ALG_HMACMD5_def
  DST_ALG_HMACSHA1_def DST_ALG_HMACSHA224_def DST_ALG_HMACSHA256_def DST_ALG_HMACSHA384_def DST_ALG_HMACSHA512_def

definition MAXFIELDSIZE :: nat where "MAXFIELDSIZE = 39000"
definition MAXFIELDS :: nat where "MAXFIELDS = 12 + 6"
definition TAG_SHIFT :: nat where "TAG_SHIFT = 4"
definition TAG_ALG :: "int \<Rightarrow> int" where "TAG_ALG tag = tag div 2 ^ TAG_SHIFT"
definition TAG :: "int \<Rightarrow> int \<Rightarrow> int" where "TAG alg off = alg * 2 ^ TAG_SHIFT + off"

definition DST_MAJOR_VERSION :: int where "DST_MAJOR_VERSION = 1"
definition DST_MINOR_VERSION :: int where "DST_MINOR_VERSION = 3"

record dst_private_element =
  pe_tag :: int
  pe_length :: nat
  pe_data :: "(nat \<times> bytes) option"

record dst_private =
  pr_nelements :: nat
  pr_elements :: "dst_private_element list"

abbreviation str :: "string \<Rightarrow> bytes" where "str s \<equiv> map of_char s"

definition PRIVATE_KEY_STR :: bytes where "PRIVATE_KEY_STR = str ''Private-key-format:''"
definition ALGORITHM_STR :: bytes where "ALGORITHM_STR = str ''Algorithm:''"

definition timetags :: "bytes list" where
  "timetags = [str ''Created:'', str ''Publish:'', str ''Activate:'', str ''Revoke:'', str ''Inactive:'', str ''Delete:'', str ''DSPublish:'', str ''SyncPublish:'',
     str ''SyncDelete:'']"

definition numerictags :: "bytes list" where
  "numerictags = [str ''Predecessor:'', str ''Successor:'', str ''MaxTTL:'', str ''RollPeriod:'']"

definition parse_map :: "(int \<times> bytes) list" where
  "parse_map =
     [(TAG DST_ALG_RSA 0, str ''Modulus:''), (TAG DST_ALG_RSA 1, str ''PublicExponent:''), (TAG DST_ALG_RSA 2, str ''PrivateExponent:''), (TAG DST_ALG_RSA 3, str ''Prime1:''),
      (TAG DST_ALG_RSA 4, str ''Prime2:''), (TAG DST_ALG_RSA 5, str ''Exponent1:''), (TAG DST_ALG_RSA 6, str ''Exponent2:''), (TAG DST_ALG_RSA 7, str ''Coefficient:''),
      (TAG DST_ALG_RSA 8, str ''Engine:''), (TAG DST_ALG_RSA 9, str ''Label:''),
      (TAG DST_ALG_ECDSA256 0, str ''PrivateKey:''), (TAG DST_ALG_ECDSA256 1, str ''Engine:''), (TAG DST_ALG_ECDSA256 2, str ''Label:''),
      (TAG DST_ALG_ED25519 0, str ''PrivateKey:''), (TAG DST_ALG_ED25519 1, str ''Engine:''), (TAG DST_ALG_ED25519 2, str ''Label:''),
      (TAG DST_ALG_HMACMD5 0, str ''Key:''), (TAG DST_ALG_HMACMD5 1, str ''Bits:''), (TAG DST_ALG_HMACSHA1 0, str ''Key:''), (TAG DST_ALG_HMACSHA1 1, str ''Bits:''),
      (TAG DST_ALG_HMACSHA224 0, str ''Key:''), (TAG DST_ALG_HMACSHA224 1, str ''Bits:''), (TAG DST_ALG_HMACSHA256 0, str ''Key:''), (TAG DST_ALG_HMACSHA256 1, str ''Bits:''),
      (TAG DST_ALG_HMACSHA384 0, str ''Key:''), (TAG DST_ALG_HMACSHA384 1, str ''Bits:''), (TAG DST_ALG_HMACSHA512 0, str ''Key:''), (TAG DST_ALG_HMACSHA512 1, str ''Bits:''),
      (TAG DST_ALG_FALCON512 0, str ''PrivateKey:''), (TAG DST_ALG_FALCON512 1, str ''PublicKey:''), (TAG DST_ALG_DILITHIUM2 0, str ''PrivateKey:''), (TAG DST_ALG_DILITHIUM2 1, str ''PublicKey:''),
      (TAG DST_ALG_SPHINCSSHA256128S 0, str ''PrivateKey:''), (TAG DST_ALG_SPHINCSSHA256128S 1, str ''PublicKey:''),
      (TAG DST_ALG_XMSS 0, str ''PrivateKey:''), (TAG DST_ALG_XMSS 1, str ''PublicKey:''), (TAG DST_ALG_XMSSMT 0, str ''PrivateKey:''), (TAG DST_ALG_XMSSMT 1, str ''PublicKey:'')]"

text \<open>\<^verbatim>\<open>strcasecmp\<close> in the C locale.\<close>

definition tolower :: "u8 \<Rightarrow> u8" where "tolower c = (if 0x41 \<le> c \<and> c \<le> 0x5a then c + 0x20 else c)"

definition strcaseeq :: "bytes \<Rightarrow> bytes \<Rightarrow> bool" where "strcaseeq a b \<longleftrightarrow> map tolower a = map tolower b"

definition find_value :: "bytes \<Rightarrow> int \<Rightarrow> int option" where
  "find_value s alg = map_option fst (find (\<lambda>(v, tag). strcaseeq s tag \<and> TAG_ALG v = alg) parse_map)"

definition find_tag :: "int \<Rightarrow> bytes option" where
  "find_tag v = map_option snd (find (\<lambda>(v', tag). v = v') parse_map)"

fun find_metadata :: "bytes \<Rightarrow> bytes list \<Rightarrow> nat \<Rightarrow> nat option" where
  "find_metadata s [] i = None"
| "find_metadata s (tag # tags) i = (if strcaseeq s tag then Some i else find_metadata s tags (i + 1))"

definition find_timedata :: "bytes \<Rightarrow> nat option" where "find_timedata s = find_metadata s timetags 0"
definition find_numericdata :: "bytes \<Rightarrow> nat option" where "find_numericdata s = find_metadata s numerictags 0"

section \<open>Which elements a key has\<close>

definition only_tags :: "int \<Rightarrow> nat \<Rightarrow> dst_private_element list \<Rightarrow> bool" where
  "only_tags alg ntags es \<longleftrightarrow> list_all (\<lambda>e. list_ex (\<lambda>i. pe_tag e = TAG alg (int i)) [0..<ntags]) es"

definition has_tag :: "int \<Rightarrow> dst_private_element list \<Rightarrow> int \<Rightarrow> bool" where
  "has_tag alg es i \<longleftrightarrow> list_ex (\<lambda>e. pe_tag e = TAG alg i) es"

definition check_rsa :: "dst_private_element list \<Rightarrow> bool \<Rightarrow> bool" where
  "check_rsa es external =
     (if external then es = []
      else only_tags DST_ALG_RSA 11 es \<and> has_tag DST_ALG_RSA es 0 \<and> has_tag DST_ALG_RSA es 1 \<and> (has_tag DST_ALG_RSA es 9 \<or> list_all (has_tag DST_ALG_RSA es) [2, 3, 4, 5, 6, 7]))"

definition check_ecdsa :: "dst_private_element list \<Rightarrow> bool \<Rightarrow> bool" where
  "check_ecdsa es external =
     (if external then es = [] else only_tags DST_ALG_ECDSA256 4 es \<and> (has_tag DST_ALG_ECDSA256 es 2 \<or> has_tag DST_ALG_ECDSA256 es 0))"

definition check_eddsa :: "dst_private_element list \<Rightarrow> bool \<Rightarrow> bool" where
  "check_eddsa es external =
     (if external then es = [] else only_tags DST_ALG_ED25519 4 es \<and> (has_tag DST_ALG_ED25519 es 2 \<or> has_tag DST_ALG_ED25519 es 0))"

definition check_hmac_md5 :: "dst_private_element list \<Rightarrow> bool \<Rightarrow> bool" where
  "check_hmac_md5 es old =
     (if length es \<noteq> 2 then old \<and> length es = 1 \<and> pe_tag (hd es) = TAG DST_ALG_HMACMD5 0 else list_all (has_tag DST_ALG_HMACMD5 es) [0, 1])"

definition check_hmac_sha :: "dst_private_element list \<Rightarrow> nat \<Rightarrow> int \<Rightarrow> bool" where
  "check_hmac_sha es ntags alg \<longleftrightarrow> length es = ntags \<and> list_all (\<lambda>i. has_tag alg es (int i)) [0..<ntags]"

definition check_oqs :: "dst_private_element list \<Rightarrow> int \<Rightarrow> bool \<Rightarrow> bool" where
  "check_oqs es alg external = (if external then es = [] else only_tags alg 2 es \<and> has_tag alg es 0 \<and> has_tag alg es 1)"

definition check_xmss :: "dst_private_element list \<Rightarrow> int \<Rightarrow> bool \<Rightarrow> bool" where
  "check_xmss es alg external = (if external then es = [] else only_tags alg 2 es \<and> has_tag alg es 0 \<and> has_tag alg es 1)"

definition check_xmssmt :: "dst_private_element list \<Rightarrow> int \<Rightarrow> bool \<Rightarrow> bool" where
  "check_xmssmt es alg external = (if external then es = [] else only_tags alg 2 es \<and> has_tag alg es 0 \<and> has_tag alg es 1)"

definition rsa_algs :: "int set" where
  "rsa_algs = {DST_ALG_RSA, DST_ALG_RSASHA1, DST_ALG_NSEC3RSASHA1, DST_ALG_RSASHA256, DST_ALG_RSASHA512}"

definition hmac_sha_algs :: "int set" where
  "hmac_sha_algs = {DST_ALG_HMACSHA1, DST_ALG_HMACSHA224, DST_ALG_HMACSHA256, DST_ALG_HMACSHA384, DST_ALG_HMACSHA512}"

definition oqs_algs :: "int set" where "oqs_algs = {DST_ALG_FALCON512, DST_ALG_DILITHIUM2, DST_ALG_SPHINCSSHA256128S}"

text \<open>The switch over the algorithm; \<open>None\<close> is its default.\<close>

definition check_elements :: "dst_private_element list \<Rightarrow> int \<Rightarrow> bool \<Rightarrow> bool \<Rightarrow> bool option" where
  "check_elements es alg old external =
     (if alg \<in> rsa_algs then Some (check_rsa es external)
      else if alg \<in> {DST_ALG_ECDSA256, DST_ALG_ECDSA384} then Some (check_ecdsa es external)
      else if alg \<in> {DST_ALG_ED25519, DST_ALG_ED448} then Some (check_eddsa es external)
      else if alg = DST_ALG_HMACMD5 then Some (check_hmac_md5 es old)
      else if alg \<in> hmac_sha_algs then Some (check_hmac_sha es 2 alg)
      else if alg \<in> oqs_algs then Some (check_oqs es alg external)
      else if alg = DST_ALG_XMSS then Some (check_xmss es alg external)
      else if alg = DST_ALG_XMSSMT then Some (check_xmssmt es alg external)
      else None)"

text \<open>What the callers make of the result: \<open>-1\<close> is \<^verbatim>\<open>DST_R_INVALIDPRIVATEKEY\<close>.\<close>

definition check_data :: "dst_private \<Rightarrow> int \<Rightarrow> bool \<Rightarrow> bool \<Rightarrow> isc_result" where
  "check_data priv alg old external =
     (case check_elements (take (pr_nelements priv) (pr_elements priv)) alg old external of
        None \<Rightarrow> DST_R_UNSUPPORTEDALG | Some ok \<Rightarrow> if ok then ISC_R_SUCCESS else DST_R_INVALIDPRIVATEKEY)"

section \<open>Writing\<close>

definition decimal_int :: "int \<Rightarrow> bytes" where
  "decimal_int i = (if i < 0 then 0x2d # decimal (nat (- i)) else decimal (nat i))"

definition alg_text :: "int \<Rightarrow> bytes" where
  "alg_text alg =
     (case map_of [(DST_ALG_RSASHA1, str ''(RSASHA1)''), (DST_ALG_NSEC3RSASHA1, str ''(NSEC3RSASHA1)''), (DST_ALG_RSASHA256, str ''(RSASHA256)''), (DST_ALG_RSASHA512, str ''(RSASHA512)''),
        (DST_ALG_ECDSA256, str ''(ECDSAP256SHA256)''), (DST_ALG_ECDSA384, str ''(ECDSAP384SHA384)''), (DST_ALG_ED25519, str ''(ED25519)''), (DST_ALG_ED448, str ''(ED448)''),
        (DST_ALG_HMACMD5, str ''(HMAC_MD5)''), (DST_ALG_HMACSHA1, str ''(HMAC_SHA1)''), (DST_ALG_HMACSHA224, str ''(HMAC_SHA224)''), (DST_ALG_HMACSHA256, str ''(HMAC_SHA256)''),
        (DST_ALG_HMACSHA384, str ''(HMAC_SHA384)''), (DST_ALG_HMACSHA512, str ''(HMAC_SHA512)''), (DST_ALG_FALCON512, str ''(FALCON512)''), (DST_ALG_DILITHIUM2, str ''(DILITHIUM2)''),
        (DST_ALG_SPHINCSSHA256128S, str ''(SPHINCS+-SHA256-128S)''), (DST_ALG_XMSS, str ''(XMSS)''), (DST_ALG_XMSSMT, str ''(XMSSMT)'')] alg of
      Some t \<Rightarrow> t | None \<Rightarrow> str ''(?)'')"

definition write_buffer :: isc_buffer where
  "write_buffer = isc_buffer_init (replicate (MAXFIELDSIZE * 2) 0) (MAXFIELDSIZE * 2)"

definition element_octets :: "dst_private_element \<Rightarrow> bytes" where
  "element_octets e = (case pe_data e of None \<Rightarrow> [] | Some (b, xs) \<Rightarrow> xs)"

text \<open>The lines of the elements; a tag with no name would be printed from the null pointer.  \<open>Inl\<close> is the result with which the writing is given up.\<close>

fun write_elements :: "dst_private_element list \<Rightarrow> (isc_result + bytes) option" where
  "write_elements [] = Some (Inr [])"
| "write_elements (e # es) = do {
     s \<leftarrow> find_tag (pe_tag e);
     (result, _, b) \<leftarrow> isc_base64_totext \<lparr>r_base = element_octets e, r_length = pe_length e\<rparr> (int (MAXFIELDSIZE * 2)) [] write_buffer;
     if result \<noteq> ISC_R_SUCCESS then Some (Inl DST_R_WRITEERROR)
     else do {
       rest \<leftarrow> write_elements es;
       Some (case rest of Inl r \<Rightarrow> Inl r | Inr t \<Rightarrow> Inr (s @ [0x20] @ buf_content b @ [0x0a] @ t))
     }
   }"

fun write_numbers :: "dst_key \<Rightarrow> nat list \<Rightarrow> bytes" where
  "write_numbers key [] = []"
| "write_numbers key (i # js) =
     (case dst_key_getnum key (dst_nums ! i) of None \<Rightarrow> []
      | Some v \<Rightarrow> if i < length numerictags then numerictags ! i @ [0x20] @ decimal (unat v) @ [0x0a] else []) @ write_numbers key js"

fun write_times :: "u32 \<Rightarrow> dst_key \<Rightarrow> nat list \<Rightarrow> (isc_result + bytes) option" where
  "write_times now key [] = Some (Inr [])"
| "write_times now key (i # js) =
     (case dst_key_gettime key (dst_times ! i) of
        None \<Rightarrow> write_times now key js
      | Some val \<Rightarrow> do {
          (result, b) \<leftarrow> dns_time32_totext now val write_buffer;
          if result \<noteq> ISC_R_SUCCESS then Some (Inl DST_R_WRITEERROR)
          else do {
            rest \<leftarrow> write_times now key js;
            Some (case rest of Inl r \<Rightarrow> Inl r | Inr t \<Rightarrow> Inr ((if i < length timetags then timetags ! i @ [0x20] @ buf_content b @ [0x0a] else []) @ t))
          }
        })"

definition NUMERIC_NTAGS :: nat where "NUMERIC_NTAGS = 6 + 1"
definition TIMING_NTAGS :: nat where "TIMING_NTAGS = 13 + 1"

text \<open>The version that is written, and the two lines before the fields.\<close>

definition written_version :: "dst_key \<Rightarrow> int \<times> int" where
  "written_version key =
     (if k_fmt_major key = 0 \<and> k_fmt_minor key = 0 then (DST_MAJOR_VERSION, DST_MINOR_VERSION) else (k_fmt_major key, k_fmt_minor key))"

definition header_text :: "dst_key \<Rightarrow> bytes" where
  "header_text key = PRIVATE_KEY_STR @ [0x20] @ str ''v'' @ decimal_int (fst (written_version key)) @ str ''.'' @ decimal_int (snd (written_version key)) @ [0x0a] @
     ALGORITHM_STR @ [0x20] @ decimal (unat (dst_key_alg key)) @ [0x20] @ alg_text (uint (dst_key_alg key)) @ [0x0a]"

text \<open>What is printed to the file.\<close>

definition privstruct_text :: "u32 \<Rightarrow> dst_key \<Rightarrow> bool \<Rightarrow> dst_private \<Rightarrow> (isc_result + bytes) option" where
  "privstruct_text now key external priv = do {
     let (major, minor) = written_version key;
     elements \<leftarrow> write_elements (take (pr_nelements priv) (pr_elements priv));
     case elements of Inl r \<Rightarrow> Some (Inl r)
     | Inr el \<Rightarrow> do {
         let ext = (if external then str ''External:'' @ [0x0a] else []);
         if major > 1 \<or> major = 1 \<and> minor \<ge> 3 then do {
           timing \<leftarrow> write_times now key [0..<TIMING_NTAGS];
           Some (case timing of Inl r \<Rightarrow> Inl r | Inr ts \<Rightarrow> Inr (header_text key @ el @ ext @ write_numbers key [0..<NUMERIC_NTAGS] @ ts))
         }
         else Some (Inr (header_text key @ el @ ext))
       }
   }"

text \<open>
  The arguments \<open>filename\<close> and \<open>tmpname\<close> are the results of building the two names, \<open>opened\<close> says whether the temporary file could be made, and \<open>close\<close> is the result of flushing
  a text into it and renaming it.  The text that was flushed is returned too.
\<close>

definition dst__privstruct_writefile ::
    "isc_result \<Rightarrow> isc_result \<Rightarrow> bool \<Rightarrow> (bytes \<Rightarrow> isc_result) \<Rightarrow> u32 \<Rightarrow> dst_key \<Rightarrow> bool \<Rightarrow> dst_private \<Rightarrow> (isc_result \<times> bytes option) option" where
  "dst__privstruct_writefile filename tmpname opened close now key external priv =
     (let ret = check_data priv (uint (dst_key_alg key)) False external in
      if ret \<noteq> ISC_R_SUCCESS then Some (ret, None)
      else if filename \<noteq> ISC_R_SUCCESS then Some (filename, None)
      else if tmpname \<noteq> ISC_R_SUCCESS then Some (tmpname, None)
      else if \<not> opened then Some (DST_R_WRITEERROR, None)
      else do {
        written \<leftarrow> privstruct_text now key external priv;
        Some (case written of Inl r \<Rightarrow> (r, None) | Inr t \<Rightarrow> (close t, Some t))
      })"

section \<open>Reading\<close>

text \<open>The variables of the reader, the key and the memory context.\<close>

record pfile =
  pf_lex :: isc_lex
  pf_key :: dst_key
  pf_priv :: dst_private
  pf_external :: bool
  pf_data :: "nat option"
  pf_blocks :: "nat set"
  pf_next :: nat

text \<open>A step of the reader ends with the result of a \<^verbatim>\<open>goto fail\<close>, or with a value.\<close>

type_synonym 'a reader = "pfile \<Rightarrow> ((isc_result + 'a) \<times> pfile) option"

definition fail :: "isc_result \<Rightarrow> 'a reader" where "fail r st = Some (Inl r, st)"

definition return :: "'a \<Rightarrow> 'a reader" where "return x st = Some (Inr x, st)"

definition modify :: "(pfile \<Rightarrow> pfile) \<Rightarrow> unit reader" where "modify f st = Some (Inr (), f st)"

definition continue :: "'a reader \<Rightarrow> ('a \<Rightarrow> 'b reader) \<Rightarrow> 'b reader" where
  "continue m f st = (case m st of None \<Rightarrow> None | Some (Inl r, st) \<Rightarrow> Some (Inl r, st) | Some (Inr x, st) \<Rightarrow> f x st)"

lemma continue_simps [simp]:
  "m st = Some (Inr x, st') \<Longrightarrow> continue m f st = f x st'" "m st = Some (Inl r, st') \<Longrightarrow> continue m f st = Some (Inl r, st')" "m st = None \<Longrightarrow> continue m f st = None"
  by (simp_all add: continue_def)

lemma reader_simps [simp]: "return x st = Some (Inr x, st)" "fail r st = Some (Inl r, st)" "modify f st = Some (Inr (), f st)"
  by (simp_all add: return_def fail_def modify_def)

definition isc_mem_get :: "nat reader" where
  "isc_mem_get st = Some (Inr (pf_next st), st\<lparr>pf_blocks := insert (pf_next st) (pf_blocks st), pf_next := pf_next st + 1\<rparr>)"

definition isc_mem_put :: "nat \<Rightarrow> pfile \<Rightarrow> pfile option" where
  "isc_mem_put b st = (if b \<in> pf_blocks st then Some (st\<lparr>pf_blocks := pf_blocks st - {b}\<rparr>) else None)"

fun free_elements :: "dst_private_element list \<Rightarrow> pfile \<Rightarrow> pfile option" where
  "free_elements [] st = Some st"
| "free_elements (e # es) st =
     (case pe_data e of None \<Rightarrow> free_elements es st | Some (b, xs) \<Rightarrow> do { st \<leftarrow> isc_mem_put b st; free_elements es st })"

definition dst__privstruct_free :: "pfile \<Rightarrow> pfile option" where
  "dst__privstruct_free st = do {
     st \<leftarrow> free_elements (take (pr_nelements (pf_priv st)) (pr_elements (pf_priv st))) st;
     Some (st\<lparr>pf_priv := (pf_priv st)\<lparr>pr_nelements := 0\<rparr>\<rparr>)
   }"

definition DST_AS_STR :: "isc_token \<Rightarrow> bytes" where "DST_AS_STR tk = takeWhile (\<lambda>c. c \<noteq> 0) (token_text tk)"

definition NEXTTOKEN :: "u32 \<Rightarrow> isc_token reader" where
  "NEXTTOKEN opt st = do {
     (ret, tk, lx) \<leftarrow> isc_lex_gettoken (pf_lex st) opt;
     Some (if ret \<noteq> ISC_R_SUCCESS then Inl ret else Inr (the tk), st\<lparr>pf_lex := lx\<rparr>)
   }"

fun read_line :: "nat \<Rightarrow> u32 \<Rightarrow> unit reader" where
  "read_line 0 opt st = None"
| "read_line (Suc fuel) opt st = do {
     (ret, tk, lx) \<leftarrow> isc_lex_gettoken (pf_lex st) opt;
     let st = st\<lparr>pf_lex := lx\<rparr>;
     if ret = ISC_R_EOF then Some (Inr (), st)
     else if ret \<noteq> ISC_R_SUCCESS then Some (Inl ret, st)
     else if tk_type (the tk) \<noteq> isc_tokentype_eol then read_line fuel opt st
     else Some (Inr (), st)
   }"

definition READLINE :: "u32 \<Rightarrow> unit reader" where "READLINE opt st = read_line (word_fuel (pf_lex st)) opt st"

text \<open>The next token that is no end of line; \<open>None\<close> at the end of the file.\<close>

fun next_field :: "nat \<Rightarrow> u32 \<Rightarrow> isc_token option reader" where
  "next_field 0 opt st = None"
| "next_field (Suc fuel) opt st = do {
     (ret, tk, lx) \<leftarrow> isc_lex_gettoken (pf_lex st) opt;
     let st = st\<lparr>pf_lex := lx\<rparr>;
     if ret = ISC_R_EOF then Some (Inr None, st)
     else if ret \<noteq> ISC_R_SUCCESS then Some (Inl ret, st)
     else if tk_type (the tk) = isc_tokentype_eol then next_field fuel opt st
     else Some (Inr tk, st)
   }"

text \<open>\<^verbatim>\<open>sscanf\<close> with \<^verbatim>\<open>v%d.%d\<close>; a number that does not fit an \<^verbatim>\<open>int\<close> is not cut.\<close>

definition isspace :: "u8 \<Rightarrow> bool" where "isspace c \<longleftrightarrow> c = 0x20 \<or> 0x09 \<le> c \<and> c \<le> 0x0d"

definition scan_int :: "bytes \<Rightarrow> (int \<times> bytes) option" where
  "scan_int cs =
     (let cs = dropWhile isspace cs;
          neg = (cs \<noteq> [] \<and> hd cs = 0x2d);
          ds = (if cs \<noteq> [] \<and> (hd cs = 0x2d \<or> hd cs = 0x2b) then tl cs else cs);
          n = takeWhile isdigit ds in
      if n = [] then None else Some ((if neg then - int (number n) else int (number n)), dropWhile isdigit ds))"

definition scan_version :: "bytes \<Rightarrow> (int \<times> int) option" where
  "scan_version cs =
     (if cs = [] \<or> hd cs \<noteq> 0x76 then None
      else do {
        (major, cs) \<leftarrow> scan_int (tl cs);
        if cs = [] \<or> hd cs \<noteq> 0x2e then None
        else do { (minor, _) \<leftarrow> scan_int (tl cs); Some (major, minor) }
      })"

definition dst_key_setprivateformat :: "int \<Rightarrow> int \<Rightarrow> dst_key \<Rightarrow> dst_key" where
  "dst_key_setprivateformat major minor key = key\<lparr>k_fmt_major := major, k_fmt_minor := minor\<rparr>"

definition no_elements :: dst_private where
  "no_elements = \<lparr>pr_nelements = 0, pr_elements = replicate MAXFIELDS \<lparr>pe_tag = 0, pe_length = 0, pe_data = None\<rparr>\<rparr>"

text \<open>The two lines before the fields.  The value is the minor version.\<close>

definition parse_header :: "int reader" where
  "parse_header =
     continue (NEXTTOKEN ISC_LEXOPT_EOL) (\<lambda>tk.
       if tk_type tk \<noteq> isc_tokentype_string \<or> DST_AS_STR tk \<noteq> PRIVATE_KEY_STR then fail DST_R_INVALIDPRIVATEKEY
       else continue (NEXTTOKEN ISC_LEXOPT_EOL) (\<lambda>tk.
         if tk_type tk \<noteq> isc_tokentype_string then fail DST_R_INVALIDPRIVATEKEY
         else case scan_version (DST_AS_STR tk) of
           None \<Rightarrow> fail DST_R_INVALIDPRIVATEKEY
         | Some (major, minor) \<Rightarrow>
             if major > DST_MAJOR_VERSION then fail DST_R_INVALIDPRIVATEKEY
             else continue (modify (\<lambda>st. st\<lparr>pf_key := dst_key_setprivateformat major minor (pf_key st)\<rparr>)) (\<lambda>_.
               continue (READLINE ISC_LEXOPT_EOL) (\<lambda>_.
               continue (NEXTTOKEN ISC_LEXOPT_EOL) (\<lambda>tk.
                 if tk_type tk \<noteq> isc_tokentype_string \<or> DST_AS_STR tk \<noteq> ALGORITHM_STR then fail DST_R_INVALIDPRIVATEKEY
                 else continue (NEXTTOKEN (ISC_LEXOPT_EOL OR ISC_LEXOPT_NUMBER)) (\<lambda>tk st.
                   if tk_type tk \<noteq> isc_tokentype_number \<or> tk_value tk \<noteq> As_ulong (dst_key_alg (pf_key st)) then fail DST_R_INVALIDPRIVATEKEY st
                   else continue (READLINE ISC_LEXOPT_EOL) (\<lambda>_. return minor) st))))))"

text \<open>The data of an element; the store into the array is in its bounds.\<close>

definition set_element :: "nat \<Rightarrow> (dst_private_element \<Rightarrow> dst_private_element) \<Rightarrow> unit reader" where
  "set_element n f st = do {
     REQUIRE (n < length (pr_elements (pf_priv st)));
     Some (Inr (), st\<lparr>pf_priv := (pf_priv st)\<lparr>pr_elements := (pr_elements (pf_priv st))[n := f (pr_elements (pf_priv st) ! n)]\<rparr>\<rparr>)
   }"

definition read_base64 :: "bytes reader" where
  "read_base64 st = do {
     (ret, b, lx) \<leftarrow> isc_base64_tobuffer (pf_lex st) (isc_buffer_init (replicate MAXFIELDSIZE 0) MAXFIELDSIZE) (-1);
     Some (if ret \<noteq> ISC_R_SUCCESS then Inl ret else Inr (buf_content b), st\<lparr>pf_lex := lx\<rparr>)
   }"

definition parse_element :: "nat \<Rightarrow> int \<Rightarrow> unit reader" where
  "parse_element n tag =
     continue (set_element n (\<lambda>e. e\<lparr>pe_tag := tag\<rparr>)) (\<lambda>_.
     continue isc_mem_get (\<lambda>b.
     continue (modify (\<lambda>st. st\<lparr>pf_data := Some b\<rparr>)) (\<lambda>_.
     continue read_base64 (\<lambda>xs.
     continue (set_element n (\<lambda>e. e\<lparr>pe_length := length xs, pe_data := Some (b, xs)\<rparr>)) (\<lambda>_.
     modify (\<lambda>st. st\<lparr>pf_priv := (pf_priv st)\<lparr>pr_nelements := pr_nelements (pf_priv st) + 1\<rparr>\<rparr>))))))"

text \<open>One field, whose first token is \<open>tk\<close>, without the rest of its line.\<close>

definition parse_field :: "int \<Rightarrow> nat \<Rightarrow> int \<Rightarrow> isc_token \<Rightarrow> unit reader" where
  "parse_field alg n minor tk =
     (if tk_type tk \<noteq> isc_tokentype_string then fail DST_R_INVALIDPRIVATEKEY
      else let s = DST_AS_STR tk in
        if s = str ''External:'' then modify (\<lambda>st. st\<lparr>pf_external := True\<rparr>)
        else case find_numericdata s of
          Some tag \<Rightarrow>
            continue (NEXTTOKEN (ISC_LEXOPT_EOL OR ISC_LEXOPT_NUMBER)) (\<lambda>tk.
              case (tk_type tk, tk_value tk) of
                (isc_tokentype_number, As_ulong v) \<Rightarrow> modify (\<lambda>st. st\<lparr>pf_key := dst_key_setnum (dst_nums ! tag) v (pf_key st)\<rparr>)
              | _ \<Rightarrow> fail DST_R_INVALIDPRIVATEKEY)
        | None \<Rightarrow>
            case find_timedata s of
              Some tag \<Rightarrow>
                continue (NEXTTOKEN ISC_LEXOPT_EOL) (\<lambda>tk.
                  if tk_type tk \<noteq> isc_tokentype_string then fail DST_R_INVALIDPRIVATEKEY
                  else case dns_time32_fromtext (DST_AS_STR tk @ [0]) of
                    Inl ret \<Rightarrow> fail ret
                  | Inr val \<Rightarrow> modify (\<lambda>st. st\<lparr>pf_key := dst_key_settime (dst_times ! tag) val (pf_key st)\<rparr>))
            | None \<Rightarrow>
                case find_value s alg of
                  None \<Rightarrow> if minor > DST_MINOR_VERSION then return () else fail DST_R_INVALIDPRIVATEKEY
                | Some tag \<Rightarrow> parse_element n tag)"

text \<open>The loop, with the number of rounds that are left.\<close>

fun parse_fields :: "nat \<Rightarrow> int \<Rightarrow> nat \<Rightarrow> int \<Rightarrow> unit reader" where
  "parse_fields 0 alg n minor = return ()"
| "parse_fields (Suc k) alg n minor =
     continue (\<lambda>st. next_field (word_fuel (pf_lex st)) ISC_LEXOPT_EOL st) (\<lambda>tk.
       case tk of
         None \<Rightarrow> return ()
       | Some tk \<Rightarrow>
           continue (parse_field alg n minor tk) (\<lambda>_.
           continue (READLINE ISC_LEXOPT_EOL) (\<lambda>_.
           continue (modify (\<lambda>st. st\<lparr>pf_data := None\<rparr>)) (\<lambda>_.
           parse_fields k alg (n + 1) minor))))"

definition parse_check :: "int \<Rightarrow> unit reader" where
  "parse_check alg st =
     (if pf_external st \<and> pr_nelements (pf_priv st) \<noteq> 0 then fail DST_R_INVALIDPRIVATEKEY st
      else let check = check_data (pf_priv st) alg True (pf_external st) in
        if check \<noteq> ISC_R_SUCCESS then fail check st else return () st)"

definition parse_start :: "dst_key \<Rightarrow> isc_lex \<Rightarrow> nat set \<Rightarrow> nat \<Rightarrow> pfile" where
  "parse_start key lx blocks next = \<lparr>pf_lex = lx, pf_key = key, pf_priv = no_elements, pf_external = False, pf_data = None, pf_blocks = blocks, pf_next = next\<rparr>"

text \<open>\<open>blocks\<close> are the blocks allocated before the call and \<open>next\<close> is the number of a new one.  On success the key's flag \<^verbatim>\<open>external\<close> is that of the final state.\<close>

definition dst__privstruct_parse :: "dst_key \<Rightarrow> int \<Rightarrow> isc_lex \<Rightarrow> nat set \<Rightarrow> nat \<Rightarrow> (isc_result \<times> pfile) option" where
  "dst__privstruct_parse key alg lx blocks next =
     (case continue parse_header (\<lambda>minor. continue (parse_fields MAXFIELDS alg 0 minor) (\<lambda>_. parse_check alg)) (parse_start key lx blocks next) of
        None \<Rightarrow> None
      | Some (Inr _, st) \<Rightarrow> Some (ISC_R_SUCCESS, st)
      | Some (Inl ret, st) \<Rightarrow> do {
          st \<leftarrow> dst__privstruct_free st;
          st \<leftarrow> (case pf_data st of None \<Rightarrow> Some st | Some b \<Rightarrow> isc_mem_put b st);
          Some (ret, st)
        })"

section \<open>The tables\<close>

text \<open>A word of a file: no blanks, no end of line and no null octet.\<close>

definition word_ok :: "bytes \<Rightarrow> bool" where
  "word_ok w \<longleftrightarrow> w \<noteq> [] \<and> list_all (\<lambda>c. c \<notin> {0, 0x20, 0x09, 0x0d, 0x0a}) w"

lemma parse_map_words: "list_all (\<lambda>s. word_ok s \<and> find_numericdata s = None \<and> find_timedata s = None \<and> s \<noteq> str ''External:'') (remdups (map snd parse_map))"
  by code_simp

lemma parse_map_values: "list_all (\<lambda>(v, s). find (\<lambda>(v', t). TAG_ALG v' = TAG_ALG v \<and> strcaseeq s t) parse_map = Some (v, s)) parse_map"
  by code_simp

lemma numerictags_ok: "list_all (\<lambda>i. word_ok (numerictags ! i) \<and> find_numericdata (numerictags ! i) = Some i \<and> numerictags ! i \<noteq> str ''External:'') [0..<4]"
  by code_simp

lemma timetags_ok:
  "list_all (\<lambda>i. word_ok (timetags ! i) \<and> find_numericdata (timetags ! i) = None \<and> find_timedata (timetags ! i) = Some i \<and> timetags ! i \<noteq> str ''External:'') [0..<9]"
  by code_simp

lemma external_ok: "word_ok (str ''External:'')"
  by code_simp

lemma headings_ok: "word_ok PRIVATE_KEY_STR" "word_ok ALGORITHM_STR"
  by code_simp+

lemma base64_ok: "list_all (\<lambda>c. c \<notin> {0, 0x20, 0x09, 0x0d, 0x0a, 0x5c}) base64"
  by code_simp

lemma find_tag_ok:
  assumes "find_tag v = Some s"
  shows "word_ok s" "find_value s (TAG_ALG v) = Some v" "find_numericdata s = None" "find_timedata s = None" "s \<noteq> str ''External:''"
proof -
  have m: "(v, s) \<in> set parse_map" using assms by (auto simp: find_tag_def find_Some_iff) (metis nth_mem)
  then have "s \<in> set (remdups (map snd parse_map))" by force
  then show "word_ok s" "find_numericdata s = None" "find_timedata s = None" "s \<noteq> str ''External:''" using parse_map_words unfolding list_all_iff by blast+
  have "find (\<lambda>(v', t). TAG_ALG v' = TAG_ALG v \<and> strcaseeq s t) parse_map = Some (v, s)" using parse_map_values m unfolding list_all_iff by blast
  then show "find_value s (TAG_ALG v) = Some v" unfolding find_value_def by (simp add: conj_commute)
qed

lemma alg_text_ok: "word_ok (alg_text alg)"
proof (cases "alg \<in> {5, 7, 8, 10, 13, 14, 15, 16, 17, 18, 19, 20, 21, 157, 161, 162, 163, 164, 165}")
  case True
  have "list_all (\<lambda>a. word_ok (alg_text a)) [5, 7, 8, 10, 13, 14, 15, 16, 17, 18, 19, 20, 21, 157, 161, 162, 163, 164, 165]" by code_simp
  then show ?thesis using True by auto
next
  case False
  then have "alg_text alg = str ''(?)''" by (simp add: alg_text_def alg_defs)
  moreover have "word_ok (str ''(?)'')" by code_simp
  ultimately show ?thesis by simp
qed

section \<open>The text of octets and of numbers\<close>

definition octets_text :: "bytes \<Rightarrow> bytes" where
  "octets_text xs = code_text 3 b64_digits (breaks 4 (int (MAXFIELDSIZE * 2))) [] 0 xs"

lemma b64_digit_in: "i < 64 \<Longrightarrow> b64_digit i \<in> set base64"
  unfolding b64_digit_def by (intro nth_mem) (simp add: base64_table word_less_nat_alt)

lemma b64_digits_in: "set (b64_digits xs) \<subseteq> set base64"
proof -
  have "0x3d \<in> set base64" using nth_mem [of 64 base64] by (simp add: base64_table)
  then show ?thesis by (cases xs; cases "tl xs"; cases "tl (tl xs)") (auto simp: b64_digits1_def b64_digits2_def b64_digits3_def b64_digit_in b64_index)
qed

lemma length_b64_digits: "length (b64_digits xs) \<le> 4"
  by (simp add: b64_digits1_def b64_digits2_def b64_digits3_def split: list.split)

lemma code_text_in: "set (code_text 3 b64_digits brk [] loops xs) \<subseteq> set base64"
proof (induction "length xs" arbitrary: xs loops rule: less_induct)
  case less
  consider "xs = []" | "xs \<noteq> []" "length xs \<le> 3" | "3 < length xs" by linarith
  then show ?case
  proof cases
    case 3
    have "set (code_text 3 b64_digits brk [] l (drop 3 xs)) \<subseteq> set base64" for l using less.hyps [of "drop 3 xs" l] 3 by simp
    then show ?thesis unfolding code_text_simps(3) [OF _ 3, simplified] using b64_digits_in [of "take 3 xs"] by auto
  qed (use b64_digits_in [of xs] in \<open>simp_all add: code_text_simps\<close>)
qed

lemma length_code_text: "3 * length (code_text 3 b64_digits brk [] loops xs) \<le> 4 * (length xs + 2)"
proof (induction "length xs" arbitrary: xs loops rule: less_induct)
  case less
  consider "xs = []" | "xs \<noteq> []" "length xs \<le> 3" | "3 < length xs" by linarith
  then show ?case
  proof cases
    case 2
    then have "Suc 0 \<le> length xs" by (cases xs) auto
    then have "12 \<le> 4 * (length xs + 2)" by simp
    moreover have "3 * length (b64_digits xs) \<le> 12" using length_b64_digits [of xs] by simp
    ultimately show ?thesis unfolding code_text_simps(2) [OF 2] by (rule order_trans [rotated])
  next
    case 3
    have "3 * length (code_text 3 b64_digits brk [] l (drop 3 xs)) \<le> 4 * (length xs - 3 + 2)" for l using less.hyps [of "drop 3 xs" l] 3 by simp
    from this [of 0] this [of "Suc loops"] show ?thesis unfolding code_text_simps(3) [OF _ 3, simplified] using 3 length_b64_digits [of "take 3 xs"] by (auto simp del: length_drop)
  qed (simp add: code_text_simps)
qed

lemma octets_text_plain: "c \<in> set (octets_text xs) \<Longrightarrow> c \<notin> {0, 0x20, 0x09, 0x0d, 0x0a, 0x5c}"
  using code_text_in [of _ 0 xs] base64_ok unfolding octets_text_def list_all_iff by blast

lemma write_buffer_ok: "buf_ok write_buffer" "buf_room write_buffer = 78000" "buf_content write_buffer = []"
proof -
  show "buf_ok write_buffer" unfolding write_buffer_def using buf_ok_init [of "replicate (MAXFIELDSIZE * 2) 0"] by (simp add: MAXFIELDSIZE_def)
  show "buf_room write_buffer = 78000" "buf_content write_buffer = []" by (simp_all add: write_buffer_def buf_room_def buf_content_def isc_buffer_init_def MAXFIELDSIZE_def)
qed

lemma octets_text_written:
  assumes "length xs \<le> MAXFIELDSIZE"
  shows "\<exists>s. isc_base64_totext \<lparr>r_base = xs @ ys, r_length = length xs\<rparr> (int (MAXFIELDSIZE * 2)) [] write_buffer = Some (ISC_R_SUCCESS, s, grown write_buffer (octets_text xs))"
proof -
  have "length (octets_text xs) \<le> 78000" using length_code_text [of "breaks 4 (int (MAXFIELDSIZE * 2))" 0 xs] assms unfolding octets_text_def MAXFIELDSIZE_def by simp
  then show ?thesis using base64_writes [OF write_buffer_ok(1), of "[]" "int (MAXFIELDSIZE * 2)" xs ys 0] write_buffer_ok(2)
    unfolding octets_text_def isc_base64_totext_def writes_def by (auto simp: MAXFIELDSIZE_def)
qed

lemma octets_text_decoded:
  assumes "buf_ok u" "length xs \<le> buf_room u"
  shows "isc_base64_decodestring (octets_text xs @ [0]) u = Some (ISC_R_SUCCESS, grown u xs)"
  using base64.decode_text [OF assms, where wb = "[]" and brk = "breaks 4 (int (MAXFIELDSIZE * 2))" and loops = 0 and ds = "[]"]
  by (auto simp: octets_text_def isc_base64_decodestring_def b64_ready_def b64_finish_def simp del: feed_string.simps)

section \<open>Numbers as text\<close>

lemma digit_value_digit: "isdigit c \<Longrightarrow> digit_value c = Some (unat c - 0x30) \<and> unat c - 0x30 < 10"
  by (auto simp: digit_value_def isdigit_def word_le_nat_alt)

lemma take_digits_number: "list_all isdigit w \<Longrightarrow> take_digits 10 n w = (foldl (\<lambda>n d. n * 10 + (unat d - 0x30)) n w, [])"
  by (induction w arbitrary: n) (auto simp: digit_value_digit)

lemma parse_uint32_digits:
  assumes "list_all isdigit w" "w \<noteq> []" "number w < 2 ^ 32"
  shows "isc_parse_uint32 w 10 = Inr (of_nat (number w))"
proof -
  have "isdigit (hd w)" using assms by (cases w) auto
  then have "digit_value (hd w) \<noteq> None" using digit_value_digit by auto
  moreover have "strtoul w 10 = (number w, [])" using take_digits_number [OF assms(1), of 0] by (simp add: strtoul_def number_def)
  ultimately show ?thesis using assms(2,3) by (simp add: isc_parse_uint32_def)
qed

lemma decimal_props: "list_all isdigit (decimal n)" "decimal n \<noteq> []" "number (decimal n) = n"
proof -
  have "list_all isdigit (decimal n) \<and> decimal n \<noteq> [] \<and> number (decimal n) = n"
  proof (induction n rule: decimal.induct)
    case (1 n)
    show ?case
    proof (cases "n < 10")
      case True
      then have "unat (0x30 + of_nat n :: u8) = 0x30 + n" using digit_octet_value [of n] by simp
      then show ?thesis using True by (simp add: decimal.simps [of n] isdigit_def word_le_nat_alt)
    next
      case False
      have "unat (0x30 + of_nat (n mod 10) :: u8) = 0x30 + n mod 10" using digit_octet_value [of n] by simp
      then show ?thesis using False 1 by (simp add: decimal.simps [of n] isdigit_def word_le_nat_alt)
    qed
  qed
  then show "list_all isdigit (decimal n)" "decimal n \<noteq> []" "number (decimal n) = n" by simp_all
qed

lemma number_read: "isc_parse_uint32 (decimal (unat v)) 10 = Inr v"
proof -
  have "unat v < 2 ^ LENGTH(32)" by (rule unsigned_less)
  then have "unat v < 2 ^ 32" by simp
  then show ?thesis using parse_uint32_digits [OF decimal_props(1,2), of "unat v"] by (simp add: decimal_props)
qed

section \<open>The tokens of a file\<close>

text \<open>What is left of a private key file: no comments, no special characters, and after it the file ends, or the reading fails.\<close>

definition file_rest :: "isc_result option \<Rightarrow> isc_lex \<Rightarrow> bytes \<Rightarrow> bool" where
  "file_rest en lx t \<longleftrightarrow> ready lx [] t \<and> lx_specials lx = (\<lambda>c. False) \<and> lx_comments lx = 0 \<and> lx_paren_count lx = 0 \<and> ends lx = [en]"

lemma file_rest_follows: "file_rest en lx t \<Longrightarrow> follows lx lx' \<Longrightarrow> ready lx' [] t' \<Longrightarrow> file_rest en lx' t'"
  by (simp add: file_rest_def follows_def same_conf_def)

lemma file_lexer_left: "length cs < 2 ^ 31 \<Longrightarrow> file_rest None (file_lexer 1500 0 cs) cs"
  using file_lexer_ready [of 1500 cs 0] by (simp add: file_rest_def ends_def) (simp add: file_lexer_def)

lemma no_comment_char [simp]: "\<not> comment_char 0 c"
  by (simp add: comment_char_def wants_def)

lemma field_options [simp]:
  "wants ISC_LEXOPT_EOL ISC_LEXOPT_EOL" "\<not> wants ISC_LEXOPT_EOL ISC_LEXOPT_INITIALWS" "\<not> wants ISC_LEXOPT_EOL ISC_LEXOPT_QSTRING" "\<not> wants ISC_LEXOPT_EOL ISC_LEXOPT_NUMBER"
  "\<not> wants ISC_LEXOPT_EOL ISC_LEXOPT_ESCAPE" "\<not> wants ISC_LEXOPT_EOL ISC_LEXOPT_VPAIR" "\<not> wants ISC_LEXOPT_EOL ISC_LEXOPT_EOF" "\<not> wants ISC_LEXOPT_EOL ISC_LEXOPT_DNSMULTILINE"
  "\<not> wants ISC_LEXOPT_EOL ISC_LEXOPT_BTEXT"
  "wants (ISC_LEXOPT_EOL OR ISC_LEXOPT_NUMBER) ISC_LEXOPT_NUMBER" "\<not> wants (ISC_LEXOPT_EOL OR ISC_LEXOPT_NUMBER) ISC_LEXOPT_INITIALWS"
  "\<not> wants (ISC_LEXOPT_EOL OR ISC_LEXOPT_NUMBER) ISC_LEXOPT_OCTAL" "\<not> wants (ISC_LEXOPT_EOL OR ISC_LEXOPT_NUMBER) ISC_LEXOPT_CNUMBER"
  "\<not> wants (ISC_LEXOPT_EOL OR ISC_LEXOPT_NUMBER) ISC_LEXOPT_DNSMULTILINE"
  by (simp_all add: wants_def ISC_LEXOPT_EOL_def ISC_LEXOPT_INITIALWS_def ISC_LEXOPT_QSTRING_def ISC_LEXOPT_NUMBER_def ISC_LEXOPT_ESCAPE_def ISC_LEXOPT_VPAIR_def ISC_LEXOPT_EOF_def
      ISC_LEXOPT_DNSMULTILINE_def ISC_LEXOPT_BTEXT_def ISC_LEXOPT_OCTAL_def ISC_LEXOPT_CNUMBER_def)

lemma word_token:
  assumes "file_rest en lx (ws @ w @ d # rest)" "\<forall>x\<in>set ws. gap x" "word_ok w" "gap d \<or> d = 0x0a"
  shows "\<exists>lx'. isc_lex_gettoken lx ISC_LEXOPT_EOL = Some (ISC_R_SUCCESS, Some \<lparr>tk_type = isc_tokentype_string, tk_value = As_textregion w\<rparr>, lx') \<and> file_rest en lx' (d # rest)"
proof -
  have l: "ready lx [] (ws @ w @ d # rest)" "lx_specials lx = (\<lambda>c. False)" "lx_comments lx = 0" using assms(1) by (simp_all add: file_rest_def)
  have w: "w \<noteq> []" "\<forall>x\<in>set w. plain_char lx ISC_LEXOPT_EOL x" using assms(3) l(2,3) by (auto simp: word_ok_def plain_char_def list_all_iff)
  have d: "delimiter lx d" using assms(4) l(2,3) by (auto simp: delimiter_def gap_def)
  from gettoken_word_ready [OF l(1) _ w d] assms(2) obtain lx'
    where g: "isc_lex_gettoken lx ISC_LEXOPT_EOL = Some (ISC_R_SUCCESS, Some \<lparr>tk_type = isc_tokentype_string, tk_value = As_textregion w\<rparr>, lx')" "ready lx' [] (d # rest)" "same_conf lx lx'"
    by (auto simp: gap_def)
  then show ?thesis using file_rest_follows [OF assms(1) gettoken_follows [OF l(1) g(1,3)] g(2)] by blast
qed

lemma number_token:
  assumes "file_rest en lx (ws @ decimal (unat v) @ d # rest)" "\<forall>x\<in>set ws. gap x" "gap d \<or> d = 0x0a"
  shows "\<exists>lx'. isc_lex_gettoken lx (ISC_LEXOPT_EOL OR ISC_LEXOPT_NUMBER) = Some (ISC_R_SUCCESS, Some \<lparr>tk_type = isc_tokentype_number, tk_value = As_ulong v\<rparr>, lx') \<and> file_rest en lx' (d # rest)"
proof -
  have l: "ready lx [] (ws @ decimal (unat v) @ d # rest)" "lx_specials lx = (\<lambda>c. False)" "lx_comments lx = 0" using assms(1) by (simp_all add: file_rest_def)
  have d: "delimiter lx d" "\<not> isdigit d" using assms(3) l(2,3) by (auto simp: delimiter_def gap_def isdigit_def)
  from gettoken_number_ready [OF l(1) _ decimal_props(2,1) _ d number_read, of "ISC_LEXOPT_EOL OR ISC_LEXOPT_NUMBER"] assms(2) l(2) obtain lx'
    where g: "isc_lex_gettoken lx (ISC_LEXOPT_EOL OR ISC_LEXOPT_NUMBER) = Some (ISC_R_SUCCESS, Some \<lparr>tk_type = isc_tokentype_number, tk_value = As_ulong v\<rparr>, lx')" "ready lx' [] (d # rest)"
      "same_conf lx lx'" by (auto simp: gap_def)
  then show ?thesis using file_rest_follows [OF assms(1) gettoken_follows [OF l(1) g(1,3)] g(2)] by blast
qed

lemma eol_token:
  assumes "file_rest en lx (ws @ 0x0a # rest)" "\<forall>x\<in>set ws. gap x"
  shows "\<exists>lx'. isc_lex_gettoken lx ISC_LEXOPT_EOL = Some (ISC_R_SUCCESS, Some (plain_token isc_tokentype_eol), lx') \<and> file_rest en lx' rest"
proof -
  have l: "ready lx [] (ws @ 0x0a # rest)" "lx_paren_count lx = 0" using assms(1) by (simp_all add: file_rest_def)
  from gettoken_eol_ready [OF l(1), of ISC_LEXOPT_EOL] assms(2) l(2) obtain lx'
    where g: "isc_lex_gettoken lx ISC_LEXOPT_EOL = Some (ISC_R_SUCCESS, Some (plain_token isc_tokentype_eol), lx')" "ready lx' [] rest" "same_conf lx lx'" by (auto simp: gap_def)
  then show ?thesis using file_rest_follows [OF assms(1) gettoken_follows [OF l(1) g(1,3)] g(2)] by blast
qed

lemma eof_token: "file_rest None lx [] \<Longrightarrow> \<exists>lx'. isc_lex_gettoken lx ISC_LEXOPT_EOL = Some (ISC_R_EOF, None, lx')"
  unfolding file_rest_def using gettoken_eof_ready [of lx "[]" "[]" ISC_LEXOPT_EOL] by simp

lemma word_text: "word_ok w \<Longrightarrow> DST_AS_STR \<lparr>tk_type = ty, tk_value = As_textregion w\<rparr> = w"
  by (auto simp: DST_AS_STR_def word_ok_def list_all_iff takeWhile_eq_all_conv)

section \<open>Steps of the reader\<close>

lemma next_word:
  assumes "file_rest en (pf_lex st) (ws @ w @ d # rest)" "\<forall>x\<in>set ws. gap x" "word_ok w" "gap d \<or> d = 0x0a"
  shows "\<exists>lx tk. NEXTTOKEN ISC_LEXOPT_EOL st = Some (Inr tk, st\<lparr>pf_lex := lx\<rparr>) \<and> tk_type tk = isc_tokentype_string \<and> DST_AS_STR tk = w \<and> file_rest en lx (d # rest)"
  using word_token [OF assms] word_text [OF assms(3)] by (auto simp: NEXTTOKEN_def)

lemma next_number:
  assumes "file_rest en (pf_lex st) (ws @ decimal (unat v) @ d # rest)" "\<forall>x\<in>set ws. gap x" "gap d \<or> d = 0x0a"
  shows "\<exists>lx tk. NEXTTOKEN (ISC_LEXOPT_EOL OR ISC_LEXOPT_NUMBER) st = Some (Inr tk, st\<lparr>pf_lex := lx\<rparr>) \<and> tk_type tk = isc_tokentype_number \<and> tk_value tk = As_ulong v \<and> file_rest en lx (d # rest)"
  using number_token [OF assms] by (auto simp: NEXTTOKEN_def)

lemma word_fuel_Suc: "\<exists>f. word_fuel lx = Suc (Suc f)"
  by (simp add: word_fuel_def split: list.split)

lemma readline_end:
  assumes "file_rest en (pf_lex st) (ws @ 0x0a # rest)" "\<forall>x\<in>set ws. gap x"
  shows "\<exists>lx. READLINE ISC_LEXOPT_EOL st = Some (Inr (), st\<lparr>pf_lex := lx\<rparr>) \<and> file_rest en lx rest"
  using eol_token [OF assms] word_fuel_Suc [of "pf_lex st"] by (auto simp: READLINE_def plain_token_def)

lemma readline_word:
  assumes "file_rest en (pf_lex st) (ws @ w @ 0x0a # rest)" "\<forall>x\<in>set ws. gap x" "word_ok w"
  shows "\<exists>lx. READLINE ISC_LEXOPT_EOL st = Some (Inr (), st\<lparr>pf_lex := lx\<rparr>) \<and> file_rest en lx rest"
proof -
  obtain f where f: "word_fuel (pf_lex st) = Suc (Suc f)" using word_fuel_Suc by blast
  obtain lx1 where 1: "isc_lex_gettoken (pf_lex st) ISC_LEXOPT_EOL = Some (ISC_R_SUCCESS, Some \<lparr>tk_type = isc_tokentype_string, tk_value = As_textregion w\<rparr>, lx1)" "file_rest en lx1 (0x0a # rest)"
    using word_token [OF assms(1-3)] by blast
  obtain lx2 where 2: "isc_lex_gettoken lx1 ISC_LEXOPT_EOL = Some (ISC_R_SUCCESS, Some (plain_token isc_tokentype_eol), lx2)" "file_rest en lx2 rest"
    using eol_token [of en lx1 "[]" rest] 1(2) by auto
  show ?thesis using f 1 2 by (auto simp: READLINE_def plain_token_def)
qed

lemma field_word:
  assumes "file_rest en (pf_lex st) (w @ d # rest)" "word_ok w" "gap d \<or> d = 0x0a"
  shows "\<exists>lx tk. next_field (word_fuel (pf_lex st)) ISC_LEXOPT_EOL st = Some (Inr (Some tk), st\<lparr>pf_lex := lx\<rparr>) \<and> tk_type tk = isc_tokentype_string \<and> DST_AS_STR tk = w \<and> file_rest en lx (d # rest)"
  using word_token [of en "pf_lex st" "[]" w d rest] assms word_text [OF assms(2)] word_fuel_Suc [of "pf_lex st"] by auto

lemma field_end: "file_rest None (pf_lex st) [] \<Longrightarrow> \<exists>lx. next_field (word_fuel (pf_lex st)) ISC_LEXOPT_EOL st = Some (Inr None, st\<lparr>pf_lex := lx\<rparr>)"
  using eof_token [of "pf_lex st"] word_fuel_Suc [of "pf_lex st"] by auto

lemma base64_read:
  assumes "file_rest en (pf_lex st) (0x20 # octets_text xs @ 0x0a # rest)" "length xs \<le> MAXFIELDSIZE"
  shows "\<exists>lx ws. read_base64 st = Some (Inr xs, st\<lparr>pf_lex := lx\<rparr>) \<and> file_rest en lx (ws @ 0x0a # rest) \<and> (\<forall>x\<in>set ws. gap x)"
proof -
  let ?u = "isc_buffer_init (replicate MAXFIELDSIZE 0) MAXFIELDSIZE" and ?line = "0x20 # octets_text xs"
  have u: "buf_ok ?u" "buf_room ?u = MAXFIELDSIZE" "buf_content ?u = []" using buf_ok_init [of "replicate MAXFIELDSIZE 0"]
    by (simp_all add: MAXFIELDSIZE_def isc_buffer_init_def buf_room_def buf_content_def)
  have l: "ready (pf_lex st) [] (?line @ 0x0a # rest)" "lx_specials (pf_lex st) = (\<lambda>c. False)" "lx_comments (pf_lex st) = 0" "lx_paren_count (pf_lex st) = 0"
    using assms(1) by (simp_all add: file_rest_def)
  have p: "\<forall>x\<in>set ?line. gap x \<or> plain_char (pf_lex st) MASTER_OPTIONS x" using l(2,3) octets_text_plain [of _ xs] by (auto simp: gap_def plain_char_def)
  have z: "0 \<notin> set ?line" using octets_text_plain [of 0 xs] by auto
  have "isc_base64_decodestring (?line @ [0]) ?u = isc_base64_decodestring (octets_text xs @ [0]) ?u"
    by (simp add: isc_base64_decodestring_def is_blank_def)
  also have "\<dots> = Some (ISC_R_SUCCESS, grown ?u xs)" using octets_text_decoded [OF u(1)] assms(2) u(2) by simp
  finally obtain lx where b: "isc_base64_tobuffer (pf_lex st) ?u (-1) = Some (ISC_R_SUCCESS, grown ?u xs, lx)" "line_left (pf_lex st) lx [] rest"
    using base64_tobuffer_line [OF l(1) p z l(4)] by blast
  then obtain ws where w: "follows (pf_lex st) lx" "\<forall>x\<in>set ws. gap x" "ready lx [] (ws @ 0x0a # rest)" by (auto simp: line_left_def)
  have "buf_content (grown ?u xs) = xs" using grown_content [OF u(1), of xs] assms(2) u(2,3) by simp
  then show ?thesis using b(1) w file_rest_follows [OF assms(1) w(1,3)] by (auto simp: read_base64_def)
qed

section \<open>The fields of a file\<close>

datatype field = Element int bytes | External | Numeric nat u32 | Timing nat u32

text \<open>A line that spells a field.\<close>

fun spells_field :: "int \<Rightarrow> field \<Rightarrow> bytes \<Rightarrow> bool" where
  "spells_field alg (Element tag xs) line \<longleftrightarrow>
     TAG_ALG tag = alg \<and> length xs \<le> MAXFIELDSIZE \<and> (\<exists>s. find_tag tag = Some s \<and> line = s @ 0x20 # octets_text xs @ [0x0a])"
| "spells_field alg External line \<longleftrightarrow> line = str ''External:'' @ [0x0a]"
| "spells_field alg (Numeric i v) line \<longleftrightarrow> i < 4 \<and> line = numerictags ! i @ 0x20 # decimal (unat v) @ [0x0a]"
| "spells_field alg (Timing i v) line \<longleftrightarrow>
     i < 9 \<and> (\<exists>cs. length cs = 14 \<and> list_all isdigit cs \<and> dns_time32_fromtext (cs @ [0]) = Inr v \<and> line = timetags ! i @ 0x20 # cs @ [0x0a])"

text \<open>What reading it does, apart from the lexer.\<close>

fun taken :: "nat \<Rightarrow> field \<Rightarrow> pfile \<Rightarrow> pfile" where
  "taken n (Element tag xs) st =
     st\<lparr>pf_priv := \<lparr>pr_nelements = pr_nelements (pf_priv st) + 1, pr_elements = (pr_elements (pf_priv st))[n := \<lparr>pe_tag = tag, pe_length = length xs, pe_data = Some (pf_next st, xs)\<rparr>]\<rparr>,
       pf_blocks := insert (pf_next st) (pf_blocks st), pf_next := pf_next st + 1\<rparr>"
| "taken n External st = st\<lparr>pf_external := True\<rparr>"
| "taken n (Numeric i v) st = st\<lparr>pf_key := dst_key_setnum (dst_nums ! i) v (pf_key st)\<rparr>"
| "taken n (Timing i v) st = st\<lparr>pf_key := dst_key_settime (dst_times ! i) v (pf_key st)\<rparr>"

fun taken_all :: "nat \<Rightarrow> field list \<Rightarrow> pfile \<Rightarrow> pfile" where
  "taken_all n [] st = st"
| "taken_all n (f # fs) st = taken_all (n + 1) fs (taken n f st)"

lemma taken_lex [simp]: "taken n f (st\<lparr>pf_lex := lx\<rparr>) = (taken n f st)\<lparr>pf_lex := lx\<rparr>" "pf_lex (taken n f st) = pf_lex st" "pf_data (taken n f st) = pf_data st"
  "length (pr_elements (pf_priv (taken n f st))) = length (pr_elements (pf_priv st))"
  by (cases f; simp)+

lemma taken_all_lex: "taken_all n fs (st\<lparr>pf_lex := lx\<rparr>) = (taken_all n fs st)\<lparr>pf_lex := lx\<rparr>"
  by (induction fs arbitrary: n st) auto

lemma filled [simp]:
  "e\<lparr>pe_tag := t, pe_length := l, pe_data := d\<rparr> = \<lparr>pe_tag = t, pe_length = l, pe_data = d\<rparr>" "p\<lparr>pr_elements := es, pr_nelements := k\<rparr> = \<lparr>pr_nelements = k, pr_elements = es\<rparr>"
  by simp_all

lemma element_read:
  assumes "file_rest en (pf_lex st) (0x20 # octets_text xs @ 0x0a # rest)" "length xs \<le> MAXFIELDSIZE" "n < length (pr_elements (pf_priv st))"
  shows "\<exists>lx ws. parse_element n tag st = Some (Inr (), (taken n (Element tag xs) st)\<lparr>pf_lex := lx, pf_data := Some (pf_next st)\<rparr>) \<and> file_rest en lx (ws @ 0x0a # rest) \<and> (\<forall>x\<in>set ws. gap x)"
proof -
  let ?e = "(pr_elements (pf_priv st) ! n)\<lparr>pe_tag := tag\<rparr>"
  let ?st = "st\<lparr>pf_priv := (pf_priv st)\<lparr>pr_elements := (pr_elements (pf_priv st))[n := ?e]\<rparr>, pf_blocks := insert (pf_next st) (pf_blocks st), pf_next := pf_next st + 1, pf_data := Some (pf_next st)\<rparr>"
  obtain lx ws where b: "read_base64 ?st = Some (Inr xs, ?st\<lparr>pf_lex := lx\<rparr>)" "file_rest en lx (ws @ 0x0a # rest)" "\<forall>x\<in>set ws. gap x"
    using base64_read [of en ?st xs rest] assms(1,2) by auto
  have "parse_element n tag st = Some (Inr (), (taken n (Element tag xs) st)\<lparr>pf_lex := lx, pf_data := Some (pf_next st)\<rparr>)"
    using b(1) assms(3) by (simp add: parse_element_def set_element_def continue_def isc_mem_get_def)
  then show ?thesis using b by blast
qed

text \<open>A whole line.\<close>

definition one_field :: "int \<Rightarrow> nat \<Rightarrow> int \<Rightarrow> isc_token \<Rightarrow> unit reader" where
  "one_field alg n minor tk = continue (parse_field alg n minor tk) (\<lambda>_. continue (READLINE ISC_LEXOPT_EOL) (\<lambda>_. modify (\<lambda>st. st\<lparr>pf_data := None\<rparr>)))"

lemma no_data [simp]: "pf_data st = None \<Longrightarrow> st\<lparr>pf_data := None\<rparr> = st"
  by (cases st) simp

definition line_taken :: "isc_result option \<Rightarrow> int \<Rightarrow> nat \<Rightarrow> int \<Rightarrow> field \<Rightarrow> pfile \<Rightarrow> bytes \<Rightarrow> bool" where
  "line_taken en alg n minor f st rest \<longleftrightarrow> (\<exists>tk st1 lx. next_field (word_fuel (pf_lex st)) ISC_LEXOPT_EOL st = Some (Inr (Some tk), st1) \<and>
     one_field alg n minor tk st1 = Some (Inr (), (taken n f st)\<lparr>pf_lex := lx\<rparr>) \<and> file_rest en lx rest)"

lemma line_takenI:
  assumes "next_field (word_fuel (pf_lex st)) ISC_LEXOPT_EOL st = Some (Inr (Some tk), st0)" "parse_field alg n minor tk st0 = Some (Inr (), st1)"
    "st1\<lparr>pf_data := None\<rparr> = (taken n f st)\<lparr>pf_lex := pf_lex st1\<rparr>" "file_rest en (pf_lex st1) (ws @ 0x0a # rest)" "\<forall>x\<in>set ws. gap x"
  shows "line_taken en alg n minor f st rest"
proof -
  obtain lx where r: "READLINE ISC_LEXOPT_EOL st1 = Some (Inr (), st1\<lparr>pf_lex := lx\<rparr>)" "file_rest en lx rest" using readline_end [OF assms(4,5)] by blast
  have "st1\<lparr>pf_lex := lx, pf_data := None\<rparr> = (st1\<lparr>pf_data := None\<rparr>)\<lparr>pf_lex := lx\<rparr>" by simp
  then have "st1\<lparr>pf_lex := lx, pf_data := None\<rparr> = (taken n f st)\<lparr>pf_lex := lx\<rparr>" unfolding assms(3) by simp
  then show ?thesis using assms(1,2) r by (auto simp: line_taken_def one_field_def continue_def)
qed

lemma element_line:
  assumes "spells_field alg (Element tag xs) line" "file_rest en (pf_lex st) (line @ rest)" "n < length (pr_elements (pf_priv st))" "pf_data st = None"
  shows "line_taken en alg n minor (Element tag xs) st rest"
proof -
  obtain s where s: "find_tag tag = Some s" "line = s @ 0x20 # octets_text xs @ [0x0a]" "TAG_ALG tag = alg" "length xs \<le> MAXFIELDSIZE" using assms(1) by auto
  obtain lx tk where 1: "next_field (word_fuel (pf_lex st)) ISC_LEXOPT_EOL st = Some (Inr (Some tk), st\<lparr>pf_lex := lx\<rparr>)" "tk_type tk = isc_tokentype_string" "DST_AS_STR tk = s"
    "file_rest en lx (0x20 # octets_text xs @ 0x0a # rest)" using field_word [of en st s "0x20" "octets_text xs @ 0x0a # rest"] assms(2) s(2) find_tag_ok(1) [OF s(1)] by (auto simp: gap_def)
  obtain lx2 ws where 2: "parse_element n tag (st\<lparr>pf_lex := lx\<rparr>) = Some (Inr (), (taken n (Element tag xs) (st\<lparr>pf_lex := lx\<rparr>))\<lparr>pf_lex := lx2, pf_data := Some (pf_next st)\<rparr>)"
    "file_rest en lx2 (ws @ 0x0a # rest)" "\<forall>x\<in>set ws. gap x" using element_read [of en "st\<lparr>pf_lex := lx\<rparr>" xs rest n tag] 1(4) s(4) assms(3) by auto
  have "parse_field alg n minor tk (st\<lparr>pf_lex := lx\<rparr>) = Some (Inr (), (taken n (Element tag xs) (st\<lparr>pf_lex := lx\<rparr>))\<lparr>pf_lex := lx2, pf_data := Some (pf_next st)\<rparr>)"
    unfolding parse_field_def using 1(2,3) 2(1) find_tag_ok [OF s(1)] s(3) by simp
  then show ?thesis by (rule line_takenI [OF 1(1) _ _ _ 2(3)]) (use 2(2) assms(4) no_data [of "(taken n (Element tag xs) st)\<lparr>pf_lex := lx2\<rparr>"] in simp_all)
qed

lemma external_line:
  assumes "spells_field alg External line" "file_rest en (pf_lex st) (line @ rest)" "pf_data st = None"
  shows "line_taken en alg n minor External st rest"
proof -
  obtain lx tk where 1: "next_field (word_fuel (pf_lex st)) ISC_LEXOPT_EOL st = Some (Inr (Some tk), st\<lparr>pf_lex := lx\<rparr>)" "tk_type tk = isc_tokentype_string" "DST_AS_STR tk = str ''External:''"
    "file_rest en lx (0x0a # rest)" using field_word [of en st "str ''External:''" "0x0a" rest] assms(1,2) external_ok by auto
  have "parse_field alg n minor tk (st\<lparr>pf_lex := lx\<rparr>) = Some (Inr (), (taken n External st)\<lparr>pf_lex := lx\<rparr>)" using 1(2,3) by (simp add: parse_field_def)
  then show ?thesis by (rule line_takenI [OF 1(1), where ws = "[]"]) (use 1(4) assms(3) in simp_all)
qed

lemma numeric_line:
  assumes "spells_field alg (Numeric i v) line" "file_rest en (pf_lex st) (line @ rest)" "pf_data st = None"
  shows "line_taken en alg n minor (Numeric i v) st rest"
proof -
  have i: "word_ok (numerictags ! i)" "find_numericdata (numerictags ! i) = Some i" "numerictags ! i \<noteq> str ''External:''" "line = numerictags ! i @ 0x20 # decimal (unat v) @ [0x0a]"
    using assms(1) numerictags_ok unfolding list_all_iff by auto
  obtain lx tk where 1: "next_field (word_fuel (pf_lex st)) ISC_LEXOPT_EOL st = Some (Inr (Some tk), st\<lparr>pf_lex := lx\<rparr>)" "tk_type tk = isc_tokentype_string" "DST_AS_STR tk = numerictags ! i"
    "file_rest en lx ([0x20] @ decimal (unat v) @ 0x0a # rest)" using field_word [of en st "numerictags ! i" "0x20" "decimal (unat v) @ 0x0a # rest"] assms(2) i(1,4) by (auto simp: gap_def)
  obtain lx2 tk2 where 2: "NEXTTOKEN (ISC_LEXOPT_EOL OR ISC_LEXOPT_NUMBER) (st\<lparr>pf_lex := lx\<rparr>) = Some (Inr tk2, st\<lparr>pf_lex := lx2\<rparr>)" "tk_type tk2 = isc_tokentype_number" "tk_value tk2 = As_ulong v"
    "file_rest en lx2 (0x0a # rest)" using next_number [of en "st\<lparr>pf_lex := lx\<rparr>" "[0x20]" v "0x0a" rest] 1(4) by (auto simp: gap_def)
  have "parse_field alg n minor tk (st\<lparr>pf_lex := lx\<rparr>) = Some (Inr (), (taken n (Numeric i v) st)\<lparr>pf_lex := lx2\<rparr>)" unfolding parse_field_def using 1(2,3) 2(1-3) i(2,3) by simp
  then show ?thesis by (rule line_takenI [OF 1(1), where ws = "[]"]) (use 2(4) assms(3) in simp_all)
qed

lemma timing_line:
  assumes "spells_field alg (Timing i v) line" "file_rest en (pf_lex st) (line @ rest)" "pf_data st = None"
  shows "line_taken en alg n minor (Timing i v) st rest"
proof -
  have i: "word_ok (timetags ! i)" "find_numericdata (timetags ! i) = None" "find_timedata (timetags ! i) = Some i" "timetags ! i \<noteq> str ''External:''"
    using assms(1) timetags_ok unfolding list_all_iff by auto
  obtain cs where c: "length cs = 14" "list_all isdigit cs" "dns_time32_fromtext (cs @ [0]) = Inr v" "line = timetags ! i @ 0x20 # cs @ [0x0a]" using assms(1) by auto
  have "word_ok cs" using c(1,2) unfolding word_ok_def list_all_iff by (auto simp: isdigit_def)
  obtain lx tk where 1: "next_field (word_fuel (pf_lex st)) ISC_LEXOPT_EOL st = Some (Inr (Some tk), st\<lparr>pf_lex := lx\<rparr>)" "tk_type tk = isc_tokentype_string" "DST_AS_STR tk = timetags ! i"
    "file_rest en lx ([0x20] @ cs @ 0x0a # rest)" using field_word [of en st "timetags ! i" "0x20" "cs @ 0x0a # rest"] assms(2) i(1) c(4) by (auto simp: gap_def)
  obtain lx2 tk2 where 2: "NEXTTOKEN ISC_LEXOPT_EOL (st\<lparr>pf_lex := lx\<rparr>) = Some (Inr tk2, st\<lparr>pf_lex := lx2\<rparr>)" "tk_type tk2 = isc_tokentype_string" "DST_AS_STR tk2 = cs"
    "file_rest en lx2 (0x0a # rest)" using next_word [of en "st\<lparr>pf_lex := lx\<rparr>" "[0x20]" cs "0x0a" rest] 1(4) \<open>word_ok cs\<close> by (auto simp: gap_def)
  have "parse_field alg n minor tk (st\<lparr>pf_lex := lx\<rparr>) = Some (Inr (), (taken n (Timing i v) st)\<lparr>pf_lex := lx2\<rparr>)" unfolding parse_field_def using 1(2,3) 2(1-3) i(2-4) c(3) by simp
  then show ?thesis by (rule line_takenI [OF 1(1), where ws = "[]"]) (use 2(4) assms(3) in simp_all)
qed

lemma line_read:
  assumes "spells_field alg f line" "file_rest en (pf_lex st) (line @ rest)" "n < length (pr_elements (pf_priv st))" "pf_data st = None"
  shows "line_taken en alg n minor f st rest"
  using assms by (cases f) (simp_all only: element_line external_line numeric_line timing_line)

text \<open>The loop reads as many lines as it has rounds.\<close>

lemma lines_read:
  assumes "list_all2 (spells_field alg) fs ls" "file_rest None (pf_lex st) (concat ls)" "n + k \<le> length (pr_elements (pf_priv st))" "pf_data st = None"
  shows "\<exists>lx. parse_fields k alg n minor st = Some (Inr (), (taken_all n (take k fs) st)\<lparr>pf_lex := lx\<rparr>)"
  using assms
proof (induction k arbitrary: n fs ls st)
  case 0
  then show ?case by (intro exI [of _ "pf_lex st"]) simp
next
  case (Suc k)
  show ?case
  proof (cases fs)
    case Nil
    then obtain lx where "next_field (word_fuel (pf_lex st)) ISC_LEXOPT_EOL st = Some (Inr None, st\<lparr>pf_lex := lx\<rparr>)" using field_end [of st] Suc.prems(1,2) by auto
    then show ?thesis using Nil by (auto simp: continue_def)
  next
    case (Cons f fs')
    then obtain l ls' where ls: "ls = l # ls'" "spells_field alg f l" "list_all2 (spells_field alg) fs' ls'" using Suc.prems(1) by (auto simp: list_all2_Cons1)
    have "line_taken None alg n minor f st (concat ls')" using line_read [OF ls(2)] Suc.prems(2-4) ls(1) by simp
    then obtain tk st1 lx where t: "next_field (word_fuel (pf_lex st)) ISC_LEXOPT_EOL st = Some (Inr (Some tk), st1)" "one_field alg n minor tk st1 = Some (Inr (), (taken n f st)\<lparr>pf_lex := lx\<rparr>)"
      "file_rest None lx (concat ls')" by (auto simp: line_taken_def)
    have step: "parse_fields (Suc k) alg n minor st = parse_fields k alg (n + 1) minor ((taken n f st)\<lparr>pf_lex := lx\<rparr>)"
      using t(1,2) by (auto simp: one_field_def continue_def split: option.splits sum.splits prod.splits)
    obtain lx' where "parse_fields k alg (n + 1) minor ((taken n f st)\<lparr>pf_lex := lx\<rparr>) = Some (Inr (), (taken_all (n + 1) (take k fs') ((taken n f st)\<lparr>pf_lex := lx\<rparr>))\<lparr>pf_lex := lx'\<rparr>)"
      using Suc.IH [OF ls(3), of "(taken n f st)\<lparr>pf_lex := lx\<rparr>" "n + 1"] t(3) Suc.prems(3,4) by auto
    then show ?thesis unfolding step Cons by (auto simp: taken_all_lex)
  qed
qed

end
