(* ===== verification/PrivRound.thy ===== *)
theory PrivRound
  imports PrivFile
begin

text \<open>
  Private key files, written and read back: the fields that \<^verbatim>\<open>dst__privstruct_writefile\<close> prints for a key, what \<^verbatim>\<open>dst__privstruct_parse\<close> makes of them, the fields it does
  not come to, and what it does when the file cannot be read to its end.
\<close>

section \<open>What is written\<close>

text \<open>The fields of a key: its elements, whether it is external, its numbers and its times.\<close>

definition element_value :: "dst_private_element \<Rightarrow> bytes" where
  "element_value e = take (pe_length e) (element_octets e)"

definition element_fields :: "dst_private_element list \<Rightarrow> field list" where
  "element_fields es = map (\<lambda>e. Element (pe_tag e) (element_value e)) es"

definition numeric_field :: "dst_key \<Rightarrow> nat \<Rightarrow> field list" where
  "numeric_field key i = (if i < 4 then case dst_key_getnum key (dst_nums ! i) of None \<Rightarrow> [] | Some v \<Rightarrow> [Numeric i v] else [])"

definition timing_field :: "dst_key \<Rightarrow> nat \<Rightarrow> field list" where
  "timing_field key i = (if i < 9 then case dst_key_gettime key (dst_times ! i) of None \<Rightarrow> [] | Some v \<Rightarrow> [Timing i v] else [])"

definition metadata_fields :: "dst_key \<Rightarrow> field list" where
  "metadata_fields key = concat (map (numeric_field key) [0..<NUMERIC_NTAGS]) @ concat (map (timing_field key) [0..<TIMING_NTAGS])"

definition key_fields :: "dst_key \<Rightarrow> bool \<Rightarrow> dst_private \<Rightarrow> field list" where
  "key_fields key external priv =
     element_fields (take (pr_nelements priv) (pr_elements priv)) @ (if external then [External] else []) @
     (if fst (written_version key) = 1 \<and> snd (written_version key) \<ge> 3 then metadata_fields key else [])"

text \<open>An element that can be written: its tag has a name, and its data fits a block.\<close>

definition element_ok :: "int \<Rightarrow> dst_private_element \<Rightarrow> bool" where
  "element_ok alg e \<longleftrightarrow> find_tag (pe_tag e) \<noteq> None \<and> TAG_ALG (pe_tag e) = alg \<and> pe_length e \<le> length (element_octets e) \<and> pe_length e \<le> MAXFIELDSIZE"

lemma elements_written:
  "list_all (element_ok alg) es \<Longrightarrow> \<exists>ls. write_elements es = Some (Inr (concat ls)) \<and> list_all2 (spells_field alg) (element_fields es) ls"
proof (induction es)
  case Nil
  then show ?case by (simp add: element_fields_def)
next
  case (Cons e es)
  then obtain ls where ls: "write_elements es = Some (Inr (concat ls))" "list_all2 (spells_field alg) (element_fields es) ls" by auto
  have e: "element_ok alg e" using Cons.prems by simp
  then obtain s where s: "find_tag (pe_tag e) = Some s" by (auto simp: element_ok_def)
  have l: "length (element_value e) = pe_length e" "element_octets e = element_value e @ drop (pe_length e) (element_octets e)" using e by (simp_all add: element_ok_def element_value_def)
  have m: "length (element_value e) \<le> MAXFIELDSIZE" using e l(1) by (simp add: element_ok_def)
  obtain r where r: "isc_base64_totext \<lparr>r_base = element_octets e, r_length = pe_length e\<rparr> (int (MAXFIELDSIZE * 2)) [] write_buffer = Some (ISC_R_SUCCESS, r, grown write_buffer (octets_text (element_value e)))"
    using octets_text_written [OF m, of "drop (pe_length e) (element_octets e)"] l by metis
  have "length (octets_text (element_value e)) \<le> buf_room write_buffer"
    using length_code_text [of "breaks 4 (int (MAXFIELDSIZE * 2))" 0 "element_value e"] m write_buffer_ok(2) unfolding octets_text_def by (simp add: MAXFIELDSIZE_def)
  then have c: "buf_content (grown write_buffer (octets_text (element_value e))) = octets_text (element_value e)" using write_buffer_ok by simp
  let ?l = "s @ 0x20 # octets_text (element_value e) @ [0x0a]"
  have "write_elements (e # es) = Some (Inr (concat (?l # ls)))" using s r c ls(1) by simp
  moreover have "spells_field alg (Element (pe_tag e) (element_value e)) ?l" using s m e by (simp add: element_ok_def)
  ultimately show ?case using ls(2) by (metis (no_types, lifting) element_fields_def list.simps(9) list_all2_Cons)
qed

lemma numbers_written: "\<exists>ls. write_numbers key js = concat ls \<and> list_all2 (spells_field alg) (concat (map (numeric_field key) js)) ls"
proof (induction js)
  case (Cons i js)
  then obtain ls where ls: "write_numbers key js = concat ls" "list_all2 (spells_field alg) (concat (map (numeric_field key) js)) ls" by blast
  have n: "length numerictags = 4" by (simp add: numerictags_def)
  show ?case
  proof (cases "i < 4 \<and> dst_key_getnum key (dst_nums ! i) \<noteq> None")
    case True
    then obtain v where v: "i < 4" "dst_key_getnum key (dst_nums ! i) = Some v" by auto
    then show ?thesis using ls n by (intro exI [of _ "(numerictags ! i @ 0x20 # decimal (unat v) @ [0x0a]) # ls"]) (simp add: numeric_field_def [of key i])
  next
    case False
    then show ?thesis using ls n by (intro exI [of _ ls]) (auto simp: numeric_field_def [of key i] split: option.splits)
  qed
qed simp

lemma times_written: "\<exists>ls. write_times now key js = Some (Inr (concat ls)) \<and> list_all2 (spells_field alg) (concat (map (timing_field key) js)) ls"
proof (induction js)
  case (Cons i js)
  then obtain ls where ls: "write_times now key js = Some (Inr (concat ls))" "list_all2 (spells_field alg) (concat (map (timing_field key) js)) ls" by blast
  have n: "length timetags = 9" by (simp add: timetags_def)
  show ?case
  proof (cases "dst_key_gettime key (dst_times ! i)")
    case None
    then show ?thesis using ls by (intro exI [of _ ls]) (simp add: timing_field_def [of key i])
  next
    case (Some v)
    obtain cs where c: "dns_time32_totext now v write_buffer = Some (ISC_R_SUCCESS, grown write_buffer cs)" "length cs = 14" "list_all isdigit cs" "dns_time32_fromtext (cs @ [0]) = Inr v"
      using time32_text [OF write_buffer_ok(1), of now v] write_buffer_ok(2) by auto
    have "buf_content (grown write_buffer cs) = cs" using write_buffer_ok c(2) by simp
    then have w: "write_times now key (i # js) = Some (Inr ((if i < 9 then timetags ! i @ [0x20] @ cs @ [0x0a] else []) @ concat ls))" using Some c(1) ls(1) n by simp
    show ?thesis
    proof (cases "i < 9")
      case True
      then show ?thesis using w ls(2) c(2-4) Some by (intro exI [of _ "(timetags ! i @ 0x20 # cs @ [0x0a]) # ls"]) (auto simp: timing_field_def [of key i])
    next
      case False
      then show ?thesis using w ls(2) by (intro exI [of _ ls]) (simp add: timing_field_def [of key i])
    qed
  qed
qed simp

text \<open>The version of a key that is new or has been read.\<close>

definition version_ok :: "dst_key \<Rightarrow> bool" where
  "version_ok key \<longleftrightarrow> fst (written_version key) = 1 \<and> 0 \<le> snd (written_version key) \<and> snd (written_version key) < 2 ^ 31"

lemma text_written:
  assumes "list_all (element_ok alg) (take (pr_nelements priv) (pr_elements priv))" "version_ok key"
  shows "\<exists>ls. privstruct_text now key external priv = Some (Inr (header_text key @ concat ls)) \<and> list_all2 (spells_field alg) (key_fields key external priv) ls"
proof -
  obtain le where le: "write_elements (take (pr_nelements priv) (pr_elements priv)) = Some (Inr (concat le))" "list_all2 (spells_field alg) (element_fields (take (pr_nelements priv) (pr_elements priv))) le"
    using elements_written [OF assms(1)] by blast
  obtain ln where ln: "write_numbers key [0..<NUMERIC_NTAGS] = concat ln" "list_all2 (spells_field alg) (concat (map (numeric_field key) [0..<NUMERIC_NTAGS])) ln" using numbers_written by blast
  obtain lt where lt: "write_times now key [0..<TIMING_NTAGS] = Some (Inr (concat lt))" "list_all2 (spells_field alg) (concat (map (timing_field key) [0..<TIMING_NTAGS])) lt" using times_written by blast
  obtain major minor where v: "written_version key = (major, minor)" by (cases "written_version key")
  let ?x = "if external then [str ''External:'' @ [0x0a]] else []"
  have x: "list_all2 (spells_field alg) (if external then [External] else []) ?x" by simp
  show ?thesis
  proof (cases "minor \<ge> 3")
    case True
    then have "privstruct_text now key external priv = Some (Inr (header_text key @ concat (le @ ?x @ ln @ lt)))"
      using v le(1) ln(1) lt(1) assms(2) by (simp add: privstruct_text_def version_ok_def del: upt_Suc)
    moreover have "list_all2 (spells_field alg) (key_fields key external priv) (le @ ?x @ ln @ lt)"
      unfolding key_fields_def metadata_fields_def using True v assms(2) le(2) ln(2) lt(2) x by (simp add: version_ok_def list_all2_appendI)
    ultimately show ?thesis by blast
  next
    case False
    then have "privstruct_text now key external priv = Some (Inr (header_text key @ concat (le @ ?x)))"
      using v le(1) assms(2) by (simp add: privstruct_text_def version_ok_def del: upt_Suc)
    moreover have "list_all2 (spells_field alg) (key_fields key external priv) (le @ ?x)"
      unfolding key_fields_def using False v le(2) x by (simp add: list_all2_appendI)
    ultimately show ?thesis by blast
  qed
qed

section \<open>The header\<close>

lemma takeWhile_digits: "list_all isdigit w \<Longrightarrow> r = [] \<or> \<not> isdigit (hd r) \<Longrightarrow> takeWhile isdigit (w @ r) = w \<and> dropWhile isdigit (w @ r) = r"
  by (induction w) (cases r, auto)

lemma scan_decimal:
  assumes "0 \<le> i" "r = [] \<or> \<not> isdigit (hd r)"
  shows "scan_int (decimal_int i @ r) = Some (i, r)"
proof -
  let ?w = "decimal (nat i)"
  have w: "list_all isdigit ?w" "?w \<noteq> []" "number ?w = nat i" by (rule decimal_props)+
  then obtain x xs where x: "?w = x # xs" "isdigit x" by (cases ?w) auto
  have "dropWhile isspace (?w @ r) = ?w @ r" "hd (?w @ r) = x" using x by (auto simp: isspace_def isdigit_def word_le_nat_alt)
  moreover have "x \<noteq> 0x2d" "x \<noteq> 0x2b" using x(2) by (auto simp: isdigit_def)
  ultimately show ?thesis using takeWhile_digits [OF w(1) assms(2)] w assms(1) by (simp add: scan_int_def decimal_int_def Let_def)
qed

lemma decimal_int_ok: "0 \<le> i \<Longrightarrow> word_ok (decimal_int i)"
  using decimal_props [of "nat i"] unfolding word_ok_def list_all_iff decimal_int_def by (auto simp: isdigit_def)

lemma word_ok_append: "word_ok v \<Longrightarrow> word_ok w \<Longrightarrow> word_ok (v @ w)"
  by (auto simp: word_ok_def)

lemma version_read:
  assumes "0 \<le> major" "0 \<le> minor"
  shows "scan_version (str ''v'' @ decimal_int major @ str ''.'' @ decimal_int minor) = Some (major, minor)" "word_ok (str ''v'' @ decimal_int major @ str ''.'' @ decimal_int minor)"
proof -
  have s: "str ''v'' = [0x76]" "str ''.'' = [0x2e]" by code_simp+
  show "scan_version (str ''v'' @ decimal_int major @ str ''.'' @ decimal_int minor) = Some (major, minor)"
    using scan_decimal [OF assms(1), of "0x2e # decimal_int minor"] scan_decimal [OF assms(2), of "[]"] by (simp add: scan_version_def s isdigit_def)
  show "word_ok (str ''v'' @ decimal_int major @ str ''.'' @ decimal_int minor)"
    unfolding s using decimal_int_ok [OF assms(1)] decimal_int_ok [OF assms(2)] by (simp add: word_ok_def)
qed

lemma header_read:
  assumes "file_rest en (pf_lex st) (header_text key @ rest)" "version_ok key" "k_alg (pf_key st) = k_alg key"
  shows "\<exists>lx. parse_header st = Some (Inr (snd (written_version key)),
    st\<lparr>pf_lex := lx, pf_key := dst_key_setprivateformat 1 (snd (written_version key)) (pf_key st)\<rparr>) \<and> file_rest en lx rest"
proof -
  let ?minor = "snd (written_version key)" and ?alg = "dst_key_alg key"
  let ?v = "str ''v'' @ decimal_int 1 @ str ''.'' @ decimal_int ?minor"
  let ?r2 = "ALGORITHM_STR @ 0x20 # decimal (unat ?alg) @ 0x20 # alg_text (uint ?alg) @ 0x0a # rest"
  have g: "\<forall>x\<in>set [0x20]. gap x" by (simp add: gap_def)
  have v: "scan_version ?v = Some (1, ?minor)" "word_ok ?v" using version_read [of 1 ?minor] assms(2) by (simp_all add: version_ok_def)
  have h: "file_rest en (pf_lex st) (PRIVATE_KEY_STR @ 0x20 # ?v @ 0x0a # ?r2)" using assms(1,2) by (simp add: header_text_def version_ok_def)
  obtain l1 t1 where 1: "NEXTTOKEN ISC_LEXOPT_EOL st = Some (Inr t1, st\<lparr>pf_lex := l1\<rparr>)" "tk_type t1 = isc_tokentype_string" "DST_AS_STR t1 = PRIVATE_KEY_STR"
    "file_rest en l1 ([0x20] @ ?v @ 0x0a # ?r2)" using next_word [of en st "[]" PRIVATE_KEY_STR "0x20" "?v @ 0x0a # ?r2"] h headings_ok by (auto simp: gap_def)
  obtain l2 t2 where 2: "NEXTTOKEN ISC_LEXOPT_EOL (st\<lparr>pf_lex := l1\<rparr>) = Some (Inr t2, st\<lparr>pf_lex := l2\<rparr>)" "tk_type t2 = isc_tokentype_string" "DST_AS_STR t2 = ?v" "file_rest en l2 (0x0a # ?r2)"
    using next_word [of en "st\<lparr>pf_lex := l1\<rparr>" "[0x20]" ?v "0x0a" ?r2] 1(4) v(2) g by auto
  define st2 where "st2 = st\<lparr>pf_lex := l2, pf_key := dst_key_setprivateformat 1 ?minor (pf_key st)\<rparr>"
  obtain l3 where 3: "READLINE ISC_LEXOPT_EOL st2 = Some (Inr (), st2\<lparr>pf_lex := l3\<rparr>)" "file_rest en l3 ?r2" using readline_end [of en st2 "[]" ?r2] 2(4) by (auto simp: st2_def)
  obtain l4 t4 where 4: "NEXTTOKEN ISC_LEXOPT_EOL (st2\<lparr>pf_lex := l3\<rparr>) = Some (Inr t4, st2\<lparr>pf_lex := l4\<rparr>)" "tk_type t4 = isc_tokentype_string" "DST_AS_STR t4 = ALGORITHM_STR"
    "file_rest en l4 ([0x20] @ decimal (unat ?alg) @ 0x20 # alg_text (uint ?alg) @ 0x0a # rest)"
    using next_word [of en "st2\<lparr>pf_lex := l3\<rparr>" "[]" ALGORITHM_STR "0x20" "decimal (unat ?alg) @ 0x20 # alg_text (uint ?alg) @ 0x0a # rest"] 3(2) headings_ok by (auto simp: gap_def)
  obtain l5 t5 where 5: "NEXTTOKEN (ISC_LEXOPT_EOL OR ISC_LEXOPT_NUMBER) (st2\<lparr>pf_lex := l4\<rparr>) = Some (Inr t5, st2\<lparr>pf_lex := l5\<rparr>)" "tk_type t5 = isc_tokentype_number" "tk_value t5 = As_ulong ?alg"
    "file_rest en l5 ([0x20] @ alg_text (uint ?alg) @ 0x0a # rest)"
    using next_number [of en "st2\<lparr>pf_lex := l4\<rparr>" "[0x20]" ?alg "0x20" "alg_text (uint ?alg) @ 0x0a # rest"] 4(4) g by (auto simp: gap_def)
  obtain l6 where 6: "READLINE ISC_LEXOPT_EOL (st2\<lparr>pf_lex := l5\<rparr>) = Some (Inr (), st2\<lparr>pf_lex := l6\<rparr>)" "file_rest en l6 rest"
    using readline_word [of en "st2\<lparr>pf_lex := l5\<rparr>" "[0x20]" "alg_text (uint ?alg)" rest] 5(4) g alg_text_ok by auto
  have a: "dst_key_alg (pf_key st2) = ?alg" using assms(3) by (simp add: st2_def dst_key_setprivateformat_def dst_key_alg_def)
  have m: "modify (\<lambda>st. st\<lparr>pf_key := dst_key_setprivateformat 1 ?minor (pf_key st)\<rparr>) (st\<lparr>pf_lex := l2\<rparr>) = Some (Inr (), st2)" by (simp add: st2_def)
  have "parse_header st = Some (Inr ?minor, st2\<lparr>pf_lex := l6\<rparr>)" unfolding parse_header_def
    using 1(1-3) 2(1-3) 3(1) 4(1-3) 5(1-3) 6(1) a v(1) m by (simp add: DST_MAJOR_VERSION_def del: reader_simps(3))
  then show ?thesis using 6(2) by (intro exI [of _ l6]) (simp add: st2_def)
qed

section \<open>The check of the elements\<close>

text \<open>The algorithm that the reader is called with: the links for RSA, ECDSA and EdDSA use one for all their algorithms.\<close>

definition parse_alg :: "int \<Rightarrow> int" where
  "parse_alg a =
     (if a \<in> rsa_algs then DST_ALG_RSA
      else if a \<in> {DST_ALG_ECDSA256, DST_ALG_ECDSA384} then DST_ALG_ECDSA256
      else if a \<in> {DST_ALG_ED25519, DST_ALG_ED448} then DST_ALG_ED25519 else a)"

lemma TAG_ALG_TAG: "0 \<le> i \<Longrightarrow> i < 16 \<Longrightarrow> TAG_ALG (TAG alg i) = alg"
  by (simp add: TAG_ALG_def TAG_def TAG_SHIFT_def)

lemma only_tags_alg: "only_tags alg k es \<Longrightarrow> k \<le> 16 \<Longrightarrow> list_all (\<lambda>e. TAG_ALG (pe_tag e) = alg) es"
  using TAG_ALG_TAG [of "int _" alg] by (fastforce simp: only_tags_def list_all_iff list_ex_iff)

lemma two_tags: "length es = 2 \<Longrightarrow> has_tag alg es 0 \<Longrightarrow> has_tag alg es 1 \<Longrightarrow> list_all (\<lambda>e. TAG_ALG (pe_tag e) = alg) es"
proof -
  assume "length es = 2" "has_tag alg es 0" "has_tag alg es 1"
  moreover from this(1) obtain a b where "es = [a, b]" by (auto simp: numeral_2_eq_2 length_Suc_conv)
  moreover have "TAG alg 0 \<noteq> TAG alg 1" by (simp add: TAG_def)
  ultimately show ?thesis using TAG_ALG_TAG [of 0 alg] TAG_ALG_TAG [of 1 alg] by (auto simp: has_tag_def)
qed

lemma check_tags:
  assumes "map pe_tag es = map pe_tag es'"
  shows "only_tags alg k es = only_tags alg k es'" "has_tag alg es = has_tag alg es'" "length es = length es'" "es = [] \<longleftrightarrow> es' = []"
proof -
  have o: "only_tags alg k xs = list_all (\<lambda>t. list_ex (\<lambda>i. t = TAG alg (int i)) [0..<k]) (map pe_tag xs)" for xs by (simp add: only_tags_def list_all_iff)
  have h: "has_tag alg xs i = list_ex (\<lambda>t. t = TAG alg i) (map pe_tag xs)" for xs i by (induction xs) (auto simp: has_tag_def)
  show "only_tags alg k es = only_tags alg k es'" unfolding o assms ..
  show "has_tag alg es = has_tag alg es'" unfolding h assms by (rule ext) (rule refl)
  show "length es = length es'" using arg_cong [OF assms, of length] by simp
  then show "es = [] \<longleftrightarrow> es' = []" by auto
qed

lemma check_elements_tags:
  assumes "map pe_tag es = map pe_tag es'"
  shows "check_elements es alg old external = check_elements es' alg old external"
proof -
  note t = check_tags [OF assms]
  have "length es' = 1 \<Longrightarrow> pe_tag (hd es) = pe_tag (hd es')" using arg_cong [OF assms, of hd] t(4) by (cases es; cases es') auto
  then have "check_hmac_md5 es old = check_hmac_md5 es' old" unfolding check_hmac_md5_def t(2,3) by auto
  then show ?thesis unfolding check_elements_def check_rsa_def check_ecdsa_def check_eddsa_def check_hmac_sha_def check_oqs_def check_xmss_def check_xmssmt_def t by simp
qed

lemma check_data_ok: "check_data p a old external = ISC_R_SUCCESS \<longleftrightarrow> check_elements (take (pr_nelements p) (pr_elements p)) a old external = Some True"
  by (auto simp: check_data_def split: option.splits)

lemma parse_alg_other: "a \<notin> rsa_algs \<union> {DST_ALG_ECDSA256, DST_ALG_ECDSA384, DST_ALG_ED25519, DST_ALG_ED448} \<Longrightarrow> parse_alg a = a"
  by (simp add: parse_alg_def)

lemma check_elements_parse:
  assumes "check_elements es a False external = Some True"
  shows "check_elements es (parse_alg a) True external = Some True \<and> list_all (\<lambda>e. TAG_ALG (pe_tag e) = parse_alg a) es"
proof -
  consider (rsa) "a \<in> rsa_algs" | (ec) "a \<in> {DST_ALG_ECDSA256, DST_ALG_ECDSA384}" | (ed) "a \<in> {DST_ALG_ED25519, DST_ALG_ED448}" |
    (other) "a \<notin> rsa_algs" "a \<notin> {DST_ALG_ECDSA256, DST_ALG_ECDSA384}" "a \<notin> {DST_ALG_ED25519, DST_ALG_ED448}" by blast
  then show ?thesis
  proof cases
    case rsa
    then have c: "check_rsa es external" using assms by (simp add: check_elements_def)
    have "list_all (\<lambda>e. TAG_ALG (pe_tag e) = DST_ALG_RSA) es" using c only_tags_alg [of DST_ALG_RSA 11 es] by (auto simp: check_rsa_def split: if_splits)
    moreover have "DST_ALG_RSA \<in> rsa_algs" by (simp add: rsa_algs_def)
    ultimately show ?thesis using rsa c by (simp add: parse_alg_def check_elements_def)
  next
    case ec
    have n: "a \<notin> rsa_algs" "DST_ALG_ECDSA256 \<notin> rsa_algs" using ec by (auto simp: rsa_algs_def alg_defs)
    then have c: "check_ecdsa es external" using assms ec by (auto simp: check_elements_def)
    have "list_all (\<lambda>e. TAG_ALG (pe_tag e) = DST_ALG_ECDSA256) es" using c only_tags_alg [of DST_ALG_ECDSA256 4 es] by (auto simp: check_ecdsa_def split: if_splits)
    then show ?thesis using ec n c by (simp add: parse_alg_def check_elements_def)
  next
    case ed
    have n: "a \<notin> rsa_algs" "a \<notin> {DST_ALG_ECDSA256, DST_ALG_ECDSA384}" "DST_ALG_ED25519 \<notin> rsa_algs" "DST_ALG_ED25519 \<notin> {DST_ALG_ECDSA256, DST_ALG_ECDSA384}"
      using ed by (auto simp: rsa_algs_def alg_defs)
    then have c: "check_eddsa es external" using assms ed by (auto simp: check_elements_def)
    have "list_all (\<lambda>e. TAG_ALG (pe_tag e) = DST_ALG_ED25519) es" using c only_tags_alg [of DST_ALG_ED25519 4 es] by (auto simp: check_eddsa_def split: if_splits)
    then show ?thesis using ed n c by (simp add: parse_alg_def check_elements_def)
  next
    case other
    have p: "parse_alg a = a" using other by (simp add: parse_alg_other)
    have "check_elements es a True external = Some True" using assms other by (auto simp: check_elements_def check_hmac_md5_def split: if_splits)
    moreover have "list_all (\<lambda>e. TAG_ALG (pe_tag e) = a) es" using assms other two_tags [of es a] only_tags_alg [of a 2 es]
      by (auto simp: check_elements_def check_hmac_md5_def check_hmac_sha_def check_oqs_def check_xmss_def check_xmssmt_def numeral_2_eq_2 split: if_splits)
    ultimately show ?thesis unfolding p by blast
  qed
qed

section \<open>What is read\<close>

lemma taken_append: "taken_all n (fs @ gs) st = taken_all (n + length fs) gs (taken_all n fs st)"
  by (induction fs arbitrary: n st) auto

text \<open>The elements.\<close>

definition read_element :: "nat \<Rightarrow> dst_private_element \<Rightarrow> dst_private_element" where
  "read_element b e = \<lparr>pe_tag = pe_tag e, pe_length = length (element_value e), pe_data = Some (b, element_value e)\<rparr>"

lemma elements_taken:
  assumes "n + length es \<le> length (pr_elements (pf_priv st))"
  shows "taken_all n (element_fields es) st =
    st\<lparr>pf_priv := \<lparr>pr_nelements = pr_nelements (pf_priv st) + length es,
         pr_elements = take n (pr_elements (pf_priv st)) @ map2 read_element [pf_next st..<pf_next st + length es] es @ drop (n + length es) (pr_elements (pf_priv st))\<rparr>,
       pf_blocks := pf_blocks st \<union> {pf_next st..<pf_next st + length es}, pf_next := pf_next st + length es\<rparr>"
  using assms
proof (induction es arbitrary: n st)
  case Nil
  then show ?case by (simp add: element_fields_def)
next
  case (Cons e es)
  let ?els = "pr_elements (pf_priv st)" and ?st = "taken n (Element (pe_tag e) (element_value e)) st"
  have n: "n < length ?els" using Cons.prems by simp
  have u: "take (n + 1) (?els[n := x]) = take n ?els @ [x]" "drop (n + 1 + length es) (?els[n := x]) = drop (n + 1 + length es) ?els" for x
    using n by (simp_all add: take_Suc_conv_app_nth)
  have b: "insert (pf_next st) (pf_blocks st) \<union> {pf_next st + 1..<pf_next st + 1 + length es} = pf_blocks st \<union> {pf_next st..<pf_next st + length (e # es)}" by auto
  have up: "[pf_next st..<pf_next st + length (e # es)] = pf_next st # [pf_next st + 1..<pf_next st + 1 + length es]" by (simp add: upt_rec)
  have "taken_all n (element_fields (e # es)) st = taken_all (n + 1) (element_fields es) ?st" by (simp add: element_fields_def)
  also have "\<dots> = ?st\<lparr>pf_priv := \<lparr>pr_nelements = pr_nelements (pf_priv ?st) + length es,
         pr_elements = take (n + 1) (pr_elements (pf_priv ?st)) @ map2 read_element [pf_next ?st..<pf_next ?st + length es] es @ drop (n + 1 + length es) (pr_elements (pf_priv ?st))\<rparr>,
       pf_blocks := pf_blocks ?st \<union> {pf_next ?st..<pf_next ?st + length es}, pf_next := pf_next ?st + length es\<rparr>"
    by (rule Cons.IH) (use Cons.prems in simp)
  also have "\<dots> = st\<lparr>pf_priv := \<lparr>pr_nelements = pr_nelements (pf_priv st) + length (e # es),
         pr_elements = take n ?els @ map2 read_element [pf_next st..<pf_next st + length (e # es)] (e # es) @ drop (n + length (e # es)) ?els\<rparr>,
       pf_blocks := pf_blocks st \<union> {pf_next st..<pf_next st + length (e # es)}, pf_next := pf_next st + length (e # es)\<rparr>"
    unfolding up using u b by (simp add: read_element_def)
  finally show ?case .
qed

text \<open>The other fields.\<close>

definition no_element :: "field \<Rightarrow> bool" where "no_element f \<longleftrightarrow> (case f of Element tag xs \<Rightarrow> False | _ \<Rightarrow> True)"

lemma others_taken:
  assumes "list_all no_element fs"
  shows "pf_priv (taken_all n fs st) = pf_priv st" "pf_blocks (taken_all n fs st) = pf_blocks st" "pf_external (taken_all n fs st) = (pf_external st \<or> External \<in> set fs)"
proof -
  have "pf_priv (taken_all n fs st) = pf_priv st \<and> pf_blocks (taken_all n fs st) = pf_blocks st \<and> pf_external (taken_all n fs st) = (pf_external st \<or> External \<in> set fs)"
    using assms
  proof (induction fs arbitrary: n st)
    case (Cons f fs)
    then show ?case by (cases f) (auto simp: no_element_def)
  qed simp
  then show "pf_priv (taken_all n fs st) = pf_priv st" "pf_blocks (taken_all n fs st) = pf_blocks st" "pf_external (taken_all n fs st) = (pf_external st \<or> External \<in> set fs)" by simp_all
qed

lemma key_taken:
  "k_fmt_major (pf_key (taken_all n fs st)) = k_fmt_major (pf_key st)" "k_fmt_minor (pf_key (taken_all n fs st)) = k_fmt_minor (pf_key st)"
proof -
  have "k_fmt_major (pf_key (taken_all n fs st)) = k_fmt_major (pf_key st) \<and> k_fmt_minor (pf_key (taken_all n fs st)) = k_fmt_minor (pf_key st)"
  proof (induction fs arbitrary: n st)
    case (Cons f fs)
    then show ?case by (cases f) (auto simp: dst_key_setnum_def dst_key_settime_def)
  qed simp
  then show "k_fmt_major (pf_key (taken_all n fs st)) = k_fmt_major (pf_key st)" "k_fmt_minor (pf_key (taken_all n fs st)) = k_fmt_minor (pf_key st)" by simp_all
qed

text \<open>Fields that agree with a key give its numbers and times.\<close>

lemma numbers_taken:
  assumes "\<forall>i v. Numeric i v \<in> set fs \<longrightarrow> g (dst_nums ! i) = Some v"
  shows "dst_key_getnum (pf_key (taken_all n fs st)) t = (if \<exists>i v. Numeric i v \<in> set fs \<and> dst_nums ! i = t then g t else dst_key_getnum (pf_key st) t)"
  using assms
proof (induction fs arbitrary: n st)
  case (Cons f fs)
  have IH: "dst_key_getnum (pf_key (taken_all n fs st)) t = (if \<exists>i v. Numeric i v \<in> set fs \<and> dst_nums ! i = t then g t else dst_key_getnum (pf_key st) t)" for n st
    using Cons by simp
  show ?case
  proof (cases f)
    case (Numeric i v)
    then have "g (dst_nums ! i) = Some v" using Cons.prems by simp
    then have "dst_key_getnum (pf_key (taken n f st)) t = (if dst_nums ! i = t then g t else dst_key_getnum (pf_key st) t)"
      using Numeric by (auto simp: dst_key_getnum_def dst_key_setnum_def)
    then show ?thesis using IH [of "n + 1" "taken n f st"] Numeric by auto
  qed (use IH in \<open>auto simp: dst_key_getnum_def dst_key_settime_def\<close>)
qed simp

lemma times_taken:
  assumes "\<forall>i v. Timing i v \<in> set fs \<longrightarrow> g (dst_times ! i) = Some v"
  shows "dst_key_gettime (pf_key (taken_all n fs st)) t = (if \<exists>i v. Timing i v \<in> set fs \<and> dst_times ! i = t then g t else dst_key_gettime (pf_key st) t)"
  using assms
proof (induction fs arbitrary: n st)
  case (Cons f fs)
  have IH: "dst_key_gettime (pf_key (taken_all n fs st)) t = (if \<exists>i v. Timing i v \<in> set fs \<and> dst_times ! i = t then g t else dst_key_gettime (pf_key st) t)" for n st
    using Cons by simp
  show ?case
  proof (cases f)
    case (Timing i v)
    then have "g (dst_times ! i) = Some v" using Cons.prems by simp
    then have "dst_key_gettime (pf_key (taken n f st)) t = (if dst_times ! i = t then g t else dst_key_gettime (pf_key st) t)"
      using Timing by (auto simp: dst_key_gettime_def dst_key_settime_def)
    then show ?thesis using IH [of "n + 1" "taken n f st"] Timing by auto
  qed (use IH in \<open>auto simp: dst_key_gettime_def dst_key_setnum_def\<close>)
qed simp

section \<open>Writing and reading a key\<close>

text \<open>A key that can be written: the check of the writer, elements with named tags and with their data, and a version.\<close>

definition key_elements :: "dst_private \<Rightarrow> dst_private_element list" where
  "key_elements priv = take (pr_nelements priv) (pr_elements priv)"

definition savable :: "dst_key \<Rightarrow> bool \<Rightarrow> dst_private \<Rightarrow> bool" where
  "savable key external priv \<longleftrightarrow> check_data priv (uint (dst_key_alg key)) False external = ISC_R_SUCCESS \<and>
     list_all (\<lambda>e. find_tag (pe_tag e) \<noteq> None \<and> pe_length e \<le> length (element_octets e) \<and> pe_length e \<le> MAXFIELDSIZE) (key_elements priv) \<and>
     length (pr_elements priv) = MAXFIELDS \<and> (external \<longrightarrow> pr_nelements priv = 0) \<and> version_ok key"

lemma savable_elements: "savable key external priv \<Longrightarrow> list_all (element_ok (parse_alg (uint (dst_key_alg key)))) (key_elements priv)"
  using check_elements_parse [of "key_elements priv" "uint (dst_key_alg key)" external]
  unfolding savable_def element_ok_def check_data_ok key_elements_def list_all_iff by blast

definition other_fields :: "dst_key \<Rightarrow> bool \<Rightarrow> field list" where
  "other_fields key external =
     (if external then [External] else []) @ (if fst (written_version key) = 1 \<and> snd (written_version key) \<ge> 3 then metadata_fields key else [])"

lemma key_fields_eq: "key_fields key external priv = element_fields (key_elements priv) @ other_fields key external"
  by (simp add: key_fields_def other_fields_def key_elements_def)

lemma other_fields_no_element: "list_all no_element (other_fields key external)"
  by (auto simp: other_fields_def metadata_fields_def no_element_def list_all_iff numeric_field_def timing_field_def split: option.splits if_splits)

lemma other_fields_external: "External \<in> set (other_fields key external) \<longleftrightarrow> external"
  by (auto simp: other_fields_def metadata_fields_def numeric_field_def timing_field_def split: option.splits if_splits)

text \<open>The state in which the reader ends.\<close>

definition read_state :: "dst_key \<Rightarrow> bool \<Rightarrow> dst_private \<Rightarrow> dst_key \<Rightarrow> nat set \<Rightarrow> nat \<Rightarrow> isc_lex \<Rightarrow> pfile" where
  "read_state key external priv key' blocks next lx =
     taken_all 0 (take MAXFIELDS (key_fields key external priv)) (parse_start (dst_key_setprivateformat 1 (snd (written_version key)) key') lx blocks next)"

lemma read_state_elements:
  assumes "savable key external priv"
  shows "pf_priv (read_state key external priv key' blocks next lx) =
      \<lparr>pr_nelements = length (key_elements priv), pr_elements = map2 read_element [next..<next + length (key_elements priv)] (key_elements priv) @ drop (length (key_elements priv)) (pr_elements no_elements)\<rparr>"
    "pf_blocks (read_state key external priv key' blocks next lx) = blocks \<union> {next..<next + length (key_elements priv)}"
    "pf_external (read_state key external priv key' blocks next lx) = external"
proof -
  let ?es = "key_elements priv" and ?st = "parse_start (dst_key_setprivateformat 1 (snd (written_version key)) key') lx blocks next"
  let ?rest = "take (MAXFIELDS - length ?es) (other_fields key external)"
  have m: "length ?es \<le> MAXFIELDS" using assms by (simp add: savable_def key_elements_def)
  have r: "read_state key external priv key' blocks next lx = taken_all (length ?es) ?rest (taken_all 0 (element_fields ?es) ?st)"
    using m by (simp add: read_state_def key_fields_eq taken_append element_fields_def)
  have o: "list_all no_element ?rest" using other_fields_no_element by (metis append_take_drop_id list_all_append)
  have e: "External \<in> set ?rest \<longleftrightarrow> external"
  proof (cases external)
    case True
    then have "length ?es = 0" using assms by (simp add: savable_def key_elements_def)
    then show ?thesis using True by (simp add: other_fields_def MAXFIELDS_def)
  next
    case False
    then show ?thesis using other_fields_external [of key external] by (meson in_set_takeD)
  qed
  have s: "pf_priv ?st = no_elements" "pf_next ?st = next" "pf_blocks ?st = blocks" "\<not> pf_external ?st" "length (pr_elements (pf_priv ?st)) = MAXFIELDS" "pr_nelements no_elements = 0"
    by (simp_all add: parse_start_def no_elements_def)
  have t: "0 + length ?es \<le> length (pr_elements (pf_priv ?st))" using s(5) m by simp
  show "pf_priv (read_state key external priv key' blocks next lx) =
      \<lparr>pr_nelements = length ?es, pr_elements = map2 read_element [next..<next + length ?es] ?es @ drop (length ?es) (pr_elements no_elements)\<rparr>"
    "pf_blocks (read_state key external priv key' blocks next lx) = blocks \<union> {next..<next + length ?es}"
    "pf_external (read_state key external priv key' blocks next lx) = external"
    unfolding r others_taken [OF o] e elements_taken [OF t] using s by simp_all
qed

lemma read_elements_tags: "length bs = length es \<Longrightarrow> map pe_tag (map2 read_element bs es) = map pe_tag es"
  by (induction bs es rule: list_induct2) (simp_all add: read_element_def)

lemma read_state_check:
  assumes "savable key external priv"
  shows "parse_check (parse_alg (uint (dst_key_alg key))) ((read_state key external priv key' blocks next lx)\<lparr>pf_lex := lx'\<rparr>) =
    Some (Inr (), (read_state key external priv key' blocks next lx)\<lparr>pf_lex := lx'\<rparr>)"
proof -
  let ?es = "key_elements priv" and ?st = "read_state key external priv key' blocks next lx" and ?a = "parse_alg (uint (dst_key_alg key))"
  have c: "check_elements ?es ?a True external = Some True"
    using check_elements_parse assms unfolding savable_def check_data_ok key_elements_def by blast
  have t: "take (pr_nelements (pf_priv ?st)) (pr_elements (pf_priv ?st)) = map2 read_element [next..<next + length ?es] ?es" using read_state_elements(1) [OF assms] by simp
  have "check_elements (map2 read_element [next..<next + length ?es] ?es) ?a True external = check_elements ?es ?a True external"
    by (rule check_elements_tags) (rule read_elements_tags, simp)
  then have "check_data (pf_priv ?st) ?a True external = ISC_R_SUCCESS" unfolding check_data_ok t using c by simp
  moreover have "external \<Longrightarrow> pr_nelements (pf_priv ?st) = 0" using read_state_elements(1) [OF assms] assms by (simp add: savable_def key_elements_def)
  ultimately show ?thesis using read_state_elements(3) [OF assms] by (simp add: parse_check_def)
qed

text \<open>The text is short enough for the buffers of the lexer.\<close>

lemma tag_lengths: "list_all (\<lambda>s. length s \<le> 30) (map snd parse_map @ timetags @ numerictags @ [str ''External:'', PRIVATE_KEY_STR, ALGORITHM_STR])"
  by code_simp

lemma alg_text_length: "length (alg_text alg) \<le> 30"
proof (cases "alg \<in> {5, 7, 8, 10, 13, 14, 15, 16, 17, 18, 19, 20, 21, 157, 161, 162, 163, 164, 165}")
  case True
  have "list_all (\<lambda>a. length (alg_text a) \<le> 30) [5, 7, 8, 10, 13, 14, 15, 16, 17, 18, 19, 20, 21, 157, 161, 162, 163, 164, 165]" by code_simp
  then show ?thesis using True by auto
next
  case False
  then show ?thesis by (simp add: alg_text_def alg_defs)
qed

lemma decimal_word_length: "length (decimal (unat (v :: u32))) \<le> 10"
proof -
  have "unat v < 2 ^ LENGTH(32)" by (rule unsigned_less)
  then show ?thesis using decimal_length [of "unat v" 9] by simp
qed

lemma octets_text_length: "length xs \<le> MAXFIELDSIZE \<Longrightarrow> length (octets_text xs) \<le> 52002"
  using length_code_text [of "breaks 4 (int (MAXFIELDSIZE * 2))" 0 xs] unfolding octets_text_def by (simp add: MAXFIELDSIZE_def)

lemma line_length: "spells_field alg f l \<Longrightarrow> length l \<le> 53000"
proof (cases f)
  case (Element tag xs)
  assume "spells_field alg f l"
  then obtain s where s: "find_tag tag = Some s" "l = s @ 0x20 # octets_text xs @ [0x0a]" "length xs \<le> MAXFIELDSIZE" using Element by auto
  have "(tag, s) \<in> set parse_map" using s(1) by (auto simp: find_tag_def find_Some_iff) (metis nth_mem)
  then have "s \<in> snd ` set parse_map" by force
  then have "length s \<le> 30" using tag_lengths by (simp add: list_all_iff)
  then show ?thesis using s(2) octets_text_length [OF s(3)] by simp
next
  case External
  assume "spells_field alg f l"
  then show ?thesis using External tag_lengths by simp
next
  case (Numeric i v)
  assume l: "spells_field alg f l"
  then have "numerictags ! i \<in> set numerictags" using Numeric by (intro nth_mem) (simp add: numerictags_def)
  then have "length (numerictags ! i) \<le> 30" using tag_lengths by (simp add: list_all_iff)
  then show ?thesis using l Numeric decimal_word_length [of v] by simp
next
  case (Timing i v)
  assume l: "spells_field alg f l"
  then have "timetags ! i \<in> set timetags" using Timing by (intro nth_mem) (simp add: timetags_def)
  then have "length (timetags ! i) \<le> 30" using tag_lengths by (simp add: list_all_iff)
  then show ?thesis using l Timing by auto
qed

lemma lines_length: "list_all2 (spells_field alg) fs ls \<Longrightarrow> length (concat ls) \<le> 53000 * length fs"
  by (induction rule: list_all2_induct) (auto dest: line_length)

lemma concat_length: "(\<And>i. length (g i) \<le> (1 :: nat)) \<Longrightarrow> length (concat (map g js)) \<le> length js"
proof (induction js)
  case (Cons i js)
  then show ?case using Cons.prems [of i] by (simp add: add_le_mono [of _ 1, simplified])
qed simp

lemma other_fields_length: "length (other_fields key external) \<le> 22"
proof -
  have "length (concat (map (numeric_field key) [0..<NUMERIC_NTAGS])) \<le> length [0..<NUMERIC_NTAGS]" by (rule concat_length) (simp add: numeric_field_def split: option.split)
  moreover have "length (concat (map (timing_field key) [0..<TIMING_NTAGS])) \<le> length [0..<TIMING_NTAGS]" by (rule concat_length) (simp add: timing_field_def split: option.split)
  ultimately show ?thesis by (simp add: other_fields_def metadata_fields_def NUMERIC_NTAGS_def TIMING_NTAGS_def)
qed

lemma header_length: "version_ok key \<Longrightarrow> length (header_text key) \<le> 500"
proof -
  assume v: "version_ok key"
  have "length (decimal_int i) \<le> 10" if "0 \<le> i" "i < 2 ^ 31" for i using that decimal_length [of "nat i" 9] by (simp add: decimal_int_def nat_less_iff)
  from this [of 1] this [of "snd (written_version key)"] show ?thesis
    using v tag_lengths decimal_word_length [of "dst_key_alg key"] alg_text_length [of "uint (dst_key_alg key)"] by (simp add: header_text_def version_ok_def)
qed

lemma text_length:
  assumes "savable key external priv" "list_all2 (spells_field alg) (key_fields key external priv) ls"
  shows "length (header_text key @ concat ls) < 2 ^ 31"
proof -
  have "length (key_fields key external priv) \<le> 40"
    using assms(1) other_fields_length [of key external] by (simp add: key_fields_eq element_fields_def key_elements_def savable_def MAXFIELDS_def)
  then have "length (concat ls) \<le> 53000 * 40" using lines_length [OF assms(2)] by simp
  then show ?thesis using header_length [of key] assms(1) by (simp add: savable_def)
qed

lemma written_read:
  assumes s: "savable key external priv" and k: "k_alg key' = k_alg key"
  shows "\<exists>t lx lx'. privstruct_text now key external priv = Some (Inr t) \<and>
    dst__privstruct_parse key' (parse_alg (uint (dst_key_alg key))) (file_lexer 1500 0 t) blocks next = Some (ISC_R_SUCCESS, (read_state key external priv key' blocks next lx)\<lparr>pf_lex := lx'\<rparr>)"
proof -
  let ?a = "parse_alg (uint (dst_key_alg key))"
  have v: "version_ok key" using s by (simp add: savable_def)
  obtain ls where ls: "privstruct_text now key external priv = Some (Inr (header_text key @ concat ls))" "list_all2 (spells_field ?a) (key_fields key external priv) ls"
    using text_written [of ?a priv key] savable_elements [OF s] v unfolding key_elements_def by blast
  let ?t = "header_text key @ concat ls"
  let ?st = "parse_start key' (file_lexer 1500 0 ?t) blocks next"
  obtain lx where h: "parse_header ?st = Some (Inr (snd (written_version key)), ?st\<lparr>pf_lex := lx, pf_key := dst_key_setprivateformat 1 (snd (written_version key)) (pf_key ?st)\<rparr>)"
    "file_rest None lx (concat ls)" using header_read [of None ?st key "concat ls"] file_lexer_left [OF text_length [OF s ls(2)]] v k by (auto simp: parse_start_def)
  let ?st1 = "parse_start (dst_key_setprivateformat 1 (snd (written_version key)) key') lx blocks next"
  have p: "parse_header ?st = Some (Inr (snd (written_version key)), ?st1)" using h(1) by (simp add: parse_start_def)
  obtain lx' where f: "parse_fields MAXFIELDS ?a 0 (snd (written_version key)) ?st1 = Some (Inr (), (read_state key external priv key' blocks next lx)\<lparr>pf_lex := lx'\<rparr>)"
    using lines_read [OF ls(2), of ?st1 0 MAXFIELDS] h(2) by (auto simp: parse_start_def no_elements_def read_state_def)
  have "dst__privstruct_parse key' ?a (file_lexer 1500 0 ?t) blocks next = Some (ISC_R_SUCCESS, (read_state key external priv key' blocks next lx)\<lparr>pf_lex := lx'\<rparr>)"
    using p f read_state_check [OF s] by (simp add: dst__privstruct_parse_def)
  then show ?thesis using ls(1) by blast
qed

section \<open>A file that cannot be read to its end\<close>

lemma failing_refill:
  assumes "src_ok s" "pending s = []" "input_end (src_input s) = Some er"
  shows "refill s = Some (er, s\<lparr>src_result := er\<rparr>)" "er \<noteq> ISC_R_SUCCESS"
proof -
  have ok: "buf_ok (src_pushback s)" "input_ok (src_input s)" using assms(1) by (auto simp: src_ok_def)
  have e: "buf_remaining (src_pushback s) = []" "input_octets (src_input s) = []" using assms(2) by (auto simp: pending_def)
  have i: "src_input s = Stream [] (Some er)" using e(2) assms(3) by (cases "src_input s") auto
  have "isc_buffer_remaininglength (src_pushback s) = 0" using e(1) ok(1) by simp
  then show "refill s = Some (er, s\<lparr>src_result := er\<rparr>)" "er \<noteq> ISC_R_SUCCESS" using i ok(2) by (simp_all add: refill_def)
qed

lemma gettoken_error_ready:
  assumes lx: "ready lx ss ws" and ws: "\<forall>x\<in>set ws. x \<in> {0x20, 0x09}" and e: "ends lx = Some er # es" and o: "\<not> (lx_last_was_eol lx \<and> wants options ISC_LEXOPT_INITIALWS)"
  shows "\<exists>lx'. isc_lex_gettoken lx options = Some (er, None, lx')"
proof -
  obtain s where s: "lex_fit lx" "lx_sources lx = s # ss" "src_ok s" "src_result s = ISC_R_SUCCESS" "\<not> src_at_eof s" "pending s = ws" using ready_source [OF lx] .
  obtain pb r tk st where g: "st_ok (first_state lx s pb options)" "isc_lex_gettoken lx options = Some (r, tk, (ls_lex st)\<lparr>lx_sources := ls_source st # ss\<rparr>)"
    "gettoken_loop (2 * length (pending s) + 4) (first_state lx s pb options) = Some (r, tk, st)" "pending (ls_source (first_state lx s pb options)) = pending s"
    using gettoken_run [OF s(1-5), of options] by blast
  obtain n1 st1 where 1: "gettoken_loop n1 st1 = Some (r, tk, st)" "before st1" "pending (ls_source st1) = []"
    using loop_blanks [OF g(3) first_before [OF g(1) o], of ws "[]"] ws g(4) s(6) by auto
  have ok: "st_ok st1" using 1(2) by (simp add: before_def)
  have "input_end (src_input (ls_source st)) = Some er" using gettoken_ends [OF ready_ok [OF lx] g(2)] e by (simp add: ends_def)
  moreover have "input_end (src_input (ls_source st)) = input_end (src_input (ls_source st1))" using gettoken_loop_kept [OF ok 1(1)] by (simp add: kept_def same_text_def)
  ultimately have "refill (ls_source st1) = Some (er, (ls_source st1)\<lparr>src_result := er\<rparr>)" "er \<noteq> ISC_R_SUCCESS"
    using failing_refill [of "ls_source st1" er] ok 1(3) by (simp_all add: st_ok_def reading_ok_def)
  then have "lex_round st1 = Some (Failed (st1\<lparr>ls_source := (ls_source st1)\<lparr>src_result := er\<rparr>\<rparr>) er)" by (simp add: lex_round_def)
  then have "r = er" "tk = None" using 1(1) by (cases n1; simp)+
  then show ?thesis using g(2) by blast
qed

text \<open>Padded text: the decoder stops after it and asks for no more tokens.\<close>

lemma padded_fed:
  assumes "buf_ok u" "1 \<le> buf_room u"
  shows "\<exists>ctx. feed base64_decode_char (base64_decode_init (-1) u) (b64_digits1 x) = Some (ISC_R_SUCCESS, ctx) \<and> d64_seen_end ctx \<and> base64_decode_finish ctx = ISC_R_SUCCESS \<and> d64_target ctx = grown u [x]"
proof -
  have i: "drop_bit 2 x AND 0x3f < 64" "push_bit 4 x AND 0x30 < 64" "(push_bit 4 x AND 0x30) AND 0xf = 0" by (rule b64_index b64_zero_bits)+
  have b: "push_bit 2 (drop_bit 2 x AND 0x3f) OR drop_bit 4 (push_bit 4 x AND 0x30) = x" using b64_bits by metis
  show ?thesis unfolding b64_digits1_def using i b assms
    by (simp add: b64_char b64_last base64_decode_init_def b64_group_def less64_neq mem_tobuffer_eq base64_decode_finish_def)
qed

lemma padded_read:
  assumes "file_rest en (pf_lex st) (0x20 # b64_digits1 x @ [0x20])"
  shows "\<exists>lx. read_base64 st = Some (Inr [x], st\<lparr>pf_lex := lx\<rparr>) \<and> file_rest en lx [0x20]"
proof -
  let ?u = "isc_buffer_init (replicate MAXFIELDSIZE 0) MAXFIELDSIZE" and ?w = "b64_digits1 x"
  have u: "buf_ok ?u" "buf_room ?u = MAXFIELDSIZE" "buf_content ?u = []" using buf_ok_init [of "replicate MAXFIELDSIZE 0"]
    by (simp_all add: MAXFIELDSIZE_def isc_buffer_init_def buf_room_def buf_content_def)
  have l: "ready (pf_lex st) [] ([0x20] @ ?w @ 0x20 # [])" "lx_specials (pf_lex st) = (\<lambda>c. False)" "lx_comments (pf_lex st) = 0" using assms by (simp_all add: file_rest_def)
  have "set ?w \<subseteq> set base64" using b64_digits_in [of "[x]"] by simp
  then have p: "\<forall>c\<in>set ?w. plain_char (pf_lex st) MASTER_OPTIONS c" using base64_ok l(2,3) unfolding list_all_iff by (auto simp: plain_char_def)
  have ne: "?w \<noteq> []" by (simp add: b64_digits1_def)
  obtain lx tk where t: "isc_lex_getmastertoken (pf_lex st) (plain_token isc_tokentype_unknown) isc_tokentype_string True = Some (ISC_R_SUCCESS, tk, lx)" "tk_type tk = isc_tokentype_string"
    "token_text tk = ?w" "ready lx [] [0x20]" "follows (pf_lex st) lx" using master_word [OF l(1) _ ne p, of "plain_token isc_tokentype_unknown" True] by (auto simp: gap_def)
  obtain ctx where c: "feed base64_decode_char (base64_decode_init (-1) ?u) ?w = Some (ISC_R_SUCCESS, ctx)" "d64_seen_end ctx" "base64_decode_finish ctx = ISC_R_SUCCESS" "d64_target ctx = grown ?u [x]"
    using padded_fed [OF u(1), of x] u(2) by (auto simp: MAXFIELDSIZE_def)
  obtain f where f: "word_fuel (pf_lex st) = Suc (Suc f)" using word_fuel_Suc by blast
  have "isc_base64_tobuffer (pf_lex st) ?u (-1) = Some (ISC_R_SUCCESS, grown ?u [x], lx)"
    using t(1-3) c by (simp add: isc_base64_tobuffer_def f base64_decode_init_def)
  moreover have "buf_content (grown ?u [x]) = [x]" using grown_content [OF u(1), of "[x]"] u(2,3) by (simp add: MAXFIELDSIZE_def)
  ultimately show ?thesis using file_rest_follows [OF assms t(5,4)] by (intro exI [of _ lx]) (simp add: read_base64_def)
qed

lemma readline_error:
  assumes "file_rest (Some er) (pf_lex st) [0x20]" "er \<noteq> ISC_R_EOF"
  shows "\<exists>lx. READLINE ISC_LEXOPT_EOL st = Some (Inl er, st\<lparr>pf_lex := lx\<rparr>)"
proof -
  have r: "ready (pf_lex st) [] [0x20]" "ends (pf_lex st) = [Some er]" using assms(1) by (simp_all add: file_rest_def)
  obtain lx where g: "isc_lex_gettoken (pf_lex st) ISC_LEXOPT_EOL = Some (er, None, lx)" using gettoken_error_ready [OF r(1) _ r(2), of ISC_LEXOPT_EOL] by auto
  have "er \<noteq> ISC_R_SUCCESS" using r by (auto simp: ready_def ends_def src_ok_def split: list.splits) (metis input_end.simps input_ok.simps lex_input.exhaust option.distinct(1))
  then show ?thesis using g word_fuel_Suc [of "pf_lex st"] assms(2) by (auto simp: READLINE_def)
qed

section \<open>Properties\<close>

lemma numeric_fields: "Numeric i v \<in> set (key_fields key external priv) \<Longrightarrow> dst_key_getnum key (dst_nums ! i) = Some v"
  by (auto simp: key_fields_eq element_fields_def other_fields_def metadata_fields_def numeric_field_def timing_field_def split: option.splits if_splits)

lemma timing_fields: "Timing i v \<in> set (key_fields key external priv) \<Longrightarrow> dst_key_gettime key (dst_times ! i) = Some v"
  by (auto simp: key_fields_eq element_fields_def other_fields_def metadata_fields_def numeric_field_def timing_field_def split: option.splits if_splits)

lemma numeric_fields_all:
  assumes "version_ok key" "snd (written_version key) \<ge> 3" "i < 4" "dst_key_getnum key (dst_nums ! i) = Some v"
  shows "Numeric i v \<in> set (key_fields key external priv)"
proof -
  have "Numeric i v \<in> set (numeric_field key i)" using assms(3,4) by (simp add: numeric_field_def)
  moreover have "i \<in> set [0..<NUMERIC_NTAGS]" using assms(3) by (simp add: NUMERIC_NTAGS_def)
  ultimately have "Numeric i v \<in> set (concat (map (numeric_field key) [0..<NUMERIC_NTAGS]))" unfolding set_concat set_map by blast
  then show ?thesis using assms(1,2) by (simp add: key_fields_eq other_fields_def metadata_fields_def version_ok_def)
qed

lemma timing_fields_all:
  assumes "version_ok key" "snd (written_version key) \<ge> 3" "i < 9" "dst_key_gettime key (dst_times ! i) = Some v"
  shows "Timing i v \<in> set (key_fields key external priv)"
proof -
  have "Timing i v \<in> set (timing_field key i)" using assms(3,4) by (simp add: timing_field_def)
  moreover have "i \<in> set [0..<TIMING_NTAGS]" using assms(3) by (simp add: TIMING_NTAGS_def)
  ultimately have "Timing i v \<in> set (concat (map (timing_field key) [0..<TIMING_NTAGS]))" unfolding set_concat set_map by blast
  then show ?thesis using assms(1,2) by (simp add: key_fields_eq other_fields_def metadata_fields_def version_ok_def)
qed

lemma read_state_metadata:
  "dst_key_getnum (pf_key (read_state key external priv key' blocks next lx)) t =
     (if \<exists>i v. Numeric i v \<in> set (take MAXFIELDS (key_fields key external priv)) \<and> dst_nums ! i = t then dst_key_getnum key t else dst_key_getnum key' t)"
  "dst_key_gettime (pf_key (read_state key external priv key' blocks next lx)) t' =
     (if \<exists>i v. Timing i v \<in> set (take MAXFIELDS (key_fields key external priv)) \<and> dst_times ! i = t' then dst_key_gettime key t' else dst_key_gettime key' t')"
proof -
  let ?fs = "take MAXFIELDS (key_fields key external priv)" and ?st = "parse_start (dst_key_setprivateformat 1 (snd (written_version key)) key') lx blocks next"
  have n: "\<forall>i v. Numeric i v \<in> set ?fs \<longrightarrow> dst_key_getnum key (dst_nums ! i) = Some v" using numeric_fields by (meson in_set_takeD)
  have t: "\<forall>i v. Timing i v \<in> set ?fs \<longrightarrow> dst_key_gettime key (dst_times ! i) = Some v" using timing_fields by (meson in_set_takeD)
  have k: "dst_key_getnum (pf_key ?st) = dst_key_getnum key'" "dst_key_gettime (pf_key ?st) = dst_key_gettime key'"
    by (simp_all add: parse_start_def dst_key_setprivateformat_def dst_key_getnum_def dst_key_gettime_def fun_eq_iff)
  show "dst_key_getnum (pf_key (read_state key external priv key' blocks next lx)) t =
     (if \<exists>i v. Numeric i v \<in> set ?fs \<and> dst_nums ! i = t then dst_key_getnum key t else dst_key_getnum key' t)"
    unfolding read_state_def numbers_taken [OF n] k ..
  show "dst_key_gettime (pf_key (read_state key external priv key' blocks next lx)) t' =
     (if \<exists>i v. Timing i v \<in> set ?fs \<and> dst_times ! i = t' then dst_key_gettime key t' else dst_key_gettime key' t')"
    unfolding read_state_def times_taken [OF t] k ..
qed

lemma metadata_read_back:
  assumes "savable key external priv" "snd (written_version key) \<ge> 3" "length (key_fields key external priv) \<le> MAXFIELDS" "\<And>t. dst_key_getnum key' t = None" "\<And>t. dst_key_gettime key' t = None"
  shows "t \<in> set (take 4 dst_nums) \<Longrightarrow> dst_key_getnum (pf_key (read_state key external priv key' blocks next lx)) t = dst_key_getnum key t"
    "t' \<in> set (take 9 dst_times) \<Longrightarrow> dst_key_gettime (pf_key (read_state key external priv key' blocks next lx)) t' = dst_key_gettime key t'"
proof -
  have v: "version_ok key" using assms(1) by (simp add: savable_def)
  have f: "take MAXFIELDS (key_fields key external priv) = key_fields key external priv" using assms(3) by simp
  show "dst_key_getnum (pf_key (read_state key external priv key' blocks next lx)) t = dst_key_getnum key t" if "t \<in> set (take 4 dst_nums)"
  proof -
    obtain i where i: "i < 4" "t = dst_nums ! i" using \<open>t \<in> set (take 4 dst_nums)\<close> by (auto simp: in_set_conv_nth)
    have "dst_key_getnum key t = Some x \<Longrightarrow> Numeric i x \<in> set (key_fields key external priv)" for x using numeric_fields_all [OF v assms(2) i(1)] i(2) by simp
    then show ?thesis unfolding read_state_metadata f assms(4) i(2) by (metis option.exhaust)
  qed
  show "dst_key_gettime (pf_key (read_state key external priv key' blocks next lx)) t' = dst_key_gettime key t'" if "t' \<in> set (take 9 dst_times)"
  proof -
    obtain i where i: "i < 9" "t' = dst_times ! i" using \<open>t' \<in> set (take 9 dst_times)\<close> by (auto simp: in_set_conv_nth)
    have "dst_key_gettime key t' = Some x \<Longrightarrow> Timing i x \<in> set (key_fields key external priv)" for x using timing_fields_all [OF v assms(2) i(1)] i(2) by simp
    then show ?thesis unfolding read_state_metadata f assms(5) i(2) by (metis option.exhaust)
  qed
qed

lemma read_state_version: "k_fmt_major (pf_key (read_state key external priv key' blocks next lx)) = 1"
  "k_fmt_minor (pf_key (read_state key external priv key' blocks next lx)) = snd (written_version key)"
  by (simp_all add: read_state_def key_taken parse_start_def dst_key_setprivateformat_def)

lemma read_element_value [simp]: "element_value (read_element b e) = element_value e" "pe_tag (read_element b e) = pe_tag e"
proof -
  have "element_value \<lparr>pe_tag = t, pe_length = length xs, pe_data = Some (b, xs)\<rparr> = xs" for t xs by (simp add: element_value_def element_octets_def)
  then show "element_value (read_element b e) = element_value e" "pe_tag (read_element b e) = pe_tag e" by (simp_all add: read_element_def)
qed

lemma read_values: "length bs = length es \<Longrightarrow> map (\<lambda>e. (pe_tag e, element_value e)) (map2 read_element bs es) = map (\<lambda>e. (pe_tag e, element_value e)) es"
  by (induction bs es rule: list_induct2) simp_all

lemma writefile_text:
  assumes "savable key external priv" "privstruct_text now key external priv = Some (Inr t)"
  shows "dst__privstruct_writefile ISC_R_SUCCESS ISC_R_SUCCESS True close now key external priv = Some (close t, Some t)"
  using assms by (simp add: dst__privstruct_writefile_def savable_def)

text \<open>
  C13: A private key written by \<^verbatim>\<open>dst__privstruct_writefile\<close> with not more than \<^verbatim>\<open>MAXFIELDS\<close> fields, in whatever algorithm and at whatever time, is read back by
  \<^verbatim>\<open>dst__privstruct_parse\<close> with the same elements, version, flag and metadata.  The reader allocates one block for each element and frees none of them.
\<close>

theorem private_key_roundtrip:
  assumes "savable key external priv" "3 \<le> snd (written_version key)" "length (key_fields key external priv) \<le> MAXFIELDS" "k_alg key' = k_alg key"
    "\<And>t. dst_key_getnum key' t = None" "\<And>t. dst_key_gettime key' t = None"
  shows "\<exists>t st. dst__privstruct_writefile ISC_R_SUCCESS ISC_R_SUCCESS True close now key external priv = Some (close t, Some t) \<and>
    dst__privstruct_parse key' (parse_alg (uint (dst_key_alg key))) (file_lexer 1500 0 t) blocks next = Some (ISC_R_SUCCESS, st) \<and>
    map (\<lambda>e. (pe_tag e, element_value e)) (key_elements (pf_priv st)) = map (\<lambda>e. (pe_tag e, element_value e)) (key_elements priv) \<and>
    pf_external st = external \<and> (k_fmt_major (pf_key st), k_fmt_minor (pf_key st)) = written_version key \<and>
    (\<forall>type\<in>set (take 4 dst_nums). dst_key_getnum (pf_key st) type = dst_key_getnum key type) \<and>
    (\<forall>type\<in>set (take 9 dst_times). dst_key_gettime (pf_key st) type = dst_key_gettime key type) \<and>
    pf_blocks st = blocks \<union> {next..<next + length (key_elements priv)}"
proof -
  obtain t lx lx' where w: "privstruct_text now key external priv = Some (Inr t)"
    "dst__privstruct_parse key' (parse_alg (uint (dst_key_alg key))) (file_lexer 1500 0 t) blocks next = Some (ISC_R_SUCCESS, (read_state key external priv key' blocks next lx)\<lparr>pf_lex := lx'\<rparr>)"
    using written_read [OF assms(1,4)] by blast
  let ?st = "(read_state key external priv key' blocks next lx)\<lparr>pf_lex := lx'\<rparr>"
  have "map (\<lambda>e. (pe_tag e, element_value e)) (key_elements (pf_priv ?st)) = map (\<lambda>e. (pe_tag e, element_value e)) (key_elements priv)"
    using read_state_elements(1) [OF assms(1)] read_values [of "[next..<next + length (key_elements priv)]" "key_elements priv"] by (simp add: key_elements_def [of "\<lparr>pr_nelements = _, pr_elements = _\<rparr>"])
  moreover have "(k_fmt_major (pf_key ?st), k_fmt_minor (pf_key ?st)) = written_version key" using assms(1) by (simp add: read_state_version savable_def version_ok_def prod_eq_iff)
  ultimately show ?thesis using w(2) writefile_text [OF assms(1) w(1), of close] read_state_elements(2,3) [OF assms(1)] metadata_read_back [OF assms(1,2,3,5,6)]
    by (intro exI [of _ t] exI [of _ ?st]) simp
qed

text \<open>Keys for the examples: one without metadata, and one with all the numbers and times of a file.\<close>

definition plain_key :: "u32 \<Rightarrow> dst_key" where
  "plain_key alg = \<lparr>k_size = 0, k_alg = alg, k_flags = 0, k_id = 0, k_rid = 0, k_ttl = 0, k_data = 0, k_times = (\<lambda>t. None), k_nums = (\<lambda>t. None), k_bools = (\<lambda>t. None),
     k_states = (\<lambda>t. None), k_modified = False, k_fmt_major = 0, k_fmt_minor = 0\<rparr>"

definition dated_key :: "u32 \<Rightarrow> dst_key" where
  "dated_key alg = (plain_key alg)\<lparr>k_times := (\<lambda>t. Some 1), k_nums := (\<lambda>t. Some 2)\<rparr>"

definition private_of :: "int list \<Rightarrow> dst_private" where
  "private_of tags = \<lparr>pr_nelements = length tags, pr_elements = map (\<lambda>t. \<lparr>pe_tag = t, pe_length = 1, pe_data = Some (0, [7])\<rparr>) tags @
     replicate (MAXFIELDS - length tags) \<lparr>pe_tag = 0, pe_length = 0, pe_data = None\<rparr>\<rparr>"

lemma private_of_elements [simp]: "key_elements (private_of tags) = map (\<lambda>t. \<lparr>pe_tag = t, pe_length = 1, pe_data = Some (0, [7])\<rparr>) tags"
  by (simp add: key_elements_def private_of_def)

lemma private_of_savable:
  assumes "check_elements (key_elements (private_of tags)) (uint (k_alg key)) False False = Some True" "list_all (\<lambda>t. find_tag t \<noteq> None) tags" "length tags \<le> MAXFIELDS" "version_ok key"
  shows "savable key False (private_of tags)"
proof -
  have "length (pr_elements (private_of tags)) = MAXFIELDS" using assms(3) by (simp add: private_of_def)
  moreover have "check_data (private_of tags) (uint (k_alg key)) False False = ISC_R_SUCCESS" using assms(1) unfolding check_data_ok key_elements_def .
  ultimately show ?thesis using assms(2,4) by (simp add: savable_def dst_key_alg_def list_all_iff element_octets_def MAXFIELDSIZE_def)
qed

lemma falcon_savable: "savable (plain_key 17) False (private_of [272, 273])"
proof (rule private_of_savable)
  show "check_elements (key_elements (private_of [272, 273])) (uint (k_alg (plain_key 17))) False False = Some True"
    by (simp add: plain_key_def check_elements_def rsa_algs_def hmac_sha_algs_def oqs_algs_def alg_defs check_oqs_def only_tags_def has_tag_def TAG_def TAG_SHIFT_def upt_rec)
  show "list_all (\<lambda>t. find_tag t \<noteq> None) [272, 273]" by code_simp
qed (simp_all add: MAXFIELDS_def version_ok_def written_version_def plain_key_def DST_MAJOR_VERSION_def DST_MINOR_VERSION_def)

theorem private_key_roundtrip_witness:
  "\<exists>t st. dst__privstruct_writefile ISC_R_SUCCESS ISC_R_SUCCESS True (\<lambda>t. ISC_R_SUCCESS) 0 (plain_key 17) False (private_of [272, 273]) = Some (ISC_R_SUCCESS, Some t) \<and>
    dst__privstruct_parse (plain_key 17) 17 (file_lexer 1500 0 t) {} 0 = Some (ISC_R_SUCCESS, st) \<and>
    map (\<lambda>e. (pe_tag e, element_value e)) (key_elements (pf_priv st)) = [(272, [7]), (273, [7])] \<and> pf_blocks st = {0..<2}"
proof -
  let ?k = "plain_key 17" and ?p = "private_of [272, 273]"
  have v: "written_version ?k = (1, 3)" by (simp add: written_version_def plain_key_def DST_MAJOR_VERSION_def DST_MINOR_VERSION_def)
  have m: "concat (map (numeric_field ?k) js) = []" "concat (map (timing_field ?k) js) = []" for js by (auto simp: numeric_field_def timing_field_def dst_key_getnum_def dst_key_gettime_def plain_key_def)
  have f: "length (key_fields ?k False ?p) \<le> MAXFIELDS" by (simp add: key_fields_eq other_fields_def metadata_fields_def m element_fields_def MAXFIELDS_def)
  have n: "dst_key_getnum ?k t = None" "dst_key_gettime ?k t' = None" for t t' by (simp_all add: dst_key_getnum_def dst_key_gettime_def plain_key_def)
  have a: "parse_alg (uint (dst_key_alg ?k)) = 17" by (simp add: dst_key_alg_def plain_key_def parse_alg_def rsa_algs_def alg_defs)
  have e: "map (\<lambda>e. (pe_tag e, element_value e)) (key_elements ?p) = [(272, [7]), (273, [7])]" "{0..<0 + length (key_elements ?p)} = {0..<2}"
    by (simp_all add: element_value_def element_octets_def numeral_2_eq_2)
  show ?thesis using private_key_roundtrip [OF falcon_savable _ f refl n, of "\<lambda>t. ISC_R_SUCCESS" 0 "{}" 0] v unfolding a e by auto
qed

lemma all_metadata:
  assumes "version_ok key" "3 \<le> snd (written_version key)" "\<forall>type\<in>set (take 4 dst_nums). dst_key_getnum key type \<noteq> None" "\<forall>type\<in>set (take 9 dst_times). dst_key_gettime key type \<noteq> None"
  shows "\<exists>n0 n1 n2 n3 t0 t1 t2 t3 t4 t5 t6 t7 t8. other_fields key False =
    [Numeric 0 n0, Numeric 1 n1, Numeric 2 n2, Numeric 3 n3, Timing 0 t0, Timing 1 t1, Timing 2 t2, Timing 3 t3, Timing 4 t4, Timing 5 t5, Timing 6 t6, Timing 7 t7, Timing 8 t8]"
proof -
  have l: "length dst_nums = 7" "length dst_times = 14" by (simp_all add: dst_nums_def dst_times_def)
  have n: "\<exists>v. numeric_field key i = [Numeric i v]" if "i < 4" for i
  proof -
    have "dst_nums ! i \<in> set (take 4 dst_nums)" using that nth_mem [of i "take 4 dst_nums"] l(1) by simp
    then show ?thesis using assms(3) that by (auto simp: numeric_field_def)
  qed
  have t: "\<exists>v. timing_field key i = [Timing i v]" if "i < 9" for i
  proof -
    have "dst_times ! i \<in> set (take 9 dst_times)" using that nth_mem [of i "take 9 dst_times"] l(2) by simp
    then show ?thesis using assms(4) that by (auto simp: timing_field_def)
  qed
  have z: "numeric_field key 4 = []" "numeric_field key 5 = []" "numeric_field key 6 = []" "timing_field key 9 = []" "timing_field key 10 = []" "timing_field key 11 = []"
    "timing_field key 12 = []" "timing_field key 13 = []" by (simp_all add: numeric_field_def timing_field_def)
  have u: "[0..<NUMERIC_NTAGS] = [0, 1, 2, 3, 4, 5, 6]" "[0..<TIMING_NTAGS] = [0, 1, 2, 3, 4, 5, 6, 7, 8, 9, 10, 11, 12, 13]" by (simp_all add: NUMERIC_NTAGS_def TIMING_NTAGS_def upt_rec)
  show ?thesis using n [of 0] n [of 1] n [of 2] n [of 3] t [of 0] t [of 1] t [of 2] t [of 3] t [of 4] t [of 5] t [of 6] t [of 7] t [of 8] z assms(1,2)
    by (auto simp: other_fields_def metadata_fields_def u version_ok_def)
qed

text \<open>
  C37: A private key file can have more fields than the reader takes: an RSA key has eight elements, and with all four numbers and nine times \<^verbatim>\<open>dst__privstruct_writefile\<close> writes
  twenty-one lines, of which \<^verbatim>\<open>dst__privstruct_parse\<close> reads the first \<^verbatim>\<open>MAXFIELDS\<close> and says that all is well.  The times of the DS and of the CDS and CDNSKEY records are lost.
\<close>

theorem metadata_lost:
  assumes "savable key False priv" "pr_nelements priv = 8" "3 \<le> snd (written_version key)" "\<forall>type\<in>set (take 4 dst_nums). dst_key_getnum key type \<noteq> None"
    "\<forall>type\<in>set (take 9 dst_times). dst_key_gettime key type \<noteq> None" "k_alg key' = k_alg key" "\<And>type. dst_key_gettime key' type = None"
  shows "\<exists>t st. dst__privstruct_writefile ISC_R_SUCCESS ISC_R_SUCCESS True close now key False priv = Some (close t, Some t) \<and>
    dst__privstruct_parse key' (parse_alg (uint (dst_key_alg key))) (file_lexer 1500 0 t) blocks next = Some (ISC_R_SUCCESS, st) \<and>
    dst_key_gettime (pf_key st) DST_TIME_DSPUBLISH = None \<and> dst_key_gettime (pf_key st) DST_TIME_SYNCPUBLISH = None \<and> dst_key_gettime (pf_key st) DST_TIME_SYNCDELETE = None"
proof -
  obtain t lx lx' where w: "privstruct_text now key False priv = Some (Inr t)"
    "dst__privstruct_parse key' (parse_alg (uint (dst_key_alg key))) (file_lexer 1500 0 t) blocks next = Some (ISC_R_SUCCESS, (read_state key False priv key' blocks next lx)\<lparr>pf_lex := lx'\<rparr>)"
    using written_read [OF assms(1,6)] by blast
  have v: "version_ok key" "length (key_elements priv) = 8" using assms(1,2) by (simp_all add: savable_def key_elements_def MAXFIELDS_def)
  obtain n0 n1 n2 n3 t0 t1 t2 t3 t4 t5 t6 t7 t8 where o: "other_fields key False =
    [Numeric 0 n0, Numeric 1 n1, Numeric 2 n2, Numeric 3 n3, Timing 0 t0, Timing 1 t1, Timing 2 t2, Timing 3 t3, Timing 4 t4, Timing 5 t5, Timing 6 t6, Timing 7 t7, Timing 8 t8]"
    using all_metadata [OF v(1) assms(3-5)] by blast
  have "take MAXFIELDS (key_fields key False priv) = element_fields (key_elements priv) @ take 10 (other_fields key False)" using v(2) by (simp add: key_fields_eq element_fields_def MAXFIELDS_def)
  then have i: "Timing i v \<in> set (take MAXFIELDS (key_fields key False priv)) \<Longrightarrow> i < 6" for i v by (auto simp: o element_fields_def)
  have d: "dst_times ! i \<notin> {DST_TIME_DSPUBLISH, DST_TIME_SYNCPUBLISH, DST_TIME_SYNCDELETE}" if "i < 6" for i
    using that by (auto simp: dst_times_def numeral_eq_Suc less_Suc_eq)
  have "dst_key_gettime (pf_key ((read_state key False priv key' blocks next lx)\<lparr>pf_lex := lx'\<rparr>)) type = None"
    if "type \<in> {DST_TIME_DSPUBLISH, DST_TIME_SYNCPUBLISH, DST_TIME_SYNCDELETE}" for type
    using read_state_metadata(2) [of key False priv key' blocks "next" lx type] i d that assms(7) by auto
  then show ?thesis using w(2) writefile_text [OF assms(1) w(1), of close] by blast
qed

lemma rsa_savable: "savable (dated_key 8) False (private_of [16, 17, 18, 19, 20, 21, 22, 23])"
proof (rule private_of_savable)
  show "check_elements (key_elements (private_of [16, 17, 18, 19, 20, 21, 22, 23])) (uint (k_alg (dated_key 8))) False False = Some True"
    by (simp add: dated_key_def plain_key_def check_elements_def rsa_algs_def alg_defs check_rsa_def only_tags_def has_tag_def TAG_def TAG_SHIFT_def upt_rec)
  show "list_all (\<lambda>t. find_tag t \<noteq> None) [16, 17, 18, 19, 20, 21, 22, 23]" by code_simp
qed (simp_all add: MAXFIELDS_def version_ok_def written_version_def dated_key_def plain_key_def DST_MAJOR_VERSION_def DST_MINOR_VERSION_def)

theorem metadata_lost_witness:
  "\<exists>t st. dst__privstruct_writefile ISC_R_SUCCESS ISC_R_SUCCESS True (\<lambda>t. ISC_R_SUCCESS) 0 (dated_key 8) False (private_of [16, 17, 18, 19, 20, 21, 22, 23]) = Some (ISC_R_SUCCESS, Some t) \<and>
    dst__privstruct_parse (plain_key 8) 1 (file_lexer 1500 0 t) {} 0 = Some (ISC_R_SUCCESS, st) \<and>
    dst_key_gettime (dated_key 8) DST_TIME_SYNCDELETE = Some 1 \<and> dst_key_gettime (pf_key st) DST_TIME_SYNCDELETE = None"
proof -
  let ?k = "dated_key 8" and ?p = "private_of [16, 17, 18, 19, 20, 21, 22, 23]"
  have v: "3 \<le> snd (written_version ?k)" by (simp add: written_version_def dated_key_def plain_key_def DST_MAJOR_VERSION_def DST_MINOR_VERSION_def)
  have n: "\<forall>type\<in>set (take 4 dst_nums). dst_key_getnum ?k type \<noteq> None" "\<forall>type\<in>set (take 9 dst_times). dst_key_gettime ?k type \<noteq> None"
    "dst_key_gettime ?k DST_TIME_SYNCDELETE = Some 1" by (simp_all add: dst_key_getnum_def dst_key_gettime_def dated_key_def)
  have p: "pr_nelements ?p = 8" "k_alg (plain_key 8) = k_alg ?k" "dst_key_gettime (plain_key 8) type = None" for type
    by (simp_all add: private_of_def plain_key_def dated_key_def dst_key_gettime_def)
  have a: "parse_alg (uint (dst_key_alg ?k)) = 1" by (simp add: dst_key_alg_def dated_key_def plain_key_def parse_alg_def rsa_algs_def alg_defs)
  show ?thesis using metadata_lost [OF rsa_savable p(1) v n(1,2) p(2,3), of "\<lambda>t. ISC_R_SUCCESS" 0 "{}" 0] n(3) unfolding a by auto
qed

lemma failing_file_rest:
  assumes "isc_lex_openfile (isc_lex_create 1500) [] (Inr (Stream cs (Some er))) = Some (ISC_R_SUCCESS, lx)" "length cs < 2 ^ 31" "er \<noteq> ISC_R_SUCCESS"
  shows "file_rest (Some er) lx cs"
proof -
  let ?f = "file_lexer 1500 0 cs"
  obtain s where s: "lx_sources ?f = [s]" "lx = ?f\<lparr>lx_sources := [s\<lparr>src_input := Stream cs (Some er)\<rparr>]\<rparr>" "src_input s = Stream cs None"
    using assms(1) by (auto simp: isc_lex_openfile_def new_source_def isc_lex_create_def isc_buffer_allocate_def isc_buffer_setmctx_def VALID_LEX_def file_lexer_def isc_buffer_init_def
        ISC_BUFFER_VALID_def split: bind_splits)
  have r: "ready ?f [] cs" using file_lexer_ready [of 1500 cs 0] assms(2) by simp
  then have "ready lx [] cs" using s assms(3) by (auto simp: ready_def src_ok_def pending_def lex_fit_def VALID_LEX_def)
  then show ?thesis using s(2) by (simp add: file_rest_def ends_def)
qed

lemma padded_element_line:
  assumes "find_tag tag = Some s" "file_rest en (pf_lex st) (s @ 0x20 # b64_digits1 x @ [0x20])" "0 < length (pr_elements (pf_priv st))"
  shows "\<exists>tk st1 lx. next_field (word_fuel (pf_lex st)) ISC_LEXOPT_EOL st = Some (Inr (Some tk), st1) \<and>
    parse_field (TAG_ALG tag) 0 minor tk st1 = Some (Inr (), (taken 0 (Element tag [x]) st)\<lparr>pf_lex := lx, pf_data := Some (pf_next st)\<rparr>) \<and> file_rest en lx [0x20]"
proof -
  obtain lx tk where 1: "next_field (word_fuel (pf_lex st)) ISC_LEXOPT_EOL st = Some (Inr (Some tk), st\<lparr>pf_lex := lx\<rparr>)" "tk_type tk = isc_tokentype_string" "DST_AS_STR tk = s"
    "file_rest en lx (0x20 # b64_digits1 x @ [0x20])" using field_word [of en st s "0x20" "b64_digits1 x @ [0x20]"] assms(2) find_tag_ok(1) [OF assms(1)] by (auto simp: gap_def)
  let ?e = "(pr_elements (pf_priv st) ! 0)\<lparr>pe_tag := tag\<rparr>"
  let ?st = "st\<lparr>pf_lex := lx, pf_priv := (pf_priv st)\<lparr>pr_elements := (pr_elements (pf_priv st))[0 := ?e]\<rparr>, pf_blocks := insert (pf_next st) (pf_blocks st), pf_next := pf_next st + 1,
    pf_data := Some (pf_next st)\<rparr>"
  obtain lx2 where 2: "read_base64 ?st = Some (Inr [x], ?st\<lparr>pf_lex := lx2\<rparr>)" "file_rest en lx2 [0x20]" using padded_read [of en ?st x] 1(4) by auto
  have "parse_element 0 tag (st\<lparr>pf_lex := lx\<rparr>) = Some (Inr (), (taken 0 (Element tag [x]) st)\<lparr>pf_lex := lx2, pf_data := Some (pf_next st)\<rparr>)"
    using 2(1) assms(3) by (simp add: parse_element_def set_element_def continue_def isc_mem_get_def)
  then have "parse_field (TAG_ALG tag) 0 minor tk (st\<lparr>pf_lex := lx\<rparr>) = Some (Inr (), (taken 0 (Element tag [x]) st)\<lparr>pf_lex := lx2, pf_data := Some (pf_next st)\<rparr>)"
    unfolding parse_field_def using 1(2,3) find_tag_ok [OF assms(1)] by simp
  then show ?thesis using 1(1) 2(2) by blast
qed

text \<open>
  C38: When the file cannot be read any further in the line of the first element, after its padded data, \<^verbatim>\<open>dst__privstruct_parse\<close> frees the block of the element twice: \<^verbatim>\<open>data\<close> still
  points to it, although the element has it already.
\<close>

theorem read_error_frees_twice:
  assumes "version_ok key" "find_tag tag = Some s" "er \<noteq> ISC_R_SUCCESS" "er \<noteq> ISC_R_EOF" "length (header_text key @ s @ 0x20 # b64_digits1 x @ [0x20]) < 2 ^ 31"
    "isc_lex_openfile (isc_lex_create 1500) [] (Inr (Stream (header_text key @ s @ 0x20 # b64_digits1 x @ [0x20]) (Some er))) = Some (ISC_R_SUCCESS, lx)"
  shows "dst__privstruct_parse key (TAG_ALG tag) lx blocks next = None"
proof -
  let ?st = "parse_start key lx blocks next" and ?minor = "snd (written_version key)"
  obtain lx1 where h: "parse_header ?st = Some (Inr ?minor, ?st\<lparr>pf_lex := lx1, pf_key := dst_key_setprivateformat 1 ?minor (pf_key ?st)\<rparr>)"
    "file_rest (Some er) lx1 (s @ 0x20 # b64_digits1 x @ [0x20])"
    using header_read [of "Some er" ?st key] failing_file_rest [OF assms(6,5,3)] assms(1) by (auto simp: parse_start_def)
  define st1 where "st1 = ?st\<lparr>pf_lex := lx1, pf_key := dst_key_setprivateformat 1 ?minor (pf_key ?st)\<rparr>"
  have s1: "pf_priv st1 = no_elements" "pf_next st1 = next" "pf_blocks st1 = blocks" "file_rest (Some er) (pf_lex st1) (s @ 0x20 # b64_digits1 x @ [0x20])" "0 < length (pr_elements (pf_priv st1))"
    using h(2) by (simp_all add: st1_def parse_start_def no_elements_def MAXFIELDS_def)
  obtain tk st2 lx2 where f: "next_field (word_fuel (pf_lex st1)) ISC_LEXOPT_EOL st1 = Some (Inr (Some tk), st2)"
    "parse_field (TAG_ALG tag) 0 ?minor tk st2 = Some (Inr (), (taken 0 (Element tag [x]) st1)\<lparr>pf_lex := lx2, pf_data := Some (pf_next st1)\<rparr>)" "file_rest (Some er) lx2 [0x20]"
    using padded_element_line [OF assms(2) s1(4,5)] by blast
  define st3 where "st3 = (taken 0 (Element tag [x]) st1)\<lparr>pf_lex := lx2, pf_data := Some (pf_next st1)\<rparr>"
  have f': "parse_field (TAG_ALG tag) 0 ?minor tk st2 = Some (Inr (), st3)" "file_rest (Some er) (pf_lex st3) [0x20]" using f(2,3) by (simp_all add: st3_def)
  obtain lx3 where r: "READLINE ISC_LEXOPT_EOL st3 = Some (Inl er, st3\<lparr>pf_lex := lx3\<rparr>)" using readline_error [OF f'(2) assms(4)] by blast
  have m: "MAXFIELDS = Suc 17" by (simp add: MAXFIELDS_def)
  have p: "parse_fields MAXFIELDS (TAG_ALG tag) 0 ?minor st1 = Some (Inl er, st3\<lparr>pf_lex := lx3\<rparr>)" unfolding m parse_fields.simps(2) using f(1) f'(1) r by (simp add: continue_def)
  have z: "take (Suc 0) ((pr_elements no_elements)[0 := e]) = [e]" for e by (simp add: no_elements_def MAXFIELDS_def numeral_eq_Suc)
  have "pr_nelements no_elements = 0" by (simp add: no_elements_def)
  then have "\<exists>st4. dst__privstruct_free (st3\<lparr>pf_lex := lx3\<rparr>) = Some st4 \<and> pf_data st4 = Some next \<and> next \<notin> pf_blocks st4"
    using s1(1-3) by (simp add: dst__privstruct_free_def isc_mem_put_def st3_def z)
  moreover have "parse_header ?st = Some (Inr ?minor, st1)" using h(1) by (simp add: st1_def)
  ultimately show ?thesis using p by (auto simp: dst__privstruct_parse_def isc_mem_put_def)
qed

theorem read_error_frees_twice_witness:
  "\<exists>lx. isc_lex_openfile (isc_lex_create 1500) [] (Inr (Stream (header_text (plain_key 17) @ str ''PrivateKey:'' @ 0x20 # b64_digits1 7 @ [0x20]) (Some ISC_R_IOERROR))) = Some (ISC_R_SUCCESS, lx) \<and>
    dst__privstruct_parse (plain_key 17) 17 lx {} 0 = None"
proof -
  let ?k = "plain_key 17" and ?cs = "header_text (plain_key 17) @ str ''PrivateKey:'' @ 0x20 # b64_digits1 7 @ [0x20]"
  have v: "version_ok ?k" by (simp add: version_ok_def written_version_def plain_key_def DST_MAJOR_VERSION_def DST_MINOR_VERSION_def)
  have t: "find_tag 272 = Some (str ''PrivateKey:'')" "TAG_ALG 272 = 17" by code_simp+
  have l: "length ?cs < 2 ^ 31" using header_length [OF v] by (simp add: b64_digits1_def)
  obtain lx where lx: "isc_lex_openfile (isc_lex_create 1500) [] (Inr (Stream ?cs (Some ISC_R_IOERROR))) = Some (ISC_R_SUCCESS, lx)"
    by (simp add: isc_lex_openfile_def new_source_def isc_lex_create_def isc_buffer_allocate_def isc_buffer_setmctx_def VALID_LEX_def isc_buffer_init_def ISC_BUFFER_VALID_def)
  show ?thesis using read_error_frees_twice [OF v t(1) _ _ l lx, of "{}" 0] lx unfolding t(2) by auto
qed

end
