(* ===== verification/Spec2Isabelle.thy ===== *)
theory Spec2Isabelle
  imports Render KeyLife NamePrint SlabHeap ChainVerify PrivRound
begin

text \<open>
  A verification of the core of BIND 9 (the OQS fork), a DNS server written in C.

  \<^bold>\<open>The program.\<close>  \<^verbatim>\<open>lib/isc\<close> has buffers, text forms of data, heaps, the lexer and other basics; \<^verbatim>\<open>lib/dns\<close> has the DNS data (names, messages,
  records, zones, caches), DNSSEC keys and the resolver; \<^verbatim>\<open>lib/ns\<close> answers queries; \<^verbatim>\<open>bin/\<close> holds the server and the tools.

  \<^bold>\<open>Conventions.\<close>  \<^theory_text>\<open>Prelude\<close> has the result codes and the assertion macros: a function that can fail an assertion or
  read out of its memory has an option as its result, and \<open>None\<close> is that failure.  A result code is a value beside the other results.

  \<^bold>\<open>Names and messages.\<close>  \<^theory_text>\<open>Ascii\<close> models \<^verbatim>\<open>ascii.c/ascii.h\<close>, with the comparison of eight octets at a time; \<^theory_text>\<open>Buffer\<close> models \<^verbatim>\<open>buffer.h\<close>,
  with the unsigned 32-bit offsets and the growing of dynamic buffers.
  \<^theory_text>\<open>Name\<close> has the structure \<^verbatim>\<open>dns_name_t\<close> and what a well-formed one is, \<^theory_text>\<open>NameOps\<close> the operations of \<^verbatim>\<open>name.c\<close> on names
  (comparison, hashing to the canonical form, splitting, joining, wildcards), \<^theory_text>\<open>NameText\<close> and \<^theory_text>\<open>NamePrint\<close> read and print their text, \<^theory_text>\<open>NameWire\<close>
  reads a name from a message, \<^theory_text>\<open>Compress\<close> is the hash set of \<^verbatim>\<open>compress.c\<close>, and \<^theory_text>\<open>Render\<close> writes names with compression.
  The lemmas show that reading never leaves the message and ends on every input, that what is written or printed is read back,
  that every name of a message remains readable through later writes, that the comparison is the canonical
  order, and that each operation of a buffer keeps its offsets in order.

  \<^bold>\<open>Text.\<close>  \<^theory_text>\<open>TextCodec\<close> has base 64, base 32 and hexadecimal text (\<^verbatim>\<open>base64.c\<close>, \<^verbatim>\<open>base32.c\<close>, \<^verbatim>\<open>hex.c\<close>), \<^theory_text>\<open>Lex\<close> the lexer
  (\<^verbatim>\<open>lex.c\<close>, \<^verbatim>\<open>parseint.c\<close>) and \<^theory_text>\<open>LexText\<close> the readers of such text from the tokens of a line;
  \<^theory_text>\<open>TimeText\<close> has times as text (\<^verbatim>\<open>time.c\<close>).  The lemmas show that the text forms are inverse to each other, that the lexer
  ends on every input without a failed assertion, that a token can be put back, and that both ways of reading agree.

  \<^bold>\<open>Heaps.\<close>  \<^theory_text>\<open>Heap\<close> is \<^verbatim>\<open>heap.c\<close> over any element and any memory the comparison looks at; \<^theory_text>\<open>DnsTime\<close> the serial arithmetic of times.
  \<^theory_text>\<open>SlabHeap\<close> uses the heap for the headers of the red-black tree database (\<^verbatim>\<open>rbtdb.c\<close>, \<^verbatim>\<open>rbt-zonedb.c\<close>), and shows that the schedule of signing times is
  the map from headers to times it stands for; \<^theory_text>\<open>ChainVerify\<close> uses it for the NSEC3 chains of \<^verbatim>\<open>zoneverify.c\<close> and shows what the comparison of the chains decides.

  \<^bold>\<open>Key management.\<close>  \<^theory_text>\<open>Dst\<close> has the metadata of a key (\<^verbatim>\<open>dst_api.c\<close>, \<^verbatim>\<open>key.c\<close>), \<^theory_text>\<open>Kasp\<close> the policy (\<^verbatim>\<open>kasp.c\<close>),
  \<^theory_text>\<open>KeyRules\<close> the DNSSEC rules of \<^verbatim>\<open>keymgr.c\<close>, \<^theory_text>\<open>KeyUpdate\<close> the update loop, \<^theory_text>\<open>KeyRun\<close> the life of a key and the
  entry points.  \<^theory_text>\<open>KeyReadings\<close> shows what the rules answer when a state is pretended, \<^theory_text>\<open>KeySafety\<close> that the chain of trust is kept by every
  update and that an update leaves nothing undone, \<^theory_text>\<open>KeyLife\<close> what holds of new, rolled and purged keys.
  \<^theory_text>\<open>PrivFile\<close> has the writer and the reader of private key files (\<^verbatim>\<open>dst_parse.c\<close>), with the blocks of memory the reader owns, over the lexer, base 64 and times as text;
  \<^theory_text>\<open>PrivRound\<close> shows that a key is read back as it was written, which fields the reader does not come to, and that it frees a block twice after a read error.

  \<^bold>\<open>Interfaces.\<close>  What one part relies on in another is a locale with an interpretation on the definitions of the part that provides it: the sinks octets are
  appended to, the heap over a memory, the codes of \<open>text_codec\<close>, the decoders of \<open>word_decoder\<close>, and others.

  \<^bold>\<open>Loops.\<close>  Loops over data are structural or have a measure.  Others have fuel, and the theorems prove that it is enough: the probing loops of \<^theory_text>\<open>Compress\<close> have the number of slots,
  as a table is never more than three quarters full, so that a search meets an empty slot; the loops of \<^theory_text>\<open>SlabHeap\<close> and \<^theory_text>\<open>ChainVerify\<close> over a heap have the number of its elements; the padding of a base 32 text has eight characters;
  the rounds of a token are at most twice the octets of the source, as a slash that begins no comment is looked at twice; and the readers of a line have its length, as have the loops of \<^theory_text>\<open>PrivFile\<close> over tokens; its loop over fields has \<^verbatim>\<open>MAXFIELDS\<close> rounds, as in the code.
  The loops of \<^theory_text>\<open>TimeText\<close> over years, months and days have the remaining time as their measure.
  The descent in a heap has a guard that only makes the recursion end and always holds.  Two recursions of the key manager can run forever, the successor chain of a ring whose keys name each other in a
  circle and the creation of a key by a library that goes on giving conflicting ones: they are partial functions, and
  the theorems prove that they return.

  \<^bold>\<open>Outside code.\<close>  The cryptographic libraries (OpenSSL, liboqs), the file system and the clock are parameters: the record \<open>keyenv\<close>
  of \<^theory_text>\<open>KeyRun\<close>, and the argument \<open>todns\<close> of \<^theory_text>\<open>Dst\<close>; a file the lexer reads is the octets it has and how the reading ends.

  \<^bold>\<open>Not modelled.\<close>  Sockets, threads, event loop, timers, memory contexts, logging, the record types, the trees and versions of the databases and caches, the resolver,
  query processing, zone loading and transfers, the grammar of the configuration, the control channel and the tools.
\<close>

end
